(* ===== verification/Prelude.thy ===== *)
theory Prelude
  imports Main "HOL-Library.Word" "HOL-Library.List_Lexorder" "HOL-Library.Code_Target_Nat"
begin

text \<open>
  Shared vocabulary of the development: the types of bytes, slices and page memory, the
  reading and writing of byte ranges (\<^verbatim>\<open>memcpy\<close>, \<^verbatim>\<open>memmove\<close>, \<^verbatim>\<open>memset\<close>), unsigned 32-bit
  wrap-around arithmetic on natural numbers, and the faults a run of the program can end
  in. The generic lemmas on byte ranges are collected in \<open>mem_simps\<close>, those on 32-bit
  arithmetic in \<open>u32_simps\<close>; the component theories add to these collections.
\<close>

unbundle bit_operations_syntax

named_theorems mem_simps "reading and writing byte ranges"
named_theorems u32_simps "unsigned 32-bit arithmetic without overflow"

type_synonym byte = "8 word"
type_synonym slice = "byte list"
type_synonym mem = "nat \<Rightarrow> byte"

text \<open>
  The library is compiled without \<^verbatim>\<open>NDEBUG\<close> (\<^verbatim>\<open>CMAKE_CXX_FLAGS_RELEASE\<close> is set to
  \<^verbatim>\<open>-O3\<close> alone), so a failing \<^verbatim>\<open>assert\<close> ends the process just as \<^verbatim>\<open>std::abort\<close>
  does. Both are values of the model, and so is following a null pointer.
\<close>

datatype fault = Abort | AssertFailed | NullDeref

type_synonym 'a result = "fault + 'a"

definition bind_result :: "'a result \<Rightarrow> ('a \<Rightarrow> 'b result) \<Rightarrow> 'b result" where
  "bind_result r f = (case r of Inl e \<Rightarrow> Inl e | Inr x \<Rightarrow> f x)"

lemma bind_result_simps [simp]:
  "bind_result (Inl e) f = Inl e"
  "bind_result (Inr x) f = f x"
  by (simp_all add: bind_result_def)

lemma bind_result_Inr_iff:
  "bind_result r f = Inr y \<longleftrightarrow> (\<exists>x. r = Inr x \<and> f x = Inr y)"
  by (cases r) auto

section \<open>Unsigned 32-bit arithmetic\<close>

definition u32 :: "nat \<Rightarrow> nat" where
  "u32 n = n mod 2 ^ 32"

definition sub32 :: "nat \<Rightarrow> nat \<Rightarrow> nat" where
  "sub32 a b = (u32 a + (2 ^ 32 - u32 b)) mod 2 ^ 32"

lemma u32_less [simp]: "u32 n < 4294967296"
  by (simp add: u32_def)

lemma u32_id [simp, u32_simps]: "n < 2 ^ 32 \<Longrightarrow> u32 n = n"
  by (simp add: u32_def)

lemma sub32_less [simp]: "sub32 a b < 4294967296"
  by (simp add: sub32_def)

lemma sub32_diff [u32_simps]:
  assumes "b \<le> a" "a < 2 ^ 32"
  shows "sub32 a b = a - b"
proof -
  have "sub32 a b = (a - b + 2 ^ 32) mod 2 ^ 32"
    using assms by (simp add: sub32_def)
  also have "\<dots> = (a - b) mod 2 ^ 32"
    by (rule mod_add_self2)
  finally show ?thesis
    using assms by simp
qed

lemma sub32_wrap:
  assumes "a < b" "b < 2 ^ 32"
  shows "sub32 a b = 2 ^ 32 - (b - a)"
  using assms by (simp add: sub32_def)

section \<open>Machine words as numbers\<close>

lemma unat_less_exp: "unat (v :: 'a::len word) < 2 ^ LENGTH('a)"
  by (rule unsigned_less)

lemma unat_exp:
  assumes "k < LENGTH('a)"
  shows "unat (2 ^ k :: 'a::len word) = 2 ^ k"
proof -
  have "unat (of_nat (2 ^ k) :: 'a word) = 2 ^ k mod 2 ^ LENGTH('a)"
    by (rule unat_of_nat)
  also have "\<dots> = 2 ^ k"
    using assms by simp
  finally show ?thesis by simp
qed

lemma unat_of_nat_32: "unat (of_nat n :: 32 word) = u32 n"
  by (simp add: unat_of_nat u32_def)

section \<open>Byte ranges\<close>

definition bytes_at :: "mem \<Rightarrow> nat \<Rightarrow> nat \<Rightarrow> slice" where
  "bytes_at m p n = map m [p ..< p + n]"

definition write_bytes :: "mem \<Rightarrow> nat \<Rightarrow> slice \<Rightarrow> mem" where
  "write_bytes m p xs = (\<lambda>i. if p \<le> i \<and> i < p + length xs then xs ! (i - p) else m i)"

definition memmove :: "mem \<Rightarrow> nat \<Rightarrow> nat \<Rightarrow> nat \<Rightarrow> mem" where
  "memmove m dst src n = write_bytes m dst (bytes_at m src n)"

lemma length_bytes_at [simp]: "length (bytes_at m p n) = n"
  by (simp add: bytes_at_def)

lemma nth_bytes_at [simp]: "i < n \<Longrightarrow> bytes_at m p n ! i = m (p + i)"
  by (simp add: bytes_at_def)

lemma bytes_at_0 [simp]: "bytes_at m p 0 = []"
  by (simp add: bytes_at_def)

lemma write_bytes_Nil [simp]: "write_bytes m p [] = m"
  by (rule ext) (auto simp: write_bytes_def)

lemma bytes_at_cong:
  "(\<And>i. p \<le> i \<Longrightarrow> i < p + n \<Longrightarrow> m i = m' i) \<Longrightarrow> bytes_at m p n = bytes_at m' p n"
  by (simp add: bytes_at_def)

lemma bytes_at_write_same [simp, mem_simps]:
  "bytes_at (write_bytes m p xs) p (length xs) = xs"
  by (rule nth_equalityI) (simp_all add: write_bytes_def)

lemma bytes_at_write_disjoint [mem_simps]:
  "q + n \<le> p \<or> p + length xs \<le> q \<Longrightarrow>
    bytes_at (write_bytes m p xs) q n = bytes_at m q n"
  by (rule bytes_at_cong) (auto simp: write_bytes_def)

lemma bytes_at_write_inside:
  assumes "p \<le> q" "q + n \<le> p + length xs"
  shows "bytes_at (write_bytes m p xs) q n = take n (drop (q - p) xs)"
  using assms by (intro nth_equalityI) (auto simp: write_bytes_def)

lemma bytes_at_append: "bytes_at m p (a + b) = bytes_at m p a @ bytes_at m (p + a) b"
proof -
  have "[p ..< p + (a + b)] = [p ..< p + a] @ [p + a ..< p + a + b]"
    using upt_add_eq_append [of p "p + a" b] by (simp add: add.assoc)
  then show ?thesis
    by (simp add: bytes_at_def)
qed

lemma bytes_at_split:
  "bytes_at m p (length (xs @ ys)) = xs @ ys \<longleftrightarrow>
    bytes_at m p (length xs) = xs \<and> bytes_at m (p + length xs) (length ys) = ys"
  by (simp add: bytes_at_append)

lemma bytes_at_sub:
  assumes "bytes_at m p (length xs) = xs" "i + n \<le> length xs"
  shows "bytes_at m (p + i) n = take n (drop i xs)"
proof (rule nth_equalityI)
  show "length (bytes_at m (p + i) n) = length (take n (drop i xs))"
    using assms(2) by simp
next
  fix j assume "j < length (bytes_at m (p + i) n)"
  then have "j < n" "i + j < length xs" using assms(2) by simp_all
  then have "m (p + (i + j)) = xs ! (i + j)"
    using assms(1) nth_bytes_at [of "i + j" "length xs" m p] by simp
  then show "bytes_at m (p + i) n ! j = take n (drop i xs) ! j"
    using \<open>j < n\<close> assms(2) by (simp add: add.assoc)
qed

lemma write_bytes_outside:
  "i < p \<or> p + length xs \<le> i \<Longrightarrow> write_bytes m p xs i = m i"
  by (auto simp: write_bytes_def)

lemma bytes_at_memmove [mem_simps]:
  "q \<le> r \<Longrightarrow> r + k \<le> q + n \<Longrightarrow>
    bytes_at (memmove m q s n) r k = bytes_at m (s + (r - q)) k"
  unfolding memmove_def
  by (subst bytes_at_write_inside) (auto intro!: nth_equalityI simp: add.assoc)

lemma bytes_at_memmove_disjoint [mem_simps]:
  "r + k \<le> q \<or> q + n \<le> r \<Longrightarrow> bytes_at (memmove m q s n) r k = bytes_at m r k"
  unfolding memmove_def by (rule bytes_at_write_disjoint) simp

end
