(* ===== verification/Coding.thy ===== *)
theory Coding
  imports Prelude
begin

text \<open>
  The byte encodings of \<^verbatim>\<open>leveldb/util/coding.h\<close> and \<^verbatim>\<open>coding.cc\<close>: little-endian fixed
  width integers, variable length integers and length-prefixed slices. An encoder that
  writes through a pointer is modelled by the bytes it writes, a decoder that advances a
  slice by the value and the remaining slice, with \<^const>\<open>None\<close> for its error return. The
  lemmas are the round trips of each encoder with its decoder.
\<close>

section \<open>Fixed width integers\<close>

definition EncodeFixed32 :: "32 word \<Rightarrow> slice" where
  "EncodeFixed32 value =
     [ucast value, ucast (drop_bit 8 value), ucast (drop_bit 16 value), ucast (drop_bit 24 value)]"

definition EncodeFixed64 :: "64 word \<Rightarrow> slice" where
  "EncodeFixed64 value =
     [ucast value, ucast (drop_bit 8 value), ucast (drop_bit 16 value), ucast (drop_bit 24 value),
      ucast (drop_bit 32 value), ucast (drop_bit 40 value), ucast (drop_bit 48 value),
      ucast (drop_bit 56 value)]"

definition DecodeFixed32 :: "slice \<Rightarrow> 32 word" where
  "DecodeFixed32 buffer =
     ucast (buffer ! 0) OR push_bit 8 (ucast (buffer ! 1)) OR
     push_bit 16 (ucast (buffer ! 2)) OR push_bit 24 (ucast (buffer ! 3))"

definition DecodeFixed64 :: "slice \<Rightarrow> 64 word" where
  "DecodeFixed64 buffer =
     ucast (buffer ! 0) OR push_bit 8 (ucast (buffer ! 1)) OR
     push_bit 16 (ucast (buffer ! 2)) OR push_bit 24 (ucast (buffer ! 3)) OR
     push_bit 32 (ucast (buffer ! 4)) OR push_bit 40 (ucast (buffer ! 5)) OR
     push_bit 48 (ucast (buffer ! 6)) OR push_bit 56 (ucast (buffer ! 7))"

definition PutFixed32 :: "slice \<Rightarrow> 32 word \<Rightarrow> slice" where
  "PutFixed32 dst value = dst @ EncodeFixed32 value"

definition PutFixed64 :: "slice \<Rightarrow> 64 word \<Rightarrow> slice" where
  "PutFixed64 dst value = dst @ EncodeFixed64 value"

lemma length_EncodeFixed32 [simp]: "length (EncodeFixed32 v) = 4"
  by (simp add: EncodeFixed32_def)

lemma length_EncodeFixed64 [simp]: "length (EncodeFixed64 v) = 8"
  by (simp add: EncodeFixed64_def)

lemma bit_DecodeFixed32:
  assumes "i < 8"
  shows "bit (DecodeFixed32 b) i = bit (b ! 0) i"
    "bit (DecodeFixed32 b) (i + 8) = bit (b ! 1) i"
    "bit (DecodeFixed32 b) (i + 16) = bit (b ! 2) i"
    "bit (DecodeFixed32 b) (i + 24) = bit (b ! 3) i"
  using assms by (auto simp: DecodeFixed32_def bit_simps dest: bit_imp_le_length)

lemma bit_DecodeFixed64:
  assumes "i < 8"
  shows "bit (DecodeFixed64 b) i = bit (b ! 0) i"
    "bit (DecodeFixed64 b) (i + 8) = bit (b ! 1) i"
    "bit (DecodeFixed64 b) (i + 16) = bit (b ! 2) i"
    "bit (DecodeFixed64 b) (i + 24) = bit (b ! 3) i"
    "bit (DecodeFixed64 b) (i + 32) = bit (b ! 4) i"
    "bit (DecodeFixed64 b) (i + 40) = bit (b ! 5) i"
    "bit (DecodeFixed64 b) (i + 48) = bit (b ! 6) i"
    "bit (DecodeFixed64 b) (i + 56) = bit (b ! 7) i"
  using assms by (auto simp: DecodeFixed64_def bit_simps dest: bit_imp_le_length)

lemma byte_index:
  fixes n :: nat
  obtains i where "i < 8" "n = i + 8 * (n div 8)"
  by (rule that [of "n mod 8"]) simp_all

lemma Decode_EncodeFixed32 [simp]: "DecodeFixed32 (EncodeFixed32 v) = v"
proof (rule bit_word_eqI)
  fix n
  assume "n < LENGTH(32)"
  then have "n div 8 \<in> {0, 1, 2, 3}" by auto
  moreover obtain i where "i < 8" "n = i + 8 * (n div 8)" by (rule byte_index)
  ultimately show "bit (DecodeFixed32 (EncodeFixed32 v)) n = bit v n"
    by (auto simp: bit_DecodeFixed32 EncodeFixed32_def bit_simps add.commute)
qed

lemma Decode_EncodeFixed64 [simp]: "DecodeFixed64 (EncodeFixed64 v) = v"
proof (rule bit_word_eqI)
  fix n
  assume "n < LENGTH(64)"
  then have "n div 8 \<in> {0, 1, 2, 3, 4, 5, 6, 7}" by auto
  moreover obtain i where "i < 8" "n = i + 8 * (n div 8)" by (rule byte_index)
  ultimately show "bit (DecodeFixed64 (EncodeFixed64 v)) n = bit v n"
    by (auto simp: bit_DecodeFixed64 EncodeFixed64_def bit_simps add.commute)
qed

lemma Encode_DecodeFixed32: "EncodeFixed32 (DecodeFixed32 [b0, b1, b2, b3]) = [b0, b1, b2, b3]"
  by (auto intro!: bit_word_eqI simp: EncodeFixed32_def bit_simps bit_DecodeFixed32 add.commute)

lemma DecodeFixed32_append [simp]: "length b = 4 \<Longrightarrow> DecodeFixed32 (b @ r) = DecodeFixed32 b"
  by (simp add: DecodeFixed32_def nth_append)

section \<open>Variable length integers\<close>

definition EncodeVarint32 :: "32 word \<Rightarrow> slice" where
  "EncodeVarint32 v =
     (if v < 2 ^ 7 then [ucast v]
      else if v < 2 ^ 14 then [ucast (v OR 128), ucast (drop_bit 7 v)]
      else if v < 2 ^ 21 then
        [ucast (v OR 128), ucast (drop_bit 7 v OR 128), ucast (drop_bit 14 v)]
      else if v < 2 ^ 28 then
        [ucast (v OR 128), ucast (drop_bit 7 v OR 128), ucast (drop_bit 14 v OR 128),
         ucast (drop_bit 21 v)]
      else
        [ucast (v OR 128), ucast (drop_bit 7 v OR 128), ucast (drop_bit 14 v OR 128),
         ucast (drop_bit 21 v OR 128), ucast (drop_bit 28 v)])"

definition PutVarint32 :: "slice \<Rightarrow> 32 word \<Rightarrow> slice" where
  "PutVarint32 dst v = dst @ EncodeVarint32 v"

lemma unat_drop_bit_less:
  fixes v :: "'a::len word"
  assumes "128 \<le> unat v"
  shows "unat (drop_bit 7 v) < unat v"
proof -
  have "unat (drop_bit 7 v) = drop_bit 7 (unat v)"
    by (rule unat_drop_bit_eq)
  also have "\<dots> = unat v div 128"
    by (simp add: drop_bit_eq_div)
  also have "\<dots> < unat v" using assms by simp
  finally show ?thesis .
qed

function EncodeVarint64 :: "64 word \<Rightarrow> slice" where
  "EncodeVarint64 v =
     (if 128 \<le> v then ucast (v OR 128) # EncodeVarint64 (drop_bit 7 v) else [ucast v])"
  by pat_completeness auto
termination
  by (relation "measure unat") (simp_all add: unat_drop_bit_less word_le_nat_alt)

declare EncodeVarint64.simps [simp del]

definition PutVarint64 :: "slice \<Rightarrow> 64 word \<Rightarrow> slice" where
  "PutVarint64 dst v = dst @ EncodeVarint64 v"

function VarintLength :: "64 word \<Rightarrow> nat" where
  "VarintLength v = (if 128 \<le> v then VarintLength (drop_bit 7 v) + 1 else 1)"
  by pat_completeness auto
termination
  by (relation "measure unat") (simp_all add: unat_drop_bit_less word_le_nat_alt)

declare VarintLength.simps [simp del]

definition PutLengthPrefixedSlice :: "slice \<Rightarrow> slice \<Rightarrow> slice" where
  "PutLengthPrefixedSlice dst value = PutVarint32 dst (of_nat (length value)) @ value"

fun GetVarint32PtrFallback :: "nat \<Rightarrow> 32 word \<Rightarrow> slice \<Rightarrow> (32 word \<times> slice) option" where
  "GetVarint32PtrFallback shift result [] = None"
| "GetVarint32PtrFallback shift result (b # p) =
     (if shift \<le> 28 then
        let byte = ucast b in
        if byte AND 128 \<noteq> 0 then
          GetVarint32PtrFallback (shift + 7) (result OR push_bit shift (byte AND 127)) p
        else Some (result OR push_bit shift byte, p)
      else None)"

definition GetVarint32Ptr :: "slice \<Rightarrow> (32 word \<times> slice) option" where
  "GetVarint32Ptr p =
     (case p of
        b # q \<Rightarrow> if (ucast b :: 32 word) AND 128 = 0 then Some (ucast b, q)
                 else GetVarint32PtrFallback 0 0 p
      | [] \<Rightarrow> GetVarint32PtrFallback 0 0 p)"

definition GetVarint32 :: "slice \<Rightarrow> (32 word \<times> slice) option" where
  "GetVarint32 input = GetVarint32Ptr input"

fun GetVarint64Ptr :: "nat \<Rightarrow> 64 word \<Rightarrow> slice \<Rightarrow> (64 word \<times> slice) option" where
  "GetVarint64Ptr shift result [] = None"
| "GetVarint64Ptr shift result (b # p) =
     (if shift \<le> 63 then
        let byte = ucast b in
        if byte AND 128 \<noteq> 0 then
          GetVarint64Ptr (shift + 7) (result OR push_bit shift (byte AND 127)) p
        else Some (result OR push_bit shift byte, p)
      else None)"

definition GetVarint64 :: "slice \<Rightarrow> (64 word \<times> slice) option" where
  "GetVarint64 input = GetVarint64Ptr 0 0 input"

definition GetLengthPrefixedSlice :: "slice \<Rightarrow> (slice \<times> slice) option" where
  "GetLengthPrefixedSlice input =
     (case GetVarint32 input of
        Some (len, rest) \<Rightarrow>
          if unat len \<le> length rest then Some (take (unat len) rest, drop (unat len) rest)
          else None
      | None \<Rightarrow> None)"

subsection \<open>One byte of a variable length integer\<close>

lemma bit_128: "bit (128 :: 'a::len word) n \<longleftrightarrow> n = 7 \<and> 7 < LENGTH('a)"
proof -
  have "(128 :: 'a word) = push_bit 7 1" by simp
  then show ?thesis by (simp only: bit_simps) auto
qed

lemma mask_127: "(127 :: 'a::len word) = mask 7"
  by (simp add: mask_eq_exp_minus_1)

lemma bit_less_exp:
  fixes v :: "'a::len word"
  assumes "v < 2 ^ k" "k < LENGTH('a)" "bit v n"
  shows "n < k"
  using assms by (metis bit_take_bit_iff less_mask_eq take_bit_eq_mask)

lemma bit_less_128: "(v :: 64 word) < 128 \<Longrightarrow> bit v n \<Longrightarrow> n < 7"
  using bit_less_exp [of v 7 n] by simp

lemma more_byte:
  "(ucast (ucast (v OR 128 :: 64 word) :: byte) :: 32 word) AND 128 \<noteq> 0"
  "(ucast (ucast (v OR 128 :: 64 word) :: byte) :: 64 word) AND 128 \<noteq> 0"
  by (auto simp: bit_eq_iff bit_simps bit_128 simp del: bit_numeral_word_iff intro!: exI [of _ 7])

lemma last_byte:
  assumes "(v :: 64 word) < 128"
  shows "(ucast (ucast v :: byte) :: 32 word) AND 128 = 0"
    and "(ucast (ucast v :: byte) :: 64 word) AND 128 = 0"
    and "(ucast (ucast v :: byte) :: 32 word) = ucast v"
    and "(ucast (ucast v :: byte) :: 64 word) = v"
    and "(ucast v :: 32 word) AND 128 = 0"
    and "v AND 128 = 0"
  by (rule bit_word_eqI;
      use bit_less_128 [OF assms] in \<open>fastforce simp: bit_simps bit_128 simp del: bit_numeral_word_iff\<close>)+

lemma low_seven:
  "((ucast (ucast (v OR 128 :: 64 word) :: byte) :: 32 word) AND 127) = take_bit 7 (ucast v)"
  "((ucast (ucast (v OR 128 :: 64 word) :: byte) :: 64 word) AND 127) = take_bit 7 v"
  by (rule bit_word_eqI;
      auto simp: bit_simps bit_128 mask_127 simp del: bit_numeral_word_iff)+

lemma push_bit_pieces:
  fixes v :: "'a::len word"
  shows "push_bit s (take_bit 7 v) OR push_bit (s + 7) (drop_bit 7 v) = push_bit s v"
proof (rule bit_word_eqI)
  fix n
  assume "n < LENGTH('a)"
  then show "bit (push_bit s (take_bit 7 v) OR push_bit (s + 7) (drop_bit 7 v)) n
      = bit (push_bit s v) n"
    by (cases "s + 7 \<le> n") (auto simp: bit_simps)
qed

lemma step_byte_64:
  "push_bit s ((ucast (ucast (v OR 128 :: 64 word) :: byte) :: 64 word) AND 127) OR
     push_bit (s + 7) (drop_bit 7 v) = push_bit s v"
  by (simp add: low_seven push_bit_pieces)

lemma ucast_drop_bit_32:
  assumes "unat (v :: 64 word) < 2 ^ 32"
  shows "(ucast (drop_bit 7 v) :: 32 word) = drop_bit 7 (ucast v)"
proof (rule bit_word_eqI)
  fix n
  have "bit v m \<Longrightarrow> m < 32" for m
    using assms by (intro bit_less_exp [of v 32]) (simp_all add: word_less_nat_alt)
  then show "bit (ucast (drop_bit 7 v) :: 32 word) n = bit (drop_bit 7 (ucast v) :: 32 word) n"
    by (fastforce simp: bit_simps)
qed

lemma step_byte_32:
  assumes "unat v < 2 ^ 32"
  shows "push_bit s ((ucast (ucast (v OR 128 :: 64 word) :: byte) :: 32 word) AND 127) OR
     push_bit (s + 7) (ucast (drop_bit 7 v)) = push_bit s (ucast v)"
  using assms by (simp add: low_seven ucast_drop_bit_32 push_bit_pieces)

subsection \<open>Round trips\<close>

lemma unat_ucast_64: "unat (ucast (v :: 32 word) :: 64 word) = unat v"
  using unat_less_exp [of v] by (simp add: unsigned_ucast_eq take_bit_nat_eq_self)

lemma ucast_ucast_32: "ucast (ucast (v :: 32 word) :: 64 word) = v"
  by (rule bit_word_eqI) (simp add: bit_simps)

lemma unat_drop_bit_7: "unat (drop_bit 7 (v :: 64 word)) = unat v div 128"
  using unat_drop_bit_eq [of 7 v] by (simp add: drop_bit_eq_div)

lemma GetVarint64Ptr_Encode:
  assumes "unat v < 2 ^ (64 - s)" "s \<le> 63"
  shows "GetVarint64Ptr s r (EncodeVarint64 v @ rest) = Some (r OR push_bit s v, rest)"
  using assms
proof (induction v arbitrary: s r rule: EncodeVarint64.induct)
  case (1 v)
  show ?case
  proof (cases "128 \<le> v")
    case True
    then have "2 ^ 7 \<le> unat v" by (simp add: word_le_nat_alt)
    then have "(2::nat) ^ 7 < 2 ^ (64 - s)"
      using "1.prems"(1) by (rule order.strict_trans1)
    then have s: "s + 7 \<le> 63"
      using power_less_imp_less_exp [of "2::nat" 7 "64 - s"] by simp
    then have "unat (drop_bit 7 v) < 2 ^ (64 - (s + 7))"
      using "1.prems"(1) power_add [of "2::nat" "64 - (s + 7)" 7]
      by (simp add: unat_drop_bit_7 less_mult_imp_div_less)
    from "1.IH" [OF True this s] True show ?thesis
      using s by (simp add: EncodeVarint64.simps [of v] Let_def more_byte or.assoc step_byte_64 del: push_bit_and)
  next
    case False
    then have "v < 128" by simp
    then show ?thesis
      using "1.prems"(2) False by (simp add: EncodeVarint64.simps [of v] Let_def last_byte)
  qed
qed

lemma GetVarint32PtrFallback_Encode:
  assumes "unat v < 2 ^ (32 - s)" "s \<le> 28" "s mod 7 = 0"
  shows "GetVarint32PtrFallback s r (EncodeVarint64 v @ rest)
           = Some (r OR push_bit s (ucast v), rest)"
  using assms
proof (induction v arbitrary: s r rule: EncodeVarint64.induct)
  case (1 v)
  show ?case
  proof (cases "128 \<le> v")
    case True
    then have "2 ^ 7 \<le> unat v" by (simp add: word_le_nat_alt)
    then have "(2::nat) ^ 7 < 2 ^ (32 - s)"
      using "1.prems"(1) by (rule order.strict_trans1)
    then have "s < 25"
      using power_less_imp_less_exp [of "2::nat" 7 "32 - s"] by simp
    with "1.prems"(3) have s: "s + 7 \<le> 28" "(s + 7) mod 7 = 0" by presburger+
    then have "unat (drop_bit 7 v) < 2 ^ (32 - (s + 7))"
      using "1.prems"(1) power_add [of "2::nat" "32 - (s + 7)" 7]
      by (simp add: unat_drop_bit_7 less_mult_imp_div_less)
    moreover have "unat v < 2 ^ 32"
      using "1.prems"(1) by (rule order.strict_trans2) (rule power_increasing, simp_all)
    ultimately show ?thesis
      using "1.IH" [OF True _ s] True s
      by (simp add: EncodeVarint64.simps [of v] Let_def more_byte or.assoc step_byte_32 del: push_bit_and)
  next
    case False
    then have "v < 128" by simp
    then show ?thesis
      using "1.prems"(2) False by (simp add: EncodeVarint64.simps [of v] Let_def last_byte)
  qed
qed

lemma le_drop_bit_ucast:
  assumes "k + 7 < 32"
  shows "(128 \<le> drop_bit k (ucast (v :: 32 word) :: 64 word)) = (\<not> v < 2 ^ (k + 7))"
proof -
  have "unat (drop_bit k (ucast v :: 64 word)) = unat v div 2 ^ k"
    using unat_drop_bit_eq [of k "ucast v :: 64 word"]
    by (simp add: drop_bit_eq_div unat_ucast_64)
  moreover have "unat (2 ^ (k + 7) :: 32 word) = 128 * 2 ^ k"
    using assms unat_exp [of "k + 7", where 'a = 32] by (simp add: power_add mult.commute)
  ultimately show ?thesis
    by (simp add: word_le_nat_alt word_less_nat_alt less_eq_div_iff_mult_less_eq not_less)
qed

lemma byte_of_drop_bit:
  "(ucast (drop_bit k (ucast (v :: 32 word) :: 64 word) OR 128) :: byte) = ucast (drop_bit k v OR 128)"
  "(ucast (drop_bit k (ucast (v :: 32 word) :: 64 word)) :: byte) = ucast (drop_bit k v)"
  by (rule bit_word_eqI;
      auto simp: bit_simps bit_128 simp del: bit_numeral_word_iff dest: bit_imp_le_length)+

lemma EncodeVarint64_drop_bit:
  "EncodeVarint64 (drop_bit k (ucast (v :: 32 word))) =
     (if 128 \<le> drop_bit k (ucast v :: 64 word)
      then ucast (drop_bit k v OR 128) # EncodeVarint64 (drop_bit (k + 7) (ucast v))
      else [ucast (drop_bit k v)])"
  by (subst EncodeVarint64.simps) (simp add: byte_of_drop_bit add.commute)

lemma EncodeVarint32_eq: "EncodeVarint32 v = EncodeVarint64 (ucast v)"
proof -
  have "unat (drop_bit 28 (ucast v :: 64 word)) = unat v div 2 ^ 28"
    using unat_drop_bit_eq [of 28 "ucast v :: 64 word"]
    by (simp add: drop_bit_eq_div unat_ucast_64)
  also have "\<dots> < 2 ^ 4"
    using unat_less_exp [of v] by (simp add: less_mult_imp_div_less)
  finally have "\<not> 128 \<le> drop_bit 28 (ucast v :: 64 word)"
    by (simp add: word_le_nat_alt)
  then show ?thesis
    using EncodeVarint64_drop_bit [of 0 v] EncodeVarint64_drop_bit [of 7 v]
      EncodeVarint64_drop_bit [of 14 v] EncodeVarint64_drop_bit [of 21 v]
      EncodeVarint64_drop_bit [of 28 v] le_drop_bit_ucast [of 0 v] le_drop_bit_ucast [of 7 v]
      le_drop_bit_ucast [of 14 v] le_drop_bit_ucast [of 21 v]
    by (simp add: EncodeVarint32_def del: drop_bit_drop_bit)
qed

lemma VarintLength_eq: "VarintLength v = length (EncodeVarint64 v)"
  by (induction v rule: EncodeVarint64.induct)
    (simp add: VarintLength.simps EncodeVarint64.simps)

lemma GetVarint32_PutVarint32: "GetVarint32 (EncodeVarint32 v @ rest) = Some (v, rest)"
proof -
  have "unat (ucast v :: 64 word) < 2 ^ 32"
    using unat_less_exp [of v] by (simp add: unat_ucast_64)
  then have *: "GetVarint32PtrFallback 0 0 (EncodeVarint32 v @ rest) = Some (v, rest)"
    using GetVarint32PtrFallback_Encode [of "ucast v" 0 0 rest]
    by (simp add: EncodeVarint32_eq ucast_ucast_32)
  obtain b q where bq: "EncodeVarint32 v @ rest = b # q"
    by (cases "EncodeVarint32 v") (auto simp: EncodeVarint32_def split: if_splits)
  show ?thesis
    using * by (auto simp: GetVarint32_def GetVarint32Ptr_def bq Let_def split: if_splits)
qed

lemma GetVarint64_PutVarint64: "GetVarint64 (EncodeVarint64 v @ rest) = Some (v, rest)"
  using GetVarint64Ptr_Encode [of v 0 0 rest] unat_less_exp [of v]
  by (simp add: GetVarint64_def)

lemma GetLengthPrefixedSlice_Put:
  assumes "length value < 2 ^ 32"
  shows "GetLengthPrefixedSlice (PutLengthPrefixedSlice [] value @ rest) = Some (value, rest)"
  using assms
  by (simp add: GetLengthPrefixedSlice_def PutLengthPrefixedSlice_def PutVarint32_def
      GetVarint32_PutVarint32 unat_of_nat_32)

section \<open>Arrays of fixed-width words\<close>

lemma fold_PutFixed32: "fold (\<lambda>off dst. PutFixed32 dst off) xs dst = dst @ concat (map EncodeFixed32 xs)"
  by (induction xs arbitrary: dst) (simp_all add: PutFixed32_def)

lemma drop_Encode: "i \<le> length xs \<Longrightarrow> drop (i * 4) (concat (map EncodeFixed32 xs)) = concat (map EncodeFixed32 (drop i xs))"
proof (induction xs arbitrary: i)
  case (Cons x xs)
  then show ?case by (cases i) simp_all
qed simp

lemma length_Encodes: "length (concat (map EncodeFixed32 xs)) = 4 * length xs"
  by (induction xs) simp_all

lemma decode_word:
  assumes "i < length xs"
  shows "DecodeFixed32 (drop (length r + i * 4) (r @ concat (map EncodeFixed32 xs) @ t)) = xs ! i"
proof -
  have "drop i xs = xs ! i # drop (Suc i) xs" using assms by (simp add: Cons_nth_drop_Suc)
  then have "drop (i * 4) (concat (map EncodeFixed32 xs) @ t) = EncodeFixed32 (xs ! i) @ concat (map EncodeFixed32 (drop (Suc i) xs)) @ t"
    using drop_Encode [of i xs] assms length_Encodes [of xs] by simp
  then show ?thesis by (simp add: add.commute)
qed

section \<open>Properties\<close>

text \<open>C40. The varint decoders undo the encoders: reading what \<^verbatim>\<open>PutVarint32\<close> or \<^verbatim>\<open>PutVarint64\<close>
  appended returns the number and leaves exactly the bytes that follow it, and \<^verbatim>\<open>VarintLength\<close>
  is the number of bytes written.\<close>

theorem varint_roundtrip:
  "GetVarint32 (PutVarint32 [] v @ rest) = Some (v, rest) \<and>
   GetVarint64 (PutVarint64 [] w @ rest) = Some (w, rest) \<and>
   length (PutVarint64 dst w) = length dst + VarintLength w"
  by (simp add: PutVarint32_def PutVarint64_def GetVarint32_PutVarint32 GetVarint64_PutVarint64 VarintLength_eq)

end
