(* ===== verification/SliceCmp.thy ===== *)
theory SliceCmp
  imports Coding
begin

text \<open>
  Key comparison: \<^verbatim>\<open>Slice::compare\<close> (\<^verbatim>\<open>leveldb/include/slice.h\<close>) and the bytewise comparator
  of \<^verbatim>\<open>leveldb/util/comparator.cc\<close>. A slice is the list of the bytes it refers to. The
  lemmas identify \<^verbatim>\<open>Slice::compare\<close> with the lexicographic order of byte lists (the
  \<^verbatim>\<open>linorder\<close> of \<^verbatim>\<open>List_Lexorder\<close>), and the locale \<open>key_comparator\<close> states what
  \<^verbatim>\<open>Comparator\<close> promises to the tables and indexes that use it.
\<close>

section \<open>Slice comparison\<close>

text \<open>\<^verbatim>\<open>memcmp\<close> compares the first \<open>n\<close> bytes as unsigned characters.\<close>

fun memcmp :: "slice \<Rightarrow> slice \<Rightarrow> nat \<Rightarrow> int" where
  "memcmp (x # xs) (y # ys) n =
     (if n = 0 then 0 else if x < y then -1 else if y < x then 1 else memcmp xs ys (n - 1))"
| "memcmp xs ys n = 0"

definition Slice_compare :: "slice \<Rightarrow> slice \<Rightarrow> int" where
  "Slice_compare a b =
     (let min_len = (if length a < length b then length a else length b);
          r = memcmp a b min_len
      in if r = 0
         then (if length a < length b then -1 else if length a > length b then 1 else r)
         else r)"

definition starts_with :: "slice \<Rightarrow> slice \<Rightarrow> bool" where
  "starts_with a x \<longleftrightarrow> length x \<le> length a \<and> memcmp a x (length x) = 0"

definition Slice_eq :: "slice \<Rightarrow> slice \<Rightarrow> bool" where
  "Slice_eq x y \<longleftrightarrow> length x = length y \<and> memcmp x y (length x) = 0"

lemma Slice_compare_Nil [simp]:
  "Slice_compare [] b = (if b = [] then 0 else -1)"
  "Slice_compare a [] = (if a = [] then 0 else 1)"
  by (auto simp: Slice_compare_def)

lemma Slice_compare_Cons [simp]:
  "Slice_compare (x # a) (y # b) = (if x < y then -1 else if y < x then 1 else Slice_compare a b)"
  by (auto simp: Slice_compare_def Let_def)

lemma Slice_compare_cases:
  "Slice_compare a b = (if a < b then -1 else if a = b then 0 else 1)"
proof (induction a arbitrary: b)
  case Nil
  then show ?case by (cases b) auto
next
  case (Cons x a)
  then show ?case by (cases b) auto
qed

lemma Slice_compare_lt [simp]: "Slice_compare a b < 0 \<longleftrightarrow> a < b"
  and Slice_compare_gt [simp]: "0 < Slice_compare a b \<longleftrightarrow> b < a"
  and Slice_compare_eq [simp]: "Slice_compare a b = 0 \<longleftrightarrow> a = b"
  and Slice_compare_le [simp]: "Slice_compare a b \<le> 0 \<longleftrightarrow> a \<le> b"
  and Slice_compare_ge [simp]: "0 \<le> Slice_compare a b \<longleftrightarrow> b \<le> a"
  by (auto simp: Slice_compare_cases)

lemma memcmp_eq_0_iff: "n \<le> length a \<Longrightarrow> n \<le> length b \<Longrightarrow> memcmp a b n = 0 \<longleftrightarrow> take n a = take n b"
  by (induction a b n rule: memcmp.induct) (auto simp: take_Cons')

lemma Slice_eq_iff: "Slice_eq x y \<longleftrightarrow> x = y"
  by (auto simp: Slice_eq_def memcmp_eq_0_iff)

lemma starts_with_iff: "starts_with a x \<longleftrightarrow> (\<exists>r. a = x @ r)"
proof -
  have "length x \<le> length a" if "take (length x) a = x"
    using arg_cong [OF that, of length] by simp
  then have "starts_with a x \<longleftrightarrow> take (length x) a = x"
    by (auto simp: starts_with_def memcmp_eq_0_iff)
  also have "\<dots> \<longleftrightarrow> (\<exists>r. a = x @ r)"
    by (metis append_eq_conv_conj append_take_drop_id)
  finally show ?thesis .
qed

section \<open>What a comparator promises\<close>

text \<open>
  The contract of \<^verbatim>\<open>leveldb/include/comparator.h\<close>: a total preorder on the keys it is used
  with (\<open>key_order\<close>, all that an ordered container needs), and the two advisory functions that shorten the keys of index blocks. The sign of
  the result of \<^verbatim>\<open>Compare\<close> is all a caller may use.
\<close>

locale key_order =
  fixes valid :: "'k \<Rightarrow> bool"
    and cmp :: "'k \<Rightarrow> 'k \<Rightarrow> int"
  assumes cmp_antisym: "valid a \<Longrightarrow> valid b \<Longrightarrow> sgn (cmp a b) = - sgn (cmp b a)"
    and cmp_trans: "valid a \<Longrightarrow> valid b \<Longrightarrow> valid c \<Longrightarrow> cmp a b \<le> 0 \<Longrightarrow> cmp b c \<le> 0 \<Longrightarrow> cmp a c \<le> 0"
begin

lemma cmp_refl: "valid a \<Longrightarrow> cmp a a = 0"
  using cmp_antisym [of a a] by (simp add: sgn_if split: if_splits)

lemma cmp_flip:
  assumes "valid a" "valid b"
  shows "cmp a b < 0 \<longleftrightarrow> 0 < cmp b a" "cmp a b = 0 \<longleftrightarrow> cmp b a = 0"
  using cmp_antisym [OF assms] by (auto simp: sgn_if split: if_splits)

lemma cmp_total: "valid a \<Longrightarrow> valid b \<Longrightarrow> cmp a b \<le> 0 \<or> cmp b a \<le> 0"
  using cmp_flip [of a b] by linarith

lemma cmp_eq_trans:
  assumes "valid a" "valid b" "valid c" "cmp a b = 0" "cmp b c = 0"
  shows "cmp a c = 0"
proof -
  have "cmp a c \<le> 0" "cmp c a \<le> 0"
    using cmp_trans [of a b c] cmp_trans [of c b a] cmp_flip(2) [of a b] cmp_flip(2) [of b c] assms
    by simp_all
  then show ?thesis using cmp_flip [of a c] assms by linarith
qed

lemma cmp_le_less_trans:
  assumes "valid a" "valid b" "valid c" "cmp a b \<le> 0" "cmp b c < 0"
  shows "cmp a c < 0"
proof (rule ccontr)
  assume "\<not> cmp a c < 0"
  then have "cmp c a \<le> 0" using cmp_flip [of a c] assms(1,3) by linarith
  then have "cmp c b \<le> 0" using cmp_trans [of c a b] assms by blast
  then show False using cmp_flip [of b c] assms by linarith
qed

lemma cmp_less_trans:
  assumes "valid a" "valid b" "valid c" "cmp a b < 0" "cmp b c \<le> 0"
  shows "cmp a c < 0"
proof (rule ccontr)
  assume "\<not> cmp a c < 0"
  then have "cmp c a \<le> 0" using cmp_flip [of a c] assms(1,3) by linarith
  then have "cmp b a \<le> 0" using cmp_trans [of b c a] assms by blast
  then show False using cmp_flip [of a b] assms by linarith
qed

end

locale key_comparator = key_order valid cmp
  for valid :: "slice \<Rightarrow> bool" and cmp :: "slice \<Rightarrow> slice \<Rightarrow> int" +
  fixes sep :: "slice \<Rightarrow> slice \<Rightarrow> slice result"
    and short_succ :: "slice \<Rightarrow> slice result"
  assumes sep_law: "valid s \<Longrightarrow> valid l \<Longrightarrow> cmp s l < 0 \<Longrightarrow>
      \<exists>r. sep s l = Inr r \<and> valid r \<and> cmp s r \<le> 0 \<and> cmp r l < 0"
    and sep_same: "valid s \<Longrightarrow> valid l \<Longrightarrow> cmp s l = 0 \<Longrightarrow>
      \<exists>r. sep s l = Inr r \<and> valid r \<and> cmp r l \<le> 0"
    and succ_law: "valid k \<Longrightarrow> \<exists>r. short_succ k = Inr r \<and> valid r \<and> cmp k r \<le> 0"

section \<open>The bytewise comparator\<close>

definition Bytewise_Compare :: "slice \<Rightarrow> slice \<Rightarrow> int" where
  "Bytewise_Compare a b = Slice_compare a b"

text \<open>The loop that finds the length of the common prefix.\<close>

fun diff_index :: "slice \<Rightarrow> slice \<Rightarrow> nat" where
  "diff_index (x # start) (y # limit) = (if x = y then Suc (diff_index start limit) else 0)"
| "diff_index start limit = 0"

definition Bytewise_FindShortestSeparator :: "slice \<Rightarrow> slice \<Rightarrow> slice result" where
  "Bytewise_FindShortestSeparator start limit =
     (let min_length = min (length start) (length limit); d = diff_index start limit in
      if min_length \<le> d then Inr start
      else let diff_byte = start ! d in
        if diff_byte < 255 \<and> unat diff_byte + 1 < unat (limit ! d) then
          let start' = take d start @ [diff_byte + 1] in
          if Bytewise_Compare start' limit < 0 then Inr start' else Inl AssertFailed
        else Inr start)"

fun Bytewise_FindShortSuccessor :: "slice \<Rightarrow> slice" where
  "Bytewise_FindShortSuccessor [] = []"
| "Bytewise_FindShortSuccessor (b # key) =
     (if b \<noteq> 255 then [b + 1] else b # Bytewise_FindShortSuccessor key)"

lemma succ_byte:
  fixes b :: byte
  assumes "b \<noteq> 255"
  shows "b < b + 1" "unat (b + 1) = unat b + 1"
proof -
  have "unat b \<noteq> 255" using assms by (simp add: word_unat_eq_iff)
  then have "unat b < 255" using unat_less_exp [of b] by simp
  then show "unat (b + 1) = unat b + 1"
    by (simp add: unat_word_ariths)
  then show "b < b + 1"
    by (simp add: word_less_nat_alt)
qed

lemma diff_index_split:
  assumes "diff_index s l < min (length s) (length l)"
  shows "\<exists>p x y s' l'. s = p @ x # s' \<and> l = p @ y # l' \<and> x \<noteq> y \<and> length p = diff_index s l"
  using assms
proof (induction s l rule: diff_index.induct)
  case (1 x s y l)
  show ?case
  proof (cases "x = y")
    case True
    with 1 obtain p u v s' l' where
      "s = p @ u # s'" "l = p @ v # l'" "u \<noteq> v" "length p = diff_index s l"
      by auto
    with True show ?thesis
      by (intro exI [of _ "x # p"] exI [of _ u] exI [of _ v] exI [of _ s'] exI [of _ l']) simp
  next
    case False
    then show ?thesis
      by (intro exI [of _ "[]"] exI [of _ x] exI [of _ y] exI [of _ s] exI [of _ l]) simp
  qed
qed auto

lemma append_less_same [simp]: "(p @ a :: slice) < p @ b \<longleftrightarrow> a < b"
  by (induction p) auto

lemma append_le_same [simp]: "(p @ a :: slice) \<le> p @ b \<longleftrightarrow> a \<le> b"
  by (induction p) auto

lemma Bytewise_FindShortestSeparator_bounds:
  assumes "start < limit"
  shows "\<exists>r. Bytewise_FindShortestSeparator start limit = Inr r \<and> start \<le> r \<and> r < limit \<and>
    length r \<le> length start"
proof (cases "diff_index start limit < min (length start) (length limit)")
  case False
  then have "min (length start) (length limit) \<le> diff_index start limit" by (simp only: not_less)
  then show ?thesis using assms by (simp add: Bytewise_FindShortestSeparator_def)
next
  case True
  then obtain p x y s' l' where *: "start = p @ x # s'" "limit = p @ y # l'" "x \<noteq> y"
    "length p = diff_index start limit"
    using diff_index_split by blast
  show ?thesis
  proof (cases "x < 255 \<and> unat x + 1 < unat y")
    case True
    then have "x \<noteq> 255" by auto
    with True have "x < x + 1" "x + 1 < y" "x < y"
      using succ_byte [of x] by (auto simp: word_less_nat_alt)
    with True show ?thesis
      using * by (simp add: Bytewise_FindShortestSeparator_def Bytewise_Compare_def Let_def
          nth_append flip: *(4))
  next
    case False
    then show ?thesis
      using * assms by (auto simp: Bytewise_FindShortestSeparator_def Let_def
          nth_append simp flip: *(4))
  qed
qed

lemma Bytewise_FindShortSuccessor_le:
  "key \<le> Bytewise_FindShortSuccessor key \<and> length (Bytewise_FindShortSuccessor key) \<le> length key"
  by (induction key) (auto simp: succ_byte)

interpretation bytewise: key_comparator
  "\<lambda>_. True" Bytewise_Compare Bytewise_FindShortestSeparator
  "\<lambda>k. Inr (Bytewise_FindShortSuccessor k)"
proof unfold_locales
  fix a b :: slice
  show "sgn (Bytewise_Compare a b) = - sgn (Bytewise_Compare b a)"
    by (auto simp: Bytewise_Compare_def Slice_compare_cases)
next
  fix s l :: slice
  assume "Bytewise_Compare s l < 0"
  then show "\<exists>r. Bytewise_FindShortestSeparator s l = Inr r \<and> True \<and>
      Bytewise_Compare s r \<le> 0 \<and> Bytewise_Compare r l < 0"
    using Bytewise_FindShortestSeparator_bounds [of s l] by (auto simp: Bytewise_Compare_def)
next
  fix s l :: slice
  assume "Bytewise_Compare s l = 0"
  then have "s = l" by (simp add: Bytewise_Compare_def)
  moreover have "diff_index l l = length l" by (induction l) auto
  ultimately show "\<exists>r. Bytewise_FindShortestSeparator s l = Inr r \<and> True \<and> Bytewise_Compare r l \<le> 0"
    by (simp add: Bytewise_FindShortestSeparator_def Bytewise_Compare_def)
qed (auto simp: Bytewise_Compare_def Bytewise_FindShortSuccessor_le)

section \<open>Properties\<close>

text \<open>For \<^verbatim>\<open>start < limit\<close> the bytewise comparator's shortest separator is a key between
  them, \<^verbatim>\<open>start <= r < limit\<close>, no longer than \<^verbatim>\<open>start\<close>; the assertion in the function never
  fails.\<close>

theorem shortest_separator_between:
  assumes "start < limit"
  shows "\<exists>r. Bytewise_FindShortestSeparator start limit = Inr r \<and> start \<le> r \<and> r < limit \<and>
    length r \<le> length start"
  by (rule Bytewise_FindShortestSeparator_bounds [OF assms])

theorem shortest_separator_between_witness:
  "\<exists>r. Bytewise_FindShortestSeparator [1, 7] [4] = Inr r \<and> [1, 7] \<le> r \<and> r < [4] \<and>
    length r \<le> length [1, 7 :: byte]"
  by (rule shortest_separator_between) simp

end
