(* ===== verification/DbFormat.thy ===== *)
theory DbFormat
  imports SliceCmp
begin

text \<open>
  The internal key format of \<^verbatim>\<open>leveldb/dbformat.h\<close> and \<^verbatim>\<open>dbformat.cc\<close>: a user key followed
  by eight bytes that pack a sequence number and a value type. The internal comparator
  orders by increasing user key and then by decreasing sequence number; the lemmas show
  that it meets the comparator contract whenever its user comparator does, and that
  parsing undoes building.
\<close>

section \<open>Internal keys\<close>

datatype ValueType = kTypeDeletion | kTypeValue

fun type_code :: "ValueType \<Rightarrow> nat" where
  "type_code kTypeDeletion = 0"
| "type_code kTypeValue = 1"

definition kValueTypeForSeek :: ValueType where
  "kValueTypeForSeek = kTypeValue"

definition kMaxSequenceNumber :: "64 word" where
  "kMaxSequenceNumber = push_bit 56 1 - 1"

record ParsedInternalKey =
  user_key :: slice
  sequence_no :: "64 word"
  val_type :: ValueType

definition InternalKeyEncodingLength :: "ParsedInternalKey \<Rightarrow> nat" where
  "InternalKeyEncodingLength key = length (user_key key) + 8"

definition PackSequenceAndType :: "64 word \<Rightarrow> ValueType \<Rightarrow> 64 word result" where
  "PackSequenceAndType seq t =
     (if \<not> seq \<le> kMaxSequenceNumber then Inl AssertFailed
      else if \<not> type_code t \<le> type_code kValueTypeForSeek then Inl AssertFailed
      else Inr (push_bit 8 seq OR of_nat (type_code t)))"

definition AppendInternalKey :: "slice \<Rightarrow> ParsedInternalKey \<Rightarrow> slice result" where
  "AppendInternalKey dst key =
     bind_result (PackSequenceAndType (sequence_no key) (val_type key))
       (\<lambda>tag. Inr (PutFixed64 (dst @ user_key key) tag))"

definition ExtractUserKey :: "slice \<Rightarrow> slice result" where
  "ExtractUserKey internal_key =
     (if \<not> 8 \<le> length internal_key then Inl AssertFailed
      else Inr (take (length internal_key - 8) internal_key))"

text \<open>
  The enum cast of an unknown type byte has no counterpart in \<^typ>\<open>ValueType\<close>; the function
  then returns false, and a caller may not use the result.
\<close>

definition ParseInternalKey :: "slice \<Rightarrow> ParsedInternalKey option" where
  "ParseInternalKey internal_key =
     (let n = length internal_key in
      if n < 8 then None
      else let num = DecodeFixed64 (drop (n - 8) internal_key);
               c = num AND 255;
               mk = (\<lambda>t. Some \<lparr>user_key = take (n - 8) internal_key,
                               sequence_no = drop_bit 8 num, val_type = t\<rparr>)
           in if c = 0 then mk kTypeDeletion else if c = 1 then mk kTypeValue else None)"

section \<open>The internal key comparator\<close>

text \<open>
  \<^verbatim>\<open>Compare\<close> asserts that both keys have at least eight bytes. The value of the model on
  shorter keys is never used: the contract below is about keys of that length.
\<close>

definition pure_key :: "slice \<Rightarrow> slice" where
  "pure_key k = take (length k - 8) k"

definition key_tag :: "slice \<Rightarrow> 64 word" where
  "key_tag k = DecodeFixed64 (drop (length k - 8) k)"

definition InternalKey_Compare :: "(slice \<Rightarrow> slice \<Rightarrow> int) \<Rightarrow> slice \<Rightarrow> slice \<Rightarrow> int" where
  "InternalKey_Compare user_cmp akey bkey =
     (let r = user_cmp (pure_key akey) (pure_key bkey) in
      if r = 0 then
        let anum = key_tag akey; bnum = key_tag bkey in
        if anum > bnum then -1 else if anum < bnum then 1 else r
      else r)"

definition InternalKey_FindShortestSeparator ::
  "(slice \<Rightarrow> slice \<Rightarrow> int) \<Rightarrow> (slice \<Rightarrow> slice \<Rightarrow> slice result) \<Rightarrow> slice \<Rightarrow> slice \<Rightarrow> slice result" where
  "InternalKey_FindShortestSeparator user_cmp user_sep start limit =
     bind_result (ExtractUserKey start) (\<lambda>user_start.
     bind_result (ExtractUserKey limit) (\<lambda>user_limit.
     bind_result (user_sep user_start user_limit) (\<lambda>tmp.
       if length tmp < length user_start \<and> user_cmp user_start tmp < 0 then
         bind_result (PackSequenceAndType kMaxSequenceNumber kValueTypeForSeek) (\<lambda>tag.
           let tmp' = PutFixed64 tmp tag in
           if \<not> InternalKey_Compare user_cmp start tmp' < 0 then Inl AssertFailed
           else if \<not> InternalKey_Compare user_cmp tmp' limit < 0 then Inl AssertFailed
           else Inr tmp')
       else Inr start)))"

definition InternalKey_FindShortSuccessor ::
  "(slice \<Rightarrow> slice \<Rightarrow> int) \<Rightarrow> (slice \<Rightarrow> slice result) \<Rightarrow> slice \<Rightarrow> slice result" where
  "InternalKey_FindShortSuccessor user_cmp user_succ key =
     bind_result (ExtractUserKey key) (\<lambda>ukey.
     bind_result (user_succ ukey) (\<lambda>tmp.
       if length tmp < length ukey \<and> user_cmp ukey tmp < 0 then
         bind_result (PackSequenceAndType kMaxSequenceNumber kValueTypeForSeek) (\<lambda>tag.
           let tmp' = PutFixed64 tmp tag in
           if \<not> InternalKey_Compare user_cmp key tmp' < 0 then Inl AssertFailed
           else Inr tmp')
       else Inr key))"

section \<open>Lookup keys\<close>

text \<open>
  The array a lookup key builds (\<^verbatim>\<open>start_\<close> to \<^verbatim>\<open>end_\<close>) and the position of \<^verbatim>\<open>kstart_\<close>.
\<close>

record LookupKey =
  lk_buf :: slice
  lk_kstart :: nat

definition mk_LookupKey :: "slice \<Rightarrow> 64 word \<Rightarrow> LookupKey result" where
  "mk_LookupKey ukey s =
     (let usize = length ukey; prefix = EncodeVarint32 (of_nat (usize + 8)) in
      bind_result (PackSequenceAndType s kValueTypeForSeek) (\<lambda>tag.
        Inr \<lparr>lk_buf = prefix @ ukey @ EncodeFixed64 tag, lk_kstart = length prefix\<rparr>))"

definition memtable_key :: "LookupKey \<Rightarrow> slice" where
  "memtable_key lk = lk_buf lk"

definition internal_key :: "LookupKey \<Rightarrow> slice" where
  "internal_key lk = drop (lk_kstart lk) (lk_buf lk)"

definition lookup_user_key :: "LookupKey \<Rightarrow> slice" where
  "lookup_user_key lk = take (length (lk_buf lk) - lk_kstart lk - 8) (drop (lk_kstart lk) (lk_buf lk))"

section \<open>Building and parsing\<close>

lemma bit_le_kMax:
  assumes "seq \<le> kMaxSequenceNumber" "bit seq n"
  shows "n < 56"
proof (rule bit_less_exp [of seq 56])
  have "kMaxSequenceNumber < 2 ^ 56" by (simp add: kMaxSequenceNumber_def)
  then show "seq < 2 ^ 56" using assms(1) by (rule order.strict_trans1 [rotated])
qed (use assms in simp_all)

lemma type_code_word: "(of_nat (type_code t) :: 64 word) = (if t = kTypeValue then 1 else 0)"
  by (cases t) simp_all

lemma and_255: "(x AND 255 :: 64 word) = take_bit 8 x"
  by (simp add: take_bit_eq_mask mask_eq_exp_minus_1)

lemma PackSequenceAndType_ok:
  assumes "seq \<le> kMaxSequenceNumber"
  shows "\<exists>tag. PackSequenceAndType seq t = Inr tag \<and> drop_bit 8 tag = seq \<and>
    tag AND 255 = of_nat (type_code t)"
proof -
  let ?tag = "push_bit 8 seq OR of_nat (type_code t) :: 64 word"
  have "drop_bit 8 ?tag = seq"
    by (rule bit_word_eqI) (auto simp: bit_simps type_code_word dest: bit_le_kMax [OF assms])
  moreover have "?tag AND 255 = of_nat (type_code t)"
    unfolding and_255
    by (rule bit_word_eqI) (auto simp: bit_simps type_code_word)
  moreover have "type_code t \<le> type_code kValueTypeForSeek"
    by (cases t) (simp_all add: kValueTypeForSeek_def)
  ultimately show ?thesis
    using assms by (simp add: PackSequenceAndType_def)
qed

lemma Parse_AppendInternalKey:
  assumes "sequence_no key \<le> kMaxSequenceNumber"
  shows "\<exists>rep. AppendInternalKey [] key = Inr rep \<and> length rep = InternalKeyEncodingLength key \<and>
    ExtractUserKey rep = Inr (user_key key) \<and> ParseInternalKey rep = Some key"
proof -
  obtain tag where tag: "PackSequenceAndType (sequence_no key) (val_type key) = Inr tag"
    "drop_bit 8 tag = sequence_no key" "tag AND 255 = of_nat (type_code (val_type key))"
    using PackSequenceAndType_ok [OF assms] by blast
  then show ?thesis
    by (cases "val_type key")
      (simp_all add: AppendInternalKey_def PutFixed64_def ExtractUserKey_def ParseInternalKey_def
        InternalKeyEncodingLength_def Let_def)
qed

lemma LookupKey_parts:
  assumes "s \<le> kMaxSequenceNumber" "length ukey + 8 < 2 ^ 32"
  shows "\<exists>lk. mk_LookupKey ukey s = Inr lk \<and> lookup_user_key lk = ukey \<and>
    AppendInternalKey [] \<lparr>user_key = ukey, sequence_no = s, val_type = kTypeValue\<rparr> = Inr (internal_key lk) \<and>
    GetLengthPrefixedSlice (memtable_key lk) = Some (internal_key lk, [])"
proof -
  obtain tag where tag: "PackSequenceAndType s kTypeValue = Inr tag"
    using PackSequenceAndType_ok [OF assms(1), of kTypeValue] by blast
  let ?ik = "ukey @ EncodeFixed64 tag"
  have "GetLengthPrefixedSlice (PutLengthPrefixedSlice [] ?ik @ []) = Some (?ik, [])"
    using assms(2) by (intro GetLengthPrefixedSlice_Put) simp
  then show ?thesis
    using tag
    by (simp add: mk_LookupKey_def kValueTypeForSeek_def lookup_user_key_def internal_key_def
        memtable_key_def AppendInternalKey_def PutFixed64_def PutLengthPrefixedSlice_def
        PutVarint32_def Let_def)
qed

section \<open>The order of internal keys\<close>

lemma pure_key_PutFixed64 [simp]: "pure_key (PutFixed64 k tag) = k"
  by (simp add: pure_key_def PutFixed64_def)

lemma key_tag_PutFixed64 [simp]: "key_tag (PutFixed64 k tag) = tag"
  by (simp add: key_tag_def PutFixed64_def)

lemma length_PutFixed64 [simp]: "length (PutFixed64 k tag) = length k + 8"
  by (simp add: PutFixed64_def)

lemma ExtractUserKey_pure: "8 \<le> length k \<Longrightarrow> ExtractUserKey k = Inr (pure_key k)"
  by (simp add: ExtractUserKey_def pure_key_def)

lemma InternalKey_Compare_less:
  "InternalKey_Compare cmp a b < 0 \<longleftrightarrow>
     cmp (pure_key a) (pure_key b) < 0 \<or>
     cmp (pure_key a) (pure_key b) = 0 \<and> key_tag b < key_tag a"
  by (auto simp: InternalKey_Compare_def Let_def)

lemma InternalKey_Compare_le:
  "InternalKey_Compare cmp a b \<le> 0 \<longleftrightarrow>
     cmp (pure_key a) (pure_key b) < 0 \<or>
     cmp (pure_key a) (pure_key b) = 0 \<and> key_tag b \<le> key_tag a"
  by (auto simp: InternalKey_Compare_def Let_def not_less)

lemma InternalKey_Compare_eq:
  "InternalKey_Compare cmp a b = 0 \<longleftrightarrow>
     cmp (pure_key a) (pure_key b) = 0 \<and> key_tag a = key_tag b"
  by (auto simp: InternalKey_Compare_def Let_def)

context key_comparator
begin

abbreviation ivalid :: "slice \<Rightarrow> bool" where
  "ivalid k \<equiv> 8 \<le> length k \<and> valid (pure_key k)"

lemma internal_antisym:
  assumes "ivalid a" "ivalid b"
  shows "sgn (InternalKey_Compare cmp a b) = - sgn (InternalKey_Compare cmp b a)"
  using cmp_antisym [of "pure_key a" "pure_key b"] assms
  by (auto simp: InternalKey_Compare_def Let_def sgn_if split: if_splits)

lemma internal_trans:
  assumes v: "ivalid a" "ivalid b" "ivalid c"
    and le: "InternalKey_Compare cmp a b \<le> 0" "InternalKey_Compare cmp b c \<le> 0"
  shows "InternalKey_Compare cmp a c \<le> 0"
  using v le cmp_less_trans [of "pure_key a" "pure_key b" "pure_key c"]
    cmp_le_less_trans [of "pure_key a" "pure_key b" "pure_key c"]
    cmp_eq_trans [of "pure_key a" "pure_key b" "pure_key c"]
  by (auto simp: InternalKey_Compare_le)

lemma internal_sep:
  assumes v: "ivalid s" "ivalid l" and le: "cmp (pure_key s) (pure_key l) \<le> 0"
  shows "\<exists>r. InternalKey_FindShortestSeparator cmp sep s l = Inr r \<and> ivalid r \<and>
    (r = s \<or> cmp (pure_key s) (pure_key r) < 0 \<and> cmp (pure_key r) (pure_key l) < 0)"
proof -
  obtain tmp where tmp: "sep (pure_key s) (pure_key l) = Inr tmp" "valid tmp"
    and lt: "cmp (pure_key s) tmp < 0 \<Longrightarrow> cmp tmp (pure_key l) < 0"
  proof (cases "cmp (pure_key s) (pure_key l) < 0")
    case True
    then show ?thesis using sep_law [of "pure_key s" "pure_key l"] v that by blast
  next
    case False
    with le have eq: "cmp (pure_key s) (pure_key l) = 0" by simp
    with v obtain r where "sep (pure_key s) (pure_key l) = Inr r" "valid r" "cmp r (pure_key l) \<le> 0"
      using sep_same by blast
    moreover have "\<not> cmp (pure_key s) r < 0"
      using calculation eq v cmp_less_trans [of "pure_key s" r "pure_key l"] by auto
    ultimately show ?thesis using that by blast
  qed
  obtain tag where "PackSequenceAndType kMaxSequenceNumber kValueTypeForSeek = Inr tag"
    using PackSequenceAndType_ok by blast
  then show ?thesis
    using tmp lt v
    by (auto simp: InternalKey_FindShortestSeparator_def ExtractUserKey_pure Let_def
        InternalKey_Compare_less)
qed

lemma internal_succ:
  assumes v: "ivalid k"
  shows "\<exists>r. InternalKey_FindShortSuccessor cmp short_succ k = Inr r \<and> ivalid r \<and>
    (r = k \<or> cmp (pure_key k) (pure_key r) < 0)"
proof -
  obtain tmp where "short_succ (pure_key k) = Inr tmp" "valid tmp"
    using succ_law v by blast
  moreover obtain tag where "PackSequenceAndType kMaxSequenceNumber kValueTypeForSeek = Inr tag"
    using PackSequenceAndType_ok by blast
  ultimately show ?thesis
    using v by (auto simp: InternalKey_FindShortSuccessor_def ExtractUserKey_pure Let_def
        InternalKey_Compare_less)
qed

lemma internal_key_comparator:
  "key_comparator ivalid (InternalKey_Compare cmp) (InternalKey_FindShortestSeparator cmp sep)
     (InternalKey_FindShortSuccessor cmp short_succ)"
proof unfold_locales
  fix s l
  assume *: "ivalid s" "ivalid l" "InternalKey_Compare cmp s l < 0"
  then have "cmp (pure_key s) (pure_key l) \<le> 0" by (auto simp: InternalKey_Compare_less)
  from internal_sep [OF *(1,2) this] *
  show "\<exists>r. InternalKey_FindShortestSeparator cmp sep s l = Inr r \<and> ivalid r \<and>
      InternalKey_Compare cmp s r \<le> 0 \<and> InternalKey_Compare cmp r l < 0"
    by (auto simp: InternalKey_Compare_less InternalKey_Compare_le cmp_refl)
next
  fix s l
  assume *: "ivalid s" "ivalid l" "InternalKey_Compare cmp s l = 0"
  then have "cmp (pure_key s) (pure_key l) \<le> 0" by (auto simp: InternalKey_Compare_eq)
  from internal_sep [OF *(1,2) this] *
  show "\<exists>r. InternalKey_FindShortestSeparator cmp sep s l = Inr r \<and> ivalid r \<and>
      InternalKey_Compare cmp r l \<le> 0"
    by (auto simp: InternalKey_Compare_less InternalKey_Compare_eq InternalKey_Compare_le)
next
  fix k
  assume "ivalid k"
  from internal_succ [OF this] this
  show "\<exists>r. InternalKey_FindShortSuccessor cmp short_succ k = Inr r \<and> ivalid r \<and>
      InternalKey_Compare cmp k r \<le> 0"
    by (auto simp: InternalKey_Compare_le cmp_refl)
qed (use internal_antisym internal_trans in blast)+

end

interpretation internal: key_comparator
  "\<lambda>k. 8 \<le> length k" "InternalKey_Compare Bytewise_Compare"
  "InternalKey_FindShortestSeparator Bytewise_Compare Bytewise_FindShortestSeparator"
  "InternalKey_FindShortSuccessor Bytewise_Compare (\<lambda>k. Inr (Bytewise_FindShortSuccessor k))"
  using bytewise.internal_key_comparator by simp

section \<open>Properties\<close>

text \<open>C39. Parsing an internal key returns the parts it was built from: the user key, the
  sequence number and the value type, for every sequence number that fits in 56 bits.\<close>

theorem internal_key_roundtrip:
  assumes "sequence_no key \<le> kMaxSequenceNumber"
  shows "\<exists>rep. AppendInternalKey [] key = Inr rep \<and> length rep = InternalKeyEncodingLength key \<and>
    ExtractUserKey rep = Inr (user_key key) \<and> ParseInternalKey rep = Some key"
  by (rule Parse_AppendInternalKey [OF assms])

theorem internal_key_roundtrip_witness:
  "\<exists>rep. AppendInternalKey [] \<lparr>user_key = [107], sequence_no = 5, val_type = kTypeDeletion\<rparr> = Inr rep \<and>
    length rep = InternalKeyEncodingLength \<lparr>user_key = [107], sequence_no = 5, val_type = kTypeDeletion\<rparr> \<and>
    ExtractUserKey rep = Inr [107] \<and>
    ParseInternalKey rep = Some \<lparr>user_key = [107], sequence_no = 5, val_type = kTypeDeletion\<rparr>"
  using internal_key_roundtrip [of "\<lparr>user_key = [107], sequence_no = 5, val_type = kTypeDeletion\<rparr>"]
  by (simp add: kMaxSequenceNumber_def)

text \<open>The three views of a \<^verbatim>\<open>LookupKey\<close> agree: the user key is the one given, the internal
  key is the encoding of that key with the snapshot's sequence number and the seek type, and
  the memtable key is that internal key with its length prefixed.\<close>

theorem lookup_key_views:
  assumes "s \<le> kMaxSequenceNumber" "length ukey + 8 < 2 ^ 32"
  shows "\<exists>lk. mk_LookupKey ukey s = Inr lk \<and> lookup_user_key lk = ukey \<and>
    AppendInternalKey [] \<lparr>user_key = ukey, sequence_no = s, val_type = kTypeValue\<rparr> = Inr (internal_key lk) \<and>
    GetLengthPrefixedSlice (memtable_key lk) = Some (internal_key lk, [])"
  by (rule LookupKey_parts [OF assms])

theorem lookup_key_views_witness:
  "\<exists>lk. mk_LookupKey [97, 98] 3 = Inr lk \<and> lookup_user_key lk = [97, 98] \<and>
    AppendInternalKey [] \<lparr>user_key = [97, 98], sequence_no = 3, val_type = kTypeValue\<rparr> = Inr (internal_key lk) \<and>
    GetLengthPrefixedSlice (memtable_key lk) = Some (internal_key lk, [])"
  by (rule lookup_key_views) (simp_all add: kMaxSequenceNumber_def)

text \<open>C38. With the bytewise user comparator, the separator the internal comparator computes for
  two internal keys in order lies between them in the internal order, and it again ends in
  an 8-byte tag.\<close>

theorem internal_separator_between:
  assumes "8 \<le> length s" "8 \<le> length l" "InternalKey_Compare Bytewise_Compare s l < 0"
  shows "\<exists>r. InternalKey_FindShortestSeparator Bytewise_Compare Bytewise_FindShortestSeparator s l = Inr r \<and>
    8 \<le> length r \<and> InternalKey_Compare Bytewise_Compare s r \<le> 0 \<and>
    InternalKey_Compare Bytewise_Compare r l < 0"
  using internal.sep_law [OF assms] by blast

theorem internal_separator_between_witness:
  "\<exists>r. InternalKey_FindShortestSeparator Bytewise_Compare Bytewise_FindShortestSeparator
      [1, 5, 1, 0, 0, 0, 0, 0, 0, 0] [9, 1, 0, 0, 0, 0, 0, 0, 0] = Inr r \<and> 8 \<le> length r \<and>
    InternalKey_Compare Bytewise_Compare [1, 5, 1, 0, 0, 0, 0, 0, 0, 0] r \<le> 0 \<and>
    InternalKey_Compare Bytewise_Compare r [9, 1, 0, 0, 0, 0, 0, 0, 0] < 0"
  by (rule internal_separator_between)
    (simp_all add: InternalKey_Compare_less pure_key_def Bytewise_Compare_def)

end
