(* ===== verification/TreePage.thy ===== *)
theory TreePage
  imports DbFormat
begin

text \<open>
  The slotted page of \<^verbatim>\<open>wot_buf_mgr/tree_page.h\<close> and \<^verbatim>\<open>tree_page.cc\<close>, the node format of the
  lock-coupled B-tree and of the leaves of the adaptive tree. A page is a block of
  \<^verbatim>\<open>PAGE_SIZE\<close> bytes: the header, then an array of 4-byte item positions that grows upwards
  from \<^verbatim>\<open>PgHdSize\<close>, free space, and the entries, which grow downwards from the end. The
  header fields are fields of a record; the rest of the block is a memory that maps a
  byte's position in the page to its value. Header fields are \<^verbatim>\<open>uint32_t\<close>: they are natural
  numbers here and wrap-around is written out with \<^const>\<open>u32\<close> and \<^const>\<open>sub32\<close> where the
  code subtracts or truncates.

  This theory holds the operations. \<^verbatim>\<open>SlottedPage\<close> has the representation invariant and
  \<^verbatim>\<open>TreePageCorrect\<close> the functional properties.
\<close>

section \<open>Layout\<close>

text \<open>
  \<^verbatim>\<open>sizeof(TreePageHeaderData)\<close>: an 8-byte lock word, six 4-byte fields and two
  bools, padded to a multiple of the 8-byte alignment.
\<close>

abbreviation PAGE_SIZE :: nat where "PAGE_SIZE \<equiv> 8192"
abbreviation ITEMID_SIZE :: nat where "ITEMID_SIZE \<equiv> 4"
abbreviation PgHdSize :: nat where "PgHdSize \<equiv> 40"

record page =
  opt_lock :: "64 word"
  page_id :: nat
  item_num :: nat
  left_sib :: nat
  right_sib :: nat
  free_start :: nat
  free_end :: nat
  is_leaf :: bool
  is_dirty :: bool
  data :: mem

definition PageInit :: "page \<Rightarrow> nat \<Rightarrow> page" where
  "PageInit p pg_id =
     p\<lparr>page_id := pg_id, item_num := 0, left_sib := 0, right_sib := 0,
       free_start := PgHdSize, free_end := PAGE_SIZE, is_leaf := False, is_dirty := True\<rparr>"

text \<open>A buffer after \<^verbatim>\<open>memset(buf, 0, PAGE_SIZE)\<close>: every header field reads as zero.\<close>

definition zero_page :: page where
  "zero_page = \<lparr>opt_lock = 0, page_id = 0, item_num = 0, left_sib = 0, right_sib = 0,
     free_start = 0, free_end = 0, is_leaf = False, is_dirty = False, data = (\<lambda>_. 0)\<rparr>"

definition PageGetFreeSpace :: "page \<Rightarrow> nat" where
  "PageGetFreeSpace p =
     (let space = sub32 (free_end p) (free_start p) in
      if space < ITEMID_SIZE then 0 else space)"

section \<open>Reading entries\<close>

definition read32 :: "mem \<Rightarrow> nat \<Rightarrow> nat" where
  "read32 m pos = unat (DecodeFixed32 (bytes_at m pos 4))"

definition write32 :: "mem \<Rightarrow> nat \<Rightarrow> nat \<Rightarrow> mem" where
  "write32 m pos v = write_bytes m pos (EncodeFixed32 (of_nat v))"

definition page_decode_int32_at :: "page \<Rightarrow> nat \<Rightarrow> nat" where
  "page_decode_int32_at p pos = read32 (data p) pos"

definition page_decode_indexEntry :: "page \<Rightarrow> nat \<Rightarrow> slice \<times> nat" where
  "page_decode_indexEntry p offset =
     (let pos = page_decode_int32_at p (PgHdSize + offset * ITEMID_SIZE);
          key_size = page_decode_int32_at p pos;
          key = bytes_at (data p) (pos + ITEMID_SIZE) key_size;
          child = page_decode_int32_at p (pos + ITEMID_SIZE + key_size)
      in (key, child))"

definition page_decode_leafEntry :: "page \<Rightarrow> nat \<Rightarrow> slice \<times> slice" where
  "page_decode_leafEntry p offset =
     (let pos = page_decode_int32_at p (PgHdSize + offset * ITEMID_SIZE);
          key_size = page_decode_int32_at p pos;
          key = bytes_at (data p) (pos + ITEMID_SIZE) key_size;
          val_size = page_decode_int32_at p (pos + ITEMID_SIZE + key_size);
          val = bytes_at (data p) (pos + 2 * ITEMID_SIZE + key_size) val_size
      in (key, val))"

definition PageReadPivotAtOffset :: "page \<Rightarrow> nat \<Rightarrow> slice" where
  "PageReadPivotAtOffset p offset =
     (if item_num p \<le> offset then []
      else if is_leaf p then fst (page_decode_leafEntry p offset)
      else fst (page_decode_indexEntry p offset))"

definition PageReadValueAtOffset :: "page \<Rightarrow> nat \<Rightarrow> slice" where
  "PageReadValueAtOffset p offset =
     (if item_num p \<le> offset \<or> \<not> is_leaf p then []
      else snd (page_decode_leafEntry p offset))"

definition PageReadChildAtOffset :: "page \<Rightarrow> nat \<Rightarrow> nat" where
  "PageReadChildAtOffset p offset =
     (if is_leaf p \<or> item_num p \<le> offset then 0
      else snd (page_decode_indexEntry p offset))"

section \<open>Binary search\<close>

definition page_compare :: "page \<Rightarrow> slice \<Rightarrow> nat \<Rightarrow> int result" where
  "page_compare p key off =
     (if \<not> off < item_num p then Inl AssertFailed
      else Inr (Slice_compare key (PageReadPivotAtOffset p off)))"

text \<open>
  The loop the four searches share, over the comparison of the searched key with the key
  at an offset: it returns from the middle on a hit, and ends with \<open>low = high\<close> otherwise.
\<close>

datatype search_exit = Found nat | Ended nat

function bin_loop :: "(nat \<Rightarrow> int result) \<Rightarrow> nat \<Rightarrow> nat \<Rightarrow> search_exit result" where
  "bin_loop cmp low high =
     (if low < high then
        let mid = low + (high - low) div 2 in
        bind_result (cmp mid) (\<lambda>result.
          if result = 0 then Inr (Found mid)
          else if result > 0 then bin_loop cmp (mid + 1) high
          else bin_loop cmp low mid)
      else Inr (Ended low))"
  by pat_completeness auto
termination
  by (relation "measure (\<lambda>(cmp, low, high). high - low)") auto

declare bin_loop.simps [simp del]

definition page_bin_search_insert :: "page \<Rightarrow> slice \<Rightarrow> nat result" where
  "page_bin_search_insert p key =
     (if item_num p = 0 then Inr 0
      else bind_result (bin_loop (page_compare p key) 0 (item_num p - 1)) (\<lambda>e.
        case e of
          Found mid \<Rightarrow> Inr mid
        | Ended low \<Rightarrow>
            bind_result (page_compare p key low) (\<lambda>r. Inr (if r > 0 then low + 1 else low))))"

text \<open>
  With internal keys the search compares user keys: the slices without their last eight
  bytes (\<^const>\<open>pure_key\<close>). No assertion guards the reads here.
\<close>

definition pure_compare :: "page \<Rightarrow> slice \<Rightarrow> nat \<Rightarrow> int result" where
  "pure_compare p key off =
     Inr (Slice_compare (pure_key key) (pure_key (PageReadPivotAtOffset p off)))"

definition page_bin_search_with_seq :: "page \<Rightarrow> slice \<Rightarrow> nat result" where
  "page_bin_search_with_seq p key =
     (if item_num p = 0 then Inr 0
      else bind_result (bin_loop (pure_compare p key) 0 (item_num p - 1)) (\<lambda>e.
        case e of
          Found mid \<Rightarrow> Inr mid
        | Ended low \<Rightarrow>
            bind_result (pure_compare p key low) (\<lambda>r. Inr (if r > 0 then low + 1 else low))))"

definition page_bin_search :: "page \<Rightarrow> slice \<Rightarrow> nat result" where
  "page_bin_search p key =
     (if item_num p = 0 then Inr 0
      else bind_result (bin_loop (page_compare p key) 0 (item_num p - 1)) (\<lambda>e.
        case e of
          Found mid \<Rightarrow> Inr mid
        | Ended low \<Rightarrow>
            if \<not> low < item_num p then Inl AssertFailed
            else bind_result (page_compare p key low) (\<lambda>r.
              if r \<ge> 0 then Inr low
              else if low = 0 then Inr low
              else if \<not> (low > 0 \<and> low < item_num p) then Inl AssertFailed
              else Inr (low - 1))))"

definition page_bin_search_highkey :: "page \<Rightarrow> slice \<Rightarrow> nat result" where
  "page_bin_search_highkey p key =
     (if item_num p = 0 then Inr 0
      else bind_result (bin_loop (page_compare p key) 0 (item_num p - 1)) (\<lambda>e.
        case e of Found mid \<Rightarrow> Inr mid | Ended low \<Rightarrow> Inr low))"

section \<open>Writing entries\<close>

text \<open>
  The entry is written just below \<^verbatim>\<open>free_end_\<close>, then the item positions from \<open>offset\<close> on are
  moved up by one and the new position is stored. The item count is the caller's.
\<close>

definition page_write_indexEntry_at :: "nat \<Rightarrow> page \<Rightarrow> slice \<Rightarrow> nat \<Rightarrow> page" where
  "page_write_indexEntry_at offset p key pg_id =
     (let need_shift = offset < item_num p;
          item_size = u32 (length key);
          encoded_len = u32 (item_size + ITEMID_SIZE * 2);
          up = sub32 (free_end p) encoded_len;
          m1 = write32 (data p) up item_size;
          m2 = write_bytes m1 (up + ITEMID_SIZE) (take item_size key);
          m3 = write32 m2 (up + ITEMID_SIZE + item_size) pg_id;
          low = PgHdSize + ITEMID_SIZE * offset;
          m4 = (if need_shift
                then memmove m3 (low + ITEMID_SIZE) low ((item_num p - offset) * ITEMID_SIZE)
                else m3);
          m5 = write32 m4 low up
      in p\<lparr>data := m5, free_end := up, free_start := u32 (free_start p + ITEMID_SIZE)\<rparr>)"

definition page_write_leafEntry_at :: "nat \<Rightarrow> page \<Rightarrow> slice \<Rightarrow> slice \<Rightarrow> page" where
  "page_write_leafEntry_at offset p key val =
     (let need_shift = offset < item_num p;
          item_size = u32 (length key);
          val_size = u32 (length val);
          encoded_len = u32 (item_size + ITEMID_SIZE * 2 + val_size);
          up = sub32 (free_end p) encoded_len;
          m1 = write32 (data p) up item_size;
          m2 = write_bytes m1 (up + ITEMID_SIZE) (take item_size key);
          m3 = write32 m2 (up + ITEMID_SIZE + item_size) val_size;
          m4 = write_bytes m3 (up + ITEMID_SIZE + item_size + ITEMID_SIZE) (take val_size val);
          low = PgHdSize + ITEMID_SIZE * offset;
          m5 = (if need_shift
                then memmove m4 (low + ITEMID_SIZE) low ((item_num p - offset) * ITEMID_SIZE)
                else m4);
          m6 = write32 m5 low up
      in p\<lparr>data := m6, free_end := up, free_start := u32 (free_start p + ITEMID_SIZE)\<rparr>)"

text \<open>
  Overwriting a value in place. The dirty flag is set even when the sizes differ and
  nothing is written; the bool is the C++ result.
\<close>

definition PageUpdatePivotAt :: "page \<Rightarrow> nat \<Rightarrow> slice \<Rightarrow> bool \<times> page" where
  "PageUpdatePivotAt p offset val =
     (let p1 = p\<lparr>is_dirty := True\<rparr>;
          new_val_size = u32 (length val);
          old_pos = page_decode_int32_at p1 (PgHdSize + offset * ITEMID_SIZE);
          key_size = page_decode_int32_at p1 old_pos;
          old_val_size = page_decode_int32_at p1 (old_pos + ITEMID_SIZE + key_size)
      in if new_val_size = old_val_size
         then (True, p1\<lparr>data := write_bytes (data p1) (old_pos + ITEMID_SIZE * 2 + key_size)
                                  (take new_val_size val)\<rparr>)
         else (False, p1))"

definition PageUpdateKeyAt :: "page \<Rightarrow> nat \<Rightarrow> slice \<Rightarrow> (bool \<times> page) result" where
  "PageUpdateKeyAt p offset key =
     (if \<not> offset < item_num p then Inl AssertFailed
      else let new_item_size = u32 (length key);
               old_pos = page_decode_int32_at p (PgHdSize + offset * ITEMID_SIZE);
               old_item_size = page_decode_int32_at p old_pos
           in if new_item_size = old_item_size
              then Inr (True, p\<lparr>data := write_bytes (data p) (old_pos + ITEMID_SIZE)
                                          (take new_item_size key), is_dirty := True\<rparr>)
              else Inr (False, p))"

definition PageInsertIndexEntry :: "page \<Rightarrow> slice \<Rightarrow> nat \<Rightarrow> page result" where
  "PageInsertIndexEntry p key pg_id =
     (if PageGetFreeSpace p \<le> length key + ITEMID_SIZE * 3 then Inl Abort
      else bind_result (page_bin_search_insert p key) (\<lambda>off.
        let p1 = page_write_indexEntry_at off p key pg_id
        in Inr (p1\<lparr>is_dirty := True, item_num := item_num p1 + 1\<rparr>)))"

definition PageInsertLeafEntry :: "page \<Rightarrow> slice \<Rightarrow> slice \<Rightarrow> page result" where
  "PageInsertLeafEntry p key val =
     (if PageGetFreeSpace p \<le> length key + length val + ITEMID_SIZE * 3 then Inl Abort
      else bind_result (page_bin_search_insert p key) (\<lambda>off.
        if Slice_compare key (PageReadPivotAtOffset p off) = 0
        then Inr (snd (PageUpdatePivotAt p off val))
        else let p1 = page_write_leafEntry_at off p key val
             in Inr (p1\<lparr>is_dirty := True, item_num := item_num p1 + 1\<rparr>)))"

definition PageInsertLeafEntryWithSeq :: "page \<Rightarrow> slice \<Rightarrow> slice \<Rightarrow> (bool \<times> page) result" where
  "PageInsertLeafEntryWithSeq p key val =
     (if PageGetFreeSpace p \<le> length key + length val + ITEMID_SIZE * 3 then Inl Abort
      else bind_result (page_bin_search_with_seq p key) (\<lambda>off2.
        if off2 < item_num p \<and>
           Slice_compare (pure_key key) (pure_key (PageReadPivotAtOffset p off2)) = 0
        then bind_result (PageUpdateKeyAt (snd (PageUpdatePivotAt p off2 val)) off2 key) (\<lambda>bp.
               let p2 = (snd bp)\<lparr>is_dirty := True\<rparr> in
               if item_num p = item_num p2 then Inr (False, p2) else Inl AssertFailed)
        else bind_result (page_bin_search_insert p key) (\<lambda>off.
               let p1 = page_write_leafEntry_at off p key val
               in Inr (True, p1\<lparr>is_dirty := True, item_num := item_num p1 + 1\<rparr>))))"

definition PageAppendLeafEntry :: "page \<Rightarrow> slice \<Rightarrow> slice \<Rightarrow> page result" where
  "PageAppendLeafEntry p key val =
     (if PageGetFreeSpace p \<le> length key + length val + ITEMID_SIZE * 3 then Inl Abort
      else let p1 = page_write_leafEntry_at (item_num p) p key val
           in Inr (p1\<lparr>is_dirty := True, item_num := item_num p1 + 1\<rparr>))"

section \<open>Finding entries\<close>

definition PageFindOffsetInsert :: "page \<Rightarrow> slice \<Rightarrow> nat result" where
  "PageFindOffsetInsert p key = page_bin_search_insert p key"

definition PageFindOffset :: "page \<Rightarrow> slice \<Rightarrow> int result" where
  "PageFindOffset p key =
     bind_result (page_bin_search p key) (\<lambda>offset.
       if is_leaf p \<and> Slice_compare key (PageReadPivotAtOffset p offset) \<noteq> 0 then Inr (-1)
       else Inr (int offset))"

definition PageFindOffsetForScan :: "page \<Rightarrow> slice \<Rightarrow> int result" where
  "PageFindOffsetForScan p key =
     bind_result (page_bin_search p key) (\<lambda>offset.
       if \<not> is_leaf p then Inl AssertFailed
       else if Slice_compare key (PageReadPivotAtOffset p offset) \<noteq> 0
       then Inr (if int (item_num p) \<le> int offset + 1 then int offset else int offset + 1)
       else Inr (int offset))"

definition PageFindOffsetForScanHighkey :: "page \<Rightarrow> slice \<Rightarrow> int result" where
  "PageFindOffsetForScanHighkey p key =
     bind_result (page_bin_search_highkey p key) (\<lambda>offset.
       if \<not> is_leaf p then Inl AssertFailed else Inr (int offset))"

definition PageFindOffsetHighkey :: "page \<Rightarrow> slice \<Rightarrow> int result" where
  "PageFindOffsetHighkey p key =
     bind_result (page_bin_search_highkey p key) (\<lambda>offset.
       if is_leaf p \<and> Slice_compare key (PageReadPivotAtOffset p offset) \<noteq> 0 then Inr (-1)
       else Inr (int offset))"

definition PageFindOffsetBol :: "page \<Rightarrow> slice \<Rightarrow> int result" where
  "PageFindOffsetBol p key =
     bind_result (page_bin_search p key) (\<lambda>offset.
       let k = PageReadPivotAtOffset p offset in
       Inr (if Slice_compare (pure_key key) (pure_key k) > 0 then int offset + 1
            else int offset))"

definition PageHighkey :: "page \<Rightarrow> slice" where
  "PageHighkey p = PageReadPivotAtOffset p (sub32 (item_num p) 1)"

definition PageLowkey :: "page \<Rightarrow> slice result" where
  "PageLowkey p = (if \<not> item_num p > 0 then Inl AssertFailed else Inr (PageReadPivotAtOffset p 0))"

definition PageIsRightMost :: "page \<Rightarrow> bool" where
  "PageIsRightMost p \<longleftrightarrow> right_sib p = 0"

definition PageMinAndKey :: "page \<Rightarrow> slice \<Rightarrow> int" where
  "PageMinAndKey p key = Slice_compare (PageReadPivotAtOffset p 0) key"

text \<open>The loop of \<^verbatim>\<open>PageGetOffsetByChild\<close>, from \<open>offset\<close> up to the number of items.\<close>

function offset_by_child :: "page \<Rightarrow> nat \<Rightarrow> nat \<Rightarrow> int" where
  "offset_by_child p child offset =
     (if offset < item_num p then
        if snd (page_decode_indexEntry p offset) = child then int offset
        else offset_by_child p child (offset + 1)
      else -1)"
  by pat_completeness auto
termination
  by (relation "measure (\<lambda>(p, child, offset). item_num p - offset)") auto

declare offset_by_child.simps [simp del]

definition PageGetOffsetByChild :: "page \<Rightarrow> nat \<Rightarrow> int result" where
  "PageGetOffsetByChild p child =
     (if is_leaf p then Inl AssertFailed else Inr (offset_by_child p child 0))"

section \<open>Changing keys and children in place\<close>

definition PageUpdateChild :: "page \<Rightarrow> slice \<Rightarrow> nat \<Rightarrow> page result" where
  "PageUpdateChild p pivot child =
     (if is_leaf p then Inl AssertFailed
      else bind_result (PageFindOffset p pivot) (\<lambda>offset.
        if \<not> (0 \<le> offset \<and> offset < int (item_num p)) then Inl AssertFailed
        else let pos = page_decode_int32_at p (PgHdSize + nat offset * ITEMID_SIZE);
                 key_size = page_decode_int32_at p pos
             in Inr (p\<lparr>data := write32 (data p) (pos + key_size + ITEMID_SIZE) child,
                       is_dirty := True\<rparr>)))"

text \<open>The offset \<^verbatim>\<open>item_num_ - 1\<close> is an \<^verbatim>\<open>int\<close>: on an empty page the slot before the first one is read.\<close>

definition PageUpdateHighkey :: "page \<Rightarrow> slice \<Rightarrow> bool \<times> page" where
  "PageUpdateHighkey p key =
     (let new_item_size = u32 (length key);
          old_pos = page_decode_int32_at p (PgHdSize + item_num p * ITEMID_SIZE - ITEMID_SIZE);
          old_item_size = page_decode_int32_at p old_pos
      in if new_item_size = old_item_size
         then (True, p\<lparr>data := write_bytes (data p) (old_pos + ITEMID_SIZE)
                                 (take new_item_size key), is_dirty := True\<rparr>)
         else (False, p))"

definition PageUpdateMinPivot :: "page \<Rightarrow> slice \<Rightarrow> bool \<times> page" where
  "PageUpdateMinPivot p key =
     (let p1 = p\<lparr>is_dirty := True\<rparr>;
          new_item_size = u32 (length key);
          old_pos = page_decode_int32_at p1 PgHdSize;
          old_item_size = page_decode_int32_at p1 old_pos
      in if new_item_size = old_item_size
         then (True, p1\<lparr>data := write_bytes (data p1) (old_pos + ITEMID_SIZE)
                                  (take new_item_size key)\<rparr>)
         else
           let child_pg = page_decode_int32_at p1 (old_pos + ITEMID_SIZE + old_item_size);
               new_encoded_len = u32 (new_item_size + ITEMID_SIZE * 2);
               old_encoded_len = u32 (old_item_size + ITEMID_SIZE * 2);
               chunk_size = sub32 (sub32 PAGE_SIZE (free_end p1)) old_encoded_len;
               old_free_end = free_end p1;
               fe = sub32 (sub32 PAGE_SIZE chunk_size) new_encoded_len;
               m1 = memmove (data p1) fe old_free_end chunk_size;
               m2 = write32 m1 (fe + chunk_size) new_item_size;
               m3 = write_bytes m2 (fe + chunk_size + ITEMID_SIZE) (take new_item_size key);
               m4 = write32 m3 (fe + chunk_size + ITEMID_SIZE + new_item_size) child_pg;
               m5 = write32 m4 PgHdSize (fe + chunk_size)
           in (True, p1\<lparr>data := m5, free_end := fe\<rparr>))"

section \<open>Removing, moving and clearing\<close>

text \<open>The loop of \<^verbatim>\<open>PageRemoveOffset\<close> that adjusts the item positions \<open>i, \<dots>, n - 1\<close>.\<close>

function shift_items :: "nat \<Rightarrow> nat \<Rightarrow> nat \<Rightarrow> nat \<Rightarrow> mem \<Rightarrow> mem" where
  "shift_items pos gap n i m =
     (if i < n then
        let q = read32 m (PgHdSize + i * ITEMID_SIZE);
            q' = (if q < pos then u32 (q + gap) else q)
        in shift_items pos gap n (i + 1) (write32 m (PgHdSize + i * ITEMID_SIZE) q')
      else m)"
  by pat_completeness auto
termination
  by (relation "measure (\<lambda>(pos, gap, n, i, m). n - i)") auto

declare shift_items.simps [simp del]

text \<open>
  The size of the gap is decoded \<^emph>\<open>after\<close> the item positions have been moved down, so it is
  the size of the entry that followed the removed one, if there is one.
\<close>

definition PageRemoveOffset :: "page \<Rightarrow> nat \<Rightarrow> page" where
  "PageRemoveOffset p offset =
     (let pos = page_decode_int32_at p (PgHdSize + offset * ITEMID_SIZE);
          low = PgHdSize + (offset + 1) * ITEMID_SIZE;
          m1 = (if offset + 1 < item_num p
                then memmove (data p) (low - ITEMID_SIZE) low
                       ((item_num p - offset - 1) * ITEMID_SIZE)
                else data p);
          p1 = p\<lparr>data := m1, free_start := sub32 (free_start p) ITEMID_SIZE\<rparr>;
          gap_size = (if is_leaf p
                      then (let e = page_decode_leafEntry p1 offset
                            in length (fst e) + length (snd e) + 2 * ITEMID_SIZE)
                      else length (fst (page_decode_indexEntry p1 offset)) + 2 * ITEMID_SIZE);
          m2 = memmove m1 (free_end p + gap_size) (free_end p) (sub32 pos (free_end p));
          n = sub32 (item_num p) 1;
          m3 = shift_items pos gap_size n 0 m2
      in p1\<lparr>data := m3, free_end := u32 (free_end p + gap_size), item_num := n,
            is_dirty := True\<rparr>)"

definition PageRemoveEntry :: "page \<Rightarrow> slice \<Rightarrow> (bool \<times> page) result" where
  "PageRemoveEntry p key =
     bind_result (page_bin_search p key) (\<lambda>offset.
       if Slice_compare key (PageReadPivotAtOffset p offset) \<noteq> 0 then Inr (False, p)
       else Inr (True, (PageRemoveOffset p offset)\<lparr>is_dirty := True\<rparr>))"

text \<open>The loops that copy the entries \<open>start, \<dots>, end - 1\<close> of one page into another.\<close>

fun move_leaf_entries :: "page \<Rightarrow> page \<Rightarrow> nat list \<Rightarrow> page result" where
  "move_leaf_entries src dest [] = Inr dest"
| "move_leaf_entries src dest (off # offs) =
     bind_result (PageInsertLeafEntry dest (fst (page_decode_leafEntry src off))
                    (snd (page_decode_leafEntry src off)))
       (\<lambda>dest'. move_leaf_entries src dest' offs)"

definition PageMoveLeafEntries :: "page \<Rightarrow> page \<Rightarrow> nat \<Rightarrow> nat \<Rightarrow> page result" where
  "PageMoveLeafEntries src dest start finish =
     bind_result (move_leaf_entries src dest [start ..< finish])
       (\<lambda>dest'. Inr (dest'\<lparr>is_dirty := True\<rparr>))"

fun move_index_entries :: "page \<Rightarrow> page \<Rightarrow> nat list \<Rightarrow> page result" where
  "move_index_entries src dest [] = Inr dest"
| "move_index_entries src dest (off # offs) =
     bind_result (PageInsertIndexEntry dest (fst (page_decode_indexEntry src off))
                    (snd (page_decode_indexEntry src off)))
       (\<lambda>dest'. move_index_entries src dest' offs)"

definition PageMoveIndexEntries :: "page \<Rightarrow> page \<Rightarrow> nat \<Rightarrow> nat \<Rightarrow> page result" where
  "PageMoveIndexEntries src dest start finish =
     bind_result (move_index_entries src dest [start ..< finish])
       (\<lambda>dest'. Inr (dest'\<lparr>is_dirty := True\<rparr>))"

definition PageClearContent :: "page \<Rightarrow> page" where
  "PageClearContent p =
     p\<lparr>item_num := 0, free_start := PgHdSize, free_end := PAGE_SIZE, is_dirty := True\<rparr>"

end
