(* ===== verification/SlottedPage.thy ===== *)
theory SlottedPage
  imports TreePage
begin

text \<open>
  The representation invariant of a slotted page and the effect on it of the byte-level
  steps the page operations are made of. \<open>slotted lim m fe recs ps\<close> says that the memory
  \<open>m\<close> holds the records \<open>recs\<close>: the item array stores their positions \<open>ps\<close>, every record
  lies between \<open>fe\<close> (\<^verbatim>\<open>free_end_\<close>) and \<open>lim\<close>, and no two overlap. Inserting a record,
  overwriting part of one and removing one are lemmas about this predicate; the two page
  formats of the code (\<^verbatim>\<open>tree_page.cc\<close> and \<^verbatim>\<open>node_page.h\<close>) and the two entry kinds (leaf and
  index entries) all use them.
\<close>

section \<open>Fixed width numbers in memory\<close>

lemma read32_write32 [simp, mem_simps]: "read32 (write32 m p v) p = u32 v"
proof -
  have "bytes_at (write32 m p v) p 4 = EncodeFixed32 (of_nat v)"
    unfolding write32_def using bytes_at_write_same [of m p "EncodeFixed32 (of_nat v)"] by simp
  then show ?thesis by (simp add: read32_def unat_of_nat_32)
qed

lemma read32_less: "read32 m p < 4294967296"
  using unat_less_exp [of "DecodeFixed32 (bytes_at m p 4)"] by (simp add: read32_def)

lemma read32_write_disjoint [mem_simps]:
  "q + 4 \<le> p \<or> p + length xs \<le> q \<Longrightarrow> read32 (write_bytes m p xs) q = read32 m q"
  by (simp add: read32_def bytes_at_write_disjoint)

lemma bytes_at_write32_disjoint [mem_simps]:
  "q + n \<le> p \<or> p + 4 \<le> q \<Longrightarrow> bytes_at (write32 m p v) q n = bytes_at m q n"
  unfolding write32_def by (rule bytes_at_write_disjoint) simp

lemma read32_write32_disjoint [mem_simps]:
  "q + 4 \<le> p \<or> p + 4 \<le> q \<Longrightarrow> read32 (write32 m p v) q = read32 m q"
  by (simp add: read32_def bytes_at_write32_disjoint)

lemma read32_other_slot:
  "k \<noteq> i \<Longrightarrow> read32 (write32 m (b + 4 * i) v) (b + 4 * k) = read32 m (b + 4 * k)"
  by (rule read32_write32_disjoint) arith

lemma read32_memmove [mem_simps]:
  "q \<le> r \<Longrightarrow> r + 4 \<le> q + n \<Longrightarrow> read32 (memmove m q s n) r = read32 m (s + (r - q))"
  by (simp add: read32_def bytes_at_memmove)

lemma read32_memmove_disjoint [mem_simps]:
  "r + 4 \<le> q \<or> q + n \<le> r \<Longrightarrow> read32 (memmove m q s n) r = read32 m r"
  by (simp add: read32_def bytes_at_memmove_disjoint)

lemma write_bytes_append:
  "write_bytes (write_bytes m p xs) (p + length xs) ys = write_bytes m p (xs @ ys)"
  by (rule ext) (auto simp: write_bytes_def nth_append)

section \<open>Lists with an element inserted or deleted\<close>

definition ins_at :: "nat \<Rightarrow> 'a \<Rightarrow> 'a list \<Rightarrow> 'a list" where
  "ins_at off x xs = take off xs @ x # drop off xs"

definition del_at :: "nat \<Rightarrow> 'a list \<Rightarrow> 'a list" where
  "del_at off xs = take off xs @ drop (Suc off) xs"

lemma length_ins_at [simp]: "length (ins_at off x xs) = Suc (length xs)"
  by (simp add: ins_at_def)

lemma length_del_at [simp]: "off < length xs \<Longrightarrow> length (del_at off xs) = length xs - 1"
  by (simp add: del_at_def)

lemma nth_ins_at:
  "off \<le> length xs \<Longrightarrow> i \<le> length xs \<Longrightarrow>
    ins_at off x xs ! i = (if i < off then xs ! i else if i = off then x else xs ! (i - 1))"
  by (auto simp: ins_at_def nth_append nth_Cons')

lemma nth_del_at:
  "off < length xs \<Longrightarrow> i < length xs - 1 \<Longrightarrow>
    del_at off xs ! i = (if i < off then xs ! i else xs ! Suc i)"
  by (auto simp: del_at_def nth_append)

lemma map_ins_at: "map f (ins_at off x xs) = ins_at off (f x) (map f xs)"
  by (simp add: ins_at_def take_map drop_map)

lemma map_del_at: "map f (del_at off xs) = del_at off (map f xs)"
  by (simp add: del_at_def take_map drop_map)

lemma set_ins_at: "set (ins_at off x xs) = insert x (set xs)"
proof -
  have "set (ins_at off x xs) = insert x (set (take off xs @ drop off xs))"
    unfolding ins_at_def set_append by auto
  then show ?thesis by simp
qed

lemma set_del_at: "set (del_at off xs) \<subseteq> set xs"
  by (auto simp: del_at_def dest: in_set_takeD in_set_dropD)

section \<open>The representation\<close>

definition slotted :: "nat \<Rightarrow> mem \<Rightarrow> nat \<Rightarrow> slice list \<Rightarrow> nat list \<Rightarrow> bool" where
  "slotted lim m fe recs ps \<longleftrightarrow>
     length ps = length recs \<and>
     PgHdSize + 4 * length recs \<le> fe \<and> fe \<le> lim \<and> lim \<le> PAGE_SIZE \<and>
     (\<forall>i < length recs. read32 m (PgHdSize + 4 * i) = ps ! i \<and>
        fe \<le> ps ! i \<and> ps ! i + length (recs ! i) \<le> lim \<and>
        bytes_at m (ps ! i) (length (recs ! i)) = recs ! i) \<and>
     (\<forall>i < length recs. \<forall>j < length recs. i \<noteq> j \<longrightarrow>
        ps ! i + length (recs ! i) \<le> ps ! j \<or> ps ! j + length (recs ! j) \<le> ps ! i)"

lemma slottedD:
  assumes "slotted lim m fe recs ps"
  shows "length ps = length recs" "PgHdSize + 4 * length recs \<le> fe" "fe \<le> lim" "lim \<le> PAGE_SIZE"
    "\<And>i. i < length recs \<Longrightarrow> read32 m (PgHdSize + 4 * i) = ps ! i"
    "\<And>i. i < length recs \<Longrightarrow> fe \<le> ps ! i"
    "\<And>i. i < length recs \<Longrightarrow> ps ! i + length (recs ! i) \<le> lim"
    "\<And>i. i < length recs \<Longrightarrow> bytes_at m (ps ! i) (length (recs ! i)) = recs ! i"
    "\<And>i j. i < length recs \<Longrightarrow> j < length recs \<Longrightarrow> i \<noteq> j \<Longrightarrow>
       ps ! i + length (recs ! i) \<le> ps ! j \<or> ps ! j + length (recs ! j) \<le> ps ! i"
  using assms unfolding slotted_def by auto

lemma slotted_empty: "PgHdSize \<le> fe \<Longrightarrow> fe \<le> lim \<Longrightarrow> lim \<le> PAGE_SIZE \<Longrightarrow> slotted lim m fe [] []"
  by (simp add: slotted_def)

lemma slotted_empty_page [simp]: "\<exists>ps. slotted PAGE_SIZE m PAGE_SIZE [] ps"
  using slotted_empty [of PAGE_SIZE PAGE_SIZE m] by auto

text \<open>The records stay where they are when the item array is changed below them.\<close>

lemma slotted_bytes_cong:
  assumes "slotted lim m fe recs ps" "i < length recs"
    "\<And>q n. fe \<le> q \<Longrightarrow> q + n \<le> lim \<Longrightarrow> bytes_at m' q n = bytes_at m q n"
  shows "bytes_at m' (ps ! i) (length (recs ! i)) = recs ! i"
  using assms(3) [of "ps ! i" "length (recs ! i)"] slottedD(6-8) [OF assms(1,2)] by simp

subsection \<open>Inserting a record\<close>

definition insert_rec :: "mem \<Rightarrow> nat \<Rightarrow> nat \<Rightarrow> nat \<Rightarrow> slice \<Rightarrow> mem" where
  "insert_rec m fe n off r =
     (let up = fe - length r;
          m1 = write_bytes m up r;
          low = PgHdSize + 4 * off;
          m2 = (if off < n then memmove m1 (low + 4) low ((n - off) * 4) else m1)
      in write32 m2 low up)"

lemma insert_rec_above:
  assumes "off \<le> n" "PgHdSize + 4 * Suc n + length r \<le> fe" "fe \<le> q"
  shows "bytes_at (insert_rec m fe n off r) q k = bytes_at m q k"
  using assms by (auto simp: insert_rec_def Let_def mem_simps)

lemma insert_rec_new:
  assumes "off \<le> n" "PgHdSize + 4 * Suc n + length r \<le> fe"
  shows "bytes_at (insert_rec m fe n off r) (fe - length r) (length r) = r"
  using assms by (auto simp: insert_rec_def Let_def mem_simps)

lemma insert_rec_slot:
  assumes "off \<le> n" "PgHdSize + 4 * Suc n + length r \<le> fe" "fe \<le> PAGE_SIZE" "i \<le> n"
  shows "read32 (insert_rec m fe n off r) (PgHdSize + 4 * i) =
    (if i < off then read32 m (PgHdSize + 4 * i)
     else if i = off then fe - length r
     else read32 m (PgHdSize + 4 * (i - 1)))"
proof -
  consider "i < off" | "i = off" | "off < i" by linarith
  then show ?thesis
  proof cases
    case 1
    then show ?thesis using assms by (auto simp: insert_rec_def Let_def mem_simps)
  next
    case 2
    then show ?thesis using assms by (auto simp: insert_rec_def Let_def)
  next
    case 3
    then have "4 * i = 4 * (i - 1) + 4" by simp
    with 3 show ?thesis using assms by (auto simp: insert_rec_def Let_def mem_simps)
  qed
qed

lemma slotted_insert:
  assumes s: "slotted lim m fe recs ps"
    and off: "off \<le> length recs"
    and room: "PgHdSize + 4 * Suc (length recs) + length r \<le> fe"
  shows "slotted lim (insert_rec m fe (length recs) off r) (fe - length r)
           (ins_at off r recs) (ins_at off (fe - length r) ps)"
proof -
  let ?m = "insert_rec m fe (length recs) off r" and ?up = "fe - length r"
  let ?n = "length recs" and ?rs = "ins_at off r recs" and ?qs = "ins_at off (fe - length r) ps"
  note D = slottedD [OF s]
  have le: "fe \<le> PAGE_SIZE" using D(3,4) by simp
  have old: "bytes_at ?m (ps ! j) (length (recs ! j)) = recs ! j" if "j < ?n" for j
    using insert_rec_above [OF off room D(6) [OF that]] D(8) [OF that] by simp
  have new: "bytes_at ?m ?up (length r) = r" by (rule insert_rec_new [OF off room])
  have nth: "i \<le> ?n \<Longrightarrow> ?rs ! i = (if i < off then recs ! i else if i = off then r else recs ! (i - 1))"
    "i \<le> ?n \<Longrightarrow> ?qs ! i = (if i < off then ps ! i else if i = off then ?up else ps ! (i - 1))" for i
    using off D(1) by (simp_all add: nth_ins_at)
  have slot: "read32 ?m (PgHdSize + 4 * i) = ?qs ! i" if "i \<le> ?n" for i
    using that insert_rec_slot [OF off room le that] D(5) [of i] D(5) [of "i - 1"] off
    by (auto simp: nth)
  have each: "?up \<le> ?qs ! i \<and> ?qs ! i + length (?rs ! i) \<le> lim \<and>
      bytes_at ?m (?qs ! i) (length (?rs ! i)) = ?rs ! i" if "i \<le> ?n" for i
  proof -
    consider "i < off" | "i = off" | "off < i" by linarith
    then show ?thesis
    proof cases
      case 3
      then obtain j where "i = Suc j" "off \<le> j" by (cases i) auto
      then show ?thesis
        using that old [of j] D(6,7) [of j] by (auto simp: nth)
    qed (use that old [of i] new D(6,7) [of i] D(3) room off in \<open>auto simp: nth\<close>)
  qed
  have disj: "?qs ! i + length (?rs ! i) \<le> ?qs ! j \<or> ?qs ! j + length (?rs ! j) \<le> ?qs ! i"
    if "i \<le> ?n" "j \<le> ?n" "i < j" for i j
    using that D(9) [of i j] D(9) [of i "j - 1"] D(9) [of "i - 1" "j - 1"]
      D(6) [of i] D(6) [of "i - 1"] D(6) [of j] D(6) [of "j - 1"] room off
    by (auto simp: nth)
  have disj': "?qs ! i + length (?rs ! i) \<le> ?qs ! j \<or> ?qs ! j + length (?rs ! j) \<le> ?qs ! i"
    if "i \<le> ?n" "j \<le> ?n" "i \<noteq> j" for i j
    using that disj [of i j] disj [of j i] by (cases "i < j") auto
  show ?thesis
    unfolding slotted_def using D(1,3,4) room slot each disj' by (auto simp: less_Suc_eq_le)
qed

subsection \<open>Overwriting part of a record\<close>

lemma slotted_overwrite:
  assumes s: "slotted lim m fe recs ps" and i: "i < length recs"
    and k: "k + length xs \<le> length (recs ! i)"
  shows "slotted lim (write_bytes m (ps ! i + k) xs) fe
           (recs[i := take k (recs ! i) @ xs @ drop (k + length xs) (recs ! i)]) ps"
proof -
  let ?m = "write_bytes m (ps ! i + k) xs"
  let ?r = "take k (recs ! i) @ xs @ drop (k + length xs) (recs ! i)"
  note D = slottedD [OF s]
  have len: "length ?r = length (recs ! i)" using k by simp
  have new: "bytes_at ?m (ps ! i) (length (recs ! i)) = ?r"
  proof (rule nth_equalityI)
    fix j assume "j < length (bytes_at ?m (ps ! i) (length (recs ! i)))"
    then have j: "j < length (recs ! i)" by simp
    then have "m (ps ! i + j) = recs ! i ! j"
      using D(8) [OF i] nth_bytes_at [of j "length (recs ! i)" m "ps ! i"] by simp
    then show "bytes_at ?m (ps ! i) (length (recs ! i)) ! j = ?r ! j"
      using j k by (auto simp: write_bytes_def nth_append)
  qed (use len in simp)
  have old: "bytes_at ?m (ps ! j) (length (recs ! j)) = recs ! j" if "j < length recs" "j \<noteq> i" for j
    using D(8) [OF that(1)] D(9) [OF i that(1)] that(2) k by (subst bytes_at_write_disjoint) auto
  have slot: "read32 ?m (PgHdSize + 4 * j) = ps ! j" if "j < length recs" for j
    using D(5) [OF that] D(2) D(6) [OF i] that by (subst read32_write_disjoint) auto
  show ?thesis
    unfolding slotted_def using D(1-4,6,7,9) new old slot i len
    by (auto simp: nth_list_update)
qed

subsection \<open>Removing a record\<close>

lemma shift_items_step:
  "i < n \<Longrightarrow> shift_items pos gap n i m =
     shift_items pos gap n (Suc i)
       (write32 m (PgHdSize + 4 * i)
         (let q = read32 m (PgHdSize + 4 * i) in if q < pos then u32 (q + gap) else q))"
  "\<not> i < n \<Longrightarrow> shift_items pos gap n i m = m"
  by (simp_all add: shift_items.simps [of pos gap n i m] Let_def mult.commute)

lemma shift_items_slot:
  assumes "k < n"
  shows "read32 (shift_items pos gap n i m) (PgHdSize + 4 * k) =
    (let q = read32 m (PgHdSize + 4 * k) in if i \<le> k \<and> q < pos then u32 (q + gap) else q)"
  using assms
proof (induction "n - i" arbitrary: i m)
  case 0
  then show ?case by (simp add: shift_items_step Let_def)
next
  case (Suc d)
  let ?q = "read32 m (PgHdSize + 4 * i)"
  let ?m = "write32 m (PgHdSize + 4 * i) (if ?q < pos then u32 (?q + gap) else ?q)"
  have "i < n" "d = n - Suc i" using Suc.hyps(2) by auto
  then have IH: "read32 (shift_items pos gap n i m) (PgHdSize + 4 * k) =
    (let q = read32 ?m (PgHdSize + 4 * k) in if Suc i \<le> k \<and> q < pos then u32 (q + gap) else q)"
    using Suc.hyps(1) [of "Suc i" ?m] Suc.prems by (simp add: shift_items_step Let_def)
  show ?case
  proof (cases "k = i")
    case True
    then show ?thesis unfolding IH by (simp add: Let_def read32_less)
  next
    case False
    then have "Suc i \<le> k \<longleftrightarrow> i \<le> k" by arith
    with False show ?thesis unfolding IH by (simp add: Let_def read32_other_slot)
  qed
qed

lemma shift_items_above:
  "PgHdSize + 4 * n \<le> q \<Longrightarrow> bytes_at (shift_items pos gap n i m) q k = bytes_at m q k"
proof (induction "n - i" arbitrary: i m)
  case 0
  then show ?case by (simp add: shift_items_step)
next
  case (Suc d)
  then have "i < n" "d = n - Suc i" by auto
  then show ?case
    using Suc.hyps(1) [of "Suc i"] Suc.prems by (simp add: shift_items_step bytes_at_write32_disjoint)
qed

text \<open>
  The three steps of a removal: the item positions after \<open>off\<close> move down, the records below
  the removed one move up by \<open>gap\<close>, and the positions below it are adjusted.
\<close>

definition drop_slot :: "mem \<Rightarrow> nat \<Rightarrow> nat \<Rightarrow> mem" where
  "drop_slot m n off =
     (if off + 1 < n then memmove m (PgHdSize + 4 * off) (PgHdSize + 4 * Suc off) (4 * (n - off - 1))
      else m)"

definition remove_rec :: "mem \<Rightarrow> nat \<Rightarrow> nat \<Rightarrow> nat \<Rightarrow> nat \<Rightarrow> nat \<Rightarrow> mem" where
  "remove_rec m fe n off pos gap =
     shift_items pos gap (n - 1) 0 (memmove (drop_slot m n off) (fe + gap) fe (pos - fe))"

lemma drop_slot_above:
  "off < n \<Longrightarrow> PgHdSize + 4 * n \<le> q \<Longrightarrow> bytes_at (drop_slot m n off) q k = bytes_at m q k"
  by (auto simp: drop_slot_def mem_simps)

lemma drop_slot_read:
  "off < n \<Longrightarrow> i < n - 1 \<Longrightarrow> read32 (drop_slot m n off) (PgHdSize + 4 * i) =
     (if i < off then read32 m (PgHdSize + 4 * i) else read32 m (PgHdSize + 4 * Suc i))"
  by (auto simp: drop_slot_def mem_simps)

lemma slotted_remove:
  assumes s: "slotted lim m fe recs ps" and off: "off < length recs"
    and ne: "\<And>r. r \<in> set recs \<Longrightarrow> r \<noteq> []"
    and pos: "pos = ps ! off" and gap: "gap = length (recs ! off)"
  shows "slotted lim (remove_rec m fe (length recs) off pos gap) (fe + gap)
           (del_at off recs) (map (\<lambda>q. if q < pos then q + gap else q) (del_at off ps))"
proof -
  let ?n = "length recs" and ?m = "remove_rec m fe (length recs) off pos gap"
  let ?f = "\<lambda>q. if q < pos then q + gap else q"
  note D = slottedD [OF s]
  have len: "length (del_at off ps) = ?n - 1" "length (del_at off recs) = ?n - 1"
    using off D(1) by simp_all
  have top: "fe \<le> pos" "pos + gap \<le> lim" using D(6,7) [OF off] pos gap by simp_all
  have sep: "(ps ! j < pos \<and> ps ! j + length (recs ! j) \<le> pos) \<or> pos + gap \<le> ps ! j"
    if "j < ?n" "j \<noteq> off" for j
    using D(9) [OF that(1) off that(2)] ne [OF nth_mem [OF that(1)]] pos gap
    by (cases "recs ! j") auto
  have moved: "bytes_at ?m (?f (ps ! j)) (length (recs ! j)) = recs ! j" if "j < ?n" "j \<noteq> off" for j
  proof -
    have "4 * (?n - 1) \<le> 4 * ?n" by simp
    then have above: "PgHdSize + 4 * (?n - 1) \<le> ?f (ps ! j)"
      using D(2) D(6) [OF that(1)] by (simp only: split: if_split) arith
    have "bytes_at (drop_slot m ?n off) (ps ! j) (length (recs ! j)) = recs ! j"
      using drop_slot_above [of off ?n "ps ! j"] off D(2) D(6,8) [OF that(1)] by simp
    then show ?thesis
      unfolding remove_rec_def using sep [OF that] above D(6) [OF that(1)] top(1)
      by (subst shift_items_above) (auto simp: bytes_at_memmove bytes_at_memmove_disjoint)
  qed
  have slot: "read32 ?m (PgHdSize + 4 * i) = ?f (del_at off ps ! i)" if "i < ?n - 1" for i
  proof -
    have "read32 (memmove (drop_slot m ?n off) (fe + gap) fe (pos - fe)) (PgHdSize + 4 * i)
        = del_at off ps ! i"
      using that D(1,2) D(5) [of i] D(5) [of "Suc i"] off
      by (subst read32_memmove_disjoint) (auto simp: drop_slot_read nth_del_at)
    moreover have "del_at off ps ! i + gap < 2 ^ 32" if "del_at off ps ! i < pos"
      using that top D(4) by simp
    ultimately show ?thesis
      unfolding remove_rec_def using that by (simp add: shift_items_slot Let_def)
  qed
  have pick: "\<exists>j < ?n. j \<noteq> off \<and> del_at off ps ! i = ps ! j \<and> del_at off recs ! i = recs ! j \<and>
      j = (if i < off then i else Suc i)" if "i < ?n - 1" for i
    using that off D(1) by (auto simp: nth_del_at)
  have each: "fe + gap \<le> ?f (del_at off ps ! i) \<and>
      ?f (del_at off ps ! i) + length (del_at off recs ! i) \<le> lim \<and>
      bytes_at ?m (?f (del_at off ps ! i)) (length (del_at off recs ! i)) = del_at off recs ! i"
    if i: "i < ?n - 1" for i
  proof -
    obtain j where j: "j < ?n" "j \<noteq> off" "del_at off ps ! i = ps ! j" "del_at off recs ! i = recs ! j"
      using pick [OF i] by blast
    then show ?thesis using moved [OF j(1,2)] sep [OF j(1,2)] D(6,7) [OF j(1)] top by auto
  qed
  have disj: "?f (del_at off ps ! i) + length (del_at off recs ! i) \<le> ?f (del_at off ps ! k) \<or>
      ?f (del_at off ps ! k) + length (del_at off recs ! k) \<le> ?f (del_at off ps ! i)"
    if i: "i < ?n - 1" and k: "k < ?n - 1" and "i \<noteq> k" for i k
  proof -
    obtain a where a: "a < ?n" "a \<noteq> off" "del_at off ps ! i = ps ! a" "del_at off recs ! i = recs ! a"
      "a = (if i < off then i else Suc i)" using pick [OF i] by blast
    obtain b where b: "b < ?n" "b \<noteq> off" "del_at off ps ! k = ps ! b" "del_at off recs ! k = recs ! b"
      "b = (if k < off then k else Suc k)" using pick [OF k] by blast
    have "a \<noteq> b" using a(5) b(5) \<open>i \<noteq> k\<close> by (auto split: if_splits)
    then show ?thesis
      using a b D(9) [OF a(1) b(1)] sep [OF a(1,2)] sep [OF b(1,2)] by auto
  qed
  show ?thesis
    unfolding slotted_def length_map len
    using D(2-4) top slot each disj len by auto
qed

end
