(* ===== verification/NodeSearch.thy ===== *)
theory NodeSearch
  imports SlottedPage
begin

text \<open>
  Binary search over the sorted keys of a node. The reference result is \<open>lb ks k\<close>, the number
  of leading keys smaller than \<open>k\<close>. The locale \<open>node_probe\<close> is what a search relies on:
  comparing the searched key with the key at an offset tells their order, for every
  offset below the number of keys. Inside it the loop of the page searches is shown to end
  where \<open>lb\<close> says, and the four variants of the code are reduced to \<open>lb\<close>.
\<close>

definition lb :: "slice list \<Rightarrow> slice \<Rightarrow> nat" where
  "lb ks k = length (takeWhile (\<lambda>x. x < k) ks)"

abbreviation hit :: "slice list \<Rightarrow> slice \<Rightarrow> bool" where
  "hit ks k \<equiv> lb ks k < length ks \<and> ks ! lb ks k = k"

lemma lb_le [simp]: "lb ks k \<le> length ks"
  by (simp add: lb_def length_takeWhile_le)

lemma lb_Nil [simp]: "lb [] k = 0"
  by (simp add: lb_def)

lemma nth_less_lb: "i < lb ks k \<Longrightarrow> ks ! i < k"
  using nth_mem [of i "takeWhile (\<lambda>x. x < k) ks"] set_takeWhileD [of _ "\<lambda>x. x < k" ks]
    takeWhile_nth [of i "\<lambda>x. x < k" ks]
  by (auto simp: lb_def)

lemma nth_lb: "lb ks k < length ks \<Longrightarrow> k \<le> ks ! lb ks k"
  using nth_length_takeWhile [of "\<lambda>x. x < k" ks] by (auto simp: lb_def)

lemma sorted_nth_less:
  "sorted_wrt (<) (ks :: slice list) \<Longrightarrow> i < j \<Longrightarrow> j < length ks \<Longrightarrow> ks ! i < ks ! j"
  by (rule sorted_wrt_nth_less)

lemma nth_ge_lb:
  assumes "sorted_wrt (<) ks" "lb ks k \<le> i" "i < length ks"
  shows "k \<le> ks ! i"
proof (cases "lb ks k = i")
  case False
  then have "ks ! lb ks k < ks ! i" using assms by (intro sorted_nth_less) auto
  moreover have "k \<le> ks ! lb ks k" using assms by (intro nth_lb) auto
  ultimately show ?thesis by simp
qed (use assms nth_lb in auto)

lemma less_lb_iff:
  "sorted_wrt (<) ks \<Longrightarrow> i < length ks \<Longrightarrow> ks ! i < k \<longleftrightarrow> i < lb ks k"
  using nth_less_lb [of i ks k] nth_ge_lb [of ks k i] by (cases "i < lb ks k") auto

lemma eq_lb_iff:
  assumes "sorted_wrt (<) ks" "i < length ks"
  shows "ks ! i = k \<longleftrightarrow> i = lb ks k \<and> hit ks k"
proof
  assume "ks ! i = k"
  then have "\<not> i < lb ks k" using nth_less_lb [of i ks k] by auto
  moreover have "\<not> lb ks k < i"
  proof
    assume "lb ks k < i"
    then have "ks ! lb ks k < k"
      using sorted_nth_less [OF assms(1) _ assms(2)] \<open>ks ! i = k\<close> by simp
    moreover have "k \<le> ks ! lb ks k" using \<open>lb ks k < i\<close> assms(2) by (intro nth_lb) simp
    ultimately show False by simp
  qed
  ultimately have "i = lb ks k" by simp
  then show "i = lb ks k \<and> hit ks k" using \<open>ks ! i = k\<close> assms by simp
qed auto

lemma hit_iff: "sorted_wrt (<) ks \<Longrightarrow> hit ks k \<longleftrightarrow> k \<in> set ks"
  using eq_lb_iff [of ks _ k] by (metis in_set_conv_nth)

lemma sorted_ins_lb:
  assumes "sorted_wrt (<) ks" "k \<notin> set ks"
  shows "sorted_wrt (<) (ins_at (lb ks k) k ks)"
proof -
  have "x < k" if "x \<in> set (take (lb ks k) ks)" for x
    using that nth_less_lb by (auto simp: in_set_conv_nth)
  moreover have "k < x" if x: "x \<in> set (drop (lb ks k) ks)" for x
  proof -
    obtain i where "i < length (drop (lb ks k) ks)" "x = drop (lb ks k) ks ! i"
      using x unfolding in_set_conv_nth by blast
    then have i: "lb ks k + i < length ks" "x = ks ! (lb ks k + i)" by simp_all
    then have "k \<le> x" using nth_ge_lb [OF assms(1)] by simp
    moreover have "x \<in> set ks" unfolding i(2) by (rule nth_mem [OF i(1)])
    then have "x \<noteq> k" using assms(2) by blast
    ultimately show ?thesis by simp
  qed
  moreover have "sorted_wrt (<) (take (lb ks k) ks @ drop (lb ks k) ks)" using assms by simp
  ultimately show ?thesis
    unfolding ins_at_def sorted_wrt_append by (auto intro: less_trans)
qed

lemma lb_last:
  "ks \<noteq> [] \<Longrightarrow> sorted_wrt (<) ks \<Longrightarrow> last ks < k \<Longrightarrow> lb ks k = length ks"
  using less_lb_iff [of ks "length ks - 1" k] lb_le [of ks k]
  by (cases "length ks") (auto simp: last_conv_nth)

section \<open>The search interface\<close>

locale node_probe =
  fixes probe :: "'p \<Rightarrow> slice \<Rightarrow> nat \<Rightarrow> int result"
    and holds :: "'p \<Rightarrow> slice list \<Rightarrow> bool"
    and norm :: "slice \<Rightarrow> slice"
  assumes probe_cmp: "holds p ks \<Longrightarrow> i < length ks \<Longrightarrow>
    probe p key i = Inr (Slice_compare (norm key) (ks ! i))"
begin

text \<open>The exact exit of the loop on the keys \<open>ks\<close>, whose last offset is \<open>h\<close>.\<close>

lemma bin_loop_lb:
  assumes "holds p ks" "sorted_wrt (<) ks" "length ks = Suc h" and k: "k = norm key"
    and "low \<le> high" "high \<le> h" "low \<le> lb ks k"
    and "high = h \<or> lb ks k \<le> high \<and> \<not> (high = lb ks k \<and> hit ks k)"
  shows "bin_loop (probe p key) low high =
    Inr (if hit ks k \<and> lb ks k < h then Found (lb ks k) else Ended (min (lb ks k) h))"
  using assms(5-8)
proof (induction "high - low" arbitrary: low high rule: less_induct)
  case less
  let ?mid = "low + (high - low) div 2"
  show ?case
  proof (cases "low < high")
    case False
    then have "low = high" using less.prems by simp
    then have "bin_loop (probe p key) low high = Inr (Ended low)"
      using bin_loop.simps [of "probe p key" low high] by simp
    moreover have "low = min (lb ks k) h" "\<not> (hit ks k \<and> lb ks k < h)"
      using less.prems \<open>low = high\<close> by auto
    ultimately show ?thesis by simp
  next
    case True
    then have mid: "low \<le> ?mid" "?mid < high" "?mid < length ks" using less.prems assms(3) by auto
    have probe: "probe p key ?mid = Inr (Slice_compare k (ks ! ?mid))"
      using probe_cmp [OF assms(1) mid(3)] k by simp
    have dec: "high - (?mid + 1) < high - low" "?mid - low < high - low" using mid by linarith+
    note unfold = bin_loop.simps [of "probe p key" low high]
    consider (eq) "?mid = lb ks k" "hit ks k" | (above) "?mid < lb ks k"
      | (below) "lb ks k \<le> ?mid" "\<not> (?mid = lb ks k \<and> hit ks k)" by linarith
    then show ?thesis
    proof cases
      case eq
      then have "Slice_compare k (ks ! ?mid) = 0" by simp
      then have "bin_loop (probe p key) low high = Inr (Found ?mid)"
        using True probe by (simp add: unfold Let_def)
      then show ?thesis using eq mid less.prems by simp
    next
      case above
      then have "ks ! ?mid < k" using less_lb_iff [OF assms(2) mid(3)] by simp
      then have "ks ! ?mid < k" "k \<noteq> ks ! ?mid" by auto
      then have "bin_loop (probe p key) low high = bin_loop (probe p key) (?mid + 1) high"
        using True probe by (simp add: unfold Let_def)
      moreover have "?mid + 1 \<le> high" "?mid + 1 \<le> lb ks k" using mid above by simp_all
      ultimately show ?thesis using less.hyps [OF dec(1)] less.prems(2,4) by simp
    next
      case below
      then have "k < ks ! ?mid"
        using less_lb_iff [OF assms(2) mid(3), of k] eq_lb_iff [OF assms(2) mid(3), of k]
        by (auto simp: not_less le_less)
      then have "\<not> ks ! ?mid < k" "k \<noteq> ks ! ?mid" by auto
      then have "bin_loop (probe p key) low high = bin_loop (probe p key) low ?mid"
        using True probe by (simp add: unfold Let_def)
      moreover have "?mid \<le> h" using mid less.prems(2) by simp
      ultimately show ?thesis using less.hyps [OF dec(2)] mid(1) less.prems(3) below by simp
    qed
  qed
qed

lemma bin_loop_whole:
  assumes "holds p ks" "sorted_wrt (<) ks" "length ks = Suc h"
  shows "bin_loop (probe p key) 0 h =
    Inr (if hit ks (norm key) \<and> lb ks (norm key) < h then Found (lb ks (norm key))
         else Ended (min (lb ks (norm key)) h))"
  using assms by (intro bin_loop_lb) auto

lemma search_insert_lb:
  assumes "holds p ks" "sorted_wrt (<) ks" "length ks = Suc h"
  shows "bind_result (bin_loop (probe p key) 0 h) (\<lambda>e.
      case e of Found mid \<Rightarrow> Inr mid
      | Ended low \<Rightarrow> bind_result (probe p key low) (\<lambda>r. Inr (if r > 0 then low + 1 else low)))
    = Inr (lb ks (norm key))"
proof -
  let ?l = "lb ks (norm key)"
  have "probe p key (min ?l h) = Inr (Slice_compare (norm key) (ks ! min ?l h))"
    using assms by (intro probe_cmp) auto
  moreover have "ks ! min ?l h < norm key \<longleftrightarrow> ?l = Suc h"
    using less_lb_iff [OF assms(2), of "min ?l h" "norm key"] assms(3) lb_le [of ks "norm key"] by auto
  ultimately show ?thesis
    using lb_le [of ks "norm key"] assms(3) by (auto simp: bin_loop_whole [OF assms])
qed

end

end
