(* ===== verification/TreePageCorrect.thy ===== *)
theory TreePageCorrect
  imports NodeSearch
begin

text \<open>
  Functional correctness of the page operations of \<^verbatim>\<open>tree_page.cc\<close>. A leaf page represents
  a list of key/value pairs (\<open>leaf_page\<close>), an inner page a list of key/child pairs
  (\<open>index_page\<close>); each operation is related to its effect on that list.
\<close>

section \<open>Pages and the entries they hold\<close>

definition leaf_rec :: "slice \<times> slice \<Rightarrow> slice" where
  "leaf_rec e = EncodeFixed32 (of_nat (length (fst e))) @ fst e @
     EncodeFixed32 (of_nat (length (snd e))) @ snd e"

definition index_rec :: "slice \<times> nat \<Rightarrow> slice" where
  "index_rec e = EncodeFixed32 (of_nat (length (fst e))) @ fst e @ EncodeFixed32 (of_nat (snd e))"

definition page_recs :: "page \<Rightarrow> slice list \<Rightarrow> bool" where
  "page_recs p recs \<longleftrightarrow> item_num p = length recs \<and> free_start p = PgHdSize + 4 * length recs \<and>
     (\<exists>ps. slotted PAGE_SIZE (data p) (free_end p) recs ps)"

definition leaf_page :: "page \<Rightarrow> (slice \<times> slice) list \<Rightarrow> bool" where
  "leaf_page p es \<longleftrightarrow> is_leaf p \<and> page_recs p (map leaf_rec es)"

definition index_page :: "page \<Rightarrow> (slice \<times> nat) list \<Rightarrow> bool" where
  "index_page p es \<longleftrightarrow> \<not> is_leaf p \<and> (\<forall>e \<in> set es. snd e < 2 ^ 32) \<and> page_recs p (map index_rec es)"

definition page_keys :: "page \<Rightarrow> slice list \<Rightarrow> bool" where
  "page_keys p ks \<longleftrightarrow> item_num p = length ks \<and> (\<forall>i < length ks. PageReadPivotAtOffset p i = ks ! i)"

lemma length_leaf_rec [simp]: "length (leaf_rec e) = length (fst e) + length (snd e) + 8"
  by (simp add: leaf_rec_def)

lemma length_index_rec [simp]: "length (index_rec e) = length (fst e) + 8"
  by (simp add: index_rec_def)

lemma leaf_rec_ne [simp]: "leaf_rec e \<noteq> []"
  using length_leaf_rec [of e] by (auto simp del: length_leaf_rec)

lemma index_rec_ne [simp]: "index_rec e \<noteq> []"
  using length_index_rec [of e] by (auto simp del: length_index_rec)

text \<open>Where the parts of an entry are, once its bytes are known.\<close>

lemma decode_leaf_rec:
  assumes "bytes_at m q (length (leaf_rec e)) = leaf_rec e" "length (leaf_rec e) < 2 ^ 32"
  shows "read32 m q = length (fst e)" "bytes_at m (q + 4) (length (fst e)) = fst e"
    "read32 m (q + 4 + length (fst e)) = length (snd e)"
    "bytes_at m (q + 8 + length (fst e)) (length (snd e)) = snd e"
proof -
  have 1: "bytes_at m q 4 = EncodeFixed32 (of_nat (length (fst e)))"
    using bytes_at_sub [OF assms(1), of 0 4] by (simp add: leaf_rec_def)
  have 2: "bytes_at m (q + 4 + length (fst e)) 4 = EncodeFixed32 (of_nat (length (snd e)))"
    using bytes_at_sub [OF assms(1), of "4 + length (fst e)" 4] by (simp add: leaf_rec_def add.assoc)
  show "read32 m q = length (fst e)" "read32 m (q + 4 + length (fst e)) = length (snd e)"
    using assms(2) by (simp_all add: read32_def 1 2 unat_of_nat_32)
  show "bytes_at m (q + 4) (length (fst e)) = fst e"
    using bytes_at_sub [OF assms(1), of 4 "length (fst e)"] by (simp add: leaf_rec_def)
  show "bytes_at m (q + 8 + length (fst e)) (length (snd e)) = snd e"
    using bytes_at_sub [OF assms(1), of "8 + length (fst e)" "length (snd e)"]
    by (simp add: leaf_rec_def add.assoc)
qed

lemma decode_index_rec:
  assumes "bytes_at m q (length (index_rec e)) = index_rec e" "length (index_rec e) < 2 ^ 32"
  shows "read32 m q = length (fst e)" "bytes_at m (q + 4) (length (fst e)) = fst e"
    "read32 m (q + 4 + length (fst e)) = u32 (snd e)"
proof -
  have 1: "bytes_at m q 4 = EncodeFixed32 (of_nat (length (fst e)))"
    using bytes_at_sub [OF assms(1), of 0 4] by (simp add: index_rec_def)
  have 2: "bytes_at m (q + 4 + length (fst e)) 4 = EncodeFixed32 (of_nat (snd e))"
    using bytes_at_sub [OF assms(1), of "4 + length (fst e)" 4] by (simp add: index_rec_def add.assoc)
  show "read32 m q = length (fst e)" "read32 m (q + 4 + length (fst e)) = u32 (snd e)"
    using assms(2) by (simp_all add: read32_def 1 2 unat_of_nat_32)
  show "bytes_at m (q + 4) (length (fst e)) = fst e"
    using bytes_at_sub [OF assms(1), of 4 "length (fst e)"] by (simp add: index_rec_def)
qed

lemma page_recsE:
  assumes "page_recs p recs"
  obtains ps where "item_num p = length recs" "free_start p = PgHdSize + 4 * length recs"
    "slotted PAGE_SIZE (data p) (free_end p) recs ps"
  using assms by (auto simp: page_recs_def)

lemma slotted_len: "slotted lim m fe recs ps \<Longrightarrow> i < length recs \<Longrightarrow> length (recs ! i) < 2 ^ 32"
  using slottedD(4) [of lim m fe recs ps] slottedD(7) [of lim m fe recs ps i] by simp

lemma decode_leafEntry_at:
  assumes "read32 (data p) (PgHdSize + 4 * i) = q" "bytes_at (data p) q (length (leaf_rec e)) = leaf_rec e"
    "length (leaf_rec e) < 2 ^ 32"
  shows "page_decode_leafEntry p i = e"
  using decode_leaf_rec [OF assms(2,3)] assms(1)
  by (simp add: page_decode_leafEntry_def page_decode_int32_at_def Let_def mult.commute
      add.commute add.left_commute)

lemma decode_indexEntry_at:
  assumes "read32 (data p) (PgHdSize + 4 * i) = q" "bytes_at (data p) q (length (index_rec e)) = index_rec e"
    "length (index_rec e) < 2 ^ 32" "snd e < 2 ^ 32"
  shows "page_decode_indexEntry p i = e"
  using decode_index_rec [OF assms(2,3)] assms(1,4)
  by (simp add: page_decode_indexEntry_def page_decode_int32_at_def Let_def mult.commute
      add.commute add.left_commute)

lemma leaf_page_decode:
  assumes "leaf_page p es" "i < length es"
  shows "page_decode_leafEntry p i = es ! i"
proof -
  obtain ps where s: "slotted PAGE_SIZE (data p) (free_end p) (map leaf_rec es) ps"
    using assms(1) by (auto simp: leaf_page_def elim: page_recsE)
  have i: "i < length (map leaf_rec es)" using assms(2) by simp
  show ?thesis
    using slottedD(5,8) [OF s i] slotted_len [OF s i] assms(2)
    by (intro decode_leafEntry_at [of p i "ps ! i"]) simp_all
qed

lemma index_page_decode:
  assumes "index_page p es" "i < length es"
  shows "page_decode_indexEntry p i = es ! i"
proof -
  obtain ps where s: "slotted PAGE_SIZE (data p) (free_end p) (map index_rec es) ps"
    using assms(1) by (auto simp: index_page_def elim: page_recsE)
  have i: "i < length (map index_rec es)" using assms(2) by simp
  have c: "snd (es ! i) < 2 ^ 32" using assms nth_mem unfolding index_page_def by blast
  show ?thesis
    using slottedD(5,8) [OF s i] slotted_len [OF s i] assms(2) c
    by (intro decode_indexEntry_at [of p i "ps ! i"]) simp_all
qed

lemma leaf_page_item_num: "leaf_page p es \<Longrightarrow> item_num p = length es"
  by (auto simp: leaf_page_def elim: page_recsE)

lemma index_page_item_num: "index_page p es \<Longrightarrow> item_num p = length es"
  by (auto simp: index_page_def elim: page_recsE)

lemma leaf_page_keys: "leaf_page p es \<Longrightarrow> page_keys p (map fst es)"
  by (auto simp: page_keys_def PageReadPivotAtOffset_def leaf_page_decode leaf_page_item_num leaf_page_def)

lemma index_page_keys: "index_page p es \<Longrightarrow> page_keys p (map fst es)"
  by (auto simp: page_keys_def PageReadPivotAtOffset_def index_page_decode index_page_item_num index_page_def)

section \<open>Searches\<close>

definition pure_keys :: "page \<Rightarrow> slice list \<Rightarrow> bool" where
  "pure_keys p ks \<longleftrightarrow> item_num p = length ks \<and>
     (\<forall>i < length ks. pure_key (PageReadPivotAtOffset p i) = ks ! i)"

interpretation keyed: node_probe page_compare page_keys "\<lambda>k. k"
  by unfold_locales (simp add: page_compare_def page_keys_def)

interpretation pure: node_probe pure_compare pure_keys pure_key
  by unfold_locales (simp add: pure_compare_def pure_keys_def)

lemma page_bin_search_insert_keys:
  assumes "page_keys p ks" "sorted_wrt (<) ks"
  shows "page_bin_search_insert p key = Inr (lb ks key)"
proof (cases ks)
  case Nil
  then show ?thesis using assms by (simp add: page_bin_search_insert_def page_keys_def)
next
  case (Cons a l)
  then have "length ks = Suc (length l)" "item_num p = Suc (length l)"
    using assms(1) by (simp_all add: page_keys_def)
  then show ?thesis
    using keyed.search_insert_lb [OF assms, of "length l" key] by (simp add: page_bin_search_insert_def)
qed

lemma page_bin_search_with_seq_keys:
  assumes "pure_keys p ks" "sorted_wrt (<) ks"
  shows "page_bin_search_with_seq p key = Inr (lb ks (pure_key key))"
proof (cases ks)
  case Nil
  then show ?thesis using assms by (simp add: page_bin_search_with_seq_def pure_keys_def)
next
  case (Cons a l)
  then have "length ks = Suc (length l)" "item_num p = Suc (length l)"
    using assms(1) by (simp_all add: pure_keys_def)
  then show ?thesis
    using pure.search_insert_lb [OF assms, of "length l" key] by (simp add: page_bin_search_with_seq_def)
qed

lemma page_bin_search_highkey_keys:
  assumes "page_keys p ks" "sorted_wrt (<) ks"
  shows "page_bin_search_highkey p key = Inr (min (lb ks key) (length ks - 1))"
proof (cases ks)
  case Nil
  then show ?thesis using assms by (simp add: page_bin_search_highkey_def page_keys_def)
next
  case (Cons a l)
  then have "length ks = Suc (length l)" "item_num p = Suc (length l)"
    using assms(1) by (simp_all add: page_keys_def)
  then show ?thesis
    using keyed.bin_loop_whole [OF assms, of "length l" key] by (auto simp: page_bin_search_highkey_def)
qed

text \<open>The result of \<^verbatim>\<open>page_bin_search\<close>: the last offset whose key is at most \<open>key\<close>, or 0.\<close>

definition floor_off :: "slice list \<Rightarrow> slice \<Rightarrow> nat" where
  "floor_off ks key = (if hit ks key then lb ks key else lb ks key - 1)"

lemma page_bin_search_keys:
  assumes "page_keys p ks" "sorted_wrt (<) ks"
  shows "page_bin_search p key = Inr (floor_off ks key)"
proof (cases ks)
  case Nil
  then show ?thesis using assms by (simp add: page_bin_search_def page_keys_def floor_off_def)
next
  case (Cons a l)
  then have h: "length ks = Suc (length l)" "item_num p = Suc (length l)"
    using assms(1) by (simp_all add: page_keys_def)
  let ?l = "lb ks key" and ?h = "length l"
  have probe: "page_compare p key (min ?l ?h) = Inr (Slice_compare key (ks ! min ?l ?h))"
    using assms(1) h by (intro keyed.probe_cmp) auto
  have lt: "ks ! min ?l ?h < key \<longleftrightarrow> ?l = Suc ?h"
    using less_lb_iff [OF assms(2), of "min ?l ?h" key] h(1) lb_le [of ks key] by auto
  have eq: "ks ! min ?l ?h = key \<longleftrightarrow> hit ks key"
    using eq_lb_iff [OF assms(2), of "min ?l ?h" key] h(1) lb_le [of ks key] by auto
  consider (found) "hit ks key" "?l < ?h" | (last) "?l = Suc ?h" | (at) "hit ks key" "?l = ?h"
    | (miss) "\<not> hit ks key" "?l \<le> ?h" using lb_le [of ks key] h(1) by linarith
  then show ?thesis
  proof cases
    case found
    then show ?thesis
      by (simp add: page_bin_search_def keyed.bin_loop_whole [OF assms h(1)] h(2) floor_off_def)
  next
    case last
    then show ?thesis using probe lt h
      by (simp add: page_bin_search_def keyed.bin_loop_whole [OF assms h(1)] floor_off_def less_imp_le)
  next
    case at
    then show ?thesis using probe h
      by (simp add: page_bin_search_def keyed.bin_loop_whole [OF assms h(1)] floor_off_def)
  next
    case miss
    then have "\<not> 0 \<le> Slice_compare key (ks ! min ?l ?h)" using lt eq
      by (simp only: Slice_compare_ge not_le) auto
    with miss probe show ?thesis
      by (auto simp: page_bin_search_def keyed.bin_loop_whole [OF assms h(1)] h(2) floor_off_def)
  qed
qed

section \<open>Inserting entries\<close>

abbreviation page_space :: "page \<Rightarrow> nat" where
  "page_space p \<equiv> free_end p - free_start p"

text \<open>What an operation on the entries leaves alone: the identity of the node and its links.\<close>

definition same_node :: "page \<Rightarrow> page \<Rightarrow> bool" where
  "same_node p p' \<longleftrightarrow> opt_lock p' = opt_lock p \<and> page_id p' = page_id p \<and> left_sib p' = left_sib p \<and>
     right_sib p' = right_sib p \<and> is_leaf p' = is_leaf p"

lemma same_node_trans: "same_node p q \<Longrightarrow> same_node q r \<Longrightarrow> same_node p r"
  by (simp add: same_node_def)

lemma same_node_refl [simp]: "same_node p p"
  by (simp add: same_node_def)

lemma page_recs_free:
  assumes "page_recs p recs"
  shows "free_start p \<le> free_end p" "free_end p \<le> PAGE_SIZE"
    "3 < n \<Longrightarrow> PageGetFreeSpace p \<le> n \<longleftrightarrow> page_space p \<le> n"
proof -
  obtain ps where "free_start p = PgHdSize + 4 * length recs"
    "slotted PAGE_SIZE (data p) (free_end p) recs ps"
    using assms by (rule page_recsE)
  then show le: "free_start p \<le> free_end p" "free_end p \<le> PAGE_SIZE"
    using slottedD(2,3) [of PAGE_SIZE "data p" "free_end p" recs ps] by simp_all
  show "3 < n \<Longrightarrow> PageGetFreeSpace p \<le> n \<longleftrightarrow> page_space p \<le> n"
    using le sub32_diff [OF le(1)] by (auto simp: PageGetFreeSpace_def Let_def)
qed

definition put_rec :: "page \<Rightarrow> nat \<Rightarrow> slice \<Rightarrow> page" where
  "put_rec p off r =
     p\<lparr>data := insert_rec (data p) (free_end p) (item_num p) off r,
       free_end := free_end p - length r, free_start := free_start p + 4,
       item_num := item_num p + 1, is_dirty := True\<rparr>"

lemma put_rec_fields [simp]:
  "is_leaf (put_rec p off r) = is_leaf p" "item_num (put_rec p off r) = item_num p + 1"
  "same_node p (put_rec p off r)"
  "page_space (put_rec p off r) = page_space p - (length r + 4)"
  by (simp_all add: put_rec_def same_node_def)

lemma page_recs_put_rec:
  assumes "page_recs p recs" "off \<le> length recs" "length r + 4 \<le> page_space p"
  shows "page_recs (put_rec p off r) (ins_at off r recs)"
proof -
  obtain ps where D: "item_num p = length recs" "free_start p = PgHdSize + 4 * length recs"
    "slotted PAGE_SIZE (data p) (free_end p) recs ps"
    using assms(1) by (rule page_recsE)
  have "PgHdSize + 4 * Suc (length recs) + length r \<le> free_end p" using assms(3) D(2) by simp
  from slotted_insert [OF D(3) assms(2) this] D(1,2) show ?thesis
    unfolding page_recs_def put_rec_def by auto
qed

lemma page_write_leafEntry_raw:
  assumes free: "free_start p \<le> free_end p" "free_end p \<le> PAGE_SIZE"
    and room: "length (leaf_rec (k, v)) + 4 \<le> page_space p"
  shows "(page_write_leafEntry_at off p k v)\<lparr>is_dirty := True, item_num := item_num p + 1\<rparr> =
    put_rec p off (leaf_rec (k, v))"
proof -
  have small: "length k < 2 ^ 32" "length v < 2 ^ 32" "length k + 8 + length v < 2 ^ 32"
    "free_start p + 4 < 2 ^ 32"
    using room free by simp_all
  have up: "sub32 (free_end p) (length k + 8 + length v) = free_end p - (length k + length v + 8)"
    using room free by (subst sub32_diff) auto
  let ?up = "free_end p - (length k + length v + 8)"
  have "write_bytes (write32 (write_bytes (write32 (data p) ?up (length k)) (?up + 4) k)
      (?up + 4 + length k) (length v)) (?up + 4 + length k + 4) v
    = write_bytes (data p) ?up (leaf_rec (k, v))"
    using write_bytes_append [of "data p" ?up "EncodeFixed32 (of_nat (length k))" k]
      write_bytes_append [of "data p" ?up "EncodeFixed32 (of_nat (length k)) @ k"
        "EncodeFixed32 (of_nat (length v))"]
      write_bytes_append [of "data p" ?up "EncodeFixed32 (of_nat (length k)) @ k @
        EncodeFixed32 (of_nat (length v))" v]
    by (simp add: write32_def leaf_rec_def add.assoc)
  then show ?thesis
    using small up
    by (intro page.equality)
      (simp_all add: page_write_leafEntry_at_def put_rec_def insert_rec_def Let_def)
qed

lemma page_write_leafEntry_put:
  assumes "page_recs p recs" "length (leaf_rec (k, v)) + 4 \<le> page_space p"
  shows "(page_write_leafEntry_at off p k v)\<lparr>is_dirty := True, item_num := item_num p + 1\<rparr> =
    put_rec p off (leaf_rec (k, v))"
  by (rule page_write_leafEntry_raw [OF page_recs_free(1,2) [OF assms(1)] assms(2)])

lemma page_write_indexEntry_raw:
  assumes free: "free_start p \<le> free_end p" "free_end p \<le> PAGE_SIZE"
    and room: "length (index_rec (k, c)) + 4 \<le> page_space p"
  shows "(page_write_indexEntry_at off p k c)\<lparr>is_dirty := True, item_num := item_num p + 1\<rparr> =
    put_rec p off (index_rec (k, c))"
proof -
  have small: "length k < 2 ^ 32" "length k + 8 < 2 ^ 32" "free_start p + 4 < 2 ^ 32"
    using room free by simp_all
  have up: "sub32 (free_end p) (length k + 8) = free_end p - (length k + 8)"
    using room free by (subst sub32_diff) auto
  let ?up = "free_end p - (length k + 8)"
  have "write32 (write_bytes (write32 (data p) ?up (length k)) (?up + 4) k) (?up + 4 + length k) c
    = write_bytes (data p) ?up (index_rec (k, c))"
    using write_bytes_append [of "data p" ?up "EncodeFixed32 (of_nat (length k))" k]
      write_bytes_append [of "data p" ?up "EncodeFixed32 (of_nat (length k)) @ k"
        "EncodeFixed32 (of_nat c)"]
    by (simp add: write32_def index_rec_def add.assoc)
  then show ?thesis
    using small up
    by (intro page.equality)
      (simp_all add: page_write_indexEntry_at_def put_rec_def insert_rec_def Let_def)
qed

lemma page_write_indexEntry_put:
  assumes "page_recs p recs" "length (index_rec (k, c)) + 4 \<le> page_space p"
  shows "(page_write_indexEntry_at off p k c)\<lparr>is_dirty := True, item_num := item_num p + 1\<rparr> =
    put_rec p off (index_rec (k, c))"
  by (rule page_write_indexEntry_raw [OF page_recs_free(1,2) [OF assms(1)] assms(2)])

lemma leaf_page_put:
  assumes "leaf_page p es" "off \<le> length es" "length (leaf_rec e) + 4 \<le> page_space p"
  shows "leaf_page (put_rec p off (leaf_rec e)) (ins_at off e es)"
  using assms page_recs_put_rec [of p "map leaf_rec es" off "leaf_rec e"]
  by (auto simp: leaf_page_def map_ins_at)

lemma index_page_put:
  assumes "index_page p es" "off \<le> length es" "length (index_rec e) + 4 \<le> page_space p" "snd e < 2 ^ 32"
  shows "index_page (put_rec p off (index_rec e)) (ins_at off e es)"
  using assms page_recs_put_rec [of p "map index_rec es" off "index_rec e"]
  by (auto simp: index_page_def map_ins_at set_ins_at)

text \<open>
  A key that is not the key of the page at the insertion offset. Past the last item
  \<^verbatim>\<open>PageReadPivotAtOffset\<close> returns the empty slice, hence the condition on the empty key.
\<close>

lemma pivot_at_lb:
  assumes "page_keys p ks" "sorted_wrt (<) ks" "key \<noteq> []"
  shows "PageReadPivotAtOffset p (lb ks key) = key \<longleftrightarrow> key \<in> set ks"
proof (cases "lb ks key < length ks")
  case True
  then show ?thesis using assms hit_iff [OF assms(2), of key] by (auto simp: page_keys_def)
next
  case False
  then show ?thesis using assms hit_iff [OF assms(2), of key]
    by (auto simp: page_keys_def PageReadPivotAtOffset_def)
qed

lemma PageInsertLeafEntry_fresh:
  assumes "leaf_page p es" "sorted_wrt (<) (map fst es)" "k \<noteq> []" "k \<notin> fst ` set es"
    "length k + length v + 12 < page_space p"
  shows "PageInsertLeafEntry p k v = Inr (put_rec p (lb (map fst es) k) (leaf_rec (k, v)))"
proof -
  have recs: "page_recs p (map leaf_rec es)" using assms(1) by (simp add: leaf_page_def)
  have "lb (map fst es) k \<le> length (map leaf_rec es)" using lb_le [of "map fst es" k] by simp
  then have "(page_write_leafEntry_at (lb (map fst es) k) p k v)\<lparr>is_dirty := True,
      item_num := item_num p + 1\<rparr> = put_rec p (lb (map fst es) k) (leaf_rec (k, v))"
    using assms(5) by (intro page_write_leafEntry_put [OF recs]) auto
  moreover have "item_num (page_write_leafEntry_at (lb (map fst es) k) p k v) = item_num p"
    by (simp add: page_write_leafEntry_at_def Let_def)
  moreover have "\<not> PageGetFreeSpace p \<le> length k + length v + 12"
    using page_recs_free(3) [OF recs] assms(5) by simp
  ultimately show ?thesis
    using page_bin_search_insert_keys [OF leaf_page_keys [OF assms(1)] assms(2), of k]
      pivot_at_lb [OF leaf_page_keys [OF assms(1)] assms(2,3)] assms(4)
    by (auto simp: PageInsertLeafEntry_def Let_def)
qed

lemma PageInsertIndexEntry_put:
  assumes "index_page p es" "sorted_wrt (<) (map fst es)" "length k + 12 < page_space p"
  shows "PageInsertIndexEntry p k c = Inr (put_rec p (lb (map fst es) k) (index_rec (k, c)))"
proof -
  have recs: "page_recs p (map index_rec es)" using assms(1) by (simp add: index_page_def)
  have "lb (map fst es) k \<le> length (map index_rec es)" using lb_le [of "map fst es" k] by simp
  then have "(page_write_indexEntry_at (lb (map fst es) k) p k c)\<lparr>is_dirty := True,
      item_num := item_num p + 1\<rparr> = put_rec p (lb (map fst es) k) (index_rec (k, c))"
    using assms(3) by (intro page_write_indexEntry_put [OF recs]) auto
  moreover have "item_num (page_write_indexEntry_at (lb (map fst es) k) p k c) = item_num p"
    by (simp add: page_write_indexEntry_at_def Let_def)
  moreover have "\<not> PageGetFreeSpace p \<le> length k + 12"
    using page_recs_free(3) [OF recs] assms(3) by simp
  ultimately show ?thesis
    using page_bin_search_insert_keys [OF index_page_keys [OF assms(1)] assms(2), of k]
    by (auto simp: PageInsertIndexEntry_def Let_def)
qed

lemma PageAppendLeafEntry_put:
  assumes "leaf_page p es" "length k + length v + 12 < page_space p"
  shows "PageAppendLeafEntry p k v = Inr (put_rec p (length es) (leaf_rec (k, v)))"
proof -
  have recs: "page_recs p (map leaf_rec es)" using assms(1) by (simp add: leaf_page_def)
  have "(page_write_leafEntry_at (length es) p k v)\<lparr>is_dirty := True, item_num := item_num p + 1\<rparr>
      = put_rec p (length es) (leaf_rec (k, v))"
    using assms(2) by (intro page_write_leafEntry_put [OF recs]) auto
  moreover have "item_num (page_write_leafEntry_at (length es) p k v) = item_num p"
    by (simp add: page_write_leafEntry_at_def Let_def)
  moreover have "\<not> PageGetFreeSpace p \<le> length k + length v + 12"
    using page_recs_free(3) [OF recs] assms(2) by simp
  ultimately show ?thesis
    by (auto simp: PageAppendLeafEntry_def Let_def leaf_page_item_num [OF assms(1)])
qed

section \<open>Changing entries in place\<close>

lemma page_recs_overwrite:
  assumes "page_recs p recs" "i < length recs" "k + length xs \<le> length (recs ! i)"
    and q: "q = read32 (data p) (PgHdSize + 4 * i)"
  shows "page_recs (p\<lparr>data := write_bytes (data p) (q + k) xs, is_dirty := d\<rparr>)
    (recs[i := take k (recs ! i) @ xs @ drop (k + length xs) (recs ! i)])"
proof -
  obtain ps where D: "item_num p = length recs" "free_start p = PgHdSize + 4 * length recs"
    "slotted PAGE_SIZE (data p) (free_end p) recs ps"
    using assms(1) by (rule page_recsE)
  have "q = ps ! i" using slottedD(5) [OF D(3) assms(2)] q by simp
  with slotted_overwrite [OF D(3) assms(2,3)] D(1,2) show ?thesis
    by (auto simp: page_recs_def)
qed

lemma leaf_rec_new_value:
  "length v = length v0 \<Longrightarrow> take (8 + length k) (leaf_rec (k, v0)) @ v @
     drop (8 + length k + length v) (leaf_rec (k, v0)) = leaf_rec (k, v)"
  by (simp add: leaf_rec_def)

lemma leaf_rec_new_key:
  "length k = length k0 \<Longrightarrow> take 4 (leaf_rec (k0, v)) @ k @
     drop (4 + length k) (leaf_rec (k0, v)) = leaf_rec (k, v)"
  by (simp add: leaf_rec_def)

lemma index_rec_new_key:
  "length k = length k0 \<Longrightarrow> take 4 (index_rec (k0, c)) @ k @
     drop (4 + length k) (index_rec (k0, c)) = index_rec (k, c)"
  by (simp add: index_rec_def)

lemma index_rec_new_child:
  "take (4 + length k) (index_rec (k, c0)) @ EncodeFixed32 (of_nat c) @
     drop (4 + length k + 4) (index_rec (k, c0)) = index_rec (k, c)"
  by (simp add: index_rec_def)

text \<open>The position and the sizes the in-place updates decode.\<close>

lemma leaf_page_sizes:
  assumes "leaf_page p es" "i < length es" "q = read32 (data p) (PgHdSize + 4 * i)"
  shows "read32 (data p) q = length (fst (es ! i))"
    "read32 (data p) (q + 4 + length (fst (es ! i))) = length (snd (es ! i))"
proof -
  obtain ps where s: "slotted PAGE_SIZE (data p) (free_end p) (map leaf_rec es) ps"
    using assms(1) by (auto simp: leaf_page_def elim: page_recsE)
  have i: "i < length (map leaf_rec es)" using assms(2) by simp
  have "bytes_at (data p) q (length (leaf_rec (es ! i))) = leaf_rec (es ! i)"
    "length (leaf_rec (es ! i)) < 2 ^ 32"
    using slottedD(5,8) [OF s i] slotted_len [OF s i] assms(2,3) by simp_all
  from decode_leaf_rec(1,3) [OF this] show "read32 (data p) q = length (fst (es ! i))"
    "read32 (data p) (q + 4 + length (fst (es ! i))) = length (snd (es ! i))" .
qed

lemma index_page_sizes:
  assumes "index_page p es" "i < length es" "q = read32 (data p) (PgHdSize + 4 * i)"
  shows "read32 (data p) q = length (fst (es ! i))"
proof -
  obtain ps where s: "slotted PAGE_SIZE (data p) (free_end p) (map index_rec es) ps"
    using assms(1) by (auto simp: index_page_def elim: page_recsE)
  have i: "i < length (map index_rec es)" using assms(2) by simp
  have "bytes_at (data p) q (length (index_rec (es ! i))) = index_rec (es ! i)"
    "length (index_rec (es ! i)) < 2 ^ 32"
    using slottedD(5,8) [OF s i] slotted_len [OF s i] assms(2,3) by simp_all
  from decode_index_rec(1) [OF this] show ?thesis .
qed

lemma leaf_page_dirty [simp]: "leaf_page (p\<lparr>is_dirty := d\<rparr>) es = leaf_page p es"
  by (simp add: leaf_page_def page_recs_def)

lemma index_page_dirty [simp]: "index_page (p\<lparr>is_dirty := d\<rparr>) es = index_page p es"
  by (simp add: index_page_def page_recs_def)

lemma PageUpdatePivotAt_leaf:
  assumes "leaf_page p es" "i < length es" "length v < 2 ^ 32"
  shows "fst (PageUpdatePivotAt p i v) \<longleftrightarrow> length v = length (snd (es ! i))"
    "leaf_page (snd (PageUpdatePivotAt p i v))
       (if length v = length (snd (es ! i)) then es[i := (fst (es ! i), v)] else es)"
    "same_node p (snd (PageUpdatePivotAt p i v))"
    "page_space (snd (PageUpdatePivotAt p i v)) = page_space p"
proof -
  let ?q = "read32 (data p) (PgHdSize + 4 * i)" and ?k = "fst (es ! i)"
  note sz = leaf_page_sizes [OF assms(1,2) refl]
  have eq: "PageUpdatePivotAt p i v = (if length v = length (snd (es ! i))
      then (True, p\<lparr>data := write_bytes (data p) (?q + (8 + length ?k)) v, is_dirty := True\<rparr>)
      else (False, p\<lparr>is_dirty := True\<rparr>))"
    using sz assms(3)
    by (simp add: PageUpdatePivotAt_def page_decode_int32_at_def Let_def mult.commute add.assoc)
  then show "fst (PageUpdatePivotAt p i v) \<longleftrightarrow> length v = length (snd (es ! i))"
    "same_node p (snd (PageUpdatePivotAt p i v))"
    "page_space (snd (PageUpdatePivotAt p i v)) = page_space p"
    by (simp_all add: same_node_def)
  have recs: "page_recs p (map leaf_rec es)" using assms(1) by (simp add: leaf_page_def)
  have "leaf_page (p\<lparr>data := write_bytes (data p) (?q + (8 + length ?k)) v, is_dirty := True\<rparr>)
      (es[i := (?k, v)])" if len: "length v = length (snd (es ! i))"
    using page_recs_overwrite [OF recs, of i "8 + length ?k" v ?q True] assms(1,2) len
      leaf_rec_new_value [of v "snd (es ! i)" ?k]
    by (simp add: leaf_page_def map_update)
  then show "leaf_page (snd (PageUpdatePivotAt p i v))
       (if length v = length (snd (es ! i)) then es[i := (?k, v)] else es)"
    using eq assms(1) by simp
qed

end
