(* ===== verification/TreePageOps.thy ===== *)
theory TreePageOps
  imports TreePageCorrect
begin

text \<open>
  The page operations against their specification on entry lists: insertion and replacement
  in a leaf, lookup, removal, and the copying of entry ranges that a node split is made of.
  The locale \<open>entry_page\<close> states what the copying loops rely on; it is interpreted for leaf
  entries and for index entries.
\<close>

section \<open>Insertion as an update of the entry list\<close>

definition leaf_upd :: "(slice \<times> slice) list \<Rightarrow> slice \<Rightarrow> slice \<Rightarrow> (slice \<times> slice) list" where
  "leaf_upd es k v =
     (let i = lb (map fst es) k in
      if hit (map fst es) k
      then if length v = length (snd (es ! i)) then es[i := (k, v)] else es
      else ins_at i (k, v) es)"

lemma hit_nth:
  "hit (map fst es) k \<Longrightarrow> lb (map fst es) k < length es \<and> es ! lb (map fst es) k = (k, snd (es ! lb (map fst es) k))"
  by (auto simp: prod_eq_iff)

lemma map_fst_update_same: "i < length es \<Longrightarrow> fst (es ! i) = k \<Longrightarrow> map fst (es[i := (k, v)]) = map fst es"
  by (metis fst_conv list_update_id map_update nth_map)

lemma leaf_upd_sorted:
  assumes "sorted_wrt (<) (map fst es)"
  shows "sorted_wrt (<) (map fst (leaf_upd es k v))"
proof (cases "hit (map fst es) k")
  case True
  then show ?thesis using assms
    by (auto simp: leaf_upd_def Let_def map_fst_update_same)
next
  case False
  then have "k \<notin> set (map fst es)" using hit_iff [OF assms, of k] by blast
  from sorted_ins_lb [OF assms this] False show ?thesis
    by (auto simp: leaf_upd_def Let_def map_ins_at)
qed

lemma PageInsertLeafEntry_upd:
  assumes "leaf_page p es" "sorted_wrt (<) (map fst es)" "k \<noteq> []"
    "length k + length v + 12 < page_space p"
  shows "\<exists>p'. PageInsertLeafEntry p k v = Inr p' \<and> leaf_page p' (leaf_upd es k v) \<and> same_node p p'"
proof (cases "hit (map fst es) k")
  case False
  then have "k \<notin> fst ` set es" using hit_iff [OF assms(2), of k] by auto
  moreover have "leaf_page (put_rec p (lb (map fst es) k) (leaf_rec (k, v)))
      (ins_at (lb (map fst es) k) (k, v) es)"
    using assms lb_le [of "map fst es" k] by (intro leaf_page_put) auto
  ultimately show ?thesis
    using PageInsertLeafEntry_fresh [OF assms(1-3) _ assms(4)] False
    by (auto simp: leaf_upd_def Let_def)
next
  case True
  let ?i = "lb (map fst es) k"
  have i: "?i < length es" "es ! ?i = (k, snd (es ! ?i))" using hit_nth [OF True] by auto
  have "k \<in> set (map fst es)" using True hit_iff [OF assms(2), of k] by blast
  then have "Slice_compare k (PageReadPivotAtOffset p ?i) = 0"
    using pivot_at_lb [OF leaf_page_keys [OF assms(1)] assms(2,3)] by simp
  moreover have "\<not> PageGetFreeSpace p \<le> length k + length v + 12"
    using page_recs_free(3) [of p "map leaf_rec es"] assms(1,4) by (simp add: leaf_page_def)
  ultimately have "PageInsertLeafEntry p k v = Inr (snd (PageUpdatePivotAt p ?i v))"
    using page_bin_search_insert_keys [OF leaf_page_keys [OF assms(1)] assms(2), of k]
    by (simp add: PageInsertLeafEntry_def)
  moreover have "length v < 2 ^ 32"
    using assms(4) page_recs_free(2) [of p "map leaf_rec es"] assms(1) by (simp add: leaf_page_def)
  moreover have "leaf_upd es k v =
      (if length v = length (snd (es ! ?i)) then es[?i := (fst (es ! ?i), v)] else es)"
    using True by (auto simp: leaf_upd_def Let_def)
  ultimately show ?thesis
    using PageUpdatePivotAt_leaf(2,3) [OF assms(1) i(1), of v] by simp
qed

lemma sorted_distinct: "sorted_wrt (<) (ks :: slice list) \<Longrightarrow> distinct ks"
  by (induction ks) auto

lemma map_of_update_nth:
  "distinct (map fst es) \<Longrightarrow> i < length es \<Longrightarrow> fst (es ! i) = k \<Longrightarrow>
    map_of (es[i := (k, v)]) = (map_of es)(k \<mapsto> v)"
proof (induction es arbitrary: i)
  case (Cons e es)
  show ?case
  proof (cases i)
    case 0
    then show ?thesis using Cons.prems by (cases e) auto
  next
    case (Suc j)
    then have "fst e \<noteq> k" using Cons.prems nth_mem [of j es] by force
    then show ?thesis using Cons Suc by (cases e) (auto simp: fun_upd_twist)
  qed
qed simp

lemma map_of_ins_at:
  assumes "k \<notin> fst ` set es"
  shows "map_of (ins_at i (k, v) es) = (map_of es)(k \<mapsto> v)"
proof -
  have "map_of es = map_of (drop i es) ++ map_of (take i es)"
    using map_of_append [of "take i es" "drop i es"] by simp
  moreover have "k \<notin> fst ` set (take i es)" using assms set_take_subset [of i es] by blast
  then have "k \<notin> dom (map_of (take i es))" by (simp add: dom_map_of_conv_image_fst)
  ultimately show ?thesis
    unfolding ins_at_def by (simp add: map_add_upd_left)
qed

lemma map_of_leaf_upd:
  assumes "sorted_wrt (<) (map fst es)"
  shows "map_of (leaf_upd es k v) =
    (case map_of es k of
       Some v0 \<Rightarrow> if length v = length v0 then (map_of es)(k \<mapsto> v) else map_of es
     | None \<Rightarrow> (map_of es)(k \<mapsto> v))"
proof (cases "hit (map fst es) k")
  case True
  let ?i = "lb (map fst es) k"
  have i: "?i < length es" "es ! ?i = (k, snd (es ! ?i))" using hit_nth [OF True] by auto
  then have "map_of es k = Some (snd (es ! ?i))"
    using sorted_distinct [OF assms] by (metis map_of_eq_Some_iff nth_mem)
  then show ?thesis
    using True i map_of_update_nth [OF sorted_distinct [OF assms] i(1), of k v]
    by (auto simp: leaf_upd_def Let_def)
next
  case False
  then have "k \<notin> fst ` set es" using hit_iff [OF assms, of k] by auto
  then show ?thesis using False map_of_ins_at [of k es]
    by (auto simp: leaf_upd_def Let_def map_of_eq_None_iff [symmetric] split: option.splits)
qed

section \<open>Lookup\<close>

lemma floor_pivot:
  assumes "page_keys p ks" "sorted_wrt (<) ks" "key \<noteq> []"
  shows "PageReadPivotAtOffset p (floor_off ks key) = key \<longleftrightarrow> key \<in> set ks"
proof (cases "hit ks key")
  case True
  then show ?thesis
    using pivot_at_lb [OF assms] by (simp add: floor_off_def)
next
  case False
  then have "key \<notin> set ks" using hit_iff [OF assms(2)] by blast
  moreover have "PageReadPivotAtOffset p i \<noteq> key" if "key \<notin> set ks" for i
    using assms(1,3) that nth_mem [of i ks]
    by (cases "i < length ks") (auto simp: page_keys_def PageReadPivotAtOffset_def)
  ultimately show ?thesis by blast
qed

lemma PageFindOffset_leaf:
  assumes "leaf_page p es" "sorted_wrt (<) (map fst es)" "k \<noteq> []"
  shows "PageFindOffset p k = Inr (if k \<in> fst ` set es then int (lb (map fst es) k) else -1)"
proof -
  let ?ks = "map fst es"
  have leaf: "is_leaf p" using assms(1) by (simp add: leaf_page_def)
  have search: "page_bin_search p k = Inr (floor_off ?ks k)"
    by (rule page_bin_search_keys [OF leaf_page_keys [OF assms(1)] assms(2)])
  have pivot: "k = PageReadPivotAtOffset p (floor_off ?ks k) \<longleftrightarrow> k \<in> fst ` set es"
    using floor_pivot [OF leaf_page_keys [OF assms(1)] assms(2,3)] by auto
  have "k \<in> fst ` set es \<Longrightarrow> floor_off ?ks k = lb ?ks k"
    using hit_iff [OF assms(2), of k] by (simp add: floor_off_def)
  then show ?thesis
    unfolding PageFindOffset_def search using leaf pivot by simp
qed

lemma PageReadValue_leaf:
  assumes "leaf_page p es" "i < length es"
  shows "PageReadValueAtOffset p i = snd (es ! i)"
  using assms leaf_page_decode [OF assms] leaf_page_item_num [OF assms(1)]
  by (simp add: PageReadValueAtOffset_def leaf_page_def)

text \<open>The lookup a reader performs: the value at the offset the search returns.\<close>

definition leaf_get :: "page \<Rightarrow> slice \<Rightarrow> slice option result" where
  "leaf_get p k = bind_result (PageFindOffset p k) (\<lambda>off.
     Inr (if off = -1 then None else Some (PageReadValueAtOffset p (nat off))))"

lemma leaf_get_map_of:
  assumes "leaf_page p es" "sorted_wrt (<) (map fst es)" "k \<noteq> []"
  shows "leaf_get p k = Inr (map_of es k)"
proof (cases "k \<in> fst ` set es")
  case False
  then show ?thesis using PageFindOffset_leaf [OF assms]
    by (simp add: leaf_get_def map_of_eq_None_iff [symmetric])
next
  case True
  then have h: "hit (map fst es) k" using hit_iff [OF assms(2), of k] by simp
  then have i: "lb (map fst es) k < length es" "(k, snd (es ! lb (map fst es) k)) \<in> set es"
    using hit_nth [OF h] by (metis nth_mem)+
  then have "map_of es k = Some (snd (es ! lb (map fst es) k))"
    using sorted_distinct [OF assms(2)] by simp
  then show ?thesis
    using True PageFindOffset_leaf [OF assms] PageReadValue_leaf [OF assms(1) i(1)]
    by (simp add: leaf_get_def)
qed

section \<open>Removal\<close>

text \<open>
  The removal is right when the gap the code computes is the size of the removed record.
\<close>

lemma PageRemoveOffset_remove_rec:
  assumes "page_recs p recs" "off < length recs" "\<And>r. r \<in> set recs \<Longrightarrow> r \<noteq> []"
    and gap: "gap = length (recs ! off)"
    and code: "PageRemoveOffset p off = p\<lparr>data := remove_rec (data p) (free_end p) (length recs) off
        (read32 (data p) (PgHdSize + 4 * off)) gap,
      free_start := free_start p - 4, free_end := free_end p + gap, item_num := item_num p - 1,
      is_dirty := True\<rparr>"
  shows "page_recs (PageRemoveOffset p off) (del_at off recs)"
proof -
  obtain ps where D: "item_num p = length recs" "free_start p = PgHdSize + 4 * length recs"
    "slotted PAGE_SIZE (data p) (free_end p) recs ps"
    using assms(1) by (rule page_recsE)
  have q: "read32 (data p) (PgHdSize + 4 * off) = ps ! off" by (rule slottedD(5) [OF D(3) assms(2)])
  have "PgHdSize + 4 * length recs - 4 = PgHdSize + 4 * (length recs - 1)" using assms(2) by arith
  then show ?thesis
    using slotted_remove [OF D(3) assms(2,3) refl gap] D(1,2) assms(2)
    unfolding code q page_recs_def by auto
qed

lemma PageRemoveOffset_code:
  assumes "page_recs p recs" "off < length recs"
    and gap: "gap = (if is_leaf p then
        (let e = page_decode_leafEntry (p\<lparr>data := drop_slot (data p) (length recs) off,
             free_start := free_start p - 4\<rparr>) off in length (fst e) + length (snd e) + 2 * 4)
      else length (fst (page_decode_indexEntry (p\<lparr>data := drop_slot (data p) (length recs) off,
             free_start := free_start p - 4\<rparr>) off)) + 2 * 4)"
    and small: "free_end p + gap < 2 ^ 32"
  shows "PageRemoveOffset p off = p\<lparr>data := remove_rec (data p) (free_end p) (length recs) off
        (read32 (data p) (PgHdSize + 4 * off)) gap,
      free_start := free_start p - 4, free_end := free_end p + gap, item_num := item_num p - 1,
      is_dirty := True\<rparr>"
proof -
  obtain ps where D: "item_num p = length recs" "free_start p = PgHdSize + 4 * length recs"
    "slotted PAGE_SIZE (data p) (free_end p) recs ps"
    using assms(1) by (rule page_recsE)
  note S = slottedD [OF D(3)]
  have q: "read32 (data p) (PgHdSize + off * 4) = ps ! off"
    using S(5) [OF assms(2)] by (simp add: mult.commute)
  have n: "length recs < 2 ^ 32" using S(2,3) by simp
  have s1: "sub32 (free_start p) 4 = free_start p - 4" "sub32 (item_num p) 1 = item_num p - 1"
    "sub32 (ps ! off) (free_end p) = ps ! off - free_end p"
    using D(1,2) n assms(2) S(2,3) S(6,7) [OF assms(2)] by (subst sub32_diff; simp)+
  have m1: "(if off + 1 < item_num p
      then memmove (data p) (PgHdSize + (off + 1) * 4 - 4) (PgHdSize + (off + 1) * 4)
             ((item_num p - off - 1) * 4)
      else data p) = drop_slot (data p) (length recs) off"
    using D(1) by (simp add: drop_slot_def algebra_simps)
  show ?thesis
    unfolding PageRemoveOffset_def page_decode_int32_at_def Let_def m1 q s1 gap [unfolded Let_def, symmetric]
    using D(1) small q by (simp add: remove_rec_def mult.commute)
qed

text \<open>After the item positions have moved, slot \<open>off\<close> leads to the next record, if there is one.\<close>

lemma drop_slot_record:
  assumes s: "slotted PAGE_SIZE m fe recs ps" and off: "off < length recs"
    and j: "j = (if Suc off < length recs then Suc off else off)"
  shows "read32 (drop_slot m (length recs) off) (PgHdSize + 4 * off) = ps ! j"
    "bytes_at (drop_slot m (length recs) off) (ps ! j) (length (recs ! j)) = recs ! j"
proof -
  have jn: "j < length recs" using off j by auto
  note D = slottedD [OF s]
  show "read32 (drop_slot m (length recs) off) (PgHdSize + 4 * off) = ps ! j"
  proof (cases "Suc off < length recs")
    case True
    then show ?thesis using drop_slot_read [OF off, of off m] j D(5) [OF jn] by simp
  next
    case False
    then show ?thesis using j D(5) [OF jn] by (simp add: drop_slot_def)
  qed
  show "bytes_at (drop_slot m (length recs) off) (ps ! j) (length (recs ! j)) = recs ! j"
    using drop_slot_above [OF off] D(2) D(6,8) [OF jn] by simp
qed

lemma PageRemoveOffset_leaf:
  assumes "leaf_page p es" "off < length es"
    and same: "Suc off < length es \<Longrightarrow> length (leaf_rec (es ! Suc off)) = length (leaf_rec (es ! off))"
  shows "leaf_page (PageRemoveOffset p off) (del_at off es)" "same_node p (PageRemoveOffset p off)"
proof -
  let ?recs = "map leaf_rec es" and ?j = "if Suc off < length es then Suc off else off"
  have recs: "page_recs p ?recs" and leaf: "is_leaf p" using assms(1) by (simp_all add: leaf_page_def)
  obtain ps where s: "slotted PAGE_SIZE (data p) (free_end p) ?recs ps"
    using recs by (rule page_recsE)
  have off: "off < length ?recs" and j: "?j < length ?recs" using assms(2) by auto
  let ?p1 = "p\<lparr>data := drop_slot (data p) (length ?recs) off, free_start := free_start p - 4\<rparr>"
  have "page_decode_leafEntry ?p1 off = es ! ?j"
    using drop_slot_record [OF s off, of ?j] slotted_len [OF s j] j
    by (intro decode_leafEntry_at [of _ _ "ps ! ?j"]) simp_all
  then have gap: "(let e = page_decode_leafEntry ?p1 off in length (fst e) + length (snd e) + 8)
      = length (?recs ! off)"
    using same assms(2) by (auto simp: Let_def)
  have small: "free_end p + length (?recs ! off) < 2 ^ 32"
    using slottedD(3) [OF s] slottedD(7) [OF s off] by simp
  have code: "PageRemoveOffset p off = p\<lparr>data := remove_rec (data p) (free_end p) (length ?recs) off
        (read32 (data p) (PgHdSize + 4 * off)) (length (?recs ! off)),
      free_start := free_start p - 4, free_end := free_end p + length (?recs ! off),
      item_num := item_num p - 1, is_dirty := True\<rparr>"
    by (rule PageRemoveOffset_code [OF recs off _ small]) (use leaf gap in simp)
  have "page_recs (PageRemoveOffset p off) (del_at off ?recs)"
    by (rule PageRemoveOffset_remove_rec [OF recs off _ refl code]) auto
  then show "leaf_page (PageRemoveOffset p off) (del_at off es)"
    using leaf code by (simp add: leaf_page_def map_del_at)
  show "same_node p (PageRemoveOffset p off)" by (simp add: code same_node_def)
qed

lemma PageRemoveOffset_index:
  assumes "index_page p es" "off < length es"
    and same: "Suc off < length es \<Longrightarrow> length (index_rec (es ! Suc off)) = length (index_rec (es ! off))"
  shows "index_page (PageRemoveOffset p off) (del_at off es)" "same_node p (PageRemoveOffset p off)"
proof -
  let ?recs = "map index_rec es" and ?j = "if Suc off < length es then Suc off else off"
  have recs: "page_recs p ?recs" and leaf: "\<not> is_leaf p" using assms(1) by (simp_all add: index_page_def)
  obtain ps where s: "slotted PAGE_SIZE (data p) (free_end p) ?recs ps"
    using recs by (rule page_recsE)
  have off: "off < length ?recs" and j: "?j < length ?recs" using assms(2) by auto
  have c: "snd (es ! ?j) < 2 ^ 32" using assms(1) nth_mem [of ?j es] j by (simp add: index_page_def)
  let ?p1 = "p\<lparr>data := drop_slot (data p) (length ?recs) off, free_start := free_start p - 4\<rparr>"
  have "page_decode_indexEntry ?p1 off = es ! ?j"
    using drop_slot_record [OF s off, of ?j] slotted_len [OF s j] j c
    by (intro decode_indexEntry_at [of _ _ "ps ! ?j"]) simp_all
  then have gap: "length (fst (page_decode_indexEntry ?p1 off)) + 8 = length (?recs ! off)"
    using same assms(2) by auto
  have small: "free_end p + length (?recs ! off) < 2 ^ 32"
    using slottedD(3) [OF s] slottedD(7) [OF s off] by simp
  have code: "PageRemoveOffset p off = p\<lparr>data := remove_rec (data p) (free_end p) (length ?recs) off
        (read32 (data p) (PgHdSize + 4 * off)) (length (?recs ! off)),
      free_start := free_start p - 4, free_end := free_end p + length (?recs ! off),
      item_num := item_num p - 1, is_dirty := True\<rparr>"
    by (rule PageRemoveOffset_code [OF recs off _ small]) (use leaf gap in simp)
  have "page_recs (PageRemoveOffset p off) (del_at off ?recs)"
    by (rule PageRemoveOffset_remove_rec [OF recs off _ refl code]) auto
  then show "index_page (PageRemoveOffset p off) (del_at off es)"
    using leaf code assms(1) set_del_at [of off es] by (auto simp: index_page_def map_del_at)
  show "same_node p (PageRemoveOffset p off)" by (simp add: code same_node_def)
qed

section \<open>Copying entries between pages\<close>

fun insert_all :: "(page \<Rightarrow> slice \<Rightarrow> 'v \<Rightarrow> page result) \<Rightarrow> page \<Rightarrow> (slice \<times> 'v) list \<Rightarrow> page result" where
  "insert_all ins p [] = Inr p"
| "insert_all ins p (e # es) = bind_result (ins p (fst e) (snd e)) (\<lambda>p'. insert_all ins p' es)"

locale entry_page =
  fixes rep :: "page \<Rightarrow> (slice \<times> 'v) list \<Rightarrow> bool"
    and ins :: "page \<Rightarrow> slice \<Rightarrow> 'v \<Rightarrow> page result"
    and enc :: "slice \<times> 'v \<Rightarrow> slice"
    and good :: "slice \<times> 'v \<Rightarrow> bool"
  assumes ins_put: "rep p es \<Longrightarrow> sorted_wrt (<) (map fst es) \<Longrightarrow> good (k, v) \<Longrightarrow> k \<notin> fst ` set es \<Longrightarrow>
      length (enc (k, v)) + 4 < page_space p \<Longrightarrow>
      ins p k v = Inr (put_rec p (lb (map fst es) k) (enc (k, v)))"
    and rep_put: "rep p es \<Longrightarrow> off \<le> length es \<Longrightarrow> good e \<Longrightarrow> length (enc e) + 4 \<le> page_space p \<Longrightarrow>
      rep (put_rec p off (enc e)) (ins_at off e es)"
    and ins_full: "rep p es \<Longrightarrow> page_space p \<le> length (enc (k, v)) + 4 \<Longrightarrow> ins p k v = Inl Abort"
begin

lemma ins_last:
  assumes "rep p es" "sorted_wrt (<) (map fst (es @ [e]))" "good e" "length (enc e) + 4 < page_space p"
  shows "ins p (fst e) (snd e) = Inr (put_rec p (length es) (enc e))"
    "rep (put_rec p (length es) (enc e)) (es @ [e])"
proof -
  have s: "sorted_wrt (<) (map fst es)" "\<forall>x \<in> set (map fst es). x < fst e"
    using assms(2) by (auto simp: sorted_wrt_append)
  have l: "lb (map fst es) (fst e) = length es"
  proof (cases "es = []")
    case False
    then show ?thesis
      using lb_last [of "map fst es" "fst e"] s by (auto simp: last_map)
  qed simp
  have "fst e \<notin> fst ` set es" using s(2) by auto
  then show "ins p (fst e) (snd e) = Inr (put_rec p (length es) (enc e))"
    using ins_put [OF assms(1) s(1), of "fst e" "snd e"] assms(3,4) l by simp
  show "rep (put_rec p (length es) (enc e)) (es @ [e])"
    using rep_put [OF assms(1) order_refl assms(3)] assms(4) by (simp add: ins_at_def)
qed

lemma insert_all_append:
  assumes "rep p es" "sorted_wrt (<) (map fst (es @ xs))" "\<forall>x \<in> set xs. good x"
    "sum_list (map (\<lambda>e. length (enc e) + 4) xs) < page_space p"
  shows "\<exists>p'. insert_all ins p xs = Inr p' \<and> rep p' (es @ xs) \<and> same_node p p' \<and>
    page_space p' = page_space p - sum_list (map (\<lambda>e. length (enc e) + 4) xs)"
  using assms
proof (induction xs arbitrary: p es)
  case (Cons x xs)
  let ?p = "put_rec p (length es) (enc x)"
  have srt: "sorted_wrt (<) (map fst (es @ [x]))" "sorted_wrt (<) (map fst ((es @ [x]) @ xs))"
    using Cons.prems(2) by (auto simp: sorted_wrt_append)
  have "length (enc x) + 4 < page_space p" "good x" using Cons.prems(3,4) by auto
  from ins_last [OF Cons.prems(1) srt(1) this(2,1)]
  have step: "ins p (fst x) (snd x) = Inr ?p" "rep ?p (es @ [x])" .
  have "sum_list (map (\<lambda>e. length (enc e) + 4) xs) < page_space ?p" using Cons.prems(4) by simp
  from Cons.IH [OF step(2) srt(2) _ this] Cons.prems(3) step(1) show ?case
    using same_node_trans [of p ?p] by (auto simp: diff_diff_left)
qed simp

end

interpretation leaf: entry_page leaf_page PageInsertLeafEntry leaf_rec "\<lambda>e. fst e \<noteq> []"
proof unfold_locales
  show "leaf_page p es \<Longrightarrow> page_space p \<le> length (leaf_rec (k, v)) + 4 \<Longrightarrow>
      PageInsertLeafEntry p k v = Inl Abort" for p es k v
    using page_recs_free(3) [of p "map leaf_rec es" "length k + length v + 12"]
    by (simp add: PageInsertLeafEntry_def leaf_page_def)
qed (auto intro: PageInsertLeafEntry_fresh leaf_page_put)

interpretation index: entry_page index_page PageInsertIndexEntry index_rec "\<lambda>e. snd e < 2 ^ 32"
proof unfold_locales
  show "index_page p es \<Longrightarrow> page_space p \<le> length (index_rec (k, c)) + 4 \<Longrightarrow>
      PageInsertIndexEntry p k c = Inl Abort" for p es k c
    using page_recs_free(3) [of p "map index_rec es" "length k + 12"]
    by (simp add: PageInsertIndexEntry_def index_page_def)
qed (auto intro: PageInsertIndexEntry_put index_page_put)

lemma move_leaf_entries_insert_all:
  "move_leaf_entries src dest offs = insert_all PageInsertLeafEntry dest (map (page_decode_leafEntry src) offs)"
  by (induction offs arbitrary: dest) (auto simp: bind_result_def split: sum.splits)

lemma move_index_entries_insert_all:
  "move_index_entries src dest offs = insert_all PageInsertIndexEntry dest (map (page_decode_indexEntry src) offs)"
  by (induction offs arbitrary: dest) (auto simp: bind_result_def split: sum.splits)

lemma map_upt_range:
  "(\<And>i. i < length es \<Longrightarrow> f i = es ! i) \<Longrightarrow> b \<le> length es \<Longrightarrow> map f [a ..< b] = take (b - a) (drop a es)"
  by (rule nth_equalityI) auto

lemma PageMoveLeafEntries_copy:
  assumes "leaf_page src es" "leaf_page dest ds" "finish \<le> length es"
    and xs: "xs = take (finish - start) (drop start es)"
    and "sorted_wrt (<) (map fst (ds @ xs))" "[] \<notin> fst ` set xs"
    "sum_list (map (\<lambda>e. length (fst e) + length (snd e) + 12) xs) < page_space dest"
  shows "\<exists>d. PageMoveLeafEntries src dest start finish = Inr d \<and> leaf_page d (ds @ xs) \<and> same_node dest d"
proof -
  have "map (page_decode_leafEntry src) [start ..< finish] = xs"
    using leaf_page_decode [OF assms(1)] assms(3) xs by (simp add: map_upt_range)
  moreover have "sum_list (map (\<lambda>e. length (leaf_rec e) + 4) xs) < page_space dest"
    using assms(7) by (simp add: add.assoc)
  moreover have "\<forall>x \<in> set xs. fst x \<noteq> []" using assms(6) by force
  ultimately obtain d where "insert_all PageInsertLeafEntry dest xs = Inr d" "leaf_page d (ds @ xs)"
    "same_node dest d" "move_leaf_entries src dest [start ..< finish] = Inr d"
    using leaf.insert_all_append [OF assms(2,5)] by (auto simp: move_leaf_entries_insert_all)
  then show ?thesis
    by (auto simp: PageMoveLeafEntries_def same_node_def)
qed

lemma PageMoveIndexEntries_copy:
  assumes "index_page src es" "index_page dest ds" "finish \<le> length es"
    and xs: "xs = take (finish - start) (drop start es)"
    and "sorted_wrt (<) (map fst (ds @ xs))"
    "sum_list (map (\<lambda>e. length (fst e) + 12) xs) < page_space dest"
  shows "\<exists>d. PageMoveIndexEntries src dest start finish = Inr d \<and> index_page d (ds @ xs) \<and> same_node dest d"
proof -
  have "map (page_decode_indexEntry src) [start ..< finish] = xs"
    using index_page_decode [OF assms(1)] assms(3) xs by (simp add: map_upt_range)
  moreover have "sum_list (map (\<lambda>e. length (index_rec e) + 4) xs) < page_space dest"
    using assms(6) by (simp add: add.assoc)
  moreover have "set xs \<subseteq> set es" using xs by (auto dest: in_set_takeD in_set_dropD)
  then have "\<forall>x \<in> set xs. snd x < 2 ^ 32" using assms(1) by (auto simp: index_page_def)
  ultimately obtain d where "insert_all PageInsertIndexEntry dest xs = Inr d" "index_page d (ds @ xs)"
    "same_node dest d" "move_index_entries src dest [start ..< finish] = Inr d"
    using index.insert_all_append [OF assms(2,5)] by (auto simp: move_index_entries_insert_all)
  then show ?thesis
    by (auto simp: PageMoveIndexEntries_def same_node_def)
qed

section \<open>Fresh pages\<close>

lemma index_page_init: "index_page (PageInit p i) []" "page_space (PageInit p i) = 8152"
  "left_sib (PageInit p i) = 0" "right_sib (PageInit p i) = 0" "page_id (PageInit p i) = i"
  by (auto simp: index_page_def page_recs_def PageInit_def intro: slotted_empty)

lemma leaf_page_init: "leaf_page ((PageInit p i)\<lparr>is_leaf := True\<rparr>) []"
  by (auto simp: leaf_page_def page_recs_def PageInit_def intro: slotted_empty)

lemma page_space_is_leaf [simp]: "page_space (p\<lparr>is_leaf := b\<rparr>) = page_space p"
  by simp

lemma PageClearContent_empty:
  "is_leaf p \<Longrightarrow> leaf_page (PageClearContent p) []" "\<not> is_leaf p \<Longrightarrow> index_page (PageClearContent p) []"
  "same_node p (PageClearContent p)" "page_space (PageClearContent p) = 8152"
  by (auto simp: leaf_page_def index_page_def page_recs_def PageClearContent_def same_node_def
      intro: slotted_empty)

section \<open>Keys, children and separators\<close>

lemma PageUpdateKeyAt_leaf:
  assumes "leaf_page p es" "i < length es" "length k < 2 ^ 32"
  shows "\<exists>p'. PageUpdateKeyAt p i k = Inr (length k = length (fst (es ! i)), p') \<and> same_node p p' \<and>
    page_space p' = page_space p \<and>
    leaf_page p' (if length k = length (fst (es ! i)) then es[i := (k, snd (es ! i))] else es)"
proof -
  let ?q = "read32 (data p) (PgHdSize + 4 * i)"
  let ?p = "p\<lparr>data := write_bytes (data p) (?q + 4) k, is_dirty := True\<rparr>"
  have recs: "page_recs p (map leaf_rec es)" using assms(1) by (simp add: leaf_page_def)
  have code: "PageUpdateKeyAt p i k =
      Inr (if length k = length (fst (es ! i)) then (True, ?p) else (False, p))"
    using leaf_page_sizes(1) [OF assms(1,2) refl] assms(2,3) leaf_page_item_num [OF assms(1)]
    by (simp add: PageUpdateKeyAt_def page_decode_int32_at_def Let_def mult.commute)
  have "leaf_page ?p (es[i := (k, snd (es ! i))])" if len: "length k = length (fst (es ! i))"
    using page_recs_overwrite [OF recs, of i 4 k ?q True] assms(1,2) len
      leaf_rec_new_key [of k "fst (es ! i)" "snd (es ! i)"]
    by (simp add: leaf_page_def map_update)
  then show ?thesis using code assms(1) by (auto simp: same_node_def)
qed

lemma PageFindOffset_index:
  assumes "index_page p es" "sorted_wrt (<) (map fst es)"
  shows "PageFindOffset p k = Inr (int (floor_off (map fst es) k))"
  using page_bin_search_keys [OF index_page_keys [OF assms(1)] assms(2), of k] assms(1)
  by (simp add: PageFindOffset_def index_page_def)

lemma floor_off_less: "es \<noteq> [] \<Longrightarrow> floor_off (map fst es) k < length es"
  using lb_le [of "map fst es" k] by (cases es) (auto simp: floor_off_def)

lemma PageReadChild_index:
  assumes "index_page p es" "i < length es"
  shows "PageReadChildAtOffset p i = snd (es ! i)"
  using assms index_page_decode [OF assms] index_page_item_num [OF assms(1)]
  by (simp add: PageReadChildAtOffset_def index_page_def)

lemma PageUpdateChild_index:
  assumes "index_page p es" "sorted_wrt (<) (map fst es)" "es \<noteq> []" "c < 2 ^ 32"
    and i: "i = floor_off (map fst es) k"
  shows "\<exists>p'. PageUpdateChild p k c = Inr p' \<and> index_page p' (es[i := (fst (es ! i), c)]) \<and> same_node p p'"
proof -
  let ?q = "read32 (data p) (PgHdSize + 4 * i)" and ?k = "fst (es ! i)"
  let ?p = "p\<lparr>data := write_bytes (data p) (?q + (4 + length ?k)) (EncodeFixed32 (of_nat c)), is_dirty := True\<rparr>"
  have n: "i < length es" using floor_off_less [OF assms(3)] i by simp
  have recs: "page_recs p (map index_rec es)" using assms(1) by (simp add: index_page_def)
  have leaf: "\<not> is_leaf p" using assms(1) by (simp add: index_page_def)
  have code: "PageUpdateChild p k c = Inr ?p"
    using index_page_sizes [OF assms(1) n refl] n leaf index_page_item_num [OF assms(1)]
      PageFindOffset_index [OF assms(1,2), of k]
    by (simp add: PageUpdateChild_def page_decode_int32_at_def write32_def Let_def mult.commute i
        add.commute add.left_commute)
  moreover have "page_recs ?p (map index_rec (es[i := (?k, c)]))"
    using page_recs_overwrite [OF recs, of i "4 + length ?k" "EncodeFixed32 (of_nat c)" ?q True] n
      index_rec_new_child [of ?k "snd (es ! i)" c]
    by (simp add: map_update)
  moreover have "snd e < 2 ^ 32" if "e \<in> set (es[i := (?k, c)])" for e
    using that assms(1,4) set_update_subset_insert [of es i "(?k, c)"] by (auto simp: index_page_def)
  ultimately show ?thesis using leaf by (auto simp: index_page_def same_node_def)
qed

lemma offset_by_child_from:
  assumes "index_page p es" "i \<le> length es"
  shows "offset_by_child p c i =
    (if c \<in> snd ` set (drop i es) then int (i + length (takeWhile (\<lambda>e. snd e \<noteq> c) (drop i es))) else -1)"
  using assms(2)
proof (induction "length es - i" arbitrary: i)
  case 0
  then show ?case using index_page_item_num [OF assms(1)] by (simp add: offset_by_child.simps [of p c i])
next
  case (Suc d)
  then have i: "i < length es" by simp
  then have "drop i es = es ! i # drop (Suc i) es" by (simp add: Cons_nth_drop_Suc)
  then show ?case
    using Suc.hyps(1) [of "Suc i"] Suc.hyps(2) i index_page_item_num [OF assms(1)] index_page_decode [OF assms(1) i]
    by (auto simp: offset_by_child.simps [of p c i])
qed

lemma PageGetOffsetByChild_index:
  assumes "index_page p es"
  shows "PageGetOffsetByChild p c = Inr
    (if c \<in> snd ` set es then int (length (takeWhile (\<lambda>e. snd e \<noteq> c) es)) else -1)"
  using offset_by_child_from [OF assms, of 0 c] assms by (simp add: PageGetOffsetByChild_def index_page_def)

lemma PageHighkey_keys:
  assumes "page_keys p ks" "ks \<noteq> []" "length ks < 2 ^ 32"
  shows "PageHighkey p = last ks" "PageLowkey p = Inr (hd ks)"
proof -
  have n: "item_num p = length ks" "1 \<le> length ks" using assms by (simp_all add: page_keys_def Suc_le_eq)
  show "PageHighkey p = last ks"
    using n assms sub32_diff [of 1 "item_num p"] by (simp add: PageHighkey_def page_keys_def last_conv_nth)
  show "PageLowkey p = Inr (hd ks)"
    using n assms by (simp add: PageLowkey_def page_keys_def hd_conv_nth)
qed

section \<open>Insertion with sequence numbers\<close>

text \<open>
  Entries keyed by internal keys: there is one entry per user key. A new version of a user key
  replaces the old one in place; the value bytes are replaced only when the sizes agree.
\<close>

abbreviation user_keys :: "(slice \<times> slice) list \<Rightarrow> slice list" where
  "user_keys es \<equiv> map (\<lambda>e. pure_key (fst e)) es"

definition seq_upd :: "(slice \<times> slice) list \<Rightarrow> slice \<Rightarrow> slice \<Rightarrow> (slice \<times> slice) list" where
  "seq_upd es k v =
     (let i = lb (user_keys es) (pure_key k) in
      if hit (user_keys es) (pure_key k)
      then es[i := (k, if length v = length (snd (es ! i)) then v else snd (es ! i))]
      else ins_at i (k, v) es)"

lemma less_take:
  assumes "length a = length b" "take n a < take n (b :: slice)"
  shows "a < b"
  using assms
proof (induction n arbitrary: a b)
  case (Suc n)
  from Suc.prems obtain x xs y ys where ab: "a = x # xs" "b = y # ys"
    by (cases a; cases b) simp_all
  with Suc.prems have "length xs = length ys" "x < y \<or> x = y \<and> take n xs < take n ys" by simp_all
  then show ?case using Suc.IH [of xs ys] ab by auto
qed simp

lemma pure_key_less:
  "length a = length b \<Longrightarrow> pure_key a < pure_key b \<Longrightarrow> a < b"
  unfolding pure_key_def by (rule less_take) simp_all

lemma less_pure_key_iff:
  "length a = length b \<Longrightarrow> pure_key a \<noteq> pure_key b \<Longrightarrow> a < b \<longleftrightarrow> pure_key a < pure_key b"
  using pure_key_less [of a b] pure_key_less [of b a]
  by (cases "pure_key a < pure_key b") (auto simp: not_less le_less)

lemma lb_pure_key:
  assumes "\<forall>e \<in> set es. length (fst e) = length k" "pure_key k \<notin> set (user_keys es)"
  shows "lb (map fst es) k = lb (user_keys es) (pure_key k)"
proof -
  have "takeWhile (\<lambda>e. fst e < k) es = takeWhile (\<lambda>e. pure_key (fst e) < pure_key k) es"
  proof (rule takeWhile_cong)
    fix e assume "e \<in> set es"
    then have "length (fst e) = length k" "pure_key (fst e) \<noteq> pure_key k" using assms by force+
    then show "fst e < k \<longleftrightarrow> pure_key (fst e) < pure_key k" by (rule less_pure_key_iff)
  qed simp
  then show ?thesis by (simp add: lb_def takeWhile_map comp_def)
qed

lemma sorted_pure_key:
  "sorted_wrt (<) (user_keys es) \<Longrightarrow> \<forall>e \<in> set es. length (fst e) = n \<Longrightarrow> sorted_wrt (<) (map fst es)"
  unfolding sorted_wrt_map by (rule sorted_wrt_mono_rel [of es]) (simp_all add: pure_key_less)

lemma leaf_page_user_keys: "leaf_page p es \<Longrightarrow> pure_keys p (user_keys es)"
  using leaf_page_keys [of p es] by (simp add: pure_keys_def page_keys_def)

lemma seq_upd_sorted:
  assumes "sorted_wrt (<) (user_keys es)"
  shows "sorted_wrt (<) (user_keys (seq_upd es k v))"
proof (cases "hit (user_keys es) (pure_key k)")
  case True
  have "user_keys (es[i := (k, w)]) = user_keys es" if "i < length es" "pure_key (fst (es ! i)) = pure_key k" for i w
    using that by (metis (mono_tags, lifting) fst_conv list_update_id map_update nth_map)
  then show ?thesis using True assms by (auto simp: seq_upd_def Let_def)
next
  case False
  then have "pure_key k \<notin> set (user_keys es)" using hit_iff [OF assms] by blast
  from sorted_ins_lb [OF assms this] False show ?thesis
    by (auto simp: seq_upd_def Let_def map_ins_at)
qed

lemma PageInsertLeafEntryWithSeq_upd:
  assumes "leaf_page p es" "sorted_wrt (<) (user_keys es)" "\<forall>e \<in> set es. length (fst e) = length k"
    "length k + length v + 12 < page_space p"
  shows "\<exists>p'. PageInsertLeafEntryWithSeq p k v = Inr (pure_key k \<notin> set (user_keys es), p') \<and>
    leaf_page p' (seq_upd es k v) \<and> same_node p p'"
proof -
  let ?ks = "user_keys es" and ?i = "lb (user_keys es) (pure_key k)"
  have recs: "page_recs p (map leaf_rec es)" using assms(1) by (simp add: leaf_page_def)
  have room: "\<not> PageGetFreeSpace p \<le> length k + length v + 12"
    using page_recs_free(3) [OF recs] assms(4) by simp
  have n: "item_num p = length es" by (rule leaf_page_item_num [OF assms(1)])
  note search = page_bin_search_with_seq_keys [OF leaf_page_user_keys [OF assms(1)] assms(2), of k]
  have small: "length k < 2 ^ 32" "length v < 2 ^ 32" using assms(4) page_recs_free(2) [OF recs] by auto
  show ?thesis
  proof (cases "hit ?ks (pure_key k)")
    case False
    then have fresh: "pure_key k \<notin> set ?ks" using hit_iff [OF assms(2)] by blast
    have off: "lb (map fst es) k = ?i" by (rule lb_pure_key [OF assms(3) fresh])
    have ins: "page_bin_search_insert p k = Inr ?i"
      using page_bin_search_insert_keys [OF leaf_page_keys [OF assms(1)] sorted_pure_key [OF assms(2,3)]] off
      by simp
    have le: "?i \<le> length es" using lb_le [of ?ks] by simp
    have put: "(page_write_leafEntry_at ?i p k v)\<lparr>is_dirty := True, item_num := item_num p + 1\<rparr>
        = put_rec p ?i (leaf_rec (k, v))"
      using le assms(4) by (intro page_write_leafEntry_put [OF recs]) auto
    have "item_num (page_write_leafEntry_at ?i p k v) = item_num p"
      by (simp add: page_write_leafEntry_at_def Let_def)
    moreover have miss: "\<not> (?i < item_num p \<and>
        Slice_compare (pure_key k) (pure_key (PageReadPivotAtOffset p ?i)) = 0)"
      using False leaf_page_user_keys [OF assms(1)] n by (auto simp: pure_keys_def)
    ultimately have "PageInsertLeafEntryWithSeq p k v = Inr (True, put_rec p ?i (leaf_rec (k, v)))"
      using room put by (simp add: PageInsertLeafEntryWithSeq_def search ins miss Let_def del: Slice_compare_eq)
    moreover have "leaf_page (put_rec p ?i (leaf_rec (k, v))) (ins_at ?i (k, v) es)"
      using leaf_page_put [OF assms(1) le] assms(4) by simp
    ultimately show ?thesis using fresh False by (auto simp: seq_upd_def Let_def)
  next
    case True
    then have i: "?i < length es" and key: "pure_key (fst (es ! ?i)) = pure_key k" by auto
    have old: "pure_key k \<in> set ?ks" using True hit_iff [OF assms(2)] by blast
    let ?p = "snd (PageUpdatePivotAt p ?i v)"
    let ?es = "if length v = length (snd (es ! ?i)) then es[?i := (fst (es ! ?i), v)] else es"
    note upd = PageUpdatePivotAt_leaf [OF assms(1) i small(2)]
    have len: "length k = length (fst (?es ! ?i))" "?i < length ?es" using assms(3) i by auto
    obtain p2 where p2: "PageUpdateKeyAt ?p ?i k = Inr (True, p2)" "same_node ?p p2"
      "leaf_page p2 (?es[?i := (k, snd (?es ! ?i))])"
      using PageUpdateKeyAt_leaf [OF upd(2) len(2) small(1)] len(1) by auto
    have es: "?es[?i := (k, snd (?es ! ?i))] = seq_upd es k v"
      using True i by (auto simp: seq_upd_def Let_def)
    have "?i < item_num p" "pure_key (PageReadPivotAtOffset p ?i) = pure_key k"
      using i n key leaf_page_user_keys [OF assms(1)] by (auto simp: pure_keys_def)
    moreover have "item_num p2 = item_num p"
      using leaf_page_item_num [OF p2(3)] n i by simp
    ultimately have "PageInsertLeafEntryWithSeq p k v = Inr (False, p2\<lparr>is_dirty := True\<rparr>)"
      using room p2(1) by (simp add: PageInsertLeafEntryWithSeq_def search Let_def)
    moreover have "same_node p (p2\<lparr>is_dirty := True\<rparr>)"
      using same_node_trans [OF upd(3) p2(2)] by (simp add: same_node_def)
    ultimately show ?thesis using p2(3) old es by simp
  qed
qed

section \<open>Properties\<close>

text \<open>Two pages with two entries each, on which the properties are exercised.\<close>

definition two_leaf :: page where
  "two_leaf = put_rec (put_rec ((PageInit zero_page 7)\<lparr>is_leaf := True\<rparr>) 0 (leaf_rec ([1], [2]))) 1
     (leaf_rec ([3], [4]))"

definition two_index :: page where
  "two_index = put_rec (put_rec (PageInit zero_page 8) 0 (index_rec ([1], 5))) 1 (index_rec ([3], 6))"

lemma two_leaf: "leaf_page two_leaf [([1], [2]), ([3], [4])]" "page_space two_leaf = 8124"
proof -
  let ?e = "(PageInit zero_page 7)\<lparr>is_leaf := True\<rparr>"
  have sp: "page_space ?e = 8152" using index_page_init(2) [of zero_page 7] by simp
  have "leaf_page (put_rec ?e 0 (leaf_rec ([1], [2]))) [([1], [2])]"
    using leaf_page_put [OF leaf_page_init, of 0 "([1], [2])" zero_page 7] sp by (simp add: ins_at_def)
  from leaf_page_put [OF this, of 1 "([3], [4])"] sp
  show "leaf_page two_leaf [([1], [2]), ([3], [4])]" by (simp add: ins_at_def two_leaf_def)
  show "page_space two_leaf = 8124" using sp by (simp add: two_leaf_def)
qed

lemma two_index: "index_page two_index [([1], 5), ([3], 6)]" "page_space two_index = 8126"
proof -
  note e = index_page_init [of zero_page 8]
  have "index_page (put_rec (PageInit zero_page 8) 0 (index_rec ([1], 5))) [([1], 5)]"
    using index_page_put [OF e(1), of 0 "([1], 5)"] e(2) by (simp add: ins_at_def)
  from index_page_put [OF this, of 1 "([3], 6)"] e(2)
  show "index_page two_index [([1], 5), ([3], 6)]" by (simp add: ins_at_def two_index_def)
  show "page_space two_index = 8126" using e(2) by (simp add: two_index_def)
qed

text \<open>C11. The binary searches of a page with strictly increasing keys \<open>ks\<close>, on every key and
  without failing an assertion: the insertion search returns the number of smaller keys, the
  plain search the last offset whose key is at most the searched one (0 if there is none),
  and the high-key search the first offset whose key is at least the searched one (the last
  offset if there is none).\<close>

theorem page_searches:
  assumes "page_keys p ks" "sorted_wrt (<) ks"
  shows "page_bin_search_insert p k = Inr (lb ks k) \<and>
    page_bin_search p k = Inr (if k \<in> set ks then lb ks k else lb ks k - 1) \<and>
    page_bin_search_highkey p k = Inr (min (lb ks k) (length ks - 1))"
  using page_bin_search_insert_keys [OF assms] page_bin_search_keys [OF assms]
    page_bin_search_highkey_keys [OF assms] hit_iff [OF assms(2), of k]
  by (auto simp: floor_off_def)

theorem page_searches_witness:
  "page_bin_search_insert two_leaf [2] = Inr 1 \<and> page_bin_search two_leaf [2] = Inr 0 \<and>
   page_bin_search_highkey two_leaf [2] = Inr 1"
  using page_searches [OF leaf_page_keys [OF two_leaf(1)], of "[2]"] by (simp add: lb_def)



text \<open>\<^verbatim>\<open>PageInsertLeafEntryWithSeq\<close> keeps one entry per user key, for internal keys of one
  size: a new user key is inserted at its place and the result is true; for a user key that
  is present the entry is rewritten in place with the new sequence number, with the new
  value if the sizes agree, and the result is false.\<close>

theorem insert_with_seq_refines:
  assumes "leaf_page p es" "sorted_wrt (<) (user_keys es)" "\<forall>e \<in> set es. length (fst e) = length k"
    "length k + length v + 12 < page_space p"
  shows "\<exists>p'. PageInsertLeafEntryWithSeq p k v = Inr (pure_key k \<notin> set (user_keys es), p') \<and>
    leaf_page p' (seq_upd es k v) \<and> sorted_wrt (<) (user_keys (seq_upd es k v)) \<and> same_node p p'"
  using PageInsertLeafEntryWithSeq_upd [OF assms] seq_upd_sorted [OF assms(2)] by blast

theorem insert_with_seq_refines_witness:
  "\<exists>p'. PageInsertLeafEntryWithSeq ((PageInit zero_page 7)\<lparr>is_leaf := True\<rparr>) [1, 0, 0, 0, 0, 0, 0, 0, 5] [9] =
      Inr (True, p') \<and> leaf_page p' [([1, 0, 0, 0, 0, 0, 0, 0, 5], [9])]"
  using insert_with_seq_refines [OF leaf_page_init, of "[1, 0, 0, 0, 0, 0, 0, 0, 5]" "[9]" zero_page 7]
    index_page_init(2) [of zero_page 7]
  by (auto simp: seq_upd_def ins_at_def)

text \<open>C33. \<^verbatim>\<open>PageRemoveOffset\<close> deletes exactly the entry at the offset, from leaf and from inner
  pages, when the entry that follows it, if any, is encoded in the same number of bytes.\<close>

theorem remove_offset_deletes:
  assumes "leaf_page p es" "off < length es"
    "Suc off < length es \<Longrightarrow> length (leaf_rec (es ! Suc off)) = length (leaf_rec (es ! off))"
    "index_page q cs" "off' < length cs"
    "Suc off' < length cs \<Longrightarrow> length (index_rec (cs ! Suc off')) = length (index_rec (cs ! off'))"
  shows "leaf_page (PageRemoveOffset p off) (del_at off es) \<and> same_node p (PageRemoveOffset p off) \<and>
    index_page (PageRemoveOffset q off') (del_at off' cs) \<and> same_node q (PageRemoveOffset q off')"
  using PageRemoveOffset_leaf [OF assms(1-3)] PageRemoveOffset_index [OF assms(4-6)] by blast

theorem remove_offset_deletes_witness:
  "leaf_page (PageRemoveOffset two_leaf 0) [([3], [4])] \<and>
   index_page (PageRemoveOffset two_index 1) [([1], 5)]"
  using remove_offset_deletes [OF two_leaf(1) _ _ two_index(1), of 0 1] by (simp add: del_at_def)

text \<open>C34. The space \<^verbatim>\<open>PageRemoveOffset\<close> gives back is the size of the entry \<^emph>\<open>after\<close> the removed
  one: \<^verbatim>\<open>free_end_\<close> grows by that size, whatever the size of the removed entry. With entries
  of different sizes the page no longer accounts for its space.\<close>

theorem remove_offset_frees_next_size:
  assumes "leaf_page p es" "Suc off < length es"
  shows "free_end (PageRemoveOffset p off) = free_end p + length (leaf_rec (es ! Suc off))"
proof -
  let ?recs = "map leaf_rec es"
  have recs: "page_recs p ?recs" and leaf: "is_leaf p" using assms(1) by (simp_all add: leaf_page_def)
  obtain ps where s: "slotted PAGE_SIZE (data p) (free_end p) ?recs ps"
    using recs by (rule page_recsE)
  have off: "off < length ?recs" and j: "Suc off < length ?recs" using assms(2) by auto
  have "page_decode_leafEntry (p\<lparr>data := drop_slot (data p) (length ?recs) off,
      free_start := free_start p - 4\<rparr>) off = es ! Suc off"
    using drop_slot_record [OF s off refl] slotted_len [OF s j] j
    by (intro decode_leafEntry_at [of _ _ "ps ! Suc off"]) simp_all
  then have "PageRemoveOffset p off = p\<lparr>data := remove_rec (data p) (free_end p) (length ?recs) off
        (read32 (data p) (PgHdSize + 4 * off)) (length (?recs ! Suc off)),
      free_start := free_start p - 4, free_end := free_end p + length (?recs ! Suc off),
      item_num := item_num p - 1, is_dirty := True\<rparr>"
    using leaf j slottedD(3) [OF s] slottedD(7) [OF s j]
    by (intro PageRemoveOffset_code [OF recs off]) (simp_all add: Let_def)
  then show ?thesis using assms(2) by simp
qed

theorem remove_offset_frees_next_size_witness:
  "\<exists>p. leaf_page p [([1], [2]), ([3], [4, 4, 4])] \<and>
    free_end (PageRemoveOffset p 0) = free_end p + 12 \<and> length (leaf_rec ([1], [2])) = 10"
proof -
  let ?e = "(PageInit zero_page 7)\<lparr>is_leaf := True\<rparr>"
  have sp: "page_space ?e = 8152" using index_page_init(2) [of zero_page 7] by simp
  have "leaf_page (put_rec ?e 0 (leaf_rec ([1], [2]))) [([1], [2])]"
    using leaf_page_put [OF leaf_page_init, of 0 "([1], [2])" zero_page 7] sp by (simp add: ins_at_def)
  from leaf_page_put [OF this, of 1 "([3], [4, 4, 4])"] sp
  have "leaf_page (put_rec (put_rec ?e 0 (leaf_rec ([1], [2]))) 1 (leaf_rec ([3], [4, 4, 4])))
      [([1], [2]), ([3], [4, 4, 4])]" by (simp add: ins_at_def)
  from this remove_offset_frees_next_size [OF this, of 0] show ?thesis by auto
qed

text \<open>Copying the entries \<open>start, \<dots>, finish - 1\<close> of a page behind the smaller entries of
  another succeeds when they fit and appends exactly those entries, for leaf and for inner
  pages; the target keeps its identity and links.\<close>

theorem move_entries_append:
  assumes "leaf_page src es" "leaf_page dest ds" "finish \<le> length es"
    "sorted_wrt (<) (map fst (ds @ take (finish - start) (drop start es)))"
    "[] \<notin> fst ` set (take (finish - start) (drop start es))"
    "sum_list (map (\<lambda>e. length (fst e) + length (snd e) + 12) (take (finish - start) (drop start es)))
      < page_space dest"
    "index_page src' cs" "index_page dest' bs" "finish' \<le> length cs"
    "sorted_wrt (<) (map fst (bs @ take (finish' - start') (drop start' cs)))"
    "sum_list (map (\<lambda>e. length (fst e) + 12) (take (finish' - start') (drop start' cs))) < page_space dest'"
  shows "(\<exists>d. PageMoveLeafEntries src dest start finish = Inr d \<and>
      leaf_page d (ds @ take (finish - start) (drop start es)) \<and> same_node dest d) \<and>
    (\<exists>d. PageMoveIndexEntries src' dest' start' finish' = Inr d \<and>
      index_page d (bs @ take (finish' - start') (drop start' cs)) \<and> same_node dest' d)"
  using PageMoveLeafEntries_copy [OF assms(1-3) refl assms(4-6)]
    PageMoveIndexEntries_copy [OF assms(7-9) refl assms(10,11)] by blast

theorem move_entries_append_witness:
  "(\<exists>d. PageMoveLeafEntries two_leaf ((PageInit zero_page 9)\<lparr>is_leaf := True\<rparr>) 1 2 = Inr d \<and>
     leaf_page d [([3], [4])]) \<and>
   (\<exists>d. PageMoveIndexEntries two_index (PageInit zero_page 9) 0 2 = Inr d \<and>
     index_page d [([1], 5), ([3], 6)])"
  using move_entries_append [OF two_leaf(1) leaf_page_init _ _ _ _ two_index(1) index_page_init(1),
      of 2 1 zero_page 9 2 0 zero_page 9] index_page_init(2) [of zero_page 9]
  by auto

text \<open>Inner pages: inserting a separator key with its child puts the pair at its place in
  key order; \<^verbatim>\<open>PageUpdateChild\<close> replaces the child of the entry a search for the key ends at;
  \<^verbatim>\<open>PageGetOffsetByChild\<close> returns the first offset with the child, or -1.\<close>

theorem index_page_operations:
  assumes "index_page p es" "sorted_wrt (<) (map fst es)" "es \<noteq> []" "c < 2 ^ 32"
    "length k + 12 < page_space p"
  shows "(\<exists>p'. PageInsertIndexEntry p k c = Inr p' \<and> index_page p' (ins_at (lb (map fst es) k) (k, c) es)) \<and>
    (\<exists>p'. PageUpdateChild p k c = Inr p' \<and> same_node p p' \<and>
      index_page p' (es[floor_off (map fst es) k := (fst (es ! floor_off (map fst es) k), c)])) \<and>
    PageGetOffsetByChild p c = Inr
      (if c \<in> snd ` set es then int (length (takeWhile (\<lambda>e. snd e \<noteq> c) es)) else -1)"
  using PageInsertIndexEntry_put [OF assms(1,2,5), of c] assms(4,5) lb_le [of "map fst es" k]
    index_page_put [OF assms(1), of "lb (map fst es) k" "(k, c)"]
    PageUpdateChild_index [OF assms(1-4) refl, of k] PageGetOffsetByChild_index [OF assms(1), of c]
  by auto

theorem index_page_operations_witness:
  "(\<exists>p'. PageInsertIndexEntry two_index [2] 9 = Inr p' \<and> index_page p' [([1], 5), ([2], 9), ([3], 6)]) \<and>
   (\<exists>p'. PageUpdateChild two_index [2] 9 = Inr p' \<and> index_page p' [([1], 9), ([3], 6)]) \<and>
   PageGetOffsetByChild two_index 9 = Inr (-1)"
  using index_page_operations [OF two_index(1), of 9 "[2]"] two_index(2)
  by (auto simp: lb_def ins_at_def floor_off_def)

end
