(* ===== verification/NodePage.thy ===== *)
theory NodePage
  imports TreePageOps
begin

text \<open>
  The page operations of \<^verbatim>\<open>wot_buf_mgr/node_page.h\<close>, the node format of the B-tree with
  optimistic lock coupling. Leaves have the layout of \<^verbatim>\<open>TreePage\<close>; an inner page stores its
  leftmost child in the last four bytes and one (key, right child) pair per pivot. The
  search is a lower bound, an insertion of a present key replaces its value whatever the
  sizes, and a split rebuilds both halves.
\<close>

section \<open>Reading and searching\<close>

definition decode_int32_at :: "page \<Rightarrow> nat \<Rightarrow> nat" where
  "decode_int32_at p pos = read32 (data p) pos"

definition decode_pivotpair :: "page \<Rightarrow> nat \<Rightarrow> slice \<times> nat" where
  "decode_pivotpair p offset =
     (let pos = decode_int32_at p (PgHdSize + offset * ITEMID_SIZE);
          key_size = decode_int32_at p pos;
          key = bytes_at (data p) (pos + ITEMID_SIZE) key_size;
          child = decode_int32_at p (pos + ITEMID_SIZE + key_size)
      in (key, child))"

definition decode_kvpair :: "page \<Rightarrow> nat \<Rightarrow> slice \<times> slice" where
  "decode_kvpair p offset =
     (let pos = decode_int32_at p (PgHdSize + offset * ITEMID_SIZE);
          key_size = decode_int32_at p pos;
          key = bytes_at (data p) (pos + ITEMID_SIZE) key_size;
          val_size = decode_int32_at p (pos + ITEMID_SIZE + key_size);
          val = bytes_at (data p) (pos + 2 * ITEMID_SIZE + key_size) val_size
      in (key, val))"

definition PageReadKeyAtOffset :: "page \<Rightarrow> nat \<Rightarrow> slice" where
  "PageReadKeyAtOffset p offset =
     (if item_num p \<le> offset then []
      else if is_leaf p then fst (decode_kvpair p offset)
      else fst (decode_pivotpair p offset))"

text \<open>The body of the \<^verbatim>\<open>do ... while\<close> loop runs at least once, also on an empty page.\<close>

function lower_loop :: "page \<Rightarrow> slice \<Rightarrow> nat \<Rightarrow> nat \<Rightarrow> nat" where
  "lower_loop p k lower upper =
     (let mid = (upper - lower) div 2 + lower;
          mid_key = PageReadKeyAtOffset p mid
      in if Slice_compare k mid_key < 0 then
           if lower < mid then lower_loop p k lower mid else lower
         else if Slice_compare k mid_key > 0 then
           if mid + 1 < upper then lower_loop p k (mid + 1) upper else mid + 1
         else mid)"
  by pat_completeness auto
termination
  by (relation "measure (\<lambda>(p, k, lower, upper). upper - lower)") auto

declare lower_loop.simps [simp del]

definition lower_bound :: "page \<Rightarrow> slice \<Rightarrow> nat" where
  "lower_bound p k = lower_loop p k 0 (item_num p)"

definition PageLowerBound :: "page \<Rightarrow> slice \<Rightarrow> int" where
  "PageLowerBound p k =
     (let lower = lower_bound p k in if lower > 0 then int lower - 1 else -1)"

definition PageReadChildAt :: "page \<Rightarrow> int \<Rightarrow> nat result" where
  "PageReadChildAt p offset =
     (if is_leaf p then Inl AssertFailed
      else if offset < 0 then Inr (decode_int32_at p (PAGE_SIZE - ITEMID_SIZE))
      else Inr (snd (decode_pivotpair p (nat offset))))"

definition PageReadValAt :: "page \<Rightarrow> nat \<Rightarrow> slice result" where
  "PageReadValAt p offset =
     (if \<not> offset < item_num p then Inl AssertFailed else Inr (snd (decode_kvpair p offset)))"

section \<open>Inserting\<close>

definition InnerPageIsFull :: "page \<Rightarrow> slice \<Rightarrow> bool" where
  "InnerPageIsFull p k \<longleftrightarrow> sub32 (free_end p) (free_start p) < length k + ITEMID_SIZE * 3"

definition LeafPageIsFull :: "page \<Rightarrow> slice \<Rightarrow> slice \<Rightarrow> bool" where
  "LeafPageIsFull p k v \<longleftrightarrow> sub32 (free_end p) (free_start p) < length k + length v + ITEMID_SIZE * 3"

definition insert_pivotpair_at :: "nat \<Rightarrow> page \<Rightarrow> slice \<Rightarrow> nat \<Rightarrow> page" where
  "insert_pivotpair_at offset p key pg_id =
     (let need_shift = offset < item_num p;
          item_size = u32 (length key);
          encoded_len = u32 (item_size + ITEMID_SIZE * 2);
          up = sub32 (free_end p) encoded_len;
          m1 = write32 (data p) up item_size;
          m2 = write_bytes m1 (up + ITEMID_SIZE) (take item_size key);
          m3 = write32 m2 (up + ITEMID_SIZE + item_size) pg_id;
          low = PgHdSize + ITEMID_SIZE * offset;
          m4 = (if need_shift
                then memmove m3 (low + ITEMID_SIZE) low ((item_num p - offset) * ITEMID_SIZE)
                else m3);
          m5 = write32 m4 low up
      in p\<lparr>data := m5, free_end := up, free_start := u32 (free_start p + ITEMID_SIZE)\<rparr>)"

definition update_val_at :: "nat \<Rightarrow> page \<Rightarrow> slice \<Rightarrow> bool \<times> page" where
  "update_val_at offset p val =
     (let p1 = p\<lparr>is_dirty := True\<rparr>;
          new_val_size = u32 (length val);
          old_pos = decode_int32_at p1 (PgHdSize + offset * ITEMID_SIZE);
          key_size = decode_int32_at p1 old_pos;
          old_val_size = decode_int32_at p1 (old_pos + ITEMID_SIZE + key_size)
      in if new_val_size = old_val_size
         then (True, p1\<lparr>data := write_bytes (data p1) (old_pos + ITEMID_SIZE * 2 + key_size)
                                  (take new_val_size val)\<rparr>)
         else (False, p1))"

definition insert_kvpair_at :: "nat \<Rightarrow> page \<Rightarrow> slice \<Rightarrow> slice \<Rightarrow> page" where
  "insert_kvpair_at offset p key val =
     (let ori_k = PageReadKeyAtOffset p offset;
          need_shift = (offset < item_num p \<and> Slice_compare ori_k key \<noteq> 0);
          item_size = u32 (length key);
          val_size = u32 (length val);
          encoded_len = u32 (item_size + ITEMID_SIZE * 2 + val_size);
          up = sub32 (free_end p) encoded_len;
          m1 = write32 (data p) up item_size;
          m2 = write_bytes m1 (up + ITEMID_SIZE) (take item_size key);
          m3 = write32 m2 (up + ITEMID_SIZE + item_size) val_size;
          m4 = write_bytes m3 (up + ITEMID_SIZE + item_size + ITEMID_SIZE) (take val_size val);
          low = PgHdSize + ITEMID_SIZE * offset;
          m5 = (if need_shift
                then memmove m4 (low + ITEMID_SIZE) low ((item_num p - offset) * ITEMID_SIZE)
                else m4);
          m6 = write32 m5 low up
      in p\<lparr>data := m6, free_end := up, free_start := u32 (free_start p + ITEMID_SIZE)\<rparr>)"

definition PageInsertKvpair :: "page \<Rightarrow> slice \<Rightarrow> slice \<Rightarrow> page result" where
  "PageInsertKvpair p k v =
     (if LeafPageIsFull p k v then Inl Abort
      else let off = (if item_num p > 0 then lower_bound p k else 0);
               temp_k = PageReadKeyAtOffset p off;
               up = (if Slice_compare temp_k k = 0 then update_val_at off p v else (False, p));
               p1 = (if fst up then snd up else insert_kvpair_at off (snd up) k v);
               p2 = p1\<lparr>is_dirty := True\<rparr>
           in Inr (if Slice_compare temp_k k \<noteq> 0 then p2\<lparr>item_num := item_num p2 + 1\<rparr> else p2))"

definition PageInsertPivotPair :: "page \<Rightarrow> slice \<Rightarrow> nat \<Rightarrow> page result" where
  "PageInsertPivotPair p k child =
     (if InnerPageIsFull p k then Inl Abort
      else if \<not> item_num p > 0 then Inl AssertFailed
      else let off = lower_bound p k; p1 = insert_pivotpair_at off p k child
           in Inr (p1\<lparr>is_dirty := True, item_num := item_num p1 + 1\<rparr>))"

definition PageInsertFirstPivotPair :: "page \<Rightarrow> slice \<Rightarrow> nat \<Rightarrow> nat \<Rightarrow> page result" where
  "PageInsertFirstPivotPair p k left_c right_c =
     (if \<not> item_num p = 0 then Inl AssertFailed
      else if \<not> free_end p = PAGE_SIZE then Inl AssertFailed
      else let p1 = p\<lparr>data := write32 (data p) (PAGE_SIZE - ITEMID_SIZE) left_c,
                      free_end := sub32 (free_end p) ITEMID_SIZE\<rparr>;
               p2 = insert_pivotpair_at 0 p1 k right_c
           in Inr (p2\<lparr>is_dirty := True, item_num := 1\<rparr>))"

section \<open>Splitting\<close>

text \<open>
  The item counts are \<^verbatim>\<open>int\<close> variables in the code; the offset of the separator is converted
  to \<^verbatim>\<open>uint32_t\<close> when it is passed on, which \<^const>\<open>sub32\<close> writes out.
\<close>

definition GetLeafPageSplitSep :: "page \<Rightarrow> slice" where
  "GetLeafPageSplitSep p =
     (let n = item_num p; right_item = n - n div 2; left_item = n - right_item
      in PageReadKeyAtOffset p (sub32 left_item 1))"

definition GetInnerPageSplitSep :: "page \<Rightarrow> slice" where
  "GetInnerPageSplitSep p =
     (let n = item_num p; right_item = n - n div 2
      in PageReadKeyAtOffset p (sub32 (n - right_item) 1))"

fun copy_kvpairs :: "page \<Rightarrow> page \<Rightarrow> nat list \<Rightarrow> page result" where
  "copy_kvpairs src dest [] = Inr dest"
| "copy_kvpairs src dest (off # offs) =
     bind_result (PageInsertKvpair dest (fst (decode_kvpair src off)) (snd (decode_kvpair src off)))
       (\<lambda>dest'. copy_kvpairs src dest' offs)"

text \<open>The page with its content dropped, as the split does before it reinserts the left half.\<close>

definition reset_content :: "page \<Rightarrow> page" where
  "reset_content p = p\<lparr>item_num := 0, free_start := PgHdSize, free_end := PAGE_SIZE\<rparr>"

definition LeafPageSplit :: "page \<Rightarrow> page \<Rightarrow> (page \<times> page) result" where
  "LeafPageSplit p new_page =
     (let n = item_num p; right_item = n - n div 2; left_item = n - right_item;
          p1 = p\<lparr>item_num := left_item\<rparr>
      in bind_result (copy_kvpairs p1 new_page [left_item ..< n]) (\<lambda>new'.
           bind_result (copy_kvpairs p1 (reset_content p1) [0 ..< left_item]) (\<lambda>p'.
             Inr (p', new'))))"

text \<open>Copying pivots: the first one also carries the leftmost child \<open>fst_c\<close>.\<close>

fun copy_pivots :: "page \<Rightarrow> page \<Rightarrow> nat list \<Rightarrow> page result" where
  "copy_pivots src dest [] = Inr dest"
| "copy_pivots src dest (off # offs) =
     bind_result (PageInsertPivotPair dest (fst (decode_pivotpair src off)) (snd (decode_pivotpair src off)))
       (\<lambda>dest'. copy_pivots src dest' offs)"

definition rebuild_inner :: "page \<Rightarrow> page \<Rightarrow> nat \<Rightarrow> nat list \<Rightarrow> page result" where
  "rebuild_inner src dest fst_c offs =
     (case offs of [] \<Rightarrow> Inr dest
      | off # rest \<Rightarrow>
          bind_result (PageInsertFirstPivotPair dest (fst (decode_pivotpair src off)) fst_c
                         (snd (decode_pivotpair src off)))
            (\<lambda>dest'. copy_pivots src dest' rest))"

definition InnerPageSplit :: "page \<Rightarrow> page \<Rightarrow> (page \<times> page) result" where
  "InnerPageSplit p new_page =
     (let n = item_num p; right_item = n - n div 2; left_item = int n - int right_item - 1;
          p1 = p\<lparr>item_num := nat (left_item mod 2 ^ 32)\<rparr>
      in bind_result (PageReadChildAt p1 left_item) (\<lambda>right_fst.
         bind_result (rebuild_inner p1 new_page right_fst [nat (left_item + 1) ..< n]) (\<lambda>new'.
           if \<not> item_num new' = right_item then Inl AssertFailed
           else bind_result (rebuild_inner p1 (reset_content p1)
                  (decode_int32_at p1 (PAGE_SIZE - ITEMID_SIZE)) [0 ..< nat left_item]) (\<lambda>p'.
             Inr (p', new')))))"

end
