(* ===== verification/NodePageCorrect.thy ===== *)
theory NodePageCorrect
  imports NodePage
begin

text \<open>
  Correctness of the \<^verbatim>\<open>node_page.h\<close> operations: the lower bound search, insertion as an update
  of a finite map, and the two splits. A replaced value leaves its old bytes and one slot's
  worth of \<^verbatim>\<open>free_start_\<close> behind, so the invariant here only bounds \<^verbatim>\<open>free_start_\<close> from below.
\<close>

section \<open>Shared layout\<close>

lemma decode_kvpair_eq: "decode_kvpair = page_decode_leafEntry"
  by (intro ext) (simp add: decode_kvpair_def page_decode_leafEntry_def decode_int32_at_def
      page_decode_int32_at_def)

lemma decode_pivotpair_eq: "decode_pivotpair = page_decode_indexEntry"
  by (intro ext) (simp add: decode_pivotpair_def page_decode_indexEntry_def decode_int32_at_def
      page_decode_int32_at_def)

lemma PageReadKeyAtOffset_eq: "PageReadKeyAtOffset = PageReadPivotAtOffset"
  by (intro ext) (simp add: PageReadKeyAtOffset_def PageReadPivotAtOffset_def decode_kvpair_eq
      decode_pivotpair_eq)

definition node_recs :: "nat \<Rightarrow> page \<Rightarrow> slice list \<Rightarrow> bool" where
  "node_recs lim p recs \<longleftrightarrow> item_num p = length recs \<and> PgHdSize + 4 * length recs \<le> free_start p \<and>
     free_start p \<le> free_end p \<and> (\<exists>ps. slotted lim (data p) (free_end p) recs ps)"

definition node_leaf :: "page \<Rightarrow> (slice \<times> slice) list \<Rightarrow> bool" where
  "node_leaf p es \<longleftrightarrow> is_leaf p \<and> node_recs PAGE_SIZE p (map leaf_rec es)"

definition node_inner :: "page \<Rightarrow> nat \<Rightarrow> (slice \<times> nat) list \<Rightarrow> bool" where
  "node_inner p c0 es \<longleftrightarrow> \<not> is_leaf p \<and> (\<forall>e \<in> set es. snd e < 2 ^ 32) \<and>
     node_recs (PAGE_SIZE - 4) p (map index_rec es) \<and> read32 (data p) (PAGE_SIZE - 4) = c0"

lemma node_recsE:
  assumes "node_recs lim p recs"
  obtains ps where "item_num p = length recs" "PgHdSize + 4 * length recs \<le> free_start p"
    "free_start p \<le> free_end p" "slotted lim (data p) (free_end p) recs ps"
  using assms by (auto simp: node_recs_def)

lemma node_recs_bounds:
  assumes "node_recs lim p recs"
  shows "free_start p \<le> free_end p" "free_end p \<le> lim" "lim \<le> PAGE_SIZE"
  using assms by (auto simp: node_recs_def dest: slottedD(3,4))

lemma node_leaf_decode:
  assumes "node_leaf p es" "i < length es"
  shows "decode_kvpair p i = es ! i"
proof -
  obtain ps where s: "slotted PAGE_SIZE (data p) (free_end p) (map leaf_rec es) ps"
    using assms(1) by (auto simp: node_leaf_def elim: node_recsE)
  have i: "i < length (map leaf_rec es)" using assms(2) by simp
  show ?thesis
    unfolding decode_kvpair_eq using slottedD(5,8) [OF s i] slotted_len [OF s i] assms(2)
    by (intro decode_leafEntry_at [of p i "ps ! i"]) simp_all
qed

lemma node_inner_decode:
  assumes "node_inner p c0 es" "i < length es"
  shows "decode_pivotpair p i = es ! i"
proof -
  obtain ps where s: "slotted (PAGE_SIZE - 4) (data p) (free_end p) (map index_rec es) ps"
    using assms(1) by (auto simp: node_inner_def elim: node_recsE)
  have i: "i < length (map index_rec es)" using assms(2) by simp
  have c: "snd (es ! i) < 2 ^ 32" using assms nth_mem unfolding node_inner_def by blast
  show ?thesis
    unfolding decode_pivotpair_eq using slottedD(5,8) [OF s i] slotted_len [OF s i] assms(2) c
    by (intro decode_indexEntry_at [of p i "ps ! i"]) simp_all
qed

lemma node_leaf_item_num: "node_leaf p es \<Longrightarrow> item_num p = length es"
  by (auto simp: node_leaf_def elim: node_recsE)

lemma node_inner_item_num: "node_inner p c0 es \<Longrightarrow> item_num p = length es"
  by (auto simp: node_inner_def elim: node_recsE)

lemma node_leaf_keys: "node_leaf p es \<Longrightarrow> page_keys p (map fst es)"
  using node_leaf_decode [of p es]
  by (auto simp: page_keys_def PageReadPivotAtOffset_def decode_kvpair_eq node_leaf_item_num node_leaf_def)

lemma node_inner_keys: "node_inner p c0 es \<Longrightarrow> page_keys p (map fst es)"
  using node_inner_decode [of p c0 es]
  by (auto simp: page_keys_def PageReadPivotAtOffset_def decode_pivotpair_eq node_inner_item_num node_inner_def)

lemma node_leaf_dirty [simp]: "node_leaf (p\<lparr>is_dirty := d\<rparr>) es = node_leaf p es"
  by (simp add: node_leaf_def node_recs_def)

lemma node_inner_dirty [simp]: "node_inner (p\<lparr>is_dirty := d\<rparr>) c0 es = node_inner p c0 es"
  by (simp add: node_inner_def node_recs_def)

lemma decode_cong:
  "data p = data q \<Longrightarrow> decode_kvpair p = decode_kvpair q"
  "data p = data q \<Longrightarrow> decode_pivotpair p = decode_pivotpair q"
  by (intro ext, simp add: decode_kvpair_def decode_pivotpair_def decode_int32_at_def)+

lemma PageReadKeyAtOffset_dirty [simp]: "PageReadKeyAtOffset (p\<lparr>is_dirty := d\<rparr>) i = PageReadKeyAtOffset p i"
  using decode_cong [of "p\<lparr>is_dirty := d\<rparr>" p] by (simp add: PageReadKeyAtOffset_def)

section \<open>The lower bound\<close>

lemma lower_loop_lb:
  assumes "page_keys p ks" "sorted_wrt (<) ks"
    and "lower < upper" "upper \<le> length ks" "lower \<le> lb ks k" "lb ks k \<le> upper"
  shows "lower_loop p k lower upper = lb ks k"
  using assms(3-6)
proof (induction "upper - lower" arbitrary: lower upper rule: less_induct)
  case less
  let ?mid = "(upper - lower) div 2 + lower"
  have mid: "lower \<le> ?mid" "?mid < upper" "?mid < length ks" using less.prems by auto
  have key: "PageReadKeyAtOffset p ?mid = ks ! ?mid"
    using assms(1) mid(3) by (simp add: PageReadKeyAtOffset_eq page_keys_def)
  note unfold = lower_loop.simps [of p k lower upper]
  consider "?mid = lb ks k" "hit ks k" | "?mid < lb ks k" | "lb ks k \<le> ?mid" "ks ! ?mid \<noteq> k"
    using eq_lb_iff [OF assms(2) mid(3), of k] by linarith
  then show ?case
  proof cases
    case 1
    then have "PageReadKeyAtOffset p (lb ks k) = k" using key by simp
    then show ?thesis using 1(1) by (simp add: unfold Let_def)
  next
    case 2
    then have lt: "ks ! ?mid < k" "\<not> k < ks ! ?mid" "k \<noteq> ks ! ?mid"
      using less_lb_iff [OF assms(2) mid(3), of k] by auto
    have "upper - (?mid + 1) < upper - lower" using mid by linarith
    from less.hyps [OF this] show ?thesis
      using lt 2 mid(2) less.prems(2,4) by (simp add: unfold key Let_def)
  next
    case 3
    then have lt: "k < ks ! ?mid"
      using less_lb_iff [OF assms(2) mid(3), of k] by (auto simp: not_less le_less)
    have "?mid - lower < upper - lower" using mid less.prems by linarith
    from less.hyps [OF this] show ?thesis
      using lt 3(1) mid less.prems by (simp add: unfold key Let_def)
  qed
qed

lemma lower_bound_lb:
  assumes "page_keys p ks" "sorted_wrt (<) ks" "ks \<noteq> []"
  shows "lower_bound p k = lb ks k"
  using assms lower_loop_lb [OF assms(1,2), of 0 "length ks" k]
  by (simp add: lower_bound_def page_keys_def)

section \<open>Inserting\<close>

lemma slotted_replace:
  assumes s: "slotted lim m fe recs ps" and i: "i < length recs"
    and room: "PgHdSize + 4 * length recs + length r \<le> fe"
  shows "slotted lim (write32 (write_bytes m (fe - length r) r) (PgHdSize + 4 * i) (fe - length r))
    (fe - length r) (recs[i := r]) (ps[i := fe - length r])"
proof -
  let ?up = "fe - length r"
  let ?m = "write32 (write_bytes m ?up r) (PgHdSize + 4 * i) ?up"
  note D = slottedD [OF s]
  have lo: "PgHdSize + 4 * i + 4 \<le> ?up" using i room by arith
  have old: "bytes_at ?m (ps ! j) (length (recs ! j)) = recs ! j" if "j < length recs" for j
  proof -
    have "PgHdSize + 4 * i + 4 \<le> ps ! j" "?up + length r \<le> ps ! j"
      using D(6) [OF that] lo room by auto
    then show ?thesis using D(8) [OF that]
      by (simp add: bytes_at_write32_disjoint bytes_at_write_disjoint)
  qed
  have new: "bytes_at ?m ?up (length r) = r" using lo by (simp add: mem_simps)
  have slot: "read32 ?m (PgHdSize + 4 * j) = (if j = i then ?up else ps ! j)" if "j < length recs" for j
  proof (cases "j = i")
    case True
    then show ?thesis using D(3,4) by simp
  next
    case False
    then show ?thesis
      using D(5) [OF that] that room by (simp add: read32_other_slot mem_simps)
  qed
  show ?thesis
    unfolding slotted_def using D(1,3,4) room i slot new old D(6,7,9)
    by (auto simp: nth_list_update intro: le_trans [OF diff_le_self])
qed

lemma insert_kvpair_at_shift:
  "(off < item_num p \<Longrightarrow> PageReadKeyAtOffset p off \<noteq> k) \<Longrightarrow>
    insert_kvpair_at off p k v = page_write_leafEntry_at off p k v"
  by (auto simp: insert_kvpair_at_def page_write_leafEntry_at_def Let_def)

lemma insert_pivotpair_at_eq: "insert_pivotpair_at = page_write_indexEntry_at"
  by (intro ext) (simp add: insert_pivotpair_at_def page_write_indexEntry_at_def)

lemma update_val_at_eq: "update_val_at off p v = PageUpdatePivotAt p off v"
  by (simp add: update_val_at_def PageUpdatePivotAt_def decode_int32_at_def page_decode_int32_at_def)

lemma node_recs_put:
  assumes "node_recs lim p recs" "off \<le> length recs" "length r + 4 \<le> page_space p"
  shows "node_recs lim (put_rec p off r) (ins_at off r recs)"
proof -
  obtain ps where D: "item_num p = length recs" "PgHdSize + 4 * length recs \<le> free_start p"
    "free_start p \<le> free_end p" "slotted lim (data p) (free_end p) recs ps"
    using assms(1) by (rule node_recsE)
  have "PgHdSize + 4 * Suc (length recs) + length r \<le> free_end p" using assms(3) D(2) by simp
  from slotted_insert [OF D(4) assms(2) this] D(1-3) assms(3) show ?thesis
    unfolding node_recs_def put_rec_def by auto
qed

definition replace_rec :: "page \<Rightarrow> nat \<Rightarrow> slice \<Rightarrow> page" where
  "replace_rec p i r =
     p\<lparr>data := write32 (write_bytes (data p) (free_end p - length r) r) (PgHdSize + 4 * i) (free_end p - length r),
       free_end := free_end p - length r, free_start := free_start p + 4, is_dirty := True\<rparr>"

lemma node_recs_replace:
  assumes "node_recs lim p recs" "i < length recs" "length r + 4 \<le> page_space p"
  shows "node_recs lim (replace_rec p i r) (recs[i := r])"
proof -
  obtain ps where D: "item_num p = length recs" "PgHdSize + 4 * length recs \<le> free_start p"
    "free_start p \<le> free_end p" "slotted lim (data p) (free_end p) recs ps"
    using assms(1) by (rule node_recsE)
  have "PgHdSize + 4 * length recs + length r \<le> free_end p" using assms(3) D(2) by simp
  from slotted_replace [OF D(4) assms(2) this] D(1-3) assms(3) show ?thesis
    unfolding node_recs_def replace_rec_def by auto
qed

lemma insert_kvpair_at_replace:
  assumes "off < item_num p" "PageReadKeyAtOffset p off = k"
    and free: "free_start p \<le> free_end p" "free_end p \<le> PAGE_SIZE"
    and room: "length (leaf_rec (k, v)) + 4 \<le> page_space p"
  shows "(insert_kvpair_at off p k v)\<lparr>is_dirty := True\<rparr> = replace_rec p off (leaf_rec (k, v))"
proof -
  have small: "length k < 2 ^ 32" "length v < 2 ^ 32" "length k + 8 + length v < 2 ^ 32"
    "free_start p + 4 < 2 ^ 32"
    using room free by simp_all
  have up: "sub32 (free_end p) (length k + 8 + length v) = free_end p - (length k + length v + 8)"
    using room free by (subst sub32_diff) auto
  let ?up = "free_end p - (length k + length v + 8)"
  have "write_bytes (write32 (write_bytes (write32 (data p) ?up (length k)) (?up + 4) k)
      (?up + 4 + length k) (length v)) (?up + 4 + length k + 4) v
    = write_bytes (data p) ?up (leaf_rec (k, v))"
    using write_bytes_append [of "data p" ?up "EncodeFixed32 (of_nat (length k))" k]
      write_bytes_append [of "data p" ?up "EncodeFixed32 (of_nat (length k)) @ k"
        "EncodeFixed32 (of_nat (length v))"]
      write_bytes_append [of "data p" ?up "EncodeFixed32 (of_nat (length k)) @ k @
        EncodeFixed32 (of_nat (length v))" v]
    by (simp add: write32_def leaf_rec_def add.assoc)
  then show ?thesis
    using small up assms(2)
    by (intro page.equality) (simp_all add: insert_kvpair_at_def replace_rec_def Let_def)
qed

text \<open>
  Up to the slack in \<^verbatim>\<open>free_start_\<close> a node leaf is a leaf page, and updating a value in place
  does not look at that field.
\<close>

lemma node_leaf_iff:
  "node_leaf p es \<longleftrightarrow> leaf_page (p\<lparr>free_start := PgHdSize + 4 * length es\<rparr>) es \<and>
     PgHdSize + 4 * length es \<le> free_start p \<and> free_start p \<le> free_end p"
  by (auto simp: node_leaf_def leaf_page_def node_recs_def page_recs_def)

lemma PageUpdatePivotAt_free_start:
  "PageUpdatePivotAt (p\<lparr>free_start := x\<rparr>) i v =
     (fst (PageUpdatePivotAt p i v), (snd (PageUpdatePivotAt p i v))\<lparr>free_start := x\<rparr>)"
  "free_start (snd (PageUpdatePivotAt p i v)) = free_start p"
  "free_end (snd (PageUpdatePivotAt p i v)) = free_end p"
  "item_num (snd (PageUpdatePivotAt p i v)) = item_num p"
  by (simp_all add: PageUpdatePivotAt_def page_decode_int32_at_def Let_def)

lemma update_val_at_node:
  assumes "node_leaf p es" "i < length es" "length v < 2 ^ 32"
  shows "fst (update_val_at i p v) \<longleftrightarrow> length v = length (snd (es ! i))"
    "length v = length (snd (es ! i)) \<Longrightarrow>
       node_leaf (snd (update_val_at i p v)) (es[i := (fst (es ! i), v)])"
    "length v \<noteq> length (snd (es ! i)) \<Longrightarrow> snd (update_val_at i p v) = p\<lparr>is_dirty := True\<rparr>"
    "same_node p (snd (update_val_at i p v))" "page_space (snd (update_val_at i p v)) = page_space p"
proof -
  let ?p = "p\<lparr>free_start := PgHdSize + 4 * length es\<rparr>"
  have leaf: "leaf_page ?p es" using assms(1) by (simp add: node_leaf_iff)
  note U = PageUpdatePivotAt_leaf [OF leaf assms(2,3)]
  show eq: "fst (update_val_at i p v) \<longleftrightarrow> length v = length (snd (es ! i))"
    using U(1) by (simp add: update_val_at_eq PageUpdatePivotAt_free_start)
  show "node_leaf (snd (update_val_at i p v)) (es[i := (fst (es ! i), v)])"
    if "length v = length (snd (es ! i))"
    using U(2) that assms(1) by (simp add: update_val_at_eq PageUpdatePivotAt_free_start node_leaf_iff)
  show "length v \<noteq> length (snd (es ! i)) \<Longrightarrow> snd (update_val_at i p v) = p\<lparr>is_dirty := True\<rparr>"
    using eq by (auto simp: update_val_at_def Let_def split: if_splits)
  show "same_node p (snd (update_val_at i p v))" "page_space (snd (update_val_at i p v)) = page_space p"
    by (simp_all add: update_val_at_def Let_def same_node_def)
qed

definition leaf_put :: "(slice \<times> slice) list \<Rightarrow> slice \<Rightarrow> slice \<Rightarrow> (slice \<times> slice) list" where
  "leaf_put es k v =
     (let i = lb (map fst es) k in
      if hit (map fst es) k then es[i := (k, v)] else ins_at i (k, v) es)"

lemma leaf_put_sorted:
  "sorted_wrt (<) (map fst es) \<Longrightarrow> sorted_wrt (<) (map fst (leaf_put es k v))"
  using sorted_ins_lb [of "map fst es" k] hit_iff [of "map fst es" k]
  by (auto simp: leaf_put_def Let_def map_fst_update_same map_ins_at)

lemma map_of_leaf_put:
  assumes "sorted_wrt (<) (map fst es)"
  shows "map_of (leaf_put es k v) = (map_of es)(k \<mapsto> v)"
proof (cases "hit (map fst es) k")
  case True
  then show ?thesis
    using map_of_update_nth [OF sorted_distinct [OF assms], of "lb (map fst es) k" k v]
    by (auto simp: leaf_put_def Let_def)
next
  case False
  then have "k \<notin> fst ` set es" using hit_iff [OF assms, of k] by auto
  then show ?thesis using False map_of_ins_at [of k es] by (auto simp: leaf_put_def Let_def)
qed

lemma node_room:
  assumes "node_recs lim p recs"
  shows "LeafPageIsFull p k v \<longleftrightarrow> page_space p < length k + length v + 12"
    "InnerPageIsFull p k \<longleftrightarrow> page_space p < length k + 12"
  using node_recs_bounds [OF assms] sub32_diff [of "free_start p" "free_end p"]
  by (auto simp: LeafPageIsFull_def InnerPageIsFull_def)

lemma PageInsertKvpair_put:
  assumes "node_leaf p es" "sorted_wrt (<) (map fst es)" "k \<noteq> []"
    "length k + length v + 12 \<le> page_space p"
  shows "\<exists>p'. PageInsertKvpair p k v = Inr p' \<and> node_leaf p' (leaf_put es k v) \<and> same_node p p' \<and>
    page_space p - (length k + length v + 12) \<le> page_space p' \<and>
    (k \<notin> fst ` set es \<longrightarrow> p' = put_rec p (lb (map fst es) k) (leaf_rec (k, v)))"
proof -
  let ?i = "lb (map fst es) k"
  have recs: "node_recs PAGE_SIZE p (map leaf_rec es)" and leaf: "is_leaf p"
    using assms(1) by (simp_all add: node_leaf_def)
  note B = node_recs_bounds [OF recs]
  have full: "\<not> LeafPageIsFull p k v" using node_room(1) [OF recs] assms(4) by simp
  have off: "(if item_num p > 0 then lower_bound p k else 0) = ?i"
    using lower_bound_lb [OF node_leaf_keys [OF assms(1)] assms(2)] node_leaf_item_num [OF assms(1)]
    by (cases es) auto
  have pivot: "PageReadKeyAtOffset p ?i = k \<longleftrightarrow> k \<in> set (map fst es)"
    unfolding PageReadKeyAtOffset_eq by (rule pivot_at_lb [OF node_leaf_keys [OF assms(1)] assms(2,3)])
  show ?thesis
  proof (cases "hit (map fst es) k")
    case False
    then have fresh: "k \<notin> set (map fst es)" using hit_iff [OF assms(2)] by blast
    then have ne: "PageReadKeyAtOffset p ?i \<noteq> k" using pivot by simp
    have "(page_write_leafEntry_at ?i p k v)\<lparr>is_dirty := True, item_num := item_num p + 1\<rparr>
        = put_rec p ?i (leaf_rec (k, v))"
      using B assms(4) by (intro page_write_leafEntry_raw) auto
    moreover have "item_num (page_write_leafEntry_at ?i p k v) = item_num p"
      by (simp add: page_write_leafEntry_at_def Let_def)
    ultimately have code: "PageInsertKvpair p k v = Inr (put_rec p ?i (leaf_rec (k, v)))"
      using full off ne insert_kvpair_at_shift [of ?i p k v] by (simp add: PageInsertKvpair_def Let_def)
    have "node_recs PAGE_SIZE (put_rec p ?i (leaf_rec (k, v))) (ins_at ?i (leaf_rec (k, v)) (map leaf_rec es))"
      using assms(4) lb_le [of "map fst es" k] by (intro node_recs_put [OF recs]) auto
    then have "node_leaf (put_rec p ?i (leaf_rec (k, v))) (leaf_put es k v)"
      using False leaf by (auto simp: node_leaf_def leaf_put_def Let_def map_ins_at)
    then show ?thesis using code by simp
  next
    case True
    have i: "?i < length es" "fst (es ! ?i) = k" using hit_nth [OF True] by (auto simp: prod_eq_iff)
    have mem: "k \<in> fst ` set es" using True hit_iff [OF assms(2), of k] by simp
    then have key: "PageReadKeyAtOffset p ?i = k" "?i < item_num p" "k \<in> fst ` set es"
      using pivot node_leaf_item_num [OF assms(1)] i(1) by simp_all
    have small: "length v < 2 ^ 32" using assms(4) B by simp
    note U = update_val_at_node [OF assms(1) i(1) small]
    show ?thesis
    proof (cases "length v = length (snd (es ! ?i))")
      case same: True
      let ?p = "(snd (update_val_at ?i p v))\<lparr>is_dirty := True\<rparr>"
      have "PageInsertKvpair p k v = Inr ?p"
        using full off key U(1) same by (simp add: PageInsertKvpair_def Let_def)
      moreover have "node_leaf ?p (leaf_put es k v)"
        using U(2) [OF same] True i by (auto simp: leaf_put_def Let_def)
      moreover have "same_node p ?p" "page_space ?p = page_space p"
        using U(4,5) by (simp_all add: same_node_def)
      ultimately show ?thesis using key(3) by auto
    next
      case diff: False
      let ?d = "p\<lparr>is_dirty := True\<rparr>"
      have "(insert_kvpair_at ?i ?d k v)\<lparr>is_dirty := True\<rparr> = replace_rec ?d ?i (leaf_rec (k, v))"
        using key B assms(4)
        by (intro insert_kvpair_at_replace) simp_all
      then have "PageInsertKvpair p k v = Inr (replace_rec ?d ?i (leaf_rec (k, v)))"
        using full off key U(1,3) diff by (simp add: PageInsertKvpair_def Let_def)
      moreover have "node_recs PAGE_SIZE (replace_rec ?d ?i (leaf_rec (k, v)))
          ((map leaf_rec es)[?i := leaf_rec (k, v)])"
        using assms(4) i recs by (intro node_recs_replace) (auto simp: node_recs_def)
      ultimately show ?thesis
        using True leaf key(3) by (auto simp: node_leaf_def leaf_put_def Let_def map_update
            replace_rec_def same_node_def)
    qed
  qed
qed

section \<open>Space\<close>

text \<open>Records that do not overlap fit in the space between \<^verbatim>\<open>free_end_\<close> and the limit.\<close>

lemma slotted_total:
  assumes "slotted lim m fe recs ps"
  shows "sum_list (map length recs) \<le> lim - fe"
proof -
  note D = slottedD [OF assms]
  let ?A = "\<lambda>i. {ps ! i ..< ps ! i + length (recs ! i)}"
  have "sum_list (map length recs) = (\<Sum>i<length recs. length (recs ! i))"
    by (simp add: sum_list_sum_nth atLeast0LessThan)
  also have "\<dots> = (\<Sum>i<length recs. card (?A i))" by simp
  also have "\<dots> = card (\<Union>i<length recs. ?A i)"
  proof (rule card_UN_disjoint [symmetric])
    show "\<forall>i\<in>{..<length recs}. \<forall>j\<in>{..<length recs}. i \<noteq> j \<longrightarrow> ?A i \<inter> ?A j = {}"
    proof (intro ballI impI)
      fix i j assume "i \<in> {..<length recs}" "j \<in> {..<length recs}" "i \<noteq> j"
      then have "ps ! i + length (recs ! i) \<le> ps ! j \<or> ps ! j + length (recs ! j) \<le> ps ! i"
        using D(9) [of i j] by simp
      then show "?A i \<inter> ?A j = {}" by auto
    qed
  qed auto
  also have "\<dots> \<le> card {fe ..< lim}"
  proof (rule card_mono)
    show "(\<Union>i<length recs. ?A i) \<subseteq> {fe ..< lim}"
    proof
      fix x assume "x \<in> (\<Union>i<length recs. ?A i)"
      then obtain i where "i < length recs" "ps ! i \<le> x" "x < ps ! i + length (recs ! i)" by auto
      then show "x \<in> {fe ..< lim}" using D(6,7) [of i] by simp
    qed
  qed simp
  finally show ?thesis by simp
qed

lemma node_recs_total:
  assumes "node_recs lim p recs"
  shows "sum_list (map (\<lambda>r. length r + 4) recs) + PgHdSize + page_space p \<le> lim"
proof -
  obtain ps where D: "PgHdSize + 4 * length recs \<le> free_start p" "free_start p \<le> free_end p"
    "slotted lim (data p) (free_end p) recs ps"
    using assms by (rule node_recsE)
  have "sum_list (map (\<lambda>r. length r + 4) recs) = sum_list (map length recs) + 4 * length recs"
    by (induction recs) auto
  then show ?thesis using slotted_total [OF D(3)] slottedD(3) [OF D(3)] D(1,2) by linarith
qed

section \<open>Leaf split\<close>

lemma copy_kvpairs_append:
  assumes "node_leaf dest ds" "sorted_wrt (<) (map fst (ds @ map (decode_kvpair src) offs))"
    "\<forall>e \<in> set (map (decode_kvpair src) offs). fst e \<noteq> []"
    "sum_list (map (\<lambda>e. length (leaf_rec e) + 4) (map (decode_kvpair src) offs)) \<le> page_space dest"
  shows "\<exists>d. copy_kvpairs src dest offs = Inr d \<and> node_leaf d (ds @ map (decode_kvpair src) offs) \<and>
    same_node dest d"
  using assms
proof (induction offs arbitrary: dest ds)
  case (Cons off offs)
  let ?e = "decode_kvpair src off"
  have srt: "sorted_wrt (<) (map fst ds)" "\<forall>x \<in> set (map fst ds). x < fst ?e"
    using Cons.prems(2) by (auto simp: sorted_wrt_append)
  have l: "lb (map fst ds) (fst ?e) = length ds"
    using srt lb_last [of "map fst ds" "fst ?e"] by (cases "ds = []") (auto simp: last_map)
  have fresh: "fst ?e \<notin> fst ` set ds" using srt(2) by auto
  have put: "leaf_put ds (fst ?e) (snd ?e) = ds @ [?e]"
    using l by (simp add: leaf_put_def Let_def ins_at_def)
  obtain d where d: "PageInsertKvpair dest (fst ?e) (snd ?e) = Inr d" "node_leaf d (ds @ [?e])"
    "same_node dest d" "page_space dest - (length (fst ?e) + length (snd ?e) + 12) \<le> page_space d"
    using PageInsertKvpair_put [OF Cons.prems(1) srt(1), of "fst ?e" "snd ?e"] Cons.prems(3,4) put by auto
  have "sum_list (map (\<lambda>e. length (leaf_rec e) + 4) (map (decode_kvpair src) offs)) \<le> page_space d"
    using d(4) Cons.prems(4) by simp
  with Cons.IH [OF d(2)] Cons.prems(2,3) obtain d' where
    "copy_kvpairs src d offs = Inr d'" "node_leaf d' ((ds @ [?e]) @ map (decode_kvpair src) offs)"
    "same_node d d'"
    by auto
  then show ?case using d(1,3) same_node_trans [of dest d d'] by auto
qed simp

lemma sum_list_take_le: "sum_list (map f (take n xs)) \<le> (sum_list (map f xs) :: nat)"
  by (metis append_take_drop_id le_add1 map_append sum_list_append)

lemma sum_list_drop_le: "sum_list (map f (drop n xs)) \<le> (sum_list (map f xs) :: nat)"
  by (metis append_take_drop_id le_add2 map_append sum_list_append)

lemma reset_content_leaf: "is_leaf p \<Longrightarrow> node_leaf (reset_content p) []" "page_space (reset_content p) = 8152"
  "same_node p (reset_content p)"
  by (auto simp: node_leaf_def node_recs_def reset_content_def same_node_def)

lemma LeafPageSplit_halves:
  assumes p: "node_leaf p es" and srt: "sorted_wrt (<) (map fst es)" and ne: "[] \<notin> fst ` set es"
    and new: "node_leaf q []" "page_space q = 8152"
  shows "\<exists>p' q'. LeafPageSplit p q = Inr (p', q') \<and> node_leaf p' (take (length es div 2) es) \<and>
    node_leaf q' (drop (length es div 2) es) \<and> same_node p p' \<and> same_node q q'"
proof -
  let ?h = "length es div 2"
  let ?p = "p\<lparr>item_num := ?h\<rparr>"
  have n: "item_num p = length es" and leaf: "is_leaf p"
    using p node_leaf_item_num by (auto simp: node_leaf_def)
  have h: "length es - (length es - ?h) = ?h" by simp
  have dec: "decode_kvpair ?p i = es ! i" if "i < length es" for i
    using node_leaf_decode [OF p that] decode_cong(1) [of ?p p] by simp
  have right: "map (decode_kvpair ?p) [?h ..< length es] = drop ?h es"
    and left: "map (decode_kvpair ?p) [0 ..< ?h] = take ?h es"
    using dec by (auto intro: nth_equalityI)
  have keys: "fst e \<noteq> []" if "e \<in> set es" for e using ne that by force
  have total: "sum_list (map (\<lambda>e. length (leaf_rec e) + 4) es) \<le> 8152"
    using node_recs_total [of PAGE_SIZE p "map leaf_rec es"] p by (simp add: node_leaf_def comp_def)
  obtain q' where q': "copy_kvpairs ?p q [?h ..< length es] = Inr q'" "node_leaf q' (drop ?h es)" "same_node q q'"
  proof -
    have "sorted_wrt (<) (map fst (drop ?h es))" using sorted_wrt_drop [OF srt, of ?h] by (simp add: drop_map)
    moreover have "\<forall>e \<in> set (drop ?h es). fst e \<noteq> []" using keys by (auto dest: in_set_dropD)
    moreover have "sum_list (map (\<lambda>e. length (leaf_rec e) + 4) (drop ?h es)) \<le> page_space q"
      using total new(2) sum_list_drop_le [of "\<lambda>e. length (leaf_rec e) + 4" ?h es] by linarith
    ultimately show ?thesis
      using copy_kvpairs_append [OF new(1), of ?p "[?h ..< length es]"] that unfolding right by auto
  qed
  obtain p' where p': "copy_kvpairs ?p (reset_content ?p) [0 ..< ?h] = Inr p'"
    "node_leaf p' (take ?h es)" "same_node (reset_content ?p) p'"
  proof -
    have "sorted_wrt (<) (map fst (take ?h es))" using sorted_wrt_take [OF srt, of ?h] by (simp add: take_map)
    moreover have "\<forall>e \<in> set (take ?h es). fst e \<noteq> []" using keys by (auto dest: in_set_takeD)
    moreover have "sum_list (map (\<lambda>e. length (leaf_rec e) + 4) (take ?h es)) \<le> page_space (reset_content ?p)"
      unfolding reset_content_leaf(2)
      using total sum_list_take_le [of "\<lambda>e. length (leaf_rec e) + 4" ?h es] by linarith
    ultimately show ?thesis
      using copy_kvpairs_append [OF reset_content_leaf(1), of ?p ?p "[0 ..< ?h]"] that leaf unfolding left by auto
  qed
  have "same_node p p'" using p'(3) by (simp add: same_node_def reset_content_def)
  then show ?thesis using q' p'(1,2) n h by (simp add: LeafPageSplit_def Let_def)
qed

section \<open>Inner pages\<close>

lemma node_inner_put:
  assumes "node_inner p c0 es" "off \<le> length es" "length (index_rec e) + 4 \<le> page_space p" "snd e < 2 ^ 32"
  shows "node_inner (put_rec p off (index_rec e)) c0 (ins_at off e es)"
proof -
  have recs: "node_recs (PAGE_SIZE - 4) p (map index_rec es)" using assms(1) by (simp add: node_inner_def)
  obtain ps where D: "item_num p = length es" "PgHdSize + 4 * length es \<le> free_start p"
    "slotted (PAGE_SIZE - 4) (data p) (free_end p) (map index_rec es) ps"
    using recs by (auto elim: node_recsE)
  have "bytes_at (insert_rec (data p) (free_end p) (length es) off (index_rec e)) (PAGE_SIZE - 4) 4
      = bytes_at (data p) (PAGE_SIZE - 4) 4"
    using assms(2,3) D(2) slottedD(3) [OF D(3)] by (intro insert_rec_above) auto
  then have "read32 (data (put_rec p off (index_rec e))) (PAGE_SIZE - 4) = c0"
    using assms(1) D(1) by (simp add: node_inner_def put_rec_def read32_def)
  then show ?thesis
    using assms node_recs_put [OF recs, of off "index_rec e"]
    by (auto simp: node_inner_def map_ins_at set_ins_at)
qed

lemma PageInsertPivotPair_put:
  assumes "node_inner p c0 es" "sorted_wrt (<) (map fst es)" "es \<noteq> []" "length k + 12 \<le> page_space p"
  shows "PageInsertPivotPair p k c = Inr (put_rec p (lb (map fst es) k) (index_rec (k, c)))"
proof -
  let ?i = "lb (map fst es) k"
  have recs: "node_recs (PAGE_SIZE - 4) p (map index_rec es)" using assms(1) by (simp add: node_inner_def)
  note B = node_recs_bounds [OF recs]
  have "(page_write_indexEntry_at ?i p k c)\<lparr>is_dirty := True, item_num := item_num p + 1\<rparr>
      = put_rec p ?i (index_rec (k, c))"
    using B assms(4) by (intro page_write_indexEntry_raw) auto
  moreover have "item_num (page_write_indexEntry_at ?i p k c) = item_num p"
    by (simp add: page_write_indexEntry_at_def Let_def)
  moreover have "lower_bound p k = ?i"
    using lower_bound_lb [OF node_inner_keys [OF assms(1)] assms(2)] assms(3) by simp
  ultimately show ?thesis
    using node_room(2) [OF recs] assms(3,4) node_inner_item_num [OF assms(1)]
    by (simp add: PageInsertPivotPair_def insert_pivotpair_at_eq Let_def)
qed

text \<open>An inner page just after \<^verbatim>\<open>PageInit\<close> or after its content was dropped.\<close>

definition blank_inner :: "page \<Rightarrow> bool" where
  "blank_inner p \<longleftrightarrow> \<not> is_leaf p \<and> item_num p = 0 \<and> free_start p = PgHdSize \<and> free_end p = PAGE_SIZE"

lemma PageInsertFirstPivotPair_first:
  assumes "blank_inner p" "length k + 12 \<le> 8148" "l < 2 ^ 32" "r < 2 ^ 32"
  shows "\<exists>p'. PageInsertFirstPivotPair p k l r = Inr p' \<and> node_inner p' l [(k, r)] \<and> same_node p p' \<and>
    page_space p' = 8148 - (length k + 12)"
proof -
  let ?p = "p\<lparr>data := write32 (data p) (PAGE_SIZE - 4) l, free_end := PAGE_SIZE - 4\<rparr>"
  have b: "\<not> is_leaf p" "item_num p = 0" "free_start p = PgHdSize" "free_end p = PAGE_SIZE"
    using assms(1) by (simp_all add: blank_inner_def)
  have "node_inner ?p l []"
    using b assms(3) slotted_empty [of "PAGE_SIZE - 4" "PAGE_SIZE - 4"]
    by (auto simp: node_inner_def node_recs_def)
  from node_inner_put [OF this, of 0 "(k, r)"]
  have "node_inner (put_rec ?p 0 (index_rec (k, r))) l [(k, r)]"
    using assms(2,4) b by (simp add: ins_at_def)
  moreover have "(page_write_indexEntry_at 0 ?p k r)\<lparr>is_dirty := True, item_num := item_num ?p + 1\<rparr>
      = put_rec ?p 0 (index_rec (k, r))"
    using b assms(2) by (intro page_write_indexEntry_raw) auto
  moreover have "sub32 PAGE_SIZE 4 = PAGE_SIZE - 4" by (simp add: sub32_diff)
  ultimately show ?thesis
    using b by (simp add: PageInsertFirstPivotPair_def insert_pivotpair_at_eq Let_def same_node_def put_rec_def)
qed

lemma copy_pivots_append:
  assumes "node_inner dest c0 ds" "ds \<noteq> []"
    "sorted_wrt (<) (map fst (ds @ map (decode_pivotpair src) offs))"
    "\<forall>e \<in> set (map (decode_pivotpair src) offs). snd e < 2 ^ 32"
    "sum_list (map (\<lambda>e. length (index_rec e) + 4) (map (decode_pivotpair src) offs)) \<le> page_space dest"
  shows "\<exists>d. copy_pivots src dest offs = Inr d \<and> node_inner d c0 (ds @ map (decode_pivotpair src) offs) \<and>
    same_node dest d"
  using assms
proof (induction offs arbitrary: dest ds)
  case (Cons off offs)
  let ?e = "decode_pivotpair src off"
  let ?d = "put_rec dest (length ds) (index_rec ?e)"
  have srt: "sorted_wrt (<) (map fst ds)" "\<forall>x \<in> set (map fst ds). x < fst ?e"
    using Cons.prems(3) by (auto simp: sorted_wrt_append)
  have l: "lb (map fst ds) (fst ?e) = length ds"
    using srt lb_last [of "map fst ds" "fst ?e"] Cons.prems(2) by (auto simp: last_map)
  have room: "length (fst ?e) + 12 \<le> page_space dest" using Cons.prems(5) by simp
  have step: "PageInsertPivotPair dest (fst ?e) (snd ?e) = Inr ?d"
    using PageInsertPivotPair_put [OF Cons.prems(1) srt(1) Cons.prems(2) room, of "snd ?e"] l by simp
  have d: "node_inner ?d c0 (ds @ [?e])"
    using node_inner_put [OF Cons.prems(1) order_refl, of ?e] room Cons.prems(4) by (simp add: ins_at_def)
  have "sum_list (map (\<lambda>e. length (index_rec e) + 4) (map (decode_pivotpair src) offs)) \<le> page_space ?d"
    using Cons.prems(5) by simp
  with Cons.IH [OF d] Cons.prems(3,4) obtain d' where
    "copy_pivots src ?d offs = Inr d'" "node_inner d' c0 ((ds @ [?e]) @ map (decode_pivotpair src) offs)"
    "same_node ?d d'"
    by auto
  then show ?case using step same_node_trans [of dest ?d d'] by auto
qed simp

lemma rebuild_inner_pivots:
  assumes "blank_inner dest" "xs = map (decode_pivotpair src) offs" "xs \<noteq> []" "c0 < 2 ^ 32"
    "sorted_wrt (<) (map fst xs)" "\<forall>e \<in> set xs. snd e < 2 ^ 32"
    "sum_list (map (\<lambda>e. length (index_rec e) + 4) xs) \<le> 8148"
  shows "\<exists>d. rebuild_inner src dest c0 offs = Inr d \<and> node_inner d c0 xs \<and> same_node dest d"
proof -
  obtain off rest where offs: "offs = off # rest" using assms(2,3) by (cases offs) auto
  let ?e = "decode_pivotpair src off"
  have xs: "xs = ?e # map (decode_pivotpair src) rest" using assms(2) offs by simp
  obtain d where d: "PageInsertFirstPivotPair dest (fst ?e) c0 (snd ?e) = Inr d" "node_inner d c0 [?e]"
    "same_node dest d" "page_space d = 8148 - (length (fst ?e) + 12)"
    using PageInsertFirstPivotPair_first [OF assms(1), of "fst ?e" c0 "snd ?e"] assms(4,6,7) xs by auto
  have "sum_list (map (\<lambda>e. length (index_rec e) + 4) (map (decode_pivotpair src) rest)) \<le> page_space d"
    using assms(7) d(4) xs by simp
  with copy_pivots_append [OF d(2), of src rest] assms(5,6) obtain d' where
    "copy_pivots src d rest = Inr d'" "node_inner d' c0 xs" "same_node d d'"
    using xs by auto
  then show ?thesis
    using d(1,3) same_node_trans [of dest d d'] by (simp add: rebuild_inner_def offs)
qed

lemma blank_reset: "\<not> is_leaf p \<Longrightarrow> blank_inner (reset_content p)"
  by (simp add: blank_inner_def reset_content_def)

lemma PageReadChildAt_nat: "\<not> is_leaf p \<Longrightarrow> PageReadChildAt p (int i) = Inr (snd (decode_pivotpair p i))"
  by (simp add: PageReadChildAt_def)

lemma InnerPageSplit_halves:
  assumes p: "node_inner p c0 es" and srt: "sorted_wrt (<) (map fst es)" and n4: "4 \<le> length es"
    and new: "blank_inner q" and h: "h = length es div 2"
  shows "\<exists>p' q'. InnerPageSplit p q = Inr (p', q') \<and> node_inner p' c0 (take (h - 1) es) \<and>
    node_inner q' (snd (es ! (h - 1))) (drop h es) \<and> same_node p p' \<and> same_node q q'"
proof -
  let ?p = "p\<lparr>item_num := h - 1\<rparr>"
  have n: "item_num p = length es" and leaf: "\<not> is_leaf p"
    using p node_inner_item_num by (auto simp: node_inner_def)
  have hb: "1 \<le> h - 1" "h < length es" "h < 2 ^ 32"
  proof -
    show "1 \<le> h - 1" "h < length es" using h n4 by linarith+
    have "4 * length es \<le> PAGE_SIZE"
      using p by (auto simp: node_inner_def node_recs_def dest: slottedD(2,3))
    then show "h < 2 ^ 32" using \<open>h < length es\<close> by simp
  qed
  have ci: "snd e < 2 ^ 32" if "e \<in> set es" for e using p that by (auto simp: node_inner_def)
  have c0: "c0 < 2 ^ 32" using p read32_less [of "data p" "PAGE_SIZE - 4"] by (auto simp: node_inner_def)
  have dec: "decode_pivotpair ?p i = es ! i" if "i < length es" for i
    using node_inner_decode [OF p that] decode_cong(2) [of ?p p] by simp
  have right: "drop h es = map (decode_pivotpair ?p) [h ..< length es]"
    and left: "take (h - 1) es = map (decode_pivotpair ?p) [0 ..< h - 1]"
    using dec hb by (auto intro: nth_equalityI)
  have total: "sum_list (map (\<lambda>e. length (index_rec e) + 4) es) \<le> 8148"
    using node_recs_total [of "PAGE_SIZE - 4" p "map index_rec es"] p by (simp add: node_inner_def comp_def)
  have rd: "drop h es \<noteq> []" "sorted_wrt (<) (map fst (drop h es))" "\<forall>e \<in> set (drop h es). snd e < 2 ^ 32"
    "sum_list (map (\<lambda>e. length (index_rec e) + 4) (drop h es)) \<le> 8148"
    using hb sorted_wrt_drop [OF srt, of h] ci in_set_dropD [of _ h es] total
      sum_list_drop_le [of "\<lambda>e. length (index_rec e) + 4" h es] by (auto simp: drop_map)
  have ld: "take (h - 1) es \<noteq> []" "sorted_wrt (<) (map fst (take (h - 1) es))"
    "\<forall>e \<in> set (take (h - 1) es). snd e < 2 ^ 32"
    "sum_list (map (\<lambda>e. length (index_rec e) + 4) (take (h - 1) es)) \<le> 8148"
    using hb sorted_wrt_take [OF srt, of "h - 1"] ci in_set_takeD [of _ "h - 1" es] total
      sum_list_take_le [of "\<lambda>e. length (index_rec e) + 4" "h - 1" es] by (auto simp: take_map)
  have "snd (es ! (h - 1)) < 2 ^ 32" using hb by (intro ci nth_mem) simp
  from rebuild_inner_pivots [OF new right rd(1) this rd(2-4)]
  obtain q' where q': "rebuild_inner ?p q (snd (es ! (h - 1))) [h ..< length es] = Inr q'"
    "node_inner q' (snd (es ! (h - 1))) (drop h es)" "same_node q q'" by blast
  have "blank_inner (reset_content ?p)" using leaf by (intro blank_reset) simp
  from rebuild_inner_pivots [OF this left ld(1) c0 ld(2-4)]
  obtain p' where p': "rebuild_inner ?p (reset_content ?p) c0 [0 ..< h - 1] = Inr p'"
    "node_inner p' c0 (take (h - 1) es)" "same_node (reset_content ?p) p'" by blast
  have li: "int (length es) - int (length es - h) - 1 = int (h - 1)" "nat (int (h - 1) mod 2 ^ 32) = h - 1"
    "nat (int (h - 1) + 1) = h"
    using hb by auto
  have child: "PageReadChildAt ?p (int (h - 1)) = Inr (snd (es ! (h - 1)))"
    using PageReadChildAt_nat [of ?p "h - 1"] leaf dec [of "h - 1"] hb(2) by simp
  have tail: "decode_int32_at ?p (PAGE_SIZE - 4) = c0"
    using p by (simp add: decode_int32_at_def node_inner_def)
  have cnt: "item_num q' = length es - h" using node_inner_item_num [OF q'(2)] by simp
  have "InnerPageSplit p q = Inr (p', q')"
    unfolding InnerPageSplit_def Let_def n h [symmetric] li child bind_result_simps q'(1) cnt tail nat_int p'(1)
    by simp
  moreover have "same_node p p'" using p'(3) by (simp add: same_node_def reset_content_def)
  ultimately show ?thesis using q'(2,3) p'(2) by blast
qed

text \<open>The child a search descends into: the pairs hold the right child of each pivot.\<close>

definition route :: "nat \<Rightarrow> (slice \<times> nat) list \<Rightarrow> slice \<Rightarrow> nat" where
  "route c0 es k = (if lb (map fst es) k = 0 then c0 else snd (es ! (lb (map fst es) k - 1)))"

lemma PageReadChildAt_route:
  assumes "node_inner p c0 es" "sorted_wrt (<) (map fst es)" "es \<noteq> []"
  shows "PageReadChildAt p (PageLowerBound p k) = Inr (route c0 es k)"
proof -
  have l: "lower_bound p k = lb (map fst es) k"
    using lower_bound_lb [OF node_inner_keys [OF assms(1)] assms(2)] assms(3) by simp
  have "lb (map fst es) k - 1 < length es" using lb_le [of "map fst es" k] assms(3) by (cases es) auto
  then show ?thesis
    using l assms(1) node_inner_decode [OF assms(1), of "lb (map fst es) k - 1"]
    by (auto simp: PageReadChildAt_def PageLowerBound_def route_def node_inner_def decode_int32_at_def
        Let_def nat_diff_distrib)
qed

section \<open>Routing across a split\<close>

lemma takeWhile_take: "takeWhile P (take m xs) = take m (takeWhile P xs)"
  by (induction xs arbitrary: m) (auto simp: take_Cons' split: nat.splits)

lemma lb_take: "lb (take m ks) k = min m (lb ks k)"
  by (simp add: lb_def takeWhile_take min.commute)

lemma lb_drop:
  assumes "sorted_wrt (<) ks" "m \<le> length ks"
  shows "lb (drop m ks) k = lb ks k - m"
proof (cases "m \<le> lb ks k")
  case True
  have "\<forall>x \<in> set (take m ks). x < k"
    using True assms(2) nth_less_lb [of _ ks k] by (auto simp: in_set_conv_nth)
  then have "takeWhile (\<lambda>x. x < k) ks = take m ks @ takeWhile (\<lambda>x. x < k) (drop m ks)"
    using takeWhile_append2 [of "take m ks" "\<lambda>x. x < k" "drop m ks"] by simp
  then show ?thesis using assms(2) by (simp add: lb_def)
next
  case False
  have "lb (drop m ks) k = 0"
  proof (cases "m < length ks")
    case True
    then have "k \<le> ks ! m" using nth_ge_lb [OF assms(1), of k m] False by simp
    then show ?thesis using True by (simp add: lb_def Cons_nth_drop_Suc [symmetric])
  qed (simp add: lb_def)
  with False show ?thesis by simp
qed

lemma route_split:
  assumes srt: "sorted_wrt (<) (map fst es)" and h: "1 \<le> h" "h \<le> length es"
  shows "route c0 es k =
    (if k \<le> fst (es ! (h - 1)) then route c0 (take (h - 1) es) k
     else route (snd (es ! (h - 1))) (drop h es) k)"
proof -
  let ?l = "lb (map fst es) k"
  have lt: "fst (es ! (h - 1)) < k \<longleftrightarrow> h - 1 < ?l"
    using less_lb_iff [OF srt, of "h - 1" k] h by simp
  show ?thesis
  proof (cases "k \<le> fst (es ! (h - 1))")
    case True
    then have "?l \<le> h - 1" using lt by (auto simp: not_less)
    moreover have "lb (map fst (take (h - 1) es)) k = ?l"
      using calculation lb_take [of "h - 1" "map fst es" k] by (simp add: take_map)
    ultimately show ?thesis using True h by (auto simp: route_def)
  next
    case False
    then have l: "h \<le> ?l" using lt h by auto
    have "lb (map fst (drop h es)) k = ?l - h"
      using lb_drop [OF srt, of h k] h by (simp add: drop_map)
    moreover have "?l \<le> length es" using lb_le [of "map fst es" k] by simp
    ultimately show ?thesis using False l h by (auto simp: route_def)
  qed
qed

text \<open>Installing a separator: keys between it and the next pivot now go to the new child.\<close>

lemma takeWhile_ins_at:
  assumes "sorted_wrt (<) ks" "s \<notin> set ks"
  shows "lb (ins_at (lb ks s) s ks) k =
    (if lb ks k < lb ks s then lb ks k else if lb ks k = lb ks s then (if s < k then Suc (lb ks k) else lb ks k)
     else Suc (lb ks k))"
proof -
  let ?i = "lb ks s"
  have t: "lb (take ?i ks) k = min ?i (lb ks k)" by (rule lb_take)
  have d: "lb (drop ?i ks) k = lb ks k - ?i" by (rule lb_drop [OF assms(1) lb_le])
  show ?thesis
  proof (cases "lb ks k < ?i")
    case True
    then have "takeWhile (\<lambda>x. x < k) (take ?i ks @ s # drop ?i ks) = takeWhile (\<lambda>x. x < k) (take ?i ks)"
      using nth_lb [of ks k] True lb_le [of ks s]
      by (intro takeWhile_append1 [of "ks ! lb ks k"]) (auto simp: in_set_conv_nth not_less)
    then show ?thesis using True t by (simp add: lb_def ins_at_def)
  next
    case False
    then have "\<forall>x \<in> set (take ?i ks). x < k"
      using nth_less_lb [of _ ks k] lb_le [of ks s] by (auto simp: in_set_conv_nth)
    then have "lb (ins_at ?i s ks) k = ?i + lb (s # drop ?i ks) k"
      using lb_le [of ks s] by (simp add: lb_def ins_at_def takeWhile_append2 del: takeWhile.simps)
    moreover have "s < k" if "?i < lb ks k"
      using that nth_lb [of ks s] nth_less_lb [OF that] lb_le [of ks k] by (simp add: le_less_trans)
    ultimately show ?thesis using False d by (auto simp: lb_def)
  qed
qed

lemma route_new_child:
  assumes "sorted_wrt (<) (map fst es)" "s \<notin> fst ` set es" and i: "i = lb (map fst es) s"
  shows "route c0 (ins_at i (s, r) es) k =
    (if lb (map fst es) k = i \<and> s < k then r else route c0 es k)"
proof -
  let ?l = "lb (map fst es) k"
  have le: "i \<le> length es" "?l \<le> length es" using lb_le [of "map fst es"] i by auto
  have "lb (map fst (ins_at i (s, r) es)) k =
      (if ?l < i then ?l else if ?l = i then (if s < k then Suc ?l else ?l) else Suc ?l)"
    using takeWhile_ins_at [OF assms(1), of s k] assms(2) i by (simp add: map_ins_at)
  then show ?thesis
    using le by (auto simp: route_def nth_ins_at)
qed

section \<open>Properties\<close>

lemma leaf_page_node: "leaf_page p es \<Longrightarrow> node_leaf p es"
  using page_recs_free(1) [of p "map leaf_rec es"]
  by (auto simp: leaf_page_def node_leaf_def page_recs_def node_recs_def)

lemma separator_leaf:
  assumes p: "node_leaf p es" and srt: "sorted_wrt (<) (map fst es)" and n: "2 \<le> length es"
    and h: "h = length es div 2"
  shows "GetLeafPageSplitSep p = fst (es ! (h - 1))"
    "\<forall>e \<in> set (take h es). fst e \<le> fst (es ! (h - 1))" "\<forall>e \<in> set (drop h es). fst (es ! (h - 1)) < fst e"
proof -
  have hb: "1 \<le> h" "h < length es" using n h by linarith+
  have "4 * length es \<le> PAGE_SIZE"
    using p by (auto simp: node_leaf_def node_recs_def dest: slottedD(2,3))
  then have "sub32 h 1 = h - 1" using hb by (intro sub32_diff) simp_all
  then show "GetLeafPageSplitSep p = fst (es ! (h - 1))"
    using node_leaf_keys [OF p] node_leaf_item_num [OF p] hb h
    by (simp add: GetLeafPageSplitSep_def Let_def PageReadKeyAtOffset_eq page_keys_def)
  have mono: "fst (es ! i) \<le> fst (es ! j)" if "i \<le> j" "j < length es" for i j
    using that sorted_nth_less [OF srt, of i j] by (cases "i = j") auto
  show "\<forall>e \<in> set (take h es). fst e \<le> fst (es ! (h - 1))"
  proof
    fix e assume "e \<in> set (take h es)"
    then obtain i where "i < h" "e = es ! i" unfolding in_set_conv_nth by auto
    then show "fst e \<le> fst (es ! (h - 1))" using mono [of i "h - 1"] hb by simp
  qed
  show "\<forall>e \<in> set (drop h es). fst (es ! (h - 1)) < fst e"
  proof
    fix e assume "e \<in> set (drop h es)"
    then obtain i where "i < length (drop h es)" "e = drop h es ! i" unfolding in_set_conv_nth by blast
    then have "h + i < length es" "e = es ! (h + i)" by simp_all
    then show "fst (es ! (h - 1)) < fst e" using sorted_nth_less [OF srt, of "h - 1" "h + i"] hb by simp
  qed
qed

lemma separator_inner:
  assumes p: "node_inner p c0 es" and n: "2 \<le> length es" and h: "h = length es div 2"
  shows "GetInnerPageSplitSep p = fst (es ! (h - 1))"
proof -
  have hb: "1 \<le> h" "h < length es" using n h by linarith+
  have "4 * length es \<le> PAGE_SIZE"
    using p by (auto simp: node_inner_def node_recs_def dest: slottedD(2,3))
  then have "sub32 h 1 = h - 1" using hb by (intro sub32_diff) simp_all
  then show ?thesis
    using node_inner_keys [OF p] node_inner_item_num [OF p] hb h
    by (simp add: GetInnerPageSplitSep_def Let_def PageReadKeyAtOffset_eq page_keys_def)
qed

text \<open>An inner page with four pivots, on which the properties are exercised.\<close>

definition four_inner :: page where
  "four_inner =
     put_rec (put_rec (put_rec (put_rec
       ((PageInit zero_page 9)\<lparr>data := write32 (data zero_page) 8188 1, free_end := 8188\<rparr>)
       0 (index_rec ([1], 2))) 1 (index_rec ([2], 3))) 2 (index_rec ([3], 4))) 3 (index_rec ([4], 5))"

lemma node_inner_append:
  "node_inner p c0 es \<Longrightarrow> n = length es \<Longrightarrow> length (index_rec e) + 4 \<le> page_space p \<Longrightarrow> snd e < 2 ^ 32 \<Longrightarrow>
    node_inner (put_rec p n (index_rec e)) c0 (es @ [e])"
  using node_inner_put [of p c0 es n e] by (simp add: ins_at_def)

lemma four_inner: "node_inner four_inner 1 [([1], 2), ([2], 3), ([3], 4), ([4], 5)]"
proof -
  let ?b = "(PageInit zero_page 9)\<lparr>data := write32 (data zero_page) 8188 1, free_end := 8188\<rparr>"
  have sp: "page_space ?b = 8148" by (simp add: PageInit_def)
  have "node_inner ?b 1 []"
    using slotted_empty [of 8188 8188] by (auto simp: node_inner_def node_recs_def PageInit_def)
  from node_inner_append [OF this, of 0 "([1], 2)"]
  have "node_inner (put_rec ?b 0 (index_rec ([1], 2))) 1 [([1], 2)]" using sp by simp
  from node_inner_append [OF this, of 1 "([2], 3)"]
  have "node_inner (put_rec (put_rec ?b 0 (index_rec ([1], 2))) 1 (index_rec ([2], 3))) 1 [([1], 2), ([2], 3)]"
    using sp by simp
  from node_inner_append [OF this, of 2 "([3], 4)"]
  have "node_inner (put_rec (put_rec (put_rec ?b 0 (index_rec ([1], 2))) 1 (index_rec ([2], 3))) 2
      (index_rec ([3], 4))) 1 [([1], 2), ([2], 3), ([3], 4)]"
    using sp by simp
  from node_inner_append [OF this, of 3 "([4], 5)"] show ?thesis
    using sp by (simp add: four_inner_def)
qed





text \<open>
  With two or three pivots \<^verbatim>\<open>left_item\<close> is 0: the left page keeps no pivot. The search loop runs its body
  once on the empty page and compares with the empty key, so \<^verbatim>\<open>PageLowerBound\<close> is 0 and a descent through
  the left page follows the dead pivot in slot 0, to its right child; the keys below the separator belong to the
  first child.
\<close>

lemma inner_split_few_pivots:
  assumes p: "node_inner p c0 es" and srt: "sorted_wrt (<) (map fst es)" and few: "length es = 2 \<or> length es = 3"
    and new: "blank_inner q" and k: "k \<noteq> []" "k \<le> fst (es ! 0)"
  shows "\<exists>p' q'. InnerPageSplit p q = Inr (p', q') \<and> item_num p' = 0 \<and> GetInnerPageSplitSep p = fst (es ! 0) \<and>
    PageReadChildAt p' (PageLowerBound p' k) = Inr (snd (es ! 0)) \<and> route c0 es k = c0"
proof -
  let ?p = "p\<lparr>item_num := 0\<rparr>" and ?p' = "reset_content (p\<lparr>item_num := 0\<rparr>)"
  have n: "item_num p = length es" and leaf: "\<not> is_leaf p" using p node_inner_item_num by (auto simp: node_inner_def)
  have h: "length es - (length es - length es div 2) = 1" "length es div 2 = 1" using few by auto
  have dec: "decode_pivotpair ?p i = es ! i" "decode_pivotpair ?p' i = es ! i" if "i < length es" for i
    using node_inner_decode [OF p that] decode_cong(2) [of ?p p] decode_cong(2) [of ?p' p] by (simp_all add: reset_content_def)
  have ci: "snd e < 2 ^ 32" if "e \<in> set es" for e using p that by (auto simp: node_inner_def)
  have "sum_list (map (\<lambda>e. length (index_rec e) + 4) es) \<le> 8148"
    using node_recs_total [of "PAGE_SIZE - 4" p "map index_rec es"] p by (simp add: node_inner_def comp_def)
  then have "sum_list (map (\<lambda>e. length (index_rec e) + 4) (drop 1 es)) \<le> 8148"
    using sum_list_drop_le [of "\<lambda>e. length (index_rec e) + 4" 1 es] by (simp add: drop_map)
  moreover have "drop 1 es = map (decode_pivotpair ?p) [1 ..< length es]" using dec few by (auto intro: nth_equalityI)
  moreover have "drop 1 es \<noteq> []" "sorted_wrt (<) (map fst (drop 1 es))" "\<forall>e \<in> set (drop 1 es). snd e < 2 ^ 32"
    using few sorted_wrt_drop [OF srt, of 1] ci in_set_dropD [of _ 1 es] by (auto simp: drop_map)
  moreover have "snd (es ! 0) < 2 ^ 32" using few by (intro ci nth_mem) auto
  ultimately obtain q' where q': "rebuild_inner ?p q (snd (es ! 0)) [1 ..< length es] = Inr q'" "node_inner q' (snd (es ! 0)) (drop 1 es)"
    using rebuild_inner_pivots [OF new] by blast
  have li: "int (length es) - int (length es - length es div 2) - 1 = 0" using few by auto
  have first: "decode_pivotpair ?p 0 = es ! 0" "decode_pivotpair ?p' 0 = es ! 0" using dec [of 0] few by fastforce+
  have "item_num q' = length es - length es div 2" using node_inner_item_num [OF q'(2)] h by simp
  moreover have "PageReadChildAt ?p 0 = Inr (snd (es ! 0))" using leaf first(1) by (simp add: PageReadChildAt_def)
  ultimately have "InnerPageSplit p q = Inr (?p', q')"
    unfolding InnerPageSplit_def Let_def n li using q'(1) by (simp add: rebuild_inner_def)
  moreover have "lower_bound ?p' k = 1"
    using k(1) by (simp add: lower_bound_def reset_content_def lower_loop.simps PageReadKeyAtOffset_def)
  then have "PageReadChildAt ?p' (PageLowerBound ?p' k) = Inr (snd (es ! 0))"
    using leaf first(2) by (simp add: PageLowerBound_def PageReadChildAt_def) (simp add: reset_content_def)
  moreover have "GetInnerPageSplitSep p = fst (es ! 0)" using separator_inner [OF p _ refl] few h(2) by auto
  moreover have "lb (map fst es) k = 0" using few k(2) by (cases es) (auto simp: lb_def)
  ultimately show ?thesis by (intro exI [of _ ?p'] exI [of _ q']) (simp add: route_def reset_content_def)
qed

text \<open>C17. \<^verbatim>\<open>InnerPageSplit\<close> of a page with at least four pivots moves the middle pivot up: the keys up to
  the separator are routed by the left page and the larger ones by the new page, each to the child the
  page routed it to before the split. (With two or three pivots the left page keeps no pivot and the
  routing is lost: \<open>inner_split_few_pivots\<close>.)\<close>

theorem inner_split_keeps_routing:
  assumes "node_inner p c0 es" "sorted_wrt (<) (map fst es)" "4 \<le> length es" "blank_inner q"
  shows "\<exists>p' q' l c r. InnerPageSplit p q = Inr (p', q') \<and> node_inner p' c0 l \<and> node_inner q' c r \<and>
    l \<noteq> [] \<and> r \<noteq> [] \<and> same_node p p' \<and> same_node q q' \<and>
    (\<forall>k. route c0 es k = (if k \<le> GetInnerPageSplitSep p then route c0 l k else route c r k))"
proof -
  let ?h = "length es div 2"
  obtain p' q' where pq: "InnerPageSplit p q = Inr (p', q')" "node_inner p' c0 (take (?h - 1) es)"
    "node_inner q' (snd (es ! (?h - 1))) (drop ?h es)" "same_node p p'" "same_node q q'"
    using InnerPageSplit_halves [OF assms refl] by blast
  have h: "1 \<le> ?h" "?h \<le> length es" "1 \<le> ?h - 1" "?h < length es" using assms(3) by linarith+
  then have "take (?h - 1) es \<noteq> []" "drop ?h es \<noteq> []" by auto
  moreover have "GetInnerPageSplitSep p = fst (es ! (?h - 1))"
    using separator_inner [OF assms(1) _ refl] assms(3) by simp
  ultimately show ?thesis
    using pq route_split [OF assms(2) h(1,2), of c0] by metis
qed

theorem inner_split_keeps_routing_witness:
  "\<exists>p' q' l c r. InnerPageSplit four_inner (PageInit zero_page 10) = Inr (p', q') \<and>
    node_inner p' 1 l \<and> node_inner q' c r \<and>
    (\<forall>k. route 1 [([1], 2), ([2], 3), ([3], 4), ([4], 5)] k =
      (if k \<le> GetInnerPageSplitSep four_inner then route 1 l k else route c r k))"
proof -
  have "blank_inner (PageInit zero_page 10)" by (simp add: blank_inner_def PageInit_def)
  from inner_split_keeps_routing [OF four_inner _ _ this] show ?thesis by fastforce
qed

text \<open>C18. Descending: the child \<^verbatim>\<open>PageReadChildAt(p, PageLowerBound(p, k))\<close> is the one whose key
  range holds \<open>k\<close>, and installing the separator of a split child with
  \<^verbatim>\<open>PageInsertPivotPair\<close> redirects exactly the keys of that range above the separator to the
  new page.\<close>

theorem pivot_insert_redirects:
  assumes "node_inner p c0 es" "sorted_wrt (<) (map fst es)" "es \<noteq> []" "s \<notin> fst ` set es"
    "r < 2 ^ 32" "length s + 12 \<le> page_space p"
  shows "PageReadChildAt p (PageLowerBound p k) = Inr (route c0 es k) \<and>
    (\<exists>p'. PageInsertPivotPair p s r = Inr p' \<and> same_node p p' \<and>
      PageReadChildAt p' (PageLowerBound p' k) =
        Inr (if lb (map fst es) k = lb (map fst es) s \<and> s < k then r else route c0 es k))"
proof -
  let ?i = "lb (map fst es) s"
  let ?p = "put_rec p ?i (index_rec (s, r))" and ?es = "ins_at ?i (s, r) es"
  have ins: "PageInsertPivotPair p s r = Inr ?p"
    by (rule PageInsertPivotPair_put [OF assms(1-3,6)])
  have "node_inner ?p c0 ?es"
    using node_inner_put [OF assms(1), of ?i "(s, r)"] lb_le [of "map fst es" s] assms(5,6) by simp
  moreover have "sorted_wrt (<) (map fst ?es)"
    using sorted_ins_lb [OF assms(2), of s] assms(4) by (simp add: map_ins_at)
  moreover have "?es \<noteq> []" by (simp add: ins_at_def)
  ultimately have "PageReadChildAt ?p (PageLowerBound ?p k) = Inr (route c0 ?es k)"
    by (rule PageReadChildAt_route)
  then show ?thesis
    using PageReadChildAt_route [OF assms(1-3)] ins route_new_child [OF assms(2,4) refl, of c0 r k] by simp
qed

theorem pivot_insert_redirects_witness:
  "PageReadChildAt four_inner (PageLowerBound four_inner [2, 9]) = Inr 3 \<and>
   (\<exists>p'. PageInsertPivotPair four_inner [2, 5] 77 = Inr p' \<and>
     PageReadChildAt p' (PageLowerBound p' [2, 9]) = Inr 77)"
  using pivot_insert_redirects [OF four_inner, of "[2, 5]" 77 "[2, 9]"]
  by (auto simp: route_def lb_def four_inner_def PageInit_def)

end
