(* ===== verification/OptLock.thy ===== *)
theory OptLock
  imports Prelude
begin

text \<open>
  The optimistic lock of \<^verbatim>\<open>wot_buf_mgr/tree_page.h\<close>: one atomic 64-bit word that holds a
  version in its upper 62 bits, a lock bit (bit 1) and an obsolete bit (bit 0). The
  operations are functions of the word; \<^verbatim>\<open>needRestart\<close> is passed in and returned. A step
  relation interleaves any number of threads that use them the way the B-tree does. A
  reader that validates its version successfully has seen unchanged data, as long as the
  version has not run through all of its \<open>2 ^ 62\<close> values in between.
\<close>

section \<open>Operations\<close>

definition ClearLock :: "64 word \<Rightarrow> 64 word" where
  "ClearLock w = 4"

definition IsLocked :: "64 word \<Rightarrow> bool" where
  "IsLocked version \<longleftrightarrow> version AND 2 = 2"

definition IsObsolete :: "64 word \<Rightarrow> bool" where
  "IsObsolete version \<longleftrightarrow> version AND 1 = 1"

definition ReadLockOrRestart :: "64 word \<Rightarrow> bool \<Rightarrow> 64 word \<times> bool" where
  "ReadLockOrRestart w needRestart =
     (let version = w in (version, if IsLocked version \<or> IsObsolete version then True else needRestart))"

text \<open>A failing \<^verbatim>\<open>compare_exchange_strong\<close> stores the word it found in \<^verbatim>\<open>version\<close>.\<close>

definition UpgradeToWriteLockOrRestart :: "64 word \<Rightarrow> 64 word \<Rightarrow> bool \<Rightarrow> 64 word \<times> 64 word \<times> bool" where
  "UpgradeToWriteLockOrRestart w version needRestart =
     (if w = version then (version + 2, version + 2, needRestart) else (w, w, True))"

definition WriteLockOrRestart :: "64 word \<Rightarrow> bool \<Rightarrow> 64 word \<times> bool" where
  "WriteLockOrRestart w needRestart =
     (let (version, nr) = ReadLockOrRestart w needRestart in
      if nr then (w, nr)
      else let (w', version', nr') = UpgradeToWriteLockOrRestart w version nr in (w', nr'))"

definition WriteUnlock :: "64 word \<Rightarrow> 64 word" where
  "WriteUnlock w = w + 2"

definition ReadUnlockOrRestart :: "64 word \<Rightarrow> 64 word \<Rightarrow> bool \<Rightarrow> bool" where
  "ReadUnlockOrRestart w startRead needRestart = (startRead \<noteq> w)"

definition CheckOrRestart :: "64 word \<Rightarrow> 64 word \<Rightarrow> bool \<Rightarrow> bool" where
  "CheckOrRestart w startRead needRestart = ReadUnlockOrRestart w startRead needRestart"

definition WriteUnlockObsolete :: "64 word \<Rightarrow> 64 word" where
  "WriteUnlockObsolete w = w + 3"

section \<open>Threads\<close>

text \<open>
  A thread is idle, reads under a version, or holds the write lock. A reading thread carries
  what the proof needs to remember of its start: the data then protected by the lock and
  the number of acquisitions so far. \<open>acq\<close> counts acquisitions; no operation reads it.
\<close>

datatype phase = Idle | Reading "64 word" nat nat | Writing

record olc =
  lock_word :: "64 word"
  protected :: nat
  acq :: nat
  phases :: "nat \<Rightarrow> phase"

definition olc_init :: olc where
  "olc_init = \<lparr>lock_word = ClearLock 0, protected = 0, acq = 0, phases = (\<lambda>_. Idle)\<rparr>"

inductive olc_step :: "olc \<Rightarrow> olc \<Rightarrow> bool" where
  read_lock: "phases s t = Idle \<Longrightarrow> ReadLockOrRestart (lock_word s) False = (v, False) \<Longrightarrow>
    olc_step s (s\<lparr>phases := (phases s)(t := Reading v (protected s) (acq s))\<rparr>)"
| read_unlock: "phases s t = Reading v d n \<Longrightarrow> olc_step s (s\<lparr>phases := (phases s)(t := Idle)\<rparr>)"
| upgrade: "phases s t = Reading v d n \<Longrightarrow>
    UpgradeToWriteLockOrRestart (lock_word s) v False = (w, v', False) \<Longrightarrow>
    olc_step s (s\<lparr>lock_word := w, acq := Suc (acq s), phases := (phases s)(t := Writing)\<rparr>)"
| upgrade_fail: "phases s t = Reading v d n \<Longrightarrow>
    UpgradeToWriteLockOrRestart (lock_word s) v False = (w, v', True) \<Longrightarrow>
    olc_step s (s\<lparr>lock_word := w, phases := (phases s)(t := Idle)\<rparr>)"
| write_data: "phases s t = Writing \<Longrightarrow> olc_step s (s\<lparr>protected := d\<rparr>)"
| write_unlock: "phases s t = Writing \<Longrightarrow>
    olc_step s (s\<lparr>lock_word := WriteUnlock (lock_word s), phases := (phases s)(t := Idle)\<rparr>)"
| write_unlock_obsolete: "phases s t = Writing \<Longrightarrow>
    olc_step s (s\<lparr>lock_word := WriteUnlockObsolete (lock_word s), phases := (phases s)(t := Idle)\<rparr>)"

inductive olc_reachable :: "olc \<Rightarrow> bool" where
  olc_start: "olc_reachable olc_init"
| olc_next: "olc_reachable s \<Longrightarrow> olc_step s s' \<Longrightarrow> olc_reachable s'"

inductive_cases olc_stepE: "olc_step s s'"

section \<open>The lock word\<close>

text \<open>
  The word after \<open>n\<close> acquisitions: the version is \<open>n + 1\<close>, with the lock bit while a writer
  holds it and the obsolete bit once the node has been given up.
\<close>

definition word_of :: "nat \<Rightarrow> bool \<Rightarrow> bool \<Rightarrow> 64 word" where
  "word_of n locked obsolete =
     of_nat (4 * Suc n - (if locked then 2 else 0) + (if obsolete then 1 else 0))"

lemma and_exp_word: "(w :: 64 word) AND 2 ^ k = (if bit w k then 2 ^ k else 0)"
  by (rule bit_word_eqI) (auto simp: bit_and_iff bit_exp_iff)

lemma IsLocked_bit: "IsLocked w \<longleftrightarrow> bit w 1"
  using and_exp_word [of w 1] by (simp add: IsLocked_def)

lemma IsObsolete_bit: "IsObsolete w \<longleftrightarrow> bit w 0"
  using and_exp_word [of w 0] by (simp add: IsObsolete_def)

lemma bit_word_of: "bit (word_of n l b) 1 \<longleftrightarrow> l" "bit (word_of n l b) 0 \<longleftrightarrow> b"
proof -
  let ?x = "4 * Suc n - (if l then 2 else 0) + (if b then 1 else 0)"
  have bits: "bit (word_of n l b) k \<longleftrightarrow> bit ?x k" if "k < 64" for k
    unfolding word_of_def bit_of_nat_iff using that by simp
  have "odd (?x div 2) \<longleftrightarrow> l" "odd ?x \<longleftrightarrow> b"
    by (cases l; cases b; simp; presburger)+
  then show "bit (word_of n l b) 1 \<longleftrightarrow> l" "bit (word_of n l b) 0 \<longleftrightarrow> b"
    using bits [of 0] bits [of 1] by (simp_all add: bit_iff_odd)
qed

lemma word_of_inject:
  assumes "word_of n l b = word_of m l b" "n \<le> m" "m - n < 2 ^ 62"
  shows "n = m"
proof -
  let ?x = "4 * Suc n - (if l then 2 else 0) + (if b then 1 else 0)"
  have m: "4 * Suc m - (if l then 2 else 0) + (if b then 1 else 0) = ?x + 4 * (m - n)"
    using assms(2) by auto
  have "of_nat (?x + 4 * (m - n)) = (of_nat ?x :: 64 word)"
    using assms(1) unfolding word_of_def m by simp
  then have "of_nat (4 * (m - n)) = (0 :: 64 word)" by (simp only: of_nat_add add_cancel_left_right)
  then have "2 ^ 64 dvd 4 * (m - n)" by (simp only: word_of_nat_eq_0_iff) simp
  moreover have "4 * (m - n) < 2 ^ 64" using assms(3) by simp
  ultimately have "4 * (m - n) = 0" using nat_dvd_not_less by blast
  then show ?thesis using assms(2) by simp
qed

lemma lock_word_steps:
  "ClearLock w = word_of 0 False False"
  "word_of n False False + 2 = word_of (Suc n) True False"
  "WriteUnlock (word_of n True False) = word_of n False False"
  "WriteUnlockObsolete (word_of n True False) = word_of n False True"
  by (simp_all add: ClearLock_def WriteUnlock_def WriteUnlockObsolete_def word_of_def)

section \<open>Invariant\<close>

definition olc_inv :: "olc \<Rightarrow> bool" where
  "olc_inv s \<longleftrightarrow>
     (\<exists>dead. lock_word s = word_of (acq s) (\<exists>t. phases s t = Writing) dead \<and>
        (dead \<longrightarrow> (\<forall>t. phases s t \<noteq> Writing))) \<and>
     (\<forall>t u. phases s t = Writing \<and> phases s u = Writing \<longrightarrow> t = u) \<and>
     (\<forall>t v d n. phases s t = Reading v d n \<longrightarrow>
        n \<le> acq s \<and> v = word_of n False False \<and> (n = acq s \<longrightarrow> protected s = d \<and> (\<forall>u. phases s u \<noteq> Writing)))"

lemma read_lock_word:
  "ReadLockOrRestart w False = (v, False) \<longleftrightarrow> v = w \<and> \<not> bit w 1 \<and> \<not> bit w 0"
  by (auto simp: ReadLockOrRestart_def IsLocked_bit IsObsolete_bit Let_def)

lemma upgrade_word:
  "UpgradeToWriteLockOrRestart w v False = (w', v', False) \<longleftrightarrow> w = v \<and> w' = v + 2 \<and> v' = v + 2"
  "UpgradeToWriteLockOrRestart w v False = (w', v', True) \<longleftrightarrow> w \<noteq> v \<and> w' = w \<and> v' = w"
  by (auto simp: UpgradeToWriteLockOrRestart_def)

text \<open>
  A version taken within the last \<open>2 ^ 62\<close> acquisitions that still equals the word: there has
  been no acquisition since, and nobody holds the lock.
\<close>

lemma version_current:
  assumes "olc_inv s" "phases s t = Reading v d n" "lock_word s = v" "acq s - n < 2 ^ 62"
  shows "n = acq s" "\<forall>u. phases s u \<noteq> Writing" "protected s = d"
proof -
  let ?l = "\<exists>t. phases s t = Writing"
  obtain dead where w: "lock_word s = word_of (acq s) ?l dead"
    using assms(1) by (auto simp: olc_inv_def)
  have r: "n \<le> acq s" "v = word_of n False False"
    "n = acq s \<longrightarrow> protected s = d \<and> (\<forall>u. phases s u \<noteq> Writing)"
    using assms(1,2) unfolding olc_inv_def by blast+
  have eq: "word_of (acq s) ?l dead = word_of n False False" using w r(2) assms(3) by simp
  have "bit (word_of (acq s) ?l dead) i = bit (word_of n False False) i" for i using eq by simp
  from this [of 1] this [of 0] have "?l = False" "dead = False" by (simp_all only: bit_word_of)
  then have "word_of n False False = word_of (acq s) False False" using eq by (simp only: refl)
  from word_of_inject [OF this r(1) assms(4)] show n: "n = acq s" .
  show "\<forall>u. phases s u \<noteq> Writing" "protected s = d" using r(3) n by blast+
qed

lemma olc_inv_init: "olc_inv olc_init"
  by (auto simp: olc_inv_def olc_init_def lock_word_steps(1))

lemma olc_inv_unlocked:
  assumes "olc_inv s" "\<not> bit (lock_word s) 1"
  shows "\<forall>t. phases s t \<noteq> Writing"
proof -
  obtain dead where "lock_word s = word_of (acq s) (\<exists>t. phases s t = Writing) dead"
    using assms(1) by (auto simp: olc_inv_def)
  then show ?thesis using assms(2) by (simp only: bit_word_of) blast
qed

lemma olc_inv_free:
  assumes "olc_inv s" "\<not> bit (lock_word s) 1" "\<not> bit (lock_word s) 0"
  shows "lock_word s = word_of (acq s) False False"
proof -
  obtain dead where w: "lock_word s = word_of (acq s) (\<exists>t. phases s t = Writing) dead"
    using assms(1) by (auto simp: olc_inv_def)
  have "(\<exists>t. phases s t = Writing) = False" "dead = False"
    using assms(2,3) unfolding w bit_word_of by simp_all
  then show ?thesis using w by (simp only: refl)
qed

lemma olc_inv_writing:
  assumes "olc_inv s" "phases s t = Writing"
  shows "lock_word s = word_of (acq s) True False" "phases s u = Writing \<longleftrightarrow> u = t"
    "phases s u = Reading v d n \<Longrightarrow> n < acq s \<and> v = word_of n False False"
proof -
  obtain dead where w: "lock_word s = word_of (acq s) (\<exists>t. phases s t = Writing) dead"
    "dead \<longrightarrow> (\<forall>t. phases s t \<noteq> Writing)"
    using assms(1) by (auto simp: olc_inv_def)
  have "(\<exists>t. phases s t = Writing) = True" "dead = False" using assms(2) w(2) by blast+
  then show "lock_word s = word_of (acq s) True False" using w(1) by (simp only: refl)
  show "phases s u = Writing \<longleftrightarrow> u = t" using assms unfolding olc_inv_def by blast
  show "phases s u = Reading v d n \<Longrightarrow> n < acq s \<and> v = word_of n False False"
    using assms unfolding olc_inv_def by (metis le_neq_implies_less)
qed

lemma olc_inv_reading:
  assumes "olc_inv s" "phases s u = Reading v d n"
  shows "n \<le> acq s" "v = word_of n False False" "n = acq s \<Longrightarrow> protected s = d"
  using assms unfolding olc_inv_def by blast+

lemma olc_inv_drop_reader:
  assumes inv: "olc_inv s" and same: "lock_word s' = lock_word s" "acq s' = acq s" "protected s' = protected s"
    and w: "\<And>u. phases s' u = Writing \<longleftrightarrow> phases s u = Writing"
    and r: "\<And>u v d n. phases s' u = Reading v d n \<Longrightarrow> phases s u = Reading v d n"
  shows "olc_inv s'"
proof -
  have "(\<exists>t. phases s' t = Writing) = (\<exists>t. phases s t = Writing)"
    "(\<forall>t. phases s' t \<noteq> Writing) = (\<forall>t. phases s t \<noteq> Writing)" using w by simp_all
  moreover obtain dead where "lock_word s = word_of (acq s) (\<exists>t. phases s t = Writing) dead"
    "dead \<longrightarrow> (\<forall>t. phases s t \<noteq> Writing)" using inv by (auto simp: olc_inv_def)
  ultimately have "lock_word s' = word_of (acq s') (\<exists>t. phases s' t = Writing) dead"
    "dead \<longrightarrow> (\<forall>t. phases s' t \<noteq> Writing)" using same(1,2) by simp_all
  moreover have "t = u" if "phases s' t = Writing" "phases s' u = Writing" for t u
    using that w olc_inv_writing(2) [OF inv, of t u] by simp
  moreover have "n \<le> acq s' \<and> v = word_of n False False \<and>
      (n = acq s' \<longrightarrow> protected s' = d \<and> (\<forall>u. phases s' u \<noteq> Writing))"
    if "phases s' u = Reading v d n" for u v d n
    using olc_inv_reading [OF inv r [OF that]] olc_inv_writing(3) [OF inv _ r [OF that]] same w by auto
  ultimately show ?thesis unfolding olc_inv_def by blast
qed

lemma olc_inv_released:
  assumes "lock_word s = word_of (acq s) False dead" and nw: "\<forall>u. phases s u \<noteq> Writing"
    and r: "\<And>u v d n. phases s u = Reading v d n \<Longrightarrow> n < acq s \<and> v = word_of n False False"
  shows "olc_inv s"
proof -
  have "(\<exists>t. phases s t = Writing) = False" using nw by simp
  then have "lock_word s = word_of (acq s) (\<exists>t. phases s t = Writing) dead" using assms(1) by (simp only: refl)
  moreover have "n \<le> acq s \<and> v = word_of n False False \<and> n \<noteq> acq s" if "phases s u = Reading v d n" for u v d n
    using r [OF that] by simp
  ultimately show ?thesis unfolding olc_inv_def using nw by blast
qed

lemma olc_inv_step:
  assumes "olc_inv s" "olc_step s s'"
  shows "olc_inv s'"
  using assms(2)
proof cases
  case (read_lock t v)
  then have v: "v = lock_word s" "\<not> bit (lock_word s) 1" "\<not> bit (lock_word s) 0"
    by (auto simp: read_lock_word)
  note free = olc_inv_free [OF assms(1) v(2,3)] and nw = olc_inv_unlocked [OF assms(1) v(2)]
  have "lock_word s' = word_of (acq s') (\<exists>u. phases s' u = Writing) False"
    using free nw read_lock(1) by simp
  moreover have "\<forall>u. phases s' u \<noteq> Writing" using nw read_lock(1) by simp
  moreover have "n \<le> acq s' \<and> w = word_of n False False \<and> (n = acq s' \<longrightarrow> protected s' = d)"
    if "phases s' u = Reading w d n" for u w d n
  proof (cases "u = t")
    case True
    then show ?thesis using that free v(1) read_lock(1) by auto
  next
    case False
    then have "phases s u = Reading w d n" using that read_lock(1) by simp
    from olc_inv_reading [OF assms(1) this] show ?thesis using read_lock(1) by simp
  qed
  ultimately show ?thesis unfolding olc_inv_def by blast
next
  case (read_unlock t v d n)
  show ?thesis
    by (rule olc_inv_drop_reader [OF assms(1)]) (use read_unlock in \<open>auto split: if_splits\<close>)
next
  case (upgrade_fail t v d n w v')
  have "w = lock_word s" using upgrade_fail by (simp add: upgrade_word)
  then show ?thesis
    by (intro olc_inv_drop_reader [OF assms(1)]) (use upgrade_fail in \<open>auto split: if_splits\<close>)
next
  case (upgrade t v d n w v')
  have v: "lock_word s = v" "w = v + 2" using upgrade by (simp_all add: upgrade_word)
  have ver: "v = word_of n False False" using assms(1) upgrade(2) unfolding olc_inv_def by blast
  have "\<not> bit (lock_word s) 1" "\<not> bit (lock_word s) 0" using v(1) ver by (simp_all only: bit_word_of) simp_all
  note free = olc_inv_free [OF assms(1) this] and nw = olc_inv_unlocked [OF assms(1) this(1)]
  have wr: "phases s' u = Writing \<longleftrightarrow> u = t" for u using nw upgrade(1) by simp
  have "lock_word s' = word_of (acq s') True False"
    using free v upgrade(1) lock_word_steps(2) [of "acq s"] by simp
  moreover have "m \<le> acq s' \<and> x = word_of m False False \<and> m \<noteq> acq s'"
    if "phases s' u = Reading x e m" for u x e m
  proof -
    have "phases s u = Reading x e m" using that upgrade(1) by (cases "u = t") auto
    then have "m \<le> acq s" "x = word_of m False False" using assms(1) unfolding olc_inv_def by blast+
    then show ?thesis using upgrade(1) by simp
  qed
  ultimately show ?thesis unfolding olc_inv_def using wr by auto
next
  case (write_data t d)
  note W = olc_inv_writing [OF assms(1) write_data(2)]
  then show ?thesis using assms(1) write_data(1) unfolding olc_inv_def by fastforce
next
  case (write_unlock t)
  note W = olc_inv_writing [OF assms(1) write_unlock(2)]
  have "lock_word s' = word_of (acq s') False False"
    using W(1) write_unlock(1) lock_word_steps(3) [of "acq s"] by simp
  moreover have nw: "\<forall>u. phases s' u \<noteq> Writing" using W(2) write_unlock(1) by auto
  moreover have "n < acq s' \<and> v = word_of n False False" if "phases s' u = Reading v d n" for u v d n
    using that W(3) [of u v d n] write_unlock(1) by (cases "u = t") auto
  ultimately show ?thesis by (rule olc_inv_released)
next
  case (write_unlock_obsolete t)
  note W = olc_inv_writing [OF assms(1) write_unlock_obsolete(2)]
  have "lock_word s' = word_of (acq s') False True"
    using W(1) write_unlock_obsolete(1) lock_word_steps(4) [of "acq s"] by simp
  moreover have nw: "\<forall>u. phases s' u \<noteq> Writing" using W(2) write_unlock_obsolete(1) by auto
  moreover have "n < acq s' \<and> v = word_of n False False" if "phases s' u = Reading v d n" for u v d n
    using that W(3) [of u v d n] write_unlock_obsolete(1) by (cases "u = t") auto
  ultimately show ?thesis by (rule olc_inv_released)
qed

lemma olc_reachable_inv: "olc_reachable s \<Longrightarrow> olc_inv s"
  by (induction rule: olc_reachable.induct) (auto intro: olc_inv_init olc_inv_step)

section \<open>Properties\<close>

lemma run_read_lock: "olc_reachable (olc_init\<lparr>phases := (\<lambda>_. Idle)(0 := Reading 4 0 0)\<rparr>)"
proof -
  have "olc_step olc_init (olc_init\<lparr>phases := (phases olc_init)(0 := Reading 4 (protected olc_init) (acq olc_init))\<rparr>)"
    by (rule olc_step.read_lock)
      (simp_all add: olc_init_def ReadLockOrRestart_def ClearLock_def IsLocked_def IsObsolete_def)
  from olc_next [OF olc_start this] show ?thesis by (simp add: olc_init_def)
qed

lemma run_write_lock: "olc_reachable (olc_init\<lparr>lock_word := 6, acq := 1, phases := (\<lambda>_. Idle)(0 := Writing)\<rparr>)"
proof -
  let ?s = "olc_init\<lparr>phases := (\<lambda>_. Idle)(0 := Reading 4 0 0)\<rparr>"
  have "olc_step ?s (?s\<lparr>lock_word := 6, acq := Suc (acq ?s), phases := (phases ?s)(0 := Writing)\<rparr>)"
    by (rule olc_step.upgrade [where v = 4 and d = 0 and n = 0 and v' = 6])
      (simp_all add: olc_init_def UpgradeToWriteLockOrRestart_def ClearLock_def)
  from olc_next [OF run_read_lock this] show ?thesis by (simp add: olc_init_def)
qed

text \<open>C19. The optimistic lock excludes writers: in every interleaving of threads that take the
  read version, upgrade, write and unlock, at most one thread holds the write lock, and the
  lock bit of the word is set exactly while one does.\<close>

theorem optlock_mutual_exclusion:
  assumes "olc_reachable s"
  shows "(\<forall>t u. phases s t = Writing \<and> phases s u = Writing \<longrightarrow> t = u) \<and>
    (IsLocked (lock_word s) \<longleftrightarrow> (\<exists>t. phases s t = Writing))"
proof -
  have inv: "olc_inv s" by (rule olc_reachable_inv [OF assms])
  then obtain dead where "lock_word s = word_of (acq s) (\<exists>t. phases s t = Writing) dead"
    by (auto simp: olc_inv_def)
  then have "IsLocked (lock_word s) \<longleftrightarrow> (\<exists>t. phases s t = Writing)"
    by (simp only: IsLocked_bit bit_word_of)
  then show ?thesis using olc_inv_writing(2) [OF inv] by blast
qed

theorem optlock_mutual_exclusion_witness:
  "IsLocked (lock_word (olc_init\<lparr>lock_word := 6, acq := 1, phases := (\<lambda>_. Idle)(0 := Writing)\<rparr>))"
  (is "IsLocked (lock_word ?s)")
proof -
  have "IsLocked (lock_word ?s) \<longleftrightarrow> (\<exists>t. phases ?s t = Writing)"
    by (rule conjunct2 [OF optlock_mutual_exclusion [OF run_write_lock]])
  moreover have "phases ?s 0 = Writing" by simp
  ultimately show ?thesis by blast
qed

text \<open>C20. Optimistic reads are consistent: when a reader's validation \<^verbatim>\<open>ReadUnlockOrRestart\<close>
  does not ask for a restart, no writer holds the lock and the protected data is what it was
  when the reader took its version, provided fewer than \<open>2 ^ 62\<close> acquisitions lie in between.\<close>

theorem optlock_validated_read:
  assumes "olc_reachable s" "phases s t = Reading v d n"
    "\<not> ReadUnlockOrRestart (lock_word s) v nr" "acq s - n < 2 ^ 62"
  shows "protected s = d \<and> acq s = n \<and> (\<forall>u. phases s u \<noteq> Writing)"
  using version_current [OF olc_reachable_inv [OF assms(1)] assms(2) _ assms(4)] assms(3)
  by (simp add: ReadUnlockOrRestart_def)

theorem optlock_validated_read_witness:
  "protected (olc_init\<lparr>phases := (\<lambda>_. Idle)(0 := Reading 4 0 0)\<rparr>) = 0 \<and>
   (\<forall>u. phases (olc_init\<lparr>phases := (\<lambda>_. Idle)(0 := Reading 4 0 0)\<rparr>) u \<noteq> Writing)"
  using optlock_validated_read [OF run_read_lock, of 0 4 0 0 False]
  by (simp add: ReadUnlockOrRestart_def olc_init_def ClearLock_def)

end
