(* ===== verification/BufferPool.thy ===== *)
theory BufferPool
  imports TreePage "HOL-Library.AList"
begin

text \<open>
  The buffer pool of \<^verbatim>\<open>wot_buf_mgr/tree_buffer.cc\<close> on top of the page file of
  \<^verbatim>\<open>free_space.cc\<close>. A shard keeps a table from page ids to handles, the buffers, the two
  lists of unpinned (\<^verbatim>\<open>lru_\<close>) and pinned (\<^verbatim>\<open>in_use_\<close>) handles, and the queue of free
  buffers; the sharded manager distributes page ids over 16 shards and keeps the root page
  in memory.

  A handle is identified by its page id, so the circular lists are lists of page ids with
  the oldest first. A buffer holds a page image; the file is the list of the page images
  written to it, where the gap a write leaves behind the end of the file reads as zeros.
  \<^verbatim>\<open>fseek\<close> and \<^verbatim>\<open>fwrite\<close> are taken to succeed. The mutex of a shard makes each operation
  atomic.
\<close>

section \<open>The page file\<close>

record treefile =
  page_num :: nat
  disk :: "page list"

definition GetNewPageid :: "treefile \<Rightarrow> nat \<times> treefile" where
  "GetNewPageid f = (page_num f, f\<lparr>page_num := u32 (page_num f + 1)\<rparr>)"

definition write_slot :: "page list \<Rightarrow> nat \<Rightarrow> page \<Rightarrow> page list" where
  "write_slot d off p = (d @ replicate (Suc off - length d) zero_page)[off := p]"

definition File_Delete :: "treefile \<Rightarrow> nat \<Rightarrow> treefile" where
  "File_Delete f off = f\<lparr>disk := write_slot (disk f) off zero_page\<rparr>"

text \<open>The result is the buffer, whose dirty flag is cleared, and the file.\<close>

definition WritePage :: "treefile \<Rightarrow> nat \<Rightarrow> page \<Rightarrow> page \<times> treefile" where
  "WritePage f off p =
     (if \<not> is_dirty p then (p, f)
      else let p1 = p\<lparr>is_dirty := False\<rparr> in (p1, f\<lparr>disk := write_slot (disk f) off p1\<rparr>))"

definition GetPage :: "treefile \<Rightarrow> nat \<Rightarrow> page result" where
  "GetPage f off =
     (if page_num f \<le> off then Inl Abort
      else if length (disk f) \<le> off then Inl Abort
      else Inr (disk f ! off))"

section \<open>One shard\<close>

record handle =
  page_array_id :: nat
  refs :: nat

record shard =
  max_num :: nat
  shard_num :: nat
  lru :: "nat list"
  in_use :: "nat list"
  table :: "(nat \<times> handle) list"
  pages :: "page list"
  recent_evicted :: "nat list"
  file_allocator :: treefile

definition ExistsInBuffer :: "shard \<Rightarrow> nat \<Rightarrow> bool" where
  "ExistsInBuffer s pg_id \<longleftrightarrow> map_of (table s) pg_id \<noteq> None"

definition page_loc :: "shard \<Rightarrow> nat \<Rightarrow> nat" where
  "page_loc s pg_id = sub32 pg_id 1 div shard_num s"

definition LRU_Remove :: "nat \<Rightarrow> shard \<Rightarrow> shard" where
  "LRU_Remove e s = s\<lparr>lru := remove1 e (lru s), in_use := remove1 e (in_use s)\<rparr>"

definition GetBuffer :: "shard \<Rightarrow> (nat \<times> shard) result" where
  "GetBuffer s =
     (let s1 = (if recent_evicted s = []
                then s\<lparr>pages := pages s @ [zero_page], recent_evicted := [length (pages s)]\<rparr>
                else s)
      in if recent_evicted s = [] \<and> \<not> length (pages s1) \<le> max_num s then Inl AssertFailed
         else let new_id = hd (recent_evicted s1)
              in Inr (new_id, s1\<lparr>recent_evicted := tl (recent_evicted s1),
                                 pages := (pages s1)[new_id := zero_page]\<rparr>))"

definition Erase :: "nat \<Rightarrow> shard \<Rightarrow> shard result" where
  "Erase pg_id s =
     (case map_of (table s) pg_id of
        None \<Rightarrow> Inl NullDeref
      | Some e \<Rightarrow>
          let (p, f) = WritePage (file_allocator s) (page_loc s pg_id) (pages s ! page_array_id e);
              s1 = LRU_Remove pg_id (s\<lparr>file_allocator := f, pages := (pages s)[page_array_id e := p]\<rparr>)
          in Inr (s1\<lparr>recent_evicted := recent_evicted s @ [page_array_id e],
                     table := AList.delete pg_id (table s)\<rparr>))"

text \<open>
  The eviction loop. \<^verbatim>\<open>usage_\<close> is a local count here; it is only read inside the loop. The
  assertion concerns handles that are in the table.
\<close>

lemma Erase_lru: "Erase pg_id s = Inr s' \<Longrightarrow> lru s' = remove1 pg_id (lru s) \<and> max_num s' = max_num s"
  by (auto simp: Erase_def LRU_Remove_def Let_def split: option.splits prod.splits)

function evict_loop :: "nat \<Rightarrow> shard \<Rightarrow> (nat \<times> shard) result" where
  "evict_loop usage s =
     (if max_num s \<le> usage \<and> lru s \<noteq> [] then
        let old = hd (lru s) in
        case map_of (table s) old of
          None \<Rightarrow> evict_loop usage (s\<lparr>lru := tl (lru s)\<rparr>)
        | Some e \<Rightarrow>
            if \<not> refs e = 0 then Inl AssertFailed
            else (case Erase old s of
                    Inl x \<Rightarrow> Inl x
                  | Inr s' \<Rightarrow> evict_loop (usage - 1) s')
      else Inr (usage, s))"
  by pat_completeness auto
termination
proof (relation "measure (\<lambda>(usage, s). length (lru s))", goal_cases)
  case (3 usage s old e s')
  then show ?case by (cases "lru s") (auto dest: Erase_lru)
qed auto

declare evict_loop.simps [simp del]

definition MayOverflow :: "shard \<Rightarrow> (bool \<times> shard) result" where
  "MayOverflow s =
     bind_result (evict_loop (length (table s)) s) (\<lambda>(usage, s'). Inr (max_num s' \<le> usage, s'))"

text \<open>
  The page id is new to the table whenever this is called; the code would free the buffer of
  an older handle and keep it in its lists.
\<close>

definition InsertTable :: "nat \<Rightarrow> nat \<Rightarrow> shard \<Rightarrow> shard" where
  "InsertTable array_id pg_id s =
     s\<lparr>table := AList.update pg_id \<lparr>page_array_id = array_id, refs = 0\<rparr> (table s),
       lru := lru s @ [pg_id]\<rparr>"

definition RetrieveHandle :: "nat \<Rightarrow> shard \<Rightarrow> (handle option \<times> shard) result" where
  "RetrieveHandle pg_id s =
     (case map_of (table s) pg_id of
        Some e \<Rightarrow> Inr (Some e, s)
      | None \<Rightarrow>
          bind_result (MayOverflow s) (\<lambda>(full, s1).
            if full then Inr (None, s1)
            else bind_result (GetBuffer s1) (\<lambda>(a, s2).
              bind_result (GetPage (file_allocator s2) (page_loc s2 pg_id)) (\<lambda>p.
                Inr (Some \<lparr>page_array_id = a, refs = 0\<rparr>,
                     InsertTable a pg_id (s2\<lparr>pages := (pages s2)[a := p]\<rparr>))))))"

definition Ref :: "nat \<Rightarrow> handle \<Rightarrow> shard \<Rightarrow> shard" where
  "Ref pg_id e s =
     (let s1 = (if refs e = 0
                then (let r = LRU_Remove pg_id s in r\<lparr>in_use := in_use r @ [pg_id]\<rparr>)
                else s)
      in s1\<lparr>table := AList.update pg_id (e\<lparr>refs := u32 (refs e + 1)\<rparr>) (table s1)\<rparr>)"

definition Unref :: "nat \<Rightarrow> handle \<Rightarrow> shard \<Rightarrow> shard result" where
  "Unref pg_id e s =
     (if \<not> refs e > 0 then Inl AssertFailed
      else let e' = e\<lparr>refs := refs e - 1\<rparr>;
               s1 = s\<lparr>table := AList.update pg_id e' (table s)\<rparr>
           in Inr (if refs e' = 0
                   then (let r = LRU_Remove pg_id s1 in r\<lparr>lru := lru r @ [pg_id]\<rparr>)
                   else s1))"

text \<open>\<open>Pin\<close> returns the index of the buffer; a full pool makes it follow a null pointer.\<close>

definition Pin :: "nat \<Rightarrow> shard \<Rightarrow> (nat \<times> shard) result" where
  "Pin pg_id s =
     bind_result (RetrieveHandle pg_id s) (\<lambda>(h, s1).
       case h of None \<Rightarrow> Inl NullDeref
       | Some e \<Rightarrow> Inr (page_array_id e, Ref pg_id e s1))"

definition Lookup :: "nat \<Rightarrow> shard \<Rightarrow> nat option" where
  "Lookup pg_id s = map_option page_array_id (map_of (table s) pg_id)"

definition Unpin :: "nat \<Rightarrow> shard \<Rightarrow> shard result" where
  "Unpin pg_id s =
     (case map_of (table s) pg_id of None \<Rightarrow> Inr s | Some e \<Rightarrow> Unref pg_id e s)"

definition UnpinAndRelease :: "nat \<Rightarrow> shard \<Rightarrow> shard result" where
  "UnpinAndRelease pg_id s =
     (case map_of (table s) pg_id of
        None \<Rightarrow> Inr s
      | Some e \<Rightarrow>
          let e' = e\<lparr>refs := sub32 (refs e) 1\<rparr>;
              s1 = s\<lparr>table := AList.update pg_id e' (table s)\<rparr>
          in if refs e' = 0 then Erase pg_id s1 else Inr s1)"

definition Delete :: "nat \<Rightarrow> shard \<Rightarrow> shard" where
  "Delete pg_id s =
     (case map_of (table s) pg_id of
        None \<Rightarrow> s
      | Some e \<Rightarrow>
          (LRU_Remove pg_id s)\<lparr>recent_evicted := recent_evicted s @ [page_array_id e],
             table := AList.delete pg_id (table s)\<rparr>)"

text \<open>
  The loop that extends the file until the page's slot exists. Its \<^verbatim>\<open>cur_offset\<close> is always the
  current \<^verbatim>\<open>page_num_\<close>, so it calls \<^verbatim>\<open>GetNewPageid\<close> once for every number from there up to
  \<open>loc\<close>.
\<close>

definition extend_file :: "nat \<Rightarrow> treefile \<Rightarrow> treefile" where
  "extend_file loc f = ((\<lambda>g. snd (GetNewPageid g)) ^^ (Suc loc - page_num f)) f"

definition Allocate :: "nat \<Rightarrow> shard \<Rightarrow> shard result" where
  "Allocate pg_id s =
     bind_result (MayOverflow s) (\<lambda>(full, s1).
       if full then Inl Abort
       else let s2 = s1\<lparr>file_allocator := extend_file (page_loc s1 pg_id) (file_allocator s1)\<rparr>
            in bind_result (GetBuffer s2) (\<lambda>(a, s3).
                 Inr (InsertTable a pg_id (s3\<lparr>pages := (pages s3)[a := PageInit (pages s3 ! a) pg_id]\<rparr>))))"

definition AllocateRoot :: "nat \<Rightarrow> page \<Rightarrow> shard \<Rightarrow> shard result" where
  "AllocateRoot new_id old_root s =
     bind_result (MayOverflow s) (\<lambda>(full, s1).
       if full then Inl Abort
       else let s2 = s1\<lparr>file_allocator := extend_file (page_loc s1 new_id) (file_allocator s1)\<rparr>
            in bind_result (GetBuffer s2) (\<lambda>(a, s3).
                 Inr (s3\<lparr>lru := lru s3 @ [new_id],
                         pages := (pages s3)[a := old_root\<lparr>page_id := new_id, opt_lock := 4\<rparr>],
                         table := AList.update new_id \<lparr>page_array_id = a, refs = 0\<rparr> (table s3)\<rparr>)))"

section \<open>The sharded manager\<close>

abbreviation kNumShards :: nat where "kNumShards \<equiv> 16"

record pool =
  shards :: "shard list"
  new_id :: nat
  root :: page

definition new_shard :: "nat \<Rightarrow> shard" where
  "new_shard per_shard =
     \<lparr>max_num = u32 per_shard, shard_num = kNumShards, lru = [], in_use = [], table = [], pages = [],
      recent_evicted = [], file_allocator = \<lparr>page_num = 0, disk = []\<rparr>\<rparr>"

text \<open>
  \<open>raw\<close> is the memory \<^verbatim>\<open>new char[PAGE_SIZE]\<close> returns for the root page: it is not cleared.
\<close>

definition NewBufferManager :: "page \<Rightarrow> nat \<Rightarrow> pool" where
  "NewBufferManager raw capacity =
     (let per_shard = (capacity + (kNumShards - 1)) div kNumShards
      in \<lparr>shards = replicate kNumShards (new_shard per_shard), new_id = 1, root = PageInit raw 0\<rparr>)"

definition Shard :: "nat \<Rightarrow> nat" where
  "Shard hash = u32 hash mod kNumShards"

text \<open>Where a page is: the root page, or a buffer of a shard.\<close>

datatype frame = Root | Buf nat nat

definition on_shard :: "nat \<Rightarrow> (shard \<Rightarrow> shard result) \<Rightarrow> pool \<Rightarrow> pool result" where
  "on_shard i f b = bind_result (f (shards b ! i)) (\<lambda>s. Inr (b\<lparr>shards := (shards b)[i := s]\<rparr>))"

definition Pool_Lookup :: "nat \<Rightarrow> pool \<Rightarrow> frame option" where
  "Pool_Lookup pid b =
     (if pid = 0 then Some Root
      else map_option (Buf (Shard pid)) (Lookup pid (shards b ! Shard pid)))"

definition Pool_Pin :: "nat \<Rightarrow> pool \<Rightarrow> (frame \<times> pool) result" where
  "Pool_Pin pid b =
     (if pid = 0 then Inr (Root, b)
      else bind_result (Pin pid (shards b ! Shard pid)) (\<lambda>(a, s).
        Inr (Buf (Shard pid) a, b\<lparr>shards := (shards b)[Shard pid := s]\<rparr>)))"

definition Pool_Delete :: "nat \<Rightarrow> pool \<Rightarrow> pool result" where
  "Pool_Delete pid b =
     (if pid = 0 then Inl Abort else on_shard (Shard pid) (\<lambda>s. Inr (Delete pid s)) b)"

definition Pool_Unpin :: "nat \<Rightarrow> pool \<Rightarrow> pool result" where
  "Pool_Unpin pid b = (if pid = 0 then Inr b else on_shard (Shard pid) (Unpin pid) b)"

definition Pool_UnpinAndRelease :: "nat \<Rightarrow> pool \<Rightarrow> pool result" where
  "Pool_UnpinAndRelease pid b = (if pid = 0 then Inr b else on_shard (Shard pid) (UnpinAndRelease pid) b)"

definition Pool_Allocate :: "pool \<Rightarrow> (nat \<times> pool) result" where
  "Pool_Allocate b =
     (let pid = new_id b; b1 = b\<lparr>new_id := pid + 1\<rparr>
      in bind_result (on_shard (Shard pid) (Allocate (u32 pid)) b1) (\<lambda>b2. Inr (u32 pid, b2)))"

definition Pool_AllocateRoot :: "nat \<Rightarrow> pool \<Rightarrow> (nat \<times> pool) result" where
  "Pool_AllocateRoot rid b =
     (if rid \<noteq> 0 then Inl AssertFailed
      else let pid = new_id b; b1 = b\<lparr>new_id := pid + 1\<rparr>
           in bind_result (on_shard (Shard pid) (AllocateRoot (u32 pid) (root b)) b1) (\<lambda>b2.
                Inr (u32 pid, b2\<lparr>root := PageInit (root b2) 0\<rparr>)))"

end
