(* ===== verification/BufferPoolCorrect.thy ===== *)
theory BufferPoolCorrect
  imports BufferPool
begin

text \<open>
  Correctness of the buffer pool: what a client reads through it. \<open>contents\<close> is the page a
  client would get for an id, from its buffer or from the file, without the dirty flag. Under
  the invariant \<open>shard_inv\<close> every operation keeps the contents of every page except the one
  it creates, whatever it evicts, and pinning succeeds while a buffer can be freed.
\<close>

section \<open>Association lists\<close>

lemma length_alist_delete:
  assumes "distinct (map fst al)" "map_of al k \<noteq> None"
  shows "Suc (length (AList.delete k al)) = length al"
proof -
  have "k \<in> set (map fst al)" using assms(2) by (auto simp: map_of_eq_None_iff)
  then have "Suc (length (remove1 k (map fst al))) = length (map fst al)"
    using length_pos_if_in_set by (fastforce simp: length_remove1)
  moreover have "remove1 k (map fst al) = map fst (AList.delete k al)"
    using assms(1) by (simp add: AList.delete_keys distinct_remove1_removeAll)
  ultimately show ?thesis by (metis length_map)
qed

lemma length_alist_update:
  "map_of al k \<noteq> None \<Longrightarrow> length (AList.update k v al) = length al"
  "map_of al k = None \<Longrightarrow> length (AList.update k v al) = Suc (length al)"
  by (induction al) (auto split: if_splits)

lemma pred_mod:
  assumes "0 < p" "0 < q" "p mod n = q mod n"
  shows "(p - 1) mod n = (q - (1 :: nat)) mod n"
proof -
  have step: "(x - 1) mod n = (y - (1 :: nat)) mod n" if "0 < x" "x \<le> y" "x mod n = y mod n" for x y
  proof -
    have "y mod n = x mod n" using that(3) by simp
    then have "n dvd y - x" using that(2) by (simp only: mod_eq_dvd_iff_nat)
    moreover have "y - x = (y - 1) - (x - 1)" using that by simp
    ultimately have "n dvd (y - 1) - (x - 1)" by simp
    moreover have "x - 1 \<le> y - 1" using that(2) by simp
    ultimately have "(y - 1) mod n = (x - 1) mod n" by (simp only: mod_eq_dvd_iff_nat)
    then show ?thesis by simp
  qed
  show ?thesis
  proof (cases "p \<le> q")
    case True
    then show ?thesis by (rule step [OF assms(1) _ assms(3)])
  next
    case False
    then have "q \<le> p" by simp
    from step [OF assms(2) this assms(3) [symmetric]] show ?thesis by (rule sym)
  qed
qed

section \<open>Contents and invariant\<close>

abbreviation entry :: "shard \<Rightarrow> nat \<Rightarrow> handle option" where
  "entry s \<equiv> map_of (table s)"

abbreviation clean :: "page \<Rightarrow> page" where
  "clean p \<equiv> p\<lparr>is_dirty := False\<rparr>"

definition contents :: "shard \<Rightarrow> nat \<Rightarrow> page" where
  "contents s pid =
     (case entry s pid of
        Some e \<Rightarrow> clean (pages s ! page_array_id e)
      | None \<Rightarrow> clean (disk (file_allocator s) ! page_loc s pid))"

text \<open>The pages a shard is responsible for: \<open>r\<close> is its number, \<open>K\<close> the ids handed out to it.\<close>

definition owned :: "nat \<Rightarrow> nat set \<Rightarrow> shard \<Rightarrow> bool" where
  "owned r K s \<longleftrightarrow> 0 < shard_num s \<and> (\<forall>pid \<in> K. 0 < pid \<and> pid < 2 ^ 32 \<and> pid mod shard_num s = r)"

definition handles_inv :: "shard \<Rightarrow> bool" where
  "handles_inv s \<longleftrightarrow>
     distinct (map fst (table s)) \<and> distinct (lru s @ in_use s) \<and>
     (\<forall>pid. pid \<in> set (lru s) \<longleftrightarrow> (\<exists>e. entry s pid = Some e \<and> refs e = 0)) \<and>
     (\<forall>pid. pid \<in> set (in_use s) \<longleftrightarrow> (\<exists>e. entry s pid = Some e \<and> refs e \<noteq> 0))"

definition buffers_inv :: "shard \<Rightarrow> bool" where
  "buffers_inv s \<longleftrightarrow>
     (\<forall>pid e. entry s pid = Some e \<longrightarrow>
        page_array_id e < length (pages s) \<and> page_array_id e \<notin> set (recent_evicted s)) \<and>
     (\<forall>p q e f. entry s p = Some e \<and> entry s q = Some f \<and> page_array_id e = page_array_id f \<longrightarrow> p = q) \<and>
     distinct (recent_evicted s) \<and> set (recent_evicted s) \<subseteq> {..<length (pages s)} \<and>
     length (table s) + length (recent_evicted s) = length (pages s)"

definition file_inv :: "nat set \<Rightarrow> shard \<Rightarrow> bool" where
  "file_inv K s \<longleftrightarrow>
     dom (entry s) \<subseteq> K \<and> page_num (file_allocator s) < 2 ^ 32 \<and>
     (\<forall>pid \<in> K. page_loc s pid < page_num (file_allocator s)) \<and>
     (\<forall>pid \<in> K. entry s pid = None \<longrightarrow> page_loc s pid < length (disk (file_allocator s))) \<and>
     (\<forall>pid e. entry s pid = Some e \<and> \<not> is_dirty (pages s ! page_array_id e) \<longrightarrow>
        page_loc s pid < length (disk (file_allocator s)) \<and>
        clean (disk (file_allocator s) ! page_loc s pid) = clean (pages s ! page_array_id e))"

definition shard_inv :: "nat \<Rightarrow> nat set \<Rightarrow> shard \<Rightarrow> bool" where
  "shard_inv r K s \<longleftrightarrow> owned r K s \<and> handles_inv s \<and> buffers_inv s \<and> file_inv K s"

lemma page_loc_inj:
  assumes "owned r K s" "p \<in> K" "q \<in> K" "page_loc s p = page_loc s q"
  shows "p = q"
proof -
  have "sub32 p 1 = p - 1" "sub32 q 1 = q - 1"
    using assms(1-3) by (auto simp: owned_def Suc_le_eq intro!: sub32_diff)
  then have d: "(p - 1) div shard_num s = (q - 1) div shard_num s"
    using assms(4) by (simp add: page_loc_def)
  have "(p - 1) mod shard_num s = (q - 1) mod shard_num s"
    using assms(1-3) by (intro pred_mod) (auto simp: owned_def)
  with d have "p - 1 = q - 1" by (metis div_mult_mod_eq)
  moreover have "0 < p" "0 < q" using assms(1-3) by (auto simp: owned_def)
  ultimately show ?thesis by simp
qed

section \<open>Writing back and evicting\<close>

lemma write_slot:
  "off < length (write_slot d off p)" "write_slot d off p ! off = p"
  "i < length d \<Longrightarrow> i < length (write_slot d off p)"
  "i < length d \<Longrightarrow> i \<noteq> off \<Longrightarrow> write_slot d off p ! i = d ! i"
  by (auto simp: write_slot_def nth_append)

lemma WritePage_ok:
  assumes "WritePage f off p = (p', f')"
    and clean: "\<not> is_dirty p \<Longrightarrow> off < length (disk f) \<and> clean (disk f ! off) = clean p"
  shows "clean p' = clean p" "page_num f' = page_num f" "off < length (disk f')"
    "clean (disk f' ! off) = clean p"
    "i < length (disk f) \<Longrightarrow> i < length (disk f')"
    "i < length (disk f) \<Longrightarrow> i \<noteq> off \<Longrightarrow> disk f' ! i = disk f ! i"
  using assms by (auto simp: WritePage_def Let_def write_slot split: if_splits)

lemma handles_inv_remove:
  assumes "handles_inv s" "lru s' = remove1 pid (lru s)" "in_use s' = remove1 pid (in_use s)"
    "table s' = AList.delete pid (table s)"
  shows "handles_inv s'"
proof -
  have "distinct (lru s)" "distinct (in_use s)" using assms(1) by (auto simp: handles_inv_def)
  then have "set (lru s') = set (lru s) - {pid}" "set (in_use s') = set (in_use s) - {pid}"
    "distinct (lru s')" "distinct (in_use s')"
    using assms(2,3) by (simp_all add: set_remove1_eq distinct_remove1)
  then show ?thesis
    using assms(1,4) unfolding handles_inv_def
    by (auto simp: AList.delete_conv' AList.distinct_delete)
qed

lemma buffers_inv_remove:
  assumes "buffers_inv s" "handles_inv s" "entry s pid = Some e"
    "recent_evicted s' = recent_evicted s @ [page_array_id e]"
    "table s' = AList.delete pid (table s)" "length (pages s') = length (pages s)"
  shows "buffers_inv s'"
proof -
  have "Suc (length (table s')) = length (table s)"
    using length_alist_delete [of "table s" pid] assms(2,3,5) by (simp add: handles_inv_def)
  moreover have ent: "entry s' q = (if q = pid then None else entry s q)" for q
    by (simp add: assms(5) AList.delete_conv')
  have uniq: "q = pid" if "entry s q = Some f" "page_array_id f = page_array_id e" for q f
    using assms(1,3) that unfolding buffers_inv_def by blast
  have B: "page_array_id g < length (pages s)" "page_array_id g \<notin> set (recent_evicted s)"
    if "entry s q = Some g" for q g using assms(1) that unfolding buffers_inv_def by blast+
  have "page_array_id g < length (pages s') \<and> page_array_id g \<notin> set (recent_evicted s')"
    if "entry s' q = Some g" for q g
  proof -
    have q: "q \<noteq> pid" "entry s q = Some g" using that ent [of q] by (auto split: if_splits)
    then have "page_array_id g \<noteq> page_array_id e" using uniq by blast
    then show ?thesis using B [OF q(2)] assms(4,6) by simp
  qed
  moreover have "x = y" if "entry s' x = Some g" "entry s' y = Some h" "page_array_id g = page_array_id h" for x y g h
  proof -
    have "entry s x = Some g" "entry s y = Some h"
      using that(1,2) ent [of x] ent [of y] by (auto split: if_splits)
    then show ?thesis using assms(1) that(3) unfolding buffers_inv_def by blast
  qed
  moreover have "distinct (recent_evicted s')" "set (recent_evicted s') \<subseteq> {..<length (pages s')}"
    using assms(1,4,6) B [OF assms(3)] by (auto simp: buffers_inv_def)
  moreover have "length (table s) + length (recent_evicted s) = length (pages s)"
    using assms(1) by (simp add: buffers_inv_def)
  ultimately show ?thesis
    using assms(4,6) unfolding buffers_inv_def by (intro conjI) (blast | simp)+
qed

definition keeps :: "nat set \<Rightarrow> shard \<Rightarrow> shard \<Rightarrow> bool" where
  "keeps K s s' \<longleftrightarrow> (\<forall>q \<in> K. contents s' q = contents s q) \<and> max_num s' = max_num s \<and>
     shard_num s' = shard_num s \<and> page_num (file_allocator s') = page_num (file_allocator s)"

lemma keeps_refl [simp]: "keeps K s s"
  by (simp add: keeps_def)

lemma keeps_trans: "keeps K s s1 \<Longrightarrow> keeps K s1 s2 \<Longrightarrow> keeps K s s2"
  by (simp add: keeps_def)

lemma Erase_keeps:
  assumes inv: "shard_inv r K s" and pid: "entry s pid = Some e"
  shows "\<exists>s'. Erase pid s = Inr s' \<and> shard_inv r K s' \<and> keeps K s s' \<and>
    table s' = AList.delete pid (table s) \<and> lru s' = remove1 pid (lru s) \<and>
    in_use s' = remove1 pid (in_use s)"
proof -
  let ?p = "pages s ! page_array_id e" and ?off = "page_loc s pid" and ?f = "file_allocator s"
  obtain p' f' where w: "WritePage ?f ?off ?p = (p', f')" by (cases "WritePage ?f ?off ?p")
  have I: "owned r K s" "handles_inv s" "buffers_inv s" "file_inv K s"
    using inv by (simp_all add: shard_inv_def)
  have a: "page_array_id e < length (pages s)" using I(3) pid by (auto simp: buffers_inv_def)
  have uniq: "page_array_id e \<noteq> page_array_id g" if "entry s q = Some g" "q \<noteq> pid" for q g
    using I(3) pid that unfolding buffers_inv_def by blast
  have "\<not> is_dirty ?p \<Longrightarrow> ?off < length (disk ?f) \<and> clean (disk ?f ! ?off) = clean ?p"
    using I(4) pid by (auto simp: file_inv_def)
  note W = WritePage_ok [OF w this]
  have pidK: "pid \<in> K" using I(4) pid by (auto simp: file_inv_def)
  define s' where "s' = (LRU_Remove pid (s\<lparr>file_allocator := f', pages := (pages s)[page_array_id e := p']\<rparr>))
    \<lparr>recent_evicted := recent_evicted s @ [page_array_id e], table := AList.delete pid (table s)\<rparr>"
  have s': "table s' = AList.delete pid (table s)" "lru s' = remove1 pid (lru s)"
    "in_use s' = remove1 pid (in_use s)" "file_allocator s' = f'" "max_num s' = max_num s"
    "shard_num s' = shard_num s" "pages s' = (pages s)[page_array_id e := p']"
    "recent_evicted s' = recent_evicted s @ [page_array_id e]"
    by (simp_all add: s'_def LRU_Remove_def)
  have loc: "page_loc s' = page_loc s" by (rule ext) (simp add: page_loc_def s')
  have ent: "entry s' q = (if q = pid then None else entry s q)" for q
    by (simp add: s'(1) AList.delete_conv')
  have "Erase pid s = Inr s'" using pid w by (simp add: Erase_def s'_def Let_def)
  moreover have "handles_inv s'" by (rule handles_inv_remove [OF I(2) s'(2,3,1)])
  moreover have "buffers_inv s'" by (rule buffers_inv_remove [OF I(3,2) pid s'(8,1)]) (simp add: s'(7))
  moreover have other: "page_loc s q \<noteq> ?off" if "q \<in> K" "q \<noteq> pid" for q
    using page_loc_inj [OF I(1) that(1) pidK] that(2) by blast
  have "file_inv K s'"
    unfolding file_inv_def
  proof (intro conjI ballI allI impI)
    show "dom (entry s') \<subseteq> K" using I(4) by (auto simp: file_inv_def ent split: if_splits)
    show "page_num (file_allocator s') < 2 ^ 32" using I(4) W(2) by (simp add: file_inv_def s')
    show "page_loc s' q < page_num (file_allocator s')" if "q \<in> K" for q
      using I(4) W(2) that by (simp add: file_inv_def s' loc)
    show "page_loc s' q < length (disk (file_allocator s'))" if "q \<in> K" "entry s' q = None" for q
      using I(4) W(3,5) that by (cases "q = pid") (auto simp: file_inv_def s' loc ent)
    fix q g assume q: "entry s' q = Some g \<and> \<not> is_dirty (pages s' ! page_array_id g)"
    then have "q \<noteq> pid" "entry s q = Some g" using ent [of q] by (auto split: if_splits)
    moreover from this have "pages s' ! page_array_id g = pages s ! page_array_id g"
      using uniq [of q g] by (simp add: s'(7))
    moreover have "q \<in> K" using \<open>entry s q = Some g\<close> I(4) by (auto simp: file_inv_def)
    ultimately show "page_loc s' q < length (disk (file_allocator s'))"
      "clean (disk (file_allocator s') ! page_loc s' q) = clean (pages s' ! page_array_id g)"
      using q I(4) W(5,6) other [of q] by (auto simp: file_inv_def s' loc)
  qed
  moreover have "contents s' q = contents s q" if "q \<in> K" for q
  proof (cases "q = pid")
    case True
    then show ?thesis using W(4) pid by (simp add: contents_def ent s'(4,7) loc)
  next
    case False
    then show ?thesis
      using W(6) [of "page_loc s q"] other [OF that False] I(4) that uniq [of q]
      by (auto simp: contents_def ent s'(4,7) loc file_inv_def split: option.split)
  qed
  ultimately show ?thesis
    using I(1) s'(1-6) W(2) by (auto simp: shard_inv_def owned_def keeps_def)
qed

lemma UnpinAndRelease_erase:
  "entry s pid = Some e \<Longrightarrow> refs e = 1 \<Longrightarrow> UnpinAndRelease pid s = Erase pid s"
  by (simp add: UnpinAndRelease_def Erase_def Let_def sub32_diff AList.update_conv' LRU_Remove_def
      AList.delete_update_same page_loc_def)

section \<open>Making room\<close>

lemma table_split:
  assumes "handles_inv s"
  shows "length (table s) = length (lru s) + length (in_use s)"
proof -
  have "set (map fst (table s)) = set (lru s @ in_use s)"
  proof (rule set_eqI)
    fix x
    have "x \<in> set (map fst (table s)) \<longleftrightarrow> entry s x \<noteq> None"
      by (simp add: map_of_eq_None_iff)
    also have "\<dots> \<longleftrightarrow> x \<in> set (lru s @ in_use s)"
      using assms by (cases "entry s x") (auto simp: handles_inv_def)
    finally show "x \<in> set (map fst (table s)) \<longleftrightarrow> x \<in> set (lru s @ in_use s)" .
  qed
  then have "card (set (map fst (table s))) = card (set (lru s @ in_use s))" by simp
  moreover have "distinct (map fst (table s))" "distinct (lru s @ in_use s)"
    using assms by (simp_all add: handles_inv_def)
  ultimately have "length (map fst (table s)) = length (lru s @ in_use s)"
    by (simp only: distinct_card)
  then show ?thesis by simp
qed

lemma evict_loop_keeps:
  assumes "shard_inv r K s"
  shows "\<exists>s'. evict_loop (length (table s)) s = Inr (length (table s'), s') \<and> shard_inv r K s' \<and>
    keeps K s s' \<and> in_use s' = in_use s \<and> (max_num s \<le> length (table s') \<longrightarrow> lru s' = []) \<and>
    (\<forall>q. entry s' q = entry s q \<or> entry s' q = None)"
  using assms
proof (induction "length (lru s)" arbitrary: s rule: less_induct)
  case less
  show ?case
  proof (cases "max_num s \<le> length (table s) \<and> lru s \<noteq> []")
    case False
    then have "evict_loop (length (table s)) s = Inr (length (table s), s)"
      using evict_loop.simps [of "length (table s)" s] by (simp only: False if_False)
    then show ?thesis using less.prems False by auto
  next
    case True
    then obtain old rest where l: "lru s = old # rest" by (cases "lru s") auto
    have H: "handles_inv s" using less.prems by (simp add: shard_inv_def)
    then obtain e where e: "entry s old = Some e" "refs e = 0" using l by (force simp: handles_inv_def)
    obtain s1 where s1: "Erase old s = Inr s1" "shard_inv r K s1" "keeps K s s1"
      "table s1 = AList.delete old (table s)" "lru s1 = remove1 old (lru s)" "in_use s1 = remove1 old (in_use s)"
      using Erase_keeps [OF less.prems e(1)] by blast
    have "old \<notin> set (in_use s)" using H l by (auto simp: handles_inv_def)
    then have iu: "in_use s1 = in_use s" using s1(6) by (simp add: remove1_idem)
    have "length (lru s1) < length (lru s)" using s1(5) l by simp
    from less.hyps [OF this s1(2)] obtain s' where s': "evict_loop (length (table s1)) s1 = Inr (length (table s'), s')"
      "shard_inv r K s'" "keeps K s1 s'" "in_use s' = in_use s1"
      "max_num s1 \<le> length (table s') \<longrightarrow> lru s' = []" "\<forall>q. entry s' q = entry s1 q \<or> entry s' q = None"
      by blast
    have cnt: "Suc (length (table s1)) = length (table s)"
      using length_alist_delete [of "table s" old] H e(1) s1(4) by (simp add: handles_inv_def)
    then have "length (table s) - 1 = length (table s1)" by simp
    then have "evict_loop (length (table s)) s = evict_loop (length (table s1)) s1"
      using True l e s1(1) by (simp add: evict_loop.simps [of _ s])
    moreover have "max_num s1 = max_num s" using s1(3) by (simp add: keeps_def)
    moreover have "\<forall>q. entry s' q = entry s q \<or> entry s' q = None"
      using s'(6) s1(4) by (metis AList.delete_conv' fun_upd_apply)
    ultimately show ?thesis using s' iu keeps_trans [OF s1(3) s'(3)] by auto
  qed
qed

lemma MayOverflow_keeps:
  assumes "shard_inv r K s"
  shows "\<exists>s'. MayOverflow s = Inr (max_num s \<le> length (in_use s), s') \<and> shard_inv r K s' \<and> keeps K s s' \<and>
    in_use s' = in_use s \<and> (length (in_use s) < max_num s \<longrightarrow> length (table s') < max_num s) \<and>
    (\<forall>q. entry s' q = entry s q \<or> entry s' q = None)"
proof -
  obtain s' where s': "evict_loop (length (table s)) s = Inr (length (table s'), s')" "shard_inv r K s'"
    "keeps K s s'" "in_use s' = in_use s" "max_num s \<le> length (table s') \<longrightarrow> lru s' = []"
    "\<forall>q. entry s' q = entry s q \<or> entry s' q = None"
    using evict_loop_keeps [OF assms] by blast
  have "length (table s') = length (lru s') + length (in_use s)"
    using table_split [of s'] s'(2,4) by (simp add: shard_inv_def)
  then have "max_num s' \<le> length (table s') \<longleftrightarrow> max_num s \<le> length (in_use s)"
    "length (in_use s) < max_num s \<longrightarrow> length (table s') < max_num s"
    using s'(3,5) by (auto simp: keeps_def)
  then show ?thesis using s' by (simp add: MayOverflow_def)
qed

section \<open>Installing a page in a buffer\<close>

lemma GetBuffer_ok:
  assumes "buffers_inv s" "length (table s) < max_num s"
  shows "\<exists>a s2. GetBuffer s = Inr (a, s2) \<and> a < length (pages s2) \<and> pages s2 ! a = zero_page \<and>
    a \<notin> set (recent_evicted s2) \<and> distinct (recent_evicted s2) \<and>
    set (recent_evicted s2) \<subseteq> {..<length (pages s2)} \<and>
    Suc (length (table s) + length (recent_evicted s2)) = length (pages s2) \<and>
    (\<forall>pid e. entry s pid = Some e \<longrightarrow> page_array_id e \<noteq> a \<and> page_array_id e < length (pages s2) \<and>
       page_array_id e \<notin> set (recent_evicted s2) \<and> pages s2 ! page_array_id e = pages s ! page_array_id e) \<and>
    s2 = s\<lparr>pages := pages s2, recent_evicted := recent_evicted s2\<rparr>"
proof (cases "recent_evicted s")
  case Nil
  let ?n = "length (pages s)"
  have n: "length (table s) = ?n" using assms(1) Nil by (simp add: buffers_inv_def)
  have B: "page_array_id e < ?n" if "entry s pid = Some e" for pid e
    using assms(1) that unfolding buffers_inv_def by blast
  have "GetBuffer s = Inr (?n, s\<lparr>pages := pages s @ [zero_page], recent_evicted := []\<rparr>)"
    using Nil assms(2) n by (simp add: GetBuffer_def Let_def)
  then show ?thesis using n B by (auto simp: nth_append dest: B)
next
  case (Cons a rest)
  have B: "page_array_id e < length (pages s) \<and> page_array_id e \<notin> set (recent_evicted s)"
    if "entry s pid = Some e" for pid e
    using assms(1) that unfolding buffers_inv_def by blast
  have R: "a < length (pages s)" "a \<notin> set rest" "distinct rest" "set rest \<subseteq> {..<length (pages s)}"
    "length (table s) + Suc (length rest) = length (pages s)"
    using assms(1) Cons by (auto simp: buffers_inv_def)
  have "GetBuffer s = Inr (a, s\<lparr>pages := (pages s)[a := zero_page], recent_evicted := rest\<rparr>)"
    using Cons by (simp add: GetBuffer_def Let_def)
  moreover have "page_array_id e \<noteq> a \<and> page_array_id e < length (pages s) \<and> page_array_id e \<notin> set rest \<and>
      (pages s)[a := zero_page] ! page_array_id e = pages s ! page_array_id e"
    if "entry s pid = Some e" for pid e using B [OF that] Cons by (auto simp: nth_list_update)
  ultimately show ?thesis using R by auto
qed

definition install :: "nat \<Rightarrow> nat \<Rightarrow> page \<Rightarrow> treefile \<Rightarrow> shard \<Rightarrow> shard" where
  "install a pid p f s = s\<lparr>pages := (pages s)[a := p], file_allocator := f,
     table := AList.update pid \<lparr>page_array_id = a, refs = 0\<rparr> (table s), lru := lru s @ [pid]\<rparr>"

lemma handles_inv_install:
  assumes "handles_inv s" "entry s pid = None" "lru s' = lru s @ [pid]" "in_use s' = in_use s"
    "table s' = AList.update pid \<lparr>page_array_id = a, refs = 0\<rparr> (table s)"
  shows "handles_inv s'"
proof -
  have "pid \<notin> set (lru s)" "pid \<notin> set (in_use s)" using assms(1,2) by (auto simp: handles_inv_def)
  then show ?thesis
    using assms unfolding handles_inv_def
    by (auto simp: AList.update_conv' AList.distinct_update)
qed

lemma install_keeps:
  assumes inv: "shard_inv r K s" and room: "length (table s) < max_num s"
    and buf: "GetBuffer s = Inr (a, s2)" and new: "entry s pid = None"
    and pid: "0 < pid" "pid < 2 ^ 32" "pid mod shard_num s = r"
    and f: "disk f = disk (file_allocator s)" "page_num (file_allocator s) \<le> page_num f"
      "page_num f < 2 ^ 32" "page_loc s pid < page_num f"
    and saved: "\<not> is_dirty p \<Longrightarrow> page_loc s pid < length (disk f) \<and> clean (disk f ! page_loc s pid) = clean p"
    and s': "s' = install a pid p f s2"
  shows "shard_inv r (insert pid K) s'" "contents s' pid = clean p"
    "q \<in> K \<Longrightarrow> q \<noteq> pid \<Longrightarrow> contents s' q = contents s q"
    "entry s' pid = Some \<lparr>page_array_id = a, refs = 0\<rparr>" "pages s' ! a = p" "a < length (pages s')"
    "in_use s' = in_use s" "max_num s' = max_num s" "shard_num s' = shard_num s"
    "file_allocator s' = f"
proof -
  have I: "owned r K s" "handles_inv s" "buffers_inv s" "file_inv K s"
    using inv by (simp_all add: shard_inv_def)
  obtain B: "a < length (pages s2)" "a \<notin> set (recent_evicted s2)"
      "distinct (recent_evicted s2)" "set (recent_evicted s2) \<subseteq> {..<length (pages s2)}"
      "Suc (length (table s) + length (recent_evicted s2)) = length (pages s2)"
    and H: "\<And>q e. entry s q = Some e \<Longrightarrow> page_array_id e \<noteq> a \<and> page_array_id e < length (pages s2) \<and>
       page_array_id e \<notin> set (recent_evicted s2) \<and> pages s2 ! page_array_id e = pages s ! page_array_id e"
    and s2: "s2 = s\<lparr>pages := pages s2, recent_evicted := recent_evicted s2\<rparr>"
    using GetBuffer_ok [OF I(3) room] buf by auto
  have T: "table s2 = table s" "lru s2 = lru s" "in_use s2 = in_use s" "max_num s2 = max_num s" "shard_num s2 = shard_num s"
    by (subst s2, simp)+
  have F: "table s' = AList.update pid \<lparr>page_array_id = a, refs = 0\<rparr> (table s)" "lru s' = lru s @ [pid]"
    "in_use s' = in_use s" "max_num s' = max_num s" "shard_num s' = shard_num s" "file_allocator s' = f"
    "pages s' = (pages s2)[a := p]" "recent_evicted s' = recent_evicted s2"
    by (simp_all add: s' install_def T)
  then show "in_use s' = in_use s" "max_num s' = max_num s" "shard_num s' = shard_num s" "file_allocator s' = f"
    by simp_all
  have ent: "entry s' q = (if q = pid then Some \<lparr>page_array_id = a, refs = 0\<rparr> else entry s q)" for q
    by (simp add: F(1) AList.update_conv')
  then show "entry s' pid = Some \<lparr>page_array_id = a, refs = 0\<rparr>" by simp
  show "pages s' ! a = p" "a < length (pages s')" using B(1) by (simp_all add: F(7))
  have loc: "page_loc s' = page_loc s" by (rule ext) (simp add: page_loc_def F(5))
  have old: "pages s' ! page_array_id e = pages s ! page_array_id e" if "entry s q = Some e" for q e
    using H [OF that] by (simp add: F(7))
  show "contents s' pid = clean p" using B(1) by (simp add: contents_def ent F(7))
  show "contents s' q = contents s q" if "q \<in> K" "q \<noteq> pid"
    using old that f(1) by (auto simp: contents_def ent F(6) loc split: option.split)
  have "handles_inv s'" by (rule handles_inv_install [OF I(2) new F(2,3,1)])
  moreover have "buffers_inv s'"
    unfolding buffers_inv_def
  proof (intro conjI allI impI)
    show "page_array_id e < length (pages s')" if "entry s' q = Some e" for q e
      using that H [of q e] B(1) by (auto simp: ent F(7) split: if_splits)
    show "page_array_id e \<notin> set (recent_evicted s')" if "entry s' q = Some e" for q e
      using that H [of q e] B(2) by (auto simp: ent F(8) split: if_splits)
    show "x = y" if xy: "entry s' x = Some e \<and> entry s' y = Some g \<and> page_array_id e = page_array_id g" for x y e g
    proof -
      have U: "x = y" if "entry s x = Some e" "entry s y = Some g"
        using I(3) that xy unfolding buffers_inv_def by blast
      consider "x = pid" "y = pid" | "x = pid" "y \<noteq> pid" | "x \<noteq> pid" "y = pid" | "x \<noteq> pid" "y \<noteq> pid" by blast
      then show ?thesis
      proof cases
        case 2
        then show ?thesis using xy H [of y g] by (auto simp: ent)
      next
        case 3
        then show ?thesis using xy H [of x e] by (auto simp: ent)
      next
        case 4
        then show ?thesis using xy U by (simp add: ent)
      qed simp
    qed
    show "distinct (recent_evicted s')" "set (recent_evicted s') \<subseteq> {..<length (pages s')}"
      using B(3,4) by (simp_all add: F(7,8))
    show "length (table s') + length (recent_evicted s') = length (pages s')"
      using B(5) length_alist_update(2) [OF new] by (simp add: F(1,7,8))
  qed
  moreover have "file_inv (insert pid K) s'"
    unfolding file_inv_def
  proof (intro conjI ballI allI impI)
    show "dom (entry s') \<subseteq> insert pid K"
    proof
      fix q assume "q \<in> dom (entry s')"
      then have "q = pid \<or> q \<in> dom (entry s)" by (auto simp: ent split: if_splits)
      then show "q \<in> insert pid K" using I(4) unfolding file_inv_def by blast
    qed
    show "page_num (file_allocator s') < 2 ^ 32" using f(3) by (simp add: F(6))
    show "page_loc s' q < page_num (file_allocator s')" if "q \<in> insert pid K" for q
      using that I(4) f(2,4) by (auto simp: file_inv_def F(6) loc intro: less_le_trans)
    show "page_loc s' q < length (disk (file_allocator s'))" if "q \<in> insert pid K" "entry s' q = None" for q
      using that I(4) f(1) by (auto simp: file_inv_def F(6) loc ent split: if_splits)
    fix q e assume q: "entry s' q = Some e \<and> \<not> is_dirty (pages s' ! page_array_id e)"
    have "page_loc s' q < length (disk (file_allocator s')) \<and>
      clean (disk (file_allocator s') ! page_loc s' q) = clean (pages s' ! page_array_id e)"
    proof (cases "q = pid")
      case True
      then have "e = \<lparr>page_array_id = a, refs = 0\<rparr>" using q by (simp add: ent)
      then show ?thesis using q True B(1) saved by (auto simp: F(6,7) loc)
    next
      case False
      then have e: "entry s q = Some e" using q by (simp add: ent)
      then show ?thesis using q I(4) old [OF e] f(1) by (auto simp: file_inv_def F(6) loc)
    qed
    then show "page_loc s' q < length (disk (file_allocator s'))"
      "clean (disk (file_allocator s') ! page_loc s' q) = clean (pages s' ! page_array_id e)" by simp_all
  qed
  moreover have "owned r (insert pid K) s'" using I(1) pid by (auto simp: owned_def F(5))
  ultimately show "shard_inv r (insert pid K) s'" by (simp add: shard_inv_def)
qed

lemma extend_file:
  assumes "page_num f < 2 ^ 32" "Suc loc < 2 ^ 32"
  shows "disk (extend_file loc f) = disk f" "page_num (extend_file loc f) = max (page_num f) (Suc loc)"
proof -
  have "page_num f + n < 2 ^ 32 \<Longrightarrow>
      ((\<lambda>g. snd (GetNewPageid g)) ^^ n) f = f\<lparr>page_num := page_num f + n\<rparr>" for n
    by (induction n) (simp_all add: GetNewPageid_def)
  from this [of "Suc loc - page_num f"] have "extend_file loc f = f\<lparr>page_num := max (page_num f) (Suc loc)\<rparr>"
    using assms by (auto simp: extend_file_def max_def)
  then show "disk (extend_file loc f) = disk f" "page_num (extend_file loc f) = max (page_num f) (Suc loc)"
    by simp_all
qed

section \<open>The operations of a shard\<close>

lemma page_loc_less:
  assumes "1 < shard_num s"
  shows "Suc (page_loc s pid) < 2 ^ 32"
proof -
  have "page_loc s pid \<le> sub32 pid 1 div 2"
    unfolding page_loc_def using assms by (intro div_le_mono2) auto
  also have "\<dots> < 2147483648" using sub32_less [of pid 1] by (simp add: less_mult_imp_div_less)
  finally show ?thesis by simp
qed

lemma buffers_inv_uniq:
  "buffers_inv s \<Longrightarrow> entry s x = Some e \<Longrightarrow> entry s y = Some g \<Longrightarrow> page_array_id e = page_array_id g \<Longrightarrow> x = y"
  unfolding buffers_inv_def by blast

lemma file_inv_saved:
  "file_inv K s \<Longrightarrow> entry s q = Some e \<Longrightarrow> \<not> is_dirty (pages s ! page_array_id e) \<Longrightarrow>
    page_loc s q < length (disk (file_allocator s)) \<and>
    clean (disk (file_allocator s) ! page_loc s q) = clean (pages s ! page_array_id e)"
  unfolding file_inv_def by blast

text \<open>Changing reference counts and lists leaves the buffers and the file alone.\<close>

lemma retable:
  assumes same: "pages s' = pages s" "file_allocator s' = file_allocator s" "shard_num s' = shard_num s"
      "recent_evicted s' = recent_evicted s" "length (table s') = length (table s)"
    and aid: "\<And>q. map_option page_array_id (entry s' q) = map_option page_array_id (entry s q)"
  shows "buffers_inv s \<Longrightarrow> buffers_inv s'" "file_inv K s \<Longrightarrow> file_inv K s'" "contents s' q = contents s q"
proof -
  have loc: "page_loc s' = page_loc s" by (rule ext) (simp add: page_loc_def same(3))
  have some: "\<exists>h. entry s q = Some h \<and> page_array_id h = page_array_id g" if "entry s' q = Some g" for q g
    using aid [of q] that by (cases "entry s q") auto
  have none: "entry s' q = None \<longleftrightarrow> entry s q = None" for q using aid [of q] by (cases "entry s q") auto
  show "contents s' q = contents s q"
    using aid [of q] by (auto simp: contents_def same(1,2) loc split: option.split)
  show "buffers_inv s'" if B: "buffers_inv s"
    unfolding buffers_inv_def
  proof (intro conjI allI impI)
    fix q g assume "entry s' q = Some g"
    then obtain h where "entry s q = Some h" "page_array_id h = page_array_id g" using some by blast
    then show "page_array_id g < length (pages s')" "page_array_id g \<notin> set (recent_evicted s')"
      using B unfolding buffers_inv_def same(1,4) by metis+
  next
    fix x y g h assume *: "entry s' x = Some g \<and> entry s' y = Some h \<and> page_array_id g = page_array_id h"
    then have x: "entry s' x = Some g" and y: "entry s' y = Some h" by blast+
    obtain g' where g': "entry s x = Some g'" "page_array_id g' = page_array_id g" using some [OF x] by blast
    obtain h' where h': "entry s y = Some h'" "page_array_id h' = page_array_id h" using some [OF y] by blast
    have "page_array_id g' = page_array_id h'" using * g'(2) h'(2) by simp
    then show "x = y" by (rule buffers_inv_uniq [OF B g'(1) h'(1)])
  qed (use B same in \<open>simp_all add: buffers_inv_def\<close>)
  show "file_inv K s'" if F: "file_inv K s"
    unfolding file_inv_def
  proof (intro conjI ballI allI impI)
    have "dom (entry s') = dom (entry s)" using none by (simp add: dom_def)
    then show "dom (entry s') \<subseteq> K" using F by (simp add: file_inv_def)
    fix q g assume *: "entry s' q = Some g \<and> \<not> is_dirty (pages s' ! page_array_id g)"
    then obtain h where h: "entry s q = Some h" "page_array_id h = page_array_id g" using some [of q g] by blast
    have "\<not> is_dirty (pages s ! page_array_id h)" using * h(2) same(1) by simp
    from file_inv_saved [OF F h(1) this]
    show "page_loc s' q < length (disk (file_allocator s'))"
      "clean (disk (file_allocator s') ! page_loc s' q) = clean (pages s' ! page_array_id g)"
      unfolding same(1,2) loc h(2) by simp_all
  qed (use F none same in \<open>simp_all add: file_inv_def loc\<close>)
qed

lemma Ref_keeps:
  assumes inv: "shard_inv r K s" and e: "entry s pid = Some e" "refs e < 2 ^ 32 - 1"
  shows "shard_inv r K (Ref pid e s)" "keeps K s (Ref pid e s)" "pages (Ref pid e s) = pages s"
    "entry (Ref pid e s) = (entry s)(pid \<mapsto> e\<lparr>refs := refs e + 1\<rparr>)"
proof -
  let ?s = "Ref pid e s"
  have I: "owned r K s" "handles_inv s" "buffers_inv s" "file_inv K s"
    using inv by (simp_all add: shard_inv_def)
  have F: "pages ?s = pages s" "file_allocator ?s = file_allocator s" "shard_num ?s = shard_num s"
    "max_num ?s = max_num s" "recent_evicted ?s = recent_evicted s"
    "table ?s = AList.update pid (e\<lparr>refs := refs e + 1\<rparr>) (table s)"
    "lru ?s = (if refs e = 0 then remove1 pid (lru s) else lru s)"
    "in_use ?s = (if refs e = 0 then remove1 pid (in_use s) @ [pid] else in_use s)"
    using e(2) by (simp_all add: Ref_def LRU_Remove_def Let_def)
  show "pages ?s = pages s" by (rule F(1))
  show ent: "entry ?s = (entry s)(pid \<mapsto> e\<lparr>refs := refs e + 1\<rparr>)" by (simp add: F(6) AList.update_conv')
  have aid: "map_option page_array_id (entry ?s q) = map_option page_array_id (entry s q)" for q
    using e(1) by (simp add: ent)
  have len: "length (table ?s) = length (table s)"
    using length_alist_update(1) [of "table s" pid] e(1) by (simp add: F(6))
  note R = retable [OF F(1-3,5) len aid]
  show "keeps K s ?s" using R(3) by (simp add: keeps_def F(2-4))
  have d: "distinct (lru s)" "distinct (in_use s)" "set (lru s) \<inter> set (in_use s) = {}"
    using I(2) by (auto simp: handles_inv_def)
  have "handles_inv ?s"
  proof (cases "refs e = 0")
    case True
    then have "pid \<in> set (lru s)" "pid \<notin> set (in_use s)" using I(2) e(1) by (auto simp: handles_inv_def)
    then show ?thesis
      using True I(2) d unfolding handles_inv_def F(6-8) AList.update_conv'
      by (auto simp: remove1_idem AList.distinct_update simp del: map_of_eq_Some_iff)
  next
    case False
    then show ?thesis
      using I(2) e(1) unfolding handles_inv_def F(6-8) AList.update_conv'
      by (auto simp: AList.distinct_update simp del: map_of_eq_Some_iff)
  qed
  moreover have "buffers_inv ?s" "file_inv K ?s" using R(1,2) I(3,4) by blast+
  ultimately show "shard_inv r K ?s" using I(1) by (simp add: shard_inv_def owned_def F(3))
qed

lemma Pin_hit:
  assumes "shard_inv r K s" "entry s pid = Some e" "refs e < 2 ^ 32 - 1"
  shows "\<exists>s'. Pin pid s = Inr (page_array_id e, s') \<and> shard_inv r K s' \<and> keeps K s s' \<and>
    clean (pages s' ! page_array_id e) = contents s pid \<and>
    entry s' pid = Some (e\<lparr>refs := refs e + 1\<rparr>)"
  using Ref_keeps [OF assms] assms(2) by (auto simp: Pin_def RetrieveHandle_def contents_def)

lemma Pin_miss:
  assumes inv: "shard_inv r K s" and pid: "pid \<in> K" "entry s pid = None"
    and room: "length (in_use s) < max_num s"
  shows "\<exists>a s'. Pin pid s = Inr (a, s') \<and> shard_inv r K s' \<and> keeps K s s' \<and>
    clean (pages s' ! a) = contents s pid \<and> entry s' pid = Some \<lparr>page_array_id = a, refs = 1\<rparr>"
proof -
  obtain s1 where s1: "MayOverflow s = Inr (False, s1)" "shard_inv r K s1" "keeps K s s1"
    "length (table s1) < max_num s" "entry s1 pid = None"
    using MayOverflow_keeps [OF inv] room pid(2) by (metis linorder_not_less)
  have I: "owned r K s1" "buffers_inv s1" "file_inv K s1" using s1(2) by (simp_all add: shard_inv_def)
  have mx: "length (table s1) < max_num s1" using s1(3,4) by (simp add: keeps_def)
  obtain a s2 where buf: "GetBuffer s1 = Inr (a, s2)" and s2: "s2 = s1\<lparr>pages := pages s2, recent_evicted := recent_evicted s2\<rparr>"
    using GetBuffer_ok [OF I(2) mx] by blast
  have f2: "file_allocator s2 = file_allocator s1" "shard_num s2 = shard_num s1" by (subst s2, simp)+
  let ?f = "file_allocator s1" and ?l = "page_loc s1 pid"
  have l2: "page_loc s2 pid = ?l" by (simp add: page_loc_def f2)
  have L: "?l < page_num ?f" "?l < length (disk ?f)" "page_num ?f < 2 ^ 32"
    using I(3) pid(1) s1(5) by (auto simp: file_inv_def)
  have O: "0 < pid" "pid < 2 ^ 32" "pid mod shard_num s1 = r" using I(1) pid(1) by (auto simp: owned_def)
  let ?p = "disk ?f ! ?l"
  let ?s = "install a pid ?p ?f s2"
  note N = install_keeps [OF s1(2) mx buf s1(5) O refl order_refl L(3,1) _ refl, of ?p]
  have get: "GetPage (file_allocator s2) (page_loc s2 pid) = Inr ?p"
    using L by (simp add: GetPage_def f2 l2)
  have inst: "InsertTable a pid (s2\<lparr>pages := (pages s2)[a := ?p]\<rparr>) = ?s"
    by (simp add: InsertTable_def install_def f2(1) [symmetric])
  let ?e = "\<lparr>page_array_id = a, refs = 0\<rparr>"
  have ret: "RetrieveHandle pid s = Inr (Some ?e, ?s)"
    using pid(2) s1(1) buf get inst by (simp add: RetrieveHandle_def)
  have K: "insert pid K = K" using pid(1) by auto
  have S: "shard_inv r K ?s" using N(1) L(2) K by simp
  have keep: "keeps K s1 ?s"
  proof -
    have "contents ?s q = contents s1 q" if "q \<in> K" for q
    proof (cases "q = pid")
      case True
      then show ?thesis using N(2) L(2) s1(5) by (simp add: contents_def [of s1])
    next
      case False
      then show ?thesis using N(3) [OF _ that] L(2) by simp
    qed
    then show ?thesis using N(8-10) L(2) by (simp add: keeps_def)
  qed
  have R: "shard_inv r K (Ref pid ?e ?s)" "keeps K ?s (Ref pid ?e ?s)" "pages (Ref pid ?e ?s) = pages ?s"
    "entry (Ref pid ?e ?s) pid = Some (?e\<lparr>refs := refs ?e + 1\<rparr>)"
    using Ref_keeps [OF S N(4)] L(2) by simp_all
  have "clean (pages ?s ! a) = contents s pid"
    using N(5) L(2) s1(3) pid(1) s1(5) by (auto simp: keeps_def contents_def [of s1])
  then show ?thesis
    using R keeps_trans [OF keeps_trans [OF s1(3) keep] R(2)] ret by (auto simp: Pin_def)
qed

lemma Pin_full:
  assumes "shard_inv r K s" "entry s pid = None" "max_num s \<le> length (in_use s)"
  shows "Pin pid s = Inl NullDeref"
proof -
  obtain s1 where "MayOverflow s = Inr (True, s1)" using MayOverflow_keeps [OF assms(1)] assms(3) by auto
  then show ?thesis using assms(2) by (simp add: Pin_def RetrieveHandle_def)
qed

lemma Unref_keeps:
  assumes inv: "shard_inv r K s" and e: "entry s pid = Some e" "0 < refs e"
  shows "\<exists>s'. Unref pid e s = Inr s' \<and> shard_inv r K s' \<and> keeps K s s' \<and>
    entry s' = (entry s)(pid \<mapsto> e\<lparr>refs := refs e - 1\<rparr>) \<and> pages s' = pages s"
proof -
  let ?e = "e\<lparr>refs := refs e - 1\<rparr>"
  let ?t = "s\<lparr>table := AList.update pid ?e (table s)\<rparr>"
  let ?s = "if refs e = 1 then (LRU_Remove pid ?t)\<lparr>lru := lru (LRU_Remove pid ?t) @ [pid]\<rparr> else ?t"
  have I: "owned r K s" "handles_inv s" "buffers_inv s" "file_inv K s"
    using inv by (simp_all add: shard_inv_def)
  have F: "pages ?s = pages s" "file_allocator ?s = file_allocator s" "shard_num ?s = shard_num s"
    "recent_evicted ?s = recent_evicted s" "max_num ?s = max_num s"
    "table ?s = AList.update pid ?e (table s)"
    "lru ?s = (if refs e = 1 then remove1 pid (lru s) @ [pid] else lru s)"
    "in_use ?s = (if refs e = 1 then remove1 pid (in_use s) else in_use s)"
    by (simp_all add: LRU_Remove_def)
  have code: "Unref pid e s = Inr ?s" using e(2) by (simp add: Unref_def Let_def)
  have ent: "entry ?s = (entry s)(pid \<mapsto> ?e)" unfolding F(6) by (simp add: AList.update_conv')
  have aid: "map_option page_array_id (entry ?s q) = map_option page_array_id (entry s q)" for q
    unfolding ent using e(1) by simp
  have len: "length (table ?s) = length (table s)"
    unfolding F(6) using length_alist_update(1) [of "table s" pid] e(1) by simp
  note R = retable [OF F(1-4) len aid]
  have "pid \<in> set (in_use s)" "pid \<notin> set (lru s)" using I(2) e by (auto simp: handles_inv_def)
  moreover have "distinct (lru s)" "distinct (in_use s)" "set (lru s) \<inter> set (in_use s) = {}"
    using I(2) by (auto simp: handles_inv_def)
  ultimately have "handles_inv ?s"
    using I(2) e(2) unfolding handles_inv_def F(6-8) AList.update_conv'
    by (cases "refs e = 1") (auto simp: remove1_idem AList.distinct_update simp del: map_of_eq_Some_iff)
  moreover have "buffers_inv ?s" "file_inv K ?s" using R(1,2) I(3,4) by blast+
  moreover have "owned r K ?s" using I(1) unfolding owned_def F(3) .
  ultimately have "shard_inv r K ?s" unfolding shard_inv_def by blast
  moreover have "keeps K s ?s" unfolding keeps_def F(2,3,5) using R(3) by blast
  ultimately show ?thesis using code ent F(1) by blast
qed

lemma Unpin_keeps:
  assumes "shard_inv r K s" "entry s pid = Some e" "0 < refs e"
  shows "\<exists>s'. Unpin pid s = Inr s' \<and> shard_inv r K s' \<and> keeps K s s'"
  using Unref_keeps [OF assms] assms(2) by (auto simp: Unpin_def)

lemma UnpinAndRelease_keeps:
  assumes "shard_inv r K s" "entry s pid = Some e" "refs e = 1"
  shows "\<exists>s'. UnpinAndRelease pid s = Inr s' \<and> shard_inv r K s' \<and> keeps K s s' \<and> entry s' pid = None \<and>
    in_use s' = remove1 pid (in_use s)"
  using Erase_keeps [OF assms(1,2)] UnpinAndRelease_erase [OF assms(2,3)]
  by (auto simp: AList.delete_conv')

text \<open>A new page, initialised by \<open>Allocate\<close> or copied by \<open>AllocateRoot\<close>.\<close>

lemma create_keeps:
  assumes inv: "shard_inv r K s" and pid: "pid \<notin> K" "0 < pid" "pid < 2 ^ 32" "pid mod shard_num s = r"
    and room: "length (in_use s) < max_num s" and sh: "1 < shard_num s"
  obtains s1 a s2 where "MayOverflow s = Inr (False, s1)"
    "GetBuffer (s1\<lparr>file_allocator := extend_file (page_loc s1 pid) (file_allocator s1)\<rparr>) =
       Inr (a, s2\<lparr>file_allocator := extend_file (page_loc s1 pid) (file_allocator s1)\<rparr>)"
    "pages s2 ! a = zero_page" "a < length (pages s2)"
    "\<And>p s'. is_dirty p \<Longrightarrow> s' = install a pid p (extend_file (page_loc s1 pid) (file_allocator s1)) s2 \<Longrightarrow>
       shard_inv r (insert pid K) s' \<and> contents s' pid = clean p \<and> (\<forall>q \<in> K. contents s' q = contents s q) \<and>
       max_num s' = max_num s \<and> shard_num s' = shard_num s \<and> in_use s' = in_use s"
proof -
  obtain s1 where s1: "MayOverflow s = Inr (False, s1)" "shard_inv r K s1" "keeps K s s1"
    "length (table s1) < max_num s" "in_use s1 = in_use s" "\<forall>q. entry s1 q = entry s q \<or> entry s1 q = None"
    using MayOverflow_keeps [OF inv] room by (metis linorder_not_less)
  have I: "owned r K s1" "buffers_inv s1" "file_inv K s1" using s1(2) by (simp_all add: shard_inv_def)
  have mx: "length (table s1) < max_num s1" "shard_num s1 = shard_num s" using s1(3,4) by (simp_all add: keeps_def)
  have new: "entry s1 pid = None" using pid(1) I(3) by (auto simp: file_inv_def)
  obtain a s2 where buf: "GetBuffer s1 = Inr (a, s2)" "pages s2 ! a = zero_page" "a < length (pages s2)"
    using GetBuffer_ok [OF I(2) mx(1)] by blast
  let ?f = "extend_file (page_loc s1 pid) (file_allocator s1)"
  have "page_num (file_allocator s1) < 2 ^ 32" using I(3) by (simp add: file_inv_def)
  moreover have "Suc (page_loc s1 pid) < 2 ^ 32" using page_loc_less [of s1 pid] sh mx(2) by simp
  ultimately have f: "disk ?f = disk (file_allocator s1)" "page_num (file_allocator s1) \<le> page_num ?f"
    "page_num ?f < 2 ^ 32" "page_loc s1 pid < page_num ?f"
    using extend_file [of "file_allocator s1" "page_loc s1 pid"] by auto
  have buf': "GetBuffer (s1\<lparr>file_allocator := ?f\<rparr>) = Inr (a, s2\<lparr>file_allocator := ?f\<rparr>)"
    using buf(1) by (auto simp: GetBuffer_def Let_def split: if_splits)
  have "shard_inv r (insert pid K) s' \<and> contents s' pid = clean p \<and> (\<forall>q \<in> K. contents s' q = contents s q) \<and>
      max_num s' = max_num s \<and> shard_num s' = shard_num s \<and> in_use s' = in_use s"
    if p: "is_dirty p" and s': "s' = install a pid p ?f s2" for p s'
  proof -
    have "pid mod shard_num s1 = r" using pid(4) mx(2) by simp
    note N = install_keeps [OF s1(2) mx(1) buf(1) new pid(2,3) this f _ s']
    have "contents s' q = contents s q" if "q \<in> K" for q
      using N(3) [OF _ that] p pid(1) that s1(3) by (auto simp: keeps_def)
    then show ?thesis using N(1,2,7,8,9) p mx(2) s1(3,5) by (simp add: keeps_def)
  qed
  then show ?thesis using that s1(1) buf' buf(2,3) by blast
qed

lemma Allocate_creates:
  assumes "shard_inv r K s" "pid \<notin> K" "0 < pid" "pid < 2 ^ 32" "pid mod shard_num s = r"
    "length (in_use s) < max_num s" "1 < shard_num s"
  shows "\<exists>s'. Allocate pid s = Inr s' \<and> shard_inv r (insert pid K) s' \<and>
    contents s' pid = clean (PageInit zero_page pid) \<and> (\<forall>q \<in> K. contents s' q = contents s q) \<and>
    max_num s' = max_num s \<and> shard_num s' = shard_num s \<and> in_use s' = in_use s"
proof -
  obtain s1 a s2 where *: "MayOverflow s = Inr (False, s1)"
    "GetBuffer (s1\<lparr>file_allocator := extend_file (page_loc s1 pid) (file_allocator s1)\<rparr>) =
       Inr (a, s2\<lparr>file_allocator := extend_file (page_loc s1 pid) (file_allocator s1)\<rparr>)"
    "pages s2 ! a = zero_page" "a < length (pages s2)"
    "\<And>p s'. is_dirty p \<Longrightarrow> s' = install a pid p (extend_file (page_loc s1 pid) (file_allocator s1)) s2 \<Longrightarrow>
       shard_inv r (insert pid K) s' \<and> contents s' pid = clean p \<and> (\<forall>q \<in> K. contents s' q = contents s q) \<and>
       max_num s' = max_num s \<and> shard_num s' = shard_num s \<and> in_use s' = in_use s"
    by (rule create_keeps [OF assms]) blast
  let ?p = "PageInit zero_page pid"
  have "Allocate pid s = Inr (install a pid ?p (extend_file (page_loc s1 pid) (file_allocator s1)) s2)"
    using *(1-3) by (simp add: Allocate_def Let_def InsertTable_def install_def)
  moreover have "is_dirty ?p" by (simp add: PageInit_def)
  ultimately show ?thesis using *(5) [of ?p] by blast
qed

lemma AllocateRoot_creates:
  assumes "shard_inv r K s" "pid \<notin> K" "0 < pid" "pid < 2 ^ 32" "pid mod shard_num s = r"
    "length (in_use s) < max_num s" "1 < shard_num s" and dirty: "is_dirty p"
  shows "\<exists>s'. AllocateRoot pid p s = Inr s' \<and> shard_inv r (insert pid K) s' \<and>
    contents s' pid = clean (p\<lparr>page_id := pid, opt_lock := 4\<rparr>) \<and> (\<forall>q \<in> K. contents s' q = contents s q) \<and>
    max_num s' = max_num s \<and> shard_num s' = shard_num s \<and> in_use s' = in_use s"
proof -
  obtain s1 a s2 where *: "MayOverflow s = Inr (False, s1)"
    "GetBuffer (s1\<lparr>file_allocator := extend_file (page_loc s1 pid) (file_allocator s1)\<rparr>) =
       Inr (a, s2\<lparr>file_allocator := extend_file (page_loc s1 pid) (file_allocator s1)\<rparr>)"
    "pages s2 ! a = zero_page" "a < length (pages s2)"
    "\<And>p s'. is_dirty p \<Longrightarrow> s' = install a pid p (extend_file (page_loc s1 pid) (file_allocator s1)) s2 \<Longrightarrow>
       shard_inv r (insert pid K) s' \<and> contents s' pid = clean p \<and> (\<forall>q \<in> K. contents s' q = contents s q) \<and>
       max_num s' = max_num s \<and> shard_num s' = shard_num s \<and> in_use s' = in_use s"
    by (rule create_keeps [OF assms(1-7)]) blast
  let ?p = "p\<lparr>page_id := pid, opt_lock := 4\<rparr>"
  have "AllocateRoot pid p s = Inr (install a pid ?p (extend_file (page_loc s1 pid) (file_allocator s1)) s2)"
    using *(1,2) by (simp add: AllocateRoot_def Let_def install_def)
  moreover have "is_dirty ?p" using dirty by simp
  ultimately show ?thesis using *(5) [of ?p] by blast
qed

lemma file_inv_shrink:
  "file_inv K s \<Longrightarrow> dom (entry s) \<subseteq> L \<Longrightarrow> L \<subseteq> K \<Longrightarrow> file_inv L s"
  unfolding file_inv_def by blast

lemma Delete_keeps:
  assumes inv: "shard_inv r K s"
  shows "shard_inv r (K - {pid}) (Delete pid s) \<and>
    (\<forall>q \<in> K - {pid}. contents (Delete pid s) q = contents s q) \<and> entry (Delete pid s) pid = None"
proof (cases "entry s pid")
  case None
  then have "Delete pid s = s" by (simp add: Delete_def)
  moreover have "dom (entry s) \<subseteq> K - {pid}" using None inv by (auto simp: shard_inv_def file_inv_def)
  ultimately show ?thesis
    using inv None file_inv_shrink [of K s "K - {pid}"] by (auto simp: shard_inv_def owned_def)
next
  case (Some e)
  let ?s = "Delete pid s"
  have I: "owned r K s" "handles_inv s" "buffers_inv s" "file_inv K s"
    using inv by (simp_all add: shard_inv_def)
  have F: "table ?s = AList.delete pid (table s)" "lru ?s = remove1 pid (lru s)" "in_use ?s = remove1 pid (in_use s)"
    "recent_evicted ?s = recent_evicted s @ [page_array_id e]" "pages ?s = pages s"
    "file_allocator ?s = file_allocator s" "shard_num ?s = shard_num s"
    using Some by (simp_all add: Delete_def LRU_Remove_def)
  have loc: "page_loc ?s = page_loc s" by (rule ext) (simp add: page_loc_def F(7))
  have ent: "entry ?s q = (if q = pid then None else entry s q)" for q
    by (simp add: F(1) AList.delete_conv')
  have "handles_inv ?s" by (rule handles_inv_remove [OF I(2) F(2,3,1)])
  moreover have "buffers_inv ?s" by (rule buffers_inv_remove [OF I(3,2) Some F(4,1)]) (simp add: F(5))
  moreover have "file_inv (K - {pid}) ?s"
    unfolding file_inv_def F(5,6) loc
  proof (intro conjI ballI allI impI)
    have "dom (entry ?s) = dom (entry s) - {pid}" by (auto simp: ent split: if_splits)
    then show "dom (entry ?s) \<subseteq> K - {pid}" using I(4) by (auto simp: file_inv_def)
    fix q g assume "entry ?s q = Some g \<and> \<not> is_dirty (pages s ! page_array_id g)"
    then have "entry s q = Some g" "\<not> is_dirty (pages s ! page_array_id g)" by (auto simp: ent split: if_splits)
    from file_inv_saved [OF I(4) this] show "page_loc s q < length (disk (file_allocator s))"
      "clean (disk (file_allocator s) ! page_loc s q) = clean (pages s ! page_array_id g)" by simp_all
  qed (use I(4) in \<open>auto simp: file_inv_def ent\<close>)
  moreover have "owned r (K - {pid}) ?s" using I(1) by (simp add: owned_def F(7))
  ultimately have "shard_inv r (K - {pid}) ?s" by (simp add: shard_inv_def)
  moreover have "contents ?s q = contents s q" if "q \<noteq> pid" for q
    unfolding contents_def loc F(5,6) ent using that by simp
  moreover have "entry ?s pid = None" using ent [of pid] by simp
  ultimately show ?thesis by blast
qed

section \<open>Writing through a pinned buffer\<close>

definition store_page :: "nat \<Rightarrow> (page \<Rightarrow> page) \<Rightarrow> shard \<Rightarrow> shard" where
  "store_page a g s = s\<lparr>pages := (pages s)[a := g (pages s ! a)]\<rparr>"

lemma store_page_keeps:
  assumes inv: "shard_inv r K s" and e: "entry s pid = Some e" and dirty: "is_dirty (g (pages s ! page_array_id e))"
    and s': "s' = store_page (page_array_id e) g s"
  shows "shard_inv r K s'" "contents s' pid = clean (g (pages s ! page_array_id e))"
    "q \<noteq> pid \<Longrightarrow> contents s' q = contents s q"
proof -
  have I: "owned r K s" "handles_inv s" "buffers_inv s" "file_inv K s"
    using inv by (simp_all add: shard_inv_def)
  have F: "table s' = table s" "pages s' = (pages s)[page_array_id e := g (pages s ! page_array_id e)]"
    "lru s' = lru s" "in_use s' = in_use s" "recent_evicted s' = recent_evicted s" "shard_num s' = shard_num s"
    "file_allocator s' = file_allocator s"
    by (simp_all add: s' store_page_def)
  have loc: "page_loc s' = page_loc s" by (rule ext) (simp add: page_loc_def F(6))
  have a: "page_array_id e < length (pages s)" using I(3) e by (auto simp: buffers_inv_def)
  have other: "page_array_id e \<noteq> page_array_id h" if "entry s x = Some h" "x \<noteq> pid" for x h
    using buffers_inv_uniq [OF I(3) e that(1)] that(2) by blast
  show "contents s' pid = clean (g (pages s ! page_array_id e))"
    using e a by (simp add: contents_def F(1,2))
  show "contents s' q = contents s q" if "q \<noteq> pid"
    using other [OF _ that] by (auto simp: contents_def F(1,2,7) loc split: option.split)
  have "handles_inv s'" using I(2) by (simp add: handles_inv_def F)
  moreover have "buffers_inv s'" using I(3) by (simp add: buffers_inv_def F(1,2,5))
  moreover have "file_inv K s'"
    unfolding file_inv_def F(1,7) loc
  proof (intro conjI ballI allI impI)
    fix x h assume x: "entry s x = Some h \<and> \<not> is_dirty (pages s' ! page_array_id h)"
    have "x \<noteq> pid" using x e dirty a by (auto simp: F(2))
    then have same: "pages s' ! page_array_id h = pages s ! page_array_id h"
      using other [of x h] x by (simp add: F(2))
    have "entry s x = Some h" "\<not> is_dirty (pages s ! page_array_id h)" using x same by simp_all
    from file_inv_saved [OF I(4) this] show "page_loc s x < length (disk (file_allocator s))"
      "clean (disk (file_allocator s) ! page_loc s x) = clean (pages s' ! page_array_id h)"
      unfolding same by simp_all
  qed (use I(4) in \<open>auto simp: file_inv_def\<close>)
  ultimately show "shard_inv r K s'" using I(1) by (simp add: shard_inv_def owned_def F(6))
qed

section \<open>The sharded pool\<close>

text \<open>
  \<open>K\<close> is the set of page ids handed out. The page with id 0 is the root page, which is never
  evicted; every other page is in the shard given by its id.
\<close>

definition pool_inv :: "nat set \<Rightarrow> pool \<Rightarrow> bool" where
  "pool_inv K b \<longleftrightarrow> length (shards b) = kNumShards \<and> is_dirty (root b) \<and> 0 < new_id b \<and>
     K \<subseteq> {1..<new_id b} \<and>
     (\<forall>i < kNumShards. shard_inv i {q \<in> K. q mod kNumShards = i} (shards b ! i) \<and>
        shard_num (shards b ! i) = kNumShards)"

definition pool_contents :: "pool \<Rightarrow> nat \<Rightarrow> page" where
  "pool_contents b pid = (if pid = 0 then clean (root b) else contents (shards b ! Shard pid) pid)"

definition frame_page :: "pool \<Rightarrow> frame \<Rightarrow> page" where
  "frame_page b fr = (case fr of Root \<Rightarrow> root b | Buf i a \<Rightarrow> pages (shards b ! i) ! a)"

definition store_frame :: "frame \<Rightarrow> (page \<Rightarrow> page) \<Rightarrow> pool \<Rightarrow> pool" where
  "store_frame fr g b =
     (case fr of Root \<Rightarrow> b\<lparr>root := g (root b)\<rparr>
      | Buf i a \<Rightarrow> b\<lparr>shards := (shards b)[i := store_page a g (shards b ! i)]\<rparr>)"

text \<open>A buffer of the page's shard is free or can be freed.\<close>

definition has_room :: "pool \<Rightarrow> nat \<Rightarrow> bool" where
  "has_room b pid \<longleftrightarrow> length (in_use (shards b ! Shard pid)) < max_num (shards b ! Shard pid)"

definition resident :: "pool \<Rightarrow> nat \<Rightarrow> handle option" where
  "resident b pid = entry (shards b ! Shard pid) pid"

lemma Shard_mod: "Shard pid = pid mod kNumShards"
proof -
  have "(16 :: nat) dvd 4294967296" by (simp add: dvd_eq_mod_eq_0)
  from mod_mod_cancel [OF this, of pid] show ?thesis by (simp add: Shard_def u32_def)
qed

lemma Shard_less [simp]: "Shard pid < kNumShards"
  by (simp add: Shard_mod)

lemma pool_inv_len: "pool_inv K b \<Longrightarrow> length (shards b) = kNumShards"
  by (simp add: pool_inv_def)

lemma pool_inv_shard:
  assumes "pool_inv K b"
  shows "shard_inv (Shard pid) {q \<in> K. Shard q = Shard pid} (shards b ! Shard pid)"
    "shard_num (shards b ! Shard pid) = kNumShards"
    "pid \<in> K \<Longrightarrow> 0 < pid" "pid \<in> K \<Longrightarrow> pid < new_id b"
  using assms Shard_less [of pid] unfolding pool_inv_def Shard_mod by auto

lemma pool_inv_update:
  assumes inv: "pool_inv K b" and s': "shard_inv i {q \<in> K'. Shard q = i} s'" "shard_num s' = kNumShards"
    and K': "\<And>q. Shard q \<noteq> i \<Longrightarrow> q \<in> K' \<longleftrightarrow> q \<in> K" and sub: "K' \<subseteq> {1..<new_id b'}"
    and b': "shards b' = (shards b)[i := s']" "is_dirty (root b')" "0 < new_id b'"
  shows "pool_inv K' b'"
proof -
  have "shard_inv j {q \<in> K'. q mod kNumShards = j} (shards b' ! j) \<and> shard_num (shards b' ! j) = kNumShards"
    if j: "j < kNumShards" for j
  proof (cases "j = i")
    case True
    then show ?thesis using s' j inv by (simp add: b'(1) pool_inv_def Shard_mod)
  next
    case False
    then have "{q \<in> K'. q mod kNumShards = j} = {q \<in> K. q mod kNumShards = j}"
      using K' by (auto simp: Shard_mod)
    then show ?thesis using False j inv by (simp add: b'(1) pool_inv_def)
  qed
  then show ?thesis using sub b' inv by (simp add: pool_inv_def)
qed

lemma pool_contents_update:
  assumes "pool_inv K b" "shards b' = (shards b)[i := s']" "q \<noteq> 0"
  shows "pool_contents b' q = (if Shard q = i then contents s' q else pool_contents b q)"
  using assms Shard_less [of q] by (auto simp: pool_contents_def pool_inv_def)

lemma new_shard_inv: "shard_inv r {} (new_shard n)"
  by (simp add: shard_inv_def owned_def handles_inv_def buffers_inv_def file_inv_def new_shard_def)

lemma pool_inv_new: "pool_inv {} (NewBufferManager raw n)"
  by (simp add: pool_inv_def NewBufferManager_def Let_def new_shard_inv PageInit_def)
    (simp add: new_shard_def)

text \<open>An operation that keeps one shard's pages keeps the pages of the pool.\<close>

lemma pool_keeps:
  assumes inv: "pool_inv K b" and s': "shard_inv (Shard pid) {q \<in> K. Shard q = Shard pid} s'"
    "keeps {q \<in> K. Shard q = Shard pid} (shards b ! Shard pid) s'"
    and b': "b' = b\<lparr>shards := (shards b)[Shard pid := s']\<rparr>"
  shows "pool_inv K b' \<and> (\<forall>q \<in> insert 0 K. pool_contents b' q = pool_contents b q) \<and> new_id b' = new_id b \<and>
    shards b' ! Shard pid = s'"
proof -
  have num: "shard_num s' = kNumShards" using s'(2) pool_inv_shard(2) [OF inv] by (simp add: keeps_def)
  have "pool_inv K b'"
    by (rule pool_inv_update [OF inv s'(1) num]) (use inv in \<open>auto simp: b' pool_inv_def\<close>)
  moreover have "pool_contents b' q = pool_contents b q" if "q \<in> insert 0 K" for q
  proof (cases "q = 0")
    case True
    then show ?thesis by (simp add: pool_contents_def b')
  next
    case False
    then have "q \<in> K" using that by simp
    then have "contents s' q = pool_contents b q" if "Shard q = Shard pid"
      using s'(2) False that by (simp add: keeps_def pool_contents_def)
    then show ?thesis using pool_contents_update [OF inv _ False, of b' "Shard pid" s'] by (simp add: b')
  qed
  ultimately show ?thesis using inv Shard_less [of pid] by (simp add: b' pool_inv_def)
qed

lemma Pool_Pin_ok:
  assumes inv: "pool_inv K b" and pid: "pid \<in> K"
    and room: "case resident b pid of Some e \<Rightarrow> refs e < 2 ^ 32 - 1 | None \<Rightarrow> has_room b pid"
  shows "\<exists>a e b'. Pool_Pin pid b = Inr (Buf (Shard pid) a, b') \<and> clean (frame_page b' (Buf (Shard pid) a)) = pool_contents b pid \<and>
    pool_inv K b' \<and> (\<forall>q \<in> insert 0 K. pool_contents b' q = pool_contents b q) \<and> new_id b' = new_id b \<and>
    resident b' pid = Some e \<and> page_array_id e = a \<and> 0 < refs e"
proof -
  let ?i = "Shard pid" and ?K = "{q \<in> K. Shard q = Shard pid}"
  note I = pool_inv_shard [OF inv, of pid]
  have pid': "pid \<in> ?K" using pid by simp
  have "\<exists>a s' e. Pin pid (shards b ! ?i) = Inr (a, s') \<and> shard_inv ?i ?K s' \<and> keeps ?K (shards b ! ?i) s' \<and>
     clean (pages s' ! a) = contents (shards b ! ?i) pid \<and> entry s' pid = Some e \<and> page_array_id e = a \<and> 0 < refs e"
  proof (cases "resident b pid")
    case None
    then show ?thesis
      using Pin_miss [OF I(1) pid'] room by (fastforce simp: resident_def has_room_def)
  next
    case (Some e)
    then show ?thesis
      using Pin_hit [OF I(1), of pid e] room by (fastforce simp: resident_def)
  qed
  then obtain a s' e where s': "Pin pid (shards b ! ?i) = Inr (a, s')" "shard_inv ?i ?K s'"
    "keeps ?K (shards b ! ?i) s'" "clean (pages s' ! a) = contents (shards b ! ?i) pid"
    "entry s' pid = Some e" "page_array_id e = a" "0 < refs e" by blast
  let ?b = "b\<lparr>shards := (shards b)[?i := s']\<rparr>"
  have "Pool_Pin pid b = Inr (Buf ?i a, ?b)" using s'(1) I(3) pid by (simp add: Pool_Pin_def)
  moreover have "clean (frame_page ?b (Buf ?i a)) = pool_contents b pid"
    using s'(4) I(3) pool_inv_len [OF inv] pid by (simp add: frame_page_def pool_contents_def)
  moreover have "resident ?b pid = Some e" using s'(5) pool_inv_len [OF inv] by (simp add: resident_def)
  ultimately show ?thesis using pool_keeps [OF inv s'(2,3) refl] s'(6,7) by blast
qed

lemma Pool_Unpin_ok:
  assumes inv: "pool_inv K b" and pid: "0 < pid" and e: "resident b pid = Some e" "0 < refs e"
  shows "\<exists>b'. Pool_Unpin pid b = Inr b' \<and> pool_inv K b' \<and>
    (\<forall>q \<in> insert 0 K. pool_contents b' q = pool_contents b q) \<and> new_id b' = new_id b"
proof -
  let ?i = "Shard pid" and ?K = "{q \<in> K. Shard q = Shard pid}"
  obtain s' where s': "Unpin pid (shards b ! ?i) = Inr s'" "shard_inv ?i ?K s'" "keeps ?K (shards b ! ?i) s'"
    using Unpin_keeps [OF pool_inv_shard(1) [OF inv, of pid]] e by (auto simp: resident_def)
  then show ?thesis
    using pool_keeps [OF inv s'(2,3) refl] pid by (simp add: Pool_Unpin_def on_shard_def)
qed

lemma Pool_UnpinAndRelease_ok:
  assumes inv: "pool_inv K b" and pid: "0 < pid" and e: "resident b pid = Some e" "refs e = 1"
  shows "\<exists>b'. Pool_UnpinAndRelease pid b = Inr b' \<and> pool_inv K b' \<and>
    (\<forall>q \<in> insert 0 K. pool_contents b' q = pool_contents b q) \<and> resident b' pid = None \<and>
    in_use (shards b' ! Shard pid) = remove1 pid (in_use (shards b ! Shard pid)) \<and>
    max_num (shards b' ! Shard pid) = max_num (shards b ! Shard pid)"
proof -
  let ?i = "Shard pid" and ?K = "{q \<in> K. Shard q = Shard pid}"
  obtain s' where s': "UnpinAndRelease pid (shards b ! ?i) = Inr s'" "shard_inv ?i ?K s'"
    "keeps ?K (shards b ! ?i) s'" "entry s' pid = None" "in_use s' = remove1 pid (in_use (shards b ! ?i))"
    using UnpinAndRelease_keeps [OF pool_inv_shard(1) [OF inv, of pid]] e by (auto simp: resident_def)
  then show ?thesis
    using pool_keeps [OF inv s'(2,3) refl] pid
    by (simp add: Pool_UnpinAndRelease_def on_shard_def resident_def keeps_def)
qed

lemma pool_create:
  assumes inv: "pool_inv K b" and s': "shard_inv (Shard pid) (insert pid {q \<in> K. Shard q = Shard pid}) s'"
    "\<forall>q \<in> {q \<in> K. Shard q = Shard pid}. contents s' q = contents (shards b ! Shard pid) q"
    "shard_num s' = kNumShards"
    and pid: "pid = new_id b" and b': "shards b' = (shards b)[Shard pid := s']" "new_id b' = new_id b + 1"
    "is_dirty (root b')"
  shows "pool_inv (insert pid K) b' \<and> pool_contents b' pid = contents s' pid \<and>
    (\<forall>q \<in> K. pool_contents b' q = pool_contents b q)"
proof -
  have K: "0 \<notin> K" "0 < pid" "K \<subseteq> {1..<pid}" using inv pid by (auto simp: pool_inv_def)
  have eq: "insert pid {q \<in> K. Shard q = Shard pid} = {q \<in> insert pid K. Shard q = Shard pid}" by auto
  have "pool_inv (insert pid K) b'"
    by (rule pool_inv_update [OF inv s'(1) [unfolded eq] s'(3)]) (use K pid b' in auto)
  moreover have "pool_contents b' q = pool_contents b q" if "q \<in> K" for q
    using pool_contents_update [OF inv b'(1), of q] s'(2) that K(1)
    by (cases "q = 0") (auto simp: pool_contents_def)
  moreover have "pool_contents b' pid = contents s' pid"
    using pool_contents_update [OF inv b'(1), of pid] K(2) by simp
  ultimately show ?thesis by blast
qed

lemma store_frame_ok:
  assumes inv: "pool_inv K b" and e: "0 < pid" "resident b pid = Some e"
    and g: "is_dirty (g (frame_page b (Buf (Shard pid) (page_array_id e))))"
    and b': "b' = store_frame (Buf (Shard pid) (page_array_id e)) g b"
  shows "pool_inv K b'" "pool_contents b' pid = clean (g (frame_page b (Buf (Shard pid) (page_array_id e))))"
    "q \<noteq> pid \<Longrightarrow> pool_contents b' q = pool_contents b q" "resident b' pid = Some e"
proof -
  let ?i = "Shard pid"
  note I = pool_inv_shard [OF inv, of pid]
  let ?s = "store_page (page_array_id e) g (shards b ! ?i)"
  have e': "entry (shards b ! ?i) pid = Some e" "is_dirty (g (pages (shards b ! ?i) ! page_array_id e))"
    using e g by (simp_all add: resident_def frame_page_def)
  note S = store_page_keeps [where g = g, OF I(1) e' refl]
  have sh: "shards b' = (shards b)[?i := ?s]" "new_id b' = new_id b" "root b' = root b"
    by (simp_all add: b' store_frame_def)
  have "shard_num ?s = kNumShards" using I(2) by (simp add: store_page_def)
  then show "pool_inv K b'"
    by (rule pool_inv_update [OF inv S(1)]) (use inv sh in \<open>auto simp: pool_inv_def\<close>)
  show "pool_contents b' pid = clean (g (frame_page b (Buf ?i (page_array_id e))))"
    using pool_contents_update [OF inv sh(1), of pid] e(1) S(2) by (simp add: frame_page_def)
  show "pool_contents b' q = pool_contents b q" if "q \<noteq> pid"
    using pool_contents_update [OF inv sh(1), of q] S(3) [OF that] sh(3)
    by (cases "q = 0") (auto simp: pool_contents_def)
  show "resident b' pid = Some e"
    using e'(1) sh(1) pool_inv_len [OF inv] by (simp add: resident_def store_page_def)
qed

lemma Pool_Allocate_ok:
  assumes inv: "pool_inv K b" and room: "has_room b (new_id b)" "new_id b < 2 ^ 32"
  shows "\<exists>b'. Pool_Allocate b = Inr (new_id b, b') \<and> new_id b \<notin> insert 0 K \<and> pool_inv (insert (new_id b) K) b' \<and>
    pool_contents b' (new_id b) = clean (PageInit zero_page (new_id b)) \<and>
    (\<forall>q \<in> insert 0 K. pool_contents b' q = pool_contents b q)"
proof -
  let ?p = "new_id b" and ?i = "Shard (new_id b)"
  let ?K = "{q \<in> K. Shard q = ?i}"
  note I = pool_inv_shard [OF inv, of ?p]
  have p: "0 < ?p" "?p \<notin> K" "0 \<notin> K" using inv by (auto simp: pool_inv_def)
  have "?p \<notin> ?K" "?p mod shard_num (shards b ! ?i) = ?i" "1 < shard_num (shards b ! ?i)"
    using p I(2) by (simp_all add: Shard_mod)
  then obtain s' where s': "Allocate ?p (shards b ! ?i) = Inr s'" "shard_inv ?i (insert ?p ?K) s'"
    "contents s' ?p = clean (PageInit zero_page ?p)" "\<forall>q \<in> ?K. contents s' q = contents (shards b ! ?i) q"
    "shard_num s' = kNumShards"
    using Allocate_creates [OF I(1) _ p(1) room(2)] room(1) I(2) by (auto simp: has_room_def)
  let ?b = "b\<lparr>new_id := ?p + 1, shards := (shards b)[?i := s']\<rparr>"
  have "Pool_Allocate b = Inr (?p, ?b)" using s'(1) room(2) by (simp add: Pool_Allocate_def on_shard_def Let_def)
  moreover have "pool_contents ?b 0 = pool_contents b 0" by (simp add: pool_contents_def)
  moreover have "is_dirty (root ?b)" using inv by (simp add: pool_inv_def)
  ultimately show ?thesis
    using pool_create [OF inv s'(2,4,5) refl, of ?b] s'(3) p by simp
qed

text \<open>A pool with one buffer per shard, with page 1 allocated, and then pinned.\<close>

abbreviation pool0 :: pool where "pool0 \<equiv> NewBufferManager zero_page 16"

definition pool1 :: pool where
  "pool1 = pool0\<lparr>new_id := 2, shards := (shards pool0)[1 := (new_shard 1)\<lparr>lru := [1],
     table := [(1, \<lparr>page_array_id = 0, refs = 0\<rparr>)], pages := [PageInit zero_page 1],
     file_allocator := \<lparr>page_num = 1, disk = []\<rparr>\<rparr>]\<rparr>"

definition pool2 :: pool where
  "pool2 = pool0\<lparr>new_id := 2, shards := (shards pool0)[1 := (new_shard 1)\<lparr>in_use := [1],
     table := [(1, \<lparr>page_array_id = 0, refs = 1\<rparr>)], pages := [PageInit zero_page 1],
     file_allocator := \<lparr>page_num = 1, disk = []\<rparr>\<rparr>]\<rparr>"

lemma small_ids: "u32 (Suc 0) = 1" "u32 0 = 0" "sub32 (Suc 0) (Suc 0) = 0" "Shard (Suc 0) = 1" "Shard 1 = 1"
  by (simp_all add: u32_def sub32_def Shard_def)

lemma pool1: "Pool_Allocate pool0 = Inr (1, pool1)"
  by (simp add: Pool_Allocate_def NewBufferManager_def Let_def Shard_def on_shard_def Allocate_def MayOverflow_def
      evict_loop.simps new_shard_def extend_file_def GetNewPageid_def page_loc_def GetBuffer_def InsertTable_def pool1_def small_ids)

lemma pool2: "Pool_Pin 1 pool1 = Inr (Buf 1 0, pool2)"
  by (simp add: Pool_Pin_def NewBufferManager_def Let_def Shard_def Pin_def RetrieveHandle_def Ref_def LRU_Remove_def
      pool1_def pool2_def new_shard_def small_ids)

lemma pool1_inv: "pool_inv {1} pool1" "pool_contents pool1 1 = clean (PageInit zero_page 1)"
proof -
  have "has_room pool0 1" "new_id pool0 = 1"
    by (simp_all add: has_room_def small_ids NewBufferManager_def Let_def new_shard_def)
  then show "pool_inv {1} pool1" "pool_contents pool1 1 = clean (PageInit zero_page 1)"
    using Pool_Allocate_ok [OF pool_inv_new, of zero_page 16] pool1 by auto
qed

lemma pool1_resident: "resident pool1 1 = Some \<lparr>page_array_id = 0, refs = 0\<rparr>"
  by (simp add: resident_def small_ids pool1_def NewBufferManager_def Let_def)

lemma pool2_inv: "pool_inv {1} pool2"
  using Pool_Pin_ok [OF pool1_inv(1), of 1] pool1_resident pool2 by auto

lemma pool2_resident: "resident pool2 1 = Some \<lparr>page_array_id = 0, refs = 1\<rparr>"
  "in_use (shards pool2 ! 1) = [1]" "max_num (shards pool2 ! 1) = 1"
  by (simp_all add: resident_def small_ids pool2_def NewBufferManager_def Let_def new_shard_def)

section \<open>Properties\<close>

text \<open>C12. Pinning a page gives its contents: for a page that was handed out, in a buffer or
  evicted to the file, \<^verbatim>\<open>Pin\<close> returns a buffer that holds the page last stored under that id
  and keeps the contents of every page, the root included, whatever it evicts to make room.
  It succeeds whenever the page is resident or a buffer of its shard is not pinned.\<close>

theorem pool_pin_returns_contents:
  assumes "pool_inv K b" "pid \<in> insert 0 K"
    "pid \<noteq> 0 \<Longrightarrow> case resident b pid of Some e \<Rightarrow> refs e < 2 ^ 32 - 1 | None \<Rightarrow> has_room b pid"
  shows "\<exists>fr b'. Pool_Pin pid b = Inr (fr, b') \<and> clean (frame_page b' fr) = pool_contents b pid \<and>
    pool_inv K b' \<and> (\<forall>q \<in> insert 0 K. pool_contents b' q = pool_contents b q)"
proof (cases "pid = 0")
  case True
  then show ?thesis using assms(1) by (simp add: Pool_Pin_def frame_page_def pool_contents_def)
next
  case False
  then show ?thesis using Pool_Pin_ok [OF assms(1), of pid] assms(2,3) by blast
qed

theorem pool_pin_returns_contents_witness:
  "\<exists>fr b'. Pool_Pin 1 pool1 = Inr (fr, b') \<and> clean (frame_page b' fr) = clean (PageInit zero_page 1)"
  using pool_pin_returns_contents [OF pool1_inv(1), of 1] pool1_resident pool1_inv(2) by auto

text \<open>C14. Allocating a page gives it a fresh id and an initialised empty page; the page is then part
  of the pool, and every page handed out before keeps its contents.\<close>

theorem pool_allocate_creates:
  assumes inv: "pool_inv K b" and room: "has_room b (new_id b)" "new_id b < 2 ^ 32"
  shows "\<exists>b'. Pool_Allocate b = Inr (new_id b, b') \<and> new_id b \<notin> insert 0 K \<and> pool_inv (insert (new_id b) K) b' \<and>
    pool_contents b' (new_id b) = clean (PageInit zero_page (new_id b)) \<and>
    (\<forall>q \<in> insert 0 K. pool_contents b' q = pool_contents b q)"
  by (rule Pool_Allocate_ok [OF assms])

theorem pool_allocate_creates_witness:
  "\<exists>b'. Pool_Allocate pool0 = Inr (1, b') \<and> pool_contents b' 1 = clean (PageInit zero_page 1)"
proof -
  have "new_id pool0 = 1" "has_room pool0 1"
    by (simp_all add: has_room_def small_ids NewBufferManager_def Let_def new_shard_def)
  then show ?thesis using pool_allocate_creates [OF pool_inv_new, of zero_page 16] by auto
qed

text \<open>A root split keeps the tree: \<^verbatim>\<open>AllocateRoot\<close> moves the contents of the root page to a fresh
  page, with the new id and a new lock word, reinitialises the root page, and keeps the contents
  of every other page.\<close>

theorem pool_allocate_root_moves:
  assumes inv: "pool_inv K b" and room: "has_room b (new_id b)" "new_id b < 2 ^ 32"
  shows "\<exists>b'. Pool_AllocateRoot 0 b = Inr (new_id b, b') \<and> pool_inv (insert (new_id b) K) b' \<and>
    pool_contents b' (new_id b) = (pool_contents b 0)\<lparr>page_id := new_id b, opt_lock := 4\<rparr> \<and>
    root b' = PageInit (root b) 0 \<and> (\<forall>q \<in> K. pool_contents b' q = pool_contents b q)"
proof -
  let ?p = "new_id b" and ?i = "Shard (new_id b)"
  let ?K = "{q \<in> K. Shard q = ?i}"
  note I = pool_inv_shard [OF inv, of ?p]
  have p: "0 < ?p" "?p \<notin> K" "0 \<notin> K" and dirty: "is_dirty (root b)" using inv by (auto simp: pool_inv_def)
  have "?p \<notin> ?K" "?p mod shard_num (shards b ! ?i) = ?i" "1 < shard_num (shards b ! ?i)"
    using p I(2) by (simp_all add: Shard_mod)
  then obtain s' where s': "AllocateRoot ?p (root b) (shards b ! ?i) = Inr s'" "shard_inv ?i (insert ?p ?K) s'"
    "contents s' ?p = clean ((root b)\<lparr>page_id := ?p, opt_lock := 4\<rparr>)"
    "\<forall>q \<in> ?K. contents s' q = contents (shards b ! ?i) q" "shard_num s' = kNumShards"
    using AllocateRoot_creates [OF I(1) _ p(1) room(2), of "root b"] room(1) I(2) dirty by (auto simp: has_room_def)
  let ?b = "b\<lparr>new_id := ?p + 1, shards := (shards b)[?i := s'], root := PageInit (root b) 0\<rparr>"
  have "Pool_AllocateRoot 0 b = Inr (?p, ?b)"
    using s'(1) room(2) by (simp add: Pool_AllocateRoot_def on_shard_def Let_def)
  moreover have "is_dirty (root ?b)" by (simp add: PageInit_def)
  ultimately show ?thesis
    using pool_create [OF inv s'(2,4,5) refl, of ?b] s'(3) by (simp add: pool_contents_def)
qed

theorem pool_allocate_root_moves_witness:
  "\<exists>b'. Pool_AllocateRoot 0 pool0 = Inr (1, b') \<and>
     pool_contents b' 1 = (pool_contents pool0 0)\<lparr>page_id := 1, opt_lock := 4\<rparr>"
proof -
  have "new_id pool0 = 1" "has_room pool0 1"
    by (simp_all add: has_room_def small_ids NewBufferManager_def Let_def new_shard_def)
  then show ?thesis using pool_allocate_root_moves [OF pool_inv_new, of zero_page 16] by auto
qed

text \<open>C13. What is written through a pinned buffer survives eviction: after a page is changed in
  its buffer (and marked dirty), released to the file and pinned again, the buffer holds the
  changed page, and no other page of the pool has changed.\<close>

theorem pool_write_survives_release:
  assumes inv: "pool_inv K b" and pid: "pid \<in> K" "resident b pid = Some e" "refs e = 1"
    and g: "is_dirty (g (frame_page b (Buf (Shard pid) (page_array_id e))))"
    and cap: "length (in_use (shards b ! Shard pid)) \<le> max_num (shards b ! Shard pid)"
  shows "\<exists>b1 fr b2. Pool_UnpinAndRelease pid (store_frame (Buf (Shard pid) (page_array_id e)) g b) = Inr b1 \<and>
    resident b1 pid = None \<and> Pool_Pin pid b1 = Inr (fr, b2) \<and>
    clean (frame_page b2 fr) = clean (g (frame_page b (Buf (Shard pid) (page_array_id e)))) \<and>
    (\<forall>q \<in> insert 0 K. q \<noteq> pid \<longrightarrow> pool_contents b2 q = pool_contents b q)"
proof -
  have "0 < pid" by (rule pool_inv_shard(3) [OF inv pid(1)])
  let ?b = "store_frame (Buf (Shard pid) (page_array_id e)) g b"
  note S = store_frame_ok [where g = g, OF inv \<open>0 < pid\<close> pid(2) g refl]
  obtain b1 where b1: "Pool_UnpinAndRelease pid ?b = Inr b1" "pool_inv K b1" "resident b1 pid = None"
    "\<forall>q \<in> insert 0 K. pool_contents b1 q = pool_contents ?b q"
    "in_use (shards b1 ! Shard pid) = remove1 pid (in_use (shards ?b ! Shard pid))"
    "max_num (shards b1 ! Shard pid) = max_num (shards ?b ! Shard pid)"
    using Pool_UnpinAndRelease_ok [OF S(1) \<open>0 < pid\<close> S(4) pid(3)] by blast
  have "pid \<in> set (in_use (shards b ! Shard pid))"
    using pool_inv_shard(1) [OF inv, of pid] pid(2,3) by (auto simp: shard_inv_def handles_inv_def resident_def)
  moreover have "in_use (shards ?b ! Shard pid) = in_use (shards b ! Shard pid)"
    "max_num (shards ?b ! Shard pid) = max_num (shards b ! Shard pid)"
    using pool_inv_len [OF inv] by (simp_all add: store_frame_def store_page_def)
  ultimately have room: "has_room b1 pid"
    using b1(5,6) cap length_pos_if_in_set [of pid "in_use (shards b ! Shard pid)"]
    by (auto simp: has_room_def length_remove1 neq_Nil_conv)
  obtain a b2 where "Pool_Pin pid b1 = Inr (Buf (Shard pid) a, b2)"
    "clean (frame_page b2 (Buf (Shard pid) a)) = pool_contents b1 pid"
    "\<forall>q \<in> insert 0 K. pool_contents b2 q = pool_contents b1 q"
    using Pool_Pin_ok [OF b1(2) pid(1)] b1(3) room by auto
  then show ?thesis using b1 S(2,3) pid(1) by (intro exI conjI) auto
qed

theorem pool_write_survives_release_witness:
  "\<exists>b1 fr b2. Pool_UnpinAndRelease 1 (store_frame (Buf 1 0) (\<lambda>p. p\<lparr>right_sib := 7, is_dirty := True\<rparr>) pool2) = Inr b1 \<and>
     resident b1 1 = None \<and> Pool_Pin 1 b1 = Inr (fr, b2) \<and> right_sib (frame_page b2 fr) = 7"
proof -
  let ?g = "\<lambda>p. p\<lparr>right_sib := 7, is_dirty := True\<rparr>"
  obtain b1 fr b2 where b: "Pool_UnpinAndRelease 1 (store_frame (Buf 1 0) ?g pool2) = Inr b1"
    "resident b1 1 = None" "Pool_Pin 1 b1 = Inr (fr, b2)"
    "clean (frame_page b2 fr) = clean (?g (frame_page pool2 (Buf 1 0)))"
    using pool_write_survives_release [OF pool2_inv, of 1 "\<lparr>page_array_id = 0, refs = 1\<rparr>" ?g]
      pool2_resident by (auto simp: small_ids)
  have "right_sib (frame_page b2 fr) = right_sib (clean (frame_page b2 fr))" by simp
  also have "\<dots> = 7" unfolding b(4) by simp
  finally show ?thesis using b(1-3) by blast
qed

text \<open>C35. A full shard is not reported: when every buffer of the page's shard is pinned and the page
  is not resident, \<^verbatim>\<open>Pin\<close> follows the null handle that \<^verbatim>\<open>RetrieveHandle\<close> returns.\<close>

theorem pool_pin_full_follows_null:
  assumes "pool_inv K b" "0 < pid" "resident b pid = None" "\<not> has_room b pid"
  shows "Pool_Pin pid b = Inl NullDeref"
  using Pin_full [OF pool_inv_shard(1) [OF assms(1), of pid]] assms(2-4)
  by (simp add: Pool_Pin_def resident_def has_room_def)

theorem pool_pin_full_follows_null_witness: "Pool_Pin 17 pool2 = Inl NullDeref"
  by (rule pool_pin_full_follows_null [OF pool2_inv])
    (simp_all add: resident_def has_room_def Shard_def u32_def pool2_def NewBufferManager_def Let_def new_shard_def)

end
