(* ===== verification/LockManager.thy ===== *)
theory LockManager
  imports Prelude
begin

text \<open>
  The node locks of \<^verbatim>\<open>wot_lock_mgr/lock_manager.h\<close> and the table of locks of
  \<^verbatim>\<open>lock_manager.cc\<close>. A \<open>node_lock\<close> counts readers and waiting threads in unsigned 32-bit
  integers; its operations run under the lock's mutex, so each is one function on the record.
  The value \<open>None\<close> of a blocking operation means that its caller waits on the condition
  variable (\<open>LockWait\<close> adds the sleeping threads and the signals that wake them), and \<open>Inl\<close> that an assertion fails.

  The manager keeps a table from page ids to the addresses of the locks, which are allocated
  and deleted. An operation of the manager is a sequence of critical sections: \<open>lock_do\<close>
  performs one of them for one thread, and the interleavings of all threads are the steps of
  \<open>lock_step\<close>. A thread that touches a deleted lock is a \<open>NullDeref\<close>.
\<close>

section \<open>One lock\<close>

record node_lock =
  node_id :: int
  read_count :: "32 word"
  read_wait :: "32 word"
  write_wait :: "32 word"
  write_active :: bool

definition new_node_lock :: "int \<Rightarrow> node_lock" where
  "new_node_lock pg_id = \<lparr>node_id = pg_id, read_count = 0, read_wait = 0, write_wait = 0, write_active = False\<rparr>"

text \<open>
  \<^verbatim>\<open>TryReadLock\<close> decreases \<^verbatim>\<open>read_wait_\<close> after it has left the mutex; that is a step of its own
  below. The result is whether the lock was taken.
\<close>

definition NodeLock_TryReadLock :: "node_lock \<Rightarrow> bool \<times> node_lock" where
  "NodeLock_TryReadLock l =
     (let has_write = write_active l \<or> write_wait l > 0
      in (\<not> has_write, if has_write then l else l\<lparr>read_count := read_count l + 1\<rparr>))"

definition NodeLock_ReadLock :: "node_lock \<Rightarrow> node_lock result option" where
  "NodeLock_ReadLock l =
     (if write_active l \<or> write_wait l > 0 then None
      else if \<not> read_wait l > 0 then Some (Inl AssertFailed)
      else Some (Inr (l\<lparr>read_wait := read_wait l - 1, read_count := read_count l + 1\<rparr>)))"

definition NodeLock_EscalateLock :: "node_lock \<Rightarrow> node_lock result option" where
  "NodeLock_EscalateLock l =
     (if read_count l > 1 \<or> write_active l then None
      else if \<not> write_wait l > 0 then Some (Inl AssertFailed)
      else if read_count l \<noteq> 1 then Some (Inl AssertFailed)
      else Some (Inr (l\<lparr>write_wait := write_wait l - 1, write_active := True\<rparr>)))"

text \<open>The unlocking operations end with \<^verbatim>\<open>cv_.SignalAll()\<close>, which \<open>asleep_after\<close> of \<open>LockWait\<close> performs.\<close>

definition NodeLock_ReadUnlock :: "node_lock \<Rightarrow> node_lock result" where
  "NodeLock_ReadUnlock l =
     (if \<not> read_count l > 0 then Inl AssertFailed
      else Inr (l\<lparr>read_count := read_count l - 1\<rparr>))"

definition NodeLock_WriteLock :: "node_lock \<Rightarrow> node_lock result option" where
  "NodeLock_WriteLock l =
     (if read_count l > 0 \<or> write_active l then None
      else if \<not> write_wait l > 0 then Some (Inl AssertFailed)
      else Some (Inr (l\<lparr>write_wait := write_wait l - 1, write_active := True\<rparr>)))"

definition NodeLock_AlleviateLock :: "node_lock \<Rightarrow> node_lock result" where
  "NodeLock_AlleviateLock l =
     (if \<not> write_active l then Inl AssertFailed
      else if read_count l \<noteq> 1 then Inl AssertFailed
      else Inr (l\<lparr>write_active := False\<rparr>))"

definition NodeLock_WriteUnlock :: "node_lock \<Rightarrow> node_lock result" where
  "NodeLock_WriteUnlock l =
     (if \<not> write_active l then Inl AssertFailed else Inr (l\<lparr>write_active := False\<rparr>))"

definition InUse :: "node_lock \<Rightarrow> bool" where
  "InUse l \<longleftrightarrow> write_active l \<or> write_wait l > 0 \<or> read_count l > 0 \<or> read_wait l > 0"

section \<open>The lock table and the threads\<close>

text \<open>
  What a thread holds on a page, and where it is inside an operation of the manager: the page
  and the address of the lock it has read from the table. \<open>Clean\<close> is the end of the unlock
  operations, which may remove the lock from the table.
\<close>

datatype lmode = Free | Rd | Wr | Esc

datatype pc =
    Outside
  | WaitRead int nat | WaitWrite int nat | WaitEsc int nat
  | Trying int nat | Tried int nat
  | Unlocking int nat | UnlockingW int nat | Alleviating int nat
  | Clean int nat

record lock_sys =
  lock_table :: "int \<Rightarrow> nat option"
  locks :: "nat \<Rightarrow> node_lock option"
  mode :: "nat \<Rightarrow> int \<Rightarrow> lmode"
  at :: "nat \<Rightarrow> pc"

definition lock_sys_init :: lock_sys where
  "lock_sys_init = \<lparr>lock_table = (\<lambda>_. None), locks = (\<lambda>_. None), mode = (\<lambda>_ _. Free), at = (\<lambda>_. Outside)\<rparr>"

definition InsertLockTable :: "int \<Rightarrow> nat \<Rightarrow> lock_sys \<Rightarrow> lock_sys" where
  "InsertLockTable pg_id addr s =
     s\<lparr>lock_table := (lock_table s)(pg_id \<mapsto> addr), locks := (locks s)(addr \<mapsto> new_node_lock pg_id)\<rparr>"

text \<open>
  The first critical section of \<^verbatim>\<open>ReadLock\<close>, \<^verbatim>\<open>TryReadLock\<close> and \<^verbatim>\<open>WriteLock\<close>: find or create the
  lock of the page at the fresh address \<open>addr\<close> and announce the thread in it. \<open>wait\<close> increments
  the counter the operation uses, \<open>next\<close> is where the thread goes.
\<close>

definition announce :: "nat \<Rightarrow> int \<Rightarrow> nat \<Rightarrow> (node_lock \<Rightarrow> node_lock) \<Rightarrow> (int \<Rightarrow> nat \<Rightarrow> pc) \<Rightarrow> lock_sys \<Rightarrow> lock_sys result" where
  "announce t pg_id addr wait next s =
     (let s1 = (if lock_table s pg_id = None then InsertLockTable pg_id addr s else s)
      in case lock_table s1 pg_id of None \<Rightarrow> Inl NullDeref
         | Some a \<Rightarrow> (case locks s1 a of None \<Rightarrow> Inl NullDeref
             | Some l \<Rightarrow> Inr (s1\<lparr>locks := (locks s1)(a \<mapsto> wait l), at := (at s1)(t := next pg_id a)\<rparr>)))"

text \<open>The first critical section of the other operations: the lock must be in the table.\<close>

definition fetch :: "nat \<Rightarrow> int \<Rightarrow> (node_lock \<Rightarrow> node_lock) \<Rightarrow> (int \<Rightarrow> nat \<Rightarrow> pc) \<Rightarrow> lock_sys \<Rightarrow> lock_sys result" where
  "fetch t pg_id wait next s =
     (case lock_table s pg_id of None \<Rightarrow> Inl AssertFailed
      | Some a \<Rightarrow> (case locks s a of None \<Rightarrow> Inl NullDeref
          | Some l \<Rightarrow> Inr (s\<lparr>locks := (locks s)(a \<mapsto> wait l), at := (at s)(t := next pg_id a)\<rparr>)))"

text \<open>
  The critical section inside the lock, for one thread at one address, and the state of the
  thread after it. The assertions about \<^verbatim>\<open>node_id_\<close> that follow are checked in it.
\<close>

definition at_lock ::
  "nat \<Rightarrow> int \<Rightarrow> nat \<Rightarrow> (node_lock \<Rightarrow> node_lock result option) \<Rightarrow> lmode \<Rightarrow> pc \<Rightarrow> lock_sys \<Rightarrow> lock_sys result option" where
  "at_lock t pg_id a f m next s =
     (case locks s a of None \<Rightarrow> Some (Inl NullDeref)
      | Some l \<Rightarrow> (case f l of None \<Rightarrow> None
          | Some (Inl e) \<Rightarrow> Some (Inl e)
          | Some (Inr l') \<Rightarrow>
              if node_id l' \<noteq> pg_id then Some (Inl AssertFailed)
              else Some (Inr (s\<lparr>locks := (locks s)(a \<mapsto> l'), mode := (mode s)(t := (mode s t)(pg_id := m)),
                                at := (at s)(t := next)\<rparr>))))"

text \<open>The last critical section of \<^verbatim>\<open>ReadUnlock\<close> and \<^verbatim>\<open>WriteUnlock\<close>: an unused lock is deleted.\<close>

definition cleanup :: "nat \<Rightarrow> int \<Rightarrow> nat \<Rightarrow> lock_sys \<Rightarrow> lock_sys result" where
  "cleanup t pg_id a s =
     (let s1 = s\<lparr>at := (at s)(t := Outside)\<rparr>
      in if lock_table s pg_id = Some a
         then (case locks s a of None \<Rightarrow> Inl NullDeref
               | Some l \<Rightarrow>
                   if node_id l = pg_id \<and> \<not> InUse l
                   then Inr (s1\<lparr>locks := (locks s1)(a := None), lock_table := (lock_table s1)(pg_id := None)\<rparr>)
                   else Inr s1)
         else Inr s1)"

datatype lock_action =
    DoReadLock nat int nat | DoTryReadLock nat int nat | DoWriteLock nat int nat
  | DoEscalateLock nat int | DoAlleviateLock nat int
  | DoReadUnlock nat int | DoWriteUnlock nat int
  | Continue nat | TrylockFails nat

text \<open>
  One critical section of one thread. The operations start under the discipline of their
  callers: a thread outside the manager asks for a lock it does not hold and releases what it
  holds. \<open>None\<close> means that the section is not enabled or that the thread waits.
\<close>

fun lock_do :: "lock_action \<Rightarrow> lock_sys \<Rightarrow> lock_sys result option" where
  "lock_do (DoReadLock t pg_id addr) s =
     (if at s t = Outside \<and> mode s t pg_id = Free \<and> locks s addr = None
      then Some (announce t pg_id addr (\<lambda>l. l\<lparr>read_wait := read_wait l + 1\<rparr>) WaitRead s) else None)"
| "lock_do (DoTryReadLock t pg_id addr) s =
     (if at s t = Outside \<and> mode s t pg_id = Free \<and> locks s addr = None
      then Some (announce t pg_id addr (\<lambda>l. l\<lparr>read_wait := read_wait l + 1\<rparr>) Trying s) else None)"
| "lock_do (DoWriteLock t pg_id addr) s =
     (if at s t = Outside \<and> mode s t pg_id = Free \<and> locks s addr = None
      then Some (announce t pg_id addr (\<lambda>l. l\<lparr>write_wait := write_wait l + 1\<rparr>) WaitWrite s) else None)"
| "lock_do (DoEscalateLock t pg_id) s =
     (if at s t = Outside \<and> mode s t pg_id = Rd
      then Some (fetch t pg_id (\<lambda>l. l\<lparr>write_wait := write_wait l + 1\<rparr>) WaitEsc s) else None)"
| "lock_do (DoAlleviateLock t pg_id) s =
     (if at s t = Outside \<and> mode s t pg_id = Esc then Some (fetch t pg_id (\<lambda>l. l) Alleviating s) else None)"
| "lock_do (DoReadUnlock t pg_id) s =
     (if at s t = Outside \<and> mode s t pg_id = Rd
      then Some (if lock_table s pg_id = None then Inr s else fetch t pg_id (\<lambda>l. l) Unlocking s) else None)"
| "lock_do (DoWriteUnlock t pg_id) s =
     (if at s t = Outside \<and> mode s t pg_id = Wr then Some (fetch t pg_id (\<lambda>l. l) UnlockingW s) else None)"
| "lock_do (Continue t) s =
     (case at s t of
        Outside \<Rightarrow> None
      | WaitRead p a \<Rightarrow> at_lock t p a NodeLock_ReadLock Rd Outside s
      | WaitWrite p a \<Rightarrow> at_lock t p a NodeLock_WriteLock Wr Outside s
      | WaitEsc p a \<Rightarrow> at_lock t p a NodeLock_EscalateLock Esc Outside s
      | Trying p a \<Rightarrow>
          at_lock t p a (\<lambda>l. Some (Inr (snd (NodeLock_TryReadLock l))))
            (case locks s a of None \<Rightarrow> Free | Some l \<Rightarrow> if fst (NodeLock_TryReadLock l) then Rd else Free) (Tried p a) s
      | Tried p a \<Rightarrow> at_lock t p a (\<lambda>l. Some (Inr (l\<lparr>read_wait := read_wait l - 1\<rparr>))) (mode s t p) Outside s
      | Unlocking p a \<Rightarrow> at_lock t p a (\<lambda>l. Some (NodeLock_ReadUnlock l)) Free (Clean p a) s
      | UnlockingW p a \<Rightarrow> at_lock t p a (\<lambda>l. Some (NodeLock_WriteUnlock l)) Free (Clean p a) s
      | Alleviating p a \<Rightarrow> at_lock t p a (\<lambda>l. Some (NodeLock_AlleviateLock l)) Rd Outside s
      | Clean p a \<Rightarrow> Some (cleanup t p a s))"
| "lock_do (TrylockFails t) s =
     (case at s t of
        Trying p a \<Rightarrow> at_lock t p a (\<lambda>l. Some (Inr (l\<lparr>read_wait := read_wait l - 1\<rparr>))) Free Outside s
      | _ \<Rightarrow> None)"

fun actor :: "lock_action \<Rightarrow> nat" where
  "actor (DoReadLock t _ _) = t" | "actor (DoTryReadLock t _ _) = t" | "actor (DoWriteLock t _ _) = t"
| "actor (DoEscalateLock t _) = t" | "actor (DoAlleviateLock t _) = t"
| "actor (DoReadUnlock t _) = t" | "actor (DoWriteUnlock t _) = t"
| "actor (Continue t) = t" | "actor (TrylockFails t) = t"

text \<open>\<open>n\<close> threads run. A fault is an assertion that fails or a deleted lock that is touched.\<close>

inductive lock_step :: "nat \<Rightarrow> lock_sys \<Rightarrow> lock_sys \<Rightarrow> bool" for n where
  do_step: "actor c < n \<Longrightarrow> lock_do c s = Some (Inr s') \<Longrightarrow> lock_step n s s'"

inductive lock_reachable :: "nat \<Rightarrow> lock_sys \<Rightarrow> bool" for n where
  lock_start: "lock_reachable n lock_sys_init"
| lock_next: "lock_reachable n s \<Longrightarrow> lock_step n s s' \<Longrightarrow> lock_reachable n s'"

inductive_cases lock_stepE: "lock_step n s s'"

section \<open>The invariant\<close>

text \<open>What a thread does on page \<open>p\<close>; \<open>Outside\<close> when it is elsewhere.\<close>

definition on_page :: "int \<Rightarrow> pc \<Rightarrow> pc" where
  "on_page p c =
     (case c of Outside \<Rightarrow> Outside
      | WaitRead q a \<Rightarrow> if q = p then c else Outside | WaitWrite q a \<Rightarrow> if q = p then c else Outside
      | WaitEsc q a \<Rightarrow> if q = p then c else Outside | Trying q a \<Rightarrow> if q = p then c else Outside
      | Tried q a \<Rightarrow> if q = p then c else Outside | Unlocking q a \<Rightarrow> if q = p then c else Outside
      | UnlockingW q a \<Rightarrow> if q = p then c else Outside | Alleviating q a \<Rightarrow> if q = p then c else Outside
      | Clean q a \<Rightarrow> Outside)"

lemma on_page_simps [simp]:
  "on_page p Outside = Outside" "on_page p (Clean q a) = Outside"
  "on_page p (WaitRead q a) = (if q = p then WaitRead q a else Outside)"
  "on_page p (WaitWrite q a) = (if q = p then WaitWrite q a else Outside)"
  "on_page p (WaitEsc q a) = (if q = p then WaitEsc q a else Outside)"
  "on_page p (Trying q a) = (if q = p then Trying q a else Outside)"
  "on_page p (Tried q a) = (if q = p then Tried q a else Outside)"
  "on_page p (Unlocking q a) = (if q = p then Unlocking q a else Outside)"
  "on_page p (UnlockingW q a) = (if q = p then UnlockingW q a else Outside)"
  "on_page p (Alleviating q a) = (if q = p then Alleviating q a else Outside)"
  by (simp_all add: on_page_def)

text \<open>
  The threads one lock serves: \<open>m\<close> and \<open>c\<close> give each thread's mode and position on the page
  of the lock.
\<close>

definition readers :: "(nat \<Rightarrow> lmode) \<Rightarrow> nat set" where
  "readers m = {t. m t = Rd \<or> m t = Esc}"

definition read_waiters :: "(nat \<Rightarrow> pc) \<Rightarrow> nat set" where
  "read_waiters c = {t. (\<exists>p a. c t = WaitRead p a \<or> c t = Trying p a \<or> c t = Tried p a)}"

definition write_waiters :: "(nat \<Rightarrow> pc) \<Rightarrow> nat set" where
  "write_waiters c = {t. (\<exists>p a. c t = WaitWrite p a \<or> c t = WaitEsc p a)}"

definition pc_ok :: "int \<Rightarrow> nat \<Rightarrow> lmode \<Rightarrow> pc \<Rightarrow> bool" where
  "pc_ok p a m c \<longleftrightarrow>
     (case c of Outside \<Rightarrow> True
      | WaitRead q b \<Rightarrow> b = a \<and> m = Free | WaitWrite q b \<Rightarrow> b = a \<and> m = Free | WaitEsc q b \<Rightarrow> b = a \<and> m = Rd
      | Trying q b \<Rightarrow> b = a \<and> m = Free | Tried q b \<Rightarrow> b = a \<and> (m = Free \<or> m = Rd)
      | Unlocking q b \<Rightarrow> b = a \<and> m = Rd | UnlockingW q b \<Rightarrow> b = a \<and> m = Wr | Alleviating q b \<Rightarrow> b = a \<and> m = Esc
      | Clean q b \<Rightarrow> True)"

lemma pc_ok_simps [simp]:
  "pc_ok p a m Outside"
  "pc_ok p a m (WaitRead q b) \<longleftrightarrow> b = a \<and> m = Free"
  "pc_ok p a m (WaitWrite q b) \<longleftrightarrow> b = a \<and> m = Free"
  "pc_ok p a m (WaitEsc q b) \<longleftrightarrow> b = a \<and> m = Rd"
  "pc_ok p a m (Trying q b) \<longleftrightarrow> b = a \<and> m = Free"
  "pc_ok p a m (Tried q b) \<longleftrightarrow> b = a \<and> (m = Free \<or> m = Rd)"
  "pc_ok p a m (Unlocking q b) \<longleftrightarrow> b = a \<and> m = Rd"
  "pc_ok p a m (UnlockingW q b) \<longleftrightarrow> b = a \<and> m = Wr"
  "pc_ok p a m (Alleviating q b) \<longleftrightarrow> b = a \<and> m = Esc"
  by (simp_all add: pc_ok_def)

definition count :: "nat set \<Rightarrow> 32 word" where
  "count S = of_nat (card S)"

definition lock_ok :: "int \<Rightarrow> nat \<Rightarrow> node_lock \<Rightarrow> (nat \<Rightarrow> lmode) \<Rightarrow> (nat \<Rightarrow> pc) \<Rightarrow> bool" where
  "lock_ok p a l m c \<longleftrightarrow>
     node_id l = p \<and> (\<forall>t. pc_ok p a (m t) (c t)) \<and>
     read_count l = count (readers m) \<and> read_wait l = count (read_waiters c) \<and>
     write_wait l = count (write_waiters c) \<and>
     (write_active l \<longleftrightarrow> (\<exists>t. m t = Wr \<or> m t = Esc)) \<and>
     (\<forall>t u. (m t = Wr \<or> m t = Esc) \<and> m u \<noteq> Free \<longrightarrow> t = u)"

definition few :: "nat \<Rightarrow> (nat \<Rightarrow> lmode) \<Rightarrow> (nat \<Rightarrow> pc) \<Rightarrow> bool" where
  "few n m c \<longleftrightarrow> (\<forall>t \<ge> n. m t = Free \<and> c t = Outside)"

definition page_inv :: "nat \<Rightarrow> lock_sys \<Rightarrow> int \<Rightarrow> bool" where
  "page_inv n s p \<longleftrightarrow> few n (\<lambda>t. mode s t p) (\<lambda>t. on_page p (at s t)) \<and>
     (case lock_table s p of
        None \<Rightarrow> \<forall>t. mode s t p = Free \<and> on_page p (at s t) = Outside
      | Some a \<Rightarrow> \<exists>l. locks s a = Some l \<and> lock_ok p a l (\<lambda>t. mode s t p) (\<lambda>t. on_page p (at s t)))"

definition lock_inv :: "nat \<Rightarrow> lock_sys \<Rightarrow> bool" where
  "lock_inv n s \<longleftrightarrow> (\<forall>p. page_inv n s p)"

lemma lock_inv_init: "lock_inv n lock_sys_init"
  by (simp add: lock_inv_def page_inv_def lock_sys_init_def few_def)

text \<open>A step on one page keeps what is known about the others.\<close>

lemma page_inv_other:
  assumes "page_inv n s q" "\<And>t. mode s' t q = mode s t q" "\<And>t. on_page q (at s' t) = on_page q (at s t)"
    "lock_table s' q = lock_table s q" "\<And>a. lock_table s q = Some a \<Longrightarrow> locks s' a = locks s a"
  shows "page_inv n s' q"
  using assms by (auto simp: page_inv_def split: option.splits)

lemma table_inj:
  assumes "lock_inv n s" "lock_table s p = Some a" "lock_table s q = Some a"
  shows "p = q"
proof -
  have "page_inv n s p" "page_inv n s q" using assms(1) by (simp_all add: lock_inv_def)
  then show ?thesis using assms(2,3) by (auto simp: page_inv_def lock_ok_def)
qed

section \<open>Counting threads\<close>

lemma count_insert: "finite S \<Longrightarrow> t \<notin> S \<Longrightarrow> count (insert t S) = count S + 1"
  by (simp add: count_def)

lemma count_remove:
  assumes "finite S" "t \<in> S"
  shows "count (S - {t}) = count S - 1"
proof -
  have "card S = Suc (card (S - {t}))" using assms by (metis card.remove)
  then show ?thesis by (simp add: count_def)
qed

lemma word_count:
  assumes "k < 2 ^ 32"
  shows "(of_nat k :: 32 word) > 0 \<longleftrightarrow> k > 0" "(of_nat k :: 32 word) > 1 \<longleftrightarrow> k > 1"
    "(of_nat k :: 32 word) = 1 \<longleftrightarrow> k = 1" "(of_nat k :: 32 word) = 0 \<longleftrightarrow> k = 0"
  using assms by (simp_all add: word_less_nat_alt word_unat_eq_iff unat_of_nat take_bit_nat_eq_self_iff)

lemma readers_upd [simp]:
  "readers (m(t := x)) = (if x = Rd \<or> x = Esc then insert t (readers m) else readers m - {t})"
  by (auto simp: readers_def)

lemma read_waiters_upd [simp]:
  "read_waiters (c(t := x)) =
     (if \<exists>p a. x = WaitRead p a \<or> x = Trying p a \<or> x = Tried p a then insert t (read_waiters c) else read_waiters c - {t})"
  by (auto simp: read_waiters_def)

lemma write_waiters_upd [simp]:
  "write_waiters (c(t := x)) =
     (if \<exists>p a. x = WaitWrite p a \<or> x = WaitEsc p a then insert t (write_waiters c) else write_waiters c - {t})"
  by (auto simp: write_waiters_def)

lemma few_finite:
  assumes "few n m c"
  shows "finite (readers m)" "finite (read_waiters c)" "finite (write_waiters c)"
    "card (readers m) \<le> n" "card (read_waiters c) \<le> n" "card (write_waiters c) \<le> n"
proof -
  have out: "m t = Free" "c t = Outside" if "\<not> t < n" for t
    using assms that by (simp_all add: few_def)
  have "readers m \<subseteq> {..<n}" using out(1) by (force simp: readers_def)
  moreover have "read_waiters c \<subseteq> {..<n}" using out(2) by (force simp: read_waiters_def)
  moreover have "write_waiters c \<subseteq> {..<n}" using out(2) by (force simp: write_waiters_def)
  ultimately show "finite (readers m)" "finite (read_waiters c)" "finite (write_waiters c)"
    "card (readers m) \<le> n" "card (read_waiters c) \<le> n" "card (write_waiters c) \<le> n"
    by (auto intro: finite_subset dest: card_mono [OF finite_lessThan])
qed

section \<open>The operations keep the counts\<close>

lemma lock_okD:
  assumes "lock_ok p a l m c"
  shows "node_id l = p" "pc_ok p a (m t) (c t)" "read_count l = count (readers m)"
    "read_wait l = count (read_waiters c)" "write_wait l = count (write_waiters c)"
    "write_active l \<longleftrightarrow> (\<exists>t. m t = Wr \<or> m t = Esc)"
    "m t = Wr \<or> m t = Esc \<Longrightarrow> m u \<noteq> Free \<Longrightarrow> t = u"
  using assms unfolding lock_ok_def by blast+

lemma lock_okI:
  assumes ok: "lock_ok p a l m c" and l': "node_id l' = p" "pc_ok p a x y"
    "read_count l' = count (readers (m(t := x)))" "read_wait l' = count (read_waiters (c(t := y)))"
    "write_wait l' = count (write_waiters (c(t := y)))"
    and active: "write_active l' \<longleftrightarrow> (\<exists>u. (m(t := x)) u = Wr \<or> (m(t := x)) u = Esc)"
    and excl: "\<And>u v. (m(t := x)) u = Wr \<or> (m(t := x)) u = Esc \<Longrightarrow> (m(t := x)) v \<noteq> Free \<Longrightarrow> u = v"
  shows "lock_ok p a l' (m(t := x)) (c(t := y))"
proof -
  have "pc_ok p a ((m(t := x)) u) ((c(t := y)) u)" for u using l'(2) lock_okD(2) [OF ok] by simp
  then show ?thesis unfolding lock_ok_def using l' active excl by blast
qed

text \<open>The modes after one thread takes or drops a lock.\<close>

lemma active_none: "\<forall>u. m u \<noteq> Wr \<and> m u \<noteq> Esc \<Longrightarrow> x \<noteq> Wr \<Longrightarrow> x \<noteq> Esc \<Longrightarrow>
  \<not> (\<exists>u. (m(t := x)) u = Wr \<or> (m(t := x)) u = Esc)"
  by auto

lemma active_alone: "\<forall>u. u \<noteq> t \<longrightarrow> m u = Free \<Longrightarrow> (m(t := x)) u = Wr \<or> (m(t := x)) u = Esc \<Longrightarrow>
  (m(t := x)) v \<noteq> Free \<Longrightarrow> u = v"
  by (auto split: if_splits)

lemma ReadLock_ok:
  assumes ok: "lock_ok p a l m c" and few: "few n m c" "n < 2 ^ 32" and t: "c t = WaitRead p a"
  shows "NodeLock_ReadLock l = None \<or>
    (\<exists>l'. NodeLock_ReadLock l = Some (Inr l') \<and> lock_ok p a l' (m(t := Rd)) (c(t := Outside)))"
proof -
  note F = few_finite [OF few(1)] and D = lock_okD [OF ok]
  have m: "m t = Free" using D(2) [of t] t by simp
  have w: "t \<in> read_waiters c" "t \<notin> write_waiters c" "t \<notin> readers m"
    using t m by (auto simp: read_waiters_def write_waiters_def readers_def)
  have "card (read_waiters c) > 0" using F(2) w(1) by (auto simp: card_gt_0_iff)
  then have pos: "read_wait l > 0" using word_count(1) F(5) few(2) by (simp add: D(4) count_def)
  show ?thesis
  proof (cases "write_active l \<or> write_wait l > 0")
    case False
    then have "\<forall>u. m u \<noteq> Wr \<and> m u \<noteq> Esc" using D(6) by blast
    then have nw: "\<not> (\<exists>u. (m(t := Rd)) u = Wr \<or> (m(t := Rd)) u = Esc)" by (rule active_none) simp_all
    have "lock_ok p a (l\<lparr>read_wait := read_wait l - 1, read_count := read_count l + 1\<rparr>) (m(t := Rd)) (c(t := Outside))"
    proof (rule lock_okI [OF ok])
      show "u = v" if "(m(t := Rd)) u = Wr \<or> (m(t := Rd)) u = Esc" for u v using nw that by blast
    qed (use nw w F(1-3) D(1,3-5) False in \<open>simp_all add: count_remove count_insert\<close>)
    then show ?thesis using False pos by (simp add: NodeLock_ReadLock_def)
  qed (simp add: NodeLock_ReadLock_def)
qed

lemma WriteLock_ok:
  assumes ok: "lock_ok p a l m c" and few: "few n m c" "n < 2 ^ 32" and t: "c t = WaitWrite p a"
  shows "NodeLock_WriteLock l = None \<or>
    (\<exists>l'. NodeLock_WriteLock l = Some (Inr l') \<and> lock_ok p a l' (m(t := Wr)) (c(t := Outside)))"
proof -
  note F = few_finite [OF few(1)] and D = lock_okD [OF ok]
  have m: "m t = Free" using D(2) [of t] t by simp
  have w: "t \<notin> read_waiters c" "t \<in> write_waiters c" "t \<notin> readers m"
    using t m by (auto simp: read_waiters_def write_waiters_def readers_def)
  have "card (write_waiters c) > 0" using F(3) w(2) by (auto simp: card_gt_0_iff)
  then have pos: "write_wait l > 0" using word_count(1) F(6) few(2) by (simp add: D(5) count_def)
  show ?thesis
  proof (cases "read_count l > 0 \<or> write_active l")
    case False
    then have "card (readers m) = 0" using word_count(1) F(4) few(2) by (simp add: D(3) count_def)
    then have "readers m = {}" using F(1) by simp
    then have "m u = Free" for u using False D(6) by (cases "m u") (auto simp: readers_def)
    then have free: "\<forall>u. u \<noteq> t \<longrightarrow> m u = Free" by simp
    have "lock_ok p a (l\<lparr>write_wait := write_wait l - 1, write_active := True\<rparr>) (m(t := Wr)) (c(t := Outside))"
    proof (rule lock_okI [OF ok])
      show "u = v" if "(m(t := Wr)) u = Wr \<or> (m(t := Wr)) u = Esc" "(m(t := Wr)) v \<noteq> Free" for u v
        by (rule active_alone [OF free that])
      show "write_active (l\<lparr>write_wait := write_wait l - 1, write_active := True\<rparr>) =
        (\<exists>u. (m(t := Wr)) u = Wr \<or> (m(t := Wr)) u = Esc)"
        by (rule iffI, rule exI [of _ t], simp_all)
    qed (use w F(1-3) D(1,3-5) in \<open>simp_all add: count_remove\<close>)
    then show ?thesis using False pos by (simp add: NodeLock_WriteLock_def)
  qed (simp add: NodeLock_WriteLock_def)
qed

lemma EscalateLock_ok:
  assumes ok: "lock_ok p a l m c" and few: "few n m c" "n < 2 ^ 32" and t: "c t = WaitEsc p a"
  shows "NodeLock_EscalateLock l = None \<or>
    (\<exists>l'. NodeLock_EscalateLock l = Some (Inr l') \<and> lock_ok p a l' (m(t := Esc)) (c(t := Outside)))"
proof -
  note F = few_finite [OF few(1)] and D = lock_okD [OF ok]
  have m: "m t = Rd" using D(2) [of t] t by simp
  have w: "t \<notin> read_waiters c" "t \<in> write_waiters c" "t \<in> readers m"
    using t m by (auto simp: read_waiters_def write_waiters_def readers_def)
  have "card (write_waiters c) > 0" using F(3) w(2) by (auto simp: card_gt_0_iff)
  then have pos: "write_wait l > 0" using word_count(1) F(6) few(2) by (simp add: D(5) count_def)
  show ?thesis
  proof (cases "read_count l > 1 \<or> write_active l")
    case False
    have "card (readers m) < 2 ^ 32" using F(4) few(2) by simp
    note W = word_count [OF this]
    have "card (readers m) > 0" using F(1) w(3) by (auto simp: card_gt_0_iff)
    moreover have "\<not> card (readers m) > 1" using False W(2) by (simp add: D(3) count_def)
    ultimately have one: "card (readers m) = 1" by simp
    then have "readers m = {t}" using w(3) by (auto simp: card_1_singleton_iff)
    then have "m u = Free" if "u \<noteq> t" for u
      using that False D(6) by (cases "m u") (auto simp: readers_def)
    then have free: "\<forall>u. u \<noteq> t \<longrightarrow> m u = Free" by simp
    have "lock_ok p a (l\<lparr>write_wait := write_wait l - 1, write_active := True\<rparr>) (m(t := Esc)) (c(t := Outside))"
    proof (rule lock_okI [OF ok])
      show "u = v" if "(m(t := Esc)) u = Wr \<or> (m(t := Esc)) u = Esc" "(m(t := Esc)) v \<noteq> Free" for u v
        by (rule active_alone [OF free that])
      show "write_active (l\<lparr>write_wait := write_wait l - 1, write_active := True\<rparr>) =
        (\<exists>u. (m(t := Esc)) u = Wr \<or> (m(t := Esc)) u = Esc)"
        by (rule iffI, rule exI [of _ t], simp_all)
    qed (use w F(1-3) D(1,3-5) in \<open>simp_all add: count_remove insert_absorb\<close>)
    moreover have "read_count l = 1" using one by (simp add: D(3) count_def)
    ultimately show ?thesis using False pos by (simp add: NodeLock_EscalateLock_def)
  qed (simp add: NodeLock_EscalateLock_def)
qed

lemma TryReadLock_ok:
  assumes ok: "lock_ok p a l m c" and few: "few n m c" "n < 2 ^ 32" and t: "c t = Trying p a"
  shows "lock_ok p a (snd (NodeLock_TryReadLock l)) (m(t := if fst (NodeLock_TryReadLock l) then Rd else Free)) (c(t := Tried p a))"
proof -
  note F = few_finite [OF few(1)] and D = lock_okD [OF ok]
  have m: "m t = Free" using D(2) [of t] t by simp
  have w: "t \<in> read_waiters c" "t \<notin> write_waiters c" "t \<notin> readers m"
    using t m by (auto simp: read_waiters_def write_waiters_def readers_def)
  show ?thesis
  proof (cases "write_active l \<or> write_wait l > 0")
    case True
    have "m(t := Free) = m" using m by auto
    moreover from this have "lock_ok p a l (m(t := Free)) (c(t := Tried p a))"
      by (intro lock_okI [OF ok]) (use w F(2,3) D(1,3-7) m in \<open>simp_all add: insert_absorb\<close>)
    ultimately show ?thesis using True by (simp add: NodeLock_TryReadLock_def Let_def)
  next
    case False
    then have "\<forall>u. m u \<noteq> Wr \<and> m u \<noteq> Esc" using D(6) by blast
    then have nw: "\<not> (\<exists>u. (m(t := Rd)) u = Wr \<or> (m(t := Rd)) u = Esc)" by (rule active_none) simp_all
    have "lock_ok p a (l\<lparr>read_count := read_count l + 1\<rparr>) (m(t := Rd)) (c(t := Tried p a))"
    proof (rule lock_okI [OF ok])
      show "u = v" if "(m(t := Rd)) u = Wr \<or> (m(t := Rd)) u = Esc" for u v using nw that by blast
    qed (use nw w F(1-3) D(1,3-5) False in \<open>simp_all add: insert_absorb count_insert\<close>)
    then show ?thesis using False by (simp add: NodeLock_TryReadLock_def Let_def)
  qed
qed

text \<open>Steps that keep the modes.\<close>

lemma lock_ok_pc:
  assumes ok: "lock_ok p a l m c" and l': "node_id l' = p" "read_count l' = read_count l"
    "write_active l' = write_active l" "read_wait l' = count (read_waiters (c(t := y)))"
    "write_wait l' = count (write_waiters (c(t := y)))" "pc_ok p a (m t) y"
  shows "lock_ok p a l' (m(t := m t)) (c(t := y))"
  using l' lock_okD [OF ok] by (intro lock_okI [OF ok]) simp_all

lemma read_wait_dec:
  assumes ok: "lock_ok p a l m c" and few: "few n m c" and t: "c t = Trying p a \<or> c t = Tried p a"
  shows "lock_ok p a (l\<lparr>read_wait := read_wait l - 1\<rparr>) (m(t := m t)) (c(t := Outside))"
proof (rule lock_ok_pc [OF ok])
  have "t \<in> read_waiters c" "t \<notin> write_waiters c" using t by (auto simp: read_waiters_def write_waiters_def)
  then show "read_wait (l\<lparr>read_wait := read_wait l - 1\<rparr>) = count (read_waiters (c(t := Outside)))"
    "write_wait (l\<lparr>read_wait := read_wait l - 1\<rparr>) = count (write_waiters (c(t := Outside)))"
    using few_finite(2) [OF few] lock_okD(4,5) [OF ok] by (simp_all add: count_remove)
qed (simp_all add: lock_okD(1) [OF ok])

lemma announce_read:
  assumes ok: "lock_ok p a l m c" and few: "few n m c" and t: "c t = Outside" "m t = Free"
    and y: "y = WaitRead p a \<or> y = Trying p a"
  shows "lock_ok p a (l\<lparr>read_wait := read_wait l + 1\<rparr>) (m(t := m t)) (c(t := y))"
proof (rule lock_ok_pc [OF ok])
  have "t \<notin> read_waiters c" "t \<notin> write_waiters c" using t by (auto simp: read_waiters_def write_waiters_def)
  then show "read_wait (l\<lparr>read_wait := read_wait l + 1\<rparr>) = count (read_waiters (c(t := y)))"
    "write_wait (l\<lparr>read_wait := read_wait l + 1\<rparr>) = count (write_waiters (c(t := y)))"
    using few_finite(2) [OF few] lock_okD(4,5) [OF ok] y by (auto simp: count_insert)
qed (use y t in \<open>auto simp: lock_okD(1) [OF ok]\<close>)

lemma announce_write:
  assumes ok: "lock_ok p a l m c" and few: "few n m c" and t: "c t = Outside"
    and y: "y = WaitWrite p a \<and> m t = Free \<or> y = WaitEsc p a \<and> m t = Rd"
  shows "lock_ok p a (l\<lparr>write_wait := write_wait l + 1\<rparr>) (m(t := m t)) (c(t := y))"
proof (rule lock_ok_pc [OF ok])
  have "t \<notin> read_waiters c" "t \<notin> write_waiters c" using t by (auto simp: read_waiters_def write_waiters_def)
  then show "read_wait (l\<lparr>write_wait := write_wait l + 1\<rparr>) = count (read_waiters (c(t := y)))"
    "write_wait (l\<lparr>write_wait := write_wait l + 1\<rparr>) = count (write_waiters (c(t := y)))"
    using few_finite(3) [OF few] lock_okD(4,5) [OF ok] y by (auto simp: count_insert)
qed (use y in \<open>auto simp: lock_okD(1) [OF ok]\<close>)

lemma announce_unlock:
  assumes ok: "lock_ok p a l m c" and t: "c t = Outside"
    and y: "y = Unlocking p a \<and> m t = Rd \<or> y = UnlockingW p a \<and> m t = Wr \<or> y = Alleviating p a \<and> m t = Esc"
  shows "lock_ok p a l (m(t := m t)) (c(t := y))"
proof (rule lock_ok_pc [OF ok])
  have "t \<notin> read_waiters c" "t \<notin> write_waiters c" using t by (auto simp: read_waiters_def write_waiters_def)
  then show "read_wait l = count (read_waiters (c(t := y)))" "write_wait l = count (write_waiters (c(t := y)))"
    using lock_okD(4,5) [OF ok] y by auto
qed (use y in \<open>auto simp: lock_okD(1) [OF ok]\<close>)

text \<open>Releasing.\<close>

lemma ReadUnlock_ok:
  assumes ok: "lock_ok p a l m c" and few: "few n m c" "n < 2 ^ 32" and t: "c t = Unlocking p a"
  shows "\<exists>l'. NodeLock_ReadUnlock l = Inr l' \<and> lock_ok p a l' (m(t := Free)) (c(t := Outside))"
proof -
  note F = few_finite [OF few(1)] and D = lock_okD [OF ok]
  have m: "m t = Rd" using D(2) [of t] t by simp
  have w: "t \<notin> read_waiters c" "t \<notin> write_waiters c" "t \<in> readers m"
    using t m by (auto simp: read_waiters_def write_waiters_def readers_def)
  have "card (readers m) > 0" using F(1) w(3) by (auto simp: card_gt_0_iff)
  then have pos: "read_count l > 0" using word_count(1) F(4) few(2) by (simp add: D(3) count_def)
  have nw: "m u \<noteq> Wr \<and> m u \<noteq> Esc" for u using D(7) [of u t] m by auto
  have "lock_ok p a (l\<lparr>read_count := read_count l - 1\<rparr>) (m(t := Free)) (c(t := Outside))"
  proof (rule lock_okI [OF ok])
    show "write_active (l\<lparr>read_count := read_count l - 1\<rparr>) = (\<exists>u. (m(t := Free)) u = Wr \<or> (m(t := Free)) u = Esc)"
      using D(6) nw by simp
    show "u = v" if "(m(t := Free)) u = Wr \<or> (m(t := Free)) u = Esc" for u v
      using nw [of u] that by (auto split: if_splits)
  qed (use w F(1-3) D(1,3-5) in \<open>simp_all add: count_remove\<close>)
  then show ?thesis using pos by (simp add: NodeLock_ReadUnlock_def)
qed

lemma writer_alone:
  assumes "lock_ok p a l m c" "m t = Wr \<or> m t = Esc"
  shows "\<forall>u. u \<noteq> t \<longrightarrow> m u = Free" "write_active l"
  using lock_okD(6,7) [OF assms(1)] assms(2) by blast+

lemma WriteUnlock_ok:
  assumes ok: "lock_ok p a l m c" and t: "c t = UnlockingW p a"
  shows "\<exists>l'. NodeLock_WriteUnlock l = Inr l' \<and> lock_ok p a l' (m(t := Free)) (c(t := Outside))"
proof -
  note D = lock_okD [OF ok]
  have m: "m t = Wr" using D(2) [of t] t by simp
  note A = writer_alone [OF ok disjI1 [OF m]]
  have w: "t \<notin> read_waiters c" "t \<notin> write_waiters c" "t \<notin> readers m"
    using t m by (auto simp: read_waiters_def write_waiters_def readers_def)
  have none: "(m(t := Free)) u = Free" for u using A(1) by simp
  have "lock_ok p a (l\<lparr>write_active := False\<rparr>) (m(t := Free)) (c(t := Outside))"
    by (rule lock_okI [OF ok]) (use w D(1,3-5) none in \<open>simp_all\<close>)
  then show ?thesis using A(2) by (simp add: NodeLock_WriteUnlock_def)
qed

lemma AlleviateLock_ok:
  assumes ok: "lock_ok p a l m c" and t: "c t = Alleviating p a"
  shows "\<exists>l'. NodeLock_AlleviateLock l = Inr l' \<and> lock_ok p a l' (m(t := Rd)) (c(t := Outside))"
proof -
  note D = lock_okD [OF ok]
  have m: "m t = Esc" using D(2) [of t] t by simp
  note A = writer_alone [OF ok disjI2 [OF m]]
  have w: "t \<notin> read_waiters c" "t \<notin> write_waiters c"
    using t by (auto simp: read_waiters_def write_waiters_def)
  have one: "u \<in> readers m \<longleftrightarrow> u = t" for u using A(1) m by (cases "u = t") (auto simp: readers_def)
  then have R: "readers m = {t}" by auto
  have none: "(m(t := Rd)) u \<noteq> Wr \<and> (m(t := Rd)) u \<noteq> Esc" for u using A(1) by simp
  have "lock_ok p a (l\<lparr>write_active := False\<rparr>) (m(t := Rd)) (c(t := Outside))"
    by (rule lock_okI [OF ok]) (use w D(1,3-5) none R in \<open>simp_all\<close>)
  moreover have "read_count l = 1" by (simp add: D(3) R count_def)
  ultimately show ?thesis using A(2) by (simp add: NodeLock_AlleviateLock_def)
qed

section \<open>Every step keeps the invariant\<close>

abbreviation modes :: "lock_sys \<Rightarrow> int \<Rightarrow> nat \<Rightarrow> lmode" where
  "modes s p \<equiv> (\<lambda>t. mode s t p)"

abbreviation pcs :: "lock_sys \<Rightarrow> int \<Rightarrow> nat \<Rightarrow> pc" where
  "pcs s p \<equiv> (\<lambda>t. on_page p (at s t))"

lemma page_lock:
  assumes "lock_inv n s" "lock_table s p = Some a"
  obtains l where "locks s a = Some l" "lock_ok p a l (modes s p) (pcs s p)" "few n (modes s p) (pcs s p)"
proof -
  have "page_inv n s p" using assms(1) by (simp add: lock_inv_def)
  then show ?thesis using assms(2) that by (auto simp: page_inv_def)
qed

text \<open>One thread \<open>t < n\<close> moves on page \<open>p\<close>, whose lock is at address \<open>a\<close>.\<close>

lemma lock_inv_update:
  assumes inv: "lock_inv n s" and t: "t < n"
    and a: "lock_table s p = Some a \<or> lock_table s p = None \<and> locks s a = None"
    and s': "lock_table s' = (lock_table s)(p \<mapsto> a)" "locks s' = (locks s)(a \<mapsto> l')"
      "mode s' = (mode s)(t := (mode s t)(p := x))" "at s' = (at s)(t := y)"
    and other: "\<And>q. q \<noteq> p \<Longrightarrow> on_page q y = Outside \<and> on_page q (at s t) = Outside"
    and ok: "lock_ok p a l' ((modes s p)(t := x)) ((pcs s p)(t := on_page p y))"
  shows "lock_inv n s'"
  unfolding lock_inv_def
proof
  fix q
  have q: "page_inv n s q" using inv by (simp add: lock_inv_def)
  show "page_inv n s' q"
  proof (cases "q = p")
    case True
    have "modes s' p = (modes s p)(t := x)" "pcs s' p = (pcs s p)(t := on_page p y)"
      by (auto simp: s')
    moreover have "few n (modes s' p) (pcs s' p)" using q t by (simp add: True page_inv_def few_def s')
    ultimately show ?thesis using ok by (simp add: True page_inv_def s')
  next
    case False
    have "b \<noteq> a" if "lock_table s q = Some b" for b
    proof
      assume b: "b = a"
      from a show False
      proof
        assume "lock_table s p = Some a"
        from table_inj [OF inv this] show False using that b False by blast
      next
        assume "lock_table s p = None \<and> locks s a = None"
        then show False using page_lock [OF inv that] b by (metis option.distinct(1))
      qed
    qed
    then show ?thesis using False other by (intro page_inv_other [OF q]) (auto simp: s')
  qed
qed

lemma busy_lock:
  assumes inv: "lock_inv n s" and busy: "on_page p (at s t) \<noteq> Outside \<or> mode s t p \<noteq> Free"
  obtains a l where "lock_table s p = Some a" "locks s a = Some l" "lock_ok p a l (modes s p) (pcs s p)"
    "few n (modes s p) (pcs s p)"
proof -
  have "page_inv n s p" using inv by (simp add: lock_inv_def)
  then obtain a where a: "lock_table s p = Some a" using busy by (auto simp: page_inv_def split: option.splits)
  obtain l where "locks s a = Some l" "lock_ok p a l (modes s p) (pcs s p)" "few n (modes s p) (pcs s p)"
    by (rule page_lock [OF inv a])
  then show ?thesis by (rule that [OF a])
qed

lemma announce_inv:
  assumes inv: "lock_inv n s" and t: "t < n" "at s t = Outside" and fresh: "locks s addr = None"
    and free: "mode s t p = Free"
    and nx: "\<And>a q. q \<noteq> p \<Longrightarrow> on_page q (next p a) = Outside"
    and ok: "\<And>a l. lock_ok p a l (modes s p) (pcs s p) \<Longrightarrow>
      lock_ok p a (wait l) ((modes s p)(t := mode s t p)) ((pcs s p)(t := on_page p (next p a)))"
  shows "\<exists>s'. announce t p addr wait next s = Inr s' \<and> lock_inv n s'"
proof (cases "lock_table s p")
  case None
  let ?l = "new_node_lock p"
  let ?s = "s\<lparr>lock_table := (lock_table s)(p \<mapsto> addr), locks := (locks s)(addr \<mapsto> wait ?l), at := (at s)(t := next p addr)\<rparr>"
  have "page_inv n s p" using inv by (simp add: lock_inv_def)
  then have "\<And>u. mode s u p = Free" "\<And>u. on_page p (at s u) = Outside" using None by (simp_all add: page_inv_def)
  then have "lock_ok p addr ?l (modes s p) (pcs s p)"
    by (simp add: lock_ok_def new_node_lock_def count_def readers_def read_waiters_def write_waiters_def)
  note ok [OF this]
  then have "lock_inv n ?s"
    by (rule lock_inv_update [OF inv t(1), rotated -1]) (use None fresh nx t(2) in auto)
  moreover have "announce t p addr wait next s = Inr ?s"
    using None by (simp add: announce_def InsertLockTable_def Let_def)
  ultimately show ?thesis by blast
next
  case (Some a)
  obtain l where l: "locks s a = Some l" "lock_ok p a l (modes s p) (pcs s p)" by (rule page_lock [OF inv Some])
  let ?s = "s\<lparr>locks := (locks s)(a \<mapsto> wait l), at := (at s)(t := next p a)\<rparr>"
  have "lock_inv n ?s"
    by (rule lock_inv_update [OF inv t(1) _ _ _ _ _ _ ok [OF l(2)]]) (use Some nx t(2) in auto)
  moreover have "announce t p addr wait next s = Inr ?s"
    using Some l(1) by (simp add: announce_def Let_def)
  ultimately show ?thesis by blast
qed

lemma fetch_inv:
  assumes inv: "lock_inv n s" and t: "t < n" "at s t = Outside" and held: "mode s t p \<noteq> Free"
    and nx: "\<And>a q. q \<noteq> p \<Longrightarrow> on_page q (next p a) = Outside"
    and ok: "\<And>a l. lock_ok p a l (modes s p) (pcs s p) \<Longrightarrow> few n (modes s p) (pcs s p) \<Longrightarrow>
      lock_ok p a (wait l) ((modes s p)(t := mode s t p)) ((pcs s p)(t := on_page p (next p a)))"
  shows "\<exists>s'. fetch t p wait next s = Inr s' \<and> lock_inv n s'"
proof -
  obtain a l where l: "lock_table s p = Some a" "locks s a = Some l" "lock_ok p a l (modes s p) (pcs s p)"
    "few n (modes s p) (pcs s p)"
    using busy_lock [OF inv disjI2 [OF held]] .
  let ?s = "s\<lparr>locks := (locks s)(a \<mapsto> wait l), at := (at s)(t := next p a)\<rparr>"
  have "lock_inv n ?s"
    by (rule lock_inv_update [OF inv t(1) _ _ _ _ _ _ ok [OF l(3,4)]]) (use l nx t(2) in auto)
  then show ?thesis using l by (simp add: fetch_def)
qed

lemma at_lock_inv:
  assumes inv: "lock_inv n s" and t: "t < n" and busy: "on_page p (at s t) = at s t" "at s t \<noteq> Outside"
    and addr: "\<And>b m. pc_ok p b m (at s t) \<Longrightarrow> b = a"
    and nx: "\<And>q. q \<noteq> p \<Longrightarrow> on_page q y = Outside" "\<And>q. q \<noteq> p \<Longrightarrow> on_page q (at s t) = Outside"
    and ok: "\<And>l. locks s a = Some l \<Longrightarrow> lock_ok p a l (modes s p) (pcs s p) \<Longrightarrow> few n (modes s p) (pcs s p) \<Longrightarrow>
      f l = None \<or> (\<exists>l'. f l = Some (Inr l') \<and> lock_ok p a l' ((modes s p)(t := x)) ((pcs s p)(t := on_page p y)))"
  shows "at_lock t p a f x y s = None \<or> (\<exists>s'. at_lock t p a f x y s = Some (Inr s') \<and> lock_inv n s')"
proof -
  obtain b l where l: "lock_table s p = Some b" "locks s b = Some l" "lock_ok p b l (modes s p) (pcs s p)"
    "few n (modes s p) (pcs s p)"
    using busy_lock [OF inv, of p t] busy by auto
  have "pc_ok p b (mode s t p) (at s t)" using lock_okD(2) [OF l(3), of t] busy by simp
  then have b: "b = a" by (rule addr)
  show ?thesis
  proof (cases "f l")
    case None
    then show ?thesis using l(2) b by (simp add: at_lock_def)
  next
    case (Some r)
    then obtain l' where f: "f l = Some (Inr l')" and l': "lock_ok p a l' ((modes s p)(t := x)) ((pcs s p)(t := on_page p y))"
      using ok [of l] l b by auto
    have "lock_inv n (s\<lparr>locks := (locks s)(a \<mapsto> l'), mode := (mode s)(t := (mode s t)(p := x)), at := (at s)(t := y)\<rparr>)"
      by (rule lock_inv_update [OF inv t _ _ _ _ _ _ l']) (use l(1) b nx in auto)
    then show ?thesis using f l(2) b lock_okD(1) [OF l'] by (simp add: at_lock_def)
  qed
qed

lemma cleanup_inv:
  assumes inv: "lock_inv n s" and t: "t < n" and at: "at s t = Clean p a" and n: "n < 2 ^ 32"
  shows "\<exists>s'. cleanup t p a s = Inr s' \<and> lock_inv n s'"
proof -
  let ?s = "s\<lparr>at := (at s)(t := Outside)\<rparr>"
  have same: "on_page q (at ?s u) = on_page q (at s u)" for q u using at by simp
  have inv1: "lock_inv n ?s"
    unfolding lock_inv_def using inv same by (auto simp: lock_inv_def intro: page_inv_other)
  show ?thesis
  proof (cases "lock_table s p = Some a")
    case True
    obtain l where l: "locks s a = Some l" "lock_ok p a l (modes s p) (pcs s p)" "few n (modes s p) (pcs s p)"
      by (rule page_lock [OF inv True])
    show ?thesis
    proof (cases "node_id l = p \<and> \<not> InUse l")
      case idle: True
      let ?d = "?s\<lparr>locks := (locks ?s)(a := None), lock_table := (lock_table ?s)(p := None)\<rparr>"
      note D = lock_okD [OF l(2)] and F = few_finite [OF l(3)]
      have "card (readers (modes s p)) = 0" "card (read_waiters (pcs s p)) = 0" "card (write_waiters (pcs s p)) = 0"
        using idle n F word_count(1) by (auto simp: InUse_def D(3-5) count_def)
      then have E: "readers (modes s p) = {}" "read_waiters (pcs s p) = {}" "write_waiters (pcs s p) = {}"
        using F by simp_all
      have free: "mode s u p = Free" for u
        using E(1) idle D(6) by (cases "mode s u p") (auto simp: InUse_def readers_def)
      have out: "on_page p (at s u) = Outside" for u
        using E(2,3) free [of u] D(2) [of u]
        by (cases "on_page p (at s u)") (auto simp: read_waiters_def write_waiters_def on_page_def split: pc.splits if_splits)
      have "page_inv n ?d q" for q
      proof (cases "q = p")
        case True
        then show ?thesis using free out same by (simp add: page_inv_def few_def)
      next
        case False
        have ba: "b \<noteq> a" if "lock_table s q = Some b" for b using table_inj [OF inv that] True False by auto
        have "page_inv n s q" using inv by (simp add: lock_inv_def)
        then show ?thesis
        proof (rule page_inv_other)
          show "on_page q (at ?d u) = on_page q (at s u)" for u using same by simp
          show "locks ?d b = locks s b" if "lock_table s q = Some b" for b using ba [OF that] by simp
        qed (use False in simp_all)
      qed
      then have "lock_inv n ?d" unfolding lock_inv_def by blast
      then show ?thesis using True l(1) idle by (simp add: cleanup_def Let_def)
    qed (use True l(1) inv1 in \<open>auto simp: cleanup_def Let_def\<close>)
  qed (use inv1 in \<open>simp add: cleanup_def Let_def\<close>)
qed

text \<open>No critical section fails, and every completed one keeps the invariant.\<close>

lemma continue_inv:
  assumes inv: "lock_inv n s" and n: "n < 2 ^ 32" and t: "t < n"
  shows "lock_do (Continue t) s = None \<or> (\<exists>s'. lock_do (Continue t) s = Some (Inr s') \<and> lock_inv n s')"
proof (cases "at s t")
  case (WaitRead p a)
  have "at_lock t p a NodeLock_ReadLock Rd Outside s = None \<or>
      (\<exists>s'. at_lock t p a NodeLock_ReadLock Rd Outside s = Some (Inr s') \<and> lock_inv n s')"
    by (rule at_lock_inv [OF inv t]) (use WaitRead ReadLock_ok [OF _ _ n] in auto)
  then show ?thesis using WaitRead by simp
next
  case (WaitWrite p a)
  have "at_lock t p a NodeLock_WriteLock Wr Outside s = None \<or>
      (\<exists>s'. at_lock t p a NodeLock_WriteLock Wr Outside s = Some (Inr s') \<and> lock_inv n s')"
    by (rule at_lock_inv [OF inv t]) (use WaitWrite WriteLock_ok [OF _ _ n] in auto)
  then show ?thesis using WaitWrite by simp
next
  case (WaitEsc p a)
  have "at_lock t p a NodeLock_EscalateLock Esc Outside s = None \<or>
      (\<exists>s'. at_lock t p a NodeLock_EscalateLock Esc Outside s = Some (Inr s') \<and> lock_inv n s')"
    by (rule at_lock_inv [OF inv t]) (use WaitEsc EscalateLock_ok [OF _ _ n] in auto)
  then show ?thesis using WaitEsc by simp
next
  case (Trying p a)
  let ?x = "case locks s a of None \<Rightarrow> Free | Some l \<Rightarrow> if fst (NodeLock_TryReadLock l) then Rd else Free"
  have "at_lock t p a (\<lambda>l. Some (Inr (snd (NodeLock_TryReadLock l)))) ?x (Tried p a) s = None \<or>
      (\<exists>s'. at_lock t p a (\<lambda>l. Some (Inr (snd (NodeLock_TryReadLock l)))) ?x (Tried p a) s = Some (Inr s') \<and> lock_inv n s')"
    by (rule at_lock_inv [OF inv t]) (use Trying TryReadLock_ok [OF _ _ n, of p a _ "modes s p" "pcs s p" t] in auto)
  then show ?thesis using Trying by simp
next
  case (Tried p a)
  have "at_lock t p a (\<lambda>l. Some (Inr (l\<lparr>read_wait := read_wait l - 1\<rparr>))) (mode s t p) Outside s = None \<or>
      (\<exists>s'. at_lock t p a (\<lambda>l. Some (Inr (l\<lparr>read_wait := read_wait l - 1\<rparr>))) (mode s t p) Outside s = Some (Inr s') \<and> lock_inv n s')"
    by (rule at_lock_inv [OF inv t]) (use Tried read_wait_dec [of p a _ "modes s p" "pcs s p" n t] in auto)
  then show ?thesis using Tried by simp
next
  case (Unlocking p a)
  have "at_lock t p a (\<lambda>l. Some (NodeLock_ReadUnlock l)) Free (Clean p a) s = None \<or>
      (\<exists>s'. at_lock t p a (\<lambda>l. Some (NodeLock_ReadUnlock l)) Free (Clean p a) s = Some (Inr s') \<and> lock_inv n s')"
    by (rule at_lock_inv [OF inv t]) (use Unlocking ReadUnlock_ok [OF _ _ n] in auto)
  then show ?thesis using Unlocking by simp
next
  case (UnlockingW p a)
  have "at_lock t p a (\<lambda>l. Some (NodeLock_WriteUnlock l)) Free (Clean p a) s = None \<or>
      (\<exists>s'. at_lock t p a (\<lambda>l. Some (NodeLock_WriteUnlock l)) Free (Clean p a) s = Some (Inr s') \<and> lock_inv n s')"
    by (rule at_lock_inv [OF inv t]) (use UnlockingW WriteUnlock_ok in auto)
  then show ?thesis using UnlockingW by simp
next
  case (Alleviating p a)
  have "at_lock t p a (\<lambda>l. Some (NodeLock_AlleviateLock l)) Rd Outside s = None \<or>
      (\<exists>s'. at_lock t p a (\<lambda>l. Some (NodeLock_AlleviateLock l)) Rd Outside s = Some (Inr s') \<and> lock_inv n s')"
    by (rule at_lock_inv [OF inv t]) (use Alleviating AlleviateLock_ok in auto)
  then show ?thesis using Alleviating by simp
next
  case (Clean p a)
  then show ?thesis using cleanup_inv [OF inv t Clean n] by auto
qed simp

lemma lock_do_inv:
  assumes inv: "lock_inv n s" and n: "n < 2 ^ 32" and t: "actor c < n"
  shows "lock_do c s = None \<or> (\<exists>s'. lock_do c s = Some (Inr s') \<and> lock_inv n s')"
proof -
  have few: "few n (modes s p) (pcs s p)" for p using inv by (simp add: lock_inv_def page_inv_def)
  show ?thesis
  proof (cases c)
    case (DoReadLock t p addr)
    then have t: "t < n" using t by simp
    have "\<exists>s'. announce t p addr (\<lambda>l. l\<lparr>read_wait := read_wait l + 1\<rparr>) WaitRead s = Inr s' \<and> lock_inv n s'"
      if g: "at s t = Outside" "mode s t p = Free" "locks s addr = None"
      by (rule announce_inv [OF inv t g(1,3,2)], simp, rule announce_read [OF _ few]) (use g in simp_all)
    then show ?thesis using DoReadLock by simp
  next
    case (DoTryReadLock t p addr)
    then have t: "t < n" using t by simp
    have "\<exists>s'. announce t p addr (\<lambda>l. l\<lparr>read_wait := read_wait l + 1\<rparr>) Trying s = Inr s' \<and> lock_inv n s'"
      if g: "at s t = Outside" "mode s t p = Free" "locks s addr = None"
      by (rule announce_inv [OF inv t g(1,3,2)], simp, rule announce_read [OF _ few]) (use g in simp_all)
    then show ?thesis using DoTryReadLock by simp
  next
    case (DoWriteLock t p addr)
    then have t: "t < n" using t by simp
    have "\<exists>s'. announce t p addr (\<lambda>l. l\<lparr>write_wait := write_wait l + 1\<rparr>) WaitWrite s = Inr s' \<and> lock_inv n s'"
      if g: "at s t = Outside" "mode s t p = Free" "locks s addr = None"
      by (rule announce_inv [OF inv t g(1,3,2)], simp, rule announce_write [OF _ few]) (use g in simp_all)
    then show ?thesis using DoWriteLock by simp
  next
    case (DoEscalateLock t p)
    then have t: "t < n" using t by simp
    have "\<exists>s'. fetch t p (\<lambda>l. l\<lparr>write_wait := write_wait l + 1\<rparr>) WaitEsc s = Inr s' \<and> lock_inv n s'" if g: "at s t = Outside" "mode s t p = Rd"
      by (rule fetch_inv [OF inv t g(1)], simp add: g, simp, rule announce_write [OF _ few]) (use g in simp_all)
    then show ?thesis using DoEscalateLock inv by simp
  next
    case (DoAlleviateLock t p)
    then have t: "t < n" using t by simp
    have "\<exists>s'. fetch t p (\<lambda>l. l) Alleviating s = Inr s' \<and> lock_inv n s'" if g: "at s t = Outside" "mode s t p = Esc"
      by (rule fetch_inv [OF inv t g(1)], simp add: g, simp, rule announce_unlock) (use g in simp_all)
    then show ?thesis using DoAlleviateLock inv by simp
  next
    case (DoReadUnlock t p)
    then have t: "t < n" using t by simp
    have "\<exists>s'. fetch t p (\<lambda>l. l) Unlocking s = Inr s' \<and> lock_inv n s'" if g: "at s t = Outside" "mode s t p = Rd"
      by (rule fetch_inv [OF inv t g(1)], simp add: g, simp, rule announce_unlock) (use g in simp_all)
    then show ?thesis using DoReadUnlock inv by simp
  next
    case (DoWriteUnlock t p)
    then have t: "t < n" using t by simp
    have "\<exists>s'. fetch t p (\<lambda>l. l) UnlockingW s = Inr s' \<and> lock_inv n s'" if g: "at s t = Outside" "mode s t p = Wr"
      by (rule fetch_inv [OF inv t g(1)], simp add: g, simp, rule announce_unlock) (use g in simp_all)
    then show ?thesis using DoWriteUnlock inv by simp
  next
    case (TrylockFails t)
    have "at_lock t p a (\<lambda>l. Some (Inr (l\<lparr>read_wait := read_wait l - 1\<rparr>))) Free Outside s = None \<or>
        (\<exists>s'. at_lock t p a (\<lambda>l. Some (Inr (l\<lparr>read_wait := read_wait l - 1\<rparr>))) Free Outside s = Some (Inr s') \<and> lock_inv n s')"
      if at: "at s t = Trying p a" for p a
    proof (rule at_lock_inv [OF inv])
      fix l assume l: "lock_ok p a l (modes s p) (pcs s p)" "few n (modes s p) (pcs s p)"
      have "mode s t p = Free" using lock_okD(2) [OF l(1), of t] at by simp
      then show "Some (Inr (l\<lparr>read_wait := read_wait l - 1\<rparr>)) = None \<or>
          (\<exists>l'. Some (Inr (l\<lparr>read_wait := read_wait l - 1\<rparr>)) = Some (Inr l') \<and>
             lock_ok p a l' ((modes s p)(t := Free)) ((pcs s p)(t := on_page p Outside)))"
        using read_wait_dec [OF l, of t] at by simp
    qed (use at t TrylockFails in auto)
    then show ?thesis using TrylockFails by (simp split: pc.split)
  next
    case (Continue t)
    then show ?thesis using continue_inv [OF inv n, of t] t by simp
  qed
qed

lemma lock_reachable_inv:
  assumes "n < 2 ^ 32"
  shows "lock_reachable n s \<Longrightarrow> lock_inv n s"
proof (induction rule: lock_reachable.induct)
  case lock_start
  show ?case by (rule lock_inv_init)
next
  case (lock_next s s')
  obtain c where "actor c < n" "lock_do c s = Some (Inr s')" using lock_next.hyps(2) by (auto elim: lock_stepE)
  then show ?case using lock_do_inv [OF lock_next.IH assms, of c] by auto
qed

lemma waits_on:
  assumes "lock_inv n s" "on_page p (at s t) \<noteq> Outside"
  obtains a l where "lock_table s p = Some a" "locks s a = Some l" "lock_ok p a l (modes s p) (pcs s p)"
    "few n (modes s p) (pcs s p)" "pc_ok p a (mode s t p) (on_page p (at s t))"
proof -
  obtain a l where *: "lock_table s p = Some a" "locks s a = Some l" "lock_ok p a l (modes s p) (pcs s p)"
    "few n (modes s p) (pcs s p)" using busy_lock [OF assms(1) disjI1 [OF assms(2)]] .
  then show ?thesis using that lock_okD(2) [OF *(3), of t] by blast
qed

lemma upgrader_waits:
  assumes inv: "lock_inv n s" and n: "n < 2 ^ 32" and at: "at s t = WaitEsc p a" and u: "t \<noteq> u" "mode s u p = Rd"
  shows "lock_do (Continue t) s = None"
proof -
  obtain b l where l: "locks s b = Some l" "lock_ok p b l (modes s p) (pcs s p)"
    "few n (modes s p) (pcs s p)" "pc_ok p b (mode s t p) (on_page p (at s t))"
    using waits_on [OF inv, of p t] at by auto
  have b: "b = a" using l(4) at by simp
  note F = few_finite [OF l(3)]
  have "mode s t p = Rd" using l(4) at by simp
  then have "{t, u} \<subseteq> readers (modes s p)" using u by (simp add: readers_def)
  then have "card {t, u} \<le> card (readers (modes s p))" by (rule card_mono [OF F(1)])
  then have "card (readers (modes s p)) > 1" using u(1) by simp
  then have "read_count l > 1" using word_count(2) F(4) n lock_okD(3) [OF l(2)] by (simp add: count_def)
  then show ?thesis using at l(1) b by (simp add: at_lock_def NodeLock_EscalateLock_def)
qed

section \<open>Properties\<close>

fun lock_run :: "lock_action list \<Rightarrow> lock_sys \<Rightarrow> lock_sys option" where
  "lock_run [] s = Some s"
| "lock_run (c # cs) s = (case lock_do c s of Some (Inr s') \<Rightarrow> lock_run cs s' | _ \<Rightarrow> None)"

lemma lock_run_reachable:
  "lock_reachable n s \<Longrightarrow> \<forall>c \<in> set cs. actor c < n \<Longrightarrow> lock_run cs s = Some s' \<Longrightarrow> lock_reachable n s'"
proof (induction cs arbitrary: s)
  case (Cons c cs)
  then obtain s1 where "lock_do c s = Some (Inr s1)" "lock_run cs s1 = Some s'"
    by (auto split: option.splits sum.splits)
  moreover from this have "lock_reachable n s1" using Cons.prems by (auto intro: lock_next do_step)
  ultimately show ?case using Cons.IH Cons.prems(2) by simp
qed simp

lemmas lock_ops = announce_def fetch_def at_lock_def cleanup_def InsertLockTable_def new_node_lock_def Let_def
  NodeLock_ReadLock_def NodeLock_WriteLock_def NodeLock_EscalateLock_def NodeLock_TryReadLock_def
  NodeLock_ReadUnlock_def NodeLock_WriteUnlock_def NodeLock_AlleviateLock_def InUse_def lock_sys_init_def

lemma run_write_lock_ex: "\<exists>s. lock_reachable 2 s \<and> mode s 0 5 = Wr"
proof -
  have "\<exists>s. lock_run [DoWriteLock 0 5 0, Continue 0] lock_sys_init = Some s \<and> mode s 0 5 = Wr"
    by (simp add: lock_ops)
  then show ?thesis using lock_run_reachable [OF lock_start, of "[DoWriteLock 0 5 0, Continue 0]" 2] by auto
qed

text \<open>C21. The node locks exclude each other: in every interleaving of fewer than \<open>2 ^ 32\<close> threads
  that use the lock manager, while a thread holds a page for writing or has escalated its read
  lock, no other thread holds the page in any mode.\<close>

theorem lock_manager_exclusion:
  assumes "lock_reachable n s" "n < 2 ^ 32" "mode s t p = Wr \<or> mode s t p = Esc" "mode s u p \<noteq> Free"
  shows "t = u"
proof -
  have inv: "lock_inv n s" by (rule lock_reachable_inv [OF assms(2,1)])
  obtain a l where "lock_ok p a l (modes s p) (pcs s p)" using busy_lock [OF inv disjI2 [OF assms(4)]] by blast
  from lock_okD(7) [OF this, of t u] show ?thesis using assms(3,4) by simp
qed

theorem lock_manager_exclusion_witness: "\<exists>s. lock_reachable 2 s \<and> mode s 0 5 = Wr \<and> (\<forall>u. mode s u 5 \<noteq> Free \<longrightarrow> 0 = u)"
  using run_write_lock_ex lock_manager_exclusion [of 2 _ 0 5] by auto

text \<open>C22. The lock table is memory safe and the assertions of the lock manager hold: no critical
  section of any thread touches a lock that has been deleted, although unused locks are deleted
  while other threads run, and no assertion of the locks or of the table fails.\<close>

theorem lock_manager_no_fault:
  assumes "lock_reachable n s" "n < 2 ^ 32" "actor c < n"
  shows "lock_do c s \<noteq> Some (Inl e)"
  using lock_do_inv [OF lock_reachable_inv [OF assms(2,1)] assms(2,3)] by auto

lemma run_clean_ex: "\<exists>s. lock_reachable 2 s \<and> at s 0 = Clean 5 0 \<and> at s 1 = WaitRead 5 0"
proof -
  let ?cs = "[DoWriteLock 0 5 0, Continue 0, DoReadLock 1 5 1, DoWriteUnlock 0 5, Continue 0]"
  have "\<exists>s. lock_run ?cs lock_sys_init = Some s \<and> at s 0 = Clean 5 0 \<and> at s 1 = WaitRead 5 0"
    by (simp add: lock_ops)
  then show ?thesis using lock_run_reachable [OF lock_start, of ?cs 2] by auto
qed

theorem lock_manager_no_fault_witness:
  "\<exists>s. lock_reachable 2 s \<and> at s 0 = Clean 5 0 \<and> at s 1 = WaitRead 5 0 \<and> lock_do (Continue 0) s \<noteq> Some (Inl NullDeref) \<and>
    lock_do (Continue 1) s \<noteq> Some (Inl AssertFailed)"
proof -
  obtain s where s: "lock_reachable 2 s" "at s 0 = Clean 5 0" "at s 1 = WaitRead 5 0" using run_clean_ex by blast
  show ?thesis
    using s lock_manager_no_fault [OF s(1), of "Continue 0" NullDeref] lock_manager_no_fault [OF s(1), of "Continue 1" AssertFailed]
    by (intro exI [of _ s]) (simp del: lock_do.simps)
qed

lemma lock_do_pc:
  assumes "lock_do c s = Some (Inr s')" "actor c \<noteq> t"
  shows "at s' t = at s t" "mode s' t = mode s t"
  using assms
  by (cases c; auto simp: announce_def fetch_def at_lock_def cleanup_def InsertLockTable_def Let_def
      split: if_splits option.splits pc.splits sum.splits)+

lemma stuck_pc:
  assumes "at s (actor c) = WaitEsc p a" "lock_do (Continue (actor c)) s = None"
  shows "lock_do c s = None"
  using assms by (cases c) auto

lemma upgraders_stuck:
  assumes inv: "lock_inv n s" and n: "n < 2 ^ 32" and at: "at s t = WaitEsc p a" "at s u = WaitEsc p b" "t \<noteq> u"
    and step: "lock_step n s s'"
  shows "lock_inv n s' \<and> at s' t = WaitEsc p a \<and> at s' u = WaitEsc p b"
proof -
  have "mode s t p = Rd" "mode s u p = Rd"
    using waits_on [OF inv, of p t] waits_on [OF inv, of p u] at by auto
  then have stuck: "lock_do (Continue t) s = None" "lock_do (Continue u) s = None"
    using upgrader_waits [OF inv n at(1,3)] upgrader_waits [OF inv n at(2) at(3) [symmetric]] by blast+
  obtain c where c: "actor c < n" "lock_do c s = Some (Inr s')" using step by (auto elim: lock_stepE)
  have "actor c \<noteq> t" using stuck_pc [of s c p a] at(1) stuck(1) c(2) by auto
  moreover have "actor c \<noteq> u" using stuck_pc [of s c p b] at(2) stuck(2) c(2) by auto
  ultimately show ?thesis using lock_do_inv [OF inv n c(1)] c(2) lock_do_pc(1) [OF c(2)] at by auto
qed

lemma run_upgraders_ex: "\<exists>s. lock_reachable 2 s \<and> at s 0 = WaitEsc 5 0 \<and> at s 1 = WaitEsc 5 0"
proof -
  let ?cs = "[DoReadLock 0 5 0, Continue 0, DoReadLock 1 5 1, Continue 1, DoEscalateLock 0 5, DoEscalateLock 1 5]"
  have "\<exists>s. lock_run ?cs lock_sys_init = Some s \<and> at s 0 = WaitEsc 5 0 \<and> at s 1 = WaitEsc 5 0"
    by (simp add: lock_ops)
  then show ?thesis using lock_run_reachable [OF lock_start, of ?cs 2] by auto
qed

text \<open>C36. Two threads that escalate their read locks on the same page block each other for good:
  each waits until it is the only reader, and in every continuation of the run both still wait.\<close>

theorem escalation_deadlock:
  assumes "lock_reachable n s" "n < 2 ^ 32" "at s t = WaitEsc p a" "at s u = WaitEsc p b" "t \<noteq> u"
    "(lock_step n)\<^sup>*\<^sup>* s s'"
  shows "at s' t = WaitEsc p a \<and> at s' u = WaitEsc p b"
  using assms(6)
proof (induction rule: rtranclp_induct)
  case base
  show ?case using assms by simp
next
  case (step x y)
  have "lock_reachable n x" using step.hyps(1) assms(1) by (induction rule: rtranclp_induct) (auto intro: lock_next)
  then have "lock_inv n x" by (rule lock_reachable_inv [OF assms(2)])
  then show ?case using upgraders_stuck [OF _ assms(2) _ _ assms(5) step.hyps(2)] step.IH by blast
qed

theorem escalation_deadlock_witness:
  "\<exists>s. lock_reachable 2 s \<and> at s 0 = WaitEsc 5 0 \<and> (\<forall>s'. (lock_step 2)\<^sup>*\<^sup>* s s' \<longrightarrow> at s' 0 = WaitEsc 5 0 \<and> at s' 1 = WaitEsc 5 0)"
proof -
  obtain s where s: "lock_reachable 2 s" "at s 0 = WaitEsc 5 0" "at s 1 = WaitEsc 5 0" using run_upgraders_ex by blast
  then show ?thesis using escalation_deadlock [OF s(1), of 0 5 0 1 0] by auto
qed

end
