(* ===== verification/LockWait.thy ===== *)
theory LockWait
  imports LockManager
begin

text \<open>
  The condition variable of a node lock (\<^verbatim>\<open>cv_\<close> of \<^verbatim>\<open>wot_lock_mgr/lock_manager.h\<close>). In \<open>LockManager\<close> a thread whose wait
  condition holds simply has no step; here it goes to sleep and stays asleep until a thread signals the condition variable of its
  lock. A state is the state of the lock manager with the set of the sleeping threads. The wait loops test their condition and call
  \<^verbatim>\<open>cv_.Wait()\<close> under the mutex of the lock, so a test that fails and the falling asleep are one step; a woken thread tests its condition
  again. \<^verbatim>\<open>ReadUnlock\<close>, \<^verbatim>\<open>WriteUnlock\<close> and \<^verbatim>\<open>AlleviateLock\<close> end with \<^verbatim>\<open>cv_.SignalAll()\<close>; nothing else wakes a thread, apart from
  the spurious wake-ups that a condition variable may have.
\<close>

section \<open>Sleeping threads\<close>

text \<open>The address of the lock in whose wait loop a thread is.\<close>

definition waits_at :: "lock_sys \<Rightarrow> nat \<Rightarrow> nat option" where
  "waits_at s t = (case at s t of WaitRead p a \<Rightarrow> Some a | WaitWrite p a \<Rightarrow> Some a | WaitEsc p a \<Rightarrow> Some a | _ \<Rightarrow> None)"

definition CondVar_SignalAll :: "nat \<Rightarrow> lock_sys \<Rightarrow> nat set \<Rightarrow> nat set" where
  "CondVar_SignalAll a s A = {t \<in> A. waits_at s t \<noteq> Some a}"

text \<open>The sleeping threads after a critical section: the last statement of the three unlocking sections signals.\<close>

definition asleep_after :: "lock_action \<Rightarrow> lock_sys \<Rightarrow> nat set \<Rightarrow> nat set" where
  "asleep_after c s A =
     (case c of
        Continue t \<Rightarrow> (case at s t of
            Unlocking p a \<Rightarrow> CondVar_SignalAll a s A
          | UnlockingW p a \<Rightarrow> CondVar_SignalAll a s A
          | Alleviating p a \<Rightarrow> CondVar_SignalAll a s A
          | _ \<Rightarrow> A)
      | _ \<Rightarrow> A)"

inductive cv_step :: "nat \<Rightarrow> lock_sys \<times> nat set \<Rightarrow> lock_sys \<times> nat set \<Rightarrow> bool" for n where
  cv_run: "actor c < n \<Longrightarrow> actor c \<notin> A \<Longrightarrow> lock_do c s = Some (Inr s') \<Longrightarrow> cv_step n (s, A) (s', asleep_after c s A)"
| cv_sleep: "t < n \<Longrightarrow> t \<notin> A \<Longrightarrow> waits_at s t \<noteq> None \<Longrightarrow> lock_do (Continue t) s = None \<Longrightarrow> cv_step n (s, A) (s, insert t A)"
| cv_spurious: "t \<in> A \<Longrightarrow> cv_step n (s, A) (s, A - {t})"

inductive cv_reachable :: "nat \<Rightarrow> lock_sys \<times> nat set \<Rightarrow> bool" for n where
  cv_start: "cv_reachable n (lock_sys_init, {})"
| cv_next: "cv_reachable n x \<Longrightarrow> cv_step n x y \<Longrightarrow> cv_reachable n y"

inductive_cases cv_stepE: "cv_step n (s, A) y"

lemma cv_lock_reachable: "cv_reachable n x \<Longrightarrow> lock_reachable n (fst x)"
  by (induction rule: cv_reachable.induct) (auto intro: lock_start lock_next [OF _ do_step] elim!: cv_step.cases)

section \<open>A sleeping thread is blocked\<close>

text \<open>The conditions of the three wait loops.\<close>

fun wait_cond :: "pc \<Rightarrow> node_lock \<Rightarrow> bool" where
  "wait_cond (WaitRead p a) l \<longleftrightarrow> write_active l \<or> write_wait l > 0"
| "wait_cond (WaitWrite p a) l \<longleftrightarrow> read_count l > 0 \<or> write_active l"
| "wait_cond (WaitEsc p a) l \<longleftrightarrow> read_count l > 1 \<or> write_active l"
| "wait_cond _ l \<longleftrightarrow> False"

definition blocked :: "lock_sys \<Rightarrow> nat \<Rightarrow> bool" where
  "blocked s t \<longleftrightarrow> (\<exists>a l. waits_at s t = Some a \<and> locks s a = Some l \<and> wait_cond (at s t) l)"

lemma waits_at_iff: "waits_at s t = Some a \<longleftrightarrow> (\<exists>p. at s t = WaitRead p a \<or> at s t = WaitWrite p a \<or> at s t = WaitEsc p a)"
  by (auto simp: waits_at_def split: pc.splits)

lemma blocked_iff: "waits_at s t \<noteq> None \<Longrightarrow> lock_do (Continue t) s = None \<longleftrightarrow> blocked s t"
  by (cases "at s t") (auto simp: waits_at_def blocked_def at_lock_def NodeLock_ReadLock_def NodeLock_WriteLock_def NodeLock_EscalateLock_def
      split: option.splits)

text \<open>The lock of the page a thread waits for, and what the wait conditions say about the threads that use the page.\<close>

lemma waits_at_addr:
  assumes inv: "lock_inv n s" and t: "on_page p (at s t) \<noteq> Outside"
  shows "waits_at s t = Some a \<Longrightarrow> lock_table s p = Some a"
    "at s t = Unlocking p a \<or> at s t = UnlockingW p a \<or> at s t = Alleviating p a \<Longrightarrow> lock_table s p = Some a"
proof -
  obtain b where b: "lock_table s p = Some b" "pc_ok p b (mode s t p) (on_page p (at s t))" using waits_on [OF inv t] by metis
  show "waits_at s t = Some a \<Longrightarrow> lock_table s p = Some a" using b t by (auto simp: waits_at_iff split: if_splits)
  show "at s t = Unlocking p a \<or> at s t = UnlockingW p a \<or> at s t = Alleviating p a \<Longrightarrow> lock_table s p = Some a" using b t by auto
qed

lemma blocked_threads:
  assumes inv: "lock_inv n s" and n: "n < 2 ^ 32"
  shows "at s t = WaitRead p a \<Longrightarrow> blocked s t \<longleftrightarrow> (\<exists>u. mode s u p = Wr \<or> mode s u p = Esc) \<or> write_waiters (pcs s p) \<noteq> {}" (is "_ \<Longrightarrow> ?R")
    and "at s t = WaitWrite p a \<Longrightarrow> blocked s t \<longleftrightarrow> (\<exists>u. mode s u p \<noteq> Free)" (is "_ \<Longrightarrow> ?W")
    and "at s t = WaitEsc p a \<Longrightarrow> blocked s t \<longleftrightarrow> (\<exists>u. u \<noteq> t \<and> mode s u p \<noteq> Free)" (is "_ \<Longrightarrow> ?E")
proof -
  have L: "\<exists>l. locks s a = Some l \<and> lock_ok p a l (modes s p) (pcs s p) \<and> few n (modes s p) (pcs s p) \<and> pc_ok p a (mode s t p) (at s t)"
    if w: "at s t = WaitRead p a \<or> at s t = WaitWrite p a \<or> at s t = WaitEsc p a"
  proof -
    have o: "on_page p (at s t) \<noteq> Outside" "on_page p (at s t) = at s t" "waits_at s t = Some a" using w by (auto simp: waits_at_iff)
    obtain b l where l: "lock_table s p = Some b" "locks s b = Some l" "lock_ok p b l (modes s p) (pcs s p)" "few n (modes s p) (pcs s p)"
      "pc_ok p b (mode s t p) (on_page p (at s t))" by (rule waits_on [OF inv o(1)])
    then show ?thesis using waits_at_addr(1) [OF inv o(1,3)] o(2) by simp
  qed
  show ?R if w: "at s t = WaitRead p a"
  proof -
    obtain l where l: "locks s a = Some l" "lock_ok p a l (modes s p) (pcs s p)" "few n (modes s p) (pcs s p)" using L w by blast
    have "write_wait l > 0 \<longleftrightarrow> write_waiters (pcs s p) \<noteq> {}"
      using word_count(1) few_finite(3,6) [OF l(3)] n by (simp add: lock_okD(5) [OF l(2)] count_def card_gt_0_iff)
    then show ?thesis using w l(1) lock_okD(6) [OF l(2)] by (simp add: blocked_def waits_at_def)
  qed
  show ?W if w: "at s t = WaitWrite p a"
  proof -
    obtain l where l: "locks s a = Some l" "lock_ok p a l (modes s p) (pcs s p)" "few n (modes s p) (pcs s p)" using L w by blast
    have "read_count l > 0 \<longleftrightarrow> readers (modes s p) \<noteq> {}"
      using word_count(1) few_finite(1,4) [OF l(3)] n by (simp add: lock_okD(3) [OF l(2)] count_def card_gt_0_iff)
    then have "blocked s t \<longleftrightarrow> (\<exists>u. mode s u p = Rd \<or> mode s u p = Esc) \<or> (\<exists>u. mode s u p = Wr \<or> mode s u p = Esc)"
      using w l(1) lock_okD(6) [OF l(2)] by (auto simp: blocked_def waits_at_def readers_def)
    then show ?thesis by (metis lmode.exhaust lmode.distinct(1,3,5))
  qed
  show ?E if w: "at s t = WaitEsc p a"
  proof -
    obtain l where l: "locks s a = Some l" "lock_ok p a l (modes s p) (pcs s p)" "few n (modes s p) (pcs s p)" "mode s t p = Rd"
      using L w by fastforce
    have sole: "\<not> (mode s u p = Wr \<or> mode s u p = Esc)" for u
      using lock_okD(7) [OF l(2), of u t] l(4) by auto
    have "card (readers (modes s p)) = Suc (card (readers (modes s p) - {t}))"
      using l(4) few_finite(1) [OF l(3)] by (intro card.remove) (simp_all add: readers_def)
    then have "card (readers (modes s p)) > 1 \<longleftrightarrow> (\<exists>u. u \<noteq> t \<and> u \<in> readers (modes s p))"
      using few_finite(1) [OF l(3)] by (auto simp: card_gt_0_iff)
    then have "read_count l > 1 \<longleftrightarrow> (\<exists>u. u \<noteq> t \<and> u \<in> readers (modes s p))"
      using word_count(2) few_finite(4) [OF l(3)] n by (simp add: lock_okD(3) [OF l(2)] count_def)
    then have "blocked s t \<longleftrightarrow> (\<exists>u. u \<noteq> t \<and> (mode s u p = Rd \<or> mode s u p = Esc))"
      using w l(1) lock_okD(6) [OF l(2)] sole by (auto simp: blocked_def waits_at_def readers_def)
    then show ?thesis using sole by (metis lmode.exhaust lmode.distinct(1))
  qed
qed

text \<open>What one critical section does to the modes: it starts an operation, ends one, or moves one thread on one page.\<close>

lemma at_lock_effect:
  "at_lock t p a f m next s = Some (Inr s') \<Longrightarrow> mode s' = (mode s)(t := (mode s t)(p := m)) \<and> at s' = (at s)(t := next)"
  by (auto simp: at_lock_def split: option.splits sum.splits if_splits)

lemma announce_mode: "announce t p addr f next s = Inr s' \<Longrightarrow> mode s' = mode s"
  by (auto simp: announce_def InsertLockTable_def Let_def split: option.splits if_splits)

lemma fetch_mode: "fetch t p f next s = Inr s' \<Longrightarrow> mode s' = mode s"
  by (auto simp: fetch_def split: option.splits)

lemma cleanup_mode: "cleanup t p a s = Inr s' \<Longrightarrow> mode s' = mode s"
  by (auto simp: cleanup_def Let_def split: option.splits if_splits)

definition moved :: "lock_sys \<Rightarrow> nat \<Rightarrow> pc \<Rightarrow> int \<Rightarrow> lmode \<Rightarrow> bool" where
  "moved s u w q m \<longleftrightarrow> (\<exists>a. w = WaitRead q a \<and> m = Rd \<or> w = WaitWrite q a \<and> m = Wr \<or> w = WaitEsc q a \<and> m = Esc \<or>
     w = Trying q a \<or> w = Tried q a \<and> m = mode s u q)"

lemma section_effect:
  assumes "lock_do c s = Some (Inr s')" "actor c = u"
  obtains "at s u = Outside \<or> (\<exists>q a. at s u = Clean q a)" "mode s' = mode s"
  | q m where "mode s' = (mode s)(u := (mode s u)(q := m))" "moved s u (at s u) q m"
  | q a m where "c = Continue u" "mode s' = (mode s)(u := (mode s u)(q := m))" "at s u = Unlocking q a \<or> at s u = UnlockingW q a \<or> at s u = Alleviating q a"
proof (cases c)
  case (Continue t)
  then have u: "t = u" using assms(2) by simp
  show ?thesis
    using assms(1) that unfolding Continue u by (cases "at s u") (auto dest!: at_lock_effect cleanup_mode simp: moved_def)
next
  case (TrylockFails t)
  then have u: "t = u" using assms(2) by simp
  show ?thesis
    using assms(1) that unfolding TrylockFails u by (cases "at s u") (auto dest!: at_lock_effect simp: moved_def)
qed (use assms that in \<open>auto dest!: announce_mode fetch_mode split: if_splits\<close>)

text \<open>A critical section that does not signal the lock of the page takes nothing away from what the threads there wait for.\<close>

lemma section_keeps:
  assumes inv: "lock_inv n s" and c: "lock_do c s = Some (Inr s')" and u: "actor c = u"
    and quiet: "\<And>a. c = Continue u \<Longrightarrow> at s u \<noteq> Unlocking p a \<and> at s u \<noteq> UnlockingW p a \<and> at s u \<noteq> Alleviating p a"
  shows "(mode s u p \<noteq> Free \<longrightarrow> mode s' u p \<noteq> Free) \<and>
    (mode s u p = Wr \<or> mode s u p = Esc \<longrightarrow> mode s' u p = Wr \<or> mode s' u p = Esc) \<and>
    (u \<in> write_waiters (pcs s p) \<longrightarrow> mode s' u p = Wr \<or> mode s' u p = Esc)"
  using c u
proof (cases rule: section_effect)
  case 1
  then show ?thesis by (auto simp: write_waiters_def)
next
  case (2 q m)
  show ?thesis
  proof (cases "q = p")
    case True
    have "on_page p (at s u) = at s u" "on_page p (at s u) \<noteq> Outside" using 2(2) True by (auto simp: moved_def)
    then obtain b where "pc_ok p b (mode s u p) (at s u)" using waits_on [OF inv] by metis
    then show ?thesis using 2 True by (auto simp: moved_def write_waiters_def)
  next
    case False
    then show ?thesis using 2 by (auto simp: moved_def write_waiters_def)
  qed
next
  case (3 q a m)
  then have "q \<noteq> p" using quiet by auto
  then show ?thesis using 3 by (auto simp: write_waiters_def)
qed

lemma blocked_kept:
  assumes inv: "lock_inv n s" "lock_inv n s'" and n: "n < 2 ^ 32" and c: "lock_do c s = Some (Inr s')" and t: "actor c \<noteq> t"
    and b: "blocked s t" and quiet: "t \<in> asleep_after c s A"
  shows "blocked s' t"
proof -
  let ?u = "actor c"
  note same = lock_do_pc [OF c]
  obtain a p where a: "waits_at s t = Some a" and p: "at s t = WaitRead p a \<or> at s t = WaitWrite p a \<or> at s t = WaitEsc p a"
    using b by (auto simp: blocked_def waits_at_iff)
  have ta: "lock_table s p = Some a" using waits_at_addr(1) [OF inv(1) _ a, of p] p by auto
  have "at s ?u \<noteq> Unlocking p b \<and> at s ?u \<noteq> UnlockingW p b \<and> at s ?u \<noteq> Alleviating p b" if "c = Continue ?u" for b
  proof (rule ccontr)
    assume "\<not> ?thesis"
    then have at: "at s ?u = Unlocking p b \<or> at s ?u = UnlockingW p b \<or> at s ?u = Alleviating p b" by blast
    then have "b = a" using waits_at_addr(2) [OF inv(1) _ at] ta by auto
    then show False using at quiet a that by (cases c) (auto simp: asleep_after_def CondVar_SignalAll_def)
  qed
  note K = section_keeps [OF inv(1) c refl this]
  have other: "mode s' v p = mode s v p" "at s' v = at s v" if "v \<noteq> ?u" for v using same [of v] that by auto
  have held: "\<exists>v. v \<noteq> x \<and> mode s' v p \<noteq> Free" if "\<exists>v. v \<noteq> x \<and> mode s v p \<noteq> Free" for x using that K other by metis
  have some: "\<exists>v. mode s' v p \<noteq> Free" if "\<exists>v. mode s v p \<noteq> Free" using that K other by metis
  have excl: "\<exists>v. mode s' v p = Wr \<or> mode s' v p = Esc" if "\<exists>v. mode s v p = Wr \<or> mode s v p = Esc" using that K other by metis
  have wait: "(\<exists>v. mode s' v p = Wr \<or> mode s' v p = Esc) \<or> write_waiters (pcs s' p) \<noteq> {}" if W: "write_waiters (pcs s p) \<noteq> {}"
  proof -
    obtain v where v: "v \<in> write_waiters (pcs s p)" using W by blast
    show ?thesis
    proof (cases "v = ?u")
      case False
      then have "v \<in> write_waiters (pcs s' p)" using v other(2) by (simp add: write_waiters_def)
      then show ?thesis by blast
    qed (use v K in blast)
  qed
  have at: "at s' t = at s t" by (rule same(1) [OF t])
  show ?thesis
    using p
  proof (elim disjE)
    assume "at s t = WaitRead p a"
    then show ?thesis using blocked_threads(1) [OF inv(1) n] blocked_threads(1) [OF inv(2) n] at b excl wait by metis
  next
    assume "at s t = WaitWrite p a"
    then show ?thesis using blocked_threads(2) [OF inv(1) n] blocked_threads(2) [OF inv(2) n] at b some by metis
  next
    assume "at s t = WaitEsc p a"
    then show ?thesis using blocked_threads(3) [OF inv(1) n] blocked_threads(3) [OF inv(2) n] at b held by metis
  qed
qed

lemma sleepers_blocked:
  assumes "cv_reachable n x" and n: "n < 2 ^ 32"
  shows "\<forall>t \<in> snd x. t < n \<and> blocked (fst x) t"
  using assms(1)
proof (induction rule: cv_reachable.induct)
  case (cv_next x y)
  have inv: "lock_inv n (fst x)" "lock_inv n (fst y)"
    using cv_lock_reachable cv_reachable.cv_next [OF cv_next.hyps] cv_next.hyps(1) lock_reachable_inv [OF n] by blast+
  show ?case using cv_next.hyps(2)
  proof cases
    case (cv_run c A s s')
    have "t \<in> A" if "t \<in> asleep_after c s A" for t
      using that by (auto simp: asleep_after_def CondVar_SignalAll_def split: lock_action.splits pc.splits)
    then show ?thesis
      using blocked_kept [OF _ _ n cv_run(5)] inv cv_next.IH cv_run by (metis fst_conv snd_conv)
  next
    case (cv_sleep t A s)
    then show ?thesis using cv_next.IH blocked_iff [of s t] by auto
  qed (use cv_next.IH in auto)
qed simp

text \<open>A waiting thread that is not blocked takes its lock with its next step.\<close>

fun granted :: "pc \<Rightarrow> lmode" where
  "granted (WaitRead p a) = Rd" | "granted (WaitWrite p a) = Wr" | "granted (WaitEsc p a) = Esc" | "granted _ = Free"

lemma waiter_served:
  assumes inv: "lock_inv n s" and n: "n < 2 ^ 32" and at: "at s t = WaitRead p a \<or> at s t = WaitWrite p a \<or> at s t = WaitEsc p a"
    and free: "\<not> blocked s t"
  shows "\<exists>s'. lock_do (Continue t) s = Some (Inr s') \<and> mode s' t p = granted (at s t)"
proof -
  have w: "waits_at s t \<noteq> None" "on_page p (at s t) \<noteq> Outside" using at by (auto simp: waits_at_iff)
  then have "t < n" using waits_on [OF inv w(2)] by (metis few_def not_less)
  then obtain s' where s': "lock_do (Continue t) s = Some (Inr s')"
    using lock_do_inv [OF inv n, of "Continue t"] blocked_iff [OF w(1)] free by auto
  then show ?thesis using at by (auto dest!: at_lock_effect)
qed

section \<open>Properties\<close>

text \<open>C23. No wake-up of the node locks is lost. In every interleaving of fewer than \<open>2 ^ 32\<close> threads, with waiting threads asleep until
  their lock's condition variable is signalled: when no other thread holds a page, a thread that waits to write it or to escalate its
  read lock is awake and takes the lock with its next step; a thread that waits to read it is awake and takes the lock with its next step
  when no thread waits to write; and while one does, the reader cannot overtake it, and a waiting writer is awake and takes the lock with
  its next step.\<close>

theorem lock_manager_no_lost_wakeup:
  assumes "cv_reachable n (s, A)" "n < 2 ^ 32" "\<forall>u. u \<noteq> t \<longrightarrow> mode s u p = Free"
  shows "(at s t = WaitWrite p a \<longrightarrow> t \<notin> A \<and> (\<exists>s'. lock_do (Continue t) s = Some (Inr s') \<and> mode s' t p = Wr)) \<and>
    (at s t = WaitEsc p a \<longrightarrow> t \<notin> A \<and> (\<exists>s'. lock_do (Continue t) s = Some (Inr s') \<and> mode s' t p = Esc)) \<and>
    (at s t = WaitRead p a \<and> (\<forall>u b. at s u \<noteq> WaitWrite p b) \<longrightarrow>
       t \<notin> A \<and> (\<exists>s'. lock_do (Continue t) s = Some (Inr s') \<and> mode s' t p = Rd)) \<and>
    (at s t = WaitRead p a \<and> at s u = WaitWrite p b \<longrightarrow>
       lock_do (Continue t) s = None \<and> u \<notin> A \<and> (\<exists>s'. lock_do (Continue u) s = Some (Inr s') \<and> mode s' u p = Wr))"
proof -
  have inv: "lock_inv n s" using lock_reachable_inv [OF assms(2)] cv_lock_reachable [OF assms(1)] by simp
  have S: "blocked s v" if "v \<in> A" for v using sleepers_blocked [OF assms(1,2)] that by simp
  note B = blocked_threads [OF inv assms(2)] and G = waiter_served [OF inv assms(2)]
  have wait: "mode s v p = (case at s v of WaitEsc q b \<Rightarrow> Rd | _ \<Rightarrow> Free)"
    if "at s v = WaitRead p b \<or> at s v = WaitWrite p b \<or> at s v = WaitEsc p b" for v b
  proof -
    have "on_page p (at s v) \<noteq> Outside" "on_page p (at s v) = at s v" using that by auto
    then obtain d where "pc_ok p d (mode s v p) (at s v)" using waits_on [OF inv] by metis
    then show ?thesis using that by auto
  qed
  have free: "mode s v p = Free" if "at s t = WaitRead p a \<or> at s t = WaitWrite p a" for v
    using wait [of t a] assms(3) that by (cases "v = t") auto
  have W: "\<not> blocked s v" if "at s v = WaitWrite p b" "\<forall>u. mode s u p = Free" for v b using B(2) that by blast
  show ?thesis
  proof (intro conjI impI; (elim conjE)?)
    assume "at s t = WaitRead p a" "\<forall>u b. at s u \<noteq> WaitWrite p b"
    then have "v \<notin> write_waiters (pcs s p)" for v
      using wait [of v] free by (auto simp: write_waiters_def on_page_def split: pc.splits if_splits)
    then have "\<not> blocked s t" using B(1) free \<open>at s t = WaitRead p a\<close> by auto
    then show "t \<notin> A" "\<exists>s'. lock_do (Continue t) s = Some (Inr s') \<and> mode s' t p = Rd"
      using S G [of t p a] \<open>at s t = WaitRead p a\<close> by auto
  next
    assume r: "at s t = WaitRead p a" "at s u = WaitWrite p b"
    then have "u \<in> write_waiters (pcs s p)" by (auto simp: write_waiters_def)
    then show "lock_do (Continue t) s = None" using B(1) [OF r(1)] blocked_iff [of s t] r(1) by (auto simp: waits_at_def)
    have "\<not> blocked s u" using W [OF r(2)] free r(1) by blast
    then show "u \<notin> A" "\<exists>s'. lock_do (Continue u) s = Some (Inr s') \<and> mode s' u p = Wr" using S G [of u p b] r(2) by auto
  next
    assume e: "at s t = WaitEsc p a"
    then have "\<not> blocked s t" using B(3) assms(3) by blast
    then show "t \<notin> A" "\<exists>s'. lock_do (Continue t) s = Some (Inr s') \<and> mode s' t p = Esc" using S G [of t p a] e by auto
  next
    assume w: "at s t = WaitWrite p a"
    then have "\<not> blocked s t" using W free by blast
    then show "t \<notin> A" "\<exists>s'. lock_do (Continue t) s = Some (Inr s') \<and> mode s' t p = Wr" using S G [of t p a] w by auto
  qed
qed

text \<open>A run as a list: \<open>Inl c\<close> performs a critical section, \<open>Inr t\<close> lets a thread fall asleep.\<close>

fun cv_exec :: "(lock_action + nat) list \<Rightarrow> lock_sys \<times> nat set \<Rightarrow> (lock_sys \<times> nat set) option" where
  "cv_exec [] x = Some x"
| "cv_exec (Inl c # cs) (s, A) =
     (if actor c \<in> A then None
      else case lock_do c s of Some (Inr s') \<Rightarrow> cv_exec cs (s', asleep_after c s A) | _ \<Rightarrow> None)"
| "cv_exec (Inr t # cs) (s, A) =
     (if t \<notin> A \<and> waits_at s t \<noteq> None \<and> lock_do (Continue t) s = None then cv_exec cs (s, insert t A) else None)"

lemma cv_exec_reachable:
  "cv_reachable n x \<Longrightarrow> \<forall>c \<in> set cs. case_sum actor (\<lambda>t. t) c < n \<Longrightarrow> cv_exec cs x = Some y \<Longrightarrow> cv_reachable n y"
proof (induction cs x rule: cv_exec.induct)
  case (2 c cs s A)
  then obtain s' where "actor c \<notin> A" "lock_do c s = Some (Inr s')" "cv_exec cs (s', asleep_after c s A) = Some y"
    by (auto split: option.splits sum.splits if_splits)
  then show ?case using 2 by (auto intro: cv_next cv_run)
next
  case (3 t cs s A)
  then have "cv_step n (s, A) (s, insert t A)" "cv_exec cs (s, insert t A) = Some y"
    by (auto intro: cv_sleep simp del: lock_do.simps split: if_splits)
  then show ?case using 3 by (simp del: lock_do.simps add: cv_next [OF 3(2)] split: if_splits)
qed simp

text \<open>Thread 0 writes page 5; thread 1 wants to write it and falls asleep; thread 0 unlocks the page.\<close>

definition sleeping_writer :: "(lock_action + nat) list" where
  "sleeping_writer = [Inl (DoWriteLock 0 5 0), Inl (Continue 0), Inl (DoWriteLock 1 5 1), Inr 1]"

lemma sleeping_writer_runs:
  "\<exists>s. cv_exec sleeping_writer (lock_sys_init, {}) = Some (s, {1}) \<and> mode s 0 5 = Wr \<and>
     (\<exists>s' A. cv_exec [Inl (DoWriteUnlock 0 5), Inl (Continue 0)] (s, {1}) = Some (s', A) \<and> at s' 1 = WaitWrite 5 0 \<and> (\<forall>u. mode s' u 5 = Free))"
  by (simp add: sleeping_writer_def lock_ops waits_at_def asleep_after_def CondVar_SignalAll_def)

theorem lock_manager_no_lost_wakeup_witness:
  "\<exists>s s' A t'. cv_exec sleeping_writer (lock_sys_init, {}) = Some (s, {1}) \<and> mode s 0 5 = Wr \<and>
     cv_exec [Inl (DoWriteUnlock 0 5), Inl (Continue 0)] (s, {1}) = Some (s', A) \<and> 1 \<notin> A \<and>
     lock_do (Continue 1) s' = Some (Inr t') \<and> mode t' 1 5 = Wr"
proof -
  let ?cs = "[Inl (DoWriteUnlock 0 5), Inl (Continue 0)]"
  obtain s s' A where s: "cv_exec sleeping_writer (lock_sys_init, {}) = Some (s, {1})" "mode s 0 5 = Wr" "cv_exec ?cs (s, {1}) = Some (s', A)"
    "at s' 1 = WaitWrite 5 0" "\<forall>u. mode s' u 5 = Free" using sleeping_writer_runs by blast
  have "cv_reachable 2 (s, {1})" by (rule cv_exec_reachable [OF cv_start _ s(1)]) (simp add: sleeping_writer_def)
  then have "cv_reachable 2 (s', A)" by (rule cv_exec_reachable [OF _ _ s(3)]) simp
  from lock_manager_no_lost_wakeup [OF this, of 1 5 0] show ?thesis using s by simp
qed

end
