(* ===== verification/Bloom.thy ===== *)
theory Bloom
  imports Coding
begin

text \<open>
  The hash function of \<^verbatim>\<open>leveldb/util/hash.cc\<close>, the bloom filter of \<^verbatim>\<open>util/bloom.cc\<close> and the filter
  block of \<^verbatim>\<open>table/filter_block.cc\<close>. A filter policy is an interface in the code; here it is the
  locale \<open>filter_policy\<close>: the filter block is correct for every policy whose filters accept the
  keys they were built from, and the bloom filter is one.
\<close>

section \<open>Hash and bloom filter\<close>

definition hash_m :: "32 word" where
  "hash_m = 0xc6a4a793"

fun hash_loop :: "32 word \<Rightarrow> slice \<Rightarrow> 32 word \<times> slice" where
  "hash_loop h (b0 # b1 # b2 # b3 # data) =
     (let h1 = (h + DecodeFixed32 [b0, b1, b2, b3]) * hash_m
      in hash_loop (h1 XOR drop_bit 16 h1) data)"
| "hash_loop h data = (h, data)"

definition Hash :: "slice \<Rightarrow> 32 word \<Rightarrow> 32 word" where
  "Hash data seed =
     (let (h, rest) = hash_loop (seed XOR (of_nat (length data) * hash_m)) data;
          h1 = (if length rest = 3 then h + push_bit 16 (ucast (rest ! 2)) else h);
          h2 = (if length rest \<ge> 2 then h1 + push_bit 8 (ucast (rest ! 1)) else h1)
      in if length rest \<ge> 1
         then (let h3 = (h2 + ucast (rest ! 0)) * hash_m in h3 XOR drop_bit 24 h3)
         else h2)"

definition BloomHash :: "slice \<Rightarrow> 32 word" where
  "BloomHash key = Hash key 0xbc9f1d34"

text \<open>
  \<open>scaled\<close> is the truncation of the floating-point product \<^verbatim>\<open>bits_per_key * 0.69\<close>.
\<close>

record bloom_policy =
  bits_per_key :: nat
  probes :: nat

definition NewBloomFilterPolicy :: "nat \<Rightarrow> nat \<Rightarrow> bloom_policy" where
  "NewBloomFilterPolicy bits scaled =
     \<lparr>bits_per_key = bits, probes = (let k = (if scaled < 1 then 1 else scaled) in if k > 30 then 30 else k)\<rparr>"

definition bloom_delta :: "32 word \<Rightarrow> 32 word" where
  "bloom_delta h = drop_bit 17 h OR push_bit 15 h"

fun set_probes :: "nat \<Rightarrow> 32 word \<Rightarrow> 32 word \<Rightarrow> nat \<Rightarrow> slice \<Rightarrow> slice" where
  "set_probes 0 h delta bits arr = arr"
| "set_probes (Suc j) h delta bits arr =
     (let bitpos = unat h mod bits
      in set_probes j (h + delta) delta bits
           (arr[bitpos div 8 := arr ! (bitpos div 8) OR push_bit (bitpos mod 8) 1]))"

definition CreateFilter :: "bloom_policy \<Rightarrow> slice list \<Rightarrow> slice \<Rightarrow> slice" where
  "CreateFilter b keys dst =
     (let bits0 = length keys * bits_per_key b mod 2 ^ 64;
          bits1 = (if bits0 < 64 then 64 else bits0);
          bytes = (bits1 + 7) mod 2 ^ 64 div 8;
          bits = bytes * 8;
          arr = fold (\<lambda>key a. let h = BloomHash key in set_probes (probes b) h (bloom_delta h) bits a)
                  keys (replicate bytes 0)
      in dst @ arr @ [of_nat (probes b)])"

fun test_probes :: "nat \<Rightarrow> 32 word \<Rightarrow> 32 word \<Rightarrow> nat \<Rightarrow> slice \<Rightarrow> bool" where
  "test_probes 0 h delta bits arr = True"
| "test_probes (Suc j) h delta bits arr =
     (let bitpos = unat h mod bits
      in if arr ! (bitpos div 8) AND push_bit (bitpos mod 8) 1 = 0 then False
         else test_probes j (h + delta) delta bits arr)"

definition KeyMayMatch :: "slice \<Rightarrow> slice \<Rightarrow> bool" where
  "KeyMayMatch key flt =
     (let len = length flt
      in if len < 2 then False
         else let bits = (len - 1) * 8; k = unat (flt ! (len - 1))
              in if k > 30 then True
                 else let h = BloomHash key in test_probes k h (bloom_delta h) bits flt)"

text \<open>The bits of a filter only grow, and the probes of a key that was added are set.\<close>

definition bit_at :: "slice \<Rightarrow> nat \<Rightarrow> bool" where
  "bit_at arr p \<longleftrightarrow> bit (arr ! (p div 8)) (p mod 8)"

definition probe_set :: "nat \<Rightarrow> 32 word \<Rightarrow> 32 word \<Rightarrow> nat \<Rightarrow> nat set" where
  "probe_set k h delta bits = {unat (h + of_nat j * delta) mod bits | j. j < k}"

lemma probe_set_Suc:
  "probe_set (Suc k) h delta bits = insert (unat h mod bits) (probe_set k (h + delta) delta bits)"
proof -
  have "{..<Suc k} = insert 0 (Suc ` {..<k})" by (rule lessThan_Suc_eq_insert_0)
  moreover have "probe_set n x delta bits = (\<lambda>j. unat (x + of_nat j * delta) mod bits) ` {..<n}" for n x
    by (auto simp: probe_set_def)
  ultimately show ?thesis by (simp add: image_image algebra_simps)
qed

lemma length_set_probes [simp]: "length (set_probes k h d bits arr) = length arr"
  by (induction k h d bits arr rule: set_probes.induct) (simp_all add: Let_def)

lemma set_bit_at:
  assumes "p < 8 * length arr" "q < 8 * length arr"
  shows "bit_at (arr[p div 8 := arr ! (p div 8) OR push_bit (p mod 8) 1]) q \<longleftrightarrow> bit_at arr q \<or> q = p"
proof (cases "q div 8 = p div 8")
  case True
  have len: "p div 8 < length arr" using assms(1) by (simp add: less_mult_imp_div_less mult.commute)
  have "bit (push_bit (p mod 8) (1 :: byte)) (q mod 8) \<longleftrightarrow> q mod 8 = p mod 8"
    by (auto simp: bit_exp_iff)
  moreover have "q mod 8 = p mod 8 \<longleftrightarrow> q = p" using True by (metis div_mult_mod_eq)
  ultimately show ?thesis using True len by (simp add: bit_at_def bit_or_iff)
next
  case False
  then show ?thesis by (auto simp: bit_at_def)
qed

lemma bit_at_set_probes:
  assumes "bits = 8 * length arr" "0 < bits" "q < bits"
  shows "bit_at (set_probes k h d bits arr) q \<longleftrightarrow> bit_at arr q \<or> q \<in> probe_set k h d bits"
  using assms
proof (induction k h d bits arr rule: set_probes.induct)
  case (1 h delta bits arr)
  then show ?case by (simp add: probe_set_def)
next
  case (2 j h delta bits arr)
  let ?p = "unat h mod bits"
  have "?p < 8 * length arr" using "2.prems" by (metis mod_less_divisor)
  then show ?case
    using 2 set_bit_at [of ?p arr q] by (auto simp: Let_def probe_set_Suc)
qed

lemma test_probes_iff:
  "test_probes k h d bits arr \<longleftrightarrow> (\<forall>q \<in> probe_set k h d bits. bit_at arr q)"
proof (induction k arbitrary: h)
  case 0
  then show ?case by (simp add: probe_set_def)
next
  case (Suc k)
  have "(x AND push_bit n 1 = 0) \<longleftrightarrow> \<not> bit x n" for x :: byte and n
    by (simp add: and_exp_eq_0_iff_not_bit)
  from this [of "arr ! (unat h mod bits div 8)" "unat h mod bits mod 8"]
  have "(arr ! (unat h mod bits div 8) AND push_bit (unat h mod bits mod 8) 1 = 0) \<longleftrightarrow> \<not> bit_at arr (unat h mod bits)"
    by (simp add: bit_at_def)
  then show ?case by (simp add: Let_def Suc.IH probe_set_Suc)
qed

definition add_probes :: "nat \<Rightarrow> nat \<Rightarrow> slice list \<Rightarrow> slice \<Rightarrow> slice" where
  "add_probes k bits keys arr =
     fold (\<lambda>key a. let h = BloomHash key in set_probes k h (bloom_delta h) bits a) keys arr"

lemma add_probes_simps [simp]:
  "add_probes k bits [] arr = arr"
  "add_probes k bits (key # keys) arr =
     add_probes k bits keys (set_probes k (BloomHash key) (bloom_delta (BloomHash key)) bits arr)"
  by (simp_all add: add_probes_def Let_def)

lemma length_add_probes [simp]: "length (add_probes k bits keys arr) = length arr"
  by (induction keys arbitrary: arr) simp_all

lemma bit_at_add_probes:
  assumes "bits = 8 * length arr" "0 < bits" "q < bits"
  shows "bit_at (add_probes k bits keys arr) q \<longleftrightarrow>
    bit_at arr q \<or> (\<exists>key \<in> set keys. q \<in> probe_set k (BloomHash key) (bloom_delta (BloomHash key)) bits)"
  using assms
proof (induction keys arbitrary: arr)
  case (Cons key keys)
  let ?h = "BloomHash key"
  let ?a = "set_probes k ?h (bloom_delta ?h) bits arr"
  have "bit_at (add_probes k bits keys ?a) q \<longleftrightarrow>
      bit_at ?a q \<or> (\<exists>key \<in> set keys. q \<in> probe_set k (BloomHash key) (bloom_delta (BloomHash key)) bits)"
    by (rule Cons.IH) (use Cons.prems in simp_all)
  moreover have "bit_at ?a q \<longleftrightarrow> bit_at arr q \<or> q \<in> probe_set k ?h (bloom_delta ?h) bits"
    by (rule bit_at_set_probes) (use Cons.prems in simp_all)
  ultimately show ?case by auto
qed simp

lemma probe_set_less: "0 < bits \<Longrightarrow> q \<in> probe_set k h d bits \<Longrightarrow> q < bits"
  by (auto simp: probe_set_def)

text \<open>The size of a filter, when the number of bits fits into a \<^verbatim>\<open>size_t\<close>.\<close>

definition filter_bytes :: "bloom_policy \<Rightarrow> nat \<Rightarrow> nat" where
  "filter_bytes b n = (max 64 (n * bits_per_key b) + 7) div 8"

lemma CreateFilter_eq:
  assumes "length keys * bits_per_key b + 7 < 2 ^ 64"
  shows "CreateFilter b keys dst =
    dst @ add_probes (probes b) (8 * filter_bytes b (length keys)) keys (replicate (filter_bytes b (length keys)) 0) @
      [of_nat (probes b)]"
proof -
  have "(if length keys * bits_per_key b mod 2 ^ 64 < 64 then 64 else length keys * bits_per_key b mod 2 ^ 64) =
      max 64 (length keys * bits_per_key b)"
    using assms by (simp add: max_def)
  moreover have "(max 64 (length keys * bits_per_key b) + 7) mod 2 ^ 64 = max 64 (length keys * bits_per_key b) + 7"
    using assms by (simp add: max_def)
  ultimately show ?thesis by (simp add: CreateFilter_def Let_def filter_bytes_def add_probes_def mult.commute)
qed

lemma filter_bytes_pos: "8 \<le> filter_bytes b n"
  by (simp add: filter_bytes_def)

definition bloom_filter :: "bloom_policy \<Rightarrow> slice list \<Rightarrow> slice" where
  "bloom_filter b keys = CreateFilter b keys []"

lemma bloom_matches:
  assumes "length keys * bits_per_key b + 7 < 2 ^ 64" "probes b \<le> 30" "key \<in> set keys"
  shows "CreateFilter b keys dst = dst @ bloom_filter b keys" "KeyMayMatch key (bloom_filter b keys)"
proof -
  let ?n = "filter_bytes b (length keys)"
  let ?arr = "add_probes (probes b) (8 * ?n) keys (replicate ?n 0)"
  have pos: "0 < 8 * ?n" using filter_bytes_pos [of b "length keys"] by linarith
  have flt: "bloom_filter b keys = ?arr @ [of_nat (probes b)]"
    using CreateFilter_eq [OF assms(1), of "[]"] by (simp add: bloom_filter_def)
  then show "CreateFilter b keys dst = dst @ bloom_filter b keys" using CreateFilter_eq [OF assms(1)] by simp
  have len: "length ?arr = ?n" by simp
  have k: "unat (of_nat (probes b) :: byte) = probes b" using assms(2) by (simp add: unat_of_nat)
  have "bit_at (bloom_filter b keys) q"
    if q: "q \<in> probe_set (probes b) (BloomHash key) (bloom_delta (BloomHash key)) (8 * ?n)" for q
  proof -
    have less: "q < 8 * ?n" by (rule probe_set_less [OF pos q])
    then have "bit_at ?arr q" using bit_at_add_probes [of "8 * ?n" "replicate ?n 0"] pos q assms(3) by auto
    then show ?thesis using less len by (simp add: bit_at_def flt nth_append less_mult_imp_div_less mult.commute)
  qed
  then show "KeyMayMatch key (bloom_filter b keys)"
    using len pos assms(2) k flt
    by (simp add: KeyMayMatch_def Let_def test_probes_iff nth_append mult.commute)
qed

section \<open>The filter block\<close>

record filter_builder =
  fb_keys :: slice
  fb_start :: "nat list"
  fb_result :: slice
  fb_offsets :: "32 word list"

abbreviation kFilterBaseLg :: nat where "kFilterBaseLg \<equiv> 11"

definition new_filter_builder :: filter_builder where
  "new_filter_builder = \<lparr>fb_keys = [], fb_start = [], fb_result = [], fb_offsets = []\<rparr>"

text \<open>The operations take the policy's \<^verbatim>\<open>CreateFilter\<close> as an argument.\<close>

definition tmp_keys :: "filter_builder \<Rightarrow> slice list" where
  "tmp_keys b =
     (let starts = fb_start b @ [length (fb_keys b)]
      in map (\<lambda>i. take (starts ! (i + 1) - starts ! i) (drop (starts ! i) (fb_keys b))) [0..<length (fb_start b)])"

definition GenerateFilter :: "(slice list \<Rightarrow> slice \<Rightarrow> slice) \<Rightarrow> filter_builder \<Rightarrow> filter_builder" where
  "GenerateFilter create b =
     (if length (fb_start b) = 0
      then b\<lparr>fb_offsets := fb_offsets b @ [of_nat (length (fb_result b))]\<rparr>
      else b\<lparr>fb_offsets := fb_offsets b @ [of_nat (length (fb_result b))],
             fb_result := create (tmp_keys b) (fb_result b), fb_keys := [], fb_start := []\<rparr>)"

definition StartBlock :: "(slice list \<Rightarrow> slice \<Rightarrow> slice) \<Rightarrow> nat \<Rightarrow> filter_builder \<Rightarrow> filter_builder result" where
  "StartBlock create block_offset b =
     (let filter_index = block_offset div 2 ^ kFilterBaseLg
      in if filter_index < length (fb_offsets b) then Inl AssertFailed
         else Inr ((GenerateFilter create ^^ (filter_index - length (fb_offsets b))) b))"

definition AddKey :: "slice \<Rightarrow> filter_builder \<Rightarrow> filter_builder" where
  "AddKey key b = b\<lparr>fb_start := fb_start b @ [length (fb_keys b)], fb_keys := fb_keys b @ key\<rparr>"

definition Finish :: "(slice list \<Rightarrow> slice \<Rightarrow> slice) \<Rightarrow> filter_builder \<Rightarrow> slice" where
  "Finish create b =
     (let b1 = (if fb_start b \<noteq> [] then GenerateFilter create b else b);
          array_offset = of_nat (length (fb_result b1))
      in PutFixed32 (fold (\<lambda>off dst. PutFixed32 dst off) (fb_offsets b1) (fb_result b1)) array_offset @ [of_nat kFilterBaseLg])"

record filter_reader =
  fr_data :: slice
  fr_offset :: nat
  fr_num :: nat
  fr_base_lg :: nat

definition FilterBlockReader :: "slice \<Rightarrow> filter_reader" where
  "FilterBlockReader contents =
     (let n = length contents
      in if n < 5 then \<lparr>fr_data = [], fr_offset = 0, fr_num = 0, fr_base_lg = 0\<rparr>
         else let base = unat (contents ! (n - 1)); last_word = unat (DecodeFixed32 (drop (n - 5) contents))
              in if last_word > n - 5 then \<lparr>fr_data = [], fr_offset = 0, fr_num = 0, fr_base_lg = base\<rparr>
                 else \<lparr>fr_data = contents, fr_offset = last_word, fr_num = (n - 5 - last_word) div 4, fr_base_lg = base\<rparr>)"

definition Block_KeyMayMatch :: "(slice \<Rightarrow> slice \<Rightarrow> bool) \<Rightarrow> filter_reader \<Rightarrow> nat \<Rightarrow> slice \<Rightarrow> bool" where
  "Block_KeyMayMatch may_match r block_offset key =
     (let index = block_offset div 2 ^ fr_base_lg r
      in if index < fr_num r then
           let start = unat (DecodeFixed32 (drop (fr_offset r + index * 4) (fr_data r)));
               limit = unat (DecodeFixed32 (drop (fr_offset r + index * 4 + 4) (fr_data r)))
           in if start \<le> limit \<and> limit \<le> fr_offset r
              then may_match key (take (limit - start) (drop start (fr_data r)))
              else if start = limit then False else True
         else True)"

text \<open>The calls of a table builder: start a block at an offset of the file, add a key.\<close>

datatype filter_call = Block nat | Key slice

fun filter_run :: "(slice list \<Rightarrow> slice \<Rightarrow> slice) \<Rightarrow> filter_call list \<Rightarrow> filter_builder \<Rightarrow> filter_builder result" where
  "filter_run create [] b = Inr b"
| "filter_run create (Block off # cs) b = bind_result (StartBlock create off b) (filter_run create cs)"
| "filter_run create (Key key # cs) b = filter_run create cs (AddKey key b)"

fun added_keys :: "nat \<Rightarrow> filter_call list \<Rightarrow> (nat \<times> slice) list" where
  "added_keys off [] = []"
| "added_keys off (Block off' # cs) = added_keys off' cs"
| "added_keys off (Key key # cs) = (off, key) # added_keys off cs"

text \<open>
  What a builder stands for: the filters finished so far and the keys of the current one.
\<close>

definition flat_starts :: "slice list \<Rightarrow> nat list" where
  "flat_starts xs = map (\<lambda>i. length (concat (take i xs))) [0..<length xs]"

definition built :: "slice list \<Rightarrow> slice list \<Rightarrow> filter_builder \<Rightarrow> bool" where
  "built fs pending b \<longleftrightarrow>
     fb_result b = concat fs \<and> fb_offsets b = map of_nat (flat_starts fs) \<and>
     fb_keys b = concat pending \<and> fb_start b = flat_starts pending"

lemma flat_starts_snoc: "flat_starts (xs @ [x]) = flat_starts xs @ [length (concat xs)]"
  by (simp add: flat_starts_def)

lemma length_flat_starts [simp]: "length (flat_starts xs) = length xs"
  by (simp add: flat_starts_def)

lemma nth_flat_starts:
  "i \<le> length xs \<Longrightarrow> (flat_starts xs @ [length (concat xs)]) ! i = length (concat (take i xs))"
  by (cases "i = length xs") (simp_all add: flat_starts_def nth_append)

lemma concat_slice:
  assumes "i < length xs"
  shows "take (length (concat (take (Suc i) xs)) - length (concat (take i xs)))
    (drop (length (concat (take i xs))) (concat xs @ ys)) = xs ! i"
    "length (concat (take i xs)) \<le> length (concat (take (Suc i) xs))"
    "length (concat (take (Suc i) xs)) \<le> length (concat xs)"
proof -
  have "concat xs = concat (take i xs) @ xs ! i @ concat (drop (Suc i) xs)"
    by (metis assms concat.simps(2) concat_append id_take_nth_drop)
  moreover have "concat (take (Suc i) xs) = concat (take i xs) @ xs ! i"
    using assms by (simp add: take_Suc_conv_app_nth)
  ultimately show "take (length (concat (take (Suc i) xs)) - length (concat (take i xs)))
      (drop (length (concat (take i xs))) (concat xs @ ys)) = xs ! i"
    "length (concat (take i xs)) \<le> length (concat (take (Suc i) xs))"
    "length (concat (take (Suc i) xs)) \<le> length (concat xs)" by simp_all
qed

lemma built_new: "built [] [] new_filter_builder"
  by (simp add: built_def new_filter_builder_def flat_starts_def)

lemma built_AddKey: "built fs pending b \<Longrightarrow> built fs (pending @ [key]) (AddKey key b)"
  by (simp add: built_def AddKey_def flat_starts_snoc)

lemma built_tmp_keys:
  assumes "built fs pending b"
  shows "tmp_keys b = pending"
proof (rule nth_equalityI)
  have b: "fb_start b = flat_starts pending" "fb_keys b = concat pending" using assms by (simp_all add: built_def)
  show "length (tmp_keys b) = length pending" by (simp add: tmp_keys_def b Let_def)
  fix i assume "i < length (tmp_keys b)"
  then have i: "i < length pending" by (simp add: tmp_keys_def b Let_def)
  then show "tmp_keys b ! i = pending ! i"
    using concat_slice(1) [OF i, of "[]"] nth_flat_starts [of i pending] nth_flat_starts [of "Suc i" pending]
    by (simp add: tmp_keys_def b Let_def)
qed

text \<open>Reading a finished block.\<close>

definition filter_block :: "slice list \<Rightarrow> slice" where
  "filter_block fs =
     concat fs @ concat (map EncodeFixed32 (map of_nat (flat_starts fs @ [length (concat fs)]))) @ [of_nat kFilterBaseLg]"

lemma read_filter_block:
  assumes small: "length (filter_block fs) < 2 ^ 32" and i: "off div 2 ^ kFilterBaseLg < length fs"
  shows "Block_KeyMayMatch mm (FilterBlockReader (filter_block fs)) off key = mm key (fs ! (off div 2 ^ kFilterBaseLg))"
proof -
  let ?c = "filter_block fs" and ?R = "length (concat fs)" and ?m = "length fs" and ?i = "off div 2 ^ kFilterBaseLg"
  let ?ws = "map (of_nat :: nat \<Rightarrow> 32 word) (flat_starts fs @ [?R])"
  have c: "?c = concat fs @ concat (map EncodeFixed32 ?ws) @ [of_nat kFilterBaseLg]" by (simp add: filter_block_def)
  have len: "length ?c = ?R + 4 * ?m + 5" unfolding c using length_Encodes [of ?ws] by simp
  have R: "?R < 2 ^ 32" using small len by simp
  have word: "unat (DecodeFixed32 (drop (?R + j * 4) ?c)) = length (concat (take j fs))" if "j \<le> ?m" for j
  proof -
    have "DecodeFixed32 (drop (?R + j * 4) ?c) = ?ws ! j" unfolding c by (rule decode_word) (use that in simp)
    also have "\<dots> = of_nat (length (concat (take j fs)))"
      using nth_flat_starts [of j fs] nth_map [of j "flat_starts fs @ [?R]" "of_nat :: nat \<Rightarrow> 32 word"] that by simp
    finally have *: "DecodeFixed32 (drop (?R + j * 4) ?c) = of_nat (length (concat (take j fs)))" .
    have "length (concat (take j fs)) \<le> ?R"
      by (metis append_take_drop_id concat_append le_add1 length_append)
    then show ?thesis using R unfolding * by (simp add: unat_of_nat_32)
  qed
  have last: "?c ! (length ?c - 1) = of_nat kFilterBaseLg" unfolding c by (simp add: nth_append length_Encodes)
  have "unat (DecodeFixed32 (drop (length ?c - 5) ?c)) = ?R" using word [of ?m] len by (simp add: mult.commute)
  then have r: "FilterBlockReader ?c = \<lparr>fr_data = ?c, fr_offset = ?R, fr_num = ?m, fr_base_lg = kFilterBaseLg\<rparr>"
    using len last by (simp add: FilterBlockReader_def Let_def)
  have "unat (DecodeFixed32 (drop (?R + ?i * 4) ?c)) = length (concat (take ?i fs))"
    "unat (DecodeFixed32 (drop (?R + ?i * 4 + 4) ?c)) = length (concat (take (Suc ?i) fs))"
    using word [of ?i] word [of "Suc ?i"] i by (simp_all add: algebra_simps)
  moreover have "take (length (concat (take (Suc ?i) fs)) - length (concat (take ?i fs)))
      (drop (length (concat (take ?i fs))) ?c) = fs ! ?i"
    unfolding c by (rule concat_slice(1) [OF i])
  ultimately show ?thesis
    using i concat_slice(2,3) [OF i] by (simp only: Block_KeyMayMatch_def r filter_reader.simps Let_def) simp
qed

section \<open>Filter policies\<close>

locale filter_policy =
  fixes create :: "slice list \<Rightarrow> slice \<Rightarrow> slice" and may_match :: "slice \<Rightarrow> slice \<Rightarrow> bool"
    and fits :: "nat \<Rightarrow> bool"
  assumes fits_mono: "fits n \<Longrightarrow> m \<le> n \<Longrightarrow> fits m"
    and create_append: "fits (length ks) \<Longrightarrow> create ks dst = dst @ create ks []"
    and create_matches: "fits (length ks) \<Longrightarrow> k \<in> set ks \<Longrightarrow> may_match k (create ks [])"
begin

definition gen :: "slice list \<Rightarrow> slice" where
  "gen pending = (if pending = [] then [] else create pending [])"

text \<open>Every key is found in a finished filter or waits for the current one.\<close>

definition covers :: "(nat \<times> slice) set \<Rightarrow> slice list \<Rightarrow> slice list \<Rightarrow> bool" where
  "covers A fs pending \<longleftrightarrow>
     (\<forall>(off, k) \<in> A. let i = off div 2 ^ kFilterBaseLg in
        i < length fs \<and> may_match k (fs ! i) \<or> i = length fs \<and> k \<in> set pending)"

lemma built_GenerateFilter:
  assumes "built fs pending b" "fits (length pending)"
  shows "built (fs @ [gen pending]) [] (GenerateFilter create b)"
proof (cases "pending = []")
  case True
  then show ?thesis using assms(1) by (simp add: built_def GenerateFilter_def gen_def flat_starts_snoc)
next
  case False
  then have "fb_start b \<noteq> []" using assms(1) by (simp add: built_def flat_starts_def)
  then show ?thesis
    using False assms create_append [OF assms(2), of "fb_result b"] built_tmp_keys [OF assms(1)]
    by (simp add: built_def GenerateFilter_def gen_def flat_starts_snoc flat_starts_def [of "[]"])
qed

lemma covers_GenerateFilter:
  assumes "covers A fs pending" "fits (length pending)"
  shows "covers A (fs @ [gen pending]) []"
  unfolding covers_def
proof (clarify, unfold Let_def)
  fix off k assume "(off, k) \<in> A"
  then have *: "off div 2 ^ kFilterBaseLg < length fs \<and> may_match k (fs ! (off div 2 ^ kFilterBaseLg)) \<or>
      off div 2 ^ kFilterBaseLg = length fs \<and> k \<in> set pending"
    using assms(1) by (auto simp: covers_def Let_def)
  have "may_match k (gen pending)" if "k \<in> set pending"
    using create_matches [OF assms(2) that] that by (auto simp: gen_def)
  then show "off div 2 ^ kFilterBaseLg < length (fs @ [gen pending]) \<and>
      may_match k ((fs @ [gen pending]) ! (off div 2 ^ kFilterBaseLg)) \<or>
      off div 2 ^ kFilterBaseLg = length (fs @ [gen pending]) \<and> k \<in> set []"
    using * by (auto simp: nth_append)
qed

lemma GenerateFilters:
  assumes "built fs pending b" "covers A fs pending" "fits (length pending)"
  shows "\<exists>fs' pending'. built fs' pending' ((GenerateFilter create ^^ n) b) \<and> covers A fs' pending' \<and>
    length fs' = length fs + n \<and> length pending' \<le> length pending"
  using assms
proof (induction n arbitrary: fs pending b)
  case 0
  then show ?case by auto
next
  case (Suc n)
  have "fits (length ([] :: slice list))" by (rule fits_mono [OF Suc.prems(3)]) simp
  from Suc.IH [OF built_GenerateFilter [OF Suc.prems(1,3)] covers_GenerateFilter [OF Suc.prems(2,3)] this]
  obtain fs' pending' where "built fs' pending' ((GenerateFilter create ^^ n) (GenerateFilter create b))"
    "covers A fs' pending'" "length fs' = Suc (length fs) + n" "length pending' \<le> 0" by auto
  then show ?case by (intro exI [of _ fs'] exI [of _ pending']) (simp add: funpow_swap1)
qed

lemma filter_run_covers:
  assumes "filter_run create cs b = Inr b'" "built fs pending b" "covers A fs pending"
    "off div 2 ^ kFilterBaseLg = length fs" "fits (length pending + length cs)"
  shows "\<exists>fs' pending'. built fs' pending' b' \<and> covers (A \<union> set (added_keys off cs)) fs' pending' \<and>
    length pending' \<le> length pending + length cs"
  using assms
proof (induction cs arbitrary: b fs pending A off)
  case Nil
  then show ?case by auto
next
  case (Cons c cs)
  show ?case
  proof (cases c)
    case (Block o2)
    let ?i = "o2 div 2 ^ kFilterBaseLg"
    have len: "length (fb_offsets b) = length fs" using Cons.prems(2) by (simp add: built_def)
    have i: "length fs \<le> ?i"
      and run: "filter_run create cs ((GenerateFilter create ^^ (?i - length fs)) b) = Inr b'"
      using Cons.prems(1) Block len by (auto simp: StartBlock_def Let_def split: if_splits)
    have "fits (length pending)" by (rule fits_mono [OF Cons.prems(5)]) simp
    from GenerateFilters [OF Cons.prems(2,3) this, of "?i - length fs"]
    obtain fs' pending' where *: "built fs' pending' ((GenerateFilter create ^^ (?i - length fs)) b)"
      "covers A fs' pending'" "length fs' = ?i" "length pending' \<le> length pending" using i by auto
    have "fits (length pending' + length cs)" by (rule fits_mono [OF Cons.prems(5)]) (use *(4) in simp)
    from Cons.IH [OF run *(1,2) *(3) [symmetric] this] show ?thesis using Block *(4) by fastforce
  next
    case (Key key)
    have "covers (insert (off, key) A) fs (pending @ [key])"
      using Cons.prems(3,4) by (auto simp: covers_def Let_def)
    from Cons.IH [OF _ built_AddKey [OF Cons.prems(2)] this Cons.prems(4)] show ?thesis
      using Key Cons.prems(1,5) by auto
  qed
qed

lemma built_Finish:
  assumes "built fs pending b" "covers A fs pending" "fits (length pending)"
  shows "\<exists>fs'. Finish create b = filter_block fs' \<and> covers A fs' [] \<and> (\<forall>(off, k) \<in> A. off div 2 ^ kFilterBaseLg < length fs')"
proof -
  have fin: "Finish create b = filter_block fs'" if "built fs' [] (if fb_start b \<noteq> [] then GenerateFilter create b else b)" for fs'
    using that by (simp add: Finish_def Let_def built_def filter_block_def fold_PutFixed32) (simp add: PutFixed32_def)
  obtain fs' where fs': "built fs' [] (if fb_start b \<noteq> [] then GenerateFilter create b else b)" "covers A fs' []"
  proof (cases "pending = []")
    case True
    then have "fb_start b = []" using assms(1) by (simp add: built_def flat_starts_def)
    then show ?thesis using that [of fs] assms True by simp
  next
    case False
    then have "fb_start b \<noteq> []" using assms(1) by (simp add: built_def flat_starts_def)
    then show ?thesis using that built_GenerateFilter [OF assms(1,3)] covers_GenerateFilter [OF assms(2,3)] by simp
  qed
  moreover have "\<forall>(off, k) \<in> A. off div 2 ^ kFilterBaseLg < length fs'" using fs'(2) by (auto simp: covers_def Let_def)
  ultimately show ?thesis using fin by blast
qed

theorem no_false_negative:
  assumes "filter_run create cs new_filter_builder = Inr b" "fits (length cs)"
    "length (Finish create b) < 2 ^ 32" "(off, key) \<in> set (added_keys 0 cs)"
  shows "Block_KeyMayMatch may_match (FilterBlockReader (Finish create b)) off key"
proof -
  have "covers {} [] []" by (simp add: covers_def)
  then obtain fs pending where *: "built fs pending b" "covers (set (added_keys 0 cs)) fs pending" "length pending \<le> length cs"
    using filter_run_covers [OF assms(1) built_new, of "{}" 0] assms(2) by auto
  obtain fs' where "Finish create b = filter_block fs'" "covers (set (added_keys 0 cs)) fs' []"
    "\<forall>(off, k) \<in> set (added_keys 0 cs). off div 2 ^ kFilterBaseLg < length fs'"
    using built_Finish [OF *(1,2) fits_mono [OF assms(2) *(3)]] by blast
  moreover from this have "off div 2 ^ kFilterBaseLg < length fs'" "may_match key (fs' ! (off div 2 ^ kFilterBaseLg))"
    using assms(4) by (auto simp: covers_def Let_def)
  ultimately show ?thesis using read_filter_block assms(3) by metis
qed

end

interpretation bloom: filter_policy "CreateFilter (NewBloomFilterPolicy bits scaled)" KeyMayMatch
  "\<lambda>n. n * bits + 7 < 2 ^ 64"
proof
  let ?b = "NewBloomFilterPolicy bits scaled"
  have b: "bits_per_key ?b = bits" "probes ?b \<le> 30" by (simp_all add: NewBloomFilterPolicy_def Let_def)
  show "m * bits + 7 < 2 ^ 64" if "n * bits + 7 < 2 ^ 64" "m \<le> n" for n m
    using that mult_le_mono1 [OF that(2), of bits] by linarith
  show "CreateFilter ?b ks dst = dst @ CreateFilter ?b ks []" if "length ks * bits + 7 < 2 ^ 64" for ks dst
    using that CreateFilter_eq [of ks ?b] b(1) by simp
  show "KeyMayMatch k (CreateFilter ?b ks [])" if "length ks * bits + 7 < 2 ^ 64" "k \<in> set ks" for ks k
    using bloom_matches(2) [of ks ?b k] that b by (simp add: bloom_filter_def)
qed

section \<open>Properties\<close>

text \<open>C30. The filter block has no false negatives: after the blocks and keys of a table have been added
  and the filter is finished with the bloom filter policy, the reader answers that a key may be
  present for every key and the offset of the block it was added to.\<close>

theorem filter_block_no_false_negatives:
  assumes "filter_run (CreateFilter (NewBloomFilterPolicy bits scaled)) cs new_filter_builder = Inr b"
    "length cs * bits + 7 < 2 ^ 64"
    "length (Finish (CreateFilter (NewBloomFilterPolicy bits scaled)) b) < 2 ^ 32"
    "(off, key) \<in> set (added_keys 0 cs)"
  shows "Block_KeyMayMatch KeyMayMatch
    (FilterBlockReader (Finish (CreateFilter (NewBloomFilterPolicy bits scaled)) b)) off key"
  by (rule bloom.no_false_negative [OF assms])

theorem filter_block_no_false_negatives_witness:
  "\<exists>b. filter_run (CreateFilter (NewBloomFilterPolicy 10 6)) [Block 0, Key [1, 2, 3]] new_filter_builder = Inr b \<and>
     Block_KeyMayMatch KeyMayMatch (FilterBlockReader (Finish (CreateFilter (NewBloomFilterPolicy 10 6)) b)) 0 [1, 2, 3]"
proof -
  let ?c = "CreateFilter (NewBloomFilterPolicy 10 6)"
  let ?b = "AddKey [1, 2, 3] new_filter_builder"
  have run: "filter_run ?c [Block 0, Key [1, 2, 3]] new_filter_builder = Inr ?b"
    by (simp add: StartBlock_def new_filter_builder_def Let_def)
  have "length (Finish ?c ?b) < 2 ^ 32"
    by (simp add: Finish_def AddKey_def new_filter_builder_def GenerateFilter_def tmp_keys_def Let_def PutFixed32_def
        CreateFilter_def NewBloomFilterPolicy_def)
  then show ?thesis
    using filter_block_no_false_negatives [OF run, of 0 "[1, 2, 3]"] run by simp
qed

end
