(* ===== verification/SkipList.thy ===== *)
theory SkipList
  imports Prelude
begin

text \<open>
  The skip list of \<^verbatim>\<open>leveldb/skiplist.h\<close> and the pseudo-random generator of
  \<^verbatim>\<open>leveldb/util/random.h\<close> that chooses the height of its nodes. Nodes are allocated in an
  arena and never freed, so the arena is a list of nodes and a node pointer is an index
  into it; the links of a node are an array of its height, and reading a link past that
  height, failing an assertion and not returning are all the value \<^const>\<open>None\<close> of the
  operations. The comparator is a parameter; its laws are the locale \<open>key_order\<close>.
\<close>

section \<open>The random number generator\<close>

definition Random :: "32 word \<Rightarrow> 32 word" where
  "Random s = (let seed = s AND 0x7fffffff in
     if seed = 0 \<or> seed = 2147483647 then 1 else seed)"

definition Random_Next :: "32 word \<Rightarrow> 32 word" where
  "Random_Next seed =
     (let product = (ucast seed :: 64 word) * 16807;
          seed' = (ucast (drop_bit 31 product + (product AND 2147483647)) :: 32 word) in
      if seed' > 2147483647 then seed' - 2147483647 else seed')"

definition Uniform :: "32 word \<Rightarrow> 32 word \<Rightarrow> 32 word \<times> 32 word" where
  "Uniform seed n = (let seed' = Random_Next seed in (seed' mod n, seed'))"

definition OneIn :: "32 word \<Rightarrow> 32 word \<Rightarrow> bool \<times> 32 word" where
  "OneIn seed n = (let seed' = Random_Next seed in (seed' mod n = 0, seed'))"

definition Skewed :: "32 word \<Rightarrow> 32 word \<Rightarrow> 32 word \<times> 32 word" where
  "Skewed seed max_log =
     (let (r, seed') = Uniform seed (max_log + 1) in Uniform seed' (push_bit (unat r) 1))"

section \<open>Nodes\<close>

record 'k sl_node =
  node_key :: 'k
  node_links :: "nat option list"

record 'k skiplist =
  sl_nodes :: "'k sl_node list"
  max_height :: nat
  rnd :: "32 word"

definition head :: nat where
  head_0 [simp]: "head = 0"

definition kMaxHeight :: nat where
  "kMaxHeight = 12"

definition NewNode :: "'k \<Rightarrow> nat \<Rightarrow> 'k sl_node list \<Rightarrow> nat \<times> 'k sl_node list" where
  "NewNode key height H = (length H, H @ [\<lparr>node_key = key, node_links = replicate height None\<rparr>])"

definition Node_Next :: "'k sl_node list \<Rightarrow> nat \<Rightarrow> nat \<Rightarrow> nat option option" where
  "Node_Next H x n =
     (if x < length H \<and> n < length (node_links (H ! x)) then Some (node_links (H ! x) ! n) else None)"

definition SetNext :: "'k sl_node list \<Rightarrow> nat \<Rightarrow> nat \<Rightarrow> nat option \<Rightarrow> 'k sl_node list option" where
  "SetNext H x n y =
     (if x < length H \<and> n < length (node_links (H ! x))
      then Some (H[x := (H ! x)\<lparr>node_links := (node_links (H ! x))[n := y]\<rparr>]) else None)"

definition new_SkipList :: "'k \<Rightarrow> 'k skiplist" where
  "new_SkipList any_key =
     \<lparr>sl_nodes = snd (NewNode any_key kMaxHeight []), max_height = 1, rnd = Random 0xdeadbeef\<rparr>"

section \<open>Searches\<close>

definition KeyIsAfterNode :: "('k \<Rightarrow> 'k \<Rightarrow> int) \<Rightarrow> 'k sl_node list \<Rightarrow> 'k \<Rightarrow> nat option \<Rightarrow> bool" where
  "KeyIsAfterNode cmp H key n =
     (case n of None \<Rightarrow> False | Some a \<Rightarrow> cmp (node_key (H ! a)) key < 0)"

text \<open>
  \<^verbatim>\<open>prev\<close> is the null pointer (\<^const>\<open>None\<close>) or an array whose cells start uninitialised.
\<close>

definition set_prev :: "nat option list option \<Rightarrow> nat \<Rightarrow> nat \<Rightarrow> nat option list option" where
  "set_prev prev level x = map_option (\<lambda>p. p[level := Some x]) prev"

partial_function (option) fge_loop ::
  "('k \<Rightarrow> 'k \<Rightarrow> int) \<Rightarrow> 'k sl_node list \<Rightarrow> 'k \<Rightarrow> nat \<Rightarrow> nat \<Rightarrow> nat option list option \<Rightarrow>
    (nat option \<times> nat option list option) option" where
  "fge_loop cmp H key x level prev =
     (case Node_Next H x level of
        None \<Rightarrow> None
      | Some nxt \<Rightarrow>
          if KeyIsAfterNode cmp H key nxt then fge_loop cmp H key (the nxt) level prev
          else if level = 0 then Some (nxt, set_prev prev level x)
          else fge_loop cmp H key x (level - 1) (set_prev prev level x))"

definition FindGreaterOrEqual ::
  "('k \<Rightarrow> 'k \<Rightarrow> int) \<Rightarrow> 'k skiplist \<Rightarrow> 'k \<Rightarrow> nat option list option \<Rightarrow>
    (nat option \<times> nat option list option) option" where
  "FindGreaterOrEqual cmp sl key prev =
     fge_loop cmp (sl_nodes sl) key head (max_height sl - 1) prev"

partial_function (option) flt_loop ::
  "('k \<Rightarrow> 'k \<Rightarrow> int) \<Rightarrow> 'k sl_node list \<Rightarrow> 'k \<Rightarrow> nat \<Rightarrow> nat \<Rightarrow> nat option" where
  "flt_loop cmp H key x level =
     (if \<not> (x = head \<or> cmp (node_key (H ! x)) key < 0) then None
      else case Node_Next H x level of
        None \<Rightarrow> None
      | Some nxt \<Rightarrow>
          if (case nxt of None \<Rightarrow> True | Some a \<Rightarrow> cmp (node_key (H ! a)) key \<ge> 0) then
            (if level = 0 then Some x else flt_loop cmp H key x (level - 1))
          else flt_loop cmp H key (the nxt) level)"

definition FindLessThan :: "('k \<Rightarrow> 'k \<Rightarrow> int) \<Rightarrow> 'k skiplist \<Rightarrow> 'k \<Rightarrow> nat option" where
  "FindLessThan cmp sl key = flt_loop cmp (sl_nodes sl) key head (max_height sl - 1)"

partial_function (option) last_loop :: "'k sl_node list \<Rightarrow> nat \<Rightarrow> nat \<Rightarrow> nat option" where
  "last_loop H x level =
     (case Node_Next H x level of
        None \<Rightarrow> None
      | Some None \<Rightarrow> if level = 0 then Some x else last_loop H x (level - 1)
      | Some (Some y) \<Rightarrow> last_loop H y level)"

definition FindLast :: "'k skiplist \<Rightarrow> nat option" where
  "FindLast sl = last_loop (sl_nodes sl) head (max_height sl - 1)"

definition Contains :: "('k \<Rightarrow> 'k \<Rightarrow> int) \<Rightarrow> 'k skiplist \<Rightarrow> 'k \<Rightarrow> bool option" where
  "Contains cmp sl key =
     (case FindGreaterOrEqual cmp sl key None of
        None \<Rightarrow> None
      | Some (x, _) \<Rightarrow>
          Some (case x of None \<Rightarrow> False | Some a \<Rightarrow> cmp key (node_key (sl_nodes sl ! a)) = 0))"

declare fge_loop.simps [code] flt_loop.simps [code] last_loop.simps [code]

section \<open>Insertion\<close>

function random_height :: "32 word \<Rightarrow> nat \<Rightarrow> nat \<times> 32 word" where
  "random_height seed height =
     (if height < kMaxHeight then
        let (one, seed') = OneIn seed 4 in
        if one then random_height seed' (height + 1) else (height, seed')
      else (height, seed))"
  by pat_completeness auto
termination by (relation "measure (\<lambda>(_, h). kMaxHeight - h)") auto

declare random_height.simps [simp del]

definition RandomHeight :: "32 word \<Rightarrow> (nat \<times> 32 word) option" where
  "RandomHeight seed =
     (let (height, seed') = random_height seed 1 in
      if height > 0 \<and> height \<le> kMaxHeight then Some (height, seed') else None)"

text \<open>The loop of \<^verbatim>\<open>Insert\<close> that splices node \<open>x\<close> into the lists from level \<open>i\<close> on.\<close>

fun link_loop :: "nat \<Rightarrow> nat option list \<Rightarrow> nat list \<Rightarrow> 'k sl_node list \<Rightarrow> 'k sl_node list option" where
  "link_loop x prev [] H = Some H"
| "link_loop x prev (i # is) H =
     (case prev ! i of
        None \<Rightarrow> None
      | Some p \<Rightarrow>
         (case Node_Next H p i of
            None \<Rightarrow> None
          | Some nxt \<Rightarrow>
             (case SetNext H x i nxt of
                None \<Rightarrow> None
              | Some H1 \<Rightarrow>
                 (case SetNext H1 p i (Some x) of
                    None \<Rightarrow> None
                  | Some H2 \<Rightarrow> link_loop x prev is H2))))"

definition SL_Insert :: "('k \<Rightarrow> 'k \<Rightarrow> int) \<Rightarrow> 'k skiplist \<Rightarrow> 'k \<Rightarrow> 'k skiplist option" where
  "SL_Insert cmp sl key =
     (case FindGreaterOrEqual cmp sl key (Some (replicate kMaxHeight None)) of
        Some (x, Some prev) \<Rightarrow>
          if (case x of None \<Rightarrow> True | Some a \<Rightarrow> cmp key (node_key (sl_nodes sl ! a)) \<noteq> 0) then
            (case RandomHeight (rnd sl) of
               None \<Rightarrow> None
             | Some (height, seed) \<Rightarrow>
                 let prev' = (if height > max_height sl
                              then fold (\<lambda>i p. p[i := Some head]) [max_height sl ..< height] prev
                              else prev);
                     mh = (if height > max_height sl then height else max_height sl);
                     (x, H) = NewNode key height (sl_nodes sl) in
                 case link_loop x prev' [0 ..< height] H of
                   None \<Rightarrow> None
                 | Some H' \<Rightarrow> Some \<lparr>sl_nodes = H', max_height = mh, rnd = seed\<rparr>)
          else None
      | _ \<Rightarrow> None)"

section \<open>Iterators\<close>

text \<open>The position of an iterator is its \<^verbatim>\<open>node_\<close> pointer.\<close>

definition Iter_Valid :: "nat option \<Rightarrow> bool" where
  "Iter_Valid it = (it \<noteq> None)"

definition Iter_key :: "'k skiplist \<Rightarrow> nat option \<Rightarrow> 'k option" where
  "Iter_key sl it = map_option (\<lambda>a. node_key (sl_nodes sl ! a)) it"

definition Iter_Next :: "'k skiplist \<Rightarrow> nat option \<Rightarrow> nat option option" where
  "Iter_Next sl it = (case it of None \<Rightarrow> None | Some a \<Rightarrow> Node_Next (sl_nodes sl) a 0)"

definition Iter_Prev :: "('k \<Rightarrow> 'k \<Rightarrow> int) \<Rightarrow> 'k skiplist \<Rightarrow> nat option \<Rightarrow> nat option option" where
  "Iter_Prev cmp sl it =
     (case it of None \<Rightarrow> None
      | Some a \<Rightarrow>
          map_option (\<lambda>x. if x = head then None else Some x)
            (FindLessThan cmp sl (node_key (sl_nodes sl ! a))))"

definition Iter_Seek :: "('k \<Rightarrow> 'k \<Rightarrow> int) \<Rightarrow> 'k skiplist \<Rightarrow> 'k \<Rightarrow> nat option option" where
  "Iter_Seek cmp sl target = map_option fst (FindGreaterOrEqual cmp sl target None)"

definition Iter_SeekToFirst :: "'k skiplist \<Rightarrow> nat option option" where
  "Iter_SeekToFirst sl = Node_Next (sl_nodes sl) head 0"

definition Iter_SeekToLast :: "'k skiplist \<Rightarrow> nat option option" where
  "Iter_SeekToLast sl = map_option (\<lambda>x. if x = head then None else Some x) (FindLast sl)"

section \<open>The generator stays in its range\<close>

lemma Random_range:
  "1 \<le> unat (Random s)" "unat (Random s) < 2147483647"
proof -
  have m: "s AND 0x7fffffff = take_bit 31 s"
    by (simp add: take_bit_eq_mask mask_eq_exp_minus_1)
  have "unat (take_bit 31 s) < 2 ^ 31"
    unfolding unsigned_take_bit_eq by (rule take_bit_nat_less_exp)
  moreover have "unat (take_bit 31 s) \<noteq> 2147483647" if "take_bit 31 s \<noteq> 2147483647"
    using that by (simp add: word_unat_eq_iff del: unsigned_take_bit_eq)
  moreover have "unat (take_bit 31 s) \<noteq> 0" if "take_bit 31 s \<noteq> 0"
    using that by (simp add: unat_eq_0)
  ultimately show "1 \<le> unat (Random s)" "unat (Random s) < 2147483647"
    unfolding Random_def Let_def m by (auto simp: Suc_le_eq)
qed

lemma mersenne_fold:
  fixes p :: nat
  shows "(p div 2 ^ 31 + p mod 2 ^ 31) mod (2 ^ 31 - 1) = p mod (2 ^ 31 - 1)"
proof -
  have "p = p div 2 ^ 31 + p mod 2 ^ 31 + (2 ^ 31 - 1) * (p div 2 ^ 31)"
    using div_mult_mod_eq [of p "2 ^ 31"] by (simp add: algebra_simps)
  then show ?thesis
    by (metis mod_mult_self2)
qed

lemma lehmer_nonzero:
  assumes "1 \<le> s" "s < 2147483647"
  shows "s * 16807 mod 2147483647 \<noteq> (0 :: nat)"
proof
  assume "s * 16807 mod 2147483647 = 0"
  then have "2147483647 dvd s * 16807" by auto
  moreover have "coprime 2147483647 (16807 :: nat)" by code_simp
  ultimately have "2147483647 dvd s" by (simp add: coprime_dvd_mult_left_iff)
  with assms show False by (auto dest: dvd_imp_le)
qed

lemma unat_Random_Next:
  assumes "1 \<le> unat s" "unat s < 2147483647"
  shows "unat (Random_Next s) = unat s * 16807 mod 2147483647"
proof -
  let ?p = "unat s * 16807"
  let ?w = "(ucast s :: 64 word) * 16807"
  let ?q = "?p div 2 ^ 31 + ?p mod 2 ^ 31"
  have p: "?p < 2147483647 * 16807" using assms by simp
  have us: "unat (ucast s :: 64 word) = unat s"
    by (simp add: unsigned_ucast_eq take_bit_nat_eq_self_iff) (use assms in simp)
  have w: "unat ?w = ?p"
    using p us by (simp add: unat_word_ariths)
  have d: "unat (drop_bit 31 ?w) = ?p div 2 ^ 31"
    unfolding unat_drop_bit_eq w by (rule drop_bit_eq_div)
  have a: "unat (?w AND 2147483647) = ?p mod 2 ^ 31"
  proof -
    have "?w AND 2147483647 = take_bit 31 ?w"
      by (simp add: take_bit_eq_mask mask_eq_exp_minus_1)
    then show ?thesis by (simp only: unsigned_take_bit_eq w) (rule take_bit_eq_mod)
  qed
  have "?p div 2 ^ 31 < 16807" using p by (simp add: div_less_iff_less_mult)
  moreover have "?p mod 2 ^ 31 < 2 ^ 31" by (rule mod_less_divisor) simp
  ultimately have q: "?q < 2 ^ 31 + 16807" by linarith
  have sum: "unat (drop_bit 31 ?w + (?w AND 2147483647)) = ?q"
    using q by (simp add: unat_word_ariths d a)
  have s32: "unat (ucast (drop_bit 31 ?w + (?w AND 2147483647)) :: 32 word) = ?q"
    using q sum by (simp add: unsigned_ucast_eq take_bit_nat_eq_self_iff)
  let ?r = "ucast (drop_bit 31 ?w + (?w AND 2147483647)) :: 32 word"
  have m: "?q mod 2147483647 = ?p mod 2147483647" using mersenne_fold [of ?p] by simp
  have nz: "?q \<noteq> 2147483647"
    using m lehmer_nonzero [OF assms] by (metis mod_self)
  show ?thesis
  proof (cases "?r > 2147483647")
    case True
    then have gt: "2147483647 < ?q" using s32 by (simp add: word_less_nat_alt)
    have "unat (?r - 2147483647) = ?q - 2147483647"
      using True s32 by (subst unat_sub) (auto simp: word_le_nat_alt word_less_nat_alt)
    moreover have "?q mod 2147483647 = ?q - 2147483647"
      using gt q by (subst le_mod_geq) auto
    ultimately show ?thesis using True m by (simp add: Random_Next_def Let_def)
  next
    case False
    then have "?q < 2147483647" using s32 nz by (simp add: word_less_nat_alt)
    then show ?thesis using False m s32 by (simp add: Random_Next_def Let_def)
  qed
qed

definition rnd_ok :: "32 word \<Rightarrow> bool" where
  "rnd_ok s = (1 \<le> unat s \<and> unat s < 2147483647)"

lemma rnd_ok_Random [simp]: "rnd_ok (Random s)"
  using Random_range [of s] by (simp add: rnd_ok_def)

lemma rnd_ok_Next [simp]: "rnd_ok s \<Longrightarrow> rnd_ok (Random_Next s)"
  using lehmer_nonzero [of "unat s"] unat_Random_Next [of s] by (simp add: rnd_ok_def Suc_le_eq)

lemma random_height_bounds:
  assumes "random_height seed h = (h', seed')" "1 \<le> h" "h \<le> kMaxHeight" "rnd_ok seed"
  shows "1 \<le> h' \<and> h' \<le> kMaxHeight \<and> rnd_ok seed'"
  using assms
  by (induction seed h rule: random_height.induct)
    (subst (asm) (2) random_height.simps, auto simp: OneIn_def Let_def split: if_splits)

lemma RandomHeight_ok:
  assumes "rnd_ok seed"
  shows "\<exists>h seed'. RandomHeight seed = Some (h, seed') \<and> 1 \<le> h \<and> h \<le> kMaxHeight \<and> rnd_ok seed'"
proof -
  obtain h seed' where r: "random_height seed 1 = (h, seed')" by (cases "random_height seed 1")
  then have "1 \<le> h \<and> h \<le> kMaxHeight \<and> rnd_ok seed'"
    using assms by (elim random_height_bounds) (simp_all add: kMaxHeight_def)
  then show ?thesis using r by (simp add: RandomHeight_def Suc_le_eq)
qed

end
