(* ===== verification/SkipListCorrect.thy ===== *)
theory SkipListCorrect
  imports SkipList SliceCmp
begin

text \<open>
  Correctness of the skip list. The representation predicate \<open>sl_rep\<close> relates a list in the
  arena to the sequence \<open>L\<close> of its nodes in key order: on every level the chain of links
  from the head visits exactly the nodes of \<open>L\<close> that are taller than the level. The three
  searches share one induction rule over this picture (\<open>search_rule\<close>), which also shows
  that they return; insertion splices a node into all its levels.
\<close>

section \<open>The representation\<close>

definition ht :: "'k sl_node list \<Rightarrow> nat \<Rightarrow> nat" where
  "ht H a = length (node_links (H ! a))"

fun linked :: "'k sl_node list \<Rightarrow> nat \<Rightarrow> nat \<Rightarrow> nat list \<Rightarrow> bool" where
  "linked H i a [] \<longleftrightarrow> Node_Next H a i = Some None"
| "linked H i a (b # bs) \<longleftrightarrow> Node_Next H a i = Some (Some b) \<and> linked H i b bs"

definition sl_rep :: "('k \<Rightarrow> bool) \<Rightarrow> ('k \<Rightarrow> 'k \<Rightarrow> int) \<Rightarrow> 'k skiplist \<Rightarrow> nat list \<Rightarrow> bool" where
  "sl_rep valid cmp sl L \<longleftrightarrow>
     (let H = sl_nodes sl in
      H \<noteq> [] \<and> 1 \<le> max_height sl \<and> max_height sl \<le> kMaxHeight \<and> rnd_ok (rnd sl) \<and>
      distinct (head # L) \<and>
      (\<forall>a\<in>set L. a < length H \<and> 1 \<le> ht H a \<and> ht H a \<le> max_height sl \<and> valid (node_key (H ! a))) \<and>
      (\<forall>i\<in>{..<kMaxHeight}. linked H i head (filter (\<lambda>a. i < ht H a) L)) \<and>
      sorted_wrt (\<lambda>a b. cmp (node_key (H ! a)) (node_key (H ! b)) < 0) L)"

definition keys_of :: "'k skiplist \<Rightarrow> nat list \<Rightarrow> 'k list" where
  "keys_of sl L = map (\<lambda>a. node_key (sl_nodes sl ! a)) L"

lemma sl_rep_new: "sl_rep valid cmp (new_SkipList k) []"
  by (simp add: sl_rep_def new_SkipList_def NewNode_def kMaxHeight_def Node_Next_def Let_def)

lemma sl_repD:
  assumes "sl_rep valid cmp sl L"
  shows "1 \<le> max_height sl" "max_height sl \<le> kMaxHeight" "rnd_ok (rnd sl)" "distinct (0 # L)"
    "\<And>a. a \<in> set L \<Longrightarrow> a < length (sl_nodes sl)"
    "\<And>a. a \<in> set L \<Longrightarrow> 1 \<le> ht (sl_nodes sl) a"
    "\<And>a. a \<in> set L \<Longrightarrow> ht (sl_nodes sl) a \<le> max_height sl"
    "\<And>a. a \<in> set L \<Longrightarrow> valid (node_key (sl_nodes sl ! a))"
    "\<And>i. i < kMaxHeight \<Longrightarrow> linked (sl_nodes sl) i 0 (filter (\<lambda>a. i < ht (sl_nodes sl) a) L)"
    "sorted_wrt (\<lambda>a b. cmp (node_key (sl_nodes sl ! a)) (node_key (sl_nodes sl ! b)) < 0) L"
    "sl_nodes sl \<noteq> []"
  using assms by (simp_all add: sl_rep_def Let_def)

section \<open>Searching\<close>

definition next_of :: "nat list \<Rightarrow> nat option" where
  "next_of B = (case B of [] \<Rightarrow> None | b # _ \<Rightarrow> Some b)"

lemma next_of_simps [simp]: "next_of [] = None" "next_of (b # B) = Some b"
  by (simp_all add: next_of_def)

lemma linked_next: "linked H i a B \<Longrightarrow> Node_Next H a i = Some (next_of B)"
  by (cases B) simp_all

lemma linked_last: "linked H i a (A @ B) \<Longrightarrow> linked H i (last (a # A)) B"
  by (induction A arbitrary: a) auto

lemma level_walk:
  assumes "linked H l a (A @ B)"
    and "\<And>x y. Node_Next H x l = Some (Some y) \<Longrightarrow> y \<in> set A \<Longrightarrow> R y \<Longrightarrow> x \<in> set (a # A) \<Longrightarrow> R x"
    and "Node_Next H (last (a # A)) l = Some (next_of B) \<Longrightarrow> R (last (a # A))"
    and "x \<in> set (a # A)"
  shows "R x"
  using assms
proof (induction A arbitrary: a x)
  case Nil
  then show ?case using linked_next by fastforce
next
  case (Cons y A)
  have y: "R x" if "x \<in> set (y # A)" for x
  proof (rule Cons.IH [OF _ _ _ that])
    show "linked H l y (A @ B)" using Cons.prems(1) by simp
    show "R (last (y # A))" if "Node_Next H (last (y # A)) l = Some (next_of B)"
      using Cons.prems(3) that by simp
    show "R x" if "Node_Next H x l = Some (Some z)" "z \<in> set A" "R z" "x \<in> set (y # A)" for x z
      using Cons.prems(2) [OF that(1)] that by simp
  qed
  show ?case
  proof (cases "x = a")
    case True
    then show ?thesis using Cons.prems(1,2) y [of y] by simp
  next
    case False
    then show ?thesis using Cons.prems(4) y by simp
  qed
qed

abbreviation tall :: "'k sl_node list \<Rightarrow> nat \<Rightarrow> nat list \<Rightarrow> nat list" where
  "tall H l \<equiv> filter (\<lambda>a. l < ht H a)"

lemma filter_hd_mem: "filter p xs = b # B \<Longrightarrow> b \<in> set xs"
  by (metis filter_is_subset list.set_intros(1) subsetD)

lemma search_rule:
  assumes links: "\<And>i. i \<le> lv \<Longrightarrow> linked H i 0 (tall H i (P @ S))"
    and right: "\<And>l x y. l \<le> lv \<Longrightarrow> Node_Next H x l = Some (Some y) \<Longrightarrow> y \<in> set P \<Longrightarrow> Q y l \<Longrightarrow>
      x \<in> set (0 # P) \<Longrightarrow> Q x l"
    and base: "Node_Next H (last (0 # tall H 0 P)) 0 = Some (next_of (tall H 0 S)) \<Longrightarrow>
      last (0 # tall H 0 P) \<in> set (0 # P) \<Longrightarrow> Q (last (0 # tall H 0 P)) 0"
    and down: "\<And>l x. Suc l \<le> lv \<Longrightarrow> x = last (0 # tall H (Suc l) P) \<Longrightarrow> x \<in> set (0 # P) \<Longrightarrow>
      Node_Next H x (Suc l) = Some (next_of (tall H (Suc l) S)) \<Longrightarrow> Q x l \<Longrightarrow> Q x (Suc l)"
  shows "Q 0 lv"
proof -
  have "\<forall>x \<in> set (0 # tall H l P). Q x l" if "l \<le> lv" for l
    using that
  proof (induction l)
    case 0
    have lk: "linked H 0 0 (tall H 0 P @ tall H 0 S)" using links [of 0] by simp
    have "Q x 0" if "x \<in> set (0 # tall H 0 P)" for x
    proof (rule level_walk [where R = "\<lambda>x. Q x 0", OF lk _ _ that])
      fix x y
      assume "Node_Next H x 0 = Some (Some y)" "y \<in> set (tall H 0 P)" "Q y 0" "x \<in> set (0 # tall H 0 P)"
      then show "Q x 0" using right [of 0 x y] by auto
    next
      have "last (0 # tall H 0 P) \<in> set (0 # tall H 0 P)" by (rule last_in_set) simp
      then have "last (0 # tall H 0 P) \<in> set (0 # P)" by auto
      then show "Q (last (0 # tall H 0 P)) 0"
        if "Node_Next H (last (0 # tall H 0 P)) 0 = Some (next_of (tall H 0 S))"
        by (rule base [OF that])
    qed
    then show ?case by blast
  next
    case (Suc l)
    have lk: "linked H (Suc l) 0 (tall H (Suc l) P @ tall H (Suc l) S)"
      using links [of "Suc l"] Suc.prems by simp
    have "Q x (Suc l)" if "x \<in> set (0 # tall H (Suc l) P)" for x
    proof (rule level_walk [where R = "\<lambda>x. Q x (Suc l)", OF lk _ _ that])
      fix x y
      assume "Node_Next H x (Suc l) = Some (Some y)" "y \<in> set (tall H (Suc l) P)" "Q y (Suc l)"
        "x \<in> set (0 # tall H (Suc l) P)"
      then show "Q x (Suc l)" using right [of "Suc l" x y] Suc.prems by auto
    next
      let ?x = "last (0 # tall H (Suc l) P)"
      assume nxt: "Node_Next H ?x (Suc l) = Some (next_of (tall H (Suc l) S))"
      have mem: "?x \<in> set (0 # tall H (Suc l) P)" by (rule last_in_set) simp
      then have "?x \<in> set (0 # tall H l P)" "?x \<in> set (0 # P)" by auto
      then show "Q ?x (Suc l)" using down [OF Suc.prems refl _ nxt] Suc by simp
    qed
    then show ?case by blast
  qed
  then show ?thesis by simp
qed

definition fill_prev :: "'k sl_node list \<Rightarrow> nat list \<Rightarrow> nat \<Rightarrow> nat option list \<Rightarrow> nat option list" where
  "fill_prev H P l p = fold (\<lambda>i p. p[i := Some (last (0 # tall H i P))]) (rev [0 ..< Suc l]) p"

lemma fill_prev_simps:
  "fill_prev H P 0 p = p[0 := Some (last (0 # tall H 0 P))]"
  "fill_prev H P (Suc l) p = fill_prev H P l (p[Suc l := Some (last (0 # tall H (Suc l) P))])"
  by (simp_all add: fill_prev_def)

lemma map_fill_prev:
  "map_option (fill_prev H P 0) prev = set_prev prev 0 (last (0 # tall H 0 P))"
  "map_option (fill_prev H P (Suc l)) prev =
    map_option (fill_prev H P l) (set_prev prev (Suc l) (last (0 # tall H (Suc l) P)))"
  by (cases prev; simp add: fill_prev_simps set_prev_def)+

lemma length_fill_prev [simp]: "length (fill_prev H P l p) = length p"
  by (induction l arbitrary: p) (simp_all add: fill_prev_simps)

lemma nth_fill_prev:
  "i < length p \<Longrightarrow> fill_prev H P l p ! i = (if i \<le> l then Some (last (0 # tall H i P)) else p ! i)"
  by (induction l arbitrary: p) (auto simp: fill_prev_simps nth_list_update le_Suc_eq)

lemma set_prev_Some [simp]: "set_prev (Some p) l x = Some (p[l := Some x])"
  "set_prev None l x = None"
  by (simp_all add: set_prev_def)

lemma fge_loop_finds:
  assumes "\<And>i. i \<le> lv \<Longrightarrow> linked H i 0 (tall H i (P @ S))"
    and P: "\<And>a. a \<in> set P \<Longrightarrow> cmp (node_key (H ! a)) key < 0"
    and S: "\<And>a. a \<in> set S \<Longrightarrow> \<not> cmp (node_key (H ! a)) key < 0"
  shows "fge_loop cmp H key 0 lv prev =
    Some (next_of (tall H 0 S), map_option (fill_prev H P lv) prev)"
proof -
  have stop: "\<not> KeyIsAfterNode cmp H key (next_of (tall H l S))" for l
  proof (cases "tall H l S")
    case (Cons b B)
    then have "b \<in> set S" by (rule filter_hd_mem)
    then show ?thesis using Cons S by (simp add: KeyIsAfterNode_def)
  qed (simp add: KeyIsAfterNode_def)
  let ?Q = "\<lambda>x l. \<forall>prev. fge_loop cmp H key x l prev =
    Some (next_of (tall H 0 S), map_option (fill_prev H P l) prev)"
  have "?Q 0 lv"
  proof (rule search_rule [where Q = ?Q, OF assms(1)])
    fix l x y
    assume "Node_Next H x l = Some (Some y)" "y \<in> set P" "?Q y l"
    then show "?Q x l"
      by (subst fge_loop.simps) (simp add: KeyIsAfterNode_def P)
  next
    assume *: "Node_Next H (last (0 # tall H 0 P)) 0 = Some (next_of (tall H 0 S))"
    show "?Q (last (0 # tall H 0 P)) 0"
      using stop [of 0]
      by (subst fge_loop.simps) (simp add: * map_fill_prev del: last.simps)
  next
    fix l x
    assume x: "x = last (0 # tall H (Suc l) P)"
      and nxt: "Node_Next H x (Suc l) = Some (next_of (tall H (Suc l) S))" and Q: "?Q x l"
    show "?Q x (Suc l)"
      using Q stop [of "Suc l"]
      by (subst fge_loop.simps)
        (simp add: nxt map_fill_prev x [symmetric] del: last.simps)
  qed simp_all
  then show ?thesis by blast
qed

lemma flt_loop_finds:
  assumes "\<And>i. i \<le> lv \<Longrightarrow> linked H i 0 (tall H i (P @ S))"
    and P: "\<And>a. a \<in> set P \<Longrightarrow> cmp (node_key (H ! a)) key < 0"
    and S: "\<And>a. a \<in> set S \<Longrightarrow> \<not> cmp (node_key (H ! a)) key < 0"
  shows "flt_loop cmp H key 0 lv = Some (last (0 # tall H 0 P))"
proof (rule search_rule [where Q = "\<lambda>x l. flt_loop cmp H key x l = Some (last (0 # tall H 0 P))",
      OF assms(1)])
  have at: "x = head \<or> cmp (node_key (H ! x)) key < 0" if "x \<in> set (0 # P)" for x
    using that P by auto
  have stop: "case next_of (tall H l S) of None \<Rightarrow> True | Some a \<Rightarrow> cmp (node_key (H ! a)) key \<ge> 0" for l
  proof (cases "tall H l S")
    case (Cons b B)
    then have "b \<in> set S" by (rule filter_hd_mem)
    then show ?thesis using Cons S [of b] by simp
  qed simp
  {
    fix l x y
    assume "Node_Next H x l = Some (Some y)" "y \<in> set P" "x \<in> set (0 # P)"
      "flt_loop cmp H key y l = Some (last (0 # tall H 0 P))"
    then show "flt_loop cmp H key x l = Some (last (0 # tall H 0 P))"
      using at [of x] P [of y] by (subst flt_loop.simps) (simp del: head_0)
  }
  show "flt_loop cmp H key (last (0 # tall H 0 P)) 0 = Some (last (0 # tall H 0 P))"
    if "Node_Next H (last (0 # tall H 0 P)) 0 = Some (next_of (tall H 0 S))"
      "last (0 # tall H 0 P) \<in> set (0 # P)"
    using that(1) at [OF that(2)] stop [of 0]
    by (subst flt_loop.simps) (simp del: head_0 last.simps)
  show "flt_loop cmp H key x (Suc l) = Some (last (0 # tall H 0 P))"
    if "x \<in> set (0 # P)" "Node_Next H x (Suc l) = Some (next_of (tall H (Suc l) S))"
      "flt_loop cmp H key x l = Some (last (0 # tall H 0 P))" for x l
    using that(2,3) at [OF that(1)] stop [of "Suc l"]
    by (subst flt_loop.simps) (simp del: head_0 last.simps)
qed simp_all

lemma last_loop_finds:
  assumes "\<And>i. i \<le> lv \<Longrightarrow> linked H i 0 (tall H i P)"
  shows "last_loop H 0 lv = Some (last (0 # tall H 0 P))"
proof (rule search_rule [where P = P and S = "[]" and
      Q = "\<lambda>x l. last_loop H x l = Some (last (0 # tall H 0 P))"])
  show "last_loop H x l = Some (last (0 # tall H 0 P))"
    if "Node_Next H x l = Some (Some y)" "last_loop H y l = Some (last (0 # tall H 0 P))" for l x y
    using that by (subst last_loop.simps) simp
  show "last_loop H (last (0 # tall H 0 P)) 0 = Some (last (0 # tall H 0 P))"
    if "Node_Next H (last (0 # tall H 0 P)) 0 = Some (next_of (tall H 0 []))"
    using that by (subst last_loop.simps) (simp del: last.simps)
  show "last_loop H x (Suc l) = Some (last (0 # tall H 0 P))"
    if "Node_Next H x (Suc l) = Some (next_of (tall H (Suc l) []))"
      "last_loop H x l = Some (last (0 # tall H 0 P))" for x l
    using that by (subst last_loop.simps) simp
qed (use assms in simp_all)

section \<open>Splicing a node\<close>

lemma SetNext_ok:
  assumes "Node_Next H x n \<noteq> None"
  shows "\<exists>H'. SetNext H x n y = Some H' \<and> length H' = length H \<and>
    (\<forall>a. node_key (H' ! a) = node_key (H ! a)) \<and> (\<forall>a. ht H' a = ht H a) \<and>
    (\<forall>a j. Node_Next H' a j = (if a = x \<and> j = n then Some y else Node_Next H a j))"
proof -
  have "x < length H" "n < length (node_links (H ! x))"
    using assms by (auto simp: Node_Next_def split: if_splits)
  then show ?thesis
    by (auto simp: SetNext_def Node_Next_def ht_def nth_list_update)
qed

lemma link_loop_ok:
  assumes "distinct is"
    and "\<And>i. i \<in> set is \<Longrightarrow> prev ! i = Some (p i) \<and> p i \<noteq> x \<and>
      Node_Next H (p i) i \<noteq> None \<and> Node_Next H x i \<noteq> None"
  shows "\<exists>H'. link_loop x prev is H = Some H' \<and> length H' = length H \<and>
    (\<forall>a. node_key (H' ! a) = node_key (H ! a)) \<and> (\<forall>a. ht H' a = ht H a) \<and>
    (\<forall>a j. Node_Next H' a j =
      (if j \<in> set is then if a = x then Node_Next H (p j) j
         else if a = p j then Some (Some x) else Node_Next H a j
       else Node_Next H a j))"
  using assms
proof (induction "is" arbitrary: H)
  case Nil
  then show ?case by simp
next
  case (Cons i "is")
  have i: "prev ! i = Some (p i)" "p i \<noteq> x" "Node_Next H x i \<noteq> None" using Cons.prems(2) by simp_all
  obtain nxt where nxt: "Node_Next H (p i) i = Some nxt" using Cons.prems(2) [of i] by auto
  obtain H1 where H1: "SetNext H x i nxt = Some H1" "length H1 = length H"
    "\<forall>a. node_key (H1 ! a) = node_key (H ! a)" "\<forall>a. ht H1 a = ht H a"
    "\<forall>a j. Node_Next H1 a j = (if a = x \<and> j = i then Some nxt else Node_Next H a j)"
    using SetNext_ok [OF i(3)] by metis
  have "Node_Next H1 (p i) i \<noteq> None" using H1(5) i(2) nxt by simp
  then obtain H2 where H2: "SetNext H1 (p i) i (Some x) = Some H2" "length H2 = length H1"
    "\<forall>a. node_key (H2 ! a) = node_key (H1 ! a)" "\<forall>a. ht H2 a = ht H1 a"
    "\<forall>a j. Node_Next H2 a j = (if a = p i \<and> j = i then Some (Some x) else Node_Next H1 a j)"
    using SetNext_ok by metis
  have pre: "prev ! j = Some (p j) \<and> p j \<noteq> x \<and> Node_Next H2 (p j) j \<noteq> None \<and> Node_Next H2 x j \<noteq> None"
    if "j \<in> set is" for j
    using Cons.prems(2) [of j] that H1(5) H2(5) by simp
  obtain H' where H': "link_loop x prev is H2 = Some H'" "length H' = length H2"
    "\<forall>a. node_key (H' ! a) = node_key (H2 ! a)" "\<forall>a. ht H' a = ht H2 a"
    "\<forall>a j. Node_Next H' a j =
      (if j \<in> set is then if a = x then Node_Next H2 (p j) j
         else if a = p j then Some (Some x) else Node_Next H2 a j
       else Node_Next H2 a j)"
    using Cons.IH [of H2] pre Cons.prems(1) by (metis distinct.simps(2))
  have "link_loop x prev (i # is) H = Some H'"
    using i(1) nxt H1(1) H2(1) H'(1) by simp
  moreover have "\<forall>a j. Node_Next H' a j =
      (if j \<in> set (i # is) then if a = x then Node_Next H (p j) j
         else if a = p j then Some (Some x) else Node_Next H a j
       else Node_Next H a j)"
    using Cons.prems(1) i(2) nxt by (auto simp: H'(5) H2(5) H1(5))
  ultimately show ?case
    using H1(2-4) H2(2-4) H'(2-4) by simp
qed

lemma linked_cong:
  "(\<And>c. c \<in> set (a # A) \<Longrightarrow> Node_Next H' c i = Node_Next H c i) \<Longrightarrow> linked H i a A \<Longrightarrow> linked H' i a A"
  by (induction A arbitrary: a) auto

lemma linked_splice:
  assumes "linked H i a (A @ B)" "distinct (a # A @ B)"
    and "Node_Next H' n i = Node_Next H (last (a # A)) i" "Node_Next H' (last (a # A)) i = Some (Some n)"
    and "\<And>c. c \<in> set (a # A @ B) \<Longrightarrow> c \<noteq> last (a # A) \<Longrightarrow> Node_Next H' c i = Node_Next H c i"
  shows "linked H' i a (A @ n # B)"
  using assms
proof (induction A arbitrary: a)
  case Nil
  have "linked H' i n B"
  proof (cases B)
    case Nil
    then show ?thesis using Nil.prems by simp
  next
    case (Cons b B')
    have "linked H' i b B'"
      by (rule linked_cong [of _ _ _ _ H]) (use Nil.prems Cons in auto)
    then show ?thesis using Nil.prems Cons by simp
  qed
  then show ?case using Nil by simp
next
  case (Cons y A)
  have "last (y # A) \<in> set (y # A)" by (rule last_in_set) simp
  then have "a \<noteq> last (a # y # A)" using Cons.prems(2) by auto
  then have "Node_Next H' a i = Node_Next H a i" using Cons.prems(5) by simp
  moreover have "linked H' i y (A @ n # B)"
    by (rule Cons.IH) (use Cons.prems in \<open>auto split: if_splits\<close>)
  ultimately show ?case using Cons.prems(1) by simp
qed

lemma nth_fold_update:
  "j < length p \<Longrightarrow> fold (\<lambda>i p. p[i := v]) is p ! j = (if j \<in> set is then v else p ! j)"
  by (induction "is" arbitrary: p) (auto simp: nth_list_update)

lemma Node_Next_NewNode:
  "a < length H \<Longrightarrow> Node_Next (snd (NewNode k h H)) a i = Node_Next H a i"
  "i < h \<Longrightarrow> Node_Next (snd (NewNode k h H)) (length H) i = Some None"
  by (simp_all add: NewNode_def Node_Next_def nth_append)

lemma ht_NewNode:
  "a < length H \<Longrightarrow> ht (snd (NewNode k h H)) a = ht H a"
  "ht (snd (NewNode k h H)) (length H) = h"
  by (simp_all add: NewNode_def ht_def nth_append)

lemma key_NewNode:
  "a < length H \<Longrightarrow> node_key (snd (NewNode k h H) ! a) = node_key (H ! a)"
  "node_key (snd (NewNode k h H) ! length H) = k"
  by (simp_all add: NewNode_def nth_append)

context key_order
begin

abbreviation before :: "'k skiplist \<Rightarrow> 'k \<Rightarrow> nat \<Rightarrow> bool" where
  "before sl key a \<equiv> cmp (node_key (sl_nodes sl ! a)) key < 0"

lemma rep_split:
  assumes rep: "sl_rep valid cmp sl L" and key: "valid key"
  obtains P S where "L = P @ S" "\<And>a. a \<in> set P \<Longrightarrow> before sl key a" "\<And>a. a \<in> set S \<Longrightarrow> \<not> before sl key a"
proof
  show "L = takeWhile (before sl key) L @ dropWhile (before sl key) L" by simp
  show "before sl key a" if "a \<in> set (takeWhile (before sl key) L)" for a
    using that by (rule set_takeWhileD [THEN conjunct2])
  show "\<not> before sl key a" if "a \<in> set (dropWhile (before sl key) L)" for a
  proof
    assume a: "before sl key a"
    obtain b B where b: "dropWhile (before sl key) L = b # B"
      using \<open>a \<in> _\<close> by (cases "dropWhile (before sl key) L") auto
    then have nb: "\<not> before sl key b" using hd_dropWhile [of "before sl key" L] by simp
    have "sorted_wrt (\<lambda>a b. cmp (node_key (sl_nodes sl ! a)) (node_key (sl_nodes sl ! b)) < 0) (b # B)"
      using sl_repD(10) [OF rep] unfolding b [symmetric]
      by (metis sorted_wrt_append takeWhile_dropWhile_id)
    moreover have "a \<in> set B" using that a nb b by auto
    ultimately have "cmp (node_key (sl_nodes sl ! b)) (node_key (sl_nodes sl ! a)) < 0" by simp
    moreover have "set (b # B) \<subseteq> set L" unfolding b [symmetric] by (auto dest: set_dropWhileD)
    ultimately show False
      using cmp_less_trans [of "node_key (sl_nodes sl ! b)" "node_key (sl_nodes sl ! a)" key]
        sl_repD(8) [OF rep] key a nb \<open>a \<in> set B\<close> by auto
  qed
qed

lemma tall_0: "sl_rep valid cmp sl L \<Longrightarrow> set A \<subseteq> set L \<Longrightarrow> tall (sl_nodes sl) 0 A = A"
  using sl_repD(6) by (fastforce intro: filter_True)

lemma fge_rep:
  assumes rep: "sl_rep valid cmp sl (P @ S)"
    and "\<And>a. a \<in> set P \<Longrightarrow> before sl key a" "\<And>a. a \<in> set S \<Longrightarrow> \<not> before sl key a"
  shows "FindGreaterOrEqual cmp sl key prev =
    Some (next_of S, map_option (fill_prev (sl_nodes sl) P (max_height sl - 1)) prev)"
proof -
  have "linked (sl_nodes sl) i 0 (tall (sl_nodes sl) i (P @ S))" if "i \<le> max_height sl - 1" for i
    using sl_repD(9) [OF rep, of i] sl_repD(1,2) [OF rep] that by linarith
  then show ?thesis
    unfolding FindGreaterOrEqual_def head_0
    using fge_loop_finds [of "max_height sl - 1" "sl_nodes sl" P S cmp key prev] assms(2,3) tall_0 [OF rep, of S]
    by simp
qed

lemma flt_rep:
  assumes rep: "sl_rep valid cmp sl (P @ S)"
    and "\<And>a. a \<in> set P \<Longrightarrow> before sl key a" "\<And>a. a \<in> set S \<Longrightarrow> \<not> before sl key a"
  shows "FindLessThan cmp sl key = Some (last (0 # P))"
proof -
  have "linked (sl_nodes sl) i 0 (tall (sl_nodes sl) i (P @ S))" if "i \<le> max_height sl - 1" for i
    using sl_repD(9) [OF rep, of i] sl_repD(1,2) [OF rep] that by linarith
  then show ?thesis
    unfolding FindLessThan_def head_0
    using flt_loop_finds [of "max_height sl - 1" "sl_nodes sl" P S cmp key] assms(2,3) tall_0 [OF rep, of P]
    by simp
qed

lemma last_rep:
  assumes rep: "sl_rep valid cmp sl L"
  shows "FindLast sl = Some (last (0 # L))"
proof -
  have "linked (sl_nodes sl) i 0 (tall (sl_nodes sl) i L)" if "i \<le> max_height sl - 1" for i
    using sl_repD(9) [OF rep, of i] sl_repD(1,2) [OF rep] that by linarith
  then show ?thesis
    unfolding FindLast_def head_0
    using last_loop_finds [of "max_height sl - 1" "sl_nodes sl" L] tall_0 [OF rep, of L]
    by simp
qed

text \<open>Inserting at the gap between \<open>P\<close> and \<open>S\<close> with any height the generator may choose.\<close>

lemma insert_splice:
  assumes rep: "sl_rep valid cmp sl (P @ S)" and h: "1 \<le> h" "h \<le> kMaxHeight"
    and prev: "prev = fill_prev (sl_nodes sl) P (max_height sl - 1) (replicate kMaxHeight None)"
    and prev': "prev' = (if h > max_height sl
      then fold (\<lambda>i p. p[i := Some head]) [max_height sl ..< h] prev else prev)"
  shows "\<exists>H'. link_loop (length (sl_nodes sl)) prev' [0 ..< h] (snd (NewNode key h (sl_nodes sl))) = Some H' \<and>
    length H' = Suc (length (sl_nodes sl)) \<and>
    node_key (H' ! length (sl_nodes sl)) = key \<and> ht H' (length (sl_nodes sl)) = h \<and>
    (\<forall>a < length (sl_nodes sl). node_key (H' ! a) = node_key (sl_nodes sl ! a) \<and> ht H' a = ht (sl_nodes sl) a) \<and>
    (\<forall>i < kMaxHeight. linked H' i 0 (tall H' i (P @ length (sl_nodes sl) # S)))"
proof -
  let ?H = "sl_nodes sl" and ?n = "length (sl_nodes sl)"
  let ?H1 = "snd (NewNode key h ?H)"
  let ?p = "\<lambda>i. last (0 # tall ?H i P)"
  note rep' = sl_repD [OF rep]
  have lt: "a < ?n" if "a \<in> set (0 # P @ S)" for a
    using that rep'(5,11) by auto
  have pmem: "?p i \<in> set (0 # P @ S)" for i
  proof -
    have "?p i \<in> set (0 # tall ?H i P)" by (rule last_in_set) simp
    then show ?thesis by auto
  qed
  have nxt: "Node_Next ?H (?p i) i = Some (next_of (tall ?H i S))" if "i < h" for i
    by (rule linked_next, rule linked_last) (use rep'(9) [of i] that h(2) in simp)
  have pi: "prev' ! i = Some (?p i)" if "i < h" for i
  proof (cases "i < max_height sl")
    case True
    then show ?thesis
      using that h(2) by (simp add: prev prev' nth_fold_update nth_fill_prev del: last.simps)
  next
    case False
    have "\<not> i < ht ?H a" if "a \<in> set P" for a
      using rep'(7) [of a] that False by simp
    then have "tall ?H i P = []" by (simp add: filter_empty_conv)
    then show ?thesis
      using that h(2) False by (simp add: prev prev' nth_fold_update)
  qed
  obtain H' where H': "link_loop ?n prev' [0 ..< h] ?H1 = Some H'" "length H' = length ?H1"
    "\<forall>a. node_key (H' ! a) = node_key (?H1 ! a)" "\<forall>a. ht H' a = ht ?H1 a"
    "\<forall>a j. Node_Next H' a j =
      (if j \<in> set [0 ..< h] then if a = ?n then Node_Next ?H1 (?p j) j
         else if a = ?p j then Some (Some ?n) else Node_Next ?H1 a j
       else Node_Next ?H1 a j)"
  proof -
    have "prev' ! i = Some (?p i) \<and> ?p i \<noteq> ?n \<and> Node_Next ?H1 (?p i) i \<noteq> None \<and> Node_Next ?H1 ?n i \<noteq> None"
      if "i \<in> set [0 ..< h]" for i
      using that pi [of i] nxt [of i] lt [OF pmem [of i]] by (simp add: Node_Next_NewNode del: last.simps)
    then show ?thesis
      using link_loop_ok [of "[0 ..< h]" prev' ?p ?n ?H1] that by auto
  qed
  have ht': "ht H' a = ht ?H a" if "a \<in> set (P @ S)" for a
    using that lt [of a] H'(4) by (simp add: ht_NewNode)
  have "linked H' i 0 (tall H' i (P @ ?n # S))" if "i < kMaxHeight" for i
  proof -
    have PS: "tall H' i P = tall ?H i P" "tall H' i S = tall ?H i S"
      using ht' by (auto intro: filter_cong)
    have link: "linked ?H i 0 (tall ?H i P @ tall ?H i S)" using rep'(9) [OF that] by simp
    have same: "Node_Next H' c i = Node_Next ?H c i"
      if "c \<in> set (0 # tall ?H i P @ tall ?H i S)" "i < h \<longrightarrow> c \<noteq> ?p i" for c
    proof -
      have "c < ?n" using that(1) by (intro lt) auto
      then show ?thesis using that(2) H'(5) by (simp add: Node_Next_NewNode del: last.simps)
    qed
    show ?thesis
    proof (cases "i < h")
      case True
      have "linked H' i 0 (tall ?H i P @ ?n # tall ?H i S)"
      proof (rule linked_splice [OF link])
        show "distinct (0 # tall ?H i P @ tall ?H i S)" using rep'(4) by auto
        show "Node_Next H' ?n i = Node_Next ?H (?p i) i"
          using True H'(5) lt [OF pmem [of i]] by (simp add: Node_Next_NewNode del: last.simps)
        show "Node_Next H' (?p i) i = Some (Some ?n)"
          using True H'(5) lt [OF pmem [of i]] by (auto simp del: last.simps)
      qed (use same in blast)
      then show ?thesis using True PS H'(4) by (simp add: ht_NewNode)
    next
      case False
      have "linked H' i 0 (tall ?H i P @ tall ?H i S)"
        by (rule linked_cong [OF _ link]) (use same False in blast)
      then show ?thesis using False PS H'(4) by (simp add: ht_NewNode)
    qed
  qed
  then have "\<forall>i < kMaxHeight. linked H' i 0 (tall H' i (P @ ?n # S))" by blast
  moreover have "length H' = Suc ?n" using H'(2) by (simp add: NewNode_def)
  moreover have "node_key (H' ! ?n) = key" "ht H' ?n = h"
    using H'(3,4) by (simp_all add: ht_NewNode key_NewNode)
  moreover have "\<forall>a < ?n. node_key (H' ! a) = node_key (?H ! a) \<and> ht H' a = ht ?H a"
    using H'(3,4) by (simp add: ht_NewNode key_NewNode)
  ultimately show ?thesis
    using H'(1) by (intro exI [of _ H'] conjI)
qed

lemma insert_rep:
  assumes rep: "sl_rep valid cmp sl (P @ S)" and key: "valid key"
    and P: "\<And>a. a \<in> set P \<Longrightarrow> before sl key a" and S: "\<And>a. a \<in> set S \<Longrightarrow> \<not> before sl key a"
    and fresh: "\<And>a. a \<in> set S \<Longrightarrow> cmp key (node_key (sl_nodes sl ! a)) \<noteq> 0"
  shows "\<exists>sl'. SL_Insert cmp sl key = Some sl' \<and> sl_rep valid cmp sl' (P @ length (sl_nodes sl) # S) \<and>
    keys_of sl' (P @ length (sl_nodes sl) # S) = keys_of sl P @ key # keys_of sl S"
proof -
  let ?H = "sl_nodes sl" and ?n = "length (sl_nodes sl)"
  note rep' = sl_repD [OF rep]
  define prev where "prev = fill_prev ?H P (max_height sl - 1) (replicate kMaxHeight None)"
  obtain h seed where h: "RandomHeight (rnd sl) = Some (h, seed)" "1 \<le> h" "h \<le> kMaxHeight" "rnd_ok seed"
    using RandomHeight_ok [OF rep'(3)] by blast
  define prev' where "prev' = (if h > max_height sl
    then fold (\<lambda>i p. p[i := Some head]) [max_height sl ..< h] prev else prev)"
  obtain H' where H': "link_loop ?n prev' [0 ..< h] (snd (NewNode key h ?H)) = Some H'"
    "length H' = Suc ?n" "node_key (H' ! ?n) = key" "ht H' ?n = h"
    "\<And>a. a < ?n \<Longrightarrow> node_key (H' ! a) = node_key (?H ! a)" "\<And>a. a < ?n \<Longrightarrow> ht H' a = ht ?H a"
    "\<And>i. i < kMaxHeight \<Longrightarrow> linked H' i 0 (tall H' i (P @ ?n # S))"
    using insert_splice [OF rep h(2,3) prev_def prev'_def, of key] by blast
  define sl' where "sl' = \<lparr>sl_nodes = H', max_height = max h (max_height sl), rnd = seed\<rparr>"
  have find: "FindGreaterOrEqual cmp sl key (Some (replicate kMaxHeight None)) = Some (next_of S, Some prev)"
    using fge_rep [OF rep P S] by (simp add: prev_def)
  have ok: "case next_of S of None \<Rightarrow> True | Some a \<Rightarrow> cmp key (node_key (?H ! a)) \<noteq> 0"
    using fresh by (cases S) simp_all
  have new: "NewNode key h ?H = (?n, snd (NewNode key h ?H))" by (simp add: NewNode_def)
  have mh: "(if h > max_height sl then h else max_height sl) = max h (max_height sl)" by simp
  have ins: "SL_Insert cmp sl key = Some sl'"
    unfolding SL_Insert_def find option.case prod.case Let_def h(1)
      prev'_def [symmetric] mh
    by (subst new) (simp only: ok if_True prod.case H'(1) option.case sl'_def)
  have lt: "a < ?n" if "a \<in> set (P @ S)" for a using rep'(5) that by simp
  have gt: "cmp key (node_key (?H ! a)) < 0" if "a \<in> set S" for a
  proof -
    have "valid (node_key (?H ! a))" using rep'(8) that by simp
    then show ?thesis using S [OF that] fresh [OF that] cmp_flip [of "node_key (?H ! a)" key] key by auto
  qed
  have keyP: "node_key (H' ! a) = node_key (?H ! a)" if "a \<in> set P" for a using H'(5) lt that by simp
  have keyS: "node_key (H' ! a) = node_key (?H ! a)" if "a \<in> set S" for a using H'(5) lt that by simp
  have "sorted_wrt (\<lambda>a b. cmp (node_key (H' ! a)) (node_key (H' ! b)) < 0) (P @ ?n # S)"
  proof -
    have s: "sorted_wrt (\<lambda>a b. cmp (node_key (?H ! a)) (node_key (?H ! b)) < 0) (P @ S)" by (rule rep'(10))
    have "sorted_wrt (\<lambda>a b. cmp (node_key (H' ! a)) (node_key (H' ! b)) < 0) (P @ S)"
      using s by (rule sorted_wrt_mono_rel [rotated]) (use H'(5) lt in auto)
    then show ?thesis
      using P gt keyP keyS by (simp add: sorted_wrt_append H'(3))
  qed
  moreover have "distinct (head # P @ ?n # S)" using rep'(4,11) lt by auto
  moreover have "a < length H' \<and> 1 \<le> ht H' a \<and> ht H' a \<le> max h (max_height sl) \<and> valid (node_key (H' ! a))"
    if "a \<in> set (P @ ?n # S)" for a
  proof (cases "a = ?n")
    case True
    then show ?thesis using H'(2-4) h key by simp
  next
    case False
    then have "a \<in> set (P @ S)" using that by simp
    then show ?thesis using H'(2,5,6) lt rep'(6-8) by (simp add: le_max_iff_disj less_SucI)
  qed
  moreover have "H' \<noteq> []" "1 \<le> max h (max_height sl)" "max h (max_height sl) \<le> kMaxHeight"
    using H'(2) h rep'(1,2) by auto
  ultimately have "sl_rep valid cmp sl' (P @ ?n # S)"
    using H'(7) h(4) by (simp add: sl_rep_def sl'_def)
  moreover have "keys_of sl' (P @ ?n # S) = keys_of sl P @ key # keys_of sl S"
    using keyP keyS H'(3) by (simp add: keys_of_def sl'_def)
  ultimately show ?thesis using ins by blast
qed

lemma insert_duplicate_rep:
  assumes rep: "sl_rep valid cmp sl L" and key: "valid key"
    and a: "a \<in> set L" "cmp key (node_key (sl_nodes sl ! a)) = 0"
  shows "SL_Insert cmp sl key = None \<and> Contains cmp sl key = Some True"
proof -
  obtain P S where PS: "L = P @ S" "\<And>a. a \<in> set P \<Longrightarrow> before sl key a" "\<And>a. a \<in> set S \<Longrightarrow> \<not> before sl key a"
    using rep_split [OF rep key] by blast
  note rep1 = rep [unfolded PS(1)]
  have v: "valid (node_key (sl_nodes sl ! b))" if "b \<in> set L" for b using sl_repD(8) [OF rep that] .
  have aS: "a \<in> set S"
    using a PS(1,2) cmp_flip(2) [OF key v [OF a(1)]] by fastforce
  then obtain b S' where b: "S = b # S'" by (cases S) auto
  have "cmp key (node_key (sl_nodes sl ! b)) = 0"
  proof (cases "a = b")
    case False
    then have "cmp (node_key (sl_nodes sl ! b)) (node_key (sl_nodes sl ! a)) < 0"
      using sl_repD(10) [OF rep1] aS b by (auto simp: sorted_wrt_append)
    then have "before sl key b"
      using cmp_less_trans [OF v [of b] v [OF a(1)] key] PS(1) b a(2) cmp_flip(2) [OF key v [OF a(1)]] by auto
    then show ?thesis using PS(3) b by simp
  qed (use a in simp)
  then show ?thesis
    using fge_rep [OF rep1 PS(2,3), of "Some (replicate kMaxHeight None)"] fge_rep [OF rep1 PS(2,3), of None] b
    by (simp add: SL_Insert_def Contains_def)
qed

lemma contains_rep:
  assumes rep: "sl_rep valid cmp sl L" and key: "valid key"
  shows "Contains cmp sl key = Some (\<exists>k \<in> set (keys_of sl L). cmp key k = 0)"
proof (cases "\<exists>a\<in>set L. cmp key (node_key (sl_nodes sl ! a)) = 0")
  case True
  then show ?thesis using insert_duplicate_rep [OF rep key] by (auto simp: keys_of_def)
next
  case False
  obtain P S where PS: "L = P @ S" "\<And>a. a \<in> set P \<Longrightarrow> before sl key a" "\<And>a. a \<in> set S \<Longrightarrow> \<not> before sl key a"
    using rep_split [OF rep key] by blast
  have "Contains cmp sl key = Some (case next_of S of None \<Rightarrow> False | Some a \<Rightarrow> cmp key (node_key (sl_nodes sl ! a)) = 0)"
    using fge_rep [OF rep [unfolded PS(1)] PS(2,3)] by (simp add: Contains_def)
  also have "\<dots> = Some False" using False PS(1) by (cases S) auto
  finally show ?thesis using False by (simp add: keys_of_def)
qed

lemma seek_rep:
  assumes rep: "sl_rep valid cmp sl L" and key: "valid key"
  shows "Iter_Seek cmp sl key = Some (find (\<lambda>a. \<not> before sl key a) L)"
proof -
  obtain P S where PS: "L = P @ S" "\<And>a. a \<in> set P \<Longrightarrow> before sl key a" "\<And>a. a \<in> set S \<Longrightarrow> \<not> before sl key a"
    using rep_split [OF rep key] by blast
  have "find (\<lambda>a. \<not> before sl key a) (P @ S) = next_of S"
    using PS(2,3) by (induction P) (cases S; simp)+
  then show ?thesis
    using fge_rep [OF rep [unfolded PS(1)] PS(2,3)] PS(1) by (simp add: Iter_Seek_def)
qed

lemma first_last_rep:
  assumes rep: "sl_rep valid cmp sl L"
  shows "Iter_SeekToFirst sl = Some (next_of L)" "Iter_SeekToLast sl = Some (next_of (rev L))"
proof -
  have "linked (sl_nodes sl) 0 0 L"
    using sl_repD(9) [OF rep, of 0] tall_0 [OF rep, of L] by (simp add: kMaxHeight_def)
  then show "Iter_SeekToFirst sl = Some (next_of L)"
    by (simp add: Iter_SeekToFirst_def linked_next)
  show "Iter_SeekToLast sl = Some (next_of (rev L))"
    using last_rep [OF rep] sl_repD(4) [OF rep]
    by (cases L rule: rev_cases) (auto simp: Iter_SeekToLast_def)
qed

lemma next_prev_rep:
  assumes rep: "sl_rep valid cmp sl (A @ a # B)"
  shows "Iter_Next sl (Some a) = Some (next_of B)" "Iter_Prev cmp sl (Some a) = Some (next_of (rev A))"
proof -
  let ?H = "sl_nodes sl"
  have "linked ?H 0 0 ((A @ [a]) @ B)"
    using sl_repD(9) [OF rep, of 0] tall_0 [OF rep, of "A @ a # B"] by (simp add: kMaxHeight_def)
  then have "linked ?H 0 a B" using linked_last by fastforce
  then show "Iter_Next sl (Some a) = Some (next_of B)" by (simp add: Iter_Next_def linked_next)
  have v: "valid (node_key (?H ! b))" if "b \<in> set (A @ a # B)" for b using sl_repD(8) [OF rep that] .
  have s: "sorted_wrt (\<lambda>a b. cmp (node_key (?H ! a)) (node_key (?H ! b)) < 0) (A @ a # B)" by (rule sl_repD(10) [OF rep])
  have "FindLessThan cmp sl (node_key (?H ! a)) = Some (last (0 # A))"
  proof (rule flt_rep [OF rep])
    show "before sl (node_key (?H ! a)) b" if "b \<in> set A" for b
      using s that by (auto simp: sorted_wrt_append)
    show "\<not> before sl (node_key (?H ! a)) b" if "b \<in> set (a # B)" for b
    proof (cases "b = a")
      case True
      then show ?thesis using cmp_refl [OF v [of a]] by simp
    next
      case False
      then have "cmp (node_key (?H ! a)) (node_key (?H ! b)) < 0"
        using s that by (auto simp: sorted_wrt_append)
      then show ?thesis using cmp_flip [OF v [of a] v [of b]] that by auto
    qed
  qed
  then show "Iter_Prev cmp sl (Some a) = Some (next_of (rev A))"
    using sl_repD(4) [OF rep] by (cases A rule: rev_cases) (auto simp: Iter_Prev_def)
qed

end

section \<open>Properties\<close>

definition two_keys :: "slice skiplist" where
  "two_keys = the (SL_Insert Bytewise_Compare
     (the (SL_Insert Bytewise_Compare (new_SkipList []) [5])) [9])"

lemma two_keys_rep: "sl_rep (\<lambda>_. True) Bytewise_Compare two_keys [1, 2]"
  by code_simp

lemma two_keys_keys: "keys_of two_keys [1, 2] = [[5], [9]]"
  by code_simp

text \<open>C28. \<^verbatim>\<open>SkipList::Insert\<close> of a key that compares equal to none in the list returns for every
  state of the random generator, and adds the key at its place in the order: the keys
  before the gap compare smaller, and on every level the links again visit exactly the
  nodes that reach the level.\<close>

theorem skiplist_insert:
  assumes "key_order valid cmp" "sl_rep valid cmp sl L" "valid key"
    and "\<And>k. k \<in> set (keys_of sl L) \<Longrightarrow> cmp key k \<noteq> 0"
  shows "\<exists>sl' A B. L = A @ B \<and> SL_Insert cmp sl key = Some sl' \<and>
    sl_rep valid cmp sl' (A @ length (sl_nodes sl) # B) \<and>
    keys_of sl' (A @ length (sl_nodes sl) # B) = keys_of sl A @ key # keys_of sl B"
proof -
  obtain A B where AB: "L = A @ B" "\<And>a. a \<in> set A \<Longrightarrow> cmp (node_key (sl_nodes sl ! a)) key < 0"
    "\<And>a. a \<in> set B \<Longrightarrow> \<not> cmp (node_key (sl_nodes sl ! a)) key < 0"
    using key_order.rep_split [OF assms(1-3)] by blast
  have "cmp key (node_key (sl_nodes sl ! a)) \<noteq> 0" if "a \<in> set B" for a
    using assms(4) that by (simp add: keys_of_def AB(1))
  then show ?thesis
    using key_order.insert_rep [OF assms(1) _ assms(3) AB(2,3)] assms(2) AB(1) by blast
qed

theorem skiplist_insert_witness:
  "\<exists>sl' A B. [1, 2] = A @ B \<and> SL_Insert Bytewise_Compare two_keys [7] = Some sl' \<and>
    sl_rep (\<lambda>_. True) Bytewise_Compare sl' (A @ length (sl_nodes two_keys) # B) \<and>
    keys_of sl' (A @ length (sl_nodes two_keys) # B) = keys_of two_keys A @ [7] # keys_of two_keys B"
proof (rule skiplist_insert [OF bytewise.key_order_axioms two_keys_rep])
  show "Bytewise_Compare [7] k \<noteq> 0" if "k \<in> set (keys_of two_keys [1, 2])" for k
    using that by (auto simp: two_keys_keys [simplified] Bytewise_Compare_def)
qed simp

text \<open>\<^verbatim>\<open>SkipList::Insert\<close> of a key that compares equal to one in the list fails its assertion,
  and \<^verbatim>\<open>Contains\<close> answers whether such a key is present.\<close>

theorem skiplist_duplicate:
  assumes "key_order valid cmp" "sl_rep valid cmp sl L" "valid key"
  shows "Contains cmp sl key = Some (\<exists>k \<in> set (keys_of sl L). cmp key k = 0) \<and>
    ((\<exists>k \<in> set (keys_of sl L). cmp key k = 0) \<longrightarrow> SL_Insert cmp sl key = None)"
  using key_order.contains_rep [OF assms] key_order.insert_duplicate_rep [OF assms]
  by (auto simp: keys_of_def)

theorem skiplist_duplicate_witness:
  "Contains Bytewise_Compare two_keys [9] = Some True \<and> Contains Bytewise_Compare two_keys [8] = Some False \<and>
    SL_Insert Bytewise_Compare two_keys [9] = None"
  using skiplist_duplicate [OF bytewise.key_order_axioms two_keys_rep, of "[9]"]
    skiplist_duplicate [OF bytewise.key_order_axioms two_keys_rep, of "[8]"]
  by (simp add: two_keys_keys [simplified] Bytewise_Compare_def)

text \<open>C29. The iterators visit exactly the nodes of the list in key order in both directions:
  \<^verbatim>\<open>SeekToFirst\<close> and \<^verbatim>\<open>SeekToLast\<close> reach the ends, \<^verbatim>\<open>Next\<close> and \<^verbatim>\<open>Prev\<close> the neighbours of
  every node (and the invalid position past the ends), \<^verbatim>\<open>Seek\<close> the first node whose key
  is not smaller than the target. All of them return.\<close>

theorem skiplist_iteration:
  assumes "key_order valid cmp" "sl_rep valid cmp sl (A @ a # B)" "valid target"
  shows "Iter_SeekToFirst sl = Some (next_of (A @ a # B)) \<and>
    Iter_SeekToLast sl = Some (next_of (rev (A @ a # B))) \<and>
    Iter_Next sl (Some a) = Some (next_of B) \<and> Iter_Prev cmp sl (Some a) = Some (next_of (rev A)) \<and>
    Iter_Seek cmp sl target = Some (find (\<lambda>a. \<not> cmp (node_key (sl_nodes sl ! a)) target < 0) (A @ a # B))"
  using key_order.first_last_rep [OF assms(1,2)] key_order.next_prev_rep [OF assms(1,2)]
    key_order.seek_rep [OF assms]
  by simp

theorem skiplist_iteration_witness:
  "Iter_SeekToFirst two_keys = Some (Some 1) \<and> Iter_SeekToLast two_keys = Some (Some 2) \<and>
    Iter_Next two_keys (Some 1) = Some (Some 2) \<and> Iter_Prev Bytewise_Compare two_keys (Some 1) = Some None"
  using skiplist_iteration [OF bytewise.key_order_axioms, of two_keys "[]" 1 "[2]"] two_keys_rep
  by simp

text \<open>C37. \<^verbatim>\<open>Random::Next\<close> computes the Lehmer step \<open>seed * 16807 mod (2^31 - 1)\<close> although it never
  divides, and the seed stays between 1 and \<open>2^31 - 2\<close>, so the generator never gets stuck;
  the height chosen for a node is between 1 and \<^verbatim>\<open>kMaxHeight\<close>.\<close>

theorem random_lehmer:
  assumes "rnd_ok s"
  shows "unat (Random_Next s) = unat s * 16807 mod (2 ^ 31 - 1) \<and> rnd_ok (Random_Next s) \<and>
    (\<exists>h s'. RandomHeight s = Some (h, s') \<and> 1 \<le> h \<and> h \<le> kMaxHeight \<and> rnd_ok s')"
  using unat_Random_Next [of s] RandomHeight_ok [OF assms] rnd_ok_Next [OF assms] assms
  by (simp add: rnd_ok_def)

theorem random_lehmer_witness:
  "unat (Random_Next (Random 301)) = 301 * 16807 mod (2 ^ 31 - 1)"
  using random_lehmer [OF rnd_ok_Random [of 301]] by (simp add: Random_def)

end
