(* ===== verification/MemTable.thy ===== *)
theory MemTable
  imports SkipListCorrect DbFormat
begin

text \<open>
  The write buffer of \<^verbatim>\<open>leveldb/memtable.cc\<close>: a skip list of encoded entries, each a
  length-prefixed internal key followed by a length-prefixed value. The lemmas relate it
  to the set of writes it holds (\<open>mem_rep\<close>): \<^verbatim>\<open>Add\<close> adds a write, and \<^verbatim>\<open>Get\<close> finds the newest
  write of a user key that the snapshot may see.
\<close>

section \<open>Entries\<close>

text \<open>
  A pointer into the arena is the sequence of bytes that starts there.
  \<^verbatim>\<open>GetLengthPrefixedSlice(data)\<close> looks for the varint in five bytes only; the model also
  returns the bytes after the slice, since the callers go on reading there. Where the
  varint does not parse the code would use a null pointer.
\<close>

definition skip_varint32 :: "slice \<Rightarrow> (32 word \<times> slice) option" where
  "skip_varint32 data =
     (case GetVarint32Ptr (take 5 data) of
        None \<Rightarrow> None
      | Some (len, r) \<Rightarrow> Some (len, drop (length (take 5 data) - length r) data))"

definition prefixed_slice :: "slice \<Rightarrow> (slice \<times> slice) option" where
  "prefixed_slice data =
     (case skip_varint32 data of
        None \<Rightarrow> None
      | Some (len, p) \<Rightarrow>
          if unat len \<le> length p then Some (take (unat len) p, drop (unat len) p) else None)"

definition entry_key :: "slice \<Rightarrow> slice" where
  "entry_key data = (case prefixed_slice data of Some (k, _) \<Rightarrow> k | None \<Rightarrow> [])"

definition entry_value :: "slice \<Rightarrow> slice" where
  "entry_value data =
     (case prefixed_slice data of
        Some (_, rest) \<Rightarrow> (case prefixed_slice rest of Some (v, _) \<Rightarrow> v | None \<Rightarrow> [])
      | None \<Rightarrow> [])"

definition KeyComparator :: "(slice \<Rightarrow> slice \<Rightarrow> int) \<Rightarrow> slice \<Rightarrow> slice \<Rightarrow> int" where
  "KeyComparator user_cmp aptr bptr =
     (let a = entry_key aptr; b = entry_key bptr in InternalKey_Compare user_cmp a b)"

definition EncodeKey :: "slice \<Rightarrow> slice" where
  "EncodeKey target = PutVarint32 [] (of_nat (length target)) @ target"

section \<open>The table\<close>

record memtable =
  refs :: int
  mem_table :: "slice skiplist"
  entry_num :: "64 word"

definition new_MemTable :: memtable where
  "new_MemTable = \<lparr>refs = 0, mem_table = new_SkipList [], entry_num = 0\<rparr>"

definition MemTable_Ref :: "memtable \<Rightarrow> memtable" where
  "MemTable_Ref m = m\<lparr>refs := refs m + 1\<rparr>"

text \<open>The table a last reference lets go is deleted: \<^const>\<open>None\<close>.\<close>

definition MemTable_Unref :: "memtable \<Rightarrow> memtable option result" where
  "MemTable_Unref m =
     (let m' = m\<lparr>refs := refs m - 1\<rparr> in
      if \<not> refs m' \<ge> 0 then Inl AssertFailed
      else if refs m' \<le> 0 then Inr None else Inr (Some m'))"

definition encode_entry :: "64 word \<Rightarrow> ValueType \<Rightarrow> slice \<Rightarrow> slice \<Rightarrow> slice option" where
  "encode_entry s t key val =
     (let key_size = length key; val_size = length val; internal_key_size = key_size + 8;
          encoded_len = VarintLength (of_nat internal_key_size) + internal_key_size +
                        VarintLength (of_nat val_size) + val_size;
          buf = EncodeVarint32 (of_nat internal_key_size) @ key @
                EncodeFixed64 (push_bit 8 s OR of_nat (type_code t)) @
                EncodeVarint32 (of_nat val_size) @ val in
      if length buf = encoded_len then Some buf else None)"

definition MemTable_Add ::
  "(slice \<Rightarrow> slice \<Rightarrow> int) \<Rightarrow> memtable \<Rightarrow> 64 word \<Rightarrow> ValueType \<Rightarrow> slice \<Rightarrow> slice \<Rightarrow> memtable option" where
  "MemTable_Add user_cmp m s t key val =
     (case encode_entry s t key val of
        None \<Rightarrow> None
      | Some buf \<Rightarrow>
         (case SL_Insert (KeyComparator user_cmp) (mem_table m) buf of
            None \<Rightarrow> None
          | Some tab \<Rightarrow> Some (m\<lparr>mem_table := tab, entry_num := entry_num m + 1\<rparr>)))"

datatype get_result = Found slice | Deleted | Missing

definition MemTable_Get :: "(slice \<Rightarrow> slice \<Rightarrow> int) \<Rightarrow> memtable \<Rightarrow> LookupKey \<Rightarrow> get_result option" where
  "MemTable_Get user_cmp m lkey =
     (case Iter_Seek (KeyComparator user_cmp) (mem_table m) (memtable_key lkey) of
        None \<Rightarrow> None
      | Some it \<Rightarrow>
          if Iter_Valid it then
            let entry = the (Iter_key (mem_table m) it) in
            (case skip_varint32 entry of
               None \<Rightarrow> None
             | Some (key_length, key_ptr) \<Rightarrow>
                 if user_cmp (take (unat (key_length - 8)) key_ptr) (lookup_user_key lkey) = 0 then
                   let tag = DecodeFixed64 (drop (unat (key_length - 8)) key_ptr) in
                   if tag AND 0xff = of_nat (type_code kTypeValue) then
                     map_option (\<lambda>(v, _). Found v) (prefixed_slice (drop (unat key_length) key_ptr))
                   else if tag AND 0xff = of_nat (type_code kTypeDeletion) then Some Deleted
                   else Some Missing
                 else Some Missing)
          else Some Missing)"

section \<open>Iteration\<close>

definition MemIter_Seek :: "(slice \<Rightarrow> slice \<Rightarrow> int) \<Rightarrow> memtable \<Rightarrow> slice \<Rightarrow> nat option option" where
  "MemIter_Seek user_cmp m k = Iter_Seek (KeyComparator user_cmp) (mem_table m) (EncodeKey k)"

definition MemIter_key :: "memtable \<Rightarrow> nat option \<Rightarrow> slice option" where
  "MemIter_key m it = map_option entry_key (Iter_key (mem_table m) it)"

definition MemIter_value :: "memtable \<Rightarrow> nat option \<Rightarrow> slice option" where
  "MemIter_value m it = map_option entry_value (Iter_key (mem_table m) it)"

section \<open>Encoded entries\<close>

lemma length_EncodeVarint32: "length (EncodeVarint32 v) \<le> 5"
  by (simp add: EncodeVarint32_def)

lemma skip_varint32_Encode: "skip_varint32 (EncodeVarint32 v @ rest) = Some (v, rest)"
proof -
  let ?n = "length (EncodeVarint32 v)"
  have t: "take 5 (EncodeVarint32 v @ rest) = EncodeVarint32 v @ take (5 - ?n) rest"
    using length_EncodeVarint32 [of v] by simp
  have "GetVarint32Ptr (EncodeVarint32 v @ take (5 - ?n) rest) = Some (v, take (5 - ?n) rest)"
    using GetVarint32_PutVarint32 by (simp add: GetVarint32_def)
  then show ?thesis unfolding skip_varint32_def t by simp
qed

lemma prefixed_slice_Encode:
  "length k < 2 ^ 32 \<Longrightarrow> prefixed_slice (EncodeVarint32 (of_nat (length k)) @ k @ rest) = Some (k, rest)"
  by (simp add: prefixed_slice_def skip_varint32_Encode unat_of_nat_32)

lemma length_EncodeVarint32_eq:
  assumes "n < 2 ^ 32"
  shows "length (EncodeVarint32 (of_nat n)) = VarintLength (of_nat n)"
proof -
  have "(ucast (of_nat n :: 32 word) :: 64 word) = of_nat n"
    using assms by (simp add: word_unat_eq_iff unat_ucast_64 unat_of_nat_32 unat_of_nat)
  then show ?thesis by (simp add: EncodeVarint32_eq VarintLength_eq)
qed

type_synonym mem_write = "ParsedInternalKey \<times> slice"

definition write_tag :: "mem_write \<Rightarrow> 64 word" where
  "write_tag w = push_bit 8 (sequence_no (fst w)) OR of_nat (type_code (val_type (fst w)))"

definition write_ikey :: "mem_write \<Rightarrow> slice" where
  "write_ikey w = PutFixed64 (user_key (fst w)) (write_tag w)"

definition write_bytes_of :: "mem_write \<Rightarrow> slice" where
  "write_bytes_of w = EncodeVarint32 (of_nat (length (write_ikey w))) @ write_ikey w @
     EncodeVarint32 (of_nat (length (snd w))) @ snd w"

definition write_ok :: "mem_write \<Rightarrow> bool" where
  "write_ok w \<longleftrightarrow> sequence_no (fst w) \<le> kMaxSequenceNumber \<and>
     length (user_key (fst w)) + 8 < 2 ^ 32 \<and> length (snd w) < 2 ^ 32"

lemma length_write_ikey [simp]: "length (write_ikey w) = length (user_key (fst w)) + 8"
  by (simp add: write_ikey_def)

lemma write_ikey_parts [simp]:
  "pure_key (write_ikey w) = user_key (fst w)" "key_tag (write_ikey w) = write_tag w"
  by (simp_all add: write_ikey_def)

lemma encode_entry_ok:
  assumes "write_ok w"
  shows "encode_entry (sequence_no (fst w)) (val_type (fst w)) (user_key (fst w)) (snd w) = Some (write_bytes_of w)"
proof -
  let ?n = "length (user_key (fst w)) + 8"
  have "length (EncodeVarint32 (of_nat ?n)) = VarintLength (of_nat ?n)"
    "length (EncodeVarint32 (of_nat (length (snd w)))) = VarintLength (of_nat (length (snd w)))"
    by (rule length_EncodeVarint32_eq, use assms in \<open>simp add: write_ok_def\<close>)+
  then show ?thesis
    by (simp add: encode_entry_def write_bytes_of_def write_ikey_def write_tag_def PutFixed64_def Let_def)
qed

lemma prefixed_write_bytes:
  assumes "write_ok w"
  shows "prefixed_slice (write_bytes_of w) =
    Some (write_ikey w, EncodeVarint32 (of_nat (length (snd w))) @ snd w)"
  using assms prefixed_slice_Encode [of "write_ikey w"] by (simp add: write_bytes_of_def write_ok_def)

lemma entry_parts [simp]:
  assumes "write_ok w"
  shows "entry_key (write_bytes_of w) = write_ikey w" "entry_value (write_bytes_of w) = snd w"
  using assms prefixed_slice_Encode [of "snd w" "[]"]
  by (simp_all add: entry_key_def entry_value_def prefixed_write_bytes write_ok_def)

lemma unat_tag:
  assumes "s \<le> kMaxSequenceNumber"
  shows "unat (push_bit 8 s OR of_nat (type_code t) :: 64 word) = unat s * 256 + type_code t"
proof -
  let ?tag = "push_bit 8 s OR of_nat (type_code t) :: 64 word"
  have p: "drop_bit 8 ?tag = s" "?tag AND 255 = of_nat (type_code t)"
    using PackSequenceAndType_ok [OF assms, of t] assms
    by (auto simp: PackSequenceAndType_def split: if_splits)
  have "unat (drop_bit 8 ?tag) = unat ?tag div 256"
    unfolding unat_drop_bit_eq by (simp add: drop_bit_eq_div)
  moreover have "unat (?tag AND 255) = unat ?tag mod 256"
    unfolding and_255 unsigned_take_bit_eq by (simp add: take_bit_eq_mod)
  moreover have "unat (of_nat (type_code t) :: 64 word) = type_code t"
    by (cases t) simp_all
  ultimately have "unat ?tag div 256 = unat s" "unat ?tag mod 256 = type_code t"
    using p by simp_all
  then show ?thesis using div_mult_mod_eq [of "unat ?tag" 256] by simp
qed

lemma unat_write_tag:
  "write_ok w \<Longrightarrow> unat (write_tag w) = unat (sequence_no (fst w)) * 256 + type_code (val_type (fst w))"
  unfolding write_tag_def by (rule unat_tag) (simp add: write_ok_def)

section \<open>The table as a set of writes\<close>

abbreviation mcmp :: "slice \<Rightarrow> slice \<Rightarrow> int" where
  "mcmp \<equiv> KeyComparator Bytewise_Compare"

abbreviation mvalid :: "slice \<Rightarrow> bool" where
  "mvalid b \<equiv> 8 \<le> length (entry_key b)"

interpretation entries: key_order mvalid mcmp
proof unfold_locales
  fix a b
  assume "mvalid a" "mvalid b"
  then show "sgn (mcmp a b) = - sgn (mcmp b a)"
    unfolding KeyComparator_def Let_def by (rule internal.cmp_antisym)
next
  fix a b c
  assume "mvalid a" "mvalid b" "mvalid c" "mcmp a b \<le> 0" "mcmp b c \<le> 0"
  then show "mcmp a c \<le> 0"
    unfolding KeyComparator_def Let_def by (rule internal.cmp_trans)
qed

definition mem_rep :: "memtable \<Rightarrow> mem_write set \<Rightarrow> bool" where
  "mem_rep m W \<longleftrightarrow> (\<exists>L. sl_rep mvalid mcmp (mem_table m) L \<and>
     set (keys_of (mem_table m) L) = write_bytes_of ` W) \<and> (\<forall>w\<in>W. write_ok w) \<and>
     inj_on (\<lambda>w. (user_key (fst w), sequence_no (fst w))) W"

lemma mem_rep_new: "mem_rep new_MemTable {}"
  unfolding mem_rep_def new_MemTable_def
  by (auto intro!: exI [of _ "[]"] simp: sl_rep_new keys_of_def)

lemma mcmp_writes:
  assumes "write_ok v" "write_ok w"
  shows "mcmp (write_bytes_of v) (write_bytes_of w) = 0 \<longleftrightarrow>
      user_key (fst v) = user_key (fst w) \<and> write_tag v = write_tag w"
    "mcmp (write_bytes_of v) (write_bytes_of w) < 0 \<longleftrightarrow>
      user_key (fst v) < user_key (fst w) \<or> user_key (fst v) = user_key (fst w) \<and> write_tag w < write_tag v"
  using assms by (auto simp: KeyComparator_def InternalKey_Compare_eq InternalKey_Compare_less Bytewise_Compare_def)

lemma node_write:
  assumes "set (keys_of sl L) = write_bytes_of ` W" "a \<in> set L"
  shows "\<exists>v\<in>W. node_key (sl_nodes sl ! a) = write_bytes_of v"
proof -
  have "node_key (sl_nodes sl ! a) \<in> set (keys_of sl L)" using assms(2) by (simp add: keys_of_def)
  then show ?thesis using assms(1) by auto
qed

lemma mem_add:
  assumes rep: "mem_rep m W" and w: "write_ok w"
    and fresh: "\<And>v. v \<in> W \<Longrightarrow> user_key (fst v) = user_key (fst w) \<Longrightarrow> sequence_no (fst v) \<noteq> sequence_no (fst w)"
  shows "\<exists>m'. MemTable_Add Bytewise_Compare m (sequence_no (fst w)) (val_type (fst w)) (user_key (fst w)) (snd w) = Some m' \<and>
    mem_rep m' (insert w W) \<and> entry_num m' = entry_num m + 1"
proof -
  obtain L where L: "sl_rep mvalid mcmp (mem_table m) L" "set (keys_of (mem_table m) L) = write_bytes_of ` W"
    and W: "\<And>v. v \<in> W \<Longrightarrow> write_ok v" and inj: "inj_on (\<lambda>w. (user_key (fst w), sequence_no (fst w))) W"
    using rep by (auto simp: mem_rep_def)
  have inj': "inj_on (\<lambda>w. (user_key (fst w), sequence_no (fst w))) (insert w W)"
    using inj fresh unfolding inj_on_def by (metis insertE prod.inject)
  have "mcmp (write_bytes_of w) (write_bytes_of v) \<noteq> 0" if "v \<in> W" for v
  proof
    assume "mcmp (write_bytes_of w) (write_bytes_of v) = 0"
    then have "user_key (fst v) = user_key (fst w)" "write_tag v = write_tag w"
      using mcmp_writes(1) [OF w W [OF that]] by simp_all
    moreover have "sequence_no (fst v) = sequence_no (fst w)"
    proof -
      have "unat (sequence_no (fst v)) * 256 + type_code (val_type (fst v)) =
          unat (sequence_no (fst w)) * 256 + type_code (val_type (fst w))"
        using \<open>write_tag v = write_tag w\<close> unat_write_tag [OF w] unat_write_tag [OF W [OF that]] by simp
      moreover have "type_code (val_type (fst v)) < 256" "type_code (val_type (fst w)) < 256"
        by (cases "val_type (fst v)"; simp) (cases "val_type (fst w)"; simp)
      ultimately have "unat (sequence_no (fst v)) = unat (sequence_no (fst w))" by linarith
      then show ?thesis by (simp add: word_unat_eq_iff)
    qed
    ultimately show False using fresh that by blast
  qed
  then have no: "\<And>a. a \<in> set L \<Longrightarrow> mcmp (write_bytes_of w) (node_key (sl_nodes (mem_table m) ! a)) \<noteq> 0"
    using node_write [OF L(2)] by metis
  have v: "mvalid (write_bytes_of w)" using w by simp
  obtain A B where AB: "L = A @ B" "\<And>a. a \<in> set A \<Longrightarrow> mcmp (node_key (sl_nodes (mem_table m) ! a)) (write_bytes_of w) < 0"
    "\<And>a. a \<in> set B \<Longrightarrow> \<not> mcmp (node_key (sl_nodes (mem_table m) ! a)) (write_bytes_of w) < 0"
    using entries.rep_split [OF L(1) v] by blast
  obtain tab where tab: "SL_Insert mcmp (mem_table m) (write_bytes_of w) = Some tab"
    "sl_rep mvalid mcmp tab (A @ length (sl_nodes (mem_table m)) # B)"
    "keys_of tab (A @ length (sl_nodes (mem_table m)) # B) =
      keys_of (mem_table m) A @ write_bytes_of w # keys_of (mem_table m) B"
    using entries.insert_rep [OF L(1) [unfolded AB(1)] v AB(2,3)] no AB(1) by auto
  have "set (keys_of tab (A @ length (sl_nodes (mem_table m)) # B)) = write_bytes_of ` insert w W"
    unfolding tab(3) using L(2) by (auto simp: AB(1) keys_of_def)
  then have "mem_rep (m\<lparr>mem_table := tab, entry_num := entry_num m + 1\<rparr>) (insert w W)"
    unfolding mem_rep_def using tab(2) w W inj'
    by (intro conjI exI [of _ "A @ length (sl_nodes (mem_table m)) # B"]) simp_all
  then show ?thesis
    using tab(1) encode_entry_ok [OF w] by (simp add: MemTable_Add_def)
qed

definition visible :: "mem_write set \<Rightarrow> slice \<Rightarrow> 64 word \<Rightarrow> mem_write set" where
  "visible W k s = {w \<in> W. user_key (fst w) = k \<and> sequence_no (fst w) \<le> s}"

definition write_result :: "mem_write \<Rightarrow> get_result" where
  "write_result w = (if val_type (fst w) = kTypeValue then Found (snd w) else Deleted)"

lemma tag_le_seq:
  assumes "write_ok w" "s \<le> kMaxSequenceNumber" "PackSequenceAndType s kTypeValue = Inr tag"
  shows "write_tag w \<le> tag \<longleftrightarrow> sequence_no (fst w) \<le> s"
proof -
  have "unat tag = unat s * 256 + 1"
    using assms(3) unat_tag [OF assms(2), of kTypeValue]
    by (auto simp: PackSequenceAndType_def split: if_splits)
  moreover have "type_code (val_type (fst w)) \<le> 1" by (cases "val_type (fst w)") simp_all
  ultimately have "unat (write_tag w) \<le> unat tag \<longleftrightarrow> unat (sequence_no (fst w)) \<le> unat s"
    unfolding unat_write_tag [OF assms(1)] by linarith
  then show ?thesis by (simp add: word_le_nat_alt)
qed

lemma get_entry:
  assumes w: "write_ok w" and it: "Iter_Seek mcmp (mem_table m) (memtable_key lk) = Some (Some a)"
    and a: "node_key (sl_nodes (mem_table m) ! a) = write_bytes_of w"
  shows "MemTable_Get Bytewise_Compare m lk =
    Some (if user_key (fst w) = lookup_user_key lk then write_result w else Missing)"
proof -
  let ?n = "length (user_key (fst w)) + 8"
  have n: "unat (of_nat ?n :: 32 word) = ?n" "unat (of_nat ?n - 8 :: 32 word) = length (user_key (fst w))"
  proof -
    show n1: "unat (of_nat ?n :: 32 word) = ?n"
      unfolding unat_of_nat_32 using w by (intro u32_id) (simp add: write_ok_def)
    then have "8 \<le> (of_nat ?n :: 32 word)" by (simp add: word_le_nat_alt)
    then show "unat (of_nat ?n - 8 :: 32 word) = length (user_key (fst w))"
      using n1 by (subst unat_sub) simp_all
  qed
  have skip: "skip_varint32 (write_bytes_of w) = Some (of_nat ?n, write_ikey w @ EncodeVarint32 (of_nat (length (snd w))) @ snd w)"
    unfolding write_bytes_of_def length_write_ikey by (rule skip_varint32_Encode)
  have val: "prefixed_slice (EncodeVarint32 (of_nat (length (snd w))) @ snd w) = Some (snd w, [])"
    using prefixed_slice_Encode [of "snd w" "[]"] w by (simp add: write_ok_def)
  have ikey: "write_ikey w = user_key (fst w) @ EncodeFixed64 (write_tag w)"
    by (simp add: write_ikey_def PutFixed64_def)
  have tag: "DecodeFixed64 (EncodeFixed64 (write_tag w) @ r) = write_tag w" for r
    using Decode_EncodeFixed64 [of "write_tag w"] by (simp add: DecodeFixed64_def nth_append)
  have ty: "write_tag w AND 255 = of_nat (type_code (val_type (fst w)))"
    using PackSequenceAndType_ok [of "sequence_no (fst w)" "val_type (fst w)"] w
    by (auto simp: write_ok_def write_tag_def PackSequenceAndType_def split: if_splits)
  define N where "N = (of_nat ?n :: 32 word)"
  note facts = n [folded N_def] skip [folded N_def]
  show ?thesis
    unfolding MemTable_Get_def it option.case Iter_Valid_def Iter_key_def
    using facts val a ty
    by (cases "val_type (fst w)")
      (simp_all add: Let_def ikey tag Bytewise_Compare_def write_result_def del: of_nat_add)
qed

lemma tag_le_imp_seq_le:
  assumes "write_ok v" "write_ok w" "write_tag v \<le> write_tag w"
  shows "sequence_no (fst v) \<le> sequence_no (fst w)"
proof -
  have "unat (write_tag v) \<le> unat (write_tag w)" using assms(3) by (simp add: word_le_nat_alt)
  moreover have "type_code (val_type (fst w)) \<le> 1" by (cases "val_type (fst w)") simp_all
  ultimately have "unat (sequence_no (fst v)) \<le> unat (sequence_no (fst w))"
    unfolding unat_write_tag [OF assms(1)] unat_write_tag [OF assms(2)] by linarith
  then show ?thesis by (simp add: word_le_nat_alt)
qed

lemma find_split:
  assumes "find p L = Some a"
  obtains A B where "L = A @ a # B" "\<And>b. b \<in> set A \<Longrightarrow> \<not> p b" "p a"
proof -
  obtain i where i: "i < length L" "p (L ! i)" "a = L ! i" "\<And>j. j < i \<Longrightarrow> \<not> p (L ! j)"
    using assms by (auto simp: find_Some_iff)
  show ?thesis
  proof
    show "L = take i L @ a # drop (Suc i) L" using i(1,3) by (simp add: id_take_nth_drop)
    show "\<not> p b" if "b \<in> set (take i L)" for b
      using that i(1,4) by (auto simp: in_set_conv_nth)
    show "p a" using i(2,3) by simp
  qed
qed

lemma lookup_before:
  assumes lk: "mk_LookupKey k s = Inr lk" and s: "s \<le> kMaxSequenceNumber" "length k + 8 < 2 ^ 32"
  shows "lookup_user_key lk = k" "mvalid (memtable_key lk)"
    "write_ok w \<Longrightarrow> mcmp (write_bytes_of w) (memtable_key lk) < 0 \<longleftrightarrow>
      user_key (fst w) < k \<or> user_key (fst w) = k \<and> \<not> sequence_no (fst w) \<le> s"
proof -
  obtain tag where tag: "PackSequenceAndType s kTypeValue = Inr tag"
    using PackSequenceAndType_ok [OF s(1), of kTypeValue] by blast
  have mk: "memtable_key lk = EncodeVarint32 (of_nat (length (PutFixed64 k tag))) @ PutFixed64 k tag @ []"
    using lk tag by (simp add: mk_LookupKey_def kValueTypeForSeek_def memtable_key_def PutFixed64_def Let_def) auto
  have ek: "entry_key (memtable_key lk) = PutFixed64 k tag"
    unfolding mk entry_key_def using s(2) by (subst prefixed_slice_Encode) simp_all
  show "lookup_user_key lk = k" using LookupKey_parts [OF s] lk by auto
  show "mvalid (memtable_key lk)" using ek by simp
  assume "write_ok w"
  then show "mcmp (write_bytes_of w) (memtable_key lk) < 0 \<longleftrightarrow>
      user_key (fst w) < k \<or> user_key (fst w) = k \<and> \<not> sequence_no (fst w) \<le> s"
    using tag_le_seq [OF _ s(1) tag, of w]
    by (auto simp: KeyComparator_def ek InternalKey_Compare_less Bytewise_Compare_def)
qed

definition newest :: "mem_write set \<Rightarrow> slice \<Rightarrow> 64 word \<Rightarrow> get_result \<Rightarrow> bool" where
  "newest W k s r \<longleftrightarrow>
     visible W k s = {} \<and> r = Missing \<or>
     (\<exists>w\<in>visible W k s. (\<forall>v\<in>visible W k s. sequence_no (fst v) \<le> sequence_no (fst w)) \<and> r = write_result w)"

lemma newest_unique:
  assumes "mem_rep m W" "newest W k s r" "newest W k s r'"
  shows "r = r'"
proof (cases "visible W k s = {}")
  case True
  then show ?thesis using assms(2,3) by (auto simp: newest_def)
next
  case False
  obtain w where w: "w \<in> visible W k s" "\<forall>v\<in>visible W k s. sequence_no (fst v) \<le> sequence_no (fst w)" "r = write_result w"
    using assms(2) False unfolding newest_def by blast
  obtain w' where w': "w' \<in> visible W k s" "\<forall>v\<in>visible W k s. sequence_no (fst v) \<le> sequence_no (fst w')" "r' = write_result w'"
    using assms(3) False unfolding newest_def by blast
  have "sequence_no (fst w) = sequence_no (fst w')" using w w' by (meson order.antisym)
  moreover have "user_key (fst w) = user_key (fst w')" "w \<in> W" "w' \<in> W"
    using w(1) w'(1) by (simp_all add: visible_def)
  ultimately have "w = w'" using assms(1) unfolding mem_rep_def inj_on_def by blast
  then show ?thesis using w(3) w'(3) by simp
qed

lemma mem_get:
  assumes rep: "mem_rep m W" and s: "s \<le> kMaxSequenceNumber" "length k + 8 < 2 ^ 32"
    and lk: "mk_LookupKey k s = Inr lk"
  shows "\<exists>r. MemTable_Get Bytewise_Compare m lk = Some r \<and>
    newest W k s r"
proof -
  obtain L where L: "sl_rep mvalid mcmp (mem_table m) L" "set (keys_of (mem_table m) L) = write_bytes_of ` W"
    and W: "\<And>v. v \<in> W \<Longrightarrow> write_ok v"
    using rep by (auto simp: mem_rep_def)
  let ?key = "\<lambda>a. node_key (sl_nodes (mem_table m) ! a)"
  note lb = lookup_before [OF lk s]
  have seek: "Iter_Seek mcmp (mem_table m) (memtable_key lk) = Some (find (\<lambda>a. \<not> mcmp (?key a) (memtable_key lk) < 0) L)"
    by (rule entries.seek_rep [OF L(1) lb(2)])
  have vis: "\<exists>b\<in>set L. ?key b = write_bytes_of v \<and> \<not> mcmp (?key b) (memtable_key lk) < 0" if "v \<in> visible W k s" for v
  proof -
    have v: "v \<in> W" "user_key (fst v) = k" "sequence_no (fst v) \<le> s" using that by (auto simp: visible_def)
    then have "write_bytes_of v \<in> set (keys_of (mem_table m) L)" using L(2) by simp
    then obtain b where "b \<in> set L" "?key b = write_bytes_of v" by (auto simp: keys_of_def)
    then show ?thesis using lb(3) [OF W [OF v(1)]] v by auto
  qed
  show ?thesis
  proof (cases "find (\<lambda>a. \<not> mcmp (?key a) (memtable_key lk) < 0) L")
    case None
    then have "visible W k s = {}" using vis by (force simp: find_None_iff)
    moreover have "MemTable_Get Bytewise_Compare m lk = Some Missing"
      using seek None by (simp add: MemTable_Get_def Iter_Valid_def)
    ultimately show ?thesis unfolding newest_def by blast
  next
    case (Some a)
    then obtain A B where AB: "L = A @ a # B" "\<And>b. b \<in> set A \<Longrightarrow> mcmp (?key b) (memtable_key lk) < 0"
      "\<not> mcmp (?key a) (memtable_key lk) < 0"
      by (rule find_split) auto
    have aL: "a \<in> set L" using AB(1) by simp
    obtain w where w: "w \<in> W" "?key a = write_bytes_of w" using node_write [OF L(2) aL] by auto
    have get: "MemTable_Get Bytewise_Compare m lk = Some (if user_key (fst w) = k then write_result w else Missing)"
      using get_entry [OF W [OF w(1)] seek [unfolded Some] w(2)] lb(1) by simp
    have wn: "\<not> user_key (fst w) < k" "user_key (fst w) = k \<Longrightarrow> sequence_no (fst w) \<le> s"
      using AB(3) w lb(3) [OF W [OF w(1)]] by auto
    have newest: "user_key (fst w) = k \<and> sequence_no (fst v) \<le> sequence_no (fst w)" if v: "v \<in> visible W k s" for v
    proof -
      have vW: "write_ok v" "user_key (fst v) = k" using v W by (auto simp: visible_def)
      obtain b where b: "b \<in> set L" "?key b = write_bytes_of v" "\<not> mcmp (?key b) (memtable_key lk) < 0"
        using vis [OF v] by auto
      then have "b \<notin> set A" using AB(2) by blast
      then consider "b = a" | "b \<in> set B" using AB(1) b(1) by auto
      then have "user_key (fst w) = k \<and> write_tag v \<le> write_tag w"
      proof cases
        case 1
        then have "mcmp (write_bytes_of v) (write_bytes_of w) = 0"
          using b(2) w(2) entries.cmp_refl [of "write_bytes_of v"] vW(1) by simp
        then show ?thesis using mcmp_writes(1) [OF vW(1) W [OF w(1)]] vW(2) by simp
      next
        case 2
        then have "mcmp (write_bytes_of w) (write_bytes_of v) < 0"
          using sl_repD(10) [OF L(1)] w(2) b(2) unfolding AB(1) by (auto simp: sorted_wrt_append)
        then show ?thesis using mcmp_writes(2) [OF W [OF w(1)] vW(1)] vW(2) wn(1) by auto
      qed
      then show ?thesis using tag_le_imp_seq_le [OF vW(1) W [OF w(1)]] by simp
    qed
    show ?thesis
    proof (cases "user_key (fst w) = k")
      case True
      then have "w \<in> visible W k s" using w(1) wn(2) by (simp add: visible_def)
      moreover have "\<forall>v\<in>visible W k s. sequence_no (fst v) \<le> sequence_no (fst w)"
        using newest by blast
      ultimately show ?thesis unfolding newest_def using get True by auto
    next
      case False
      then have "visible W k s = {}" using newest by blast
      then show ?thesis unfolding newest_def using get False by simp
    qed
  qed
qed

section \<open>Properties\<close>

text \<open>C24. \<^verbatim>\<open>MemTable::Get\<close> with the lookup key of a user key and a snapshot returns the newest
  write of that user key whose sequence number is not above the snapshot: its value, or
  the deletion mark; without such a write it reports that the key is not in this table.\<close>

theorem memtable_get_newest:
  assumes "mem_rep m W" "s \<le> kMaxSequenceNumber" "length k + 8 < 2 ^ 32" "mk_LookupKey k s = Inr lk"
  shows "\<exists>r. MemTable_Get Bytewise_Compare m lk = Some r \<and>
    (visible W k s = {} \<and> r = Missing \<or>
     (\<exists>w\<in>visible W k s. (\<forall>v\<in>visible W k s. sequence_no (fst v) \<le> sequence_no (fst w)) \<and> r = write_result w))"
  using mem_get [OF assms] unfolding newest_def .

theorem memtable_get_newest_witness:
  "\<exists>m lk. MemTable_Add Bytewise_Compare new_MemTable 3 kTypeValue [107] [7, 8] = Some m \<and>
    mk_LookupKey [107] 5 = Inr lk \<and> MemTable_Get Bytewise_Compare m lk = Some (Found [7, 8])"
proof -
  let ?w = "(\<lparr>user_key = [107], sequence_no = 3, val_type = kTypeValue\<rparr>, [7, 8])"
  have ok: "write_ok ?w" "(5 :: 64 word) \<le> kMaxSequenceNumber" by (simp_all add: write_ok_def kMaxSequenceNumber_def)
  obtain m where m: "MemTable_Add Bytewise_Compare new_MemTable 3 kTypeValue [107] [7, 8] = Some m" "mem_rep m {?w}"
    using mem_add [OF mem_rep_new ok(1)] by auto
  obtain lk where lk: "mk_LookupKey [107] 5 = Inr lk" using LookupKey_parts [OF ok(2), of "[107]"] by auto
  have "visible {?w} [107] 5 = {?w}" by (auto simp: visible_def)
  then show ?thesis
    using memtable_get_newest [OF m(2) ok(2) _ lk] m(1) lk by (simp add: write_result_def)
qed

end
