(* ===== verification/Status.thy ===== *)
theory Status
  imports Prelude
begin

text \<open>
  The results operations report (\<^verbatim>\<open>leveldb/include/status.h\<close>, \<^verbatim>\<open>leveldb/util/status.cc\<close>): success, or a code with a message. The
  packed \<^verbatim>\<open>state_\<close> array (length, code, message) is the value of the datatype.
\<close>

datatype Status = StatusOK | NotFound string | Corruption string | NotSupported string | InvalidArgument string | IOError string

definition Status_ok :: "Status \<Rightarrow> bool" where
  "Status_ok s \<longleftrightarrow> s = StatusOK"

text \<open>The message the constructor stores for the two parts it is given.\<close>

definition Status_message :: "string \<Rightarrow> string \<Rightarrow> string" where
  "Status_message msg msg2 = msg @ (if msg2 \<noteq> [] then '': '' @ msg2 else [])"

fun Status_ToString :: "Status \<Rightarrow> string" where
  "Status_ToString StatusOK = ''OK''"
| "Status_ToString (NotFound m) = ''NotFound: '' @ m"
| "Status_ToString (Corruption m) = ''Corruption: '' @ m"
| "Status_ToString (NotSupported m) = ''Not implemented: '' @ m"
| "Status_ToString (InvalidArgument m) = ''Invalid argument: '' @ m"
| "Status_ToString (IOError m) = ''IO error: '' @ m"

text \<open>The text tells every status from every other.\<close>

lemma Status_ToString_inj: "Status_ToString s = Status_ToString t \<longleftrightarrow> s = t"
  by (cases s; cases t) auto

end
