(* ===== verification/WriteBatch.thy ===== *)
theory WriteBatch
  imports MemTable Status
begin

text \<open>
  Atomic groups of updates, \<^verbatim>\<open>leveldb/write_batch.cc\<close>: a byte string of a 12-byte header
  (sequence number and count) and the encoded operations. A batch represents a list of
  operations (\<open>batch_rep\<close>); every builder extends that list, \<^verbatim>\<open>Iterate\<close> replays it to a handler,
  and inserting a batch into a memtable makes its operations the newest writes of the table.
\<close>

section \<open>Batches\<close>

record write_batch =
  wb_rep :: slice
  has_hot :: bool

definition kHeader :: nat where
  "kHeader = 12"

definition overwrite :: "slice \<Rightarrow> nat \<Rightarrow> slice \<Rightarrow> slice" where
  "overwrite rep off bs = take off rep @ bs @ drop (off + length bs) rep"

definition Clear :: "write_batch \<Rightarrow> write_batch" where
  "Clear b = b\<lparr>wb_rep := replicate kHeader 0\<rparr>"

definition SetHasHotspot :: "write_batch \<Rightarrow> write_batch" where
  "SetHasHotspot b = b\<lparr>has_hot := True\<rparr>"

definition UnsetHasHotspot :: "write_batch \<Rightarrow> write_batch" where
  "UnsetHasHotspot b = b\<lparr>has_hot := False\<rparr>"

definition ApproximateSize :: "write_batch \<Rightarrow> nat" where
  "ApproximateSize b = length (wb_rep b)"

definition Count :: "write_batch \<Rightarrow> 32 word" where
  "Count b = DecodeFixed32 (drop 8 (wb_rep b))"

definition SetCount :: "write_batch \<Rightarrow> 32 word \<Rightarrow> write_batch" where
  "SetCount b n = b\<lparr>wb_rep := overwrite (wb_rep b) 8 (EncodeFixed32 n)\<rparr>"

definition Sequence :: "write_batch \<Rightarrow> 64 word" where
  "Sequence b = DecodeFixed64 (wb_rep b)"

definition SetSequence :: "write_batch \<Rightarrow> 64 word \<Rightarrow> write_batch" where
  "SetSequence b seq = b\<lparr>wb_rep := overwrite (wb_rep b) 0 (EncodeFixed64 seq)\<rparr>"

definition Batch_Put :: "write_batch \<Rightarrow> slice \<Rightarrow> slice \<Rightarrow> write_batch" where
  "Batch_Put b key val =
     (let b1 = SetCount b (Count b + 1);
          b2 = b1\<lparr>wb_rep := wb_rep b1 @ [of_nat (type_code kTypeValue)]\<rparr>;
          b3 = b2\<lparr>wb_rep := PutLengthPrefixedSlice (wb_rep b2) key\<rparr> in
      b3\<lparr>wb_rep := PutLengthPrefixedSlice (wb_rep b3) val\<rparr>)"

definition Batch_Delete :: "write_batch \<Rightarrow> slice \<Rightarrow> write_batch" where
  "Batch_Delete b key =
     (let b1 = SetCount b (Count b + 1);
          b2 = b1\<lparr>wb_rep := wb_rep b1 @ [of_nat (type_code kTypeDeletion)]\<rparr> in
      b2\<lparr>wb_rep := PutLengthPrefixedSlice (wb_rep b2) key\<rparr>)"

definition Batch_Append :: "write_batch \<Rightarrow> write_batch \<Rightarrow> write_batch result" where
  "Batch_Append dst src =
     (let d1 = SetCount dst (Count dst + Count src) in
      if \<not> kHeader \<le> length (wb_rep src) then Inl AssertFailed
      else Inr (d1\<lparr>wb_rep := wb_rep d1 @ drop kHeader (wb_rep src)\<rparr>))"

definition SetContents :: "write_batch \<Rightarrow> slice \<Rightarrow> write_batch result" where
  "SetContents b contents =
     (if \<not> kHeader \<le> length contents then Inl AssertFailed else Inr (b\<lparr>wb_rep := contents\<rparr>))"

section \<open>Replaying\<close>

lemma GetVarint32_shrinks: "GetVarint32 input = Some (v, rest) \<Longrightarrow> length rest \<le> length input"
proof -
  have fb: "GetVarint32PtrFallback shift r p = Some (v, rest) \<Longrightarrow> length rest \<le> length p" for shift r p
    by (induction shift r p rule: GetVarint32PtrFallback.induct) (auto simp: Let_def split: if_splits)
  assume "GetVarint32 input = Some (v, rest)"
  then show ?thesis
    using fb by (fastforce simp: GetVarint32_def GetVarint32Ptr_def split: list.splits if_splits)
qed

lemma GetLengthPrefixedSlice_shrinks:
  "GetLengthPrefixedSlice input = Some (k, rest) \<Longrightarrow> length rest \<le> length input"
  by (auto simp: GetLengthPrefixedSlice_def split: option.splits if_splits dest!: GetVarint32_shrinks)

text \<open>
  The handler is a pair of functions on its state; \<^const>\<open>None\<close> is a handler that does not
  return normally. The loop carries the number of operations found.
\<close>

function iterate_loop ::
  "(slice \<Rightarrow> slice \<Rightarrow> 'h \<Rightarrow> 'h option) \<Rightarrow> (slice \<Rightarrow> 'h \<Rightarrow> 'h option) \<Rightarrow> slice \<Rightarrow> 32 word \<Rightarrow> 'h \<Rightarrow>
    (32 word + string) option \<times> 'h" where
  "iterate_loop put del [] found h = (Some (Inl found), h)"
| "iterate_loop put del (tag # input) found h =
     (if tag = of_nat (type_code kTypeValue) then
        (case GetLengthPrefixedSlice input of
           None \<Rightarrow> (Some (Inr ''bad WriteBatch Put''), h)
         | Some (key, input1) \<Rightarrow>
            (case GetLengthPrefixedSlice input1 of
               None \<Rightarrow> (Some (Inr ''bad WriteBatch Put''), h)
             | Some (val, input2) \<Rightarrow>
                (case put key val h of
                   None \<Rightarrow> (None, h)
                 | Some h' \<Rightarrow> iterate_loop put del input2 (found + 1) h')))
      else if tag = of_nat (type_code kTypeDeletion) then
        (case GetLengthPrefixedSlice input of
           None \<Rightarrow> (Some (Inr ''bad WriteBatch Delete''), h)
         | Some (key, input1) \<Rightarrow>
            (case del key h of
               None \<Rightarrow> (None, h)
             | Some h' \<Rightarrow> iterate_loop put del input1 (found + 1) h'))
      else (Some (Inr ''unknown WriteBatch tag''), h))"
  by pat_completeness auto
termination
  by (relation "measure (\<lambda>(_, _, input, _, _). length input)")
    (auto dest!: GetLengthPrefixedSlice_shrinks)

declare iterate_loop.simps(2) [simp del]

definition Iterate ::
  "(slice \<Rightarrow> slice \<Rightarrow> 'h \<Rightarrow> 'h option) \<Rightarrow> (slice \<Rightarrow> 'h \<Rightarrow> 'h option) \<Rightarrow> write_batch \<Rightarrow> 'h \<Rightarrow>
    (Status \<times> 'h) option" where
  "Iterate put del b h =
     (if length (wb_rep b) < kHeader then Some (Corruption ''malformed WriteBatch (too small)'', h)
      else case iterate_loop put del (drop kHeader (wb_rep b)) 0 h of
        (None, _) \<Rightarrow> None
      | (Some (Inr msg), h') \<Rightarrow> Some (Corruption msg, h')
      | (Some (Inl found), h') \<Rightarrow>
          if found \<noteq> Count b then Some (Corruption ''WriteBatch has wrong count'', h')
          else Some (StatusOK, h'))"

text \<open>\<^verbatim>\<open>MemTableInserter\<close>: its state is the next sequence number and the memtable.\<close>

type_synonym inserter = "64 word \<times> memtable"

definition Inserter_Put :: "(slice \<Rightarrow> slice \<Rightarrow> int) \<Rightarrow> slice \<Rightarrow> slice \<Rightarrow> inserter \<Rightarrow> inserter option" where
  "Inserter_Put user_cmp key val = (\<lambda>(sequence, mem).
     map_option (\<lambda>mem'. (sequence + 1, mem')) (MemTable_Add user_cmp mem sequence kTypeValue key val))"

definition Inserter_Delete :: "(slice \<Rightarrow> slice \<Rightarrow> int) \<Rightarrow> slice \<Rightarrow> inserter \<Rightarrow> inserter option" where
  "Inserter_Delete user_cmp key = (\<lambda>(sequence, mem).
     map_option (\<lambda>mem'. (sequence + 1, mem')) (MemTable_Add user_cmp mem sequence kTypeDeletion key []))"

definition InsertInto :: "(slice \<Rightarrow> slice \<Rightarrow> int) \<Rightarrow> write_batch \<Rightarrow> memtable \<Rightarrow> (Status \<times> memtable) option" where
  "InsertInto user_cmp b m =
     map_option (\<lambda>(st, _, m'). (st, m'))
       (Iterate (Inserter_Put user_cmp) (Inserter_Delete user_cmp) b (Sequence b, m))"

section \<open>Batches as lists of operations\<close>

datatype batch_op = OpPut slice slice | OpDelete slice

fun op_bytes :: "batch_op \<Rightarrow> slice" where
  "op_bytes (OpPut k v) = 1 # PutLengthPrefixedSlice [] k @ PutLengthPrefixedSlice [] v"
| "op_bytes (OpDelete k) = 0 # PutLengthPrefixedSlice [] k"

fun op_ok :: "batch_op \<Rightarrow> bool" where
  "op_ok (OpPut k v) \<longleftrightarrow> length k < 2 ^ 32 \<and> length v < 2 ^ 32"
| "op_ok (OpDelete k) \<longleftrightarrow> length k < 2 ^ 32"

fun apply_op :: "batch_op \<Rightarrow> write_batch \<Rightarrow> write_batch" where
  "apply_op (OpPut k v) b = Batch_Put b k v"
| "apply_op (OpDelete k) b = Batch_Delete b k"

definition batch_rep :: "write_batch \<Rightarrow> 64 word \<Rightarrow> batch_op list \<Rightarrow> bool" where
  "batch_rep b seq ops \<longleftrightarrow>
     wb_rep b = EncodeFixed64 seq @ EncodeFixed32 (of_nat (length ops)) @ concat (map op_bytes ops) \<and>
     (\<forall>x\<in>set ops. op_ok x)"

lemma EncodeFixed_zero: "EncodeFixed32 0 = replicate 4 0" "EncodeFixed64 0 = replicate 8 0"
  by (simp_all add: EncodeFixed32_def EncodeFixed64_def numeral_eq_Suc)

lemma batch_rep_Clear: "batch_rep (Clear b) 0 []"
  by (simp add: batch_rep_def Clear_def kHeader_def EncodeFixed_zero flip: replicate_add)

lemma batch_rep_fields:
  assumes "batch_rep b seq ops"
  shows "Count b = of_nat (length ops)" "Sequence b = seq"
    "drop kHeader (wb_rep b) = concat (map op_bytes ops)" "kHeader \<le> length (wb_rep b)"
proof -
  have "DecodeFixed64 (EncodeFixed64 seq @ r) = seq" for r
    using Decode_EncodeFixed64 [of seq] by (simp add: DecodeFixed64_def nth_append)
  then show "Count b = of_nat (length ops)" "Sequence b = seq"
    "drop kHeader (wb_rep b) = concat (map op_bytes ops)" "kHeader \<le> length (wb_rep b)"
    using assms by (simp_all add: batch_rep_def Count_def Sequence_def kHeader_def)
qed

lemma batch_rep_SetCount:
  assumes "batch_rep b seq ops"
  shows "wb_rep (SetCount b n) = EncodeFixed64 seq @ EncodeFixed32 n @ concat (map op_bytes ops)"
  using assms by (simp add: batch_rep_def SetCount_def overwrite_def)

lemma batch_rep_SetSequence: "batch_rep b seq ops \<Longrightarrow> batch_rep (SetSequence b s) s ops"
  by (simp add: batch_rep_def SetSequence_def overwrite_def)

lemmas put_slice_defs = PutLengthPrefixedSlice_def PutVarint32_def

lemma batch_rep_apply:
  assumes "batch_rep b seq ops" "op_ok x"
  shows "batch_rep (apply_op x b) seq (ops @ [x])"
proof (cases x)
  case (OpPut k v)
  then show ?thesis
    using assms batch_rep_SetCount [OF assms(1)] batch_rep_fields [OF assms(1)]
    by (simp add: batch_rep_def Batch_Put_def Let_def add.commute put_slice_defs)
next
  case (OpDelete k)
  then show ?thesis
    using assms batch_rep_SetCount [OF assms(1)] batch_rep_fields [OF assms(1)]
    by (simp add: batch_rep_def Batch_Delete_def Let_def add.commute put_slice_defs)
qed

lemma batch_rep_fold:
  "batch_rep b seq ops \<Longrightarrow> (\<forall>x\<in>set xs. op_ok x) \<Longrightarrow> batch_rep (fold apply_op xs b) seq (ops @ xs)"
proof (induction xs arbitrary: b ops)
  case (Cons x xs)
  then show ?case using batch_rep_apply [of b seq ops x] by (metis append.assoc append_Cons append_Nil fold_simps(2) list.set_intros)
qed simp

lemma batch_rep_Append:
  assumes "batch_rep b seq xs" "batch_rep c seq' ys"
  shows "\<exists>d. Batch_Append b c = Inr d \<and> batch_rep d seq (xs @ ys)"
  using assms batch_rep_SetCount [OF assms(1), of "Count b + Count c"]
    batch_rep_fields [OF assms(1)] batch_rep_fields [OF assms(2)]
  by (auto simp: Batch_Append_def batch_rep_def Let_def)

section \<open>Replaying a batch\<close>

fun replay ::
  "(slice \<Rightarrow> slice \<Rightarrow> 'h \<Rightarrow> 'h option) \<Rightarrow> (slice \<Rightarrow> 'h \<Rightarrow> 'h option) \<Rightarrow> batch_op list \<Rightarrow> 'h \<Rightarrow> 'h option" where
  "replay put del [] h = Some h"
| "replay put del (OpPut k v # xs) h = (case put k v h of None \<Rightarrow> None | Some h' \<Rightarrow> replay put del xs h')"
| "replay put del (OpDelete k # xs) h = (case del k h of None \<Rightarrow> None | Some h' \<Rightarrow> replay put del xs h')"

lemma iterate_loop_replay:
  assumes "\<forall>x\<in>set ops. op_ok x"
  shows "case replay put del ops h of
      None \<Rightarrow> fst (iterate_loop put del (concat (map op_bytes ops)) found h) = None
    | Some h' \<Rightarrow> iterate_loop put del (concat (map op_bytes ops)) found h =
        (Some (Inl (found + of_nat (length ops))), h')"
  using assms
proof (induction ops arbitrary: found h)
  case Nil
  then show ?case by simp
next
  case (Cons x ops)
  let ?rest = "concat (map op_bytes ops)"
  have IH: "case replay put del ops h of
      None \<Rightarrow> fst (iterate_loop put del ?rest f h) = None
    | Some h' \<Rightarrow> iterate_loop put del ?rest f h = (Some (Inl (f + of_nat (length ops))), h')" for f h
    using Cons by simp
  show ?case
  proof (cases x)
    case (OpPut k v)
    have g: "GetLengthPrefixedSlice (PutLengthPrefixedSlice [] k @ PutLengthPrefixedSlice [] v @ ?rest) =
        Some (k, PutLengthPrefixedSlice [] v @ ?rest)"
      "GetLengthPrefixedSlice (PutLengthPrefixedSlice [] v @ ?rest) = Some (v, ?rest)"
      using Cons.prems OpPut by (auto intro!: GetLengthPrefixedSlice_Put)
    show ?thesis
      using IH [of "found + 1" "the (put k v h)"] OpPut g
      by (cases "put k v h") (auto simp: iterate_loop.simps(2) add.assoc split: option.splits)
  next
    case (OpDelete k)
    have g: "GetLengthPrefixedSlice (PutLengthPrefixedSlice [] k @ ?rest) = Some (k, ?rest)"
      using Cons.prems OpDelete by (auto intro!: GetLengthPrefixedSlice_Put)
    show ?thesis
      using IH [of "found + 1" "the (del k h)"] OpDelete g
      by (cases "del k h") (auto simp: iterate_loop.simps(2) add.assoc split: option.splits)
  qed
qed

lemma Iterate_replay:
  assumes "batch_rep b seq ops"
  shows "Iterate put del b h = map_option (\<lambda>h'. (StatusOK, h')) (replay put del ops h)"
  using iterate_loop_replay [where ops = ops and put = put and del = del and h = h and found = 0] assms batch_rep_fields [OF assms]
  by (auto simp: Iterate_def batch_rep_def split: option.splits prod.splits)

section \<open>Inserting a batch into a memtable\<close>

fun op_key :: "batch_op \<Rightarrow> slice" where
  "op_key (OpPut k v) = k"
| "op_key (OpDelete k) = k"

fun op_write :: "64 word \<Rightarrow> batch_op \<Rightarrow> mem_write" where
  "op_write s (OpPut k v) = (\<lparr>user_key = k, sequence_no = s, val_type = kTypeValue\<rparr>, v)"
| "op_write s (OpDelete k) = (\<lparr>user_key = k, sequence_no = s, val_type = kTypeDeletion\<rparr>, [])"

fun batch_writes :: "64 word \<Rightarrow> batch_op list \<Rightarrow> mem_write set" where
  "batch_writes s [] = {}"
| "batch_writes s (x # xs) = insert (op_write s x) (batch_writes (s + 1) xs)"

fun last_op :: "slice \<Rightarrow> batch_op list \<Rightarrow> get_result option" where
  "last_op k [] = None"
| "last_op k (x # xs) =
     (case last_op k xs of
        Some r \<Rightarrow> Some r
      | None \<Rightarrow> if op_key x = k then Some (write_result (op_write 0 x)) else None)"

lemma op_write_simps [simp]:
  "user_key (fst (op_write s x)) = op_key x" "sequence_no (fst (op_write s x)) = s"
  by (cases x; simp)+

lemma op_write_result: "write_result (op_write s x) = write_result (op_write 0 x)"
  by (cases x) (simp_all add: write_result_def)

lemma seq_le_insert:
  assumes "\<And>w. w \<in> W \<Longrightarrow> sequence_no (fst w) < s" "w \<in> insert (op_write s x) W"
  shows "sequence_no (fst w) \<le> s"
  using assms(2)
proof (rule insertE)
  assume "w \<in> W"
  then show ?thesis using assms(1) less_imp_le by blast
qed simp

lemma kMax_unat: "s \<le> kMaxSequenceNumber \<longleftrightarrow> unat s < 2 ^ 56"
proof -
  have "unat kMaxSequenceNumber = 2 ^ 56 - 1" by (simp add: kMaxSequenceNumber_def)
  then show ?thesis unfolding word_le_nat_alt by auto
qed

lemma unat_Suc_seq: "unat (s :: 64 word) < 2 ^ 56 \<Longrightarrow> unat (s + 1) = unat s + 1"
  by (subst unat_add_lem [THEN iffD1]) simp_all

definition ops_fit :: "64 word \<Rightarrow> batch_op list \<Rightarrow> bool" where
  "ops_fit s ops \<longleftrightarrow> unat s + length ops \<le> 2 ^ 56 \<and>
     (\<forall>x\<in>set ops. op_ok x \<and> length (op_key x) + 8 < 2 ^ 32)"

lemma ops_fit_Cons:
  assumes "ops_fit s (x # xs)"
  shows "write_ok (op_write s x)" "ops_fit (s + 1) xs" "unat (s + 1) = unat s + 1"
proof -
  have s: "unat s < 2 ^ 56" using assms by (simp add: ops_fit_def)
  then show "unat (s + 1) = unat s + 1" by (rule unat_Suc_seq)
  then show "ops_fit (s + 1) xs" using assms by (simp add: ops_fit_def)
  show "write_ok (op_write s x)"
    using assms s by (cases x) (simp_all add: ops_fit_def write_ok_def kMax_unat)
qed

lemma Inserter_step:
  "Inserter_Put user_cmp k v (s, m) = map_option (Pair (s + 1)) (MemTable_Add user_cmp m s kTypeValue k v)"
  "Inserter_Delete user_cmp k (s, m) = map_option (Pair (s + 1)) (MemTable_Add user_cmp m s kTypeDeletion k [])"
  by (simp_all add: Inserter_Put_def Inserter_Delete_def)

lemma replay_inserter:
  assumes "mem_rep m W" "\<And>w. w \<in> W \<Longrightarrow> sequence_no (fst w) < s" "ops_fit s ops"
  shows "\<exists>m'. replay (Inserter_Put Bytewise_Compare) (Inserter_Delete Bytewise_Compare) ops (s, m) =
      Some (s + of_nat (length ops), m') \<and> mem_rep m' (W \<union> batch_writes s ops)"
  using assms
proof (induction ops arbitrary: m W s)
  case Nil
  then show ?case by simp
next
  case (Cons x xs)
  note fit = ops_fit_Cons [OF Cons.prems(3)]
  obtain m1 where m1: "MemTable_Add Bytewise_Compare m s (val_type (fst (op_write s x))) (op_key x) (snd (op_write s x)) = Some m1"
    "mem_rep m1 (insert (op_write s x) W)"
    using mem_add [OF Cons.prems(1) fit(1)] Cons.prems(2) by fastforce
  have lt: "sequence_no (fst w) < s + 1" if "w \<in> insert (op_write s x) W" for w
  proof -
    have "sequence_no (fst w) \<le> s" by (rule seq_le_insert [OF Cons.prems(2) that])
    then show ?thesis using fit(3) by (simp add: word_less_nat_alt word_le_nat_alt)
  qed
  obtain m' where m': "replay (Inserter_Put Bytewise_Compare) (Inserter_Delete Bytewise_Compare) xs (s + 1, m1) =
      Some (s + 1 + of_nat (length xs), m')" "mem_rep m' (insert (op_write s x) W \<union> batch_writes (s + 1) xs)"
    using Cons.IH [OF m1(2) lt fit(2)] by blast
  show ?case
    using m' m1(1) by (cases x) (simp_all add: Inserter_step add.assoc)
qed

lemma visible_untouched:
  "last_op k ops = None \<Longrightarrow> visible (W \<union> batch_writes s ops) k S = visible W k S"
proof (induction ops arbitrary: W s)
  case (Cons x xs)
  have n: "last_op k xs = None" "op_key x \<noteq> k"
    using Cons.prems by (auto split: option.splits if_splits)
  have "W \<union> batch_writes s (x # xs) = insert (op_write s x) W \<union> batch_writes (s + 1) xs" by simp
  then have "visible (W \<union> batch_writes s (x # xs)) k S = visible (insert (op_write s x) W) k S"
    using Cons.IH [OF n(1), of "insert (op_write s x) W" "s + 1"] by simp
  then show ?case using n(2) by (auto simp: visible_def)
qed simp

lemma newest_batch:
  assumes "last_op k ops = Some r" "\<And>w. w \<in> W \<Longrightarrow> sequence_no (fst w) < s" "ops_fit s ops"
    and "unat s + length ops \<le> unat S + 1"
  shows "newest (W \<union> batch_writes s ops) k S r"
  using assms
proof (induction ops arbitrary: W s)
  case (Cons x xs)
  note fit = ops_fit_Cons [OF Cons.prems(3)]
  have U: "W \<union> batch_writes s (x # xs) = insert (op_write s x) W \<union> batch_writes (s + 1) xs" by simp
  show ?case
  proof (cases "last_op k xs")
    case None
    then have x: "op_key x = k" "r = write_result (op_write 0 x)"
      using Cons.prems(1) by (auto split: if_splits)
    have "visible (W \<union> batch_writes s (x # xs)) k S = visible (insert (op_write s x) W) k S"
      unfolding U by (rule visible_untouched [OF None])
    moreover have "s \<le> S" using Cons.prems(4) by (simp add: word_le_nat_alt)
    then have "op_write s x \<in> visible (insert (op_write s x) W) k S" using x by (simp add: visible_def)
    moreover have "sequence_no (fst w) \<le> s" if "w \<in> visible (insert (op_write s x) W) k S" for w
      by (rule seq_le_insert [where x = x, OF Cons.prems(2)]) (use that in \<open>auto simp: visible_def\<close>)
    ultimately have "op_write s x \<in> visible (W \<union> batch_writes s (x # xs)) k S"
      "\<forall>v\<in>visible (W \<union> batch_writes s (x # xs)) k S. sequence_no (fst v) \<le> sequence_no (fst (op_write s x))"
      by simp_all
    then show ?thesis
      unfolding newest_def x(2) op_write_result [of s x, symmetric] by (intro disjI2 bexI conjI) simp_all
  next
    case (Some r')
    then have r: "last_op k xs = Some r" using Cons.prems(1) by simp
    have lt: "sequence_no (fst w) < s + 1" if "w \<in> insert (op_write s x) W" for w
    proof -
      have "sequence_no (fst w) \<le> s" by (rule seq_le_insert [OF Cons.prems(2) that])
      then show ?thesis using fit(3) by (simp add: word_less_nat_alt word_le_nat_alt)
    qed
    show ?thesis
      unfolding U by (rule Cons.IH [OF r lt fit(2)]) (use Cons.prems(4) fit(3) in simp_all)
  qed
qed simp

lemma insert_batch:
  assumes "mem_rep m W" "\<And>w. w \<in> W \<Longrightarrow> sequence_no (fst w) < s" "ops_fit s ops" "batch_rep b s ops"
  shows "\<exists>m'. InsertInto Bytewise_Compare b m = Some (StatusOK, m') \<and> mem_rep m' (W \<union> batch_writes s ops)"
proof -
  obtain m' where "replay (Inserter_Put Bytewise_Compare) (Inserter_Delete Bytewise_Compare) ops (s, m) =
      Some (s + of_nat (length ops), m')" "mem_rep m' (W \<union> batch_writes s ops)"
    using replay_inserter [OF assms(1-3)] by blast
  then show ?thesis
    using batch_rep_fields(2) [OF assms(4)] by (simp add: InsertInto_def Iterate_replay [OF assms(4)])
qed

section \<open>Properties\<close>

text \<open>C32. A batch built with \<^verbatim>\<open>Put\<close> and \<^verbatim>\<open>Delete\<close> and extended by \<^verbatim>\<open>Append\<close> holds the operations of
  both batches: its count and sequence number read back, and \<^verbatim>\<open>Iterate\<close> hands exactly these
  operations to the handler in order and reports success.\<close>

theorem write_batch_replays:
  assumes "\<forall>x\<in>set xs. op_ok x" "\<forall>x\<in>set ys. op_ok x"
  shows "\<exists>c. Batch_Append (SetSequence (fold apply_op xs (Clear a)) s) (fold apply_op ys (Clear b)) = Inr c \<and>
    Sequence c = s \<and> Count c = of_nat (length xs + length ys) \<and>
    (\<forall>put del h. Iterate put del c h = map_option (\<lambda>h'. (StatusOK, h')) (replay put del (xs @ ys) h))"
proof -
  have "batch_rep (SetSequence (fold apply_op xs (Clear a)) s) s xs" "batch_rep (fold apply_op ys (Clear b)) 0 ys"
    using batch_rep_fold [OF batch_rep_Clear assms(1)] batch_rep_fold [OF batch_rep_Clear assms(2)]
    by (auto intro: batch_rep_SetSequence)
  then obtain c where c: "Batch_Append (SetSequence (fold apply_op xs (Clear a)) s) (fold apply_op ys (Clear b)) = Inr c"
    "batch_rep c s (xs @ ys)"
    using batch_rep_Append by blast
  then show ?thesis
    using batch_rep_fields(1,2) [OF c(2)] Iterate_replay [OF c(2)] by auto
qed

definition empty_batch :: write_batch where
  "empty_batch = Clear \<lparr>wb_rep = [], has_hot = False\<rparr>"

theorem write_batch_replays_witness:
  "\<exists>c. Batch_Append (SetSequence (fold apply_op [OpPut [1] [2], OpDelete [1]] (Clear empty_batch)) 40)
      (fold apply_op [OpPut [3] []] (Clear empty_batch)) = Inr c \<and> Sequence c = 40 \<and> Count c = 3 \<and>
    Iterate (\<lambda>k v h. Some (h @ [(k, Some v)])) (\<lambda>k h. Some (h @ [(k, None)])) c [] =
      Some (StatusOK, [([1], Some [2]), ([1], None), ([3], Some [])])"
proof -
  let ?xs = "[OpPut [1] [2], OpDelete [1]]" and ?ys = "[OpPut [3] []]"
  obtain c where c: "Batch_Append (SetSequence (fold apply_op ?xs (Clear empty_batch)) 40) (fold apply_op ?ys (Clear empty_batch)) = Inr c"
    "Sequence c = 40" "Count c = of_nat (length ?xs + length ?ys)"
    "\<forall>put del (h :: (slice \<times> slice option) list).
      Iterate put del c h = map_option (\<lambda>h'. (StatusOK, h')) (replay put del (?xs @ ?ys) h)"
    using write_batch_replays [of ?xs ?ys empty_batch 40 empty_batch] by auto
  then show ?thesis by (intro exI [of _ c] conjI) simp_all
qed

text \<open>C4. Writing a batch to the memtable makes its operations visible as one step: for a snapshot
  that covers the batch, \<^verbatim>\<open>Get\<close> of a key the batch changes returns its last operation on that
  key (the value, or the deletion), and \<^verbatim>\<open>Get\<close> of any other key returns what it returned before
  the batch.\<close>

theorem batch_insert_get:
  assumes "mem_rep m W" "\<And>w. w \<in> W \<Longrightarrow> sequence_no (fst w) < s" "ops_fit s ops" "batch_rep b s ops"
    and "S \<le> kMaxSequenceNumber" "length k + 8 < 2 ^ 32" "mk_LookupKey k S = Inr lk"
    and "unat s + length ops \<le> unat S + 1"
  shows "\<exists>m'. InsertInto Bytewise_Compare b m = Some (StatusOK, m') \<and>
    mem_rep m' (W \<union> batch_writes s ops) \<and>
    MemTable_Get Bytewise_Compare m' lk =
      (case last_op k ops of Some r \<Rightarrow> Some r | None \<Rightarrow> MemTable_Get Bytewise_Compare m lk)"
proof -
  obtain m' where m': "InsertInto Bytewise_Compare b m = Some (StatusOK, m')" "mem_rep m' (W \<union> batch_writes s ops)"
    using insert_batch [OF assms(1-4)] by blast
  obtain r' where r': "MemTable_Get Bytewise_Compare m' lk = Some r'" "newest (W \<union> batch_writes s ops) k S r'"
    using mem_get [OF m'(2) assms(5-7)] by blast
  obtain r where r: "MemTable_Get Bytewise_Compare m lk = Some r" "newest W k S r"
    using mem_get [OF assms(1,5-7)] by blast
  have "r' = (case last_op k ops of Some q \<Rightarrow> q | None \<Rightarrow> r)"
  proof (cases "last_op k ops")
    case None
    then have "newest (W \<union> batch_writes s ops) k S r"
      using r(2) visible_untouched [OF None] by (simp add: newest_def)
    then show ?thesis using newest_unique [OF m'(2) r'(2)] None by simp
  next
    case (Some q)
    then show ?thesis
      using newest_unique [OF m'(2) r'(2) newest_batch [OF Some assms(2,3,8)]] by simp
  qed
  then show ?thesis using m' r(1) r'(1) by (auto split: option.splits)
qed

theorem batch_insert_get_witness:
  "\<exists>m' lk. InsertInto Bytewise_Compare
      (SetSequence (fold apply_op [OpPut [1] [2], OpDelete [1], OpPut [3] [4]] (Clear empty_batch)) 40)
      new_MemTable = Some (StatusOK, m') \<and>
    mk_LookupKey [1] 42 = Inr lk \<and> MemTable_Get Bytewise_Compare m' lk = Some Deleted"
proof -
  let ?ops = "[OpPut [1] [2], OpDelete [1], OpPut [3] [4]]"
  let ?b = "SetSequence (fold apply_op ?ops (Clear empty_batch)) 40"
  have fit: "ops_fit 40 ?ops" by (simp add: ops_fit_def)
  have rep: "batch_rep ?b 40 ?ops"
    using batch_rep_SetSequence [OF batch_rep_fold [OF batch_rep_Clear, of ?ops]] fit by (simp add: ops_fit_def)
  have S: "(42 :: 64 word) \<le> kMaxSequenceNumber" by (simp add: kMaxSequenceNumber_def)
  obtain lk where lk: "mk_LookupKey [1] 42 = Inr lk" using LookupKey_parts [OF S, of "[1]"] by auto
  have "\<exists>m'. InsertInto Bytewise_Compare ?b new_MemTable = Some (StatusOK, m') \<and>
    mem_rep m' ({} \<union> batch_writes 40 ?ops) \<and>
    MemTable_Get Bytewise_Compare m' lk =
      (case last_op [1] ?ops of Some r \<Rightarrow> Some r | None \<Rightarrow> MemTable_Get Bytewise_Compare new_MemTable lk)"
    by (rule batch_insert_get [OF mem_rep_new _ fit rep S _ lk]) simp_all
  then show ?thesis using lk by (auto simp: write_result_def)
qed

end
