(* ===== verification/PageStore.thy ===== *)
theory PageStore
  imports BufferPoolCorrect
begin

text \<open>
  The interface of \<^verbatim>\<open>wot_buf_mgr/buffer_manager.h\<close> as its clients use it. A
  \<open>BufferManager\<close> is the table of the virtual functions, with the reads and writes a client
  makes through the page pointers it was given. The contract (\<open>page_store\<close>) speaks about the
  contents of every page, about how often it is pinned, and says that a pinned page keeps
  its address; the sharded pool of \<^verbatim>\<open>tree_buffer.cc\<close> is shown to meet it.
\<close>

section \<open>The interface\<close>

record ('b, 'f) BufferManager =
  bm_Lookup :: "nat \<Rightarrow> 'b \<Rightarrow> 'f option"
  bm_Pin :: "nat \<Rightarrow> 'b \<Rightarrow> ('f \<times> 'b) result"
  bm_Unpin :: "nat \<Rightarrow> 'b \<Rightarrow> 'b result"
  bm_Allocate :: "'b \<Rightarrow> (nat \<times> 'b) result"
  bm_AllocateRoot :: "nat \<Rightarrow> 'b \<Rightarrow> (nat \<times> 'b) result"
  bm_load :: "'b \<Rightarrow> 'f \<Rightarrow> page"
  bm_store :: "'f \<Rightarrow> (page \<Rightarrow> page) \<Rightarrow> 'b \<Rightarrow> 'b"

text \<open>
  What an operation keeps that changes no page: the contents, and the address of every page
  pinned before and after it. The page with id 0, the root, is never evicted and needs no pin.
\<close>

definition store_kept ::
  "('b, 'f) BufferManager \<Rightarrow> ('b \<Rightarrow> bool) \<Rightarrow> ('b \<Rightarrow> nat set) \<Rightarrow> ('b \<Rightarrow> nat \<Rightarrow> page) \<Rightarrow> ('b \<Rightarrow> nat \<Rightarrow> nat) \<Rightarrow>
    ('b \<Rightarrow> nat) \<Rightarrow> 'b \<Rightarrow> 'b \<Rightarrow> bool" where
  "store_kept M ok ids cont pins cap b b' \<longleftrightarrow> ok b' \<and> ids b' = ids b \<and> cap b' = cap b \<and>
     (\<forall>q\<in>ids b. cont b' q = cont b q) \<and>
     (\<forall>q. (q = 0 \<or> 0 < pins b q) \<and> (q = 0 \<or> 0 < pins b' q) \<longrightarrow> bm_Lookup M q b' = bm_Lookup M q b)"

locale page_store =
  fixes M :: "('b, 'f) BufferManager"
    and ok :: "'b \<Rightarrow> bool"
    and ids :: "'b \<Rightarrow> nat set"
    and cont :: "'b \<Rightarrow> nat \<Rightarrow> page"
    and pins :: "'b \<Rightarrow> nat \<Rightarrow> nat"
    and cap :: "'b \<Rightarrow> nat"
  assumes root_id: "ok b \<Longrightarrow> 0 \<in> ids b"
    and pins_root: "ok b \<Longrightarrow> pins b 0 = 0"
    and pins_finite: "ok b \<Longrightarrow> finite {q. 0 < pins b q}"
    and lookup_pinned: "ok b \<Longrightarrow> q = 0 \<or> 0 < pins b q \<Longrightarrow> q \<in> ids b \<and> bm_Lookup M q b \<noteq> None"
    and load: "ok b \<Longrightarrow> q \<in> ids b \<Longrightarrow> bm_Lookup M q b = Some fr \<Longrightarrow> clean (bm_load M b fr) = cont b q"
    and pin: "ok b \<Longrightarrow> q \<in> ids b \<Longrightarrow> card {q. 0 < pins b q} < cap b \<Longrightarrow> pins b q < 2 ^ 32 - 1 \<Longrightarrow>
      \<exists>fr b'. bm_Pin M q b = Inr (fr, b') \<and> bm_Lookup M q b' = Some fr \<and> store_kept M ok ids cont pins cap b b' \<and>
        pins b' = (if q = 0 then pins b else (pins b)(q := Suc (pins b q)))"
    and unpin: "ok b \<Longrightarrow> q = 0 \<or> 0 < pins b q \<Longrightarrow>
      \<exists>b'. bm_Unpin M q b = Inr b' \<and> store_kept M ok ids cont pins cap b b' \<and> pins b' = (if q = 0 then pins b else (pins b)(q := pins b q - 1))"
    and store: "ok b \<Longrightarrow> q = 0 \<or> 0 < pins b q \<Longrightarrow> bm_Lookup M q b = Some fr \<Longrightarrow>
      is_dirty (g (bm_load M b fr)) \<Longrightarrow> b' = bm_store M fr g b \<Longrightarrow>
      ok b' \<and> ids b' = ids b \<and> cap b' = cap b \<and> pins b' = pins b \<and> bm_Lookup M x b' = bm_Lookup M x b \<and>
      cont b' q = clean (g (bm_load M b fr)) \<and> (x \<noteq> q \<longrightarrow> cont b' x = cont b x)"
    and load_store: "ok b \<Longrightarrow> bm_Lookup M q b = Some fr \<Longrightarrow> bm_load M (bm_store M fr g b) fr = g (bm_load M b fr)"
    and load_other: "ok b \<Longrightarrow> bm_Lookup M q b = Some fr \<Longrightarrow> bm_Lookup M x b = Some fx \<Longrightarrow> x \<noteq> q \<Longrightarrow>
      bm_load M (bm_store M fr g b) fx = bm_load M b fx"
    and store_store: "bm_store M fr g (bm_store M fr h b) = bm_store M fr (\<lambda>p. g (h p)) b"
begin

abbreviation kept :: "'b \<Rightarrow> 'b \<Rightarrow> bool" where
  "kept \<equiv> store_kept M ok ids cont pins cap"

lemmas kept_def = store_kept_def [of M ok ids cont pins cap]

abbreviation room :: "'b \<Rightarrow> nat \<Rightarrow> bool" where
  "room b n \<equiv> card {q. 0 < pins b q} + n \<le> cap b"

lemma kept_refl: "ok b \<Longrightarrow> kept b b"
  by (simp add: kept_def)

end

section \<open>How often a page is pinned\<close>

definition spins :: "shard \<Rightarrow> nat \<Rightarrow> nat" where
  "spins s q = (case entry s q of None \<Rightarrow> 0 | Some e \<Rightarrow> refs e)"

definition only_evicts :: "shard \<Rightarrow> shard \<Rightarrow> bool" where
  "only_evicts s s' \<longleftrightarrow> (\<forall>q. entry s' q = entry s q \<or> entry s' q = None \<and> spins s q = 0)"

lemma spins_in_use: "handles_inv s \<Longrightarrow> 0 < spins s q \<longleftrightarrow> q \<in> set (in_use s)"
  unfolding handles_inv_def spins_def by (cases "entry s q") (auto simp del: map_of_eq_Some_iff)

lemma only_evicts_spins: "only_evicts s s' \<Longrightarrow> spins s' q = spins s q"
  unfolding only_evicts_def by (metis option.case(1) spins_def)

lemma MayOverflow_evicts:
  assumes "shard_inv r K s" "MayOverflow s = Inr (full, s1)"
  shows "only_evicts s s1" "shard_inv r K s1"
proof -
  obtain s' where s': "MayOverflow s = Inr (max_num s \<le> length (in_use s), s')" "shard_inv r K s'"
    "in_use s' = in_use s" "\<forall>q. entry s' q = entry s q \<or> entry s' q = None"
    using MayOverflow_keeps [OF assms(1)] by blast
  have s1: "s1 = s'" using s'(1) assms(2) by simp
  have H: "handles_inv s" "handles_inv s'" using assms(1) s'(2) by (simp_all add: shard_inv_def)
  have "spins s q = 0" if "entry s' q = None" for q
  proof -
    have "q \<notin> set (in_use s')" using H(2) that by (auto simp: handles_inv_def)
    then show ?thesis using spins_in_use [OF H(1), of q] s'(3) by simp
  qed
  then show "only_evicts s s1" using s'(4) unfolding only_evicts_def s1 by blast
  show "shard_inv r K s1" using s'(2) s1 by simp
qed

lemma GetBuffer_table: "GetBuffer s = Inr (a, s2) \<Longrightarrow> table s2 = table s"
  by (auto simp: GetBuffer_def Let_def split: if_splits)

lemma Ref_entry: "entry (Ref pid e s) = (entry s)(pid \<mapsto> e\<lparr>refs := u32 (refs e + 1)\<rparr>)"
  by (simp add: Ref_def LRU_Remove_def Let_def AList.update_conv')

lemma Pin_entries:
  assumes inv: "shard_inv r K s" and pin: "Pin pid s = Inr (a, s')"
  shows "\<exists>s1. only_evicts s s1 \<and> (\<exists>e. entry s' = (entry s1)(pid \<mapsto> e) \<and> page_array_id e = a \<and>
    refs e = u32 (spins s pid + 1)) \<and> (0 < spins s pid \<longrightarrow> map_option page_array_id (entry s pid) = Some a)"
proof (cases "entry s pid")
  case (Some e)
  then have s': "s' = Ref pid e s" "a = page_array_id e" using pin by (auto simp: Pin_def RetrieveHandle_def)
  have "only_evicts s s" by (simp add: only_evicts_def)
  moreover have "entry s' = (entry s)(pid \<mapsto> e\<lparr>refs := u32 (refs e + 1)\<rparr>)" unfolding s' by (rule Ref_entry)
  moreover have "spins s pid = refs e" using Some by (simp add: spins_def)
  ultimately show ?thesis
    using s'(2) Some by (intro exI [of _ s] conjI exI [of _ "e\<lparr>refs := u32 (refs e + 1)\<rparr>"]) simp_all
next
  case None
  then obtain s1 b s2 p where *: "MayOverflow s = Inr (False, s1)" "GetBuffer s1 = Inr (b, s2)"
    "a = b" "s' = Ref pid \<lparr>page_array_id = b, refs = 0\<rparr> (InsertTable b pid (s2\<lparr>pages := (pages s2)[b := p]\<rparr>))"
    using pin by (auto simp: Pin_def RetrieveHandle_def bind_result_Inr_iff split: prod.splits option.splits if_splits)
  have "entry s' = (entry s1)(pid \<mapsto> \<lparr>page_array_id = a, refs = u32 1\<rparr>)"
    unfolding *(4) Ref_entry by (simp add: InsertTable_def AList.update_conv' GetBuffer_table [OF *(2)] *(3))
  moreover have "spins s pid = 0" using None by (simp add: spins_def)
  ultimately show ?thesis
    using MayOverflow_evicts [OF inv *(1)]
    by (intro exI [of _ s1] conjI exI [of _ "\<lparr>page_array_id = a, refs = u32 1\<rparr>"]) simp_all
qed

lemma Pin_max_num:
  assumes "shard_inv r K s" "Pin pid s = Inr (a, s')"
  shows "max_num s' = max_num s"
proof -
  have over: "max_num s1 = max_num s" if "MayOverflow s = Inr (full, s1)" for full s1
    using MayOverflow_keeps [OF assms(1)] that by (auto simp: keeps_def)
  have buf: "max_num s2 = max_num s1" if "GetBuffer s1 = Inr (b, s2)" for s1 s2 b
    using that by (auto simp: GetBuffer_def Let_def split: if_splits)
  show ?thesis
    using assms(2)
    by (auto simp: Pin_def RetrieveHandle_def bind_result_Inr_iff Ref_def LRU_Remove_def InsertTable_def Let_def
        dest!: over buf split: option.splits if_splits prod.splits)
qed

lemma Pin_spins:
  assumes inv: "shard_inv r K s" and pin: "Pin pid s = Inr (a, s')" and n: "spins s pid < 2 ^ 32 - 1"
  shows "spins s' = (spins s)(pid := Suc (spins s pid))" "Lookup pid s' = Some a"
    "0 < spins s q \<Longrightarrow> Lookup q s' = Lookup q s"
proof -
  obtain s1 e where e: "only_evicts s s1" "entry s' = (entry s1)(pid \<mapsto> e)" "page_array_id e = a"
    "refs e = u32 (spins s pid + 1)" "0 < spins s pid \<longrightarrow> map_option page_array_id (entry s pid) = Some a"
    using Pin_entries [OF inv pin] by (elim exE conjE) (rule that)
  have r: "refs e = Suc (spins s pid)" using n e(4) by simp
  show "spins s' = (spins s)(pid := Suc (spins s pid))"
  proof
    fix q show "spins s' q = ((spins s)(pid := Suc (spins s pid))) q"
      using only_evicts_spins [OF e(1), of q] r by (simp add: spins_def e(2))
  qed
  show "Lookup pid s' = Some a" using e(2,3) by (simp add: Lookup_def)
  show "Lookup q s' = Lookup q s" if "0 < spins s q"
  proof (cases "q = pid")
    case True
    then show ?thesis using e(2,3,5) that by (auto simp: Lookup_def simp del: map_of_eq_Some_iff)
  next
    case False
    have "entry s1 q = entry s q" using e(1) that unfolding only_evicts_def by (metis less_numeral_extra(3))
    then show ?thesis using False e(2) by (simp add: Lookup_def)
  qed
qed

lemma Unpin_spins:
  assumes "shard_inv r K s" "entry s pid = Some e" "0 < refs e"
  shows "\<exists>s'. Unpin pid s = Inr s' \<and> shard_inv r K s' \<and> keeps K s s' \<and>
    spins s' = (spins s)(pid := spins s pid - 1) \<and> (\<forall>q. Lookup q s' = Lookup q s)"
proof -
  obtain s' where s': "Unref pid e s = Inr s'" "shard_inv r K s'" "keeps K s s'"
    "entry s' = (entry s)(pid \<mapsto> e\<lparr>refs := refs e - 1\<rparr>)"
    using Unref_keeps [OF assms] by blast
  have "Unpin pid s = Inr s'" using s'(1) assms(2) by (simp add: Unpin_def)
  moreover have "spins s' = (spins s)(pid := spins s pid - 1)"
    using s'(4) assms(2) by (auto simp: spins_def fun_eq_iff)
  moreover have "Lookup q s' = Lookup q s" for q
    using s'(4) assms(2) by (simp add: Lookup_def)
  ultimately show ?thesis using s'(2,3) by blast
qed

section \<open>The sharded pool as a page store\<close>

definition pool_manager :: "(pool, frame) BufferManager" where
  "pool_manager = \<lparr>bm_Lookup = Pool_Lookup, bm_Pin = Pool_Pin, bm_Unpin = Pool_Unpin,
     bm_Allocate = Pool_Allocate, bm_AllocateRoot = Pool_AllocateRoot,
     bm_load = frame_page, bm_store = store_frame\<rparr>"

lemma pool_manager_simps [simp]:
  "bm_Lookup pool_manager = Pool_Lookup" "bm_Pin pool_manager = Pool_Pin"
  "bm_Unpin pool_manager = Pool_Unpin" "bm_Allocate pool_manager = Pool_Allocate"
  "bm_AllocateRoot pool_manager = Pool_AllocateRoot"
  "bm_load pool_manager = frame_page" "bm_store pool_manager = store_frame"
  by (simp_all add: pool_manager_def)

definition pool_ok :: "pool \<Rightarrow> bool" where
  "pool_ok b \<longleftrightarrow> pool_inv {1..<new_id b} b"

definition pool_ids :: "pool \<Rightarrow> nat set" where
  "pool_ids b = {..<new_id b}"

definition pool_pins :: "pool \<Rightarrow> nat \<Rightarrow> nat" where
  "pool_pins b q = (if q = 0 then 0 else spins (shards b ! Shard q) q)"

definition pool_cap :: "pool \<Rightarrow> nat" where
  "pool_cap b = Min (max_num ` set (shards b))"

abbreviation pool_kept :: "pool \<Rightarrow> pool \<Rightarrow> bool" where
  "pool_kept \<equiv> store_kept pool_manager pool_ok pool_ids pool_contents pool_pins pool_cap"

lemma pool_ids_insert: "pool_ok b \<Longrightarrow> pool_ids b = insert 0 {1..<new_id b}"
  by (auto simp: pool_ok_def pool_inv_def pool_ids_def)

lemma pool_shard_inv:
  assumes "pool_ok b"
  shows "shard_inv (Shard q) {x \<in> {1..<new_id b}. Shard x = Shard q} (shards b ! Shard q)"
    "handles_inv (shards b ! Shard q)" "length (shards b) = kNumShards" "0 < new_id b"
proof -
  have inv: "pool_inv {1..<new_id b} b" using assms by (simp add: pool_ok_def)
  show S: "shard_inv (Shard q) {x \<in> {1..<new_id b}. Shard x = Shard q} (shards b ! Shard q)"
    by (rule pool_inv_shard(1) [OF inv])
  then show "handles_inv (shards b ! Shard q)" by (simp add: shard_inv_def)
  show "length (shards b) = kNumShards" "0 < new_id b" using inv by (simp_all add: pool_inv_def)
qed

lemma in_use_owner:
  assumes "pool_ok b" "i < kNumShards" "q \<in> set (in_use (shards b ! i))"
  shows "Shard q = i" "q \<in> {1..<new_id b}" "0 < pool_pins b q"
proof -
  have S: "shard_inv i {x \<in> {1..<new_id b}. x mod kNumShards = i} (shards b ! i)"
    using assms(1,2) by (simp add: pool_ok_def pool_inv_def)
  then have H: "handles_inv (shards b ! i)" and F: "dom (entry (shards b ! i)) \<subseteq> {x \<in> {1..<new_id b}. x mod kNumShards = i}"
    by (simp_all add: shard_inv_def file_inv_def)
  have "q \<in> dom (entry (shards b ! i))" using H assms(3) unfolding handles_inv_def by blast
  then show q: "Shard q = i" "q \<in> {1..<new_id b}" using F by (auto simp: Shard_mod)
  then show "0 < pool_pins b q" using spins_in_use [OF H, of q] assms(3) by (simp add: pool_pins_def)
qed

lemma pins_pos_in_use:
  "pool_ok b \<Longrightarrow> 0 < pool_pins b q \<Longrightarrow> q \<in> set (in_use (shards b ! Shard q))"
  using spins_in_use [OF pool_shard_inv(2)] by (auto simp: pool_pins_def split: if_splits)

lemma pool_pins_finite: "pool_ok b \<Longrightarrow> finite {q. 0 < pool_pins b q}"
proof -
  assume ok: "pool_ok b"
  have "q \<in> {1..<new_id b}" if "0 < pool_pins b q" for q
    by (rule in_use_owner(2) [OF ok Shard_less pins_pos_in_use [OF ok that]])
  then have "{q. 0 < pool_pins b q} \<subseteq> {1..<new_id b}" by blast
  then show ?thesis by (rule finite_subset) simp
qed

lemma pool_has_room:
  assumes "pool_ok b" "card {q. 0 < pool_pins b q} < pool_cap b"
  shows "has_room b pid"
proof -
  let ?s = "shards b ! Shard pid"
  have "set (in_use ?s) \<subseteq> {q. 0 < pool_pins b q}"
    using in_use_owner(3) [OF assms(1) Shard_less] by blast
  then have "card (set (in_use ?s)) \<le> card {q. 0 < pool_pins b q}"
    by (rule card_mono [OF pool_pins_finite [OF assms(1)]])
  moreover have "card (set (in_use ?s)) = length (in_use ?s)"
    using pool_shard_inv(2) [OF assms(1), of pid] by (intro distinct_card) (simp add: handles_inv_def)
  moreover have "pool_cap b \<le> max_num ?s"
    unfolding pool_cap_def using pool_shard_inv(3) [OF assms(1)] Shard_less [of pid] by (intro Min_le) auto
  ultimately show ?thesis using assms(2) by (simp add: has_room_def)
qed

lemma cap_same:
  assumes "max_num s' = max_num (shards b ! i)" "i < length (shards b)"
  shows "pool_cap (b\<lparr>shards := (shards b)[i := s']\<rparr>) = pool_cap b"
proof -
  have "map max_num ((shards b)[i := s']) = map max_num (shards b)"
    using assms by (simp add: map_update) (metis list_update_id nth_map)
  then have "max_num ` set ((shards b)[i := s']) = max_num ` set (shards b)" by (metis set_map)
  then show ?thesis by (simp add: pool_cap_def)
qed

lemma pool_kept_shard:
  assumes ok: "pool_ok b" and b': "b' = b\<lparr>shards := (shards b)[Shard pid := s']\<rparr>"
    and inv: "pool_inv {1..<new_id b} b'" "\<forall>q \<in> insert 0 {1..<new_id b}. pool_contents b' q = pool_contents b q"
    and s': "max_num s' = max_num (shards b ! Shard pid)"
      "\<And>q. 0 < spins (shards b ! Shard pid) q \<Longrightarrow> 0 < spins s' q \<Longrightarrow> Lookup q s' = Lookup q (shards b ! Shard pid)"
  shows "pool_kept b b'"
proof -
  note S = pool_shard_inv [OF ok]
  have "Pool_Lookup q b' = Pool_Lookup q b" if "q = 0 \<or> 0 < pool_pins b q" "q = 0 \<or> 0 < pool_pins b' q" for q
    using that s'(2) [of q] S(3)
    by (cases "Shard q = Shard pid") (auto simp: Pool_Lookup_def b' pool_pins_def split: if_splits)
  moreover have "pool_cap b' = pool_cap b" unfolding b' using S(3) s'(1) by (intro cap_same) simp_all
  moreover have "new_id b' = new_id b" by (simp add: b')
  ultimately show ?thesis
    using inv pool_ids_insert [OF ok] by (simp add: store_kept_def pool_ok_def pool_ids_def)
qed

lemma pool_pins_shard:
  assumes "pool_ok b" "b' = b\<lparr>shards := (shards b)[Shard pid := s']\<rparr>" "0 < pid"
    and "spins s' = (spins (shards b ! Shard pid))(pid := n)"
  shows "pool_pins b' = (pool_pins b)(pid := n)"
proof
  fix q show "pool_pins b' q = ((pool_pins b)(pid := n)) q"
    using assms pool_shard_inv(3) [OF assms(1)]
    by (cases "Shard q = Shard pid") (auto simp: pool_pins_def)
qed

lemma pool_store_pin:
  assumes ok: "pool_ok b" and q: "q \<in> pool_ids b" and room: "card {q. 0 < pool_pins b q} < pool_cap b"
    and n: "pool_pins b q < 2 ^ 32 - 1"
  shows "\<exists>fr b'. Pool_Pin q b = Inr (fr, b') \<and> Pool_Lookup q b' = Some fr \<and> pool_kept b b' \<and>
    pool_pins b' = (if q = 0 then pool_pins b else (pool_pins b)(q := Suc (pool_pins b q)))"
proof (cases "q = 0")
  case True
  then show ?thesis using ok by (simp add: Pool_Pin_def Pool_Lookup_def store_kept_def)
next
  case False
  have inv: "pool_inv {1..<new_id b} b" and qK: "q \<in> {1..<new_id b}"
    using ok q False by (auto simp: pool_ok_def pool_ids_def)
  note S = pool_shard_inv(1,2) [OF ok, of q] pool_shard_inv(3,4) [OF ok]
  have sp: "spins (shards b ! Shard q) q < 2 ^ 32 - 1" using n False by (simp add: pool_pins_def)
  have "case resident b q of Some e \<Rightarrow> refs e < 2 ^ 32 - 1 | None \<Rightarrow> has_room b q"
    using sp pool_has_room [OF ok room] by (auto simp: resident_def spins_def split: option.splits)
  from Pool_Pin_ok [OF inv qK this] obtain a b' where
    b': "Pool_Pin q b = Inr (Buf (Shard q) a, b')" "pool_inv {1..<new_id b} b'"
      "\<forall>x \<in> insert 0 {1..<new_id b}. pool_contents b' x = pool_contents b x" by blast
  obtain s' where s': "Pin q (shards b ! Shard q) = Inr (a, s')" "b' = b\<lparr>shards := (shards b)[Shard q := s']\<rparr>"
    using b'(1) False by (auto simp: Pool_Pin_def bind_result_Inr_iff)
  note P = Pin_spins [OF S(1) s'(1) sp]
  have mx: "max_num s' = max_num (shards b ! Shard q)"
    using s'(1) by (rule Pin_max_num [OF S(1)])
  have "pool_kept b b'" by (rule pool_kept_shard [OF ok s'(2) b'(2,3) mx P(3)])
  moreover have "Pool_Lookup q b' = Some (Buf (Shard q) a)"
    using False P(2) S(3) by (simp add: Pool_Lookup_def s'(2))
  moreover have "pool_pins b' = (pool_pins b)(q := Suc (pool_pins b q))"
    using pool_pins_shard [OF ok s'(2) _ P(1)] False by (simp add: pool_pins_def)
  ultimately show ?thesis using b'(1) False by simp
qed

lemma pool_store_unpin:
  assumes ok: "pool_ok b" and q: "q = 0 \<or> 0 < pool_pins b q"
  shows "\<exists>b'. Pool_Unpin q b = Inr b' \<and> pool_kept b b' \<and>
    pool_pins b' = (if q = 0 then pool_pins b else (pool_pins b)(q := pool_pins b q - 1))"
proof (cases "q = 0")
  case True
  then show ?thesis using ok by (simp add: Pool_Unpin_def store_kept_def)
next
  case False
  note S = pool_shard_inv(1,2) [OF ok, of q] pool_shard_inv(3,4) [OF ok]
  have inv: "pool_inv {1..<new_id b} b" using ok by (simp add: pool_ok_def)
  obtain e where e: "entry (shards b ! Shard q) q = Some e" "0 < refs e"
    using q False by (auto simp: pool_pins_def spins_def split: option.splits)
  obtain s' where s': "Unpin q (shards b ! Shard q) = Inr s'"
    "shard_inv (Shard q) {x \<in> {1..<new_id b}. Shard x = Shard q} s'"
    "keeps {x \<in> {1..<new_id b}. Shard x = Shard q} (shards b ! Shard q) s'"
    "spins s' = (spins (shards b ! Shard q))(q := spins (shards b ! Shard q) q - 1)"
    "\<forall>x. Lookup x s' = Lookup x (shards b ! Shard q)"
    using Unpin_spins [OF S(1) e] by blast
  let ?b = "b\<lparr>shards := (shards b)[Shard q := s']\<rparr>"
  have K: "pool_inv {1..<new_id b} ?b" "\<forall>x \<in> insert 0 {1..<new_id b}. pool_contents ?b x = pool_contents b x"
    using pool_keeps [OF inv s'(2,3) refl] by blast+
  have "pool_kept b ?b"
    by (rule pool_kept_shard [OF ok refl K]) (use s'(3,5) in \<open>simp_all add: keeps_def\<close>)
  moreover have "pool_pins ?b = (pool_pins b)(q := pool_pins b q - 1)"
    using pool_pins_shard [OF ok refl _ s'(4)] False by (simp add: pool_pins_def)
  ultimately show ?thesis using s'(1) False by (simp add: Pool_Unpin_def on_shard_def)
qed

lemma frame_page_store: "Pool_Lookup q b = Some fr \<Longrightarrow> pool_ok b \<Longrightarrow> frame_page (store_frame fr g b) fr = g (frame_page b fr)"
proof -
  assume q: "Pool_Lookup q b = Some fr" and ok: "pool_ok b"
  show ?thesis
  proof (cases "q = 0")
    case True
    then show ?thesis using q by (auto simp: Pool_Lookup_def frame_page_def store_frame_def)
  next
    case False
    then obtain e where e: "entry (shards b ! Shard q) q = Some e" "fr = Buf (Shard q) (page_array_id e)"
      using q by (auto simp: Pool_Lookup_def Lookup_def)
    have "page_array_id e < length (pages (shards b ! Shard q))"
      using pool_shard_inv(1) [OF ok, of q] e(1) unfolding shard_inv_def buffers_inv_def by blast
    then show ?thesis
      using e(2) pool_shard_inv(3) [OF ok] by (simp add: frame_page_def store_frame_def store_page_def)
  qed
qed

lemma frame_page_other:
  assumes "pool_ok b" "Pool_Lookup q b = Some fr" "Pool_Lookup x b = Some fx" "x \<noteq> q"
  shows "frame_page (store_frame fr g b) fx = frame_page b fx"
proof (cases "q = 0 \<or> x = 0")
  case True
  then show ?thesis using assms
    by (auto simp: Pool_Lookup_def frame_page_def store_frame_def split: if_splits option.splits frame.splits)
next
  case False
  then obtain e f where e: "entry (shards b ! Shard q) q = Some e" "fr = Buf (Shard q) (page_array_id e)"
    and f: "entry (shards b ! Shard x) x = Some f" "fx = Buf (Shard x) (page_array_id f)"
    using assms(2,3) by (auto simp: Pool_Lookup_def Lookup_def)
  have "page_array_id f \<noteq> page_array_id e" if "Shard x = Shard q"
    using pool_shard_inv(1) [OF assms(1), of q] e(1) f(1) assms(4) that unfolding shard_inv_def buffers_inv_def by metis
  then show ?thesis using e(2) f(2) pool_shard_inv(3) [OF assms(1)]
    by (cases "Shard x = Shard q") (simp_all add: frame_page_def store_frame_def store_page_def)
qed

lemma pool_load:
  assumes "pool_ok b" "q \<in> pool_ids b" "Pool_Lookup q b = Some fr"
  shows "clean (frame_page b fr) = pool_contents b q"
  using assms by (auto simp: Pool_Lookup_def Lookup_def frame_page_def pool_contents_def contents_def split: if_splits)

lemma store_same:
  assumes "pool_ok b"
  shows "new_id (store_frame fr g b) = new_id b" "pool_cap (store_frame fr g b) = pool_cap b"
    "pool_pins (store_frame fr g b) = pool_pins b" "Pool_Lookup x (store_frame fr g b) = Pool_Lookup x b"
proof -
  have "pool_cap (store_frame fr g b) = pool_cap b \<and> pool_pins (store_frame fr g b) = pool_pins b \<and>
    Pool_Lookup x (store_frame fr g b) = Pool_Lookup x b"
  proof (cases fr)
    case Root
    then show ?thesis by (simp add: store_frame_def pool_cap_def pool_pins_def fun_eq_iff Pool_Lookup_def)
  next
    case (Buf i a)
    let ?s = "store_page a g (shards b ! i)"
    have same: "table ?s = table (shards b ! i)" "max_num ?s = max_num (shards b ! i)"
      by (simp_all add: store_page_def)
    have sh: "shards (store_frame fr g b) = (shards b)[i := ?s]" by (simp add: Buf store_frame_def)
    have t: "table ((shards b)[i := ?s] ! j) = table (shards b ! j)" for j
      using same(1) by (cases "j = i \<and> i < length (shards b)") (auto simp: list_update_beyond not_less)
    have "pool_cap (store_frame fr g b) = pool_cap b"
    proof (cases "i < length (shards b)")
      case True
      then show ?thesis using cap_same [of ?s b i] same(2) by (simp add: Buf store_frame_def)
    next
      case False
      then show ?thesis by (simp add: pool_cap_def sh list_update_beyond)
    qed
    then show ?thesis by (simp add: pool_pins_def spins_def fun_eq_iff Pool_Lookup_def Lookup_def sh t)
  qed
  then show "pool_cap (store_frame fr g b) = pool_cap b" "pool_pins (store_frame fr g b) = pool_pins b"
    "Pool_Lookup x (store_frame fr g b) = Pool_Lookup x b" by simp_all
  show "new_id (store_frame fr g b) = new_id b" by (cases fr) (simp_all add: store_frame_def)
qed

lemma pool_store_store:
  assumes ok: "pool_ok b" and q: "q = 0 \<or> 0 < pool_pins b q" "Pool_Lookup q b = Some fr"
    and g: "is_dirty (g (frame_page b fr))"
  shows "pool_ok (store_frame fr g b)" "pool_contents (store_frame fr g b) q = clean (g (frame_page b fr))"
    "x \<noteq> q \<Longrightarrow> pool_contents (store_frame fr g b) x = pool_contents b x"
proof -
  have inv: "pool_inv {1..<new_id b} b" using ok by (simp add: pool_ok_def)
  have "pool_inv {1..<new_id b} (store_frame fr g b) \<and>
    pool_contents (store_frame fr g b) q = clean (g (frame_page b fr)) \<and>
    (x \<noteq> q \<longrightarrow> pool_contents (store_frame fr g b) x = pool_contents b x)"
  proof (cases "q = 0")
    case True
    then have "fr = Root" using q(2) by (simp add: Pool_Lookup_def)
    then show ?thesis
      using True inv g by (simp add: pool_inv_def pool_contents_def store_frame_def frame_page_def)
  next
    case False
    then obtain e where e: "entry (shards b ! Shard q) q = Some e" "fr = Buf (Shard q) (page_array_id e)"
      using q(2) by (auto simp: Pool_Lookup_def Lookup_def)
    then show ?thesis
      using store_frame_ok(1,2) [where g = g, OF inv _ _ _ refl, of q e]
        store_frame_ok(3) [where g = g, OF inv _ _ _ refl, of q e x] False g by (simp add: resident_def)
  qed
  then show "pool_ok (store_frame fr g b)" "pool_contents (store_frame fr g b) q = clean (g (frame_page b fr))"
    "x \<noteq> q \<Longrightarrow> pool_contents (store_frame fr g b) x = pool_contents b x"
    using store_same(1) [OF ok] by (simp_all add: pool_ok_def)
qed

lemma store_page_comp: "store_page a g (store_page a h s) = store_page a (\<lambda>p. g (h p)) s"
  by (cases "a < length (pages s)") (simp_all add: store_page_def list_update_beyond)

lemma store_frame_comp: "store_frame fr g (store_frame fr h b) = store_frame fr (\<lambda>p. g (h p)) b"
proof (cases fr)
  case (Buf i a)
  then show ?thesis
    by (cases "i < length (shards b)") (simp_all add: store_frame_def store_page_comp list_update_beyond)
qed (simp add: store_frame_def)

interpretation pool_store: page_store pool_manager pool_ok pool_ids pool_contents pool_pins pool_cap
proof unfold_locales
  fix b q fr g b' x
  assume ok: "pool_ok b" and *: "q = 0 \<or> 0 < pool_pins b q" "bm_Lookup pool_manager q b = Some fr"
    "is_dirty (g (bm_load pool_manager b fr))" and b': "b' = bm_store pool_manager fr g b"
  have d: "Pool_Lookup q b = Some fr" "is_dirty (g (frame_page b fr))" using *(2,3) by simp_all
  show "pool_ok b' \<and> pool_ids b' = pool_ids b \<and> pool_cap b' = pool_cap b \<and> pool_pins b' = pool_pins b \<and>
      bm_Lookup pool_manager x b' = bm_Lookup pool_manager x b \<and>
      pool_contents b' q = clean (g (bm_load pool_manager b fr)) \<and>
      (x \<noteq> q \<longrightarrow> pool_contents b' x = pool_contents b x)"
    using pool_store_store [where g = g, OF ok *(1) d] store_same(1-3) [OF ok, of fr g] store_same(4) [OF ok, of x fr g]
    by (simp add: pool_ids_def b')
next
  fix b q
  assume ok: "pool_ok b" and q: "q = 0 \<or> 0 < pool_pins b q"
  show "q \<in> pool_ids b \<and> bm_Lookup pool_manager q b \<noteq> None"
  proof (cases "q = 0")
    case True
    then show ?thesis using pool_shard_inv(4) [OF ok] by (simp add: pool_ids_def Pool_Lookup_def)
  next
    case False
    then have "q \<in> {1..<new_id b}" using in_use_owner(2) [OF ok Shard_less pins_pos_in_use [OF ok]] q by blast
    moreover have "entry (shards b ! Shard q) q \<noteq> None"
      using q False by (auto simp: pool_pins_def spins_def split: option.splits)
    ultimately show ?thesis using False by (auto simp: pool_ids_def Pool_Lookup_def Lookup_def)
  qed
next
  fix fr g h b
  show "bm_store pool_manager fr g (bm_store pool_manager fr h b) = bm_store pool_manager fr (\<lambda>p. g (h p)) b"
    by (simp add: store_frame_comp)
qed (use frame_page_store frame_page_other pool_store_pin pool_store_unpin pool_pins_finite pool_load pool_shard_inv(4) in
    \<open>simp_all add: pool_ids_def pool_pins_def\<close>)

end
