(* ===== verification/BtreeOlc.thy ===== *)
theory BtreeOlc
  imports PageStore NodePageCorrect OptLock
begin

text \<open>
  The B-tree with optimistic lock coupling of \<^verbatim>\<open>btree/btree_olc.h\<close>, one call at a time: point
  query, range scan and insertion over a buffer manager. The lock words are those in the
  page headers, with the operations of \<^verbatim>\<open>OptLock\<close>; a \<^verbatim>\<open>goto restart\<close> ends an attempt with
  \<open>Restart\<close>, and the outer loop repeats attempts, so that \<^const>\<open>None\<close> is a call that never
  returns. The tree is the record of the buffer manager's state and the height; the root
  page id is always 0.
\<close>

datatype 'a outcome = Restart | Done 'a

section \<open>Reading through page pointers\<close>

definition lock_of :: "('b, 'f) BufferManager \<Rightarrow> 'b \<Rightarrow> 'f \<Rightarrow> 64 word" where
  "lock_of M b fr = opt_lock (bm_load M b fr)"

definition pid_of :: "('b, 'f) BufferManager \<Rightarrow> 'b \<Rightarrow> 'f \<Rightarrow> nat" where
  "pid_of M b fr = page_id (bm_load M b fr)"

definition unpin_page :: "('b, 'f) BufferManager \<Rightarrow> 'f \<Rightarrow> 'b \<Rightarrow> 'b result" where
  "unpin_page M fr b = bm_Unpin M (pid_of M b fr) b"

section \<open>Descending\<close>

text \<open>Pinning and read-locking the root.\<close>

definition enter_root :: "('b, 'f) BufferManager \<Rightarrow> 'b \<Rightarrow> (('f \<times> 64 word) outcome \<times> 'b) result" where
  "enter_root M b =
     bind_result (bm_Pin M 0 b) (\<lambda>(cur_page, b1).
       let (version_node, need_restart) = ReadLockOrRestart (lock_of M b1 cur_page) False in
       if need_restart \<or> pid_of M b1 cur_page \<noteq> 0 then Inr (Restart, b1)
       else Inr (Done (cur_page, version_node), b1))"

text \<open>
  Validating and unpinning the parent; on a failed validation the current page is unpinned
  too and the attempt restarts.
\<close>

definition release_parent ::
  "('b, 'f) BufferManager \<Rightarrow> 'f \<Rightarrow> ('f \<times> 64 word) option \<Rightarrow> 'b \<Rightarrow> (bool \<times> 'b) result" where
  "release_parent M cur_page parent b =
     (case parent of
        None \<Rightarrow> Inr (False, b)
      | Some (parent_page, version_parent) \<Rightarrow>
          let need_restart = ReadUnlockOrRestart (lock_of M b parent_page) version_parent False in
          bind_result (unpin_page M parent_page b) (\<lambda>b1.
            if need_restart then bind_result (unpin_page M cur_page b1) (\<lambda>b2. Inr (True, b2))
            else Inr (False, b1)))"

text \<open>From a node to the child that covers the key.\<close>

definition step_child ::
  "('b, 'f) BufferManager \<Rightarrow> slice \<Rightarrow> 'f \<Rightarrow> 64 word \<Rightarrow> 'b \<Rightarrow> (('f \<times> 64 word) outcome \<times> 'b) result" where
  "step_child M key cur_page version_node b =
     (let p = bm_load M b cur_page in
      bind_result (PageReadChildAt p (PageLowerBound p key)) (\<lambda>child.
        if CheckOrRestart (lock_of M b cur_page) version_node False then
          bind_result (unpin_page M cur_page b) (\<lambda>b1. Inr (Restart, b1))
        else bind_result (bm_Pin M child b) (\<lambda>(child_page, b1).
          let (version_child, need_restart) = ReadLockOrRestart (lock_of M b1 child_page) False in
          if need_restart then
            bind_result (unpin_page M cur_page b1) (\<lambda>b2.
            bind_result (unpin_page M child_page b2) (\<lambda>b3. Inr (Restart, b3)))
          else Inr (Done (child_page, version_child), b1))))"

partial_function (option) descend ::
  "('b, 'f) BufferManager \<Rightarrow> slice \<Rightarrow> 'f \<Rightarrow> 64 word \<Rightarrow> ('f \<times> 64 word) option \<Rightarrow> 'b \<Rightarrow>
    (('f \<times> 64 word \<times> ('f \<times> 64 word) option) outcome \<times> 'b) result option" where
  "descend M key cur_page version_node parent b =
     (if is_leaf (bm_load M b cur_page) then Some (Inr (Done (cur_page, version_node, parent), b))
      else case release_parent M cur_page parent b of
        Inl e \<Rightarrow> Some (Inl e)
      | Inr (need_restart, b1) \<Rightarrow>
          if need_restart then Some (Inr (Restart, b1))
          else case step_child M key cur_page version_node b1 of
            Inl e \<Rightarrow> Some (Inl e)
          | Inr (out, b2) \<Rightarrow>
             (case out of
                Restart \<Rightarrow> Some (Inr (Restart, b2))
              | Done nxt \<Rightarrow>
                  descend M key (fst nxt) (snd nxt) (Some (cur_page, version_node)) b2))"

declare descend.simps [code]

section \<open>Query\<close>

definition query_leaf ::
  "('b, 'f) BufferManager \<Rightarrow> slice \<Rightarrow> 'f \<Rightarrow> 64 word \<Rightarrow> ('f \<times> 64 word) option \<Rightarrow> 'b \<Rightarrow>
    (slice option outcome \<times> 'b) result" where
  "query_leaf M key cur_page version_node parent b =
     (let p = bm_load M b cur_page; pos = nat (PageLowerBound p key + 1) in
      bind_result
        (if pos < item_num p then
           if Slice_compare (PageReadKeyAtOffset p pos) key = 0
           then bind_result (PageReadValAt p pos) (\<lambda>v. Inr (Some v)) else Inr None
         else Inr None) (\<lambda>val.
      bind_result (release_parent M cur_page parent b) (\<lambda>(need_restart, b1).
        if need_restart then Inr (Restart, b1)
        else let need_restart = ReadUnlockOrRestart (lock_of M b1 cur_page) version_node False in
          bind_result (unpin_page M cur_page b1) (\<lambda>b2.
            Inr (if need_restart then Restart else Done val, b2)))))"

definition query_attempt ::
  "('b, 'f) BufferManager \<Rightarrow> slice \<Rightarrow> 'b \<Rightarrow> (slice option outcome \<times> 'b) result option" where
  "query_attempt M key b =
     (case enter_root M b of
        Inl e \<Rightarrow> Some (Inl e)
      | Inr (Restart, b1) \<Rightarrow> Some (Inr (Restart, b1))
      | Inr (Done (root_page, version_node), b1) \<Rightarrow>
         (case descend M key root_page version_node None b1 of
            None \<Rightarrow> None
          | Some (Inl e) \<Rightarrow> Some (Inl e)
          | Some (Inr (Restart, b2)) \<Rightarrow> Some (Inr (Restart, b2))
          | Some (Inr (Done (cur_page, version, parent), b2)) \<Rightarrow>
              Some (query_leaf M key cur_page version parent b2)))"

text \<open>The value of the key, or \<^const>\<open>None\<close> for the status \<^verbatim>\<open>NotFound\<close>.\<close>

partial_function (option) Olc_Query ::
  "('b, 'f) BufferManager \<Rightarrow> slice \<Rightarrow> 'b \<Rightarrow> (slice option \<times> 'b) result option" where
  "Olc_Query M key b =
     (case query_attempt M key b of
        None \<Rightarrow> None
      | Some r \<Rightarrow>
         (case r of
            Inl e \<Rightarrow> Some (Inl e)
          | Inr (out, b1) \<Rightarrow>
             (case out of Restart \<Rightarrow> Olc_Query M key b1 | Done val \<Rightarrow> Some (Inr (val, b1)))))"

declare Olc_Query.simps [code]

section \<open>Scan\<close>

text \<open>The items of one leaf: the pairs to add and the last key read.\<close>

fun scan_items :: "page \<Rightarrow> slice \<Rightarrow> slice \<Rightarrow> nat list \<Rightarrow> ((slice \<times> slice) list \<times> slice) result" where
  "scan_items p up cur_key [] = Inr ([], cur_key)"
| "scan_items p up cur_key (i # is) =
     (let k = PageReadKeyAtOffset p i in
      if Slice_compare k up > 0 then Inr ([], k)
      else bind_result (PageReadValAt p i) (\<lambda>v.
        bind_result (scan_items p up k is) (\<lambda>(rs, ck). Inr ((k, v) # rs, ck))))"

definition pin_sibling :: "('b, 'f) BufferManager \<Rightarrow> nat \<Rightarrow> 'b \<Rightarrow> ('f option \<times> 'b) result" where
  "pin_sibling M right_sibling b =
     (if right_sibling = 0 then Inr (None, b)
      else bind_result (bm_Pin M right_sibling b) (\<lambda>(fr, b1). Inr (Some fr, b1)))"

text \<open>
  One round of the leaf loop. The flag says whether to restart; the third component is the
  next leaf to visit, with its version and the last key read. A restart keeps the results
  collected so far, as the code does.
\<close>

definition scan_leaf ::
  "('b, 'f) BufferManager \<Rightarrow> slice \<Rightarrow> 'f \<Rightarrow> 64 word \<Rightarrow> nat \<Rightarrow> slice \<Rightarrow> (slice \<times> slice) list \<Rightarrow> 'b \<Rightarrow>
    ((bool \<times> (slice \<times> slice) list \<times> ('f \<times> 64 word \<times> slice) option) \<times> 'b) result" where
  "scan_leaf M up cur_page version_node pos cur_key results b =
     (let p = bm_load M b cur_page in
      bind_result (scan_items p up cur_key [pos ..< item_num p]) (\<lambda>(rs, ck).
      bind_result (pin_sibling M (right_sib p) b) (\<lambda>(sibling, b1).
        case sibling of
          None \<Rightarrow>
            let need_restart = ReadUnlockOrRestart (lock_of M b1 cur_page) version_node False in
            bind_result (unpin_page M cur_page b1) (\<lambda>b2. Inr ((need_restart, results @ rs, None), b2))
        | Some sibling_page \<Rightarrow>
            if Slice_compare ck up > 0 then
              let need_restart = ReadUnlockOrRestart (lock_of M b1 cur_page) version_node False in
              bind_result (unpin_page M sibling_page b1) (\<lambda>b2.
              bind_result (unpin_page M cur_page b2) (\<lambda>b3. Inr ((need_restart, results @ rs, None), b3)))
            else
              let (version_sibling, need_restart) = ReadLockOrRestart (lock_of M b1 sibling_page) False;
                  need_restart = ReadUnlockOrRestart (lock_of M b1 cur_page) version_node need_restart in
              bind_result (unpin_page M cur_page b1) (\<lambda>b2.
                if need_restart then
                  bind_result (unpin_page M sibling_page b2) (\<lambda>b3. Inr ((True, results @ rs, None), b3))
                else Inr ((False, results @ rs, Some (sibling_page, version_sibling, ck)), b2)))))"

partial_function (option) scan_loop ::
  "('b, 'f) BufferManager \<Rightarrow> slice \<Rightarrow> 'f \<Rightarrow> 64 word \<Rightarrow> nat \<Rightarrow> slice \<Rightarrow> (slice \<times> slice) list \<Rightarrow> 'b \<Rightarrow>
    ((bool \<times> (slice \<times> slice) list) \<times> 'b) result option" where
  "scan_loop M up cur_page version_node pos cur_key results b =
     (if Slice_compare cur_key up \<le> 0 then
        (case scan_leaf M up cur_page version_node pos cur_key results b of
           Inl e \<Rightarrow> Some (Inl e)
         | Inr (r, b1) \<Rightarrow>
            (case snd (snd r) of
               None \<Rightarrow> Some (Inr ((fst r, fst (snd r)), b1))
             | Some nxt \<Rightarrow> scan_loop M up (fst nxt) (fst (snd nxt)) 0 (snd (snd nxt)) (fst (snd r)) b1))
      else (case unpin_page M cur_page b of
              Inl e \<Rightarrow> Some (Inl e)
            | Inr b1 \<Rightarrow> Some (Inr ((False, results), b1))))"

declare scan_loop.simps [code]

definition scan_attempt ::
  "('b, 'f) BufferManager \<Rightarrow> slice \<Rightarrow> slice \<Rightarrow> (slice \<times> slice) list \<Rightarrow> 'b \<Rightarrow>
    ((bool \<times> (slice \<times> slice) list) \<times> 'b) result option" where
  "scan_attempt M low up results b =
     (case enter_root M b of
        Inl e \<Rightarrow> Some (Inl e)
      | Inr (Restart, b1) \<Rightarrow> Some (Inr ((True, results), b1))
      | Inr (Done (root_page, version_node), b1) \<Rightarrow>
         (case descend M low root_page version_node None b1 of
            None \<Rightarrow> None
          | Some (Inl e) \<Rightarrow> Some (Inl e)
          | Some (Inr (Restart, b2)) \<Rightarrow> Some (Inr ((True, results), b2))
          | Some (Inr (Done (cur_page, version, parent), b2)) \<Rightarrow>
             (case release_parent M cur_page parent b2 of
                Inl e \<Rightarrow> Some (Inl e)
              | Inr (True, b3) \<Rightarrow> Some (Inr ((True, results), b3))
              | Inr (False, b3) \<Rightarrow>
                  let p = bm_load M b3 cur_page; pos = nat (PageLowerBound p low + 1) in
                  scan_loop M up cur_page version pos (PageReadKeyAtOffset p pos) results b3)))"

partial_function (option) scan_run ::
  "('b, 'f) BufferManager \<Rightarrow> slice \<Rightarrow> slice \<Rightarrow> (slice \<times> slice) list \<Rightarrow> 'b \<Rightarrow>
    ((slice \<times> slice) list \<times> 'b) result option" where
  "scan_run M low up results b =
     (case scan_attempt M low up results b of
        None \<Rightarrow> None
      | Some r \<Rightarrow>
         (case r of
            Inl e \<Rightarrow> Some (Inl e)
          | Inr (out, b1) \<Rightarrow>
              if fst out then scan_run M low up (snd out) b1 else Some (Inr (snd out, b1))))"

declare scan_run.simps [code]

definition BtreeOLCScanIterator ::
  "('b, 'f) BufferManager \<Rightarrow> slice \<Rightarrow> slice \<Rightarrow> 'b \<Rightarrow> ((slice \<times> slice) list \<times> 'b) result option" where
  "BtreeOLCScanIterator M low up b = scan_run M low up [] b"

section \<open>Insertion\<close>

record 'b btree_olc =
  buf_mgr :: 'b
  tree_height :: nat

text \<open>The constructor marks the root page as a leaf.\<close>

definition new_BtreeOLC :: "('b, 'f) BufferManager \<Rightarrow> 'b \<Rightarrow> 'b btree_olc result" where
  "new_BtreeOLC M b =
     bind_result (bm_Pin M 0 b) (\<lambda>(root_page, b1).
       Inr \<lparr>buf_mgr = bm_store M root_page (\<lambda>p. p\<lparr>is_leaf := True\<rparr>) b1, tree_height = 1\<rparr>)"

text \<open>A page operation that may end the process, applied through a page pointer.\<close>

definition update_page ::
  "('b, 'f) BufferManager \<Rightarrow> 'f \<Rightarrow> (page \<Rightarrow> page result) \<Rightarrow> 'b \<Rightarrow> 'b result" where
  "update_page M fr f b = bind_result (f (bm_load M b fr)) (\<lambda>p. Inr (bm_store M fr (\<lambda>_. p) b))"

definition deref :: "'f option \<Rightarrow> 'f result" where
  "deref fr = (case fr of None \<Rightarrow> Inl NullDeref | Some f \<Rightarrow> Inr f)"

definition BuildSiblingConn :: "('b, 'f) BufferManager \<Rightarrow> nat \<Rightarrow> nat \<Rightarrow> 'b \<Rightarrow> 'b result" where
  "BuildSiblingConn M left right b =
     (if left = 0 then
        bind_result (deref (bm_Lookup M right b)) (\<lambda>right_p.
          Inr (bm_store M right_p (\<lambda>p. p\<lparr>left_sib := 0\<rparr>) b))
      else if right = 0 then
        bind_result (deref (bm_Lookup M left b)) (\<lambda>left_p.
          Inr (bm_store M left_p (\<lambda>p. p\<lparr>right_sib := 0\<rparr>) b))
      else
        bind_result (deref (bm_Lookup M left b)) (\<lambda>left_p.
        bind_result (deref (bm_Lookup M right b)) (\<lambda>right_p.
          let b1 = bm_store M right_p (\<lambda>p. p\<lparr>right_sib := right_sib (bm_load M b left_p)\<rparr>) b;
              b2 = bm_store M left_p (\<lambda>p. p\<lparr>right_sib := right\<rparr>) b1 in
          Inr (bm_store M right_p (\<lambda>p. p\<lparr>left_sib := left\<rparr>) b2))))"

definition MakeRoot ::
  "('b, 'f) BufferManager \<Rightarrow> slice \<Rightarrow> nat \<Rightarrow> 'b btree_olc \<Rightarrow> 'b btree_olc result" where
  "MakeRoot M sep root_sibling t =
     bind_result (bm_AllocateRoot M 0 (buf_mgr t)) (\<lambda>(new_id, b1).
     bind_result (bm_Pin M 0 b1) (\<lambda>(root_page, b2).
     bind_result (bm_Pin M new_id b2) (\<lambda>(l, b3).
     bind_result (bm_Pin M root_sibling b3) (\<lambda>(r, b4).
     bind_result (if is_leaf (bm_load M b4 l) then BuildSiblingConn M new_id root_sibling b4 else Inr b4) (\<lambda>b5.
     bind_result (bm_Unpin M new_id b5) (\<lambda>b6.
     bind_result (bm_Unpin M root_sibling b6) (\<lambda>b7.
     bind_result (update_page M root_page (\<lambda>p. PageInsertFirstPivotPair p sep new_id root_sibling) b7) (\<lambda>b8.
       Inr (t\<lparr>buf_mgr := b8, tree_height := tree_height t + 1\<rparr>)))))))))"

definition new_child :: "('b, 'f) BufferManager \<Rightarrow> bool \<Rightarrow> 'b \<Rightarrow> (nat \<times> 'f \<times> 'b) result" where
  "new_child M leaf b =
     bind_result (bm_Allocate M b) (\<lambda>(child_id, b1).
     bind_result (bm_Pin M child_id b1) (\<lambda>(child, b2).
       Inr (child_id, child, bm_store M child (\<lambda>p. (PageInit p child_id)\<lparr>is_leaf := leaf\<rparr>) b2)))"

definition SplitInnerNode :: "('b, 'f) BufferManager \<Rightarrow> nat \<Rightarrow> 'b \<Rightarrow> (slice \<times> nat \<times> 'b) result" where
  "SplitInnerNode M pg_id b =
     bind_result (deref (bm_Lookup M pg_id b)) (\<lambda>page.
       if is_leaf (bm_load M b page) then Inl AssertFailed
       else if \<not> item_num (bm_load M b page) > 0 then Inl AssertFailed
       else bind_result (new_child M False b) (\<lambda>(child_id, child, b1).
         let sep = GetInnerPageSplitSep (bm_load M b1 page) in
         bind_result (InnerPageSplit (bm_load M b1 page) (bm_load M b1 child)) (\<lambda>(p, c).
           let b2 = bm_store M child (\<lambda>_. c) (bm_store M page (\<lambda>_. p) b1) in
           bind_result (bm_Unpin M child_id b2) (\<lambda>b3. Inr (sep, child_id, b3)))))"

definition SplitLeafNode :: "('b, 'f) BufferManager \<Rightarrow> nat \<Rightarrow> 'b \<Rightarrow> (slice \<times> nat \<times> 'b) result" where
  "SplitLeafNode M pg_id b =
     bind_result (deref (bm_Lookup M pg_id b)) (\<lambda>page.
       if \<not> is_leaf (bm_load M b page) then Inl AssertFailed
       else if \<not> item_num (bm_load M b page) > 0 then Inl AssertFailed
       else bind_result (new_child M True b) (\<lambda>(child_id, child, b1).
         let sep = GetLeafPageSplitSep (bm_load M b1 page) in
         bind_result (LeafPageSplit (bm_load M b1 page) (bm_load M b1 child)) (\<lambda>(p, c).
           let b2 = bm_store M child (\<lambda>_. c) (bm_store M page (\<lambda>_. p) b1) in
           bind_result (BuildSiblingConn M pg_id child_id b2) (\<lambda>b3.
           bind_result (bm_Unpin M child_id b3) (\<lambda>b4. Inr (sep, child_id, b4))))))"

text \<open>The result says whether the upgrade failed; a failed exchange leaves the word alone.\<close>

definition upgrade_lock :: "('b, 'f) BufferManager \<Rightarrow> 'f \<Rightarrow> 64 word \<Rightarrow> 'b \<Rightarrow> bool \<times> 'b" where
  "upgrade_lock M fr version b =
     (let (w, _, need_restart) = UpgradeToWriteLockOrRestart (lock_of M b fr) version False in
      (need_restart, bm_store M fr (\<lambda>p. p\<lparr>opt_lock := w\<rparr>) b))"

definition write_unlock :: "('b, 'f) BufferManager \<Rightarrow> 'f \<Rightarrow> 'b \<Rightarrow> 'b" where
  "write_unlock M fr b = bm_store M fr (\<lambda>p. p\<lparr>opt_lock := WriteUnlock (opt_lock p)\<rparr>) b"

definition unlock_parent ::
  "('b, 'f) BufferManager \<Rightarrow> ('f \<times> 64 word) option \<Rightarrow> 'b \<Rightarrow> 'b result" where
  "unlock_parent M parent b =
     (case parent of None \<Rightarrow> Inr b | Some (pp, _) \<Rightarrow> unpin_page M pp (write_unlock M pp b))"

definition unpin_parent ::
  "('b, 'f) BufferManager \<Rightarrow> ('f \<times> 64 word) option \<Rightarrow> 'b \<Rightarrow> 'b result" where
  "unpin_parent M parent b = (case parent of None \<Rightarrow> Inr b | Some (pp, _) \<Rightarrow> unpin_page M pp b)"

text \<open>
  Splitting a full page, for inner pages and leaves alike: lock the parent and the page, split,
  publish the separator, unlock, unpin. Every path of it ends in a restart.
\<close>

definition split_page ::
  "('b, 'f) BufferManager \<Rightarrow> 'f \<Rightarrow> ('f \<times> 64 word) option \<Rightarrow> 'b btree_olc \<Rightarrow> 'b btree_olc result" where
  "split_page M cur_page parent t =
     (let b = buf_mgr t; pg = pid_of M b cur_page in
      bind_result (if is_leaf (bm_load M b cur_page) then SplitLeafNode M pg b else SplitInnerNode M pg b)
        (\<lambda>(sep, new_pg, b1).
      bind_result (case parent of
          Some (pp, _) \<Rightarrow> bind_result (update_page M pp (\<lambda>p. PageInsertPivotPair p sep new_pg) b1) (\<lambda>b2.
            Inr (t\<lparr>buf_mgr := b2\<rparr>))
        | None \<Rightarrow> MakeRoot M sep new_pg (t\<lparr>buf_mgr := b1\<rparr>)) (\<lambda>t1.
      bind_result (unlock_parent M parent (write_unlock M cur_page (buf_mgr t1))) (\<lambda>b3.
      bind_result (unpin_page M cur_page b3) (\<lambda>b4. Inr (t1\<lparr>buf_mgr := b4\<rparr>))))))"

definition lock_and_split ::
  "('b, 'f) BufferManager \<Rightarrow> 'f \<Rightarrow> 64 word \<Rightarrow> ('f \<times> 64 word) option \<Rightarrow> 'b btree_olc \<Rightarrow> 'b btree_olc result" where
  "lock_and_split M cur_page version_node parent t =
     (let b = buf_mgr t;
          (parent_failed, b1) = (case parent of None \<Rightarrow> (False, b) | Some (pp, v) \<Rightarrow> upgrade_lock M pp v b) in
      if parent_failed then
        if is_leaf (bm_load M b1 cur_page) then
          bind_result (unpin_parent M parent b1) (\<lambda>b2.
          bind_result (unpin_page M cur_page b2) (\<lambda>b3. Inr (t\<lparr>buf_mgr := b3\<rparr>)))
        else
          bind_result (unpin_page M cur_page b1) (\<lambda>b2.
          bind_result (unpin_parent M parent b2) (\<lambda>b3. Inr (t\<lparr>buf_mgr := b3\<rparr>)))
      else let (failed, b2) = upgrade_lock M cur_page version_node b1 in
        if failed then
          bind_result (unlock_parent M parent b2) (\<lambda>b3.
          bind_result (unpin_page M cur_page b3) (\<lambda>b4. Inr (t\<lparr>buf_mgr := b4\<rparr>)))
        else if parent = None \<and> pid_of M b2 cur_page \<noteq> 0 then
          bind_result (unpin_page M cur_page (write_unlock M cur_page b2)) (\<lambda>b3. Inr (t\<lparr>buf_mgr := b3\<rparr>))
        else split_page M cur_page parent (t\<lparr>buf_mgr := b2\<rparr>))"

text \<open>Writing the pair into a leaf that has room.\<close>

definition insert_leaf ::
  "('b, 'f) BufferManager \<Rightarrow> slice \<Rightarrow> slice \<Rightarrow> 'f \<Rightarrow> 64 word \<Rightarrow> ('f \<times> 64 word) option \<Rightarrow> 'b btree_olc \<Rightarrow>
    (unit outcome \<times> 'b btree_olc) result" where
  "insert_leaf M key val cur_page version_node parent t =
     (let (failed, b1) = upgrade_lock M cur_page version_node (buf_mgr t) in
      if failed then
        bind_result (unpin_parent M parent b1) (\<lambda>b2.
        bind_result (unpin_page M cur_page b2) (\<lambda>b3. Inr (Restart, t\<lparr>buf_mgr := b3\<rparr>)))
      else if (case parent of None \<Rightarrow> False | Some (pp, v) \<Rightarrow> ReadUnlockOrRestart (lock_of M b1 pp) v False) then
        bind_result (unpin_page M cur_page (write_unlock M cur_page b1)) (\<lambda>b2.
        bind_result (unpin_parent M parent b2) (\<lambda>b3. Inr (Restart, t\<lparr>buf_mgr := b3\<rparr>)))
      else
        bind_result (update_page M cur_page (\<lambda>p. PageInsertKvpair p key val) b1) (\<lambda>b2.
        bind_result (unpin_parent M parent (write_unlock M cur_page b2)) (\<lambda>b3.
        bind_result (unpin_page M cur_page b3) (\<lambda>b4. Inr (Done (), t\<lparr>buf_mgr := b4\<rparr>)))))"

partial_function (option) insert_descend ::
  "('b, 'f) BufferManager \<Rightarrow> slice \<Rightarrow> slice \<Rightarrow> 'f \<Rightarrow> 64 word \<Rightarrow> ('f \<times> 64 word) option \<Rightarrow> 'b btree_olc \<Rightarrow>
    (unit outcome \<times> 'b btree_olc) result option" where
  "insert_descend M key val cur_page version_node parent t =
     (if is_leaf (bm_load M (buf_mgr t) cur_page) then
        Some (if LeafPageIsFull (bm_load M (buf_mgr t) cur_page) key val
              then bind_result (lock_and_split M cur_page version_node parent t) (\<lambda>t1. Inr (Restart, t1))
              else insert_leaf M key val cur_page version_node parent t)
      else if InnerPageIsFull (bm_load M (buf_mgr t) cur_page) key then
        Some (bind_result (lock_and_split M cur_page version_node parent t) (\<lambda>t1. Inr (Restart, t1)))
      else case release_parent M cur_page parent (buf_mgr t) of
        Inl e \<Rightarrow> Some (Inl e)
      | Inr (need_restart, b1) \<Rightarrow>
          if need_restart then Some (Inr (Restart, t\<lparr>buf_mgr := b1\<rparr>))
          else case step_child M key cur_page version_node b1 of
            Inl e \<Rightarrow> Some (Inl e)
          | Inr (out, b2) \<Rightarrow>
             (case out of
                Restart \<Rightarrow> Some (Inr (Restart, t\<lparr>buf_mgr := b2\<rparr>))
              | Done nxt \<Rightarrow>
                  insert_descend M key val (fst nxt) (snd nxt) (Some (cur_page, version_node)) (t\<lparr>buf_mgr := b2\<rparr>)))"

definition insert_attempt ::
  "('b, 'f) BufferManager \<Rightarrow> slice \<Rightarrow> slice \<Rightarrow> 'b btree_olc \<Rightarrow> (unit outcome \<times> 'b btree_olc) result option" where
  "insert_attempt M key val t =
     (case enter_root M (buf_mgr t) of
        Inl e \<Rightarrow> Some (Inl e)
      | Inr (Restart, b1) \<Rightarrow> Some (Inr (Restart, t\<lparr>buf_mgr := b1\<rparr>))
      | Inr (Done (root_page, version_node), b1) \<Rightarrow>
          insert_descend M key val root_page version_node None (t\<lparr>buf_mgr := b1\<rparr>))"

partial_function (option) Olc_Insert ::
  "('b, 'f) BufferManager \<Rightarrow> slice \<Rightarrow> slice \<Rightarrow> 'b btree_olc \<Rightarrow> 'b btree_olc result option" where
  "Olc_Insert M key val t =
     (case insert_attempt M key val t of
        None \<Rightarrow> None
      | Some r \<Rightarrow>
         (case r of
            Inl e \<Rightarrow> Some (Inl e)
          | Inr (out, t1) \<Rightarrow>
             (case out of Restart \<Rightarrow> Olc_Insert M key val t1 | Done _ \<Rightarrow> Some (Inr t1))))"

declare insert_descend.simps [code] Olc_Insert.simps [code]

definition Olc_Update ::
  "('b, 'f) BufferManager \<Rightarrow> slice \<Rightarrow> slice \<Rightarrow> 'b btree_olc \<Rightarrow> 'b btree_olc result option" where
  "Olc_Update M key val t = Olc_Insert M key val t"

end
