(* ===== verification/BtreeOlcCorrect.thy ===== *)
theory BtreeOlcCorrect
  imports BtreeOlc
begin

text \<open>
  Correctness of the B-tree with optimistic lock coupling. \<open>otree\<close> is the tree the pages
  represent and \<open>otree_wf\<close> says that every key is in the child a search takes it to. The
  lemmas are proved once, in the contract of the buffer manager, and hold of the sharded
  pool by its interpretation: a query returns what the tree maps the key to, a scan the
  pairs of the range in order, an insertion that meets no full page updates the map, and
  each of them returns, restores the pins and keeps every other page.
\<close>

section \<open>Trees\<close>

datatype otree = OLeaf nat "(slice \<times> slice) list" | ONode nat otree "(slice \<times> otree) list"

fun tid :: "otree \<Rightarrow> nat" where
  "tid (OLeaf i es) = i"
| "tid (ONode i t ts) = i"

fun entries :: "otree \<Rightarrow> (slice \<times> slice) list" where
  "entries (OLeaf i es) = es"
| "entries (ONode i t ts) = entries t @ concat (map (\<lambda>(k, u). entries u) ts)"

fun tree_ids :: "otree \<Rightarrow> nat list" where
  "tree_ids (OLeaf i es) = [i]"
| "tree_ids (ONode i t ts) = i # tree_ids t @ concat (map (\<lambda>(k, u). tree_ids u) ts)"

fun otree_wf :: "otree \<Rightarrow> bool" where
  "otree_wf (OLeaf i es) \<longleftrightarrow> sorted_wrt (<) (map fst es) \<and> [] \<notin> fst ` set es"
| "otree_wf (ONode i t ts) \<longleftrightarrow> ts \<noteq> [] \<and> sorted_wrt (<) (map fst ts) \<and>
     (\<forall>j \<in> {..length ts}. \<forall>e \<in> set (entries ((t # map snd ts) ! j)). lb (map fst ts) (fst e) = j) \<and>
     otree_wf t \<and> (\<forall>(k, u) \<in> set ts. otree_wf u)"

definition page_good :: "page \<Rightarrow> nat \<Rightarrow> bool" where
  "page_good p i \<longleftrightarrow> page_id p = i \<and> \<not> IsLocked (opt_lock p) \<and> \<not> IsObsolete (opt_lock p)"

fun holds :: "(nat \<Rightarrow> page) \<Rightarrow> otree \<Rightarrow> bool" where
  "holds C (OLeaf i es) \<longleftrightarrow> page_good (C i) i \<and> node_leaf (C i) es"
| "holds C (ONode i t ts) \<longleftrightarrow> page_good (C i) i \<and> node_inner (C i) (tid t) (map (\<lambda>(k, u). (k, tid u)) ts) \<and>
     holds C t \<and> (\<forall>(k, u) \<in> set ts. holds C u)"

text \<open>The leaf a search for \<open>k\<close> ends in.\<close>

fun leaf_of :: "otree \<Rightarrow> slice \<Rightarrow> nat \<times> (slice \<times> slice) list" where
  "leaf_of (OLeaf i es) k = (i, es)"
| "leaf_of (ONode i t ts) k = (leaf_of t k # map (\<lambda>(s, u). leaf_of u k) ts) ! lb (map fst ts) k"

text \<open>The inner pages on the way to it.\<close>

fun path :: "otree \<Rightarrow> slice \<Rightarrow> nat list" where
  "path (OLeaf i es) k = []"
| "path (ONode i t ts) k = i # (path t k # map (\<lambda>(s, u). path u k) ts) ! lb (map fst ts) k"

lemma children_nth:
  "(t # map snd ts) ! j = (if j = 0 then t else snd (ts ! (j - 1)))" if "j \<le> length ts"
  using that by (cases j) simp_all

lemma node_cases:
  obtains "lb (map fst ts) k = 0" | j where "lb (map fst ts) k = Suc j" "j < length ts" "ts ! j \<in> set ts"
  using lb_le [of "map fst ts" k] nth_mem [of "lb (map fst ts) k - 1" ts]
  by (cases "lb (map fst ts) k") auto

lemma route_tid:
  "route (tid t) (map (\<lambda>(k, u). (k, tid u)) ts) k =
    (if lb (map fst ts) k = 0 then tid t else tid (snd (ts ! (lb (map fst ts) k - 1))))"
proof -
  have m: "map fst (map (\<lambda>(k, u). (k, tid u)) ts) = map fst ts" by (simp add: comp_def case_prod_beta)
  have "lb (map fst ts) k - 1 < length ts" if "lb (map fst ts) k \<noteq> 0"
    using lb_le [of "map fst ts" k] that by simp
  then show ?thesis unfolding route_def m by (simp add: case_prod_beta)
qed

lemma map_of_concat_nth:
  assumes "j < length xs" "\<And>i. i < length xs \<Longrightarrow> i \<noteq> j \<Longrightarrow> k \<notin> fst ` set (xs ! i)"
  shows "map_of (concat xs) k = map_of (xs ! j) k"
  using assms
proof (induction xs arbitrary: j)
  case (Cons x xs)
  show ?case
  proof (cases j)
    case 0
    have "k \<notin> fst ` set (concat xs)"
    proof
      assume "k \<in> fst ` set (concat xs)"
      then obtain y where y: "y \<in> set xs" "k \<in> fst ` set y" by auto
      then obtain i where "i < length xs" "y = xs ! i" by (auto simp: in_set_conv_nth)
      then show False using Cons.prems(2) [of "Suc i"] 0 y(2) by simp
    qed
    then have "map_of (concat xs) k = None" by (simp only: map_of_eq_None_iff not_False_eq_True)
    then show ?thesis using 0 by (auto simp: map_add_def simp del: map_of_eq_None_iff split: option.split)
  next
    case (Suc i)
    have "k \<notin> fst ` set x" using Cons.prems(2) [of 0] Suc by simp
    then have "map_of x k = None" by (simp add: map_of_eq_None_iff)
    moreover have "map_of (concat xs) k = map_of (xs ! i) k"
      by (rule Cons.IH) (use Cons.prems Suc in force)+
    ultimately show ?thesis using Suc by (simp add: map_add_def)
  qed
qed simp

lemma entries_children: "entries (ONode i t ts) = concat (map entries (t # map snd ts))"
proof -
  have "map (\<lambda>(k, u). entries u) ts = map entries (map snd ts)" by (induction ts) auto
  then show ?thesis by (simp only: entries.simps list.map concat.simps)
qed

lemma map_of_child:
  assumes "otree_wf (ONode i t ts)"
  shows "map_of (entries (ONode i t ts)) k = map_of (entries ((t # map snd ts) ! lb (map fst ts) k)) k"
proof -
  let ?xs = "map entries (t # map snd ts)" and ?j = "lb (map fst ts) k"
  have j: "?j < length ?xs" using lb_le [of "map fst ts" k] by simp
  have "k \<notin> fst ` set (?xs ! i)" if "i < length ?xs" "i \<noteq> ?j" for i
  proof
    assume "k \<in> fst ` set (?xs ! i)"
    then have "k \<in> fst ` set (entries ((t # map snd ts) ! i))" using that(1) by (simp only: nth_map length_map)
    then obtain e where "e \<in> set (entries ((t # map snd ts) ! i))" "k = fst e" by blast
    moreover have "i \<in> {..length ts}" using that(1) by simp
    ultimately have "?j = i" using assms by simp
    then show False using that(2) by simp
  qed
  note eq = map_of_concat_nth [OF j this]
  have "?xs ! ?j = entries ((t # map snd ts) ! ?j)" using j by (intro nth_map) simp
  then show ?thesis unfolding entries_children using eq by simp
qed

lemma map_of_leaf_of: "otree_wf t \<Longrightarrow> map_of (entries t) k = map_of (snd (leaf_of t k)) k"
proof (induction t)
  case (ONode i t ts)
  show ?case
  proof (rule node_cases [of ts k])
    assume "lb (map fst ts) k = 0"
    then show ?thesis using map_of_child [OF ONode.prems, of k] ONode.IH(1) ONode.prems by simp
  next
    fix j assume j: "lb (map fst ts) k = Suc j" "j < length ts" "ts ! j \<in> set ts"
    obtain s u where u: "ts ! j = (s, u)" by (cases "ts ! j")
    have "otree_wf u" using ONode.prems j(3) u by auto
    then have "map_of (entries u) k = map_of (snd (leaf_of u k)) k" using ONode.IH(2) [of "(s, u)" u] j(3) u by simp
    then show ?thesis using map_of_child [OF ONode.prems, of k] j u by simp
  qed
qed simp

lemma leaf_of_holds:
  assumes "holds C t" "otree_wf t"
  shows "page_good (C (fst (leaf_of t k))) (fst (leaf_of t k))" "node_leaf (C (fst (leaf_of t k))) (snd (leaf_of t k))"
    "otree_wf (OLeaf (fst (leaf_of t k)) (snd (leaf_of t k)))" "fst (leaf_of t k) \<in> set (tree_ids t)"
proof -
  have "page_good (C (fst (leaf_of t k))) (fst (leaf_of t k)) \<and> node_leaf (C (fst (leaf_of t k))) (snd (leaf_of t k)) \<and>
    otree_wf (OLeaf (fst (leaf_of t k)) (snd (leaf_of t k))) \<and> fst (leaf_of t k) \<in> set (tree_ids t)"
    using assms
  proof (induction t)
    case (ONode i t ts)
    show ?case
    proof (rule node_cases [of ts k])
      assume "lb (map fst ts) k = 0"
      then show ?thesis using ONode by simp
    next
      fix j assume j: "lb (map fst ts) k = Suc j" "j < length ts" "ts ! j \<in> set ts"
      obtain s u where u: "ts ! j = (s, u)" by (cases "ts ! j")
      have "otree_wf u" "holds C u" using ONode.prems j(3) u by auto
      then show ?thesis using ONode.IH(2) [of "(s, u)" u] j u by (auto intro!: bexI [of _ "(s, u)"])
    qed
  qed simp
  then show "page_good (C (fst (leaf_of t k))) (fst (leaf_of t k))" "node_leaf (C (fst (leaf_of t k))) (snd (leaf_of t k))"
    "otree_wf (OLeaf (fst (leaf_of t k)) (snd (leaf_of t k)))" "fst (leaf_of t k) \<in> set (tree_ids t)" by blast+
qed

lemma path_ids: "set (path t k) \<subseteq> set (tree_ids t)"
proof (induction t)
  case (ONode i t ts)
  show ?case
  proof (rule node_cases [of ts k])
    fix j assume j: "lb (map fst ts) k = Suc j" "j < length ts" "ts ! j \<in> set ts"
    obtain s u where u: "ts ! j = (s, u)" by (cases "ts ! j")
    have "set (path u k) \<subseteq> set (tree_ids u)" using ONode.IH(2) [of "(s, u)" u] j(3) u by simp
    then show ?thesis using j u by (auto intro!: bexI [of _ "(s, u)"])
  qed (use ONode.IH(1) in auto)
qed simp

section \<open>Descending\<close>

text \<open>The pins a call holds, as the list of pinned pages; the root is never counted.\<close>

definition pin_map :: "nat list \<Rightarrow> nat \<Rightarrow> nat" where
  "pin_map xs q = (if q = 0 then 0 else count_list xs q)"

lemma pin_map_pos: "0 < pin_map xs q \<longleftrightarrow> q \<noteq> 0 \<and> q \<in> set xs"
  by (simp add: pin_map_def count_list_0_iff flip: neq0_conv)

lemma pin_map_le: "pin_map xs q \<le> length xs"
  by (simp add: pin_map_def count_le_length)

lemma count_list_remove1: "count_list (remove1 q xs) p = (if p = q then count_list xs q - 1 else count_list xs p)"
  by (induction xs) (auto simp: count_list_0_iff)

lemma pin_map_card: "card {q. 0 < pin_map xs q} \<le> length xs"
proof -
  have "{q. 0 < pin_map xs q} \<subseteq> set xs" by (auto simp: pin_map_pos)
  then have "card {q. 0 < pin_map xs q} \<le> card (set xs)" by (intro card_mono) simp_all
  also have "\<dots> \<le> length xs" by (rule card_length)
  finally show ?thesis .
qed

lemma pin_map_Nil [simp]: "pin_map [] = (\<lambda>_. 0)"
  by (simp add: pin_map_def fun_eq_iff)

lemma clean_fields:
  assumes "clean p = c"
  shows "opt_lock p = opt_lock c" "page_id p = page_id c" "is_leaf p = is_leaf c" "right_sib p = right_sib c"
    "item_num p = item_num c" "InnerPageIsFull p k = InnerPageIsFull c k" "LeafPageIsFull p k w = LeafPageIsFull c k w"
    "node_leaf p es = node_leaf c es" "node_inner p c0 fs = node_inner c c0 fs"
  using assms by (auto simp: InnerPageIsFull_def LeafPageIsFull_def simp flip: assms)

context page_store
begin

abbreviation at :: "'b \<Rightarrow> nat \<Rightarrow> 'f \<Rightarrow> bool" where
  "at b q fr \<equiv> ok b \<and> q \<in> ids b \<and> bm_Lookup M q b = Some fr"

abbreviation held :: "'b \<Rightarrow> nat \<Rightarrow> bool" where
  "held b q \<equiv> q = 0 \<or> 0 < pins b q"

lemma load_fields:
  assumes "at b q fr"
  shows "opt_lock (bm_load M b fr) = opt_lock (cont b q)" "page_id (bm_load M b fr) = page_id (cont b q)"
    "is_leaf (bm_load M b fr) = is_leaf (cont b q)" "right_sib (bm_load M b fr) = right_sib (cont b q)"
    "item_num (bm_load M b fr) = item_num (cont b q)"
    "InnerPageIsFull (bm_load M b fr) k = InnerPageIsFull (cont b q) k"
    "LeafPageIsFull (bm_load M b fr) k w = LeafPageIsFull (cont b q) k w"
    "node_leaf (bm_load M b fr) es = node_leaf (cont b q) es"
    "node_inner (bm_load M b fr) c0 fs = node_inner (cont b q) c0 fs"
  using clean_fields [OF load, of b q fr] assms by auto

text \<open>The pages are as before: what a call that only reads leaves.\<close>

definition same :: "'b \<Rightarrow> 'b \<Rightarrow> bool" where
  "same b b' \<longleftrightarrow> ok b' \<and> ids b' = ids b \<and> cap b' = cap b \<and> (\<forall>q \<in> ids b. cont b' q = cont b q)"

lemma same_refl: "ok b \<Longrightarrow> same b b"
  by (simp add: same_def)

lemma same_trans: "same b b1 \<Longrightarrow> same b1 b2 \<Longrightarrow> same b b2"
  by (simp add: same_def)

lemma kept_same: "kept b b' \<Longrightarrow> same b b'"
  by (simp add: same_def kept_def)

lemma sameD: "same b b' \<Longrightarrow> ok b'" "same b b' \<Longrightarrow> ids b' = ids b" "same b b' \<Longrightarrow> cap b' = cap b"
  "same b b' \<Longrightarrow> q \<in> ids b \<Longrightarrow> cont b' q = cont b q"
  by (simp_all add: same_def)

lemma at_kept: "kept b b' \<Longrightarrow> at b q fr \<Longrightarrow> held b q \<Longrightarrow> held b' q \<Longrightarrow> at b' q fr"
  unfolding kept_def by auto

lemma cont_kept: "kept b b' \<Longrightarrow> q \<in> ids b \<Longrightarrow> cont b' q = cont b q"
  unfolding kept_def by auto

lemma ids_kept: "kept b b' \<Longrightarrow> ids b' = ids b \<and> cap b' = cap b \<and> ok b'"
  unfolding kept_def by auto

lemma pin_at:
  assumes "ok b" "q \<in> ids b" "pins b = pin_map xs" "length xs < cap b" "length xs < 2 ^ 32 - 1"
  shows "\<exists>fr b'. bm_Pin M q b = Inr (fr, b') \<and> at b' q fr \<and> kept b b' \<and> pins b' = pin_map (q # xs)"
proof -
  have c: "card {x. 0 < pins b x} < cap b" unfolding assms(3) using pin_map_card [of xs] assms(4) by linarith
  have n: "pins b q < 2 ^ 32 - 1" unfolding assms(3) using pin_map_le [of xs q] assms(5) by linarith
  obtain fr b' where b': "bm_Pin M q b = Inr (fr, b')" "bm_Lookup M q b' = Some fr" "kept b b'"
    "pins b' = (if q = 0 then pins b else (pins b)(q := Suc (pins b q)))"
    using pin [OF assms(1,2) c n] by blast
  have "pins b' = pin_map (q # xs)" using b'(4) assms(3) by (auto simp: pin_map_def fun_eq_iff)
  then show ?thesis using b' assms(2) ids_kept [OF b'(3)] by auto
qed

lemma unpin_at:
  assumes "at b q fr" "pins b = pin_map xs" "q = 0 \<or> q \<in> set xs" "page_id (cont b q) = q"
  shows "\<exists>b'. unpin_page M fr b = Inr b' \<and> kept b b' \<and> pins b' = pin_map (remove1 q xs)"
proof -
  have h: "held b q" using assms(2,3) by (auto simp: pin_map_pos)
  obtain b' where b': "bm_Unpin M q b = Inr b'" "kept b b'"
    "pins b' = (if q = 0 then pins b else (pins b)(q := pins b q - 1))"
    using unpin [OF _ h] assms(1) by blast
  have "pins b' = pin_map (remove1 q xs)"
    using b'(3) assms(2) by (auto simp: pin_map_def fun_eq_iff count_list_remove1)
  moreover have "pid_of M b fr = q" using load_fields(2) [OF assms(1)] assms(4) by (simp add: pid_of_def)
  ultimately show ?thesis using b'(1,2) by (simp add: unpin_page_def)
qed

text \<open>The parent a descent remembers: still pinned, with the version its page has.\<close>

definition parent_ok :: "'b \<Rightarrow> ('f \<times> 64 word) option \<Rightarrow> nat list \<Rightarrow> bool" where
  "parent_ok b parent qs \<longleftrightarrow>
     (case parent of
        None \<Rightarrow> qs = []
      | Some (pp, pv) \<Rightarrow> \<exists>q. qs = [q] \<and> at b q pp \<and> pv = opt_lock (cont b q) \<and> page_id (cont b q) = q \<and>
          \<not> is_leaf (cont b q))"

lemma release_parent_ok:
  assumes "ok b" "pins b = pin_map (i # qs)" "parent_ok b parent qs" "at b i cur"
  shows "\<exists>b'. release_parent M cur parent b = Inr (False, b') \<and> kept b b' \<and> pins b' = pin_map [i] \<and> at b' i cur"
proof (cases parent)
  case None
  then show ?thesis using assms by (simp add: release_parent_def parent_ok_def kept_refl)
next
  case (Some pr)
  obtain pp pv where pr: "pr = (pp, pv)" by (cases pr)
  obtain q where q: "qs = [q]" "at b q pp" "pv = opt_lock (cont b q)" "page_id (cont b q) = q"
    using assms(3) Some pr by (auto simp: parent_ok_def)
  obtain b' where b': "unpin_page M pp b = Inr b'" "kept b b'" "pins b' = pin_map (remove1 q (i # qs))"
    using unpin_at [OF q(2) assms(2) _ q(4)] q(1) by auto
  have pm: "pins b' = pin_map [i]" unfolding b'(3) using q(1) by (cases "q = i") simp_all
  have "\<not> ReadUnlockOrRestart (lock_of M b pp) pv False"
    using load_fields(1) [OF q(2)] q(3) by (simp add: ReadUnlockOrRestart_def lock_of_def)
  moreover have "at b' i cur"
    by (rule at_kept [OF b'(2) assms(4)]) (use assms(2) pm in \<open>auto simp: pin_map_pos\<close>)
  ultimately show ?thesis using b' pm Some pr by (simp add: release_parent_def)
qed

lemma step_child_ok:
  assumes cur: "at b i cur" "pins b = pin_map [i]" "v = opt_lock (cont b i)"
    and node: "node_inner (cont b i) c0 es" "sorted_wrt (<) (map fst es)" "es \<noteq> []"
    and c: "c = route c0 es key" "c \<in> ids b" "page_good (cont b c) c" and cap: "2 \<le> cap b"
  shows "\<exists>f b'. step_child M key cur v b = Inr (Done (f, opt_lock (cont b c)), b') \<and> at b' c f \<and> at b' i cur \<and>
    kept b b' \<and> pins b' = pin_map [c, i]"
proof -
  have inner: "node_inner (bm_load M b cur) c0 es" using node(1) load_fields(9) [OF cur(1)] by simp
  have read: "PageReadChildAt (bm_load M b cur) (PageLowerBound (bm_load M b cur) key) = Inr c"
    using PageReadChildAt_route [OF inner node(2,3)] c(1) by simp
  obtain f b' where b': "bm_Pin M c b = Inr (f, b')" "at b' c f" "kept b b'" "pins b' = pin_map (c # [i])"
    using pin_at [of b c "[i]"] cur cap c(2) by auto
  have "at b' i cur"
    by (rule at_kept [OF b'(3) cur(1)]) (use cur(2) b'(4) in \<open>auto simp: pin_map_pos\<close>)
  moreover have "\<not> CheckOrRestart (lock_of M b cur) v False"
    using load_fields(1) [OF cur(1)] cur(3) by (simp add: CheckOrRestart_def ReadUnlockOrRestart_def lock_of_def)
  moreover have "lock_of M b' f = opt_lock (cont b c)"
    using load_fields(1) [OF b'(2)] cont_kept [OF b'(3) c(2)] by (simp add: lock_of_def)
  ultimately show ?thesis
    using read b' c(3) by (simp add: step_child_def Let_def ReadLockOrRestart_def page_good_def)
qed

lemma holds_child:
  assumes "holds C (ONode i t ts)" "otree_wf (ONode i t ts)"
  obtains u where "u = t \<or> (\<exists>s. (s, u) \<in> set ts)" "route (tid t) (map (\<lambda>(k, u). (k, tid u)) ts) key = tid u"
    "holds C u" "otree_wf u" "leaf_of (ONode i t ts) key = leaf_of u key \<and> path (ONode i t ts) key = i # path u key" "set (tree_ids u) \<subseteq> set (tree_ids (ONode i t ts))"
proof (rule node_cases [of ts key])
  assume "lb (map fst ts) key = 0"
  moreover have "set (tree_ids t) \<subseteq> set (tree_ids (ONode i t ts))" by auto
  ultimately show thesis using that [of t] assms by (simp add: route_tid del: tree_ids.simps)
next
  fix j assume j: "lb (map fst ts) key = Suc j" "j < length ts" "ts ! j \<in> set ts"
  obtain s u where u: "ts ! j = (s, u)" by (cases "ts ! j")
  show thesis
  proof (rule that [of u])
    show "u = t \<or> (\<exists>s. (s, u) \<in> set ts)" using j(3) u by auto
    show "route (tid t) (map (\<lambda>(k, u). (k, tid u)) ts) key = tid u" using j u by (simp add: route_tid)
    show "holds C u" "otree_wf u" using assms j(3) u by auto
    show "leaf_of (ONode i t ts) key = leaf_of u key \<and> path (ONode i t ts) key = i # path u key" using j u by simp
    show "set (tree_ids u) \<subseteq> set (tree_ids (ONode i t ts))" using j(3) u by force
  qed
qed

lemma tid_in_ids: "tid t \<in> set (tree_ids t)"
  by (cases t) simp_all

lemma holds_good: "holds C t \<Longrightarrow> page_good (C (tid t)) (tid t)"
  by (cases t) simp_all

lemma holds_cong: "(\<And>q. q \<in> set (tree_ids t) \<Longrightarrow> C' q = C q) \<Longrightarrow> holds C' t = holds C t"
proof (induction t)
  case (ONode i t ts)
  have "holds C' u = holds C u" if "(s, u) \<in> set ts" for s u
    using ONode.IH(2) [OF that, of u] ONode.prems that by force
  then show ?case using ONode.IH(1) ONode.prems by (auto split: prod.splits)
qed simp

lemma holds_same:
  assumes "same b b'" "set (tree_ids t) \<subseteq> ids b" "holds (cont b) t"
  shows "holds (cont b') t"
  using holds_cong [of t "cont b'" "cont b"] assms sameD(4) [OF assms(1)] by blast

lemma descend_ok:
  assumes "holds (cont b) t" "otree_wf t" "set (tree_ids t) \<subseteq> ids b" "2 \<le> cap b"
    and "at b (tid t) cur" "pins b = pin_map (tid t # qs)" "parent_ok b parent qs" "v = opt_lock (cont b (tid t))"
  shows "\<exists>cur' v' parent' qs' b'. descend M key cur v parent b = Some (Inr (Done (cur', v', parent'), b')) \<and>
    same b b' \<and> at b' (fst (leaf_of t key)) cur' \<and> v' = opt_lock (cont b (fst (leaf_of t key))) \<and>
    pins b' = pin_map (fst (leaf_of t key) # qs') \<and> parent_ok b' parent' qs' \<and>
    ((\<forall>i \<in> set (path t key). \<not> InnerPageIsFull (cont b i) key) \<longrightarrow>
      insert_descend M key val cur v parent (T\<lparr>buf_mgr := b\<rparr>) = insert_descend M key val cur' v' parent' (T\<lparr>buf_mgr := b'\<rparr>))"
  using assms
proof (induction t arbitrary: b cur v parent qs)
  case (OLeaf i es)
  have "is_leaf (bm_load M b cur)" using OLeaf.prems(1,5) load_fields(3) by (auto simp: node_leaf_def)
  then have "descend M key cur v parent b = Some (Inr (Done (cur, v, parent), b))" by (subst descend.simps) simp
  moreover have "same b b" using OLeaf.prems(5) same_refl by blast
  ultimately show ?case using OLeaf.prems by (intro exI conjI) simp_all
next
  case (ONode i t ts)
  have okb: "ok b" using ONode.prems(5) by blast
  obtain b1 where b1: "release_parent M cur parent b = Inr (False, b1)" "kept b b1" "pins b1 = pin_map [i]" "at b1 i cur"
    using release_parent_ok [OF okb ONode.prems(6) [simplified] ONode.prems(7)] ONode.prems(5) by auto
  note S1 = kept_same [OF b1(2)]
  have iid: "i \<in> ids b" using ONode.prems(3) by simp
  have h1: "holds (cont b1) (ONode i t ts)" by (rule holds_same [OF S1 ONode.prems(3,1)])
  let ?es = "map (\<lambda>(k, u). (k, tid u)) ts"
  obtain u where u: "u = t \<or> (\<exists>s. (s, u) \<in> set ts)" "route (tid t) ?es key = tid u" "holds (cont b1) u" "otree_wf u"
    "leaf_of (ONode i t ts) key = leaf_of u key \<and> path (ONode i t ts) key = i # path u key" "set (tree_ids u) \<subseteq> set (tree_ids (ONode i t ts))"
    by (rule holds_child [OF h1 ONode.prems(2), where key = key])
  have keys: "map fst ?es = map fst ts" by (simp add: comp_def case_prod_beta)
  have node: "node_inner (cont b1 i) (tid t) ?es" "sorted_wrt (<) (map fst ?es)" "?es \<noteq> []"
    and good: "page_good (cont b1 i) i"
    using h1 ONode.prems(2) unfolding keys by auto
  have uid: "set (tree_ids u) \<subseteq> ids b1" using u(6) ONode.prems(3) sameD(2) [OF S1] by blast
  have uc: "tid u \<in> ids b1" using uid tid_in_ids by blast
  have cap1: "2 \<le> cap b1" using sameD(3) [OF S1] ONode.prems(4) by simp
  have v: "v = opt_lock (cont b1 i)" using ONode.prems(8) sameD(4) [OF S1 iid] by simp
  obtain f b2 where b2: "step_child M key cur v b1 = Inr (Done (f, opt_lock (cont b1 (tid u))), b2)" "at b2 (tid u) f"
    "at b2 i cur" "kept b1 b2" "pins b2 = pin_map [tid u, i]"
    using step_child_ok [OF b1(4,3) v node u(2) [symmetric] uc holds_good [OF u(3)] cap1] by blast
  note S2 = kept_same [OF b2(4)]
  have i1: "i \<in> ids b1" using iid sameD(2) [OF S1] by simp
  have P2: "parent_ok b2 (Some (cur, v)) [i]"
    using b2(3) v good node(1) sameD(4) [OF S2 i1] by (simp add: parent_ok_def page_good_def node_inner_def)
  have "\<exists>cur' v' parent' qs' b'. descend M key f (opt_lock (cont b1 (tid u))) (Some (cur, v)) b2 =
      Some (Inr (Done (cur', v', parent'), b')) \<and>
    same b2 b' \<and> at b' (fst (leaf_of u key)) cur' \<and> v' = opt_lock (cont b2 (fst (leaf_of u key))) \<and>
    pins b' = pin_map (fst (leaf_of u key) # qs') \<and> parent_ok b' parent' qs' \<and>
    ((\<forall>i \<in> set (path u key). \<not> InnerPageIsFull (cont b2 i) key) \<longrightarrow>
      insert_descend M key val f (opt_lock (cont b1 (tid u))) (Some (cur, v)) (T\<lparr>buf_mgr := b2\<rparr>) =
        insert_descend M key val cur' v' parent' (T\<lparr>buf_mgr := b'\<rparr>))"
  proof -
    have pr: "holds (cont b2) u" "set (tree_ids u) \<subseteq> ids b2" "2 \<le> cap b2"
      "pins b2 = pin_map (tid u # [i])" "opt_lock (cont b1 (tid u)) = opt_lock (cont b2 (tid u))"
      using holds_same [OF S2 uid u(3)] uid cap1 b2(5) sameD(2,3) [OF S2] sameD(4) [OF S2 uc] by simp_all
    from u(1) show ?thesis
    proof (elim disjE exE)
      assume [simp]: "u = t"
      show ?thesis using ONode.IH(1) [OF _ _ _ _ _ _ P2] pr b2(2) u(4) by simp
    next
      fix s assume s: "(s, u) \<in> set ts"
      show ?thesis using ONode.IH(2) [OF s _ pr(1) u(4) pr(2,3) b2(2) pr(4) P2 pr(5)] by simp
    qed
  qed
  then obtain cur' v' parent' qs' b' where D: "descend M key f (opt_lock (cont b1 (tid u))) (Some (cur, v)) b2 =
      Some (Inr (Done (cur', v', parent'), b'))"
    "same b2 b'" "at b' (fst (leaf_of u key)) cur'" "v' = opt_lock (cont b2 (fst (leaf_of u key)))"
    "pins b' = pin_map (fst (leaf_of u key) # qs')" "parent_ok b' parent' qs'"
    "(\<forall>i \<in> set (path u key). \<not> InnerPageIsFull (cont b2 i) key) \<longrightarrow>
      insert_descend M key val f (opt_lock (cont b1 (tid u))) (Some (cur, v)) (T\<lparr>buf_mgr := b2\<rparr>) =
        insert_descend M key val cur' v' parent' (T\<lparr>buf_mgr := b'\<rparr>)" by blast
  have nl: "\<not> is_leaf (bm_load M b cur)"
    using ONode.prems(1,5) load_fields(3) [of b i cur] by (auto simp: node_inner_def)
  then have "descend M key cur v parent b = Some (Inr (Done (cur', v', parent'), b'))"
    using b1(1) b2(1) D(1) by (subst descend.simps) simp
  moreover have "same b b'" using same_trans [OF S1 same_trans [OF S2 D(2)]] .
  moreover have "v' = opt_lock (cont b (fst (leaf_of u key)))"
    using D(4) leaf_of_holds(4) [OF u(3,4), of key] uid sameD(4) [OF S2] sameD(2,4) [OF S1] by auto
  moreover have "insert_descend M key val cur v parent (T\<lparr>buf_mgr := b\<rparr>) = insert_descend M key val cur' v' parent' (T\<lparr>buf_mgr := b'\<rparr>)"
    if room: "\<forall>i \<in> set (path (ONode i t ts) key). \<not> InnerPageIsFull (cont b i) key"
  proof -
    have "\<not> InnerPageIsFull (bm_load M b cur) key" using room ONode.prems(5) load_fields(6) [of b i cur key] by simp
    moreover have "\<not> InnerPageIsFull (cont b2 q) key" if "q \<in> set (path u key)" for q
      using room u(5) that path_ids [of u key] uid sameD(4) [OF S2] sameD(2,4) [OF S1] by auto
    ultimately show ?thesis
      using nl b1(1) b2(1) D(7) by (subst insert_descend.simps) simp
  qed
  ultimately show ?case using D(3,5,6) conjunct1 [OF u(5)] by (intro exI conjI impI) simp_all
qed

end

end
