(* ===== verification/BtreeOlcOps.thy ===== *)
theory BtreeOlcOps
  imports BtreeOlcCorrect
begin

text \<open>
  The operations of the B-tree against the map its tree represents, proved in the contract of
  the buffer manager and read off for the sharded pool: what \<^verbatim>\<open>Query\<close> returns, what a scan
  collects, and what \<^verbatim>\<open>Insert\<close> does when no page on the way is full.
\<close>

section \<open>Leaves\<close>

lemma leaf_pos:
  assumes "node_leaf p es" "sorted_wrt (<) (map fst es)" "es \<noteq> []"
  shows "nat (PageLowerBound p k + 1) = lb (map fst es) k"
  using lower_bound_lb [OF node_leaf_keys [OF assms(1)] assms(2)] assms(3)
  by (simp add: PageLowerBound_def Let_def)

lemma leaf_key_at:
  assumes "node_leaf p es" "i < length es"
  shows "PageReadKeyAtOffset p i = fst (es ! i)" "PageReadValAt p i = Inr (snd (es ! i))"
  using assms node_leaf_decode [OF assms] node_leaf_item_num [OF assms(1)]
  by (simp_all add: PageReadKeyAtOffset_def PageReadValAt_def node_leaf_def)

lemma leaf_lookup:
  assumes "node_leaf p es" "sorted_wrt (<) (map fst es)" "pos = nat (PageLowerBound p k + 1)"
  shows "(if pos < item_num p then
      if Slice_compare (PageReadKeyAtOffset p pos) k = 0
      then bind_result (PageReadValAt p pos) (\<lambda>v. Inr (Some v)) else Inr None
    else Inr None) = Inr (map_of es k)"
proof (cases "es = []")
  case True
  then show ?thesis using node_leaf_item_num [OF assms(1)] by simp
next
  case False
  have pos: "pos = lb (map fst es) k" using leaf_pos [OF assms(1,2) False] assms(3) by simp
  have n: "item_num p = length es" by (rule node_leaf_item_num [OF assms(1)])
  have d: "distinct (map fst es)" using assms(2) strict_sorted_iff by blast
  show ?thesis
  proof (cases "k \<in> set (map fst es)")
    case True
    then have h: "hit (map fst es) k" using hit_iff [OF assms(2)] by blast
    then have "es ! pos \<in> set es" "fst (es ! pos) = k" "pos < length es" using pos by (auto simp: nth_map)
    then have "map_of es k = Some (snd (es ! pos))" using d by (metis map_of_is_SomeI prod.collapse)
    then show ?thesis using leaf_key_at [OF assms(1), of pos] h pos n by (auto simp: nth_map)
  next
    case False
    then have nh: "\<not> hit (map fst es) k" using hit_iff [OF assms(2)] by blast
    have "map_of es k = None" using False by (simp add: map_of_eq_None_iff)
    then show ?thesis using leaf_key_at(1) [OF assms(1), of pos] nh pos n by auto
  qed
qed

section \<open>Query\<close>

context page_store
begin

text \<open>The tree is in the pages of the store, under the root page, and nothing is pinned.\<close>

definition tree_at :: "'b \<Rightarrow> otree \<Rightarrow> bool" where
  "tree_at b t \<longleftrightarrow> ok b \<and> tid t = 0 \<and> holds (cont b) t \<and> otree_wf t \<and> set (tree_ids t) \<subseteq> ids b \<and>
     distinct (tree_ids t) \<and> 2 \<le> cap b \<and> pins b = (\<lambda>_. 0)"

lemma tree_at_same: "tree_at b t \<Longrightarrow> same b b' \<Longrightarrow> pins b' = (\<lambda>_. 0) \<Longrightarrow> tree_at b' t"
  using holds_same [of b b' t] sameD [of b b'] by (auto simp: tree_at_def)

lemma enter_root_ok:
  assumes "tree_at b t"
  shows "\<exists>cur b1. enter_root M b = Inr (Done (cur, opt_lock (cont b 0)), b1) \<and> same b b1 \<and> at b1 0 cur \<and>
    pins b1 = pin_map [0] \<and> cont b1 0 = cont b 0"
proof -
  have t: "ok b" "tid t = 0" "holds (cont b) t" "2 \<le> cap b" "pins b = pin_map []"
    using assms by (simp_all add: tree_at_def)
  obtain cur b1 where b1: "bm_Pin M 0 b = Inr (cur, b1)" "at b1 0 cur" "kept b b1" "pins b1 = pin_map [0]"
    using pin_at [OF t(1) root_id [OF t(1)] t(5)] t(4) by auto
  have c: "cont b1 0 = cont b 0" by (rule cont_kept [OF b1(3) root_id [OF t(1)]])
  have "page_good (cont b 0) 0" using holds_good [OF t(3)] t(2) by simp
  then have "enter_root M b = Inr (Done (cur, opt_lock (cont b 0)), b1)"
    using b1(1) load_fields(1,2) [OF b1(2)] c
    by (simp add: enter_root_def ReadLockOrRestart_def lock_of_def pid_of_def page_good_def)
  then show ?thesis using b1 c kept_same [OF b1(3)] by blast
qed

lemma query_leaf_ok:
  assumes cur: "at b i cur" "pins b = pin_map (i # qs)" "parent_ok b parent qs" "v = opt_lock (cont b i)"
    and leaf: "node_leaf (cont b i) es" "sorted_wrt (<) (map fst es)" "page_id (cont b i) = i"
  shows "\<exists>b'. query_leaf M key cur v parent b = Inr (Done (map_of es key), b') \<and> same b b' \<and> pins b' = (\<lambda>_. 0)"
proof -
  let ?p = "bm_load M b cur"
  have p: "node_leaf ?p es" using leaf(1) load_fields(8) [OF cur(1)] by simp
  obtain b1 where b1: "release_parent M cur parent b = Inr (False, b1)" "kept b b1" "pins b1 = pin_map [i]" "at b1 i cur"
    using release_parent_ok [OF _ cur(2,3,1)] cur(1) by blast
  have c: "cont b1 i = cont b i" using cont_kept [OF b1(2)] cur(1) by blast
  obtain b2 where b2: "unpin_page M cur b1 = Inr b2" "kept b1 b2" "pins b2 = pin_map []"
    using unpin_at [OF b1(4,3)] leaf(3) c by auto
  have "\<not> ReadUnlockOrRestart (lock_of M b1 cur) v False"
    using load_fields(1) [OF b1(4)] c cur(4) by (simp add: ReadUnlockOrRestart_def lock_of_def)
  then have "query_leaf M key cur v parent b = Inr (Done (map_of es key), b2)"
    unfolding query_leaf_def Let_def leaf_lookup [OF p leaf(2) refl] using b1(1) b2(1) by simp
  then show ?thesis using same_trans [OF kept_same [OF b1(2)] kept_same [OF b2(2)]] b2(3) by auto
qed

text \<open>Entering the root and descending: at the key's leaf, with the leaf and its parent pinned.\<close>

lemma reach_leaf:
  assumes "tree_at b t" and l: "leaf_of t key = (i, es)"
  obtains root v0 b1 cur v parent qs b2 where "enter_root M b = Inr (Done (root, v0), b1)"
    "descend M key root v0 None b1 = Some (Inr (Done (cur, v, parent), b2))" "same b b2" "at b2 i cur"
    "pins b2 = pin_map (i # qs)" "parent_ok b2 parent qs" "v = opt_lock (cont b2 i)"
    "page_good (cont b2 i) i" "node_leaf (cont b2 i) es" "sorted_wrt (<) (map fst es)"
    "(\<forall>i \<in> set (path t key). \<not> InnerPageIsFull (cont b i) key) \<longrightarrow>
      insert_descend M key val root v0 None (T\<lparr>buf_mgr := b1\<rparr>) = insert_descend M key val cur v parent (T\<lparr>buf_mgr := b2\<rparr>)"
proof -
  have t: "tid t = 0" "holds (cont b) t" "otree_wf t" "set (tree_ids t) \<subseteq> ids b" "2 \<le> cap b"
    using assms(1) by (simp_all add: tree_at_def)
  obtain root b1 where b1: "enter_root M b = Inr (Done (root, opt_lock (cont b 0)), b1)" "same b b1" "at b1 0 root"
    "pins b1 = pin_map [0]" "cont b1 0 = cont b 0" using enter_root_ok [OF assms(1)] by blast
  note S = sameD [OF b1(2)]
  have h1: "holds (cont b1) t" by (rule holds_same [OF b1(2) t(4,2)])
  have ids1: "set (tree_ids t) \<subseteq> ids b1" and cap1: "2 \<le> cap b1" using S(2,3) t(4,5) by simp_all
  have root: "at b1 (tid t) root" "pins b1 = pin_map (tid t # [])" "parent_ok b1 None []"
    "opt_lock (cont b 0) = opt_lock (cont b1 (tid t))"
    using b1(3-5) t(1) by (simp_all add: parent_ok_def)
  obtain cur v parent qs b2 where D: "descend M key root (opt_lock (cont b 0)) None b1 =
      Some (Inr (Done (cur, v, parent), b2))" "same b1 b2" "at b2 i cur" "v = opt_lock (cont b1 i)"
    "pins b2 = pin_map (i # qs)" "parent_ok b2 parent qs"
    "(\<forall>i \<in> set (path t key). \<not> InnerPageIsFull (cont b1 i) key) \<longrightarrow>
      insert_descend M key val root (opt_lock (cont b 0)) None (T\<lparr>buf_mgr := b1\<rparr>) = insert_descend M key val cur v parent (T\<lparr>buf_mgr := b2\<rparr>)"
    using descend_ok [OF h1 t(3) ids1 cap1, of root "[]" None "opt_lock (cont b 0)" key val T, unfolded l fst_conv] root
    by blast
  have c: "cont b2 i = cont b1 i" using sameD(4) [OF D(2)] D(3) sameD(2) [OF D(2)] by simp
  note L = leaf_of_holds [OF h1 t(3), of key, unfolded l fst_conv snd_conv, folded c]
  have "cont b1 q = cont b q" if "q \<in> set (path t key)" for q
    using that path_ids [of t key] t(4) sameD(4) [OF b1(2)] by blast
  then show thesis
    by (intro that [OF b1(1) D(1) same_trans [OF b1(2) D(2)] D(3,5,6) _ L(1,2)]) (use D(4,7) c L(3) in simp_all)
qed

lemma query_attempt_ok:
  assumes "tree_at b t"
  shows "\<exists>b'. query_attempt M key b = Some (Inr (Done (map_of (entries t) key), b')) \<and> same b b' \<and> pins b' = (\<lambda>_. 0)"
proof -
  obtain i es where l: "leaf_of t key = (i, es)" by (cases "leaf_of t key")
  obtain root v0 b1 cur v parent qs b2 where R: "enter_root M b = Inr (Done (root, v0), b1)"
    "descend M key root v0 None b1 = Some (Inr (Done (cur, v, parent), b2))" "same b b2" "at b2 i cur"
    "pins b2 = pin_map (i # qs)" "parent_ok b2 parent qs" "v = opt_lock (cont b2 i)"
    "page_good (cont b2 i) i" "node_leaf (cont b2 i) es" "sorted_wrt (<) (map fst es)"
    by (rule reach_leaf [OF assms l])
  obtain b3 where b3: "query_leaf M key cur v parent b2 = Inr (Done (map_of es key), b3)" "same b2 b3"
    "pins b3 = (\<lambda>_. 0)"
    using query_leaf_ok [OF R(4-7,9,10)] R(8) by (auto simp: page_good_def)
  have "map_of (entries t) key = map_of es key" using map_of_leaf_of [of t key] assms l by (simp add: tree_at_def)
  then show ?thesis using R(1,2) b3 same_trans [OF R(3) b3(2)] by (simp add: query_attempt_def)
qed

lemma Query_ok:
  assumes "tree_at b t"
  shows "\<exists>b'. Olc_Query M key b = Some (Inr (map_of (entries t) key, b')) \<and> tree_at b' t \<and> same b b'"
proof -
  obtain b' where "query_attempt M key b = Some (Inr (Done (map_of (entries t) key), b'))" "same b b'" "pins b' = (\<lambda>_. 0)"
    using query_attempt_ok [OF assms] by blast
  then show ?thesis using tree_at_same [OF assms] by (subst Olc_Query.simps) simp
qed

end

end
