(* ===== verification/BtreeOlcScan.thy ===== *)
theory BtreeOlcScan
  imports BtreeOlcOps
begin

text \<open>
  Range scans. A scan follows the right siblings of the leaves, so its result depends on the
  chain of leaves and on the order of the keys across leaves; both are read off the tree here.
\<close>

section \<open>The leaves of a tree\<close>

fun leaves :: "otree \<Rightarrow> (nat \<times> (slice \<times> slice) list) list" where
  "leaves (OLeaf i es) = [(i, es)]"
| "leaves (ONode i t ts) = leaves t @ concat (map (\<lambda>(k, u). leaves u) ts)"

text \<open>The siblings of the leaves, left to right; 0 ends the chain.\<close>

fun chain :: "(nat \<Rightarrow> page) \<Rightarrow> (nat \<times> (slice \<times> slice) list) list \<Rightarrow> bool" where
  "chain C [] \<longleftrightarrow> True"
| "chain C [l] \<longleftrightarrow> right_sib (C (fst l)) = 0"
| "chain C (l # m # ls) \<longleftrightarrow> right_sib (C (fst l)) = fst m \<and> fst m \<noteq> 0 \<and> chain C (m # ls)"

text \<open>Every separator is a key of the child to its left, as a split leaves it.\<close>

fun seps_used :: "otree \<Rightarrow> bool" where
  "seps_used (OLeaf i es) \<longleftrightarrow> True"
| "seps_used (ONode i t ts) \<longleftrightarrow>
     (\<forall>j \<in> {..<length ts}. fst (ts ! j) \<in> fst ` set (entries ((t # map snd ts) ! j))) \<and>
     seps_used t \<and> (\<forall>(k, u) \<in> set ts. seps_used u)"

lemma leaves_children: "leaves (ONode i t ts) = concat (map leaves (t # map snd ts))"
proof -
  have "map (\<lambda>(k, u). leaves u) ts = map leaves (map snd ts)" by (induction ts) auto
  then show ?thesis by (simp only: leaves.simps list.map concat.simps)
qed

lemma leaf_of_children:
  "leaf_of (ONode i t ts) k = leaf_of ((t # map snd ts) ! lb (map fst ts) k) k"
proof -
  have "leaf_of t k # map (\<lambda>(s, u). leaf_of u k) ts = map (\<lambda>u. leaf_of u k) (t # map snd ts)" by (induction ts) auto
  moreover have "lb (map fst ts) k < length (t # map snd ts)" using lb_le [of "map fst ts" k] by simp
  ultimately show ?thesis by (simp only: leaf_of.simps nth_map)
qed

lemma child_induct [case_names OLeaf ONode]:
  assumes "\<And>i es. P (OLeaf i es)" "\<And>i t ts. (\<And>u. u \<in> set (t # map snd ts) \<Longrightarrow> P u) \<Longrightarrow> P (ONode i t ts)"
  shows "P t"
proof (induction t)
  case (ONode i t ts)
  have "P u" if u: "u \<in> set (t # map snd ts)" for u
  proof (cases "u = t")
    case False
    then obtain s where "(s, u) \<in> set ts" using u by auto
    then show ?thesis using ONode.IH(2) by fastforce
  qed (use ONode.IH(1) in simp)
  then show ?case by (rule assms(2))
qed (rule assms(1))

lemma wf_child:
  assumes "otree_wf (ONode i t ts)" "u \<in> set (t # map snd ts)"
  shows "otree_wf u"
  using assms by auto

lemma used_child:
  assumes "seps_used (ONode i t ts)" "u \<in> set (t # map snd ts)"
  shows "seps_used u"
  using assms by auto

lemma in_concat_take:
  assumes "x \<in> set (concat (map f (take n xs)))"
  obtains m where "m < n" "m < length xs" "x \<in> set (f (xs ! m))"
proof -
  obtain y where y: "y \<in> set (take n xs)" "x \<in> set (f y)" using assms by auto
  then obtain m where "m < length (take n xs)" "y = take n xs ! m" by (metis in_set_conv_nth)
  then show thesis using that [of m] y(2) by simp
qed

lemma in_concat_nth:
  assumes "x \<in> set (concat (map f xs))"
  obtains m where "m < length xs" "x \<in> set (f (xs ! m))"
  using in_concat_take [of x f "length xs" xs] assms by auto

lemma concat_concat_map: "concat (map g (concat (map f xs))) = concat (map (\<lambda>x. concat (map g (f x))) xs)"
  by (induction xs) simp_all

lemma entries_leaves: "entries t = concat (map snd (leaves t))"
proof (induction t rule: child_induct)
  case (ONode i t ts)
  have "map entries (t # map snd ts) = map (\<lambda>u. concat (map snd (leaves u))) (t # map snd ts)"
    by (rule map_cong [OF refl]) (rule ONode)
  then show ?case unfolding entries_children leaves_children concat_concat_map by (rule arg_cong)
qed simp

lemma lb_mono: "k \<le> k' \<Longrightarrow> lb ks k \<le> lb ks k'"
proof -
  assume "k \<le> k'"
  then have "length (takeWhile (\<lambda>x. x < k) ks) \<le> length (takeWhile (\<lambda>x. x < k') ks)"
    by (induction ks) auto
  then show ?thesis by (simp add: lb_def)
qed

lemma child_entries:
  assumes "otree_wf (ONode i t ts)" "j \<le> length ts" "e \<in> set (entries ((t # map snd ts) ! j))"
  shows "lb (map fst ts) (fst e) = j"
  using assms by simp

lemma concat_map_split:
  assumes "j < length xs"
  shows "concat (map f xs) = concat (map f (take j xs)) @ f (xs ! j) @ concat (map f (drop (Suc j) xs))"
  by (subst id_take_nth_drop [OF assms]) simp

lemma entries_sorted: "otree_wf t \<Longrightarrow> sorted_wrt (<) (map fst (entries t))"
proof (induction t rule: child_induct)
  case (ONode i t ts)
  let ?cs = "t # map snd ts"
  have "sorted_wrt (<) (map fst (concat (map entries (take n ?cs))))" if "n \<le> length ?cs" for n
    using that
  proof (induction n)
    case (Suc n)
    then have n: "n < length ?cs" by simp
    have tk: "take (Suc n) ?cs = take n ?cs @ [?cs ! n]" by (rule take_Suc_conv_app_nth [OF n])
    have u: "?cs ! n \<in> set ?cs" by (rule nth_mem [OF n])
    have "fst x < fst y" if x: "x \<in> set (concat (map entries (take n ?cs)))" and y: "y \<in> set (entries (?cs ! n))" for x y
    proof -
      obtain m where m: "m < n" "x \<in> set (entries (?cs ! m))" using in_concat_take [OF x] by metis
      have "lb (map fst ts) (fst x) = m" "lb (map fst ts) (fst y) = n"
        using child_entries [OF ONode.prems _ m(2)] child_entries [OF ONode.prems _ y] m(1) n by simp_all
      then show ?thesis using lb_mono [of "fst y" "fst x" "map fst ts"] m(1) by (meson leD leI)
    qed
    then show ?case
      unfolding tk using Suc ONode.IH [OF u wf_child [OF ONode.prems u]] by (auto simp: sorted_wrt_append simp del: nth_Cons_Suc)
  qed simp
  from this [of "length ?cs"] show ?case unfolding entries_children by simp
qed simp

text \<open>Where a key's leaf stands: the keys before it are smaller, the keys after it not.\<close>

lemma leaf_of_split:
  assumes "otree_wf t"
  shows "\<exists>pre suf. leaves t = pre @ leaf_of t k # suf \<and> (\<forall>l \<in> set pre. \<forall>e \<in> set (snd l). fst e < k) \<and>
    (seps_used t \<longrightarrow> suf \<noteq> [] \<or> (\<exists>e \<in> set (entries t). k \<le> fst e) \<longrightarrow> (\<exists>e \<in> set (snd (leaf_of t k)). k \<le> fst e))"
  using assms
proof (induction t rule: child_induct)
  case (ONode i t ts)
  let ?cs = "t # map snd ts" and ?j = "lb (map fst ts) k"
  have j: "?j < length ?cs" using lb_le [of "map fst ts" k] by simp
  let ?u = "?cs ! ?j"
  have u: "?u \<in> set ?cs" by (rule nth_mem [OF j])
  obtain pre suf where P: "leaves ?u = pre @ leaf_of ?u k # suf" "\<forall>l \<in> set pre. \<forall>e \<in> set (snd l). fst e < k"
    and key: "seps_used ?u \<longrightarrow> suf \<noteq> [] \<or> (\<exists>e \<in> set (entries ?u). k \<le> fst e) \<longrightarrow> (\<exists>e \<in> set (snd (leaf_of ?u k)). k \<le> fst e)"
    using ONode.IH [OF u wf_child [OF ONode.prems u]] by blast
  let ?pre = "concat (map leaves (take ?j ?cs)) @ pre" and ?suf = "suf @ concat (map leaves (drop (Suc ?j) ?cs))"
  have L: "leaves (ONode i t ts) = ?pre @ leaf_of (ONode i t ts) k # ?suf"
    unfolding leaves_children leaf_of_children using concat_map_split [OF j, of leaves] P(1) by simp
  have small: "fst e < k" if "m < ?j" "e \<in> set (entries (?cs ! m))" for m e
  proof (rule ccontr)
    assume "\<not> fst e < k"
    then have "?j \<le> lb (map fst ts) (fst e)" by (intro lb_mono) simp
    moreover have "lb (map fst ts) (fst e) = m" using child_entries [OF ONode.prems _ that(2)] that(1) j by simp
    ultimately show False using that(1) by simp
  qed
  have "\<forall>l \<in> set ?pre. \<forall>e \<in> set (snd l). fst e < k"
  proof (intro ballI)
    fix l e assume l: "l \<in> set ?pre" "e \<in> set (snd l)"
    show "fst e < k"
    proof (cases "l \<in> set pre")
      case False
      then obtain m where m: "m < ?j" "l \<in> set (leaves (?cs ! m))"
        using l(1) in_concat_take [of l leaves ?j ?cs] by (metis UnE set_append)
      then have "e \<in> set (entries (?cs ! m))" using l(2) unfolding entries_leaves by auto
      then show ?thesis by (rule small [OF m(1)])
    qed (use P(2) l(2) in blast)
  qed
  moreover have "\<exists>e \<in> set (snd (leaf_of ?u k)). k \<le> fst e"
    if used: "seps_used (ONode i t ts)" and ex: "?suf \<noteq> [] \<or> (\<exists>e \<in> set (entries (ONode i t ts)). k \<le> fst e)"
  proof -
    note K = key [rule_format, OF used_child [OF used u]]
    show ?thesis
    proof (cases "?j < length ts")
      case True
      have "\<not> map fst ts ! ?j < k" using less_lb_iff [of "map fst ts" ?j k] True ONode.prems by simp
      moreover have "fst (ts ! ?j) \<in> fst ` set (entries ?u)" using used True by (simp del: nth_Cons_Suc)
      ultimately show ?thesis using K True by fastforce
    next
      case False
      then have last: "?j = length ts" using j by simp
      show ?thesis
      proof (cases "suf \<noteq> []")
        case False
        then have "?suf = []" using last by simp
        then obtain e where e: "e \<in> set (entries (ONode i t ts))" "k \<le> fst e" using ex by blast
        then obtain m where m: "m < length ?cs" "e \<in> set (entries (?cs ! m))"
          unfolding entries_children using in_concat_nth [of e entries ?cs] by metis
        have "m = ?j" using small [of m e] m last e(2) by (cases "m < ?j") auto
        then show ?thesis using K m(2) e(2) by blast
      qed (use K in blast)
    qed
  qed
  ultimately show ?case using L unfolding leaf_of_children by blast
qed (auto intro!: exI [of _ "[]"])

lemma leaves_holds:
  assumes "holds C t" "l \<in> set (leaves t)"
  shows "page_good (C (fst l)) (fst l) \<and> node_leaf (C (fst l)) (snd l) \<and> fst l \<in> set (tree_ids t)"
  using assms
proof (induction t)
  case (ONode i t ts)
  show ?case
  proof (cases "l \<in> set (leaves t)")
    case False
    then obtain s u where u: "(s, u) \<in> set ts" "l \<in> set (leaves u)" using ONode.prems(2) by auto
    moreover have "holds C u" using ONode.prems(1) u(1) by auto
    ultimately show ?thesis using ONode.IH(2) [OF u(1), of u] by (auto intro!: bexI [of _ "(s, u)"])
  qed (use ONode in simp)
qed simp

lemma chain_suffix: "chain C (pre @ ls) \<Longrightarrow> chain C ls"
proof (induction pre)
  case (Cons l pre)
  then show ?case by (cases "pre @ ls") auto
qed simp

lemma filter_takeWhile_sorted:
  "sorted_wrt (<) (map fst xs) \<Longrightarrow> filter (\<lambda>e. fst e \<le> up) xs = takeWhile (\<lambda>e. fst e \<le> up) (xs :: (slice \<times> 'a) list)"
proof (induction xs)
  case (Cons x xs)
  show ?case
  proof (cases "fst x \<le> up")
    case False
    have "\<not> fst y \<le> up" if "y \<in> set xs" for y
    proof -
      have "fst x < fst y" using Cons.prems that by auto
      then show ?thesis using False by (meson less_imp_le order_trans)
    qed
    then show ?thesis using False by (simp add: filter_empty_conv)
  qed (use Cons in simp)
qed simp

text \<open>What a scan reads from the leaf of its lower bound on is the range.\<close>

lemma range_of_leaf:
  assumes wf: "otree_wf t" "seps_used t" and l: "leaf_of t low = (i, es)"
  obtains pre suf where "leaves t = pre @ (i, es) # suf"
    "\<forall>pos. (es \<noteq> [] \<longrightarrow> pos = lb (map fst es) low) \<longrightarrow>
      filter (\<lambda>e. low \<le> fst e \<and> fst e \<le> up) (entries t) = takeWhile (\<lambda>e. fst e \<le> up) (drop pos es @ concat (map snd suf))"
    "length es \<le> lb (map fst es) low \<longrightarrow> suf = []"
proof -
  obtain pre suf where S: "leaves t = pre @ (i, es) # suf" "\<forall>l \<in> set pre. \<forall>e \<in> set (snd l). fst e < low"
    "suf \<noteq> [] \<Longrightarrow> \<exists>e \<in> set es. low \<le> fst e"
    using leaf_of_split [OF wf(1), of low] wf(2) l by auto
  let ?A = "concat (map snd pre)" and ?R = "concat (map snd suf)"
  have E: "entries t = ?A @ es @ ?R" unfolding entries_leaves S(1) by simp
  have srt: "sorted_wrt (<) (map fst es)" "sorted_wrt (<) (map fst (es @ ?R))"
    "\<forall>e \<in> set es. \<forall>f \<in> set ?R. fst e < fst f"
    using entries_sorted [OF wf(1)] unfolding E by (simp_all add: sorted_wrt_append)
  have fr: "filter (\<lambda>e. low \<le> fst e \<and> fst e \<le> up) (entries t) = takeWhile (\<lambda>e. fst e \<le> up) (drop pos es @ ?R)"
    if pos: "es \<noteq> [] \<longrightarrow> pos = lb (map fst es) low" for pos
  proof -
    have small: "\<not> low \<le> fst e" if e: "e \<in> set (?A @ take pos es)" for e
    proof (cases "e \<in> set ?A")
      case False
      then have "e \<in> set (take pos es)" using e by simp
      then obtain j where "j < pos" "j < length es" "e = es ! j" by (auto simp: in_set_conv_nth)
      then show ?thesis using nth_less_lb [of j "map fst es" low] pos by (auto simp: not_le)
    qed (use S(2) in \<open>auto simp: not_le\<close>)
    have big: "low \<le> fst e" if e: "e \<in> set (drop pos es @ ?R)" for e
    proof (cases "e \<in> set ?R")
      case True
      then have "suf \<noteq> []" by auto
      then obtain f where "f \<in> set es" "low \<le> fst f" using S(3) by blast
      then show ?thesis using srt(3) True by (meson less_imp_le order_trans)
    next
      case False
      then have "e \<in> set (drop pos es)" using e by simp
      then obtain j where "j < length (drop pos es)" "e = drop pos es ! j" by (metis in_set_conv_nth)
      then have "pos + j < length es" "e = es ! (pos + j)" by simp_all
      then show ?thesis using less_lb_iff [OF srt(1), of "pos + j" low] pos by (auto simp: not_less)
    qed
    have "entries t = (?A @ take pos es) @ drop pos es @ ?R" unfolding E by simp
    then have "filter (\<lambda>e. low \<le> fst e \<and> fst e \<le> up) (entries t) =
      filter (\<lambda>e. low \<le> fst e \<and> fst e \<le> up) (?A @ take pos es) @ filter (\<lambda>e. low \<le> fst e \<and> fst e \<le> up) (drop pos es @ ?R)"
      by (simp only: filter_append append_assoc)
    also have "filter (\<lambda>e. low \<le> fst e \<and> fst e \<le> up) (?A @ take pos es) = []" using small by (simp only: filter_empty_conv) blast
    also have "filter (\<lambda>e. low \<le> fst e \<and> fst e \<le> up) (drop pos es @ ?R) = filter (\<lambda>e. fst e \<le> up) (drop pos es @ ?R)"
      using big by (intro filter_cong) auto
    also have "\<dots> = takeWhile (\<lambda>e. fst e \<le> up) (drop pos es @ ?R)"
    proof (rule filter_takeWhile_sorted)
      have "sorted_wrt (<) (map fst (take pos es @ drop pos es @ ?R))" using srt(2) by (simp only: append_assoc [symmetric] append_take_drop_id)
      then show "sorted_wrt (<) (map fst (drop pos es @ ?R))" by (simp only: map_append sorted_wrt_append) blast
    qed
    finally show ?thesis by (simp only: append_Nil)
  qed
  have "suf = []" if "length es \<le> lb (map fst es) low"
  proof (rule ccontr)
    assume "suf \<noteq> []"
    then obtain j where j: "j < length es" "low \<le> fst (es ! j)" using S(3) by (metis in_set_conv_nth)
    then show False using less_lb_iff [OF srt(1), of j low] that by auto
  qed
  then show thesis using that [OF S(1)] fr by blast
qed

section \<open>Scanning\<close>

text \<open>One leaf: the pairs up to the bound, and a last key beyond it exactly if one was met.\<close>

lemma scan_items_leaf:
  assumes "node_leaf p es" "n = length es" "ck \<le> up"
  shows "\<exists>ck'. scan_items p up ck [pos..<n] = Inr (takeWhile (\<lambda>e. fst e \<le> up) (drop pos es), ck') \<and>
    (ck' \<le> up \<longleftrightarrow> (\<forall>e \<in> set (drop pos es). fst e \<le> up))"
  using assms(3)
proof (induction "n - pos" arbitrary: pos ck)
  case 0
  then show ?case using assms(2) by simp
next
  case (Suc m)
  then have pos: "pos < n" "m = n - Suc pos" by simp_all
  let ?k = "fst (es ! pos)"
  have d: "drop pos es = es ! pos # drop (Suc pos) es" using pos(1) assms(2) by (simp add: Cons_nth_drop_Suc)
  have r: "PageReadKeyAtOffset p pos = ?k" "PageReadValAt p pos = Inr (snd (es ! pos))"
    using leaf_key_at [OF assms(1)] pos(1) assms(2) by simp_all
  show ?case
  proof (cases "?k \<le> up")
    case True
    obtain ck' where "scan_items p up ?k [Suc pos..<n] = Inr (takeWhile (\<lambda>e. fst e \<le> up) (drop (Suc pos) es), ck')"
      "ck' \<le> up \<longleftrightarrow> (\<forall>e \<in> set (drop (Suc pos) es). fst e \<le> up)" using Suc.hyps(1) [OF pos(2) True] by blast
    then show ?thesis unfolding d using True r pos(1) by (simp add: upt_conv_Cons Let_def)
  next
    case False
    then show ?thesis unfolding d using r pos(1) by (simp add: upt_conv_Cons Let_def)
  qed
qed

context page_store
begin

lemma chain_same:
  "same b b' \<Longrightarrow> \<forall>l \<in> set ls. fst l \<in> ids b \<Longrightarrow> chain (cont b) ls \<Longrightarrow> chain (cont b') ls"
  by (induction "cont b" ls rule: chain.induct) (simp_all add: sameD(4))

lemma scan_loop_ok:
  assumes "at b i cur" "pins b = pin_map [i]" "v = opt_lock (cont b i)" "ck \<le> up" "2 \<le> cap b"
    and "\<forall>l \<in> set ((i, es) # ls). page_good (cont b (fst l)) (fst l) \<and> node_leaf (cont b (fst l)) (snd l) \<and> fst l \<in> ids b"
    and "chain (cont b) ((i, es) # ls)"
  shows "\<exists>b'. scan_loop M up cur v pos ck results b =
      Some (Inr ((False, results @ takeWhile (\<lambda>e. fst e \<le> up) (drop pos es @ concat (map snd ls))), b')) \<and>
    same b b' \<and> pins b' = (\<lambda>_. 0)"
  using assms
proof (induction ls arbitrary: b i es cur v pos ck results)
  case Nil
  have good: "page_good (cont b i) i" "node_leaf (cont b i) es" using Nil.prems(6) by simp_all
  note F = load_fields [OF Nil.prems(1)]
  have p: "node_leaf (bm_load M b cur) es" using F(8) good(2) by simp
  obtain ck' where I: "scan_items (bm_load M b cur) up ck [pos..<item_num (bm_load M b cur)] =
    Inr (takeWhile (\<lambda>e. fst e \<le> up) (drop pos es), ck')"
    using scan_items_leaf [OF p node_leaf_item_num [OF p] Nil.prems(4)] by blast
  obtain b' where b': "unpin_page M cur b = Inr b'" "kept b b'" "pins b' = pin_map []"
    using unpin_at [OF Nil.prems(1,2)] good(1) by (auto simp: page_good_def)
  have "right_sib (bm_load M b cur) = 0" using F(4) Nil.prems(7) by simp
  then have "scan_leaf M up cur v pos ck results b =
    Inr ((False, results @ takeWhile (\<lambda>e. fst e \<le> up) (drop pos es), None), b')"
    using I b'(1) F(1) Nil.prems(3)
    by (simp add: scan_leaf_def Let_def pin_sibling_def ReadUnlockOrRestart_def lock_of_def)
  then show ?case using Nil.prems(4) kept_same [OF b'(2)] b'(3) by (subst scan_loop.simps) simp
next
  case (Cons l ls)
  obtain j fs where l: "l = (j, fs)" by (cases l)
  have good: "page_good (cont b i) i" "node_leaf (cont b i) es" "page_good (cont b j) j" "j \<in> ids b"
    using Cons.prems(6) l by simp_all
  note F = load_fields [OF Cons.prems(1)]
  have p: "node_leaf (bm_load M b cur) es" using F(8) good(2) by simp
  obtain ck' where I: "scan_items (bm_load M b cur) up ck [pos..<item_num (bm_load M b cur)] =
      Inr (takeWhile (\<lambda>e. fst e \<le> up) (drop pos es), ck')" "ck' \<le> up \<longleftrightarrow> (\<forall>e \<in> set (drop pos es). fst e \<le> up)"
    using scan_items_leaf [OF p node_leaf_item_num [OF p] Cons.prems(4)] by blast
  have rs: "right_sib (bm_load M b cur) = j" "j \<noteq> 0" using F(4) Cons.prems(7) l by simp_all
  obtain sib b1 where b1: "bm_Pin M j b = Inr (sib, b1)" "at b1 j sib" "kept b b1" "pins b1 = pin_map [j, i]"
    using pin_at [of b j "[i]"] Cons.prems(1,2,5) good(4) by auto
  have cur1: "at b1 i cur"
    by (rule at_kept [OF b1(3) Cons.prems(1)]) (use Cons.prems(2) b1(4) in \<open>auto simp: pin_map_pos\<close>)
  note C1 = cont_kept [OF b1(3)]
  have ci: "cont b1 i = cont b i" "cont b1 j = cont b j" using C1 good(4) Cons.prems(1) by blast+
  have ps: "pin_sibling M (right_sib (bm_load M b cur)) b = Inr (Some sib, b1)"
    using rs b1(1) by (simp add: pin_sibling_def)
  have lock: "\<not> ReadUnlockOrRestart (lock_of M b1 cur) v r" for r
    using load_fields(1) [OF cur1] ci(1) Cons.prems(3) by (simp add: ReadUnlockOrRestart_def lock_of_def)
  show ?case
  proof (cases "ck' \<le> up")
    case False
    obtain b2 where b2: "unpin_page M sib b1 = Inr b2" "kept b1 b2" "pins b2 = pin_map [i]"
      using unpin_at [OF b1(2,4)] good(3) ci(2) by (auto simp: page_good_def)
    have cur2: "at b2 i cur"
      by (rule at_kept [OF b2(2) cur1]) (use b1(4) b2(3) in \<open>auto simp: pin_map_pos\<close>)
    have ci2: "cont b2 i = cont b1 i" using cont_kept [OF b2(2)] cur1 by blast
    obtain b3 where b3: "unpin_page M cur b2 = Inr b3" "kept b2 b3" "pins b3 = pin_map []"
      using unpin_at [OF cur2 b2(3)] good(1) ci(1) ci2 by (auto simp: page_good_def)
    have "scan_leaf M up cur v pos ck results b =
      Inr ((False, results @ takeWhile (\<lambda>e. fst e \<le> up) (drop pos es), None), b3)"
      using I(1) ps False lock b2(1) b3(1) by (simp add: scan_leaf_def Let_def not_le)
    moreover have "takeWhile (\<lambda>e. fst e \<le> up) (drop pos es @ xs) = takeWhile (\<lambda>e. fst e \<le> up) (drop pos es)" for xs
      using I(2) False by (auto simp: takeWhile_append)
    moreover have "same b b3"
      using same_trans [OF kept_same [OF b1(3)] same_trans [OF kept_same [OF b2(2)] kept_same [OF b3(2)]]] .
    ultimately show ?thesis using Cons.prems(4) b3(3) by (subst scan_loop.simps) simp
  next
    case True
    obtain b2 where b2: "unpin_page M cur b1 = Inr b2" "kept b1 b2" "pins b2 = pin_map (remove1 i [j, i])"
      using unpin_at [OF cur1 b1(4)] good(1) ci(1) by (auto simp: page_good_def)
    have pm: "pins b2 = pin_map [j]" unfolding b2(3) by (cases "i = j") simp_all
    have sib2: "at b2 j sib"
      by (rule at_kept [OF b2(2) b1(2)]) (use b1(4) pm in \<open>auto simp: pin_map_pos\<close>)
    have S: "same b b2" by (rule same_trans [OF kept_same [OF b1(3)] kept_same [OF b2(2)]])
    let ?res = "results @ drop pos es"
    have "takeWhile (\<lambda>e. fst e \<le> up) (drop pos es) = drop pos es" using I(2) True by simp
    then have "scan_leaf M up cur v pos ck results b =
      Inr ((False, ?res, Some (sib, opt_lock (cont b j), ck')), b2)"
      using I(1) ps True lock b2(1) load_fields(1) [OF b1(2)] ci(2) good(3)
      by (simp add: scan_leaf_def Let_def ReadLockOrRestart_def lock_of_def page_good_def not_less [symmetric])
    moreover have "takeWhile (\<lambda>e. fst e \<le> up) (drop pos es @ xs) = drop pos es @ takeWhile (\<lambda>e. fst e \<le> up) xs" for xs
      using I(2) True by (auto simp: takeWhile_append)
    moreover have "\<exists>b'. scan_loop M up sib (opt_lock (cont b j)) 0 ck' ?res b2 =
        Some (Inr ((False, ?res @ takeWhile (\<lambda>e. fst e \<le> up) (drop 0 fs @ concat (map snd ls))), b')) \<and>
      same b2 b' \<and> pins b' = (\<lambda>_. 0)"
    proof (rule Cons.IH [OF sib2 pm _ True])
      have same2: "cont b2 q = cont b q" if "q \<in> ids b" for q by (rule sameD(4) [OF S that])
      show "opt_lock (cont b j) = opt_lock (cont b2 j)" "2 \<le> cap b2"
        using same2 [OF good(4)] sameD(3) [OF S] Cons.prems(5) by simp_all
      show "\<forall>l \<in> set ((j, fs) # ls). page_good (cont b2 (fst l)) (fst l) \<and> node_leaf (cont b2 (fst l)) (snd l) \<and> fst l \<in> ids b2"
        using Cons.prems(6) l same2 sameD(2) [OF S] by simp
      show "chain (cont b2) ((j, fs) # ls)" by (rule chain_same [OF S]) (use Cons.prems(6,7) l in auto)
    qed
    ultimately show ?thesis using Cons.prems(4) same_trans [OF S] l by (subst scan_loop.simps) auto
  qed
qed

lemma scan_attempt_ok:
  assumes "tree_at b t" "seps_used t" "chain (cont b) (leaves t)"
  shows "\<exists>b'. scan_attempt M low up results b =
      Some (Inr ((False, results @ filter (\<lambda>e. low \<le> fst e \<and> fst e \<le> up) (entries t)), b')) \<and>
    same b b' \<and> pins b' = (\<lambda>_. 0)"
proof -
  have t: "holds (cont b) t" "otree_wf t" "set (tree_ids t) \<subseteq> ids b" "2 \<le> cap b"
    using assms(1) by (simp_all add: tree_at_def)
  obtain i es where l: "leaf_of t low = (i, es)" by (cases "leaf_of t low")
  obtain root v0 b1 cur v parent qs b2 where R: "enter_root M b = Inr (Done (root, v0), b1)"
    "descend M low root v0 None b1 = Some (Inr (Done (cur, v, parent), b2))" "same b b2" "at b2 i cur"
    "pins b2 = pin_map (i # qs)" "parent_ok b2 parent qs" "v = opt_lock (cont b2 i)"
    "page_good (cont b2 i) i" "node_leaf (cont b2 i) es" "sorted_wrt (<) (map fst es)"
    by (rule reach_leaf [OF assms(1) l])
  obtain b3 where b3: "release_parent M cur parent b2 = Inr (False, b3)" "kept b2 b3" "pins b3 = pin_map [i]" "at b3 i cur"
    using release_parent_ok [OF _ R(5,6,4)] R(4) by blast
  have S: "same b b3" by (rule same_trans [OF R(3) kept_same [OF b3(2)]])
  have ci: "cont b3 i = cont b2 i" using cont_kept [OF b3(2)] R(4) by blast
  obtain pre suf where P: "leaves t = pre @ (i, es) # suf"
    "\<forall>pos. (es \<noteq> [] \<longrightarrow> pos = lb (map fst es) low) \<longrightarrow>
      filter (\<lambda>e. low \<le> fst e \<and> fst e \<le> up) (entries t) = takeWhile (\<lambda>e. fst e \<le> up) (drop pos es @ concat (map snd suf))"
    "length es \<le> lb (map fst es) low \<longrightarrow> suf = []"
    by (rule range_of_leaf [OF t(2) assms(2) l, where up = up])
  let ?p = "bm_load M b3 cur"
  define pos where "pos = nat (PageLowerBound ?p low + 1)"
  have p: "node_leaf ?p es" using load_fields(8) [OF b3(4)] R(9) ci by simp
  have pos: "es \<noteq> [] \<longrightarrow> pos = lb (map fst es) low" using leaf_pos [OF p R(10)] by (simp add: pos_def)
  have att: "scan_attempt M low up results b = scan_loop M up cur v pos (PageReadKeyAtOffset ?p pos) results b3"
    using R(1,2) b3(1) by (simp add: scan_attempt_def Let_def pos_def)
  show ?thesis
  proof (cases "PageReadKeyAtOffset ?p pos \<le> up")
    case True
    have "\<exists>b'. scan_loop M up cur v pos (PageReadKeyAtOffset ?p pos) results b3 =
        Some (Inr ((False, results @ takeWhile (\<lambda>e. fst e \<le> up) (drop pos es @ concat (map snd suf))), b')) \<and>
      same b3 b' \<and> pins b' = (\<lambda>_. 0)"
    proof (rule scan_loop_ok [OF b3(4,3) _ True])
      show "v = opt_lock (cont b3 i)" "2 \<le> cap b3" using R(7) ci sameD(3) [OF S] t(4) by simp_all
      have "holds (cont b3) t" by (rule holds_same [OF S t(3,1)])
      note H = leaves_holds [OF this]
      have "set ((i, es) # suf) \<subseteq> set (leaves t)" unfolding P(1) by auto
      then show "\<forall>l \<in> set ((i, es) # suf). page_good (cont b3 (fst l)) (fst l) \<and> node_leaf (cont b3 (fst l)) (snd l) \<and> fst l \<in> ids b3"
        using H t(3) sameD(2) [OF S] by blast
      have "chain (cont b3) (leaves t)"
        using chain_same [OF S _ assms(3)] leaves_holds [OF t(1)] t(3) by blast
      then show "chain (cont b3) ((i, es) # suf)" unfolding P(1) by (rule chain_suffix)
    qed
    then show ?thesis using att P(2) [rule_format, OF pos [rule_format]] same_trans [OF S] by auto
  next
    case False
    obtain b4 where b4: "unpin_page M cur b3 = Inr b4" "kept b3 b4" "pins b4 = pin_map []"
      using unpin_at [OF b3(4,3)] R(8) ci by (auto simp: page_good_def)
    have "takeWhile (\<lambda>e. fst e \<le> up) (drop pos es @ concat (map snd suf)) = []"
    proof (cases "pos < length es")
      case True
      then have "drop pos es = es ! pos # drop (Suc pos) es" by (simp add: Cons_nth_drop_Suc)
      then show ?thesis using False leaf_key_at(1) [OF p True] by simp
    next
      case ge: False
      then show ?thesis using P(3) pos by (cases "es = []") simp_all
    qed
    then have "filter (\<lambda>e. low \<le> fst e \<and> fst e \<le> up) (entries t) = []" using P(2) [rule_format, OF pos [rule_format]] by simp
    then show ?thesis
      using att False b4 same_trans [OF S kept_same [OF b4(2)]] by (subst (asm) scan_loop.simps) simp
  qed
qed

lemma Scan_ok:
  assumes "tree_at b t" "seps_used t" "chain (cont b) (leaves t)"
  shows "\<exists>b'. BtreeOLCScanIterator M low up b =
      Some (Inr (filter (\<lambda>e. low \<le> fst e \<and> fst e \<le> up) (entries t), b')) \<and> tree_at b' t \<and> same b b'"
proof -
  obtain b' where "scan_attempt M low up [] b =
      Some (Inr ((False, filter (\<lambda>e. low \<le> fst e \<and> fst e \<le> up) (entries t)), b'))" "same b b'" "pins b' = (\<lambda>_. 0)"
    using scan_attempt_ok [OF assms, of low up "[]"] by auto
  then show ?thesis
    using tree_at_same [OF assms(1)] by (simp add: BtreeOLCScanIterator_def scan_run.simps)
qed

end

end
