(* ===== verification/BtreeOlcInsert.thy ===== *)
theory BtreeOlcInsert
  imports BtreeOlcScan
begin

text \<open>
  Insertion into a leaf that has room: \<^verbatim>\<open>Insert\<close> upserts the pair in the map the tree represents,
  keeps the tree well formed and the chain of leaves intact, and leaves nothing pinned or locked.
\<close>

section \<open>Replacing a leaf\<close>

fun set_leaf :: "otree \<Rightarrow> nat \<Rightarrow> (slice \<times> slice) list \<Rightarrow> otree" where
  "set_leaf (OLeaf j fs) i es = OLeaf j (if j = i then es else fs)"
| "set_leaf (ONode j t ts) i es = ONode j (set_leaf t i es) (map (\<lambda>(k, u). (k, set_leaf u i es)) ts)"

lemma set_leaf_fields [simp]: "tid (set_leaf t i es) = tid t" "tree_ids (set_leaf t i es) = tree_ids t"
proof -
  show "tid (set_leaf t i es) = tid t" by (cases t) simp_all
  show "tree_ids (set_leaf t i es) = tree_ids t"
  proof (induction t)
    case (ONode j t ts)
    have "map (\<lambda>(k, u). tree_ids u) (map (\<lambda>(k, u). (k, set_leaf u i es)) ts) = map (\<lambda>(k, u). tree_ids u) ts"
      using ONode.IH(2) by (auto simp: comp_def case_prod_beta intro!: map_cong)
    then show ?case using ONode.IH(1) by (simp only: set_leaf.simps tree_ids.simps)
  qed simp
qed

lemma set_leaf_node:
  "set_leaf (ONode j t ts) i es = ONode j (set_leaf t i es) (map (\<lambda>(k, u). (k, set_leaf u i es)) ts)"
  "map fst (map (\<lambda>(k, u). (k, set_leaf u i es)) ts) = map fst ts"
  "set_leaf t i es # map snd (map (\<lambda>(k, u). (k, set_leaf u i es)) ts) = map (\<lambda>u. set_leaf u i es) (t # map snd ts)"
  by (simp_all add: comp_def case_prod_beta)

lemma leaves_set_leaf: "leaves (set_leaf t i es) = map (\<lambda>l. if fst l = i then (i, es) else l) (leaves t)"
proof (induction t rule: child_induct)
  case (ONode j t ts)
  have "map (\<lambda>u. leaves (set_leaf u i es)) (t # map snd ts) =
    map (\<lambda>u. map (\<lambda>l. if fst l = i then (i, es) else l) (leaves u)) (t # map snd ts)"
    by (rule map_cong [OF refl]) (rule ONode)
  then show ?case
    unfolding set_leaf_node(1) leaves_children unfolding set_leaf_node(3) unfolding map_concat map_map comp_def
    by (rule arg_cong)
qed simp

lemma set_leaf_other: "i \<notin> set (tree_ids t) \<Longrightarrow> set_leaf t i es = t"
proof (induction t)
  case (ONode j t ts)
  have "set_leaf u i es = u" if "(k, u) \<in> set ts" for k u
    using ONode.IH(2) [OF that, of u] ONode.prems that by force
  then have "map (\<lambda>(k, u). (k, set_leaf u i es)) ts = ts" by (intro map_idI) auto
  then show ?case using ONode.IH(1) ONode.prems by simp
qed simp

lemma leaf_of_set_leaf:
  "leaf_of (set_leaf t i es) k = (if fst (leaf_of t k) = i then (i, es) else leaf_of t k)"
proof (induction t rule: child_induct)
  case (ONode j t ts)
  let ?u = "(t # map snd ts) ! lb (map fst ts) k"
  have lt: "lb (map fst ts) k < length (t # map snd ts)" using lb_le [of "map fst ts" k] by simp
  have "leaf_of (set_leaf (ONode j t ts) i es) k = leaf_of (set_leaf ?u i es) k"
    unfolding set_leaf_node(1) leaf_of_children unfolding set_leaf_node(2,3) using lt by (simp only: nth_map)
  then show ?case using ONode [OF nth_mem [OF lt]] unfolding leaf_of_children by simp
qed simp

lemma holds_set_leaf:
  assumes "holds C t" "is_leaf (C i)" "\<And>q. q \<in> set (tree_ids t) \<Longrightarrow> q \<noteq> i \<Longrightarrow> C' q = C q"
    "page_good (C' i) i" "node_leaf (C' i) es"
  shows "holds C' (set_leaf t i es)"
  using assms(1,3)
proof (induction t)
  case (OLeaf j fs)
  then show ?case using assms(4,5) by (cases "j = i") simp_all
next
  case (ONode j t ts)
  have "j \<noteq> i" using ONode.prems(1) assms(2) by (auto simp: node_inner_def)
  then have "C' j = C j" using ONode.prems(2) by simp
  moreover have "holds C' (set_leaf u i es)" if u: "(k, u) \<in> set ts" for k u
  proof (rule ONode.IH(2) [OF u])
    show "holds C u" using ONode.prems(1) u by auto
    show "C' q = C q" if "q \<in> set (tree_ids u)" "q \<noteq> i" for q using ONode.prems(2) that u by force
  qed simp
  moreover have m: "map (\<lambda>(k, u). (k, tid u)) (map (\<lambda>(k, u). (k, set_leaf u i es)) ts) = map (\<lambda>(k, u). (k, tid u)) ts"
    by (simp add: comp_def case_prod_beta)
  ultimately show ?case unfolding set_leaf.simps holds.simps m set_leaf_fields
    using ONode.IH(1) ONode.prems by auto
qed

lemma distinct_concat_nth:
  "distinct (concat (map f xs)) \<Longrightarrow> m < length xs \<Longrightarrow> j < length xs \<Longrightarrow> m \<noteq> j \<Longrightarrow> x \<in> set (f (xs ! j)) \<Longrightarrow> x \<notin> set (f (xs ! m))"
proof (induction xs arbitrary: m j)
  case (Cons y xs)
  have mem: "set (f (xs ! n)) \<subseteq> set (concat (map f xs))" if "n < length xs" for n using nth_mem [OF that] by auto
  have d: "set (f y) \<inter> set (concat (map f xs)) = {}" "distinct (concat (map f xs))" using Cons.prems(1) by simp_all
  show ?case
  proof (cases m)
    case 0
    then obtain j' where "j = Suc j'" "j' < length xs" using Cons.prems(3,4) by (cases j) simp_all
    then show ?thesis using mem d(1) Cons.prems(5) 0 by auto
  next
    case (Suc m')
    then have m': "m' < length xs" using Cons.prems(2) by simp
    show ?thesis
    proof (cases j)
      case 0
      then show ?thesis using mem [OF m'] d(1) Cons.prems(5) Suc by auto
    next
      case (Suc j')
      then show ?thesis using Cons.IH [OF d(2) m', of j'] Cons.prems(3-5) \<open>m = Suc m'\<close> by simp
    qed
  qed
qed simp

lemma tree_ids_children: "tree_ids (ONode i t ts) = i # concat (map tree_ids (t # map snd ts))"
proof -
  have "map (\<lambda>(k, u). tree_ids u) ts = map tree_ids (map snd ts)" by (induction ts) auto
  then show ?thesis by (simp only: tree_ids.simps list.map concat.simps)
qed

lemma leaf_of_id: "fst (leaf_of t k) \<in> set (tree_ids t)"
proof (induction t rule: child_induct)
  case (ONode j t ts)
  have lt: "lb (map fst ts) k < length (t # map snd ts)" using lb_le [of "map fst ts" k] by simp
  have "set (tree_ids ((t # map snd ts) ! lb (map fst ts) k)) \<subseteq> set (concat (map tree_ids (t # map snd ts)))"
    using nth_mem [OF lt] by (simp only: set_concat set_map) blast
  then show ?case unfolding leaf_of_children tree_ids_children list.set using ONode [OF nth_mem [OF lt]] by blast
qed simp

text \<open>A leaf that gets keys of its own range keeps the tree well formed.\<close>

lemma set_leaf_wf:
  assumes "otree_wf t" "distinct (tree_ids t)" "leaf_of t k = (i, es)"
    and "otree_wf (OLeaf i es')" "fst ` set es' \<subseteq> insert k (fst ` set es)"
  shows "otree_wf (set_leaf t i es') \<and> fst ` set (entries (set_leaf t i es')) \<subseteq> insert k (fst ` set (entries t))"
  using assms(1-3)
proof (induction t rule: child_induct)
  case (OLeaf j fs)
  then show ?case using assms(4,5) by auto
next
  case (ONode j t ts)
  let ?cs = "t # map snd ts" and ?l = "lb (map fst ts) k"
  have lt: "?l < length ?cs" using lb_le [of "map fst ts" k] by simp
  have D: "distinct (concat (map tree_ids ?cs))" using ONode.prems(2) unfolding tree_ids_children by simp
  have u: "leaf_of (?cs ! ?l) k = (i, es)" using ONode.prems(3) unfolding leaf_of_children .
  have mem: "?cs ! m \<in> set ?cs" if "m < length ?cs" for m by (rule nth_mem [OF that])
  have du: "distinct (tree_ids u)" if "u \<in> set ?cs" for u using D that by (auto simp: distinct_concat_iff)
  have other: "set_leaf (?cs ! m) i es' = ?cs ! m" if "m < length ?cs" "m \<noteq> ?l" for m
    using distinct_concat_nth [OF D that(1) lt that(2), of i] leaf_of_id [of "?cs ! ?l" k] u by (intro set_leaf_other) simp
  have new: "otree_wf (set_leaf (?cs ! m) i es') \<and>
    fst ` set (entries (set_leaf (?cs ! m) i es')) \<subseteq> (if m = ?l then insert k (fst ` set (entries (?cs ! m))) else fst ` set (entries (?cs ! m)))"
    if m: "m < length ?cs" for m
  proof (cases "m = ?l")
    case True
    then show ?thesis using ONode.IH [OF mem [OF lt] wf_child [OF ONode.prems(1) mem [OF lt]] du [OF mem [OF lt]] u] by simp
  next
    case False
    then show ?thesis using other [OF m False] wf_child [OF ONode.prems(1) mem [OF m]] by simp
  qed
  have lbs: "lb (map fst ts) (fst e) = m" if "m \<le> length ts" "e \<in> set (entries (set_leaf (?cs ! m) i es'))" for m e
  proof -
    have "fst e \<in> fst ` set (entries (set_leaf (?cs ! m) i es'))" using that(2) by simp
    then have "m = ?l \<and> fst e = k \<or> fst e \<in> fst ` set (entries (?cs ! m))" using new [of m] that(1) by (auto split: if_splits)
    then show ?thesis using child_entries [OF ONode.prems(1) that(1)] by auto
  qed
  have wfs: "otree_wf (set_leaf u i es')" if u: "u \<in> set ?cs" for u
  proof -
    obtain m where "m < length ?cs" "u = ?cs ! m" using u unfolding in_set_conv_nth by blast
    then show ?thesis using new by simp
  qed
  have wfk: "otree_wf (set_leaf u i es')" if "(s, u) \<in> set ts" for s u using wfs [of u] that by force
  have wf: "ts \<noteq> []" "sorted_wrt (<) (map fst ts)" using ONode.prems(1) by simp_all
  have "otree_wf (set_leaf (ONode j t ts) i es')"
    unfolding set_leaf_node(1) otree_wf.simps set_leaf_node(2,3)
  proof (intro conjI ballI)
    fix m e assume m: "m \<in> {..length (map (\<lambda>(k, u). (k, set_leaf u i es')) ts)}"
      and e: "e \<in> set (entries (map (\<lambda>u. set_leaf u i es') ?cs ! m))"
    have m': "m < length ?cs" using m by simp
    have "e \<in> set (entries (set_leaf (?cs ! m) i es'))" using e unfolding nth_map [OF m', of "\<lambda>u. set_leaf u i es'"] .
    then show "lb (map fst ts) (fst e) = m" by (rule lbs [rotated]) (use m' in simp)
  qed (use wf wfs wfk in auto)
  moreover have "fst ` set (entries (set_leaf (ONode j t ts) i es')) \<subseteq> insert k (fst ` set (entries (ONode j t ts)))"
  proof
    fix x assume "x \<in> fst ` set (entries (set_leaf (ONode j t ts) i es'))"
    then obtain e where e: "e \<in> set (concat (map entries (map (\<lambda>u. set_leaf u i es') ?cs)))" "x = fst e"
      unfolding set_leaf_node(1) entries_children set_leaf_node(3) by blast
    obtain m where m: "m < length ?cs" "e \<in> set (entries (set_leaf (?cs ! m) i es'))"
      by (rule in_concat_nth [OF e(1) [unfolded map_map comp_def]])
    then have "x = k \<or> x \<in> fst ` set (entries (?cs ! m))" using new [OF m(1)] e(2) by (auto split: if_splits)
    moreover have "set (entries (?cs ! m)) \<subseteq> set (entries (ONode j t ts))"
      unfolding entries_children using mem [OF m(1)] by auto
    ultimately show "x \<in> insert k (fst ` set (entries (ONode j t ts)))" by auto
  qed
  ultimately show ?case by blast
qed

lemma leaf_put_keys: "sorted_wrt (<) (map fst es) \<Longrightarrow> fst ` set (leaf_put es k v) = insert k (fst ` set es)"
  using map_of_leaf_put [of es k v] by (metis dom_fun_upd dom_map_of_conv_image_fst option.distinct(1))

lemma node_leaf_unique:
  assumes "node_leaf p es" "node_leaf p fs"
  shows "es = fs"
proof (rule nth_equalityI)
  show "length es = length fs" using assms node_leaf_item_num by metis
  then show "es ! i = fs ! i" if "i < length es" for i
    using node_leaf_decode [OF assms(1) that] node_leaf_decode [OF assms(2)] that by simp
qed

lemma leaf_of_in_leaves: "otree_wf t \<Longrightarrow> leaf_of t k \<in> set (leaves t)"
  using leaf_of_split [of t k] by force

text \<open>Putting a pair into the key's leaf is the update of the map.\<close>

lemma put_tree:
  assumes wf: "otree_wf t" "distinct (tree_ids t)" "holds C t" and l: "leaf_of t k = (i, es)" and k: "k \<noteq> []"
    and t': "t' = set_leaf t i (leaf_put es k v)"
  shows "otree_wf t'" "map_of (entries t') = (map_of (entries t))(k \<mapsto> v)"
    "seps_used t \<Longrightarrow> seps_used t'" "map fst (leaves t') = map fst (leaves t)"
proof -
  have es: "sorted_wrt (<) (map fst es)" "[] \<notin> fst ` set es" using leaf_of_holds(3) [OF wf(3,1), of k] l by simp_all
  have keys: "fst ` set (leaf_put es k v) = insert k (fst ` set es)" by (rule leaf_put_keys [OF es(1)])
  have "otree_wf (OLeaf i (leaf_put es k v))" using leaf_put_sorted [OF es(1)] keys es(2) k by simp
  from set_leaf_wf [OF wf(1,2) l this] keys show wf': "otree_wf t'" unfolding t' by simp
  have same: "snd l' = es" if "l' \<in> set (leaves t)" "fst l' = i" for l'
    using leaves_holds [OF wf(3) that(1)] leaf_of_holds(2) [OF wf(3,1), of k] l that(2) node_leaf_unique [of "C i" "snd l'" es] by simp
  show "map_of (entries t') = (map_of (entries t))(k \<mapsto> v)"
  proof
    fix q
    have new: "map_of (entries t') q = map_of (snd (leaf_of t' q)) q" by (rule map_of_leaf_of [OF wf'])
    have old: "map_of (entries t) q = map_of (snd (leaf_of t q)) q" by (rule map_of_leaf_of [OF wf(1)])
    show "map_of (entries t') q = ((map_of (entries t))(k \<mapsto> v)) q"
    proof (cases "fst (leaf_of t q) = i")
      case True
      then have "leaf_of t' q = (i, leaf_put es k v)" "snd (leaf_of t q) = es"
        using leaf_of_set_leaf [of t i "leaf_put es k v" q] same [OF leaf_of_in_leaves [OF wf(1)]] t' by simp_all
      then show ?thesis using new old map_of_leaf_put [OF es(1), of k v] by simp
    next
      case False
      then have "leaf_of t' q = leaf_of t q" "q \<noteq> k"
        using leaf_of_set_leaf [of t i "leaf_put es k v" q] l t' by auto
      then show ?thesis using new old by simp
    qed
  qed
  have "seps_used u \<Longrightarrow> (\<And>l'. l' \<in> set (leaves u) \<Longrightarrow> fst l' = i \<Longrightarrow> snd l' = es) \<Longrightarrow> seps_used (set_leaf u i (leaf_put es k v))" for u
  proof (induction u rule: child_induct)
    case (ONode j t ts)
    have sub: "fst ` set (entries u) \<subseteq> fst ` set (entries (set_leaf u i (leaf_put es k v)))"
      if "u \<in> set (t # map snd ts)" for u
    proof
      fix x assume "x \<in> fst ` set (entries u)"
      then obtain l' where l': "l' \<in> set (leaves u)" "x \<in> fst ` set (snd l')" unfolding entries_leaves by auto
      have "l' \<in> set (leaves (ONode j t ts))" unfolding leaves_children using that l'(1) by auto
      then have "fst l' = i \<Longrightarrow> snd l' = es" by (rule ONode.prems(2))
      then have "x \<in> fst ` set (snd (if fst l' = i then (i, leaf_put es k v) else l'))"
        using keys l'(2) by (cases "fst l' = i") simp_all
      then show "x \<in> fst ` set (entries (set_leaf u i (leaf_put es k v)))"
        unfolding entries_leaves leaves_set_leaf using l'(1) by force
    qed
    have IH: "seps_used (set_leaf u i (leaf_put es k v))" if u: "u \<in> set (t # map snd ts)" for u
    proof (rule ONode.IH [OF u used_child [OF ONode.prems(1) u]])
      fix l' assume "l' \<in> set (leaves u)" "fst l' = i"
      moreover have "set (leaves u) \<subseteq> set (leaves (ONode j t ts))" unfolding leaves_children using u by auto
      ultimately show "snd l' = es" using ONode.prems(2) by blast
    qed
    have IHk: "seps_used (set_leaf u i (leaf_put es k v))" if "(s, u) \<in> set ts" for s u using IH [of u] that by force
    show ?case unfolding set_leaf_node(1) seps_used.simps set_leaf_node(3)
    proof (intro conjI ballI)
      fix m assume m: "m \<in> {..<length (map (\<lambda>(s, u). (s, set_leaf u i (leaf_put es k v))) ts)}"
      then have mt: "m < length ts" "m < length (t # map snd ts)" by simp_all
      have "fst (ts ! m) \<in> fst ` set (entries ((t # map snd ts) ! m))" using ONode.prems(1) mt(1) by (simp del: nth_Cons_Suc)
      then have "fst (ts ! m) \<in> fst ` set (entries (set_leaf ((t # map snd ts) ! m) i (leaf_put es k v)))"
        using sub [OF nth_mem [OF mt(2)]] by blast
      moreover have "fst (map (\<lambda>(s, u). (s, set_leaf u i (leaf_put es k v))) ts ! m) = fst (ts ! m)"
        using mt(1) by (simp add: case_prod_beta)
      ultimately show "fst (map (\<lambda>(s, u). (s, set_leaf u i (leaf_put es k v))) ts ! m)
        \<in> fst ` set (entries (map (\<lambda>u. set_leaf u i (leaf_put es k v)) (t # map snd ts) ! m))"
        unfolding nth_map [OF mt(2)] by simp
    qed (use IH IHk in auto)
  qed simp
  then show "seps_used t \<Longrightarrow> seps_used t'" using same t' by blast
  have "fst (if fst l = i then (i, leaf_put es k v) else l) = fst l" for l :: "nat \<times> (slice \<times> slice) list" by simp
  then show "map fst (leaves t') = map fst (leaves t)" unfolding t' leaves_set_leaf map_map comp_def by simp
qed

lemma chain_cong:
  assumes "map fst ms = map fst ls" "\<forall>l \<in> set ls. right_sib (C' (fst l)) = right_sib (C (fst l))" "chain C ls"
  shows "chain C' ms"
  using assms
proof (induction C ls arbitrary: ms rule: chain.induct)
  case (3 C l m ls)
  then obtain l' m' ls' where ms: "ms = l' # m' # ls'" by (metis (no_types) length_map length_Suc_conv list.size(4))
  show ?case using 3 unfolding ms by simp
next
  case (2 C l)
  then show ?case by (cases ms) auto
qed simp

section \<open>Writing the leaf\<close>

lemma PageInsertKvpair_dirty: "PageInsertKvpair p k v = Inr p' \<Longrightarrow> is_dirty p'"
  by (auto simp: PageInsertKvpair_def Let_def split: if_splits)

lemma lock_fields [simp]:
  "node_leaf (p\<lparr>opt_lock := w\<rparr>) es = node_leaf p es" "page_space (p\<lparr>opt_lock := w\<rparr>) = page_space p"
  by (simp_all add: node_leaf_def node_recs_def)

lemma low_bits_add_4: "odd (unat (v + 4) div 2) = odd (unat v div 2)" "odd (unat (v + 4)) = odd (unat v)" for v :: "64 word"
proof -
  have u: "unat (v + 4) = (unat v + 4) mod 18446744073709551616" by (simp add: unat_word_ariths)
  have m: "unat (v + 4) mod 4 = unat v mod 4" unfolding u by (simp add: mod_mod_cancel)
  have "odd (x div 2) = odd (y div 2) \<and> odd x = odd y" if "x mod 4 = y mod 4" for x y :: nat using that by presburger
  from this [OF m] show "odd (unat (v + 4) div 2) = odd (unat v div 2)" "odd (unat (v + 4)) = odd (unat v)" by blast+
qed

lemma next_version:
  assumes "\<not> IsLocked v" "\<not> IsObsolete v"
  shows "\<not> IsLocked (v + 2 + 2)" "\<not> IsObsolete (v + 2 + 2)"
proof -
  have "bit w n \<longleftrightarrow> odd (unat w div 2 ^ n)" if "n < 64" for n and w :: "64 word"
    using bit_unsigned_iff [of w n, where 'a = nat] that by (simp add: bit_iff_odd)
  then show "\<not> IsLocked (v + 2 + 2)" "\<not> IsObsolete (v + 2 + 2)"
    using assms low_bits_add_4 [of v] unfolding IsLocked_bit IsObsolete_bit by (simp_all add: add.assoc)
qed

context page_store
begin

lemma parent_kept:
  assumes "parent_ok b parent qs" "\<And>q. q \<in> set qs \<Longrightarrow> cont b' q = cont b q" "ok b'" "ids b' = ids b"
    "\<And>q. q \<in> set qs \<Longrightarrow> bm_Lookup M q b' = bm_Lookup M q b"
  shows "parent_ok b' parent qs"
  using assms by (auto simp: parent_ok_def split: option.splits)

lemma unpin_parent_ok:
  assumes "pins b = pin_map (i # qs)" "parent_ok b parent qs" "at b i cur"
  shows "\<exists>b'. unpin_parent M parent b = Inr b' \<and> kept b b' \<and> pins b' = pin_map [i] \<and> at b' i cur"
proof -
  obtain b' where "release_parent M cur parent b = Inr (False, b')" "kept b b'" "pins b' = pin_map [i]" "at b' i cur"
    using release_parent_ok [OF _ assms] assms(3) by blast
  then show ?thesis
    by (auto simp: release_parent_def unpin_parent_def Let_def bind_result_Inr_iff split: option.splits if_splits)
qed

text \<open>Upgrading, writing and unlocking is one store, and the page it leaves is dirty.\<close>

lemma insert_leaf_ok:
  assumes cur: "at b i cur" "pins b = pin_map (i # qs)" "parent_ok b parent qs" "v = opt_lock (cont b i)"
    and leaf: "node_leaf (cont b i) es" "sorted_wrt (<) (map fst es)" "page_good (cont b i) i"
    and k: "k \<noteq> []" "\<not> LeafPageIsFull (cont b i) k w"
  shows "\<exists>b'. insert_leaf M k w cur v parent (T\<lparr>buf_mgr := b\<rparr>) = Inr (Done (), T\<lparr>buf_mgr := b'\<rparr>) \<and>
    ok b' \<and> ids b' = ids b \<and> cap b' = cap b \<and> pins b' = (\<lambda>_. 0) \<and>
    (\<forall>q \<in> ids b. q \<noteq> i \<longrightarrow> cont b' q = cont b q) \<and>
    page_good (cont b' i) i \<and> node_leaf (cont b' i) (leaf_put es k w) \<and> right_sib (cont b' i) = right_sib (cont b i)"
proof -
  let ?p = "bm_load M b cur"
  note F = load_fields [OF cur(1)]
  have held: "i = 0 \<or> 0 < pins b i" using cur(2) by (auto simp: pin_map_pos)
  have lk: "ok b" "bm_Lookup M i b = Some cur" using cur(1) by blast+
  let ?p1 = "?p\<lparr>opt_lock := v + 2\<rparr>"
  define b1 where "b1 = bm_store M cur (\<lambda>p. p\<lparr>opt_lock := v + 2\<rparr>) b"
  have up: "upgrade_lock M cur v b = (False, b1)"
    using F(1) cur(4) by (simp add: upgrade_lock_def UpgradeToWriteLockOrRestart_def lock_of_def b1_def)
  have ld1: "bm_load M b1 cur = ?p1" unfolding b1_def by (rule load_store [OF lk])
  have par: "\<not> (case parent of None \<Rightarrow> False | Some (pp, v) \<Rightarrow> ReadUnlockOrRestart (lock_of M b1 pp) v False)"
  proof (cases parent)
    case (Some pr)
    obtain pp pv q where q: "pr = (pp, pv)" "at b q pp" "pv = opt_lock (cont b q)" "\<not> is_leaf (cont b q)"
      using cur(3) Some by (cases pr) (auto simp: parent_ok_def)
    have "q \<noteq> i" using q(4) leaf(1) by (auto simp: node_leaf_def)
    then have "bm_load M b1 pp = bm_load M b pp" unfolding b1_def using load_other [OF lk] q(2) by blast
    then show ?thesis using Some q(1,3) load_fields(1) [OF q(2)] by (simp add: ReadUnlockOrRestart_def lock_of_def)
  qed simp
  have p1: "node_leaf ?p1 es" using leaf(1) F(8) by simp
  have room: "length k + length w + 12 \<le> page_space ?p1"
    using node_room(1) [of PAGE_SIZE ?p1 "map leaf_rec es" k w] k(2) F(7) p1
    by (simp add: node_leaf_def LeafPageIsFull_def not_less)
  obtain p2 where p2: "PageInsertKvpair ?p1 k w = Inr p2" "node_leaf p2 (leaf_put es k w)" "same_node ?p1 p2"
    using PageInsertKvpair_put [OF p1 leaf(2) k(1) room] by blast
  let ?q = "p2\<lparr>opt_lock := WriteUnlock (opt_lock p2)\<rparr>"
  define b2 where "b2 = bm_store M cur (\<lambda>_. ?q) b"
  have upd: "update_page M cur (\<lambda>p. PageInsertKvpair p k w) b1 = Inr (bm_store M cur (\<lambda>_. p2) b1)"
    using p2(1) ld1 by (simp add: update_page_def)
  have wu: "write_unlock M cur (bm_store M cur (\<lambda>_. p2) b1) = b2"
    by (simp add: write_unlock_def b1_def b2_def store_store)
  have dirty: "is_dirty ?q" using PageInsertKvpair_dirty [OF p2(1)] by simp
  note St = store [OF lk(1) held lk(2), of "\<lambda>_. ?q", OF dirty b2_def]
  have S2: "ok b2" "ids b2 = ids b" "cap b2 = cap b" "pins b2 = pins b" "cont b2 i = clean ?q"
    and S2x: "bm_Lookup M x b2 = bm_Lookup M x b" "x \<noteq> i \<Longrightarrow> cont b2 x = cont b x" for x
    using St by blast+
  have qi: "cont b2 q = cont b q" if "q \<in> set qs" for q
    using cur(3) leaf(1) that by (intro S2x(2)) (auto simp: parent_ok_def node_leaf_def split: option.splits)
  have par2: "parent_ok b2 parent qs" by (rule parent_kept [OF cur(3) qi S2(1,2) S2x(1)])
  have at2: "at b2 i cur" using S2(1,2) S2x(1) [of i] cur(1) by simp
  obtain b3 where b3: "unpin_parent M parent b2 = Inr b3" "kept b2 b3" "pins b3 = pin_map [i]" "at b3 i cur"
    using unpin_parent_ok [OF _ par2 at2] S2(4) cur(2) by metis
  have c3: "cont b3 i = clean ?q" using cont_kept [OF b3(2)] at2 S2(5) by simp
  have ids: "page_id ?q = i" "opt_lock ?q = v + 2 + 2" "right_sib ?q = right_sib (cont b i)"
    using p2(3) F(2,4) leaf(3) by (simp_all add: same_node_def page_good_def WriteUnlock_def)
  obtain b4 where b4: "unpin_page M cur b3 = Inr b4" "kept b3 b4" "pins b4 = pin_map []"
    using unpin_at [OF b3(4,3)] c3 ids(1) by auto
  note K = same_trans [OF kept_same [OF b3(2)] kept_same [OF b4(2)]]
  have c4: "cont b4 i = clean ?q" using sameD(4) [OF K] at2 S2(5) by simp
  have "insert_leaf M k w cur v parent (T\<lparr>buf_mgr := b\<rparr>) = Inr (Done (), T\<lparr>buf_mgr := b4\<rparr>)"
    unfolding insert_leaf_def using up par upd wu b3(1) b4(1) by simp
  moreover have "page_good (cont b4 i) i"
    using c4 ids next_version [of v] leaf(3) cur(4) by (simp add: page_good_def)
  moreover have "\<forall>q \<in> ids b. q \<noteq> i \<longrightarrow> cont b4 q = cont b q" using sameD(4) [OF K] S2(2) S2x(2) by simp
  ultimately show ?thesis
    using c4 ids(3) p2(2) sameD(1-3) [OF K] S2(2,3) b4(3) by (intro exI [of _ b4] conjI) simp_all
qed

lemma Insert_ok:
  assumes at: "tree_at b t" and k: "k \<noteq> []"
    and room: "\<forall>i \<in> set (path t k). \<not> InnerPageIsFull (cont b i) k" "\<not> LeafPageIsFull (cont b (fst (leaf_of t k))) k w"
    and T: "buf_mgr T = b"
  shows "\<exists>b' t'. Olc_Insert M k w T = Some (Inr (T\<lparr>buf_mgr := b'\<rparr>)) \<and> tree_at b' t' \<and>
    map_of (entries t') = (map_of (entries t))(k \<mapsto> w) \<and> (seps_used t \<longrightarrow> seps_used t') \<and>
    (chain (cont b) (leaves t) \<longrightarrow> chain (cont b') (leaves t')) \<and>
    (\<forall>q \<in> ids b. q \<noteq> fst (leaf_of t k) \<longrightarrow> cont b' q = cont b q)"
proof -
  obtain i es where l: "leaf_of t k = (i, es)" by (cases "leaf_of t k")
  have t: "tid t = 0" "holds (cont b) t" "otree_wf t" "set (tree_ids t) \<subseteq> ids b" "distinct (tree_ids t)" "2 \<le> cap b"
    using at by (simp_all add: tree_at_def)
  obtain root v0 b1 cur v parent qs b2 where R: "enter_root M b = Inr (Done (root, v0), b1)"
    "descend M k root v0 None b1 = Some (Inr (Done (cur, v, parent), b2))" "same b b2" "at b2 i cur"
    "pins b2 = pin_map (i # qs)" "parent_ok b2 parent qs" "v = opt_lock (cont b2 i)"
    "page_good (cont b2 i) i" "node_leaf (cont b2 i) es" "sorted_wrt (<) (map fst es)"
    "(\<forall>i \<in> set (path t k). \<not> InnerPageIsFull (cont b i) k) \<longrightarrow>
      insert_descend M k w root v0 None (T\<lparr>buf_mgr := b1\<rparr>) = insert_descend M k w cur v parent (T\<lparr>buf_mgr := b2\<rparr>)"
    by (rule reach_leaf [OF at l, where val = w and T = T])
  note S = sameD [OF R(3)]
  have iid: "i \<in> ids b" using R(4) S(2) by simp
  have nf: "\<not> LeafPageIsFull (cont b2 i) k w" using room(2) l S(4) [OF iid] by simp
  obtain b' where I: "insert_leaf M k w cur v parent (T\<lparr>buf_mgr := b2\<rparr>) = Inr (Done (), T\<lparr>buf_mgr := b'\<rparr>)"
    "ok b'" "ids b' = ids b2" "cap b' = cap b2" "pins b' = (\<lambda>_. 0)"
    "\<forall>q \<in> ids b2. q \<noteq> i \<longrightarrow> cont b' q = cont b2 q"
    "page_good (cont b' i) i" "node_leaf (cont b' i) (leaf_put es k w)" "right_sib (cont b' i) = right_sib (cont b2 i)"
    using insert_leaf_ok [OF R(4-7,9,10,8) k nf] by metis
  have "is_leaf (bm_load M b2 cur)" "\<not> LeafPageIsFull (bm_load M b2 cur) k w"
    using load_fields(3,7) [OF R(4)] R(9) nf by (simp_all add: node_leaf_def)
  then have "insert_descend M k w cur v parent (T\<lparr>buf_mgr := b2\<rparr>) = Some (Inr (Done (), T\<lparr>buf_mgr := b'\<rparr>))"
    using I(1) by (subst insert_descend.simps) simp
  then have "insert_attempt M k w T = Some (Inr (Done (), T\<lparr>buf_mgr := b'\<rparr>))"
    using R(1,11) room(1) T by (simp add: insert_attempt_def)
  then have ins: "Olc_Insert M k w T = Some (Inr (T\<lparr>buf_mgr := b'\<rparr>))" by (subst Olc_Insert.simps) simp
  define t' where "t' = set_leaf t i (leaf_put es k w)"
  note P = put_tree [OF t(3,5,2) l k t'_def]
  have same: "cont b' q = cont b q" if "q \<in> ids b" "q \<noteq> i" for q using I(6) S(2,4) that by simp
  have "is_leaf (cont b i)" using R(9) S(4) [OF iid] by (simp add: node_leaf_def)
  then have "holds (cont b') t'"
    unfolding t'_def using same t(4) I(7,8) by (intro holds_set_leaf [OF t(2)]) auto
  then have "tree_at b' t'"
    using t I(2-5) P(1) S(2,3) by (simp add: tree_at_def t'_def)
  moreover have "chain (cont b') (leaves t')" if "chain (cont b) (leaves t)"
  proof -
    have rs: "right_sib (cont b' q) = right_sib (cont b q)" if "q \<in> ids b" for q
      using same [OF that] I(9) S(4) [OF iid] by (cases "q = i") simp_all
    show ?thesis
      using chain_cong [OF P(4) _ that] leaves_holds [OF t(2)] t(4) rs by blast
  qed
  ultimately show ?thesis using ins P(2,3) same l by (intro exI [of _ b'] exI [of _ t']) simp
qed

end

section \<open>On the sharded pool\<close>

text \<open>
  The pool holds the tree: the pages represent it, page 0 is its root, no lock word is locked or
  obsolete, no page is pinned, and every shard has room for the two pages a call pins at a time.
\<close>

definition olc_tree :: "pool \<Rightarrow> otree \<Rightarrow> bool" where
  "olc_tree b t \<longleftrightarrow> pool_ok b \<and> tid t = 0 \<and> holds (pool_contents b) t \<and> otree_wf t \<and> set (tree_ids t) \<subseteq> pool_ids b \<and>
     distinct (tree_ids t) \<and> 2 \<le> pool_cap b \<and> (\<forall>q. pool_pins b q = 0)"

definition olc_linked :: "pool \<Rightarrow> otree \<Rightarrow> bool" where
  "olc_linked b t \<longleftrightarrow> seps_used t \<and> chain (pool_contents b) (leaves t)"

definition same_contents :: "pool \<Rightarrow> pool \<Rightarrow> bool" where
  "same_contents b b' \<longleftrightarrow> pool_ids b' = pool_ids b \<and> (\<forall>q \<in> pool_ids b. pool_contents b' q = pool_contents b q)"

lemma olc_tree_at: "olc_tree b t \<longleftrightarrow> pool_store.tree_at b t"
  by (auto simp: olc_tree_def pool_store.tree_at_def fun_eq_iff)

lemma same_contents: "pool_store.same b b' \<Longrightarrow> same_contents b b'"
  by (simp add: same_contents_def pool_store.same_def)

lemma new_shard_pins: "pool_pins (NewBufferManager raw n) q = 0"
  using Shard_less [of q] by (simp add: pool_pins_def NewBufferManager_def Let_def new_shard_def spins_def)

lemma new_pool_cap: "n + 15 < 2 ^ 32 \<Longrightarrow> pool_cap (NewBufferManager raw n) = (n + 15) div 16"
  by (simp add: pool_cap_def NewBufferManager_def Let_def new_shard_def u32_def)

lemma new_pool_tree:
  assumes "\<not> IsLocked (opt_lock raw)" "\<not> IsObsolete (opt_lock raw)" "17 \<le> n" "n + 15 < 2 ^ 32"
  shows "\<exists>T. new_BtreeOLC pool_manager (NewBufferManager raw n) = Inr T \<and> tree_height T = 1 \<and>
    olc_tree (buf_mgr T) (OLeaf 0 []) \<and> olc_linked (buf_mgr T) (OLeaf 0 []) \<and>
    pool_contents (buf_mgr T) 0 = (PageInit raw 0)\<lparr>is_leaf := True, is_dirty := False\<rparr>"
proof -
  let ?b = "NewBufferManager raw n" and ?r = "(PageInit raw 0)\<lparr>is_leaf := True\<rparr>"
  let ?T = "\<lparr>buf_mgr = ?b\<lparr>root := ?r\<rparr>, tree_height = 1\<rparr>"
  have new: "new_BtreeOLC pool_manager ?b = Inr ?T"
    by (simp add: new_BtreeOLC_def Pool_Pin_def store_frame_def NewBufferManager_def Let_def)
  have "pool_ok (?b\<lparr>root := ?r\<rparr>)"
    using pool_inv_new [of raw n] by (simp add: pool_ok_def pool_inv_def NewBufferManager_def Let_def PageInit_def)
  moreover have "pool_cap (?b\<lparr>root := ?r\<rparr>) = (n + 15) div 16" using new_pool_cap [OF assms(4), of raw] by (simp add: pool_cap_def)
  moreover have "pool_pins (?b\<lparr>root := ?r\<rparr>) q = 0" for q using new_shard_pins [of raw n q] by (auto simp: pool_pins_def split: if_splits)
  moreover have "pool_contents (?b\<lparr>root := ?r\<rparr>) 0 = clean ?r" by (simp add: pool_contents_def)
  moreover have "node_leaf (clean ?r) []" "page_good (clean ?r) 0" "right_sib (clean ?r) = 0"
    using assms(1,2) by (simp_all add: node_leaf_def node_recs_def page_good_def PageInit_def)
  moreover have "2 \<le> (n + 15) div 16" "0 \<in> pool_ids (?b\<lparr>root := ?r\<rparr>)"
    using assms(3) by (simp_all add: pool_ids_def NewBufferManager_def Let_def)
  ultimately have "olc_tree (buf_mgr ?T) (OLeaf 0 [])" "olc_linked (buf_mgr ?T) (OLeaf 0 [])"
    by (simp_all add: olc_tree_def olc_linked_def)
  then show ?thesis using new by (intro exI [of _ ?T]) (simp add: pool_contents_def)
qed

text \<open>A tree to try the operations on: a new one, with one pair inserted.\<close>

lemma map_of_single:
  assumes "sorted_wrt (<) (map fst xs)" "map_of xs = [k \<mapsto> v]"
  shows "xs = [(k :: slice, v)]"
proof -
  have d: "distinct (map fst xs)" using assms(1) strict_sorted_iff by blast
  have "(x, y) \<in> set xs \<longleftrightarrow> (x, y) = (k, v)" for x y
    using map_of_eq_Some_iff [OF d, of x y] assms(2) by (auto split: if_splits)
  then have s: "set xs = {(k, v)}" by auto
  have "length xs = card (set xs)" using d by (simp add: distinct_map distinct_card)
  then have "length xs = 1" unfolding s by simp
  then obtain x where "xs = [x]" by (cases xs) auto
  then show ?thesis using s by simp
qed

lemma new_tree: "\<exists>T :: pool btree_olc. olc_tree (buf_mgr T) (OLeaf 0 []) \<and> olc_linked (buf_mgr T) (OLeaf 0 []) \<and>
  \<not> LeafPageIsFull (pool_contents (buf_mgr T) 0) [1] [2]"
proof -
  have z: "\<not> IsLocked (opt_lock zero_page)" "\<not> IsObsolete (opt_lock zero_page)"
    by (simp_all add: zero_page_def IsLocked_def IsObsolete_def)
  show ?thesis using new_pool_tree [OF z, of 32] by (auto simp: LeafPageIsFull_def PageInit_def sub32_def)
qed

lemma one_pair_tree: "\<exists>b t. olc_tree b t \<and> olc_linked b t \<and> entries t = [([1], [2])]"
proof -
  obtain T :: "pool btree_olc" where T: "olc_tree (buf_mgr T) (OLeaf 0 [])" "olc_linked (buf_mgr T) (OLeaf 0 [])"
    "\<not> LeafPageIsFull (pool_contents (buf_mgr T) 0) [1] [2]" using new_tree by blast
  obtain b t where b: "olc_tree b t" "map_of (entries t) = [[1] \<mapsto> [2]]" "olc_linked b t"
    using pool_store.Insert_ok [OF T(1) [unfolded olc_tree_at], of "[1]" "[2]" T] T(2,3)
    unfolding olc_tree_at olc_linked_def by auto
  moreover have "entries t = [([1], [2])]"
    using map_of_single [OF entries_sorted b(2)] b(1) by (simp add: olc_tree_def)
  ultimately show ?thesis by blast
qed

section \<open>Properties\<close>

text \<open>C6. \<^verbatim>\<open>Query\<close> of the B-tree finds what the tree holds: on a pool that holds a tree, for every
  key, the call returns the value the tree maps the key to, or \<^verbatim>\<open>NotFound\<close>, without a restart and
  whatever pages the pool evicts and reloads on the way; it keeps the contents of every page and
  leaves the pool holding the same tree with nothing pinned.\<close>

theorem olc_query:
  assumes "olc_tree b t"
  shows "\<exists>b'. Olc_Query pool_manager key b = Some (Inr (map_of (entries t) key, b')) \<and> olc_tree b' t \<and>
    same_contents b b'"
  using pool_store.Query_ok [of b t key] assms same_contents unfolding olc_tree_at by blast

theorem olc_query_witness:
  "\<exists>b b1 b2. Olc_Query pool_manager [1] b = Some (Inr (Some [2], b1)) \<and> Olc_Query pool_manager [3] b = Some (Inr (None, b2))"
proof -
  obtain b t where b: "olc_tree b t" "entries t = [([1], [2])]" using one_pair_tree by blast
  show ?thesis using olc_query [OF b(1), of "[1]"] olc_query [OF b(1), of "[3]"] b(2) by auto
qed

text \<open>C7. A scan of the B-tree returns the range: on a pool that holds a tree with its leaves linked,
  the iterator's constructor collects exactly the pairs with \<open>low \<le> key \<le> up\<close>, in key order, also when
  the range starts after the last key of a leaf or the bounds are empty or crossed; it keeps the
  contents of every page and leaves nothing pinned.\<close>

theorem olc_scan:
  assumes "olc_tree b t" "olc_linked b t"
  shows "\<exists>b' rs. BtreeOLCScanIterator pool_manager low up b = Some (Inr (rs, b')) \<and>
    rs = filter (\<lambda>(k, v). low \<le> k \<and> k \<le> up) (entries t) \<and> sorted_wrt (<) (map fst rs) \<and>
    olc_tree b' t \<and> same_contents b b'"
proof -
  have "sorted_wrt (<) (map fst (entries t))" using assms(1) by (intro entries_sorted) (simp add: olc_tree_def)
  then have "sorted_wrt (<) (map fst (filter P (entries t)))" for P by (simp add: sorted_wrt_map sorted_wrt_filter)
  then show ?thesis
    using pool_store.Scan_ok [of b t low up] assms same_contents unfolding olc_tree_at olc_linked_def case_prod_beta by blast
qed

theorem olc_scan_witness:
  "\<exists>b b1 b2. BtreeOLCScanIterator pool_manager [] [5] b = Some (Inr ([([1], [2])], b1)) \<and>
    BtreeOLCScanIterator pool_manager [2] [5] b = Some (Inr ([], b2))"
proof -
  obtain b t where b: "olc_tree b t" "olc_linked b t" "entries t = [([1], [2])]" using one_pair_tree by blast
  show ?thesis using olc_scan [OF b(1,2), of "[]" "[5]"] olc_scan [OF b(1,2), of "[2]" "[5]"] b(3) by auto
qed



end
