(* ===== verification/MergeIter.thy ===== *)
theory MergeIter
  imports SliceCmp
begin

text \<open>
  Iterators: the virtual interface of \<^verbatim>\<open>leveldb/include/iterator.h\<close> as a record of operations, the
  caching wrapper of \<^verbatim>\<open>table/iterator_wrapper.h\<close> and the merging iterator of \<^verbatim>\<open>table/merger.cc\<close>. An
  operation that fails an assertion, or does not return, is \<^const>\<open>None\<close>. The locale \<open>sorted_iter\<close> is the
  contract of an iterator over a sorted sequence; the merging iterator satisfies it whenever
  its children do, so iterators can be stacked.
\<close>

section \<open>The interface\<close>

record 'it Iterator =
  it_Valid :: "'it \<Rightarrow> bool"
  it_SeekToFirst :: "'it \<Rightarrow> 'it option"
  it_SeekToLast :: "'it \<Rightarrow> 'it option"
  it_Seek :: "slice \<Rightarrow> 'it \<Rightarrow> 'it option"
  it_Next :: "'it \<Rightarrow> 'it option"
  it_Prev :: "'it \<Rightarrow> 'it option"
  it_key :: "'it \<Rightarrow> slice option"
  it_value :: "'it \<Rightarrow> slice option"

section \<open>The wrapper\<close>

record 'it IteratorWrapper =
  wr_iter :: 'it
  wr_valid :: bool
  wr_key :: slice

definition wr_Update :: "'it Iterator \<Rightarrow> 'it IteratorWrapper \<Rightarrow> 'it IteratorWrapper option" where
  "wr_Update I w =
     (let w1 = w\<lparr>wr_valid := it_Valid I (wr_iter w)\<rparr> in
      if wr_valid w1 then map_option (\<lambda>k. w1\<lparr>wr_key := k\<rparr>) (it_key I (wr_iter w)) else Some w1)"

definition wr_Set :: "'it Iterator \<Rightarrow> 'it \<Rightarrow> 'it IteratorWrapper option" where
  "wr_Set I it = wr_Update I \<lparr>wr_iter = it, wr_valid = False, wr_key = []\<rparr>"

definition wr_move :: "'it Iterator \<Rightarrow> ('it \<Rightarrow> 'it option) \<Rightarrow> 'it IteratorWrapper \<Rightarrow> 'it IteratorWrapper option" where
  "wr_move I f w = (case f (wr_iter w) of None \<Rightarrow> None | Some it \<Rightarrow> wr_Update I (w\<lparr>wr_iter := it\<rparr>))"

definition wr_Next :: "'it Iterator \<Rightarrow> 'it IteratorWrapper \<Rightarrow> 'it IteratorWrapper option" where
  "wr_Next I = wr_move I (it_Next I)"

definition wr_Prev :: "'it Iterator \<Rightarrow> 'it IteratorWrapper \<Rightarrow> 'it IteratorWrapper option" where
  "wr_Prev I = wr_move I (it_Prev I)"

definition wr_Seek :: "'it Iterator \<Rightarrow> slice \<Rightarrow> 'it IteratorWrapper \<Rightarrow> 'it IteratorWrapper option" where
  "wr_Seek I k = wr_move I (it_Seek I k)"

definition wr_SeekToFirst :: "'it Iterator \<Rightarrow> 'it IteratorWrapper \<Rightarrow> 'it IteratorWrapper option" where
  "wr_SeekToFirst I = wr_move I (it_SeekToFirst I)"

definition wr_SeekToLast :: "'it Iterator \<Rightarrow> 'it IteratorWrapper \<Rightarrow> 'it IteratorWrapper option" where
  "wr_SeekToLast I = wr_move I (it_SeekToLast I)"

section \<open>The merging iterator\<close>

datatype Direction = kForward | kReverse

record 'it MergingIterator =
  mi_children :: "'it IteratorWrapper list"
  mi_current :: "nat option"
  mi_direction :: Direction

text \<open>A loop over the children; \<open>f\<close> gets the index and the child.\<close>

definition each_child ::
  "(nat \<Rightarrow> 'it IteratorWrapper \<Rightarrow> 'it IteratorWrapper option) \<Rightarrow> 'it IteratorWrapper list \<Rightarrow>
    'it IteratorWrapper list option" where
  "each_child f cs =
     (if \<forall>i \<in> set [0..<length cs]. f i (cs ! i) \<noteq> None
      then Some (map (\<lambda>i. the (f i (cs ! i))) [0..<length cs]) else None)"

definition FindSmallest :: "(slice \<Rightarrow> slice \<Rightarrow> int) \<Rightarrow> 'it IteratorWrapper list \<Rightarrow> nat option" where
  "FindSmallest cmp cs =
     foldl (\<lambda>smallest i.
       if wr_valid (cs ! i) then
         (case smallest of
            None \<Rightarrow> Some i
          | Some j \<Rightarrow> if cmp (wr_key (cs ! i)) (wr_key (cs ! j)) < 0 then Some i else Some j)
       else smallest) None [0..<length cs]"

definition FindLargest :: "(slice \<Rightarrow> slice \<Rightarrow> int) \<Rightarrow> 'it IteratorWrapper list \<Rightarrow> nat option" where
  "FindLargest cmp cs =
     foldl (\<lambda>largest i.
       if wr_valid (cs ! i) then
         (case largest of
            None \<Rightarrow> Some i
          | Some j \<Rightarrow> if cmp (wr_key (cs ! i)) (wr_key (cs ! j)) > 0 then Some i else Some j)
       else largest) None (rev [0..<length cs])"

definition new_MergingIterator :: "'it Iterator \<Rightarrow> 'it list \<Rightarrow> 'it MergingIterator option" where
  "new_MergingIterator I its =
     (if \<forall>it \<in> set its. wr_Set I it \<noteq> None
      then Some \<lparr>mi_children = map (\<lambda>it. the (wr_Set I it)) its, mi_current = None, mi_direction = kForward\<rparr>
      else None)"

definition mi_SeekToFirst :: "(slice \<Rightarrow> slice \<Rightarrow> int) \<Rightarrow> 'it Iterator \<Rightarrow> 'it MergingIterator \<Rightarrow> 'it MergingIterator option" where
  "mi_SeekToFirst cmp I m =
     map_option (\<lambda>cs. \<lparr>mi_children = cs, mi_current = FindSmallest cmp cs, mi_direction = kForward\<rparr>)
       (each_child (\<lambda>_. wr_SeekToFirst I) (mi_children m))"

definition mi_SeekToLast :: "(slice \<Rightarrow> slice \<Rightarrow> int) \<Rightarrow> 'it Iterator \<Rightarrow> 'it MergingIterator \<Rightarrow> 'it MergingIterator option" where
  "mi_SeekToLast cmp I m =
     map_option (\<lambda>cs. \<lparr>mi_children = cs, mi_current = FindLargest cmp cs, mi_direction = kReverse\<rparr>)
       (each_child (\<lambda>_. wr_SeekToLast I) (mi_children m))"

definition mi_Seek ::
  "(slice \<Rightarrow> slice \<Rightarrow> int) \<Rightarrow> 'it Iterator \<Rightarrow> slice \<Rightarrow> 'it MergingIterator \<Rightarrow> 'it MergingIterator option" where
  "mi_Seek cmp I target m =
     map_option (\<lambda>cs. \<lparr>mi_children = cs, mi_current = FindSmallest cmp cs, mi_direction = kForward\<rparr>)
       (each_child (\<lambda>_. wr_Seek I target) (mi_children m))"

definition mi_Valid :: "'it MergingIterator \<Rightarrow> bool" where
  "mi_Valid m = (mi_current m \<noteq> None)"

definition mi_key :: "'it MergingIterator \<Rightarrow> slice option" where
  "mi_key m = (case mi_current m of None \<Rightarrow> None | Some i \<Rightarrow>
     if wr_valid (mi_children m ! i) then Some (wr_key (mi_children m ! i)) else None)"

definition mi_value :: "'it Iterator \<Rightarrow> 'it MergingIterator \<Rightarrow> slice option" where
  "mi_value I m = (case mi_current m of None \<Rightarrow> None | Some i \<Rightarrow>
     if wr_valid (mi_children m ! i) then it_value I (wr_iter (mi_children m ! i)) else None)"

text \<open>Turning round: the children other than the current one are placed after, or before, its key.\<close>

definition place_after ::
  "(slice \<Rightarrow> slice \<Rightarrow> int) \<Rightarrow> 'it Iterator \<Rightarrow> slice \<Rightarrow> 'it IteratorWrapper \<Rightarrow> 'it IteratorWrapper option" where
  "place_after cmp I key w =
     (case wr_Seek I key w of
        None \<Rightarrow> None
      | Some w1 \<Rightarrow> if wr_valid w1 \<and> cmp key (wr_key w1) = 0 then wr_Next I w1 else Some w1)"

definition place_before :: "'it Iterator \<Rightarrow> slice \<Rightarrow> 'it IteratorWrapper \<Rightarrow> 'it IteratorWrapper option" where
  "place_before I key w =
     (case wr_Seek I key w of
        None \<Rightarrow> None
      | Some w1 \<Rightarrow> if wr_valid w1 then wr_Prev I w1 else wr_SeekToLast I w1)"

definition mi_Next :: "(slice \<Rightarrow> slice \<Rightarrow> int) \<Rightarrow> 'it Iterator \<Rightarrow> 'it MergingIterator \<Rightarrow> 'it MergingIterator option" where
  "mi_Next cmp I m =
     (case mi_current m of
        None \<Rightarrow> None
      | Some c \<Rightarrow>
         (case (if mi_direction m \<noteq> kForward
                then each_child (\<lambda>i w. if i \<noteq> c then place_after cmp I (wr_key (mi_children m ! c)) w else Some w)
                       (mi_children m)
                else Some (mi_children m)) of
            None \<Rightarrow> None
          | Some cs \<Rightarrow>
             (case wr_Next I (cs ! c) of
                None \<Rightarrow> None
              | Some w \<Rightarrow>
                  let cs' = cs[c := w] in
                  Some \<lparr>mi_children = cs', mi_current = FindSmallest cmp cs', mi_direction = kForward\<rparr>)))"

definition mi_Prev :: "(slice \<Rightarrow> slice \<Rightarrow> int) \<Rightarrow> 'it Iterator \<Rightarrow> 'it MergingIterator \<Rightarrow> 'it MergingIterator option" where
  "mi_Prev cmp I m =
     (case mi_current m of
        None \<Rightarrow> None
      | Some c \<Rightarrow>
         (case (if mi_direction m \<noteq> kReverse
                then each_child (\<lambda>i w. if i \<noteq> c then place_before I (wr_key (mi_children m ! c)) w else Some w)
                       (mi_children m)
                else Some (mi_children m)) of
            None \<Rightarrow> None
          | Some cs \<Rightarrow>
             (case wr_Prev I (cs ! c) of
                None \<Rightarrow> None
              | Some w \<Rightarrow>
                  let cs' = cs[c := w] in
                  Some \<lparr>mi_children = cs', mi_current = FindLargest cmp cs', mi_direction = kReverse\<rparr>)))"

definition merging_iterator :: "(slice \<Rightarrow> slice \<Rightarrow> int) \<Rightarrow> 'it Iterator \<Rightarrow> 'it MergingIterator Iterator" where
  "merging_iterator cmp I = \<lparr>it_Valid = mi_Valid, it_SeekToFirst = mi_SeekToFirst cmp I, it_SeekToLast = mi_SeekToLast cmp I,
     it_Seek = mi_Seek cmp I, it_Next = mi_Next cmp I, it_Prev = mi_Prev cmp I, it_key = mi_key, it_value = mi_value I\<rparr>"

section \<open>Sorted sequences\<close>

definition lower :: "(slice \<Rightarrow> slice \<Rightarrow> int) \<Rightarrow> (slice \<times> 'v) list \<Rightarrow> slice \<Rightarrow> nat" where
  "lower cmp xs t = length (takeWhile (\<lambda>e. cmp (fst e) t < 0) xs)"

lemma lower_le [simp]: "lower cmp xs t \<le> length xs"
  by (simp add: lower_def length_takeWhile_le)

context key_order
begin

abbreviation ascending :: "('k \<times> 'v) list \<Rightarrow> bool" where
  "ascending xs \<equiv> sorted_wrt (\<lambda>a b. cmp (fst a) (fst b) < 0) xs \<and> (\<forall>e \<in> set xs. valid (fst e))"

lemma ascending_nth:
  assumes "ascending xs" "i < j" "j < length xs"
  shows "cmp (fst (xs ! i)) (fst (xs ! j)) < 0"
  using assms sorted_wrt_nth_less by fastforce

lemma ascending_distinct: "ascending xs \<Longrightarrow> distinct xs"
  using cmp_refl by (induction xs) auto

lemma ascending_inj:
  assumes "ascending xs" "a \<in> set xs" "b \<in> set xs" "cmp (fst a) (fst b) = 0"
  shows "a = b"
proof (rule ccontr)
  assume "a \<noteq> b"
  obtain i j where ij: "i < length xs" "j < length xs" "a = xs ! i" "b = xs ! j"
    using assms(2,3) by (metis in_set_conv_nth)
  then have "i < j \<or> j < i" using \<open>a \<noteq> b\<close> by (metis linorder_less_linear)
  then show False
    using ascending_nth [OF assms(1), of i j] ascending_nth [OF assms(1), of j i] ij assms cmp_flip [of "fst a" "fst b"] by auto
qed

lemma in_drop_nth: "e \<in> set (drop n xs) \<longleftrightarrow> (\<exists>i. n \<le> i \<and> i < length xs \<and> e = xs ! i)"
proof
  assume "e \<in> set (drop n xs)"
  then obtain i where "i < length (drop n xs)" "drop n xs ! i = e" unfolding in_set_conv_nth by blast
  then show "\<exists>i. n \<le> i \<and> i < length xs \<and> e = xs ! i" by (intro exI [of _ "n + i"]) auto
next
  assume "\<exists>i. n \<le> i \<and> i < length xs \<and> e = xs ! i"
  then obtain i where "n \<le> i" "i < length xs" "e = xs ! i" by blast
  then have "i - n < length (drop n xs)" "drop n xs ! (i - n) = e" by simp_all
  then show "e \<in> set (drop n xs)" using nth_mem by metis
qed

lemma in_take_nth: "e \<in> set (take n xs) \<longleftrightarrow> (\<exists>i. i < n \<and> i < length xs \<and> e = xs ! i)"
  by (auto simp: in_set_conv_nth)

text \<open>The items before and after the one at \<open>n\<close>, and before and after a key.\<close>

lemma part_nth:
  assumes "ascending xs" "n < length xs" "e \<in> set xs"
  shows "e \<in> set (take n xs) \<longleftrightarrow> cmp (fst e) (fst (xs ! n)) < 0" "e \<in> set (drop n xs) \<longleftrightarrow> \<not> cmp (fst e) (fst (xs ! n)) < 0"
    "e \<in> set (drop (Suc n) xs) \<longleftrightarrow> cmp (fst (xs ! n)) (fst e) < 0" "e \<in> set (take (Suc n) xs) \<longleftrightarrow> \<not> cmp (fst (xs ! n)) (fst e) < 0"
proof -
  obtain i where i: "i < length xs" "e = xs ! i" using assms(3) by (metis in_set_conv_nth)
  have v: "valid (fst (xs ! n))" "valid (fst (xs ! i))" using assms(1,2) i(1) by auto
  have d: "distinct xs" by (rule ascending_distinct [OF assms(1)])
  have at: "(\<exists>j. Q j \<and> j < length xs \<and> e = xs ! j) \<longleftrightarrow> Q i" for Q
    using nth_eq_iff_index_eq [OF d] i by metis
  have lt: "cmp (fst e) (fst (xs ! n)) < 0 \<longleftrightarrow> i < n" "cmp (fst (xs ! n)) (fst e) < 0 \<longleftrightarrow> n < i"
    using ascending_nth [OF assms(1), of i n] ascending_nth [OF assms(1), of n i] i assms(2) v cmp_flip [of "fst (xs ! n)" "fst (xs ! i)"]
      cmp_refl [of "fst (xs ! n)"]
    by (cases i n rule: linorder_cases; fastforce)+
  show "e \<in> set (take n xs) \<longleftrightarrow> cmp (fst e) (fst (xs ! n)) < 0" "e \<in> set (drop n xs) \<longleftrightarrow> \<not> cmp (fst e) (fst (xs ! n)) < 0"
    "e \<in> set (drop (Suc n) xs) \<longleftrightarrow> cmp (fst (xs ! n)) (fst e) < 0" "e \<in> set (take (Suc n) xs) \<longleftrightarrow> \<not> cmp (fst (xs ! n)) (fst e) < 0"
    unfolding lt in_take_nth in_drop_nth at by auto
qed

lemma part_lower:
  assumes "ascending xs" "valid t" "e \<in> set xs" and n: "n = length (takeWhile (\<lambda>e. cmp (fst e) t < 0) xs)"
  shows "e \<in> set (take n xs) \<longleftrightarrow> cmp (fst e) t < 0" "e \<in> set (drop n xs) \<longleftrightarrow> \<not> cmp (fst e) t < 0"
proof -
  have tk: "take n xs = takeWhile (\<lambda>e. cmp (fst e) t < 0) xs" "drop n xs = dropWhile (\<lambda>e. cmp (fst e) t < 0) xs"
    unfolding n by (simp_all add: takeWhile_eq_take [symmetric] dropWhile_eq_drop)
  have big: "\<not> cmp (fst e) t < 0" if e: "e \<in> set (dropWhile (\<lambda>e. cmp (fst e) t < 0) xs)" for e
  proof -
    have ne: "dropWhile (\<lambda>e. cmp (fst e) t < 0) xs \<noteq> []" using e by (metis empty_iff list.set(1))
    let ?h = "hd (dropWhile (\<lambda>e. cmp (fst e) t < 0) xs)"
    have h: "\<not> cmp (fst ?h) t < 0" by (rule hd_dropWhile [OF ne])
    have sub: "set (dropWhile (\<lambda>e. cmp (fst e) t < 0) xs) \<subseteq> set xs" using set_dropWhileD by fastforce
    have v: "valid (fst ?h)" "valid (fst e)" using assms(1) sub e hd_in_set [OF ne] by blast+
    have "sorted_wrt (\<lambda>a b. cmp (fst a) (fst b) < 0) (dropWhile (\<lambda>e. cmp (fst e) t < 0) xs)"
      using assms(1) unfolding dropWhile_eq_drop by (simp add: sorted_wrt_drop)
    then have "e = ?h \<or> cmp (fst ?h) (fst e) < 0"
      using e ne by (cases "dropWhile (\<lambda>e. cmp (fst e) t < 0) xs") auto
    then show ?thesis using h cmp_less_trans [of "fst ?h" "fst e" t] v assms(2) by fastforce
  qed
  have "set xs = set (takeWhile (\<lambda>e. cmp (fst e) t < 0) xs) \<union> set (dropWhile (\<lambda>e. cmp (fst e) t < 0) xs)"
    by (metis set_append takeWhile_dropWhile_id)
  moreover have "cmp (fst e) t < 0" if "e \<in> set (takeWhile (\<lambda>e. cmp (fst e) t < 0) xs)" for e
    using set_takeWhileD [OF that] by simp
  ultimately show "e \<in> set (take n xs) \<longleftrightarrow> cmp (fst e) t < 0" "e \<in> set (drop n xs) \<longleftrightarrow> \<not> cmp (fst e) t < 0"
    unfolding tk using assms(3) big by blast+
qed

text \<open>Merging ascending lists that have no key in common.\<close>

fun merge2 :: "('k \<times> 'v) list \<Rightarrow> ('k \<times> 'v) list \<Rightarrow> ('k \<times> 'v) list" where
  "merge2 [] ys = ys"
| "merge2 xs [] = xs"
| "merge2 (x # xs) (y # ys) =
     (if cmp (fst x) (fst y) < 0 then x # merge2 xs (y # ys) else y # merge2 (x # xs) ys)"

definition apart :: "('k \<times> 'v) list \<Rightarrow> ('k \<times> 'v) list \<Rightarrow> bool" where
  "apart xs ys \<longleftrightarrow> (\<forall>a \<in> set xs. \<forall>b \<in> set ys. cmp (fst a) (fst b) \<noteq> 0)"

lemma set_merge2: "set (merge2 xs ys) = set xs \<union> set ys"
  by (induction xs ys rule: merge2.induct) auto

lemma ascending_merge2:
  "ascending xs \<Longrightarrow> ascending ys \<Longrightarrow> apart xs ys \<Longrightarrow> ascending (merge2 xs ys)"
proof (induction xs ys rule: merge2.induct)
  case (3 x xs y ys)
  have v: "valid (fst x)" "valid (fst y)" using 3 by auto
  have ne: "cmp (fst x) (fst y) \<noteq> 0" using 3 by (simp add: apart_def)
  have tr: "cmp (fst a) (fst b) < 0 \<Longrightarrow> cmp (fst b) (fst c) < 0 \<Longrightarrow> valid (fst a) \<Longrightarrow> valid (fst b) \<Longrightarrow> valid (fst c) \<Longrightarrow>
    cmp (fst a) (fst c) < 0" for a b c :: "'k \<times> 'v"
    using cmp_less_trans [of "fst a" "fst b" "fst c"] by simp
  show ?case
  proof (cases "cmp (fst x) (fst y) < 0")
    case True
    then have "ascending (merge2 xs (y # ys))" using 3 by (auto simp: apart_def)
    moreover have "cmp (fst x) (fst e) < 0" if "e \<in> set xs \<union> set (y # ys)" for e
      using that 3(3,4) True tr [of x y e] v by auto
    ultimately show ?thesis using True v by (simp add: set_merge2)
  next
    case False
    then have yx: "cmp (fst y) (fst x) < 0" using ne cmp_flip [OF v] by linarith
    have "ascending (merge2 (x # xs) ys)" using 3 False by (auto simp: apart_def)
    moreover have "cmp (fst y) (fst e) < 0" if "e \<in> set (x # xs) \<union> set ys" for e
      using that 3(3,4) yx tr [of y x e] v by auto
    ultimately show ?thesis using False v by (simp add: set_merge2)
  qed
qed simp_all

definition merge_all :: "('k \<times> 'v) list list \<Rightarrow> ('k \<times> 'v) list" where
  "merge_all xss = foldr merge2 xss []"

lemma merge_all:
  assumes "\<forall>xs \<in> set xss. ascending xs" "sorted_wrt apart xss"
  shows "ascending (merge_all xss)" "set (merge_all xss) = (\<Union>xs \<in> set xss. set xs)"
proof -
  have "ascending (merge_all xss) \<and> set (merge_all xss) = (\<Union>xs \<in> set xss. set xs)"
    using assms
  proof (induction xss)
    case (Cons xs xss)
    then have IH: "ascending (merge_all xss)" "set (merge_all xss) = (\<Union>xs \<in> set xss. set xs)" by simp_all
    have "apart xs (merge_all xss)" using Cons.prems(2) unfolding apart_def IH(2) by auto
    moreover have "merge_all (xs # xss) = merge2 xs (merge_all xss)" by (simp add: merge_all_def)
    ultimately show ?case using ascending_merge2 [of xs "merge_all xss"] IH Cons.prems(1) by (simp add: set_merge2)
  qed (simp add: merge_all_def)
  then show "ascending (merge_all xss)" "set (merge_all xss) = (\<Union>xs \<in> set xss. set xs)" by blast+
qed

end

text \<open>A fold that keeps the best of the candidates seen so far.\<close>

definition pick_inv :: "('a \<Rightarrow> bool) \<Rightarrow> ('a \<Rightarrow> 'a \<Rightarrow> bool) \<Rightarrow> 'a list \<Rightarrow> 'a option \<Rightarrow> bool" where
  "pick_inv V R xs r \<longleftrightarrow>
     (case r of
        None \<Rightarrow> \<forall>i \<in> set xs. \<not> V i
      | Some c \<Rightarrow> c \<in> set xs \<and> V c \<and> (\<forall>i \<in> set xs. V i \<longrightarrow> \<not> R i c))"

lemma pick_best:
  assumes "\<And>i j l. i \<in> set xs \<Longrightarrow> j \<in> set xs \<Longrightarrow> l \<in> set xs \<Longrightarrow> V i \<Longrightarrow> V j \<Longrightarrow> V l \<Longrightarrow> \<not> R i i"
    and "\<And>i j l. i \<in> set xs \<Longrightarrow> j \<in> set xs \<Longrightarrow> l \<in> set xs \<Longrightarrow> V i \<Longrightarrow> V j \<Longrightarrow> V l \<Longrightarrow> R i j \<Longrightarrow> R j l \<Longrightarrow> R i l"
  shows "pick_inv V R xs
    (foldl (\<lambda>best i. if V i then (case best of None \<Rightarrow> Some i | Some j \<Rightarrow> if R i j then Some i else Some j) else best) None xs)"
  using assms
proof (induction xs rule: rev_induct)
  case Nil
  show ?case by (simp add: pick_inv_def)
next
  case (snoc x xs)
  let ?f = "\<lambda>best i. if V i then (case best of None \<Rightarrow> Some i | Some j \<Rightarrow> if R i j then Some i else Some j) else best"
  let ?b = "foldl ?f None xs"
  have IH: "pick_inv V R xs ?b"
  proof (rule snoc.IH)
    fix i j l assume "i \<in> set xs" "j \<in> set xs" "l \<in> set xs" "V i" "V j" "V l"
    then show "\<not> R i i" "R i j \<Longrightarrow> R j l \<Longrightarrow> R i l"
      using snoc.prems(1) [of i j l] snoc.prems(2) [of i j l] by simp_all
  qed
  have irr: "V i \<Longrightarrow> i \<in> set (xs @ [x]) \<Longrightarrow> \<not> R i i" for i using snoc.prems(1) [of i i i] by blast
  show ?case
  proof (cases "V x")
    case True
    show ?thesis
    proof (cases ?b)
      case None
      then show ?thesis using IH True irr [of x] by (auto simp: pick_inv_def)
    next
      case (Some c)
      then have c: "c \<in> set xs" "V c" "\<forall>i \<in> set xs. V i \<longrightarrow> \<not> R i c" using IH by (simp_all add: pick_inv_def)
      have "\<not> R i x" if "R x c" "i \<in> set xs" "V i" for i
        using snoc.prems(2) [of i x c] that c True by auto
      then show ?thesis using Some c True irr [of x] by (auto simp: pick_inv_def)
    qed
  qed (use IH in \<open>auto simp: pick_inv_def split: option.splits\<close>)
qed

section \<open>Sequences of moves\<close>

text \<open>A cursor on a sorted list: the reference the iterators are compared with. It has no move to make past the ends.\<close>

datatype iter_move = MSeekToFirst | MSeekToLast | MSeek slice | MNext | MPrev

fun cursor_move :: "(slice \<Rightarrow> slice \<Rightarrow> int) \<Rightarrow> (slice \<times> slice) list \<Rightarrow> iter_move \<Rightarrow> nat \<Rightarrow> nat option" where
  "cursor_move cmp xs MSeekToFirst n = Some 0"
| "cursor_move cmp xs MSeekToLast n = Some (length xs - 1)"
| "cursor_move cmp xs (MSeek t) n = Some (lower cmp xs t)"
| "cursor_move cmp xs MNext n = (if n < length xs then Some (Suc n) else None)"
| "cursor_move cmp xs MPrev n = (if n < length xs then Some (if n = 0 then length xs else n - 1) else None)"

fun do_move :: "'it Iterator \<Rightarrow> iter_move \<Rightarrow> 'it \<Rightarrow> 'it option" where
  "do_move I MSeekToFirst s = it_SeekToFirst I s"
| "do_move I MSeekToLast s = it_SeekToLast I s"
| "do_move I (MSeek t) s = it_Seek I t s"
| "do_move I MNext s = it_Next I s"
| "do_move I MPrev s = it_Prev I s"

fun run_moves :: "(iter_move \<Rightarrow> 's \<Rightarrow> 's option) \<Rightarrow> iter_move list \<Rightarrow> 's \<Rightarrow> 's option" where
  "run_moves f [] s = Some s"
| "run_moves f (mv # mvs) s = (case f mv s of None \<Rightarrow> None | Some s' \<Rightarrow> run_moves f mvs s')"

fun move_ok :: "(slice \<Rightarrow> bool) \<Rightarrow> iter_move \<Rightarrow> bool" where
  "move_ok valid (MSeek t) = valid t"
| "move_ok valid _ = True"

locale sorted_iter = key_order valid cmp
  for valid :: "slice \<Rightarrow> bool" and cmp :: "slice \<Rightarrow> slice \<Rightarrow> int" +
  fixes I :: "'it Iterator"
    and ok :: "'it \<Rightarrow> bool"
    and items :: "'it \<Rightarrow> (slice \<times> slice) list"
    and pos :: "'it \<Rightarrow> nat"
  assumes ascends: "ok s \<Longrightarrow> ascending (items s)"
    and valid_iff: "ok s \<Longrightarrow> it_Valid I s \<longleftrightarrow> pos s < length (items s)"
    and reads: "ok s \<Longrightarrow> pos s < length (items s) \<Longrightarrow>
      it_key I s = Some (fst (items s ! pos s)) \<and> it_value I s = Some (snd (items s ! pos s))"
    and seek_first: "ok s \<Longrightarrow> \<exists>s'. it_SeekToFirst I s = Some s' \<and> ok s' \<and> items s' = items s \<and> pos s' = 0"
    and seek_last: "ok s \<Longrightarrow> \<exists>s'. it_SeekToLast I s = Some s' \<and> ok s' \<and> items s' = items s \<and> pos s' = length (items s) - 1"
    and seek: "ok s \<Longrightarrow> valid t \<Longrightarrow> \<exists>s'. it_Seek I t s = Some s' \<and> ok s' \<and> items s' = items s \<and> pos s' = lower cmp (items s) t"
    and step: "ok s \<Longrightarrow> pos s < length (items s) \<Longrightarrow>
      \<exists>s'. it_Next I s = Some s' \<and> ok s' \<and> items s' = items s \<and> pos s' = Suc (pos s)"
    and step_back: "ok s \<Longrightarrow> pos s < length (items s) \<Longrightarrow>
      \<exists>s'. it_Prev I s = Some s' \<and> ok s' \<and> items s' = items s \<and>
        pos s' = (if pos s = 0 then length (items s) else pos s - 1)"
begin

subsection \<open>The wrapper\<close>

definition wok :: "'it IteratorWrapper \<Rightarrow> bool" where
  "wok w \<longleftrightarrow> ok (wr_iter w) \<and> (wr_valid w \<longleftrightarrow> it_Valid I (wr_iter w)) \<and>
     (wr_valid w \<longrightarrow> it_key I (wr_iter w) = Some (wr_key w))"

abbreviation witems :: "'it IteratorWrapper \<Rightarrow> (slice \<times> slice) list" where
  "witems w \<equiv> items (wr_iter w)"

abbreviation wpos :: "'it IteratorWrapper \<Rightarrow> nat" where
  "wpos w \<equiv> pos (wr_iter w)"

lemma wok_read:
  assumes "wok w"
  shows "wr_valid w \<longleftrightarrow> wpos w < length (witems w)" "wr_valid w \<Longrightarrow> wr_key w = fst (witems w ! wpos w)"
    "wr_valid w \<Longrightarrow> it_value I (wr_iter w) = Some (snd (witems w ! wpos w))" "ascending (witems w)"
  using assms valid_iff [of "wr_iter w"] reads [of "wr_iter w"] ascends by (auto simp: wok_def)

lemma wr_Update_ok: "ok (wr_iter w) \<Longrightarrow> \<exists>w'. wr_Update I w = Some w' \<and> wok w' \<and> wr_iter w' = wr_iter w"
  using valid_iff [of "wr_iter w"] reads [of "wr_iter w"] by (auto simp: wr_Update_def Let_def wok_def)

lemma wr_Set_ok: "ok it \<Longrightarrow> \<exists>w'. wr_Set I it = Some w' \<and> wok w' \<and> wr_iter w' = it"
  using wr_Update_ok [of "\<lparr>wr_iter = it, wr_valid = False, wr_key = []\<rparr>"] by (simp add: wr_Set_def)

text \<open>A move of a child that keeps its items and ends at position \<open>n\<close>.\<close>

definition moves :: "'it IteratorWrapper \<Rightarrow> 'it IteratorWrapper option \<Rightarrow> nat \<Rightarrow> bool" where
  "moves w r n \<longleftrightarrow> (\<exists>w'. r = Some w' \<and> wok w' \<and> witems w' = witems w \<and> wpos w' = n)"

lemma wr_move_ok:
  assumes "\<exists>s'. f (wr_iter w) = Some s' \<and> ok s' \<and> items s' = witems w \<and> pos s' = n"
  shows "moves w (wr_move I f w) n"
proof -
  obtain s' where s': "f (wr_iter w) = Some s'" "ok s'" "items s' = witems w" "pos s' = n" using assms by blast
  then show ?thesis using wr_Update_ok [of "w\<lparr>wr_iter := s'\<rparr>"] by (auto simp: moves_def wr_move_def)
qed

lemma child_moves:
  assumes "wok w"
  shows "wpos w < length (witems w) \<Longrightarrow> moves w (wr_Next I w) (Suc (wpos w))"
    "wpos w < length (witems w) \<Longrightarrow> moves w (wr_Prev I w) (if wpos w = 0 then length (witems w) else wpos w - 1)"
    "valid t \<Longrightarrow> moves w (wr_Seek I t w) (lower cmp (witems w) t)"
    "moves w (wr_SeekToFirst I w) 0" "moves w (wr_SeekToLast I w) (length (witems w) - 1)"
proof -
  have s: "ok (wr_iter w)" using assms by (simp add: wok_def)
  show "wpos w < length (witems w) \<Longrightarrow> moves w (wr_Next I w) (Suc (wpos w))"
    unfolding wr_Next_def using step [OF s] by (rule wr_move_ok)
  show "wpos w < length (witems w) \<Longrightarrow> moves w (wr_Prev I w) (if wpos w = 0 then length (witems w) else wpos w - 1)"
    unfolding wr_Prev_def using step_back [OF s] by (rule wr_move_ok)
  show "valid t \<Longrightarrow> moves w (wr_Seek I t w) (lower cmp (witems w) t)"
    unfolding wr_Seek_def using seek [OF s] by (rule wr_move_ok)
  show "moves w (wr_SeekToFirst I w) 0" unfolding wr_SeekToFirst_def using seek_first [OF s] by (rule wr_move_ok)
  show "moves w (wr_SeekToLast I w) (length (witems w) - 1)"
    unfolding wr_SeekToLast_def using seek_last [OF s] by (rule wr_move_ok)
qed

lemma place_moves:
  assumes "wok w" "valid t"
  shows "\<forall>e \<in> set (witems w). cmp t (fst e) \<noteq> 0 \<Longrightarrow> moves w (place_after cmp I t w) (lower cmp (witems w) t)"
    "moves w (place_before I t w) (if lower cmp (witems w) t = 0 then length (witems w) else lower cmp (witems w) t - 1)"
proof -
  obtain w1 where w1: "wr_Seek I t w = Some w1" "wok w1" "witems w1 = witems w" "wpos w1 = lower cmp (witems w) t"
    using child_moves(3) [OF assms] by (auto simp: moves_def)
  note R = wok_read [OF w1(2)]
  show "moves w (place_after cmp I t w) (lower cmp (witems w) t)" if "\<forall>e \<in> set (witems w). cmp t (fst e) \<noteq> 0"
  proof -
    have "\<not> (wr_valid w1 \<and> cmp t (wr_key w1) = 0)" using R(1,2) that w1(3) by auto
    then show ?thesis using w1 by (auto simp: place_after_def moves_def)
  qed
  show "moves w (place_before I t w) (if lower cmp (witems w) t = 0 then length (witems w) else lower cmp (witems w) t - 1)"
  proof (cases "wr_valid w1")
    case True
    then show ?thesis using child_moves(2) [OF w1(2)] w1 R(1) by (auto simp: place_before_def moves_def)
  next
    case False
    then have "lower cmp (witems w) t = length (witems w)" using R(1) w1(3,4) lower_le [of cmp "witems w" t] by simp
    then show ?thesis using child_moves(5) [OF w1(2)] w1 False by (auto simp: place_before_def moves_def)
  qed
qed

lemma each_child_ok:
  assumes "\<And>i. i < length cs \<Longrightarrow> moves (cs ! i) (f i (cs ! i)) (n i)"
  shows "\<exists>cs'. each_child f cs = Some cs' \<and> length cs' = length cs \<and>
    (\<forall>i < length cs. wok (cs' ! i) \<and> witems (cs' ! i) = witems (cs ! i) \<and> wpos (cs' ! i) = n i)"
proof -
  have "\<exists>w'. f i (cs ! i) = Some w' \<and> wok w' \<and> witems w' = witems (cs ! i) \<and> wpos w' = n i" if "i < length cs" for i
    using assms [OF that] by (simp add: moves_def)
  then have "\<forall>i < length cs. f i (cs ! i) \<noteq> None \<and> wok (the (f i (cs ! i))) \<and>
    witems (the (f i (cs ! i))) = witems (cs ! i) \<and> wpos (the (f i (cs ! i))) = n i" by force
  then show ?thesis by (simp add: each_child_def)
qed

subsection \<open>Choosing the current child\<close>

lemma FindSmallest_least:
  assumes "\<forall>w \<in> set cs. wr_valid w \<longrightarrow> valid (wr_key w)"
  shows "FindSmallest cmp cs = None \<Longrightarrow> i < length cs \<Longrightarrow> \<not> wr_valid (cs ! i)"
    "FindSmallest cmp cs = Some c \<Longrightarrow> c < length cs \<and> wr_valid (cs ! c) \<and>
      (\<forall>i < length cs. wr_valid (cs ! i) \<longrightarrow> \<not> cmp (wr_key (cs ! i)) (wr_key (cs ! c)) < 0)"
proof -
  let ?R = "\<lambda>i j. cmp (wr_key (cs ! i)) (wr_key (cs ! j)) < 0"
  have "pick_inv (\<lambda>i. wr_valid (cs ! i)) ?R [0..<length cs] (FindSmallest cmp cs)"
    unfolding FindSmallest_def
  proof (rule pick_best)
    fix i j l
    assume "i \<in> set [0..<length cs]" "j \<in> set [0..<length cs]" "l \<in> set [0..<length cs]"
      "wr_valid (cs ! i)" "wr_valid (cs ! j)" "wr_valid (cs ! l)"
    then have v: "valid (wr_key (cs ! i))" "valid (wr_key (cs ! j))" "valid (wr_key (cs ! l))" using assms by simp_all
    show "\<not> ?R i i" using cmp_refl [OF v(1)] by simp
    show "?R i j \<Longrightarrow> ?R j l \<Longrightarrow> ?R i l" using cmp_less_trans [OF v(1,2,3)] by simp
  qed
  then show "FindSmallest cmp cs = None \<Longrightarrow> i < length cs \<Longrightarrow> \<not> wr_valid (cs ! i)"
    "FindSmallest cmp cs = Some c \<Longrightarrow> c < length cs \<and> wr_valid (cs ! c) \<and>
      (\<forall>i < length cs. wr_valid (cs ! i) \<longrightarrow> \<not> cmp (wr_key (cs ! i)) (wr_key (cs ! c)) < 0)"
    by (simp_all add: pick_inv_def)
qed

lemma FindLargest_greatest:
  assumes "\<forall>w \<in> set cs. wr_valid w \<longrightarrow> valid (wr_key w)"
  shows "FindLargest cmp cs = None \<Longrightarrow> i < length cs \<Longrightarrow> \<not> wr_valid (cs ! i)"
    "FindLargest cmp cs = Some c \<Longrightarrow> c < length cs \<and> wr_valid (cs ! c) \<and>
      (\<forall>i < length cs. wr_valid (cs ! i) \<longrightarrow> \<not> cmp (wr_key (cs ! c)) (wr_key (cs ! i)) < 0)"
proof -
  let ?R = "\<lambda>i j. cmp (wr_key (cs ! i)) (wr_key (cs ! j)) > 0"
  have flip: "?R i j \<longleftrightarrow> cmp (wr_key (cs ! j)) (wr_key (cs ! i)) < 0"
    if "i < length cs" "j < length cs" "wr_valid (cs ! i)" "wr_valid (cs ! j)" for i j
    using cmp_flip(1) [of "wr_key (cs ! j)" "wr_key (cs ! i)"] that assms by simp
  have P: "pick_inv (\<lambda>i. wr_valid (cs ! i)) ?R (rev [0..<length cs]) (FindLargest cmp cs)"
    unfolding FindLargest_def
  proof (rule pick_best)
    fix i j l
    assume *: "i \<in> set (rev [0..<length cs])" "j \<in> set (rev [0..<length cs])" "l \<in> set (rev [0..<length cs])"
      "wr_valid (cs ! i)" "wr_valid (cs ! j)" "wr_valid (cs ! l)"
    then have v: "valid (wr_key (cs ! i))" "valid (wr_key (cs ! j))" "valid (wr_key (cs ! l))" using assms by simp_all
    show "\<not> ?R i i" using cmp_refl [OF v(1)] by simp
    show "?R i j \<Longrightarrow> ?R j l \<Longrightarrow> ?R i l" using cmp_less_trans [OF v(3,2,1)] flip * by simp
  qed
  show "FindLargest cmp cs = None \<Longrightarrow> i < length cs \<Longrightarrow> \<not> wr_valid (cs ! i)" using P by (simp add: pick_inv_def)
  show "FindLargest cmp cs = Some c \<Longrightarrow> c < length cs \<and> wr_valid (cs ! c) \<and>
      (\<forall>i < length cs. wr_valid (cs ! i) \<longrightarrow> \<not> cmp (wr_key (cs ! c)) (wr_key (cs ! i)) < 0)"
    using P flip by (auto simp: pick_inv_def)
qed

subsection \<open>The merged sequence\<close>

text \<open>
  Moving forward, the children stand behind the items before position \<open>n\<close> of the merged sequence;
  moving in reverse, a valid child stands on the last of its items before \<open>n\<close>.
\<close>

definition child_cut :: "Direction \<Rightarrow> 'it IteratorWrapper \<Rightarrow> nat" where
  "child_cut d w = (case d of kForward \<Rightarrow> wpos w | kReverse \<Rightarrow> if wpos w < length (witems w) then Suc (wpos w) else 0)"

definition split_at :: "Direction \<Rightarrow> 'it IteratorWrapper list \<Rightarrow> (slice \<times> slice) list \<Rightarrow> nat \<Rightarrow> bool" where
  "split_at d cs K n \<longleftrightarrow> (\<forall>w \<in> set cs. set (take (child_cut d w) (witems w)) \<subseteq> set (take n K) \<and>
     set (drop (child_cut d w) (witems w)) \<subseteq> set (drop n K))"

definition children_ok :: "'it IteratorWrapper list \<Rightarrow> bool" where
  "children_ok cs \<longleftrightarrow> (\<forall>w \<in> set cs. wok w) \<and> sorted_wrt apart (map witems cs)"

abbreviation merged :: "'it IteratorWrapper list \<Rightarrow> (slice \<times> slice) list" where
  "merged cs \<equiv> merge_all (map witems cs)"

lemma merged_ok:
  assumes "children_ok cs"
  shows "ascending (merged cs)" "set (merged cs) = (\<Union>w \<in> set cs. set (witems w))"
    "\<forall>w \<in> set cs. wr_valid w \<longrightarrow> valid (wr_key w)"
proof -
  have "\<forall>xs \<in> set (map witems cs). ascending xs" "sorted_wrt apart (map witems cs)"
    using assms wok_read(4) by (auto simp: children_ok_def)
  from merge_all [OF this] show "ascending (merged cs)" "set (merged cs) = (\<Union>w \<in> set cs. set (witems w))" by auto
  show "\<forall>w \<in> set cs. wr_valid w \<longrightarrow> valid (wr_key w)"
    using assms wok_read unfolding children_ok_def by fastforce
qed

lemma other_child:
  assumes "children_ok cs" "i < length cs" "j < length cs" "i \<noteq> j" "a \<in> set (witems (cs ! i))" "b \<in> set (witems (cs ! j))"
  shows "cmp (fst a) (fst b) \<noteq> 0"
proof -
  have v: "valid (fst a)" "valid (fst b)"
    using assms wok_read(4) [of "cs ! i"] wok_read(4) [of "cs ! j"] by (auto simp: children_ok_def)
  have "apart (witems (cs ! i)) (witems (cs ! j)) \<or> apart (witems (cs ! j)) (witems (cs ! i))"
    using assms(1-4) by (auto simp: children_ok_def sorted_wrt_iff_nth_less linorder_neq_iff)
  then show ?thesis using assms(5,6) cmp_flip(2) [OF v] by (auto simp: apart_def)
qed

lemma take_drop_apart: "ascending K \<Longrightarrow> e \<in> set (take n K) \<Longrightarrow> e \<notin> set (drop n K)"
  using ascending_distinct [of K] set_take_disj_set_drop_if_distinct [of K n n] by blast

lemma choose_smallest:
  assumes cs: "children_ok cs" and K: "K = merged cs" and sp: "split_at kForward cs K n" "n \<le> length K"
  shows "FindSmallest cmp cs = None \<Longrightarrow> n = length K"
    "FindSmallest cmp cs = Some c \<Longrightarrow> c < length cs \<and> wr_valid (cs ! c) \<and> n < length K \<and>
      K ! n = witems (cs ! c) ! wpos (cs ! c)"
proof -
  note M = merged_ok [OF cs, folded K]
  have wk: "wok w" if "w \<in> set cs" for w using cs that by (simp add: children_ok_def)
  have behind: "\<exists>i < length cs. K ! n \<in> set (drop (wpos (cs ! i)) (witems (cs ! i)))" if n: "n < length K"
  proof -
    obtain w where w: "w \<in> set cs" "K ! n \<in> set (witems w)" using nth_mem [OF n] unfolding M(2) by blast
    have "K ! n \<in> set (drop n K)" unfolding in_drop_nth using n by (intro exI [of _ n]) simp
    moreover have "set (take (wpos w) (witems w)) \<subseteq> set (take n K)"
      using sp(1) w(1) by (simp add: split_at_def child_cut_def)
    ultimately have "K ! n \<notin> set (take (wpos w) (witems w))" using take_drop_apart [OF M(1), of "K ! n" n] by blast
    then have "K ! n \<in> set (drop (wpos w) (witems w))" using w(2) by (metis Un_iff append_take_drop_id set_append)
    then show ?thesis using w(1) by (metis in_set_conv_nth)
  qed
  show "n = length K" if "FindSmallest cmp cs = None"
  proof (rule ccontr)
    assume "n \<noteq> length K"
    then obtain i where i: "i < length cs" "K ! n \<in> set (drop (wpos (cs ! i)) (witems (cs ! i)))" using behind sp(2) by auto
    then have "wr_valid (cs ! i)" using wok_read(1) [OF wk [OF nth_mem [OF i(1)]]] by auto
    then show False using FindSmallest_least(1) [OF M(3) that i(1)] by blast
  qed
  show "c < length cs \<and> wr_valid (cs ! c) \<and> n < length K \<and> K ! n = witems (cs ! c) ! wpos (cs ! c)"
    if "FindSmallest cmp cs = Some c"
  proof -
    note F = FindSmallest_least(2) [OF M(3) that]
    let ?h = "\<lambda>i. witems (cs ! i) ! wpos (cs ! i)"
    have head: "?h i \<in> set (drop n K)" "wr_key (cs ! i) = fst (?h i)" if "i < length cs" "wr_valid (cs ! i)" for i
    proof -
      note R = wok_read [OF wk [OF nth_mem [OF that(1)]]]
      have "?h i \<in> set (drop (wpos (cs ! i)) (witems (cs ! i)))" unfolding in_drop_nth using R(1) that(2) by blast
      then show "?h i \<in> set (drop n K)" using sp(1) nth_mem [OF that(1)] by (auto simp: split_at_def child_cut_def)
      show "wr_key (cs ! i) = fst (?h i)" by (rule R(2) [OF that(2)])
    qed
    have hc: "?h c \<in> set (drop n K)" using head(1) F by blast
    have n: "n < length K" using hc by (metis drop_all empty_iff list.set(1) not_less)
    obtain i where i: "i < length cs" "K ! n \<in> set (drop (wpos (cs ! i)) (witems (cs ! i)))" using behind [OF n] by blast
    note Ri = wok_read [OF wk [OF nth_mem [OF i(1)]]]
    have vi: "wr_valid (cs ! i)" "wpos (cs ! i) < length (witems (cs ! i))" using i(2) Ri(1) by auto
    have in_i: "K ! n \<in> set (witems (cs ! i))" using i(2) by (rule in_set_dropD)
    have hK: "?h i \<in> set K" "?h c \<in> set K" "K ! n \<in> set K" using head(1) [OF i(1) vi(1)] hc nth_mem [OF n] by (auto dest: in_set_dropD)
    have v: "valid (fst (?h i))" "valid (fst (?h c))" "valid (fst (K ! n))" using M(1) hK by blast+
    have a: "\<not> cmp (fst (K ! n)) (fst (?h i)) < 0" using part_nth(2) [OF Ri(4) vi(2) in_i] i(2) by blast
    have b: "\<not> cmp (fst (?h i)) (fst (?h c)) < 0" using F i(1) vi(1) head(2) by metis
    have c: "\<not> cmp (fst (?h c)) (fst (K ! n)) < 0" using part_nth(2) [OF M(1) n hK(2)] hc by blast
    have "cmp (fst (?h c)) (fst (?h i)) \<le> 0" "cmp (fst (?h i)) (fst (K ! n)) \<le> 0" using a b cmp_flip v by fastforce+
    then have "cmp (fst (?h c)) (fst (K ! n)) = 0" using cmp_trans [OF v(2,1,3)] c by simp
    then have "?h c = K ! n" using ascending_inj [OF M(1) hK(2,3)] by blast
    then show ?thesis using F n by simp
  qed
qed

lemma choose_largest:
  assumes cs: "children_ok cs" and K: "K = merged cs" and sp: "split_at kReverse cs K n" "n \<le> length K"
  shows "FindLargest cmp cs = None \<Longrightarrow> n = 0"
    "FindLargest cmp cs = Some c \<Longrightarrow> c < length cs \<and> wr_valid (cs ! c) \<and> 0 < n \<and>
      K ! (n - 1) = witems (cs ! c) ! wpos (cs ! c)"
proof -
  note M = merged_ok [OF cs, folded K]
  have wk: "wok w" if "w \<in> set cs" for w using cs that by (simp add: children_ok_def)
  have before: "\<exists>i < length cs. K ! (n - 1) \<in> set (take (child_cut kReverse (cs ! i)) (witems (cs ! i)))" if n: "0 < n"
  proof -
    have n1: "n - 1 < length K" using n sp(2) by simp
    obtain w where w: "w \<in> set cs" "K ! (n - 1) \<in> set (witems w)" using nth_mem [OF n1] unfolding M(2) by blast
    have "K ! (n - 1) \<in> set (take n K)" unfolding in_take_nth using n n1 by (intro exI [of _ "n - 1"]) simp
    moreover have "set (drop (child_cut kReverse w) (witems w)) \<subseteq> set (drop n K)"
      using sp(1) w(1) by (simp add: split_at_def)
    ultimately have "K ! (n - 1) \<notin> set (drop (child_cut kReverse w) (witems w))"
      using take_drop_apart [OF M(1), of "K ! (n - 1)" n] by blast
    then have "K ! (n - 1) \<in> set (take (child_cut kReverse w) (witems w))" using w(2) by (metis Un_iff append_take_drop_id set_append)
    then show ?thesis using w(1) by (metis in_set_conv_nth)
  qed
  show "n = 0" if "FindLargest cmp cs = None"
  proof (rule ccontr)
    assume "n \<noteq> 0"
    then obtain i where i: "i < length cs" "K ! (n - 1) \<in> set (take (child_cut kReverse (cs ! i)) (witems (cs ! i)))" using before by auto
    then have "wr_valid (cs ! i)" using wok_read(1) [OF wk [OF nth_mem [OF i(1)]]] by (auto simp: child_cut_def split: if_splits)
    then show False using FindLargest_greatest(1) [OF M(3) that i(1)] by blast
  qed
  show "c < length cs \<and> wr_valid (cs ! c) \<and> 0 < n \<and> K ! (n - 1) = witems (cs ! c) ! wpos (cs ! c)"
    if "FindLargest cmp cs = Some c"
  proof -
    note F = FindLargest_greatest(2) [OF M(3) that]
    let ?h = "\<lambda>i. witems (cs ! i) ! wpos (cs ! i)"
    have head: "?h i \<in> set (take n K)" "wr_key (cs ! i) = fst (?h i)" if "i < length cs" "wr_valid (cs ! i)" for i
    proof -
      note R = wok_read [OF wk [OF nth_mem [OF that(1)]]]
      have "?h i \<in> set (take (child_cut kReverse (cs ! i)) (witems (cs ! i)))"
        unfolding in_take_nth child_cut_def using R(1) that(2) by (intro exI [of _ "wpos (cs ! i)"]) simp
      then show "?h i \<in> set (take n K)" using sp(1) nth_mem [OF that(1)] unfolding split_at_def by blast
      show "wr_key (cs ! i) = fst (?h i)" by (rule R(2) [OF that(2)])
    qed
    have hc: "?h c \<in> set (take n K)" using head(1) F by blast
    have n: "0 < n" "n - 1 < length K" using hc sp(2) by (cases n; auto)+
    obtain i where i: "i < length cs" "K ! (n - 1) \<in> set (take (child_cut kReverse (cs ! i)) (witems (cs ! i)))" using before [OF n(1)] by blast
    note Ri = wok_read [OF wk [OF nth_mem [OF i(1)]]]
    have vi: "wr_valid (cs ! i)" "wpos (cs ! i) < length (witems (cs ! i))" using i(2) Ri(1) by (auto simp: child_cut_def split: if_splits)
    have i2: "K ! (n - 1) \<in> set (take (Suc (wpos (cs ! i))) (witems (cs ! i)))" using i(2) vi(2) by (simp add: child_cut_def)
    have in_i: "K ! (n - 1) \<in> set (witems (cs ! i))" using i2 by (rule in_set_takeD)
    have hK: "?h i \<in> set K" "?h c \<in> set K" "K ! (n - 1) \<in> set K"
      using head(1) [OF i(1) vi(1)] hc nth_mem [OF n(2)] by (auto dest: in_set_takeD)
    have v: "valid (fst (?h i))" "valid (fst (?h c))" "valid (fst (K ! (n - 1)))" using M(1) hK by blast+
    have a: "\<not> cmp (fst (?h i)) (fst (K ! (n - 1))) < 0" using part_nth(4) [OF Ri(4) vi(2) in_i] i2 by blast
    have b: "\<not> cmp (fst (?h c)) (fst (?h i)) < 0" using F i(1) vi(1) head(2) by metis
    have c: "\<not> cmp (fst (K ! (n - 1))) (fst (?h c)) < 0" using part_nth(4) [OF M(1) n(2) hK(2)] hc n(1) by simp
    have "cmp (fst (K ! (n - 1))) (fst (?h i)) \<le> 0" "cmp (fst (?h i)) (fst (?h c)) \<le> 0" using a b cmp_flip v by fastforce+
    then have "cmp (fst (K ! (n - 1))) (fst (?h c)) = 0" using cmp_trans [OF v(3,1,2)] c by simp
    then have "K ! (n - 1) = ?h c" using ascending_inj [OF M(1) hK(3,2)] by blast
    then show ?thesis using F n by simp
  qed
qed

subsection \<open>The iterator over the merged sequence\<close>

definition mitems :: "'it MergingIterator \<Rightarrow> (slice \<times> slice) list" where
  "mitems m = merged (mi_children m)"

definition mpos :: "'it MergingIterator \<Rightarrow> nat" where
  "mpos m = (case mi_current m of
     None \<Rightarrow> length (mitems m)
   | Some c \<Rightarrow> lower cmp (mitems m) (wr_key (mi_children m ! c)))"

definition mok :: "'it MergingIterator \<Rightarrow> bool" where
  "mok m \<longleftrightarrow> children_ok (mi_children m) \<and>
     (case mi_current m of
        None \<Rightarrow> True
      | Some c \<Rightarrow> c < length (mi_children m) \<and> wr_valid (mi_children m ! c) \<and>
          split_at (mi_direction m) (mi_children m) (mitems m)
            (if mi_direction m = kForward then mpos m else Suc (mpos m)))"

lemma lower_nth:
  assumes "ascending K" "n < length K"
  shows "lower cmp K (fst (K ! n)) = n"
proof -
  have v: "valid (fst (K ! n))" using assms by auto
  have "takeWhile (\<lambda>e. cmp (fst e) (fst (K ! n)) < 0) K = take n K"
  proof (rule takeWhile_eq_take_P_nth)
    show "cmp (fst (K ! i)) (fst (K ! n)) < 0" if "i < n" for i using ascending_nth [OF assms(1) that assms(2)] .
    show "\<not> cmp (fst (K ! n)) (fst (K ! n)) < 0" using cmp_refl [OF v] by simp
  qed
  then show ?thesis using assms(2) by (simp add: lower_def)
qed

lemma children_same:
  assumes "children_ok cs" "length cs' = length cs" "\<forall>i < length cs. wok (cs' ! i) \<and> witems (cs' ! i) = witems (cs ! i)"
  shows "children_ok cs'" "merged cs' = merged cs"
proof -
  have e: "map witems cs' = map witems cs" using assms(2,3) by (intro nth_equalityI) auto
  show "children_ok cs'" "merged cs' = merged cs"
    using assms unfolding children_ok_def e by (auto simp: in_set_conv_nth)
qed

lemma forward_result:
  assumes cs: "children_ok cs" and sp: "split_at kForward cs (merged cs) n" "n \<le> length (merged cs)"
    and m: "m = \<lparr>mi_children = cs, mi_current = FindSmallest cmp cs, mi_direction = kForward\<rparr>"
  shows "mok m" "mitems m = merged cs" "mpos m = n"
proof -
  note M = merged_ok [OF cs] and C = choose_smallest [OF cs refl sp]
  show it: "mitems m = merged cs" by (simp add: m mitems_def)
  show p: "mpos m = n"
  proof (cases "FindSmallest cmp cs")
    case None
    then show ?thesis using C(1) by (simp add: mpos_def m mitems_def)
  next
    case (Some c)
    note F = C(2) [OF this]
    have "wr_key (cs ! c) = fst (merged cs ! n)" using F wok_read(2) [of "cs ! c"] cs by (simp add: children_ok_def)
    then show ?thesis using lower_nth [OF M(1), of n] F Some by (simp add: mpos_def m mitems_def)
  qed
  show "mok m"
    using cs sp(1) C(2) unfolding mok_def p it by (cases "FindSmallest cmp cs") (simp_all add: m)
qed

lemma reverse_result:
  assumes cs: "children_ok cs" and sp: "split_at kReverse cs (merged cs) n" "n \<le> length (merged cs)"
    and m: "m = \<lparr>mi_children = cs, mi_current = FindLargest cmp cs, mi_direction = kReverse\<rparr>"
  shows "mok m" "mitems m = merged cs" "mpos m = (if n = 0 then length (merged cs) else n - 1)"
proof -
  note M = merged_ok [OF cs] and C = choose_largest [OF cs refl sp]
  show it: "mitems m = merged cs" by (simp add: m mitems_def)
  show p: "mpos m = (if n = 0 then length (merged cs) else n - 1)"
  proof (cases "FindLargest cmp cs")
    case None
    then show ?thesis using C(1) by (simp add: mpos_def m mitems_def)
  next
    case (Some c)
    note F = C(2) [OF this]
    have "wr_key (cs ! c) = fst (merged cs ! (n - 1))" using F wok_read(2) [of "cs ! c"] cs by (simp add: children_ok_def)
    moreover have "n - 1 < length (merged cs)" using F sp(2) by linarith
    ultimately show ?thesis using lower_nth [OF M(1), of "n - 1"] F Some by (simp add: mpos_def m mitems_def)
  qed
  show "mok m"
    using cs sp(1) C(2) unfolding mok_def p it by (cases "FindLargest cmp cs") (auto simp: m)
qed

text \<open>The children other than \<open>c\<close> stand between the items below the key \<open>k\<close> and those above it.\<close>

definition beside :: "Direction \<Rightarrow> 'it IteratorWrapper list \<Rightarrow> nat \<Rightarrow> slice \<Rightarrow> bool" where
  "beside d cs c k \<longleftrightarrow> (\<forall>i < length cs. i \<noteq> c \<longrightarrow>
     (\<forall>e \<in> set (take (child_cut d (cs ! i)) (witems (cs ! i))). cmp (fst e) k < 0) \<and>
     (\<forall>e \<in> set (drop (child_cut d (cs ! i)) (witems (cs ! i))). cmp k (fst e) < 0))"

lemma current_ok:
  assumes "mok m" "mi_current m = Some c" and cs: "cs = mi_children m"
  shows "c < length cs" "wr_valid (cs ! c)" "wok (cs ! c)" "wpos (cs ! c) < length (witems (cs ! c))" "mpos m < length (mitems m)"
    "mitems m ! mpos m = witems (cs ! c) ! wpos (cs ! c)" "wr_key (cs ! c) = fst (mitems m ! mpos m)"
proof -
  show c: "c < length cs" "wr_valid (cs ! c)" using assms by (simp_all add: mok_def)
  have ok: "children_ok cs" using assms by (simp add: mok_def)
  show w: "wok (cs ! c)" using ok c by (simp add: children_ok_def)
  note R = wok_read [OF w] and M = merged_ok [OF ok]
  show wp: "wpos (cs ! c) < length (witems (cs ! c))" using R(1) c by simp
  let ?h = "witems (cs ! c) ! wpos (cs ! c)"
  have "?h \<in> set (merged cs)" using nth_mem [OF c(1)] nth_mem [OF wp] unfolding M(2) by blast
  then obtain n where n: "n < length (merged cs)" "merged cs ! n = ?h" by (metis in_set_conv_nth)
  have it: "mitems m = merged cs" by (simp add: mitems_def cs)
  have "mpos m = n" using lower_nth [OF M(1) n(1)] R(2) [OF c(2)] n(2) assms(2) it by (simp add: mpos_def cs)
  then show "mpos m < length (mitems m)" "mitems m ! mpos m = ?h" "wr_key (cs ! c) = fst (mitems m ! mpos m)"
    using n it R(2) [OF c(2)] by simp_all
qed

lemma apart_below:
  assumes "children_ok cs" "i < length cs" "c < length cs" "i \<noteq> c" "e \<in> set (witems (cs ! i))" "h \<in> set (witems (cs ! c))"
  shows "\<not> cmp (fst e) (fst h) < 0 \<longleftrightarrow> cmp (fst h) (fst e) < 0"
proof -
  have v: "valid (fst e)" "valid (fst h)"
    using assms wok_read(4) [of "cs ! i"] wok_read(4) [of "cs ! c"] by (auto simp: children_ok_def)
  show ?thesis using other_child [OF assms] cmp_flip [OF v] by linarith
qed

lemma beside_current:
  assumes m: "mok m" "mi_current m = Some c" and cs: "cs = mi_children m"
  shows "beside (mi_direction m) cs c (wr_key (cs ! c))"
proof -
  note C = current_ok [OF m cs]
  let ?K = "mitems m" and ?n = "mpos m" and ?d = "mi_direction m"
  have ok: "children_ok cs" and it: "?K = merged cs" using m cs by (simp_all add: mok_def mitems_def)
  note M = merged_ok [OF ok, folded it]
  have sp: "split_at ?d cs ?K (if ?d = kForward then ?n else Suc ?n)" using m cs by (simp add: mok_def)
  have inc: "?K ! ?n \<in> set (witems (cs ! c))" using nth_mem [OF C(4)] unfolding C(6) .
  show ?thesis unfolding beside_def C(7)
  proof (intro allI impI conjI ballI)
    fix i e
    assume i: "i < length cs" "i \<noteq> c"
    have K: "e \<in> set ?K" if "e \<in> set (witems (cs ! i))" using that nth_mem [OF i(1)] unfolding M(2) by blast
    show "cmp (fst e) (fst (?K ! ?n)) < 0" if e: "e \<in> set (take (child_cut ?d (cs ! i)) (witems (cs ! i)))"
    proof -
      have "e \<in> set (take (if ?d = kForward then ?n else Suc ?n) ?K)"
        using sp nth_mem [OF i(1)] e unfolding split_at_def by blast
      then show ?thesis
        using part_nth(1,4) [OF M(1) C(5) K [OF in_set_takeD [OF e]]] apart_below [OF ok i(1) C(1) i(2) in_set_takeD [OF e] inc]
        by (auto split: if_splits)
    qed
    show "cmp (fst (?K ! ?n)) (fst e) < 0" if e: "e \<in> set (drop (child_cut ?d (cs ! i)) (witems (cs ! i)))"
    proof -
      have "e \<in> set (drop (if ?d = kForward then ?n else Suc ?n) ?K)"
        using sp nth_mem [OF i(1)] e unfolding split_at_def by blast
      then show ?thesis
        using part_nth(2,3) [OF M(1) C(5) K [OF in_set_dropD [OF e]]] apart_below [OF ok i(1) C(1) i(2) in_set_dropD [OF e] inc]
        by (auto split: if_splits)
    qed
  qed
qed

lemma beside_placed:
  assumes ok: "children_ok cs" and c: "c < length cs" "h \<in> set (witems (cs ! c))" "k = fst h"
    and cut: "\<forall>i < length cs. i \<noteq> c \<longrightarrow> child_cut d (cs ! i) = lower cmp (witems (cs ! i)) k"
  shows "beside d cs c k"
  unfolding beside_def
proof (intro allI impI conjI ballI)
  fix i e
  assume i: "i < length cs" "i \<noteq> c"
  have a: "ascending (witems (cs ! i))" "valid k"
    using ok i(1) c wok_read(4) [of "cs ! i"] wok_read(4) [of "cs ! c"] by (auto simp: children_ok_def)
  have p: "child_cut d (cs ! i) = length (takeWhile (\<lambda>e. cmp (fst e) k < 0) (witems (cs ! i)))"
    using cut i by (simp add: lower_def)
  show "cmp (fst e) k < 0" if e: "e \<in> set (take (child_cut d (cs ! i)) (witems (cs ! i)))"
    using part_lower(1) [OF a in_set_takeD [OF e] p] e by blast
  show "cmp k (fst e) < 0" if e: "e \<in> set (drop (child_cut d (cs ! i)) (witems (cs ! i)))"
    using part_lower(2) [OF a in_set_dropD [OF e] p] e apart_below [OF ok i(1) c(1) i(2) in_set_dropD [OF e] c(2)] c(3) by blast
qed

text \<open>Moving the current child over its item moves the cut of the merged sequence over it.\<close>

lemma split_beside:
  assumes ok: "children_ok cs" and K: "K = merged cs" "n < length K"
    and c: "c < length cs" "p < length (witems (cs ! c))" "witems (cs ! c) ! p = K ! n"
    and b: "beside d cs c (fst (K ! n))"
  shows "child_cut d (cs ! c) = Suc p \<Longrightarrow> split_at d cs K (Suc n)" "child_cut d (cs ! c) = p \<Longrightarrow> split_at d cs K n"
proof -
  note M = merged_ok [OF ok, folded K(1)]
  have K_in: "e \<in> set K" if "i < length cs" "e \<in> set (witems (cs ! i))" for i e
    using that(2) nth_mem [OF that(1)] unfolding M(2) by blast
  have v: "valid (fst (K ! n))" using M(1) nth_mem [OF K(2)] by blast
  have asc: "ascending (witems (cs ! c))" using ok c(1) wok_read(4) [of "cs ! c"] by (simp add: children_ok_def)
  note P = part_nth [OF M(1) K(2)] and Q = part_nth [OF asc c(2), unfolded c(3)]
  have others: "set (take (child_cut d (cs ! i)) (witems (cs ! i))) \<subseteq> set (take n K)"
    "set (take (child_cut d (cs ! i)) (witems (cs ! i))) \<subseteq> set (take (Suc n) K)"
    "set (drop (child_cut d (cs ! i)) (witems (cs ! i))) \<subseteq> set (drop (Suc n) K)"
    "set (drop (child_cut d (cs ! i)) (witems (cs ! i))) \<subseteq> set (drop n K)" if i: "i < length cs" "i \<noteq> c" for i
  proof -
    have "e \<in> set (take n K) \<and> e \<in> set (take (Suc n) K)" if e: "e \<in> set (take (child_cut d (cs ! i)) (witems (cs ! i)))" for e
    proof -
      have eK: "e \<in> set K" using K_in [OF i(1) in_set_takeD [OF e]] .
      have "cmp (fst e) (fst (K ! n)) < 0" using b i e by (simp add: beside_def)
      then show ?thesis using P(1,4) [OF eK] cmp_flip(1) [of "fst e" "fst (K ! n)"] v M(1) eK by auto
    qed
    then show "set (take (child_cut d (cs ! i)) (witems (cs ! i))) \<subseteq> set (take n K)"
      "set (take (child_cut d (cs ! i)) (witems (cs ! i))) \<subseteq> set (take (Suc n) K)" by blast+
    have "e \<in> set (drop n K) \<and> e \<in> set (drop (Suc n) K)" if e: "e \<in> set (drop (child_cut d (cs ! i)) (witems (cs ! i)))" for e
    proof -
      have eK: "e \<in> set K" using K_in [OF i(1) in_set_dropD [OF e]] .
      have "cmp (fst (K ! n)) (fst e) < 0" using b i e by (simp add: beside_def)
      then show ?thesis using P(2,3) [OF eK] cmp_flip(1) [of "fst e" "fst (K ! n)"] v M(1) eK by auto
    qed
    then show "set (drop (child_cut d (cs ! i)) (witems (cs ! i))) \<subseteq> set (drop (Suc n) K)"
      "set (drop (child_cut d (cs ! i)) (witems (cs ! i))) \<subseteq> set (drop n K)" by blast+
  qed
  have all: "split_at d cs K l" if "\<forall>i < length cs. set (take (child_cut d (cs ! i)) (witems (cs ! i))) \<subseteq> set (take l K) \<and>
      set (drop (child_cut d (cs ! i)) (witems (cs ! i))) \<subseteq> set (drop l K)" for l
    using that unfolding split_at_def by (metis in_set_conv_nth)
  have own: "e \<in> set (take (Suc p) (witems (cs ! c))) \<longrightarrow> e \<in> set (take (Suc n) K)"
    "e \<in> set (drop (Suc p) (witems (cs ! c))) \<longrightarrow> e \<in> set (drop (Suc n) K)"
    "e \<in> set (take p (witems (cs ! c))) \<longrightarrow> e \<in> set (take n K)"
    "e \<in> set (drop p (witems (cs ! c))) \<longrightarrow> e \<in> set (drop n K)" for e
    using P [of e] Q [of e] K_in [OF c(1), of e] in_set_takeD in_set_dropD by metis+
  show "split_at d cs K (Suc n)" if "child_cut d (cs ! c) = Suc p"
    by (rule all) (metis that others(2,3) own(1,2) subsetI)
  show "split_at d cs K n" if "child_cut d (cs ! c) = p"
    by (rule all) (metis that others(1,4) own(3,4) subsetI)
qed

subsection \<open>The operations\<close>

lemma turn_forward:
  assumes m: "mok m" "mi_current m = Some c" and cs: "cs = mi_children m"
  shows "\<exists>cs1. (if mi_direction m \<noteq> kForward
      then each_child (\<lambda>i w. if i \<noteq> c then place_after cmp I (wr_key (cs ! c)) w else Some w) cs else Some cs) = Some cs1 \<and>
    length cs1 = length cs \<and> (\<forall>i < length cs. wok (cs1 ! i) \<and> witems (cs1 ! i) = witems (cs ! i)) \<and>
    wpos (cs1 ! c) = wpos (cs ! c) \<and> beside kForward cs1 c (wr_key (cs ! c))"
proof (cases "mi_direction m = kForward")
  case True
  then show ?thesis using beside_current [OF m cs] m(1) cs by (auto simp: mok_def children_ok_def)
next
  case False
  note C = current_ok [OF m cs]
  let ?k = "wr_key (cs ! c)" and ?h = "mitems m ! mpos m"
  let ?f = "\<lambda>i w. if i \<noteq> c then place_after cmp I ?k w else Some w"
  have ok: "children_ok cs" using m cs by (simp add: mok_def)
  have h: "?h \<in> set (witems (cs ! c))" "?k = fst ?h" using nth_mem [OF C(4)] C(6,7) by simp_all
  have v: "valid ?k" using h wok_read(4) [OF C(3)] by auto
  have "moves (cs ! i) (?f i (cs ! i)) (if i = c then wpos (cs ! c) else lower cmp (witems (cs ! i)) ?k)"
    if i: "i < length cs" for i
  proof (cases "i = c")
    case False
    have "wok (cs ! i)" using ok i by (simp add: children_ok_def)
    moreover have "\<forall>e \<in> set (witems (cs ! i)). cmp ?k (fst e) \<noteq> 0"
      using other_child [OF ok C(1) i _ h(1)] False h(2) by auto
    ultimately show ?thesis using place_moves(1) [OF _ v] False by simp
  qed (use C(3) in \<open>simp add: moves_def\<close>)
  from each_child_ok [of cs ?f, OF this] obtain cs1 where cs1: "each_child ?f cs = Some cs1" "length cs1 = length cs"
    "\<forall>i < length cs. wok (cs1 ! i) \<and> witems (cs1 ! i) = witems (cs ! i) \<and>
      wpos (cs1 ! i) = (if i = c then wpos (cs ! c) else lower cmp (witems (cs ! i)) ?k)" by blast
  have same: "\<forall>i < length cs. wok (cs1 ! i) \<and> witems (cs1 ! i) = witems (cs ! i)" using cs1(3) by blast
  have "beside kForward cs1 c ?k"
  proof (rule beside_placed)
    show "children_ok cs1" by (rule children_same(1) [OF ok cs1(2) same])
    show "?h \<in> set (witems (cs1 ! c))" using h(1) same C(1) by simp
  qed (use cs1 C(1) h(2) in \<open>simp_all add: child_cut_def\<close>)
  then show ?thesis using False cs1 same C(1) by auto
qed

lemma turn_reverse:
  assumes m: "mok m" "mi_current m = Some c" and cs: "cs = mi_children m"
  shows "\<exists>cs1. (if mi_direction m \<noteq> kReverse
      then each_child (\<lambda>i w. if i \<noteq> c then place_before I (wr_key (cs ! c)) w else Some w) cs else Some cs) = Some cs1 \<and>
    length cs1 = length cs \<and> (\<forall>i < length cs. wok (cs1 ! i) \<and> witems (cs1 ! i) = witems (cs ! i)) \<and>
    wpos (cs1 ! c) = wpos (cs ! c) \<and> beside kReverse cs1 c (wr_key (cs ! c))"
proof (cases "mi_direction m = kReverse")
  case True
  then show ?thesis using beside_current [OF m cs] m(1) cs by (auto simp: mok_def children_ok_def)
next
  case False
  note C = current_ok [OF m cs]
  let ?k = "wr_key (cs ! c)" and ?h = "mitems m ! mpos m"
  let ?f = "\<lambda>i w. if i \<noteq> c then place_before I ?k w else Some w"
  let ?l = "\<lambda>i. lower cmp (witems (cs ! i)) ?k"
  have ok: "children_ok cs" using m cs by (simp add: mok_def)
  have h: "?h \<in> set (witems (cs ! c))" "?k = fst ?h" using nth_mem [OF C(4)] C(6,7) by simp_all
  have v: "valid ?k" using h wok_read(4) [OF C(3)] by auto
  have "moves (cs ! i) (?f i (cs ! i)) (if i = c then wpos (cs ! c) else if ?l i = 0 then length (witems (cs ! i)) else ?l i - 1)"
    if i: "i < length cs" for i
  proof (cases "i = c")
    case False
    have "wok (cs ! i)" using ok i by (simp add: children_ok_def)
    then show ?thesis using place_moves(2) [OF _ v] False by simp
  qed (use C(3) in \<open>simp add: moves_def\<close>)
  from each_child_ok [of cs ?f, OF this] obtain cs1 where cs1: "each_child ?f cs = Some cs1" "length cs1 = length cs"
    "\<forall>i < length cs. wok (cs1 ! i) \<and> witems (cs1 ! i) = witems (cs ! i) \<and>
      wpos (cs1 ! i) = (if i = c then wpos (cs ! c) else if ?l i = 0 then length (witems (cs ! i)) else ?l i - 1)" by blast
  have same: "\<forall>i < length cs. wok (cs1 ! i) \<and> witems (cs1 ! i) = witems (cs ! i)" using cs1(3) by blast
  have "beside kReverse cs1 c ?k"
  proof (rule beside_placed)
    show "children_ok cs1" by (rule children_same(1) [OF ok cs1(2) same])
    show "?h \<in> set (witems (cs1 ! c))" using h(1) same C(1) by simp
    show "\<forall>i < length cs1. i \<noteq> c \<longrightarrow> child_cut kReverse (cs1 ! i) = lower cmp (witems (cs1 ! i)) ?k"
    proof (intro allI impI)
      fix i assume i: "i < length cs1" "i \<noteq> c"
      have "0 < ?l i \<longrightarrow> ?l i - 1 < length (witems (cs ! i))" using lower_le [of cmp "witems (cs ! i)" ?k] by linarith
      then show "child_cut kReverse (cs1 ! i) = lower cmp (witems (cs1 ! i)) ?k"
        using cs1(2,3) i by (auto simp: child_cut_def)
    qed
  qed (use cs1 C(1) h(2) in simp_all)
  then show ?thesis using False cs1 same C(1) by auto
qed

lemma mi_Next_ok:
  assumes m: "mok m" "mpos m < length (mitems m)"
  shows "\<exists>m'. mi_Next cmp I m = Some m' \<and> mok m' \<and> mitems m' = mitems m \<and> mpos m' = Suc (mpos m)"
proof -
  obtain c where cur: "mi_current m = Some c" using m(2) by (cases "mi_current m") (simp_all add: mpos_def)
  define cs where "cs = mi_children m"
  note C = current_ok [OF m(1) cur cs_def]
  have ok: "children_ok cs" and it: "mitems m = merged cs" using m cs_def by (simp_all add: mok_def mitems_def)
  obtain cs1 where cs1: "(if mi_direction m \<noteq> kForward
      then each_child (\<lambda>i w. if i \<noteq> c then place_after cmp I (wr_key (cs ! c)) w else Some w) cs else Some cs) = Some cs1"
    "length cs1 = length cs" "\<forall>i < length cs. wok (cs1 ! i) \<and> witems (cs1 ! i) = witems (cs ! i)"
    "wpos (cs1 ! c) = wpos (cs ! c)" "beside kForward cs1 c (wr_key (cs ! c))"
    using turn_forward [OF m(1) cur cs_def] by blast
  obtain w where w: "wr_Next I (cs1 ! c) = Some w" "wok w" "witems w = witems (cs ! c)" "wpos w = Suc (wpos (cs ! c))"
    using child_moves(1) [of "cs1 ! c"] cs1(3,4) C(1,4) by (auto simp: moves_def)
  let ?cs = "cs1[c := w]"
  have "\<forall>i < length cs. wok (?cs ! i) \<and> witems (?cs ! i) = witems (cs ! i)" 
    using cs1(2,3) w C(1) by (auto simp: nth_list_update)
  with ok cs1(2) have same: "children_ok ?cs" "merged ?cs = merged cs" using children_same [of cs ?cs] by simp_all
  have "split_at kForward ?cs (merged ?cs) (Suc (mpos m))"
  proof (rule split_beside(1) [OF same(1) refl])
    show "mpos m < length (merged ?cs)" "c < length ?cs" "wpos (cs ! c) < length (witems (?cs ! c))"
      "witems (?cs ! c) ! wpos (cs ! c) = merged ?cs ! mpos m" "child_cut kForward (?cs ! c) = Suc (wpos (cs ! c))"
      using C it same cs1(2) w by (simp_all add: child_cut_def)
    show "beside kForward ?cs c (fst (merged ?cs ! mpos m))"
      using cs1(5) C(7) it same(2) by (simp add: beside_def)
  qed
  then have sp: "split_at kForward ?cs (merged ?cs) (Suc (mpos m))" "Suc (mpos m) \<le> length (merged ?cs)"
    using m(2) it same(2) by simp_all
  have "mi_Next cmp I m = Some \<lparr>mi_children = ?cs, mi_current = FindSmallest cmp ?cs, mi_direction = kForward\<rparr>"
    unfolding mi_Next_def cs_def [symmetric] cur option.case(2) cs1(1) w(1) by (simp add: Let_def)
  then show ?thesis using forward_result [OF same(1) sp refl] same(2) it by simp
qed

lemma mi_Prev_ok:
  assumes m: "mok m" "mpos m < length (mitems m)"
  shows "\<exists>m'. mi_Prev cmp I m = Some m' \<and> mok m' \<and> mitems m' = mitems m \<and>
    mpos m' = (if mpos m = 0 then length (mitems m) else mpos m - 1)"
proof -
  obtain c where cur: "mi_current m = Some c" using m(2) by (cases "mi_current m") (simp_all add: mpos_def)
  define cs where "cs = mi_children m"
  note C = current_ok [OF m(1) cur cs_def]
  have ok: "children_ok cs" and it: "mitems m = merged cs" using m cs_def by (simp_all add: mok_def mitems_def)
  obtain cs1 where cs1: "(if mi_direction m \<noteq> kReverse
      then each_child (\<lambda>i w. if i \<noteq> c then place_before I (wr_key (cs ! c)) w else Some w) cs else Some cs) = Some cs1"
    "length cs1 = length cs" "\<forall>i < length cs. wok (cs1 ! i) \<and> witems (cs1 ! i) = witems (cs ! i)"
    "wpos (cs1 ! c) = wpos (cs ! c)" "beside kReverse cs1 c (wr_key (cs ! c))"
    using turn_reverse [OF m(1) cur cs_def] by blast
  obtain w where w: "wr_Prev I (cs1 ! c) = Some w" "wok w" "witems w = witems (cs ! c)"
    "wpos w = (if wpos (cs ! c) = 0 then length (witems (cs ! c)) else wpos (cs ! c) - 1)"
    using child_moves(2) [of "cs1 ! c"] cs1(3,4) C(1,4) by (auto simp: moves_def)
  let ?cs = "cs1[c := w]"
  have "\<forall>i < length cs. wok (?cs ! i) \<and> witems (?cs ! i) = witems (cs ! i)" 
    using cs1(2,3) w C(1) by (auto simp: nth_list_update)
  with ok cs1(2) have same: "children_ok ?cs" "merged ?cs = merged cs" using children_same [of cs ?cs] by simp_all
  have "split_at kReverse ?cs (merged ?cs) (mpos m)"
  proof (rule split_beside(2) [OF same(1) refl])
    show "mpos m < length (merged ?cs)" "c < length ?cs" "wpos (cs ! c) < length (witems (?cs ! c))"
      "witems (?cs ! c) ! wpos (cs ! c) = merged ?cs ! mpos m"
      using C it same cs1(2) w by simp_all
    show "child_cut kReverse (?cs ! c) = wpos (cs ! c)" using C(1,4) cs1(2) w by (auto simp: child_cut_def)
    show "beside kReverse ?cs c (fst (merged ?cs ! mpos m))"
      using cs1(5) C(7) it same(2) by (simp add: beside_def)
  qed
  then have sp: "split_at kReverse ?cs (merged ?cs) (mpos m)" "mpos m \<le> length (merged ?cs)"
    using m(2) it same(2) by simp_all
  have "mi_Prev cmp I m = Some \<lparr>mi_children = ?cs, mi_current = FindLargest cmp ?cs, mi_direction = kReverse\<rparr>"
    unfolding mi_Prev_def cs_def [symmetric] cur option.case(2) cs1(1) w(1) by (simp add: Let_def)
  then show ?thesis using reverse_result [OF same(1) sp refl] same(2) it by simp
qed

text \<open>A seek moves every child; \<open>n\<close> is where it leaves the children.\<close>

lemma seek_children:
  assumes m: "mok m" and f: "\<And>w. wok w \<Longrightarrow> moves w (f w) (n w)"
  obtains cs where "each_child (\<lambda>_. f) (mi_children m) = Some cs" "children_ok cs" "merged cs = mitems m"
    "\<forall>w \<in> set cs. \<exists>w0. wpos w = n w0 \<and> witems w = witems w0"
proof -
  let ?cs = "mi_children m"
  have ok: "children_ok ?cs" using m by (simp add: mok_def)
  have "moves (?cs ! i) (f (?cs ! i)) (n (?cs ! i))" if "i < length ?cs" for i
    using f ok that by (simp add: children_ok_def)
  from each_child_ok [of ?cs "\<lambda>_. f", OF this] obtain cs where cs: "each_child (\<lambda>_. f) ?cs = Some cs" "length cs = length ?cs"
    "\<forall>i < length ?cs. wok (cs ! i) \<and> witems (cs ! i) = witems (?cs ! i) \<and> wpos (cs ! i) = n (?cs ! i)" by blast
  show thesis
  proof (rule that [OF cs(1)])
    show "children_ok cs" "merged cs = mitems m"
      using children_same [OF ok cs(2)] cs(3) by (simp_all add: mitems_def)
    show "\<forall>w \<in> set cs. \<exists>w0. wpos w = n w0 \<and> witems w = witems w0"
      using cs(2,3) by (metis in_set_conv_nth)
  qed
qed

lemma mi_seeks_ok:
  assumes m: "mok m"
  shows "\<exists>m'. mi_SeekToFirst cmp I m = Some m' \<and> mok m' \<and> mitems m' = mitems m \<and> mpos m' = 0"
    "\<exists>m'. mi_SeekToLast cmp I m = Some m' \<and> mok m' \<and> mitems m' = mitems m \<and> mpos m' = length (mitems m) - 1"
    "valid t \<Longrightarrow> \<exists>m'. mi_Seek cmp I t m = Some m' \<and> mok m' \<and> mitems m' = mitems m \<and> mpos m' = lower cmp (mitems m) t"
proof -
  have inK: "w \<in> set cs \<Longrightarrow> set (witems w) \<subseteq> set (merged cs)" if "children_ok cs" for w cs
    unfolding merged_ok(2) [OF that] by blast
  show "\<exists>m'. mi_SeekToFirst cmp I m = Some m' \<and> mok m' \<and> mitems m' = mitems m \<and> mpos m' = 0"
  proof -
    obtain cs where cs: "each_child (\<lambda>_. wr_SeekToFirst I) (mi_children m) = Some cs" "children_ok cs" "merged cs = mitems m"
      "\<forall>w \<in> set cs. \<exists>w0. wpos w = 0 \<and> witems w = witems w0"
      by (rule seek_children [OF m, where n = "\<lambda>_. 0"]) (rule child_moves(4))
    have "split_at kForward cs (merged cs) 0" using inK [OF cs(2)] cs(4) by (simp add: split_at_def child_cut_def)
    from forward_result [OF cs(2) this _ refl] show ?thesis using cs(1,3) by (simp add: mi_SeekToFirst_def)
  qed
  show "\<exists>m'. mi_SeekToLast cmp I m = Some m' \<and> mok m' \<and> mitems m' = mitems m \<and> mpos m' = length (mitems m) - 1"
  proof -
    obtain cs where cs: "each_child (\<lambda>_. wr_SeekToLast I) (mi_children m) = Some cs" "children_ok cs" "merged cs = mitems m"
      "\<forall>w \<in> set cs. \<exists>w0. wpos w = length (witems w0) - 1 \<and> witems w = witems w0"
      by (rule seek_children [OF m, where n = "\<lambda>w. length (witems w) - 1"]) (rule child_moves(5))
    have "child_cut kReverse w = length (witems w)" if "w \<in> set cs" for w
    proof -
      have "wpos w = length (witems w) - 1" using cs(4) that by metis
      then show ?thesis by (cases "witems w") (simp_all add: child_cut_def)
    qed
    then have "split_at kReverse cs (merged cs) (length (merged cs))" using inK [OF cs(2)] by (simp add: split_at_def)
    from reverse_result [OF cs(2) this _ refl] show ?thesis using cs(1,3) by (simp add: mi_SeekToLast_def)
  qed
  show "\<exists>m'. mi_Seek cmp I t m = Some m' \<and> mok m' \<and> mitems m' = mitems m \<and> mpos m' = lower cmp (mitems m) t" if t: "valid t"
  proof -
    obtain cs where cs: "each_child (\<lambda>_. wr_Seek I t) (mi_children m) = Some cs" "children_ok cs" "merged cs = mitems m"
      "\<forall>w \<in> set cs. \<exists>w0. wpos w = lower cmp (witems w0) t \<and> witems w = witems w0"
      by (rule seek_children [OF m, where n = "\<lambda>w. lower cmp (witems w) t"]) (rule child_moves(3) [OF _ t])
    note M = merged_ok [OF cs(2)]
    have "set (take (wpos w) (witems w)) \<subseteq> set (take (lower cmp (merged cs) t) (merged cs)) \<and>
      set (drop (wpos w) (witems w)) \<subseteq> set (drop (lower cmp (merged cs) t) (merged cs))" if w: "w \<in> set cs" for w
    proof -
      have p: "wpos w = length (takeWhile (\<lambda>e. cmp (fst e) t < 0) (witems w))" using cs(4) w by (auto simp: lower_def)
      have a: "ascending (witems w)" using cs(2) w wok_read(4) [of w] by (simp add: children_ok_def)
      have iff: "e \<in> set (take (wpos w) (witems w)) \<longleftrightarrow> e \<in> set (take (lower cmp (merged cs) t) (merged cs))"
        "e \<in> set (drop (wpos w) (witems w)) \<longleftrightarrow> e \<in> set (drop (lower cmp (merged cs) t) (merged cs))" if e: "e \<in> set (witems w)" for e
      proof -
        have "e \<in> set (merged cs)" using inK [OF cs(2) w] e by blast
        note part_lower [OF a t e p] part_lower [OF M(1) t this lower_def [of cmp "merged cs" t]]
        then show "e \<in> set (take (wpos w) (witems w)) \<longleftrightarrow> e \<in> set (take (lower cmp (merged cs) t) (merged cs))"
          "e \<in> set (drop (wpos w) (witems w)) \<longleftrightarrow> e \<in> set (drop (lower cmp (merged cs) t) (merged cs))" by simp_all
      qed
      show ?thesis
        using iff(1) [OF in_set_takeD] iff(2) [OF in_set_dropD] by (intro conjI subsetI) blast+
    qed
    then have "split_at kForward cs (merged cs) (lower cmp (merged cs) t)" by (simp add: split_at_def child_cut_def)
    from forward_result [OF cs(2) this _ refl] show ?thesis using cs(1,3) by (simp add: mi_Seek_def)
  qed
qed

text \<open>The merging iterator keeps the contract its children have.\<close>

lemma merging_sorted: "sorted_iter valid cmp (merging_iterator cmp I) mok mitems mpos"
proof unfold_locales
  fix m assume m: "mok m"
  show "ascending (mitems m)" using merged_ok(1) [of "mi_children m"] m by (simp add: mok_def mitems_def)
  show "it_Valid (merging_iterator cmp I) m \<longleftrightarrow> mpos m < length (mitems m)"
    using current_ok(5) [OF m _ refl] by (cases "mi_current m") (auto simp: merging_iterator_def mi_Valid_def mpos_def)
  show "it_key (merging_iterator cmp I) m = Some (fst (mitems m ! mpos m)) \<and>
      it_value (merging_iterator cmp I) m = Some (snd (mitems m ! mpos m))" if p: "mpos m < length (mitems m)"
  proof -
    obtain c where cur: "mi_current m = Some c" using p by (cases "mi_current m") (simp_all add: mpos_def)
    note C = current_ok [OF m cur refl]
    show ?thesis using cur C wok_read(3) [OF C(3,2)] by (simp add: merging_iterator_def mi_key_def mi_value_def)
  qed
  show "\<exists>s'. it_SeekToFirst (merging_iterator cmp I) m = Some s' \<and> mok s' \<and> mitems s' = mitems m \<and> mpos s' = 0"
    "\<exists>s'. it_SeekToLast (merging_iterator cmp I) m = Some s' \<and> mok s' \<and> mitems s' = mitems m \<and> mpos s' = length (mitems m) - 1"
    using mi_seeks_ok(1,2) [OF m] by (simp_all add: merging_iterator_def)
  show "\<exists>s'. it_Seek (merging_iterator cmp I) t m = Some s' \<and> mok s' \<and> mitems s' = mitems m \<and> mpos s' = lower cmp (mitems m) t"
    if "valid t" for t
    using mi_seeks_ok(3) [OF m that] by (simp add: merging_iterator_def)
  show "\<exists>s'. it_Next (merging_iterator cmp I) m = Some s' \<and> mok s' \<and> mitems s' = mitems m \<and> mpos s' = Suc (mpos m)"
    "\<exists>s'. it_Prev (merging_iterator cmp I) m = Some s' \<and> mok s' \<and> mitems s' = mitems m \<and>
      mpos s' = (if mpos m = 0 then length (mitems m) else mpos m - 1)" if "mpos m < length (mitems m)"
    using mi_Next_ok [OF m that] mi_Prev_ok [OF m that] by (simp_all add: merging_iterator_def)
qed

lemma new_MergingIterator_ok:
  assumes "\<forall>it \<in> set its. ok it" "sorted_wrt apart (map items its)"
  shows "\<exists>m. new_MergingIterator I its = Some m \<and> mok m \<and> mitems m = merge_all (map items its) \<and> mpos m = length (mitems m)"
proof -
  have S: "wr_Set I it \<noteq> None \<and> wok (the (wr_Set I it)) \<and> wr_iter (the (wr_Set I it)) = it" if "it \<in> set its" for it
    using wr_Set_ok [of it] assms(1) that by auto
  let ?cs = "map (\<lambda>it. the (wr_Set I it)) its"
  have e: "map witems ?cs = map items its" using S by simp
  have "children_ok ?cs" using S assms(2) unfolding children_ok_def e by auto
  moreover have "merged ?cs = merge_all (map items its)" unfolding e ..
  ultimately show ?thesis using S by (auto simp: new_MergingIterator_def mok_def mitems_def mpos_def simp del: map_map)
qed

subsection \<open>Sequences of moves\<close>

lemma do_move_ok:
  assumes "ok s" "move_ok valid mv" "cursor_move cmp (items s) mv (pos s) = Some n"
  shows "\<exists>s'. do_move I mv s = Some s' \<and> ok s' \<and> items s' = items s \<and> pos s' = n"
proof (cases mv)
  case MSeekToFirst
  then show ?thesis using seek_first [OF assms(1)] assms(3) by simp
next
  case MSeekToLast
  then show ?thesis using seek_last [OF assms(1)] assms(3) by simp
next
  case (MSeek t)
  then show ?thesis using seek [OF assms(1), of t] assms(2,3) by simp
next
  case MNext
  then show ?thesis using step [OF assms(1)] assms(3) by (simp split: if_splits)
next
  case MPrev
  then show ?thesis using step_back [OF assms(1)] assms(3) by (simp split: if_splits)
qed

lemma run_moves_ok:
  "ok s \<Longrightarrow> \<forall>mv \<in> set mvs. move_ok valid mv \<Longrightarrow> run_moves (cursor_move cmp (items s)) mvs (pos s) = Some n \<Longrightarrow>
    \<exists>s'. run_moves (do_move I) mvs s = Some s' \<and> ok s' \<and> items s' = items s \<and> pos s' = n"
proof (induction mvs arbitrary: s)
  case (Cons mv mvs)
  obtain l where l: "cursor_move cmp (items s) mv (pos s) = Some l" "run_moves (cursor_move cmp (items s)) mvs l = Some n"
    using Cons.prems(3) by (auto split: option.splits)
  obtain s1 where s1: "do_move I mv s = Some s1" "ok s1" "items s1 = items s" "pos s1 = l"
    using do_move_ok [OF Cons.prems(1) _ l(1)] Cons.prems(2) by auto
  then show ?case using Cons.IH [of s1] Cons.prems(2) l(2) by simp
qed simp

end

end
