(* ===== verification/MemIter.thy ===== *)
theory MemIter
  imports MergeIter MemTable
begin

text \<open>
  The iterator of a memtable (\<^verbatim>\<open>MemTableIterator\<close> of \<^verbatim>\<open>leveldb/memtable.cc\<close>) as an instance of the iterator
  interface, and \<^verbatim>\<open>NewMergingIterator\<close> of \<^verbatim>\<open>table/merger.cc\<close>, which picks the empty iterator of
  \<^verbatim>\<open>table/iterator.cc\<close>, the only child or a merging iterator. Both keep the contract \<open>sorted_iter\<close>.
\<close>

section \<open>The memtable iterator\<close>

text \<open>The state of the iterator is the table it runs over and its node pointer.\<close>

definition memtable_iterator :: "(slice \<Rightarrow> slice \<Rightarrow> int) \<Rightarrow> (memtable \<times> nat option) Iterator" where
  "memtable_iterator user_cmp = \<lparr>
     it_Valid = (\<lambda>(m, it). Iter_Valid it),
     it_SeekToFirst = (\<lambda>(m, it). map_option (Pair m) (Iter_SeekToFirst (mem_table m))),
     it_SeekToLast = (\<lambda>(m, it). map_option (Pair m) (Iter_SeekToLast (mem_table m))),
     it_Seek = (\<lambda>k (m, it). map_option (Pair m) (MemIter_Seek user_cmp m k)),
     it_Next = (\<lambda>(m, it). map_option (Pair m) (Iter_Next (mem_table m) it)),
     it_Prev = (\<lambda>(m, it). map_option (Pair m) (Iter_Prev (KeyComparator user_cmp) (mem_table m) it)),
     it_key = (\<lambda>(m, it). MemIter_key m it),
     it_value = (\<lambda>(m, it). MemIter_value m it)\<rparr>"

definition MemTable_NewIterator :: "memtable \<Rightarrow> memtable \<times> nat option" where
  "MemTable_NewIterator m = (m, None)"

section \<open>Picking a merging iterator\<close>

datatype 'it AnyIterator = EmptyIterator | OneIterator 'it | ManyIterator "'it MergingIterator"

definition any_move :: "('it \<Rightarrow> 'it option) \<Rightarrow> ('it MergingIterator \<Rightarrow> 'it MergingIterator option) \<Rightarrow>
    'it AnyIterator option \<Rightarrow> 'it AnyIterator \<Rightarrow> 'it AnyIterator option" where
  "any_move f g e a = (case a of
     EmptyIterator \<Rightarrow> e
   | OneIterator s \<Rightarrow> map_option OneIterator (f s)
   | ManyIterator m \<Rightarrow> map_option ManyIterator (g m))"

definition any_iterator :: "(slice \<Rightarrow> slice \<Rightarrow> int) \<Rightarrow> 'it Iterator \<Rightarrow> 'it AnyIterator Iterator" where
  "any_iterator cmp I = \<lparr>
     it_Valid = case_AnyIterator False (it_Valid I) mi_Valid,
     it_SeekToFirst = any_move (it_SeekToFirst I) (mi_SeekToFirst cmp I) (Some EmptyIterator),
     it_SeekToLast = any_move (it_SeekToLast I) (mi_SeekToLast cmp I) (Some EmptyIterator),
     it_Seek = (\<lambda>t. any_move (it_Seek I t) (mi_Seek cmp I t) (Some EmptyIterator)),
     it_Next = any_move (it_Next I) (mi_Next cmp I) None,
     it_Prev = any_move (it_Prev I) (mi_Prev cmp I) None,
     it_key = case_AnyIterator None (it_key I) mi_key,
     it_value = case_AnyIterator None (it_value I) (mi_value I)\<rparr>"

definition NewMergingIterator :: "'it Iterator \<Rightarrow> 'it list \<Rightarrow> 'it AnyIterator option" where
  "NewMergingIterator I children =
     (case children of
        [] \<Rightarrow> Some EmptyIterator
      | [c] \<Rightarrow> Some (OneIterator c)
      | _ \<Rightarrow> map_option ManyIterator (new_MergingIterator I children))"

context sorted_iter
begin

definition aok :: "'it AnyIterator \<Rightarrow> bool" where
  "aok a = case_AnyIterator True ok mok a"

definition aitems :: "'it AnyIterator \<Rightarrow> (slice \<times> slice) list" where
  "aitems a = case_AnyIterator [] items mitems a"

definition apos :: "'it AnyIterator \<Rightarrow> nat" where
  "apos a = case_AnyIterator 0 pos mpos a"

lemma any_move_ok:
  assumes "a = EmptyIterator \<Longrightarrow> e = Some EmptyIterator \<and> n = 0"
    "\<And>s. a = OneIterator s \<Longrightarrow> \<exists>s'. f s = Some s' \<and> ok s' \<and> items s' = items s \<and> pos s' = n"
    "\<And>m. a = ManyIterator m \<Longrightarrow> \<exists>m'. g m = Some m' \<and> mok m' \<and> mitems m' = mitems m \<and> mpos m' = n"
  shows "\<exists>a'. any_move f g e a = Some a' \<and> aok a' \<and> aitems a' = aitems a \<and> apos a' = n"
proof (cases a)
  case EmptyIterator
  then show ?thesis using assms(1) by (simp add: any_move_def aok_def aitems_def apos_def)
next
  case (OneIterator s)
  then show ?thesis using assms(2) [OF OneIterator] by (auto simp: any_move_def aok_def aitems_def apos_def)
next
  case (ManyIterator m)
  then show ?thesis using assms(3) [OF ManyIterator] by (auto simp: any_move_def aok_def aitems_def apos_def)
qed

lemmas merging_laws = sorted_iter.ascends [OF merging_sorted] sorted_iter.valid_iff [OF merging_sorted]
  sorted_iter.reads [OF merging_sorted]

lemmas any_defs = any_iterator_def aok_def aitems_def apos_def

lemma any_sorted: "sorted_iter valid cmp (any_iterator cmp I) aok aitems apos"
proof unfold_locales
  fix a assume a: "aok a"
  have ok: "a = OneIterator s \<Longrightarrow> ok s" and mok: "a = ManyIterator m \<Longrightarrow> mok m" for s m
    using a by (simp_all add: aok_def)
  show "ascending (aitems a)"
    using a ascends merging_laws(1) by (cases a) (simp_all add: aok_def aitems_def)
  show "it_Valid (any_iterator cmp I) a \<longleftrightarrow> apos a < length (aitems a)"
    using a valid_iff merging_laws(2) by (cases a) (simp_all add: any_defs merging_iterator_def)
  show "it_key (any_iterator cmp I) a = Some (fst (aitems a ! apos a)) \<and>
      it_value (any_iterator cmp I) a = Some (snd (aitems a ! apos a))" if "apos a < length (aitems a)"
    using that a reads merging_laws(3) by (cases a) (simp_all add: any_defs merging_iterator_def)
  show "\<exists>s'. it_SeekToFirst (any_iterator cmp I) a = Some s' \<and> aok s' \<and> aitems s' = aitems a \<and> apos s' = 0"
    using any_move_ok [of a "Some EmptyIterator" 0] ok seek_first mok mi_seeks_ok(1) by (simp add: any_iterator_def)
  show "\<exists>s'. it_SeekToLast (any_iterator cmp I) a = Some s' \<and> aok s' \<and> aitems s' = aitems a \<and> apos s' = length (aitems a) - 1"
    unfolding any_iterator_def Iterator.simps
    by (rule any_move_ok) (use ok seek_last mok mi_seeks_ok(2) in \<open>auto simp: aitems_def\<close>)
  show "\<exists>s'. it_Seek (any_iterator cmp I) t a = Some s' \<and> aok s' \<and> aitems s' = aitems a \<and> apos s' = lower cmp (aitems a) t"
    if "valid t" for t
    unfolding any_iterator_def Iterator.simps
    by (rule any_move_ok) (use ok seek [OF _ that] mok mi_seeks_ok(3) [OF _ that] in \<open>auto simp: aitems_def lower_def\<close>)
  show "\<exists>s'. it_Next (any_iterator cmp I) a = Some s' \<and> aok s' \<and> aitems s' = aitems a \<and> apos s' = Suc (apos a)"
    if "apos a < length (aitems a)"
    unfolding any_iterator_def Iterator.simps
    by (rule any_move_ok) (use that ok step mok mi_Next_ok in \<open>auto simp: aitems_def apos_def\<close>)
  show "\<exists>s'. it_Prev (any_iterator cmp I) a = Some s' \<and> aok s' \<and> aitems s' = aitems a \<and>
      apos s' = (if apos a = 0 then length (aitems a) else apos a - 1)" if p: "apos a < length (aitems a)"
    unfolding any_iterator_def Iterator.simps
  proof (rule any_move_ok)
    show "\<exists>s'. it_Prev I s = Some s' \<and> ok s' \<and> items s' = items s \<and>
        pos s' = (if apos a = 0 then length (aitems a) else apos a - 1)" if "a = OneIterator s" for s
    proof -
      have e: "apos a = pos s" "aitems a = items s" using that by (simp_all add: aitems_def apos_def)
      show ?thesis unfolding e by (rule step_back) (use p ok [OF that] in \<open>simp_all add: e\<close>)
    qed
    show "\<exists>m'. mi_Prev cmp I m = Some m' \<and> mok m' \<and> mitems m' = mitems m \<and>
        mpos m' = (if apos a = 0 then length (aitems a) else apos a - 1)" if "a = ManyIterator m" for m
    proof -
      have e: "apos a = mpos m" "aitems a = mitems m" using that by (simp_all add: aitems_def apos_def)
      show ?thesis unfolding e by (rule mi_Prev_ok) (use p mok [OF that] in \<open>simp_all add: e\<close>)
    qed
  qed (use p in \<open>simp add: aitems_def apos_def\<close>)
qed

lemma NewMergingIterator_ok:
  assumes its: "\<forall>it \<in> set its. ok it" "sorted_wrt apart (map items its)"
  shows "\<exists>a. NewMergingIterator I its = Some a \<and> aok a \<and> ascending (aitems a) \<and>
    set (aitems a) = (\<Union>it \<in> set its. set (items it)) \<and>
    ((\<forall>it \<in> set its. pos it = length (items it)) \<longrightarrow> apos a = length (aitems a))"
proof -
  have "\<forall>xs \<in> set (map items its). ascending xs" using its(1) ascends by auto
  from merge_all [OF this its(2)]
  have m: "set (merge_all (map items its)) = (\<Union>it \<in> set its. set (items it))" "ascending (merge_all (map items its))"
    by simp_all
  consider "its = []" | it where "its = [it]" | x y ys where "its = x # y # ys"
    by (metis neq_Nil_conv)
  then show ?thesis
  proof cases
    case 3
    obtain mi where mi: "new_MergingIterator I its = Some mi" "mok mi" "mitems mi = merge_all (map items its)" "mpos mi = length (mitems mi)"
      using new_MergingIterator_ok [OF its] by blast
    have "NewMergingIterator I its = Some (ManyIterator mi)" using 3 mi(1) by (simp add: NewMergingIterator_def)
    then show ?thesis using mi m by (simp add: aok_def aitems_def apos_def)
  qed (use its ascends in \<open>simp_all add: NewMergingIterator_def aok_def aitems_def apos_def\<close>)
qed

end

section \<open>The contents of a memtable\<close>

text \<open>The nodes of the lowest level, in order.\<close>

fun walk :: "'k sl_node list \<Rightarrow> nat \<Rightarrow> nat \<Rightarrow> nat list" where
  "walk H 0 a = []"
| "walk H (Suc n) a = (case Node_Next H a 0 of Some (Some b) \<Rightarrow> b # walk H n b | _ \<Rightarrow> [])"

definition nodes :: "'k skiplist \<Rightarrow> nat list" where
  "nodes sl = walk (sl_nodes sl) (length (sl_nodes sl)) head"

lemma walk_linked: "linked H 0 a L \<Longrightarrow> length L \<le> n \<Longrightarrow> walk H n a = L"
proof (induction L arbitrary: a n)
  case Nil
  then show ?case by (cases n) simp_all
next
  case (Cons b L)
  then show ?case by (cases n) simp_all
qed

lemma nodes_rep:
  assumes rep: "sl_rep valid cmp sl L"
  shows "nodes sl = L"
proof -
  have "filter (\<lambda>a. 0 < ht (sl_nodes sl) a) L = L" using sl_repD(6) [OF rep] by (intro filter_True) fastforce
  then have "linked (sl_nodes sl) 0 head L" using sl_repD(9) [OF rep, of 0] by (simp add: kMaxHeight_def)
  moreover have "length L \<le> length (sl_nodes sl)"
  proof -
    have "set L \<subseteq> {..<length (sl_nodes sl)}" using sl_repD(5) [OF rep] by blast
    then have "card (set L) \<le> length (sl_nodes sl)" using card_mono [of "{..<length (sl_nodes sl)}" "set L"] by simp
    then show ?thesis using sl_repD(4) [OF rep] by (simp add: distinct_card)
  qed
  ultimately show ?thesis unfolding nodes_def by (rule walk_linked)
qed

definition node_item :: "memtable \<Rightarrow> nat \<Rightarrow> slice \<times> slice" where
  "node_item m a = (let e = node_key (sl_nodes (mem_table m) ! a) in (entry_key e, entry_value e))"

definition mem_items :: "memtable \<times> nat option \<Rightarrow> (slice \<times> slice) list" where
  "mem_items s = map (node_item (fst s)) (nodes (mem_table (fst s)))"

definition mem_pos :: "memtable \<times> nat option \<Rightarrow> nat" where
  "mem_pos s = (let L = nodes (mem_table (fst s)) in
     case snd s of None \<Rightarrow> length L | Some a \<Rightarrow> length (takeWhile (\<lambda>b. b \<noteq> a) L))"

definition mem_iter_ok :: "memtable \<times> nat option \<Rightarrow> bool" where
  "mem_iter_ok s \<longleftrightarrow> (\<exists>W. mem_rep (fst s) W) \<and>
     (case snd s of None \<Rightarrow> True | Some a \<Rightarrow> a \<in> set (nodes (mem_table (fst s))))"

abbreviation icmp :: "slice \<Rightarrow> slice \<Rightarrow> int" where
  "icmp \<equiv> InternalKey_Compare Bytewise_Compare"

text \<open>Internal keys whose length a varint32 can hold.\<close>

definition ikey_ok :: "slice \<Rightarrow> bool" where
  "ikey_ok k \<longleftrightarrow> 8 \<le> length k \<and> length k < 2 ^ 32"

lemma mem_rep_items:
  assumes "mem_rep m W"
  shows "sl_rep mvalid mcmp (mem_table m) (nodes (mem_table m))"
    "set (mem_items (m, it)) = (\<lambda>w. (write_ikey w, snd w)) ` W"
proof -
  obtain L where L: "sl_rep mvalid mcmp (mem_table m) L" "set (keys_of (mem_table m) L) = write_bytes_of ` W"
    and W: "\<And>v. v \<in> W \<Longrightarrow> write_ok v" using assms by (auto simp: mem_rep_def)
  have n: "nodes (mem_table m) = L" by (rule nodes_rep [OF L(1)])
  show "sl_rep mvalid mcmp (mem_table m) (nodes (mem_table m))" using L(1) n by simp
  have "set (mem_items (m, it)) = (\<lambda>e. (entry_key e, entry_value e)) ` set (keys_of (mem_table m) L)"
    by (simp add: mem_items_def n node_item_def keys_of_def image_image Let_def)
  also have "\<dots> = (\<lambda>w. (write_ikey w, snd w)) ` W" unfolding L(2) image_image using W by simp
  finally show "set (mem_items (m, it)) = (\<lambda>w. (write_ikey w, snd w)) ` W" .
qed

text \<open>The node \<open>n\<close> places into the list, or none past its end.\<close>

definition node_at :: "nat list \<Rightarrow> nat \<Rightarrow> nat option" where
  "node_at L n = (if n < length L then Some (L ! n) else None)"

lemma mem_at:
  assumes "mem_rep m W" "n \<le> length (nodes (mem_table m))"
  shows "mem_iter_ok (m, node_at (nodes (mem_table m)) n)" "mem_pos (m, node_at (nodes (mem_table m)) n) = n"
proof -
  let ?L = "nodes (mem_table m)"
  have d: "distinct ?L" using sl_repD(4) [OF mem_rep_items(1) [OF assms(1)]] by simp
  have "length (takeWhile (\<lambda>b. b \<noteq> ?L ! n) ?L) = n" if n: "n < length ?L"
  proof -
    have "takeWhile (\<lambda>b. b \<noteq> ?L ! n) ?L = take n ?L"
    proof (rule takeWhile_eq_take_P_nth)
      show "?L ! i \<noteq> ?L ! n" if "i < n" for i using nth_eq_iff_index_eq [OF d _ n, of i] that n by simp
    qed simp
    then show ?thesis using n by simp
  qed
  then show "mem_pos (m, node_at ?L n) = n" using assms(2) by (auto simp: mem_pos_def node_at_def Let_def)
  show "mem_iter_ok (m, node_at ?L n)" using assms by (auto simp: mem_iter_ok_def node_at_def)
qed

lemma takeWhile_before: "a \<notin> set A \<Longrightarrow> takeWhile (\<lambda>b. b \<noteq> a) (A @ a # B) = A"
  by (subst takeWhile_append2) auto

lemma mem_stands:
  assumes "mem_iter_ok s" "mem_pos s < length (mem_items s)"
  obtains A a B where "snd s = Some a" "nodes (mem_table (fst s)) = A @ a # B" "mem_pos s = length A"
proof -
  obtain a where a: "snd s = Some a" "a \<in> set (nodes (mem_table (fst s)))"
    using assms by (cases "snd s") (auto simp: mem_iter_ok_def mem_pos_def mem_items_def)
  obtain A B where AB: "nodes (mem_table (fst s)) = A @ a # B" "a \<notin> set A" using split_list_first [OF a(2)] by blast
  have "mem_pos s = length A" using a(1) AB by (simp add: mem_pos_def takeWhile_before)
  then show thesis by (rule that [OF a(1) AB(1)])
qed

lemma next_of_node_at: "next_of B = node_at (A @ B) (length A)"
  by (cases B) (simp_all add: node_at_def)

lemma next_of_rev_node_at:
  "next_of (rev A) = node_at (A @ B) (if A = [] then length (A @ B) else length A - 1)"
  by (cases A rule: rev_cases) (simp_all add: node_at_def nth_append)

lemma find_node_at: "find P L = node_at L (length (takeWhile (\<lambda>a. \<not> P a) L))"
  by (induction L) (auto simp: node_at_def)

lemma entry_key_EncodeKey: "length k < 2 ^ 32 \<Longrightarrow> entry_key (EncodeKey k) = k"
  using prefixed_slice_Encode [of k "[]"] by (simp add: entry_key_def EncodeKey_def PutVarint32_def)

text \<open>Every move of the iterator ends at a node of the list, or past its end.\<close>

lemma mem_move:
  assumes "mem_iter_ok s" "r = Some (node_at (nodes (mem_table (fst s))) n)" "n \<le> length (nodes (mem_table (fst s)))"
  shows "\<exists>s'. map_option (Pair (fst s)) r = Some s' \<and> mem_iter_ok s' \<and> mem_items s' = mem_items s \<and> mem_pos s' = n"
proof -
  obtain W where "mem_rep (fst s) W" using assms(1) by (auto simp: mem_iter_ok_def)
  from mem_at [OF this assms(3)] show ?thesis using assms(2) by (simp add: mem_items_def)
qed

lemma length_mem_items: "length (mem_items s) = length (nodes (mem_table (fst s)))"
  by (simp add: mem_items_def)

interpretation ikeys: key_order ikey_ok icmp
proof unfold_locales
  fix a b
  assume "ikey_ok a" "ikey_ok b"
  then have "8 \<le> length a" "8 \<le> length b" by (simp_all add: ikey_ok_def)
  then show "sgn (icmp a b) = - sgn (icmp b a)" by (rule internal.cmp_antisym)
next
  fix a b c
  assume "ikey_ok a" "ikey_ok b" "ikey_ok c" and *: "icmp a b \<le> 0" "icmp b c \<le> 0"
  then have "8 \<le> length a" "8 \<le> length b" "8 \<le> length c" by (simp_all add: ikey_ok_def)
  then show "icmp a c \<le> 0" using * by (rule internal.cmp_trans)
qed

lemma mem_ascending:
  assumes "mem_iter_ok s"
  shows "ikeys.ascending (mem_items s)"
proof
  obtain W where W: "mem_rep (fst s) W" using assms by (auto simp: mem_iter_ok_def)
  note rep = mem_rep_items(1) [OF W]
  show "sorted_wrt (\<lambda>a b. icmp (fst a) (fst b) < 0) (mem_items s)"
    using sl_repD(10) [OF rep] by (simp add: mem_items_def sorted_wrt_map node_item_def Let_def KeyComparator_def)
  have "\<forall>w \<in> W. write_ok w" using W by (simp add: mem_rep_def)
  then show "\<forall>e \<in> set (mem_items s). ikey_ok (fst e)"
    using mem_rep_items(2) [OF W, of "snd s"] by (auto simp: ikey_ok_def write_ok_def)
qed

lemma mem_sorted: "sorted_iter ikey_ok icmp (memtable_iterator Bytewise_Compare) mem_iter_ok mem_items mem_pos"
proof unfold_locales
  fix s assume s: "mem_iter_ok s"
  obtain W where W: "mem_rep (fst s) W" using s by (auto simp: mem_iter_ok_def)
  note rep = mem_rep_items(1) [OF W] and defs = memtable_iterator_def split_beta
  let ?L = "nodes (mem_table (fst s))"
  show "ikeys.ascending (mem_items s)" by (rule mem_ascending [OF s])
  show "it_Valid (memtable_iterator Bytewise_Compare) s \<longleftrightarrow> mem_pos s < length (mem_items s)"
  proof (cases "snd s")
    case (Some a)
    then obtain A B where "?L = A @ a # B" "a \<notin> set A" using s split_list_first [of a ?L] by (auto simp: mem_iter_ok_def)
    then show ?thesis using Some by (simp add: defs Iter_Valid_def mem_pos_def length_mem_items takeWhile_before)
  qed (simp add: defs Iter_Valid_def mem_pos_def length_mem_items)
  show "it_key (memtable_iterator Bytewise_Compare) s = Some (fst (mem_items s ! mem_pos s)) \<and>
      it_value (memtable_iterator Bytewise_Compare) s = Some (snd (mem_items s ! mem_pos s))" if p: "mem_pos s < length (mem_items s)"
  proof -
    obtain A a B where a: "snd s = Some a" "?L = A @ a # B" "mem_pos s = length A" by (rule mem_stands [OF s p])
    then show ?thesis by (simp add: defs MemIter_key_def MemIter_value_def Iter_key_def mem_items_def node_item_def Let_def nth_append)
  qed
  show "\<exists>s'. it_SeekToFirst (memtable_iterator Bytewise_Compare) s = Some s' \<and> mem_iter_ok s' \<and> mem_items s' = mem_items s \<and> mem_pos s' = 0"
    using mem_move [OF s, of _ 0] entries.first_last_rep(1) [OF rep] next_of_node_at [of ?L "[]"] by (simp add: defs)
  show "\<exists>s'. it_SeekToLast (memtable_iterator Bytewise_Compare) s = Some s' \<and> mem_iter_ok s' \<and> mem_items s' = mem_items s \<and>
      mem_pos s' = length (mem_items s) - 1"
    using mem_move [OF s, of "Iter_SeekToLast (mem_table (fst s))" "length ?L - 1"] entries.first_last_rep(2) [OF rep]
      next_of_rev_node_at [of ?L "[]"]
    by (cases "?L = []") (simp_all add: defs length_mem_items)
  show "\<exists>s'. it_Seek (memtable_iterator Bytewise_Compare) t s = Some s' \<and> mem_iter_ok s' \<and> mem_items s' = mem_items s \<and>
      mem_pos s' = lower icmp (mem_items s) t" if "ikey_ok t" for t
  proof -
    have t: "entry_key (EncodeKey t) = t" "mvalid (EncodeKey t)" using that entry_key_EncodeKey [of t] by (simp_all add: ikey_ok_def)
    have n: "lower icmp (mem_items s) t = length (takeWhile (\<lambda>a. entries.before (mem_table (fst s)) (EncodeKey t) a) ?L)"
      by (simp add: lower_def mem_items_def takeWhile_map o_def node_item_def Let_def KeyComparator_def t(1))
    have "MemIter_Seek Bytewise_Compare (fst s) t = Some (node_at ?L (lower icmp (mem_items s) t))"
      unfolding MemIter_Seek_def entries.seek_rep [OF rep t(2)] find_node_at n by simp
    from mem_move [OF s this] show ?thesis using lower_le [of icmp "mem_items s" t] by (simp add: defs length_mem_items)
  qed
  show "\<exists>s'. it_Next (memtable_iterator Bytewise_Compare) s = Some s' \<and> mem_iter_ok s' \<and> mem_items s' = mem_items s \<and>
      mem_pos s' = Suc (mem_pos s)" if p: "mem_pos s < length (mem_items s)"
  proof -
    obtain A a B where a: "snd s = Some a" "?L = A @ a # B" "mem_pos s = length A" by (rule mem_stands [OF s p])
    have "Iter_Next (mem_table (fst s)) (snd s) = Some (node_at ?L (Suc (mem_pos s)))"
      using entries.next_prev_rep(1) [OF rep [unfolded a(2)]] next_of_node_at [of B "A @ [a]"] a by simp
    from mem_move [OF s this] show ?thesis using a by (simp add: defs)
  qed
  show "\<exists>s'. it_Prev (memtable_iterator Bytewise_Compare) s = Some s' \<and> mem_iter_ok s' \<and> mem_items s' = mem_items s \<and>
      mem_pos s' = (if mem_pos s = 0 then length (mem_items s) else mem_pos s - 1)" if p: "mem_pos s < length (mem_items s)"
  proof -
    obtain A a B where a: "snd s = Some a" "?L = A @ a # B" "mem_pos s = length A" by (rule mem_stands [OF s p])
    let ?n = "if mem_pos s = 0 then length (mem_items s) else mem_pos s - 1"
    have "Iter_Prev mcmp (mem_table (fst s)) (snd s) = Some (node_at ?L ?n)"
      using entries.next_prev_rep(2) [OF rep [unfolded a(2)]] next_of_rev_node_at [of A "a # B"] a by (auto simp: length_mem_items)
    from mem_move [OF s this] show ?thesis using a by (auto simp: defs length_mem_items)
  qed
qed

interpretation mem: sorted_iter ikey_ok icmp "memtable_iterator Bytewise_Compare" mem_iter_ok mem_items mem_pos
  by (rule mem_sorted)

interpretation merged_mem: sorted_iter ikey_ok icmp "any_iterator icmp (memtable_iterator Bytewise_Compare)" mem.aok mem.aitems mem.apos
  by (rule mem.any_sorted)

section \<open>Iterators over several memtables\<close>

text \<open>The sets of writes of the tables have no version in common.\<close>

definition no_shared_version :: "mem_write set list \<Rightarrow> bool" where
  "no_shared_version Ws \<longleftrightarrow> sorted_wrt (\<lambda>V W. \<forall>v \<in> V. \<forall>w \<in> W.
     (user_key (fst v), sequence_no (fst v)) \<noteq> (user_key (fst w), sequence_no (fst w))) Ws"

definition tables_rep :: "memtable list \<Rightarrow> mem_write set list \<Rightarrow> bool" where
  "tables_rep ms Ws \<longleftrightarrow> list_all2 mem_rep ms Ws \<and> no_shared_version Ws"

lemma icmp_same_version:
  assumes "write_ok v" "write_ok w" "icmp (write_ikey v) (write_ikey w) = 0"
  shows "user_key (fst v) = user_key (fst w)" "sequence_no (fst v) = sequence_no (fst w)"
proof -
  have t: "write_tag v = write_tag w" using assms(3) by (simp add: InternalKey_Compare_eq)
  then show "sequence_no (fst v) = sequence_no (fst w)"
    using tag_le_imp_seq_le [OF assms(1,2)] tag_le_imp_seq_le [OF assms(2,1)] by simp
  show "user_key (fst v) = user_key (fst w)" using assms(3) by (simp add: InternalKey_Compare_eq Bytewise_Compare_def split: if_splits)
qed

lemma UN_nth: "(\<Union>x \<in> set xs. f x) = (\<Union>i \<in> {..<length xs}. f (xs ! i))"
  unfolding set_conv_nth by auto

lemma tables_iters:
  assumes "tables_rep ms Ws" "its = map MemTable_NewIterator ms"
  shows "\<forall>it \<in> set its. mem_iter_ok it" "sorted_wrt ikeys.apart (map mem_items its)"
    "(\<Union>it \<in> set its. set (mem_items it)) = (\<lambda>w. (write_ikey w, snd w)) ` \<Union> (set Ws)"
    "\<forall>it \<in> set its. mem_pos it = length (mem_items it)"
    "\<forall>w \<in> \<Union> (set Ws). write_ok w" "inj_on (\<lambda>w. (user_key (fst w), sequence_no (fst w))) (\<Union> (set Ws))"
proof -
  have L: "length ms = length Ws" "\<And>i. i < length ms \<Longrightarrow> mem_rep (ms ! i) (Ws ! i)"
    using assms(1) by (auto simp: tables_rep_def list_all2_conv_all_nth)
  have ok: "\<And>i w. i < length Ws \<Longrightarrow> w \<in> Ws ! i \<Longrightarrow> write_ok w" using L unfolding mem_rep_def by metis
  have diff: "(user_key (fst v), sequence_no (fst v)) \<noteq> (user_key (fst w), sequence_no (fst w))"
    if "i < j" "j < length Ws" "v \<in> Ws ! i" "w \<in> Ws ! j" for i j v w
    using assms(1) that unfolding tables_rep_def no_shared_version_def sorted_wrt_iff_nth_less by blast
  have it: "its ! i = (ms ! i, None)" if "i < length ms" for i using that assms(2) by (simp add: MemTable_NewIterator_def)
  have I: "set (mem_items (its ! i)) = (\<lambda>w. (write_ikey w, snd w)) ` (Ws ! i)" if "i < length ms" for i
    using mem_rep_items(2) [OF L(2) [OF that]] it [OF that] by simp
  have len: "length its = length ms" using assms(2) by simp
  have "\<exists>W. mem_rep (ms ! i) W" if "i < length ms" for i using L(2) [OF that] by blast
  then show "\<forall>it \<in> set its. mem_iter_ok it" "\<forall>it \<in> set its. mem_pos it = length (mem_items it)"
    using L it len by (auto simp: in_set_conv_nth mem_iter_ok_def mem_pos_def length_mem_items)
  show "sorted_wrt ikeys.apart (map mem_items its)"
    unfolding sorted_wrt_iff_nth_less ikeys.apart_def
  proof (intro allI impI ballI)
    fix i j a b
    assume ij: "i < j" "j < length (map mem_items its)"
      and ab: "a \<in> set (map mem_items its ! i)" "b \<in> set (map mem_items its ! j)"
    obtain v w where vw: "v \<in> Ws ! i" "w \<in> Ws ! j" "fst a = write_ikey v" "fst b = write_ikey w"
      using ij ab I len by auto
    have ij': "i < length Ws" "j < length Ws" using ij len L(1) by simp_all
    show "icmp (fst a) (fst b) \<noteq> 0"
    proof
      assume "icmp (fst a) (fst b) = 0"
      then have "icmp (write_ikey v) (write_ikey w) = 0" using vw(3,4) by simp
      from icmp_same_version [OF ok [OF ij'(1) vw(1)] ok [OF ij'(2) vw(2)] this]
      show False using diff [OF ij(1) ij'(2) vw(1,2)] by simp
    qed
  qed
  have "(\<Union>it \<in> set its. set (mem_items it)) = (\<Union>i \<in> {..<length ms}. (\<lambda>w. (write_ikey w, snd w)) ` (Ws ! i))"
    unfolding UN_nth len using I by simp
  then show "(\<Union>it \<in> set its. set (mem_items it)) = (\<lambda>w. (write_ikey w, snd w)) ` \<Union> (set Ws)"
    unfolding image_Union UN_nth L(1) by simp
  show "\<forall>w \<in> \<Union> (set Ws). write_ok w" using ok by (auto simp: in_set_conv_nth)
  show "inj_on (\<lambda>w. (user_key (fst w), sequence_no (fst w))) (\<Union> (set Ws))"
  proof (rule inj_onI)
    fix v w
    assume "v \<in> \<Union> (set Ws)" "w \<in> \<Union> (set Ws)"
      and e: "(user_key (fst v), sequence_no (fst v)) = (user_key (fst w), sequence_no (fst w))"
    then obtain i j where ij: "i < length Ws" "j < length Ws" "v \<in> Ws ! i" "w \<in> Ws ! j" by (auto simp: in_set_conv_nth)
    then have "i = j" using diff [of i j v w] diff [of j i w v] e by (metis linorder_neqE_nat)
    then show "v = w" using L(1) L(2) [of i] ij e unfolding mem_rep_def inj_on_def by metis
  qed
qed

section \<open>Properties\<close>

text \<open>C25. The iterator \<^verbatim>\<open>NewMergingIterator\<close> builds over the iterators of memtables with no common version is a cursor
  on the sorted list of all their entries: whatever sequence of \<^verbatim>\<open>SeekToFirst\<close>, \<^verbatim>\<open>SeekToLast\<close>, \<^verbatim>\<open>Seek\<close>, \<^verbatim>\<open>Next\<close> and
  \<^verbatim>\<open>Prev\<close> the cursor can make, changes of direction included, the iterator makes too, and it then is valid
  exactly when the cursor is inside the list and shows the entry under it.\<close>

theorem merging_iterator_is_cursor:
  assumes "tables_rep ms Ws"
  shows "\<exists>xs a. NewMergingIterator (memtable_iterator Bytewise_Compare) (map MemTable_NewIterator ms) = Some a \<and>
    set xs = (\<lambda>w. (write_ikey w, snd w)) ` \<Union> (set Ws) \<and> sorted_wrt (\<lambda>a b. icmp (fst a) (fst b) < 0) xs \<and>
    (\<forall>mvs n. (\<forall>mv \<in> set mvs. move_ok ikey_ok mv) \<and> run_moves (cursor_move icmp xs) mvs (length xs) = Some n \<longrightarrow>
      (let J = any_iterator icmp (memtable_iterator Bytewise_Compare) in
       \<exists>a'. run_moves (do_move J) mvs a = Some a' \<and> (it_Valid J a' \<longleftrightarrow> n < length xs) \<and>
         (n < length xs \<longrightarrow> it_key J a' = Some (fst (xs ! n)) \<and> it_value J a' = Some (snd (xs ! n)))))"
proof -
  note T = tables_iters [OF assms refl]
  obtain a where a: "NewMergingIterator (memtable_iterator Bytewise_Compare) (map MemTable_NewIterator ms) = Some a" "mem.aok a"
    "ikeys.ascending (mem.aitems a)" "set (mem.aitems a) = (\<lambda>w. (write_ikey w, snd w)) ` \<Union> (set Ws)"
    "mem.apos a = length (mem.aitems a)"
    using mem.NewMergingIterator_ok [OF T(1,2)] T(3,4) by (elim exE conjE) (rule that; simp)
  have "\<exists>a'. run_moves (do_move (any_iterator icmp (memtable_iterator Bytewise_Compare))) mvs a = Some a' \<and>
      mem.aok a' \<and> mem.aitems a' = mem.aitems a \<and> mem.apos a' = n"
    if "\<forall>mv \<in> set mvs. move_ok ikey_ok mv" "run_moves (cursor_move icmp (mem.aitems a)) mvs (length (mem.aitems a)) = Some n" for mvs n
    using merged_mem.run_moves_ok [OF a(2) that(1)] that(2) a(5) by simp
  then show ?thesis
    using a(1,3,4) merged_mem.valid_iff merged_mem.reads by (intro exI [of _ "mem.aitems a"] exI [of _ a]) (fastforce simp: Let_def)
qed

text \<open>Two small tables for the examples: the first has a newer deletion of a key the second holds.\<close>

definition demo_new :: "mem_write set" where
  "demo_new = {(\<lparr>user_key = [107], sequence_no = 5, val_type = kTypeDeletion\<rparr>, []),
     (\<lparr>user_key = [109], sequence_no = 6, val_type = kTypeValue\<rparr>, [9])}"

definition demo_old :: "mem_write set" where
  "demo_old = {(\<lparr>user_key = [107], sequence_no = 3, val_type = kTypeValue\<rparr>, [7, 8])}"

lemma demo_tables: "\<exists>m1 m2. tables_rep [m1, m2] [demo_new, demo_old]"
proof -
  let ?a = "(\<lparr>user_key = [107], sequence_no = 5, val_type = kTypeDeletion\<rparr>, []) :: mem_write"
  let ?b = "(\<lparr>user_key = [109], sequence_no = 6, val_type = kTypeValue\<rparr>, [9]) :: mem_write"
  let ?c = "(\<lparr>user_key = [107], sequence_no = 3, val_type = kTypeValue\<rparr>, [7, 8]) :: mem_write"
  have ok: "write_ok ?a" "write_ok ?b" "write_ok ?c" by (simp_all add: write_ok_def kMaxSequenceNumber_def)
  obtain m where m: "mem_rep m {?b}" using mem_add [OF mem_rep_new ok(2)] by blast
  obtain m1 where m1: "mem_rep m1 {?a, ?b}" using mem_add [OF m ok(1)] by auto
  obtain m2 where m2: "mem_rep m2 {?c}" using mem_add [OF mem_rep_new ok(3)] by blast
  show ?thesis using m1 m2
    by (intro exI [of _ m1] exI [of _ m2]) (simp add: tables_rep_def no_shared_version_def demo_new_def demo_old_def)
qed

theorem merging_iterator_is_cursor_witness:
  "\<exists>m1 m2 a a'. tables_rep [m1, m2] [demo_new, demo_old] \<and>
    NewMergingIterator (memtable_iterator Bytewise_Compare) (map MemTable_NewIterator [m1, m2]) = Some a \<and>
    run_moves (do_move (any_iterator icmp (memtable_iterator Bytewise_Compare))) [MSeekToFirst, MPrev] a = Some a' \<and>
    \<not> it_Valid (any_iterator icmp (memtable_iterator Bytewise_Compare)) a'"
proof -
  obtain m1 m2 where t: "tables_rep [m1, m2] [demo_new, demo_old]" using demo_tables by blast
  let ?J = "any_iterator icmp (memtable_iterator Bytewise_Compare)"
  obtain xs a where
    a: "NewMergingIterator (memtable_iterator Bytewise_Compare) (map MemTable_NewIterator [m1, m2]) = Some a"
      "set xs = (\<lambda>w. (write_ikey w, snd w)) ` \<Union> (set [demo_new, demo_old])"
    and run: "\<forall>mvs n. (\<forall>mv \<in> set mvs. move_ok ikey_ok mv) \<and> run_moves (cursor_move icmp xs) mvs (length xs) = Some n \<longrightarrow>
      (\<exists>a'. run_moves (do_move ?J) mvs a = Some a' \<and> (it_Valid ?J a' \<longleftrightarrow> n < length xs) \<and>
         (n < length xs \<longrightarrow> it_key ?J a' = Some (fst (xs ! n)) \<and> it_value ?J a' = Some (snd (xs ! n))))"
    using merging_iterator_is_cursor [OF t] unfolding Let_def by (elim exE conjE) (rule that)
  have "xs \<noteq> []" using a(2) by (auto simp: demo_new_def)
  then have "run_moves (cursor_move icmp xs) [MSeekToFirst, MPrev] (length xs) = Some (length xs)" by simp
  then have "\<exists>a'. run_moves (do_move ?J) [MSeekToFirst, MPrev] a = Some a' \<and> \<not> it_Valid ?J a'"
    using run [rule_format, of "[MSeekToFirst, MPrev]" "length xs"] by auto
  then show ?thesis using a(1) t by blast
qed

end
