(* ===== verification/TreeIter.thy ===== *)
theory TreeIter
  imports MemIter
begin

text \<open>
  The user-level iterator of the tree (\<^verbatim>\<open>SortedTreeIterator\<close> of \<^verbatim>\<open>wot_index.h\<close> and \<^verbatim>\<open>wot_index.cc\<close>) and the range
  scan of the driver, \<^verbatim>\<open>WotDB::Scan\<close> of \<^verbatim>\<open>ycsbc/db/wotdb.cc\<close>. The iterator runs over the merged internal
  entries of the sources it is given and shows, of every user key, the newest version the snapshot
  can see, unless that is a deletion. The sequence number is the value \<^verbatim>\<open>seq_no_\<close> has during the scan.
  The read sampling inside \<^verbatim>\<open>ParseKey\<close>, which only counts bytes for the compaction scheduler, is left out.
  Results are \<^const>\<open>None\<close> where an assertion fails.
\<close>

section \<open>The iterator\<close>

text \<open>A fresh object has a null inner iterator, which nothing reads while \<^verbatim>\<open>valid_\<close> is false; the empty iterator stands for it.\<close>

record 'it SortedTreeIterator =
  st_valid :: bool
  st_inner :: "'it AnyIterator"
  saved_key :: slice
  all_page :: bool

definition new_SortedTreeIterator :: "'it SortedTreeIterator" where
  "new_SortedTreeIterator = \<lparr>st_valid = False, st_inner = EmptyIterator, saved_key = [], all_page = False\<rparr>"

definition InitInnerIter :: "'it Iterator \<Rightarrow> 'it list \<Rightarrow> nat \<Rightarrow> 'it SortedTreeIterator \<Rightarrow> 'it SortedTreeIterator option" where
  "InitInnerIter I iter_vec non_page_num st =
     map_option (\<lambda>inner. st\<lparr>st_inner := inner, all_page := (if non_page_num = 0 then True else all_page st)\<rparr>)
       (NewMergingIterator I iter_vec)"

definition ParseKey :: "'i Iterator \<Rightarrow> 'i \<Rightarrow> ParsedInternalKey option option" where
  "ParseKey J it = map_option ParseInternalKey (it_key J it)"

definition SaveKey :: "slice \<Rightarrow> slice" where
  "SaveKey k = k"

text \<open>
  One round of the loop in \<^verbatim>\<open>FindNextUserEntry\<close>: whether the entry is to be shown, and the new values of
  \<^verbatim>\<open>skipping\<close> and \<^verbatim>\<open>skip\<close>.
\<close>

definition judge_entry ::
  "(slice \<Rightarrow> slice \<Rightarrow> int) \<Rightarrow> 64 word \<Rightarrow> ParsedInternalKey option \<Rightarrow> bool \<Rightarrow> slice \<Rightarrow> bool \<times> bool \<times> slice" where
  "judge_entry user_cmp seq parsed skipping skip =
     (case parsed of
        None \<Rightarrow> (False, skipping, skip)
      | Some ikey \<Rightarrow>
          if sequence_no ikey \<le> seq then
            (case val_type ikey of
               kTypeDeletion \<Rightarrow> (False, True, SaveKey (user_key ikey))
             | kTypeValue \<Rightarrow> (\<not> (skipping \<and> user_cmp (user_key ikey) skip \<le> 0), skipping, skip))
          else (False, skipping, skip))"

partial_function (option) FindNextUserEntry ::
  "(slice \<Rightarrow> slice \<Rightarrow> int) \<Rightarrow> 'it Iterator \<Rightarrow> 64 word \<Rightarrow> bool \<Rightarrow> slice \<Rightarrow> 'it SortedTreeIterator \<Rightarrow> 'it SortedTreeIterator option" where
  "FindNextUserEntry user_cmp I seq skipping skip st =
     (let J = any_iterator (InternalKey_Compare user_cmp) I in
      if \<not> it_Valid J (st_inner st) then None
      else case ParseKey J (st_inner st) of
        None \<Rightarrow> None
      | Some parsed \<Rightarrow>
          let (found, skipping', skip') = judge_entry user_cmp seq parsed skipping skip in
          if found then Some (st\<lparr>st_valid := True, saved_key := []\<rparr>)
          else case it_Next J (st_inner st) of
            None \<Rightarrow> None
          | Some inner \<Rightarrow>
              if it_Valid J inner then FindNextUserEntry user_cmp I seq skipping' skip' (st\<lparr>st_inner := inner\<rparr>)
              else Some (st\<lparr>st_inner := inner, saved_key := [], st_valid := False\<rparr>))"

definition SeekBothEnds ::
  "(slice \<Rightarrow> slice \<Rightarrow> int) \<Rightarrow> 'it Iterator \<Rightarrow> 'it list \<Rightarrow> nat \<Rightarrow> 64 word \<Rightarrow> slice \<Rightarrow> 'it SortedTreeIterator \<Rightarrow>
    'it SortedTreeIterator option" where
  "SeekBothEnds user_cmp I iter_vec non_page_num seq low st =
     (let J = any_iterator (InternalKey_Compare user_cmp) I in
      case InitInnerIter I iter_vec non_page_num st of
        None \<Rightarrow> None
      | Some st1 \<Rightarrow>
         (case AppendInternalKey [] \<lparr>user_key = low, sequence_no = seq, val_type = kValueTypeForSeek\<rparr> of
            Inl _ \<Rightarrow> None
          | Inr saved \<Rightarrow>
             (case it_Seek J saved (st_inner st1) of
                None \<Rightarrow> None
              | Some inner \<Rightarrow>
                  let st2 = st1\<lparr>saved_key := saved, st_inner := inner, st_valid := True\<rparr> in
                  if it_Valid J inner then FindNextUserEntry user_cmp I seq False saved st2
                  else Some (st2\<lparr>st_valid := False\<rparr>))))"

definition SortedTree_Next ::
  "(slice \<Rightarrow> slice \<Rightarrow> int) \<Rightarrow> 'it Iterator \<Rightarrow> 64 word \<Rightarrow> 'it SortedTreeIterator \<Rightarrow> 'it SortedTreeIterator option" where
  "SortedTree_Next user_cmp I seq st =
     (let J = any_iterator (InternalKey_Compare user_cmp) I in
      if \<not> st_valid st then None
      else if all_page st then
        map_option (\<lambda>inner. st\<lparr>st_inner := inner, st_valid := (if \<not> it_Valid J inner then False else st_valid st)\<rparr>)
          (it_Next J (st_inner st))
      else case it_key J (st_inner st) of
        None \<Rightarrow> None
      | Some k \<Rightarrow>
         (case ExtractUserKey k of
            Inl _ \<Rightarrow> None
          | Inr uk \<Rightarrow>
             (case it_Next J (st_inner st) of
                None \<Rightarrow> None
              | Some inner \<Rightarrow>
                  if \<not> it_Valid J inner then Some (st\<lparr>st_inner := inner, st_valid := False, saved_key := []\<rparr>)
                  else FindNextUserEntry user_cmp I seq True (SaveKey uk)
                         (st\<lparr>saved_key := SaveKey uk, st_inner := inner\<rparr>))))"

definition SortedTree_Valid :: "'it SortedTreeIterator \<Rightarrow> bool" where
  "SortedTree_Valid st = st_valid st"

definition SortedTree_key :: "(slice \<Rightarrow> slice \<Rightarrow> int) \<Rightarrow> 'it Iterator \<Rightarrow> 'it SortedTreeIterator \<Rightarrow> slice option" where
  "SortedTree_key user_cmp I st =
     (if \<not> st_valid st then None
      else case it_key (any_iterator (InternalKey_Compare user_cmp) I) (st_inner st) of
        None \<Rightarrow> None
      | Some k \<Rightarrow> (case ExtractUserKey k of Inl _ \<Rightarrow> None | Inr uk \<Rightarrow> Some uk))"

definition SortedTree_value :: "(slice \<Rightarrow> slice \<Rightarrow> int) \<Rightarrow> 'it Iterator \<Rightarrow> 'it SortedTreeIterator \<Rightarrow> slice option" where
  "SortedTree_value user_cmp I st =
     (if \<not> st_valid st then None else it_value (any_iterator (InternalKey_Compare user_cmp) I) (st_inner st))"

section \<open>The range scan\<close>

partial_function (option) db_scan_loop ::
  "(slice \<Rightarrow> slice \<Rightarrow> int) \<Rightarrow> 'it Iterator \<Rightarrow> 64 word \<Rightarrow> slice \<Rightarrow> int \<Rightarrow> 'it SortedTreeIterator \<Rightarrow>
    (slice \<times> slice) list \<Rightarrow> (slice \<times> slice) list option" where
  "db_scan_loop user_cmp I seq key2 select st tmp =
     (if \<not> SortedTree_Valid st then Some tmp
      else case SortedTree_key user_cmp I st of
        None \<Rightarrow> None
      | Some k \<Rightarrow>
          if key2 \<noteq> [] \<and> key2 < k then Some tmp
          else if 0 < select \<and> select \<le> int (length tmp) then Some tmp
          else case SortedTree_value user_cmp I st of
            None \<Rightarrow> None
          | Some v \<Rightarrow>
             (case SortedTree_Next user_cmp I seq st of
                None \<Rightarrow> None
              | Some st' \<Rightarrow> db_scan_loop user_cmp I seq key2 select st' (tmp @ [(k, v)])))"

definition WotDB_Scan ::
  "(slice \<Rightarrow> slice \<Rightarrow> int) \<Rightarrow> 'it Iterator \<Rightarrow> 'it list \<Rightarrow> nat \<Rightarrow> 64 word \<Rightarrow> slice \<Rightarrow> slice \<Rightarrow> int \<Rightarrow>
    (slice \<times> slice) list option" where
  "WotDB_Scan user_cmp I iter_vec non_page_num seq key key2 select =
     (case SeekBothEnds user_cmp I iter_vec non_page_num seq key new_SortedTreeIterator of
        None \<Rightarrow> None
      | Some st \<Rightarrow> db_scan_loop user_cmp I seq key2 select st [])"

section \<open>The versions a snapshot shows\<close>

abbreviation ukey :: "mem_write \<Rightarrow> slice" where
  "ukey w \<equiv> user_key (fst w)"

definition item_of :: "mem_write \<Rightarrow> slice \<times> slice" where
  "item_of w = (write_ikey w, snd w)"

definition hidden :: "slice option \<Rightarrow> slice \<Rightarrow> bool" where
  "hidden sk k = (case sk of None \<Rightarrow> False | Some b \<Rightarrow> k \<le> b)"

text \<open>The entries from the next one to be shown on.\<close>

fun ahead :: "64 word \<Rightarrow> slice option \<Rightarrow> mem_write list \<Rightarrow> mem_write list" where
  "ahead s sk [] = []"
| "ahead s sk (w # ws) =
     (if \<not> sequence_no (fst w) \<le> s then ahead s sk ws
      else if val_type (fst w) = kTypeDeletion then ahead s (Some (ukey w)) ws
      else if hidden sk (ukey w) then ahead s sk ws
      else w # ws)"

text \<open>All that is shown.\<close>

fun view :: "64 word \<Rightarrow> slice option \<Rightarrow> mem_write list \<Rightarrow> (slice \<times> slice) list" where
  "view s sk [] = []"
| "view s sk (w # ws) =
     (if \<not> sequence_no (fst w) \<le> s then view s sk ws
      else if val_type (fst w) = kTypeDeletion then view s (Some (ukey w)) ws
      else if hidden sk (ukey w) then view s sk ws
      else (ukey w, snd w) # view s (Some (ukey w)) ws)"

definition shown :: "64 word \<Rightarrow> mem_write list \<Rightarrow> (slice \<times> slice) list" where
  "shown s ws = (case ws of [] \<Rightarrow> [] | w # ws' \<Rightarrow> (ukey w, snd w) # view s (Some (ukey w)) ws')"

lemma view_ahead: "view s sk ws = shown s (ahead s sk ws)"
  by (induction ws arbitrary: sk) (simp_all add: shown_def)

lemma ahead_suffix: "\<exists>n. ahead s sk ws = drop n ws"
proof (induction ws arbitrary: sk)
  case (Cons w ws)
  have "\<exists>n. ahead s sk' ws = drop n (w # ws)" for sk' using Cons [of sk'] by (metis drop_Suc_Cons)
  moreover have "\<exists>n. w # ws = drop n (w # ws)" by (rule exI [of _ 0]) simp
  ultimately show ?case unfolding ahead.simps by simp
qed simp

text \<open>The order of the entries: by user key, newest version first.\<close>

definition version_less :: "mem_write \<Rightarrow> mem_write \<Rightarrow> bool" where
  "version_less v w \<longleftrightarrow> ukey v < ukey w \<or> ukey v = ukey w \<and> write_tag w < write_tag v"

lemma icmp_writes: "icmp (write_ikey v) (write_ikey w) < 0 \<longleftrightarrow> version_less v w"
  by (auto simp: version_less_def InternalKey_Compare_less Bytewise_Compare_def)

lemma newest_insert:
  "\<not> (ukey w = k \<and> sequence_no (fst w) \<le> s) \<Longrightarrow> newest (insert w W) k s r \<longleftrightarrow> newest W k s r"
  "ukey w = k \<Longrightarrow> sequence_no (fst w) \<le> s \<Longrightarrow> \<forall>v \<in> W. ukey v = k \<longrightarrow> sequence_no (fst v) < sequence_no (fst w) \<Longrightarrow>
    newest (insert w W) k s r \<longleftrightarrow> r = write_result w"
proof -
  show "newest (insert w W) k s r \<longleftrightarrow> newest W k s r" if "\<not> (ukey w = k \<and> sequence_no (fst w) \<le> s)"
  proof -
    have "visible (insert w W) k s = visible W k s" using that by (auto simp: visible_def)
    then show ?thesis by (simp add: newest_def)
  qed
  show "newest (insert w W) k s r \<longleftrightarrow> r = write_result w"
    if "ukey w = k" "sequence_no (fst w) \<le> s" "\<forall>v \<in> W. ukey v = k \<longrightarrow> sequence_no (fst v) < sequence_no (fst w)"
  proof -
    have V: "visible (insert w W) k s = insert w (visible W k s)" using that(1,2) by (auto simp: visible_def)
    have lt: "sequence_no (fst v) < sequence_no (fst w)" if "v \<in> visible W k s" for v
      using that \<open>\<forall>v \<in> W. ukey v = k \<longrightarrow> sequence_no (fst v) < sequence_no (fst w)\<close> by (simp add: visible_def)
    show ?thesis unfolding newest_def V by (auto simp: less_imp_le dest: lt leD)
  qed
qed

lemma newest_below: "\<forall>v \<in> W. k < ukey v \<Longrightarrow> \<not> newest W k s (Found x)"
  by (auto simp: newest_def visible_def)

lemma version_order:
  assumes "sorted_wrt version_less (w # ws)" "\<forall>v \<in> set (w # ws). write_ok v"
    "inj_on (\<lambda>v. (ukey v, sequence_no (fst v))) (set (w # ws))" "v \<in> set ws"
  shows "ukey w \<le> ukey v" "ukey v = ukey w \<Longrightarrow> sequence_no (fst v) < sequence_no (fst w)"
proof -
  have less: "version_less w v" using assms(1,4) by simp
  then show "ukey w \<le> ukey v" by (auto simp: version_less_def)
  assume k: "ukey v = ukey w"
  have "v \<noteq> w" using less by (auto simp: version_less_def)
  then have "sequence_no (fst v) \<noteq> sequence_no (fst w)"
    using assms(3,4) k unfolding inj_on_def by (metis list.set_intros(1,2))
  moreover have "sequence_no (fst v) \<le> sequence_no (fst w)"
    using tag_le_imp_seq_le [of v w] assms(2,4) less k by (simp add: version_less_def)
  ultimately show "sequence_no (fst v) < sequence_no (fst w)" by simp
qed

lemma view_newest:
  assumes "sorted_wrt version_less ws" "\<forall>w \<in> set ws. write_ok w" "inj_on (\<lambda>w. (ukey w, sequence_no (fst w))) (set ws)"
    "\<forall>b. sk = Some b \<longrightarrow> (\<forall>w \<in> set ws. b \<le> ukey w)"
  shows "(k, x) \<in> set (view s sk ws) \<longleftrightarrow> \<not> hidden sk k \<and> newest (set ws) k s (Found x)"
  using assms
proof (induction ws arbitrary: sk)
  case Nil
  show ?case by (auto simp: newest_def visible_def)
next
  case (Cons w ws)
  note O = version_order [OF Cons.prems(1-3)]
  have pre: "sorted_wrt version_less ws" "\<forall>w \<in> set ws. write_ok w" "inj_on (\<lambda>w. (ukey w, sequence_no (fst w))) (set ws)"
    using Cons.prems(1-3) by (simp_all add: inj_on_insert)
  have IH: "(k, x) \<in> set (view s sk ws) \<longleftrightarrow> \<not> hidden sk k \<and> newest (set ws) k s (Found x)"
    using Cons.IH [OF pre, of sk] Cons.prems(4) by simp
  have IHw: "(k, x) \<in> set (view s (Some (ukey w)) ws) \<longleftrightarrow> ukey w < k \<and> newest (set ws) k s (Found x)"
    using Cons.IH [OF pre, of "Some (ukey w)"] O(1) by (simp add: hidden_def not_le)
  have low: "\<not> newest (set ws) k s (Found x)" if "k < ukey w"
    by (rule newest_below) (use that O(1) in \<open>auto intro: less_le_trans\<close>)
  have hid: "\<not> hidden sk k" if "ukey w < k"
    using that Cons.prems(4) by (auto simp: hidden_def dest: le_less_trans split: option.splits)
  have bound: "hidden sk (ukey w) \<Longrightarrow> sk = Some (ukey w)"
    using Cons.prems(4) by (auto simp: hidden_def intro: order.antisym split: option.splits)
  show ?case
  proof (cases "sequence_no (fst w) \<le> s")
    case False
    then show ?thesis using IH newest_insert(1) [of w k s "set ws"] by simp
  next
    case vis: True
    have at: "newest (set (w # ws)) k s (Found x) \<longleftrightarrow> Found x = write_result w" if "k = ukey w"
      using newest_insert(2) [of w k s "set ws" "Found x"] that vis O(2) by simp
    have off: "newest (set (w # ws)) k s (Found x) \<longleftrightarrow> newest (set ws) k s (Found x)" if "k \<noteq> ukey w"
      using newest_insert(1) [of w k s "set ws" "Found x"] that by simp
    consider "k < ukey w" | "k = ukey w" | "ukey w < k" by (rule linorder_cases)
    then show ?thesis
    proof cases
      case 1
      then show ?thesis using vis IH IHw off low by auto
    next
      case 2
      then show ?thesis using vis IHw at IH by (cases "val_type (fst w)") (auto simp: write_result_def)
    next
      case 3
      then show ?thesis using vis IH IHw off hid bound by auto
    qed
  qed
qed

lemma view_sorted:
  assumes "sorted_wrt version_less ws" "\<forall>w \<in> set ws. write_ok w" "inj_on (\<lambda>w. (ukey w, sequence_no (fst w))) (set ws)"
  shows "sorted_wrt (<) (map fst (view s sk ws))"
  using assms
proof (induction ws arbitrary: sk)
  case (Cons w ws)
  note O = version_order [OF Cons.prems]
  have pre: "sorted_wrt version_less ws" "\<forall>w \<in> set ws. write_ok w" "inj_on (\<lambda>w. (ukey w, sequence_no (fst w))) (set ws)"
    using Cons.prems by (simp_all add: inj_on_insert)
  have "ukey w < fst e" if "e \<in> set (view s (Some (ukey w)) ws)" for e
    using view_newest [OF pre, of "Some (ukey w)" "fst e" "snd e" s] O(1) that by (simp add: hidden_def not_le)
  then show ?case using Cons.IH [OF pre] by simp
qed simp

text \<open>Entries without deletions, later writes or second versions, as the leaf pages hold them.\<close>

definition plain :: "64 word \<Rightarrow> mem_write set \<Rightarrow> bool" where
  "plain s W \<longleftrightarrow> inj_on ukey W \<and> (\<forall>w \<in> W. val_type (fst w) = kTypeValue \<and> sequence_no (fst w) \<le> s)"

lemma ahead_plain:
  assumes "sorted_wrt version_less ws" "plain s (set ws)" "n < length ws"
  shows "ahead s (Some (ukey (ws ! n))) (drop (Suc n) ws) = drop (Suc n) ws"
proof (cases "Suc n < length ws")
  case True
  let ?v = "ws ! Suc n"
  have dr: "drop (Suc n) ws = ?v # drop (Suc (Suc n)) ws" using True by (simp add: Cons_nth_drop_Suc)
  have less: "version_less (ws ! n) ?v" using assms(1) True by (simp add: sorted_wrt_iff_nth_less)
  then have "ws ! n \<noteq> ?v" by (auto simp: version_less_def)
  then have "ukey (ws ! n) \<noteq> ukey ?v" using assms(2,3) True unfolding plain_def inj_on_def by (metis nth_mem)
  then have "\<not> hidden (Some (ukey (ws ! n))) (ukey ?v)" using less by (auto simp: version_less_def hidden_def)
  moreover have "val_type (fst ?v) = kTypeValue" "sequence_no (fst ?v) \<le> s" using assms(2) True by (simp_all add: plain_def)
  ultimately show ?thesis unfolding dr by simp
qed simp

text \<open>What the scan returns of the entries shown: those up to the end key, and at most \<^verbatim>\<open>select\<close> in all.\<close>

definition scan_cut :: "slice \<Rightarrow> int \<Rightarrow> nat \<Rightarrow> (slice \<times> slice) list \<Rightarrow> (slice \<times> slice) list" where
  "scan_cut key2 select n ys = (let zs = takeWhile (\<lambda>e. key2 = [] \<or> fst e \<le> key2) ys in if 0 < select then take (nat select - n) zs else zs)"

lemma scan_cut_Cons:
  "scan_cut key2 select n (e # ys) =
     (if key2 \<noteq> [] \<and> key2 < fst e then [] else if 0 < select \<and> select \<le> int n then [] else e # scan_cut key2 select (Suc n) ys)"
  by (auto simp: scan_cut_def Let_def not_le take_Cons' split: nat.splits)

section \<open>Running the iterator\<close>

lemma preimage_list:
  assumes "set xs = f ` W" "inj_on f W"
  shows "\<exists>ws. map f ws = xs \<and> set ws = W"
proof (intro exI conjI)
  let ?ws = "map (the_inv_into W f) xs"
  show "map f ?ws = xs" unfolding map_map using assms f_the_inv_into_f [OF assms(2)] by (intro map_idI) simp
  show "set ?ws = W" using assms by (simp add: image_image the_inv_into_f_f)
qed

lemma takeWhile_filter:
  "sorted_wrt R xs \<Longrightarrow> (\<And>v w. R v w \<Longrightarrow> Q w \<Longrightarrow> Q v) \<Longrightarrow> takeWhile Q xs = filter Q xs"
proof (induction xs)
  case (Cons x xs)
  then have "filter Q xs = []" if "\<not> Q x" using that by (auto simp: filter_empty_conv)
  then show ?case using Cons by auto
qed simp

lemma dropWhile_filter:
  "sorted_wrt R xs \<Longrightarrow> (\<And>v w. R v w \<Longrightarrow> w \<in> set xs \<Longrightarrow> v \<in> set xs \<Longrightarrow> Q w \<Longrightarrow> Q v) \<Longrightarrow> dropWhile Q xs = filter (\<lambda>w. \<not> Q w) xs"
proof (induction xs)
  case (Cons x xs)
  have "dropWhile Q xs = filter (\<lambda>w. \<not> Q w) xs"
    using Cons.IH Cons.prems(1) Cons.prems(2) by (metis list.set_intros(2) sorted_wrt.simps(2))
  moreover have "filter (\<lambda>w. \<not> Q w) xs = xs" if "\<not> Q x"
    using that Cons.prems by (intro filter_True) auto
  ultimately show ?case by simp
qed simp

lemma ParseInternalKey_write:
  assumes "write_ok w"
  shows "ParseInternalKey (write_ikey w) = Some (fst w)" "ExtractUserKey (write_ikey w) = Inr (ukey w)"
proof -
  have s: "sequence_no (fst w) \<le> kMaxSequenceNumber" using assms by (simp add: write_ok_def)
  have "AppendInternalKey [] (fst w) = Inr (write_ikey w)"
    using PackSequenceAndType_ok [OF s, of "val_type (fst w)"]
    by (auto simp: AppendInternalKey_def write_ikey_def write_tag_def PackSequenceAndType_def split: if_splits)
  then show "ParseInternalKey (write_ikey w) = Some (fst w)" "ExtractUserKey (write_ikey w) = Inr (ukey w)"
    using Parse_AppendInternalKey [OF s] by auto
qed

text \<open>The effect of one round of the loop, on an entry that is a write.\<close>

lemma judge_entry_write:
  "judge_entry Bytewise_Compare s (Some (fst w)) (sk \<noteq> None) (case sk of None \<Rightarrow> junk | Some b \<Rightarrow> b) =
     (if \<not> sequence_no (fst w) \<le> s then (False, sk \<noteq> None, case sk of None \<Rightarrow> junk | Some b \<Rightarrow> b)
      else if val_type (fst w) = kTypeDeletion then (False, True, ukey w)
      else (\<not> hidden sk (ukey w), sk \<noteq> None, case sk of None \<Rightarrow> junk | Some b \<Rightarrow> b))"
  by (cases "val_type (fst w)"; cases sk) (auto simp: judge_entry_def SaveKey_def hidden_def Bytewise_Compare_def)

text \<open>The entries before the one a scan from \<open>low\<close> starts at.\<close>

definition before_start :: "slice \<Rightarrow> 64 word \<Rightarrow> mem_write \<Rightarrow> bool" where
  "before_start low s w \<longleftrightarrow> ukey w < low \<or> ukey w = low \<and> \<not> sequence_no (fst w) \<le> s"

lemma before_start_down:
  assumes "version_less v w" "before_start low s w" "write_ok v" "write_ok w"
  shows "before_start low s v"
  using assms tag_le_imp_seq_le [OF assms(4,3)]
  by (auto simp: before_start_def version_less_def dest: less_imp_le order.trans)

lemma seek_key:
  assumes "s \<le> kMaxSequenceNumber" "length low + 8 < 2 ^ 32"
  shows "\<exists>saved. AppendInternalKey [] \<lparr>user_key = low, sequence_no = s, val_type = kValueTypeForSeek\<rparr> = Inr saved \<and>
    ikey_ok saved \<and> (\<forall>w. write_ok w \<longrightarrow> (icmp (write_ikey w) saved < 0 \<longleftrightarrow> before_start low s w))"
proof -
  obtain tag where tag: "PackSequenceAndType s kTypeValue = Inr tag"
    using PackSequenceAndType_ok [OF assms(1), of kTypeValue] by blast
  have "icmp (write_ikey w) (PutFixed64 low tag) < 0 \<longleftrightarrow> before_start low s w" if "write_ok w" for w
    using tag_le_seq [OF that assms(1) tag]
    by (auto simp: InternalKey_Compare_less before_start_def Bytewise_Compare_def)
  then show ?thesis
    using tag assms(2) by (simp add: AppendInternalKey_def kValueTypeForSeek_def ikey_ok_def)
qed

lemma item_of_inj: "\<forall>w \<in> W. write_ok w \<Longrightarrow> inj_on item_of W"
proof (rule inj_onI)
  fix v w
  assume "\<forall>w \<in> W. write_ok w" "v \<in> W" "w \<in> W" "item_of v = item_of w"
  then have "fst v = fst w" "snd v = snd w"
    using ParseInternalKey_write(1) [of v] ParseInternalKey_write(1) [of w] by (auto simp: item_of_def)
  then show "v = w" by (rule prod_eqI)
qed

lemma newest_start:
  "low \<le> k \<and> newest W k s r \<longleftrightarrow> newest {w \<in> W. \<not> before_start low s w} k s r \<and> low \<le> k"
proof (cases "low \<le> k")
  case True
  then have "visible {w \<in> W. \<not> before_start low s w} k s = visible W k s" by (auto simp: visible_def before_start_def)
  then show ?thesis by (simp add: newest_def conj_commute)
qed simp

text \<open>An iterator over the internal entries of a set of writes.\<close>

locale write_iter = sorted_iter ikey_ok icmp I ok items pos
  for I :: "'it Iterator" and ok :: "'it \<Rightarrow> bool" and items :: "'it \<Rightarrow> (slice \<times> slice) list" and pos :: "'it \<Rightarrow> nat"
begin

abbreviation J :: "'it AnyIterator Iterator" where
  "J \<equiv> any_iterator icmp I"

lemmas J_laws = sorted_iter.valid_iff [OF any_sorted] sorted_iter.reads [OF any_sorted] sorted_iter.step [OF any_sorted]
  sorted_iter.seek [OF any_sorted] sorted_iter.ascends [OF any_sorted]

text \<open>The inner iterator stands at the entry \<open>n\<close> of the writes \<open>ws\<close>.\<close>

definition stands :: "mem_write list \<Rightarrow> nat \<Rightarrow> 'it AnyIterator \<Rightarrow> bool" where
  "stands ws n a \<longleftrightarrow> aok a \<and> aitems a = map item_of ws \<and> apos a = n \<and> n \<le> length ws \<and> (\<forall>w \<in> set ws. write_ok w)"

lemma stands_reads:
  assumes "stands ws n a"
  shows "it_Valid J a \<longleftrightarrow> n < length ws"
    "n < length ws \<Longrightarrow> it_key J a = Some (write_ikey (ws ! n)) \<and> it_value J a = Some (snd (ws ! n)) \<and>
      ParseKey J a = Some (Some (fst (ws ! n))) \<and> ExtractUserKey (write_ikey (ws ! n)) = Inr (ukey (ws ! n))"
    "n < length ws \<Longrightarrow> \<exists>a'. it_Next J a = Some a' \<and> stands ws (Suc n) a'"
  using assms J_laws(1) [of a] J_laws(2) [of a] J_laws(3) [of a] ParseInternalKey_write [of "ws ! n"]
  by (auto simp: stands_def item_of_def ParseKey_def)

lemma FindNextUserEntry_ok:
  assumes "stands ws n (st_inner st)" "n < length ws"
  shows "\<exists>inner m. FindNextUserEntry Bytewise_Compare I s (sk \<noteq> None) (case sk of None \<Rightarrow> junk | Some b \<Rightarrow> b) st =
      Some (st\<lparr>st_inner := inner, st_valid := (m < length ws), saved_key := []\<rparr>) \<and>
    stands ws m inner \<and> ahead s sk (drop n ws) = drop m ws"
  using assms
proof (induction "length ws - n" arbitrary: n st sk junk)
  case (Suc l)
  let ?skip = "case sk of None \<Rightarrow> junk | Some b \<Rightarrow> b" and ?w = "ws ! n"
  note R = stands_reads [OF Suc.prems(1)]
  obtain a' where a': "it_Next J (st_inner st) = Some a'" "stands ws (Suc n) a'" using R(3) Suc.prems(2) by blast
  have dr: "drop n ws = ?w # drop (Suc n) ws" using Suc.prems(2) by (simp add: Cons_nth_drop_Suc)
  define found where "found = (sequence_no (fst ?w) \<le> s \<and> val_type (fst ?w) \<noteq> kTypeDeletion \<and> \<not> hidden sk (ukey ?w))"
  define sk' where "sk' = (if sequence_no (fst ?w) \<le> s \<and> val_type (fst ?w) = kTypeDeletion then Some (ukey ?w) else sk)"
  have j: "judge_entry Bytewise_Compare s (Some (fst ?w)) (sk \<noteq> None) ?skip =
      (found, sk' \<noteq> None, case sk' of None \<Rightarrow> junk | Some b \<Rightarrow> b)"
    unfolding judge_entry_write found_def sk'_def by auto
  have ah: "ahead s sk (drop n ws) = (if found then drop n ws else ahead s sk' (drop (Suc n) ws))"
    unfolding dr ahead.simps found_def sk'_def by auto
  have F: "FindNextUserEntry Bytewise_Compare I s (sk \<noteq> None) ?skip st =
      (if found then Some (st\<lparr>st_valid := True, saved_key := []\<rparr>)
       else if it_Valid J a' then FindNextUserEntry Bytewise_Compare I s (sk' \<noteq> None) (case sk' of None \<Rightarrow> junk | Some b \<Rightarrow> b) (st\<lparr>st_inner := a'\<rparr>)
       else Some (st\<lparr>st_inner := a', saved_key := [], st_valid := False\<rparr>))"
    using R(1,2) Suc.prems(2) by (subst FindNextUserEntry.simps) (simp add: Let_def j a'(1) del: not_None_eq)
  show ?case
  proof (cases found)
    case True
    then show ?thesis unfolding F ah using Suc.prems by (intro exI [of _ "st_inner st"] exI [of _ n]) simp
  next
    case nf: False
    show ?thesis
    proof (cases "Suc n < length ws")
      case True
      then have "it_Valid J a'" using stands_reads(1) [OF a'(2)] by simp
      moreover have "stands ws (Suc n) (st_inner (st\<lparr>st_inner := a'\<rparr>))" using a'(2) by simp
      note Suc.hyps(1) [OF _ this True, of sk' junk]
      ultimately show ?thesis unfolding F ah using nf Suc.hyps(2) by simp
    next
      case False
      then have "\<not> it_Valid J a'" "Suc n = length ws" using stands_reads(1) [OF a'(2)] Suc.prems(2) by simp_all
      then show ?thesis unfolding F ah using nf a'(2) by (intro exI [of _ a'] exI [of _ "Suc n"]) simp
    qed
  qed
qed simp

definition at :: "mem_write list \<Rightarrow> 'it SortedTreeIterator \<Rightarrow> nat \<Rightarrow> bool" where
  "at ws st n \<longleftrightarrow> stands ws n (st_inner st) \<and> (st_valid st \<longleftrightarrow> n < length ws)"

lemma Next_ok:
  assumes st: "at ws st n" "n < length ws" and ws: "sorted_wrt version_less ws" "all_page st \<longrightarrow> plain s (set ws)"
  shows "\<exists>st' m. SortedTree_Next Bytewise_Compare I s st = Some st' \<and> at ws st' m \<and> all_page st' = all_page st \<and>
    drop m ws = ahead s (Some (ukey (ws ! n))) (drop (Suc n) ws)"
proof -
  have S: "stands ws n (st_inner st)" "st_valid st" using st by (simp_all add: at_def)
  note R = stands_reads [OF S(1)]
  obtain a' where a': "it_Next J (st_inner st) = Some a'" "stands ws (Suc n) a'" using R(3) st(2) by blast
  have v: "it_Valid J a' \<longleftrightarrow> Suc n < length ws" by (rule stands_reads(1) [OF a'(2)])
  consider (pages) "all_page st" | (last) "\<not> all_page st" "\<not> Suc n < length ws" | (more) "\<not> all_page st" "Suc n < length ws" by blast
  then show ?thesis
  proof cases
    case pages
    let ?st = "st\<lparr>st_inner := a', st_valid := Suc n < length ws\<rparr>"
    have "SortedTree_Next Bytewise_Compare I s st = Some ?st"
      using pages S(2) a'(1) v by (simp add: SortedTree_Next_def Let_def)
    then show ?thesis using a'(2) ahead_plain [OF ws(1) _ st(2)] ws(2) pages
      by (intro exI [of _ ?st] exI [of _ "Suc n"]) (simp add: at_def)
  next
    case last
    then show ?thesis using S(2) R(2) st(2) a' v
      by (intro exI [of _ "st\<lparr>st_inner := a', st_valid := False, saved_key := []\<rparr>"] exI [of _ "Suc n"])
        (simp add: SortedTree_Next_def Let_def at_def)
  next
    case more
    let ?k = "ukey (ws ! n)"
    let ?st = "st\<lparr>saved_key := ?k, st_inner := a'\<rparr>"
    have N: "SortedTree_Next Bytewise_Compare I s st = FindNextUserEntry Bytewise_Compare I s True ?k ?st"
      using more S(2) R(2) st(2) a'(1) v by (simp add: SortedTree_Next_def Let_def SaveKey_def)
    show ?thesis
      using FindNextUserEntry_ok [of ws "Suc n" ?st s "Some ?k"] a'(2) more(2) unfolding N by (auto simp: at_def)
  qed
qed

lemma db_scan_loop_ok:
  assumes "at ws st n" "sorted_wrt version_less ws" "all_page st \<longrightarrow> plain s (set ws)"
  shows "db_scan_loop Bytewise_Compare I s key2 select st tmp = Some (tmp @ scan_cut key2 select (length tmp) (shown s (drop n ws)))"
  using assms(1,3)
proof (induction "length (drop n ws)" arbitrary: n st tmp rule: less_induct)
  case less
  show ?case
  proof (cases "n < length ws")
    case False
    then have "db_scan_loop Bytewise_Compare I s key2 select st tmp = Some tmp"
      using less.prems(1) by (subst db_scan_loop.simps) (simp add: at_def SortedTree_Valid_def)
    then show ?thesis using False by (simp add: shown_def scan_cut_def)
  next
    case True
    let ?w = "ws ! n"
    have S: "stands ws n (st_inner st)" "st_valid st" using less.prems(1) True by (simp_all add: at_def)
    have kv: "SortedTree_key Bytewise_Compare I st = Some (ukey ?w)" "SortedTree_value Bytewise_Compare I st = Some (snd ?w)"
      using stands_reads(2) [OF S(1) True] S(2) by (simp_all add: SortedTree_key_def SortedTree_value_def)
    obtain st' m where st': "SortedTree_Next Bytewise_Compare I s st = Some st'" "at ws st' m" "all_page st' = all_page st"
      "drop m ws = ahead s (Some (ukey ?w)) (drop (Suc n) ws)"
      using Next_ok [OF less.prems(1) True assms(2) less.prems(2)] by blast
    have sh: "shown s (drop n ws) = (ukey ?w, snd ?w) # shown s (drop m ws)"
      using True by (simp add: shown_def Cons_nth_drop_Suc [symmetric] view_ahead st'(4))
    have "length (drop m ws) < length (drop n ws)"
      using ahead_suffix [of s "Some (ukey ?w)" "drop (Suc n) ws"] True unfolding st'(4) by auto
    from less.hyps [OF this st'(2)] st'(3) less.prems(2)
    have IH: "db_scan_loop Bytewise_Compare I s key2 select st' (tmp @ [(ukey ?w, snd ?w)]) =
      Some (tmp @ (ukey ?w, snd ?w) # scan_cut key2 select (Suc (length tmp)) (shown s (drop m ws)))" by simp
    show ?thesis unfolding sh scan_cut_Cons
      by (subst db_scan_loop.simps) (use S(2) kv st'(1) IH in \<open>auto simp: SortedTree_Valid_def\<close>)
  qed
qed

lemma Seek_ok:
  assumes its: "\<forall>it \<in> set its. ok it" "sorted_wrt apart (map items its)" and W: "(\<Union>it \<in> set its. set (items it)) = item_of ` W"
    "\<forall>w \<in> W. write_ok w" and low: "s \<le> kMaxSequenceNumber" "length low + 8 < 2 ^ 32"
  shows "\<exists>st ws n. SeekBothEnds Bytewise_Compare I its np s low new_SortedTreeIterator = Some st \<and> at ws st n \<and>
    (all_page st \<longleftrightarrow> np = 0) \<and> set ws = W \<and> sorted_wrt version_less ws \<and>
    drop n ws = ahead s None (filter (\<lambda>w. \<not> before_start low s w) ws)"
proof -
  obtain a where a: "NewMergingIterator I its = Some a" "aok a" "ascending (aitems a)" "set (aitems a) = item_of ` W"
    using NewMergingIterator_ok [OF its] W(1) by auto
  obtain ws where ws: "map item_of ws = aitems a" "set ws = W"
    using preimage_list [OF a(4) item_of_inj [OF W(2)]] by blast
  have sorted: "sorted_wrt version_less ws"
    using a(3) unfolding ws(1) [symmetric] by (simp add: sorted_wrt_map item_of_def icmp_writes)
  obtain saved where saved: "AppendInternalKey [] \<lparr>user_key = low, sequence_no = s, val_type = kValueTypeForSeek\<rparr> = Inr saved"
    "ikey_ok saved" "\<And>w. write_ok w \<Longrightarrow> icmp (write_ikey w) saved < 0 \<longleftrightarrow> before_start low s w"
    using seek_key [OF low] by blast
  let ?n = "length (takeWhile (\<lambda>w. icmp (write_ikey w) saved < 0) ws)"
  obtain a' where a': "it_Seek J saved a = Some a'" "aok a'" "aitems a' = aitems a" "apos a' = ?n"
    using J_laws(4) [OF a(2) saved(2)] by (auto simp: lower_def ws(1) [symmetric] takeWhile_map o_def item_of_def)
  have st: "stands ws ?n a'" using a' ws W(2) by (simp add: stands_def length_takeWhile_le)
  have dr: "drop ?n ws = filter (\<lambda>w. \<not> before_start low s w) ws"
  proof -
    have "drop ?n ws = dropWhile (before_start low s) ws"
      unfolding dropWhile_eq_drop [symmetric] using saved(3) ws(2) W(2) by (intro dropWhile_cong) auto
    then show ?thesis using dropWhile_filter [OF sorted] before_start_down W(2) ws(2) by metis
  qed
  define st1 :: "'it SortedTreeIterator" where "st1 = new_SortedTreeIterator\<lparr>st_inner := a, all_page := (np = 0)\<rparr>"
  define st2 where "st2 = st1\<lparr>saved_key := saved, st_inner := a', st_valid := True\<rparr>"
  have "InitInnerIter I its np new_SortedTreeIterator = Some st1"
    using a(1) by (auto simp: InitInnerIter_def st1_def new_SortedTreeIterator_def)
  then have B: "SeekBothEnds Bytewise_Compare I its np s low new_SortedTreeIterator =
      (if ?n < length ws then FindNextUserEntry Bytewise_Compare I s False saved st2 else Some (st2\<lparr>st_valid := False\<rparr>))"
    using saved(1) a'(1) stands_reads(1) [OF st] by (simp add: SeekBothEnds_def Let_def st2_def st1_def)
  show ?thesis
  proof (cases "?n < length ws")
    case True
    have pg: "all_page st2 \<longleftrightarrow> np = 0" by (simp add: st2_def st1_def)
    have "stands ws ?n (st_inner st2)" using st by (simp add: st2_def)
    from FindNextUserEntry_ok [OF this True, of s None saved]
    obtain inner m where F: "FindNextUserEntry Bytewise_Compare I s False saved st2 =
        Some (st2\<lparr>st_inner := inner, st_valid := (m < length ws), saved_key := []\<rparr>)"
      "stands ws m inner" "ahead s None (drop ?n ws) = drop m ws" by auto
    show ?thesis unfolding B using True ws(2) sorted F(2,3) dr
      by (intro exI [of _ "st2\<lparr>st_inner := inner, st_valid := (m < length ws), saved_key := []\<rparr>"] exI [of _ ws] exI [of _ m])
        (simp add: at_def F(1) pg)
  next
    case False
    then show ?thesis unfolding B using st ws(2) sorted dr
      by (intro exI [of _ "st2\<lparr>st_valid := False\<rparr>"] exI [of _ ws] exI [of _ ?n])
        (simp add: at_def st2_def st1_def new_SortedTreeIterator_def)
  qed
qed

theorem scan_ok:
  assumes its: "\<forall>it \<in> set its. ok it" "sorted_wrt apart (map items its)" and W: "(\<Union>it \<in> set its. set (items it)) = item_of ` W"
    "\<forall>w \<in> W. write_ok w" "inj_on (\<lambda>w. (ukey w, sequence_no (fst w))) W" "np = 0 \<longrightarrow> plain s W"
    and low: "s \<le> kMaxSequenceNumber" "length low + 8 < 2 ^ 32"
  shows "\<exists>ys. WotDB_Scan Bytewise_Compare I its np s low key2 select = Some (if 0 < select then take (nat select) ys else ys) \<and>
    sorted_wrt (<) (map fst ys) \<and>
    set ys = {(k, x). low \<le> k \<and> (key2 = [] \<or> k \<le> key2) \<and> newest W k s (Found x)}"
proof -
  obtain st ws n where st: "SeekBothEnds Bytewise_Compare I its np s low new_SortedTreeIterator = Some st" "at ws st n"
    "all_page st \<longleftrightarrow> np = 0" "set ws = W" "sorted_wrt version_less ws"
    "drop n ws = ahead s None (filter (\<lambda>w. \<not> before_start low s w) ws)"
    using Seek_ok [OF its W(1,2) low, of np] by (elim exE conjE) (rule that)
  let ?vs = "filter (\<lambda>w. \<not> before_start low s w) ws"
  have vs: "sorted_wrt version_less ?vs" "\<forall>w \<in> set ?vs. write_ok w" "inj_on (\<lambda>w. (ukey w, sequence_no (fst w))) (set ?vs)"
    using st(4,5) W(2,3) by (auto simp: sorted_wrt_filter inj_on_def)
  let ?ys = "view s None ?vs"
  let ?zs = "takeWhile (\<lambda>e. key2 = [] \<or> fst e \<le> key2) ?ys"
  have S: "WotDB_Scan Bytewise_Compare I its np s low key2 select = Some (scan_cut key2 select 0 ?ys)"
    using db_scan_loop_ok [OF st(2,5), of s key2 select "[]"] st(1,3,4,6) W(4) by (simp add: WotDB_Scan_def view_ahead)
  have "sorted_wrt (<) (map fst ?ys)" by (rule view_sorted [OF vs])
  moreover from this have "?zs = filter (\<lambda>e. key2 = [] \<or> fst e \<le> key2) ?ys"
    unfolding sorted_wrt_map by (rule takeWhile_filter) auto
  ultimately have "sorted_wrt (<) (map fst ?zs)" "set ?zs = {e \<in> set ?ys. key2 = [] \<or> fst e \<le> key2}"
    by (simp_all add: sorted_wrt_map sorted_wrt_filter)
  moreover have "(k, x) \<in> set ?ys \<longleftrightarrow> low \<le> k \<and> newest W k s (Found x)" for k x
  proof -
    have "set ?vs = {w \<in> W. \<not> before_start low s w}" using st(4) by simp
    moreover have "low \<le> k" if "newest {w \<in> W. \<not> before_start low s w} k s (Found x)"
      using that by (auto simp: newest_def visible_def before_start_def)
    ultimately show ?thesis
      using view_newest [OF vs, of None k x s] newest_start [of low k W s "Found x"] by (auto simp: hidden_def)
  qed
  ultimately show ?thesis unfolding S by (intro exI [of _ ?zs]) (auto simp: scan_cut_def Let_def)
qed

end

section \<open>Properties\<close>

interpretation mem_scan: write_iter "memtable_iterator Bytewise_Compare" mem_iter_ok mem_items mem_pos
  by (rule write_iter.intro [OF mem_sorted])

text \<open>C3. A range scan over memtables returns, in key order, exactly the user keys from the start key to the end key
  (an empty end key is no bound) whose newest write visible to the snapshot is a value, each with that value;
  with a positive limit it returns the first that many. The scan ends for all contents.\<close>

theorem scan_memtables:
  assumes "tables_rep ms Ws" "s \<le> kMaxSequenceNumber" "length low + 8 < 2 ^ 32"
  shows "\<exists>ys. WotDB_Scan Bytewise_Compare (memtable_iterator Bytewise_Compare) (map MemTable_NewIterator ms) (length ms) s low key2 select =
      Some (if 0 < select then take (nat select) ys else ys) \<and>
    sorted_wrt (<) (map fst ys) \<and>
    set ys = {(k, x). low \<le> k \<and> (key2 = [] \<or> k \<le> key2) \<and> newest (\<Union> (set Ws)) k s (Found x)}"
proof (rule mem_scan.scan_ok)
  note T = tables_iters [OF assms(1) refl]
  show "\<forall>it \<in> set (map MemTable_NewIterator ms). mem_iter_ok it" "sorted_wrt ikeys.apart (map mem_items (map MemTable_NewIterator ms))"
    "\<forall>w \<in> \<Union> (set Ws). write_ok w" "inj_on (\<lambda>w. (ukey w, sequence_no (fst w))) (\<Union> (set Ws))" by (rule T)+
  show "(\<Union>it \<in> set (map MemTable_NewIterator ms). set (mem_items it)) = item_of ` \<Union> (set Ws)"
    unfolding T(3) item_of_def ..
  show "length ms = 0 \<longrightarrow> plain s (\<Union> (set Ws))" using assms(1) by (auto simp: tables_rep_def plain_def)
qed (rule assms)+

theorem scan_memtables_witness:
  "\<exists>m1 m2. tables_rep [m1, m2] [demo_new, demo_old] \<and>
    WotDB_Scan Bytewise_Compare (memtable_iterator Bytewise_Compare) (map MemTable_NewIterator [m1, m2]) 2 6 [100] [] 0 =
      Some [([109], [9])]"
proof -
  obtain m1 m2 where t: "tables_rep [m1, m2] [demo_new, demo_old]" using demo_tables by blast
  have S: "(6 :: 64 word) \<le> kMaxSequenceNumber" by (simp add: kMaxSequenceNumber_def)
  have L: "length ([100] :: slice) + 8 < 2 ^ 32" by simp
  obtain ys where ys: "WotDB_Scan Bytewise_Compare (memtable_iterator Bytewise_Compare) (map MemTable_NewIterator [m1, m2]) 2 6 [100] [] 0 = Some ys"
    "sorted_wrt (<) (map fst ys)" "set ys = {(k, x). [100] \<le> k \<and> newest (\<Union> (set [demo_new, demo_old])) k 6 (Found x)}"
    using scan_memtables [OF t S L, of "[]" 0] by (auto simp: numeral_2_eq_2)
  have N: "newest (demo_new \<union> demo_old) k 6 (Found x) \<longleftrightarrow> k = [109] \<and> x = [9]" for k x
  proof -
    let ?a = "(\<lparr>user_key = [107], sequence_no = 5, val_type = kTypeDeletion\<rparr>, []) :: mem_write"
    let ?b = "(\<lparr>user_key = [109], sequence_no = 6, val_type = kTypeValue\<rparr>, [9]) :: mem_write"
    let ?c = "(\<lparr>user_key = [107], sequence_no = 3, val_type = kTypeValue\<rparr>, [7, 8]) :: mem_write"
    have U: "demo_new \<union> demo_old = insert ?a (insert ?c {?b})" by (auto simp: demo_new_def demo_old_def)
    consider "k = [107]" | "k = [109]" | "k \<noteq> [107]" "k \<noteq> [109]" by blast
    then show ?thesis
    proof cases
      case 1
      have "newest (insert ?a (insert ?c {?b})) [107] 6 (Found x) \<longleftrightarrow> Found x = write_result ?a"
        by (rule newest_insert(2)) auto
      then show ?thesis using 1 unfolding U by (simp add: write_result_def)
    next
      case 2
      have "newest (insert ?b {}) [109] 6 (Found x) \<longleftrightarrow> Found x = write_result ?b" by (rule newest_insert(2)) auto
      then show ?thesis using 2 unfolding U by (simp add: newest_insert(1) write_result_def)
    next
      case 3
      then show ?thesis unfolding U by (simp add: newest_insert(1)) (simp add: newest_def visible_def)
    qed
  qed
  have "set ys = {([109], [9])}" using ys(3) by (auto simp: N)
  then have "ys = [([109], [9])]" using ys(2) by (cases ys; cases "tl ys") auto
  then show ?thesis using t ys(1) by auto
qed

end
