(* ===== verification/Block.thy ===== *)
theory Block
  imports MergeIter Coding Status
begin

text \<open>
  Table blocks: the builder of \<^verbatim>\<open>table/block_builder.cc\<close> with its prefix compression and restart points, the
  block of \<^verbatim>\<open>table/block.cc\<close> and its iterator. A block is smaller than \<^verbatim>\<open>2^32\<close> bytes, so the offsets the code
  keeps in \<^verbatim>\<open>uint32_t\<close> are natural numbers here; the lengths read from an entry stay 32-bit words. A pointer
  into the block is an offset, the value slice an offset and a size. \<^const>\<open>None\<close> is a failed assertion.
\<close>

section \<open>The builder\<close>

record block_builder =
  bb_buffer :: slice
  bb_restarts :: "32 word list"
  bb_counter :: nat
  bb_finished :: bool
  bb_last_key :: slice

definition new_BlockBuilder :: "nat \<Rightarrow> block_builder option" where
  "new_BlockBuilder block_restart_interval =
     (if 1 \<le> block_restart_interval
      then Some \<lparr>bb_buffer = [], bb_restarts = [0], bb_counter = 0, bb_finished = False, bb_last_key = []\<rparr> else None)"

definition BlockBuilder_Reset :: "block_builder \<Rightarrow> block_builder" where
  "BlockBuilder_Reset b = \<lparr>bb_buffer = [], bb_restarts = [0], bb_counter = 0, bb_finished = False, bb_last_key = []\<rparr>"

definition CurrentSizeEstimate :: "block_builder \<Rightarrow> nat" where
  "CurrentSizeEstimate b = length (bb_buffer b) + length (bb_restarts b) * 4 + 4"

definition BlockBuilder_Finish :: "block_builder \<Rightarrow> block_builder" where
  "BlockBuilder_Finish b =
     b\<lparr>bb_buffer := PutFixed32 (fold (\<lambda>r buf. PutFixed32 buf r) (bb_restarts b) (bb_buffer b)) (of_nat (length (bb_restarts b))),
       bb_finished := True\<rparr>"

definition BlockBuilder_Add :: "nat \<Rightarrow> slice \<Rightarrow> slice \<Rightarrow> block_builder \<Rightarrow> block_builder option" where
  "BlockBuilder_Add block_restart_interval key value b =
     (if bb_finished b then None
      else let (shared, restarts, counter) =
                 (if bb_counter b < block_restart_interval then (diff_index (bb_last_key b) key, bb_restarts b, bb_counter b)
                  else (0, bb_restarts b @ [of_nat (length (bb_buffer b))], 0));
               non_shared = length key - shared;
               buf = PutVarint32 (PutVarint32 (PutVarint32 (bb_buffer b) (of_nat shared)) (of_nat non_shared)) (of_nat (length value));
               last_key = take shared (bb_last_key b) @ take non_shared (drop shared key)
           in if last_key \<noteq> key then None
              else Some \<lparr>bb_buffer = buf @ take non_shared (drop shared key) @ value, bb_restarts = restarts,
                         bb_counter = counter + 1, bb_finished = False, bb_last_key = last_key\<rparr>)"

section \<open>The block\<close>

record block =
  blk_data :: slice
  blk_size :: nat
  blk_restart_offset :: nat

definition NumRestarts :: "slice \<Rightarrow> nat \<Rightarrow> nat" where
  "NumRestarts data sz = unat (DecodeFixed32 (drop (sz - 4) data))"

text \<open>The restart offset of a block marked bad is never read.\<close>

definition new_Block :: "slice \<Rightarrow> block" where
  "new_Block contents =
     (let n = length contents in
      if n < 4 then \<lparr>blk_data = contents, blk_size = 0, blk_restart_offset = 0\<rparr>
      else if NumRestarts contents n > (n - 4) div 4 then \<lparr>blk_data = contents, blk_size = 0, blk_restart_offset = 0\<rparr>
      else \<lparr>blk_data = contents, blk_size = n, blk_restart_offset = n - (1 + NumRestarts contents n) * 4\<rparr>)"

definition DecodeEntry :: "slice \<Rightarrow> (32 word \<times> 32 word \<times> 32 word \<times> slice) option" where
  "DecodeEntry p =
     (if length p < 3 then None
      else let s = ucast (p ! 0); n = ucast (p ! 1); v = ucast (p ! 2);
               decoded =
                 (if (s OR n OR v :: 32 word) < 128 then Some (s, n, v, drop 3 p)
                  else case GetVarint32Ptr p of
                    None \<Rightarrow> None
                  | Some (s', p1) \<Rightarrow>
                     (case GetVarint32Ptr p1 of
                        None \<Rightarrow> None
                      | Some (n', p2) \<Rightarrow>
                         (case GetVarint32Ptr p2 of
                            None \<Rightarrow> None
                          | Some (v', p3) \<Rightarrow> Some (s', n', v', p3))))
           in case decoded of
                None \<Rightarrow> None
              | Some (shared, non_shared, value_length, r) \<Rightarrow>
                  if (of_nat (length r) :: 32 word) < non_shared + value_length then None
                  else Some (shared, non_shared, value_length, r))"

section \<open>The iterator of a block\<close>

record block_iter =
  bi_data :: slice
  bi_restarts :: nat
  bi_num_restarts :: nat
  bi_current :: nat
  bi_restart_index :: nat
  bi_key :: slice
  bi_value :: "nat \<times> nat"
  bi_status :: Status

definition new_Block_Iter :: "slice \<Rightarrow> nat \<Rightarrow> nat \<Rightarrow> block_iter option" where
  "new_Block_Iter data restarts num_restarts =
     (if 0 < num_restarts
      then Some \<lparr>bi_data = data, bi_restarts = restarts, bi_num_restarts = num_restarts, bi_current = restarts,
                 bi_restart_index = num_restarts, bi_key = [], bi_value = (0, 0), bi_status = StatusOK\<rparr>
      else None)"

definition NextEntryOffset :: "block_iter \<Rightarrow> nat" where
  "NextEntryOffset it = fst (bi_value it) + snd (bi_value it)"

definition GetRestartPoint :: "block_iter \<Rightarrow> nat \<Rightarrow> nat option" where
  "GetRestartPoint it index =
     (if index < bi_num_restarts it
      then Some (unat (DecodeFixed32 (drop (bi_restarts it + index * 4) (bi_data it)))) else None)"

definition SeekToRestartPoint :: "nat \<Rightarrow> block_iter \<Rightarrow> block_iter option" where
  "SeekToRestartPoint index it =
     map_option (\<lambda>offset. it\<lparr>bi_key := [], bi_restart_index := index, bi_value := (offset, 0)\<rparr>) (GetRestartPoint it index)"

definition bi_Valid :: "block_iter \<Rightarrow> bool" where
  "bi_Valid it = (bi_current it < bi_restarts it)"

definition CorruptionError :: "block_iter \<Rightarrow> block_iter" where
  "CorruptionError it = it\<lparr>bi_current := bi_restarts it, bi_restart_index := bi_num_restarts it,
     bi_status := Corruption ''bad entry in block'', bi_key := [], bi_value := (0, 0)\<rparr>"

text \<open>The bytes from an offset up to the restart array.\<close>

definition region :: "block_iter \<Rightarrow> nat \<Rightarrow> slice" where
  "region it p = drop p (take (bi_restarts it) (bi_data it))"

function advance_restart :: "block_iter \<Rightarrow> block_iter option" where
  "advance_restart it =
     (if bi_restart_index it + 1 < bi_num_restarts it then
        case GetRestartPoint it (bi_restart_index it + 1) of
          None \<Rightarrow> None
        | Some r \<Rightarrow> if r < bi_current it then advance_restart (it\<lparr>bi_restart_index := bi_restart_index it + 1\<rparr>) else Some it
      else Some it)"
  by pat_completeness auto
termination by (relation "measure (\<lambda>it. bi_num_restarts it - bi_restart_index it)") auto

declare advance_restart.simps [simp del]

definition ParseNextKey :: "block_iter \<Rightarrow> (bool \<times> block_iter) option" where
  "ParseNextKey it0 =
     (let it = it0\<lparr>bi_current := NextEntryOffset it0\<rparr> in
      if bi_current it \<ge> bi_restarts it then
        Some (False, it\<lparr>bi_current := bi_restarts it, bi_restart_index := bi_num_restarts it\<rparr>)
      else case DecodeEntry (region it (bi_current it)) of
        None \<Rightarrow> Some (False, CorruptionError it)
      | Some (shared, non_shared, value_length, r) \<Rightarrow>
          if length (bi_key it) < unat shared then Some (False, CorruptionError it)
          else let p = bi_restarts it - length r in
            map_option (Pair True) (advance_restart
              (it\<lparr>bi_key := take (unat shared) (bi_key it) @ take (unat non_shared) r,
                 bi_value := (p + unat non_shared, unat value_length)\<rparr>)))"

definition bi_keyv :: "block_iter \<Rightarrow> slice option" where
  "bi_keyv it = (if bi_Valid it then Some (bi_key it) else None)"

definition bi_valuev :: "block_iter \<Rightarrow> slice option" where
  "bi_valuev it = (if bi_Valid it then Some (take (snd (bi_value it)) (drop (fst (bi_value it)) (bi_data it))) else None)"

definition bi_Next :: "block_iter \<Rightarrow> block_iter option" where
  "bi_Next it = (if bi_Valid it then map_option snd (ParseNextKey it) else None)"

text \<open>The loops that parse on until the end of the current entry reaches a bound.\<close>

partial_function (option) parse_until :: "nat \<Rightarrow> block_iter \<Rightarrow> block_iter option" where
  "parse_until bound it =
     (case ParseNextKey it of
        None \<Rightarrow> None
      | Some (b, it') \<Rightarrow> if b \<and> NextEntryOffset it' < bound then parse_until bound it' else Some it')"

text \<open>The restart point before an offset, if there is one.\<close>

fun prev_restart :: "block_iter \<Rightarrow> nat \<Rightarrow> nat \<Rightarrow> nat option option" where
  "prev_restart it original 0 =
     (case GetRestartPoint it 0 of None \<Rightarrow> None | Some r \<Rightarrow> if r \<ge> original then Some None else Some (Some 0))"
| "prev_restart it original (Suc i) =
     (case GetRestartPoint it (Suc i) of
        None \<Rightarrow> None | Some r \<Rightarrow> if r \<ge> original then prev_restart it original i else Some (Some (Suc i)))"

definition bi_Prev :: "block_iter \<Rightarrow> block_iter option" where
  "bi_Prev it =
     (if \<not> bi_Valid it then None
      else let original = bi_current it in
        case prev_restart it original (bi_restart_index it) of
          None \<Rightarrow> None
        | Some None \<Rightarrow> Some (it\<lparr>bi_current := bi_restarts it, bi_restart_index := bi_num_restarts it\<rparr>)
        | Some (Some i) \<Rightarrow>
           (case SeekToRestartPoint i it of None \<Rightarrow> None | Some it' \<Rightarrow> parse_until original it'))"

text \<open>The binary search over the restart points; \<^term>\<open>Some None\<close> is a corrupt entry.\<close>

function seek_restart :: "(slice \<Rightarrow> slice \<Rightarrow> int) \<Rightarrow> block_iter \<Rightarrow> slice \<Rightarrow> nat \<Rightarrow> nat \<Rightarrow> nat option option" where
  "seek_restart cmp it target left right =
     (if left < right then
        let mid = (left + right + 1) div 2 in
        case GetRestartPoint it mid of
          None \<Rightarrow> None
        | Some region_offset \<Rightarrow>
           (case DecodeEntry (region it region_offset) of
              None \<Rightarrow> Some None
            | Some (shared, non_shared, value_length, r) \<Rightarrow>
                if shared \<noteq> 0 then Some None
                else if cmp (take (unat non_shared) r) target < 0 then seek_restart cmp it target mid right
                else seek_restart cmp it target left (mid - 1))
      else Some (Some left))"
  by pat_completeness auto
termination by (relation "measure (\<lambda>(cmp, it, target, left, right). right - left)") auto

declare seek_restart.simps [simp del]

partial_function (option) seek_linear :: "(slice \<Rightarrow> slice \<Rightarrow> int) \<Rightarrow> slice \<Rightarrow> block_iter \<Rightarrow> block_iter option" where
  "seek_linear cmp target it =
     (case ParseNextKey it of
        None \<Rightarrow> None
      | Some (b, it') \<Rightarrow> if \<not> b then Some it' else if cmp (bi_key it') target \<ge> 0 then Some it' else seek_linear cmp target it')"

definition bi_Seek :: "(slice \<Rightarrow> slice \<Rightarrow> int) \<Rightarrow> slice \<Rightarrow> block_iter \<Rightarrow> block_iter option" where
  "bi_Seek cmp target it =
     (let c = (if bi_Valid it then cmp (bi_key it) target else 0);
          left = (if bi_Valid it \<and> c < 0 then bi_restart_index it else 0);
          right = (if bi_Valid it \<and> c > 0 then bi_restart_index it else bi_num_restarts it - 1)
      in if bi_Valid it \<and> c = 0 then Some it
         else case seek_restart cmp it target left right of
           None \<Rightarrow> None
         | Some None \<Rightarrow> Some (CorruptionError it)
         | Some (Some left') \<Rightarrow>
             if \<not> (c = 0 \<or> bi_Valid it) then None
             else if left' = bi_restart_index it \<and> c < 0 then seek_linear cmp target it
             else case SeekToRestartPoint left' it of None \<Rightarrow> None | Some it' \<Rightarrow> seek_linear cmp target it')"

definition bi_SeekToFirst :: "block_iter \<Rightarrow> block_iter option" where
  "bi_SeekToFirst it =
     (case SeekToRestartPoint 0 it of None \<Rightarrow> None | Some it' \<Rightarrow> map_option snd (ParseNextKey it'))"

definition bi_SeekToLast :: "block_iter \<Rightarrow> block_iter option" where
  "bi_SeekToLast it =
     (case SeekToRestartPoint (bi_num_restarts it - 1) it of
        None \<Rightarrow> None | Some it' \<Rightarrow> parse_until (bi_restarts it') it')"

definition block_iterator :: "(slice \<Rightarrow> slice \<Rightarrow> int) \<Rightarrow> block_iter Iterator" where
  "block_iterator cmp = \<lparr>it_Valid = bi_Valid, it_SeekToFirst = bi_SeekToFirst, it_SeekToLast = bi_SeekToLast,
     it_Seek = bi_Seek cmp, it_Next = bi_Next, it_Prev = bi_Prev, it_key = bi_keyv, it_value = bi_valuev\<rparr>"

text \<open>\<^verbatim>\<open>Block::NewIterator\<close>: an iterator that reports bad contents, an empty one, or one over the entries.\<close>

datatype BlockIterator = BlockError Status | BlockEmpty | BlockIter block_iter

definition Block_NewIterator :: "block \<Rightarrow> BlockIterator option" where
  "Block_NewIterator blk =
     (if blk_size blk < 4 then Some (BlockError (Corruption ''bad block contents''))
      else let num_restarts = NumRestarts (blk_data blk) (blk_size blk) in
        if num_restarts = 0 then Some BlockEmpty
        else map_option BlockIter (new_Block_Iter (blk_data blk) (blk_restart_offset blk) num_restarts))"

end
