(* ===== verification/BlockCorrect.thy ===== *)
theory BlockCorrect
  imports Block DbFormat
begin

text \<open>
  Correctness of table blocks. The bytes of a block are described by the list of its entries with the
  shared prefix length chosen for each and by the indices of the restart points; the builder keeps this
  description, and the iterator of a block that has it is a cursor on the entries.
\<close>

section \<open>The layout\<close>

type_synonym entry = "nat \<times> slice \<times> slice"

definition chunk :: "entry \<Rightarrow> slice" where
  "chunk e = (case e of (sh, k, v) \<Rightarrow>
     EncodeVarint32 (of_nat sh) @ EncodeVarint32 (of_nat (length k - sh)) @ EncodeVarint32 (of_nat (length v)) @ drop sh k @ v)"

abbreviation ekey :: "entry \<Rightarrow> slice" where "ekey e \<equiv> fst (snd e)"

abbreviation evalue :: "entry \<Rightarrow> slice" where "evalue e \<equiv> snd (snd e)"

definition off :: "entry list \<Rightarrow> nat \<Rightarrow> nat" where
  "off ts i = length (concat (map chunk (take i ts)))"

definition prev_key :: "entry list \<Rightarrow> nat \<Rightarrow> slice" where
  "prev_key ts i = (if i = 0 then [] else ekey (ts ! (i - 1)))"

definition chained :: "entry list \<Rightarrow> bool" where
  "chained ts \<longleftrightarrow> (\<forall>i < length ts. fst (ts ! i) \<le> length (ekey (ts ! i)) \<and> fst (ts ! i) \<le> length (prev_key ts i) \<and>
     take (fst (ts ! i)) (ekey (ts ! i)) = take (fst (ts ! i)) (prev_key ts i))"

definition restarts_ok :: "entry list \<Rightarrow> nat list \<Rightarrow> bool" where
  "restarts_ok ts rs \<longleftrightarrow> rs \<noteq> [] \<and> hd rs = 0 \<and> sorted_wrt (<) rs \<and> (\<forall>r \<in> set rs. r = 0 \<or> r < length ts) \<and>
     (\<forall>r \<in> set rs. r < length ts \<longrightarrow> fst (ts ! r) = 0)"

definition block_bytes :: "entry list \<Rightarrow> nat list \<Rightarrow> slice" where
  "block_bytes ts rs = concat (map chunk ts) @ concat (map EncodeFixed32 (map (\<lambda>r. of_nat (off ts r)) rs)) @
     EncodeFixed32 (of_nat (length rs))"

definition laid_out :: "entry list \<Rightarrow> nat list \<Rightarrow> bool" where
  "laid_out ts rs \<longleftrightarrow> chained ts \<and> restarts_ok ts rs \<and> length (block_bytes ts rs) < 2 ^ 32"

lemma chunk_pos: "0 < length (chunk e)"
proof -
  have "EncodeVarint32 x \<noteq> []" for x by (simp add: EncodeVarint32_def Let_def)
  then show ?thesis by (cases e) (simp add: chunk_def)
qed

lemma off_simps [simp]: "off ts 0 = 0" "i < length ts \<Longrightarrow> off ts (Suc i) = off ts i + length (chunk (ts ! i))"
  by (simp_all add: off_def take_Suc_conv_app_nth)

lemma off_mono: "i < j \<Longrightarrow> j \<le> length ts \<Longrightarrow> off ts i < off ts j"
proof (induction j)
  case (Suc j)
  then show ?case using chunk_pos [of "ts ! j"] by (cases "i = j") auto
qed simp

lemma off_less_iff: "i \<le> length ts \<Longrightarrow> j \<le> length ts \<Longrightarrow> off ts i < off ts j \<longleftrightarrow> i < j"
  using off_mono [of i j ts] off_mono [of j i ts] by (cases i j rule: linorder_cases) auto

lemma off_inj: "i \<le> length ts \<Longrightarrow> j \<le> length ts \<Longrightarrow> off ts i = off ts j \<longleftrightarrow> i = j"
  using off_mono [of i j ts] off_mono [of j i ts] by (cases i j rule: linorder_cases) auto

lemma off_end: "off ts (length ts) = length (concat (map chunk ts))"
  by (simp add: off_def)

lemma length_block_bytes: "length (block_bytes ts rs) = off ts (length ts) + 4 * length rs + 4"
  using length_Encodes [of "map (\<lambda>r. of_nat (off ts r)) rs"] by (simp add: block_bytes_def off_end)

lemma laid_outD:
  assumes "laid_out ts rs"
  shows "chained ts" "restarts_ok ts rs" "off ts (length ts) + 4 * length rs + 4 < 2 ^ 32" "0 < length rs" "rs ! 0 = 0"
    "\<And>j. j < length rs \<Longrightarrow> rs ! j \<le> length ts" "\<And>j. j < length rs \<Longrightarrow> rs ! j < length ts \<Longrightarrow> fst (ts ! (rs ! j)) = 0"
    "\<And>i j. i < j \<Longrightarrow> j < length rs \<Longrightarrow> rs ! i < rs ! j" "\<And>j. j < length rs \<Longrightarrow> ts \<noteq> [] \<Longrightarrow> rs ! j < length ts"
proof -
  show "chained ts" "restarts_ok ts rs" "off ts (length ts) + 4 * length rs + 4 < 2 ^ 32"
    using assms length_block_bytes [of ts rs] by (simp_all add: laid_out_def)
  then have R: "rs \<noteq> []" "hd rs = 0" "sorted_wrt (<) rs" "\<forall>r \<in> set rs. r = 0 \<or> r < length ts"
    "\<forall>r \<in> set rs. r < length ts \<longrightarrow> fst (ts ! r) = 0" by (simp_all add: restarts_ok_def)
  show "0 < length rs" "rs ! 0 = 0" using R(1,2) by (simp_all add: hd_conv_nth)
  show "rs ! j \<le> length ts" if "j < length rs" for j using R(4) nth_mem [OF that] by auto
  show "fst (ts ! (rs ! j)) = 0" if "j < length rs" "rs ! j < length ts" for j using R(5) nth_mem [OF that(1)] that(2) by blast
  show "rs ! i < rs ! j" if "i < j" "j < length rs" for i j using R(3) that by (simp add: sorted_wrt_nth_less)
  show "rs ! j < length ts" if "j < length rs" "ts \<noteq> []" for j
  proof -
    have "rs ! j = 0 \<or> rs ! j < length ts" using R(4) nth_mem [OF that(1)] by blast
    then show ?thesis using that(2) by auto
  qed
qed

section \<open>Reading an entry\<close>

lemma GetVarint32Ptr_one:
  assumes "\<not> bit (ucast b :: 32 word) 7"
  shows "GetVarint32Ptr (b # q) = Some (ucast b, q)"
proof -
  have "(ucast b :: 32 word) AND 128 = 0"
  proof (rule bit_word_eqI)
    fix n show "bit ((ucast b :: 32 word) AND 128) n \<longleftrightarrow> bit (0 :: 32 word) n"
      using assms bit_128 [where 'a = 32, of n] by (auto simp: bit_and_iff)
  qed
  then show ?thesis by (simp add: GetVarint32Ptr_def)
qed

lemma GetVarint32Ptr_Encode: "GetVarint32Ptr (EncodeVarint32 v @ rest) = Some (v, rest)"
  using GetVarint32_PutVarint32 [of v rest] by (simp add: GetVarint32_def)

lemma Encode_one:
  assumes "EncodeVarint32 v @ rest = b # q" "\<not> bit (ucast b :: 32 word) 7"
  shows "v = ucast b" "rest = q"
  using GetVarint32Ptr_Encode [of v rest] GetVarint32Ptr_one [OF assms(2), of q] assms(1) by simp_all

lemma EncodeVarint32_ne [simp]: "EncodeVarint32 v \<noteq> []"
  by (simp add: EncodeVarint32_def Let_def)

lemma DecodeEntry_Encode:
  assumes fit: "unat n + unat v \<le> length r" "length r < 2 ^ 32"
  shows "DecodeEntry (EncodeVarint32 s @ EncodeVarint32 n @ EncodeVarint32 v @ r) = Some (s, n, v, r)"
proof -
  let ?p = "EncodeVarint32 s @ EncodeVarint32 n @ EncodeVarint32 v @ r"
  have "1 \<le> length (EncodeVarint32 s)" "1 \<le> length (EncodeVarint32 n)" "1 \<le> length (EncodeVarint32 v)" by (simp_all add: Suc_leI)
  then have len: "3 \<le> length ?p" by simp
  then obtain b0 b1 b2 q where p: "?p = b0 # b1 # b2 # q" by (metis Suc_le_length_iff numeral_3_eq_3)
  have big: "\<not> (of_nat (length r) :: 32 word) < n + v"
  proof -
    have "unat (n + v) = unat n + unat v" using fit by (simp add: unat_plus_simple [symmetric] word_le_nat_alt unat_word_ariths)
    then show ?thesis using fit by (simp add: word_less_nat_alt unat_of_nat_32)
  qed
  have slow: "GetVarint32Ptr ?p = Some (s, EncodeVarint32 n @ EncodeVarint32 v @ r)"
    "GetVarint32Ptr (EncodeVarint32 n @ EncodeVarint32 v @ r) = Some (n, EncodeVarint32 v @ r)"
    "GetVarint32Ptr (EncodeVarint32 v @ r) = Some (v, r)" by (rule GetVarint32Ptr_Encode)+
  show ?thesis
  proof (cases "(ucast b0 OR ucast b1 OR ucast b2 :: 32 word) < 128")
    case True
    then have "\<not> bit (ucast b0 OR ucast b1 OR ucast b2 :: 32 word) 7"
      using bit_less_exp [of "ucast b0 OR ucast b1 OR ucast b2 :: 32 word" 7 7] by auto
    then have nb: "\<not> bit (ucast b0 :: 32 word) 7" "\<not> bit (ucast b1 :: 32 word) 7" "\<not> bit (ucast b2 :: 32 word) 7"
      by (simp_all add: bit_or_iff)
    note e0 = Encode_one [OF p nb(1)]
    note e1 = Encode_one [OF e0(2) nb(2)]
    note e2 = Encode_one [OF e1(2) nb(3)]
    show ?thesis unfolding p DecodeEntry_def using True e0(1) e1(1) e2 big by (simp add: Let_def)
  next
    case False
    then show ?thesis unfolding DecodeEntry_def using len big slow by (simp add: p [symmetric] Let_def) (simp add: p)
  qed
qed

section \<open>The iterator on a block\<close>

definition over :: "entry list \<Rightarrow> nat list \<Rightarrow> block_iter \<Rightarrow> bool" where
  "over ts rs it \<longleftrightarrow> laid_out ts rs \<and> bi_data it = block_bytes ts rs \<and> bi_restarts it = off ts (length ts) \<and>
     bi_num_restarts it = length rs"

lemma overD:
  assumes "over ts rs it"
  shows "laid_out ts rs" "bi_data it = block_bytes ts rs" "bi_restarts it = off ts (length ts)" "bi_num_restarts it = length rs"
  using assms by (simp_all add: over_def)

lemma off_bound: "laid_out ts rs \<Longrightarrow> i \<le> length ts \<Longrightarrow> off ts i \<le> off ts (length ts) \<and> off ts i < 2 ^ 32"
  using off_mono [of i "length ts" ts] laid_outD(3) [of ts rs] by (cases "i = length ts") auto

lemma GetRestartPoint_over:
  assumes "over ts rs it" "j < length rs"
  shows "GetRestartPoint it j = Some (off ts (rs ! j))"
proof -
  note O = overD [OF assms(1)] and L = laid_outD [OF overD(1) [OF assms(1)]]
  have "DecodeFixed32 (drop (length (concat (map chunk ts)) + j * 4) (block_bytes ts rs)) = map (\<lambda>r. of_nat (off ts r)) rs ! j"
    unfolding block_bytes_def by (rule decode_word) (use assms(2) in simp)
  moreover have "off ts (rs ! j) < 2 ^ 32" using off_bound [OF O(1)] L(6) [OF assms(2)] by blast
  ultimately show ?thesis using assms(2) O(2-4) by (simp add: GetRestartPoint_def off_end unat_of_nat_32)
qed

lemma region_over:
  assumes "over ts rs it"
  shows "region it (off ts i) = concat (map chunk (drop i ts))"
proof -
  have "take (bi_restarts it) (bi_data it) = concat (map chunk ts)"
    using overD [OF assms] by (simp add: block_bytes_def off_end)
  also have "\<dots> = concat (map chunk (take i ts)) @ concat (map chunk (drop i ts))"
    by (metis append_take_drop_id concat_append map_append)
  finally show ?thesis by (simp add: region_def off_def)
qed

lemma entry_small:
  assumes "laid_out ts rs" "i < length ts"
  shows "fst (ts ! i) \<le> length (ekey (ts ! i))" "length (ekey (ts ! i)) - fst (ts ! i) + length (evalue (ts ! i)) < 2 ^ 32"
    "fst (ts ! i) < 2 ^ 32" "off ts (Suc i) < 2 ^ 32"
proof -
  obtain sh k v where t: "ts ! i = (sh, k, v)" by (cases "ts ! i")
  note L = laid_outD [OF assms(1)]
  have o: "off ts (Suc i) = off ts i + length (chunk (ts ! i))" "off ts (Suc i) < 2 ^ 32"
    using assms(2) off_bound [OF assms(1), of "Suc i"] by simp_all
  show "off ts (Suc i) < 2 ^ 32" by (rule o(2))
  have c: "length k - sh + length v \<le> length (chunk (ts ! i))" by (simp add: t chunk_def)
  show "length (ekey (ts ! i)) - fst (ts ! i) + length (evalue (ts ! i)) < 2 ^ 32" using c o t by simp
  show "fst (ts ! i) \<le> length (ekey (ts ! i))" using L(1) assms(2) by (simp add: chained_def)
  have "length (ekey (ts ! j)) \<le> off ts (Suc j)" if "j < length ts" for j
    using that
  proof (induction j)
    case 0
    then show ?case using L(1) unfolding chained_def by (cases "ts ! 0") (force simp: chunk_def prev_key_def)
  next
    case (Suc j)
    have "fst (ts ! Suc j) \<le> length (ekey (ts ! j))" using L(1) Suc.prems unfolding chained_def by (auto simp: prev_key_def)
    then show ?case using Suc.IH Suc.prems by (cases "ts ! Suc j") (simp add: chunk_def)
  qed
  from this [OF assms(2)] show "fst (ts ! i) < 2 ^ 32" using \<open>fst (ts ! i) \<le> length (ekey (ts ! i))\<close> o(2) by simp
qed

lemma DecodeEntry_over:
  assumes "over ts rs it" "i < length ts" "ts ! i = (sh, k, v)"
  shows "DecodeEntry (region it (off ts i)) = Some (of_nat sh, of_nat (length k - sh), of_nat (length v), drop sh k @ v @ concat (map chunk (drop (Suc i) ts)))"
    "unat (of_nat sh :: 32 word) = sh" "unat (of_nat (length k - sh) :: 32 word) = length k - sh" "unat (of_nat (length v) :: 32 word) = length v"
    "bi_restarts it = off ts (Suc i) + length (concat (map chunk (drop (Suc i) ts)))" "sh \<le> length k"
proof -
  note E = entry_small [OF overD(1) [OF assms(1)] assms(2), unfolded assms(3), simplified]
  show u: "unat (of_nat sh :: 32 word) = sh" "unat (of_nat (length k - sh) :: 32 word) = length k - sh" "unat (of_nat (length v) :: 32 word) = length v"
    unfolding unat_of_nat_32 using E by (intro u32_id; simp)+
  show "sh \<le> length k" by (rule E(1))
  let ?r = "concat (map chunk (drop (Suc i) ts))"
  have "off ts (length ts) = length (concat (map chunk (take (Suc i) ts)) @ ?r)"
    unfolding off_end by (metis append_take_drop_id concat_append map_append)
  then show r: "bi_restarts it = off ts (Suc i) + length ?r" using overD(3) [OF assms(1)] by (simp add: off_def)
  have "length (drop sh k @ v @ ?r) < 2 ^ 32"
  proof -
    have "length (drop sh k @ v @ ?r) \<le> length (chunk (ts ! i)) + length ?r" by (simp add: assms(3) chunk_def)
    also have "\<dots> \<le> bi_restarts it" using r assms(2) by simp
    also have "\<dots> < 2 ^ 32" using overD(3) [OF assms(1)] off_bound [OF overD(1) [OF assms(1)], of "length ts"] by simp
    finally show ?thesis .
  qed
  moreover have "concat (map chunk (drop i ts)) = chunk (ts ! i) @ ?r" using assms(2) by (simp add: Cons_nth_drop_Suc [symmetric])
  ultimately show "DecodeEntry (region it (off ts i)) = Some (of_nat sh, of_nat (length k - sh), of_nat (length v), drop sh k @ v @ ?r)"
    unfolding region_over [OF assms(1)] using u by (simp add: assms(3) chunk_def DecodeEntry_Encode)
qed

text \<open>The iterator at entry \<open>n\<close>, or past the last one, and the iterator about to parse entry \<open>n\<close>.\<close>

definition stand :: "entry list \<Rightarrow> nat list \<Rightarrow> nat \<Rightarrow> block_iter \<Rightarrow> bool" where
  "stand ts rs n it \<longleftrightarrow> over ts rs it \<and> n \<le> length ts \<and> bi_current it = off ts n \<and>
     (if n < length ts
      then bi_key it = ekey (ts ! n) \<and> bi_value it = (off ts (Suc n) - length (evalue (ts ! n)), length (evalue (ts ! n))) \<and>
        bi_restart_index it < length rs \<and> rs ! bi_restart_index it \<le> n \<and>
        (Suc (bi_restart_index it) < length rs \<longrightarrow> n \<le> rs ! Suc (bi_restart_index it))
      else bi_restart_index it = length rs)"

definition ready :: "entry list \<Rightarrow> nat list \<Rightarrow> nat \<Rightarrow> block_iter \<Rightarrow> bool" where
  "ready ts rs n it \<longleftrightarrow> over ts rs it \<and> n \<le> length ts \<and> NextEntryOffset it = off ts n \<and>
     (n < length ts \<longrightarrow> fst (ts ! n) \<le> length (bi_key it) \<and> take (fst (ts ! n)) (bi_key it) = take (fst (ts ! n)) (ekey (ts ! n))) \<and>
     bi_restart_index it < length rs \<and> rs ! bi_restart_index it \<le> n"

lemma advance_restart_ok:
  assumes "over ts rs it" "bi_restart_index it < length rs" "rs ! bi_restart_index it \<le> n" "bi_current it = off ts n" "n \<le> length ts"
  shows "\<exists>r. advance_restart it = Some (it\<lparr>bi_restart_index := r\<rparr>) \<and> r < length rs \<and> rs ! r \<le> n \<and>
    (Suc r < length rs \<longrightarrow> n \<le> rs ! Suc r)"
  using assms
proof (induction "length rs - bi_restart_index it" arbitrary: it rule: less_induct)
  case less
  let ?i = "bi_restart_index it"
  note O = overD [OF less.prems(1)]
  have stop: "\<exists>r. Some it = Some (it\<lparr>bi_restart_index := r\<rparr>) \<and> r < length rs \<and> rs ! r \<le> n \<and> (Suc r < length rs \<longrightarrow> n \<le> rs ! Suc r)"
    if "Suc ?i < length rs \<longrightarrow> n \<le> rs ! Suc ?i" using that less.prems by (intro exI [of _ ?i]) simp
  show ?case
  proof (cases "Suc ?i < length rs")
    case True
    have g: "GetRestartPoint it (Suc ?i) = Some (off ts (rs ! Suc ?i))" by (rule GetRestartPoint_over [OF less.prems(1) True])
    have iff: "off ts (rs ! Suc ?i) < off ts n \<longleftrightarrow> rs ! Suc ?i < n"
      by (rule off_less_iff) (use laid_outD(6) [OF O(1) True] less.prems(5) in simp_all)
    show ?thesis
    proof (cases "rs ! Suc ?i < n")
      case lt: True
      let ?it = "it\<lparr>bi_restart_index := Suc ?i\<rparr>"
      have "over ts rs ?it" using less.prems(1) by (simp add: over_def)
      then have "\<exists>r. advance_restart ?it = Some (?it\<lparr>bi_restart_index := r\<rparr>) \<and> r < length rs \<and> rs ! r \<le> n \<and>
          (Suc r < length rs \<longrightarrow> n \<le> rs ! Suc r)"
        by (intro less.hyps) (use True lt less.prems in simp_all)
      moreover have "advance_restart it = advance_restart ?it"
        by (subst advance_restart.simps) (simp add: True O(4) g less.prems(4) iff lt)
      ultimately show ?thesis by simp
    next
      case False
      then have "advance_restart it = Some it" by (subst advance_restart.simps) (simp add: True O(4) g less.prems(4) iff)
      then show ?thesis using stop False by simp
    qed
  next
    case False
    then have "advance_restart it = Some it" by (subst advance_restart.simps) (simp add: O(4))
    then show ?thesis using stop False by simp
  qed
qed

lemma Parse_end:
  assumes "ready ts rs (length ts) it"
  shows "\<exists>it'. ParseNextKey it = Some (False, it') \<and> stand ts rs (length ts) it'"
proof -
  have r: "over ts rs it" "NextEntryOffset it = off ts (length ts)" using assms by (simp_all add: ready_def)
  note O = overD [OF r(1)]
  show ?thesis using r O by (simp add: ParseNextKey_def Let_def stand_def over_def)
qed

lemma Parse_entry:
  assumes "ready ts rs n it" "n < length ts"
  shows "\<exists>it'. ParseNextKey it = Some (True, it') \<and> stand ts rs n it'"
proof -
  obtain sh k v where t: "ts ! n = (sh, k, v)" by (cases "ts ! n")
  have r: "over ts rs it" "NextEntryOffset it = off ts n" "sh \<le> length (bi_key it)" "take sh (bi_key it) = take sh k"
    "bi_restart_index it < length rs" "rs ! bi_restart_index it \<le> n" using assms t by (simp_all add: ready_def)
  note D = DecodeEntry_over [OF r(1) assms(2) t]
  let ?rest = "concat (map chunk (drop (Suc n) ts))"
  let ?it0 = "it\<lparr>bi_current := off ts n\<rparr>"
  let ?it1 = "?it0\<lparr>bi_key := k, bi_value := (off ts (Suc n) - length v, length v)\<rparr>"
  have rg: "region ?it0 (off ts n) = region it (off ts n)" by (simp add: region_def)
  have cur: "off ts n < bi_restarts it" using off_mono [OF assms(2)] overD(3) [OF r(1)] by simp
  have key: "take sh (bi_key it) @ drop sh k = k" using r(4) by (simp add: append_take_drop_id)
  have p: "bi_restarts it - length (drop sh k @ v @ ?rest) + (length k - sh) = off ts (Suc n) - length v"
  proof -
    have "length v + (length k - sh) \<le> off ts (Suc n)" using assms(2) by (simp add: t chunk_def)
    then show ?thesis unfolding D(5) by simp
  qed
  have "over ts rs ?it1" using r(1) by (simp add: over_def)
  then obtain r' where r': "advance_restart ?it1 = Some (?it1\<lparr>bi_restart_index := r'\<rparr>)" "r' < length rs" "rs ! r' \<le> n"
    "Suc r' < length rs \<longrightarrow> n \<le> rs ! Suc r'"
    using advance_restart_ok [of ts rs ?it1 n] r(5,6) assms(2) by auto
  have "ParseNextKey it = map_option (Pair True) (advance_restart ?it1)"
    using cur D(1-4) r(3) key p by (simp add: ParseNextKey_def Let_def r(2) rg)
  then show ?thesis using r' \<open>over ts rs ?it1\<close> assms(2) t by (auto simp: stand_def over_def)
qed

lemma stand_ready:
  assumes "stand ts rs n it" "n < length ts"
  shows "ready ts rs (Suc n) it"
proof -
  have s: "over ts rs it" "bi_key it = ekey (ts ! n)" "bi_restart_index it < length rs" "rs ! bi_restart_index it \<le> n"
    "NextEntryOffset it = off ts (Suc n)"
    using assms by (simp_all add: stand_def NextEntryOffset_def chunk_def split_beta)
  have c: "fst (ts ! Suc n) \<le> length (ekey (ts ! n)) \<and> take (fst (ts ! Suc n)) (ekey (ts ! Suc n)) = take (fst (ts ! Suc n)) (ekey (ts ! n))"
    if "Suc n < length ts"
  proof -
    note laid_outD(1) [OF overD(1) [OF s(1)], unfolded chained_def, rule_format, OF that]
    then show ?thesis by (simp add: prev_key_def)
  qed
  then show ?thesis using s assms(2) by (simp add: ready_def)
qed

lemma SeekToRestartPoint_ok:
  assumes "over ts rs it" "j < length rs"
  shows "\<exists>it'. SeekToRestartPoint j it = Some it' \<and> ready ts rs (rs ! j) it' \<and> bi_restarts it' = bi_restarts it"
proof -
  note L = laid_outD [OF overD(1) [OF assms(1)]]
  show ?thesis using GetRestartPoint_over [OF assms] L(6,7) [OF assms(2)] assms
    by (auto simp: SeekToRestartPoint_def ready_def over_def NextEntryOffset_def)
qed

lemma parse_until_ok:
  assumes "ready ts rs n it" "n < m" "m \<le> length ts"
  shows "\<exists>it'. parse_until (off ts m) it = Some it' \<and> stand ts rs (m - 1) it'"
  using assms
proof (induction "m - n" arbitrary: n it rule: less_induct)
  case less
  have n: "n < length ts" using less.prems by simp
  obtain it1 where it1: "ParseNextKey it = Some (True, it1)" "stand ts rs n it1" using Parse_entry [OF less.prems(1) n] by blast
  have rd: "ready ts rs (Suc n) it1" by (rule stand_ready [OF it1(2) n])
  then have lt: "NextEntryOffset it1 < off ts m \<longleftrightarrow> Suc n < m"
    using off_less_iff [of "Suc n" ts m] n less.prems(3) by (simp add: ready_def)
  show ?case
  proof (cases "Suc n < m")
    case True
    have "\<exists>it'. parse_until (off ts m) it1 = Some it' \<and> stand ts rs (m - 1) it'"
      by (rule less.hyps) (use True rd less.prems in simp_all)
    then show ?thesis by (subst parse_until.simps) (simp add: it1(1) lt True)
  next
    case False
    then have "n = m - 1" using less.prems(2) by simp
    then show ?thesis by (subst parse_until.simps) (use it1 lt False in simp)
  qed
qed

lemma seek_linear_ok:
  assumes "ready ts rs n it"
  shows "\<exists>it'. seek_linear cmp t it = Some it' \<and>
    stand ts rs (n + length (takeWhile (\<lambda>e. cmp (ekey e) t < 0) (drop n ts))) it'"
  using assms
proof (induction "length ts - n" arbitrary: n it rule: less_induct)
  case less
  show ?case
  proof (cases "n < length ts")
    case False
    then have "n = length ts" using less.prems by (simp add: ready_def)
    then show ?thesis using Parse_end [of ts rs it] less.prems by (subst seek_linear.simps) auto
  next
    case True
    obtain it1 where it1: "ParseNextKey it = Some (True, it1)" "stand ts rs n it1" using Parse_entry [OF less.prems True] by blast
    have k: "bi_key it1 = ekey (ts ! n)" using it1(2) True by (simp add: stand_def)
    have d: "drop n ts = ts ! n # drop (Suc n) ts" using True by (simp add: Cons_nth_drop_Suc)
    show ?thesis
    proof (cases "cmp (ekey (ts ! n)) t < 0")
      case lt: True
      have "\<exists>it'. seek_linear cmp t it1 = Some it' \<and>
          stand ts rs (Suc n + length (takeWhile (\<lambda>e. cmp (ekey e) t < 0) (drop (Suc n) ts))) it'"
        by (rule less.hyps) (use True stand_ready [OF it1(2) True] in simp_all)
      moreover have "\<not> 0 \<le> cmp (ekey (ts ! n)) t" using lt by simp
      ultimately show ?thesis by (subst seek_linear.simps) (simp add: it1(1) k lt d)
    next
      case False
      then show ?thesis by (subst seek_linear.simps) (use it1 k in \<open>simp add: d\<close>)
    qed
  qed
qed

lemma seek_restart_ok:
  assumes "over ts rs it" "left \<le> right" "right < length rs"
  shows "\<exists>l < length rs. seek_restart cmp it t left right = Some (Some l) \<and>
    (l = left \<or> rs ! l < length ts \<and> cmp (ekey (ts ! (rs ! l))) t < 0)"
  using assms(2,3)
proof (induction "right - left" arbitrary: left right rule: less_induct)
  case less
  note L = laid_outD [OF overD(1) [OF assms(1)]]
  show ?case
  proof (cases "left < right")
    case False
    then show ?thesis using less.prems by (subst seek_restart.simps) simp
  next
    case True
    define mid where "mid = (left + right + 1) div 2"
    have mid: "left < mid" "mid \<le> right" "mid < length rs" using True less.prems by (simp_all add: mid_def)
    have less_dist: "right - mid < right - left" "mid - 1 - left < right - left" "left \<le> mid - 1" "mid - 1 < length rs"
      using mid True by linarith+
    have mid': "Suc (left + right) div 2 = mid" by (simp add: mid_def)
    have m: "rs ! mid < length ts"
    proof -
      have "rs ! 0 < rs ! mid" using L(8) [of 0 mid] mid by simp
      then show ?thesis using L(2,5) nth_mem [OF mid(3)] unfolding restarts_ok_def by auto
    qed
    obtain k v where t: "ts ! (rs ! mid) = (0, k, v)" using L(7) [OF mid(3) m] by (cases "ts ! (rs ! mid)") simp
    note D = DecodeEntry_over [OF assms(1) m t]
    have step: "seek_restart cmp it t left right =
        (if cmp k t < 0 then seek_restart cmp it t mid right else seek_restart cmp it t left (mid - 1))"
      by (subst seek_restart.simps) (use True D(1,3) GetRestartPoint_over [OF assms(1) mid(3)] in \<open>simp add: Let_def mid'\<close>)
    show ?thesis
    proof (cases "cmp k t < 0")
      case lt: True
      obtain l where l: "l < length rs" "seek_restart cmp it t mid right = Some (Some l)"
        "l = mid \<or> rs ! l < length ts \<and> cmp (ekey (ts ! (rs ! l))) t < 0"
        using less.hyps [OF less_dist(1)] mid less.prems by auto
      then show ?thesis unfolding step using lt m t by auto
    next
      case False
      obtain l where l: "l < length rs" "seek_restart cmp it t left (mid - 1) = Some (Some l)"
        "l = left \<or> rs ! l < length ts \<and> cmp (ekey (ts ! (rs ! l))) t < 0"
        using less.hyps [OF less_dist(2-4)] by blast
      then show ?thesis unfolding step using False by auto
    qed
  qed
qed

section \<open>The contents of a block\<close>

text \<open>All entries from a region, decoded one after the other; the length bounds their number.\<close>

fun decode_entries :: "nat \<Rightarrow> slice \<Rightarrow> slice \<Rightarrow> (slice \<times> slice) list" where
  "decode_entries 0 k p = []"
| "decode_entries (Suc n) k p =
     (if p = [] then []
      else case DecodeEntry p of
        None \<Rightarrow> []
      | Some (sh, ns, vl, r) \<Rightarrow>
          let k' = take (unat sh) k @ take (unat ns) r in
          (k', take (unat vl) (drop (unat ns) r)) # decode_entries n k' (drop (unat ns + unat vl) r))"

definition block_items :: "block_iter \<Rightarrow> (slice \<times> slice) list" where
  "block_items it = decode_entries (bi_restarts it) [] (region it 0)"

definition block_pos :: "block_iter \<Rightarrow> nat" where
  "block_pos it = length (block_items it) - length (decode_entries (bi_restarts it) [] (region it (bi_current it)))"

lemma decode_entries_over:
  assumes "over ts rs it" "i \<le> length ts" "length ts - i \<le> n"
  shows "length (decode_entries n k (region it (off ts i))) = length ts - i"
    "decode_entries n (prev_key ts i) (region it (off ts i)) = map snd (drop i ts)"
proof -
  have "length (decode_entries n k (region it (off ts i))) = length ts - i \<and>
    (k = prev_key ts i \<longrightarrow> decode_entries n k (region it (off ts i)) = map snd (drop i ts))" for k
    using assms(2,3)
  proof (induction n arbitrary: i k)
    case (Suc n)
    show ?case
    proof (cases "i < length ts")
      case True
      obtain sh ky v where t: "ts ! i = (sh, ky, v)" by (cases "ts ! i")
      note D = DecodeEntry_over [OF assms(1) True t]
      have ne: "region it (off ts i) \<noteq> []" unfolding region_over [OF assms(1)]
        using True chunk_pos [of "ts ! i"] by (simp add: Cons_nth_drop_Suc [symmetric])
      have nx: "concat (map chunk (drop (Suc i) ts)) = region it (off ts (Suc i))" using region_over [OF assms(1)] by simp
      let ?k = "take sh k @ drop sh ky"
      have step: "decode_entries (Suc n) k (region it (off ts i)) = (?k, v) # decode_entries n ?k (region it (off ts (Suc i)))"
        using ne D(1-4) by (simp add: nx Let_def)
      have IH: "length (decode_entries n ?k (region it (off ts (Suc i)))) = length ts - Suc i"
        "?k = prev_key ts (Suc i) \<Longrightarrow> decode_entries n ?k (region it (off ts (Suc i))) = map snd (drop (Suc i) ts)"
        using Suc.IH [of "Suc i" ?k] True Suc.prems(2) by auto
      have "?k = ky" if "k = prev_key ts i"
        using laid_outD(1) [OF overD(1) [OF assms(1)], unfolded chained_def, rule_format, OF True] t that
        by (metis append_take_drop_id fst_conv snd_conv)
      then show ?thesis unfolding step using IH True t
        by (auto simp: prev_key_def Cons_nth_drop_Suc [symmetric] simp del: decode_entries.simps)
    qed (use Suc.prems region_over [OF assms(1), of i] in simp)
  qed simp
  then show "length (decode_entries n k (region it (off ts i))) = length ts - i"
    "decode_entries n (prev_key ts i) (region it (off ts i)) = map snd (drop i ts)" by blast+
qed

lemma length_le_off: "length ts \<le> off ts (length ts)"
proof -
  have "i \<le> length ts \<Longrightarrow> i \<le> off ts i" for i
  proof (induction i)
    case (Suc i)
    moreover have "off ts (Suc i) = off ts i + length (chunk (ts ! i))" using Suc.prems by simp
    ultimately show ?case using chunk_pos [of "ts ! i"] by linarith
  qed simp
  then show ?thesis by blast
qed

lemma stand_contents:
  assumes "stand ts rs n it"
  shows "block_items it = map snd ts" "block_pos it = n"
proof -
  have o: "over ts rs it" "n \<le> length ts" "bi_current it = off ts n" using assms by (simp_all add: stand_def)
  have fuel: "length ts - i \<le> bi_restarts it" for i using length_le_off [of ts] overD(3) [OF o(1)] by simp
  show it: "block_items it = map snd ts"
    using decode_entries_over(2) [OF o(1) _ fuel, of 0] by (simp add: block_items_def prev_key_def)
  show "block_pos it = n"
    using decode_entries_over(1) [OF o(1,2) fuel] o(2,3) by (simp add: block_pos_def it)
qed

section \<open>The iterator as a cursor\<close>

lemma takeWhile_from:
  assumes "m \<le> length xs" "\<forall>i < m. P (xs ! i)"
  shows "length (takeWhile P xs) = m + length (takeWhile P (drop m xs))"
proof -
  have "\<forall>x \<in> set (take m xs). P x" using assms by (auto simp: in_set_conv_nth)
  then have "takeWhile P (take m xs @ drop m xs) = take m xs @ takeWhile P (drop m xs)" by (subst takeWhile_append2) auto
  then show ?thesis using assms(1) by simp
qed

definition block_iter_ok :: "(slice \<Rightarrow> bool) \<Rightarrow> (slice \<Rightarrow> slice \<Rightarrow> int) \<Rightarrow> block_iter \<Rightarrow> bool" where
  "block_iter_ok valid cmp it \<longleftrightarrow> (\<exists>ts rs n. stand ts rs n it \<and> sorted_wrt (\<lambda>a b. cmp (ekey a) (ekey b) < 0) ts \<and> (\<forall>e \<in> set ts. valid (ekey e)))"

lemma value_bytes:
  assumes "over ts rs it" "n < length ts"
  shows "take (length (evalue (ts ! n))) (drop (off ts (Suc n) - length (evalue (ts ! n))) (bi_data it)) = evalue (ts ! n)"
proof -
  obtain sh k v where t: "ts ! n = (sh, k, v)" by (cases "ts ! n")
  let ?pre = "concat (map chunk (take n ts)) @ EncodeVarint32 (of_nat sh) @ EncodeVarint32 (of_nat (length k - sh)) @ EncodeVarint32 (of_nat (length v)) @ drop sh k"
  have "concat (map chunk ts) = concat (map chunk (take n ts)) @ chunk (ts ! n) @ concat (map chunk (drop (Suc n) ts))"
    by (subst (1) id_take_nth_drop [OF assms(2)]) simp
  then have "concat (map chunk ts) = ?pre @ v @ concat (map chunk (drop (Suc n) ts))" by (simp add: t chunk_def)
  then have d: "bi_data it = ?pre @ v @ concat (map chunk (drop (Suc n) ts)) @ drop (off ts (length ts)) (block_bytes ts rs)"
    using overD(2) [OF assms(1)] by (simp add: block_bytes_def off_end)
  have "off ts (Suc n) - length v = length ?pre" using assms(2) by (simp add: t chunk_def off_def take_Suc_conv_app_nth)
  then show ?thesis unfolding d by (simp add: t)
qed

lemma block_moves:
  assumes "\<exists>it'. r = Some it' \<and> stand ts rs n it'" "stand ts rs m it"
    "sorted_wrt (\<lambda>a b. cmp (ekey a) (ekey b) < 0) ts" "\<forall>e \<in> set ts. valid (ekey e)"
  shows "\<exists>it'. r = Some it' \<and> block_iter_ok valid cmp it' \<and> block_items it' = block_items it \<and> block_pos it' = n"
  using assms stand_contents [of ts rs _] unfolding block_iter_ok_def by metis

lemma bi_SeekToFirst_ok:
  assumes "over ts rs it"
  shows "\<exists>it'. bi_SeekToFirst it = Some it' \<and> stand ts rs 0 it'"
proof -
  note L = laid_outD [OF overD(1) [OF assms]]
  obtain it1 where it1: "SeekToRestartPoint 0 it = Some it1" "ready ts rs 0 it1" using SeekToRestartPoint_ok [OF assms L(4)] L(5) by auto
  show ?thesis
  proof (cases "ts = []")
    case True
    then show ?thesis using Parse_end [of ts rs it1] it1 by (auto simp: bi_SeekToFirst_def)
  next
    case False
    then show ?thesis using Parse_entry [OF it1(2)] it1(1) by (auto simp: bi_SeekToFirst_def)
  qed
qed

lemma bi_SeekToLast_ok:
  assumes "over ts rs it"
  shows "\<exists>it'. bi_SeekToLast it = Some it' \<and> stand ts rs (length ts - 1) it'"
proof -
  note L = laid_outD [OF overD(1) [OF assms]] and O = overD [OF assms]
  let ?j = "length rs - 1"
  have j: "?j < length rs" using L(4) by simp
  obtain it1 where it1: "SeekToRestartPoint ?j it = Some it1" "ready ts rs (rs ! ?j) it1" "bi_restarts it1 = off ts (length ts)"
    using SeekToRestartPoint_ok [OF assms j] O(3) by auto
  show ?thesis
  proof (cases "ts = []")
    case True
    then have "rs ! ?j = 0" using L(6) [OF j] by simp
    then obtain it2 where "ParseNextKey it1 = Some (False, it2)" "stand ts rs 0 it2" using Parse_end [of ts rs it1] it1(2) True by auto
    then have "parse_until (off ts (length ts)) it1 = Some it2" by (subst parse_until.simps) simp
    then show ?thesis using it1 O(4) True \<open>stand ts rs 0 it2\<close> by (simp add: bi_SeekToLast_def)
  next
    case False
    then have "rs ! ?j < length ts" by (rule L(9) [OF j])
    from parse_until_ok [OF it1(2) this] show ?thesis using it1(1,3) O(4) by (auto simp: bi_SeekToLast_def)
  qed
qed

lemma bi_Next_ok:
  assumes "stand ts rs n it" "n < length ts"
  shows "\<exists>it'. bi_Next it = Some it' \<and> stand ts rs (Suc n) it'"
proof -
  have v: "bi_Valid it" using assms off_mono [OF assms(2)] by (simp add: stand_def over_def bi_Valid_def)
  note R = stand_ready [OF assms]
  show ?thesis
  proof (cases "Suc n < length ts")
    case True
    then show ?thesis using Parse_entry [OF R] v by (auto simp: bi_Next_def)
  next
    case False
    then have "Suc n = length ts" using assms(2) by simp
    then show ?thesis using Parse_end [of ts rs it] R v by (auto simp: bi_Next_def)
  qed
qed

lemma prev_restart_ok:
  assumes "over ts rs it" "i < length rs" "n < length ts"
  shows "n = 0 \<Longrightarrow> prev_restart it (off ts n) i = Some None"
    "0 < n \<Longrightarrow> \<exists>j < length rs. prev_restart it (off ts n) i = Some (Some j) \<and> rs ! j < n"
proof -
  note L = laid_outD [OF overD(1) [OF assms(1)]]
  have lt: "off ts (rs ! j) < off ts n \<longleftrightarrow> rs ! j < n" if "j < length rs" for j
    by (rule off_less_iff) (use L(6) [OF that] assms(3) in simp_all)
  note G = GetRestartPoint_over [OF assms(1)]
  show "prev_restart it (off ts n) i = Some None" if "n = 0"
    using assms(2) that G by (induction i) (simp_all)
  show "\<exists>j < length rs. prev_restart it (off ts n) i = Some (Some j) \<and> rs ! j < n" if n: "0 < n"
    using assms(2)
  proof (induction i)
    case 0
    then show ?case using G [OF 0] lt [OF 0] L(5) n by (simp add: not_le)
  next
    case (Suc i)
    show ?case
    proof (cases "rs ! Suc i < n")
      case True
      then show ?thesis using G [OF Suc.prems] lt [OF Suc.prems] Suc.prems by (simp add: not_le)
    next
      case False
      then have "\<not> off ts (rs ! Suc i) < off ts n" using lt [OF Suc.prems] by simp
      then show ?thesis using Suc G [OF Suc.prems] by (simp add: not_less)
    qed
  qed
qed

lemma bi_Prev_ok:
  assumes "stand ts rs n it" "n < length ts"
  shows "\<exists>it'. bi_Prev it = Some it' \<and> stand ts rs (if n = 0 then length ts else n - 1) it'"
proof -
  have o: "over ts rs it" "bi_current it = off ts n" "bi_restart_index it < length rs" using assms by (simp_all add: stand_def)
  have v: "bi_Valid it" using o off_mono [OF assms(2)] by (simp add: over_def bi_Valid_def)
  note P = prev_restart_ok [OF o(1,3) assms(2)]
  show ?thesis
  proof (cases "n = 0")
    case True
    then have "bi_Prev it = Some (it\<lparr>bi_current := bi_restarts it, bi_restart_index := bi_num_restarts it\<rparr>)"
      using v P(1) o(2) by (simp add: bi_Prev_def Let_def)
    then show ?thesis using True o(1) by (simp add: stand_def over_def)
  next
    case False
    then obtain j where j: "j < length rs" "prev_restart it (off ts n) (bi_restart_index it) = Some (Some j)" "rs ! j < n"
      using P(2) by auto
    obtain it1 where it1: "SeekToRestartPoint j it = Some it1" "ready ts rs (rs ! j) it1" using SeekToRestartPoint_ok [OF o(1) j(1)] by blast
    then show ?thesis
      using parse_until_ok [OF it1(2) j(3)] assms(2) v o(2) j(2) False by (simp add: bi_Prev_def Let_def)
  qed
qed

context key_order
begin

lemma below_lower:
  fixes ts :: "(nat \<times> 'k \<times> 'v) list"
  assumes "sorted_wrt (\<lambda>a b. cmp (fst (snd a)) (fst (snd b)) < 0) ts" "\<forall>e \<in> set ts. valid (fst (snd e))" "valid t"
    "n < length ts" "i \<le> n" "cmp (fst (snd (ts ! n))) t \<le> 0" "i < n \<or> cmp (fst (snd (ts ! n))) t < 0"
  shows "cmp (fst (snd (ts ! i))) t < 0"
proof (cases "i = n")
  case False
  then have "cmp (fst (snd (ts ! i))) (fst (snd (ts ! n))) < 0" using sorted_wrt_nth_less [OF assms(1), of i n] assms(4,5) by simp
  moreover have "valid (fst (snd (ts ! i)))" "valid (fst (snd (ts ! n)))" using assms(2,4,5) by simp_all
  ultimately show ?thesis using cmp_less_trans [of "fst (snd (ts ! i))" "fst (snd (ts ! n))" t] assms(3,6) by blast
qed (use assms in simp)

end

lemma bi_Seek_ok:
  assumes K: "key_order valid cmp" and st: "stand ts rs n it" and ts: "sorted_wrt (\<lambda>a b. cmp (ekey a) (ekey b) < 0) ts" "\<forall>e \<in> set ts. valid (ekey e)"
    and t: "valid t"
  shows "\<exists>it'. bi_Seek cmp t it = Some it' \<and> stand ts rs (length (takeWhile (\<lambda>e. cmp (ekey e) t < 0) ts)) it'"
proof -
  let ?P = "\<lambda>e. cmp (ekey e) t < 0"
  note B = key_order.below_lower [OF K ts t]
  have o: "over ts rs it" "n \<le> length ts" "bi_current it = off ts n" using st by (simp_all add: stand_def)
  note L = laid_outD [OF overD(1) [OF o(1)]]
  have v: "bi_Valid it \<longleftrightarrow> n < length ts"
    using o off_less_iff [OF o(2) order.refl] by (simp add: over_def bi_Valid_def)
  have k: "bi_key it = ekey (ts ! n)" "bi_restart_index it < length rs" if "n < length ts" using st that by (simp_all add: stand_def)
  define c where "c = (if bi_Valid it then cmp (bi_key it) t else 0)"
  define left where "left = (if bi_Valid it \<and> c < 0 then bi_restart_index it else 0)"
  define right where "right = (if bi_Valid it \<and> c > 0 then bi_restart_index it else bi_num_restarts it - 1)"
  show ?thesis
  proof (cases "bi_Valid it \<and> c = 0")
    case True
    then have n: "n < length ts" "cmp (ekey (ts ! n)) t = 0" using v k by (auto simp: c_def)
    have "length (takeWhile ?P ts) = n + length (takeWhile ?P (drop n ts))"
      by (rule takeWhile_from [OF o(2)]) (use B [OF n(1)] n(2) in simp)
    moreover have "takeWhile ?P (drop n ts) = []" using n by (simp add: Cons_nth_drop_Suc [symmetric])
    moreover have "bi_Valid it" "cmp (bi_key it) t = 0" using True by (auto simp: c_def)
    then have "bi_Seek cmp t it = Some it" unfolding bi_Seek_def by (simp add: Let_def)
    ultimately show ?thesis using st by simp
  next
    case False
    have lr: "left \<le> right" "right < length rs" using k(2) v L(4) overD(4) [OF o(1)] by (auto simp: left_def right_def)
    obtain l where l: "l < length rs" "seek_restart cmp it t left right = Some (Some l)"
      "l = left \<or> rs ! l < length ts \<and> cmp (ekey (ts ! (rs ! l))) t < 0"
      using seek_restart_ok [OF o(1) lr, of cmp t] by blast
    have S: "bi_Seek cmp t it = (if l = bi_restart_index it \<and> c < 0 then seek_linear cmp t it
        else case SeekToRestartPoint l it of None \<Rightarrow> None | Some it' \<Rightarrow> seek_linear cmp t it')"
      using False l(2) unfolding bi_Seek_def Let_def c_def [symmetric] left_def [symmetric] right_def [symmetric]
      by (auto simp: c_def split: if_splits)
    show ?thesis
    proof (cases "l = bi_restart_index it \<and> c < 0")
      case True
      then have n: "n < length ts" "cmp (ekey (ts ! n)) t < 0" using v k by (auto simp: c_def split: if_splits)
      have "length (takeWhile ?P ts) = Suc n + length (takeWhile ?P (drop (Suc n) ts))"
        by (rule takeWhile_from) (use B [OF n(1)] n in auto)
      then show ?thesis unfolding S using True seek_linear_ok [OF stand_ready [OF st n(1)], of cmp t] by simp
    next
      case nskip: False
      obtain it1 where it1: "SeekToRestartPoint l it = Some it1" "ready ts rs (rs ! l) it1"
        using SeekToRestartPoint_ok [OF o(1) l(1)] by blast
      have "length (takeWhile ?P ts) = rs ! l + length (takeWhile ?P (drop (rs ! l) ts))"
      proof (rule takeWhile_from [OF L(6) [OF l(1)]], intro allI impI)
        fix i assume i: "i < rs ! l"
        have "l \<noteq> left"
        proof
          assume "l = left"
          then have "l = 0" using nskip by (auto simp: left_def split: if_splits)
          then show False using i L(5) by simp
        qed
        then show "?P (ts ! i)" using B [of "rs ! l" i] l(3) i by simp
      qed
      then show ?thesis unfolding S using nskip seek_linear_ok [OF it1(2), of cmp t] it1(1) by auto
    qed
  qed
qed

lemma block_sorted:
  assumes K: "key_order valid cmp"
  shows "sorted_iter valid cmp (block_iterator cmp) (block_iter_ok valid cmp) block_items block_pos"
proof (intro sorted_iter.intro [OF K] sorted_iter_axioms.intro)
  fix it assume "block_iter_ok valid cmp it"
  then obtain ts rs n where st: "stand ts rs n it"
    and ts: "sorted_wrt (\<lambda>a b. cmp (ekey a) (ekey b) < 0) ts" "\<forall>e \<in> set ts. valid (ekey e)" by (auto simp: block_iter_ok_def)
  note C = stand_contents [OF st]
  have o: "over ts rs it" "n \<le> length ts" using st by (simp_all add: stand_def)
  have v: "bi_Valid it \<longleftrightarrow> n < length ts"
    using st off_less_iff [OF o(2) order.refl] by (simp add: stand_def over_def bi_Valid_def)
  note M = block_moves [OF _ st ts]
  show "sorted_wrt (\<lambda>a b. cmp (fst a) (fst b) < 0) (block_items it) \<and> (\<forall>e \<in> set (block_items it). valid (fst e))"
    using ts by (simp add: C sorted_wrt_map)
  show "it_Valid (block_iterator cmp) it \<longleftrightarrow> block_pos it < length (block_items it)" using v by (simp add: block_iterator_def C)
  show "it_key (block_iterator cmp) it = Some (fst (block_items it ! block_pos it)) \<and>
      it_value (block_iterator cmp) it = Some (snd (block_items it ! block_pos it))" if "block_pos it < length (block_items it)"
  proof -
    have n: "n < length ts" using that by (simp add: C)
    show ?thesis using st n v value_bytes [OF o(1) n] by (simp add: block_iterator_def C bi_keyv_def bi_valuev_def stand_def)
  qed
  show "\<exists>s'. it_SeekToFirst (block_iterator cmp) it = Some s' \<and> block_iter_ok valid cmp s' \<and> block_items s' = block_items it \<and> block_pos s' = 0"
    using M [OF bi_SeekToFirst_ok [OF o(1)]] by (simp add: block_iterator_def)
  show "\<exists>s'. it_SeekToLast (block_iterator cmp) it = Some s' \<and> block_iter_ok valid cmp s' \<and> block_items s' = block_items it \<and>
      block_pos s' = length (block_items it) - 1"
    using M [OF bi_SeekToLast_ok [OF o(1)]] by (simp add: block_iterator_def C)
  show "\<exists>s'. it_Seek (block_iterator cmp) t it = Some s' \<and> block_iter_ok valid cmp s' \<and> block_items s' = block_items it \<and>
      block_pos s' = lower cmp (block_items it) t" if "valid t" for t
    using M [OF bi_Seek_ok [OF K st ts that]] by (simp add: block_iterator_def C lower_def takeWhile_map o_def)
  show "\<exists>s'. it_Next (block_iterator cmp) it = Some s' \<and> block_iter_ok valid cmp s' \<and> block_items s' = block_items it \<and>
      block_pos s' = Suc (block_pos it)" if "block_pos it < length (block_items it)"
    using M [OF bi_Next_ok [OF st]] that by (simp add: block_iterator_def C)
  show "\<exists>s'. it_Prev (block_iterator cmp) it = Some s' \<and> block_iter_ok valid cmp s' \<and> block_items s' = block_items it \<and>
      block_pos s' = (if block_pos it = 0 then length (block_items it) else block_pos it - 1)" if "block_pos it < length (block_items it)"
  proof -
    have "n < length ts" using that by (simp add: C)
    from M [OF bi_Prev_ok [OF st this]] show ?thesis unfolding C length_map block_iterator_def Iterator.simps .
  qed
qed

interpretation blocks: sorted_iter "\<lambda>k. 8 \<le> length k" "InternalKey_Compare Bytewise_Compare"
  "block_iterator (InternalKey_Compare Bytewise_Compare)" "block_iter_ok (\<lambda>k. 8 \<le> length k) (InternalKey_Compare Bytewise_Compare)"
  block_items block_pos
  by (rule block_sorted) (rule internal.key_order_axioms)

section \<open>Building a block\<close>

lemma diff_index_take:
  "diff_index a b \<le> length a \<and> diff_index a b \<le> length b \<and> take (diff_index a b) a = take (diff_index a b) b"
  by (induction a b rule: diff_index.induct) auto

definition block_built :: "block_builder \<Rightarrow> entry list \<Rightarrow> nat list \<Rightarrow> bool" where
  "block_built b ts rs \<longleftrightarrow> \<not> bb_finished b \<and> bb_buffer b = concat (map chunk ts) \<and>
     bb_restarts b = map (\<lambda>r. of_nat (off ts r)) rs \<and> bb_last_key b = prev_key ts (length ts) \<and>
     chained ts \<and> restarts_ok ts rs \<and> length ts = last rs + bb_counter b"

lemma off_snoc: "r \<le> length ts \<Longrightarrow> off (ts @ [e]) r = off ts r"
  by (simp add: off_def)

lemma chained_snoc:
  assumes "chained ts" "sh \<le> length k" "sh \<le> length (prev_key ts (length ts))" "take sh k = take sh (prev_key ts (length ts))"
  shows "chained (ts @ [(sh, k, v)])"
proof -
  have "prev_key (ts @ [(sh, k, v)]) i = prev_key ts i" if "i \<le> length ts" for i
    using that by (auto simp: prev_key_def nth_append)
  then show ?thesis using assms by (auto simp: chained_def nth_append less_Suc_eq)
qed

lemma Add_ok:
  assumes b: "block_built b ts rs" and K: "1 \<le> K"
  shows "\<exists>b' sh rs'. BlockBuilder_Add K k v b = Some b' \<and> block_built b' (ts @ [(sh, k, v)]) rs'"
proof -
  have B: "\<not> bb_finished b" "bb_buffer b = concat (map chunk ts)" "bb_restarts b = map (\<lambda>r. of_nat (off ts r)) rs"
    "bb_last_key b = prev_key ts (length ts)" "chained ts" "restarts_ok ts rs" "length ts = last rs + bb_counter b"
    using b by (simp_all add: block_built_def)
  have R: "rs \<noteq> []" "hd rs = 0" "sorted_wrt (<) rs" "\<forall>r \<in> set rs. r = 0 \<or> r < length ts" "\<forall>r \<in> set rs. r < length ts \<longrightarrow> fst (ts ! r) = 0"
    using B(6) by (simp_all add: restarts_ok_def)
  have le: "r \<le> length ts" if "r \<in> set rs" for r using R(4) that by auto
  define restart where "restart = (\<not> bb_counter b < K)"
  define sh where "sh = (if restart then 0 else diff_index (bb_last_key b) k)"
  define rs' where "rs' = (if restart then rs @ [length ts] else rs)"
  let ?t = "(sh, k, v)"
  have D: "sh \<le> length (bb_last_key b)" "sh \<le> length k" "take sh (bb_last_key b) = take sh k"
    using diff_index_take [of "bb_last_key b" k] by (simp_all add: sh_def)
  have lk: "take sh (bb_last_key b) @ drop sh k = k" using D(3) by simp
  have offs: "off (ts @ [t]) r = off ts r" if "r \<in> set rs" for r t using le [OF that] by (rule off_snoc)
  let ?b = "\<lparr>bb_buffer = concat (map chunk (ts @ [?t])), bb_restarts = map (\<lambda>r. of_nat (off (ts @ [?t]) r)) rs',
    bb_counter = (if restart then 1 else bb_counter b + 1), bb_finished = False, bb_last_key = k\<rparr>"
  have "BlockBuilder_Add K k v b = Some ?b"
  proof (cases restart)
    case True
    then have c: "\<not> bb_counter b < K" "sh = 0" "rs' = rs @ [length ts]" by (simp_all add: restart_def sh_def rs'_def)
    show ?thesis using B(1-3) c True by (simp add: BlockBuilder_Add_def PutVarint32_def chunk_def offs off_end off_snoc)
  next
    case False
    then have c: "bb_counter b < K" "diff_index (bb_last_key b) k = sh" "rs' = rs" by (simp_all add: restart_def sh_def rs'_def)
    show ?thesis using B(1-3) c False lk by (simp add: BlockBuilder_Add_def PutVarint32_def chunk_def offs)
  qed
  moreover have "block_built ?b (ts @ [?t]) rs'"
  proof -
    have "chained (ts @ [?t])" by (rule chained_snoc [OF B(5)]) (use D B(4) in simp_all)
    moreover have "restarts_ok (ts @ [?t]) rs'"
    proof -
      have zero: "fst ((ts @ [?t]) ! r) = 0" if "r \<in> set rs" "r < Suc (length ts)" for r
      proof (cases "r < length ts")
        case True
        then show ?thesis using R(5) that(1) by (simp add: nth_append)
      next
        case False
        then have "r = 0" "ts = []" using R(4) that by auto
        then show ?thesis using B(4) by (simp add: sh_def prev_key_def)
      qed
      have "r < length ts" if "restart" "r \<in> set rs" for r
      proof -
        have "r \<le> last rs" using R(3) that(2) by (cases rs rule: rev_cases) (auto simp: sorted_wrt_append)
        then show ?thesis using B(7) that(1) K by (simp add: restart_def)
      qed
      then show ?thesis using R zero by (auto simp: restarts_ok_def rs'_def sorted_wrt_append sh_def nth_append)
    qed
    ultimately show ?thesis using B(7) R(1) by (simp add: block_built_def prev_key_def nth_append rs'_def)
  qed
  ultimately show ?thesis by blast
qed

fun add_all :: "nat \<Rightarrow> (slice \<times> slice) list \<Rightarrow> block_builder \<Rightarrow> block_builder option" where
  "add_all K [] b = Some b"
| "add_all K ((k, v) # es) b = (case BlockBuilder_Add K k v b of None \<Rightarrow> None | Some b' \<Rightarrow> add_all K es b')"

lemma add_all_ok:
  assumes "block_built b ts rs" "1 \<le> K"
  shows "\<exists>b' ts' rs'. add_all K es b = Some b' \<and> block_built b' (ts @ ts') rs' \<and> map snd ts' = es"
  using assms(1)
proof (induction es arbitrary: b ts rs)
  case (Cons e es)
  obtain k v where e: "e = (k, v)" by (cases e)
  obtain b1 sh rs1 where b1: "BlockBuilder_Add K k v b = Some b1" "block_built b1 (ts @ [(sh, k, v)]) rs1"
    using Add_ok [OF Cons.prems assms(2)] by blast
  obtain b' ts' rs' where "add_all K es b1 = Some b'" "block_built b' ((ts @ [(sh, k, v)]) @ ts') rs'" "map snd ts' = es"
    using Cons.IH [OF b1(2)] by blast
  then show ?case using b1(1) e by (intro exI [of _ b'] exI [of _ "(sh, k, v) # ts'"] exI [of _ rs']) simp
qed auto

lemma new_built: "1 \<le> K \<Longrightarrow> \<exists>b. new_BlockBuilder K = Some b \<and> block_built b [] [0]"
  by (simp add: new_BlockBuilder_def block_built_def prev_key_def chained_def restarts_ok_def)

lemma Finish_ok:
  assumes "block_built b ts rs"
  shows "bb_buffer (BlockBuilder_Finish b) = block_bytes ts rs" "CurrentSizeEstimate b = length (block_bytes ts rs)"
proof -
  have b: "bb_buffer b = concat (map chunk ts)" "bb_restarts b = map (\<lambda>r. of_nat (off ts r)) rs"
    using assms by (simp_all add: block_built_def)
  show "bb_buffer (BlockBuilder_Finish b) = block_bytes ts rs"
    unfolding BlockBuilder_Finish_def fold_PutFixed32 b block_bytes_def by (simp add: PutFixed32_def)
  show "CurrentSizeEstimate b = length (block_bytes ts rs)"
    by (simp add: CurrentSizeEstimate_def b length_block_bytes off_end)
qed

lemma new_Block_ok:
  assumes "laid_out ts rs"
  shows "\<exists>it. Block_NewIterator (new_Block (block_bytes ts rs)) = Some (BlockIter it) \<and> stand ts rs (length ts) it"
proof -
  note L = laid_outD [OF assms]
  let ?D = "block_bytes ts rs" and ?R = "off ts (length ts)" and ?m = "length rs"
  have len: "length ?D = ?R + 4 * ?m + 4" by (rule length_block_bytes)
  have "drop (length ?D - 4) ?D = EncodeFixed32 (of_nat ?m)" unfolding len
    using length_Encodes [of "map (\<lambda>r. of_nat (off ts r)) rs"] by (simp add: block_bytes_def off_end)
  then have num: "NumRestarts ?D (length ?D) = ?m" using L(3) by (simp add: NumRestarts_def unat_of_nat_32)
  have "\<not> length ?D < 4" "\<not> NumRestarts ?D (length ?D) > (length ?D - 4) div 4" using len num by simp_all
  moreover have "length ?D - (1 + NumRestarts ?D (length ?D)) * 4 = ?R" using len num by simp
  ultimately have B: "new_Block ?D = \<lparr>blk_data = ?D, blk_size = length ?D, blk_restart_offset = ?R\<rparr>"
    unfolding new_Block_def by (simp add: Let_def)
  then show ?thesis using num L(4) len assms
    by (auto simp: Block_NewIterator_def new_Block_Iter_def Let_def stand_def over_def)
qed

section \<open>Properties\<close>

text \<open>C27. Whatever entries are added to a block builder, in the order of the internal keys, the block it finishes is read
  back exactly: the iterator of the block is a cursor on the list of the entries, for every sequence of
  \<^verbatim>\<open>SeekToFirst\<close>, \<^verbatim>\<open>SeekToLast\<close>, \<^verbatim>\<open>Seek\<close>, \<^verbatim>\<open>Next\<close> and \<^verbatim>\<open>Prev\<close> the cursor can make, with any restart interval. No assertion fails
  on the way and \<^verbatim>\<open>CurrentSizeEstimate\<close> is the size of the finished block, which has to fit in 32 bits.\<close>

theorem block_roundtrip:
  assumes "1 \<le> K" "sorted_wrt (\<lambda>a b. InternalKey_Compare Bytewise_Compare (fst a) (fst b) < 0) es" "\<forall>e \<in> set es. 8 \<le> length (fst e)"
  shows "\<exists>b0 b. new_BlockBuilder K = Some b0 \<and> add_all K es b0 = Some b \<and>
    length (bb_buffer (BlockBuilder_Finish b)) = CurrentSizeEstimate b \<and>
    (CurrentSizeEstimate b < 2 ^ 32 \<longrightarrow>
      (\<exists>it. Block_NewIterator (new_Block (bb_buffer (BlockBuilder_Finish b))) = Some (BlockIter it) \<and>
        (\<forall>mvs n. (\<forall>mv \<in> set mvs. move_ok (\<lambda>k. 8 \<le> length k) mv) \<and>
          run_moves (cursor_move (InternalKey_Compare Bytewise_Compare) es) mvs (length es) = Some n \<longrightarrow>
          (let J = block_iterator (InternalKey_Compare Bytewise_Compare) in
           \<exists>it'. run_moves (do_move J) mvs it = Some it' \<and> (it_Valid J it' \<longleftrightarrow> n < length es) \<and>
             (n < length es \<longrightarrow> it_key J it' = Some (fst (es ! n)) \<and> it_value J it' = Some (snd (es ! n)))))))"
proof -
  obtain b0 where b0: "new_BlockBuilder K = Some b0" "block_built b0 [] [0]" using new_built [OF assms(1)] by blast
  obtain b ts rs where b: "add_all K es b0 = Some b" "block_built b ts rs" "map snd ts = es"
    using add_all_ok [OF b0(2) assms(1), of es] by auto
  note F = Finish_ok [OF b(2)]
  let ?J = "block_iterator (InternalKey_Compare Bytewise_Compare)"
  have "\<exists>it. Block_NewIterator (new_Block (bb_buffer (BlockBuilder_Finish b))) = Some (BlockIter it) \<and>
      (\<forall>mvs n. (\<forall>mv \<in> set mvs. move_ok (\<lambda>k. 8 \<le> length k) mv) \<and>
        run_moves (cursor_move (InternalKey_Compare Bytewise_Compare) es) mvs (length es) = Some n \<longrightarrow>
        (\<exists>it'. run_moves (do_move ?J) mvs it = Some it' \<and> (it_Valid ?J it' \<longleftrightarrow> n < length es) \<and>
          (n < length es \<longrightarrow> it_key ?J it' = Some (fst (es ! n)) \<and> it_value ?J it' = Some (snd (es ! n)))))"
    if small: "CurrentSizeEstimate b < 2 ^ 32"
  proof -
    have "laid_out ts rs" using b(2) small F(2) by (simp add: laid_out_def block_built_def)
    then obtain it where it: "Block_NewIterator (new_Block (block_bytes ts rs)) = Some (BlockIter it)" "stand ts rs (length ts) it"
      using new_Block_ok by blast
    have ok: "block_iter_ok (\<lambda>k. 8 \<le> length k) (InternalKey_Compare Bytewise_Compare) it"
    proof -
      have "sorted_wrt (\<lambda>a b. InternalKey_Compare Bytewise_Compare (ekey a) (ekey b) < 0) ts" "\<forall>e \<in> set ts. 8 \<le> length (ekey e)"
        using assms(2,3) unfolding b(3) [symmetric] sorted_wrt_map by simp_all
      then show ?thesis using it(2) unfolding block_iter_ok_def by blast
    qed
    have C: "block_items it = es" "block_pos it = length es" using stand_contents [OF it(2)] unfolding b(3) [symmetric] by simp_all
    have "\<exists>it'. run_moves (do_move ?J) mvs it = Some it' \<and> (it_Valid ?J it' \<longleftrightarrow> n < length es) \<and>
        (n < length es \<longrightarrow> it_key ?J it' = Some (fst (es ! n)) \<and> it_value ?J it' = Some (snd (es ! n)))"
      if mvs: "\<forall>mv \<in> set mvs. move_ok (\<lambda>k. 8 \<le> length k) mv" "run_moves (cursor_move (InternalKey_Compare Bytewise_Compare) es) mvs (length es) = Some n" for mvs n
      using blocks.run_moves_ok [OF ok mvs(1)] mvs(2) blocks.valid_iff blocks.reads unfolding C by metis
    then show ?thesis using it(1) F(1) by auto
  qed
  then show ?thesis using b0(1) b(1) F unfolding Let_def by metis
qed

definition demo_entries :: "(slice \<times> slice) list" where
  "demo_entries = [([97, 98, 1, 3, 0, 0, 0, 0, 0, 0], [1]), ([97, 99, 1, 2, 0, 0, 0, 0, 0, 0], [2, 3])]"

lemma demo_size: "CurrentSizeEstimate (the (add_all 2 demo_entries (the (new_BlockBuilder 2)))) = 36"
  by code_simp

lemma demo_sorted: "InternalKey_Compare Bytewise_Compare [97, 98, 1, 3, 0, 0, 0, 0, 0, 0] [97, 99, 1, 2, 0, 0, 0, 0, 0, 0] < 0"
  by code_simp

theorem block_roundtrip_witness:
  "\<exists>b0 b it it'. new_BlockBuilder 2 = Some b0 \<and> add_all 2 demo_entries b0 = Some b \<and>
    Block_NewIterator (new_Block (bb_buffer (BlockBuilder_Finish b))) = Some (BlockIter it) \<and>
    run_moves (do_move (block_iterator (InternalKey_Compare Bytewise_Compare))) [MSeekToLast, MPrev] it = Some it' \<and>
    it_value (block_iterator (InternalKey_Compare Bytewise_Compare)) it' = Some [1]"
proof -
  let ?c = "InternalKey_Compare Bytewise_Compare"
  let ?J = "block_iterator ?c"
  have pre: "sorted_wrt (\<lambda>a b. ?c (fst a) (fst b) < 0) demo_entries" "\<forall>e \<in> set demo_entries. 8 \<le> length (fst e)"
    using demo_sorted by (simp_all add: demo_entries_def)
  have K: "(1 :: nat) \<le> 2" by simp
  obtain b0 b where b: "new_BlockBuilder 2 = Some b0" "add_all 2 demo_entries b0 = Some b"
    and rd: "CurrentSizeEstimate b < 2 ^ 32 \<longrightarrow>
      (\<exists>it. Block_NewIterator (new_Block (bb_buffer (BlockBuilder_Finish b))) = Some (BlockIter it) \<and>
        (\<forall>mvs n. (\<forall>mv \<in> set mvs. move_ok (\<lambda>k. 8 \<le> length k) mv) \<and>
          run_moves (cursor_move ?c demo_entries) mvs (length demo_entries) = Some n \<longrightarrow>
          (\<exists>it'. run_moves (do_move ?J) mvs it = Some it' \<and> (it_Valid ?J it' \<longleftrightarrow> n < length demo_entries) \<and>
            (n < length demo_entries \<longrightarrow> it_key ?J it' = Some (fst (demo_entries ! n)) \<and> it_value ?J it' = Some (snd (demo_entries ! n))))))"
    using block_roundtrip [OF K pre] unfolding Let_def by (elim exE conjE) (rule that)
  have "CurrentSizeEstimate b < 2 ^ 32" using demo_size b by simp
  then obtain it where it: "Block_NewIterator (new_Block (bb_buffer (BlockBuilder_Finish b))) = Some (BlockIter it)"
    and run: "\<forall>mvs n. (\<forall>mv \<in> set mvs. move_ok (\<lambda>k. 8 \<le> length k) mv) \<and>
          run_moves (cursor_move ?c demo_entries) mvs (length demo_entries) = Some n \<longrightarrow>
          (\<exists>it'. run_moves (do_move ?J) mvs it = Some it' \<and> (it_Valid ?J it' \<longleftrightarrow> n < length demo_entries) \<and>
            (n < length demo_entries \<longrightarrow> it_key ?J it' = Some (fst (demo_entries ! n)) \<and> it_value ?J it' = Some (snd (demo_entries ! n))))"
    using rd by blast
  have "run_moves (cursor_move ?c demo_entries) [MSeekToLast, MPrev] (length demo_entries) = Some 0" by (simp add: demo_entries_def)
  then have "\<exists>it'. run_moves (do_move ?J) [MSeekToLast, MPrev] it = Some it' \<and> it_value ?J it' = Some [1]"
    using run [rule_format, of "[MSeekToLast, MPrev]" 0] by (auto simp: demo_entries_def)
  then show ?thesis using b it by blast
qed

end
