(* ===== verification/TableFormat.thy ===== *)
theory TableFormat
  imports Crc32c BlockCorrect
begin

text \<open>
  The parts of a table file (\<^verbatim>\<open>table/format.h\<close>, \<^verbatim>\<open>format.cc\<close>): block handles, the footer and reading a block back, with the options
  of \<^verbatim>\<open>include/options.h\<close>. A file is what \<^verbatim>\<open>Env\<close> gives: an append operation and a positioned read, both with a status. The
  compression libraries behind \<^verbatim>\<open>port\<close> are the parameter \<open>Port\<close>; a compressor that is not built in returns \<^const>\<open>None\<close>.
\<close>

datatype CompressionType = kNoCompression | kSnappyCompression | kZstdCompression

primrec compression_code :: "CompressionType \<Rightarrow> byte" where
  "compression_code kNoCompression = 0"
| "compression_code kSnappyCompression = 1"
| "compression_code kZstdCompression = 2"

record Port =
  Snappy_Compress :: "slice \<Rightarrow> slice option"
  Snappy_GetUncompressedLength :: "slice \<Rightarrow> nat option"
  Snappy_Uncompress :: "slice \<Rightarrow> slice option"
  Zstd_Compress :: "int \<Rightarrow> slice \<Rightarrow> slice option"
  Zstd_GetUncompressedLength :: "slice \<Rightarrow> nat option"
  Zstd_Uncompress :: "slice \<Rightarrow> slice option"

record RandomAccessFile =
  rf_Read :: "nat \<Rightarrow> nat \<Rightarrow> Status \<times> slice"
  rf_mapped :: bool

section \<open>Block handles\<close>

record BlockHandle =
  bh_offset :: "64 word"
  bh_size :: "64 word"

definition new_BlockHandle :: BlockHandle where
  "new_BlockHandle = \<lparr>bh_offset = NOT 0, bh_size = NOT 0\<rparr>"

definition BlockHandle_EncodeTo :: "BlockHandle \<Rightarrow> slice \<Rightarrow> slice option" where
  "BlockHandle_EncodeTo h dst =
     (if bh_offset h = NOT 0 then None else if bh_size h = NOT 0 then None
      else Some (PutVarint64 (PutVarint64 dst (bh_offset h)) (bh_size h)))"

definition BlockHandle_DecodeFrom :: "slice \<Rightarrow> Status + BlockHandle \<times> slice" where
  "BlockHandle_DecodeFrom input =
     (case GetVarint64 input of
        None \<Rightarrow> Inl (Corruption ''bad block handle'')
      | Some (offset, input1) \<Rightarrow>
         (case GetVarint64 input1 of
            None \<Rightarrow> Inl (Corruption ''bad block handle'')
          | Some (sz, input2) \<Rightarrow> Inr (\<lparr>bh_offset = offset, bh_size = sz\<rparr>, input2)))"

section \<open>The footer\<close>

abbreviation kMaxEncodedLength :: nat where "kMaxEncodedLength \<equiv> 20"
abbreviation kEncodedLength :: nat where "kEncodedLength \<equiv> 48"

definition kTableMagicNumber :: "64 word" where
  "kTableMagicNumber = 0xdb4775248b80fb57"

record Footer =
  metaindex_handle :: BlockHandle
  index_handle :: BlockHandle

text \<open>\<^verbatim>\<open>dst->resize(n)\<close> cuts the string or pads it with zeros.\<close>

definition resize :: "nat \<Rightarrow> slice \<Rightarrow> slice" where
  "resize n dst = take n dst @ replicate (n - length dst) 0"

definition Footer_EncodeTo :: "Footer \<Rightarrow> slice \<Rightarrow> slice option" where
  "Footer_EncodeTo f dst =
     Option.bind (BlockHandle_EncodeTo (metaindex_handle f) dst) (\<lambda>dst1.
     Option.bind (BlockHandle_EncodeTo (index_handle f) dst1) (\<lambda>dst2.
       let dst3 = resize (2 * kMaxEncodedLength) dst2;
           dst4 = PutFixed32 (PutFixed32 dst3 (ucast (kTableMagicNumber AND 0xffffffff))) (ucast (drop_bit 32 kTableMagicNumber))
       in if length dst4 = length dst + kEncodedLength then Some dst4 else None))"

definition Footer_DecodeFrom :: "slice \<Rightarrow> Status + Footer \<times> slice" where
  "Footer_DecodeFrom input =
     (if length input < kEncodedLength then Inl (Corruption ''not an sstable (footer too short)'')
      else let magic_lo = DecodeFixed32 (drop (kEncodedLength - 8) input);
               magic_hi = DecodeFixed32 (drop (kEncodedLength - 4) input);
               magic = push_bit 32 (ucast magic_hi) OR ucast magic_lo :: 64 word
           in if magic \<noteq> kTableMagicNumber then Inl (Corruption ''not an sstable (bad magic number)'')
              else case BlockHandle_DecodeFrom input of
                Inl s \<Rightarrow> Inl s
              | Inr (meta, input1) \<Rightarrow>
                 (case BlockHandle_DecodeFrom input1 of
                    Inl s \<Rightarrow> Inl s
                  | Inr (index, input2) \<Rightarrow> Inr (\<lparr>metaindex_handle = meta, index_handle = index\<rparr>, drop kEncodedLength input)))"

section \<open>Reading a block\<close>

abbreviation kBlockTrailerSize :: nat where "kBlockTrailerSize \<equiv> 5"

record BlockContents =
  bc_data :: slice
  bc_cachable :: bool
  bc_heap_allocated :: bool

definition ReadBlock :: "Port \<Rightarrow> RandomAccessFile \<Rightarrow> bool \<Rightarrow> BlockHandle \<Rightarrow> Status + BlockContents" where
  "ReadBlock P file verify_checksums h =
     (let n = unat (bh_size h); (s, contents) = rf_Read file (unat (bh_offset h)) (n + kBlockTrailerSize) in
      if s \<noteq> StatusOK then Inl s
      else if length contents \<noteq> n + kBlockTrailerSize then Inl (Corruption ''truncated block read'')
      else if verify_checksums \<and> crc32c_Unmask (DecodeFixed32 (drop (n + 1) contents)) \<noteq> crc32c_Value 0 (take (n + 1) contents)
      then Inl (Corruption ''block checksum mismatch'')
      else let data = take n contents; code = contents ! n in
        if code = compression_code kNoCompression then
          Inr \<lparr>bc_data = data, bc_cachable = \<not> rf_mapped file, bc_heap_allocated = \<not> rf_mapped file\<rparr>
        else if code = compression_code kSnappyCompression then
          (case Snappy_GetUncompressedLength P data of
             None \<Rightarrow> Inl (Corruption ''corrupted snappy compressed block length'')
           | Some ulength \<Rightarrow>
              (case Snappy_Uncompress P data of
                 None \<Rightarrow> Inl (Corruption ''corrupted snappy compressed block contents'')
               | Some ubuf \<Rightarrow> Inr \<lparr>bc_data = take ulength ubuf, bc_cachable = True, bc_heap_allocated = True\<rparr>))
        else if code = compression_code kZstdCompression then
          (case Zstd_GetUncompressedLength P data of
             None \<Rightarrow> Inl (Corruption ''corrupted zstd compressed block length'')
           | Some ulength \<Rightarrow>
              (case Zstd_Uncompress P data of
                 None \<Rightarrow> Inl (Corruption ''corrupted zstd compressed block contents'')
               | Some ubuf \<Rightarrow> Inr \<lparr>bc_data = take ulength ubuf, bc_cachable = True, bc_heap_allocated = True\<rparr>))
        else Inl (Corruption ''bad block type''))"

section \<open>Round trips\<close>

lemma length_EncodeVarint64: "length (EncodeVarint64 v) \<le> 10"
proof -
  have B: "length (EncodeVarint64 v) \<le> n" if "n > 0" "unat v < 2 ^ (7 * n)" for n
    using that
  proof (induction v arbitrary: n rule: EncodeVarint64.induct)
    case (1 v)
    show ?case
    proof (cases "128 \<le> v")
      case True
      then have v: "128 \<le> unat v" by (simp add: word_le_nat_alt)
      have "n \<noteq> 1" using v 1(3) by auto
      then obtain m where m: "n = Suc m" "m > 0" using 1(2) by (cases n) auto
      have "unat (drop_bit 7 v) < 2 ^ (7 * m)" using 1(3) by (simp add: unat_drop_bit_7 m(1) power_add less_mult_imp_div_less mult.commute)
      then show ?thesis using 1(1) [OF True m(2)] True m(1) by (simp add: EncodeVarint64.simps [of v])
    qed (use 1 in \<open>simp add: EncodeVarint64.simps [of v]\<close>)
  qed
  have "unat v < 2 ^ (7 * 10)" using unat_less_exp [of v] by simp
  then show ?thesis by (rule B [rotated]) simp
qed

definition handle_bytes :: "BlockHandle \<Rightarrow> slice" where
  "handle_bytes h = EncodeVarint64 (bh_offset h) @ EncodeVarint64 (bh_size h)"

definition handle_set :: "BlockHandle \<Rightarrow> bool" where
  "handle_set h \<longleftrightarrow> bh_offset h \<noteq> NOT 0 \<and> bh_size h \<noteq> NOT 0"

lemma length_handle_bytes: "length (handle_bytes h) \<le> kMaxEncodedLength"
  using length_EncodeVarint64 [of "bh_offset h"] length_EncodeVarint64 [of "bh_size h"] by (simp add: handle_bytes_def)

lemma EncodeTo_handle: "handle_set h \<Longrightarrow> BlockHandle_EncodeTo h dst = Some (dst @ handle_bytes h)"
  by (simp add: handle_set_def BlockHandle_EncodeTo_def handle_bytes_def PutVarint64_def)

lemma DecodeFrom_handle: "BlockHandle_DecodeFrom (handle_bytes h @ rest) = Inr (h, rest)"
  by (simp add: BlockHandle_DecodeFrom_def handle_bytes_def GetVarint64_PutVarint64)

definition footer_bytes :: "BlockHandle \<Rightarrow> BlockHandle \<Rightarrow> slice" where
  "footer_bytes m i = (handle_bytes m @ handle_bytes i) @ replicate (40 - length (handle_bytes m @ handle_bytes i)) 0 @
     EncodeFixed32 (ucast (kTableMagicNumber AND 0xffffffff)) @ EncodeFixed32 (ucast (drop_bit 32 kTableMagicNumber))"

lemma length_footer_bytes [simp]: "length (footer_bytes m i) = kEncodedLength"
  using length_handle_bytes [of m] length_handle_bytes [of i] by (simp add: footer_bytes_def)

lemma EncodeTo_footer:
  assumes "handle_set m" "handle_set i"
  shows "Footer_EncodeTo \<lparr>metaindex_handle = m, index_handle = i\<rparr> [] = Some (footer_bytes m i)"
proof -
  have l: "length (handle_bytes m @ handle_bytes i) \<le> 40" using length_handle_bytes [of m] length_handle_bytes [of i] by simp
  have "PutFixed32 (PutFixed32 (resize (2 * kMaxEncodedLength) (handle_bytes m @ handle_bytes i)) (ucast (kTableMagicNumber AND 0xffffffff)))
      (ucast (drop_bit 32 kTableMagicNumber)) = footer_bytes m i"
    using l by (simp add: resize_def footer_bytes_def PutFixed32_def)
  then show ?thesis using assms by (simp add: Footer_EncodeTo_def EncodeTo_handle Let_def)
qed

lemma DecodeFrom_footer: "Footer_DecodeFrom (footer_bytes m i) = Inr (\<lparr>metaindex_handle = m, index_handle = i\<rparr>, [])"
proof -
  have l: "length (handle_bytes m @ handle_bytes i) \<le> 40" using length_handle_bytes [of m] length_handle_bytes [of i] by simp
  let ?lo = "EncodeFixed32 (ucast (kTableMagicNumber AND 0xffffffff))" and ?hi = "EncodeFixed32 (ucast (drop_bit 32 kTableMagicNumber))"
  have "footer_bytes m i = ((handle_bytes m @ handle_bytes i) @ replicate (40 - length (handle_bytes m @ handle_bytes i)) 0) @ ?lo @ ?hi"
    by (simp add: footer_bytes_def)
  moreover have "length ((handle_bytes m @ handle_bytes i) @ replicate (40 - length (handle_bytes m @ handle_bytes i)) (0 :: byte)) = 40"
    using l by simp
  ultimately have d: "drop 40 (footer_bytes m i) = ?lo @ ?hi" "drop 44 (footer_bytes m i) = ?hi"
    using drop_append [of 44 _ "?lo @ ?hi"] by simp_all
  have magic: "push_bit 32 (ucast (ucast (drop_bit 32 kTableMagicNumber) :: 32 word)) OR ucast (ucast (kTableMagicNumber AND 0xffffffff) :: 32 word)
      = kTableMagicNumber" by (simp add: kTableMagicNumber_def)
  have h: "BlockHandle_DecodeFrom (footer_bytes m i) = Inr (m, handle_bytes i @ drop (length (handle_bytes m @ handle_bytes i)) (footer_bytes m i))"
    "BlockHandle_DecodeFrom (handle_bytes i @ r) = Inr (i, r)" for r
    using DecodeFrom_handle [of m] DecodeFrom_handle [of i] by (simp_all add: footer_bytes_def)
  show ?thesis using d magic h by (simp add: Footer_DecodeFrom_def Let_def)
qed

end
