(* ===== verification/TableBuild.thy ===== *)
theory TableBuild
  imports TableFormat Bloom
begin

text \<open>
  The table builder of \<^verbatim>\<open>table/table_builder.cc\<close>: data blocks written as they fill up, an index block with a key that separates each
  block from the next, the filter block, the metaindex block and the footer. A failed assertion is \<^const>\<open>None\<close>; a failed write is
  kept in the status of the builder.
\<close>

record FilterPolicy =
  fp_Name :: slice
  fp_CreateFilter :: "slice list \<Rightarrow> slice \<Rightarrow> slice"
  fp_KeyMayMatch :: "slice \<Rightarrow> slice \<Rightarrow> bool"

record Comparator =
  co_Name :: slice
  co_Compare :: "slice \<Rightarrow> slice \<Rightarrow> int"
  co_FindShortestSeparator :: "slice \<Rightarrow> slice \<Rightarrow> slice result"
  co_FindShortSuccessor :: "slice \<Rightarrow> slice result"

record Options =
  comparator :: Comparator
  paranoid_checks :: bool
  block_size :: nat
  block_restart_interval :: nat
  compression :: CompressionType
  zstd_compression_level :: int
  filter_policy :: "FilterPolicy option"

record 'f WritableFile =
  wf_Append :: "slice \<Rightarrow> 'f \<Rightarrow> Status \<times> 'f"
  wf_Flush :: "'f \<Rightarrow> Status \<times> 'f"

definition result_option :: "'a result \<Rightarrow> 'a option" where
  "result_option r = (case r of Inl _ \<Rightarrow> None | Inr x \<Rightarrow> Some x)"

record 'f TableBuilder =
  tb_options :: Options
  tb_index_options :: Options
  tb_file :: 'f
  tb_offset :: "64 word"
  tb_status :: Status
  tb_data_block :: block_builder
  tb_index_block :: block_builder
  tb_last_key :: slice
  tb_num_entries :: int
  tb_closed :: bool
  tb_filter_block :: "(FilterPolicy \<times> filter_builder) option"
  tb_pending_index_entry :: bool
  tb_pending_handle :: BlockHandle

definition tb_ok :: "'f TableBuilder \<Rightarrow> bool" where
  "tb_ok r = (tb_status r = StatusOK)"

text \<open>Starting a block of the filter, if the table has one.\<close>

definition filter_StartBlock :: "nat \<Rightarrow> (FilterPolicy \<times> filter_builder) option \<Rightarrow> (FilterPolicy \<times> filter_builder) option option" where
  "filter_StartBlock offset fb =
     (case fb of
        None \<Rightarrow> Some None
      | Some (pol, b) \<Rightarrow> map_option (\<lambda>b'. Some (pol, b')) (result_option (StartBlock (fp_CreateFilter pol) offset b)))"

definition new_TableBuilder :: "Options \<Rightarrow> 'f \<Rightarrow> 'f TableBuilder option" where
  "new_TableBuilder opt file =
     Option.bind (new_BlockBuilder (block_restart_interval opt)) (\<lambda>bb.
     Option.bind (filter_StartBlock 0 (map_option (\<lambda>pol. (pol, new_filter_builder)) (filter_policy opt))) (\<lambda>fb.
       Some \<lparr>tb_options = opt, tb_index_options = opt\<lparr>block_restart_interval := 1\<rparr>, tb_file = file, tb_offset = 0, tb_status = StatusOK,
             tb_data_block = bb, tb_index_block = bb, tb_last_key = [], tb_num_entries = 0, tb_closed = False, tb_filter_block = fb,
             tb_pending_index_entry = False, tb_pending_handle = new_BlockHandle\<rparr>))"

definition ChangeOptions :: "Options \<Rightarrow> 'f TableBuilder \<Rightarrow> Status \<times> 'f TableBuilder" where
  "ChangeOptions opt r =
     (if co_Name (comparator opt) \<noteq> co_Name (comparator (tb_options r))
      then (InvalidArgument ''changing comparator while building table'', r)
      else (StatusOK, r\<lparr>tb_options := opt, tb_index_options := opt\<lparr>block_restart_interval := 1\<rparr>\<rparr>))"

definition WriteRawBlock ::
  "'f WritableFile \<Rightarrow> slice \<Rightarrow> CompressionType \<Rightarrow> 'f TableBuilder \<Rightarrow> BlockHandle \<times> 'f TableBuilder" where
  "WriteRawBlock W block_contents type r =
     (let handle = \<lparr>bh_offset = tb_offset r, bh_size = of_nat (length block_contents)\<rparr>;
          (s1, f1) = wf_Append W block_contents (tb_file r) in
      if s1 \<noteq> StatusOK then (handle, r\<lparr>tb_status := s1, tb_file := f1\<rparr>)
      else let crc = crc32c_Extend 0 (crc32c_Value 0 block_contents) [compression_code type];
               (s2, f2) = wf_Append W (compression_code type # EncodeFixed32 (crc32c_Mask crc)) f1 in
        (handle, r\<lparr>tb_status := s2, tb_file := f2,
           tb_offset := (if s2 = StatusOK then tb_offset r + of_nat (length block_contents + kBlockTrailerSize) else tb_offset r)\<rparr>))"

text \<open>What a block is stored as: its bytes, or compressed if that saves at least an eighth.\<close>

definition compress_block :: "Port \<Rightarrow> Options \<Rightarrow> slice \<Rightarrow> slice \<times> CompressionType" where
  "compress_block P opt raw =
     (case compression opt of
        kNoCompression \<Rightarrow> (raw, kNoCompression)
      | kSnappyCompression \<Rightarrow>
         (case Snappy_Compress P raw of
            None \<Rightarrow> (raw, kNoCompression)
          | Some compressed \<Rightarrow>
              if length compressed < length raw - length raw div 8 then (compressed, kSnappyCompression) else (raw, kNoCompression))
      | kZstdCompression \<Rightarrow>
         (case Zstd_Compress P (zstd_compression_level opt) raw of
            None \<Rightarrow> (raw, kNoCompression)
          | Some compressed \<Rightarrow>
              if length compressed < length raw - length raw div 8 then (compressed, kZstdCompression) else (raw, kNoCompression)))"

definition WriteBlock ::
  "'f WritableFile \<Rightarrow> Port \<Rightarrow> block_builder \<Rightarrow> 'f TableBuilder \<Rightarrow> (BlockHandle \<times> block_builder \<times> 'f TableBuilder) option" where
  "WriteBlock W P bb r =
     (if \<not> tb_ok r then None
      else let (block_contents, type) = compress_block P (tb_options r) (bb_buffer (BlockBuilder_Finish bb));
               (handle, r1) = WriteRawBlock W block_contents type r
           in Some (handle, BlockBuilder_Reset bb, r1))"

definition TableBuilder_Flush :: "'f WritableFile \<Rightarrow> Port \<Rightarrow> 'f TableBuilder \<Rightarrow> 'f TableBuilder option" where
  "TableBuilder_Flush W P r =
     (if tb_closed r then None
      else if \<not> tb_ok r then Some r
      else if bb_buffer (tb_data_block r) = [] then Some r
      else if tb_pending_index_entry r then None
      else Option.bind (WriteBlock W P (tb_data_block r) r) (\<lambda>(handle, bb, r1).
        let r2 = r1\<lparr>tb_data_block := bb, tb_pending_handle := handle\<rparr>;
            r3 = (if tb_ok r2 then let (s, f) = wf_Flush W (tb_file r2) in r2\<lparr>tb_pending_index_entry := True, tb_status := s, tb_file := f\<rparr>
                  else r2)
        in map_option (\<lambda>fb. r3\<lparr>tb_filter_block := fb\<rparr>) (filter_StartBlock (unat (tb_offset r3)) (tb_filter_block r3))))"

text \<open>The index entry of the block written last, under the key \<open>sep\<close>.\<close>

definition add_index_entry :: "slice \<Rightarrow> 'f TableBuilder \<Rightarrow> 'f TableBuilder option" where
  "add_index_entry sep r =
     Option.bind (BlockHandle_EncodeTo (tb_pending_handle r) []) (\<lambda>handle_encoding.
     map_option (\<lambda>ib. r\<lparr>tb_last_key := sep, tb_index_block := ib, tb_pending_index_entry := False\<rparr>)
       (BlockBuilder_Add (block_restart_interval (tb_index_options r)) sep handle_encoding (tb_index_block r)))"

definition TableBuilder_Add :: "'f WritableFile \<Rightarrow> Port \<Rightarrow> slice \<Rightarrow> slice \<Rightarrow> 'f TableBuilder \<Rightarrow> 'f TableBuilder option" where
  "TableBuilder_Add W P key value r =
     (if tb_closed r then None
      else if \<not> tb_ok r then Some r
      else if tb_num_entries r > 0 \<and> \<not> co_Compare (comparator (tb_options r)) key (tb_last_key r) > 0 then None
      else Option.bind
        (if tb_pending_index_entry r then
           if bb_buffer (tb_data_block r) \<noteq> [] then None
           else Option.bind (result_option (co_FindShortestSeparator (comparator (tb_options r)) (tb_last_key r) key)) (\<lambda>sep. add_index_entry sep r)
         else Some r) (\<lambda>r1.
        let r2 = r1\<lparr>tb_filter_block := map_option (apsnd (AddKey key)) (tb_filter_block r1), tb_last_key := key, tb_num_entries := tb_num_entries r1 + 1\<rparr> in
        Option.bind (BlockBuilder_Add (block_restart_interval (tb_options r2)) key value (tb_data_block r2)) (\<lambda>bb.
          let r3 = r2\<lparr>tb_data_block := bb\<rparr> in
          if CurrentSizeEstimate bb \<ge> block_size (tb_options r3) then TableBuilder_Flush W P r3 else Some r3)))"

definition filter_key :: "FilterPolicy \<Rightarrow> slice" where
  "filter_key pol = [102, 105, 108, 116, 101, 114, 46] @ fp_Name pol"

text \<open>The parts of \<^verbatim>\<open>Finish\<close> after the last data block: filter block, metaindex block, index block, footer, each while no write failed.\<close>

definition finish_filter :: "'f WritableFile \<Rightarrow> 'f TableBuilder \<Rightarrow> BlockHandle \<times> 'f TableBuilder" where
  "finish_filter W r =
     (case tb_filter_block r of
        Some (pol, fb) \<Rightarrow>
          if tb_ok r then WriteRawBlock W (Bloom.Finish (fp_CreateFilter pol) fb) kNoCompression r else (new_BlockHandle, r)
      | None \<Rightarrow> (new_BlockHandle, r))"

definition finish_metaindex :: "'f WritableFile \<Rightarrow> Port \<Rightarrow> BlockHandle \<Rightarrow> 'f TableBuilder \<Rightarrow> (BlockHandle \<times> 'f TableBuilder) option" where
  "finish_metaindex W P filter_handle r =
     (if \<not> tb_ok r then Some (new_BlockHandle, r)
      else Option.bind (new_BlockBuilder (block_restart_interval (tb_options r))) (\<lambda>bb.
        Option.bind
          (if tb_filter_block r \<noteq> None then
             Option.bind (filter_policy (tb_options r)) (\<lambda>pol.
             Option.bind (BlockHandle_EncodeTo filter_handle []) (\<lambda>enc.
               BlockBuilder_Add (block_restart_interval (tb_options r)) (filter_key pol) enc bb))
           else Some bb) (\<lambda>bb1.
          map_option (\<lambda>(handle, _, r1). (handle, r1)) (WriteBlock W P bb1 r))))"

definition finish_index :: "'f WritableFile \<Rightarrow> Port \<Rightarrow> 'f TableBuilder \<Rightarrow> (BlockHandle \<times> 'f TableBuilder) option" where
  "finish_index W P r =
     (if \<not> tb_ok r then Some (new_BlockHandle, r)
      else Option.bind
        (if tb_pending_index_entry r then
           Option.bind (result_option (co_FindShortSuccessor (comparator (tb_options r)) (tb_last_key r))) (\<lambda>succ. add_index_entry succ r)
         else Some r) (\<lambda>r1.
        map_option (\<lambda>(handle, ib, r2). (handle, r2\<lparr>tb_index_block := ib\<rparr>)) (WriteBlock W P (tb_index_block r1) r1)))"

definition finish_footer :: "'f WritableFile \<Rightarrow> BlockHandle \<Rightarrow> BlockHandle \<Rightarrow> 'f TableBuilder \<Rightarrow> 'f TableBuilder option" where
  "finish_footer W meta index r =
     (if \<not> tb_ok r then Some r
      else map_option (\<lambda>enc.
        let (s, f) = wf_Append W enc (tb_file r) in
        r\<lparr>tb_status := s, tb_file := f, tb_offset := (if s = StatusOK then tb_offset r + of_nat (length enc) else tb_offset r)\<rparr>)
        (Footer_EncodeTo \<lparr>metaindex_handle = meta, index_handle = index\<rparr> []))"

definition TableBuilder_Finish :: "'f WritableFile \<Rightarrow> Port \<Rightarrow> 'f TableBuilder \<Rightarrow> (Status \<times> 'f TableBuilder) option" where
  "TableBuilder_Finish W P r =
     Option.bind (TableBuilder_Flush W P r) (\<lambda>r1.
       if tb_closed r1 then None
       else let (filter_handle, r2) = finish_filter W (r1\<lparr>tb_closed := True\<rparr>) in
         Option.bind (finish_metaindex W P filter_handle r2) (\<lambda>(meta, r3).
         Option.bind (finish_index W P r3) (\<lambda>(index, r4).
         map_option (\<lambda>r5. (tb_status r5, r5)) (finish_footer W meta index r4))))"

definition TableBuilder_Abandon :: "'f TableBuilder \<Rightarrow> 'f TableBuilder option" where
  "TableBuilder_Abandon r = (if tb_closed r then None else Some (r\<lparr>tb_closed := True\<rparr>))"

definition NumEntries :: "'f TableBuilder \<Rightarrow> 64 word" where
  "NumEntries r = of_int (tb_num_entries r)"

definition FileSize :: "'f TableBuilder \<Rightarrow> 64 word" where
  "FileSize r = tb_offset r"

end
