(* ===== verification/TwoLevel.thy ===== *)
theory TwoLevel
  imports MergeIter
begin

text \<open>
  The two-level iterator of \<^verbatim>\<open>table/two_level_iterator.cc\<close>: an index iterator whose values name blocks, and a
  function that opens a block. It is the iterator of a table over its data blocks and of a level over its
  files. Given an index whose keys separate the blocks, it satisfies the contract \<open>sorted_iter\<close> for the
  concatenation of the blocks. The error status is not modelled; an operation that fails an assertion, or a
  block function that does not return, is \<^const>\<open>None\<close>.
\<close>

section \<open>The iterator\<close>

record ('ix, 'it) TwoLevelIterator =
  tl_index :: "'ix IteratorWrapper"
  tl_data :: "'it IteratorWrapper option"
  tl_handle :: slice

definition NewTwoLevelIterator :: "'ix Iterator \<Rightarrow> 'ix \<Rightarrow> ('ix, 'it) TwoLevelIterator option" where
  "NewTwoLevelIterator IX index_iter =
     map_option (\<lambda>w. \<lparr>tl_index = w, tl_data = None, tl_handle = []\<rparr>) (wr_Set IX index_iter)"

definition InitDataBlock ::
  "'ix Iterator \<Rightarrow> 'it Iterator \<Rightarrow> (slice \<Rightarrow> 'it option) \<Rightarrow> ('ix, 'it) TwoLevelIterator \<Rightarrow> ('ix, 'it) TwoLevelIterator option" where
  "InitDataBlock IX I block_function t =
     (if \<not> wr_valid (tl_index t) then Some (t\<lparr>tl_data := None\<rparr>)
      else case it_value IX (wr_iter (tl_index t)) of
        None \<Rightarrow> None
      | Some handle \<Rightarrow>
          if tl_data t \<noteq> None \<and> Slice_compare handle (tl_handle t) = 0 then Some t
          else case block_function handle of
            None \<Rightarrow> None
          | Some iter \<Rightarrow> map_option (\<lambda>w. t\<lparr>tl_handle := handle, tl_data := Some w\<rparr>) (wr_Set I iter))"

text \<open>The guarded calls \<^verbatim>\<open>if (data_iter_.iter() != nullptr) data_iter_.f()\<close>.\<close>

definition on_data ::
  "('it IteratorWrapper \<Rightarrow> 'it IteratorWrapper option) \<Rightarrow> ('ix, 'it) TwoLevelIterator \<Rightarrow> ('ix, 'it) TwoLevelIterator option" where
  "on_data f t =
     (case tl_data t of None \<Rightarrow> Some t | Some w \<Rightarrow> map_option (\<lambda>w'. t\<lparr>tl_data := Some w'\<rparr>) (f w))"

definition data_valid :: "('ix, 'it) TwoLevelIterator \<Rightarrow> bool" where
  "data_valid t = (case tl_data t of None \<Rightarrow> False | Some w \<Rightarrow> wr_valid w)"

text \<open>One round of the skipping loops: move the index, open its block, place the block iterator.\<close>

definition next_block ::
  "'ix Iterator \<Rightarrow> 'it Iterator \<Rightarrow> (slice \<Rightarrow> 'it option) \<Rightarrow> ('ix IteratorWrapper \<Rightarrow> 'ix IteratorWrapper option) \<Rightarrow>
    ('it IteratorWrapper \<Rightarrow> 'it IteratorWrapper option) \<Rightarrow> ('ix, 'it) TwoLevelIterator \<Rightarrow> ('ix, 'it) TwoLevelIterator option" where
  "next_block IX I block_function move place t =
     (case move (tl_index t) of
        None \<Rightarrow> None
      | Some w \<Rightarrow>
         (case InitDataBlock IX I block_function (t\<lparr>tl_index := w\<rparr>) of
            None \<Rightarrow> None
          | Some t' \<Rightarrow> on_data place t'))"

partial_function (option) SkipEmptyDataBlocksForward ::
  "'ix Iterator \<Rightarrow> 'it Iterator \<Rightarrow> (slice \<Rightarrow> 'it option) \<Rightarrow> ('ix, 'it) TwoLevelIterator \<Rightarrow> ('ix, 'it) TwoLevelIterator option" where
  "SkipEmptyDataBlocksForward IX I block_function t =
     (if data_valid t then Some t
      else if \<not> wr_valid (tl_index t) then Some (t\<lparr>tl_data := None\<rparr>)
      else case next_block IX I block_function (wr_Next IX) (wr_SeekToFirst I) t of
        None \<Rightarrow> None
      | Some t' \<Rightarrow> SkipEmptyDataBlocksForward IX I block_function t')"

partial_function (option) SkipEmptyDataBlocksBackward ::
  "'ix Iterator \<Rightarrow> 'it Iterator \<Rightarrow> (slice \<Rightarrow> 'it option) \<Rightarrow> ('ix, 'it) TwoLevelIterator \<Rightarrow> ('ix, 'it) TwoLevelIterator option" where
  "SkipEmptyDataBlocksBackward IX I block_function t =
     (if data_valid t then Some t
      else if \<not> wr_valid (tl_index t) then Some (t\<lparr>tl_data := None\<rparr>)
      else case next_block IX I block_function (wr_Prev IX) (wr_SeekToLast I) t of
        None \<Rightarrow> None
      | Some t' \<Rightarrow> SkipEmptyDataBlocksBackward IX I block_function t')"

definition tl_Seek ::
  "'ix Iterator \<Rightarrow> 'it Iterator \<Rightarrow> (slice \<Rightarrow> 'it option) \<Rightarrow> slice \<Rightarrow> ('ix, 'it) TwoLevelIterator \<Rightarrow> ('ix, 'it) TwoLevelIterator option" where
  "tl_Seek IX I bf target t =
     Option.bind (next_block IX I bf (wr_Seek IX target) (wr_Seek I target) t) (SkipEmptyDataBlocksForward IX I bf)"

definition tl_SeekToFirst ::
  "'ix Iterator \<Rightarrow> 'it Iterator \<Rightarrow> (slice \<Rightarrow> 'it option) \<Rightarrow> ('ix, 'it) TwoLevelIterator \<Rightarrow> ('ix, 'it) TwoLevelIterator option" where
  "tl_SeekToFirst IX I bf t =
     Option.bind (next_block IX I bf (wr_SeekToFirst IX) (wr_SeekToFirst I) t) (SkipEmptyDataBlocksForward IX I bf)"

definition tl_SeekToLast ::
  "'ix Iterator \<Rightarrow> 'it Iterator \<Rightarrow> (slice \<Rightarrow> 'it option) \<Rightarrow> ('ix, 'it) TwoLevelIterator \<Rightarrow> ('ix, 'it) TwoLevelIterator option" where
  "tl_SeekToLast IX I bf t =
     Option.bind (next_block IX I bf (wr_SeekToLast IX) (wr_SeekToLast I) t) (SkipEmptyDataBlocksBackward IX I bf)"

definition tl_Next ::
  "'ix Iterator \<Rightarrow> 'it Iterator \<Rightarrow> (slice \<Rightarrow> 'it option) \<Rightarrow> ('ix, 'it) TwoLevelIterator \<Rightarrow> ('ix, 'it) TwoLevelIterator option" where
  "tl_Next IX I bf t =
     (if \<not> data_valid t then None
      else Option.bind (on_data (wr_Next I) t) (SkipEmptyDataBlocksForward IX I bf))"

definition tl_Prev ::
  "'ix Iterator \<Rightarrow> 'it Iterator \<Rightarrow> (slice \<Rightarrow> 'it option) \<Rightarrow> ('ix, 'it) TwoLevelIterator \<Rightarrow> ('ix, 'it) TwoLevelIterator option" where
  "tl_Prev IX I bf t =
     (if \<not> data_valid t then None
      else Option.bind (on_data (wr_Prev I) t) (SkipEmptyDataBlocksBackward IX I bf))"

definition tl_key :: "('ix, 'it) TwoLevelIterator \<Rightarrow> slice option" where
  "tl_key t = (if \<not> data_valid t then None else map_option wr_key (tl_data t))"

definition tl_value :: "'it Iterator \<Rightarrow> ('ix, 'it) TwoLevelIterator \<Rightarrow> slice option" where
  "tl_value I t = (if \<not> data_valid t then None else Option.bind (tl_data t) (\<lambda>w. it_value I (wr_iter w)))"

definition two_level_iterator ::
  "'ix Iterator \<Rightarrow> 'it Iterator \<Rightarrow> (slice \<Rightarrow> 'it option) \<Rightarrow> ('ix, 'it) TwoLevelIterator Iterator" where
  "two_level_iterator IX I bf = \<lparr>it_Valid = data_valid, it_SeekToFirst = tl_SeekToFirst IX I bf,
     it_SeekToLast = tl_SeekToLast IX I bf, it_Seek = tl_Seek IX I bf, it_Next = tl_Next IX I bf, it_Prev = tl_Prev IX I bf,
     it_key = tl_key, it_value = tl_value I\<rparr>"

section \<open>Concatenated blocks\<close>

definition block_start :: "'a list list \<Rightarrow> nat \<Rightarrow> nat" where
  "block_start bs x = length (concat (take x bs))"

lemma block_start_Suc: "x < length bs \<Longrightarrow> block_start bs (Suc x) = block_start bs x + length (bs ! x)"
  by (simp add: block_start_def take_Suc_conv_app_nth)

lemma block_start_end: "length bs \<le> x \<Longrightarrow> block_start bs x = length (concat bs)"
  by (simp add: block_start_def)

lemma block_start_0 [simp]: "block_start bs 0 = 0"
  by (simp add: block_start_def)

lemma block_start_le: "block_start bs x \<le> length (concat bs)"
proof -
  have "concat bs = concat (take x bs) @ concat (drop x bs)" by (metis append_take_drop_id concat_append)
  then show ?thesis by (simp add: block_start_def)
qed

lemma concat_nth:
  assumes "x < length bs" "p < length (bs ! x)"
  shows "concat bs ! (block_start bs x + p) = bs ! x ! p" "block_start bs x + p < length (concat bs)"
proof -
  have "concat bs = concat (take x bs) @ bs ! x @ concat (drop (Suc x) bs)"
    by (metis append_take_drop_id assms(1) concat.simps(2) concat_append Cons_nth_drop_Suc)
  then show "concat bs ! (block_start bs x + p) = bs ! x ! p" "block_start bs x + p < length (concat bs)"
    using assms(2) by (simp_all add: block_start_def nth_append)
qed

lemma lower_append:
  "lower cmp (xs @ ys) t = (if lower cmp xs t = length xs then length xs + lower cmp ys t else lower cmp xs t)"
  by (induction xs) (auto simp: lower_def)

lemma lower_0: "(\<And>a. a \<in> set xs \<Longrightarrow> \<not> cmp (fst a) t < 0) \<Longrightarrow> lower cmp xs t = 0"
  by (cases xs) (simp_all add: lower_def)

section \<open>The contract\<close>

text \<open>
  The index \<open>xs\<close> separates its blocks: every block can be opened, its keys are at most the index key,
  and the keys of all later blocks are greater.
\<close>

locale two_level = index: sorted_iter valid cmp IX okx itemsx posx + sorted_iter valid cmp I ok items pos
  for valid :: "slice \<Rightarrow> bool" and cmp :: "slice \<Rightarrow> slice \<Rightarrow> int"
    and IX :: "'ix Iterator" and okx :: "'ix \<Rightarrow> bool" and itemsx :: "'ix \<Rightarrow> (slice \<times> slice) list" and posx :: "'ix \<Rightarrow> nat"
    and I :: "'it Iterator" and ok :: "'it \<Rightarrow> bool" and items :: "'it \<Rightarrow> (slice \<times> slice) list" and pos :: "'it \<Rightarrow> nat" +
  fixes bf :: "slice \<Rightarrow> 'it option"
begin

definition block :: "slice \<Rightarrow> (slice \<times> slice) list" where
  "block h = (case bf h of None \<Rightarrow> [] | Some it \<Rightarrow> items it)"

definition separated :: "(slice \<times> slice) list \<Rightarrow> bool" where
  "separated xs \<longleftrightarrow> (\<forall>e \<in> set xs. \<exists>it. bf (snd e) = Some it \<and> ok it) \<and>
     (\<forall>e \<in> set xs. \<forall>a \<in> set (block (snd e)). cmp (fst a) (fst e) \<le> 0) \<and>
     sorted_wrt (\<lambda>e f. \<forall>b \<in> set (block (snd f)). cmp (fst e) (fst b) < 0) xs"

definition blocks :: "('ix, 'it) TwoLevelIterator \<Rightarrow> (slice \<times> slice) list list" where
  "blocks t = map (\<lambda>e. block (snd e)) (index.witems (tl_index t))"

definition titems :: "('ix, 'it) TwoLevelIterator \<Rightarrow> (slice \<times> slice) list" where
  "titems t = concat (blocks t)"

definition tpos :: "('ix, 'it) TwoLevelIterator \<Rightarrow> nat" where
  "tpos t = (case tl_data t of None \<Rightarrow> length (titems t)
     | Some w \<Rightarrow> block_start (blocks t) (index.wpos (tl_index t)) + wpos w)"

text \<open>The index is in order and the block iterator, if any, runs over the block its handle names.\<close>

definition loaded :: "('ix, 'it) TwoLevelIterator \<Rightarrow> bool" where
  "loaded t \<longleftrightarrow> index.wok (tl_index t) \<and> separated (index.witems (tl_index t)) \<and>
     (case tl_data t of None \<Rightarrow> True | Some w \<Rightarrow> wok w \<and> witems w = block (tl_handle t))"

text \<open>The handle is the one of the current index entry.\<close>

definition aligned :: "('ix, 'it) TwoLevelIterator \<Rightarrow> bool" where
  "aligned t \<longleftrightarrow> loaded t \<and>
     (tl_data t \<noteq> None \<longrightarrow> index.wpos (tl_index t) < length (index.witems (tl_index t)) \<and>
        tl_handle t = snd (index.witems (tl_index t) ! index.wpos (tl_index t)))"

definition tok :: "('ix, 'it) TwoLevelIterator \<Rightarrow> bool" where
  "tok t \<longleftrightarrow> aligned t \<and> (tl_data t \<noteq> None \<longrightarrow> data_valid t)"

lemma separated_ascending:
  assumes "separated xs" "index.ascending xs"
  shows "index.ascending (concat (map (\<lambda>e. block (snd e)) xs))"
  using assms
proof (induction xs)
  case (Cons e xs)
  obtain it where it: "bf (snd e) = Some it" "ok it" using Cons.prems(1) by (auto simp: separated_def)
  have b: "block (snd e) = items it" using it(1) by (simp add: block_def)
  have asc: "index.ascending (items it)" by (rule ascends [OF it(2)])
  have IH: "index.ascending (concat (map (\<lambda>e. block (snd e)) xs))" using Cons by (simp add: separated_def)
  have "cmp (fst a) (fst c) < 0" if "a \<in> set (items it)" "f \<in> set xs" "c \<in> set (block (snd f))" for a c f
  proof -
    have "cmp (fst a) (fst e) \<le> 0" "cmp (fst e) (fst c) < 0"
      using Cons.prems(1) that b by (auto simp: separated_def)
    moreover have "valid (fst a)" "valid (fst e)" using asc that(1) Cons.prems(2) by auto
    moreover have "valid (fst c)" using IH that by auto
    ultimately show ?thesis using index.cmp_le_less_trans [of "fst a" "fst e" "fst c"] by simp
  qed
  then show ?case using IH b asc by (auto simp: sorted_wrt_append)
qed simp

lemma loaded_block:
  assumes "loaded t" "x < length (index.witems (tl_index t))"
  shows "x < length (blocks t)" "blocks t ! x = block (snd (index.witems (tl_index t) ! x))"
  using assms(2) by (simp_all add: blocks_def)

lemma length_blocks: "length (blocks t) = length (index.witems (tl_index t))"
  by (simp add: blocks_def)

lemma InitDataBlock_ok:
  assumes "loaded t"
  shows "\<exists>t'. InitDataBlock IX I bf t = Some t' \<and> aligned t' \<and> tl_index t' = tl_index t \<and>
    (tl_data t' \<noteq> None \<longleftrightarrow> index.wpos (tl_index t) < length (index.witems (tl_index t)))"
proof -
  let ?x = "tl_index t"
  have x: "index.wok ?x" using assms by (simp add: loaded_def)
  note R = index.wok_read [OF x]
  show ?thesis
  proof (cases "wr_valid ?x")
    case False
    then show ?thesis using R(1) assms by (simp add: InitDataBlock_def aligned_def loaded_def)
  next
    case True
    let ?h = "snd (index.witems ?x ! index.wpos ?x)"
    have p: "index.wpos ?x < length (index.witems ?x)" using True R(1) by simp
    then have "\<exists>it. bf ?h = Some it \<and> ok it" using assms by (auto simp: loaded_def separated_def)
    then obtain it where it: "bf ?h = Some it" "ok it" by blast
    obtain w where w: "wr_Set I it = Some w" "wok w" "wr_iter w = it" using wr_Set_ok [OF it(2)] by blast
    have i: "InitDataBlock IX I bf t =
      (if tl_data t \<noteq> None \<and> ?h = tl_handle t then Some t else Some (t\<lparr>tl_handle := ?h, tl_data := Some w\<rparr>))"
      using True R(3) it w(1) by (simp add: InitDataBlock_def)
    show ?thesis unfolding i using assms p w it(1)
      by (auto simp: aligned_def loaded_def block_def)
  qed
qed

text \<open>What a block iterator placed at \<open>p\<close> in the block at \<open>n\<close> looks like; there is none past the index.\<close>

definition placed :: "('ix, 'it) TwoLevelIterator \<Rightarrow> nat \<Rightarrow> nat \<Rightarrow> bool" where
  "placed t n p \<longleftrightarrow> index.wpos (tl_index t) = n \<and>
     (case tl_data t of None \<Rightarrow> length (blocks t) \<le> n
      | Some w \<Rightarrow> n < length (blocks t) \<and> witems w = blocks t ! n \<and> wpos w = p)"

lemma next_block_ok:
  assumes t: "loaded t" and move: "index.moves (tl_index t) (move (tl_index t)) n"
    and place: "\<And>w. wok w \<Longrightarrow> moves w (place w) (p (witems w))"
  shows "\<exists>t'. next_block IX I bf move place t = Some t' \<and> aligned t' \<and> blocks t' = blocks t \<and>
    index.witems (tl_index t') = index.witems (tl_index t) \<and> placed t' n (p (blocks t ! n))"
proof -
  obtain x where x: "move (tl_index t) = Some x" "index.wok x" "index.witems x = index.witems (tl_index t)" "index.wpos x = n"
    using move by (auto simp: index.moves_def)
  have "loaded (t\<lparr>tl_index := x\<rparr>)" using t x(2,3) by (cases "tl_data t") (simp_all add: loaded_def)
  from InitDataBlock_ok [OF this]
  obtain u where u: "InitDataBlock IX I bf (t\<lparr>tl_index := x\<rparr>) = Some u" "aligned u" "tl_index u = x"
    "tl_data u \<noteq> None \<longleftrightarrow> n < length (index.witems x)" using x(4) by auto
  have b: "blocks u = blocks t" using u(3) x(3) by (simp add: blocks_def)
  show ?thesis
  proof (cases "tl_data u")
    case None
    then have "next_block IX I bf move place t = Some u" using x(1) u(1) by (simp add: next_block_def on_data_def)
    moreover have "placed u n (p (blocks t ! n))" using None u(3,4) x(4) by (simp add: placed_def length_blocks)
    ultimately show ?thesis using u(2,3) x(3) b by auto
  next
    case (Some w)
    have w: "wok w" "witems w = block (tl_handle u)" using u(2) Some by (simp_all add: aligned_def loaded_def)
    obtain w' where w': "place w = Some w'" "wok w'" "witems w' = witems w" "wpos w' = p (witems w)"
      using place [OF w(1)] by (auto simp: moves_def)
    let ?u = "u\<lparr>tl_data := Some w'\<rparr>"
    have n: "n < length (index.witems x)" using u(4) Some by simp
    then have bn: "witems w = blocks t ! n" using w(2) u(2,3) Some x(3,4) by (simp add: aligned_def blocks_def)
    have "next_block IX I bf move place t = Some ?u" using x(1) u(1) Some w'(1) by (simp add: next_block_def on_data_def)
    moreover have "aligned ?u" using u(2) Some w' by (simp add: aligned_def loaded_def)
    moreover have "placed ?u n (p (blocks t ! n))"
      using u(3) x(3,4) n w' bn by (simp add: placed_def blocks_def)
    moreover have "blocks ?u = blocks t" "index.witems (tl_index ?u) = index.witems (tl_index t)"
      using b u(3) x(3) by (simp_all add: blocks_def)
    ultimately show ?thesis by blast
  qed
qed

lemma aligned_index:
  assumes "aligned t"
  shows "wr_valid (tl_index t) \<longleftrightarrow> index.wpos (tl_index t) < length (blocks t)" "index.wok (tl_index t)" "loaded t"
    "tl_data t = Some w \<Longrightarrow> wok w \<and> index.wpos (tl_index t) < length (blocks t) \<and> witems w = blocks t ! index.wpos (tl_index t)"
  using assms index.wok_read(1) [of "tl_index t"] by (auto simp: aligned_def loaded_def length_blocks blocks_def)

lemma forward_ok:
  assumes "aligned t" "placed t (index.wpos (tl_index t)) p" "tl_data t \<noteq> None \<longrightarrow> p \<le> length (blocks t ! index.wpos (tl_index t))"
  shows "\<exists>t'. SkipEmptyDataBlocksForward IX I bf t = Some t' \<and> tok t' \<and> blocks t' = blocks t \<and>
    index.witems (tl_index t') = index.witems (tl_index t) \<and> tpos t' = tpos t"
  using assms
proof (induction "length (blocks t) - index.wpos (tl_index t)" arbitrary: t p rule: less_induct)
  case less
  let ?x = "index.wpos (tl_index t)"
  note A = aligned_index [OF less.prems(1)]
  show ?case
  proof (cases "tl_data t")
    case None
    then have "SkipEmptyDataBlocksForward IX I bf t = Some (t\<lparr>tl_data := None\<rparr>)"
      using less.prems(2) A(1) by (simp add: SkipEmptyDataBlocksForward.simps placed_def data_valid_def)
    moreover have "t\<lparr>tl_data := None\<rparr> = t" using None by simp
    ultimately show ?thesis using less.prems(1) None by (simp add: tok_def)
  next
    case (Some w)
    note W = A(4) [OF Some]
    have p: "wpos w = p" "p \<le> length (witems w)" using less.prems(2,3) Some W by (simp_all add: placed_def)
    show ?thesis
    proof (cases "wr_valid w")
      case True
      then show ?thesis using Some less.prems(1)
        by (simp add: SkipEmptyDataBlocksForward.simps data_valid_def tok_def)
    next
      case False
      then have pe: "p = length (blocks t ! ?x)" using wok_read(1) [of w] W p by simp
      have mv: "index.moves (tl_index t) (wr_Next IX (tl_index t)) (Suc ?x)"
        using index.child_moves(1) [OF A(2)] W by (simp add: length_blocks)
      obtain t1 where t1: "next_block IX I bf (wr_Next IX) (wr_SeekToFirst I) t = Some t1" "aligned t1" "blocks t1 = blocks t"
        "index.witems (tl_index t1) = index.witems (tl_index t)" "placed t1 (Suc ?x) 0"
        using next_block_ok [OF A(3), of "wr_Next IX" "Suc ?x" "wr_SeekToFirst I" "\<lambda>_. 0"] mv child_moves(4) by blast
      have x1: "index.wpos (tl_index t1) = Suc ?x" using t1(5) by (simp add: placed_def)
      have "length (blocks t1) - index.wpos (tl_index t1) < length (blocks t) - ?x" using conjunct1 [OF conjunct2 [OF W]] t1(3) x1 by simp
      moreover have "placed t1 (index.wpos (tl_index t1)) 0" using t1(5) x1 by simp
      ultimately obtain t' where t': "SkipEmptyDataBlocksForward IX I bf t1 = Some t'" "tok t'" "blocks t' = blocks t1"
        "index.witems (tl_index t') = index.witems (tl_index t1)" "tpos t' = tpos t1"
        using less.hyps [of t1 0] t1(2) by auto
      have "tpos t1 = tpos t"
      proof (cases "tl_data t1")
        case None
        then have "length (blocks t) \<le> Suc ?x" using t1(3,5) by (simp add: placed_def)
        then show ?thesis using None Some W pe p(1) t1(3) block_start_Suc [of ?x "blocks t"] block_start_end [of "blocks t" "Suc ?x"]
          by (simp add: tpos_def titems_def)
      next
        case (Some w1)
        then show ?thesis using \<open>tl_data t = Some w\<close> t1(3,5) x1 W pe p(1) block_start_Suc [of ?x "blocks t"]
          by (simp add: tpos_def placed_def)
      qed
      moreover have "SkipEmptyDataBlocksForward IX I bf t = SkipEmptyDataBlocksForward IX I bf t1"
        using False Some A(1) W t1(1) by (subst SkipEmptyDataBlocksForward.simps) (simp add: data_valid_def)
      ultimately show ?thesis using t' t1(3,4) by simp
    qed
  qed
qed

definition back_pos :: "('ix, 'it) TwoLevelIterator \<Rightarrow> nat" where
  "back_pos t = (let b = block_start (blocks t) (index.wpos (tl_index t)) in
     case tl_data t of None \<Rightarrow> length (titems t)
     | Some w \<Rightarrow> if wr_valid w then b + wpos w else if b = 0 then length (titems t) else b - 1)"

lemma backward_ok:
  assumes "aligned t" "placed t (index.wpos (tl_index t)) p"
  shows "\<exists>t'. SkipEmptyDataBlocksBackward IX I bf t = Some t' \<and> tok t' \<and> blocks t' = blocks t \<and>
    index.witems (tl_index t') = index.witems (tl_index t) \<and> tpos t' = back_pos t"
  using assms
proof (induction "Suc (index.wpos (tl_index t))" arbitrary: t p rule: less_induct)
  case less
  let ?x = "index.wpos (tl_index t)"
  note A = aligned_index [OF less.prems(1)]
  show ?case
  proof (cases "tl_data t")
    case None
    then have "SkipEmptyDataBlocksBackward IX I bf t = Some (t\<lparr>tl_data := None\<rparr>)"
      using less.prems(2) A(1) by (simp add: SkipEmptyDataBlocksBackward.simps placed_def data_valid_def)
    moreover have "t\<lparr>tl_data := None\<rparr> = t" using None by simp
    ultimately show ?thesis using less.prems(1) None by (simp add: tok_def tpos_def back_pos_def)
  next
    case (Some w)
    note W = A(4) [OF Some]
    show ?thesis
    proof (cases "wr_valid w")
      case True
      then show ?thesis using Some less.prems(1)
        by (simp add: SkipEmptyDataBlocksBackward.simps data_valid_def tok_def tpos_def back_pos_def)
    next
      case False
      let ?n = "if ?x = 0 then length (index.witems (tl_index t)) else ?x - 1"
      have mv: "index.moves (tl_index t) (wr_Prev IX (tl_index t)) ?n"
        using index.child_moves(2) [OF A(2)] W by (simp add: length_blocks)
      obtain t1 where t1: "next_block IX I bf (wr_Prev IX) (wr_SeekToLast I) t = Some t1" "aligned t1" "blocks t1 = blocks t"
        "index.witems (tl_index t1) = index.witems (tl_index t)" "placed t1 ?n (length (blocks t ! ?n) - 1)"
        using next_block_ok [OF A(3), of "wr_Prev IX" ?n "wr_SeekToLast I" "\<lambda>b. length b - 1"] mv child_moves(5) by blast
      have x1: "index.wpos (tl_index t1) = ?n" using t1(5) by (simp add: placed_def)
      have S: "SkipEmptyDataBlocksBackward IX I bf t = SkipEmptyDataBlocksBackward IX I bf t1"
        using False Some A(1) W t1(1) by (subst SkipEmptyDataBlocksBackward.simps) (simp add: data_valid_def)
      show ?thesis
      proof (cases "?x = 0")
        case True
        then have n: "?n = length (blocks t)" by (simp add: length_blocks)
        then have d: "tl_data t1 = None" using t1(3,5) by (cases "tl_data t1") (simp_all add: placed_def)
        have "SkipEmptyDataBlocksBackward IX I bf t1 = Some (t1\<lparr>tl_data := None\<rparr>)"
          using d x1 n t1(3) aligned_index(1) [OF t1(2)] by (subst SkipEmptyDataBlocksBackward.simps) (simp add: data_valid_def)
        moreover have "t1\<lparr>tl_data := None\<rparr> = t1" using d by simp
        ultimately show ?thesis using S t1(2,3,4) d True Some False by (simp add: tok_def tpos_def back_pos_def titems_def)
      next
        case x: False
        then have n: "?n = ?x - 1" "?x - 1 < length (blocks t)" using conjunct1 [OF conjunct2 [OF W]] by simp_all
        have "Suc (index.wpos (tl_index t1)) < Suc ?x" using x1 x by simp
        moreover have "placed t1 (index.wpos (tl_index t1)) (length (blocks t ! ?n) - 1)" using t1(5) x1 by simp
        ultimately obtain t' where t': "SkipEmptyDataBlocksBackward IX I bf t1 = Some t'" "tok t'" "blocks t' = blocks t1"
          "index.witems (tl_index t') = index.witems (tl_index t1)" "tpos t' = back_pos t1"
          using less.hyps [of t1] t1(2) by blast
        obtain w1 where w1: "tl_data t1 = Some w1" "witems w1 = blocks t ! (?x - 1)" "wpos w1 = length (blocks t ! (?x - 1)) - 1"
          using t1(3,5) n by (cases "tl_data t1") (simp_all add: placed_def)
        have v1: "wr_valid w1 \<longleftrightarrow> blocks t ! (?x - 1) \<noteq> []"
          using wok_read(1) [of w1] aligned_index(4) [OF t1(2) w1(1)] w1(2,3) by auto
        have st: "block_start (blocks t) ?x = block_start (blocks t) (?x - 1) + length (blocks t ! (?x - 1))"
          using block_start_Suc [OF n(2)] x by simp
        have "back_pos t1 = back_pos t"
          using w1 v1 x1 n x t1(3) Some False st by (cases "blocks t ! (?x - 1)") (simp_all add: back_pos_def titems_def Let_def)
        then show ?thesis using S t' t1(3,4) by simp
      qed
    qed
  qed
qed

lemma lower_concat:
  assumes "separated xs" "index.ascending xs" "valid t"
  shows "lower cmp (concat (map (\<lambda>e. block (snd e)) xs)) t =
    (if lower cmp xs t < length xs
     then block_start (map (\<lambda>e. block (snd e)) xs) (lower cmp xs t) + lower cmp (block (snd (xs ! lower cmp xs t))) t
     else length (concat (map (\<lambda>e. block (snd e)) xs)))"
  using assms
proof (induction xs)
  case (Cons e xs)
  let ?b = "block (snd e)" and ?r = "concat (map (\<lambda>e. block (snd e)) xs)"
  have IH: "lower cmp ?r t =
    (if lower cmp xs t < length xs
     then block_start (map (\<lambda>e. block (snd e)) xs) (lower cmp xs t) + lower cmp (block (snd (xs ! lower cmp xs t))) t
     else length ?r)" using Cons by (simp add: separated_def)
  have asc: "index.ascending (concat (map (\<lambda>e. block (snd e)) (e # xs)))" by (rule separated_ascending [OF Cons.prems(1,2)])
  have ve: "valid (fst e)" using Cons.prems(2) by simp
  show ?case
  proof (cases "cmp (fst e) t < 0")
    case True
    have "cmp (fst a) t < 0" if "a \<in> set ?b" for a
    proof -
      have "cmp (fst a) (fst e) \<le> 0" "valid (fst a)" using Cons.prems(1) asc that by (auto simp: separated_def)
      then show ?thesis using True index.cmp_le_less_trans [of "fst a" "fst e" t] ve Cons.prems(3) by simp
    qed
    then have "takeWhile (\<lambda>e. cmp (fst e) t < 0) ?b = ?b" by (simp add: takeWhile_eq_all_conv)
    then have "lower cmp ?b t = length ?b" unfolding lower_def by (rule arg_cong)
    moreover have "lower cmp (e # xs) t = Suc (lower cmp xs t)" using True by (simp add: lower_def)
    ultimately show ?thesis using IH by (simp add: lower_append block_start_def)
  next
    case False
    have "\<not> cmp (fst a) t < 0" if "a \<in> set ?r" for a
    proof
      assume a: "cmp (fst a) t < 0"
      have "cmp (fst e) (fst a) < 0" "valid (fst a)" using Cons.prems(1) asc that by (auto simp: separated_def)
      then show False using False a index.cmp_less_trans [of "fst e" "fst a" t] ve Cons.prems(3) by simp
    qed
    then have "lower cmp ?r t = 0" by (rule lower_0)
    moreover have "lower cmp (e # xs) t = 0" using False by (simp add: lower_def)
    ultimately show ?thesis by (simp add: lower_append)
  qed
qed (simp add: lower_def)

lemma tok_pos:
  assumes "tok t"
  shows "data_valid t \<longleftrightarrow> tpos t < length (titems t)"
    "data_valid t \<Longrightarrow> \<exists>w. tl_data t = Some w \<and> wok w \<and> wr_valid w \<and> wpos w < length (witems w) \<and>
       titems t ! tpos t = witems w ! wpos w \<and> witems w = blocks t ! index.wpos (tl_index t) \<and> index.wpos (tl_index t) < length (blocks t)"
proof -
  have a: "aligned t" using assms by (simp add: tok_def)
  have "\<exists>w. tl_data t = Some w \<and> wok w \<and> wr_valid w \<and> wpos w < length (witems w) \<and>
       titems t ! tpos t = witems w ! wpos w \<and> witems w = blocks t ! index.wpos (tl_index t) \<and>
       index.wpos (tl_index t) < length (blocks t) \<and> tpos t < length (titems t)" if v: "data_valid t"
  proof -
    obtain w where w: "tl_data t = Some w" "wr_valid w" using v by (auto simp: data_valid_def split: option.splits)
    note W = aligned_index(4) [OF a w(1)]
    have p: "wpos w < length (blocks t ! index.wpos (tl_index t))" using wok_read(1) [of w] W w(2) by simp
    show ?thesis using concat_nth [OF _ p] W w p by (simp add: tpos_def titems_def)
  qed
  moreover have "tpos t = length (titems t)" if "\<not> data_valid t"
    using assms that by (cases "tl_data t") (simp_all add: tok_def tpos_def)
  ultimately show "data_valid t \<longleftrightarrow> tpos t < length (titems t)"
    "data_valid t \<Longrightarrow> \<exists>w. tl_data t = Some w \<and> wok w \<and> wr_valid w \<and> wpos w < length (witems w) \<and>
       titems t ! tpos t = witems w ! wpos w \<and> witems w = blocks t ! index.wpos (tl_index t) \<and> index.wpos (tl_index t) < length (blocks t)"
    by (cases "data_valid t"; auto)+
qed

lemma seek_forward:
  assumes "tok t" "index.moves (tl_index t) (move (tl_index t)) n" "\<And>w. wok w \<Longrightarrow> moves w (place w) (p (witems w))"
    and "\<And>b. p b \<le> length b"
  shows "\<exists>t'. Option.bind (next_block IX I bf move place t) (SkipEmptyDataBlocksForward IX I bf) = Some t' \<and> tok t' \<and>
    titems t' = titems t \<and> tpos t' = (if n < length (blocks t) then block_start (blocks t) n + p (blocks t ! n) else length (titems t))"
proof -
  have "loaded t" using assms(1) by (simp add: tok_def aligned_def)
  then obtain t1 where t1: "next_block IX I bf move place t = Some t1" "aligned t1" "blocks t1 = blocks t" "placed t1 n (p (blocks t ! n))"
    using next_block_ok [of t move n place p] assms(2,3) by blast
  have n: "index.wpos (tl_index t1) = n" using t1(4) by (simp add: placed_def)
  obtain t' where t': "SkipEmptyDataBlocksForward IX I bf t1 = Some t'" "tok t'" "blocks t' = blocks t1" "tpos t' = tpos t1"
    using forward_ok [OF t1(2), of "p (blocks t ! n)"] t1(3,4) n assms(4) by auto
  have "tpos t1 = (if n < length (blocks t) then block_start (blocks t) n + p (blocks t ! n) else length (titems t))"
    using t1(3,4) n by (auto simp: tpos_def placed_def titems_def split: option.splits)
  then show ?thesis using t1 t' by (simp add: titems_def)
qed

lemma two_level_sorted: "sorted_iter valid cmp (two_level_iterator IX I bf) tok titems tpos"
proof unfold_locales
  fix t assume t: "tok t"
  have al: "aligned t" and ld: "loaded t" using t by (simp_all add: tok_def aligned_def)
  let ?X = "index.witems (tl_index t)"
  have xa: "index.ascending ?X" "separated ?X" using ld index.wok_read(4) [of "tl_index t"] by (simp_all add: loaded_def)
  note wx = aligned_index(2) [OF al]
  show "index.ascending (titems t)" unfolding titems_def blocks_def by (rule separated_ascending [OF xa(2,1)])
  show "it_Valid (two_level_iterator IX I bf) t \<longleftrightarrow> tpos t < length (titems t)"
    using tok_pos(1) [OF t] by (simp add: two_level_iterator_def)
  show "it_key (two_level_iterator IX I bf) t = Some (fst (titems t ! tpos t)) \<and>
      it_value (two_level_iterator IX I bf) t = Some (snd (titems t ! tpos t))" if p: "tpos t < length (titems t)"
  proof -
    obtain w where "tl_data t = Some w" "wok w" "wr_valid w" "titems t ! tpos t = witems w ! wpos w"
      using tok_pos [OF t] p by blast
    then show ?thesis using wok_read(2,3) [of w] tok_pos(1) [OF t] p
      by (simp add: two_level_iterator_def tl_key_def tl_value_def)
  qed
  show "\<exists>s'. it_SeekToFirst (two_level_iterator IX I bf) t = Some s' \<and> tok s' \<and> titems s' = titems t \<and> tpos s' = 0"
    using seek_forward [OF t, of "wr_SeekToFirst IX" 0 "wr_SeekToFirst I" "\<lambda>_. 0"] index.child_moves(4) [OF wx] child_moves(4)
    by (auto simp: two_level_iterator_def tl_SeekToFirst_def titems_def)
  show "\<exists>s'. it_Seek (two_level_iterator IX I bf) k t = Some s' \<and> tok s' \<and> titems s' = titems t \<and> tpos s' = lower cmp (titems t) k"
    if k: "valid k" for k
  proof -
    have "lower cmp (titems t) k = (if lower cmp ?X k < length (blocks t)
      then block_start (blocks t) (lower cmp ?X k) + lower cmp (blocks t ! lower cmp ?X k) k else length (titems t))"
      using lower_concat [OF xa(2,1) k] by (simp add: titems_def blocks_def)
    then show ?thesis
      using seek_forward [OF t, of "wr_Seek IX k" "lower cmp ?X k" "wr_Seek I k" "\<lambda>b. lower cmp b k"]
        index.child_moves(3) [OF wx k] child_moves(3) [OF _ k]
      by (simp add: two_level_iterator_def tl_Seek_def)
  qed
  show "\<exists>s'. it_SeekToLast (two_level_iterator IX I bf) t = Some s' \<and> tok s' \<and> titems s' = titems t \<and> tpos s' = length (titems t) - 1"
  proof -
    let ?n = "length ?X - 1"
    obtain t1 where t1: "next_block IX I bf (wr_SeekToLast IX) (wr_SeekToLast I) t = Some t1" "aligned t1" "blocks t1 = blocks t"
      "placed t1 ?n (length (blocks t ! ?n) - 1)"
      using next_block_ok [OF ld, of "wr_SeekToLast IX" ?n "wr_SeekToLast I" "\<lambda>b. length b - 1"]
        index.child_moves(5) [OF wx] child_moves(5) by blast
    have n: "index.wpos (tl_index t1) = ?n" using t1(4) by (simp add: placed_def)
    obtain t' where t': "SkipEmptyDataBlocksBackward IX I bf t1 = Some t'" "tok t'" "blocks t' = blocks t1" "tpos t' = back_pos t1"
      using backward_ok [OF t1(2), of "length (blocks t ! ?n) - 1"] t1(4) n by auto
    have "back_pos t1 = length (titems t) - 1"
    proof (cases "tl_data t1")
      case None
      then have "length (blocks t) \<le> length (blocks t) - 1" using t1(3,4) by (simp add: placed_def length_blocks)
      then have "blocks t = []" by (cases "blocks t") simp_all
      then show ?thesis using None t1(3) by (simp add: back_pos_def titems_def)
    next
      case (Some w)
      then have w: "?n < length (blocks t)" "witems w = blocks t ! ?n" "wpos w = length (blocks t ! ?n) - 1"
        using t1(3,4) by (simp_all add: placed_def)
      have v: "wr_valid w \<longleftrightarrow> blocks t ! ?n \<noteq> []"
        using wok_read(1) [of w] aligned_index(4) [OF t1(2) Some] w(2,3) by auto
      have e: "length (titems t) = block_start (blocks t) ?n + length (blocks t ! ?n)"
        using block_start_Suc [OF w(1)] block_start_end [of "blocks t" "Suc ?n"] length_blocks [of t] by (simp add: titems_def)
      show ?thesis using Some w v e n t1(3) by (cases "blocks t ! ?n") (simp_all add: back_pos_def titems_def Let_def)
    qed
    then show ?thesis using t1 t' by (auto simp: two_level_iterator_def tl_SeekToLast_def titems_def)
  qed
  show "\<exists>s'. it_Next (two_level_iterator IX I bf) t = Some s' \<and> tok s' \<and> titems s' = titems t \<and> tpos s' = Suc (tpos t)"
    if p: "tpos t < length (titems t)"
  proof -
    obtain w where w: "tl_data t = Some w" "wok w" "wpos w < length (witems w)" "witems w = blocks t ! index.wpos (tl_index t)"
      "index.wpos (tl_index t) < length (blocks t)" using tok_pos [OF t] p by blast
    obtain w' where w': "wr_Next I w = Some w'" "wok w'" "witems w' = witems w" "wpos w' = Suc (wpos w)"
      using child_moves(1) [OF w(2,3)] by (auto simp: moves_def)
    let ?t = "t\<lparr>tl_data := Some w'\<rparr>"
    have u: "aligned ?t" using al w(1) w' by (simp add: aligned_def loaded_def)
    have b: "blocks ?t = blocks t" by (simp add: blocks_def)
    obtain t' where "SkipEmptyDataBlocksForward IX I bf ?t = Some t'" "tok t'" "blocks t' = blocks ?t" "tpos t' = tpos ?t"
      using forward_ok [OF u, of "Suc (wpos w)"] w(3,4,5) w' b by (auto simp: placed_def)
    moreover have "tpos ?t = Suc (tpos t)" using w(1) w'(4) b by (simp add: tpos_def)
    ultimately show ?thesis using w(1) w'(1) b p tok_pos(1) [OF t]
      by (simp add: two_level_iterator_def tl_Next_def on_data_def titems_def)
  qed
  show "\<exists>s'. it_Prev (two_level_iterator IX I bf) t = Some s' \<and> tok s' \<and> titems s' = titems t \<and>
      tpos s' = (if tpos t = 0 then length (titems t) else tpos t - 1)" if p: "tpos t < length (titems t)"
  proof -
    obtain w where w: "tl_data t = Some w" "wok w" "wpos w < length (witems w)" "witems w = blocks t ! index.wpos (tl_index t)"
      "index.wpos (tl_index t) < length (blocks t)" using tok_pos [OF t] p by blast
    obtain w' where w': "wr_Prev I w = Some w'" "wok w'" "witems w' = witems w"
      "wpos w' = (if wpos w = 0 then length (witems w) else wpos w - 1)"
      using child_moves(2) [OF w(2,3)] by (auto simp: moves_def)
    let ?t = "t\<lparr>tl_data := Some w'\<rparr>"
    have u: "aligned ?t" using al w(1) w' by (simp add: aligned_def loaded_def)
    have b: "blocks ?t = blocks t" by (simp add: blocks_def)
    obtain t' where "SkipEmptyDataBlocksBackward IX I bf ?t = Some t'" "tok t'" "blocks t' = blocks ?t" "tpos t' = back_pos ?t"
      using backward_ok [OF u, of "wpos w'"] w(4,5) w' b by (auto simp: placed_def)
    moreover have "wr_valid w' \<longleftrightarrow> wpos w \<noteq> 0" using wok_read(1) [OF w'(2)] w'(3,4) w(3) by auto
    then have "back_pos ?t = (if tpos t = 0 then length (titems t) else tpos t - 1)"
      using w(1) w'(4) b by (simp add: tpos_def back_pos_def titems_def Let_def)
    ultimately show ?thesis using w(1) w'(1) b p tok_pos(1) [OF t]
      by (simp add: two_level_iterator_def tl_Prev_def on_data_def titems_def)
  qed
qed

lemma NewTwoLevelIterator_ok:
  assumes "okx ix" "separated (itemsx ix)"
  shows "\<exists>t. NewTwoLevelIterator IX ix = Some t \<and> tok t \<and> titems t = concat (map (\<lambda>e. block (snd e)) (itemsx ix)) \<and>
    tpos t = length (titems t)"
proof -
  obtain w where w: "wr_Set IX ix = Some w" "index.wok w" "wr_iter w = ix" using index.wr_Set_ok [OF assms(1)] by blast
  then show ?thesis using assms
    by (auto simp: NewTwoLevelIterator_def tok_def aligned_def loaded_def titems_def blocks_def tpos_def)
qed

end

end
