(* ===== verification/TableRead.thy ===== *)
theory TableRead
  imports TableBuild TwoLevel
begin

text \<open>
  Reading a table (\<^verbatim>\<open>table/table.cc\<close>): opening it from its footer, its filter, the iterator over its data blocks and the point lookup
  through the filter. The block cache is a map from cache keys to blocks; \<open>bc\<close> is \<^const>\<open>None\<close> for a table without a cache. A failed
  assertion is \<^const>\<open>None\<close>.
\<close>

section \<open>Iterators over blocks\<close>

text \<open>What \<^verbatim>\<open>Block::NewIterator\<close> returns, behind the iterator interface; the empty and the error iterator are never valid.\<close>

definition block_op :: "(block_iter \<Rightarrow> block_iter option) \<Rightarrow> BlockIterator \<Rightarrow> BlockIterator option" where
  "block_op f it = (case it of BlockIter b \<Rightarrow> map_option BlockIter (f b) | _ \<Rightarrow> Some it)"

definition block_need :: "(block_iter \<Rightarrow> 'a option) \<Rightarrow> BlockIterator \<Rightarrow> 'a option" where
  "block_need f it = (case it of BlockIter b \<Rightarrow> f b | _ \<Rightarrow> None)"

definition BlockIterator_ops :: "(slice \<Rightarrow> slice \<Rightarrow> int) \<Rightarrow> BlockIterator Iterator" where
  "BlockIterator_ops cmp = \<lparr>it_Valid = (\<lambda>it. case it of BlockIter b \<Rightarrow> bi_Valid b | _ \<Rightarrow> False),
     it_SeekToFirst = block_op bi_SeekToFirst, it_SeekToLast = block_op bi_SeekToLast, it_Seek = (\<lambda>t. block_op (bi_Seek cmp t)),
     it_Next = block_need (map_option BlockIter \<circ> bi_Next), it_Prev = block_need (map_option BlockIter \<circ> bi_Prev),
     it_key = block_need bi_keyv, it_value = block_need bi_valuev\<rparr>"

definition BlockIterator_status :: "BlockIterator \<Rightarrow> Status" where
  "BlockIterator_status it = (case it of BlockError s \<Rightarrow> s | BlockEmpty \<Rightarrow> StatusOK | BlockIter b \<Rightarrow> bi_status b)"

section \<open>Opening a table\<close>

record Table =
  t_options :: Options
  t_file :: RandomAccessFile
  t_cache_id :: "64 word"
  t_filter :: "filter_reader option"
  t_metaindex_handle :: BlockHandle
  t_index_block :: block

definition ReadFilter :: "Port \<Rightarrow> slice \<Rightarrow> Table \<Rightarrow> Table" where
  "ReadFilter P filter_handle_value t =
     (case BlockHandle_DecodeFrom filter_handle_value of
        Inl _ \<Rightarrow> t
      | Inr (filter_handle, _) \<Rightarrow>
         (case ReadBlock P (t_file t) (paranoid_checks (t_options t)) filter_handle of
            Inl _ \<Rightarrow> t
          | Inr contents \<Rightarrow> t\<lparr>t_filter := Some (FilterBlockReader (bc_data contents))\<rparr>))"

definition ReadMeta :: "Port \<Rightarrow> Footer \<Rightarrow> Table \<Rightarrow> Table option" where
  "ReadMeta P footer t =
     (case filter_policy (t_options t) of
        None \<Rightarrow> Some t
      | Some pol \<Rightarrow>
         (case ReadBlock P (t_file t) (paranoid_checks (t_options t)) (metaindex_handle footer) of
            Inl _ \<Rightarrow> Some t
          | Inr contents \<Rightarrow>
              let B = BlockIterator_ops Bytewise_Compare in
              Option.bind (Block_NewIterator (new_Block (bc_data contents))) (\<lambda>iter.
              Option.bind (it_Seek B (filter_key pol) iter) (\<lambda>iter1.
                if it_Valid B iter1 then
                  Option.bind (it_key B iter1) (\<lambda>k.
                    if k = filter_key pol then map_option (\<lambda>v. ReadFilter P v t) (it_value B iter1) else Some t)
                else Some t))))"

definition Table_Open :: "Port \<Rightarrow> Options \<Rightarrow> 64 word \<Rightarrow> RandomAccessFile \<Rightarrow> 64 word \<Rightarrow> (Status + Table) option" where
  "Table_Open P opt cache_id file fsize =
     (if unat fsize < kEncodedLength then Some (Inl (Corruption ''file is too short to be an sstable''))
      else let (s, footer_input) = rf_Read file (unat fsize - kEncodedLength) kEncodedLength in
        if s \<noteq> StatusOK then Some (Inl s)
        else case Footer_DecodeFrom footer_input of
          Inl s \<Rightarrow> Some (Inl s)
        | Inr (footer, _) \<Rightarrow>
           (case ReadBlock P file (paranoid_checks opt) (index_handle footer) of
              Inl s \<Rightarrow> Some (Inl s)
            | Inr index_block_contents \<Rightarrow>
                map_option Inr (ReadMeta P footer
                  \<lparr>t_options = opt, t_file = file, t_cache_id = cache_id, t_filter = None,
                   t_metaindex_handle = metaindex_handle footer, t_index_block = new_Block (bc_data index_block_contents)\<rparr>)))"

section \<open>Reading blocks\<close>

definition block_cache_key :: "64 word \<Rightarrow> 64 word \<Rightarrow> slice" where
  "block_cache_key cache_id offset = EncodeFixed64 cache_id @ EncodeFixed64 offset"

text \<open>The block a handle names, from the cache or the file, and the cache afterwards.\<close>

definition fetch_block ::
  "Port \<Rightarrow> bool \<Rightarrow> bool \<Rightarrow> Table \<Rightarrow> BlockHandle \<Rightarrow> (slice \<rightharpoonup> block) option \<Rightarrow> (Status + block) \<times> (slice \<rightharpoonup> block) option" where
  "fetch_block P verify_checksums fill_cache t handle cache =
     (case cache of
        None \<Rightarrow> (map_sum id (new_Block \<circ> bc_data) (ReadBlock P (t_file t) verify_checksums handle), None)
      | Some m \<Rightarrow>
          let key = block_cache_key (t_cache_id t) (bh_offset handle) in
          (case m key of
             Some blk \<Rightarrow> (Inr blk, cache)
           | None \<Rightarrow>
              (case ReadBlock P (t_file t) verify_checksums handle of
                 Inl s \<Rightarrow> (Inl s, cache)
               | Inr contents \<Rightarrow>
                   let blk = new_Block (bc_data contents) in
                   (Inr blk, if bc_cachable contents \<and> fill_cache then Some (m(key \<mapsto> blk)) else cache))))"

definition BlockReader_cached ::
  "Port \<Rightarrow> bool \<Rightarrow> bool \<Rightarrow> Table \<Rightarrow> slice \<Rightarrow> (slice \<rightharpoonup> block) option \<Rightarrow> BlockIterator option \<times> (slice \<rightharpoonup> block) option" where
  "BlockReader_cached P verify_checksums fill_cache t index_value cache =
     (case BlockHandle_DecodeFrom index_value of
        Inl s \<Rightarrow> (Some (BlockError s), cache)
      | Inr (handle, _) \<Rightarrow>
         (case fetch_block P verify_checksums fill_cache t handle cache of
            (Inl s, cache') \<Rightarrow> (Some (BlockError s), cache')
          | (Inr blk, cache') \<Rightarrow> (Block_NewIterator blk, cache')))"

text \<open>Without a cache the iterator depends on the table and the handle alone.\<close>

definition BlockReader :: "Port \<Rightarrow> bool \<Rightarrow> Table \<Rightarrow> slice \<Rightarrow> BlockIterator option" where
  "BlockReader P verify_checksums t index_value = fst (BlockReader_cached P verify_checksums True t index_value None)"

type_synonym table_iter = "(BlockIterator, BlockIterator) TwoLevelIterator"

definition table_iterator :: "Port \<Rightarrow> bool \<Rightarrow> Table \<Rightarrow> table_iter Iterator" where
  "table_iterator P verify_checksums t =
     (let B = BlockIterator_ops (co_Compare (comparator (t_options t))) in two_level_iterator B B (BlockReader P verify_checksums t))"

definition Table_NewIterator :: "Table \<Rightarrow> table_iter option" where
  "Table_NewIterator t =
     Option.bind (Block_NewIterator (t_index_block t))
       (NewTwoLevelIterator (BlockIterator_ops (co_Compare (comparator (t_options t)))))"

section \<open>Lookups\<close>

text \<open>
  The entry \<^verbatim>\<open>InternalGet\<close> passes to its callback, if any, with the status. \<^verbatim>\<open>ReadFilter\<close> builds the reader on a plain Bloom policy,
  so \<^verbatim>\<open>KeyMayMatch\<close> is that policy's.
\<close>

definition InternalGet :: "Port \<Rightarrow> bool \<Rightarrow> Table \<Rightarrow> slice \<Rightarrow> (Status \<times> (slice \<times> slice) option) option" where
  "InternalGet P verify_checksums t k =
     (let B = BlockIterator_ops (co_Compare (comparator (t_options t))) in
      Option.bind (Block_NewIterator (t_index_block t)) (\<lambda>iiter0.
      Option.bind (it_Seek B k iiter0) (\<lambda>iiter.
        if \<not> it_Valid B iiter then Some (BlockIterator_status iiter, None)
        else Option.bind (it_value B iiter) (\<lambda>handle_value.
          if (case (t_filter t, BlockHandle_DecodeFrom handle_value) of
                (Some flt, Inr (handle, _)) \<Rightarrow> \<not> Block_KeyMayMatch KeyMayMatch flt (unat (bh_offset handle)) k
              | _ \<Rightarrow> False)
          then Some (BlockIterator_status iiter, None)
          else
            Option.bind (BlockReader P verify_checksums t handle_value) (\<lambda>bi0.
            Option.bind (it_Seek B k bi0) (\<lambda>bi.
            Option.bind
              (if it_Valid B bi then
                 Option.bind (it_key B bi) (\<lambda>key. map_option (\<lambda>v. Some (key, v)) (it_value B bi))
               else Some None) (\<lambda>found.
              Some (if BlockIterator_status bi = StatusOK then BlockIterator_status iiter else BlockIterator_status bi, found))))))))"

definition ApproximateOffsetOf :: "Table \<Rightarrow> slice \<Rightarrow> 64 word option" where
  "ApproximateOffsetOf t key =
     (let B = BlockIterator_ops (co_Compare (comparator (t_options t))) in
      Option.bind (Block_NewIterator (t_index_block t)) (\<lambda>iter0.
      Option.bind (it_Seek B key iter0) (\<lambda>iter.
        if it_Valid B iter then
          map_option (\<lambda>v. case BlockHandle_DecodeFrom v of Inr (handle, _) \<Rightarrow> bh_offset handle | Inl _ \<Rightarrow> bh_offset (t_metaindex_handle t)) (it_value B iter)
        else Some (bh_offset (t_metaindex_handle t)))))"

end
