(* ===== verification/TableCorrect.thy ===== *)
theory TableCorrect
  imports TableRead MemIter
begin

text \<open>
  Correctness of tables: a block written into the file is read back, the builder writes blocks whose concatenation is the list of the
  entries added, with index keys that separate them, and the iterator of the table opened on the file is a cursor on the entries.
\<close>

section \<open>Stored blocks\<close>

text \<open>What the code relies on of the compressors: what they compress they restore.\<close>

definition port_ok :: "Port \<Rightarrow> bool" where
  "port_ok P \<longleftrightarrow>
     (\<forall>raw c. Snappy_Compress P raw = Some c \<longrightarrow> Snappy_GetUncompressedLength P c = Some (length raw) \<and> Snappy_Uncompress P c = Some raw) \<and>
     (\<forall>level raw c. Zstd_Compress P level raw = Some c \<longrightarrow> Zstd_GetUncompressedLength P c = Some (length raw) \<and> Zstd_Uncompress P c = Some raw)"

text \<open>A file with the bytes \<open>F\<close>, and a file that can be appended to.\<close>

definition file_reads :: "RandomAccessFile \<Rightarrow> slice \<Rightarrow> bool" where
  "file_reads file F \<longleftrightarrow> (\<forall>a n. a + n \<le> length F \<longrightarrow> rf_Read file a n = (StatusOK, take n (drop a F)))"

definition file_appends :: "'f WritableFile \<Rightarrow> ('f \<Rightarrow> slice) \<Rightarrow> bool" where
  "file_appends W content \<longleftrightarrow> (\<forall>d f. \<exists>f'. wf_Append W d f = (StatusOK, f') \<and> content f' = content f @ d) \<and>
     (\<forall>f. \<exists>f'. wf_Flush W f = (StatusOK, f') \<and> content f' = content f)"

definition block_trailer :: "slice \<Rightarrow> CompressionType \<Rightarrow> slice" where
  "block_trailer c ty = compression_code ty # EncodeFixed32 (crc32c_Mask (crc32c_Extend 0 (crc32c_Value 0 c) [compression_code ty]))"

lemma length_block_trailer [simp]: "length (block_trailer c ty) = kBlockTrailerSize"
  by (simp add: block_trailer_def)

definition compressed_as :: "Port \<Rightarrow> slice \<Rightarrow> CompressionType \<Rightarrow> slice \<Rightarrow> bool" where
  "compressed_as P raw ty c \<longleftrightarrow>
     (case ty of kNoCompression \<Rightarrow> c = raw
      | kSnappyCompression \<Rightarrow> Snappy_Compress P raw = Some c
      | kZstdCompression \<Rightarrow> (\<exists>level. Zstd_Compress P level raw = Some c))"

text \<open>The bytes \<open>F\<close> hold, where the handle says, a block that was written as \<open>raw\<close>.\<close>

definition holds :: "Port \<Rightarrow> slice \<Rightarrow> BlockHandle \<Rightarrow> slice \<Rightarrow> bool" where
  "holds P F h raw \<longleftrightarrow> (\<exists>pre c ty post. F = pre @ c @ block_trailer c ty @ post \<and> compressed_as P raw ty c \<and>
     unat (bh_offset h) = length pre \<and> unat (bh_size h) = length c) \<and> handle_set h"

lemma holds_append: "holds P F h raw \<Longrightarrow> holds P (F @ G) h raw"
  unfolding holds_def by (metis append.assoc)

lemma ReadBlock_holds:
  assumes P: "port_ok P" and F: "file_reads file F" and h: "holds P F h raw"
  shows "\<exists>contents. ReadBlock P file verify h = Inr contents \<and> bc_data contents = raw"
proof -
  obtain pre c ty post where s: "F = pre @ c @ block_trailer c ty @ post" "compressed_as P raw ty c"
    "unat (bh_offset h) = length pre" "unat (bh_size h) = length c" using h by (auto simp: holds_def)
  have "rf_Read file (length pre) (length c + kBlockTrailerSize) = (StatusOK, take (length c + kBlockTrailerSize) (drop (length pre) F))"
    using F s(1) unfolding file_reads_def by simp
  then have read: "rf_Read file (length pre) (length c + kBlockTrailerSize) = (StatusOK, c @ block_trailer c ty)"
    unfolding s(1) by simp
  have code: "(c @ block_trailer c ty) ! length c = compression_code ty" by (simp add: block_trailer_def)
  have "take (length c + 1) (c @ block_trailer c ty) = c @ [compression_code ty]" by (simp add: block_trailer_def)
  moreover have "drop (length c + 1) (c @ block_trailer c ty) =
      EncodeFixed32 (crc32c_Mask (crc32c_Extend 0 (crc32c_Value 0 c) [compression_code ty]))" by (simp add: block_trailer_def)
  ultimately have crc: "crc32c_Unmask (DecodeFixed32 (drop (length c + 1) (c @ block_trailer c ty))) = crc32c_Value 0 (take (length c + 1) (c @ block_trailer c ty))"
    by (simp add: Unmask_Mask crc32c_Value_def Extend_append [of _ _ _ _ _ 0])
  define tr where "tr = c @ block_trailer c ty"
  have tr: "rf_Read file (length pre) (length c + kBlockTrailerSize) = (StatusOK, tr)" "tr ! length c = compression_code ty"
    "length tr = length c + kBlockTrailerSize" "take (length c) tr = c"
    "crc32c_Unmask (DecodeFixed32 (drop (length c + 1) tr)) = crc32c_Value 0 (take (length c + 1) tr)"
    using read code crc by (simp_all add: tr_def)
  note R = ReadBlock_def Let_def s(3,4) tr(1) prod.case tr(2-5)
  show ?thesis
  proof (cases ty)
    case kNoCompression
    then show ?thesis using s(2) unfolding R by (simp add: compressed_as_def)
  next
    case kSnappyCompression
    then have "Snappy_GetUncompressedLength P c = Some (length raw)" "Snappy_Uncompress P c = Some raw"
      using s(2) P by (simp_all add: compressed_as_def port_ok_def)
    then show ?thesis unfolding R kSnappyCompression by simp
  next
    case kZstdCompression
    then have "Zstd_GetUncompressedLength P c = Some (length raw)" "Zstd_Uncompress P c = Some raw"
      using s(2) P by (auto simp: compressed_as_def port_ok_def)
    then show ?thesis unfolding R kZstdCompression by simp
  qed
qed

lemma compress_block_as: "compress_block P opt raw = (c, ty) \<Longrightarrow> compressed_as P raw ty c \<and> length c \<le> length raw"
  by (auto simp: compress_block_def compressed_as_def split: CompressionType.splits option.splits if_splits)

lemma max_word_nat: "unat (NOT 0 :: 64 word) = 2 ^ 64 - 1"
  by (simp add: unsigned_minus_1_eq_mask mask_eq_exp_minus_1)

lemma handle_set_small: "n < 2 ^ 64 - 1 \<Longrightarrow> m < 2 ^ 64 - 1 \<Longrightarrow> handle_set \<lparr>bh_offset = of_nat n, bh_size = of_nat m\<rparr>"
proof -
  assume nm: "n < 2 ^ 64 - 1" "m < 2 ^ 64 - 1"
  have "of_nat k \<noteq> (NOT 0 :: 64 word)" if "k < 2 ^ 64 - 1" for k
  proof
    assume e: "of_nat k = (NOT 0 :: 64 word)"
    have "unat (of_nat k :: 64 word) = k" using that by (simp add: unat_of_nat)
    then show False using that unfolding e max_word_nat by simp
  qed
  then show ?thesis using nm by (simp add: handle_set_def)
qed

text \<open>Writing a block moves the offset behind its trailer.\<close>

lemma WriteRawBlock_ok:
  assumes W: "file_appends W content" and r: "tb_offset r = of_nat (length (content (tb_file r)))"
    and n: "length (content (tb_file r)) + length c + kBlockTrailerSize < 2 ^ 63" and c: "compressed_as P raw ty c"
  shows "\<exists>h f. WriteRawBlock W c ty r = (h, r\<lparr>tb_status := StatusOK, tb_file := f, tb_offset := of_nat (length (content f))\<rparr>) \<and>
    content f = content (tb_file r) @ c @ block_trailer c ty \<and> holds P (content f) h raw \<and> bh_offset h = tb_offset r"
proof -
  obtain f1 where f1: "wf_Append W c (tb_file r) = (StatusOK, f1)" "content f1 = content (tb_file r) @ c"
    using W unfolding file_appends_def by blast
  obtain f2 where f2: "wf_Append W (block_trailer c ty) f1 = (StatusOK, f2)" "content f2 = content f1 @ block_trailer c ty"
    using W unfolding file_appends_def by blast
  let ?h = "\<lparr>bh_offset = tb_offset r, bh_size = of_nat (length c)\<rparr> :: BlockHandle"
  have len: "length (content f2) = length (content (tb_file r)) + (length c + kBlockTrailerSize)" using f1(2) f2(2) by simp
  have "WriteRawBlock W c ty r = (?h, r\<lparr>tb_status := StatusOK, tb_file := f2, tb_offset := of_nat (length (content f2))\<rparr>)"
    using f1(1) f2(1) unfolding block_trailer_def WriteRawBlock_def Let_def len r by simp
  moreover have "holds P (content f2) ?h raw" unfolding holds_def
  proof
    have "unat (bh_offset ?h) = length (content (tb_file r))" "unat (bh_size ?h) = length c" using n r by (simp_all add: unat_of_nat)
    then show "\<exists>pre c ty post. content f2 = pre @ c @ block_trailer c ty @ post \<and> compressed_as P raw ty c \<and>
        unat (bh_offset ?h) = length pre \<and> unat (bh_size ?h) = length c"
      using f1(2) f2(2) c by (intro exI [of _ "content (tb_file r)"] exI [of _ c] exI [of _ ty] exI [of _ "[]"]) simp
    show "handle_set ?h" unfolding r by (rule handle_set_small) (use n in simp_all)
  qed
  ultimately show ?thesis using f1(2) f2(2) by (intro exI [of _ ?h] exI [of _ f2]) simp
qed

section \<open>Sizes\<close>

text \<open>An upper bound for the bytes a list of entries takes up in a table, with its share of the index.\<close>

definition weight :: "(slice \<times> slice) list \<Rightarrow> nat" where
  "weight es = sum_list (map (\<lambda>e. length (fst e) + length (snd e) + 100) es)"

lemma weight_simps [simp]: "weight [] = 0" "weight (e # es) = length (fst e) + length (snd e) + 100 + weight es"
  "weight (es @ fs) = weight es + weight fs"
  by (simp_all add: weight_def)

lemma length_chunk: "length (chunk t) \<le> 30 + length (ekey t) + length (evalue t)"
proof -
  have "length (EncodeVarint32 v) \<le> 10" for v using length_EncodeVarint64 by (simp add: EncodeVarint32_eq)
  from this [of "of_nat (fst t)"] this [of "of_nat (length (ekey t) - fst t)"] this [of "of_nat (length (evalue t))"]
  show ?thesis by (cases t) (simp add: chunk_def)
qed

lemma length_restarts:
  assumes "restarts_ok ts rs"
  shows "length rs \<le> length ts + 1"
proof -
  have s: "sorted_wrt (<) rs" "\<forall>r \<in> set rs. r = 0 \<or> r < length ts" using assms by (simp_all add: restarts_ok_def)
  have "distinct rs" using s(1) by (simp add: strict_sorted_iff)
  then have "length rs = card (set rs)" by (simp add: distinct_card)
  also have "\<dots> \<le> card {0..<length ts + 1}" by (rule card_mono) (use s(2) in auto)
  finally show ?thesis by simp
qed

lemma length_chunks: "length (concat (map chunk ts)) + 70 * length ts \<le> weight (map snd ts)"
proof (induction ts)
  case (Cons t ts)
  then show ?case using length_chunk [of t] by simp
qed simp

lemma block_bytes_weight:
  assumes "restarts_ok ts rs"
  shows "length (block_bytes ts rs) + 66 * length ts \<le> weight (map snd ts) + 8"
  using length_restarts [OF assms] length_chunks [of ts] by (simp add: length_block_bytes off_end)

lemma weight_index:
  assumes "\<forall>b \<in> set bs. length (fst (f b)) \<le> length (fst (last (g b))) \<and> length (snd (f b)) \<le> kMaxEncodedLength \<and> g b \<noteq> []"
  shows "weight (map f bs) \<le> weight (concat (map g bs)) + 20 * length bs"
  using assms
proof (induction bs)
  case (Cons b bs)
  have "length (fst (last (g b))) + 100 \<le> weight (g b)"
    using Cons.prems by (cases "g b" rule: rev_cases) auto
  then show ?case using Cons by simp
qed simp

section \<open>The builder\<close>

text \<open>A data block of the file, and the blocks with their index keys before the entries \<open>rest\<close>.\<close>

definition block_at :: "Port \<Rightarrow> slice \<Rightarrow> (slice \<times> slice) list \<Rightarrow> BlockHandle \<Rightarrow> bool" where
  "block_at P F es h \<longleftrightarrow> es \<noteq> [] \<and> (\<exists>ts rs. laid_out ts rs \<and> map snd ts = es \<and> holds P F h (block_bytes ts rs))"

lemma block_at_append: "block_at P F es h \<Longrightarrow> block_at P (F @ G) es h"
  unfolding block_at_def using holds_append by blast

type_synonym table_block = "(slice \<times> slice) list \<times> slice \<times> BlockHandle"

abbreviation blk_entries :: "table_block \<Rightarrow> (slice \<times> slice) list" where "blk_entries b \<equiv> fst b"
abbreviation blk_sep :: "table_block \<Rightarrow> slice" where "blk_sep b \<equiv> fst (snd b)"
abbreviation blk_handle :: "table_block \<Rightarrow> BlockHandle" where "blk_handle b \<equiv> snd (snd b)"
abbreviation index_entry :: "table_block \<Rightarrow> slice \<times> slice" where "index_entry b \<equiv> (blk_sep b, handle_bytes (blk_handle b))"
abbreviation all_entries :: "table_block list \<Rightarrow> (slice \<times> slice) list" where "all_entries bs \<equiv> concat (map blk_entries bs)"

definition separators :: "table_block list \<Rightarrow> (slice \<times> slice) list \<Rightarrow> bool" where
  "separators bs rest \<longleftrightarrow>
     (\<forall>b \<in> set bs. ikey_ok (blk_sep b) \<and> length (blk_sep b) \<le> length (fst (last (blk_entries b))) \<and>
        (\<forall>e \<in> set (blk_entries b). icmp (fst e) (blk_sep b) \<le> 0) \<and> (\<forall>e \<in> set rest. icmp (blk_sep b) (fst e) < 0)) \<and>
     sorted_wrt (\<lambda>b c. \<forall>e \<in> set (blk_entries c). icmp (blk_sep b) (fst e) < 0) bs"

definition filter_fits :: "Options \<Rightarrow> nat \<Rightarrow> (FilterPolicy \<times> filter_builder) option \<Rightarrow> bool" where
  "filter_fits opt n fb \<longleftrightarrow> map_option fst fb = filter_policy opt \<and> (\<forall>(pol, b) \<in> set_option fb. length (fb_offsets b) \<le> n div 2 ^ kFilterBaseLg)"

text \<open>
  The builder after some entries: \<open>bs\<close> are the blocks with an index entry, \<open>pend\<close> the block written last if its index entry is not added yet,
  \<open>cur\<close> the entries of the block being filled.
\<close>

definition tb_inv :: "Port \<Rightarrow> ('f \<Rightarrow> slice) \<Rightarrow> Options \<Rightarrow> 'f TableBuilder \<Rightarrow> table_block list \<Rightarrow> (slice \<times> slice) list \<Rightarrow> (slice \<times> slice) list \<Rightarrow> bool" where
  "tb_inv P content opt r bs pend cur \<longleftrightarrow>
     tb_options r = opt \<and> tb_index_options r = opt\<lparr>block_restart_interval := 1\<rparr> \<and> tb_status r = StatusOK \<and>
     tb_num_entries r = int (length (all_entries bs @ pend @ cur)) \<and>
     (all_entries bs @ pend @ cur \<noteq> [] \<longrightarrow> tb_last_key r = fst (last (all_entries bs @ pend @ cur))) \<and>
     (\<exists>ts rs. block_built (tb_data_block r) ts rs \<and> map snd ts = cur) \<and>
     (\<exists>ts rs. block_built (tb_index_block r) ts rs \<and> map snd ts = map index_entry bs) \<and>
     tb_offset r = of_nat (length (content (tb_file r))) \<and> length (content (tb_file r)) \<le> weight (all_entries bs @ pend) \<and>
     (\<forall>b \<in> set bs. block_at P (content (tb_file r)) (blk_entries b) (blk_handle b)) \<and>
     (tb_pending_index_entry r \<longleftrightarrow> pend \<noteq> []) \<and>
     (pend \<noteq> [] \<longrightarrow> cur = [] \<and> block_at P (content (tb_file r)) pend (tb_pending_handle r)) \<and>
     separators bs (pend @ cur) \<and> (bs \<noteq> [] \<longrightarrow> pend @ cur \<noteq> []) \<and>
     filter_fits opt (unat (tb_offset r)) (tb_filter_block r)"

lemma tb_invD:
  assumes "tb_inv P content opt r bs pend cur"
  shows "tb_options r = opt" "tb_index_options r = opt\<lparr>block_restart_interval := 1\<rparr>" "tb_status r = StatusOK"
    "tb_num_entries r = int (length (all_entries bs @ pend @ cur))"
    "all_entries bs @ pend @ cur \<noteq> [] \<Longrightarrow> tb_last_key r = fst (last (all_entries bs @ pend @ cur))"
    "\<exists>ts rs. block_built (tb_data_block r) ts rs \<and> map snd ts = cur"
    "\<exists>ts rs. block_built (tb_index_block r) ts rs \<and> map snd ts = map index_entry bs"
    "tb_offset r = of_nat (length (content (tb_file r)))" "length (content (tb_file r)) \<le> weight (all_entries bs @ pend)"
    "\<forall>b \<in> set bs. block_at P (content (tb_file r)) (blk_entries b) (blk_handle b)" "tb_pending_index_entry r \<longleftrightarrow> pend \<noteq> []"
    "pend \<noteq> [] \<Longrightarrow> cur = []" "pend \<noteq> [] \<Longrightarrow> block_at P (content (tb_file r)) pend (tb_pending_handle r)" "separators bs (pend @ cur)"
    "filter_fits opt (unat (tb_offset r)) (tb_filter_block r)" "bs \<noteq> [] \<Longrightarrow> pend @ cur \<noteq> []"
  using assms unfolding tb_inv_def by blast+

lemma GenerateFilter_offsets: "length (fb_offsets ((GenerateFilter create ^^ n) b)) = length (fb_offsets b) + n"
  by (induction n) (simp_all add: GenerateFilter_def)

lemma filter_StartBlock_ok:
  assumes "filter_fits opt n fb" "n \<le> m"
  shows "\<exists>fb'. filter_StartBlock m fb = Some fb' \<and> filter_fits opt m fb'"
proof (cases fb)
  case None
  then show ?thesis using assms(1) by (simp add: filter_StartBlock_def filter_fits_def)
next
  case (Some x)
  obtain pol b where x: "x = (pol, b)" by (cases x)
  have b: "length (fb_offsets b) \<le> m div 2 ^ kFilterBaseLg" "filter_policy opt = Some pol"
    using assms Some x div_le_mono [OF assms(2), of "2 ^ kFilterBaseLg"] by (simp_all add: filter_fits_def)
  then show ?thesis unfolding Some x
    by (simp add: filter_StartBlock_def StartBlock_def Let_def result_option_def GenerateFilter_offsets filter_fits_def)
qed

lemma built_laid_out:
  assumes "block_built b ts rs" "weight (map snd ts) < 2 ^ 31"
  shows "laid_out ts rs" "bb_buffer (BlockBuilder_Finish b) = block_bytes ts rs" "length (block_bytes ts rs) \<le> weight (map snd ts) + 8"
    "ts \<noteq> [] \<Longrightarrow> length (block_bytes ts rs) + kBlockTrailerSize \<le> weight (map snd ts)"
proof -
  have b: "chained ts" "restarts_ok ts rs" using assms(1) by (simp_all add: block_built_def)
  note w = block_bytes_weight [OF b(2)]
  show "laid_out ts rs" using b w assms(2) by (simp add: laid_out_def)
  show "bb_buffer (BlockBuilder_Finish b) = block_bytes ts rs" by (rule Finish_ok(1) [OF assms(1)])
  show "length (block_bytes ts rs) \<le> weight (map snd ts) + 8" using w by simp
  show "ts \<noteq> [] \<Longrightarrow> length (block_bytes ts rs) + kBlockTrailerSize \<le> weight (map snd ts)" using w by (cases ts) simp_all
qed

lemma reset_built: "block_built (BlockBuilder_Reset b) [] [0]"
  by (simp add: BlockBuilder_Reset_def block_built_def chained_def restarts_ok_def prev_key_def)

lemma WriteBlock_ok:
  assumes W: "file_appends W content" and r: "tb_offset r = of_nat (length (content (tb_file r)))" "tb_status r = StatusOK"
    and b: "block_built b ts rs" "weight (map snd ts) < 2 ^ 31" "length (content (tb_file r)) \<le> 2 ^ 62"
  shows "\<exists>h f c ty. WriteBlock W P b r = Some (h, BlockBuilder_Reset b, r\<lparr>tb_status := StatusOK, tb_file := f, tb_offset := of_nat (length (content f))\<rparr>) \<and>
    content f = content (tb_file r) @ c @ block_trailer c ty \<and> length c \<le> length (block_bytes ts rs) \<and>
    holds P (content f) h (block_bytes ts rs) \<and> bh_offset h = tb_offset r"
proof -
  note B = built_laid_out [OF b(1,2)]
  obtain c ty where c: "compress_block P (tb_options r) (block_bytes ts rs) = (c, ty)" by fastforce
  note C = compress_block_as [OF c]
  have "length (content (tb_file r)) + length c + kBlockTrailerSize < 2 ^ 63" using C B(3) b(2,3) by simp
  from WriteRawBlock_ok [OF W r(1) this C [THEN conjunct1]] obtain h f where
    "WriteRawBlock W c ty r = (h, r\<lparr>tb_status := StatusOK, tb_file := f, tb_offset := of_nat (length (content f))\<rparr>)"
    "content f = content (tb_file r) @ c @ block_trailer c ty" "holds P (content f) h (block_bytes ts rs)" "bh_offset h = tb_offset r" by blast
  moreover from this have "WriteBlock W P b r = Some (h, BlockBuilder_Reset b, r\<lparr>tb_status := StatusOK, tb_file := f, tb_offset := of_nat (length (content f))\<rparr>)"
    using c B(2) r(2) by (simp add: WriteBlock_def tb_ok_def)
  ultimately show ?thesis using C by blast
qed

lemma block_at_mono: "\<forall>b \<in> set bs. block_at P F (blk_entries b) (blk_handle b) \<Longrightarrow> \<forall>b \<in> set bs. block_at P (F @ G) (blk_entries b) (blk_handle b)"
  using block_at_append by blast

lemma Flush_ok:
  assumes W: "file_appends W content" and inv: "tb_inv P content opt r bs [] cur" "cur \<noteq> []" "\<not> tb_closed r"
    and w: "weight (all_entries bs @ cur) < 2 ^ 31"
  shows "\<exists>r'. TableBuilder_Flush W P r = Some r' \<and> tb_inv P content opt r' bs cur [] \<and> \<not> tb_closed r'"
proof -
  note I = tb_invD [OF inv(1)]
  obtain ts rs where b: "block_built (tb_data_block r) ts rs" "map snd ts = cur" using I(6) by blast
  have ts: "ts \<noteq> []" using b(2) inv(2) by auto
  have wc: "weight (map snd ts) < 2 ^ 31" using w b(2) by simp
  note B = built_laid_out [OF b(1) wc]
  have F: "length (content (tb_file r)) \<le> weight (all_entries bs)" using I(9) by simp
  then have "length (content (tb_file r)) \<le> 2 ^ 62" using w by simp
  from WriteBlock_ok [OF W I(8,3) b(1) wc this, of P] obtain h f c ty where
    f: "WriteBlock W P (tb_data_block r) r = Some (h, BlockBuilder_Reset (tb_data_block r), r\<lparr>tb_status := StatusOK, tb_file := f, tb_offset := of_nat (length (content f))\<rparr>)"
    "content f = content (tb_file r) @ c @ block_trailer c ty" "length c \<le> length (block_bytes ts rs)" "holds P (content f) h (block_bytes ts rs)" by blast
  obtain f' where f': "wf_Flush W f = (StatusOK, f')" "content f' = content f" using W unfolding file_appends_def by blast
  have len: "length (content f) \<le> weight (all_entries bs @ cur)" using F f(2,3) B(4) [OF ts] b(2) by simp
  then have n: "unat (of_nat (length (content f)) :: 64 word) = length (content f)" using w by (simp add: unat_of_nat)
  have n0: "unat (tb_offset r) = length (content (tb_file r))" using F w I(8) by (simp add: unat_of_nat)
  have le: "unat (tb_offset r) \<le> length (content f)" unfolding n0 using f(2) by simp
  obtain fb where fb: "filter_StartBlock (length (content f)) (tb_filter_block r) = Some fb"
    "filter_fits opt (length (content f)) fb"
    using filter_StartBlock_ok [OF I(15) le] by blast
  let ?r = "r\<lparr>tb_status := StatusOK, tb_file := f', tb_offset := of_nat (length (content f)), tb_data_block := BlockBuilder_Reset (tb_data_block r),
    tb_pending_handle := h, tb_pending_index_entry := True, tb_filter_block := fb\<rparr>"
  have ne: "bb_buffer (tb_data_block r) \<noteq> []"
  proof -
    obtain t us where "ts = t # us" using ts by (cases ts) auto
    then show ?thesis using b(1) chunk_pos [of t] by (auto simp: block_built_def)
  qed
  have "TableBuilder_Flush W P r = Some ?r"
    using inv(3) I(3,11) ne f(1) f'(1) n fb(1) by (simp add: TableBuilder_Flush_def tb_ok_def Let_def)
  moreover have "tb_inv P content opt ?r bs cur []"
  proof -
    have "block_at P (content f) cur h" using inv(2) B(1) b(2) f(4) by (auto simp: block_at_def)
    moreover have "\<exists>ts rs. block_built (BlockBuilder_Reset (tb_data_block r)) ts rs \<and> map snd ts = []" using reset_built by blast
    ultimately show ?thesis
      using I(1,2,4,5,7,14) block_at_mono [OF I(10), of "c @ block_trailer c ty"] len f' f(2) n fb(2) inv(2)
      unfolding tb_inv_def by simp
  qed
  ultimately show ?thesis using inv(3) by auto
qed

subsection \<open>Adding entries\<close>

definition icmp_comparator :: "Comparator \<Rightarrow> bool" where
  "icmp_comparator c \<longleftrightarrow> co_Compare c = icmp \<and>
     co_FindShortestSeparator c = InternalKey_FindShortestSeparator Bytewise_Compare Bytewise_FindShortestSeparator \<and>
     co_FindShortSuccessor c = InternalKey_FindShortSuccessor Bytewise_Compare (\<lambda>k. Inr (Bytewise_FindShortSuccessor k))"

lemma separator_ok:
  assumes "ikey_ok s" "ikey_ok l" "icmp s l < 0"
  shows "\<exists>r. InternalKey_FindShortestSeparator Bytewise_Compare Bytewise_FindShortestSeparator s l = Inr r \<and> ikey_ok r \<and>
    length r \<le> length s \<and> icmp s r \<le> 0 \<and> icmp r l < 0"
proof -
  have 8: "8 \<le> length s" "8 \<le> length l" using assms(1,2) by (simp_all add: ikey_ok_def)
  obtain r where r: "InternalKey_FindShortestSeparator Bytewise_Compare Bytewise_FindShortestSeparator s l = Inr r" "8 \<le> length r" "icmp s r \<le> 0" "icmp r l < 0"
    using internal.sep_law [OF 8 assms(3)] by blast
  have "length r \<le> length s"
    using r(1) 8 by (auto simp: InternalKey_FindShortestSeparator_def ExtractUserKey_pure bind_result_Inr_iff Let_def pure_key_def split: if_splits)
  then show ?thesis using r assms(1) by (auto simp: ikey_ok_def)
qed

lemma successor_ok:
  assumes "ikey_ok k"
  shows "\<exists>r. InternalKey_FindShortSuccessor Bytewise_Compare (\<lambda>k. Inr (Bytewise_FindShortSuccessor k)) k = Inr r \<and> ikey_ok r \<and>
    length r \<le> length k \<and> icmp k r \<le> 0"
proof -
  have 8: "8 \<le> length k" using assms by (simp add: ikey_ok_def)
  obtain r where r: "InternalKey_FindShortSuccessor Bytewise_Compare (\<lambda>k. Inr (Bytewise_FindShortSuccessor k)) k = Inr r" "8 \<le> length r" "icmp k r \<le> 0"
    using internal.succ_law [OF 8] by blast
  have "length r \<le> length k"
    using r(1) 8 by (auto simp: InternalKey_FindShortSuccessor_def ExtractUserKey_pure bind_result_Inr_iff Let_def pure_key_def split: if_splits)
  then show ?thesis using r assms by (auto simp: ikey_ok_def)
qed

text \<open>A new index key behind the last block.\<close>

lemma separators_snoc:
  assumes s: "separators bs (pend @ rest)" and p: "pend \<noteq> []" "ikeys.ascending pend"
    and sep: "ikey_ok sep" "length sep \<le> length (fst (last pend))" "icmp (fst (last pend)) sep \<le> 0" "\<forall>e \<in> set rest. icmp sep (fst e) < 0"
  shows "separators (bs @ [(pend, sep, h)]) rest"
proof -
  have "icmp (fst e) sep \<le> 0" if e: "e \<in> set pend" for e
  proof -
    have "e = last pend \<or> icmp (fst e) (fst (last pend)) < 0"
      using p e by (cases pend rule: rev_cases) (auto simp: sorted_wrt_append)
    moreover have "ikey_ok (fst e)" "ikey_ok (fst (last pend))" using p e by auto
    ultimately show ?thesis using sep(1,3) ikeys.cmp_trans [of "fst e" "fst (last pend)" sep] by auto
  qed
  then show ?thesis using s sep unfolding separators_def by (auto simp: sorted_wrt_append)
qed

lemma new_TableBuilder_ok:
  assumes "1 \<le> block_restart_interval opt" "content f = []"
  shows "\<exists>r. new_TableBuilder opt f = Some r \<and> tb_inv P content opt r [] [] [] \<and> \<not> tb_closed r"
proof -
  obtain bb where bb: "new_BlockBuilder (block_restart_interval opt) = Some bb" "block_built bb [] [0]" using new_built [OF assms(1)] by blast
  let ?fb = "map_option (\<lambda>pol. (pol, new_filter_builder)) (filter_policy opt)"
  have "filter_fits opt 0 ?fb"
    by (cases "filter_policy opt") (simp_all add: filter_fits_def new_filter_builder_def)
  from filter_StartBlock_ok [OF this order.refl] obtain fb where fb: "filter_StartBlock 0 ?fb = Some fb"
    "filter_fits opt 0 fb" by blast
  have "\<exists>ts rs. block_built bb ts rs \<and> ts = []" using bb(2) by blast
  then show ?thesis using bb(1) fb assms(2) by (simp add: new_TableBuilder_def tb_inv_def separators_def)
qed

lemma add_index_entry_ok:
  assumes inv: "tb_inv P content opt r bs pend []" "pend \<noteq> []" "1 \<le> block_restart_interval opt"
  shows "\<exists>ib ts rs. add_index_entry sep r = Some (r\<lparr>tb_last_key := sep, tb_index_block := ib, tb_pending_index_entry := False\<rparr>) \<and>
    block_built ib ts rs \<and> map snd ts = map index_entry (bs @ [(pend, sep, tb_pending_handle r)])"
proof -
  note I = tb_invD [OF inv(1)]
  have h: "handle_set (tb_pending_handle r)" using I(13) [OF inv(2)] by (auto simp: block_at_def holds_def)
  obtain ts rs where b: "block_built (tb_index_block r) ts rs" "map snd ts = map index_entry bs" using I(7) by blast
  obtain ib sh rs' where ib: "BlockBuilder_Add 1 sep (handle_bytes (tb_pending_handle r)) (tb_index_block r) = Some ib"
    "block_built ib (ts @ [(sh, sep, handle_bytes (tb_pending_handle r))]) rs'"
    using Add_ok [OF b(1), of 1 sep "handle_bytes (tb_pending_handle r)"] by auto
  have "add_index_entry sep r = Some (r\<lparr>tb_last_key := sep, tb_index_block := ib, tb_pending_index_entry := False\<rparr>)"
    using I(2) EncodeTo_handle [OF h, of "[]"] ib(1) by (simp add: add_index_entry_def)
  moreover have "map snd (ts @ [(sh, sep, handle_bytes (tb_pending_handle r))]) = map index_entry (bs @ [(pend, sep, tb_pending_handle r)])"
    using b(2) by simp
  ultimately show ?thesis using ib(2) by blast
qed

lemma ascending_last: "ikeys.ascending (es @ [e]) \<Longrightarrow> x \<in> set es \<Longrightarrow> icmp (fst x) (fst e) < 0 \<and> ikey_ok (fst x) \<and> ikey_ok (fst e)"
  by (simp add: sorted_wrt_append)

lemma separators_extend:
  assumes s: "separators bs es" "bs \<noteq> [] \<longrightarrow> es \<noteq> []" and asc: "\<forall>x \<in> set es. icmp (fst x) (fst e) < 0 \<and> ikey_ok (fst x) \<and> ikey_ok (fst e)"
  shows "separators bs (es @ [e])"
proof -
  have "icmp (blk_sep b) (fst e) < 0" if b: "b \<in> set bs" for b
  proof -
    obtain x where x: "x \<in> set es" using s(2) b by (cases es) auto
    have "ikey_ok (blk_sep b)" "icmp (blk_sep b) (fst x) < 0" using s(1) b x by (simp_all add: separators_def)
    then show ?thesis using asc x ikeys.cmp_less_trans [of "blk_sep b" "fst x" "fst e"] by auto
  qed
  then show ?thesis using s(1) by (auto simp: separators_def)
qed

lemma pending_entry_ok:
  assumes inv: "tb_inv P content opt r bs pend cur" and K: "1 \<le> block_restart_interval opt" and cmp: "icmp_comparator (comparator opt)"
    and asc: "ikeys.ascending ((all_entries bs @ pend @ cur) @ [(k, v)])"
  shows "\<exists>lk ib bs'. (if tb_pending_index_entry r then
           if bb_buffer (tb_data_block r) \<noteq> [] then None
           else Option.bind (result_option (co_FindShortestSeparator (comparator (tb_options r)) (tb_last_key r) k)) (\<lambda>sep. add_index_entry sep r)
         else Some r) = Some (r\<lparr>tb_last_key := lk, tb_index_block := ib, tb_pending_index_entry := False\<rparr>) \<and>
     all_entries bs' = all_entries bs @ pend \<and> (\<exists>ts rs. block_built ib ts rs \<and> map snd ts = map index_entry bs') \<and>
     (\<forall>b \<in> set bs'. block_at P (content (tb_file r)) (blk_entries b) (blk_handle b)) \<and> separators bs' (cur @ [(k, v)])"
proof -
  note I = tb_invD [OF inv]
  have below: "icmp (fst x) k < 0 \<and> ikey_ok (fst x) \<and> ikey_ok k" if "x \<in> set (all_entries bs @ pend @ cur)" for x
    using ascending_last [OF asc that] by simp
  have sx: "separators bs ((pend @ cur) @ [(k, v)])"
    by (rule separators_extend [OF I(14)]) (use I(16) below in auto)
  show ?thesis
  proof (cases "pend = []")
    case True
    then have "r = r\<lparr>tb_last_key := tb_last_key r, tb_index_block := tb_index_block r, tb_pending_index_entry := False\<rparr>" using I(11) by simp
    then show ?thesis using True I(7,10,11) sx
      by (intro exI [of _ "tb_last_key r"] exI [of _ "tb_index_block r"] exI [of _ bs]) simp
  next
    case False
    have cur: "cur = []" by (rule I(12) [OF False])
    have emp: "bb_buffer (tb_data_block r) = []" using I(6) cur by (auto simp: block_built_def)
    have lk: "tb_last_key r = fst (last pend)" using I(5) False cur by simp
    have lp: "icmp (fst (last pend)) k < 0" "ikey_ok (fst (last pend))" "ikey_ok k" using below [of "last pend"] False by simp_all
    obtain sep where sep: "InternalKey_FindShortestSeparator Bytewise_Compare Bytewise_FindShortestSeparator (fst (last pend)) k = Inr sep"
      "ikey_ok sep" "length sep \<le> length (fst (last pend))" "icmp (fst (last pend)) sep \<le> 0" "icmp sep k < 0"
      using separator_ok [OF lp(2,3,1)] by blast
    obtain ib ts rs where ib: "add_index_entry sep r = Some (r\<lparr>tb_last_key := sep, tb_index_block := ib, tb_pending_index_entry := False\<rparr>)"
      "block_built ib ts rs" "map snd ts = map index_entry (bs @ [(pend, sep, tb_pending_handle r)])"
      using add_index_entry_ok [OF inv [unfolded cur] False K] by blast
    have "ikeys.ascending pend" using asc by (auto simp: sorted_wrt_append)
    then have "separators (bs @ [(pend, sep, tb_pending_handle r)]) [(k, v)]"
      using sx cur False sep by (intro separators_snoc) simp_all
    then show ?thesis using ib I(1,10,11,13) cmp sep(1) emp False cur lk
      by (intro exI [of _ sep] exI [of _ ib] exI [of _ "bs @ [(pend, sep, tb_pending_handle r)]"])
        (auto simp: icmp_comparator_def result_option_def)
  qed
qed

lemma TableBuilder_Add_ok:
  assumes W: "file_appends W content" and inv: "tb_inv P content opt r bs pend cur" "\<not> tb_closed r"
    and K: "1 \<le> block_restart_interval opt" and cmp: "icmp_comparator (comparator opt)"
    and asc: "ikeys.ascending ((all_entries bs @ pend @ cur) @ [(k, v)])" and w: "weight ((all_entries bs @ pend @ cur) @ [(k, v)]) < 2 ^ 31"
  shows "\<exists>r' bs' pend' cur'. TableBuilder_Add W P k v r = Some r' \<and> tb_inv P content opt r' bs' pend' cur' \<and> \<not> tb_closed r' \<and>
    all_entries bs' @ pend' @ cur' = (all_entries bs @ pend @ cur) @ [(k, v)]"
proof -
  note I = tb_invD [OF inv(1)]
  obtain lk ib bs' where r1: "(if tb_pending_index_entry r then
           if bb_buffer (tb_data_block r) \<noteq> [] then None
           else Option.bind (result_option (co_FindShortestSeparator (comparator (tb_options r)) (tb_last_key r) k)) (\<lambda>sep. add_index_entry sep r)
         else Some r) = Some (r\<lparr>tb_last_key := lk, tb_index_block := ib, tb_pending_index_entry := False\<rparr>)"
    "all_entries bs' = all_entries bs @ pend" "\<exists>ts rs. block_built ib ts rs \<and> map snd ts = map index_entry bs'"
    "\<forall>b \<in> set bs'. block_at P (content (tb_file r)) (blk_entries b) (blk_handle b)" "separators bs' (cur @ [(k, v)])"
    using pending_entry_ok [OF inv(1) K cmp asc] by blast
  obtain ts rs where ts: "block_built (tb_data_block r) ts rs" "map snd ts = cur" using I(6) by blast
  obtain bb sh rs' where bb: "BlockBuilder_Add (block_restart_interval opt) k v (tb_data_block r) = Some bb" "block_built bb (ts @ [(sh, k, v)]) rs'"
    using Add_ok [OF ts(1) K] by blast
  let ?r = "r\<lparr>tb_index_block := ib, tb_pending_index_entry := False, tb_filter_block := map_option (apsnd (AddKey k)) (tb_filter_block r),
    tb_last_key := k, tb_num_entries := tb_num_entries r + 1, tb_data_block := bb\<rparr>"
  have "\<not> (tb_num_entries r > 0 \<and> \<not> icmp k (tb_last_key r) > 0)"
  proof (cases "all_entries bs @ pend @ cur = []")
    case True
    then show ?thesis using I(4) by simp
  next
    case False
    then have "icmp (tb_last_key r) k < 0 \<and> ikey_ok (tb_last_key r) \<and> ikey_ok k"
      using ascending_last [OF asc, of "last (all_entries bs @ pend @ cur)"] I(5) [OF False] last_in_set [OF False] by simp
    then show ?thesis using ikeys.cmp_flip [of "tb_last_key r" k] by auto
  qed
  then have A: "TableBuilder_Add W P k v r = (if CurrentSizeEstimate bb \<ge> block_size opt then TableBuilder_Flush W P ?r else Some ?r)"
    using inv(2) I(1,3) cmp bb(1) unfolding TableBuilder_Add_def r1(1) by (auto simp: tb_ok_def icmp_comparator_def Let_def)
  have fits: "filter_fits opt (unat (tb_offset r)) (map_option (apsnd (AddKey k)) (tb_filter_block r))"
    using I(15) by (auto simp: filter_fits_def AddKey_def option.map_comp comp_def)
  have inv': "tb_inv P content opt ?r bs' [] (cur @ [(k, v)])"
  proof -
    have "\<exists>ts rs. block_built bb ts rs \<and> map snd ts = cur @ [(k, v)]" using bb(2) ts(2) by (intro exI [of _ "ts @ [(sh, k, v)]"] exI [of _ rs']) simp
    then show ?thesis using r1(2-5) I(1-4,8,9) fits unfolding tb_inv_def by simp
  qed
  show ?thesis
  proof (cases "CurrentSizeEstimate bb \<ge> block_size opt")
    case True
    from Flush_ok [OF W inv'] obtain r' where "TableBuilder_Flush W P ?r = Some r'" "tb_inv P content opt r' bs' (cur @ [(k, v)]) []" "\<not> tb_closed r'"
      using inv(2) w r1(2) by auto
    then show ?thesis using A True r1(2) by (intro exI [of _ r'] exI [of _ bs'] exI [of _ "cur @ [(k, v)]"] exI [of _ "[]"]) simp
  next
    case False
    then show ?thesis using A inv' inv(2) r1(2) by (intro exI [of _ ?r] exI [of _ bs'] exI [of _ "[]"] exI [of _ "cur @ [(k, v)]"]) simp
  qed
qed

subsection \<open>Finishing\<close>

definition wrote :: "('f \<Rightarrow> slice) \<Rightarrow> 'f \<Rightarrow> 'f TableBuilder \<Rightarrow> 'f TableBuilder" where
  "wrote content f r = r\<lparr>tb_status := StatusOK, tb_file := f, tb_offset := of_nat (length (content f))\<rparr>"

lemma wrote_simps [simp]:
  "tb_status (wrote content f r) = StatusOK" "tb_file (wrote content f r) = f" "tb_offset (wrote content f r) = of_nat (length (content f))"
  "tb_options (wrote content f r) = tb_options r" "tb_filter_block (wrote content f r) = tb_filter_block r"
  "tb_index_block (wrote content f r) = tb_index_block r" "tb_index_options (wrote content f r) = tb_index_options r"
  "tb_pending_index_entry (wrote content f r) = tb_pending_index_entry r" "tb_pending_handle (wrote content f r) = tb_pending_handle r"
  "tb_last_key (wrote content f r) = tb_last_key r" "tb_closed (wrote content f r) = tb_closed r"
  by (simp_all add: wrote_def)

text \<open>A builder all of whose writes succeeded.\<close>

definition writes_ok :: "('f \<Rightarrow> slice) \<Rightarrow> 'f TableBuilder \<Rightarrow> bool" where
  "writes_ok content r \<longleftrightarrow> tb_status r = StatusOK \<and> tb_offset r = of_nat (length (content (tb_file r)))"

lemma writes_ok_wrote [simp]: "writes_ok content (wrote content f r)"
  by (simp add: writes_ok_def)

lemma wrote_same: "writes_ok content r \<Longrightarrow> wrote content (tb_file r) r = r"
  by (simp add: writes_ok_def wrote_def)

lemma finish_filter_ok:
  assumes W: "file_appends W content" and r: "writes_ok content r" "length (content (tb_file r)) < 2 ^ 40"
    and flt: "\<forall>pol b. tb_filter_block r = Some (pol, b) \<longrightarrow> length (Bloom.Finish (fp_CreateFilter pol) b) < 2 ^ 40"
  shows "\<exists>fh f X. finish_filter W r = (fh, wrote content f r) \<and> content f = content (tb_file r) @ X \<and> length X < 2 ^ 41 \<and>
    (tb_filter_block r \<noteq> None \<longrightarrow> handle_set fh)"
proof (cases "tb_filter_block r")
  case None
  then show ?thesis using wrote_same [OF r(1)]
    by (intro exI [of _ new_BlockHandle] exI [of _ "tb_file r"] exI [of _ "[]"]) (simp add: finish_filter_def)
next
  case (Some x)
  obtain pol b where x: "x = (pol, b)" by (cases x)
  let ?c = "Bloom.Finish (fp_CreateFilter pol) b"
  have c: "length ?c < 2 ^ 40" using flt Some x by blast
  have "length (content (tb_file r)) + length ?c + kBlockTrailerSize < 2 ^ 63" using c r(2) by simp
  from WriteRawBlock_ok [OF W _ this, of undefined ?c kNoCompression] r(1) obtain h f where
    f: "WriteRawBlock W ?c kNoCompression r = (h, r\<lparr>tb_status := StatusOK, tb_file := f, tb_offset := of_nat (length (content f))\<rparr>)"
    "content f = content (tb_file r) @ ?c @ block_trailer ?c kNoCompression" "holds undefined (content f) h ?c"
    by (auto simp: writes_ok_def compressed_as_def)
  have "finish_filter W r = (h, wrote content f r)" using f(1) Some x r(1) by (simp add: finish_filter_def tb_ok_def writes_ok_def wrote_def)
  then show ?thesis using f(2,3) c by (intro exI [of _ h] exI [of _ f] exI [of _ "?c @ block_trailer ?c kNoCompression"]) (simp add: holds_def)
qed

lemma WriteBlock_wrote:
  assumes W: "file_appends W content" and r: "writes_ok content r" "length (content (tb_file r)) \<le> 2 ^ 62"
    and b: "block_built b ts rs" "weight (map snd ts) < 2 ^ 31"
  shows "\<exists>h f X. WriteBlock W P b r = Some (h, BlockBuilder_Reset b, wrote content f r) \<and> content f = content (tb_file r) @ X \<and> length X < 2 ^ 32 \<and>
    laid_out ts rs \<and> holds P (content f) h (block_bytes ts rs)"
proof -
  have r': "tb_offset r = of_nat (length (content (tb_file r)))" "tb_status r = StatusOK" using r(1) by (simp_all add: writes_ok_def)
  from WriteBlock_ok [OF W r' b r(2), of P] obtain h f c ty where
    f: "WriteBlock W P b r = Some (h, BlockBuilder_Reset b, r\<lparr>tb_status := StatusOK, tb_file := f, tb_offset := of_nat (length (content f))\<rparr>)"
    "content f = content (tb_file r) @ c @ block_trailer c ty" "length c \<le> length (block_bytes ts rs)" "holds P (content f) h (block_bytes ts rs)" by blast
  note B = built_laid_out [OF b]
  have "length (c @ block_trailer c ty) < 2 ^ 32" using f(3) B(3) b(2) by simp
  then show ?thesis using f(1,2,4) B(1) unfolding wrote_def by blast
qed

lemma finish_metaindex_ok:
  assumes W: "file_appends W content" and r: "writes_ok content r" "length (content (tb_file r)) < 2 ^ 50"
    and K: "1 \<le> block_restart_interval (tb_options r)" and fh: "tb_filter_block r \<noteq> None \<longrightarrow> handle_set fh"
    and pol: "map_option fst (tb_filter_block r) = filter_policy (tb_options r)" "\<forall>pol. filter_policy (tb_options r) = Some pol \<longrightarrow> length (fp_Name pol) < 2 ^ 30"
  shows "\<exists>mh f X ts rs. finish_metaindex W P fh r = Some (mh, wrote content f r) \<and> content f = content (tb_file r) @ X \<and> length X < 2 ^ 32 \<and>
    laid_out ts rs \<and> length ts \<le> 1 \<and> holds P (content f) mh (block_bytes ts rs)"
proof -
  obtain bb where bb: "new_BlockBuilder (block_restart_interval (tb_options r)) = Some bb" "block_built bb [] [0]" using new_built [OF K] by blast
  have le: "length (content (tb_file r)) \<le> 2 ^ 62" using r(2) by simp
  have ok: "tb_ok r" using r(1) by (simp add: writes_ok_def tb_ok_def)
  have "\<exists>bb1 ts rs. (if tb_filter_block r \<noteq> None then
             Option.bind (filter_policy (tb_options r)) (\<lambda>pol.
             Option.bind (BlockHandle_EncodeTo fh []) (\<lambda>enc.
               BlockBuilder_Add (block_restart_interval (tb_options r)) (filter_key pol) enc bb))
           else Some bb) = Some bb1 \<and> block_built bb1 ts rs \<and> length ts \<le> 1 \<and> weight (map snd ts) < 2 ^ 31"
  proof (cases "tb_filter_block r")
    case None
    then show ?thesis using bb(2) by (intro exI [of _ bb] exI [of _ "[]"] exI [of _ "[0]"]) simp
  next
    case (Some x)
    obtain pl b where x: "x = (pl, b)" by (cases x)
    have pl: "filter_policy (tb_options r) = Some pl" "length (fp_Name pl) < 2 ^ 30" using pol Some x by auto
    have enc: "BlockHandle_EncodeTo fh [] = Some (handle_bytes fh)" using EncodeTo_handle fh Some by simp
    obtain bb1 sh rs' where "BlockBuilder_Add (block_restart_interval (tb_options r)) (filter_key pl) (handle_bytes fh) bb = Some bb1"
      "block_built bb1 [(sh, filter_key pl, handle_bytes fh)] rs'" using Add_ok [OF bb(2) K, of "filter_key pl" "handle_bytes fh"] by auto
    then show ?thesis using Some pl enc length_handle_bytes [of fh]
      by (intro exI [of _ bb1] exI [of _ "[(sh, filter_key pl, handle_bytes fh)]"] exI [of _ rs']) (simp add: filter_key_def)
  qed
  then obtain bb1 ts rs where b1: "(if tb_filter_block r \<noteq> None then
             Option.bind (filter_policy (tb_options r)) (\<lambda>pol.
             Option.bind (BlockHandle_EncodeTo fh []) (\<lambda>enc.
               BlockBuilder_Add (block_restart_interval (tb_options r)) (filter_key pol) enc bb))
           else Some bb) = Some bb1" "block_built bb1 ts rs" "length ts \<le> 1" "weight (map snd ts) < 2 ^ 31" by blast
  obtain h f X where f: "WriteBlock W P bb1 r = Some (h, BlockBuilder_Reset bb1, wrote content f r)" "content f = content (tb_file r) @ X"
    "length X < 2 ^ 32" "laid_out ts rs" "holds P (content f) h (block_bytes ts rs)"
    using WriteBlock_wrote [OF W r(1) le b1(2,4), of P] by blast
  have "finish_metaindex W P fh r = Some (h, wrote content f r)"
    unfolding finish_metaindex_def bb(1) using ok f(1) b1(1) by simp
  then show ?thesis using f b1(3) by blast
qed

text \<open>The file of a table with the entries \<open>es\<close>.\<close>

definition table_file :: "Port \<Rightarrow> slice \<Rightarrow> (slice \<times> slice) list \<Rightarrow> bool" where
  "table_file P F es \<longleftrightarrow> (\<exists>pre mh ih bs ts rs mts mrs. F = pre @ footer_bytes mh ih \<and> length F < 2 ^ 63 \<and>
     holds P F ih (block_bytes ts rs) \<and> laid_out ts rs \<and> map snd ts = map index_entry bs \<and>
     (\<forall>b \<in> set bs. block_at P F (blk_entries b) (blk_handle b)) \<and> separators bs [] \<and> all_entries bs = es \<and>
     holds P F mh (block_bytes mts mrs) \<and> laid_out mts mrs \<and> length mts \<le> 1)"

text \<open>What \<^verbatim>\<open>Finish\<close> starts from once the last data block is out.\<close>

definition index_state :: "Port \<Rightarrow> ('f \<Rightarrow> slice) \<Rightarrow> 'f TableBuilder \<Rightarrow> table_block list \<Rightarrow> bool" where
  "index_state P content r bs \<longleftrightarrow> (\<exists>ts rs. block_built (tb_index_block r) ts rs \<and> map snd ts = map index_entry bs) \<and>
     (\<forall>b \<in> set bs. block_at P (content (tb_file r)) (blk_entries b) (blk_handle b)) \<and> separators bs []"

lemma last_entry_ok:
  assumes inv: "tb_inv P content opt r bs pend []" and K: "1 \<le> block_restart_interval opt" and cmp: "icmp_comparator (comparator opt)"
    and asc: "ikeys.ascending (all_entries bs @ pend)"
  shows "\<exists>r1 bs'. (if tb_pending_index_entry r then
           Option.bind (result_option (co_FindShortSuccessor (comparator (tb_options r)) (tb_last_key r))) (\<lambda>succ. add_index_entry succ r)
         else Some r) = Some r1 \<and> tb_file r1 = tb_file r \<and> writes_ok content r1 \<and> index_state P content r1 bs' \<and> all_entries bs' = all_entries bs @ pend"
proof -
  note I = tb_invD [OF inv]
  show ?thesis
  proof (cases "pend = []")
    case True
    then have "bs = []" using I(16) by auto
    then show ?thesis using True I(3,7,8,10,11,14)
      by (intro exI [of _ r] exI [of _ bs]) (simp add: writes_ok_def index_state_def)
  next
    case False
    have lk: "tb_last_key r = fst (last pend)" using I(5) False by simp
    have pa: "ikeys.ascending pend" using asc by (simp add: sorted_wrt_append)
    then have "ikey_ok (fst (last pend))" using False by auto
    then obtain sc where sc: "InternalKey_FindShortSuccessor Bytewise_Compare (\<lambda>k. Inr (Bytewise_FindShortSuccessor k)) (fst (last pend)) = Inr sc"
      "ikey_ok sc" "length sc \<le> length (fst (last pend))" "icmp (fst (last pend)) sc \<le> 0" using successor_ok by blast
    obtain ib ts rs where ib: "add_index_entry sc r = Some (r\<lparr>tb_last_key := sc, tb_index_block := ib, tb_pending_index_entry := False\<rparr>)"
      "block_built ib ts rs" "map snd ts = map index_entry (bs @ [(pend, sc, tb_pending_handle r)])"
      using add_index_entry_ok [OF inv False K] by blast
    let ?r = "r\<lparr>tb_last_key := sc, tb_index_block := ib, tb_pending_index_entry := False\<rparr>" and ?bs = "bs @ [(pend, sc, tb_pending_handle r)]"
    have "separators ?bs []" by (rule separators_snoc [OF _ False pa sc(2-4)]) (use I(14) in simp_all)
    moreover have "\<forall>b \<in> set ?bs. block_at P (content (tb_file r)) (blk_entries b) (blk_handle b)" using I(10,13) False by auto
    ultimately have st: "index_state P content ?r ?bs" using ib(2,3) unfolding index_state_def by auto
    have R: "result_option (co_FindShortSuccessor (comparator (tb_options r)) (tb_last_key r)) = Some sc"
      using I(1) cmp sc(1) lk by (simp add: icmp_comparator_def result_option_def)
    show ?thesis using st I(3,8,11) False R ib(1)
      by (intro exI [of _ ?r] exI [of _ ?bs]) (simp add: writes_ok_def)
  qed
qed

lemma wrote_wrote [simp]: "wrote content f (wrote content g r) = wrote content f r"
  by (simp add: wrote_def)

lemma last_entry_wrote:
  "(if tb_pending_index_entry (wrote content f r) then
      Option.bind (result_option (co_FindShortSuccessor (comparator (tb_options (wrote content f r))) (tb_last_key (wrote content f r))))
        (\<lambda>succ. add_index_entry succ (wrote content f r))
    else Some (wrote content f r)) =
   map_option (wrote content f) (if tb_pending_index_entry r then
      Option.bind (result_option (co_FindShortSuccessor (comparator (tb_options r)) (tb_last_key r))) (\<lambda>succ. add_index_entry succ r)
    else Some r)"
proof -
  have "add_index_entry sep (wrote content f r) = map_option (wrote content f) (add_index_entry sep r)" for sep
    by (cases r, cases "BlockHandle_EncodeTo (tb_pending_handle r) []") (simp_all add: add_index_entry_def option.map_comp comp_def wrote_def)
  then show ?thesis by (cases "result_option (co_FindShortSuccessor (comparator (tb_options r)) (tb_last_key r))") simp_all
qed

lemma index_state_wrote:
  "index_state P content r bs \<Longrightarrow> content f = content (tb_file r) @ X \<Longrightarrow> index_state P content (wrote content f r) bs"
  using block_at_mono [of bs P "content (tb_file r)" X] unfolding index_state_def by simp

lemma index_weight:
  assumes "index_state P content r bs"
  shows "weight (map index_entry bs) \<le> 2 * weight (all_entries bs)"
proof -
  have ne: "\<forall>b \<in> set bs. blk_entries b \<noteq> []" using assms by (auto simp: index_state_def block_at_def)
  have "weight (map index_entry bs) \<le> weight (all_entries bs) + 20 * length bs"
    using assms ne length_handle_bytes by (intro weight_index) (auto simp: index_state_def separators_def)
  moreover have "100 * length bs \<le> weight (all_entries bs)"
    using ne
  proof (induction bs)
    case (Cons b bs)
    have "100 \<le> weight (blk_entries b)" using Cons.prems by (cases "blk_entries b") auto
    then show ?case using Cons by simp
  qed simp
  ultimately show ?thesis by simp
qed

lemma finish_footer_ok:
  assumes W: "file_appends W content" and r: "writes_ok content r" and h: "handle_set mh" "handle_set ih"
  shows "\<exists>f. finish_footer W mh ih r = Some (wrote content f r) \<and> content f = content (tb_file r) @ footer_bytes mh ih"
proof -
  obtain f where f: "wf_Append W (footer_bytes mh ih) (tb_file r) = (StatusOK, f)" "content f = content (tb_file r) @ footer_bytes mh ih"
    using W unfolding file_appends_def by blast
  have "finish_footer W mh ih r = Some (wrote content f r)"
    using f r by (simp add: finish_footer_def tb_ok_def writes_ok_def EncodeTo_footer [OF h] wrote_def)
  then show ?thesis using f(2) by blast
qed

lemma TableBuilder_Finish_ok:
  assumes W: "file_appends W content" and inv: "tb_inv P content opt r bs pend cur" "\<not> tb_closed r"
    and K: "1 \<le> block_restart_interval opt" and cmp: "icmp_comparator (comparator opt)"
    and asc: "ikeys.ascending (all_entries bs @ pend @ cur)" and w: "weight (all_entries bs @ pend @ cur) < 2 ^ 30"
    and flt: "\<And>r1 pol b. filter_policy opt = Some pol \<Longrightarrow> TableBuilder_Flush W P r = Some r1 \<Longrightarrow> tb_filter_block r1 = Some (pol, b) \<Longrightarrow> length (Bloom.Finish (fp_CreateFilter pol) b) < 2 ^ 40"
      "\<And>pol. filter_policy opt = Some pol \<Longrightarrow> length (fp_Name pol) < 2 ^ 30"
  shows "\<exists>r'. TableBuilder_Finish W P r = Some (StatusOK, r') \<and> tb_offset r' = of_nat (length (content (tb_file r'))) \<and>
    table_file P (content (tb_file r')) (all_entries bs @ pend @ cur)"
proof -
  note I = tb_invD [OF inv(1)]
  let ?es = "all_entries bs @ pend @ cur"
  obtain r1 where r1: "TableBuilder_Flush W P r = Some r1" "tb_inv P content opt r1 bs (pend @ cur) []" "\<not> tb_closed r1"
  proof (cases "cur = []")
    case True
    then have "bb_buffer (tb_data_block r) = []" using I(6) by (auto simp: block_built_def)
    then have "TableBuilder_Flush W P r = Some r" using inv(2) I(3) by (simp add: TableBuilder_Flush_def tb_ok_def)
    then show ?thesis using that inv True by simp
  next
    case False
    then have "pend = []" using I(12) by blast
    then show ?thesis using that Flush_ok [OF W _ False inv(2), of P opt bs] inv(1) w by auto
  qed
  let ?c = "r1\<lparr>tb_closed := True\<rparr>"
  have inv1: "tb_inv P content opt ?c bs (pend @ cur) []" using r1(2) by (cases r1) (simp add: tb_inv_def)
  note J = tb_invD [OF inv1]
  have wc: "writes_ok content ?c" using J(3,8) by (simp add: writes_ok_def)
  have len: "length (content (tb_file ?c)) < 2 ^ 30" using J(9) w by simp
  have "\<forall>pol b. tb_filter_block ?c = Some (pol, b) \<longrightarrow> length (Bloom.Finish (fp_CreateFilter pol) b) < 2 ^ 40"
    using flt(1) [OF _ r1(1)] J(15) by (auto simp: filter_fits_def)
  moreover have "length (content (tb_file ?c)) < 2 ^ 40" using len by simp
  ultimately obtain fh f2 X2 where f2: "finish_filter W ?c = (fh, wrote content f2 ?c)" "content f2 = content (tb_file ?c) @ X2" "length X2 < 2 ^ 41"
    "tb_filter_block ?c \<noteq> None \<longrightarrow> handle_set fh" using finish_filter_ok [OF W wc] by blast
  let ?r2 = "wrote content f2 ?c"
  have "length (content (tb_file ?r2)) < 2 ^ 50" using f2(2,3) len by simp
  moreover have "1 \<le> block_restart_interval (tb_options ?r2)" "tb_filter_block ?r2 \<noteq> None \<longrightarrow> handle_set fh"
    "map_option fst (tb_filter_block ?r2) = filter_policy (tb_options ?r2)" "\<forall>pol. filter_policy (tb_options ?r2) = Some pol \<longrightarrow> length (fp_Name pol) < 2 ^ 30"
    using K f2(4) J(1,15) flt(2) by (simp_all add: filter_fits_def)
  ultimately obtain mh f3 X3 mts mrs where f3: "finish_metaindex W P fh ?r2 = Some (mh, wrote content f3 ?r2)" "content f3 = content (tb_file ?r2) @ X3"
    "length X3 < 2 ^ 32" "laid_out mts mrs" "length mts \<le> 1" "holds P (content f3) mh (block_bytes mts mrs)"
    using finish_metaindex_ok [OF W writes_ok_wrote] by blast
  let ?r3 = "wrote content f3 ?r2"
  have c3: "content f3 = content (tb_file ?c) @ (X2 @ X3)" using f2(2) f3(2) by simp
  obtain q bs' where q: "(if tb_pending_index_entry ?c then
           Option.bind (result_option (co_FindShortSuccessor (comparator (tb_options ?c)) (tb_last_key ?c))) (\<lambda>succ. add_index_entry succ ?c)
         else Some ?c) = Some q" "tb_file q = tb_file ?c" "index_state P content q bs'" "all_entries bs' = ?es"
    using last_entry_ok [OF inv1 K cmp] asc by auto
  let ?q = "wrote content f3 q"
  have ix: "index_state P content ?q bs'" by (rule index_state_wrote [OF q(3)]) (use c3 q(2) in simp)
  then obtain ts rs where ts: "block_built (tb_index_block ?q) ts rs" "map snd ts = map index_entry bs'" by (auto simp: index_state_def)
  have "weight (map snd ts) < 2 ^ 31" unfolding ts(2) using index_weight [OF ix] q(4) w by simp
  moreover have "length (content (tb_file ?q)) \<le> 2 ^ 62" unfolding wrote_simps c3 using f2(3) f3(3) len by simp
  ultimately obtain ih f4 X4 where f4: "WriteBlock W P (tb_index_block ?q) ?q = Some (ih, BlockBuilder_Reset (tb_index_block ?q), wrote content f4 ?q)"
    "content f4 = content (tb_file ?q) @ X4" "length X4 < 2 ^ 32" "laid_out ts rs" "holds P (content f4) ih (block_bytes ts rs)"
    using WriteBlock_wrote [OF W writes_ok_wrote _ ts(1), of f3 q P] by blast
  let ?r4 = "(wrote content f4 ?q)\<lparr>tb_index_block := BlockBuilder_Reset (tb_index_block ?q)\<rparr>"
  have ok3: "tb_ok ?r3" by (simp add: tb_ok_def)
  have F4: "finish_index W P ?r3 = Some (ih, ?r4)"
    using last_entry_wrote [of content f3 ?r2] last_entry_wrote [of content f2 ?c] q(1) f4(1) ok3 unfolding finish_index_def by simp
  have w4: "writes_ok content ?r4" by (simp add: writes_ok_def)
  have c4: "content f4 = content f3 @ X4" using f4(2) by simp
  have hs: "handle_set mh" "handle_set ih" using f3(6) f4(5) by (simp_all add: holds_def)
  obtain f5 where f5: "finish_footer W mh ih ?r4 = Some (wrote content f5 ?r4)" "content f5 = content f4 @ footer_bytes mh ih"
    using finish_footer_ok [OF W w4 hs] by auto
  have "TableBuilder_Finish W P r = Some (StatusOK, wrote content f5 ?r4)"
    using r1(1,3) f2(1) f3(1) F4 f5(1) unfolding TableBuilder_Finish_def by (simp add: Let_def)
  moreover have "table_file P (content f5) ?es" unfolding table_file_def
  proof (intro exI conjI)
    show "content f5 = content f4 @ footer_bytes mh ih" by (rule f5(2))
    show "length (content f5) < 2 ^ 63" unfolding f5(2) c4 c3 using f2(3) f3(3) f4(3) len by simp
    show "holds P (content f5) ih (block_bytes ts rs)" unfolding f5(2) by (rule holds_append [OF f4(5)])
    show "laid_out ts rs" "map snd ts = map index_entry bs'" by (rule f4(4), rule ts(2))
    show "\<forall>b \<in> set bs'. block_at P (content f5) (blk_entries b) (blk_handle b)"
      unfolding f5(2) c4 using ix block_at_mono [of bs' P "content f3"] by (auto simp: index_state_def)
    show "separators bs' []" "all_entries bs' = ?es" using ix q(4) by (simp_all add: index_state_def)
    show "holds P (content f5) mh (block_bytes mts mrs)" unfolding f5(2) c4 by (intro holds_append f3(6))
    show "laid_out mts mrs" "length mts \<le> 1" by (rule f3(4), rule f3(5))
  qed
  ultimately show ?thesis by (intro exI [of _ "wrote content f5 ?r4"]) simp
qed

end
