(* ===== verification/TableReadCorrect.thy ===== *)
theory TableReadCorrect
  imports TableCorrect
begin

text \<open>
  Opening the file of a table and reading it: every block handle of the index leads to its block, so the two-level iterator of the table
  is a cursor on the entries the builder was given.
\<close>

section \<open>Iterators of blocks\<close>

definition blk_ok :: "(slice \<Rightarrow> bool) \<Rightarrow> (slice \<Rightarrow> slice \<Rightarrow> int) \<Rightarrow> BlockIterator \<Rightarrow> bool" where
  "blk_ok valid cmp it \<longleftrightarrow> (case it of BlockIter b \<Rightarrow> block_iter_ok valid cmp b | _ \<Rightarrow> False)"

definition blk_items :: "BlockIterator \<Rightarrow> (slice \<times> slice) list" where
  "blk_items it = (case it of BlockIter b \<Rightarrow> block_items b | _ \<Rightarrow> [])"

definition blk_pos :: "BlockIterator \<Rightarrow> nat" where
  "blk_pos it = (case it of BlockIter b \<Rightarrow> block_pos b | _ \<Rightarrow> 0)"

lemma blk_ok_iter: "blk_ok valid cmp it \<Longrightarrow> \<exists>b. it = BlockIter b \<and> block_iter_ok valid cmp b"
  by (cases it) (simp_all add: blk_ok_def)

lemma BlockIterator_sorted:
  assumes K: "key_order valid cmp"
  shows "sorted_iter valid cmp (BlockIterator_ops cmp) (blk_ok valid cmp) blk_items blk_pos"
proof (intro sorted_iter.intro [OF K] sorted_iter_axioms.intro)
  fix it assume "blk_ok valid cmp it"
  then obtain b where b: "it = BlockIter b" "block_iter_ok valid cmp b" using blk_ok_iter by blast
  note S = block_sorted [OF K]
  note D = BlockIterator_ops_def block_op_def block_need_def blk_ok_def blk_items_def blk_pos_def
  show "sorted_wrt (\<lambda>a b. cmp (fst a) (fst b) < 0) (blk_items it) \<and> (\<forall>e \<in> set (blk_items it). valid (fst e))"
    using sorted_iter.ascends [OF S b(2)] by (simp add: b(1) D)
  show "it_Valid (BlockIterator_ops cmp) it \<longleftrightarrow> blk_pos it < length (blk_items it)"
    using sorted_iter.valid_iff [OF S b(2)] by (simp add: b(1) D block_iterator_def)
  show "it_key (BlockIterator_ops cmp) it = Some (fst (blk_items it ! blk_pos it)) \<and>
      it_value (BlockIterator_ops cmp) it = Some (snd (blk_items it ! blk_pos it))" if "blk_pos it < length (blk_items it)"
    using sorted_iter.reads [OF S b(2)] that by (simp add: b(1) D block_iterator_def)
  show "\<exists>s'. it_SeekToFirst (BlockIterator_ops cmp) it = Some s' \<and> blk_ok valid cmp s' \<and> blk_items s' = blk_items it \<and> blk_pos s' = 0"
    using sorted_iter.seek_first [OF S b(2)] by (auto simp: b(1) D block_iterator_def)
  show "\<exists>s'. it_SeekToLast (BlockIterator_ops cmp) it = Some s' \<and> blk_ok valid cmp s' \<and> blk_items s' = blk_items it \<and> blk_pos s' = length (blk_items it) - 1"
    using sorted_iter.seek_last [OF S b(2)] by (auto simp: b(1) D block_iterator_def)
  show "\<exists>s'. it_Seek (BlockIterator_ops cmp) t it = Some s' \<and> blk_ok valid cmp s' \<and> blk_items s' = blk_items it \<and> blk_pos s' = lower cmp (blk_items it) t"
    if "valid t" for t using sorted_iter.seek [OF S b(2) that] by (auto simp: b(1) D block_iterator_def)
  show "\<exists>s'. it_Next (BlockIterator_ops cmp) it = Some s' \<and> blk_ok valid cmp s' \<and> blk_items s' = blk_items it \<and> blk_pos s' = Suc (blk_pos it)"
    if "blk_pos it < length (blk_items it)" using sorted_iter.step [OF S b(2)] that by (auto simp: b(1) D block_iterator_def)
  show "\<exists>s'. it_Prev (BlockIterator_ops cmp) it = Some s' \<and> blk_ok valid cmp s' \<and> blk_items s' = blk_items it \<and>
      blk_pos s' = (if blk_pos it = 0 then length (blk_items it) else blk_pos it - 1)" if "blk_pos it < length (blk_items it)"
    using sorted_iter.step_back [OF S b(2)] that by (auto simp: b(1) D block_iterator_def)
qed

lemma open_block:
  assumes l: "laid_out ts rs" and s: "sorted_wrt (\<lambda>a b. cmp (fst a) (fst b) < 0) (map snd ts)" "\<forall>e \<in> set (map snd ts). valid (fst e)"
  shows "\<exists>it. Block_NewIterator (new_Block (block_bytes ts rs)) = Some it \<and> blk_ok valid cmp it \<and> blk_items it = map snd ts"
proof -
  obtain b where b: "Block_NewIterator (new_Block (block_bytes ts rs)) = Some (BlockIter b)" "stand ts rs (length ts) b" using new_Block_ok [OF l] by blast
  have "sorted_wrt (\<lambda>a b. cmp (ekey a) (ekey b) < 0) ts" "\<forall>e \<in> set ts. valid (ekey e)" using s by (simp_all add: sorted_wrt_map)
  then have "block_iter_ok valid cmp b" using b(2) unfolding block_iter_ok_def by blast
  then show ?thesis using b(1) stand_contents(1) [OF b(2)] by (simp add: blk_ok_def blk_items_def)
qed

section \<open>Opening a table\<close>

definition table_opened :: "Port \<Rightarrow> Table \<Rightarrow> (slice \<times> slice) list \<Rightarrow> bool" where
  "table_opened P t es \<longleftrightarrow> (\<exists>F bs ts rs. file_reads (t_file t) F \<and> t_index_block t = new_Block (block_bytes ts rs) \<and> laid_out ts rs \<and>
     map snd ts = map index_entry bs \<and> (\<forall>b \<in> set bs. block_at P F (blk_entries b) (blk_handle b)) \<and> separators bs [] \<and> all_entries bs = es)"

lemma ReadMeta_ok:
  assumes P: "port_ok P" and F: "file_reads (t_file t) F" and m: "holds P F (metaindex_handle footer) (block_bytes ts rs)" "laid_out ts rs" "length ts \<le> 1"
  shows "\<exists>flt. ReadMeta P footer t = Some (t\<lparr>t_filter := flt\<rparr>)"
proof (cases "filter_policy (t_options t)")
  case None
  then show ?thesis by (intro exI [of _ "t_filter t"]) (simp add: ReadMeta_def)
next
  case (Some pol)
  let ?B = "BlockIterator_ops Bytewise_Compare" and ?ok = "blk_ok (\<lambda>_. True) Bytewise_Compare"
  obtain contents where c: "ReadBlock P (t_file t) (paranoid_checks (t_options t)) (metaindex_handle footer) = Inr contents" "bc_data contents = block_bytes ts rs"
    using ReadBlock_holds [OF P F m(1)] by blast
  have "sorted_wrt (\<lambda>a b. Bytewise_Compare (fst a) (fst b) < 0) (map snd ts)" using m(3) by (cases ts) simp_all
  then obtain it where it: "Block_NewIterator (new_Block (block_bytes ts rs)) = Some it" "?ok it"
    using open_block [OF m(2), of Bytewise_Compare "\<lambda>_. True"] by auto
  note S = BlockIterator_sorted [OF bytewise.key_order_axioms]
  obtain it1 where it1: "it_Seek ?B (filter_key pol) it = Some it1" "?ok it1" using sorted_iter.seek [OF S it(2), of "filter_key pol"] by auto
  have flt: "\<exists>flt. ReadFilter P v t = t\<lparr>t_filter := flt\<rparr>" for v
  proof -
    have "t = t\<lparr>t_filter := t_filter t\<rparr>" by simp
    then have "\<exists>flt. t = t\<lparr>t_filter := flt\<rparr>" by blast
    then show ?thesis by (auto simp: ReadFilter_def split: sum.splits)
  qed
  have same: "\<exists>flt. t = t\<lparr>t_filter := flt\<rparr>" by (rule exI [of _ "t_filter t"]) simp
  show ?thesis
  proof (cases "it_Valid ?B it1")
    case True
    then have "blk_pos it1 < length (blk_items it1)" using sorted_iter.valid_iff [OF S it1(2)] by simp
    from sorted_iter.reads [OF S it1(2) this] obtain k v where "it_key ?B it1 = Some k" "it_value ?B it1 = Some v" by blast
    then show ?thesis using Some c it(1) it1(1) True flt [of v] same by (auto simp: ReadMeta_def Let_def)
  next
    case False
    then show ?thesis using Some c it(1) it1(1) same by (auto simp: ReadMeta_def Let_def)
  qed
qed

lemma Table_Open_ok:
  assumes P: "port_ok P" and F: "file_reads file F" and t: "table_file P F es"
  shows "\<exists>t. Table_Open P opt cid file (of_nat (length F)) = Some (Inr t) \<and> t_options t = opt \<and> table_opened P t es"
proof -
  obtain pre mh ih bs ts rs mts mrs where T: "F = pre @ footer_bytes mh ih" "length F < 2 ^ 63" "holds P F ih (block_bytes ts rs)" "laid_out ts rs"
    "map snd ts = map index_entry bs" "\<forall>b \<in> set bs. block_at P F (blk_entries b) (blk_handle b)" "separators bs []" "all_entries bs = es"
    "holds P F mh (block_bytes mts mrs)" "laid_out mts mrs" "length mts \<le> 1" using t unfolding table_file_def by blast
  have n: "unat (of_nat (length F) :: 64 word) = length F" using T(2) by (simp add: unat_of_nat)
  have len: "length F = length pre + kEncodedLength" using T(1) by simp
  have "rf_Read file (length F - kEncodedLength) kEncodedLength = (StatusOK, take kEncodedLength (drop (length pre) F))"
    using F len unfolding file_reads_def by simp
  then have read: "rf_Read file (length F - kEncodedLength) kEncodedLength = (StatusOK, footer_bytes mh ih)" unfolding T(1) by simp
  let ?footer = "\<lparr>metaindex_handle = mh, index_handle = ih\<rparr>"
  obtain contents where c: "ReadBlock P file (paranoid_checks opt) ih = Inr contents" "bc_data contents = block_bytes ts rs"
    using ReadBlock_holds [OF P F T(3)] by blast
  let ?t = "\<lparr>t_options = opt, t_file = file, t_cache_id = cid, t_filter = None, t_metaindex_handle = mh, t_index_block = new_Block (block_bytes ts rs)\<rparr>"
  have Ft: "file_reads (t_file ?t) F" using F by simp
  obtain flt where "ReadMeta P ?footer ?t = Some (?t\<lparr>t_filter := flt\<rparr>)" using ReadMeta_ok [OF P Ft, of ?footer mts mrs] T(9-11) by auto
  then have "Table_Open P opt cid file (of_nat (length F)) = Some (Inr (?t\<lparr>t_filter := flt\<rparr>))"
    unfolding Table_Open_def n using len read c by (simp add: DecodeFrom_footer)
  moreover have "table_opened P (?t\<lparr>t_filter := flt\<rparr>) es" unfolding table_opened_def using F T(4-8) by auto
  ultimately show ?thesis by auto
qed

section \<open>The iterator of a table\<close>

abbreviation icmp_table :: "Table \<Rightarrow> bool" where
  "icmp_table t \<equiv> co_Compare (comparator (t_options t)) = icmp"

lemma BlockReader_ok:
  assumes P: "port_ok P" and F: "file_reads (t_file t) F" and b: "block_at P F es h" "ikeys.ascending es"
  shows "\<exists>it. BlockReader P v t (handle_bytes h) = Some it \<and> blk_ok ikey_ok icmp it \<and> blk_items it = es"
proof -
  obtain ts rs where ts: "laid_out ts rs" "map snd ts = es" "holds P F h (block_bytes ts rs)" using b(1) by (auto simp: block_at_def)
  obtain contents where c: "ReadBlock P (t_file t) v h = Inr contents" "bc_data contents = block_bytes ts rs" using ReadBlock_holds [OF P F ts(3)] by blast
  have "BlockReader P v t (handle_bytes h) = Block_NewIterator (new_Block (block_bytes ts rs))"
    using DecodeFrom_handle [of h "[]"] c by (simp add: BlockReader_def BlockReader_cached_def fetch_block_def)
  then show ?thesis using open_block [OF ts(1), of icmp ikey_ok] b(2) ts(2) by auto
qed

interpretation block_iters: sorted_iter ikey_ok icmp "BlockIterator_ops icmp" "blk_ok ikey_ok icmp" blk_items blk_pos
  by (rule BlockIterator_sorted) (rule ikeys.key_order_axioms)

interpretation tables: two_level ikey_ok icmp "BlockIterator_ops icmp" "blk_ok ikey_ok icmp" blk_items blk_pos
  "BlockIterator_ops icmp" "blk_ok ikey_ok icmp" blk_items blk_pos "BlockReader P v t"
  for P v t
  by (rule two_level.intro) (rule block_iters.sorted_iter_axioms)+

lemma Table_NewIterator_ok:
  assumes P: "port_ok P" and t: "table_opened P t es" "icmp_table t" and es: "ikeys.ascending es"
  shows "\<exists>it. Table_NewIterator t = Some it \<and> tables.tok P v t it \<and> tables.titems P v t it = es \<and> tables.tpos P v t it = length es"
proof -
  obtain F bs ts rs where T: "file_reads (t_file t) F" "t_index_block t = new_Block (block_bytes ts rs)" "laid_out ts rs"
    "map snd ts = map index_entry bs" "\<forall>b \<in> set bs. block_at P F (blk_entries b) (blk_handle b)" "separators bs []" "all_entries bs = es"
    using t(1) unfolding table_opened_def by blast
  have asc: "ikeys.ascending (blk_entries b)" if b: "b \<in> set bs" for b
  proof -
    obtain xs ys where "bs = xs @ b # ys" using split_list [OF b] by blast
    then have "es = all_entries xs @ blk_entries b @ all_entries ys" using T(7) by simp
    then show ?thesis using es by (simp add: sorted_wrt_append)
  qed
  have rd: "\<exists>it. BlockReader P v t (handle_bytes (blk_handle b)) = Some it \<and> blk_ok ikey_ok icmp it \<and> blk_items it = blk_entries b" if "b \<in> set bs" for b
    using BlockReader_ok [OF P T(1)] T(5) asc [OF that] that by blast
  have blk: "tables.block P v t (handle_bytes (blk_handle b)) = blk_entries b" if "b \<in> set bs" for b
    using rd [OF that] by (auto simp: tables.block_def)
  note S = T(6) [unfolded separators_def]
  have ord: "sorted_wrt (\<lambda>b c. icmp (blk_sep b) (blk_sep c) < 0) bs"
  proof (rule sorted_wrt_mono_rel [OF _ S [THEN conjunct2]])
    fix b c assume bc: "b \<in> set bs" "c \<in> set bs" "\<forall>e \<in> set (blk_entries c). icmp (blk_sep b) (fst e) < 0"
    obtain e where e: "e \<in> set (blk_entries c)" using T(5) bc(2) by (cases "blk_entries c") (auto simp: block_at_def)
    have "ikey_ok (fst e)" using asc [OF bc(2)] e by blast
    then show "icmp (blk_sep b) (blk_sep c) < 0"
      using S bc e ikeys.cmp_less_trans [of "blk_sep b" "fst e" "blk_sep c"] by auto
  qed
  then have "sorted_wrt (\<lambda>a b. icmp (fst a) (fst b) < 0) (map snd ts)" "\<forall>e \<in> set (map snd ts). ikey_ok (fst e)"
    unfolding T(4) using S by (auto simp: sorted_wrt_map)
  from open_block [OF T(3) this] obtain ix where ix: "Block_NewIterator (t_index_block t) = Some ix" "blk_ok ikey_ok icmp ix"
    "blk_items ix = map index_entry bs" unfolding T(2,4) by blast
  have "tables.separated P v t (blk_items ix)"
    unfolding tables.separated_def ix(3)
  proof (intro conjI)
    show "\<forall>e \<in> set (map index_entry bs). \<exists>it. BlockReader P v t (snd e) = Some it \<and> blk_ok ikey_ok icmp it" using rd by fastforce
    show "\<forall>e \<in> set (map index_entry bs). \<forall>a \<in> set (tables.block P v t (snd e)). icmp (fst a) (fst e) \<le> 0" using S blk by auto
    show "sorted_wrt (\<lambda>e f. \<forall>b \<in> set (tables.block P v t (snd f)). icmp (fst e) (fst b) < 0) (map index_entry bs)"
      unfolding sorted_wrt_map by (rule sorted_wrt_mono_rel [OF _ S [THEN conjunct2]]) (use blk in auto)
  qed
  from tables.NewTwoLevelIterator_ok [OF ix(2) this] obtain it where it: "NewTwoLevelIterator (BlockIterator_ops icmp) ix = Some it" "tables.tok P v t it"
    "tables.titems P v t it = concat (map (\<lambda>e. tables.block P v t (snd e)) (blk_items ix))" "tables.tpos P v t it = length (tables.titems P v t it)" by blast
  have "tables.titems P v t it = es" unfolding it(3) ix(3) using blk T(7) by (simp add: comp_def cong: map_cong)
  then show ?thesis using it ix(1) t(2) by (simp add: Table_NewIterator_def)
qed

end
