(* ===== verification/Lsmt.thy ===== *)
theory Lsmt
  imports Complex_Main TwoLevel MemIter
begin

text \<open>
  The bookkeeping of the LSM tree, \<^verbatim>\<open>lsmt/lsmt.h\<close> and \<^verbatim>\<open>lsmt/lsmt_leveldb.cc\<close>: the files of its levels, the
  searches over them, the choice of compaction inputs and the installation of results. The tree and every
  node buffer use the bytewise user comparator, so it is fixed here. Indices of files are natural numbers
  (the code's are 32 bits wide). Results are \<^const>\<open>None\<close> where an assertion fails or a read is out of rng.
  The scores, doubles in the code, are exact rationals: the quotients have integer operands below
  two to the power of 53, for which the comparison with one is exact. The leaf limit is positive.
\<close>

section \<open>Files\<close>

datatype LSMTStatus = kBuffer | kRootBuffer | kLeaf | kSmallLeaf | kStandalone

datatype OpState = kOk | kOverflow | kNotSupported | kAborted | kNotFound

definition kNumLevels :: nat where "kNumLevels = 7"

definition kL0_CompactionTrigger :: nat where "kL0_CompactionTrigger = 4"

definition kMaxMemCompactLevel :: int where "kMaxMemCompactLevel = 2"

record FileMetaData =
  allowed_seeks :: int
  fnumber :: "64 word"
  file_entry :: "64 word"
  file_size :: "64 word"
  smallest :: slice
  largest :: slice

abbreviation ucmp :: "slice \<Rightarrow> slice \<Rightarrow> int" where
  "ucmp \<equiv> Bytewise_Compare"

abbreviation smallest_user :: "FileMetaData \<Rightarrow> slice" where
  "smallest_user f \<equiv> pure_key (smallest f)"

abbreviation largest_user :: "FileMetaData \<Rightarrow> slice" where
  "largest_user f \<equiv> pure_key (largest f)"

definition TotalFileSize :: "FileMetaData list \<Rightarrow> 64 word" where
  "TotalFileSize fs = foldl (\<lambda>sum f. sum + file_size f) 0 fs"

fun MaxBytesForLevel :: "nat \<Rightarrow> rat" where
  "MaxBytesForLevel level = (if level > 1 then 10 * MaxBytesForLevel (level - 1) else 10 * 1048576)"

declare MaxBytesForLevel.simps [simp del]

definition MaxGrandParentOverlapBytes :: "64 word \<Rightarrow> 64 word" where
  "MaxGrandParentOverlapBytes max_file_size = 10 * max_file_size"

definition ExpandedCompactionByteSizeLimit :: "64 word \<Rightarrow> 64 word" where
  "ExpandedCompactionByteSizeLimit max_file_size = 25 * max_file_size"

definition FindLargestKey :: "FileMetaData list \<Rightarrow> slice option" where
  "FindLargestKey fs =
     (case fs of [] \<Rightarrow> None
      | f # gs \<Rightarrow> Some (foldl (\<lambda>k g. if icmp (largest g) k > 0 then largest g else k) (largest f) gs))"

definition FindSmallestBoundaryFile :: "FileMetaData list \<Rightarrow> slice \<Rightarrow> FileMetaData option" where
  "FindSmallestBoundaryFile level_files largest_key =
     foldl (\<lambda>best f.
       if icmp (smallest f) largest_key > 0 \<and> ucmp (smallest_user f) (pure_key largest_key) = 0 then
         (case best of
            None \<Rightarrow> Some f
          | Some b \<Rightarrow> if icmp (smallest f) (smallest b) < 0 then Some f else Some b)
       else best) None level_files"

partial_function (option) boundary_loop :: "FileMetaData list \<Rightarrow> slice \<Rightarrow> FileMetaData list \<Rightarrow> FileMetaData list option" where
  "boundary_loop level_files largest_key compaction_files =
     (case FindSmallestBoundaryFile level_files largest_key of
        None \<Rightarrow> Some compaction_files
      | Some f \<Rightarrow> boundary_loop level_files (largest f) (compaction_files @ [f]))"

definition AddBoundaryInputs :: "FileMetaData list \<Rightarrow> FileMetaData list \<Rightarrow> FileMetaData list option" where
  "AddBoundaryInputs level_files compaction_files =
     (case FindLargestKey compaction_files of
        None \<Rightarrow> Some compaction_files
      | Some largest_key \<Rightarrow> boundary_loop level_files largest_key compaction_files)"

function find_file_loop :: "FileMetaData list \<Rightarrow> slice \<Rightarrow> nat \<Rightarrow> nat \<Rightarrow> nat" where
  "find_file_loop fs key left right =
     (if left < right then
        let mid = (left + right) div 2 in
        if icmp (largest (fs ! mid)) key < 0 then find_file_loop fs key (mid + 1) right
        else find_file_loop fs key left mid
      else right)"
  by pat_completeness auto
termination
  by (relation "measure (\<lambda>(_, _, left, right). right - left)") auto

declare find_file_loop.simps [simp del]

definition FindFile :: "FileMetaData list \<Rightarrow> slice \<Rightarrow> nat" where
  "FindFile fs key = find_file_loop fs key 0 (length fs)"

text \<open>A null bound is \<^const>\<open>None\<close>.\<close>

definition AfterFile :: "slice option \<Rightarrow> FileMetaData \<Rightarrow> bool" where
  "AfterFile uk f = (case uk of None \<Rightarrow> False | Some k \<Rightarrow> ucmp k (largest_user f) > 0)"

definition BeforeFile :: "slice option \<Rightarrow> FileMetaData \<Rightarrow> bool" where
  "BeforeFile uk f = (case uk of None \<Rightarrow> False | Some k \<Rightarrow> ucmp k (smallest_user f) < 0)"

text \<open>\<^verbatim>\<open>InternalKey(user_key, kMaxSequenceNumber, kValueTypeForSeek)\<close>, the first internal key of a user key.\<close>

definition earliest_key :: "slice \<Rightarrow> slice" where
  "earliest_key k = k @ EncodeFixed64 (push_bit 8 kMaxSequenceNumber OR of_nat (type_code kValueTypeForSeek))"

definition SomeFileOverlapsRange :: "bool \<Rightarrow> FileMetaData list \<Rightarrow> slice option \<Rightarrow> slice option \<Rightarrow> bool" where
  "SomeFileOverlapsRange disjoint_sorted_files fs smallest_user_key largest_user_key =
     (if \<not> disjoint_sorted_files then
        list_ex (\<lambda>f. \<not> (AfterFile smallest_user_key f \<or> BeforeFile largest_user_key f)) fs
      else
        let index = (case smallest_user_key of None \<Rightarrow> 0 | Some k \<Rightarrow> FindFile fs (earliest_key k)) in
        if index \<ge> length fs then False else \<not> BeforeFile largest_user_key (fs ! index))"

section \<open>The iterator over the files of a level\<close>

definition file_value :: "FileMetaData \<Rightarrow> slice" where
  "file_value f = EncodeFixed64 (fnumber f) @ EncodeFixed64 (file_size f)"

definition LevelFileNumIterator :: "(FileMetaData list \<times> nat) Iterator" where
  "LevelFileNumIterator = \<lparr>
     it_Valid = (\<lambda>(fs, index). index < length fs),
     it_SeekToFirst = (\<lambda>(fs, index). Some (fs, 0)),
     it_SeekToLast = (\<lambda>(fs, index). Some (fs, if fs = [] then 0 else length fs - 1)),
     it_Seek = (\<lambda>target (fs, index). Some (fs, FindFile fs target)),
     it_Next = (\<lambda>(fs, index). if \<not> index < length fs then None else Some (fs, index + 1)),
     it_Prev = (\<lambda>(fs, index). if \<not> index < length fs then None
                  else Some (fs, if index = 0 then length fs else index - 1)),
     it_key = (\<lambda>(fs, index). if \<not> index < length fs then None else Some (largest (fs ! index))),
     it_value = (\<lambda>(fs, index). if \<not> index < length fs then None else Some (file_value (fs ! index)))\<rparr>"

definition new_LevelFileNumIterator :: "FileMetaData list \<Rightarrow> FileMetaData list \<times> nat" where
  "new_LevelFileNumIterator fs = (fs, length fs)"

text \<open>
  \<^verbatim>\<open>table_cache_->NewIterator(options, number, size)\<close> is the parameter \<open>open_table\<close> with the operations \<open>I\<close> of its iterators.
\<close>

definition GetFileIterator :: "(64 word \<Rightarrow> 64 word \<Rightarrow> 'it option) \<Rightarrow> slice \<Rightarrow> 'it option" where
  "GetFileIterator open_table fv =
     (if length fv \<noteq> 16 then None else open_table (DecodeFixed64 fv) (DecodeFixed64 (drop 8 fv)))"

type_synonym 'it level_iter = "(FileMetaData list \<times> nat, 'it) TwoLevelIterator"

definition level_iterator :: "'it Iterator \<Rightarrow> (64 word \<Rightarrow> 64 word \<Rightarrow> 'it option) \<Rightarrow> 'it level_iter Iterator" where
  "level_iterator I open_table = two_level_iterator LevelFileNumIterator I (GetFileIterator open_table)"

definition new_level_iter :: "FileMetaData list \<Rightarrow> 'it level_iter option" where
  "new_level_iter fs = NewTwoLevelIterator LevelFileNumIterator (new_LevelFileNumIterator fs)"

section \<open>The tree\<close>

record lsmt =
  level_limit :: int
  files :: "nat \<Rightarrow> FileMetaData list"
  compact_pointer :: "nat \<Rightarrow> slice"
  flush_pointer :: "nat \<Rightarrow> slice"
  lsmt_status :: LSMTStatus
  leaf_limit :: nat
  compact_level :: int
  compaction_score :: rat
  file_num_to_compact :: "64 word"
  file_to_compact_level :: int
  obsolete_files :: "64 word set"
  has_hotspot :: bool
  output_file_size :: "64 word"
  max_file_size :: "64 word"
  file_id :: "64 word"

definition new_LevelDBLSMT :: "64 word \<Rightarrow> 64 word \<Rightarrow> int \<Rightarrow> LSMTStatus \<Rightarrow> nat \<Rightarrow> lsmt" where
  "new_LevelDBLSMT flush_id max_size limit status leaf =
     \<lparr>level_limit = limit, files = (\<lambda>_. []), compact_pointer = (\<lambda>_. []), flush_pointer = (\<lambda>_. []), lsmt_status = status,
      leaf_limit = leaf, compact_level = -1, compaction_score = -1, file_num_to_compact = 0, file_to_compact_level = -1,
      obsolete_files = {}, has_hotspot = True, output_file_size = max_size, max_file_size = max_size, file_id = flush_id\<rparr>"

fun bottom_from :: "(nat \<Rightarrow> FileMetaData list) \<Rightarrow> nat \<Rightarrow> int" where
  "bottom_from F 0 = -1"
| "bottom_from F (Suc level) = (if length (F level) > 0 then int level else bottom_from F level)"

definition GetBottomLevel :: "lsmt \<Rightarrow> int" where
  "GetBottomLevel s = bottom_from (files s) kNumLevels"

definition NumLevelFiles :: "lsmt \<Rightarrow> nat \<Rightarrow> nat option" where
  "NumLevelFiles s level = (if \<not> level < kNumLevels then None else Some (length (files s level)))"

definition NeedsCompaction :: "lsmt \<Rightarrow> bool" where
  "NeedsCompaction s = (compaction_score s \<ge> 1 \<or> file_to_compact_level s > -1)"

definition SetHotspot :: "bool \<Rightarrow> lsmt \<Rightarrow> lsmt" where
  "SetHotspot hot s = s\<lparr>has_hotspot := hot\<rparr>"

definition TopLevelOverflows :: "lsmt \<Rightarrow> bool" where
  "TopLevelOverflows s = (length (files s 0) \<ge> kL0_CompactionTrigger)"

definition level_score :: "lsmt \<Rightarrow> nat \<Rightarrow> rat" where
  "level_score s level =
     (if level = 0 then of_nat (length (files s level)) / of_nat kL0_CompactionTrigger
      else of_nat (unat (TotalFileSize (files s level))) / MaxBytesForLevel level)"

definition Finalize :: "lsmt \<Rightarrow> lsmt" where
  "Finalize s =
     (let (best_level, best_score) =
        foldl (\<lambda>(best_level, best_score) level.
          if level_score s level > best_score then (int level, level_score s level) else (best_level, best_score))
          (-1, -1) [0..<nat (GetBottomLevel s + 1)]
      in s\<lparr>compact_level := best_level, compaction_score := best_score\<rparr>)"

definition MayNeedCompaction :: "lsmt \<Rightarrow> nat \<Rightarrow> OpState" where
  "MayNeedCompaction s level =
     (let score = (case lsmt_status s of
          kSmallLeaf \<Rightarrow> of_nat (length (files s level)) / of_nat (leaf_limit s)
        | _ \<Rightarrow> level_score s level)
      in if score \<ge> 1 then kOverflow else kOk)"

definition Clear_files :: "lsmt \<Rightarrow> lsmt" where
  "Clear_files s = s\<lparr>files := (\<lambda>_. [])\<rparr>"

definition ClearAll :: "lsmt \<Rightarrow> lsmt" where
  "ClearAll s = s\<lparr>obsolete_files := obsolete_files s \<union> (\<Union>l \<in> {0..<kNumLevels}. fnumber ` set (files s l)), files := (\<lambda>_. [])\<rparr>"

definition ClearBottomLevelFiles :: "lsmt \<Rightarrow> lsmt" where
  "ClearBottomLevelFiles s =
     (if GetBottomLevel s < 0 then s else s\<lparr>files := (files s)(nat (GetBottomLevel s) := [])\<rparr>)"

definition GetAllBottomLevelFiles :: "lsmt \<Rightarrow> int \<times> FileMetaData list" where
  "GetAllBottomLevelFiles s =
     (if GetBottomLevel s < 0 then (GetBottomLevel s, []) else (GetBottomLevel s, files s (nat (GetBottomLevel s))))"

definition NeedCompactBottomLevel :: "lsmt \<Rightarrow> bool" where
  "NeedCompactBottomLevel s =
     (if GetBottomLevel s < 0 then False else if GetBottomLevel s \<ge> 1 then False
      else if length (files s 0) = 1 then False else True)"

section \<open>Ranges of files\<close>

definition GetRange :: "FileMetaData list \<Rightarrow> (slice \<times> slice) option" where
  "GetRange inputs =
     (case inputs of [] \<Rightarrow> None
      | f # fs \<Rightarrow> Some (foldl (\<lambda>(s, l) g. (if icmp (smallest g) s < 0 then smallest g else s,
                                         if icmp (largest g) l > 0 then largest g else l))
                        (smallest f, largest f) fs))"

definition GetRange2 :: "FileMetaData list \<Rightarrow> FileMetaData list \<Rightarrow> (slice \<times> slice) option" where
  "GetRange2 inputs1 inputs2 = GetRange (inputs1 @ inputs2)"

definition file_before :: "slice option \<Rightarrow> FileMetaData \<Rightarrow> bool" where
  "file_before user_begin f = (case user_begin of None \<Rightarrow> False | Some b \<Rightarrow> ucmp (largest_user f) b < 0)"

definition file_after :: "slice option \<Rightarrow> FileMetaData \<Rightarrow> bool" where
  "file_after user_end f = (case user_end of None \<Rightarrow> False | Some e \<Rightarrow> ucmp (smallest_user f) e > 0)"

definition starts_earlier :: "slice option \<Rightarrow> FileMetaData \<Rightarrow> bool" where
  "starts_earlier user_begin f = (case user_begin of None \<Rightarrow> False | Some b \<Rightarrow> ucmp (smallest_user f) b < 0)"

definition ends_later :: "slice option \<Rightarrow> FileMetaData \<Rightarrow> bool" where
  "ends_later user_end f = (case user_end of None \<Rightarrow> False | Some e \<Rightarrow> ucmp (largest_user f) e > 0)"

text \<open>
  The loop of \<^verbatim>\<open>GetOverlappingInputs\<close> at index \<open>i\<close>. At level 0 a file that reaches outside the rng widens it and
  the search starts again; it ends because each restart uses up a file that started before, or ended after, the rng.
\<close>

function overlap_loop ::
  "nat \<Rightarrow> FileMetaData list \<Rightarrow> slice option \<Rightarrow> slice option \<Rightarrow> nat \<Rightarrow> FileMetaData list \<Rightarrow> FileMetaData list" where
  "overlap_loop level fs user_begin user_end i inputs =
     (if i < length fs then
        let f = fs ! i in
        if file_before user_begin f then overlap_loop level fs user_begin user_end (i + 1) inputs
        else if file_after user_end f then overlap_loop level fs user_begin user_end (i + 1) inputs
        else if level = 0 \<and> starts_earlier user_begin f then
          overlap_loop level fs (Some (smallest_user f)) user_end 0 []
        else if level = 0 \<and> ends_later user_end f then
          overlap_loop level fs user_begin (Some (largest_user f)) 0 []
        else overlap_loop level fs user_begin user_end (i + 1) (inputs @ [f])
      else inputs)"
  by pat_completeness auto

text \<open>How many files reach outside the range.\<close>

definition outside :: "FileMetaData list \<Rightarrow> slice option \<Rightarrow> slice option \<Rightarrow> nat" where
  "outside fs b e = length (filter (starts_earlier b) fs) + length (filter (ends_later e) fs)"

lemma filter_shrinks:
  assumes "f \<in> set fs" "P f" "\<not> Q f" "\<And>g. Q g \<Longrightarrow> P g"
  shows "length (filter Q fs) < length (filter P fs)"
proof -
  have le: "length (filter Q gs) \<le> length (filter P gs)" for gs
    using assms(4) by (induction gs) (auto intro: le_SucI)
  obtain xs ys where "fs = xs @ f # ys" using assms(1) split_list by metis
  then show ?thesis using le [of xs] le [of ys] assms(2,3) by simp
qed

lemma outside_shrinks:
  assumes "i < length fs"
  shows "starts_earlier b (fs ! i) \<Longrightarrow> outside fs (Some (smallest_user (fs ! i))) e < outside fs b e"
    "ends_later e (fs ! i) \<Longrightarrow> outside fs b (Some (largest_user (fs ! i))) < outside fs b e"
proof -
  have m: "fs ! i \<in> set fs" using assms by simp
  show "starts_earlier b (fs ! i) \<Longrightarrow> outside fs (Some (smallest_user (fs ! i))) e < outside fs b e"
    unfolding outside_def by (rule add_strict_right_mono, rule filter_shrinks [OF m])
      (auto simp: starts_earlier_def Bytewise_Compare_def split: option.splits)
  show "ends_later e (fs ! i) \<Longrightarrow> outside fs b (Some (largest_user (fs ! i))) < outside fs b e"
    unfolding outside_def by (rule add_strict_left_mono, rule filter_shrinks [OF m])
      (auto simp: ends_later_def Bytewise_Compare_def split: option.splits)
qed

termination overlap_loop
proof (relation "measures [\<lambda>(level, fs, b, e, i, inputs). outside fs b e, \<lambda>(level, fs, b, e, i, inputs). length fs - i]")
qed (auto simp: outside_shrinks)

declare overlap_loop.simps [simp del]

definition GetOverlappingInputs :: "lsmt \<Rightarrow> nat \<Rightarrow> slice option \<Rightarrow> slice option \<Rightarrow> FileMetaData list option" where
  "GetOverlappingInputs s level begin_key end_key =
     (if \<not> level < kNumLevels then None
      else Some (overlap_loop level (files s level) (map_option pure_key begin_key) (map_option pure_key end_key) 0 []))"

definition OverlapInLevel :: "lsmt \<Rightarrow> nat \<Rightarrow> slice option \<Rightarrow> slice option \<Rightarrow> bool" where
  "OverlapInLevel s level small large = SomeFileOverlapsRange (level > 0) (files s level) small large"

text \<open>The loop of \<^verbatim>\<open>PickLevelForMemTableOutput\<close>, entered while the level is below the bound.\<close>

function pick_loop :: "lsmt \<Rightarrow> slice \<Rightarrow> slice \<Rightarrow> nat \<Rightarrow> nat \<Rightarrow> nat option" where
  "pick_loop s small large max_mem_compact_level level =
     (if level < max_mem_compact_level then
        if OverlapInLevel s (level + 1) (Some small) (Some large) then Some level
        else if level + 2 < kNumLevels then
          (case GetOverlappingInputs s (level + 2) (Some (earliest_key small)) (Some (large @ EncodeFixed64 0)) of
             None \<Rightarrow> None
           | Some overlaps \<Rightarrow>
               if sint (TotalFileSize overlaps) > sint (MaxGrandParentOverlapBytes (max_file_size s)) then Some level
               else pick_loop s small large max_mem_compact_level (level + 1))
        else pick_loop s small large max_mem_compact_level (level + 1)
      else Some level)"
  by pat_completeness auto
termination
  by (relation "measure (\<lambda>(_, _, _, mx, level). mx - level)") auto

declare pick_loop.simps [simp del]

definition PickLevelForMemTableOutput :: "lsmt \<Rightarrow> slice \<Rightarrow> slice \<Rightarrow> nat option" where
  "PickLevelForMemTableOutput s small large =
     map_option (\<lambda>level. if level_limit s > 0 \<and> int level \<ge> level_limit s then 0 else level)
       (if \<not> OverlapInLevel s 0 (Some small) (Some large) then
          pick_loop s small large
            (nat (if kMaxMemCompactLevel < level_limit s then kMaxMemCompactLevel else level_limit s)) 0
        else Some 0)"

section \<open>Changing the files of a level\<close>

definition BySmallestKey :: "FileMetaData \<Rightarrow> FileMetaData \<Rightarrow> bool" where
  "BySmallestKey f1 f2 =
     (let r = icmp (smallest f1) (smallest f2) in if r \<noteq> 0 then r < 0 else fnumber f1 < fnumber f2)"

text \<open>\<^verbatim>\<open>FileSet\<close>, an ordered set: its elements in order.\<close>

fun FileSet_insert :: "FileMetaData \<Rightarrow> FileMetaData list \<Rightarrow> FileMetaData list" where
  "FileSet_insert f [] = [f]"
| "FileSet_insert f (g # gs) =
     (if BySmallestKey f g then f # g # gs else if BySmallestKey g f then g # FileSet_insert f gs else g # gs)"

definition MaybeAddFile :: "nat \<Rightarrow> FileMetaData \<Rightarrow> FileMetaData list \<Rightarrow> 64 word set \<Rightarrow> FileMetaData list option" where
  "MaybeAddFile level f fs deletes =
     (if fnumber f \<in> deletes then Some fs
      else if level > 0 \<and> fs \<noteq> [] \<and> \<not> icmp (largest (last fs)) (smallest f) < 0 then None
      else Some (fs @ [f]))"

fun MaybeAddFiles :: "nat \<Rightarrow> FileMetaData list \<Rightarrow> FileMetaData list \<Rightarrow> 64 word set \<Rightarrow> FileMetaData list option" where
  "MaybeAddFiles level [] fs deletes = Some fs"
| "MaybeAddFiles level (f # gs) fs deletes =
     (case MaybeAddFile level f fs deletes of None \<Rightarrow> None | Some fs' \<Rightarrow> MaybeAddFiles level gs fs' deletes)"

text \<open>The merge of the base files with the added ones.\<close>

fun merge_added ::
  "nat \<Rightarrow> FileMetaData list \<Rightarrow> FileMetaData list \<Rightarrow> FileMetaData list \<Rightarrow> 64 word set \<Rightarrow> FileMetaData list option" where
  "merge_added level base [] new_files deletes = MaybeAddFiles level base new_files deletes"
| "merge_added level base (a # added) new_files deletes =
     (case MaybeAddFiles level (takeWhile (\<lambda>b. icmp (largest b) (smallest a) < 0) base) new_files deletes of
        None \<Rightarrow> None
      | Some new1 \<Rightarrow>
         (case MaybeAddFile level a new1 deletes of
            None \<Rightarrow> None
          | Some new2 \<Rightarrow> merge_added level (dropWhile (\<lambda>b. icmp (largest b) (smallest a) < 0) base) added new2 deletes))"

definition ApplyFileChanges :: "nat \<Rightarrow> FileMetaData list \<Rightarrow> 64 word set \<Rightarrow> lsmt \<Rightarrow> lsmt option" where
  "ApplyFileChanges level added deleted s =
     (let s1 = (if files s level = [] \<and> flush_pointer s level \<noteq> []
                then s\<lparr>flush_pointer := (flush_pointer s)(level := [])\<rparr> else s) in
      map_option (\<lambda>new_files. s1\<lparr>files := (files s)(level := new_files)\<rparr>)
        (merge_added level (files s level) added [] deleted))"

section \<open>Compactions\<close>

record LevelDBCompaction =
  c_level :: nat
  inputs0 :: "FileMetaData list"
  inputs1 :: "FileMetaData list"
  grandparents :: "FileMetaData list"
  grandparent_index :: nat
  seen_key :: bool
  overlapped_bytes :: "64 word"
  level_ptrs :: "nat \<Rightarrow> nat"

definition new_LevelDBCompaction :: "nat \<Rightarrow> LevelDBCompaction" where
  "new_LevelDBCompaction level = \<lparr>c_level = level, inputs0 = [], inputs1 = [], grandparents = [], grandparent_index = 0,
     seen_key = False, overlapped_bytes = 0, level_ptrs = (\<lambda>_. 0)\<rparr>"

definition IsTrivialMove :: "lsmt \<Rightarrow> int \<Rightarrow> LevelDBCompaction \<Rightarrow> bool" where
  "IsTrivialMove s limit c =
     (if limit > 0 \<and> int (c_level c) + 1 \<ge> limit then False
      else length (inputs0 c) = 1 \<and> length (inputs1 c) = 0 \<and>
           sint (TotalFileSize (grandparents c)) \<le> sint (MaxGrandParentOverlapBytes (max_file_size s)))"

text \<open>The inner loop of \<^verbatim>\<open>IsBaseLevelForKey\<close> on one level: the new pointer and whether the key lies in a file.\<close>

function base_level_loop :: "FileMetaData list \<Rightarrow> slice \<Rightarrow> nat \<Rightarrow> nat \<times> bool" where
  "base_level_loop fs uk ptr =
     (if ptr < length fs then
        let f = fs ! ptr in
        if ucmp uk (largest_user f) \<le> 0 then (ptr, ucmp uk (smallest_user f) \<ge> 0)
        else base_level_loop fs uk (ptr + 1)
      else (ptr, False))"
  by pat_completeness auto
termination
  by (relation "measure (\<lambda>(fs, _, ptr). length fs - ptr)") auto

declare base_level_loop.simps [simp del]

fun base_levels :: "(nat \<Rightarrow> FileMetaData list) \<Rightarrow> slice \<Rightarrow> nat list \<Rightarrow> (nat \<Rightarrow> nat) \<Rightarrow> bool \<times> (nat \<Rightarrow> nat)" where
  "base_levels F uk [] ptrs = (True, ptrs)"
| "base_levels F uk (lvl # lvls) ptrs =
     (let (ptr, inside) = base_level_loop (F lvl) uk (ptrs lvl); ptrs' = ptrs(lvl := ptr) in
      if inside then (False, ptrs') else base_levels F uk lvls ptrs')"

definition IsBaseLevelForKey :: "lsmt \<Rightarrow> slice \<Rightarrow> int \<Rightarrow> LevelDBCompaction \<Rightarrow> bool \<times> LevelDBCompaction" where
  "IsBaseLevelForKey s uk level_lim c =
     (let max_level = (if level_lim > 0 then nat level_lim else kNumLevels);
          (r, ptrs) = base_levels (files s) uk [c_level c + 2..<max_level] (level_ptrs c)
      in (r, c\<lparr>level_ptrs := ptrs\<rparr>))"

function stop_loop :: "slice \<Rightarrow> LevelDBCompaction \<Rightarrow> LevelDBCompaction" where
  "stop_loop ik c =
     (if grandparent_index c < length (grandparents c) \<and>
         icmp ik (largest (grandparents c ! grandparent_index c)) > 0 then
        stop_loop ik
          (c\<lparr>overlapped_bytes := (if seen_key c then overlapped_bytes c + file_size (grandparents c ! grandparent_index c)
                                 else overlapped_bytes c),
             grandparent_index := grandparent_index c + 1\<rparr>)
      else c)"
  by pat_completeness auto
termination
  by (relation "measure (\<lambda>(_, c). length (grandparents c) - grandparent_index c)") auto

declare stop_loop.simps [simp del]

definition ShouldStopBefore :: "lsmt \<Rightarrow> slice \<Rightarrow> LevelDBCompaction \<Rightarrow> bool \<times> LevelDBCompaction" where
  "ShouldStopBefore s ik c =
     (let c1 = (stop_loop ik c)\<lparr>seen_key := True\<rparr> in
      if sint (overlapped_bytes c1) > sint (MaxGrandParentOverlapBytes (max_file_size s))
      then (True, c1\<lparr>overlapped_bytes := 0\<rparr>) else (False, c1))"

text \<open>
  \<^verbatim>\<open>SetupOtherInputs\<close>: the inputs at the next level, the optional growth of the inputs at this level, the
  grandparents and the new compaction pointer.
\<close>

definition grow_inputs ::
  "lsmt \<Rightarrow> LevelDBCompaction \<Rightarrow> slice \<times> slice \<Rightarrow> slice \<times> slice \<Rightarrow> (LevelDBCompaction \<times> (slice \<times> slice) \<times> (slice \<times> slice)) option" where
  "grow_inputs s c rng all_range =
     (if inputs1 c = [] then Some (c, rng, all_range)
      else Option.bind (GetOverlappingInputs s (c_level c) (Some (fst all_range)) (Some (snd all_range))) (\<lambda>e0.
        Option.bind (AddBoundaryInputs (files s (c_level c)) e0) (\<lambda>expanded0.
          if length expanded0 > length (inputs0 c) \<and>
             sint (TotalFileSize (inputs1 c) + TotalFileSize expanded0) < sint (ExpandedCompactionByteSizeLimit (max_file_size s)) then
            Option.bind (GetRange expanded0) (\<lambda>new_range.
            Option.bind (GetOverlappingInputs s (c_level c + 1) (Some (fst new_range)) (Some (snd new_range))) (\<lambda>e1.
            Option.bind (AddBoundaryInputs (files s (c_level c + 1)) e1) (\<lambda>expanded1.
              if length expanded1 = length (inputs1 c) then
                map_option (\<lambda>all'. (c\<lparr>inputs0 := expanded0, inputs1 := expanded1\<rparr>, new_range, all'))
                  (GetRange2 expanded0 expanded1)
              else Some (c, rng, all_range))))
          else Some (c, rng, all_range))))"

definition SetupOtherInputs :: "lsmt \<Rightarrow> LevelDBCompaction \<Rightarrow> (lsmt \<times> LevelDBCompaction) option" where
  "SetupOtherInputs s c =
     (let level = c_level c in
      Option.bind (AddBoundaryInputs (files s level) (inputs0 c)) (\<lambda>in0.
      Option.bind (GetRange in0) (\<lambda>rng.
      Option.bind (GetOverlappingInputs s (level + 1) (Some (fst rng)) (Some (snd rng))) (\<lambda>i1.
      Option.bind (AddBoundaryInputs (files s (level + 1)) i1) (\<lambda>in1.
      Option.bind (GetRange2 in0 in1) (\<lambda>all_range.
      Option.bind (grow_inputs s (c\<lparr>inputs0 := in0, inputs1 := in1\<rparr>) rng all_range) (\<lambda>(c1, range1, all1).
      Option.bind
        (if (level_limit s < 0 \<and> level + 2 < kNumLevels) \<or> (level_limit s > 0 \<and> int level + 2 < level_limit s)
         then map_option (\<lambda>gp. c1\<lparr>grandparents := gp\<rparr>) (GetOverlappingInputs s (level + 2) (Some (fst all1)) (Some (snd all1)))
         else Some c1) (\<lambda>c2.
        Some (s\<lparr>compact_pointer := (compact_pointer s)(level := snd range1)\<rparr>, c2)))))))))"

definition SetCompactionInputs :: "nat \<Rightarrow> lsmt \<Rightarrow> LevelDBCompaction \<Rightarrow> (lsmt \<times> LevelDBCompaction) option" where
  "SetCompactionInputs level s c =
     (let finish = (\<lambda>level s c.
        Option.bind
          (if level = 0 then
             Option.bind (GetRange (inputs0 c)) (\<lambda>rng.
             Option.bind (GetOverlappingInputs s level (Some (fst rng)) (Some (snd rng))) (\<lambda>in0.
               if in0 = [] then None else Some (c\<lparr>inputs0 := in0\<rparr>)))
           else Some c) (SetupOtherInputs s)) in
      if lsmt_status s \<noteq> kStandalone \<or> compaction_score s \<ge> 1 then
        if \<not> level + 1 < kNumLevels then None
        else
          (case find (\<lambda>f. compact_pointer s level = [] \<or> icmp (largest f) (compact_pointer s level) > 0) (files s level) of
             Some f \<Rightarrow> finish level s (c\<lparr>inputs0 := inputs0 c @ [f]\<rparr>)
           | None \<Rightarrow>
              (if inputs0 c = [] then
                 (case files s level of [] \<Rightarrow> None | f # _ \<Rightarrow> finish level s (c\<lparr>inputs0 := [f]\<rparr>))
               else finish level s c))
      else if file_to_compact_level s > -1 then
        let lvl = nat (file_to_compact_level s); s1 = s\<lparr>file_to_compact_level := -1\<rparr>; c1 = c\<lparr>c_level := lvl\<rparr> in
        (case find (\<lambda>f. fnumber f = file_num_to_compact s) (files s lvl) of
           None \<Rightarrow> Some (s1, c1)
         | Some f \<Rightarrow> finish lvl s1 (c1\<lparr>inputs0 := inputs0 c1 @ [f]\<rparr>))
      else Some (s, c))"

definition SetCompactionInputsBottomLevel :: "lsmt \<Rightarrow> LevelDBCompaction \<Rightarrow> LevelDBCompaction option" where
  "SetCompactionInputsBottomLevel s c =
     (let in0 = inputs0 c @ files s (nat (GetBottomLevel s)) in if in0 = [] then None else Some (c\<lparr>inputs0 := in0\<rparr>))"

definition TrivialMove :: "LevelDBCompaction \<Rightarrow> nat \<Rightarrow> lsmt \<Rightarrow> lsmt option" where
  "TrivialMove c level s =
     (case inputs0 c of
        [f] \<Rightarrow> if inputs1 c \<noteq> [] then None
               else Option.bind (ApplyFileChanges (level + 1) [f] {} s) (ApplyFileChanges level [] {fnumber f})
      | _ \<Rightarrow> None)"

text \<open>An output of a compaction, as file metadata.\<close>

definition mk_meta :: "64 word \<Rightarrow> 64 word \<Rightarrow> 64 word \<Rightarrow> slice \<Rightarrow> slice \<Rightarrow> FileMetaData" where
  "mk_meta number fsize entries small large =
     (let seeks = sint (ucast (fsize div 16384) :: 32 word) in
      \<lparr>allowed_seeks = (if seeks < 100 then 100 else seeks), fnumber = number, file_entry = entries, file_size = fsize,
       smallest = small, largest = large\<rparr>)"

definition AddDeletedFiles :: "LevelDBCompaction \<Rightarrow> lsmt \<Rightarrow> lsmt" where
  "AddDeletedFiles c s =
     s\<lparr>obsolete_files := obsolete_files s \<union> fnumber ` set (inputs0 c) \<union> fnumber ` set (inputs1 c)\<rparr>"

text \<open>
  \<^verbatim>\<open>InstallCompactionResults\<close> for a target level that is the compaction level or the next one, the values its callers
  pass; \<open>outputs\<close> is the metadata of the compaction outputs.
\<close>

definition InstallCompactionResults :: "LevelDBCompaction \<Rightarrow> FileMetaData list \<Rightarrow> nat \<Rightarrow> lsmt \<Rightarrow> lsmt option" where
  "InstallCompactionResults c outputs target s =
     (let s1 = AddDeletedFiles c s; added = foldl (\<lambda>fs f. FileSet_insert f fs) [] outputs; level = c_level c in
      if target = level then ApplyFileChanges level added (fnumber ` set (inputs0 c)) s1
      else if target = level + 1 then
        Option.bind (ApplyFileChanges level [] (fnumber ` set (inputs0 c)) s1)
          (ApplyFileChanges (level + 1) added (fnumber ` set (inputs1 c)))
      else None)"

section \<open>Retrieving files\<close>

text \<open>
  The loop of \<^verbatim>\<open>GetSomeBottomLevelFiles\<close>. At the last file it sets the index to 0, which the loop then increments: after
  the wrap-around the first file of the level is not considered.
\<close>

partial_function (option) some_files_loop ::
  "FileMetaData list \<Rightarrow> nat \<Rightarrow> slice \<Rightarrow> nat \<Rightarrow> FileMetaData list \<Rightarrow> FileMetaData list option" where
  "some_files_loop fs flush_num pointer i acc =
     (if i < length fs then
        let f = fs ! i; acc1 = (if pointer = [] \<or> icmp (largest f) pointer > 0 then acc @ [f] else acc) in
        if length acc1 \<ge> flush_num then Some acc1
        else if i = length fs - 1 then some_files_loop fs flush_num [] 1 acc1
        else some_files_loop fs flush_num pointer (i + 1) acc1
      else Some acc)"

definition GetSomeBottomLevelFiles :: "nat \<Rightarrow> lsmt \<Rightarrow> (int \<times> FileMetaData list \<times> lsmt) option" where
  "GetSomeBottomLevelFiles flush_num s =
     (if GetBottomLevel s < 0 then Some (GetBottomLevel s, [], s)
      else let level = nat (GetBottomLevel s) in
        if level = 0 \<or> length (files s level) \<le> flush_num then
          Some (int level, files s level, s\<lparr>flush_pointer := (flush_pointer s)(level := [])\<rparr>)
        else
          Option.bind (some_files_loop (files s level) flush_num (flush_pointer s level) 0 []) (\<lambda>fs.
            if fs = [] then None
            else Some (int level, fs, s\<lparr>flush_pointer := (flush_pointer s)(level := largest (last fs))\<rparr>)))"

definition GetLevel0FilesInRange :: "slice \<Rightarrow> slice \<Rightarrow> lsmt \<Rightarrow> FileMetaData list" where
  "GetLevel0FilesInRange low up s =
     filter (\<lambda>f. \<not> ucmp (largest_user f) low < 0 \<and> \<not> ucmp (smallest_user f) up > 0) (files s 0)"

fun collect_range :: "slice \<Rightarrow> slice \<Rightarrow> FileMetaData list \<Rightarrow> FileMetaData list" where
  "collect_range low up [] = []"
| "collect_range low up (f # fs) =
     (if ucmp (largest_user f) low < 0 then collect_range low up fs
      else if ucmp (smallest_user f) up > 0 then []
      else f # collect_range low up fs)"

definition GetLevelFilesInRange :: "slice \<Rightarrow> slice \<Rightarrow> nat \<Rightarrow> lsmt \<Rightarrow> FileMetaData list" where
  "GetLevelFilesInRange low up level s = collect_range low up (drop (FindFile (files s level) (earliest_key low)) (files s level))"

fun range_levels :: "slice \<Rightarrow> slice \<Rightarrow> lsmt \<Rightarrow> nat \<Rightarrow> int \<times> FileMetaData list" where
  "range_levels low up s 0 = (-1, [])"
| "range_levels low up s (Suc level) =
     (let fs = (if level = 0 then GetLevel0FilesInRange low up s else GetLevelFilesInRange low up level s) in
      if fs = [] then range_levels low up s level else (int level, fs))"

definition GetFilesInRange :: "slice \<Rightarrow> slice \<Rightarrow> lsmt \<Rightarrow> int \<times> FileMetaData list" where
  "GetFilesInRange low up s = range_levels low up s (nat (GetBottomLevel s + 1))"

definition FinalizeRetrieval :: "nat \<Rightarrow> FileMetaData list \<Rightarrow> lsmt \<Rightarrow> lsmt" where
  "FinalizeRetrieval level_of_files fs s =
     (if GetBottomLevel s = -1 then s
      else let s1 = s\<lparr>files := (files s)(level_of_files :=
                 filter (\<lambda>f. \<not> list_ex (\<lambda>g. fnumber f = fnumber g) fs) (files s level_of_files))\<rparr> in
        if fs = [] then s1 else s1\<lparr>compact_pointer := (compact_pointer s)(level_of_files := largest (last fs))\<rparr>)"

definition FinalizeRetrievalAndDelete :: "nat \<Rightarrow> FileMetaData list \<Rightarrow> lsmt \<Rightarrow> lsmt" where
  "FinalizeRetrievalAndDelete level_of_files fs s =
     (let s1 = FinalizeRetrieval level_of_files fs s in s1\<lparr>obsolete_files := obsolete_files s1 \<union> fnumber ` set fs\<rparr>)"

section \<open>Read samples\<close>

text \<open>
  \<^verbatim>\<open>ForEachOverlapping\<close>: the files it would call the function on, in order, and the calls until one returns false.
  The loop over the deeper levels stops before the bottom level.
\<close>

definition overlapping_files :: "slice \<Rightarrow> slice \<Rightarrow> lsmt \<Rightarrow> (nat \<times> FileMetaData) list" where
  "overlapping_files uk ik s =
     map (Pair 0) (rev (sort_key fnumber (filter (\<lambda>f. ucmp uk (smallest_user f) \<ge> 0 \<and> ucmp uk (largest_user f) \<le> 0) (files s 0)))) @
     concat (map (\<lambda>level.
       let fs = files s level; index = FindFile fs ik in
       if fs \<noteq> [] \<and> index < length fs \<and> \<not> ucmp uk (smallest_user (fs ! index)) < 0 then [(level, fs ! index)] else [])
       [1..<nat (GetBottomLevel s)])"

fun call_until :: "('a \<Rightarrow> nat \<times> FileMetaData \<Rightarrow> bool \<times> 'a) \<Rightarrow> 'a \<Rightarrow> (nat \<times> FileMetaData) list \<Rightarrow> 'a" where
  "call_until func arg [] = arg"
| "call_until func arg (x # xs) = (case func arg x of (True, arg') \<Rightarrow> call_until func arg' xs | (False, arg') \<Rightarrow> arg')"

definition ForEachOverlapping :: "slice \<Rightarrow> slice \<Rightarrow> 'a \<Rightarrow> ('a \<Rightarrow> nat \<times> FileMetaData \<Rightarrow> bool \<times> 'a) \<Rightarrow> lsmt \<Rightarrow> 'a" where
  "ForEachOverlapping uk ik arg func s = call_until func arg (overlapping_files uk ik s)"

definition UpdateStats :: "nat \<Rightarrow> FileMetaData \<Rightarrow> lsmt \<Rightarrow> bool \<times> lsmt" where
  "UpdateStats seek_file_level f s =
     (let seeks = allowed_seeks f - 1;
          s1 = s\<lparr>files := (files s)(seek_file_level :=
                 map (\<lambda>g. if fnumber g = fnumber f then g\<lparr>allowed_seeks := seeks\<rparr> else g) (files s seek_file_level))\<rparr> in
      if seeks \<le> 0 \<and> file_to_compact_level s = -1
      then (True, s1\<lparr>file_num_to_compact := fnumber f, file_to_compact_level := int seek_file_level\<rparr>)
      else (False, s1))"

definition RecordReadSample :: "slice \<Rightarrow> lsmt \<Rightarrow> bool \<times> lsmt" where
  "RecordReadSample ik s =
     (case ParseInternalKey ik of
        None \<Rightarrow> (False, s)
      | Some ikey \<Rightarrow>
          let (matches, first) = ForEachOverlapping (user_key ikey) ik (0 :: nat, None)
                (\<lambda>(m, st) x. (m + 1 < 2, (m + 1, if m + 1 = 1 then Some x else st))) s in
          if matches \<ge> 2 then (case first of None \<Rightarrow> (False, s) | Some (lvl, f) \<Rightarrow> UpdateStats lvl f s) else (False, s))"

section \<open>Reading the tree\<close>

text \<open>The iterators of the tree: tables of level 0 and one concatenation per deeper level, behind the iterator interface.\<close>

definition either_iterator :: "'a Iterator \<Rightarrow> 'b Iterator \<Rightarrow> ('a + 'b) Iterator" where
  "either_iterator A B = \<lparr>
     it_Valid = case_sum (it_Valid A) (it_Valid B),
     it_SeekToFirst = case_sum (map_option Inl \<circ> it_SeekToFirst A) (map_option Inr \<circ> it_SeekToFirst B),
     it_SeekToLast = case_sum (map_option Inl \<circ> it_SeekToLast A) (map_option Inr \<circ> it_SeekToLast B),
     it_Seek = (\<lambda>t. case_sum (map_option Inl \<circ> it_Seek A t) (map_option Inr \<circ> it_Seek B t)),
     it_Next = case_sum (map_option Inl \<circ> it_Next A) (map_option Inr \<circ> it_Next B),
     it_Prev = case_sum (map_option Inl \<circ> it_Prev A) (map_option Inr \<circ> it_Prev B),
     it_key = case_sum (it_key A) (it_key B),
     it_value = case_sum (it_value A) (it_value B)\<rparr>"

type_synonym 'it lsm_child = "'it + 'it level_iter"

definition lsm_child_iterator :: "'it Iterator \<Rightarrow> (64 word \<Rightarrow> 64 word \<Rightarrow> 'it option) \<Rightarrow> 'it lsm_child Iterator" where
  "lsm_child_iterator I open_table = either_iterator I (level_iterator I open_table)"

fun collect_options :: "'a option list \<Rightarrow> 'a list option" where
  "collect_options [] = Some []"
| "collect_options (x # xs) = Option.bind x (\<lambda>y. map_option ((#) y) (collect_options xs))"

definition table_iters :: "(64 word \<Rightarrow> 64 word \<Rightarrow> 'it option) \<Rightarrow> FileMetaData list \<Rightarrow> 'it lsm_child option list" where
  "table_iters open_table fs = map (\<lambda>f. map_option Inl (open_table (fnumber f) (file_size f))) fs"

definition AddIterators :: "(64 word \<Rightarrow> 64 word \<Rightarrow> 'it option) \<Rightarrow> lsmt \<Rightarrow> 'it lsm_child list option" where
  "AddIterators open_table s =
     collect_options
       (table_iters open_table (files s 0) @
        map (\<lambda>level. map_option Inr (new_level_iter (files s level))) (filter (\<lambda>level. files s level \<noteq> []) [1..<kNumLevels]))"

definition NewMergedIterator ::
  "'it Iterator \<Rightarrow> (64 word \<Rightarrow> 64 word \<Rightarrow> 'it option) \<Rightarrow> lsmt \<Rightarrow> 'it lsm_child AnyIterator option" where
  "NewMergedIterator I open_table s =
     Option.bind (AddIterators open_table s) (NewMergingIterator (lsm_child_iterator I open_table))"

definition MakeInputIterator ::
  "'it Iterator \<Rightarrow> (64 word \<Rightarrow> 64 word \<Rightarrow> 'it option) \<Rightarrow> LevelDBCompaction \<Rightarrow> 'it lsm_child AnyIterator option" where
  "MakeInputIterator I open_table c =
     (let iters = (\<lambda>which fs. if fs = [] then []
            else if c_level c + which = 0 then table_iters open_table fs
            else [map_option Inr (new_level_iter fs)]) in
      Option.bind (collect_options (iters 0 (inputs0 c) @ iters 1 (inputs1 c)))
        (NewMergingIterator (lsm_child_iterator I open_table)))"

end
