(* ===== verification/TableCache.thy ===== *)
theory TableCache
  imports TableRead Lsmt
begin

text \<open>
  The table cache (\<^verbatim>\<open>leveldb/table_cache.cc\<close>) and the function that writes a memtable to a table (\<^verbatim>\<open>leveldb/builder.cc\<close>). Files are named by
  their number. The cache is a map from file numbers to open tables, from which entries may disappear; \<^verbatim>\<open>Env\<close> is a record of the operations the
  code calls, on a state \<open>'fs\<close> of the files.
\<close>

section \<open>Iterators of tables\<close>

text \<open>An iterator over a table, with the table it holds on to, or one that reports an error and is never valid.\<close>

type_synonym tab_iter = "Status + Table \<times> table_iter"

definition tab_op :: "('t \<Rightarrow> 'i Iterator) \<Rightarrow> ('i Iterator \<Rightarrow> 'i \<Rightarrow> 'i option) \<Rightarrow> Status + 't \<times> 'i \<Rightarrow> (Status + 't \<times> 'i) option" where
  "tab_op I f s = (case s of Inl e \<Rightarrow> Some (Inl e) | Inr (t, i) \<Rightarrow> map_option (\<lambda>i'. Inr (t, i')) (f (I t) i))"

definition tab_need :: "('t \<Rightarrow> 'i Iterator) \<Rightarrow> ('i Iterator \<Rightarrow> 'i \<Rightarrow> 'a option) \<Rightarrow> ('t \<Rightarrow> 'a \<Rightarrow> 'b) \<Rightarrow> Status + 't \<times> 'i \<Rightarrow> 'b option" where
  "tab_need I f g s = (case s of Inl e \<Rightarrow> None | Inr (t, i) \<Rightarrow> map_option (g t) (f (I t) i))"

definition tab_iterator :: "('t \<Rightarrow> 'i Iterator) \<Rightarrow> (Status + 't \<times> 'i) Iterator" where
  "tab_iterator I = \<lparr>it_Valid = (\<lambda>s. case s of Inl _ \<Rightarrow> False | Inr (t, i) \<Rightarrow> it_Valid (I t) i),
     it_SeekToFirst = tab_op I it_SeekToFirst, it_SeekToLast = tab_op I it_SeekToLast, it_Seek = (\<lambda>k. tab_op I (\<lambda>J. it_Seek J k)),
     it_Next = tab_need I it_Next (\<lambda>t i. Inr (t, i)), it_Prev = tab_need I it_Prev (\<lambda>t i. Inr (t, i)),
     it_key = tab_need I it_key (\<lambda>_ k. k), it_value = tab_need I it_value (\<lambda>_ v. v)\<rparr>"

text \<open>The status of a fresh iterator: that of its index iterator.\<close>

definition tab_status :: "tab_iter \<Rightarrow> Status" where
  "tab_status s = (case s of Inl e \<Rightarrow> e | Inr (t, i) \<Rightarrow> BlockIterator_status (wr_iter (tl_index i)))"

section \<open>The table cache\<close>

record ('fs, 'f) Env =
  NewWritableFile :: "64 word \<Rightarrow> 'fs \<Rightarrow> (Status + 'f) \<times> 'fs"
  env_file :: "'f WritableFile"
  env_Sync :: "64 word \<Rightarrow> 'f \<Rightarrow> 'fs \<Rightarrow> Status \<times> 'f \<times> 'fs"
  env_Close :: "64 word \<Rightarrow> 'f \<Rightarrow> 'fs \<Rightarrow> Status \<times> 'fs"
  RemoveFile :: "64 word \<Rightarrow> 'fs \<Rightarrow> 'fs"
  NewRandomAccessFile :: "64 word \<Rightarrow> 'fs \<Rightarrow> Status + RandomAccessFile"

definition FindTable ::
  "('fs, 'f) Env \<Rightarrow> Port \<Rightarrow> Options \<Rightarrow> 64 word \<Rightarrow> 'fs \<Rightarrow> 64 word \<Rightarrow> 64 word \<Rightarrow> (64 word \<rightharpoonup> Table) \<Rightarrow> ((Status + Table) \<times> (64 word \<rightharpoonup> Table)) option" where
  "FindTable E P opt cache_id fs file_number fsize cache =
     (case cache file_number of
        Some t \<Rightarrow> Some (Inr t, cache)
      | None \<Rightarrow>
          let opened = (case NewRandomAccessFile E file_number fs of
                          Inr f \<Rightarrow> Inr f
                        | Inl s \<Rightarrow> (case NewRandomAccessFile E file_number fs of Inr f \<Rightarrow> Inr f | Inl _ \<Rightarrow> Inl s)) in
          (case opened of
             Inl s \<Rightarrow> Some (Inl s, cache)
           | Inr f \<Rightarrow>
               map_option (\<lambda>r. case r of Inl s \<Rightarrow> (Inl s, cache) | Inr t \<Rightarrow> (Inr t, cache(file_number \<mapsto> t)))
                 (Table_Open P opt cache_id f fsize)))"

definition TableCache_NewIterator ::
  "('fs, 'f) Env \<Rightarrow> Port \<Rightarrow> Options \<Rightarrow> 64 word \<Rightarrow> 'fs \<Rightarrow> 64 word \<Rightarrow> 64 word \<Rightarrow> (64 word \<rightharpoonup> Table) \<Rightarrow> (tab_iter \<times> (64 word \<rightharpoonup> Table)) option" where
  "TableCache_NewIterator E P opt cache_id fs file_number fsize cache =
     Option.bind (FindTable E P opt cache_id fs file_number fsize cache) (\<lambda>(r, cache').
       case r of Inl s \<Rightarrow> Some (Inl s, cache') | Inr t \<Rightarrow> map_option (\<lambda>i. (Inr (t, i), cache')) (Table_NewIterator t))"

definition TableCache_Get ::
  "('fs, 'f) Env \<Rightarrow> Port \<Rightarrow> Options \<Rightarrow> 64 word \<Rightarrow> 'fs \<Rightarrow> bool \<Rightarrow> 64 word \<Rightarrow> 64 word \<Rightarrow> slice \<Rightarrow> (64 word \<rightharpoonup> Table) \<Rightarrow>
    (Status \<times> (slice \<times> slice) option \<times> (64 word \<rightharpoonup> Table)) option" where
  "TableCache_Get E P opt cache_id fs verify file_number fsize k cache =
     Option.bind (FindTable E P opt cache_id fs file_number fsize cache) (\<lambda>(r, cache').
       case r of Inl s \<Rightarrow> Some (s, None, cache') | Inr t \<Rightarrow> map_option (\<lambda>(s, found). (s, found, cache')) (InternalGet P verify t k))"

definition Evict :: "64 word \<Rightarrow> (64 word \<rightharpoonup> Table) \<Rightarrow> (64 word \<rightharpoonup> Table)" where
  "Evict file_number cache = cache(file_number := None)"

section \<open>Writing a table\<close>

text \<open>The loop of \<^verbatim>\<open>BuildTable\<close>: the builder after all entries and the last key.\<close>

partial_function (option) build_loop ::
  "'f WritableFile \<Rightarrow> Port \<Rightarrow> 'i Iterator \<Rightarrow> 'i \<Rightarrow> slice \<Rightarrow> 'f TableBuilder \<Rightarrow> (slice \<times> 'f TableBuilder) option" where
  "build_loop W P J iter key r =
     (if \<not> it_Valid J iter then Some (key, r)
      else Option.bind (it_key J iter) (\<lambda>k. Option.bind (it_value J iter) (\<lambda>v.
        Option.bind (TableBuilder_Add W P k v r) (\<lambda>r'.
        Option.bind (it_Next J iter) (\<lambda>iter'. build_loop W P J iter' k r')))))"

text \<open>
  \<^verbatim>\<open>BuildTable\<close> on the iterator \<open>iter\<close>: the status, the metadata and the files. \<open>fstatus\<close> is the status the input iterator reports.
\<close>

definition BuildTable ::
  "('fs, 'f) Env \<Rightarrow> Port \<Rightarrow> Options \<Rightarrow> 64 word \<Rightarrow> 'i Iterator \<Rightarrow> 'i \<Rightarrow> Status \<Rightarrow> (64 word \<rightharpoonup> Table) \<Rightarrow> FileMetaData \<Rightarrow> 'fs \<Rightarrow>
    (Status \<times> FileMetaData \<times> (64 word \<rightharpoonup> Table) \<times> 'fs) option" where
  "BuildTable E P opt cache_id J iter0 fstatus cache meta0 fs =
     Option.bind (it_SeekToFirst J iter0) (\<lambda>iter.
       let meta = meta0\<lparr>file_size := 0\<rparr>; num = fnumber meta0;
           finish = (\<lambda>s meta cache fs.
             let s' = (if fstatus \<noteq> StatusOK then fstatus else s)
             in Some (s', meta, cache, if s' = StatusOK \<and> file_size meta > 0 then fs else RemoveFile E num fs))
       in if \<not> it_Valid J iter then finish StatusOK meta cache fs
          else case NewWritableFile E num fs of
            (Inl s, fs1) \<Rightarrow> Some (s, meta, cache, fs1)
          | (Inr f, fs1) \<Rightarrow>
              Option.bind (new_TableBuilder opt f) (\<lambda>r0.
              Option.bind (it_key J iter) (\<lambda>first.
              Option.bind (build_loop (env_file E) P J iter [] r0) (\<lambda>(key, r1).
                let meta1 = (if key \<noteq> [] then meta\<lparr>smallest := first, largest := key\<rparr> else meta\<lparr>smallest := first\<rparr>) in
                Option.bind (TableBuilder_Finish (env_file E) P r1) (\<lambda>(s, r2).
                  if s = StatusOK \<and> FileSize r2 = 0 then None
                  else let meta2 = (if s = StatusOK then meta1\<lparr>file_size := FileSize r2\<rparr> else meta1) in
                    if s \<noteq> StatusOK then finish s meta2 cache fs1
                    else case env_Sync E num (tb_file r2) fs1 of
                      (s1, f1, fs2) \<Rightarrow>
                        if s1 \<noteq> StatusOK then finish s1 meta2 cache fs2
                        else case env_Close E num f1 fs2 of
                          (s2, fs3) \<Rightarrow>
                            if s2 \<noteq> StatusOK then finish s2 meta2 cache fs3
                            else Option.bind (TableCache_NewIterator E P opt cache_id fs3 num (file_size meta2) cache) (\<lambda>(it, cache').
                              finish (tab_status it) meta2 cache' fs3))))))"

end
