(* ===== verification/Compaction.thy ===== *)
theory Compaction
  imports Lsmt TreePage
begin

text \<open>
  The compaction loop of the LSM tree, \<^verbatim>\<open>DoCompactionWorkImpl\<close> of \<^verbatim>\<open>lsmt/lsmt_leveldb.cc\<close>, and the operations that run it:
  compacting a level into the next, the bottom level or the files of a range in place, and adding a file.
  An output file is the list of entries given to its table builder. The size a builder reports after some
  entries and after it is finished, and the tables a file number opens, belong to the table component and are
  parameters here; \<open>TableStore\<close> gives them the tables of the code. Errors of the file system are not modelled. Results are \<^const>\<open>None\<close>
  where an assertion fails, an abort is reached or a call does not return.
\<close>

section \<open>Output files\<close>

record Output =
  o_number :: "64 word"
  o_smallest :: slice
  o_largest :: slice
  o_entries :: "(slice \<times> slice) list"

text \<open>
  The state of the loop: the compaction (the parameter of \<^verbatim>\<open>DoCompactionWorkImpl\<close> is a pointer the code tests for null; all its callers
  pass a compaction), the variables that decide which entries to drop, \<^verbatim>\<open>ikey.user_key\<close>, the current guard, and the files written, finished and open.
\<close>

record work =
  w_compaction :: "LevelDBCompaction option"
  current_user_key :: "slice option"
  last_sequence_for_key :: "64 word"
  ikey_user_key :: slice
  guard_idx :: nat
  w_outputs :: "Output list"
  w_builder :: "Output option"
  w_file_id :: "64 word"

definition new_work :: "LevelDBCompaction option \<Rightarrow> 64 word \<Rightarrow> work" where
  "new_work c fid = \<lparr>w_compaction = c, current_user_key = None, last_sequence_for_key = kMaxSequenceNumber, ikey_user_key = [],
     guard_idx = 0, w_outputs = [], w_builder = None, w_file_id = fid\<rparr>"

definition OpenCompactionOutputFile :: "work \<Rightarrow> work" where
  "OpenCompactionOutputFile w =
     (let number = w_file_id w + 2 in
      w\<lparr>w_file_id := number, w_builder := Some \<lparr>o_number = number, o_smallest = [], o_largest = [], o_entries = []\<rparr>\<rparr>)"

definition FinishCompactionOutputFile :: "work \<Rightarrow> work" where
  "FinishCompactionOutputFile w =
     (case w_builder w of None \<Rightarrow> w | Some out \<Rightarrow> w\<lparr>w_outputs := w_outputs w @ [out], w_builder := None\<rparr>)"

definition builder_entries :: "work \<Rightarrow> nat" where
  "builder_entries w = (case w_builder w of None \<Rightarrow> 0 | Some out \<Rightarrow> length (o_entries out))"

definition builder_Add :: "slice \<Rightarrow> slice \<Rightarrow> Output \<Rightarrow> Output" where
  "builder_Add key val out =
     out\<lparr>o_smallest := (if o_entries out = [] then key else o_smallest out), o_largest := key,
         o_entries := o_entries out @ [(key, val)]\<rparr>"

section \<open>The loop\<close>

text \<open>The pivots of the page are the guards; without a page, or with an empty one, there are none.\<close>

definition page_guards :: "page option \<Rightarrow> slice list" where
  "page_guards page = (case page of None \<Rightarrow> [] | Some p \<Rightarrow> map (PageReadPivotAtOffset p) [0..<item_num p])"

definition first_guard :: "slice list \<Rightarrow> slice \<Rightarrow> nat" where
  "first_guard guards uk =
     (let i = length (takeWhile (\<lambda>g. \<not> ucmp g uk > 0) guards) in (if i = 0 then 1 else i) - 1)"

definition stop_before :: "lsmt \<Rightarrow> slice \<Rightarrow> work \<Rightarrow> work" where
  "stop_before s key w =
     (case w_compaction w of
        None \<Rightarrow> w
      | Some c \<Rightarrow>
          let (stop, c') = ShouldStopBefore s key c; w' = w\<lparr>w_compaction := Some c'\<rparr> in
          if stop \<and> w_builder w \<noteq> None then FinishCompactionOutputFile w' else w')"

text \<open>Whether an entry is dropped: it is hidden by a newer one, or is a deletion with nothing older below.\<close>

definition judge_drop :: "lsmt \<Rightarrow> slice \<Rightarrow> work \<Rightarrow> bool \<times> work" where
  "judge_drop s key w =
     (case ParseInternalKey key of
        None \<Rightarrow>
          (False, w\<lparr>current_user_key := None, last_sequence_for_key := kMaxSequenceNumber,
                    ikey_user_key := (if 8 \<le> length key then pure_key key else ikey_user_key w)\<rparr>)
      | Some ikey \<Rightarrow>
          let first = (case current_user_key w of None \<Rightarrow> True | Some u \<Rightarrow> ucmp (user_key ikey) u \<noteq> 0);
              last_seq = (if first then kMaxSequenceNumber else last_sequence_for_key w);
              w1 = w\<lparr>current_user_key := (if first then Some (user_key ikey) else current_user_key w),
                     last_sequence_for_key := sequence_no ikey, ikey_user_key := user_key ikey\<rparr> in
          if last_seq < kMaxSequenceNumber then (True, w1)
          else if val_type ikey = kTypeDeletion then
            (case w_compaction w of
               None \<Rightarrow> (True, w1)
             | Some c \<Rightarrow>
                 let (base, c') = IsBaseLevelForKey s (user_key ikey) (int kNumLevels) c in
                 (base, w1\<lparr>w_compaction := Some c'\<rparr>))
          else (False, w1))"

definition guard_step :: "slice list \<Rightarrow> work \<Rightarrow> work" where
  "guard_step guards w =
     (if guards = [] then w
      else let next_guard = (if guard_idx w \<ge> length guards - 1 then False
                             else ucmp (guards ! (guard_idx w + 1)) (ikey_user_key w) \<le> 0);
               w1 = (if w_builder w \<noteq> None \<and> next_guard \<and> builder_entries w > 0 then FinishCompactionOutputFile w else w)
           in if next_guard then w1\<lparr>guard_idx := guard_idx w1 + 1\<rparr> else w1)"

definition add_entry :: "((slice \<times> slice) list \<Rightarrow> 64 word) \<Rightarrow> 64 word \<Rightarrow> slice list \<Rightarrow> slice \<Rightarrow> slice \<Rightarrow> work \<Rightarrow> work" where
  "add_entry cur_size max_output guards key val w =
     (let w1 = guard_step guards w;
          w2 = (if w_builder w1 = None then OpenCompactionOutputFile w1 else w1);
          w3 = w2\<lparr>w_builder := map_option (builder_Add key val) (w_builder w2)\<rparr>
      in if guards = [] \<and> (case w_builder w3 of None \<Rightarrow> False | Some out \<Rightarrow> cur_size (o_entries out) \<ge> max_output)
         then FinishCompactionOutputFile w3 else w3)"

definition compact_entry ::
  "lsmt \<Rightarrow> ((slice \<times> slice) list \<Rightarrow> 64 word) \<Rightarrow> 64 word \<Rightarrow> slice list \<Rightarrow> slice \<times> slice \<Rightarrow> work \<Rightarrow> work" where
  "compact_entry s cur_size max_output guards e w =
     (let (drop, w1) = judge_drop s (fst e) (stop_before s (fst e) w) in
      if drop then w1 else add_entry cur_size max_output guards (fst e) (snd e) w1)"

partial_function (option) compaction_loop ::
  "lsmt \<Rightarrow> 'i Iterator \<Rightarrow> ((slice \<times> slice) list \<Rightarrow> 64 word) \<Rightarrow> 64 word \<Rightarrow> slice list \<Rightarrow> 'i \<Rightarrow> work \<Rightarrow> work option" where
  "compaction_loop s J cur_size max_output guards input w =
     (if \<not> it_Valid J input then Some w
      else Option.bind (it_key J input) (\<lambda>key. Option.bind (it_value J input) (\<lambda>val.
        Option.bind (it_Next J input) (\<lambda>input'.
          compaction_loop s J cur_size max_output guards input' (compact_entry s cur_size max_output guards (key, val) w)))))"

definition DoCompactionWorkImpl ::
  "lsmt \<Rightarrow> 'i Iterator \<Rightarrow> ((slice \<times> slice) list \<Rightarrow> 64 word) \<Rightarrow> 64 word \<Rightarrow> page option \<Rightarrow> 'i \<Rightarrow> work \<Rightarrow> work option" where
  "DoCompactionWorkImpl s J cur_size max_output page input w =
     Option.bind (it_SeekToFirst J input) (\<lambda>input1.
     Option.bind (if page_guards page \<noteq> [] \<and> it_Valid J input1 then
         map_option (\<lambda>key. let uk = (if 8 \<le> length key then pure_key key else ikey_user_key w) in
           w\<lparr>ikey_user_key := uk, guard_idx := first_guard (page_guards page) uk\<rparr>) (it_key J input1)
       else Some w) (\<lambda>w1.
     map_option FinishCompactionOutputFile (compaction_loop s J cur_size max_output (page_guards page) input1 w1)))"

definition output_meta :: "((slice \<times> slice) list \<Rightarrow> 64 word) \<Rightarrow> Output \<Rightarrow> FileMetaData" where
  "output_meta final_size out =
     mk_meta (o_number out) (final_size (o_entries out)) (of_nat (length (o_entries out))) (o_smallest out) (o_largest out)"

section \<open>Running compactions\<close>

text \<open>
  What the LSM tree needs of the table component: the state \<open>'fs\<close> of the table files, opening a table, writing one, the
  operations of its iterators and the sizes its builder reports.
\<close>

record ('fs, 'it) Tables =
  tab_ops :: "'it Iterator"
  open_table :: "'fs \<Rightarrow> 64 word \<Rightarrow> 64 word \<Rightarrow> 'it option"
  write_table :: "64 word \<Rightarrow> (slice \<times> slice) list \<Rightarrow> 'fs \<Rightarrow> 'fs"
  cur_size :: "(slice \<times> slice) list \<Rightarrow> 64 word"
  final_size :: "(slice \<times> slice) list \<Rightarrow> 64 word"

definition write_outputs :: "('fs, 'it) Tables \<Rightarrow> Output list \<Rightarrow> 'fs \<Rightarrow> 'fs" where
  "write_outputs T outs fs = foldl (\<lambda>fs out. write_table T (o_number out) (o_entries out) fs) fs outs"

definition DoCompactionWork ::
  "('fs, 'it) Tables \<Rightarrow> LevelDBCompaction \<Rightarrow> page option \<Rightarrow> nat \<Rightarrow> 'fs \<times> lsmt \<Rightarrow> ('fs \<times> lsmt) option" where
  "DoCompactionWork T c page target = (\<lambda>(fs, s).
     Option.bind (MakeInputIterator (tab_ops T) (open_table T fs) c) (\<lambda>input.
     Option.bind (DoCompactionWorkImpl s (any_iterator icmp (lsm_child_iterator (tab_ops T) (open_table T fs))) (cur_size T)
         (output_file_size s) page input (new_work (Some c) (file_id s))) (\<lambda>w.
       map_option (Pair (write_outputs T (w_outputs w) fs))
         (InstallCompactionResults c (map (output_meta (final_size T)) (w_outputs w)) target (s\<lparr>file_id := w_file_id w\<rparr>)))))"

definition DoCompact :: "('fs, 'it) Tables \<Rightarrow> page \<Rightarrow> 'fs \<times> lsmt \<Rightarrow> (OpState \<times> 'fs \<times> lsmt) option" where
  "DoCompact T page = (\<lambda>(fs, s).
     if \<not> compact_level s \<ge> 0 then None
     else let overflow = (level_limit s > 0 \<and> compact_level s \<ge> level_limit s - 1) in
       if overflow \<and> is_leaf page then Some (kOverflow, fs, s\<lparr>compaction_score := -1, compact_level := -1\<rparr>)
       else
         Option.bind (SetCompactionInputs (nat (compact_level s)) s (new_LevelDBCompaction (nat (compact_level s)))) (\<lambda>(s1, c).
           let level = c_level c; s2 = s1\<lparr>compact_level := int level\<rparr> in
           if inputs0 c = [] then Some (kOk, fs, s2)
           else map_option (\<lambda>(fs', s3). (if overflow then kOverflow else kOk, fs', Finalize s3))
             (if IsTrivialMove s2 (-1) c then map_option (Pair fs) (TrivialMove c level s2)
              else DoCompactionWork T c (Some page) (level + 1) (fs, s2))))"

text \<open>
  \<^verbatim>\<open>CompactLevel\<close> and \<^verbatim>\<open>CompactLevelImpl\<close> call each other as long as the level below overflows.
\<close>

definition compact_once ::
  "('fs, 'it) Tables \<Rightarrow> LevelDBCompaction \<Rightarrow> nat \<Rightarrow> page option \<Rightarrow> nat \<Rightarrow> 'fs \<times> lsmt \<Rightarrow> ('fs \<times> lsmt) option" where
  "compact_once T c level page target = (\<lambda>(fs, s).
     if level \<noteq> target \<and> IsTrivialMove s (level_limit s) c then map_option (Pair fs) (TrivialMove c level s)
     else DoCompactionWork T c page target (fs, s))"

partial_function (option) CompactLevel ::
  "('fs, 'it) Tables \<Rightarrow> nat \<Rightarrow> page option \<Rightarrow> 'fs \<times> lsmt \<Rightarrow> (OpState \<times> 'fs \<times> lsmt) option" where
  "CompactLevel T level page t =
     (let s = snd t in
      if lsmt_status s \<noteq> kStandalone \<and> level_limit s > 0 \<and> int level \<ge> level_limit s - 1 then Some (kOverflow, t)
      else
        Option.bind (SetCompactionInputs level s (new_LevelDBCompaction level)) (\<lambda>(s1, c).
        Option.bind (compact_once T c level page (level + 1) (fst t, s1)) (\<lambda>t2.
          if MayNeedCompaction (snd t2) (level + 1) = kOverflow then CompactLevel T (level + 1) page t2
          else Some (kOk, t2))))"

definition CompactBottomLevel :: "('fs, 'it) Tables \<Rightarrow> page option \<Rightarrow> 'fs \<times> lsmt \<Rightarrow> ('fs \<times> lsmt) option" where
  "CompactBottomLevel T page = (\<lambda>(fs, s).
     if GetBottomLevel s < 0 then Some (fs, s)
     else let level = nat (GetBottomLevel s) in
       if length (files s level) = 1 \<and> page = None then Some (fs, s)
       else Option.bind (SetCompactionInputsBottomLevel s (new_LevelDBCompaction level))
              (\<lambda>c. compact_once T c level page level (fs, s)))"

definition CompactFilesInRange ::
  "('fs, 'it) Tables \<Rightarrow> nat \<Rightarrow> FileMetaData list \<Rightarrow> page option \<Rightarrow> 'fs \<times> lsmt \<Rightarrow> ('fs \<times> lsmt) option" where
  "CompactFilesInRange T level fls page = DoCompactionWork T ((new_LevelDBCompaction level)\<lparr>inputs0 := fls\<rparr>) page level"

section \<open>Adding files\<close>

text \<open>
  The test that should keep \<^verbatim>\<open>allowed_seeks\<close> at 100 or more reads the local copy, whose value is still the
  default of the constructor, so it has no effect.
\<close>

definition add_meta :: "FileMetaData \<Rightarrow> FileMetaData" where
  "add_meta f = f\<lparr>allowed_seeks := sint (ucast (file_size f div 16384) :: 32 word)\<rparr>"

definition append_level :: "nat \<Rightarrow> FileMetaData list \<Rightarrow> lsmt \<Rightarrow> lsmt" where
  "append_level level fls s = s\<lparr>files := (files s)(level := files s level @ fls)\<rparr>"

definition AddFile ::
  "('fs, 'it) Tables \<Rightarrow> nat \<Rightarrow> FileMetaData \<Rightarrow> page option \<Rightarrow> 'fs \<times> lsmt \<Rightarrow> (OpState \<times> 'fs \<times> lsmt) option" where
  "AddFile T level f page = (\<lambda>(fs, s).
     Option.bind
       (if level > 0 then ApplyFileChanges level [add_meta f] {} s else Some (append_level level [add_meta f] s)) (\<lambda>s1.
       if lsmt_status s = kStandalone then Some (kOk, fs, Finalize s1)
       else if MayNeedCompaction s1 level = kOverflow then CompactLevel T level page (fs, s1)
       else Some (kOk, fs, s1)))"

definition AppendFile :: "nat \<Rightarrow> FileMetaData \<Rightarrow> lsmt \<Rightarrow> (nat \<times> lsmt) option" where
  "AppendFile level f s =
     (if level \<noteq> 0 then None
      else let s1 = append_level level [add_meta f] s in Some (length (files s1 0), s1))"

definition AppendFiles :: "nat \<Rightarrow> FileMetaData list \<Rightarrow> lsmt \<Rightarrow> (OpState \<times> lsmt) option" where
  "AppendFiles level metas s =
     (if level \<noteq> 0 then None
      else let s1 = append_level level metas s in Some (MayNeedCompaction s1 level, s1))"

definition AddFiles ::
  "('fs, 'it) Tables \<Rightarrow> nat \<Rightarrow> FileMetaData list \<Rightarrow> page option \<Rightarrow> 'fs \<times> lsmt \<Rightarrow> (OpState \<times> 'fs \<times> lsmt) option" where
  "AddFiles T level metas page = (\<lambda>(fs, s).
     if level \<noteq> 0 then None
     else let s1 = append_level level metas s in
       if MayNeedCompaction s1 level = kOverflow then CompactLevel T level page (fs, s1) else Some (kOk, fs, s1))"

definition CompactTopLevel :: "('fs, 'it) Tables \<Rightarrow> page option \<Rightarrow> 'fs \<times> lsmt \<Rightarrow> (OpState \<times> 'fs \<times> lsmt) option" where
  "CompactTopLevel T page = CompactLevel T 0 page"

end
