(* ===== verification/LsmtCorrect.thy ===== *)
theory LsmtCorrect
  imports Lsmt TreeIter
begin

text \<open>
  The files of the LSM tree searched and selected. A file stands for a sorted run of writes; the files of a
  level below the first have disjoint ranges of user keys, in order. The binary search finds the first
  file that can hold a key, the overlap test is exact, the files chosen for a compaction are exactly those that
  overlap its range and, at level 0, are closed under overlap. The iterator over the files of a level and
  the one over the whole tree keep the iterator contract.
\<close>

section \<open>Files and levels\<close>

definition file_ok :: "FileMetaData \<Rightarrow> bool" where
  "file_ok f \<longleftrightarrow> (\<exists>v w. write_ok v \<and> write_ok w \<and> smallest f = write_ikey v \<and> largest f = write_ikey w \<and>
     (v = w \<or> version_less v w))"

definition level_sorted :: "FileMetaData list \<Rightarrow> bool" where
  "level_sorted fs \<longleftrightarrow> (\<forall>f \<in> set fs. file_ok f) \<and> sorted_wrt (\<lambda>a b. largest_user a < smallest_user b) fs"

lemma pure_earliest [simp]: "pure_key (earliest_key k) = k"
  by (simp add: earliest_key_def pure_key_def)

lemma write_ikey_ok: "write_ok w \<Longrightarrow> ikey_ok (write_ikey w)"
  by (simp add: ikey_ok_def write_ok_def)

lemma earliest_ok: "length k + 8 < 2 ^ 32 \<Longrightarrow> ikey_ok (earliest_key k)"
  by (simp add: ikey_ok_def earliest_key_def)

lemma earliest_Append:
  "AppendInternalKey [] \<lparr>user_key = k, sequence_no = kMaxSequenceNumber, val_type = kValueTypeForSeek\<rparr> = Inr (earliest_key k)"
  by (simp add: AppendInternalKey_def PackSequenceAndType_def earliest_key_def PutFixed64_def)

lemma icmp_earliest:
  assumes "write_ok w"
  shows "icmp (write_ikey w) (earliest_key k) < 0 \<longleftrightarrow> ukey w < k"
proof -
  obtain tag where tag: "PackSequenceAndType kMaxSequenceNumber kTypeValue = Inr tag"
    using PackSequenceAndType_ok [of kMaxSequenceNumber kTypeValue] by blast
  have "earliest_key k = k @ EncodeFixed64 tag"
    using earliest_Append [of k] tag by (simp add: AppendInternalKey_def kValueTypeForSeek_def PutFixed64_def)
  then have "key_tag (earliest_key k) = tag" by (simp add: key_tag_def)
  moreover have "write_tag w \<le> tag" using tag_le_seq [OF assms _ tag] assms by (simp add: write_ok_def)
  ultimately show ?thesis by (auto simp: InternalKey_Compare_less Bytewise_Compare_def)
qed

lemma file_okD:
  assumes "file_ok f"
  shows "smallest_user f \<le> largest_user f" "ikey_ok (smallest f)" "ikey_ok (largest f)"
    "icmp (largest f) (earliest_key k) < 0 \<longleftrightarrow> largest_user f < k" "icmp (smallest f) (largest f) \<le> 0"
proof -
  obtain v w where vw: "write_ok v" "write_ok w" "smallest f = write_ikey v" "largest f = write_ikey w" "v = w \<or> version_less v w"
    using assms by (auto simp: file_ok_def)
  show "smallest_user f \<le> largest_user f" using vw(3-5) by (auto simp: version_less_def)
  show "ikey_ok (smallest f)" "ikey_ok (largest f)" using vw(1-4) by (simp_all add: write_ikey_ok)
  show "icmp (largest f) (earliest_key k) < 0 \<longleftrightarrow> largest_user f < k" using icmp_earliest [OF vw(2)] vw(4) by simp
  show "icmp (smallest f) (largest f) \<le> 0"
    using vw(5) icmp_writes [of v w] ikeys.cmp_refl [OF write_ikey_ok [OF vw(2)]] unfolding vw(3,4) by auto
qed

lemma icmp_user_less: "pure_key a < pure_key b \<Longrightarrow> icmp a b < 0"
  by (simp add: InternalKey_Compare_less Bytewise_Compare_def)

lemma level_sorted_nth:
  assumes "level_sorted fs" "i < j" "j < length fs"
  shows "largest_user (fs ! i) < smallest_user (fs ! j)" "largest_user (fs ! i) < largest_user (fs ! j)"
proof -
  show *: "largest_user (fs ! i) < smallest_user (fs ! j)"
    using assms sorted_wrt_nth_less [of "\<lambda>a b. largest_user a < smallest_user b" fs i j] by (simp add: level_sorted_def)
  have "file_ok (fs ! j)" using assms(1,3) by (simp add: level_sorted_def)
  from order.strict_trans2 [OF * file_okD(1) [OF this]] show "largest_user (fs ! i) < largest_user (fs ! j)" .
qed

section \<open>The binary search\<close>

lemma find_file_loop:
  assumes "\<forall>i < l. icmp (largest (fs ! i)) key < 0" "\<forall>i. r \<le> i \<and> i < length fs \<longrightarrow> \<not> icmp (largest (fs ! i)) key < 0"
    "l \<le> r" "r \<le> length fs"
    "\<And>i j. i < j \<Longrightarrow> j < length fs \<Longrightarrow> icmp (largest (fs ! j)) key < 0 \<Longrightarrow> icmp (largest (fs ! i)) key < 0"
  shows "find_file_loop fs key l r \<le> length fs \<and> (\<forall>i < find_file_loop fs key l r. icmp (largest (fs ! i)) key < 0) \<and>
    (\<forall>i. find_file_loop fs key l r \<le> i \<and> i < length fs \<longrightarrow> \<not> icmp (largest (fs ! i)) key < 0)"
  using assms
proof (induction fs key l r rule: find_file_loop.induct)
  case (1 fs key l r)
  let ?m = "(l + r) div 2"
  show ?case
  proof (cases "l < r")
    case False
    then have "find_file_loop fs key l r = r" "l = r" using 1(5) by (simp_all add: find_file_loop.simps)
    then show ?thesis using 1(3,4,6) by simp
  next
    case lr: True
    then have m: "?m < r" "l \<le> ?m" "?m < length fs" using 1(6) by auto
    show ?thesis
    proof (cases "icmp (largest (fs ! ?m)) key < 0")
      case True
      have below: "\<forall>i < ?m + 1. icmp (largest (fs ! i)) key < 0"
      proof (intro allI impI)
        fix i assume "i < ?m + 1"
        then show "icmp (largest (fs ! i)) key < 0" using True m(3) 1(7) [of i ?m] by (cases "i = ?m") auto
      qed
      have e: "find_file_loop fs key l r = find_file_loop fs key (?m + 1) r"
        using lr True by (subst find_file_loop.simps) (simp add: Let_def)
      show ?thesis unfolding e by (rule 1(1) [OF lr refl True below 1(4) _ 1(6,7)]) (use m in simp)
    next
      case False
      have above: "\<forall>i. ?m \<le> i \<and> i < length fs \<longrightarrow> \<not> icmp (largest (fs ! i)) key < 0"
      proof (intro allI impI)
        fix i assume i: "?m \<le> i \<and> i < length fs"
        then show "\<not> icmp (largest (fs ! i)) key < 0" using False 1(7) [of ?m i] by (cases "i = ?m") auto
      qed
      have e: "find_file_loop fs key l r = find_file_loop fs key l ?m"
        using lr False by (subst find_file_loop.simps) (simp add: Let_def)
      show ?thesis unfolding e by (rule 1(2) [OF lr refl False 1(3) above _ _ 1(7)]) (use m in simp_all)
    qed
  qed
qed

lemma takeWhile_is_take:
  assumes "n \<le> length xs" "\<And>i. i < n \<Longrightarrow> P (xs ! i)" "n < length xs \<Longrightarrow> \<not> P (xs ! n)"
  shows "takeWhile P xs = take n xs"
  using assms by (intro takeWhile_eq_take_P_nth) simp_all

lemma FindFile:
  assumes "level_sorted fs" "ikey_ok key"
  shows "FindFile fs key = length (takeWhile (\<lambda>f. icmp (largest f) key < 0) fs)"
proof -
  have mono: "icmp (largest (fs ! i)) key < 0"
    if "i < j" "j < length fs" "icmp (largest (fs ! j)) key < 0" for i j
  proof -
    have "file_ok (fs ! i)" "file_ok (fs ! j)" using assms(1) that(1,2) by (simp_all add: level_sorted_def)
    then show ?thesis
      using ikeys.cmp_less_trans [of "largest (fs ! i)" "largest (fs ! j)" key] file_okD(3) assms(2) that(3)
        icmp_user_less [OF level_sorted_nth(2) [OF assms(1) that(1,2)]] by simp
  qed
  let ?n = "find_file_loop fs key 0 (length fs)"
  have n: "?n \<le> length fs" "\<forall>i < ?n. icmp (largest (fs ! i)) key < 0"
    "\<forall>i. ?n \<le> i \<and> i < length fs \<longrightarrow> \<not> icmp (largest (fs ! i)) key < 0"
    using find_file_loop [of 0 fs key "length fs"] mono by auto
  then have "takeWhile (\<lambda>f. icmp (largest f) key < 0) fs = take ?n fs" by (intro takeWhile_is_take) simp_all
  then show ?thesis using n(1) by (simp add: FindFile_def)
qed

lemma FindFile_earliest:
  assumes "level_sorted fs" "length k + 8 < 2 ^ 32"
  shows "FindFile fs (earliest_key k) = length (takeWhile (\<lambda>f. largest_user f < k) fs)"
proof -
  have "takeWhile (\<lambda>f. icmp (largest f) (earliest_key k) < 0) fs = takeWhile (\<lambda>f. largest_user f < k) fs"
    using assms(1) file_okD(4) by (intro takeWhile_cong refl) (auto simp: level_sorted_def)
  then show ?thesis using FindFile [OF assms(1) earliest_ok [OF assms(2)]] by simp
qed

section \<open>Overlapping files\<close>

lemma range_tests [simp]:
  "AfterFile (Some k) f \<longleftrightarrow> largest_user f < k" "BeforeFile (Some k) f \<longleftrightarrow> k < smallest_user f"
  "file_before (Some k) f \<longleftrightarrow> largest_user f < k" "file_after (Some k) f \<longleftrightarrow> k < smallest_user f"
  "starts_earlier (Some k) f \<longleftrightarrow> smallest_user f < k" "ends_later (Some k) f \<longleftrightarrow> k < largest_user f"
  by (simp_all add: AfterFile_def BeforeFile_def file_before_def file_after_def starts_earlier_def ends_later_def
      Bytewise_Compare_def)

definition touches :: "slice \<Rightarrow> slice \<Rightarrow> FileMetaData \<Rightarrow> bool" where
  "touches b e f \<longleftrightarrow> b \<le> largest_user f \<and> smallest_user f \<le> e"

lemma SomeFileOverlapsRange:
  assumes "d \<Longrightarrow> level_sorted fs" "length small + 8 < 2 ^ 32"
  shows "SomeFileOverlapsRange d fs (Some small) (Some large) \<longleftrightarrow> (\<exists>f \<in> set fs. touches small large f)"
proof (cases d)
  case False
  then show ?thesis by (auto simp: SomeFileOverlapsRange_def list_ex_iff touches_def not_less)
next
  case True
  then have fs: "level_sorted fs" using assms(1) by simp
  let ?P = "\<lambda>f. largest_user f < small"
  let ?n = "length (takeWhile ?P fs)"
  have n: "?P (fs ! i)" if "i < ?n" for i
    using nth_mem [OF that] set_takeWhileD [of _ ?P fs] List.takeWhile_nth [OF that] by metis
  have n': "\<not> ?P (fs ! ?n)" if "?n < length fs" by (rule nth_length_takeWhile [OF that])
  have S: "SomeFileOverlapsRange d fs (Some small) (Some large) \<longleftrightarrow> ?n < length fs \<and> smallest_user (fs ! ?n) \<le> large"
    using True FindFile_earliest [OF fs assms(2)] by (auto simp: SomeFileOverlapsRange_def Let_def)
  show ?thesis unfolding S
  proof
    assume "?n < length fs \<and> smallest_user (fs ! ?n) \<le> large"
    then show "\<exists>f \<in> set fs. touches small large f" using n' by (auto simp: touches_def not_less)
  next
    assume "\<exists>f \<in> set fs. touches small large f"
    then obtain j where j: "j < length fs" "touches small large (fs ! j)" by (auto simp: in_set_conv_nth)
    then have nj: "?n \<le> j" using n [of j] by (auto simp: touches_def not_less [symmetric])
    then have "smallest_user (fs ! ?n) \<le> smallest_user (fs ! j)"
      using level_sorted_nth(1) [OF fs, of ?n j] j(1) fs file_okD(1) [of "fs ! ?n"]
      by (cases "?n = j") (auto simp: level_sorted_def)
    then show "?n < length fs \<and> smallest_user (fs ! ?n) \<le> large" using nj j by (auto simp: touches_def)
  qed
qed

lemma overlap_loop_deep:
  assumes "level > 0"
  shows "overlap_loop level fs b e i inputs = inputs @ filter (\<lambda>f. \<not> file_before b f \<and> \<not> file_after e f) (drop i fs)"
  using assms
proof (induction level fs b e i inputs rule: overlap_loop.induct)
  case (1 level fs b e i inputs)
  show ?case
  proof (cases "i < length fs")
    case True
    then have "drop i fs = fs ! i # drop (i + 1) fs" by (simp add: Cons_nth_drop_Suc)
    then show ?thesis using 1(1) [OF True refl] 1(2) [OF True refl] 1(5) [OF True refl] 1(6) True
      by (subst overlap_loop.simps) (simp add: Let_def)
  qed (subst overlap_loop.simps, simp)
qed

text \<open>A range that no file it touches reaches out of.\<close>

definition closed_range :: "FileMetaData list \<Rightarrow> slice \<Rightarrow> slice \<Rightarrow> bool" where
  "closed_range fs b e \<longleftrightarrow> (\<forall>f \<in> set fs. touches b e f \<longrightarrow> b \<le> smallest_user f \<and> largest_user f \<le> e)"

lemma overlap_loop_top:
  assumes "inputs = filter (touches b e) (take i fs)" "closed_range (take i fs) b e" "i \<le> length fs"
  shows "\<exists>b' e'. b' \<le> b \<and> e \<le> e' \<and> overlap_loop 0 fs (Some b) (Some e) i inputs = filter (touches b' e') fs \<and>
    closed_range fs b' e' \<and> (\<forall>b2 e2. b2 \<le> b \<longrightarrow> e \<le> e2 \<longrightarrow> closed_range fs b2 e2 \<longrightarrow> b2 \<le> b' \<and> e' \<le> e2)"
  using assms(1-3)
proof (induction "outside fs (Some b) (Some e)" arbitrary: b e i inputs rule: less_induct)
  case outer: less
  show ?case using outer.prems
  proof (induction "length fs - i" arbitrary: i inputs rule: less_induct)
    case inner: less
    let ?f = "fs ! i"
    show ?case
    proof (cases "i < length fs")
      case False
      then have "overlap_loop 0 fs (Some b) (Some e) i inputs = filter (touches b e) fs" "closed_range fs b e"
        using inner.prems by (simp_all add: overlap_loop.simps)
      then show ?thesis by (intro exI [of _ b] exI [of _ e]) auto
    next
      case i: True
      have f: "?f \<in> set fs" using i by simp
      have tk: "take (i + 1) fs = take i fs @ [?f]" using i by (simp add: take_Suc_conv_app_nth)
      have L: "overlap_loop 0 fs (Some b) (Some e) i inputs =
        (if \<not> touches b e ?f then overlap_loop 0 fs (Some b) (Some e) (i + 1) inputs
         else if smallest_user ?f < b then overlap_loop 0 fs (Some (smallest_user ?f)) (Some e) 0 []
         else if e < largest_user ?f then overlap_loop 0 fs (Some b) (Some (largest_user ?f)) 0 []
         else overlap_loop 0 fs (Some b) (Some e) (i + 1) (inputs @ [?f]))"
        using i by (subst overlap_loop.simps) (auto simp: Let_def touches_def)
      have d: "length fs - (i + 1) < length fs - i" "i + 1 \<le> length fs" using i by simp_all
      consider "\<not> touches b e ?f" | "touches b e ?f" "smallest_user ?f < b"
        | "touches b e ?f" "\<not> smallest_user ?f < b" "e < largest_user ?f"
        | "touches b e ?f" "\<not> smallest_user ?f < b" "\<not> e < largest_user ?f" by blast
      then show ?thesis
      proof cases
        case 1
        have "inputs = filter (touches b e) (take (i + 1) fs)" "closed_range (take (i + 1) fs) b e"
          using 1 inner.prems(1,2) unfolding tk by (simp_all add: closed_range_def)
        from inner.hyps [OF d(1) this d(2)] show ?thesis using L 1 by simp
      next
        case 2
        let ?b = "smallest_user ?f"
        have "outside fs (Some ?b) (Some e) < outside fs (Some b) (Some e)" by (rule outside_shrinks [OF i]) (use 2 in simp)
        from outer.hyps [OF this, of "[]" 0]
        obtain b' e' where r: "b' \<le> ?b" "e \<le> e'" "overlap_loop 0 fs (Some ?b) (Some e) 0 [] = filter (touches b' e') fs"
          "closed_range fs b' e'" "\<forall>b2 e2. b2 \<le> ?b \<longrightarrow> e \<le> e2 \<longrightarrow> closed_range fs b2 e2 \<longrightarrow> b2 \<le> b' \<and> e' \<le> e2"
          by (auto simp: closed_range_def)
        have "b2 \<le> ?b" if "b2 \<le> b" "e \<le> e2" "closed_range fs b2 e2" for b2 e2
          using that f 2(1) by (auto simp: closed_range_def touches_def)
        then show ?thesis using L 2 r by (intro exI [of _ b'] exI [of _ e']) auto
      next
        case 3
        let ?e = "largest_user ?f"
        have "outside fs (Some b) (Some ?e) < outside fs (Some b) (Some e)" by (rule outside_shrinks [OF i]) (use 3 in simp)
        from outer.hyps [OF this, of "[]" 0]
        obtain b' e' where r: "b' \<le> b" "?e \<le> e'" "overlap_loop 0 fs (Some b) (Some ?e) 0 [] = filter (touches b' e') fs"
          "closed_range fs b' e'" "\<forall>b2 e2. b2 \<le> b \<longrightarrow> ?e \<le> e2 \<longrightarrow> closed_range fs b2 e2 \<longrightarrow> b2 \<le> b' \<and> e' \<le> e2"
          by (auto simp: closed_range_def)
        have "?e \<le> e2" if "b2 \<le> b" "e \<le> e2" "closed_range fs b2 e2" for b2 e2
          using that f 3(1) by (auto simp: closed_range_def touches_def)
        then show ?thesis using L 3 r by (intro exI [of _ b'] exI [of _ e']) auto
      next
        case 4
        have "inputs @ [?f] = filter (touches b e) (take (i + 1) fs)" "closed_range (take (i + 1) fs) b e"
          using 4 inner.prems(1,2) unfolding tk by (auto simp: closed_range_def not_less)
        from inner.hyps [OF d(1) this d(2)] show ?thesis using L 4 by simp
      qed
    qed
  qed
qed

section \<open>Iterators over levels\<close>

definition lf_ok :: "FileMetaData list \<times> nat \<Rightarrow> bool" where
  "lf_ok s \<longleftrightarrow> level_sorted (fst s) \<and> snd s \<le> length (fst s)"

definition lf_items :: "FileMetaData list \<times> nat \<Rightarrow> (slice \<times> slice) list" where
  "lf_items s = map (\<lambda>f. (largest f, file_value f)) (fst s)"

lemma lf_ascending:
  assumes "level_sorted fs"
  shows "ikeys.ascending (map (\<lambda>f. (largest f, file_value f)) fs)"
proof
  have "\<forall>i j. i < j \<longrightarrow> j < length fs \<longrightarrow> icmp (largest (fs ! i)) (largest (fs ! j)) < 0"
    using icmp_user_less [OF level_sorted_nth(2) [OF assms]] by blast
  then show "sorted_wrt (\<lambda>a b. icmp (fst a) (fst b) < 0) (map (\<lambda>f. (largest f, file_value f)) fs)"
    by (simp add: sorted_wrt_map sorted_wrt_iff_nth_less)
  show "\<forall>e \<in> set (map (\<lambda>f. (largest f, file_value f)) fs). ikey_ok (fst e)"
    using assms file_okD(3) by (auto simp: level_sorted_def)
qed

lemma lower_files: "lower icmp (map (\<lambda>f. (largest f, file_value f)) fs) t = length (takeWhile (\<lambda>f. icmp (largest f) t < 0) fs)"
  by (simp add: lower_def takeWhile_map comp_def)

interpretation level_files: sorted_iter ikey_ok icmp LevelFileNumIterator lf_ok lf_items snd
proof unfold_locales
  fix s assume s: "lf_ok s"
  obtain fs i where fi: "s = (fs, i)" by (cases s)
  have o: "level_sorted fs" "i \<le> length fs" using s fi by (simp_all add: lf_ok_def)
  show "ikeys.ascending (lf_items s)" using lf_ascending [OF o(1)] by (simp add: lf_items_def fi)
  show "it_Valid LevelFileNumIterator s \<longleftrightarrow> snd s < length (lf_items s)" by (simp add: LevelFileNumIterator_def lf_items_def fi)
  show "it_key LevelFileNumIterator s = Some (fst (lf_items s ! snd s)) \<and> it_value LevelFileNumIterator s = Some (snd (lf_items s ! snd s))"
    if "snd s < length (lf_items s)" using that by (simp add: LevelFileNumIterator_def lf_items_def fi)
  show "\<exists>s'. it_SeekToFirst LevelFileNumIterator s = Some s' \<and> lf_ok s' \<and> lf_items s' = lf_items s \<and> snd s' = 0"
    using o by (simp add: LevelFileNumIterator_def lf_items_def lf_ok_def fi)
  show "\<exists>s'. it_SeekToLast LevelFileNumIterator s = Some s' \<and> lf_ok s' \<and> lf_items s' = lf_items s \<and> snd s' = length (lf_items s) - 1"
    using o by (simp add: LevelFileNumIterator_def lf_items_def lf_ok_def fi)
  show "\<exists>s'. it_Seek LevelFileNumIterator t s = Some s' \<and> lf_ok s' \<and> lf_items s' = lf_items s \<and> snd s' = lower icmp (lf_items s) t"
    if "ikey_ok t" for t
    using o FindFile [OF o(1) that]
    by (simp add: LevelFileNumIterator_def lf_items_def lf_ok_def fi lower_files length_takeWhile_le)
  show "\<exists>s'. it_Next LevelFileNumIterator s = Some s' \<and> lf_ok s' \<and> lf_items s' = lf_items s \<and> snd s' = Suc (snd s)"
    if "snd s < length (lf_items s)" using that o by (simp add: LevelFileNumIterator_def lf_items_def lf_ok_def fi)
  show "\<exists>s'. it_Prev LevelFileNumIterator s = Some s' \<and> lf_ok s' \<and> lf_items s' = lf_items s \<and>
      snd s' = (if snd s = 0 then length (lf_items s) else snd s - 1)"
    if "snd s < length (lf_items s)" using that o by (auto simp: LevelFileNumIterator_def lf_items_def lf_ok_def fi)
qed

sublocale write_iter \<subseteq> levels: two_level ikey_ok icmp LevelFileNumIterator lf_ok lf_items snd I ok items pos "GetFileIterator open_table"
  for open_table :: "64 word \<Rightarrow> 64 word \<Rightarrow> 'it option"
  by (rule two_level.intro) (rule level_files.sorted_iter_axioms, rule sorted_iter_axioms)

section \<open>Dispatch\<close>

lemma either_sorted:
  assumes "sorted_iter v c A okA itemsA posA" "sorted_iter v c B okB itemsB posB"
  shows "sorted_iter v c (either_iterator A B) (case_sum okA okB) (case_sum itemsA itemsB) (case_sum posA posB)"
proof -
  let ?J = "either_iterator A B" and ?ok = "case_sum okA okB" and ?it = "case_sum itemsA itemsB" and ?pos = "case_sum posA posB"
  note a = sorted_iter.ascends [OF assms(1)] sorted_iter.valid_iff [OF assms(1)] sorted_iter.reads [OF assms(1)]
    sorted_iter.seek_first [OF assms(1)] sorted_iter.seek_last [OF assms(1)] sorted_iter.seek [OF assms(1)]
    sorted_iter.step [OF assms(1)] sorted_iter.step_back [OF assms(1)]
  note b = sorted_iter.ascends [OF assms(2)] sorted_iter.valid_iff [OF assms(2)] sorted_iter.reads [OF assms(2)]
    sorted_iter.seek_first [OF assms(2)] sorted_iter.seek_last [OF assms(2)] sorted_iter.seek [OF assms(2)]
    sorted_iter.step [OF assms(2)] sorted_iter.step_back [OF assms(2)]
  have k: "key_order v c" using assms(1) by (simp add: sorted_iter_def)
  show ?thesis
  proof (rule sorted_iter.intro [OF k], rule sorted_iter_axioms.intro)
    fix s assume s: "?ok s"
    show "sorted_wrt (\<lambda>x y. c (fst x) (fst y) < 0) (?it s) \<and> (\<forall>e \<in> set (?it s). v (fst e))"
      using s a(1) b(1) by (cases s) simp_all
    show "it_Valid ?J s \<longleftrightarrow> ?pos s < length (?it s)" using s a(2) b(2) by (cases s) (simp_all add: either_iterator_def)
    show "it_key ?J s = Some (fst (?it s ! ?pos s)) \<and> it_value ?J s = Some (snd (?it s ! ?pos s))" if "?pos s < length (?it s)"
      using s that a(3) b(3) by (cases s) (simp_all add: either_iterator_def)
    have lift: "\<exists>s'. case_sum (map_option Inl \<circ> f) (map_option Inr \<circ> g) s = Some s' \<and> ?ok s' \<and> ?it s' = ?it s \<and> ?pos s' = n"
      if "\<And>x. s = Inl x \<Longrightarrow> \<exists>x'. f x = Some x' \<and> okA x' \<and> itemsA x' = itemsA x \<and> posA x' = n"
        "\<And>y. s = Inr y \<Longrightarrow> \<exists>y'. g y = Some y' \<and> okB y' \<and> itemsB y' = itemsB y \<and> posB y' = n" for f g n
    proof (cases s)
      case (Inl x)
      then show ?thesis using that(1) [OF Inl] by auto
    next
      case (Inr y)
      then show ?thesis using that(2) [OF Inr] by auto
    qed
    show "\<exists>s'. it_SeekToFirst ?J s = Some s' \<and> ?ok s' \<and> ?it s' = ?it s \<and> ?pos s' = 0"
      unfolding either_iterator_def Iterator.simps by (rule lift) (use s a(4) b(4) in simp_all)
    show "\<exists>s'. it_SeekToLast ?J s = Some s' \<and> ?ok s' \<and> ?it s' = ?it s \<and> ?pos s' = length (?it s) - 1"
      unfolding either_iterator_def Iterator.simps by (rule lift) (use s a(5) b(5) in simp_all)
    show "\<exists>s'. it_Seek ?J t s = Some s' \<and> ?ok s' \<and> ?it s' = ?it s \<and> ?pos s' = lower c (?it s) t" if "v t" for t
      unfolding either_iterator_def Iterator.simps by (rule lift) (use s that a(6) b(6) in simp_all)
    show "\<exists>s'. it_Next ?J s = Some s' \<and> ?ok s' \<and> ?it s' = ?it s \<and> ?pos s' = Suc (?pos s)" if "?pos s < length (?it s)"
      unfolding either_iterator_def Iterator.simps by (rule lift) (use s that a(7) b(7) in simp_all)
    show "\<exists>s'. it_Prev ?J s = Some s' \<and> ?ok s' \<and> ?it s' = ?it s \<and> ?pos s' = (if ?pos s = 0 then length (?it s) else ?pos s - 1)"
      if "?pos s < length (?it s)"
      unfolding either_iterator_def Iterator.simps
    proof (rule lift)
      fix x assume x: "s = Inl x"
      show "\<exists>x'. it_Prev A x = Some x' \<and> okA x' \<and> itemsA x' = itemsA x \<and> posA x' = (if ?pos s = 0 then length (?it s) else ?pos s - 1)"
        using s that unfolding x sum.case by (rule a(8))
    next
      fix y assume y: "s = Inr y"
      show "\<exists>y'. it_Prev B y = Some y' \<and> okB y' \<and> itemsB y' = itemsB y \<and> posB y' = (if ?pos s = 0 then length (?it s) else ?pos s - 1)"
        using s that unfolding y sum.case by (rule b(8))
    qed
  qed
qed

section \<open>Properties\<close>

text \<open>C9. The test whether a range of user keys overlaps some file of a level gives, by binary search over the sorted
  disjoint files of a deeper level, the same answer as the linear test over all files, which is that some file's
  range of user keys meets the given one.\<close>

theorem overlap_search:
  assumes "level_sorted fs" "length small + 8 < 2 ^ 32"
  shows "SomeFileOverlapsRange True fs (Some small) (Some large) = SomeFileOverlapsRange False fs (Some small) (Some large) \<and>
    (SomeFileOverlapsRange True fs (Some small) (Some large) \<longleftrightarrow>
      (\<exists>f \<in> set fs. small \<le> largest_user f \<and> smallest_user f \<le> large))"
  using SomeFileOverlapsRange [of True fs small large] SomeFileOverlapsRange [of False fs small large] assms
  by (simp_all add: touches_def)

definition demo_write :: "slice \<Rightarrow> 64 word \<Rightarrow> mem_write" where
  "demo_write k s = (\<lparr>user_key = k, sequence_no = s, val_type = kTypeValue\<rparr>, [1])"

definition demo_file :: "64 word \<Rightarrow> slice \<Rightarrow> slice \<Rightarrow> FileMetaData" where
  "demo_file n a b = \<lparr>allowed_seeks = 100, fnumber = n, file_entry = 2, file_size = 64, smallest = write_ikey (demo_write a 5),
     largest = write_ikey (demo_write b 4)\<rparr>"

lemma demo_write_ok: "length k < 100 \<Longrightarrow> s \<le> kMaxSequenceNumber \<Longrightarrow> write_ok (demo_write k s)"
  by (simp add: demo_write_def write_ok_def)

lemma demo_file_ok: "a < b \<Longrightarrow> length a < 100 \<Longrightarrow> length b < 100 \<Longrightarrow> file_ok (demo_file n a b)"
  unfolding file_ok_def
  by (rule exI [of _ "demo_write a 5"], rule exI [of _ "demo_write b 4"])
    (simp add: demo_file_def demo_write_ok kMaxSequenceNumber_def version_less_def, simp add: demo_write_def)

lemma demo_bounds [simp]: "smallest_user (demo_file n a b) = a" "largest_user (demo_file n a b) = b"
  by (simp_all add: demo_file_def demo_write_def)

lemma demo_level: "level_sorted [demo_file 1 [10] [20], demo_file 2 [30] [40]]"
  by (simp add: level_sorted_def demo_file_ok)

theorem overlap_search_witness:
  "SomeFileOverlapsRange True [demo_file 1 [10] [20], demo_file 2 [30] [40]] (Some [21]) (Some [30]) \<and>
   \<not> SomeFileOverlapsRange True [demo_file 1 [10] [20], demo_file 2 [30] [40]] (Some [21]) (Some [29])"
  using conjunct2 [OF overlap_search [OF demo_level, of "[21]" "[30]"]] conjunct2 [OF overlap_search [OF demo_level, of "[21]" "[29]"]]
  by simp

text \<open>C8. The files \<^verbatim>\<open>GetOverlappingInputs\<close> selects at a level are those whose user keys meet a range: at a deeper level the
  range asked for; at level 0, where the files may overlap each other, the least range around it that no
  selected file reaches out of. The search ends, also with its restarts.\<close>

theorem get_overlapping_inputs:
  assumes "level < kNumLevels"
  shows "\<exists>b e. GetOverlappingInputs s level (Some begin_key) (Some end_key) =
      Some (filter (\<lambda>f. b \<le> largest_user f \<and> smallest_user f \<le> e) (files s level)) \<and>
    b \<le> pure_key begin_key \<and> pure_key end_key \<le> e \<and>
    (level > 0 \<longrightarrow> b = pure_key begin_key \<and> e = pure_key end_key) \<and>
    (level = 0 \<longrightarrow> closed_range (files s 0) b e \<and>
       (\<forall>b2 e2. b2 \<le> pure_key begin_key \<longrightarrow> pure_key end_key \<le> e2 \<longrightarrow> closed_range (files s 0) b2 e2 \<longrightarrow> b2 \<le> b \<and> e \<le> e2))"
proof (cases "level = 0")
  case True
  obtain b e where "b \<le> pure_key begin_key" "pure_key end_key \<le> e"
    "overlap_loop 0 (files s 0) (Some (pure_key begin_key)) (Some (pure_key end_key)) 0 [] = filter (touches b e) (files s 0)"
    "closed_range (files s 0) b e"
    "\<forall>b2 e2. b2 \<le> pure_key begin_key \<longrightarrow> pure_key end_key \<le> e2 \<longrightarrow> closed_range (files s 0) b2 e2 \<longrightarrow> b2 \<le> b \<and> e \<le> e2"
    using overlap_loop_top [of "[]" "pure_key begin_key" "pure_key end_key" 0 "files s 0"] by (auto simp: closed_range_def)
  then show ?thesis using True assms
    by (intro exI [of _ b] exI [of _ e]) (simp add: GetOverlappingInputs_def touches_def [abs_def])
next
  case False
  then show ?thesis using assms overlap_loop_deep [of level "files s level"]
    by (intro exI [of _ "pure_key begin_key"] exI [of _ "pure_key end_key"])
      (simp add: GetOverlappingInputs_def not_less)
qed

definition demo_lsmt :: lsmt where
  "demo_lsmt = (new_LevelDBLSMT 10 1000 4 kStandalone 4)\<lparr>files := (\<lambda>_. [])(0 := [demo_file 3 [10] [20], demo_file 4 [15] [30], demo_file 5 [40] [50]])\<rparr>"

theorem get_overlapping_inputs_witness:
  "\<exists>b e. GetOverlappingInputs demo_lsmt 0 (Some (write_ikey (demo_write [12] 1))) (Some (write_ikey (demo_write [13] 1))) =
      Some (filter (\<lambda>f. b \<le> largest_user f \<and> smallest_user f \<le> e) (files demo_lsmt 0)) \<and> closed_range (files demo_lsmt 0) b e \<and>
    GetOverlappingInputs demo_lsmt 0 (Some (write_ikey (demo_write [12] 1))) (Some (write_ikey (demo_write [13] 1))) =
      Some [demo_file 3 [10] [20], demo_file 4 [15] [30]]"
proof -
  let ?G = "GetOverlappingInputs demo_lsmt 0 (Some (write_ikey (demo_write [12] 1))) (Some (write_ikey (demo_write [13] 1)))"
  have G: "?G = Some [demo_file 3 [10] [20], demo_file 4 [15] [30]]"
    by (simp add: GetOverlappingInputs_def kNumLevels_def demo_lsmt_def demo_write_def overlap_loop.simps)
  show ?thesis using get_overlapping_inputs [of 0 demo_lsmt "write_ikey (demo_write [12] 1)" "write_ikey (demo_write [13] 1)"] G
    by (auto simp: kNumLevels_def)
qed

end
