(* ===== verification/CompactionCorrect.thy ===== *)
theory CompactionCorrect
  imports Compaction LsmtCorrect
begin

text \<open>
  What a compaction writes. Over a sorted run of versions the loop keeps the newest version of every user key, and
  drops it too when it is a deletion and no deeper level has the key in the range of a file; the kept entries
  appear in order in nonempty output files whose bounds are their first and last keys, and no output file
  reaches across a pivot of the page it is written for.
\<close>

section \<open>Deeper levels\<close>

lemma base_level_loop:
  assumes "level_sorted fs" "\<forall>i < ptr. i < length fs \<longrightarrow> largest_user (fs ! i) < k"
  shows "snd (base_level_loop fs k ptr) \<longleftrightarrow> (\<exists>f \<in> set fs. touches k k f)"
    "\<forall>i < fst (base_level_loop fs k ptr). i < length fs \<longrightarrow> largest_user (fs ! i) < k"
proof -
  have "(snd (base_level_loop fs k ptr) \<longleftrightarrow> (\<exists>f \<in> set fs. touches k k f)) \<and>
    (\<forall>i < fst (base_level_loop fs k ptr). i < length fs \<longrightarrow> largest_user (fs ! i) < k)"
    using assms
  proof (induction fs k ptr rule: base_level_loop.induct)
    case (1 fs k ptr)
    show ?case
    proof (cases "ptr < length fs")
      case False
      then have "\<not> (\<exists>f \<in> set fs. touches k k f)" using 1(3) by (auto simp: touches_def in_set_conv_nth not_le)
      moreover have "base_level_loop fs k ptr = (ptr, False)" using False by (subst base_level_loop.simps) simp
      ultimately show ?thesis using 1(3) by simp
    next
      case True
      let ?f = "fs ! ptr"
      show ?thesis
      proof (cases "k \<le> largest_user ?f")
        case k: True
        have e: "base_level_loop fs k ptr = (ptr, smallest_user ?f \<le> k)"
          using True k by (subst base_level_loop.simps) (simp add: Bytewise_Compare_def)
        have "smallest_user ?f \<le> k" if "i < length fs" "touches k k (fs ! i)" for i
        proof -
          have "ptr \<le> i" using that 1(3) by (auto simp: touches_def not_le [symmetric])
          moreover have "smallest_user ?f \<le> k" if "ptr < i"
            using level_sorted_nth(1) [OF 1(2) that] \<open>i < length fs\<close> \<open>touches k k (fs ! i)\<close> k by (auto simp: touches_def)
          ultimately show ?thesis using that(2) by (cases "ptr = i") (auto simp: touches_def)
        qed
        moreover have "\<exists>f \<in> set fs. touches k k f" if "smallest_user ?f \<le> k"
          using that k True by (intro bexI [of _ ?f]) (simp_all add: touches_def)
        ultimately have "smallest_user ?f \<le> k \<longleftrightarrow> (\<exists>f \<in> set fs. touches k k f)" by (auto simp: in_set_conv_nth)
        then show ?thesis unfolding e using 1(3) by simp
      next
        case False
        have e: "base_level_loop fs k ptr = base_level_loop fs k (ptr + 1)"
          using True False by (subst base_level_loop.simps) (simp add: Bytewise_Compare_def)
        have "\<forall>i < ptr + 1. i < length fs \<longrightarrow> largest_user (fs ! i) < k" using 1(3) False by (auto simp: less_Suc_eq)
        then show ?thesis unfolding e using 1(1) [OF True refl _ 1(2)] False by (simp add: Bytewise_Compare_def)
      qed
    qed
  qed
  then show "snd (base_level_loop fs k ptr) \<longleftrightarrow> (\<exists>f \<in> set fs. touches k k f)"
    "\<forall>i < fst (base_level_loop fs k ptr). i < length fs \<longrightarrow> largest_user (fs ! i) < k" by simp_all
qed

definition ptrs_ok :: "(nat \<Rightarrow> FileMetaData list) \<Rightarrow> (nat \<Rightarrow> nat) \<Rightarrow> slice \<Rightarrow> bool" where
  "ptrs_ok F ptrs k \<longleftrightarrow> (\<forall>lvl. \<forall>i < ptrs lvl. i < length (F lvl) \<longrightarrow> largest_user (F lvl ! i) < k)"

lemma ptrs_ok_mono: "ptrs_ok F ptrs k \<Longrightarrow> k \<le> k' \<Longrightarrow> ptrs_ok F ptrs k'"
  by (meson ptrs_ok_def order.strict_trans2)

lemma base_levels:
  assumes "\<forall>lvl \<in> set lvls. level_sorted (F lvl)" "ptrs_ok F ptrs k"
  shows "(fst (base_levels F k lvls ptrs) \<longleftrightarrow> (\<forall>lvl \<in> set lvls. \<forall>f \<in> set (F lvl). \<not> touches k k f)) \<and>
    ptrs_ok F (snd (base_levels F k lvls ptrs)) k"
  using assms
proof (induction lvls arbitrary: ptrs)
  case (Cons lvl lvls)
  have p: "\<forall>i < ptrs lvl. i < length (F lvl) \<longrightarrow> largest_user (F lvl ! i) < k" using Cons.prems(2) by (simp add: ptrs_ok_def)
  have l: "level_sorted (F lvl)" using Cons.prems(1) by simp
  obtain ptr inside where b: "base_level_loop (F lvl) k (ptrs lvl) = (ptr, inside)" by (cases "base_level_loop (F lvl) k (ptrs lvl)")
  note B = base_level_loop [OF l p, unfolded b fst_conv snd_conv]
  define q where "q = ptrs(lvl := ptr)"
  have q: "ptrs_ok F q k" using Cons.prems(2) B(2) by (simp add: ptrs_ok_def q_def)
  have e: "base_levels F k (lvl # lvls) ptrs = (if inside then (False, q) else base_levels F k lvls q)" by (simp add: b q_def)
  show ?case unfolding e using Cons.IH [OF _ q] Cons.prems(1) B(1) q by (cases inside) auto
qed simp

text \<open>No file of the deeper levels has the key in its range.\<close>

definition base_key :: "lsmt \<Rightarrow> nat \<Rightarrow> slice \<Rightarrow> bool" where
  "base_key s level k \<longleftrightarrow> (\<forall>lvl. level + 2 \<le> lvl \<and> lvl < kNumLevels \<longrightarrow> (\<forall>f \<in> set (files s lvl). \<not> touches k k f))"

lemma IsBaseLevelForKey:
  assumes "\<forall>lvl. level_sorted (files s lvl) \<or> lvl = 0" "ptrs_ok (files s) (level_ptrs c) k"
  shows "fst (IsBaseLevelForKey s k (int kNumLevels) c) \<longleftrightarrow> base_key s (c_level c) k"
    "ptrs_ok (files s) (level_ptrs (snd (IsBaseLevelForKey s k (int kNumLevels) c))) k"
    "c_level (snd (IsBaseLevelForKey s k (int kNumLevels) c)) = c_level c"
proof -
  have l: "\<forall>lvl \<in> set [c_level c + 2..<kNumLevels]. level_sorted (files s lvl)" using assms(1) by auto
  note B = base_levels [OF l assms(2), THEN conjunct1] base_levels [OF l assms(2), THEN conjunct2]
  have e: "IsBaseLevelForKey s k (int kNumLevels) c =
    (fst (base_levels (files s) k [c_level c + 2..<kNumLevels] (level_ptrs c)),
     c\<lparr>level_ptrs := snd (base_levels (files s) k [c_level c + 2..<kNumLevels] (level_ptrs c))\<rparr>)"
    by (simp add: IsBaseLevelForKey_def kNumLevels_def split_beta)
  show "fst (IsBaseLevelForKey s k (int kNumLevels) c) \<longleftrightarrow> base_key s (c_level c) k"
    using B(1) unfolding e by (auto simp: base_key_def)
  show "ptrs_ok (files s) (level_ptrs (snd (IsBaseLevelForKey s k (int kNumLevels) c))) k" using B(2) unfolding e by simp
  show "c_level (snd (IsBaseLevelForKey s k (int kNumLevels) c)) = c_level c" unfolding e by simp
qed

lemma ShouldStopBefore_same:
  "level_ptrs (snd (ShouldStopBefore s k c)) = level_ptrs c" "c_level (snd (ShouldStopBefore s k c)) = c_level c"
proof -
  have "level_ptrs (stop_loop k c) = level_ptrs c \<and> c_level (stop_loop k c) = c_level c"
  proof (induction k c rule: stop_loop.induct)
    case (1 k c)
    show ?case using 1 by (subst (1 2) stop_loop.simps) auto
  qed
  then show "level_ptrs (snd (ShouldStopBefore s k c)) = level_ptrs c" "c_level (snd (ShouldStopBefore s k c)) = c_level c"
    by (simp_all add: ShouldStopBefore_def Let_def)
qed

section \<open>Output files\<close>

definition out_ok :: "Output \<Rightarrow> bool" where
  "out_ok out \<longleftrightarrow> o_entries out \<noteq> [] \<and> o_smallest out = fst (hd (o_entries out)) \<and> o_largest out = fst (last (o_entries out))"

text \<open>All files written so far, the open one last.\<close>

definition all_outputs :: "work \<Rightarrow> Output list" where
  "all_outputs w = w_outputs w @ (case w_builder w of None \<Rightarrow> [] | Some out \<Rightarrow> [out])"

definition emitted :: "work \<Rightarrow> (slice \<times> slice) list" where
  "emitted w = concat (map o_entries (all_outputs w))"

text \<open>The files are well formed and their numbers count up from the one the work started with.\<close>

definition work_ok :: "64 word \<Rightarrow> work \<Rightarrow> bool" where
  "work_ok fid w \<longleftrightarrow> (\<forall>out \<in> set (all_outputs w). out_ok out) \<and>
     map o_number (all_outputs w) = map (\<lambda>i. fid + 2 * of_nat (Suc i)) [0..<length (all_outputs w)] \<and>
     w_file_id w = fid + 2 * of_nat (length (all_outputs w))"

lemma Finish_same:
  "all_outputs (FinishCompactionOutputFile w) = all_outputs w" "w_builder (FinishCompactionOutputFile w) = None"
  "w_compaction (FinishCompactionOutputFile w) = w_compaction w" "current_user_key (FinishCompactionOutputFile w) = current_user_key w"
  "last_sequence_for_key (FinishCompactionOutputFile w) = last_sequence_for_key w"
  "ikey_user_key (FinishCompactionOutputFile w) = ikey_user_key w" "guard_idx (FinishCompactionOutputFile w) = guard_idx w"
  "w_file_id (FinishCompactionOutputFile w) = w_file_id w" "w_outputs (FinishCompactionOutputFile w) = all_outputs w"
  by (simp_all add: FinishCompactionOutputFile_def all_outputs_def split: option.splits)

lemma work_ok_Finish: "work_ok fid (FinishCompactionOutputFile w) = work_ok fid w"
  by (simp add: work_ok_def Finish_same)

text \<open>What \<^const>\<open>stop_before\<close> and \<^const>\<open>guard_step\<close> leave alone.\<close>

lemma stop_before_same:
  "all_outputs (stop_before s k w) = all_outputs w" "w_file_id (stop_before s k w) = w_file_id w"
  "current_user_key (stop_before s k w) = current_user_key w" "last_sequence_for_key (stop_before s k w) = last_sequence_for_key w"
  "ikey_user_key (stop_before s k w) = ikey_user_key w" "guard_idx (stop_before s k w) = guard_idx w"
  "w_compaction (stop_before s k w) = map_option (\<lambda>c. snd (ShouldStopBefore s k c)) (w_compaction w)"
proof -
  have a: "all_outputs (w\<lparr>w_compaction := x\<rparr>) = all_outputs w" for x by (simp add: all_outputs_def)
  show "all_outputs (stop_before s k w) = all_outputs w" "w_file_id (stop_before s k w) = w_file_id w"
    "current_user_key (stop_before s k w) = current_user_key w" "last_sequence_for_key (stop_before s k w) = last_sequence_for_key w"
    "ikey_user_key (stop_before s k w) = ikey_user_key w" "guard_idx (stop_before s k w) = guard_idx w"
    "w_compaction (stop_before s k w) = map_option (\<lambda>c. snd (ShouldStopBefore s k c)) (w_compaction w)"
    by (cases "w_compaction w"; simp add: stop_before_def Finish_same split_beta Let_def a)+
qed

lemma guard_step_same:
  "all_outputs (guard_step gs w) = all_outputs w" "w_file_id (guard_step gs w) = w_file_id w"
  "current_user_key (guard_step gs w) = current_user_key w" "last_sequence_for_key (guard_step gs w) = last_sequence_for_key w"
  "ikey_user_key (guard_step gs w) = ikey_user_key w" "w_compaction (guard_step gs w) = w_compaction w"
proof -
  have a: "all_outputs (w\<lparr>guard_idx := x\<rparr>) = all_outputs w" for w x by (simp add: all_outputs_def)
  show "all_outputs (guard_step gs w) = all_outputs w" "w_file_id (guard_step gs w) = w_file_id w"
    "current_user_key (guard_step gs w) = current_user_key w" "last_sequence_for_key (guard_step gs w) = last_sequence_for_key w"
    "ikey_user_key (guard_step gs w) = ikey_user_key w" "w_compaction (guard_step gs w) = w_compaction w"
    by (simp_all add: guard_step_def Let_def Finish_same a)
qed

text \<open>The part of \<^const>\<open>add_entry\<close> after the guard test.\<close>

definition put_entry :: "slice \<Rightarrow> slice \<Rightarrow> work \<Rightarrow> work" where
  "put_entry key val w =
     (let w2 = (if w_builder w = None then OpenCompactionOutputFile w else w) in
      w2\<lparr>w_builder := map_option (builder_Add key val) (w_builder w2)\<rparr>)"

lemma add_entry_put:
  "add_entry cs mx gs key val w =
     (let w3 = put_entry key val (guard_step gs w) in
      if gs = [] \<and> (case w_builder w3 of None \<Rightarrow> False | Some out \<Rightarrow> cs (o_entries out) \<ge> mx)
      then FinishCompactionOutputFile w3 else w3)"
  by (simp add: add_entry_def put_entry_def Let_def)

lemma put_entry_ok:
  assumes "work_ok fid w"
  shows "work_ok fid (put_entry key val w)" "emitted (put_entry key val w) = emitted w @ [(key, val)]"
    "length (all_outputs (put_entry key val w)) \<le> Suc (length (all_outputs w))"
proof -
  have "work_ok fid (put_entry key val w) \<and> emitted (put_entry key val w) = emitted w @ [(key, val)] \<and>
    length (all_outputs (put_entry key val w)) \<le> Suc (length (all_outputs w))"
  proof (cases "w_builder w")
    case None
    then show ?thesis using assms
      by (simp add: work_ok_def emitted_def all_outputs_def put_entry_def OpenCompactionOutputFile_def out_ok_def builder_Add_def Let_def
          algebra_simps)
  next
    case (Some out)
    then have "out_ok out" using assms by (simp add: work_ok_def all_outputs_def)
    then show ?thesis using assms Some
      by (auto simp: work_ok_def emitted_def all_outputs_def put_entry_def out_ok_def builder_Add_def Let_def)
  qed
  then show "work_ok fid (put_entry key val w)" "emitted (put_entry key val w) = emitted w @ [(key, val)]"
    "length (all_outputs (put_entry key val w)) \<le> Suc (length (all_outputs w))" by simp_all
qed

lemma put_entry_same:
  "current_user_key (put_entry key val w) = current_user_key w" "last_sequence_for_key (put_entry key val w) = last_sequence_for_key w"
  "ikey_user_key (put_entry key val w) = ikey_user_key w" "w_compaction (put_entry key val w) = w_compaction w"
  "guard_idx (put_entry key val w) = guard_idx w"
  by (simp_all add: put_entry_def OpenCompactionOutputFile_def Let_def)

lemma add_entry_ok:
  assumes "work_ok fid w"
  shows "work_ok fid (add_entry cs mx gs key val w)" "emitted (add_entry cs mx gs key val w) = emitted w @ [(key, val)]"
    "current_user_key (add_entry cs mx gs key val w) = current_user_key w"
    "last_sequence_for_key (add_entry cs mx gs key val w) = last_sequence_for_key w"
    "w_compaction (add_entry cs mx gs key val w) = w_compaction w"
proof -
  have g: "work_ok fid (guard_step gs w)" using assms by (simp add: work_ok_def guard_step_same)
  note P = put_entry_ok [OF g, of key val]
  show "work_ok fid (add_entry cs mx gs key val w)"
    using P(1) by (auto simp: add_entry_put Let_def work_ok_Finish)
  show "emitted (add_entry cs mx gs key val w) = emitted w @ [(key, val)]"
    using P(2) by (auto simp: add_entry_put Let_def emitted_def Finish_same guard_step_same)
  show "current_user_key (add_entry cs mx gs key val w) = current_user_key w"
    "last_sequence_for_key (add_entry cs mx gs key val w) = last_sequence_for_key w"
    "w_compaction (add_entry cs mx gs key val w) = w_compaction w"
    by (simp_all add: add_entry_put Let_def Finish_same guard_step_same put_entry_same)
qed

section \<open>The entries kept\<close>

fun kept :: "(slice \<Rightarrow> bool) \<Rightarrow> slice option \<Rightarrow> mem_write list \<Rightarrow> mem_write list" where
  "kept base cur [] = []"
| "kept base cur (w # ws) =
     (if cur = Some (ukey w) then kept base cur ws
      else if val_type (fst w) = kTypeDeletion \<and> base (ukey w) then kept base (Some (ukey w)) ws
      else w # kept base (Some (ukey w)) ws)"

text \<open>The keys the deeper levels are asked about; a compaction of a whole tree drops every deletion.\<close>

definition drop_base :: "lsmt \<Rightarrow> LevelDBCompaction option \<Rightarrow> slice \<Rightarrow> bool" where
  "drop_base s c k = (case c of None \<Rightarrow> True | Some c \<Rightarrow> base_key s (c_level c) k)"

definition seen_ok :: "lsmt \<Rightarrow> LevelDBCompaction option \<Rightarrow> slice option \<Rightarrow> slice \<Rightarrow> work \<Rightarrow> bool" where
  "seen_ok s c cur k w \<longleftrightarrow> current_user_key w = cur \<and> (cur \<noteq> None \<longrightarrow> last_sequence_for_key w < kMaxSequenceNumber) \<and>
     (case (c, w_compaction w) of (None, None) \<Rightarrow> True
      | (Some c0, Some c1) \<Rightarrow> c_level c1 = c_level c0 \<and> ptrs_ok (files s) (level_ptrs c1) k | _ \<Rightarrow> False)"

lemma judge_drop_write:
  assumes "write_ok v" "sequence_no (fst v) < kMaxSequenceNumber" "seen_ok s c cur (ukey v) w"
    and l: "\<forall>lvl. level_sorted (files s lvl) \<or> lvl = 0"
  obtains w' where "judge_drop s (write_ikey v) w =
      (cur = Some (ukey v) \<or> val_type (fst v) = kTypeDeletion \<and> drop_base s c (ukey v), w')"
    "seen_ok s c (Some (ukey v)) (ukey v) w'" "all_outputs w' = all_outputs w" "w_file_id w' = w_file_id w"
    "guard_idx w' = guard_idx w" "ikey_user_key w' = ukey v" "w_builder w' = w_builder w"
proof -
  note P = ParseInternalKey_write(1) [OF assms(1)]
  have cur: "current_user_key w = cur" "cur \<noteq> None \<longrightarrow> last_sequence_for_key w < kMaxSequenceNumber" using assms(3) by (simp_all add: seen_ok_def)
  have first: "(case current_user_key w of None \<Rightarrow> True | Some u \<Rightarrow> ucmp (ukey v) u \<noteq> 0) \<longleftrightarrow> cur \<noteq> Some (ukey v)"
    by (cases cur) (auto simp: cur(1) Bytewise_Compare_def)
  let ?w1 = "w\<lparr>current_user_key := Some (ukey v), last_sequence_for_key := sequence_no (fst v), ikey_user_key := ukey v\<rparr>"
  have k: "(if cur \<noteq> Some (ukey v) then Some (ukey v) else current_user_key w) = Some (ukey v)" using cur(1) by simp
  have J: "judge_drop s (write_ikey v) w =
    (if cur = Some (ukey v) then (True, ?w1)
     else if val_type (fst v) = kTypeDeletion then
       (case w_compaction w of
          None \<Rightarrow> (True, ?w1)
        | Some c1 \<Rightarrow> (fst (IsBaseLevelForKey s (ukey v) (int kNumLevels) c1),
            ?w1\<lparr>w_compaction := Some (snd (IsBaseLevelForKey s (ukey v) (int kNumLevels) c1))\<rparr>))
     else (False, ?w1))"
    unfolding judge_drop_def P option.case Let_def first k using cur(2)
    by (auto simp: split_beta split: option.split)
  have s1: "seen_ok s c (Some (ukey v)) (ukey v) ?w1" "all_outputs ?w1 = all_outputs w"
    using assms(2,3) by (simp_all add: seen_ok_def all_outputs_def)
  show thesis
  proof (cases "cur \<noteq> Some (ukey v) \<and> val_type (fst v) = kTypeDeletion \<and> c \<noteq> None")
    case False
    then show thesis using J s1 assms(3) that [of ?w1]
      by (auto simp: drop_base_def seen_ok_def split: option.splits)
  next
    case True
    then obtain c0 c1 where c: "c = Some c0" "w_compaction w = Some c1" "c_level c1 = c_level c0" "ptrs_ok (files s) (level_ptrs c1) (ukey v)"
      using assms(3) by (auto simp: seen_ok_def split: option.splits)
    note B = IsBaseLevelForKey [OF l c(4)]
    let ?w2 = "?w1\<lparr>w_compaction := Some (snd (IsBaseLevelForKey s (ukey v) (int kNumLevels) c1))\<rparr>"
    have "seen_ok s c (Some (ukey v)) (ukey v) ?w2" "all_outputs ?w2 = all_outputs w"
      using s1 c(1,3) B by (simp_all add: seen_ok_def all_outputs_def)
    then show thesis using J c True B(1) that [of ?w2] by (simp add: drop_base_def)
  qed
qed

lemma seen_ok_stop:
  assumes "seen_ok s c cur k w" "k \<le> k'"
  shows "seen_ok s c cur k' (stop_before s key w)"
  using assms ptrs_ok_mono [of "files s" _ k k']
  by (cases c; cases "w_compaction w") (simp_all add: seen_ok_def stop_before_same ShouldStopBefore_same)

definition runs :: "lsmt \<Rightarrow> ((slice \<times> slice) list \<Rightarrow> 64 word) \<Rightarrow> 64 word \<Rightarrow> slice list \<Rightarrow> work \<Rightarrow> (slice \<times> slice) list \<Rightarrow> work" where
  "runs s cs mx gs w es = foldl (\<lambda>w e. compact_entry s cs mx gs e w) w es"

lemma runs_simps [simp]:
  "runs s cs mx gs w [] = w" "runs s cs mx gs w (e # es) = runs s cs mx gs (compact_entry s cs mx gs e w) es"
  by (simp_all add: runs_def)

lemma compact_entry_write:
  assumes v: "write_ok v" "sequence_no (fst v) < kMaxSequenceNumber" "seen_ok s c cur k w" "k \<le> ukey v" "work_ok fid w"
    and l: "\<forall>lvl. level_sorted (files s lvl) \<or> lvl = 0"
  shows "seen_ok s c (Some (ukey v)) (ukey v) (compact_entry s cs mx gs (item_of v) w)"
    "work_ok fid (compact_entry s cs mx gs (item_of v) w)"
    "emitted (compact_entry s cs mx gs (item_of v) w) = emitted w @
       (if cur = Some (ukey v) \<or> val_type (fst v) = kTypeDeletion \<and> drop_base s c (ukey v) then [] else [item_of v])"
proof -
  let ?w0 = "stop_before s (write_ikey v) w"
  obtain w' where w': "judge_drop s (write_ikey v) ?w0 =
      (cur = Some (ukey v) \<or> val_type (fst v) = kTypeDeletion \<and> drop_base s c (ukey v), w')"
    "seen_ok s c (Some (ukey v)) (ukey v) w'" "all_outputs w' = all_outputs ?w0" "w_file_id w' = w_file_id ?w0"
    using judge_drop_write [OF v(1,2) seen_ok_stop [OF v(3,4)] l] by metis
  have ok: "work_ok fid w'" and em: "emitted w' = emitted w"
    using v(5) w'(3,4) by (simp_all add: work_ok_def emitted_def stop_before_same)
  note A = add_entry_ok [OF ok, of cs mx gs "write_ikey v" "snd v"]
  have E: "compact_entry s cs mx gs (item_of v) w =
    (if cur = Some (ukey v) \<or> val_type (fst v) = kTypeDeletion \<and> drop_base s c (ukey v) then w'
     else add_entry cs mx gs (write_ikey v) (snd v) w')"
    using w'(1) by (simp add: compact_entry_def item_of_def)
  show "seen_ok s c (Some (ukey v)) (ukey v) (compact_entry s cs mx gs (item_of v) w)"
    using w'(2) A(3-5) unfolding E by (auto simp: seen_ok_def split: option.splits)
  show "work_ok fid (compact_entry s cs mx gs (item_of v) w)" using ok A(1) unfolding E by simp
  show "emitted (compact_entry s cs mx gs (item_of v) w) = emitted w @
       (if cur = Some (ukey v) \<or> val_type (fst v) = kTypeDeletion \<and> drop_base s c (ukey v) then [] else [item_of v])"
    using em A(2) unfolding E by (simp add: item_of_def)
qed

lemma runs_writes:
  assumes "sorted_wrt version_less ws" "\<forall>v \<in> set ws. write_ok v \<and> sequence_no (fst v) < kMaxSequenceNumber"
    "seen_ok s c cur k w" "\<forall>v \<in> set ws. k \<le> ukey v" "work_ok fid w" and l: "\<forall>lvl. level_sorted (files s lvl) \<or> lvl = 0"
  shows "work_ok fid (runs s cs mx gs w (map item_of ws)) \<and>
    emitted (runs s cs mx gs w (map item_of ws)) = emitted w @ map item_of (kept (drop_base s c) cur ws)"
  using assms(1-5)
proof (induction ws arbitrary: w cur k)
  case (Cons v ws)
  have v: "write_ok v" "sequence_no (fst v) < kMaxSequenceNumber" "k \<le> ukey v" using Cons.prems by simp_all
  note E = compact_entry_write [OF v(1,2) Cons.prems(3) v(3) Cons.prems(5) l, of cs mx gs]
  have "\<forall>u \<in> set ws. ukey v \<le> ukey u" using Cons.prems(1) by (auto simp: version_less_def)
  then have "work_ok fid (runs s cs mx gs (compact_entry s cs mx gs (item_of v) w) (map item_of ws)) \<and>
    emitted (runs s cs mx gs (compact_entry s cs mx gs (item_of v) w) (map item_of ws)) =
      emitted (compact_entry s cs mx gs (item_of v) w) @ map item_of (kept (drop_base s c) (Some (ukey v)) ws)"
    using Cons.IH [OF _ _ E(1) _ E(2)] Cons.prems(1,2) by simp
  then show ?case using E(3) by auto
qed simp

section \<open>What the kept entries show\<close>

abbreviation seq :: "mem_write \<Rightarrow> 64 word" where
  "seq w \<equiv> sequence_no (fst w)"

abbreviation unique_versions :: "mem_write set \<Rightarrow> bool" where
  "unique_versions W \<equiv> inj_on (\<lambda>w. (ukey w, seq w)) W"

lemma kept_subset: "set (kept base cur ws) \<subseteq> set ws"
  by (induction ws arbitrary: cur) auto

lemma set_kept:
  assumes "sorted_wrt version_less ws" "\<forall>w \<in> set ws. write_ok w" "unique_versions (set ws)"
    "\<forall>u. cur = Some u \<longrightarrow> (\<forall>w \<in> set ws. u \<le> ukey w)"
  shows "w \<in> set (kept base cur ws) \<longleftrightarrow> w \<in> set ws \<and> cur \<noteq> Some (ukey w) \<and>
    (\<forall>v \<in> set ws. ukey v = ukey w \<longrightarrow> seq v \<le> seq w) \<and> \<not> (val_type (fst w) = kTypeDeletion \<and> base (ukey w))"
  using assms
proof (induction ws arbitrary: cur)
  case (Cons v ws)
  note O = version_order [OF Cons.prems(1-3)]
  have pre: "sorted_wrt version_less ws" "\<forall>w \<in> set ws. write_ok w" "unique_versions (set ws)"
    using Cons.prems(1-3) by (simp_all add: inj_on_insert)
  have vn: "v \<notin> set ws" using O(2) [of v] by auto
  have IHc: "w \<in> set (kept base cur ws) \<longleftrightarrow> w \<in> set ws \<and> cur \<noteq> Some (ukey w) \<and>
    (\<forall>v \<in> set ws. ukey v = ukey w \<longrightarrow> seq v \<le> seq w) \<and> \<not> (val_type (fst w) = kTypeDeletion \<and> base (ukey w))"
    using Cons.IH [OF pre, of cur] Cons.prems(4) by simp
  have IHv: "w \<in> set (kept base (Some (ukey v)) ws) \<longleftrightarrow> w \<in> set ws \<and> ukey w \<noteq> ukey v \<and>
    (\<forall>v \<in> set ws. ukey v = ukey w \<longrightarrow> seq v \<le> seq w) \<and> \<not> (val_type (fst w) = kTypeDeletion \<and> base (ukey w))"
    using Cons.IH [OF pre, of "Some (ukey v)"] O(1) by auto
  show ?case
  proof (cases "cur = Some (ukey v)")
    case True
    have "cur \<noteq> Some (ukey w) \<Longrightarrow> w \<noteq> v \<and> ukey v \<noteq> ukey w" using True by auto
    then show ?thesis using True IHc by auto
  next
    case False
    have later: "w \<in> set ws \<and> ukey w = ukey v \<Longrightarrow> \<not> seq v \<le> seq w" using O(2) [of w] by auto
    have cw: "w \<in> set ws \<Longrightarrow> cur \<noteq> Some (ukey w)" using Cons.prems(4) False O(1) [of w] by fastforce
    have vmax: "\<forall>u \<in> set ws. ukey u = ukey v \<longrightarrow> seq u \<le> seq v" using O(2) by fastforce
    show ?thesis
    proof (cases "w = v")
      case True
      then show ?thesis using False IHv vmax vn by auto
    next
      case wv: False
      have "w \<in> set (kept base cur (v # ws)) \<longleftrightarrow> w \<in> set (kept base (Some (ukey v)) ws)" using False wv by simp
      also have "\<dots> \<longleftrightarrow> w \<in> set ws \<and> cur \<noteq> Some (ukey w) \<and> (\<forall>u \<in> set (v # ws). ukey u = ukey w \<longrightarrow> seq u \<le> seq w) \<and>
        \<not> (val_type (fst w) = kTypeDeletion \<and> base (ukey w))"
        unfolding IHv using later cw by auto
      finally show ?thesis using wv by simp
    qed
  qed
qed simp

lemma newest_Found:
  "newest W k s (get_result.Found x) \<longleftrightarrow> (\<exists>w \<in> W. ukey w = k \<and> seq w \<le> s \<and> val_type (fst w) = kTypeValue \<and> snd w = x \<and>
     (\<forall>v \<in> W. ukey v = k \<and> seq v \<le> s \<longrightarrow> seq v \<le> seq w))"
proof -
  have r: "get_result.Found x = write_result w \<longleftrightarrow> val_type (fst w) = kTypeValue \<and> snd w = x" for w
    by (auto simp: write_result_def)
  have "newest W k s (get_result.Found x) \<longleftrightarrow>
    (\<exists>w \<in> visible W k s. (\<forall>v \<in> visible W k s. seq v \<le> seq w) \<and> val_type (fst w) = kTypeValue \<and> snd w = x)"
    unfolding newest_def r by simp
  then show ?thesis unfolding visible_def by blast
qed

text \<open>
  Replacing a run by its kept entries does not change what a reader sees, provided the other versions of a
  key that may be dropped altogether are newer.
\<close>

lemma kept_newest:
  assumes ws: "sorted_wrt version_less ws" "\<forall>w \<in> set ws. write_ok w" "unique_versions (set ws)"
    and R: "\<And>v r. v \<in> set ws \<Longrightarrow> base (ukey v) \<Longrightarrow> r \<in> R \<Longrightarrow> ukey r = ukey v \<Longrightarrow> seq v < seq r"
    and s: "\<forall>w \<in> R \<union> set ws. seq w \<le> s"
  shows "newest (R \<union> set (kept base None ws)) k s (get_result.Found x) \<longleftrightarrow> newest (R \<union> set ws) k s (get_result.Found x)"
proof -
  note K = set_kept [OF ws, of None _ base, simplified]
  have sub: "set (kept base None ws) \<subseteq> set ws" by (rule kept_subset)
  let ?max = "\<lambda>W w. \<forall>v \<in> W. ukey v = k \<longrightarrow> seq v \<le> seq w"
  have F: "newest W k s (get_result.Found x) \<longleftrightarrow> (\<exists>w \<in> W. ukey w = k \<and> val_type (fst w) = kTypeValue \<and> snd w = x \<and> ?max W w)"
    if "W \<subseteq> R \<union> set ws" for W using s that by (auto simp: newest_Found)
  have "(\<exists>w \<in> R \<union> set (kept base None ws). ukey w = k \<and> val_type (fst w) = kTypeValue \<and> snd w = x \<and> ?max (R \<union> set (kept base None ws)) w) \<longleftrightarrow>
    (\<exists>w \<in> R \<union> set ws. ukey w = k \<and> val_type (fst w) = kTypeValue \<and> snd w = x \<and> ?max (R \<union> set ws) w)"
    (is "?L \<longleftrightarrow> ?R")
  proof
    assume ?R
    then obtain w where w: "w \<in> R \<union> set ws" "ukey w = k" "val_type (fst w) = kTypeValue" "snd w = x" "?max (R \<union> set ws) w" by blast
    have "w \<in> R \<union> set (kept base None ws)" using w K [of w] by auto
    moreover have "?max (R \<union> set (kept base None ws)) w" using w(5) sub by blast
    ultimately show ?L using w by blast
  next
    assume ?L
    then obtain w where w: "w \<in> R \<union> set (kept base None ws)" "ukey w = k" "val_type (fst w) = kTypeValue" "snd w = x"
      "?max (R \<union> set (kept base None ws)) w" by blast
    have "seq v \<le> seq w" if v: "v \<in> set ws" "ukey v = k" for v
    proof -
      obtain m where m: "m \<in> set ws" "ukey m = k" "\<forall>u \<in> set ws. ukey u = k \<longrightarrow> seq u \<le> seq m"
      proof -
        let ?S = "seq ` {u \<in> set ws. ukey u = k}"
        have "seq v \<in> ?S" using v by (intro imageI) simp
        then have "finite ?S" "?S \<noteq> {}" by auto
        then have mx: "Max ?S \<in> ?S" "\<forall>y \<in> ?S. y \<le> Max ?S" by (simp_all add: Max_in)
        from mx(1) obtain m where m: "Max ?S = seq m" "m \<in> {u \<in> set ws. ukey u = k}" by (rule imageE)
        have "seq u \<le> seq m" if "u \<in> set ws" "ukey u = k" for u
          using mx(2) [rule_format, of "seq u"] that m(1) by (metis (mono_tags, lifting) imageI mem_Collect_eq)
        then show thesis using m(2) by (intro that [of m]) simp_all
      qed
      show ?thesis
      proof (cases "m \<in> set (kept base None ws)")
        case True
        have "seq v \<le> seq m" "seq m \<le> seq w" using m v w(5) True by simp_all
        then show ?thesis by (rule order.trans)
      next
        case False
        then have b: "base k" using K [of m] m by auto
        have "w \<in> R"
        proof (rule ccontr)
          assume "w \<notin> R"
          then have "w \<in> set (kept base None ws)" using w(1) by blast
          then have wm: "w \<in> set ws" "seq m \<le> seq w" using K [of w] m(1,2) w(2) by auto
          then have "seq w = seq m" using m(3) w(2) by (simp add: order_antisym)
          then have "w = m" using ws(3) wm(1) m(1,2) w(2) by (auto simp: inj_on_def)
          then show False using False \<open>w \<in> set (kept base None ws)\<close> by simp
        qed
        then show ?thesis using R [OF v(1)] b v(2) w(2) by (simp add: less_imp_le)
      qed
    qed
    then have "?max (R \<union> set ws) w" using w(5) by blast
    moreover have "w \<in> R \<union> set ws" using w(1) sub by blast
    ultimately show ?R using w by blast
  qed
  then show ?thesis using F [of "R \<union> set (kept base None ws)"] F [of "R \<union> set ws"] sub by blast
qed

section \<open>Guards\<close>

abbreviation ekey :: "slice \<times> slice \<Rightarrow> slice" where
  "ekey e \<equiv> pure_key (fst e)"

text \<open>No pivot but the first separates two keys of the file.\<close>

definition within_guards :: "slice list \<Rightarrow> Output \<Rightarrow> bool" where
  "within_guards gs out \<longleftrightarrow> (\<forall>a \<in> set (o_entries out). \<forall>b \<in> set (o_entries out). \<forall>j. 1 \<le> j \<and> j < length gs \<longrightarrow>
     ekey a < gs ! j \<longrightarrow> ekey b < gs ! j)"

text \<open>The open file starts after the guards passed and, if it has two entries, ends before the next one.\<close>

definition open_file_ok :: "slice list \<Rightarrow> nat \<Rightarrow> slice \<Rightarrow> Output \<Rightarrow> bool" where
  "open_file_ok gs i k out \<longleftrightarrow> o_entries out \<noteq> [] \<and> (\<forall>e \<in> set (o_entries out). ekey e \<le> k) \<and>
     (\<forall>e \<in> set (o_entries out). \<forall>j. 1 \<le> j \<and> j \<le> i \<and> j < length gs \<longrightarrow> gs ! j \<le> ekey e) \<and>
     (2 \<le> length (o_entries out) \<and> i + 1 < length gs \<longrightarrow> (\<forall>e \<in> set (o_entries out). ekey e < gs ! (i + 1)))"

definition guards_inv :: "slice list \<Rightarrow> slice \<Rightarrow> work \<Rightarrow> bool" where
  "guards_inv gs k w \<longleftrightarrow> (\<forall>j. 1 \<le> j \<and> j \<le> guard_idx w \<and> j < length gs \<longrightarrow> gs ! j \<le> k) \<and>
     (\<forall>out \<in> set (w_outputs w). within_guards gs out) \<and> (\<forall>out. w_builder w = Some out \<longrightarrow> open_file_ok gs (guard_idx w) k out)"

lemma open_within:
  assumes "sorted gs" "open_file_ok gs i k out"
  shows "within_guards gs out"
  unfolding within_guards_def
proof (intro ballI allI impI)
  fix a b j
  assume *: "a \<in> set (o_entries out)" "b \<in> set (o_entries out)" "1 \<le> j \<and> j < length gs" "ekey a < gs ! j"
  show "ekey b < gs ! j"
  proof (cases "2 \<le> length (o_entries out)")
    case False
    then obtain e where "o_entries out = [e]"
      using assms(2) by (cases "o_entries out"; cases "tl (o_entries out)") (auto simp: open_file_ok_def)
    then show ?thesis using *(1,2,4) by simp
  next
    case True
    have ij: "i < j" using assms(2) * by (meson leD not_le_imp_less open_file_ok_def)
    then have "ekey b < gs ! (i + 1)" "gs ! (i + 1) \<le> gs ! j"
      using assms(1,2) *(2,3) True by (auto simp: open_file_ok_def sorted_nth_mono)
    then show ?thesis by (rule order.strict_trans2)
  qed
qed

lemma guards_Finish:
  assumes "sorted gs" "guards_inv gs k w"
  shows "guards_inv gs k (FinishCompactionOutputFile w)"
  using assms open_within [OF assms(1), of "guard_idx w" k]
  by (cases "w_builder w") (auto simp: guards_inv_def Finish_same all_outputs_def)

lemma guards_inv_mono:
  assumes "guards_inv gs k w" "k \<le> k'"
  shows "guards_inv gs k' w"
  using assms unfolding guards_inv_def open_file_ok_def by (meson order.trans)

lemma guards_stop:
  assumes "sorted gs" "guards_inv gs k w"
  shows "guards_inv gs k (stop_before s key w)"
proof -
  have a: "guards_inv gs k (w\<lparr>w_compaction := x\<rparr>)" for x using assms(2) by (simp add: guards_inv_def)
  show ?thesis using assms(2) a guards_Finish [OF assms(1) a]
    by (auto simp: stop_before_def split_beta Let_def split: option.split)
qed

lemma guards_put:
  assumes "guards_inv gs (pure_key key) w"
    and n: "w_builder w \<noteq> None \<Longrightarrow> guard_idx w + 1 < length gs \<Longrightarrow> pure_key key < gs ! (guard_idx w + 1) \<and>
      (\<forall>out. w_builder w = Some out \<longrightarrow> (\<forall>e \<in> set (o_entries out). ekey e \<le> pure_key key))"
  shows "guards_inv gs (pure_key key) (put_entry key val w)"
proof (cases "w_builder w")
  case None
  then show ?thesis using assms(1)
    by (auto simp: guards_inv_def put_entry_def OpenCompactionOutputFile_def open_file_ok_def builder_Add_def Let_def)
next
  case (Some out)
  have P: "w_outputs (put_entry key val w) = w_outputs w" "w_builder (put_entry key val w) = Some (builder_Add key val out)"
    "guard_idx (put_entry key val w) = guard_idx w" using Some by (simp_all add: put_entry_def)
  have o: "open_file_ok gs (guard_idx w) (pure_key key) out" using assms(1) Some by (simp add: guards_inv_def)
  have "open_file_ok gs (guard_idx w) (pure_key key) (builder_Add key val out)"
    using o n Some assms(1) by (auto simp: open_file_ok_def builder_Add_def guards_inv_def intro: order.strict_trans1)
  then show ?thesis using assms(1) P by (simp add: guards_inv_def)
qed

lemma guards_add:
  assumes gs: "sorted gs" and inv: "guards_inv gs k w" and k: "k \<le> pure_key key" "ikey_user_key w = pure_key key"
  shows "guards_inv gs (pure_key key) (add_entry cs mx gs key val w)"
proof -
  have inv': "guards_inv gs (pure_key key) w" by (rule guards_inv_mono [OF inv k(1)])
  have "guards_inv gs (pure_key key) (put_entry key val (guard_step gs w))"
  proof (cases "gs \<noteq> [] \<and> \<not> guard_idx w \<ge> length gs - 1 \<and> gs ! (guard_idx w + 1) \<le> pure_key key")
    case False
    then have g: "guard_step gs w = w" using k(2) by (auto simp: guard_step_def Bytewise_Compare_def Let_def)
    show ?thesis unfolding g
    proof (rule guards_put [OF inv'], intro conjI)
      assume "guard_idx w + 1 < length gs"
      then show "pure_key key < gs ! (guard_idx w + 1)" using False by (auto simp: not_le)
      show "\<forall>out. w_builder w = Some out \<longrightarrow> (\<forall>e \<in> set (o_entries out). ekey e \<le> pure_key key)"
        using inv' by (simp add: guards_inv_def open_file_ok_def)
    qed
  next
    case True
    let ?w1 = "if w_builder w \<noteq> None \<and> builder_entries w > 0 then FinishCompactionOutputFile w else w"
    have g: "guard_step gs w = ?w1\<lparr>guard_idx := guard_idx w + 1\<rparr>"
      using True k(2) by (auto simp: guard_step_def Bytewise_Compare_def Let_def Finish_same)
    have b: "w_builder ?w1 = None" "guards_inv gs (pure_key key) ?w1"
      using inv' guards_Finish [OF gs inv']
      by (auto simp: Finish_same builder_entries_def guards_inv_def open_file_ok_def split: option.splits)
    have i: "guard_idx ?w1 = guard_idx w" by (simp add: Finish_same)
    have "gs ! j \<le> pure_key key" if "1 \<le> j" "j \<le> guard_idx w + 1" "j < length gs" for j
    proof -
      have "gs ! j \<le> gs ! (guard_idx w + 1)" using that True gs by (intro sorted_nth_mono) auto
      then show ?thesis using True by (auto intro: order.trans)
    qed
    then have "guards_inv gs (pure_key key) (?w1\<lparr>guard_idx := guard_idx w + 1\<rparr>)"
      using b i by (simp add: guards_inv_def)
    then show ?thesis unfolding g by (rule guards_put) (use b in simp)
  qed
  then show ?thesis using guards_Finish [OF gs, of "pure_key key" "put_entry key val (guard_step gs w)"]
    by (auto simp: add_entry_put Let_def)
qed

lemma guards_entry:
  assumes v: "write_ok v" "sequence_no (fst v) < kMaxSequenceNumber" "seen_ok s c cur k w" "k \<le> ukey v"
    and l: "\<forall>lvl. level_sorted (files s lvl) \<or> lvl = 0" and gs: "sorted gs" "guards_inv gs k w"
  shows "guards_inv gs (ukey v) (compact_entry s cs mx gs (item_of v) w)"
proof -
  let ?w0 = "stop_before s (write_ikey v) w"
  obtain w' where w': "judge_drop s (write_ikey v) ?w0 =
      (cur = Some (ukey v) \<or> val_type (fst v) = kTypeDeletion \<and> drop_base s c (ukey v), w')"
    "all_outputs w' = all_outputs ?w0" "guard_idx w' = guard_idx ?w0" "ikey_user_key w' = ukey v" "w_builder w' = w_builder ?w0"
    using judge_drop_write [OF v(1,2) seen_ok_stop [OF v(3,4)] l] by metis
  have "w_outputs w' = w_outputs ?w0" using w'(2,5) by (simp add: all_outputs_def)
  then have g: "guards_inv gs k w'" using guards_stop [OF gs, of s "write_ikey v"] w'(3,5) by (simp add: guards_inv_def)
  have "pure_key (write_ikey v) = ukey v" by simp
  then show ?thesis
    using guards_add [OF gs(1) g, of "write_ikey v" cs mx "snd v"] guards_inv_mono [OF g v(4)] v(4) w'(1,4)
    by (simp add: compact_entry_def item_of_def)
qed

lemma runs_guards:
  assumes "sorted_wrt version_less ws" "\<forall>v \<in> set ws. write_ok v \<and> sequence_no (fst v) < kMaxSequenceNumber"
    "seen_ok s c cur k w" "\<forall>v \<in> set ws. k \<le> ukey v" "work_ok fid w" "guards_inv gs k w"
    and l: "\<forall>lvl. level_sorted (files s lvl) \<or> lvl = 0" and gs: "sorted gs"
  shows "\<exists>k'. guards_inv gs k' (runs s cs mx gs w (map item_of ws))"
  using assms(1-6)
proof (induction ws arbitrary: w cur k)
  case Nil
  then show ?case by auto
next
  case (Cons v ws)
  have v: "write_ok v" "sequence_no (fst v) < kMaxSequenceNumber" "k \<le> ukey v" using Cons.prems by simp_all
  note E = compact_entry_write [OF v(1,2) Cons.prems(3) v(3) Cons.prems(5) l, of cs mx gs]
  note G = guards_entry [OF v(1,2) Cons.prems(3) v(3) l gs Cons.prems(6), of cs mx]
  have "\<forall>u \<in> set ws. ukey v \<le> ukey u" using Cons.prems(1) by (auto simp: version_less_def)
  then show ?case using Cons.IH [OF _ _ E(1) _ E(2) G] Cons.prems(1,2) by simp
qed

section \<open>The whole loop\<close>

context sorted_iter
begin

lemma compaction_loop_ok:
  assumes "ok it" "pos it \<le> length (items it)"
  shows "compaction_loop s I cs mx gs it w = Some (runs s cs mx gs w (drop (pos it) (items it)))"
  using assms
proof (induction "length (items it) - pos it" arbitrary: it w)
  case 0
  then show ?case using valid_iff [of it] by (subst compaction_loop.simps) simp
next
  case (Suc n)
  then have p: "pos it < length (items it)" by simp
  obtain it' where it': "it_Next I it = Some it'" "ok it'" "items it' = items it" "pos it' = Suc (pos it)"
    using step [OF Suc.prems(1) p] by blast
  have r: "it_key I it = Some (fst (items it ! pos it))" "it_value I it = Some (snd (items it ! pos it))"
    using reads [OF Suc.prems(1) p] by simp_all
  have "compaction_loop s I cs mx gs it w = compaction_loop s I cs mx gs it' (compact_entry s cs mx gs (items it ! pos it) w)"
    using valid_iff [OF Suc.prems(1)] p r it'(1) by (subst compaction_loop.simps) simp
  also have "\<dots> = Some (runs s cs mx gs (compact_entry s cs mx gs (items it ! pos it) w) (drop (pos it') (items it')))"
    using Suc it' p by (intro Suc.hyps) simp_all
  also have "\<dots> = Some (runs s cs mx gs w (drop (pos it) (items it)))"
    using p it'(3,4) by (simp add: Cons_nth_drop_Suc [symmetric])
  finally show ?case .
qed

end

lemma first_guard:
  assumes "sorted gs" "1 \<le> j" "j \<le> first_guard gs u" "j < length gs"
  shows "gs ! j \<le> u"
proof -
  let ?n = "length (takeWhile (\<lambda>g. \<not> ucmp g u > 0) gs)"
  have "j < ?n" using assms(2,3) by (auto simp: first_guard_def Let_def split: if_splits)
  then have "gs ! j \<in> set (takeWhile (\<lambda>g. \<not> ucmp g u > 0) gs)" by (metis nth_mem takeWhile_nth)
  then show ?thesis using set_takeWhileD [of "gs ! j"] by (fastforce simp: Bytewise_Compare_def not_less)
qed

text \<open>The result of a compaction of a run of writes.\<close>

theorem DoCompactionWorkImpl_ok:
  assumes J: "sorted_iter ikey_ok icmp J ok items pos" and it: "ok it" "items it = map item_of ws"
    and ws: "sorted_wrt version_less ws" "\<forall>v \<in> set ws. write_ok v \<and> sequence_no (fst v) < kMaxSequenceNumber"
    and l: "\<forall>lvl. level_sorted (files s lvl) \<or> lvl = 0" and gs: "sorted (page_guards page)"
    and c: "\<forall>c0. c = Some c0 \<longrightarrow> (\<forall>lvl. level_ptrs c0 lvl = 0)"
  shows "\<exists>w. DoCompactionWorkImpl s J cs mx page it (new_work c fid) = Some w \<and>
    concat (map o_entries (w_outputs w)) = map item_of (kept (drop_base s c) None ws) \<and>
    (\<forall>out \<in> set (w_outputs w). out_ok out \<and> within_guards (page_guards page) out) \<and>
    map o_number (w_outputs w) = map (\<lambda>i. fid + 2 * of_nat (Suc i)) [0..<length (w_outputs w)] \<and>
    w_file_id w = fid + 2 * of_nat (length (w_outputs w))"
proof -
  let ?gs = "page_guards page"
  obtain it1 where it1: "it_SeekToFirst J it = Some it1" "ok it1" "items it1 = map item_of ws" "pos it1 = 0"
    using sorted_iter.seek_first [OF J it(1)] it(2) by auto
  define k where "k = (if ws = [] then [] else ukey (hd ws))"
  have kle: "\<forall>v \<in> set ws. k \<le> ukey v" using ws(1) by (cases ws) (auto simp: k_def version_less_def)
  define w1 where "w1 = (if ?gs \<noteq> [] \<and> ws \<noteq> [] then (new_work c fid)\<lparr>ikey_user_key := k, guard_idx := first_guard ?gs k\<rparr> else new_work c fid)"
  have W1: "(if ?gs \<noteq> [] \<and> it_Valid J it1 then
         map_option (\<lambda>key. let uk = (if 8 \<le> length key then pure_key key else ikey_user_key (new_work c fid)) in
           (new_work c fid)\<lparr>ikey_user_key := uk, guard_idx := first_guard ?gs uk\<rparr>) (it_key J it1)
       else Some (new_work c fid)) = Some w1"
  proof (cases ws)
    case Nil
    then show ?thesis using sorted_iter.valid_iff [OF J it1(2)] it1(3) by (simp add: w1_def)
  next
    case (Cons v vs)
    then have "it_key J it1 = Some (write_ikey v)" "it_Valid J it1"
      using sorted_iter.reads [OF J it1(2)] sorted_iter.valid_iff [OF J it1(2)] it1(3,4) by (simp_all add: item_of_def)
    then show ?thesis using Cons by (simp add: w1_def k_def Let_def)
  qed
  have seen: "seen_ok s c None k w1" using c by (auto simp: seen_ok_def w1_def new_work_def ptrs_ok_def split: option.splits)
  have ok1: "work_ok fid w1" "emitted w1 = []" "w_outputs w1 = []"
    by (simp_all add: work_ok_def w1_def new_work_def all_outputs_def emitted_def)
  have g1: "guards_inv ?gs k w1"
    using first_guard [OF gs, of _ k] by (auto simp: guards_inv_def w1_def new_work_def)
  let ?w = "runs s cs mx ?gs w1 (map item_of ws)"
  note R = runs_writes [OF ws(1,2) seen kle ok1(1) l, of cs mx ?gs]
  obtain k' where "guards_inv ?gs k' ?w" using runs_guards [OF ws(1,2) seen kle ok1(1) g1 l gs] by blast
  note G = guards_Finish [OF gs this]
  have D: "DoCompactionWorkImpl s J cs mx page it (new_work c fid) = Some (FinishCompactionOutputFile ?w)"
    using it1 W1 sorted_iter.compaction_loop_ok [OF J it1(2), of s cs mx ?gs w1]
    by (simp add: DoCompactionWorkImpl_def)
  show ?thesis unfolding D using R G ok1(2)
    by (simp add: Finish_same work_ok_def emitted_def guards_inv_def)
qed

lemma kept_sorted: "sorted_wrt version_less ws \<Longrightarrow> sorted_wrt version_less (kept base cur ws)"
proof (induction ws arbitrary: cur)
  case (Cons w ws)
  then show ?case using kept_subset [of base "Some (ukey w)" ws] by auto
qed simp

section \<open>The output of a compaction\<close>

text \<open>A compaction over a sorted run of writes returns and writes, in order, exactly the newest version of every user key, except
  the deletions of keys that lie in the bounds of no file two or more levels below the compacted one. The level directly below is not
  looked at: its overlapping files are inputs of the compaction, except for the compactions in place, where they are not.
  Every output file is nonempty, its recorded bounds are its first and last key, and no pivot of the page after the
  first lies between two of its keys.\<close>

lemma compaction_output:
  assumes "sorted_iter ikey_ok icmp J ok items pos" "ok it" "items it = map item_of ws"
    "sorted_wrt version_less ws" "\<forall>v \<in> set ws. write_ok v \<and> seq v < kMaxSequenceNumber" "unique_versions (set ws)"
    "\<forall>lvl. level_sorted (files s lvl) \<or> lvl = 0" "sorted (page_guards page)"
    "\<forall>c0. c = Some c0 \<longrightarrow> (\<forall>lvl. level_ptrs c0 lvl = 0)"
  shows "\<exists>w us. DoCompactionWorkImpl s J cs mx page it (new_work c fid) = Some w \<and>
    concat (map o_entries (w_outputs w)) = map item_of us \<and> sorted_wrt version_less us \<and>
    (\<forall>v. v \<in> set us \<longleftrightarrow> v \<in> set ws \<and> (\<forall>u \<in> set ws. ukey u = ukey v \<longrightarrow> seq u \<le> seq v) \<and>
       \<not> (val_type (fst v) = kTypeDeletion \<and>
          (\<forall>c0. c = Some c0 \<longrightarrow> (\<forall>lvl f. c_level c0 + 2 \<le> lvl \<and> lvl < kNumLevels \<and> f \<in> set (files s lvl) \<longrightarrow>
             \<not> (smallest_user f \<le> ukey v \<and> ukey v \<le> largest_user f))))) \<and>
    (\<forall>out \<in> set (w_outputs w). o_entries out \<noteq> [] \<and> o_smallest out = fst (hd (o_entries out)) \<and>
       o_largest out = fst (last (o_entries out)) \<and> within_guards (page_guards page) out)"
proof -
  have wk: "\<forall>v \<in> set ws. write_ok v" using assms(5) by blast
  have b: "drop_base s c k \<longleftrightarrow> (\<forall>c0. c = Some c0 \<longrightarrow> (\<forall>lvl f. c_level c0 + 2 \<le> lvl \<and> lvl < kNumLevels \<and> f \<in> set (files s lvl) \<longrightarrow>
             \<not> (smallest_user f \<le> k \<and> k \<le> largest_user f)))" for k
    by (cases c) (auto simp: drop_base_def base_key_def touches_def)
  let ?us = "kept (drop_base s c) None ws"
  obtain w where "DoCompactionWorkImpl s J cs mx page it (new_work c fid) = Some w"
    "concat (map o_entries (w_outputs w)) = map item_of ?us"
    "\<forall>out \<in> set (w_outputs w). out_ok out \<and> within_guards (page_guards page) out"
    using DoCompactionWorkImpl_ok [OF assms(1-5,7-9), of cs mx fid] by blast
  moreover have "v \<in> set ?us \<longleftrightarrow> v \<in> set ws \<and> (\<forall>u \<in> set ws. ukey u = ukey v \<longrightarrow> seq u \<le> seq v) \<and>
      \<not> (val_type (fst v) = kTypeDeletion \<and> drop_base s c (ukey v))" for v
    using set_kept [OF assms(4) wk assms(6), of None v "drop_base s c"] by auto
  ultimately show ?thesis using kept_sorted [OF assms(4), of "drop_base s c" None] unfolding b [symmetric] out_ok_def
    by (intro exI [of _ w] exI [of _ ?us]) simp
qed

end
