(* ===== verification/LsmTree.thy ===== *)
theory LsmTree
  imports CompactionCorrect
begin

text \<open>
  The LSM tree as a whole. The files of the levels stand for runs of versions kept in tables; deeper levels have
  disjoint files and older versions. The inputs a compaction chooses are complete: no other file of the two
  levels holds a version of one of their keys.
\<close>

section \<open>Selected files\<close>

text \<open>The files of a level that touch a range which none of them reaches out of.\<close>

definition selection :: "FileMetaData list \<Rightarrow> FileMetaData list \<Rightarrow> bool" where
  "selection L fs \<longleftrightarrow> (\<exists>b e. fs = filter (touches b e) L \<and> closed_range L b e)"

lemma icmp_iff:
  "icmp a b < 0 \<longleftrightarrow> pure_key a < pure_key b \<or> pure_key a = pure_key b \<and> key_tag b < key_tag a"
  "icmp a b > 0 \<longleftrightarrow> pure_key b < pure_key a \<or> pure_key a = pure_key b \<and> key_tag a < key_tag b"
  "icmp a b \<le> 0 \<longleftrightarrow> pure_key a < pure_key b \<or> pure_key a = pure_key b \<and> key_tag b \<le> key_tag a"
proof -
  show 1: "icmp a b < 0 \<longleftrightarrow> pure_key a < pure_key b \<or> pure_key a = pure_key b \<and> key_tag b < key_tag a"
    by (auto simp: InternalKey_Compare_less Bytewise_Compare_def)
  show 2: "icmp a b \<le> 0 \<longleftrightarrow> pure_key a < pure_key b \<or> pure_key a = pure_key b \<and> key_tag b \<le> key_tag a"
    by (auto simp: InternalKey_Compare_le Bytewise_Compare_def)
  have "icmp a b > 0 \<longleftrightarrow> \<not> icmp a b \<le> 0" by linarith
  then show "icmp a b > 0 \<longleftrightarrow> pure_key b < pure_key a \<or> pure_key a = pure_key b \<and> key_tag a < key_tag b"
    unfolding 2 by auto
qed

lemma icmp_le_trans: "icmp a b \<le> 0 \<Longrightarrow> icmp b c \<le> 0 \<Longrightarrow> icmp a c \<le> 0"
  unfolding icmp_iff by (elim disjE conjE) auto

lemma level_disjoint:
  assumes "level_sorted L" "f \<in> set L" "g \<in> set L" "f \<noteq> g"
  shows "largest_user f < smallest_user g \<or> largest_user g < smallest_user f"
proof -
  obtain i j where "i < length L" "j < length L" "f = L ! i" "g = L ! j" using assms(2,3) by (auto simp: in_set_conv_nth)
  then show ?thesis using level_sorted_nth(1) [OF assms(1), of i j] level_sorted_nth(1) [OF assms(1), of j i] assms(4)
    by (metis linorder_neqE_nat)
qed

lemma level_distinct:
  assumes "level_sorted L"
  shows "distinct L"
proof -
  have "L ! i \<noteq> L ! j" if "i < j" "j < length L" for i j
    using level_sorted_nth(2) [OF assms that] by auto
  then show ?thesis unfolding distinct_conv_nth by (metis linorder_neqE_nat)
qed

lemma selection_deep:
  assumes L: "level_sorted L"
  shows "selection L (filter (touches b e) L)"
proof -
  let ?in = "filter (touches b e) L"
  define b' where "b' = Min (insert b (smallest_user ` set ?in))"
  define e' where "e' = Max (insert e (largest_user ` set ?in))"
  have b': "b' \<le> b" "\<And>g. g \<in> set ?in \<Longrightarrow> b' \<le> smallest_user g" by (simp_all add: b'_def)
  have e': "e \<le> e'" "\<And>g. g \<in> set ?in \<Longrightarrow> largest_user g \<le> e'" by (simp_all add: e'_def)
  have "b' \<in> insert b (smallest_user ` set ?in)" unfolding b'_def by (rule Min_in) simp_all
  then have bc: "b' = b \<or> (\<exists>g \<in> set ?in. b' = smallest_user g)" by blast
  have "e' \<in> insert e (largest_user ` set ?in)" unfolding e'_def by (rule Max_in) simp_all
  then have ec: "e' = e \<or> (\<exists>g \<in> set ?in. e' = largest_user g)" by blast
  have same: "touches b' e' f \<longleftrightarrow> touches b e f" if f: "f \<in> set L" for f
  proof
    assume t: "touches b' e' f"
    have le: "smallest_user f \<le> largest_user f" using L f file_okD(1) by (auto simp: level_sorted_def)
    show "touches b e f"
    proof (rule ccontr)
      assume n: "\<not> touches b e f"
      have apart: "largest_user f < smallest_user g \<or> largest_user g < smallest_user f" if "g \<in> set ?in" for g
        using level_disjoint [OF L f, of g] that n by auto
      have "b \<le> largest_user f" using bc
      proof
        assume "\<exists>g \<in> set ?in. b' = smallest_user g"
        then obtain g where g: "g \<in> set ?in" "b' = smallest_user g" by blast
        then have "largest_user g < smallest_user f" using apart [OF g(1)] t by (auto simp: touches_def)
        then show ?thesis using g(1) le by (auto simp: touches_def)
      qed (use t in \<open>simp add: touches_def\<close>)
      moreover have "smallest_user f \<le> e" using ec
      proof
        assume "\<exists>g \<in> set ?in. e' = largest_user g"
        then obtain g where g: "g \<in> set ?in" "e' = largest_user g" by blast
        then have "largest_user f < smallest_user g" using apart [OF g(1)] t by (auto simp: touches_def)
        then show ?thesis using g(1) le by (auto simp: touches_def)
      qed (use t in \<open>simp add: touches_def\<close>)
      ultimately show False using n by (simp add: touches_def)
    qed
  qed (use b'(1) e'(1) in \<open>auto simp: touches_def\<close>)
  have "?in = filter (touches b' e') L" using same by (intro filter_cong) auto
  moreover have "closed_range L b' e'" using same b'(2) e'(2) by (auto simp: closed_range_def)
  ultimately show ?thesis unfolding selection_def by blast
qed

lemma selection_member:
  assumes "selection L fs" "f \<in> set fs" "g \<in> set L" "k \<in> {smallest_user f..largest_user f}" "k \<in> {smallest_user g..largest_user g}"
  shows "g \<in> set fs"
  using assms by (fastforce simp: selection_def closed_range_def touches_def)

lemma selection_subset: "selection L fs \<Longrightarrow> set fs \<subseteq> set L"
  by (auto simp: selection_def)

subsection \<open>Boundary files\<close>

lemma FindLargestKey_max:
  assumes "fs \<noteq> []"
  shows "\<exists>g \<in> set fs. FindLargestKey fs = Some (largest g) \<and> (\<forall>f \<in> set fs. icmp (largest f) (largest g) \<le> 0)"
proof -
  have *: "\<exists>g \<in> set (f # gs). foldl (\<lambda>k g. if icmp (largest g) k > 0 then largest g else k) (largest f) gs = largest g \<and>
      (\<forall>h \<in> set (f # gs). icmp (largest h) (largest g) \<le> 0)" for f gs
  proof (induction gs rule: rev_induct)
    case Nil
    then show ?case by (simp add: icmp_iff)
  next
    case (snoc h gs)
    then obtain g where g: "g \<in> set (f # gs)" "foldl (\<lambda>k g. if icmp (largest g) k > 0 then largest g else k) (largest f) gs = largest g"
      "\<forall>h \<in> set (f # gs). icmp (largest h) (largest g) \<le> 0" by blast
    show ?case
    proof (cases "icmp (largest h) (largest g) > 0")
      case True
      then have "icmp (largest g) (largest h) \<le> 0" by (auto simp: icmp_iff)
      then have "icmp (largest x) (largest h) \<le> 0" if "x \<in> set (f # gs)" for x
        using g(3) that icmp_le_trans by blast
      moreover have "icmp (largest h) (largest h) \<le> 0" by (simp add: icmp_iff)
      ultimately show ?thesis using True g(2) by (intro bexI [of _ h]) auto
    next
      case False
      then show ?thesis using g by (intro bexI [of _ g]) (auto simp: not_less)
    qed
  qed
  from assms obtain f gs where "fs = f # gs" by (cases fs) auto
  then show ?thesis using * [of f gs] by (simp add: FindLargestKey_def)
qed

lemma ucmp_eq: "ucmp a b = 0 \<longleftrightarrow> a = b"
  by (auto simp: Bytewise_Compare_def split: if_splits)

lemma FindSmallestBoundaryFile_none:
  assumes "\<forall>f \<in> set L. \<not> (icmp (smallest f) k > 0 \<and> smallest_user f = pure_key k)"
  shows "FindSmallestBoundaryFile L k = None"
  using assms unfolding FindSmallestBoundaryFile_def
proof (induction L)
  case (Cons f L)
  then have "\<not> (icmp (smallest f) k > 0 \<and> ucmp (smallest_user f) (pure_key k) = 0)" by (simp add: ucmp_eq)
  then show ?case using Cons by auto
qed simp

lemma AddBoundaryInputs_selection:
  assumes "selection L fs" "\<forall>f \<in> set L. file_ok f"
  shows "AddBoundaryInputs L fs = Some fs"
proof (cases "fs = []")
  case True
  then show ?thesis by (simp add: AddBoundaryInputs_def FindLargestKey_def)
next
  case False
  obtain g where g: "g \<in> set fs" "FindLargestKey fs = Some (largest g)" "\<forall>f \<in> set fs. icmp (largest f) (largest g) \<le> 0"
    using FindLargestKey_max [OF False] by blast
  have "\<not> (icmp (smallest f) (largest g) > 0 \<and> smallest_user f = largest_user g)" if f: "f \<in> set L" for f
  proof
    assume c: "icmp (smallest f) (largest g) > 0 \<and> smallest_user f = largest_user g"
    have ok: "file_ok f" "file_ok g" using assms(2) f g(1) selection_subset [OF assms(1)] by auto
    have "f \<in> set fs"
      by (rule selection_member [OF assms(1) g(1) f, of "largest_user g"])
        (use c file_okD(1) [OF ok(1)] file_okD(1) [OF ok(2)] in auto)
    then have "icmp (largest f) (largest g) \<le> 0" "icmp (smallest f) (largest f) \<le> 0" using g(3) file_okD(5) [OF ok(1)] by simp_all
    then show False using c icmp_le_trans [of "smallest f" "largest f" "largest g"] by simp
  qed
  then have "FindSmallestBoundaryFile L (largest g) = None" by (intro FindSmallestBoundaryFile_none) blast
  then show ?thesis using g(2) by (simp add: AddBoundaryInputs_def) (subst boundary_loop.simps, simp)
qed

lemma GetRange_bounds:
  assumes "fs \<noteq> []"
  shows "\<exists>a z. GetRange fs = Some (a, z) \<and> (\<forall>f \<in> set fs. pure_key a \<le> smallest_user f \<and> largest_user f \<le> pure_key z)"
proof -
  let ?step = "\<lambda>(s, l) g. (if icmp (smallest g) s < 0 then smallest g else s, if icmp (largest g) l > 0 then largest g else l)"
  have *: "\<exists>a z. foldl ?step (smallest f, largest f) gs = (a, z) \<and>
      (\<forall>h \<in> set (f # gs). pure_key a \<le> smallest_user h \<and> largest_user h \<le> pure_key z)" for f gs
  proof (induction gs rule: rev_induct)
    case (snoc h gs)
    then obtain a z where az: "foldl ?step (smallest f, largest f) gs = (a, z)"
      "\<forall>h \<in> set (f # gs). pure_key a \<le> smallest_user h \<and> largest_user h \<le> pure_key z" by blast
    let ?a = "if icmp (smallest h) a < 0 then smallest h else a" and ?z = "if icmp (largest h) z > 0 then largest h else z"
    have ends: "pure_key ?a \<le> pure_key a" "pure_key ?a \<le> smallest_user h" "pure_key z \<le> pure_key ?z" "largest_user h \<le> pure_key ?z"
      by (auto simp: icmp_iff)
    have "pure_key ?a \<le> smallest_user x \<and> largest_user x \<le> pure_key ?z" if "x \<in> set (f # gs @ [h])" for x
    proof (cases "x = h")
      case False
      then have "x \<in> set (f # gs)" using that by auto
      then have "pure_key a \<le> smallest_user x" "largest_user x \<le> pure_key z" using az(2) by blast+
      then show ?thesis using ends(1,3) order.trans by blast
    qed (use ends(2,4) in blast)
    moreover have "foldl ?step (smallest f, largest f) (gs @ [h]) = (?a, ?z)" unfolding foldl_append az(1) by simp
    ultimately show ?case by blast
  qed simp
  from assms obtain f gs where "fs = f # gs" by (cases fs) auto
  then show ?thesis using * [of f gs] by (simp add: GetRange_def)
qed

section \<open>The inputs of a compaction\<close>

definition levels_ok :: "lsmt \<Rightarrow> bool" where
  "levels_ok s \<longleftrightarrow> (\<forall>l. \<forall>f \<in> set (files s l). file_ok f) \<and> (\<forall>l > 0. level_sorted (files s l)) \<and>
     level_limit s \<le> int kNumLevels"

text \<open>
  The inputs at the compaction level are all files of the level that touch a closed range, those at the next level all
  that touch a range around them.
\<close>

definition complete_inputs :: "lsmt \<Rightarrow> LevelDBCompaction \<Rightarrow> bool" where
  "complete_inputs s c \<longleftrightarrow> c_level c + 1 < kNumLevels \<and> inputs0 c \<noteq> [] \<and> selection (files s (c_level c)) (inputs0 c) \<and>
     (\<exists>b e. inputs1 c = filter (touches b e) (files s (c_level c + 1)) \<and>
        (\<forall>f \<in> set (inputs0 c). b \<le> smallest_user f \<and> largest_user f \<le> e)) \<and>
     level_ptrs c = (\<lambda>_. 0)"

lemma GetOverlappingInputs_selection:
  assumes "levels_ok s" "level < kNumLevels"
  shows "\<exists>fs. GetOverlappingInputs s level (Some a) (Some z) = Some fs \<and> selection (files s level) fs \<and>
    (\<forall>f \<in> set (files s level). touches (pure_key a) (pure_key z) f \<longrightarrow> f \<in> set fs) \<and>
    (level > 0 \<longrightarrow> fs = filter (touches (pure_key a) (pure_key z)) (files s level))"
proof (cases "level = 0")
  case True
  obtain b e where be: "b \<le> pure_key a" "pure_key z \<le> e"
    "overlap_loop 0 (files s 0) (Some (pure_key a)) (Some (pure_key z)) 0 [] = filter (touches b e) (files s 0)"
    "closed_range (files s 0) b e"
    using overlap_loop_top [of "[]" "pure_key a" "pure_key z" 0 "files s 0"] by (auto simp: closed_range_def)
  have "touches (pure_key a) (pure_key z) f \<Longrightarrow> touches b e f" for f using be(1,2) by (auto simp: touches_def)
  then show ?thesis using True assms(2) be(3,4)
    by (intro exI [of _ "filter (touches b e) (files s 0)"]) (auto simp: GetOverlappingInputs_def selection_def)
next
  case False
  have t: "(\<lambda>f. \<not> largest_user f < pure_key a \<and> \<not> pure_key z < smallest_user f) = touches (pure_key a) (pure_key z)"
    by (simp add: touches_def fun_eq_iff not_less)
  have "level_sorted (files s level)" using assms(1) False by (simp add: levels_ok_def)
  then show ?thesis using False assms(2) overlap_loop_deep [of level "files s level"] selection_deep
    by (intro exI [of _ "filter (touches (pure_key a) (pure_key z)) (files s level)"])
      (simp add: GetOverlappingInputs_def t)
qed

lemma deep_selection:
  assumes "levels_ok s"
  shows "selection (files s (Suc l)) (filter (touches b e) (files s (Suc l)))"
  using assms selection_deep by (simp add: levels_ok_def)

lemma AddBoundary_ok: "levels_ok s \<Longrightarrow> selection (files s l) fs \<Longrightarrow> AddBoundaryInputs (files s l) fs = Some fs"
  by (rule AddBoundaryInputs_selection) (auto simp: levels_ok_def)

text \<open>The inputs at the next level for a range, with the boundary files.\<close>

lemma next_level_inputs:
  assumes "levels_ok s" "l + 1 < kNumLevels"
  shows "Option.bind (GetOverlappingInputs s (l + 1) (Some a) (Some z)) (\<lambda>i1. Option.bind (AddBoundaryInputs (files s (l + 1)) i1) g) =
    g (filter (touches (pure_key a) (pure_key z)) (files s (l + 1)))"
  using GetOverlappingInputs_selection [OF assms, of a z] AddBoundary_ok [OF assms(1), of "l + 1"] by auto

lemma grow_inputs_ok:
  assumes s: "levels_ok s" and c: "complete_inputs s c"
  shows "\<exists>c' r a'. grow_inputs s c rng a = Some (c', r, a') \<and> complete_inputs s c' \<and> c_level c' = c_level c"
proof -
  let ?l = "c_level c"
  have l: "?l + 1 < kNumLevels" using c by (simp add: complete_inputs_def)
  obtain e0 where e0: "GetOverlappingInputs s ?l (Some (fst a)) (Some (snd a)) = Some e0" "selection (files s ?l) e0"
    using GetOverlappingInputs_selection [OF s, of ?l "fst a" "snd a"] l by auto
  note B = AddBoundary_ok [OF s e0(2)]
  show ?thesis
  proof (cases "inputs1 c = [] \<or> \<not> (length e0 > length (inputs0 c) \<and>
      sint (TotalFileSize (inputs1 c) + TotalFileSize e0) < sint (ExpandedCompactionByteSizeLimit (max_file_size s)))")
    case True
    then show ?thesis using c e0(1) B by (auto simp: grow_inputs_def)
  next
    case False
    then have ne: "e0 \<noteq> []" by auto
    obtain x z where xz: "GetRange e0 = Some (x, z)" "\<forall>f \<in> set e0. pure_key x \<le> smallest_user f \<and> largest_user f \<le> pure_key z"
      using GetRange_bounds [OF ne] by blast
    let ?e1 = "filter (touches (pure_key x) (pure_key z)) (files s (?l + 1))"
    obtain al where al: "GetRange2 e0 ?e1 = Some al" using GetRange_bounds [of "e0 @ ?e1"] ne by (auto simp: GetRange2_def)
    have good: "complete_inputs s (c\<lparr>inputs0 := e0, inputs1 := ?e1\<rparr>)"
      using c e0(2) ne xz(2) unfolding complete_inputs_def by auto
    have "grow_inputs s c rng a = (if length ?e1 = length (inputs1 c) then Some (c\<lparr>inputs0 := e0, inputs1 := ?e1\<rparr>, (x, z), al)
      else Some (c, rng, a))"
      using False e0(1) B xz(1) al unfolding grow_inputs_def by (simp add: next_level_inputs [OF s l, simplified])
    then show ?thesis using good c by (cases "length ?e1 = length (inputs1 c)") auto
  qed
qed

lemma SetupOtherInputs_ok:
  assumes s: "levels_ok s" and l: "c_level c + 1 < kNumLevels" and in0: "selection (files s (c_level c)) (inputs0 c)" "inputs0 c \<noteq> []"
    and p: "level_ptrs c = (\<lambda>_. 0)"
  shows "\<exists>q c'. SetupOtherInputs s c = Some (s\<lparr>compact_pointer := q\<rparr>, c') \<and> complete_inputs s c' \<and> c_level c' = c_level c"
proof -
  let ?l = "c_level c"
  obtain x z where xz: "GetRange (inputs0 c) = Some (x, z)"
    "\<forall>f \<in> set (inputs0 c). pure_key x \<le> smallest_user f \<and> largest_user f \<le> pure_key z"
    using GetRange_bounds [OF in0(2)] by blast
  let ?in1 = "filter (touches (pure_key x) (pure_key z)) (files s (?l + 1))"
  obtain al where al: "GetRange2 (inputs0 c) ?in1 = Some al"
    using GetRange_bounds [of "inputs0 c @ ?in1"] in0(2) by (auto simp: GetRange2_def)
  have "complete_inputs s (c\<lparr>inputs0 := inputs0 c, inputs1 := ?in1\<rparr>)"
    using l in0 xz(2) p unfolding complete_inputs_def by auto
  from grow_inputs_ok [OF s this, of "(x, z)" al] obtain c1 r a1 where
    g: "grow_inputs s (c\<lparr>inputs0 := inputs0 c, inputs1 := ?in1\<rparr>) (x, z) al = Some (c1, r, a1)" "complete_inputs s c1" "c_level c1 = ?l"
    by auto
  have gp: "\<exists>gp. GetOverlappingInputs s (?l + 2) (Some (fst a1)) (Some (snd a1)) = Some gp"
    if "(level_limit s < 0 \<and> ?l + 2 < kNumLevels) \<or> (level_limit s > 0 \<and> int ?l + 2 < level_limit s)"
    using GetOverlappingInputs_selection [OF s, of "?l + 2"] that s by (auto simp: levels_ok_def)
  obtain c2 where c2: "(if (level_limit s < 0 \<and> ?l + 2 < kNumLevels) \<or> (level_limit s > 0 \<and> int ?l + 2 < level_limit s)
      then map_option (\<lambda>gp. c1\<lparr>grandparents := gp\<rparr>) (GetOverlappingInputs s (?l + 2) (Some (fst a1)) (Some (snd a1))) else Some c1) = Some c2"
    "complete_inputs s c2" "c_level c2 = ?l"
  proof (cases "(level_limit s < 0 \<and> ?l + 2 < kNumLevels) \<or> (level_limit s > 0 \<and> int ?l + 2 < level_limit s)")
    case True
    from gp [OF True] obtain gp where "GetOverlappingInputs s (?l + 2) (Some (fst a1)) (Some (snd a1)) = Some gp" by blast
    then show thesis using True g(2,3) by (intro that [of "c1\<lparr>grandparents := gp\<rparr>"]) (auto simp: complete_inputs_def)
  qed (use that [of c1] g in auto)
  have "SetupOtherInputs s c = Some (s\<lparr>compact_pointer := (compact_pointer s)(?l := snd r)\<rparr>, c2)"
    unfolding SetupOtherInputs_def Let_def AddBoundary_ok [OF s in0(1)] Option.bind.simps xz(1) fst_conv snd_conv
      next_level_inputs [OF s l] al g(1) case_prod_conv c2(1) by simp
  then show ?thesis using c2(2,3) by blast
qed

lemma list_singleton: "set xs = {x} \<Longrightarrow> distinct xs \<Longrightarrow> xs = [x]"
proof (cases xs)
  case (Cons y ys)
  assume "set xs = {x}" "distinct xs"
  then show ?thesis using Cons by (cases ys) auto
qed simp

lemma selection_single:
  assumes L: "level_sorted L" and f: "f \<in> set L"
  shows "selection L [f]"
proof -
  let ?P = "touches (smallest_user f) (largest_user f)"
  have le: "smallest_user h \<le> largest_user h" if "h \<in> set L" for h using L that file_okD(1) by (auto simp: level_sorted_def)
  have "?P g \<longleftrightarrow> g = f" if g: "g \<in> set L" for g
    using level_disjoint [OF L f g] le [OF f] by (fastforce simp: touches_def dest: leD)
  then have "set (filter ?P L) = {f}" "distinct (filter ?P L)" using f level_distinct [OF L] by auto
  then have "filter ?P L = [f]" by (rule list_singleton)
  then show ?thesis using selection_deep [OF L, of "smallest_user f" "largest_user f"] by simp
qed

text \<open>What \<^verbatim>\<open>SetCompactionInputs\<close> does once it has picked a file.\<close>

lemma finish_inputs_ok:
  assumes s: "levels_ok s" and l: "c_level c + 1 < kNumLevels" and c: "inputs0 c = [f]" "f \<in> set (files s (c_level c))" "level_ptrs c = (\<lambda>_. 0)"
  shows "\<exists>q c'. Option.bind
      (if c_level c = 0 then
         Option.bind (GetRange (inputs0 c)) (\<lambda>rng.
         Option.bind (GetOverlappingInputs s (c_level c) (Some (fst rng)) (Some (snd rng))) (\<lambda>in0.
           if in0 = [] then None else Some (c\<lparr>inputs0 := in0\<rparr>)))
       else Some c) (SetupOtherInputs s) = Some (s\<lparr>compact_pointer := q\<rparr>, c') \<and>
    complete_inputs s c' \<and> c_level c' = c_level c"
proof (cases "c_level c = 0")
  case True
  obtain fs where fs: "GetOverlappingInputs s 0 (Some (smallest f)) (Some (largest f)) = Some fs" "selection (files s 0) fs"
    "\<forall>g \<in> set (files s 0). touches (smallest_user f) (largest_user f) g \<longrightarrow> g \<in> set fs"
    using GetOverlappingInputs_selection [OF s, of 0 "smallest f" "largest f"] by (auto simp: kNumLevels_def)
  have "touches (smallest_user f) (largest_user f) f"
    using s c(2) file_okD(1) by (auto simp: levels_ok_def touches_def)
  then have ne: "fs \<noteq> []" using fs(3) c(2) True by auto
  from SetupOtherInputs_ok [OF s, of "c\<lparr>inputs0 := fs\<rparr>"] l fs(2) ne c(3) True
  obtain q c' where "SetupOtherInputs s (c\<lparr>inputs0 := fs\<rparr>) = Some (s\<lparr>compact_pointer := q\<rparr>, c')" "complete_inputs s c'" "c_level c' = 0"
    by auto
  then show ?thesis using True c(1) fs(1) ne by (intro exI [of _ q] exI [of _ c']) (simp add: GetRange_def)
next
  case False
  then have "level_sorted (files s (c_level c))" using s by (simp add: levels_ok_def)
  from SetupOtherInputs_ok [OF s l _ _ c(3)] selection_single [OF this c(2)] c(1) False show ?thesis by simp
qed

lemma new_LevelDBCompaction_simps [simp]:
  "inputs0 (new_LevelDBCompaction l) = []" "inputs1 (new_LevelDBCompaction l) = []" "c_level (new_LevelDBCompaction l) = l"
  "level_ptrs (new_LevelDBCompaction l) = (\<lambda>_. 0)"
  by (simp_all add: new_LevelDBCompaction_def)

lemma SetCompactionInputs_ok:
  assumes s: "levels_ok s" and l: "level + 1 < kNumLevels" and ne: "files s level \<noteq> []"
    and st: "lsmt_status s \<noteq> kStandalone \<or> compaction_score s \<ge> 1"
  shows "\<exists>q c. SetCompactionInputs level s (new_LevelDBCompaction level) = Some (s\<lparr>compact_pointer := q\<rparr>, c) \<and>
    complete_inputs s c \<and> c_level c = level"
proof -
  obtain f where f: "f \<in> set (files s level)" and F: "SetCompactionInputs level s (new_LevelDBCompaction level) =
    Option.bind
      (if level = 0 then
         Option.bind (GetRange [f]) (\<lambda>rng.
         Option.bind (GetOverlappingInputs s level (Some (fst rng)) (Some (snd rng))) (\<lambda>in0.
           if in0 = [] then None else Some ((new_LevelDBCompaction level)\<lparr>inputs0 := [f], inputs0 := in0\<rparr>)))
       else Some ((new_LevelDBCompaction level)\<lparr>inputs0 := [f]\<rparr>)) (SetupOtherInputs s)"
  proof (cases "find (\<lambda>f. compact_pointer s level = [] \<or> icmp (largest f) (compact_pointer s level) > 0) (files s level)")
    case None
    obtain f gs where "files s level = f # gs" using ne by (cases "files s level") auto
    then show thesis using that [of f] None st l by (simp add: SetCompactionInputs_def Let_def cong: if_cong)
  next
    case (Some f)
    then have "f \<in> set (files s level)" by (auto simp: find_Some_iff)
    then show thesis using that [of f] Some st l by (simp add: SetCompactionInputs_def Let_def cong: if_cong)
  qed
  show ?thesis unfolding F
    using finish_inputs_ok [OF s, of "(new_LevelDBCompaction level)\<lparr>inputs0 := [f]\<rparr>" f] l f
    by (cases "level = 0") simp_all
qed

end
