(* ===== verification/LsmInstall.thy ===== *)
theory LsmInstall
  imports LsmTree
begin

text \<open>
  Installing files at a level: the merge of the old files of a level with the added ones keeps the level sorted when the
  added files are disjoint from the old ones that stay.
\<close>

section \<open>Changing a level\<close>

abbreviation precedes :: "FileMetaData \<Rightarrow> FileMetaData \<Rightarrow> bool" where
  "precedes a b \<equiv> largest_user a < smallest_user b"

abbreviation alive :: "64 word set \<Rightarrow> FileMetaData list \<Rightarrow> FileMetaData list" where
  "alive D fs \<equiv> filter (\<lambda>f. fnumber f \<notin> D) fs"

lemma MaybeAddFile_ok:
  assumes "level > 0 \<longrightarrow> (\<forall>g \<in> set fs. precedes g f)" "fnumber f \<notin> D"
  shows "MaybeAddFile level f fs D = Some (fs @ [f])"
  using assms icmp_user_less [of "largest (last fs)" "smallest f"] by (cases "fs = []") (auto simp: MaybeAddFile_def)

lemma MaybeAddFiles_ok:
  assumes "level > 0 \<longrightarrow> sorted_wrt precedes (fs @ alive D gs)"
  shows "MaybeAddFiles level gs fs D = Some (fs @ alive D gs)"
  using assms
proof (induction gs arbitrary: fs)
  case (Cons g gs)
  show ?case
  proof (cases "fnumber g \<in> D")
    case True
    then show ?thesis using Cons by (simp add: MaybeAddFile_def)
  next
    case False
    have "MaybeAddFile level g fs D = Some (fs @ [g])"
      by (rule MaybeAddFile_ok) (use Cons.prems False in \<open>auto simp: sorted_wrt_append\<close>)
    then show ?thesis using Cons.IH [of "fs @ [g]"] Cons.prems False by simp
  qed
qed simp

lemma merge_added_ok:
  assumes "level > 0" "level_sorted base" "level_sorted added" "\<forall>a \<in> set added. fnumber a \<notin> D"
    "\<forall>a \<in> set added. \<forall>b \<in> set (alive D base). precedes a b \<or> precedes b a"
    "sorted_wrt precedes new" "\<forall>n \<in> set new. \<forall>x \<in> set (alive D base) \<union> set added. precedes n x"
  shows "\<exists>r. merge_added level base added new D = Some r \<and> set r = set new \<union> set (alive D base) \<union> set added \<and> sorted_wrt precedes r"
  using assms(2-)
proof (induction added arbitrary: base new)
  case Nil
  have "sorted_wrt precedes (new @ alive D base)"
    using Nil by (auto simp: sorted_wrt_append level_sorted_def sorted_wrt_filter)
  then show ?case using MaybeAddFiles_ok [of level new D base] by simp
next
  case (Cons a added)
  let ?P = "\<lambda>b. icmp (largest b) (smallest a) < 0"
  let ?pre = "takeWhile ?P base" and ?rest = "dropWhile ?P base"
  have base: "?pre @ ?rest = base" by simp
  have ok: "\<And>f. f \<in> set base \<Longrightarrow> smallest_user f \<le> largest_user f" "smallest_user a \<le> largest_user a"
    "\<And>f. f \<in> set added \<Longrightarrow> smallest_user f \<le> largest_user f"
    using Cons.prems(1,2) file_okD(1) by (auto simp: level_sorted_def)
  have sub: "set ?pre \<subseteq> set base" "set ?rest \<subseteq> set base" by (auto dest: set_takeWhileD set_dropWhileD)
  have bs: "level_sorted (?pre @ ?rest)" using Cons.prems(1) by simp
  have srt: "sorted_wrt precedes ?pre" "sorted_wrt precedes ?rest" "\<And>x y. x \<in> set ?pre \<Longrightarrow> y \<in> set ?rest \<Longrightarrow> precedes x y"
    using bs unfolding level_sorted_def sorted_wrt_append by auto
  have pre: "precedes b a" if "b \<in> set (alive D ?pre)" for b
  proof -
    have b: "?P b" "b \<in> set base" "fnumber b \<notin> D" using that by (auto dest: set_takeWhileD)
    then have "largest_user b \<le> smallest_user a" by (auto simp: icmp_iff)
    then have "\<not> precedes a b" using ok(1) [OF b(2)] ok(2) by auto
    then show ?thesis using Cons.prems(4) b by auto
  qed
  have rest: "smallest_user a \<le> largest_user x" if x: "x \<in> set ?rest" for x
  proof -
    from x obtain h t where ht: "?rest = h # t" by (cases ?rest) auto
    then have "\<not> ?P h" using hd_dropWhile [of ?P base] by auto
    then have h: "smallest_user a \<le> largest_user h" by (auto simp: icmp_iff not_less)
    show ?thesis
    proof (cases "x = h")
      case False
      then have "precedes h x" using x srt(2) ht by auto
      moreover have "smallest_user x \<le> largest_user x" using ok(1) x sub by blast
      ultimately show ?thesis using h by order
    qed (use h in simp)
  qed
  have new1: "MaybeAddFiles level ?pre new D = Some (new @ alive D ?pre)"
  proof (rule MaybeAddFiles_ok, rule impI)
    show "sorted_wrt precedes (new @ alive D ?pre)"
      using Cons.prems(5,6) srt(1) sub(1) by (auto simp: sorted_wrt_append sorted_wrt_filter)
  qed
  have "MaybeAddFile level a (new @ alive D ?pre) D = Some ((new @ alive D ?pre) @ [a])"
    by (rule MaybeAddFile_ok) (use Cons.prems(3,6) pre in auto)
  moreover have "\<exists>r. merge_added level ?rest added ((new @ alive D ?pre) @ [a]) D = Some r \<and>
    set r = set ((new @ alive D ?pre) @ [a]) \<union> set (alive D ?rest) \<union> set added \<and> sorted_wrt precedes r"
  proof (rule Cons.IH)
    show "level_sorted ?rest" using Cons.prems(1) srt(2) sub(2) by (auto simp: level_sorted_def)
    show "level_sorted added" using Cons.prems(2) by (simp add: level_sorted_def)
    show "\<forall>a \<in> set added. fnumber a \<notin> D" using Cons.prems(3) by simp
    show "\<forall>a \<in> set added. \<forall>b \<in> set (alive D ?rest). precedes a b \<or> precedes b a" using Cons.prems(4) sub(2) by auto
    show "sorted_wrt precedes ((new @ alive D ?pre) @ [a])"
      using Cons.prems(5,6) srt(1) sub(1) pre by (auto simp: sorted_wrt_append sorted_wrt_filter)
    have aa: "precedes a x" if "x \<in> set added" for x using Cons.prems(2) that by (auto simp: level_sorted_def)
    have ar: "precedes a x" if x: "x \<in> set (alive D ?rest)" for x
      using Cons.prems(4) rest [of x] x sub(2) leD by fastforce
    have na: "precedes n x" if "n \<in> set new" "x \<in> set (alive D ?rest) \<union> set added" for n x using Cons.prems(6) that sub(2) by auto
    have pa: "precedes b x" if "b \<in> set (alive D ?pre)" "x \<in> set added" for b x
      using pre [OF that(1)] aa [OF that(2)] ok(2) by order
    have pr: "precedes b x" if "b \<in> set (alive D ?pre)" "x \<in> set (alive D ?rest)" for b x
      using that srt(3) by auto
    show "\<forall>n \<in> set ((new @ alive D ?pre) @ [a]). \<forall>x \<in> set (alive D ?rest) \<union> set added. precedes n x"
    proof (intro ballI)
      fix n x assume nx: "n \<in> set ((new @ alive D ?pre) @ [a])" "x \<in> set (alive D ?rest) \<union> set added"
      then consider "n \<in> set new" | "n \<in> set (alive D ?pre)" | "n = a" by auto
      then show "precedes n x" using nx(2) aa ar na pa pr by cases blast+
    qed
  qed
  moreover have "set (alive D base) = set (alive D ?pre) \<union> set (alive D ?rest)"
    by (subst base [symmetric]) (simp only: filter_append set_append)
  ultimately show ?case using new1 by auto
qed

lemma FileSet_insert_last:
  assumes "\<forall>g \<in> set fs. precedes g f" "file_ok f" "\<forall>g \<in> set fs. file_ok g"
  shows "FileSet_insert f fs = fs @ [f]"
  using assms
proof (induction fs)
  case (Cons g fs)
  have "smallest_user g < smallest_user f"
    using Cons.prems(1,3) file_okD(1) [of g] by auto
  then have "icmp (smallest g) (smallest f) < 0" "icmp (smallest f) (smallest g) > 0" by (simp_all add: icmp_iff)
  then show ?case using Cons by (simp add: BySmallestKey_def Let_def)
qed simp

lemma FileSet_sorted:
  assumes "level_sorted fs"
  shows "foldl (\<lambda>A f. FileSet_insert f A) [] fs = fs"
  using assms
proof (induction fs rule: rev_induct)
  case (snoc f fs)
  then have "level_sorted fs" "\<forall>g \<in> set fs. precedes g f" "file_ok f" "\<forall>g \<in> set fs. file_ok g"
    by (auto simp: level_sorted_def sorted_wrt_append)
  then show ?case using snoc.IH FileSet_insert_last by simp
qed simp

text \<open>What changes at a level only leaves alone.\<close>

definition same_setup :: "lsmt \<Rightarrow> lsmt \<Rightarrow> bool" where
  "same_setup s s' \<longleftrightarrow> level_limit s' = level_limit s \<and> lsmt_status s' = lsmt_status s \<and> leaf_limit s' = leaf_limit s \<and>
     file_id s' = file_id s \<and> compaction_score s' = compaction_score s \<and> has_hotspot s' = has_hotspot s"

lemma ApplyFileChanges_ok:
  assumes "merge_added level (files s level) added [] D = Some r"
  shows "\<exists>s'. ApplyFileChanges level added D s = Some s' \<and> files s' = (files s)(level := r) \<and> same_setup s s'"
  using assms by (auto simp: ApplyFileChanges_def Let_def same_setup_def)

lemma remove_files:
  assumes "levels_ok s"
  shows "\<exists>s'. ApplyFileChanges level [] D s = Some s' \<and> files s' = (files s)(level := alive D (files s level)) \<and> same_setup s s'"
proof (rule ApplyFileChanges_ok)
  have "level > 0 \<longrightarrow> sorted_wrt precedes ([] @ alive D (files s level))"
    using assms by (auto simp: levels_ok_def level_sorted_def sorted_wrt_filter)
  from MaybeAddFiles_ok [OF this] show "merge_added level (files s level) [] [] D = Some (alive D (files s level))" by simp
qed

lemma add_sorted_files:
  assumes "levels_ok s" "level > 0" "level_sorted added" "\<forall>a \<in> set added. fnumber a \<notin> D"
    "\<forall>a \<in> set added. \<forall>b \<in> set (alive D (files s level)). precedes a b \<or> precedes b a"
  shows "\<exists>s' r. ApplyFileChanges level added D s = Some s' \<and> files s' = (files s)(level := r) \<and> same_setup s s' \<and>
    set r = set (alive D (files s level)) \<union> set added \<and> level_sorted r"
proof -
  have L: "level_sorted (files s level)" using assms(1,2) by (simp add: levels_ok_def)
  obtain r where r: "merge_added level (files s level) added [] D = Some r" "set r = set (alive D (files s level)) \<union> set added"
    "sorted_wrt precedes r"
    using merge_added_ok [OF assms(2) L assms(3,4,5), of "[]"] by auto
  then have "level_sorted r" using L assms(3) by (auto simp: level_sorted_def)
  then show ?thesis using ApplyFileChanges_ok [OF r(1)] r(2) by blast
qed

lemma same_setup_trans: "same_setup s s' \<Longrightarrow> same_setup s' s'' \<Longrightarrow> same_setup s s''"
  by (simp add: same_setup_def)

end
