(* ===== verification/LsmStore.thy ===== *)
theory LsmStore
  imports LsmInstall
begin

text \<open>
  The tables behind the files. A file stands for the run of versions in its table; the iterators over the files of a
  level, over the inputs of a compaction and over the whole tree run over the union of the runs.
\<close>

section \<open>Runs\<close>

definition run_ok :: "mem_write list \<Rightarrow> bool" where
  "run_ok ws \<longleftrightarrow> ws \<noteq> [] \<and> sorted_wrt version_less ws \<and> (\<forall>v \<in> set ws. write_ok v \<and> seq v < kMaxSequenceNumber)"

lemma version_less_user: "version_less v w \<Longrightarrow> ukey v \<le> ukey w"
  by (auto simp: version_less_def)

lemma run_bounds:
  assumes "run_ok ws" "v \<in> set ws"
  shows "v = hd ws \<or> version_less (hd ws) v" "v = last ws \<or> version_less v (last ws)"
    "ukey (hd ws) \<le> ukey v" "ukey v \<le> ukey (last ws)" "write_ok v"
proof -
  have ws: "sorted_wrt version_less ws" "ws \<noteq> []" using assms(1) by (auto simp: run_ok_def)
  show 1: "v = hd ws \<or> version_less (hd ws) v" using ws assms(2) by (cases ws) auto
  show 2: "v = last ws \<or> version_less v (last ws)" using ws assms(2) by (cases ws rule: rev_cases) (auto simp: sorted_wrt_append)
  show "ukey (hd ws) \<le> ukey v" using 1 version_less_user [of "hd ws" v] by auto
  show "ukey v \<le> ukey (last ws)" using 2 version_less_user [of v "last ws"] by auto
  show "write_ok v" using assms by (auto simp: run_ok_def)
qed

text \<open>A file with the run of its table.\<close>

definition spans :: "FileMetaData \<Rightarrow> mem_write list \<Rightarrow> bool" where
  "spans f ws \<longleftrightarrow> run_ok ws \<and> smallest f = write_ikey (hd ws) \<and> largest f = write_ikey (last ws)"

lemma spans_bounds:
  assumes "spans f ws"
  shows "file_ok f" "v \<in> set ws \<Longrightarrow> smallest_user f \<le> ukey v \<and> ukey v \<le> largest_user f"
    "v \<in> set ws \<Longrightarrow> icmp (write_ikey v) (largest f) \<le> 0"
proof -
  have ws: "run_ok ws" "smallest f = write_ikey (hd ws)" "largest f = write_ikey (last ws)" "ws \<noteq> []"
    using assms by (auto simp: spans_def run_ok_def)
  show "file_ok f" unfolding file_ok_def
    using ws(2-4) run_bounds(2,5) [OF ws(1), of "hd ws"] run_bounds(5) [OF ws(1), of "last ws"]
    by (intro exI [of _ "hd ws"] exI [of _ "last ws"]) simp
  assume v: "v \<in> set ws"
  show "smallest_user f \<le> ukey v \<and> ukey v \<le> largest_user f" using run_bounds(3,4) [OF ws(1) v] ws(2,3) by simp
  show "icmp (write_ikey v) (largest f) \<le> 0"
    using run_bounds(2) [OF ws(1) v] icmp_writes [of v "last ws"] unfolding ws(3) by (auto simp: icmp_iff)
qed

section \<open>Iterators over files\<close>

lemma DecodeFixed64_append: "length b = 8 \<Longrightarrow> DecodeFixed64 (b @ r) = DecodeFixed64 b"
  by (simp add: DecodeFixed64_def nth_append)

lemma GetFileIterator_value [simp]: "GetFileIterator op (file_value f) = op (fnumber f) (file_size f)"
  by (simp add: GetFileIterator_def file_value_def DecodeFixed64_append)

lemma collect_options_ok:
  assumes "list_all2 (\<lambda>x ws. \<exists>c. x = Some c \<and> P c ws) xs Ws"
  shows "\<exists>cs. collect_options xs = Some cs \<and> list_all2 P cs Ws"
  using assms by (induction rule: list_all2_induct) (auto simp: list_all2_Cons2)

context write_iter
begin

definition cok :: "(64 word \<Rightarrow> 64 word \<Rightarrow> 'it option) \<Rightarrow> 'it lsm_child \<Rightarrow> bool" where
  "cok op = case_sum ok (levels.tok op)"

definition citems :: "(64 word \<Rightarrow> 64 word \<Rightarrow> 'it option) \<Rightarrow> 'it lsm_child \<Rightarrow> (slice \<times> slice) list" where
  "citems op = case_sum items (levels.titems op)"

definition cpos :: "(64 word \<Rightarrow> 64 word \<Rightarrow> 'it option) \<Rightarrow> 'it lsm_child \<Rightarrow> nat" where
  "cpos op = case_sum pos (levels.tpos op)"

lemma child_sorted: "sorted_iter ikey_ok icmp (lsm_child_iterator I op) (cok op) (citems op) (cpos op)"
  unfolding lsm_child_iterator_def level_iterator_def cok_def citems_def cpos_def
  by (rule either_sorted [OF sorted_iter_axioms levels.two_level_sorted])

text \<open>A table of a file is opened by an iterator over its run.\<close>

definition opens :: "(64 word \<Rightarrow> 64 word \<Rightarrow> 'it option) \<Rightarrow> FileMetaData \<Rightarrow> mem_write list \<Rightarrow> bool" where
  "opens op f ws \<longleftrightarrow> spans f ws \<and> (\<exists>it. op (fnumber f) (file_size f) = Some it \<and> ok it \<and> items it = map item_of ws)"

lemma level_run:
  assumes fs: "level_sorted fs" and R: "\<And>f. f \<in> set fs \<Longrightarrow> opens op f (R f)"
  shows "\<exists>t. new_level_iter fs = Some t \<and> cok op (Inr t) \<and> citems op (Inr t) = map item_of (concat (map R fs))"
proof -
  let ?xs = "map (\<lambda>f. (largest f, file_value f)) fs"
  have B: "levels.block op (file_value f) = map item_of (R f)" if "f \<in> set fs" for f
    using R [OF that] by (auto simp: opens_def levels.block_def)
  have "levels.separated op ?xs"
    unfolding levels.separated_def
  proof (intro conjI)
    show "\<forall>e \<in> set ?xs. \<exists>it. GetFileIterator op (snd e) = Some it \<and> ok it" using R by (auto simp: opens_def)
    show "\<forall>e \<in> set ?xs. \<forall>a \<in> set (levels.block op (snd e)). icmp (fst a) (fst e) \<le> 0"
    proof (intro ballI)
      fix e a assume e: "e \<in> set ?xs" and a: "a \<in> set (levels.block op (snd e))"
      from e obtain f where f: "f \<in> set fs" "e = (largest f, file_value f)" by auto
      then obtain v where "v \<in> set (R f)" "a = item_of v" using a B by auto
      then show "icmp (fst a) (fst e) \<le> 0" using R [OF f(1)] spans_bounds(3) [of f "R f" v] f(2) by (simp add: opens_def item_of_def)
    qed
    have sep: "icmp (largest f) (write_ikey v) < 0" if "precedes f g" "g \<in> set fs" "v \<in> set (R g)" for f g v
    proof -
      have "smallest_user g \<le> ukey v" using spans_bounds(2) [of g "R g" v] R [OF that(2)] that(3) by (simp add: opens_def)
      then show ?thesis using that(1) by (intro icmp_user_less) simp
    qed
    have "sorted_wrt (\<lambda>f g. \<forall>b \<in> set (levels.block op (file_value g)). icmp (largest f) (fst b) < 0) fs"
    proof (rule sorted_wrt_mono_rel)
      show "sorted_wrt precedes fs" using fs by (simp add: level_sorted_def)
      fix f g assume g: "g \<in> set fs" "precedes f g"
      show "\<forall>b \<in> set (levels.block op (file_value g)). icmp (largest f) (fst b) < 0"
        unfolding B [OF g(1)] using sep [OF g(2,1)] by (auto simp: item_of_def)
    qed
    then show "sorted_wrt (\<lambda>e f. \<forall>b \<in> set (levels.block op (snd f)). icmp (fst e) (fst b) < 0) ?xs"
      by (simp add: sorted_wrt_map)
  qed
  then have "lf_ok (new_LevelFileNumIterator fs)" "levels.separated op (lf_items (new_LevelFileNumIterator fs))"
    using fs by (simp_all add: lf_ok_def lf_items_def new_LevelFileNumIterator_def)
  from levels.NewTwoLevelIterator_ok [OF this] obtain t where
    t: "new_level_iter fs = Some t" "levels.tok op t"
      "levels.titems op t = concat (map (\<lambda>e. levels.block op (snd e)) (lf_items (new_LevelFileNumIterator fs)))"
    by (auto simp: new_level_iter_def)
  have "levels.titems op t = map item_of (concat (map R fs))"
    unfolding t(3) using B by (simp add: lf_items_def new_LevelFileNumIterator_def comp_def map_concat cong: map_cong)
  then show ?thesis using t(1,2) by (simp add: cok_def citems_def)
qed

lemma merge_children:
  assumes cs: "list_all2 (\<lambda>c ws. cok op c \<and> citems op c = map item_of ws) cs Ws"
    and W: "\<forall>ws \<in> set Ws. \<forall>w \<in> set ws. write_ok w" "sorted_wrt (\<lambda>us ws. set us \<inter> set ws = {}) Ws"
      "unique_versions (\<Union> (set ` set Ws))"
  shows "\<exists>a ws okJ itemsJ posJ. NewMergingIterator (lsm_child_iterator I op) cs = Some a \<and>
    sorted_iter ikey_ok icmp (any_iterator icmp (lsm_child_iterator I op)) okJ itemsJ posJ \<and> okJ a \<and>
    itemsJ a = map item_of ws \<and> sorted_wrt version_less ws \<and> set ws = \<Union> (set ` set Ws)"
proof -
  have L: "length cs = length Ws" "\<And>i. i < length Ws \<Longrightarrow> cok op (cs ! i) \<and> citems op (cs ! i) = map item_of (Ws ! i)"
    using cs by (auto simp: list_all2_conv_all_nth)
  have ok: "\<forall>c \<in> set cs. cok op c" using L by (auto simp: in_set_conv_nth)
  have items: "map (citems op) cs = map (map item_of) Ws" using L by (intro nth_equalityI) auto
  have ap: "sorted_wrt ikeys.apart (map (citems op) cs)"
    unfolding items sorted_wrt_map
  proof (rule sorted_wrt_mono_rel [OF _ W(2)])
    fix us ws assume h: "us \<in> set Ws" "ws \<in> set Ws" "set us \<inter> set ws = {}"
    show "ikeys.apart (map item_of us) (map item_of ws)" unfolding ikeys.apart_def
    proof (intro ballI notI)
      fix x y assume "x \<in> set (map item_of us)" "y \<in> set (map item_of ws)" and e: "icmp (fst x) (fst y) = 0"
      then obtain v w where vw: "v \<in> set us" "w \<in> set ws" "icmp (write_ikey v) (write_ikey w) = 0" by (auto simp: item_of_def)
      then have "(ukey v, seq v) = (ukey w, seq w)" using icmp_same_version [of v w] W(1) h by auto
      moreover have "v \<in> \<Union> (set ` set Ws)" "w \<in> \<Union> (set ` set Ws)" using vw(1,2) h by auto
      ultimately have "v = w" by (rule inj_onD [OF W(3)])
      then show False using vw h by auto
    qed
  qed
  let ?items = "sorted_iter.aitems icmp (citems op)"
  from sorted_iter.NewMergingIterator_ok [OF child_sorted ok ap]
  obtain a where a: "NewMergingIterator (lsm_child_iterator I op) cs = Some a"
    "sorted_iter.aok icmp (lsm_child_iterator I op) (cok op) (citems op) (cpos op) a"
    "ikeys.ascending (?items a)" "set (?items a) = (\<Union>c \<in> set cs. set (citems op c))" by blast
  let ?W = "\<Union> (set ` set Ws)"
  have wok: "\<forall>w \<in> ?W. write_ok w" using W(1) by blast
  have "(\<Union>c \<in> set cs. set (citems op c)) = \<Union> (set ` set (map (citems op) cs))" by simp
  also have "\<dots> = item_of ` ?W" unfolding items by auto
  finally have "set (?items a) = item_of ` ?W" using a(4) by simp
  from preimage_list [OF this item_of_inj [OF wok]] obtain ws where ws: "map item_of ws = ?items a" "set ws = ?W" by blast
  have "sorted_wrt (\<lambda>v w. icmp (fst (item_of v)) (fst (item_of w)) < 0) ws"
    using a(3) unfolding ws(1) [symmetric] by (simp add: sorted_wrt_map)
  then have "sorted_wrt version_less ws" by (simp add: item_of_def icmp_writes)
  then show ?thesis using a(1,2) ws sorted_iter.any_sorted [OF child_sorted, of op] by metis
qed

end

lemma distinct_wrt: "distinct xs \<Longrightarrow> sorted_wrt (\<noteq>) xs"
  by (induction xs) auto

section \<open>The tree and its tables\<close>

text \<open>The metadata of a file agrees with the run in its table; \<open>C fs n\<close> is the run in the table number \<open>n\<close>,
  \<open>Z fs n\<close> the size of its file.\<close>

definition file_rep :: "('fs \<Rightarrow> 64 word \<Rightarrow> 64 word) \<Rightarrow> ('fs \<Rightarrow> 64 word \<Rightarrow> mem_write list) \<Rightarrow> 'fs \<Rightarrow> FileMetaData \<Rightarrow> bool" where
  "file_rep Z C fs f \<longleftrightarrow> spans f (C fs (fnumber f)) \<and> file_size f = Z fs (fnumber f)"

definition level_writes :: "('fs \<Rightarrow> 64 word \<Rightarrow> mem_write list) \<Rightarrow> 'fs \<Rightarrow> FileMetaData list \<Rightarrow> mem_write set" where
  "level_writes C fs fl = (\<Union>f \<in> set fl. set (C fs (fnumber f)))"

definition all_writes :: "('fs \<Rightarrow> 64 word \<Rightarrow> mem_write list) \<Rightarrow> 'fs \<Rightarrow> lsmt \<Rightarrow> mem_write set" where
  "all_writes C fs s = (\<Union>l. level_writes C fs (files s l))"

text \<open>
  The invariant of the tree: every file is in its table, numbers are used once, no version is in two files, deeper
  levels are sorted and disjoint, and a version of a key at a deeper level is older.
\<close>

definition lsm_inv :: "('fs \<Rightarrow> 64 word \<Rightarrow> 64 word) \<Rightarrow> ('fs \<Rightarrow> 64 word \<Rightarrow> mem_write list) \<Rightarrow> 'fs \<Rightarrow> lsmt \<Rightarrow> bool" where
  "lsm_inv Z C fs s \<longleftrightarrow>
     (\<forall>l. \<forall>f \<in> set (files s l). file_rep Z C fs f \<and> fnumber f \<le> file_id s) \<and>
     (\<forall>l. distinct (files s l)) \<and> (\<forall>l > 0. sorted_wrt precedes (files s l)) \<and> (\<forall>l \<ge> kNumLevels. files s l = []) \<and>
     (\<forall>l l' f g. f \<in> set (files s l) \<longrightarrow> g \<in> set (files s l') \<longrightarrow> (l, f) \<noteq> (l', g) \<longrightarrow>
        fnumber f \<noteq> fnumber g \<and> set (C fs (fnumber f)) \<inter> set (C fs (fnumber g)) = {}) \<and>
     unique_versions (all_writes C fs s) \<and>
     (\<forall>l l'. l < l' \<longrightarrow> (\<forall>v \<in> level_writes C fs (files s l). \<forall>w \<in> level_writes C fs (files s l').
        ukey v = ukey w \<longrightarrow> seq w < seq v)) \<and>
     level_limit s \<le> int kNumLevels"

lemma lsm_invD:
  assumes "lsm_inv Z C fs s"
  shows "f \<in> set (files s l) \<Longrightarrow> file_rep Z C fs f" "f \<in> set (files s l) \<Longrightarrow> fnumber f \<le> file_id s" "distinct (files s l)"
    "l > 0 \<Longrightarrow> level_sorted (files s l)" "l \<ge> kNumLevels \<Longrightarrow> files s l = []"
    "f \<in> set (files s l) \<Longrightarrow> g \<in> set (files s l') \<Longrightarrow> (l, f) \<noteq> (l', g) \<Longrightarrow> fnumber f \<noteq> fnumber g"
    "f \<in> set (files s l) \<Longrightarrow> g \<in> set (files s l') \<Longrightarrow> (l, f) \<noteq> (l', g) \<Longrightarrow> set (C fs (fnumber f)) \<inter> set (C fs (fnumber g)) = {}"
    "unique_versions (all_writes C fs s)"
    "l < l' \<Longrightarrow> v \<in> level_writes C fs (files s l) \<Longrightarrow> w \<in> level_writes C fs (files s l') \<Longrightarrow> ukey v = ukey w \<Longrightarrow> seq w < seq v"
    "levels_ok s"
proof -
  note I = assms [unfolded lsm_inv_def]
  note I1 = I [THEN conjunct1] and J = I [THEN conjunct2]
  note I2 = J [THEN conjunct1] and I3 = J [THEN conjunct2, THEN conjunct1] and K = J [THEN conjunct2, THEN conjunct2]
  note I4 = K [THEN conjunct1] and I5 = K [THEN conjunct2, THEN conjunct1] and L = K [THEN conjunct2, THEN conjunct2]
  note I6 = L [THEN conjunct1] and I7 = L [THEN conjunct2, THEN conjunct1] and I8 = L [THEN conjunct2, THEN conjunct2]
  show rep: "f \<in> set (files s l) \<Longrightarrow> file_rep Z C fs f" for f l using I1 by blast
  show "f \<in> set (files s l) \<Longrightarrow> fnumber f \<le> file_id s" using I1 by blast
  show "distinct (files s l)" using I2 by blast
  show "l \<ge> kNumLevels \<Longrightarrow> files s l = []" using I4 by blast
  show "f \<in> set (files s l) \<Longrightarrow> g \<in> set (files s l') \<Longrightarrow> (l, f) \<noteq> (l', g) \<Longrightarrow> fnumber f \<noteq> fnumber g"
    "f \<in> set (files s l) \<Longrightarrow> g \<in> set (files s l') \<Longrightarrow> (l, f) \<noteq> (l', g) \<Longrightarrow> set (C fs (fnumber f)) \<inter> set (C fs (fnumber g)) = {}"
    using I5 [rule_format, of f l g l'] by simp_all
  show "unique_versions (all_writes C fs s)" by (rule I6)
  show "l < l' \<Longrightarrow> v \<in> level_writes C fs (files s l) \<Longrightarrow> w \<in> level_writes C fs (files s l') \<Longrightarrow> ukey v = ukey w \<Longrightarrow> seq w < seq v"
    using I7 by blast
  have ok: "file_ok f" if "f \<in> set (files s l)" for f l
    using rep [OF that] spans_bounds(1) by (auto simp: file_rep_def)
  show srt: "l > 0 \<Longrightarrow> level_sorted (files s l)" for l using I3 ok unfolding level_sorted_def by blast
  show "levels_ok s" unfolding levels_ok_def using ok srt I8 by blast
qed

lemma level_writes_bounds:
  assumes "lsm_inv Z C fs s" "f \<in> set (files s l)" "v \<in> set (C fs (fnumber f))"
  shows "smallest_user f \<le> ukey v" "ukey v \<le> largest_user f" "write_ok v" "seq v < kMaxSequenceNumber"
    "v \<in> level_writes C fs (files s l)" "v \<in> all_writes C fs s"
proof -
  have sp: "spans f (C fs (fnumber f))" using lsm_invD(1) [OF assms(1,2)] by (simp add: file_rep_def)
  show "smallest_user f \<le> ukey v" "ukey v \<le> largest_user f" using spans_bounds(2) [OF sp assms(3)] by simp_all
  show "write_ok v" "seq v < kMaxSequenceNumber" using sp assms(3) by (auto simp: spans_def run_ok_def)
  show "v \<in> level_writes C fs (files s l)" using assms(2,3) by (auto simp: level_writes_def)
  then show "v \<in> all_writes C fs s" by (auto simp: all_writes_def)
qed

lemma all_writes_ok:
  assumes "lsm_inv Z C fs s" "v \<in> all_writes C fs s"
  shows "write_ok v" "seq v < kMaxSequenceNumber"
proof -
  obtain l f where "f \<in> set (files s l)" "v \<in> set (C fs (fnumber f))" using assms(2) by (auto simp: all_writes_def level_writes_def)
  from level_writes_bounds(3,4) [OF assms(1) this] show "write_ok v" "seq v < kMaxSequenceNumber" .
qed

text \<open>What the tree relies on of the tables, for data that is not too large.\<close>

locale table_store = write_iter "tab_ops T" ok items pos
  for T :: "('fs, 'it) Tables" and ok :: "'it \<Rightarrow> bool" and items :: "'it \<Rightarrow> (slice \<times> slice) list" and pos :: "'it \<Rightarrow> nat" +
  fixes Z :: "'fs \<Rightarrow> 64 word \<Rightarrow> 64 word"
    and C :: "'fs \<Rightarrow> 64 word \<Rightarrow> mem_write list"
    and small :: "mem_write set \<Rightarrow> bool"
  assumes opened: "run_ok (C fs n) \<Longrightarrow> small (set (C fs n)) \<Longrightarrow>
      \<exists>it. open_table T fs n (Z fs n) = Some it \<and> ok it \<and> items it = map item_of (C fs n)"
    and written: "run_ok ws \<Longrightarrow> small (set ws) \<Longrightarrow>
      C (write_table T n (map item_of ws) fs) n = ws \<and> Z (write_table T n (map item_of ws) fs) n = final_size T (map item_of ws)"
    and others: "m \<noteq> n \<Longrightarrow> C (write_table T n es fs) m = C fs m \<and> Z (write_table T n es fs) m = Z fs m"
    and smaller: "small W \<Longrightarrow> V \<subseteq> W \<Longrightarrow> small V"
begin

text \<open>The runs of the sources of some files of a level: each table at level 0, their concatenation deeper down.\<close>

definition source_runs :: "'fs \<Rightarrow> nat \<Rightarrow> FileMetaData list \<Rightarrow> mem_write list list" where
  "source_runs fs lvl fl =
     (if fl = [] then [] else if lvl = 0 then map (\<lambda>f. C fs (fnumber f)) fl else [concat (map (\<lambda>f. C fs (fnumber f)) fl)])"

lemma set_source_runs: "\<Union> (set ` set (source_runs fs lvl fl)) = level_writes C fs fl"
  by (auto simp: source_runs_def level_writes_def)

lemma file_opens:
  assumes "lsm_inv Z C fs s" "small (all_writes C fs s)" "f \<in> set (files s l)"
  shows "opens (open_table T fs) f (C fs (fnumber f))"
proof -
  have rep: "file_rep Z C fs f" using lsm_invD(1) [OF assms(1,3)] .
  have "set (C fs (fnumber f)) \<subseteq> all_writes C fs s" using assms(3) by (auto simp: all_writes_def level_writes_def)
  then show ?thesis using rep opened [of fs "fnumber f"] smaller [OF assms(2)] by (auto simp: file_rep_def opens_def spans_def)
qed

lemma level_sources:
  assumes inv: "lsm_inv Z C fs s" "small (all_writes C fs s)" and fl: "set fl \<subseteq> set (files s lvl)" "lvl > 0 \<Longrightarrow> level_sorted fl"
  shows "list_all2 (\<lambda>x ws. \<exists>c. x = Some c \<and> cok (open_table T fs) c \<and> citems (open_table T fs) c = map item_of ws)
    (if fl = [] then [] else if lvl = 0 then table_iters (open_table T fs) fl else [map_option Inr (new_level_iter fl)])
    (source_runs fs lvl fl)"
proof -
  have op: "opens (open_table T fs) f (C fs (fnumber f))" if "f \<in> set fl" for f using file_opens [OF inv] that fl(1) by blast
  consider "fl = []" | "fl \<noteq> []" "lvl = 0" | "fl \<noteq> []" "lvl > 0" by auto
  then show ?thesis
  proof cases
    case 2
    have "\<exists>c. map_option Inl (open_table T fs (fnumber f) (file_size f)) = Some c \<and> cok (open_table T fs) c \<and>
        citems (open_table T fs) c = map item_of (C fs (fnumber f))" if "f \<in> set fl" for f
      using op [OF that] by (auto simp: opens_def cok_def citems_def)
    then show ?thesis using 2 by (auto simp: source_runs_def table_iters_def list_all2_conv_all_nth)
  next
    case 3
    from level_run [OF fl(2) [OF 3(2)], of "open_table T fs" "\<lambda>f. C fs (fnumber f)"] op
    obtain t where "new_level_iter fl = Some t" "cok (open_table T fs) (Inr t)"
      "citems (open_table T fs) (Inr t) = map item_of (concat (map (\<lambda>f. C fs (fnumber f)) fl))" by blast
    then show ?thesis using 3 by (simp add: source_runs_def)
  qed (simp add: source_runs_def)
qed

lemma source_runs_apart:
  assumes inv: "lsm_inv Z C fs s" and fl: "set fl \<subseteq> set (files s lvl)" "distinct fl"
  shows "sorted_wrt (\<lambda>us ws. set us \<inter> set ws = {}) (source_runs fs lvl fl)"
proof -
  have "sorted_wrt (\<lambda>f g. set (C fs (fnumber f)) \<inter> set (C fs (fnumber g)) = {}) fl"
  proof (rule sorted_wrt_mono_rel)
    show "sorted_wrt (\<noteq>) fl" by (rule distinct_wrt [OF fl(2)])
  next
    fix f g assume "f \<in> set fl" "g \<in> set fl" "f \<noteq> g"
    then show "set (C fs (fnumber f)) \<inter> set (C fs (fnumber g)) = {}"
      using lsm_invD(7) [OF inv, of f lvl g lvl] fl(1) by blast
  qed
  then show ?thesis by (simp add: source_runs_def sorted_wrt_map)
qed

lemma level_writes_apart:
  assumes "lsm_inv Z C fs s" "set fl \<subseteq> set (files s l)" "set gl \<subseteq> set (files s l')" "l < l'"
  shows "level_writes C fs fl \<inter> level_writes C fs gl = {}"
proof -
  have "v \<notin> level_writes C fs (files s l')" if "v \<in> level_writes C fs (files s l)" for v
    using lsm_invD(9) [OF assms(1,4) that, of v] by blast
  moreover have "level_writes C fs fl \<subseteq> level_writes C fs (files s l)" "level_writes C fs gl \<subseteq> level_writes C fs (files s l')"
    using assms(2,3) by (auto simp: level_writes_def)
  ultimately show ?thesis by blast
qed

lemma MakeInputIterator_ok:
  assumes inv: "lsm_inv Z C fs s" "small (all_writes C fs s)" and c: "complete_inputs s c"
  shows "\<exists>a ws okJ itemsJ posJ. MakeInputIterator (tab_ops T) (open_table T fs) c = Some a \<and>
    sorted_iter ikey_ok icmp (any_iterator icmp (lsm_child_iterator (tab_ops T) (open_table T fs))) okJ itemsJ posJ \<and> okJ a \<and>
    itemsJ a = map item_of ws \<and> sorted_wrt version_less ws \<and> set ws = level_writes C fs (inputs0 c) \<union> level_writes C fs (inputs1 c)"
proof -
  let ?l = "c_level c" and ?op = "open_table T fs"
  have sub: "set (inputs0 c) \<subseteq> set (files s ?l)" "set (inputs1 c) \<subseteq> set (files s (?l + 1))"
    and fil: "\<exists>P. inputs0 c = filter P (files s ?l)" "\<exists>P. inputs1 c = filter P (files s (?l + 1))"
    using c by (auto simp: complete_inputs_def selection_def)
  have srt: "?l > 0 \<Longrightarrow> level_sorted (inputs0 c)" "level_sorted (inputs1 c)"
    using fil lsm_invD(4) [OF inv(1), of ?l] lsm_invD(4) [OF inv(1), of "?l + 1"] by (auto simp: level_sorted_def sorted_wrt_filter)
  have dist: "distinct (inputs0 c)" "distinct (inputs1 c)" using fil lsm_invD(3) [OF inv(1)] by auto
  let ?Ws = "source_runs fs ?l (inputs0 c) @ source_runs fs (?l + 1) (inputs1 c)"
  from collect_options_ok [OF list_all2_appendI [OF level_sources [OF inv sub(1) srt(1)] level_sources [OF inv sub(2) srt(2)]]]
  obtain cs where cs: "collect_options
      ((if inputs0 c = [] then [] else if ?l = 0 then table_iters ?op (inputs0 c) else [map_option Inr (new_level_iter (inputs0 c))]) @
       (if inputs1 c = [] then [] else if ?l + 1 = 0 then table_iters ?op (inputs1 c) else [map_option Inr (new_level_iter (inputs1 c))])) = Some cs"
    "list_all2 (\<lambda>c ws. cok ?op c \<and> citems ?op c = map item_of ws) cs ?Ws" by blast
  have U: "\<Union> (set ` set ?Ws) = level_writes C fs (inputs0 c) \<union> level_writes C fs (inputs1 c)"
    unfolding set_append image_Un Union_Un_distrib set_source_runs ..
  have inW: "level_writes C fs (inputs0 c) \<union> level_writes C fs (inputs1 c) \<subseteq> all_writes C fs s"
    using sub by (auto simp: level_writes_def all_writes_def)
  have wok: "\<forall>ws \<in> set ?Ws. \<forall>w \<in> set ws. write_ok w"
  proof (intro ballI)
    fix ws w assume "ws \<in> set ?Ws" "w \<in> set ws"
    then have "w \<in> all_writes C fs s" using U inW by blast
    then show "write_ok w" by (rule all_writes_ok [OF inv(1)])
  qed
  have ap: "sorted_wrt (\<lambda>us ws. set us \<inter> set ws = {}) ?Ws"
  proof -
    have "set us \<inter> set ws = {}" if "us \<in> set (source_runs fs ?l (inputs0 c))" "ws \<in> set (source_runs fs (?l + 1) (inputs1 c))" for us ws
      using that level_writes_apart [OF inv(1) sub, of ] set_source_runs [of fs ?l "inputs0 c"] set_source_runs [of fs "?l + 1" "inputs1 c"]
      by fastforce
    then show ?thesis using source_runs_apart [OF inv(1) sub(1) dist(1)] source_runs_apart [OF inv(1) sub(2) dist(2)]
      unfolding sorted_wrt_append by blast
  qed
  have uv: "unique_versions (\<Union> (set ` set ?Ws))" unfolding U by (rule inj_on_subset [OF lsm_invD(8) [OF inv(1)] inW])
  from merge_children [OF cs(2) wok ap uv] show ?thesis unfolding U MakeInputIterator_def Let_def add_0_right cs(1) Option.bind.simps .
qed

text \<open>The iterator over the whole tree.\<close>

lemma AddIterators_levels:
  "AddIterators op s = collect_options (concat (map (\<lambda>l. if files s l = [] then [] else if l = 0 then table_iters op (files s l)
      else [map_option Inr (new_level_iter (files s l))]) [0..<kNumLevels]))"
proof -
  have "concat (map (\<lambda>l. if files s l = [] then [] else if l = 0 then table_iters op (files s l)
      else [map_option Inr (new_level_iter (files s l))]) ls) =
    map (\<lambda>l. map_option Inr (new_level_iter (files s l))) (filter (\<lambda>l. files s l \<noteq> []) ls)" if "0 \<notin> set ls" for ls
    using that by (induction ls) auto
  from this [of "[1..<kNumLevels]"] have rest: "concat (map (\<lambda>l. if files s l = [] then [] else if l = 0 then table_iters op (files s l)
      else [map_option Inr (new_level_iter (files s l))]) [1..<kNumLevels]) =
    map (\<lambda>l. map_option Inr (new_level_iter (files s l))) (filter (\<lambda>l. files s l \<noteq> []) [1..<kNumLevels])" by simp
  have ls: "[0..<kNumLevels] = 0 # [1..<kNumLevels]" by (simp add: upt_conv_Cons kNumLevels_def)
  show ?thesis unfolding AddIterators_def ls list.map concat.simps rest by (simp add: table_iters_def)
qed

lemma NewMergedIterator_ok:
  assumes inv: "lsm_inv Z C fs s" "small (all_writes C fs s)"
  shows "\<exists>a ws okJ itemsJ posJ. NewMergedIterator (tab_ops T) (open_table T fs) s = Some a \<and>
    sorted_iter ikey_ok icmp (any_iterator icmp (lsm_child_iterator (tab_ops T) (open_table T fs))) okJ itemsJ posJ \<and> okJ a \<and>
    itemsJ a = map item_of ws \<and> sorted_wrt version_less ws \<and> set ws = all_writes C fs s"
proof -
  let ?op = "open_table T fs" and ?run = "\<lambda>l. source_runs fs l (files s l)"
  let ?src = "\<lambda>l. if files s l = [] then [] else if l = 0 then table_iters ?op (files s l) else [map_option Inr (new_level_iter (files s l))]"
  have all: "list_all2 (\<lambda>x ws. \<exists>c. x = Some c \<and> cok ?op c \<and> citems ?op c = map item_of ws) (concat (map ?src ls)) (concat (map ?run ls))" for ls
  proof (induction ls)
    case (Cons l ls)
    show ?case using list_all2_appendI [OF level_sources [OF inv subset_refl lsm_invD(4) [OF inv(1)]] Cons] by simp
  qed simp
  let ?Ws = "concat (map ?run [0..<kNumLevels])"
  obtain cs where cs: "collect_options (concat (map ?src [0..<kNumLevels])) = Some cs"
    "list_all2 (\<lambda>c ws. cok ?op c \<and> citems ?op c = map item_of ws) cs ?Ws"
    using collect_options_ok [OF all [of "[0..<kNumLevels]"]] by blast
  have U: "\<Union> (set ` set ?Ws) = all_writes C fs s"
  proof -
    have "\<Union> (set ` set ?Ws) = (\<Union>l < kNumLevels. \<Union> (set ` set (?run l)))" by auto
    also have "\<dots> = all_writes C fs s"
      unfolding set_source_runs all_writes_def level_writes_def using lsm_invD(5) [OF inv(1)] by (force simp: not_less [symmetric])
    finally show ?thesis .
  qed
  have wok: "\<forall>ws \<in> set ?Ws. \<forall>w \<in> set ws. write_ok w" using all_writes_ok(1) [OF inv(1)] U by blast
  have sub: "set us \<subseteq> level_writes C fs (files s l)" if "us \<in> set (?run l)" for us l
    using that set_source_runs [of fs l "files s l"] by blast
  have ap: "sorted_wrt (\<lambda>us ws. set us \<inter> set ws = {}) (concat (map ?run ls))" if "sorted_wrt (<) ls" for ls
    using that
  proof (induction ls)
    case (Cons l ls)
    have "set us \<inter> set ws = {}" if "us \<in> set (?run l)" "l' \<in> set ls" "ws \<in> set (?run l')" for us ws l'
    proof -
      have "l < l'" using Cons.prems that(2) by simp
      then show ?thesis using level_writes_apart [OF inv(1) subset_refl subset_refl] sub [OF that(1)] sub [OF that(3)] by blast
    qed
    then show ?case using Cons source_runs_apart [OF inv(1) subset_refl lsm_invD(3) [OF inv(1)]] by (auto simp: sorted_wrt_append)
  qed simp
  have uv: "unique_versions (\<Union> (set ` set ?Ws))" unfolding U by (rule lsm_invD(8) [OF inv(1)])
  from merge_children [OF cs(2) wok ap uv] show ?thesis
    unfolding U NewMergedIterator_def AddIterators_levels cs(1) Option.bind.simps by simp
qed

end

end
