(* ===== verification/LsmCompact.thy ===== *)
theory LsmCompact
  imports LsmStore
begin

text \<open>
  A compaction of an LSM tree changes nothing a reader sees: it replaces its input files by files with the newest versions
  of their keys, less the deletions with nothing below, and keeps the invariant of the tree.
\<close>

section \<open>Other versions of the input keys\<close>

definition input_writes :: "('fs \<Rightarrow> 64 word \<Rightarrow> mem_write list) \<Rightarrow> 'fs \<Rightarrow> LevelDBCompaction \<Rightarrow> mem_write set" where
  "input_writes C fs c = level_writes C fs (inputs0 c) \<union> level_writes C fs (inputs1 c)"

definition is_input :: "LevelDBCompaction \<Rightarrow> nat \<Rightarrow> FileMetaData \<Rightarrow> bool" where
  "is_input c l f \<longleftrightarrow> l = c_level c \<and> f \<in> set (inputs0 c) \<or> l = c_level c + 1 \<and> f \<in> set (inputs1 c)"

lemma input_file:
  assumes "complete_inputs s c" "v \<in> input_writes C fs c"
  obtains f where "f \<in> set (inputs0 c)" "f \<in> set (files s (c_level c))" "v \<in> set (C fs (fnumber f))"
  | f where "f \<in> set (inputs1 c)" "f \<in> set (files s (c_level c + 1))" "v \<in> set (C fs (fnumber f))"
  using assms selection_subset [of "files s (c_level c)" "inputs0 c"]
  by (auto simp: input_writes_def level_writes_def complete_inputs_def)

lemma inputs_subset: "complete_inputs s c \<Longrightarrow> is_input c l f \<Longrightarrow> f \<in> set (files s l)"
  using selection_subset [of "files s (c_level c)" "inputs0 c"] by (auto simp: is_input_def complete_inputs_def)

lemma input_writes_subset: "complete_inputs s c \<Longrightarrow> input_writes C fs c \<subseteq> all_writes C fs s"
  using inputs_subset [of s c] by (fastforce simp: input_writes_def level_writes_def all_writes_def is_input_def)

lemma input_key_order:
  assumes inv: "lsm_inv Z C fs s" and c: "complete_inputs s c" and v: "v \<in> input_writes C fs c"
    and g: "g \<in> set (files s l)" "\<not> is_input c l g" and r: "r \<in> set (C fs (fnumber g))" "ukey r = ukey v"
  shows "l \<le> c_level c \<and> seq v < seq r \<or> c_level c + 2 \<le> l \<and> seq r < seq v"
proof -
  let ?l = "c_level c"
  note newer = lsm_invD(9) [OF inv]
  note rb = level_writes_bounds [OF inv g(1) r(1)]
  obtain b e where be: "inputs1 c = filter (touches b e) (files s (?l + 1))"
    "\<forall>f \<in> set (inputs0 c). b \<le> smallest_user f \<and> largest_user f \<le> e" using c by (auto simp: complete_inputs_def)
  show ?thesis using c v
  proof (cases rule: input_file)
    case (1 f)
    note fb = level_writes_bounds [OF inv 1(2,3)]
    have "l \<noteq> ?l"
    proof
      assume l: "l = ?l"
      have "selection (files s ?l) (inputs0 c)" using c by (simp add: complete_inputs_def)
      from selection_member [OF this 1(1), of g "ukey v"] have "g \<in> set (inputs0 c)" using g(1) l fb rb r(2) by simp
      then show False using g(2) l by (simp add: is_input_def)
    qed
    moreover have "l \<noteq> ?l + 1"
    proof
      assume l: "l = ?l + 1"
      have "b \<le> smallest_user f" "largest_user f \<le> e" using be(2) 1(1) by blast+
      then have "touches b e g" using fb(1,2) rb(1,2) r(2) unfolding touches_def by (intro conjI; order)
      then show False using g l be(1) by (simp add: is_input_def)
    qed
    ultimately consider "l < ?l" | "?l + 2 \<le> l" by linarith
    then show ?thesis using newer [of l ?l r v] newer [of ?l l v r] fb(5) rb(5) r(2) by cases simp_all
  next
    case (2 f)
    note fb = level_writes_bounds [OF inv 2(2,3)]
    have "l \<noteq> ?l + 1"
    proof
      assume l: "l = ?l + 1"
      have "selection (files s (?l + 1)) (inputs1 c)" unfolding be(1) by (rule selection_deep) (use lsm_invD(4) [OF inv] in simp)
      from selection_member [OF this 2(1), of g "ukey v"] have "g \<in> set (inputs1 c)" using g(1) l fb rb r(2) by simp
      then show False using g(2) l by (simp add: is_input_def)
    qed
    then consider "l \<le> ?l" | "?l + 2 \<le> l" by linarith
    then show ?thesis using newer [of l "?l + 1" r v] newer [of "?l + 1" l v r] fb(5) rb(5) r(2) by cases simp_all
  qed
qed

text \<open>A file of the next level that stays lies on one side of all input keys.\<close>

lemma input_keys_side:
  assumes inv: "lsm_inv Z C fs s" and c: "complete_inputs s c"
    and g: "g \<in> set (files s (c_level c + 1))" "g \<notin> set (inputs1 c)"
  shows "(\<forall>v \<in> input_writes C fs c. largest_user g < ukey v) \<or> (\<forall>v \<in> input_writes C fs c. ukey v < smallest_user g)"
proof -
  let ?l = "c_level c"
  have L: "level_sorted (files s (?l + 1))" using lsm_invD(4) [OF inv] by simp
  have ok: "smallest_user f \<le> largest_user f" if "f \<in> set (files s (?l + 1))" for f
    using L that file_okD(1) by (auto simp: level_sorted_def)
  obtain b e where be: "inputs1 c = filter (touches b e) (files s (?l + 1))"
    "\<forall>f \<in> set (inputs0 c). b \<le> smallest_user f \<and> largest_user f \<le> e" using c by (auto simp: complete_inputs_def)
  have in1: "b \<le> largest_user f" "smallest_user f \<le> e" "precedes f g \<or> precedes g f" if "f \<in> set (inputs1 c)" for f
    using that level_disjoint [OF L _ g(1), of f] g(2) by (auto simp: be(1) touches_def)
  have "\<not> touches b e g" using g be(1) by auto
  then consider "largest_user g < b" | "e < smallest_user g" by (auto simp: touches_def not_le)
  then show ?thesis
  proof cases
    case 1
    have "largest_user g < ukey v" if v: "v \<in> input_writes C fs c" for v using c v
    proof (cases rule: input_file)
      case (1 f)
      have "b \<le> smallest_user f" using be(2) 1(1) by blast
      then show ?thesis using level_writes_bounds(1) [OF inv 1(2,3)] \<open>largest_user g < b\<close> by order
    next
      case (2 f)
      have "\<not> precedes f g" using in1(1) [OF 2(1)] ok [OF g(1)] \<open>largest_user g < b\<close> by auto
      then have "precedes g f" using in1(3) [OF 2(1)] by blast
      then show ?thesis using level_writes_bounds(1) [OF inv 2(2,3)] by order
    qed
    then show ?thesis by blast
  next
    case 2
    have "ukey v < smallest_user g" if v: "v \<in> input_writes C fs c" for v using c v
    proof (cases rule: input_file)
      case (1 f)
      have "largest_user f \<le> e" using be(2) 1(1) by blast
      then show ?thesis using level_writes_bounds(2) [OF inv 1(2,3)] \<open>e < smallest_user g\<close> by order
    next
      case (2 f)
      have "\<not> precedes g f" using in1(2) [OF 2(1)] ok [OF g(1)] \<open>e < smallest_user g\<close> by auto
      then have "precedes f g" using in1(3) [OF 2(1)] by blast
      then show ?thesis using level_writes_bounds(2) [OF inv 2(2,3)] by order
    qed
    then show ?thesis by blast
  qed
qed

section \<open>Replacing the inputs\<close>

text \<open>
  The files \<open>outs\<close> take the place of the inputs at the next level; they hold some of the versions of the inputs.
\<close>

definition replaced :: "('fs \<Rightarrow> 64 word \<Rightarrow> 64 word) \<Rightarrow> ('fs \<Rightarrow> 64 word \<Rightarrow> mem_write list) \<Rightarrow> LevelDBCompaction \<Rightarrow> FileMetaData list \<Rightarrow>
    'fs \<Rightarrow> lsmt \<Rightarrow> 'fs \<Rightarrow> lsmt \<Rightarrow> bool" where
  "replaced Z C c outs fs s fs' s' \<longleftrightarrow>
     (\<forall>l. set (files s' l) = {f \<in> set (files s l). \<not> is_input c l f} \<union> (if l = c_level c + 1 then set outs else {})) \<and>
     (\<forall>l. distinct (files s' l)) \<and> level_sorted (files s' (c_level c + 1)) \<and>
     (\<forall>l. l \<noteq> c_level c + 1 \<longrightarrow> l > 0 \<longrightarrow> sorted_wrt precedes (files s' l)) \<and>
     (\<forall>l. \<forall>f \<in> set (files s l). \<not> is_input c l f \<longrightarrow> C fs' (fnumber f) = C fs (fnumber f) \<and> Z fs' (fnumber f) = Z fs (fnumber f)) \<and>
     (\<forall>f \<in> set outs. file_rep Z C fs' f \<and> fnumber f \<le> file_id s' \<and> set (C fs' (fnumber f)) \<subseteq> input_writes C fs c \<and>
        (\<forall>l. \<forall>g \<in> set (files s l). \<not> is_input c l g \<longrightarrow> fnumber f \<noteq> fnumber g)) \<and>
     (\<forall>f \<in> set outs. \<forall>g \<in> set outs. f \<noteq> g \<longrightarrow> fnumber f \<noteq> fnumber g) \<and>
     file_id s \<le> file_id s' \<and> level_limit s' = level_limit s"

lemma replacedD:
  assumes "replaced Z C c outs fs s fs' s'"
  shows "set (files s' l) = {f \<in> set (files s l). \<not> is_input c l f} \<union> (if l = c_level c + 1 then set outs else {})"
    "distinct (files s' l)" "l > 0 \<Longrightarrow> sorted_wrt precedes (files s' l)"
    "f \<in> set (files s l) \<Longrightarrow> \<not> is_input c l f \<Longrightarrow> C fs' (fnumber f) = C fs (fnumber f)"
    "f \<in> set outs \<Longrightarrow> file_rep Z C fs' f" "f \<in> set outs \<Longrightarrow> fnumber f \<le> file_id s'"
    "f \<in> set outs \<Longrightarrow> set (C fs' (fnumber f)) \<subseteq> input_writes C fs c"
    "f \<in> set outs \<Longrightarrow> g \<in> set (files s l) \<Longrightarrow> \<not> is_input c l g \<Longrightarrow> fnumber f \<noteq> fnumber g"
    "f \<in> set outs \<Longrightarrow> g \<in> set outs \<Longrightarrow> f \<noteq> g \<Longrightarrow> fnumber f \<noteq> fnumber g"
    "file_id s \<le> file_id s'" "level_limit s' = level_limit s"
    "f \<in> set (files s l) \<Longrightarrow> \<not> is_input c l f \<Longrightarrow> Z fs' (fnumber f) = Z fs (fnumber f)"
proof -
  note I = assms [unfolded replaced_def]
  note R1 = I [THEN conjunct1] and J = I [THEN conjunct2]
  note R2 = J [THEN conjunct1] and R3 = J [THEN conjunct2, THEN conjunct1] and K = J [THEN conjunct2, THEN conjunct2]
  note R4 = K [THEN conjunct1] and R5 = K [THEN conjunct2, THEN conjunct1] and L = K [THEN conjunct2, THEN conjunct2]
  note R6 = L [THEN conjunct1] and R7 = L [THEN conjunct2, THEN conjunct1] and R8 = L [THEN conjunct2, THEN conjunct2]
  show "set (files s' l) = {f \<in> set (files s l). \<not> is_input c l f} \<union> (if l = c_level c + 1 then set outs else {})" using R1 by blast
  show "distinct (files s' l)" using R2 by blast
  show "l > 0 \<Longrightarrow> sorted_wrt precedes (files s' l)" using R3 R4 by (cases "l = c_level c + 1") (auto simp: level_sorted_def)
  show "f \<in> set (files s l) \<Longrightarrow> \<not> is_input c l f \<Longrightarrow> C fs' (fnumber f) = C fs (fnumber f)"
    "f \<in> set (files s l) \<Longrightarrow> \<not> is_input c l f \<Longrightarrow> Z fs' (fnumber f) = Z fs (fnumber f)" using R5 by blast+
  show "f \<in> set outs \<Longrightarrow> file_rep Z C fs' f" "f \<in> set outs \<Longrightarrow> fnumber f \<le> file_id s'"
    "f \<in> set outs \<Longrightarrow> set (C fs' (fnumber f)) \<subseteq> input_writes C fs c"
    "f \<in> set outs \<Longrightarrow> g \<in> set (files s l) \<Longrightarrow> \<not> is_input c l g \<Longrightarrow> fnumber f \<noteq> fnumber g" using R6 by blast+
  show "f \<in> set outs \<Longrightarrow> g \<in> set outs \<Longrightarrow> f \<noteq> g \<Longrightarrow> fnumber f \<noteq> fnumber g" using R7 by blast
  show "file_id s \<le> file_id s'" "level_limit s' = level_limit s" using R8 by blast+
qed

lemma other_writes:
  assumes inv: "lsm_inv Z C fs s" and c: "complete_inputs s c" and f: "f \<in> set (files s l)" "\<not> is_input c l f" "v \<in> set (C fs (fnumber f))"
  shows "v \<notin> input_writes C fs c"
proof
  assume "v \<in> input_writes C fs c"
  from input_key_order [OF inv c this f refl] show False by auto
qed

lemma replaced_writes:
  assumes inv: "lsm_inv Z C fs s" and c: "complete_inputs s c" and r: "replaced Z C c outs fs s fs' s'"
  shows "all_writes C fs' s' = (all_writes C fs s - input_writes C fs c) \<union> level_writes C fs' outs"
    "level_writes C fs' outs \<subseteq> input_writes C fs c"
proof -
  note D = replacedD [OF r]
  show sub: "level_writes C fs' outs \<subseteq> input_writes C fs c" using D(7) by (auto simp: level_writes_def)
  have stay: "(\<Union>l. \<Union>f \<in> {f \<in> set (files s l). \<not> is_input c l f}. set (C fs (fnumber f))) = all_writes C fs s - input_writes C fs c" (is "?A = ?B")
  proof
    show "?A \<subseteq> ?B" using other_writes [OF inv c] by (fastforce simp: all_writes_def level_writes_def)
    show "?B \<subseteq> ?A" by (fastforce simp: all_writes_def level_writes_def input_writes_def is_input_def)
  qed
  have lev: "level_writes C fs' (files s' l) = (\<Union>f \<in> {f \<in> set (files s l). \<not> is_input c l f}. set (C fs (fnumber f))) \<union>
      (if l = c_level c + 1 then level_writes C fs' outs else {})" for l
    unfolding level_writes_def D(1) using D(4) [of _ l] by auto
  have "all_writes C fs' s' = (\<Union>l. \<Union>f \<in> {f \<in> set (files s l). \<not> is_input c l f}. set (C fs (fnumber f))) \<union> level_writes C fs' outs"
    unfolding all_writes_def lev by (auto split: if_splits)
  then show "all_writes C fs' s' = (all_writes C fs s - input_writes C fs c) \<union> level_writes C fs' outs" unfolding stay .
qed

lemma replaced_inv:
  assumes inv: "lsm_inv Z C fs s" and c: "complete_inputs s c" and r: "replaced Z C c outs fs s fs' s'"
  shows "lsm_inv Z C fs' s'"
proof -
  note D = replacedD [OF r] and I = lsm_invD [OF inv]
  let ?l = "c_level c"
  have cl: "?l + 1 < kNumLevels" using c by (simp add: complete_inputs_def)
  have old: "file_rep Z C fs' f" if "f \<in> set (files s l)" "\<not> is_input c l f" for f l
    using I(1) [OF that(1)] D(4,12) [OF that] by (simp add: file_rep_def)
  have srt: "sorted_wrt precedes (files s' l)" if "l > 0" for l by (rule D(3) [OF that])
  have cases_new: "f \<in> set (files s l) \<and> \<not> is_input c l f \<and> C fs' (fnumber f) = C fs (fnumber f) \<or> l = ?l + 1 \<and> f \<in> set outs"
    if "f \<in> set (files s' l)" for f l using that D(1) [of l] D(4) [of f l] by (auto split: if_splits)
  have "file_rep Z C fs' f \<and> fnumber f \<le> file_id s'" if "f \<in> set (files s' l)" for f l
    using cases_new [OF that] old [of f l] I(2) [of f l] D(5,6) [of f] D(10) by (auto intro: order.trans)
  moreover have "fnumber f \<noteq> fnumber g \<and> set (C fs' (fnumber f)) \<inter> set (C fs' (fnumber g)) = {}"
    if fg: "f \<in> set (files s' l)" "g \<in> set (files s' l')" "(l, f) \<noteq> (l', g)" for l l' f g
  proof -
    have new_old: "fnumber h \<noteq> fnumber g \<and> set (C fs' (fnumber h)) \<inter> set (C fs' (fnumber g)) = {}"
      if "h \<in> set outs" "g \<in> set (files s l)" "\<not> is_input c l g" for h g l
      using D(8) [OF that] D(7) [OF that(1)] D(4) [OF that(2,3)] other_writes [OF inv c that(2,3)] by auto
    have new_new: "fnumber f \<noteq> fnumber g \<and> set (C fs' (fnumber f)) \<inter> set (C fs' (fnumber g)) = {}"
      if o: "f \<in> set outs" "g \<in> set outs" "f \<noteq> g" for f g
    proof -
      have L: "level_sorted (files s' (?l + 1))" using r by (simp add: replaced_def)
      have mem: "f \<in> set (files s' (?l + 1))" "g \<in> set (files s' (?l + 1))" using o(1,2) D(1) by auto
      have sp: "spans f (C fs' (fnumber f))" "spans g (C fs' (fnumber g))" using D(5) o(1,2) by (auto simp: file_rep_def)
      have "v \<notin> set (C fs' (fnumber g))" if "v \<in> set (C fs' (fnumber f))" for v
        using level_disjoint [OF L mem o(3)] spans_bounds(2) [OF sp(1) that] spans_bounds(2) [OF sp(2), of v] by force
      then show ?thesis using D(9) [OF o] by blast
    qed
    show ?thesis using cases_new [OF fg(1)] cases_new [OF fg(2)]
    proof (elim disjE conjE)
      assume o: "f \<in> set (files s l)" "\<not> is_input c l f" "C fs' (fnumber f) = C fs (fnumber f)"
        "g \<in> set (files s l')" "\<not> is_input c l' g" "C fs' (fnumber g) = C fs (fnumber g)"
      show ?thesis using I(6,7) [OF o(1,4) fg(3)] o(3,6) by simp
    next
      assume o: "f \<in> set (files s l)" "\<not> is_input c l f" "g \<in> set outs"
      show ?thesis using new_old [OF o(3,1,2)] by auto
    next
      assume o: "g \<in> set (files s l')" "\<not> is_input c l' g" "f \<in> set outs"
      show ?thesis by (rule new_old [OF o(3,1,2)])
    next
      assume o: "f \<in> set outs" "g \<in> set outs" "l = ?l + 1" "l' = ?l + 1"
      show ?thesis using new_new [OF o(1,2)] fg(3) o(3,4) by auto
    qed
  qed
  moreover have "unique_versions (all_writes C fs' s')"
    by (rule inj_on_subset [OF I(8)]) (use replaced_writes [OF inv c r] input_writes_subset [OF c, of C fs] in auto)
  moreover have "seq w < seq v"
    if lt: "l < l'" and v: "v \<in> level_writes C fs' (files s' l)" and w: "w \<in> level_writes C fs' (files s' l')" and k: "ukey v = ukey w" for l l' v w
  proof -
    obtain f g where f: "f \<in> set (files s' l)" "v \<in> set (C fs' (fnumber f))" and g: "g \<in> set (files s' l')" "w \<in> set (C fs' (fnumber g))"
      using v w by (auto simp: level_writes_def)
    show ?thesis using cases_new [OF f(1)] cases_new [OF g(1)]
    proof (elim disjE conjE)
      assume o: "f \<in> set (files s l)" "C fs' (fnumber f) = C fs (fnumber f)" "g \<in> set (files s l')" "C fs' (fnumber g) = C fs (fnumber g)"
      show ?thesis
        by (rule I(9) [OF lt _ _ k]) (use f(2) g(2) o in \<open>auto simp: level_writes_def\<close>)
    next
      assume o: "f \<in> set (files s l)" "\<not> is_input c l f" "C fs' (fnumber f) = C fs (fnumber f)" "l' = ?l + 1" "g \<in> set outs"
      have "w \<in> input_writes C fs c" using D(7) [OF o(5)] g(2) by blast
      from input_key_order [OF inv c this o(1,2) _ k] show ?thesis using f(2) o(3,4) lt by auto
    next
      assume o: "g \<in> set (files s l')" "\<not> is_input c l' g" "C fs' (fnumber g) = C fs (fnumber g)" "l = ?l + 1" "f \<in> set outs"
      have "v \<in> input_writes C fs c" using D(7) [OF o(5)] f(2) by blast
      from input_key_order [OF inv c this o(1,2) _ k [symmetric]] show ?thesis using g(2) o(3,4) lt by auto
    next
      assume "l = ?l + 1" "l' = ?l + 1"
      then show ?thesis using lt by simp
    qed
  qed
  moreover have "files s' l = []" if "l \<ge> kNumLevels" for l using D(1) [of l] I(5) [OF that] that cl by auto
  moreover have "level_limit s' \<le> int kNumLevels" using I(10) D(11) by (simp add: levels_ok_def)
  ultimately show ?thesis using D(2) srt unfolding lsm_inv_def by blast
qed

section \<open>The output files\<close>

lemma concat_map_pieces:
  assumes "concat xss = map f ys"
  shows "\<exists>yss. xss = map (map f) yss \<and> concat yss = ys"
  using assms
proof (induction xss arbitrary: ys)
  case Nil
  then show ?case by (intro exI [of _ "[]"]) simp
next
  case (Cons xs xss)
  let ?n = "length xs"
  have e: "xs @ concat xss = map f ys" using Cons.prems by simp
  then have n: "xs = map f (take ?n ys)" "concat xss = map f (drop ?n ys)"
    by (simp_all add: take_map [symmetric] drop_map [symmetric] flip: e)
  from Cons.IH [OF n(2)] obtain yss where "xss = map (map f) yss" "concat yss = drop ?n ys" by blast
  then show ?case using n(1) by (intro exI [of _ "take ?n ys # yss"]) simp
qed

lemma kept_user_sorted:
  assumes ws: "sorted_wrt version_less ws" "\<forall>w \<in> set ws. write_ok w" "unique_versions (set ws)"
  shows "sorted_wrt (\<lambda>v w. ukey v < ukey w) (kept base None ws)"
proof (rule sorted_wrt_mono_rel [OF _ kept_sorted [OF ws(1)]])
  fix v w assume vw: "v \<in> set (kept base None ws)" "w \<in> set (kept base None ws)" "version_less v w"
  note K = set_kept [OF ws, of None _ base, simplified]
  show "ukey v < ukey w"
  proof (rule ccontr)
    assume "\<not> ukey v < ukey w"
    then have e: "ukey v = ukey w" using version_less_user [OF vw(3)] by simp
    have "seq v \<le> seq w" "seq w \<le> seq v" using K [of v] K [of w] vw(1,2) e by auto
    then have "(ukey v, seq v) = (ukey w, seq w)" using e by simp
    then have "v = w" by (rule inj_onD [OF ws(3)]) (use vw kept_subset in blast)+
    then show False using vw(3) by (simp add: version_less_def)
  qed
qed

lemma sorted_concat_pair:
  assumes "sorted_wrt P (concat xss)" "i < j" "j < length xss" "x \<in> set (xss ! i)" "y \<in> set (xss ! j)"
  shows "P x y"
  using assms
proof (induction xss arbitrary: i j)
  case (Cons xs xss)
  show ?case
  proof (cases i)
    case 0
    then have "y \<in> set (concat xss)" using Cons.prems(2,3,5) by (cases j) auto
    then show ?thesis using Cons.prems(1,4) 0 by (auto simp: sorted_wrt_append)
  next
    case (Suc i')
    then obtain j' where "j = Suc j'" using Cons.prems(2) by (cases j) auto
    then show ?thesis using Cons Suc by (auto simp: sorted_wrt_append)
  qed
qed simp

lemma unat_of_nat_64: "m < 2 ^ 64 \<Longrightarrow> unat (of_nat m :: 64 word) = m"
  by (simp add: unat_of_nat take_bit_nat_eq_self)

lemma output_numbers:
  assumes "unat fid + 2 * n < 2 ^ 64" "i < n" "j < n"
  shows "unat (fid + 2 * of_nat (Suc i) :: 64 word) = unat fid + 2 * Suc i"
    "fid + 2 * of_nat (Suc i) = (fid + 2 * of_nat (Suc j) :: 64 word) \<Longrightarrow> i = j"
proof -
  have u: "unat (fid + 2 * of_nat (Suc k) :: 64 word) = unat fid + 2 * Suc k" if "k < n" for k
  proof -
    have "2 * of_nat (Suc k) = (of_nat (2 * Suc k) :: 64 word)" by simp
    moreover have "unat (of_nat (2 * Suc k) :: 64 word) = 2 * Suc k"
      by (rule unat_of_nat_64) (use assms(1) that in simp)
    ultimately have "unat (2 * of_nat (Suc k) :: 64 word) = 2 * Suc k" by metis
    moreover have "unat fid + 2 * Suc k < 2 ^ LENGTH(64)" using assms(1) that by simp
    ultimately show ?thesis using unat_add_lem [of fid "2 * of_nat (Suc k)"] by metis
  qed
  show "unat (fid + 2 * of_nat (Suc i) :: 64 word) = unat fid + 2 * Suc i" by (rule u [OF assms(2)])
  assume "fid + 2 * of_nat (Suc i) = (fid + 2 * of_nat (Suc j) :: 64 word)"
  then show "i = j" using u [OF assms(2)] u [OF assms(3)] by simp
qed

context table_store
begin

lemma write_outputs_contents:
  assumes "distinct (map o_number outs)" "length Ks = length outs"
    "\<And>i. i < length outs \<Longrightarrow> o_entries (outs ! i) = map item_of (Ks ! i) \<and> run_ok (Ks ! i) \<and> small (set (Ks ! i))"
  shows "\<And>i. i < length outs \<Longrightarrow> C (write_outputs T outs fs) (o_number (outs ! i)) = Ks ! i \<and>
      Z (write_outputs T outs fs) (o_number (outs ! i)) = final_size T (map item_of (Ks ! i))"
    "m \<notin> o_number ` set outs \<Longrightarrow> C (write_outputs T outs fs) m = C fs m \<and> Z (write_outputs T outs fs) m = Z fs m"
proof -
  have "(\<forall>i < length outs. C (write_outputs T outs fs) (o_number (outs ! i)) = Ks ! i \<and>
      Z (write_outputs T outs fs) (o_number (outs ! i)) = final_size T (map item_of (Ks ! i))) \<and>
    (\<forall>m. m \<notin> o_number ` set outs \<longrightarrow> C (write_outputs T outs fs) m = C fs m \<and> Z (write_outputs T outs fs) m = Z fs m)"
    using assms
  proof (induction outs arbitrary: Ks rule: rev_induct)
    case (snoc out outs)
    let ?fs = "write_outputs T outs fs"
    have W: "write_outputs T (outs @ [out]) fs = write_table T (o_number out) (o_entries out) ?fs" by (simp add: write_outputs_def)
    have pre: "\<And>i. i < length outs \<Longrightarrow> o_entries (outs ! i) = map item_of (butlast Ks ! i) \<and> run_ok (butlast Ks ! i) \<and> small (set (butlast Ks ! i))"
    proof -
      fix i assume i: "i < length outs"
      then have "(outs @ [out]) ! i = outs ! i" "butlast Ks ! i = Ks ! i" using snoc.prems(2) by (simp_all add: nth_append nth_butlast)
      then show "o_entries (outs ! i) = map item_of (butlast Ks ! i) \<and> run_ok (butlast Ks ! i) \<and> small (set (butlast Ks ! i))"
        using snoc.prems(3) [of i] i by simp
    qed
    have IH: "\<forall>i < length outs. C ?fs (o_number (outs ! i)) = butlast Ks ! i \<and> Z ?fs (o_number (outs ! i)) = final_size T (map item_of (butlast Ks ! i))"
      "\<forall>m. m \<notin> o_number ` set outs \<longrightarrow> C ?fs m = C fs m \<and> Z ?fs m = Z fs m"
      using snoc.IH [of "butlast Ks", OF _ _ pre] snoc.prems(1,2) by simp_all
    have last: "o_entries out = map item_of (Ks ! length outs)" "run_ok (Ks ! length outs)" "small (set (Ks ! length outs))"
      using snoc.prems(3) [of "length outs"] by simp_all
    have "C (write_outputs T (outs @ [out]) fs) (o_number ((outs @ [out]) ! i)) = Ks ! i \<and>
        Z (write_outputs T (outs @ [out]) fs) (o_number ((outs @ [out]) ! i)) = final_size T (map item_of (Ks ! i))" if "i < length (outs @ [out])" for i
    proof (cases "i = length outs")
      case True
      then show ?thesis using written [OF last(2,3), of "o_number out" ?fs] W last(1) by simp
    next
      case False
      then have i: "i < length outs" using that by simp
      then have "o_number (outs ! i) \<in> o_number ` set outs" by (intro imageI nth_mem)
      then have "o_number (outs ! i) \<noteq> o_number out" using snoc.prems(1) by auto
      then show ?thesis using IH(1) i others [of "o_number (outs ! i)" "o_number out" "o_entries out" ?fs] W snoc.prems(2)
        by (simp add: nth_append nth_butlast)
    qed
    moreover have "C (write_outputs T (outs @ [out]) fs) m = C fs m \<and> Z (write_outputs T (outs @ [out]) fs) m = Z fs m" if "m \<notin> o_number ` set (outs @ [out])" for m
      using that IH(2) others [of m "o_number out" "o_entries out" ?fs] W by simp
    ultimately show ?case by blast
  qed (simp add: write_outputs_def)
  then show "\<And>i. i < length outs \<Longrightarrow> C (write_outputs T outs fs) (o_number (outs ! i)) = Ks ! i \<and>
      Z (write_outputs T outs fs) (o_number (outs ! i)) = final_size T (map item_of (Ks ! i))"
    "m \<notin> o_number ` set outs \<Longrightarrow> C (write_outputs T outs fs) m = C fs m \<and> Z (write_outputs T outs fs) m = Z fs m" by blast+
qed

end

section \<open>Installing the results\<close>

lemma alive_inputs:
  assumes inv: "lsm_inv Z C fs s" and A: "A \<subseteq> set (files s l)"
  shows "set (alive (fnumber ` A) (files s l)) = set (files s l) - A"
proof -
  have "fnumber f \<in> fnumber ` A \<longleftrightarrow> f \<in> A" if f: "f \<in> set (files s l)" for f
  proof
    assume "fnumber f \<in> fnumber ` A"
    then obtain g where g: "g \<in> A" "fnumber f = fnumber g" by auto
    then have "f = g" using lsm_invD(6) [OF inv f, of g l] A by auto
    then show "f \<in> A" using g(1) by simp
  qed simp
  then show ?thesis by auto
qed

text \<open>The files of a state after the inputs are gone and \<open>outs\<close> are at the next level.\<close>

definition moved :: "LevelDBCompaction \<Rightarrow> FileMetaData list \<Rightarrow> lsmt \<Rightarrow> lsmt \<Rightarrow> bool" where
  "moved c outs s s' \<longleftrightarrow>
     (\<forall>l. set (files s' l) = {f \<in> set (files s l). \<not> is_input c l f} \<union> (if l = c_level c + 1 then set outs else {})) \<and>
     (\<forall>l. distinct (files s' l)) \<and> level_sorted (files s' (c_level c + 1)) \<and>
     (\<forall>l. l \<noteq> c_level c + 1 \<longrightarrow> l > 0 \<longrightarrow> sorted_wrt precedes (files s' l))"

lemma movedI:
  assumes inv: "lsm_inv Z C fs s" and c: "complete_inputs s c"
    and s': "files s' = (files s)(c_level c := A, c_level c + 1 := B)"
    "A = alive (fnumber ` set (inputs0 c)) (files s (c_level c))"
    "set B = (set (files s (c_level c + 1)) - set (inputs1 c)) \<union> set outs" "level_sorted B"
  shows "moved c outs s s'"
proof -
  let ?l = "c_level c"
  have in0: "set (inputs0 c) \<subseteq> set (files s ?l)" using inputs_subset [OF c] by (auto simp: is_input_def)
  have A: "set A = set (files s ?l) - set (inputs0 c)" unfolding s'(2) by (rule alive_inputs [OF inv in0])
  have "set (files s' l) = {f \<in> set (files s l). \<not> is_input c l f} \<union> (if l = ?l + 1 then set outs else {})" for l
  proof -
    consider "l = ?l" | "l = ?l + 1" | "l \<noteq> ?l" "l \<noteq> ?l + 1" by blast
    then show ?thesis unfolding s'(1) using A s'(3) by cases (auto simp: is_input_def)
  qed
  moreover have "distinct (files s' l)" for l
    using lsm_invD(3) [OF inv] level_distinct [OF s'(4)] unfolding s'(1,2) by simp
  moreover have "sorted_wrt precedes (files s' l)" if "l > 0" "l \<noteq> ?l + 1" for l
    using lsm_invD(4) [OF inv that(1)] that(2) unfolding s'(1,2) by (auto simp: level_sorted_def sorted_wrt_filter)
  ultimately show ?thesis unfolding moved_def using s'(1,4) by simp
qed

lemma disjoint_outputs:
  assumes inv: "lsm_inv Z C fs s" and c: "complete_inputs s c"
    and f: "spans f K" "set K \<subseteq> input_writes C fs c" and g: "g \<in> set (files s (c_level c + 1))" "g \<notin> set (inputs1 c)"
  shows "precedes f g \<or> precedes g f"
proof -
  have K: "K \<noteq> []" "smallest_user f = ukey (hd K)" "largest_user f = ukey (last K)"
    using f(1) by (auto simp: spans_def run_ok_def)
  then have "hd K \<in> input_writes C fs c" "last K \<in> input_writes C fs c" using f(2) by auto
  then show ?thesis using input_keys_side [OF inv c g] K(2,3) by auto
qed

lemma InstallCompactionResults_ok:
  assumes inv: "lsm_inv Z C fs s" and c: "complete_inputs s c" and o: "level_sorted outs"
    "\<forall>f \<in> set outs. \<exists>K. spans f K \<and> set K \<subseteq> input_writes C fs c" "\<forall>f \<in> set outs. file_id s < fnumber f"
    and s1: "files s1 = files s" "level_limit s1 = level_limit s"
  shows "\<exists>s'. InstallCompactionResults c outs (c_level c + 1) s1 = Some s' \<and> moved c outs s s' \<and> same_setup s1 s'"
proof -
  let ?l = "c_level c"
  let ?s = "AddDeletedFiles c s1"
  let ?D0 = "fnumber ` set (inputs0 c)" and ?D1 = "fnumber ` set (inputs1 c)"
  have s: "files ?s = files s" "same_setup s1 ?s" "levels_ok ?s"
    using s1 lsm_invD(10) [OF inv] by (simp_all add: AddDeletedFiles_def same_setup_def levels_ok_def)
  obtain s2 where s2: "ApplyFileChanges ?l [] ?D0 ?s = Some s2" "files s2 = (files s)(?l := alive ?D0 (files s ?l))" "same_setup ?s s2"
    using remove_files [OF s(3), of ?l ?D0] s(1) by auto
  have "levels_ok s2" using s(3) s2(2,3) s(1) by (auto simp: levels_ok_def same_setup_def level_sorted_def sorted_wrt_filter)
  moreover have in1: "set (inputs1 c) \<subseteq> set (files s (?l + 1))" using inputs_subset [OF c] by (auto simp: is_input_def)
  note A = alive_inputs [OF inv in1]
  have "\<forall>a \<in> set outs. fnumber a \<notin> ?D1"
  proof (intro ballI notI)
    fix a assume a: "a \<in> set outs" "fnumber a \<in> ?D1"
    then obtain g where "g \<in> set (inputs1 c)" "fnumber a = fnumber g" by auto
    then have "fnumber a \<le> file_id s" using lsm_invD(2) [OF inv, of g "?l + 1"] in1 by auto
    then show False using o(3) a(1) by auto
  qed
  moreover have "\<forall>a \<in> set outs. \<forall>b \<in> set (alive ?D1 (files s2 (?l + 1))). precedes a b \<or> precedes b a"
    using disjoint_outputs [OF inv c] o(2) A s2(2) by fastforce
  ultimately obtain s3 r where s3: "ApplyFileChanges (?l + 1) outs ?D1 s2 = Some s3" "files s3 = (files s2)(?l + 1 := r)" "same_setup s2 s3"
    "set r = set (alive ?D1 (files s2 (?l + 1))) \<union> set outs" "level_sorted r"
    using add_sorted_files [of s2 "?l + 1" outs ?D1] o(1) by auto
  have "moved c outs s s3"
    by (rule movedI [OF inv c, of _ "alive ?D0 (files s ?l)" r]) (use s2(2) s3(2,4,5) A in auto)
  moreover have "InstallCompactionResults c outs (?l + 1) s1 = Some s3"
    unfolding InstallCompactionResults_def Let_def FileSet_sorted [OF o(1)] using s2(1) s3(1) by simp
  moreover have "same_setup s1 s3" using s(2) s2(3) s3(3) by (simp add: same_setup_def)
  ultimately show ?thesis by blast
qed

lemma TrivialMove_ok:
  assumes inv: "lsm_inv Z C fs s" and c: "complete_inputs s c" and f: "inputs0 c = [f]" "inputs1 c = []"
  shows "\<exists>s'. TrivialMove c (c_level c) s = Some s' \<and> moved c [f] s s' \<and> same_setup s s'"
proof -
  let ?l = "c_level c"
  have fl: "f \<in> set (files s ?l)" using inputs_subset [OF c, of ?l f] f(1) by (simp add: is_input_def)
  have sp: "spans f (C fs (fnumber f))" using lsm_invD(1) [OF inv fl] by (simp add: file_rep_def)
  have K: "set (C fs (fnumber f)) \<subseteq> input_writes C fs c" using f(1) by (auto simp: input_writes_def level_writes_def)
  have "level_sorted [f]" using spans_bounds(1) [OF sp] by (simp add: level_sorted_def)
  moreover have "\<forall>a \<in> set [f]. \<forall>b \<in> set (alive {} (files s (?l + 1))). precedes a b \<or> precedes b a"
    using disjoint_outputs [OF inv c sp K] f(2) by simp
  ultimately obtain s1 r where s1: "ApplyFileChanges (?l + 1) [f] {} s = Some s1" "files s1 = (files s)(?l + 1 := r)" "same_setup s s1"
    "set r = set (alive {} (files s (?l + 1))) \<union> set [f]" "level_sorted r"
    using add_sorted_files [OF lsm_invD(10) [OF inv], of "?l + 1" "[f]" "{}"] by auto
  have "levels_ok s1" using lsm_invD(10) [OF inv] s1(2,3,5) by (auto simp: levels_ok_def same_setup_def level_sorted_def)
  from remove_files [OF this, of ?l "{fnumber f}"] obtain s2 where s2: "ApplyFileChanges ?l [] {fnumber f} s1 = Some s2"
    "files s2 = (files s1)(?l := alive {fnumber f} (files s ?l))" "same_setup s1 s2" using s1(2) by auto
  have "moved c [f] s s2"
    by (rule movedI [OF inv c, of _ "alive {fnumber f} (files s ?l)" r]) (use s1(2,4,5) s2(2) f in \<open>auto simp: fun_eq_iff\<close>)
  moreover have "TrivialMove c ?l s = Some s2" using f s1(1) s2(1) by (simp add: TrivialMove_def)
  ultimately show ?thesis using s1(3) s2(3) by (auto simp: same_setup_def)
qed

section \<open>A compaction\<close>

lemma finite_all_writes:
  assumes "lsm_inv Z C fs s"
  shows "finite (all_writes C fs s)"
proof -
  have "all_writes C fs s = (\<Union>l \<in> {..<kNumLevels}. level_writes C fs (files s l))"
  proof
    have "l < kNumLevels" if "v \<in> level_writes C fs (files s l)" for v l
      using that lsm_invD(5) [OF assms, of l] by (cases "l < kNumLevels") (auto simp: level_writes_def)
    then show "all_writes C fs s \<subseteq> (\<Union>l \<in> {..<kNumLevels}. level_writes C fs (files s l))" unfolding all_writes_def by blast
  qed (auto simp: all_writes_def)
  then show ?thesis by (simp add: level_writes_def)
qed

lemma sorted_concat_member: "sorted_wrt P (concat xss) \<Longrightarrow> xs \<in> set xss \<Longrightarrow> sorted_wrt P xs"
  by (induction xss) (auto simp: sorted_wrt_append)

lemma length_le_concat: "\<forall>xs \<in> set xss. xs \<noteq> [] \<Longrightarrow> length xss \<le> length (concat xss)"
proof (induction xss)
  case (Cons xs xss)
  then show ?case by (cases xs) auto
qed simp

lemma version_less_distinct: "sorted_wrt version_less ws \<Longrightarrow> distinct ws"
  by (induction ws) (auto simp: version_less_def)

text \<open>The outputs of the loop as files with runs.\<close>

lemma outputs_runs:
  assumes ws: "sorted_wrt version_less ws" "\<forall>v \<in> set ws. write_ok v \<and> seq v < kMaxSequenceNumber" "unique_versions (set ws)"
    and o: "concat (map o_entries outs) = map item_of (kept base None ws)" "\<forall>out \<in> set outs. out_ok out"
  shows "\<exists>Ks. length Ks = length outs \<and> concat Ks = kept base None ws \<and> length outs \<le> card (set ws) \<and>
    (\<forall>i < length outs. o_entries (outs ! i) = map item_of (Ks ! i) \<and> spans (output_meta sz (outs ! i)) (Ks ! i)) \<and>
    level_sorted (map (output_meta sz) outs)"
proof -
  let ?K = "kept base None ws"
  have wok: "\<forall>w \<in> set ws. write_ok w" using ws(2) by blast
  obtain Ks where Ks: "map o_entries outs = map (map item_of) Ks" "concat Ks = ?K" using concat_map_pieces [OF o(1)] by blast
  have len: "length Ks = length outs" using arg_cong [OF Ks(1), of length] by simp
  have ent: "o_entries (outs ! i) = map item_of (Ks ! i)" if "i < length outs" for i
    using arg_cong [OF Ks(1), of "\<lambda>xs. xs ! i"] that len by simp
  have sp: "spans (output_meta sz (outs ! i)) (Ks ! i)" if i: "i < length outs" for i
  proof -
    have ok: "o_entries (outs ! i) \<noteq> []" "o_smallest (outs ! i) = fst (hd (o_entries (outs ! i)))" "o_largest (outs ! i) = fst (last (o_entries (outs ! i)))"
      using o(2) i by (simp_all add: out_ok_def)
    have mem: "Ks ! i \<in> set Ks" using i len by simp
    have "set (Ks ! i) \<subseteq> set ?K" using mem unfolding Ks(2) [symmetric] by auto
    then have "set (Ks ! i) \<subseteq> set ws" using kept_subset by blast
    moreover have "sorted_wrt version_less (Ks ! i)"
      by (rule sorted_concat_member [OF _ mem]) (use Ks(2) kept_sorted [OF ws(1)] in simp)
    moreover have ne: "Ks ! i \<noteq> []" using ok(1) ent [OF i] by simp
    ultimately have "run_ok (Ks ! i)" using ws(2) by (auto simp: run_ok_def)
    moreover have "hd (o_entries (outs ! i)) = item_of (hd (Ks ! i))" "last (o_entries (outs ! i)) = item_of (last (Ks ! i))"
      using ent [OF i] ne by (simp_all add: hd_map last_map)
    ultimately show ?thesis using ok(2,3) by (simp add: spans_def output_meta_def mk_meta_def Let_def item_of_def)
  qed
  have "precedes (map (output_meta sz) outs ! i) (map (output_meta sz) outs ! j)" if ij: "i < j" "j < length outs" for i j
  proof -
    have i: "i < length outs" using ij by simp
    have ne: "Ks ! i \<noteq> []" "Ks ! j \<noteq> []" using sp [OF i] sp [OF ij(2)] by (auto simp: spans_def run_ok_def)
    have "ukey (last (Ks ! i)) < ukey (hd (Ks ! j))"
      by (rule sorted_concat_pair [where P = "\<lambda>v w. ukey v < ukey w" and xss = Ks and i = i and j = j])
        (use kept_user_sorted [OF ws(1) wok ws(3)] Ks(2) ij len ne in simp_all)
    then show ?thesis using sp [OF i] sp [OF ij(2)] i ij(2) by (simp add: spans_def)
  qed
  then have "level_sorted (map (output_meta sz) outs)"
    using spans_bounds(1) [OF sp] unfolding level_sorted_def by (auto simp: sorted_wrt_iff_nth_less in_set_conv_nth)
  moreover have "length outs \<le> card (set ws)"
  proof -
    have "\<forall>xs \<in> set Ks. xs \<noteq> []" using sp len by (auto simp: in_set_conv_nth spans_def run_ok_def)
    then have "length outs \<le> length ?K" using length_le_concat [of Ks] len Ks(2) by simp
    also have "\<dots> = card (set ?K)" using version_less_distinct [OF kept_sorted [OF ws(1)]] by (simp add: distinct_card)
    also have "\<dots> \<le> card (set ws)" by (rule card_mono [OF _ kept_subset]) simp
    finally show ?thesis .
  qed
  ultimately show ?thesis using len Ks(2) ent sp by blast
qed

end
