(* ===== verification/LsmCompactOps.thy ===== *)
theory LsmCompactOps
  imports LsmCompact
begin

text \<open>
  The operations that run compactions: they return, keep the invariant of the tree and change nothing a reader sees.
\<close>

section \<open>One compaction\<close>

text \<open>A reader at a snapshot above all versions finds the same values in both sets of versions.\<close>

definition same_reads :: "mem_write set \<Rightarrow> mem_write set \<Rightarrow> bool" where
  "same_reads V W \<longleftrightarrow> (\<forall>k x sq. (\<forall>w \<in> V \<union> W. seq w \<le> sq) \<longrightarrow>
     newest V k sq (get_result.Found x) = newest W k sq (get_result.Found x))"

text \<open>The files to be deleted have numbers that were given out and are not in the tree.\<close>

definition no_dead :: "lsmt \<Rightarrow> bool" where
  "no_dead s \<longleftrightarrow> (\<forall>n \<in> obsolete_files s. n \<le> file_id s \<and> (\<forall>l. \<forall>f \<in> set (files s l). fnumber f \<noteq> n))"

text \<open>The tree after a compaction step: the invariant, the reads, the file numbers used up and what stays as it was.\<close>

definition compacted :: "('fs \<Rightarrow> 64 word \<Rightarrow> 64 word) \<Rightarrow> ('fs \<Rightarrow> 64 word \<Rightarrow> mem_write list) \<Rightarrow> nat \<Rightarrow> 'fs \<times> lsmt \<Rightarrow> 'fs \<times> lsmt \<Rightarrow> bool" where
  "compacted Z C n t t' \<longleftrightarrow> lsm_inv Z C (fst t') (snd t') \<and> all_writes C (fst t') (snd t') \<subseteq> all_writes C (fst t) (snd t) \<and>
     same_reads (all_writes C (fst t') (snd t')) (all_writes C (fst t) (snd t)) \<and>
     unat (file_id (snd t')) \<le> unat (file_id (snd t)) + n \<and>
     level_limit (snd t') = level_limit (snd t) \<and> lsmt_status (snd t') = lsmt_status (snd t) \<and> leaf_limit (snd t') = leaf_limit (snd t) \<and>
     has_hotspot (snd t') = has_hotspot (snd t) \<and> (no_dead (snd t) \<longrightarrow> no_dead (snd t'))"

lemma same_reads_trans:
  assumes "same_reads U V" "same_reads V W" "U \<subseteq> V" "V \<subseteq> W"
  shows "same_reads U W"
proof -
  have "newest U k sq (get_result.Found x) = newest W k sq (get_result.Found x)" if "\<forall>w \<in> U \<union> W. seq w \<le> sq" for k x sq
  proof -
    have "\<forall>w \<in> U \<union> V. seq w \<le> sq" "\<forall>w \<in> V \<union> W. seq w \<le> sq" using that assms(3,4) by blast+
    then show ?thesis using assms(1,2) unfolding same_reads_def by blast
  qed
  then show ?thesis unfolding same_reads_def by blast
qed

lemma compacted_trans:
  assumes "compacted Z C m t t'" "compacted Z C n t' t''"
  shows "compacted Z C (m + n) t t''"
proof -
  have a: "all_writes C (fst t') (snd t') \<subseteq> all_writes C (fst t) (snd t)" "all_writes C (fst t'') (snd t'') \<subseteq> all_writes C (fst t') (snd t')"
    "same_reads (all_writes C (fst t') (snd t')) (all_writes C (fst t) (snd t))"
    "same_reads (all_writes C (fst t'') (snd t'')) (all_writes C (fst t') (snd t'))"
    using assms unfolding compacted_def by blast+
  have "same_reads (all_writes C (fst t'') (snd t'')) (all_writes C (fst t) (snd t))" by (rule same_reads_trans [OF a(4,3,2,1)])
  moreover have "all_writes C (fst t'') (snd t'') \<subseteq> all_writes C (fst t) (snd t)" using a(1,2) by blast
  ultimately show ?thesis using assms unfolding compacted_def by simp
qed

lemma compacted_mono: "compacted Z C m t t' \<Longrightarrow> m \<le> n \<Longrightarrow> compacted Z C n t t'"
  by (auto simp: compacted_def)

lemma replaced_compacted:
  assumes inv: "lsm_inv Z C fs s" and c: "complete_inputs s c" and r: "replaced Z C c outs fs s fs' s'"
    and ws: "sorted_wrt version_less ws" "set ws = input_writes C fs c"
    and K: "level_writes C fs' outs = set (kept (drop_base s (Some c)) None ws) \<or> level_writes C fs' outs = set ws"
    and st: "unat (file_id s') \<le> unat (file_id s) + n" "lsmt_status s' = lsmt_status s" "leaf_limit s' = leaf_limit s" "has_hotspot s' = has_hotspot s"
      "no_dead s \<Longrightarrow> no_dead s'"
  shows "compacted Z C n (fs, s) (fs', s')"
proof -
  note A = replaced_writes [OF inv c r] and IW = input_writes_subset [OF c, of C fs]
  let ?R = "all_writes C fs s - input_writes C fs c"
  have all: "all_writes C fs s = ?R \<union> set ws" using IW ws(2) by blast
  have wok: "\<forall>w \<in> set ws. write_ok w" using all_writes_ok(1) [OF inv] IW ws(2) by blast
  have uv: "unique_versions (set ws)" by (rule inj_on_subset [OF lsm_invD(8) [OF inv]]) (use IW ws(2) in simp)
  have older: "seq v < seq x" if v: "v \<in> set ws" "drop_base s (Some c) (ukey v)" "x \<in> ?R" "ukey x = ukey v" for v x
  proof -
    obtain l g where g: "g \<in> set (files s l)" "x \<in> set (C fs (fnumber g))" using v(3) by (auto simp: all_writes_def level_writes_def)
    then have ni: "\<not> is_input c l g" using v(3) by (auto simp: is_input_def input_writes_def level_writes_def)
    have "\<not> c_level c + 2 \<le> l"
    proof
      assume l: "c_level c + 2 \<le> l"
      have "l < kNumLevels" using lsm_invD(5) [OF inv, of l] g(1) by (cases "l < kNumLevels") auto
      then have "\<not> touches (ukey v) (ukey v) g" using v(2) l g(1) by (auto simp: drop_base_def base_key_def)
      then show False using level_writes_bounds(1,2) [OF inv g] v(4) by (simp add: touches_def)
    qed
    then show ?thesis using input_key_order [OF inv c _ g(1) ni g(2) v(4)] v(1) ws(2) by auto
  qed
  have "same_reads (all_writes C fs' s') (all_writes C fs s)" using K
  proof
    assume K: "level_writes C fs' outs = set (kept (drop_base s (Some c)) None ws)"
    show ?thesis unfolding same_reads_def A(1) K
    proof (intro allI impI)
      fix k x sq assume "\<forall>w \<in> (?R \<union> set (kept (drop_base s (Some c)) None ws)) \<union> all_writes C fs s. seq w \<le> sq"
      then have sq: "\<forall>w \<in> ?R \<union> set ws. seq w \<le> sq" using all by blast
      show "newest (?R \<union> set (kept (drop_base s (Some c)) None ws)) k sq (get_result.Found x) = newest (all_writes C fs s) k sq (get_result.Found x)"
        using kept_newest [OF ws(1) wok uv older sq, where k = k and x = x] unfolding all [symmetric] by blast
    qed
  next
    assume "level_writes C fs' outs = set ws"
    then have "all_writes C fs' s' = all_writes C fs s" using A(1) all by simp
    then show ?thesis by (simp add: same_reads_def)
  qed
  moreover have "all_writes C fs' s' \<subseteq> all_writes C fs s" using A IW by blast
  ultimately show ?thesis using replaced_inv [OF inv c r] st replacedD(11) [OF r] by (simp add: compacted_def)
qed

lemma Install_obsolete:
  assumes "InstallCompactionResults c outs target s = Some s'"
  shows "obsolete_files s' = obsolete_files s \<union> fnumber ` set (inputs0 c) \<union> fnumber ` set (inputs1 c)"
  using assms by (auto simp: InstallCompactionResults_def ApplyFileChanges_def AddDeletedFiles_def Let_def bind_eq_Some_conv split: if_splits)

lemma replaced_no_dead:
  assumes inv: "lsm_inv Z C fs s" and c: "complete_inputs s c" and r: "replaced Z C c outs fs s fs' s'"
    and o: "\<forall>f \<in> set outs. file_id s < fnumber f" and d: "no_dead s"
      "obsolete_files s' = obsolete_files s \<union> fnumber ` set (inputs0 c) \<union> fnumber ` set (inputs1 c)"
  shows "no_dead s'"
  unfolding no_dead_def
proof (intro ballI conjI allI)
  fix n assume n: "n \<in> obsolete_files s'"
  have "n \<in> obsolete_files s \<or> (\<exists>l g. is_input c l g \<and> n = fnumber g)" using n d(2) by (force simp: is_input_def)
  then have src: "n \<in> obsolete_files s \<or> (\<exists>l g. g \<in> set (files s l) \<and> is_input c l g \<and> n = fnumber g)" using inputs_subset [OF c] by blast
  then have le: "n \<le> file_id s" using d(1) lsm_invD(2) [OF inv] by (auto simp: no_dead_def)
  then show "n \<le> file_id s'" using replacedD(10) [OF r] by order
  fix l f assume "f \<in> set (files s' l)"
  then consider "f \<in> set outs" | "f \<in> set (files s l)" "\<not> is_input c l f" using replacedD(1) [OF r, of l] by (auto split: if_splits)
  then show "fnumber f \<noteq> n"
  proof cases
    case 1
    then show ?thesis using o le by auto
  next
    case 2
    then show ?thesis using src d(1) lsm_invD(6) [OF inv 2(1)] unfolding no_dead_def by blast
  qed
qed

context table_store
begin

lemma DoCompactionWork_ok:
  assumes inv: "lsm_inv Z C fs s" "small (all_writes C fs s)" and c: "complete_inputs s c" and gs: "sorted (page_guards page)"
    and fid: "unat (file_id s) + 2 * card (all_writes C fs s) < 2 ^ 64"
  shows "\<exists>t'. DoCompactionWork T c page (c_level c + 1) (fs, s) = Some t' \<and> compacted Z C (2 * card (all_writes C fs s)) (fs, s) t'"
proof -
  let ?l = "c_level c"
  note IW = input_writes_subset [OF c, of C fs]
  obtain a ws okJ itemsJ posJ where a: "MakeInputIterator (tab_ops T) (open_table T fs) c = Some a"
    "sorted_iter ikey_ok icmp (any_iterator icmp (lsm_child_iterator (tab_ops T) (open_table T fs))) okJ itemsJ posJ" "okJ a"
    "itemsJ a = map item_of ws" and ws: "sorted_wrt version_less ws" "set ws = input_writes C fs c"
    using MakeInputIterator_ok [OF inv c] unfolding input_writes_def by blast
  have wok: "\<forall>v \<in> set ws. write_ok v \<and> seq v < kMaxSequenceNumber" using all_writes_ok [OF inv(1)] IW ws(2) by blast
  have uv: "unique_versions (set ws)" by (rule inj_on_subset [OF lsm_invD(8) [OF inv(1)]]) (use IW ws(2) in simp)
  have lv: "\<forall>lvl. level_sorted (files s lvl) \<or> lvl = 0" using lsm_invD(4) [OF inv(1)] by blast
  have cp: "\<forall>c0. Some c = Some c0 \<longrightarrow> (\<forall>lvl. level_ptrs c0 lvl = 0)" using c by (simp add: complete_inputs_def)
  obtain w where w: "DoCompactionWorkImpl s (any_iterator icmp (lsm_child_iterator (tab_ops T) (open_table T fs))) (cur_size T)
      (output_file_size s) page a (new_work (Some c) (file_id s)) = Some w"
    "concat (map o_entries (w_outputs w)) = map item_of (kept (drop_base s (Some c)) None ws)" "\<forall>out \<in> set (w_outputs w). out_ok out"
    "map o_number (w_outputs w) = map (\<lambda>i. file_id s + 2 * of_nat (Suc i)) [0..<length (w_outputs w)]"
    "w_file_id w = file_id s + 2 * of_nat (length (w_outputs w))"
    using DoCompactionWorkImpl_ok [OF a(2-4) ws(1) wok lv gs cp, of "cur_size T" "output_file_size s" "file_id s"] by blast
  let ?outs = "w_outputs w" and ?n = "length (w_outputs w)"
  let ?ms = "map (output_meta (final_size T)) ?outs"
  obtain Ks where Ks: "length Ks = ?n" "concat Ks = kept (drop_base s (Some c)) None ws" "?n \<le> card (set ws)"
    "\<forall>i < ?n. o_entries (?outs ! i) = map item_of (Ks ! i) \<and> spans (output_meta (final_size T) (?outs ! i)) (Ks ! i)" "level_sorted ?ms"
    using outputs_runs [OF ws(1) wok uv w(2,3), of "final_size T"] by blast
  have n: "unat (file_id s) + 2 * ?n < 2 ^ 64" "?n \<le> card (all_writes C fs s)"
    using Ks(3) card_mono [OF finite_all_writes [OF inv(1)] IW] fid ws(2) by simp_all
  have num: "o_number (?outs ! i) = file_id s + 2 * of_nat (Suc i)" if "i < ?n" for i
    using arg_cong [OF w(4), of "\<lambda>xs. xs ! i"] that by simp
  have unum: "unat (o_number (?outs ! i)) = unat (file_id s) + 2 * Suc i" if "i < ?n" for i
    using output_numbers(1) [OF n(1) that that] num [OF that] by simp
  have dn: "distinct (map o_number ?outs)" unfolding distinct_conv_nth
  proof (intro allI impI)
    fix i j assume "i < length (map o_number ?outs)" "j < length (map o_number ?outs)" "i \<noteq> j"
    then show "map o_number ?outs ! i \<noteq> map o_number ?outs ! j" using unum [of i] unum [of j] by auto
  qed
  have inK: "set (Ks ! i) \<subseteq> input_writes C fs c" if "i < ?n" for i
  proof -
    have "set (Ks ! i) \<subseteq> set (concat Ks)" unfolding set_concat by (rule UN_upper) (use that Ks(1) in simp)
    then show ?thesis using Ks(2) ws(2) kept_subset [of "drop_base s (Some c)" None ws] by simp
  qed
  let ?fs = "write_outputs T ?outs fs"
  have Kok: "o_entries (?outs ! i) = map item_of (Ks ! i) \<and> run_ok (Ks ! i) \<and> small (set (Ks ! i))" if "i < ?n" for i
    using that Ks(4) inK [OF that] IW smaller [OF inv(2), of "set (Ks ! i)"] by (auto simp: spans_def)
  have Wr: "\<And>i. i < ?n \<Longrightarrow> C ?fs (o_number (?outs ! i)) = Ks ! i" "\<And>m. m \<notin> o_number ` set ?outs \<Longrightarrow> C ?fs m = C fs m \<and> Z ?fs m = Z fs m"
    "\<And>i. i < ?n \<Longrightarrow> Z ?fs (o_number (?outs ! i)) = final_size T (map item_of (Ks ! i))"
    using write_outputs_contents [OF dn Ks(1) Kok] by blast+
  have meta: "fnumber (output_meta sz out) = o_number out" for sz out by (simp add: output_meta_def mk_meta_def Let_def)
  have above: "file_id s < fnumber f" if f: "f \<in> set ?ms" for f
  proof -
    obtain i where i: "i < ?n" "f = output_meta (final_size T) (?outs ! i)" using f by (auto simp: in_set_conv_nth)
    then show ?thesis using unum [OF i(1)] by (simp add: meta word_less_nat_alt)
  qed
  let ?s1 = "s\<lparr>file_id := w_file_id w\<rparr>"
  have mK: "\<forall>f \<in> set ?ms. \<exists>K. spans f K \<and> set K \<subseteq> input_writes C fs c"
  proof
    fix f assume "f \<in> set ?ms"
    then obtain i where "i < ?n" "f = output_meta (final_size T) (?outs ! i)" by (auto simp: in_set_conv_nth)
    then show "\<exists>K. spans f K \<and> set K \<subseteq> input_writes C fs c" using Ks(4) inK by (intro exI [of _ "Ks ! i"]) simp
  qed
  obtain s' where s': "InstallCompactionResults c ?ms (?l + 1) ?s1 = Some s'" "moved c ?ms s s'" "same_setup ?s1 s'"
    using InstallCompactionResults_ok [OF inv(1) c Ks(5) mK _, of ?s1] above by auto
  have fid': "file_id s' = w_file_id w" using s'(3) by (simp add: same_setup_def)
  have ufid: "unat (w_file_id w) = unat (file_id s) + 2 * ?n"
  proof (cases "?n = 0")
    case False
    then show ?thesis using output_numbers(1) [OF n(1), of "?n - 1" "?n - 1"] w(5) by simp
  qed (use w(5) in simp)
  have run: "C ?fs (fnumber (?ms ! i)) = Ks ! i" if "i < ?n" for i using Wr(1) [OF that] that by (simp add: meta)
  have old: "C ?fs (fnumber f) = C fs (fnumber f) \<and> Z ?fs (fnumber f) = Z fs (fnumber f)" if "f \<in> set (files s l)" for f l
  proof (rule Wr(2))
    show "fnumber f \<notin> o_number ` set ?outs"
      using lsm_invD(2) [OF inv(1) that] above by (force simp: meta)
  qed
  have R: "replaced Z C c ?ms fs s ?fs s'"
    unfolding replaced_def
  proof (intro conjI)
    show "\<forall>f \<in> set ?ms. file_rep Z C ?fs f \<and> fnumber f \<le> file_id s' \<and> set (C ?fs (fnumber f)) \<subseteq> input_writes C fs c \<and>
        (\<forall>l. \<forall>g \<in> set (files s l). \<not> is_input c l g \<longrightarrow> fnumber f \<noteq> fnumber g)"
    proof
      fix f assume f: "f \<in> set ?ms"
      then obtain i where i: "i < ?n" "f = ?ms ! i" by (auto simp: in_set_conv_nth)
      have "file_rep Z C ?fs f" using run [OF i(1)] Ks(4) i Wr(3) [OF i(1)] by (simp add: file_rep_def) (simp add: output_meta_def mk_meta_def Let_def)
      moreover have "fnumber f \<le> file_id s'" using unum [OF i(1)] i ufid fid' by (simp add: meta word_le_nat_alt)
      moreover have "set (C ?fs (fnumber f)) \<subseteq> input_writes C fs c" using run [OF i(1)] inK [OF i(1)] i(2) by simp
      moreover have "fnumber f \<noteq> fnumber g" if "g \<in> set (files s l)" for g l
        using above [OF f] lsm_invD(2) [OF inv(1) that] by auto
      ultimately show "file_rep Z C ?fs f \<and> fnumber f \<le> file_id s' \<and> set (C ?fs (fnumber f)) \<subseteq> input_writes C fs c \<and>
        (\<forall>l. \<forall>g \<in> set (files s l). \<not> is_input c l g \<longrightarrow> fnumber f \<noteq> fnumber g)" by blast
    qed
    show "\<forall>f \<in> set ?ms. \<forall>g \<in> set ?ms. f \<noteq> g \<longrightarrow> fnumber f \<noteq> fnumber g"
      using dn by (auto simp: meta distinct_map inj_on_def)
    show "file_id s \<le> file_id s'" using ufid fid' by (simp add: word_le_nat_alt)
    show "level_limit s' = level_limit s" using s'(3) by (simp add: same_setup_def)
  qed (use s'(2) old in \<open>auto simp: moved_def\<close>)
  moreover have "no_dead s'" if "no_dead s"
    using replaced_no_dead [OF inv(1) c R _ that] above Install_obsolete [OF s'(1)] by simp
  moreover have "level_writes C ?fs ?ms = set (kept (drop_base s (Some c)) None ws)"
  proof -
    have "(\<Union>f \<in> set ?ms. set (C ?fs (fnumber f))) = (\<Union>i \<in> {..<?n}. set (C ?fs (fnumber (?ms ! i))))" by (simp only: UN_nth length_map)
    also have "\<dots> = (\<Union>i \<in> {..<?n}. set (Ks ! i))" using run by simp
    also have "\<dots> = set (concat Ks)" unfolding set_concat UN_nth Ks(1) ..
    finally show ?thesis unfolding Ks(2) level_writes_def .
  qed
  ultimately have "compacted Z C (2 * card (all_writes C fs s)) (fs, s) (?fs, s')"
    using s'(3) n(2) ufid fid' by (intro replaced_compacted [OF inv(1) c _ ws]) (auto simp: same_setup_def)
  moreover have "DoCompactionWork T c page (?l + 1) (fs, s) = Some (?fs, s')"
    unfolding DoCompactionWork_def using a(1) w(1) s'(1) by simp
  ultimately show ?thesis by blast
qed

end

lemma trivial_move_compacted:
  assumes inv: "lsm_inv Z C fs s" and c: "complete_inputs s c" and f: "inputs0 c = [f]" "inputs1 c = []"
  shows "\<exists>s'. TrivialMove c (c_level c) s = Some s' \<and> compacted Z C n (fs, s) (fs, s')"
proof -
  let ?l = "c_level c"
  obtain s' where s': "TrivialMove c ?l s = Some s'" "moved c [f] s s'" "same_setup s s'"
    using TrivialMove_ok [OF inv c f] by blast
  have fl: "f \<in> set (files s ?l)" using inputs_subset [OF c, of ?l f] f(1) by (simp add: is_input_def)
  have in_f: "set (C fs (fnumber f)) = input_writes C fs c" using f by (simp add: input_writes_def level_writes_def)
  have other: "fnumber f \<noteq> fnumber g" if "g \<in> set (files s l)" "\<not> is_input c l g" for g l
  proof (rule lsm_invD(6) [OF inv fl that(1)])
    show "(?l, f) \<noteq> (l, g)" using that(2) f(1) by (auto simp: is_input_def)
  qed
  have R: "replaced Z C c [f] fs s fs s'"
    unfolding replaced_def
  proof (intro conjI)
    show "\<forall>h \<in> set [f]. file_rep Z C fs h \<and> fnumber h \<le> file_id s' \<and> set (C fs (fnumber h)) \<subseteq> input_writes C fs c \<and>
        (\<forall>l. \<forall>g \<in> set (files s l). \<not> is_input c l g \<longrightarrow> fnumber h \<noteq> fnumber g)"
      using lsm_invD(1,2) [OF inv fl] in_f other s'(3) by (simp add: same_setup_def)
  qed (use s'(2,3) in \<open>auto simp: moved_def same_setup_def\<close>)
  moreover have "no_dead s'" if d: "no_dead s"
  proof -
    have "obsolete_files s' = obsolete_files s"
      using s'(1) by (auto simp: TrivialMove_def ApplyFileChanges_def Let_def bind_eq_Some_conv split: if_splits list.splits)
    moreover have "\<exists>l'. g \<in> set (files s l')" if "g \<in> set (files s' l)" for g l
      using replacedD(1) [OF R, of l] that fl by (auto split: if_splits)
    ultimately show ?thesis using d s'(3) unfolding no_dead_def same_setup_def by metis
  qed
  moreover have "sorted_wrt version_less (C fs (fnumber f))" using lsm_invD(1) [OF inv fl] by (simp add: file_rep_def spans_def run_ok_def)
  ultimately have "compacted Z C n (fs, s) (fs, s')"
    using s'(3) in_f by (intro replaced_compacted [OF inv c, where ws = "C fs (fnumber f)"]) (auto simp: level_writes_def same_setup_def)
  then show ?thesis using s'(1) by blast
qed

section \<open>Runs of compactions\<close>

lemma same_tree:
  assumes "files s' = files s" "file_id s' = file_id s" "level_limit s' = level_limit s"
  shows "lsm_inv Z C fs s' = lsm_inv Z C fs s \<and> all_writes C fs s' = all_writes C fs s \<and> complete_inputs s' c = complete_inputs s c"
  using assms by (simp add: lsm_inv_def all_writes_def complete_inputs_def)

lemma compacted_refl: "lsm_inv Z C (fst t) (snd t) \<Longrightarrow> compacted Z C n t t"
  by (simp add: compacted_def same_reads_def)

text \<open>Fields that only steer compactions do not matter.\<close>

definition same_content :: "lsmt \<Rightarrow> lsmt \<Rightarrow> bool" where
  "same_content s s' \<longleftrightarrow> files s' = files s \<and> file_id s' = file_id s \<and> level_limit s' = level_limit s \<and>
     lsmt_status s' = lsmt_status s \<and> leaf_limit s' = leaf_limit s \<and> has_hotspot s' = has_hotspot s \<and> obsolete_files s' = obsolete_files s"

lemma compacted_content:
  assumes "same_content s s1" "same_content s2 s3"
  shows "compacted Z C n (fs, s1) (fs', s2) \<Longrightarrow> compacted Z C n (fs, s) (fs', s3)"
  using assms same_tree [of s1 s Z C fs] same_tree [of s3 s2 Z C fs'] by (simp add: compacted_def same_content_def no_dead_def)

lemma MayNeedCompaction_files: "MayNeedCompaction s level = kOverflow \<Longrightarrow> files s level \<noteq> []"
  by (auto simp: MayNeedCompaction_def level_score_def TotalFileSize_def split: if_splits LSMTStatus.splits)

context table_store
begin

lemma compact_once_ok:
  assumes "lsm_inv Z C fs s" "small (all_writes C fs s)" "complete_inputs s c" "sorted (page_guards page)"
    "unat (file_id s) + 2 * card (all_writes C fs s) < 2 ^ 64" "c_level c = level"
  shows "\<exists>t'. compact_once T c level page (level + 1) (fs, s) = Some t' \<and> compacted Z C (2 * card (all_writes C fs s)) (fs, s) t'"
proof (cases "IsTrivialMove s (level_limit s) c")
  case True
  then obtain f where f: "inputs0 c = [f]" "inputs1 c = []"
    by (auto simp: IsTrivialMove_def length_Suc_conv split: if_splits)
  from trivial_move_compacted [OF assms(1,3) this] show ?thesis using True assms(6) by (auto simp: compact_once_def)
next
  case False
  then show ?thesis using DoCompactionWork_ok [OF assms(1-5)] assms(6) by (simp add: compact_once_def)
qed

lemma CompactLevel_ok:
  assumes "lsm_inv Z C fs s" "small (all_writes C fs s)" "lsmt_status s \<noteq> kStandalone" "level_limit s > 0" "files s level \<noteq> []"
    "sorted (page_guards page)" "unat (file_id s) + (kNumLevels - level) * (2 * card (all_writes C fs s)) < 2 ^ 64" "level < kNumLevels"
  shows "\<exists>st t'. CompactLevel T level page (fs, s) = Some (st, t') \<and>
    compacted Z C ((kNumLevels - level) * (2 * card (all_writes C fs s))) (fs, s) t'"
  using assms
proof (induction "kNumLevels - level" arbitrary: level fs s)
  case (Suc n)
  show ?case
  proof (cases "int level \<ge> level_limit s - 1")
    case True
    then have "CompactLevel T level page (fs, s) = Some (kOverflow, (fs, s))"
      using Suc.prems(3,4) by (subst CompactLevel.simps) simp
    then show ?thesis using compacted_refl [of Z C "(fs, s)"] Suc.prems(1) by auto
  next
    case False
    have lok: "levels_ok s" by (rule lsm_invD(10) [OF Suc.prems(1)])
    then have l: "level + 1 < kNumLevels" using False by (auto simp: levels_ok_def)
    obtain q c where c: "SetCompactionInputs level s (new_LevelDBCompaction level) = Some (s\<lparr>compact_pointer := q\<rparr>, c)"
      "complete_inputs s c" "c_level c = level"
      using SetCompactionInputs_ok [OF lok l Suc.prems(5)] Suc.prems(3) by blast
    let ?s = "s\<lparr>compact_pointer := q\<rparr>" and ?m = "2 * card (all_writes C fs s)"
    note S = same_tree [of ?s s Z C fs c, simplified]
    have n: "kNumLevels - level = Suc n" using Suc.hyps(2) by simp
    have fid: "unat (file_id s) + ?m + n * ?m < 2 ^ 64" using Suc.prems(7) unfolding n by simp
    obtain fs2 s2 where t2: "compact_once T c level page (level + 1) (fs, ?s) = Some (fs2, s2)" "compacted Z C ?m (fs, ?s) (fs2, s2)"
      using compact_once_ok [of fs ?s c page level] S Suc.prems(1,2,6) c(2,3) fid by auto
    have t2': "compacted Z C ?m (fs, s) (fs2, s2)" using compacted_content [OF _ _ t2(2), of s s2] by (simp add: same_content_def)
    note D = t2' [unfolded compacted_def fst_conv snd_conv]
    have B: "CompactLevel T level page (fs, s) =
      (if MayNeedCompaction s2 (level + 1) = kOverflow then CompactLevel T (level + 1) page (fs2, s2) else Some (kOk, (fs2, s2)))"
      using False c(1) t2(1) Suc.prems(3,4) by (subst CompactLevel.simps) simp
    show ?thesis
    proof (cases "MayNeedCompaction s2 (level + 1) = kOverflow")
      case True
      let ?m2 = "2 * card (all_writes C fs2 s2)"
      have m: "?m2 \<le> ?m" using D card_mono [OF finite_all_writes [OF Suc.prems(1)]] by simp
      have k: "kNumLevels - (level + 1) = n" using n by simp
      have le: "n * ?m2 \<le> n * ?m" using m by simp
      have "\<exists>st t'. CompactLevel T (level + 1) page (fs2, s2) = Some (st, t') \<and>
          compacted Z C ((kNumLevels - (level + 1)) * ?m2) (fs2, s2) t'"
      proof (rule Suc.hyps(1))
        show "n = kNumLevels - (level + 1)" using k by simp
        show "lsm_inv Z C fs2 s2" using D by blast
        show "small (all_writes C fs2 s2)" using D smaller [OF Suc.prems(2)] by blast
        show "files s2 (level + 1) \<noteq> []" by (rule MayNeedCompaction_files [OF True])
        show "unat (file_id s2) + (kNumLevels - (level + 1)) * ?m2 < 2 ^ 64" unfolding k using D fid le by linarith
      qed (use D Suc.prems l in auto)
      then obtain st t' where t': "CompactLevel T (level + 1) page (fs2, s2) = Some (st, t')" "compacted Z C (n * ?m2) (fs2, s2) t'"
        unfolding k by blast
      have "compacted Z C (?m + n * ?m2) (fs, s) t'" by (rule compacted_trans [OF t2' t'(2)])
      then have "compacted Z C (Suc n * ?m) (fs, s) t'" using le by (elim compacted_mono) simp
      then show ?thesis unfolding n B using True t'(1) by auto
    next
      case False
      have "compacted Z C (Suc n * ?m) (fs, s) (fs2, s2)" using t2' by (elim compacted_mono) simp
      then show ?thesis unfolding n B using False by auto
    qed
  qed
qed simp

end

section \<open>Picking a compaction\<close>

text \<open>A compaction for size at the level the score points to, or for seeks at the level of a file read too often.\<close>

definition compaction_due :: "lsmt \<Rightarrow> bool" where
  "compaction_due s \<longleftrightarrow> compact_level s \<ge> 0 \<and>
     (if lsmt_status s \<noteq> kStandalone \<or> compaction_score s \<ge> 1
      then nat (compact_level s) + 1 < kNumLevels \<and> files s (nat (compact_level s)) \<noteq> []
      else -1 < file_to_compact_level s \<longrightarrow> nat (file_to_compact_level s) + 1 < kNumLevels)"

lemma SetCompactionInputs_due:
  assumes s: "levels_ok s" and d: "compaction_due s"
  shows "\<exists>s1 c. SetCompactionInputs (nat (compact_level s)) s (new_LevelDBCompaction (nat (compact_level s))) = Some (s1, c) \<and>
    same_content s s1 \<and> (inputs0 c = [] \<or> complete_inputs s c)"
proof (cases "lsmt_status s \<noteq> kStandalone \<or> compaction_score s \<ge> 1")
  case True
  then show ?thesis using SetCompactionInputs_ok [OF s, of "nat (compact_level s)"] d
    by (auto simp: compaction_due_def same_content_def split: if_splits)
next
  case False
  let ?c = "new_LevelDBCompaction (nat (compact_level s))" and ?l = "nat (file_to_compact_level s)" and ?s = "s\<lparr>file_to_compact_level := -1\<rparr>"
  show ?thesis
  proof (cases "-1 < file_to_compact_level s")
    case seek: True
    then have l: "?l + 1 < kNumLevels" using d False by (auto simp: compaction_due_def split: if_splits)
    show ?thesis
    proof (cases "find (\<lambda>f. fnumber f = file_num_to_compact s) (files s ?l)")
      case None
      then show ?thesis using False seek by (simp add: SetCompactionInputs_def Let_def same_content_def)
    next
      case (Some f)
      then have f: "f \<in> set (files s ?l)" by (auto simp: find_Some_iff)
      have "levels_ok ?s" using s by (simp add: levels_ok_def)
      let ?c1 = "?c\<lparr>c_level := ?l, inputs0 := [f]\<rparr>"
      have c1: "inputs0 ?c1 = [f]" "c_level ?c1 = ?l" "level_ptrs ?c1 = (\<lambda>_. 0)" "files ?s = files s" by simp_all
      from finish_inputs_ok [OF \<open>levels_ok ?s\<close>, of ?c1 f, unfolded c1, OF l refl f refl]
      obtain q c where q: "Option.bind
        (if ?l = 0 then
           Option.bind (GetRange [f]) (\<lambda>rng.
           Option.bind (GetOverlappingInputs ?s ?l (Some (fst rng)) (Some (snd rng))) (\<lambda>in0.
             if in0 = [] then None else Some (?c\<lparr>c_level := ?l, inputs0 := [f], inputs0 := in0\<rparr>)))
         else Some (?c\<lparr>c_level := ?l, inputs0 := [f]\<rparr>)) (SetupOtherInputs ?s) = Some (?s\<lparr>compact_pointer := q\<rparr>, c)" "complete_inputs ?s c"
        by blast
      have "SetCompactionInputs (nat (compact_level s)) s ?c = Some (?s\<lparr>compact_pointer := q\<rparr>, c)"
        using False seek Some q(1) by (simp add: SetCompactionInputs_def Let_def cong: if_cong)
      moreover have "complete_inputs s c" using q(2) by (simp add: complete_inputs_def)
      ultimately show ?thesis by (auto simp: same_content_def)
    qed
  next
    case nothing: False
    then show ?thesis using False by (simp add: SetCompactionInputs_def Let_def same_content_def)
  qed
qed

lemma Finalize_content: "same_content s (Finalize s)"
  by (simp add: Finalize_def same_content_def split_beta Let_def)

context table_store
begin

lemma DoCompact_ok:
  assumes inv: "lsm_inv Z C fs s" "small (all_writes C fs s)" and d: "compaction_due s" and gs: "sorted (page_guards (Some page))"
    and fid: "unat (file_id s) + 2 * card (all_writes C fs s) < 2 ^ 64"
  shows "\<exists>st t'. DoCompact T page (fs, s) = Some (st, t') \<and> compacted Z C (2 * card (all_writes C fs s)) (fs, s) t'"
proof -
  let ?n = "2 * card (all_writes C fs s)"
  let ?over = "level_limit s > 0 \<and> compact_level s \<ge> level_limit s - 1"
  have cl: "compact_level s \<ge> 0" using d by (simp add: compaction_due_def)
  show ?thesis
  proof (cases "?over \<and> is_leaf page")
    case True
    have "same_content s (s\<lparr>compaction_score := -1, compact_level := -1\<rparr>)" by (simp add: same_content_def)
    from compacted_content [OF _ this compacted_refl, of s] True show ?thesis
      using inv(1) cl by (simp add: DoCompact_def same_content_def)
  next
    case no: False
    obtain s1 c where c: "SetCompactionInputs (nat (compact_level s)) s (new_LevelDBCompaction (nat (compact_level s))) = Some (s1, c)"
      "same_content s s1" "inputs0 c = [] \<or> complete_inputs s c"
      using SetCompactionInputs_due [OF lsm_invD(10) [OF inv(1)] d] by blast
    let ?s2 = "s1\<lparr>compact_level := int (c_level c)\<rparr>"
    have s2: "same_content s ?s2" using c(2) by (simp add: same_content_def)
    then have S: "lsm_inv Z C fs ?s2" "all_writes C fs ?s2 = all_writes C fs s" "complete_inputs ?s2 c = complete_inputs s c"
      using same_tree [of ?s2 s Z C fs c] inv(1) by (simp_all add: same_content_def)
    show ?thesis
    proof (cases "inputs0 c = []")
      case True
      have "DoCompact T page (fs, s) = Some (kOk, fs, ?s2)" using no c(1) cl True by (auto simp: DoCompact_def Let_def)
      moreover have "compacted Z C ?n (fs, s) (fs, ?s2)"
        by (rule compacted_content [OF _ s2 compacted_refl]) (use inv(1) in \<open>simp_all add: same_content_def\<close>)
      ultimately show ?thesis by blast
    next
      case False
      then have ci: "complete_inputs ?s2 c" using c(3) S(3) by simp
      have "\<exists>t3. (if IsTrivialMove ?s2 (-1) c then map_option (Pair fs) (TrivialMove c (c_level c) ?s2)
              else DoCompactionWork T c (Some page) (c_level c + 1) (fs, ?s2)) = Some t3 \<and> compacted Z C ?n (fs, ?s2) t3"
      proof (cases "IsTrivialMove ?s2 (-1) c")
        case True
        then obtain f where "inputs0 c = [f]" "inputs1 c = []" by (auto simp: IsTrivialMove_def length_Suc_conv split: if_splits)
        from trivial_move_compacted [OF S(1) ci this] show ?thesis using True by auto
      next
        case nt: False
        have "file_id ?s2 = file_id s" using s2 by (simp add: same_content_def)
        then show ?thesis using nt DoCompactionWork_ok [OF S(1) _ ci gs] S(2) inv(2) fid by simp
      qed
      then obtain fs3 s3 where t3: "(if IsTrivialMove ?s2 (-1) c then map_option (Pair fs) (TrivialMove c (c_level c) ?s2)
              else DoCompactionWork T c (Some page) (c_level c + 1) (fs, ?s2)) = Some (fs3, s3)" "compacted Z C ?n (fs, ?s2) (fs3, s3)" by auto
      have "DoCompact T page (fs, s) = Some (if ?over then kOverflow else kOk, fs3, Finalize s3)"
        using no cl c(1) False t3(1) unfolding DoCompact_def by (auto simp: Let_def)
      then show ?thesis using compacted_content [OF s2 Finalize_content t3(2)] by blast
    qed
  qed
qed

end

end
