(* ===== verification/LsmOps.thy ===== *)
theory LsmOps
  imports LsmCompactOps
begin

text \<open>
  Adding a table to the tree: the level a memtable is written to, adding the file and the compactions this starts. What
  a reader sees afterwards are the versions of the tree and of the new table together.
\<close>

section \<open>A new file\<close>

definition newcomer :: "('fs \<Rightarrow> 64 word \<Rightarrow> 64 word) \<Rightarrow> ('fs \<Rightarrow> 64 word \<Rightarrow> mem_write list) \<Rightarrow> 'fs \<Rightarrow> lsmt \<Rightarrow> nat \<Rightarrow> FileMetaData \<Rightarrow> bool" where
  "newcomer Z C fs s level f \<longleftrightarrow> file_rep Z C fs f \<and> unique_versions (set (C fs (fnumber f))) \<and> fnumber f \<le> file_id s \<and> level < kNumLevels \<and>
     (\<forall>l. \<forall>g \<in> set (files s l). fnumber g \<noteq> fnumber f) \<and>
     (\<forall>v \<in> set (C fs (fnumber f)). \<forall>w \<in> all_writes C fs s. ukey v = ukey w \<longrightarrow> seq w < seq v) \<and>
     (level > 0 \<longrightarrow> (\<forall>l \<le> level. \<forall>g \<in> set (files s l). \<not> touches (smallest_user f) (largest_user f) g))"

lemma add_meta_fields [simp]:
  "fnumber (add_meta f) = fnumber f" "smallest (add_meta f) = smallest f" "largest (add_meta f) = largest f" "file_size (add_meta f) = file_size f"
  by (simp_all add: add_meta_def)

lemma newcomer_meta: "newcomer Z C fs s level (add_meta f) = newcomer Z C fs s level f"
  by (simp add: newcomer_def file_rep_def spans_def)

lemma add_inv:
  assumes inv: "lsm_inv Z C fs s" and f: "newcomer Z C fs s level f"
    and s': "files s' = (files s)(level := r)" "set r = insert f (set (files s level))" "distinct r" "level > 0 \<Longrightarrow> level_sorted r"
      "file_id s' = file_id s" "level_limit s' = level_limit s"
  shows "lsm_inv Z C fs s'" "all_writes C fs s' = all_writes C fs s \<union> set (C fs (fnumber f))"
proof -
  note I = lsm_invD [OF inv]
  let ?W = "set (C fs (fnumber f))"
  have rep: "file_rep Z C fs f" "unique_versions ?W" "fnumber f \<le> file_id s" "level < kNumLevels"
    and fresh: "\<And>l g. g \<in> set (files s l) \<Longrightarrow> fnumber g \<noteq> fnumber f"
    and newer: "\<And>v w. v \<in> ?W \<Longrightarrow> w \<in> all_writes C fs s \<Longrightarrow> ukey v = ukey w \<Longrightarrow> seq w < seq v"
    and apart: "\<And>l g. level > 0 \<Longrightarrow> l \<le> level \<Longrightarrow> g \<in> set (files s l) \<Longrightarrow> \<not> touches (smallest_user f) (largest_user f) g"
    using f unfolding newcomer_def by blast+
  have mem: "g \<in> set (files s' l) \<longleftrightarrow> g \<in> set (files s l) \<or> l = level \<and> g = f" for g l
    using s'(1,2) by (cases "l = level") auto
  have lw: "level_writes C fs (files s' l) = level_writes C fs (files s l) \<union> (if l = level then ?W else {})" for l
    unfolding level_writes_def by (auto simp: mem)
  show aw: "all_writes C fs s' = all_writes C fs s \<union> ?W" unfolding all_writes_def lw by (auto split: if_splits)
  have disj: "?W \<inter> set (C fs (fnumber g)) = {}" if "g \<in> set (files s l)" for g l
  proof -
    have "set (C fs (fnumber g)) \<subseteq> all_writes C fs s" using that by (auto simp: all_writes_def level_writes_def)
    then show ?thesis using newer by blast
  qed
  have "fnumber g \<noteq> fnumber h \<and> set (C fs (fnumber g)) \<inter> set (C fs (fnumber h)) = {}"
    if gh: "g \<in> set (files s' l)" "h \<in> set (files s' l')" "(l, g) \<noteq> (l', h)" for l l' g h
    using gh(1,2) unfolding mem
  proof (elim disjE conjE)
    assume "g \<in> set (files s l)" "h \<in> set (files s l')"
    then show ?thesis using I(6,7) gh(3) by blast
  next
    assume o: "g \<in> set (files s l)" "h = f"
    then show ?thesis using fresh [OF o(1)] disj [OF o(1)] by auto
  next
    assume o: "g = f" "h \<in> set (files s l')"
    then show ?thesis using fresh [OF o(2)] disj [OF o(2)] by auto
  next
    assume "g = f" "l = level" "h = f" "l' = level"
    then show ?thesis using gh(3) by simp
  qed
  then have p: "\<forall>l l' g h. g \<in> set (files s' l) \<longrightarrow> h \<in> set (files s' l') \<longrightarrow> (l, g) \<noteq> (l', h) \<longrightarrow>
      fnumber g \<noteq> fnumber h \<and> set (C fs (fnumber g)) \<inter> set (C fs (fnumber h)) = {}" by blast
  have uv: "unique_versions (all_writes C fs s')"
    unfolding aw using I(8) rep(2) newer by (intro inj_on_Un [THEN iffD2]) fastforce
  have old: "seq w < seq v" if ll: "l < l'" and v: "v \<in> level_writes C fs (files s' l)" and w: "w \<in> level_writes C fs (files s' l')"
    and k: "ukey v = ukey w" for l l' v w
  proof -
    have sub: "level_writes C fs (files s m) \<subseteq> all_writes C fs s" for m by (auto simp: all_writes_def)
    consider "v \<in> level_writes C fs (files s l)" "w \<in> level_writes C fs (files s l')" | "v \<in> ?W" "w \<in> level_writes C fs (files s l')"
      | "v \<in> level_writes C fs (files s l)" "w \<in> ?W" "l' = level"
      using v w ll unfolding lw by (auto split: if_splits)
    then show ?thesis
    proof cases
      case 1
      then show ?thesis using I(9) [OF ll] k by blast
    next
      case 2
      then show ?thesis using newer [of v w] sub k by blast
    next
      case 3
      from 3(1) obtain g where g: "g \<in> set (files s l)" "v \<in> set (C fs (fnumber g))" by (auto simp: level_writes_def)
      have "\<not> touches (smallest_user f) (largest_user f) g" using apart [OF _ _ g(1)] ll 3(3) by simp
      moreover have "smallest_user f \<le> ukey w" "ukey w \<le> largest_user f"
        using spans_bounds(2) [of f "C fs (fnumber f)" w] rep(1) 3(2) by (auto simp: file_rep_def)
      moreover have "smallest_user g \<le> ukey v" "ukey v \<le> largest_user g" using level_writes_bounds(1,2) [OF inv g] by blast+
      ultimately show ?thesis using k by (auto simp: touches_def)
    qed
  qed
  have srt: "sorted_wrt precedes (files s' l)" if "l > 0" for l
    using I(4) [OF that] s'(1,4) that by (cases "l = level") (auto simp: level_sorted_def)
  have dist: "distinct (files s' l)" for l using I(3) s'(1,3) by (cases "l = level") auto
  have emp: "files s' l = []" if "l \<ge> kNumLevels" for l using I(5) [OF that] s'(1) rep(4) that by (cases "l = level") auto
  have lim: "level_limit s' \<le> int kNumLevels" using inv s'(6) by (simp add: lsm_inv_def)
  have reps: "file_rep Z C fs g \<and> fnumber g \<le> file_id s'" if "g \<in> set (files s' l)" for g l
    using that I(1,2) rep(1,3) s'(5) unfolding mem by auto
  show "lsm_inv Z C fs s'" unfolding lsm_inv_def using reps dist srt emp p uv old lim by blast
qed

lemma precedes_distinct: "level_sorted fl \<Longrightarrow> distinct fl"
proof (induction fl)
  case (Cons f fl)
  then have "smallest_user f \<le> largest_user f" using file_okD(1) [of f] by (simp add: level_sorted_def)
  then show ?case using Cons by (force simp: level_sorted_def)
qed simp

lemma add_at_level:
  assumes inv: "lsm_inv Z C fs s" and f: "newcomer Z C fs s level f"
  shows "\<exists>s1. (if level > 0 then ApplyFileChanges level [f] {} s else Some (append_level level [f] s)) = Some s1 \<and>
    lsm_inv Z C fs s1 \<and> all_writes C fs s1 = all_writes C fs s \<union> set (C fs (fnumber f)) \<and> same_setup s s1 \<and> files s1 level \<noteq> [] \<and>
    (no_dead s \<longrightarrow> fnumber f \<notin> obsolete_files s \<longrightarrow> no_dead s1)"
proof (cases "level > 0")
  case False
  then have l: "level = 0" by simp
  let ?s = "append_level 0 [f] s"
  have "f \<notin> set (files s 0)" using f by (auto simp: newcomer_def)
  then have "lsm_inv Z C fs ?s" "all_writes C fs ?s = all_writes C fs s \<union> set (C fs (fnumber f))"
    using add_inv [OF inv f [unfolded l], of ?s "files s 0 @ [f]"] lsm_invD(3) [OF inv, of 0] by (simp_all add: append_level_def)
  then show ?thesis unfolding l by (auto simp: append_level_def same_setup_def no_dead_def)
next
  case True
  have fok: "level_sorted [f]" using f spans_bounds(1) by (auto simp: newcomer_def file_rep_def level_sorted_def)
  have "precedes f b \<or> precedes b f" if "b \<in> set (files s level)" for b
    using f True that by (auto simp: newcomer_def touches_def not_le)
  from add_sorted_files [OF lsm_invD(10) [OF inv] True fok, of "{}"] this
  obtain s1 r where s1: "ApplyFileChanges level [f] {} s = Some s1" "files s1 = (files s)(level := r)" "same_setup s s1"
    "set r = insert f (set (files s level))" "level_sorted r" by auto
  then have "lsm_inv Z C fs s1" "all_writes C fs s1 = all_writes C fs s \<union> set (C fs (fnumber f))"
    using add_inv [OF inv f s1(2,4) precedes_distinct [OF s1(5)]] by (simp_all add: same_setup_def)
  moreover have "files s1 level \<noteq> []" using s1(2,4) by auto
  moreover have "no_dead s1" if "no_dead s" "fnumber f \<notin> obsolete_files s"
  proof -
    have "obsolete_files s1 = obsolete_files s" using s1(1) by (auto simp: ApplyFileChanges_def Let_def split: if_splits)
    then show ?thesis using that s1(2,4) s1(3) by (auto simp: no_dead_def same_setup_def)
  qed
  ultimately show ?thesis using True s1(1,3) by simp
qed

context table_store
begin

lemma AddFile_ok:
  assumes inv: "lsm_inv Z C fs s" and f: "newcomer Z C fs s level f" and lim: "lsmt_status s = kStandalone \<or> level_limit s > 0"
    and W: "W = all_writes C fs s \<union> set (C fs (fnumber f))" "small W" "unat (file_id s) + kNumLevels * (2 * card W) < 2 ^ 64"
    and gs: "sorted (page_guards page)"
  shows "\<exists>st fs' s'. AddFile T level f page (fs, s) = Some (st, fs', s') \<and> lsm_inv Z C fs' s' \<and>
    all_writes C fs' s' \<subseteq> W \<and> same_reads (all_writes C fs' s') W \<and> lsmt_status s' = lsmt_status s \<and>
    (no_dead s \<longrightarrow> fnumber f \<notin> obsolete_files s \<longrightarrow> no_dead s')"
proof -
  have f': "newcomer Z C fs s level (add_meta f)" using f by (simp add: newcomer_meta)
  have lv: "level < kNumLevels" using f by (simp add: newcomer_def)
  obtain s1 where s1: "(if level > 0 then ApplyFileChanges level [add_meta f] {} s else Some (append_level level [add_meta f] s)) = Some s1"
    "lsm_inv Z C fs s1" "all_writes C fs s1 = W" "same_setup s s1" "files s1 level \<noteq> []"
    "no_dead s \<longrightarrow> fnumber f \<notin> obsolete_files s \<longrightarrow> no_dead s1"
    using add_at_level [OF inv f'] W(1) by auto
  have same: "same_reads V V" for V by (simp add: same_reads_def)
  have A: "AddFile T level f page (fs, s) =
      (if lsmt_status s = kStandalone then Some (kOk, fs, Finalize s1)
       else if MayNeedCompaction s1 level = kOverflow then CompactLevel T level page (fs, s1) else Some (kOk, fs, s1))"
    unfolding AddFile_def prod.case s1(1) by simp
  consider "lsmt_status s = kStandalone" | "lsmt_status s \<noteq> kStandalone" "MayNeedCompaction s1 level \<noteq> kOverflow"
    | "lsmt_status s \<noteq> kStandalone" "MayNeedCompaction s1 level = kOverflow" by blast
  then show ?thesis
  proof cases
    case 1
    have F: "files (Finalize s1) = files s1" "file_id (Finalize s1) = file_id s1" "level_limit (Finalize s1) = level_limit s1"
      "obsolete_files (Finalize s1) = obsolete_files s1" "lsmt_status (Finalize s1) = lsmt_status s1"
      using Finalize_content [of s1] by (simp_all add: same_content_def)
    then have "lsm_inv Z C fs (Finalize s1)" "all_writes C fs (Finalize s1) = W"
      using same_tree [of "Finalize s1" s1 Z C fs] s1(2,3) by simp_all
    moreover have "no_dead (Finalize s1) = no_dead s1" using F by (simp add: no_dead_def)
    ultimately show ?thesis unfolding A using 1 same s1(4,6) F(5) by (simp add: same_setup_def)
  next
    case 2
    then show ?thesis unfolding A using s1(2-4,6) same by (simp add: same_setup_def)
  next
    case 3
    have S: "lsmt_status s1 \<noteq> kStandalone" "level_limit s1 > 0" "file_id s1 = file_id s" using 3 lim s1(4) by (auto simp: same_setup_def)
    have le: "(kNumLevels - level) * (2 * card W) \<le> kNumLevels * (2 * card W)" by simp
    then have "unat (file_id s1) + (kNumLevels - level) * (2 * card (all_writes C fs s1)) < 2 ^ 64" unfolding S(3) s1(3) using W(3) by linarith
    from CompactLevel_ok [OF s1(2) _ S(1,2) s1(5) gs this lv] s1(3) W(2)
    obtain st t' where "CompactLevel T level page (fs, s1) = Some (st, t')" "compacted Z C ((kNumLevels - level) * (2 * card W)) (fs, s1) t'"
      by auto
    then show ?thesis unfolding A using 3 s1(3,4,6) by (cases t') (auto simp: compacted_def same_setup_def)
  qed
qed

end

section \<open>Where a memtable goes\<close>

lemma OverlapInLevel_iff:
  assumes "levels_ok s" "length small + 8 < 2 ^ 32"
  shows "OverlapInLevel s level (Some small) (Some large) \<longleftrightarrow> (\<exists>g \<in> set (files s level). touches small large g)"
  unfolding OverlapInLevel_def using assms by (intro SomeFileOverlapsRange) (auto simp: levels_ok_def)

lemma pick_loop_ok:
  assumes s: "levels_ok s" "length small + 8 < 2 ^ 32"
    and l: "level \<le> mx" "\<forall>l \<le> level. \<forall>g \<in> set (files s l). \<not> touches small large g"
  shows "\<exists>l. pick_loop s small large mx level = Some l \<and> l \<le> mx \<and> (\<forall>l' \<le> l. \<forall>g \<in> set (files s l'). \<not> touches small large g)"
  using l
proof (induction "mx - level" arbitrary: level)
  case 0
  then show ?case by (subst pick_loop.simps) auto
next
  case (Suc n)
  then have lt: "level < mx" by simp
  show ?case
  proof (cases "OverlapInLevel s (level + 1) (Some small) (Some large)")
    case True
    then show ?thesis using lt Suc.prems by (subst pick_loop.simps) simp
  next
    case False
    have "\<forall>l \<le> level + 1. \<forall>g \<in> set (files s l). \<not> touches small large g"
      using False Suc.prems(2) OverlapInLevel_iff [OF s, of "level + 1" large] by (auto simp: le_Suc_eq)
    then have IH: "\<exists>l. pick_loop s small large mx (level + 1) = Some l \<and> l \<le> mx \<and> (\<forall>l' \<le> l. \<forall>g \<in> set (files s l'). \<not> touches small large g)"
      using Suc.hyps lt by (intro Suc.hyps(1)) simp_all
    have "pick_loop s small large mx level = Some level \<or> pick_loop s small large mx level = pick_loop s small large mx (level + 1)"
      using lt False pick_loop.simps [of s small large mx level] by (simp add: GetOverlappingInputs_def split: if_splits)
    then show ?thesis using IH Suc.prems by auto
  qed
qed

text \<open>The level picked is a level of the tree; unless it is 0, no file at that level or above overlaps the range.\<close>

lemma PickLevelForMemTableOutput_ok:
  assumes s: "levels_ok s" "length small + 8 < 2 ^ 32"
  shows "\<exists>l. PickLevelForMemTableOutput s small large = Some l \<and> l < kNumLevels \<and>
    (level_limit s > 0 \<longrightarrow> int l < level_limit s) \<and> (l > 0 \<longrightarrow> (\<forall>l' \<le> l. \<forall>g \<in> set (files s l'). \<not> touches small large g))"
proof (cases "OverlapInLevel s 0 (Some small) (Some large)")
  case True
  then show ?thesis by (simp add: PickLevelForMemTableOutput_def kNumLevels_def)
next
  case False
  let ?mx = "nat (if kMaxMemCompactLevel < level_limit s then kMaxMemCompactLevel else level_limit s)"
  have "?mx \<le> 2" by (auto simp: kMaxMemCompactLevel_def)
  moreover have "\<forall>l \<le> 0. \<forall>g \<in> set (files s l). \<not> touches small large g" using False OverlapInLevel_iff [OF s] by simp
  from pick_loop_ok [OF s, of 0 ?mx, OF _ this] obtain l where
    l: "pick_loop s small large ?mx 0 = Some l" "l \<le> ?mx" "\<forall>l' \<le> l. \<forall>g \<in> set (files s l'). \<not> touches small large g" by auto
  ultimately show ?thesis using False by (auto simp: PickLevelForMemTableOutput_def kNumLevels_def)
qed

end
