(* ===== verification/TableStore.thy ===== *)
theory TableStore
  imports TableReadCorrect TableCache LsmOps
begin

text \<open>
  Tables as the store of the LSM tree: the files written with the builder and read through the table cache satisfy the contract
  \<open>table_store\<close>, so what is proved of compactions on that contract holds of the table files.
\<close>

section \<open>Iterators of tables\<close>

definition tab_ok :: "Port \<Rightarrow> bool \<Rightarrow> tab_iter \<Rightarrow> bool" where
  "tab_ok P v s \<longleftrightarrow> (case s of Inl _ \<Rightarrow> False | Inr (t, i) \<Rightarrow> icmp_table t \<and> tables.tok P v t i)"

definition tab_items :: "Port \<Rightarrow> bool \<Rightarrow> tab_iter \<Rightarrow> (slice \<times> slice) list" where
  "tab_items P v s = (case s of Inl _ \<Rightarrow> [] | Inr (t, i) \<Rightarrow> tables.titems P v t i)"

definition tab_pos :: "Port \<Rightarrow> bool \<Rightarrow> tab_iter \<Rightarrow> nat" where
  "tab_pos P v s = (case s of Inl _ \<Rightarrow> 0 | Inr (t, i) \<Rightarrow> tables.tpos P v t i)"

lemma table_iterator_sorted:
  "icmp_table t \<Longrightarrow> sorted_iter ikey_ok icmp (table_iterator P v t) (tables.tok P v t) (tables.titems P v t) (tables.tpos P v t)"
  using tables.two_level_sorted [of P v t] by (simp add: table_iterator_def Let_def)

interpretation tab: sorted_iter ikey_ok icmp "tab_iterator (table_iterator P v)" "tab_ok P v" "tab_items P v" "tab_pos P v"
  for P v
proof (intro sorted_iter.intro [OF ikeys.key_order_axioms] sorted_iter_axioms.intro)
  fix s assume "tab_ok P v s"
  then obtain t i where s: "s = Inr (t, i)" "icmp_table t" "tables.tok P v t i" by (auto simp: tab_ok_def split: sum.splits)
  note S = table_iterator_sorted [OF s(2), of P v]
  note D = tab_iterator_def tab_op_def tab_need_def tab_ok_def tab_items_def tab_pos_def
  show "sorted_wrt (\<lambda>a b. icmp (fst a) (fst b) < 0) (tab_items P v s) \<and> (\<forall>e \<in> set (tab_items P v s). ikey_ok (fst e))"
    using sorted_iter.ascends [OF S, OF s(3)] by (simp add: s(1) D)
  show "it_Valid (tab_iterator (table_iterator P v)) s \<longleftrightarrow> tab_pos P v s < length (tab_items P v s)"
    using sorted_iter.valid_iff [OF S, OF s(3)] by (simp add: s(1) D)
  show "it_key (tab_iterator (table_iterator P v)) s = Some (fst (tab_items P v s ! tab_pos P v s)) \<and>
      it_value (tab_iterator (table_iterator P v)) s = Some (snd (tab_items P v s ! tab_pos P v s))" if "tab_pos P v s < length (tab_items P v s)"
    using sorted_iter.reads [OF S, OF s(3)] that by (simp add: s(1) D)
  show "\<exists>s'. it_SeekToFirst (tab_iterator (table_iterator P v)) s = Some s' \<and> tab_ok P v s' \<and> tab_items P v s' = tab_items P v s \<and> tab_pos P v s' = 0"
    using sorted_iter.seek_first [OF S, OF s(3)] s(2) by (auto simp: s(1) D)
  show "\<exists>s'. it_SeekToLast (tab_iterator (table_iterator P v)) s = Some s' \<and> tab_ok P v s' \<and> tab_items P v s' = tab_items P v s \<and>
      tab_pos P v s' = length (tab_items P v s) - 1"
    using sorted_iter.seek_last [OF S, OF s(3)] s(2) by (auto simp: s(1) D)
  show "\<exists>s'. it_Seek (tab_iterator (table_iterator P v)) k s = Some s' \<and> tab_ok P v s' \<and> tab_items P v s' = tab_items P v s \<and>
      tab_pos P v s' = lower icmp (tab_items P v s) k" if "ikey_ok k" for k
    using sorted_iter.seek [OF S, OF s(3) that] s(2) by (auto simp: s(1) D)
  show "\<exists>s'. it_Next (tab_iterator (table_iterator P v)) s = Some s' \<and> tab_ok P v s' \<and> tab_items P v s' = tab_items P v s \<and>
      tab_pos P v s' = Suc (tab_pos P v s)" if "tab_pos P v s < length (tab_items P v s)"
    using sorted_iter.step [OF S, OF s(3)] that s(2) by (auto simp: s(1) D)
  show "\<exists>s'. it_Prev (tab_iterator (table_iterator P v)) s = Some s' \<and> tab_ok P v s' \<and> tab_items P v s' = tab_items P v s \<and>
      tab_pos P v s' = (if tab_pos P v s = 0 then length (tab_items P v s) else tab_pos P v s - 1)" if "tab_pos P v s < length (tab_items P v s)"
    using sorted_iter.step_back [OF S, OF s(3)] that s(2) by (auto simp: s(1) D)
qed

section \<open>Writing the entries of a table\<close>

text \<open>A file in memory, and the builder run over a list of entries.\<close>

definition mem_file :: "slice WritableFile" where
  "mem_file = \<lparr>wf_Append = (\<lambda>d f. (StatusOK, f @ d)), wf_Flush = (\<lambda>f. (StatusOK, f))\<rparr>"

lemma mem_file_appends: "file_appends mem_file id"
  by (simp add: file_appends_def mem_file_def)

fun add_entries :: "'f WritableFile \<Rightarrow> Port \<Rightarrow> (slice \<times> slice) list \<Rightarrow> 'f TableBuilder \<Rightarrow> 'f TableBuilder option" where
  "add_entries W P [] r = Some r"
| "add_entries W P ((k, v) # es) r = Option.bind (TableBuilder_Add W P k v r) (add_entries W P es)"

lemma ascending_prefix: "ikeys.ascending (xs @ ys) \<Longrightarrow> ikeys.ascending xs"
  by (simp add: sorted_wrt_append)

lemma add_entries_ok:
  assumes W: "file_appends W content" and K: "1 \<le> block_restart_interval opt" and cmp: "icmp_comparator (comparator opt)"
  shows "tb_inv P content opt r bs pend cur \<Longrightarrow> \<not> tb_closed r \<Longrightarrow> ikeys.ascending ((all_entries bs @ pend @ cur) @ es) \<Longrightarrow>
    weight ((all_entries bs @ pend @ cur) @ es) < 2 ^ 31 \<Longrightarrow>
    \<exists>r' bs' pend' cur'. add_entries W P es r = Some r' \<and> tb_inv P content opt r' bs' pend' cur' \<and> \<not> tb_closed r' \<and>
      all_entries bs' @ pend' @ cur' = (all_entries bs @ pend @ cur) @ es"
proof (induction es arbitrary: r bs pend cur)
  case (Cons e es)
  obtain k v where e: "e = (k, v)" by (cases e)
  have "ikeys.ascending ((all_entries bs @ pend @ cur) @ [(k, v)])" "weight ((all_entries bs @ pend @ cur) @ [(k, v)]) < 2 ^ 31"
    using ascending_prefix [of "(all_entries bs @ pend @ cur) @ [(k, v)]" es] Cons.prems(3,4) e by simp_all
  from TableBuilder_Add_ok [OF W Cons.prems(1,2) K cmp this] obtain r1 bs1 pend1 cur1 where
    r1: "TableBuilder_Add W P k v r = Some r1" "tb_inv P content opt r1 bs1 pend1 cur1" "\<not> tb_closed r1"
      "all_entries bs1 @ pend1 @ cur1 = (all_entries bs @ pend @ cur) @ [(k, v)]" by blast
  have "(all_entries bs1 @ pend1 @ cur1) @ es = (all_entries bs @ pend @ cur) @ e # es" unfolding r1(4) e by simp
  then show ?case using Cons.IH [OF r1(2,3)] Cons.prems(3,4) r1(1) e by simp
qed auto

definition build_table :: "Port \<Rightarrow> Options \<Rightarrow> (slice \<times> slice) list \<Rightarrow> slice option" where
  "build_table P opt es =
     Option.bind (new_TableBuilder opt []) (\<lambda>r0. Option.bind (add_entries mem_file P es r0) (\<lambda>r1.
       map_option (\<lambda>(s, r2). tb_file r2) (TableBuilder_Finish mem_file P r1)))"

text \<open>The options a compaction writes tables with: the defaults, so no filter.\<close>

definition table_options :: "Options \<Rightarrow> bool" where
  "table_options opt \<longleftrightarrow> 1 \<le> block_restart_interval opt \<and> icmp_comparator (comparator opt) \<and> filter_policy opt = None"

lemma build_table_ok:
  assumes opt: "table_options opt" and es: "ikeys.ascending es" "weight es < 2 ^ 30"
  shows "\<exists>F. build_table P opt es = Some F \<and> table_file P F es"
proof -
  have K: "1 \<le> block_restart_interval opt" and cmp: "icmp_comparator (comparator opt)" and nf: "filter_policy opt = None"
    using opt by (simp_all add: table_options_def)
  obtain r0 where r0: "new_TableBuilder opt [] = Some r0" "tb_inv P id opt r0 [] [] []" "\<not> tb_closed r0"
    using new_TableBuilder_ok [OF K, of id "[]" P] by auto
  obtain r1 bs pend cur where r1: "add_entries mem_file P es r0 = Some r1" "tb_inv P id opt r1 bs pend cur" "\<not> tb_closed r1"
    "all_entries bs @ pend @ cur = es"
    using add_entries_ok [OF mem_file_appends K cmp r0(2,3), of es] es by auto
  obtain r2 where "TableBuilder_Finish mem_file P r1 = Some (StatusOK, r2)" "table_file P (tb_file r2) es"
    using TableBuilder_Finish_ok [OF mem_file_appends r1(2,3) K cmp] r1(4) es nf by auto
  then show ?thesis using r0(1) r1(1) by (simp add: build_table_def)
qed

section \<open>The runs in the files\<close>

type_synonym table_fs = "64 word \<rightharpoonup> slice"

definition mem_reader :: "slice \<Rightarrow> RandomAccessFile" where
  "mem_reader F = \<lparr>rf_Read = (\<lambda>a n. (StatusOK, take n (drop a F))), rf_mapped = False\<rparr>"

lemma mem_reader_reads: "file_reads (mem_reader F) F"
  by (simp add: file_reads_def mem_reader_def)

text \<open>A file is the table of one list of entries only.\<close>

lemma table_file_unique:
  fixes opt :: Options
  assumes P: "port_ok P" and c: "icmp_comparator (comparator opt)" and F: "table_file P F es" "table_file P F es'" "ikeys.ascending es" "ikeys.ascending es'"
  shows "es = es'"
proof -
  obtain t where t: "Table_Open P opt 0 (mem_reader F) (of_nat (length F)) = Some (Inr t)" "t_options t = opt" "table_opened P t es"
    using Table_Open_ok [OF P mem_reader_reads F(1)] by blast
  have "table_opened P t es'" using Table_Open_ok [OF P mem_reader_reads F(2), of opt 0] t(1) by auto
  moreover have "icmp_table t" using c t(2) by (simp add: icmp_comparator_def)
  ultimately obtain i j where "Table_NewIterator t = Some i" "tables.titems P False t i = es" "Table_NewIterator t = Some j" "tables.titems P False t j = es'"
    using Table_NewIterator_ok [OF P t(3) _ F(3), of False] Table_NewIterator_ok [OF P _ _ F(4), of t False] by blast
  then show ?thesis by simp
qed

definition icmp_options :: Options where
  "icmp_options = \<lparr>comparator = \<lparr>co_Name = [], co_Compare = icmp,
      co_FindShortestSeparator = InternalKey_FindShortestSeparator Bytewise_Compare Bytewise_FindShortestSeparator,
      co_FindShortSuccessor = InternalKey_FindShortSuccessor Bytewise_Compare (\<lambda>k. Inr (Bytewise_FindShortSuccessor k))\<rparr>,
    paranoid_checks = False, block_size = 4096, block_restart_interval = 16, compression = kSnappyCompression, zstd_compression_level = 1,
    filter_policy = None\<rparr>"

lemma icmp_options_ok: "table_options icmp_options" "icmp_comparator (comparator icmp_options)"
  by (simp_all add: table_options_def icmp_options_def icmp_comparator_def)

lemma run_entries: "run_ok ws \<Longrightarrow> ikeys.ascending (map item_of ws)"
  using write_ikey_ok by (auto simp: run_ok_def sorted_wrt_map item_of_def icmp_writes)

definition table_run :: "Port \<Rightarrow> table_fs \<Rightarrow> 64 word \<Rightarrow> mem_write list" where
  "table_run P fs n =
     (case fs n of None \<Rightarrow> []
      | Some F \<Rightarrow> if \<exists>ws. run_ok ws \<and> table_file P F (map item_of ws) then SOME ws. run_ok ws \<and> table_file P F (map item_of ws) else [])"

definition table_size :: "table_fs \<Rightarrow> 64 word \<Rightarrow> 64 word" where
  "table_size fs n = (case fs n of None \<Rightarrow> 0 | Some F \<Rightarrow> of_nat (length F))"

lemma table_run_eq:
  assumes P: "port_ok P" and F: "fs n = Some F" "run_ok ws" "table_file P F (map item_of ws)"
  shows "table_run P fs n = ws"
proof -
  let ?Q = "\<lambda>ws. run_ok ws \<and> table_file P F (map item_of ws)"
  have Q: "?Q (SOME ws. ?Q ws)" by (rule someI [of ?Q ws]) (use F in simp)
  have e: "us = ws" if us: "run_ok us" "table_file P F (map item_of us)" for us
  proof -
    have "map item_of us = map item_of ws"
      by (rule table_file_unique [OF P icmp_options_ok(2) us(2) F(3) run_entries [OF us(1)] run_entries [OF F(2)]])
    moreover have "\<forall>w \<in> set us \<union> set ws. write_ok w" using us(1) F(2) by (auto simp: run_ok_def)
    ultimately show ?thesis using map_inj_on item_of_inj by blast
  qed
  have "(SOME ws. ?Q ws) = ws" using e Q by simp
  moreover have "\<exists>ws. ?Q ws" using F by blast
  ultimately show ?thesis using F(1) by (simp add: table_run_def)
qed

lemma table_run_file:
  assumes "run_ok (table_run P fs n)"
  shows "\<exists>F. fs n = Some F \<and> table_file P F (map item_of (table_run P fs n))"
proof -
  have ne: "table_run P fs n \<noteq> []" using assms by (simp add: run_ok_def)
  then obtain F where F: "fs n = Some F" "\<exists>ws. run_ok ws \<and> table_file P F (map item_of ws)"
    by (auto simp: table_run_def split: option.splits if_splits)
  from someI_ex [OF F(2)] show ?thesis using F by (simp add: table_run_def)
qed

text \<open>Data that fits: the bytes of the versions, with room for the format, are less than a gigabyte.\<close>

definition fits :: "mem_write set \<Rightarrow> bool" where
  "fits W \<longleftrightarrow> finite W \<and> (\<Sum>w \<in> W. length (write_ikey w) + length (snd w) + 100) < 2 ^ 30"

lemma fits_weight:
  assumes "run_ok ws" "fits (set ws)"
  shows "weight (map item_of ws) < 2 ^ 30"
proof -
  have "distinct ws" using ikeys.ascending_distinct [OF run_entries [OF assms(1)]] by (simp add: distinct_map)
  then have "weight (map item_of ws) = (\<Sum>w \<in> set ws. length (write_ikey w) + length (snd w) + 100)"
    by (simp add: weight_def item_of_def comp_def sum_list_distinct_conv_sum_set)
  then show ?thesis using assms(2) by (simp add: fits_def)
qed

section \<open>The store\<close>

text \<open>
  The table component of the tree over files in memory: tables are written with the options \<open>wopt\<close> and read through an empty table cache with
  the options \<open>ropt\<close>.
\<close>

definition mem_env :: "(table_fs, slice) Env" where
  "mem_env = \<lparr>NewWritableFile = (\<lambda>n fs. (Inr [], fs(n \<mapsto> []))), env_file = mem_file, env_Sync = (\<lambda>n f fs. (StatusOK, f, fs(n \<mapsto> f))),
     env_Close = (\<lambda>n f fs. (StatusOK, fs(n \<mapsto> f))), RemoveFile = (\<lambda>n fs. fs(n := None)),
     NewRandomAccessFile = (\<lambda>n fs. case fs n of None \<Rightarrow> Inl (IOError ''no such file'') | Some F \<Rightarrow> Inr (mem_reader F))\<rparr>"

definition level_tables :: "Port \<Rightarrow> bool \<Rightarrow> Options \<Rightarrow> Options \<Rightarrow> (table_fs, tab_iter) Tables" where
  "level_tables P v wopt ropt =
     \<lparr>tab_ops = tab_iterator (table_iterator P v),
      open_table = (\<lambda>fs n sz. map_option fst (TableCache_NewIterator mem_env P ropt 0 fs n sz Map.empty)),
      write_table = (\<lambda>n es fs. case build_table P wopt es of None \<Rightarrow> fs | Some F \<Rightarrow> fs(n \<mapsto> F)),
      cur_size = (\<lambda>es. case Option.bind (new_TableBuilder wopt []) (add_entries mem_file P es) of None \<Rightarrow> 0 | Some r \<Rightarrow> FileSize r),
      final_size = (\<lambda>es. case build_table P wopt es of None \<Rightarrow> 0 | Some F \<Rightarrow> of_nat (length F))\<rparr>"

lemma open_table_ok:
  assumes P: "port_ok P" and ropt: "icmp_comparator (comparator ropt)" and F: "fs n = Some F" "table_file P F es" "ikeys.ascending es"
  shows "\<exists>it. open_table (level_tables P v wopt ropt) fs n (of_nat (length F)) = Some it \<and> tab_ok P v it \<and> tab_items P v it = es"
proof -
  obtain t where t: "Table_Open P ropt 0 (mem_reader F) (of_nat (length F)) = Some (Inr t)" "t_options t = ropt" "table_opened P t es"
    using Table_Open_ok [OF P mem_reader_reads F(2)] by blast
  have ic: "icmp_table t" using ropt t(2) by (simp add: icmp_comparator_def)
  obtain i where i: "Table_NewIterator t = Some i" "tables.tok P v t i" "tables.titems P v t i = es"
    using Table_NewIterator_ok [OF P t(3) ic F(3)] by blast
  show ?thesis using t(1) i ic F(1)
    by (simp add: level_tables_def TableCache_NewIterator_def FindTable_def mem_env_def tab_ok_def tab_items_def)
qed

lemma level_tables_store:
  assumes P: "port_ok P" and wopt: "table_options wopt" and ropt: "icmp_comparator (comparator ropt)"
  shows "table_store (level_tables P v wopt ropt) (tab_ok P v) (tab_items P v) (tab_pos P v) table_size (table_run P) fits"
proof (intro table_store.intro table_store_axioms.intro)
  show "write_iter (tab_ops (level_tables P v wopt ropt)) (tab_ok P v) (tab_items P v) (tab_pos P v)"
    unfolding level_tables_def Tables.simps by (rule write_iter.intro) (rule tab.sorted_iter_axioms)
next
  fix fs n assume r: "run_ok (table_run P fs n)"
  obtain F where F: "fs n = Some F" "table_file P F (map item_of (table_run P fs n))" using table_run_file [OF r] by blast
  show "\<exists>it. open_table (level_tables P v wopt ropt) fs n (table_size fs n) = Some it \<and> tab_ok P v it \<and> tab_items P v it = map item_of (table_run P fs n)"
    using open_table_ok [OF P ropt, of fs n F "map item_of (table_run P fs n)"] F run_entries [OF r] by (simp add: table_size_def)
next
  fix ws :: "mem_write list" and n fs assume ws: "run_ok ws" "fits (set ws)"
  obtain F where F: "build_table P wopt (map item_of ws) = Some F" "table_file P F (map item_of ws)"
    using build_table_ok [OF wopt run_entries [OF ws(1)] fits_weight [OF ws]] by blast
  let ?fs = "write_table (level_tables P v wopt ropt) n (map item_of ws) fs"
  have fs: "?fs = fs(n \<mapsto> F)" using F(1) by (simp add: level_tables_def)
  have "table_run P ?fs n = ws" by (rule table_run_eq [OF P _ ws(1) F(2)]) (simp add: fs)
  then show "table_run P ?fs n = ws \<and> table_size ?fs n = final_size (level_tables P v wopt ropt) (map item_of ws)"
    using F(1) by (simp add: table_size_def fs) (simp add: level_tables_def)
next
  fix m n :: "64 word" and es fs assume "m \<noteq> n"
  then have "write_table (level_tables P v wopt ropt) n es fs m = fs m" by (simp add: level_tables_def split: option.splits)
  then show "table_run P (write_table (level_tables P v wopt ropt) n es fs) m = table_run P fs m \<and>
      table_size (write_table (level_tables P v wopt ropt) n es fs) m = table_size fs m"
    unfolding table_run_def table_size_def by simp
next
  fix W V :: "mem_write set" assume W: "fits W" "V \<subseteq> W"
  then have "(\<Sum>w \<in> V. length (write_ikey w) + length (snd w) + 100) \<le> (\<Sum>w \<in> W. length (write_ikey w) + length (snd w) + 100)"
    by (intro sum_mono2) (auto simp: fits_def)
  then show "fits V" using W finite_subset by (auto simp: fits_def)
qed

text \<open>The platform layer built without the compression libraries: compressing and uncompressing report failure.\<close>

definition no_port :: Port where
  "no_port = \<lparr>Snappy_Compress = (\<lambda>_. None), Snappy_GetUncompressedLength = (\<lambda>_. None), Snappy_Uncompress = (\<lambda>_. None),
     Zstd_Compress = (\<lambda>_ _. None), Zstd_GetUncompressedLength = (\<lambda>_. None), Zstd_Uncompress = (\<lambda>_. None)\<rparr>"

lemma no_port_ok: "port_ok no_port"
  by (simp add: port_ok_def no_port_def)

interpretation level_store: table_store "level_tables no_port False icmp_options icmp_options" "tab_ok no_port False" "tab_items no_port False"
  "tab_pos no_port False" table_size "table_run no_port" fits
  by (rule level_tables_store [OF no_port_ok icmp_options_ok])

section \<open>Properties\<close>

text \<open>C26. Tables are read back exactly: for entries in the order of the internal keys, the file the table builder writes
  (data blocks, separators, index block, footer, checksums, whatever the compressors do) can be opened, and the iterator of the opened
  table is a cursor on the list of the entries for every sequence of \<^verbatim>\<open>SeekToFirst\<close>, \<^verbatim>\<open>SeekToLast\<close>, \<^verbatim>\<open>Seek\<close>, \<^verbatim>\<open>Next\<close> and
  \<^verbatim>\<open>Prev\<close> the cursor can make. The builder runs without a filter policy, and the entries with 100 bytes for each take less than
  a gigabyte. The compressors are a parameter of which only the round trip is assumed.\<close>

theorem table_roundtrip:
  assumes "port_ok P" "table_options opt" "sorted_wrt (\<lambda>a b. icmp (fst a) (fst b) < 0) es" "\<forall>e \<in> set es. ikey_ok (fst e)" "weight es < 2 ^ 30"
  shows "\<exists>F t i. build_table P opt es = Some F \<and> Table_Open P opt cid (mem_reader F) (of_nat (length F)) = Some (Inr t) \<and> Table_NewIterator t = Some i \<and>
    (\<forall>mvs n. (\<forall>mv \<in> set mvs. move_ok ikey_ok mv) \<and> run_moves (cursor_move icmp es) mvs (length es) = Some n \<longrightarrow>
      (let J = table_iterator P v t in
       \<exists>i'. run_moves (do_move J) mvs i = Some i' \<and> (it_Valid J i' \<longleftrightarrow> n < length es) \<and>
         (n < length es \<longrightarrow> it_key J i' = Some (fst (es ! n)) \<and> it_value J i' = Some (snd (es ! n)))))"
proof -
  have asc: "ikeys.ascending es" using assms(3,4) by blast
  obtain F where F: "build_table P opt es = Some F" "table_file P F es" using build_table_ok [OF assms(2) asc assms(5)] by blast
  obtain t where t: "Table_Open P opt cid (mem_reader F) (of_nat (length F)) = Some (Inr t)" "t_options t = opt" "table_opened P t es"
    using Table_Open_ok [OF assms(1) mem_reader_reads F(2)] by blast
  have ic: "icmp_table t" using assms(2) t(2) by (simp add: table_options_def icmp_comparator_def)
  obtain i where i: "Table_NewIterator t = Some i" "tables.tok P v t i" "tables.titems P v t i = es" "tables.tpos P v t i = length es"
    using Table_NewIterator_ok [OF assms(1) t(3) ic asc] by blast
  note S = table_iterator_sorted [OF ic, of P v]
  have "\<exists>i'. run_moves (do_move (table_iterator P v t)) mvs i = Some i' \<and> tables.tok P v t i' \<and> tables.titems P v t i' = es \<and> tables.tpos P v t i' = n"
    if "\<forall>mv \<in> set mvs. move_ok ikey_ok mv" "run_moves (cursor_move icmp es) mvs (length es) = Some n" for mvs n
    using sorted_iter.run_moves_ok [OF S, OF i(2) that(1)] that(2) i(3,4) by simp
  then show ?thesis using F(1) t(1) i(1) sorted_iter.valid_iff [OF S] sorted_iter.reads [OF S]
    by (intro exI [of _ F] exI [of _ t] exI [of _ i]) (fastforce simp: Let_def)
qed

theorem table_roundtrip_witness:
  "\<exists>F t i i'. build_table no_port icmp_options demo_entries = Some F \<and>
    Table_Open no_port icmp_options 0 (mem_reader F) (of_nat (length F)) = Some (Inr t) \<and> Table_NewIterator t = Some i \<and>
    run_moves (do_move (table_iterator no_port True t)) [MSeekToLast, MPrev] i = Some i' \<and> it_value (table_iterator no_port True t) i' = Some [1]"
proof -
  have pre: "sorted_wrt (\<lambda>a b. icmp (fst a) (fst b) < 0) demo_entries" "\<forall>e \<in> set demo_entries. ikey_ok (fst e)" "weight demo_entries < 2 ^ 30"
    using demo_sorted by (simp_all add: demo_entries_def ikey_ok_def)
  obtain F t i where F: "build_table no_port icmp_options demo_entries = Some F"
    "Table_Open no_port icmp_options 0 (mem_reader F) (of_nat (length F)) = Some (Inr t)" "Table_NewIterator t = Some i"
    and run: "\<forall>mvs n. (\<forall>mv \<in> set mvs. move_ok ikey_ok mv) \<and> run_moves (cursor_move icmp demo_entries) mvs (length demo_entries) = Some n \<longrightarrow>
      (\<exists>i'. run_moves (do_move (table_iterator no_port True t)) mvs i = Some i' \<and> (it_Valid (table_iterator no_port True t) i' \<longleftrightarrow> n < length demo_entries) \<and>
         (n < length demo_entries \<longrightarrow> it_key (table_iterator no_port True t) i' = Some (fst (demo_entries ! n)) \<and>
           it_value (table_iterator no_port True t) i' = Some (snd (demo_entries ! n))))"
    using table_roundtrip [OF no_port_ok icmp_options_ok(1) pre, of 0 True] unfolding Let_def by (elim exE conjE) (rule that)
  have "run_moves (cursor_move icmp demo_entries) [MSeekToLast, MPrev] (length demo_entries) = Some 0" by (simp add: demo_entries_def)
  with run [rule_format, of "[MSeekToLast, MPrev]" 0] show ?thesis using F by (auto simp: demo_entries_def)
qed

text \<open>C2. A compaction of the LSM tree loses nothing a reader sees: with every file of the tree a table on disk, deeper levels
  sorted and disjoint and deeper versions older, a compaction that is due for size or for seeks returns (picking
  inputs, merging the tables through their real iterators, writing the outputs, installing them), keeps that invariant, and for every key a
  read at a snapshot not below any version finds the same value as before, or none as before. Entries of a key below its newest one are
  dropped, and deletions too, but only where no older version can come back. Data is less than a gigabyte and file numbers do not run out.\<close>

theorem lsm_compaction_keeps_reads:
  assumes "port_ok P" "table_options wopt" "icmp_comparator (comparator ropt)" "lsm_inv table_size (table_run P) fs s"
    "fits (all_writes (table_run P) fs s)" "compaction_due s" "sorted (page_guards (Some page))"
    "unat (file_id s) + 2 * card (all_writes (table_run P) fs s) < 2 ^ 64"
  shows "\<exists>st fs' s'. DoCompact (level_tables P v wopt ropt) page (fs, s) = Some (st, fs', s') \<and> lsm_inv table_size (table_run P) fs' s' \<and>
    all_writes (table_run P) fs' s' \<subseteq> all_writes (table_run P) fs s \<and>
    (\<forall>k x sq. (\<forall>w \<in> all_writes (table_run P) fs s. seq w \<le> sq) \<longrightarrow>
       newest (all_writes (table_run P) fs' s') k sq (get_result.Found x) = newest (all_writes (table_run P) fs s) k sq (get_result.Found x))"
proof -
  obtain st fs' s' where c: "DoCompact (level_tables P v wopt ropt) page (fs, s) = Some (st, fs', s')"
    "compacted table_size (table_run P) (2 * card (all_writes (table_run P) fs s)) (fs, s) (fs', s')"
    using table_store.DoCompact_ok [OF level_tables_store [OF assms(1-3)] assms(4-8)] by force
  have r: "lsm_inv table_size (table_run P) fs' s'" "all_writes (table_run P) fs' s' \<subseteq> all_writes (table_run P) fs s"
    "same_reads (all_writes (table_run P) fs' s') (all_writes (table_run P) fs s)" using c(2) by (simp_all add: compacted_def)
  have "newest (all_writes (table_run P) fs' s') k sq (get_result.Found x) = newest (all_writes (table_run P) fs s) k sq (get_result.Found x)"
    if "\<forall>w \<in> all_writes (table_run P) fs s. seq w \<le> sq" for k x sq
    using r(2,3) that unfolding same_reads_def by blast
  then show ?thesis using c(1) r(1,2) by blast
qed

text \<open>Two tables at level 0 with two versions of one key.\<close>

definition demo_version :: "64 word \<Rightarrow> slice \<Rightarrow> mem_write" where
  "demo_version sq v = (\<lparr>user_key = [107], sequence_no = sq, val_type = kTypeValue\<rparr>, v)"

definition demo_tables_fs :: table_fs where
  "demo_tables_fs = write_table (level_tables no_port False icmp_options icmp_options) 2 (map item_of [demo_version 5 [9]])
     (write_table (level_tables no_port False icmp_options icmp_options) 1 (map item_of [demo_version 3 [7]]) Map.empty)"

abbreviation demo_meta :: "64 word \<Rightarrow> mem_write \<Rightarrow> FileMetaData" where
  "demo_meta n w \<equiv> \<lparr>allowed_seeks = 100, fnumber = n, file_entry = 1, file_size = table_size demo_tables_fs n, smallest = write_ikey w, largest = write_ikey w\<rparr>"

definition demo_lsmt :: lsmt where
  "demo_lsmt = (new_LevelDBLSMT 2 2097152 (-1) kStandalone 4)\<lparr>files := (\<lambda>_. [])(0 := [demo_meta 1 (demo_version 3 [7]), demo_meta 2 (demo_version 5 [9])]),
     compact_level := 0, compaction_score := 1\<rparr>"

lemma demo_version_ok: "sq < 1000 \<Longrightarrow> length v < 1000 \<Longrightarrow> run_ok [demo_version sq v] \<and> fits (set [demo_version sq v])"
proof -
  assume a: "sq < 1000" "length v < 1000"
  have "(1000 :: 64 word) \<le> kMaxSequenceNumber" by (simp add: kMaxSequenceNumber_def)
  then have "sq < kMaxSequenceNumber" using a(1) by order
  then show ?thesis using a(2) by (simp add: run_ok_def write_ok_def demo_version_def fits_def)
qed

lemma demo_lsmt_ok:
  "lsm_inv table_size (table_run no_port) demo_tables_fs demo_lsmt"
  "all_writes (table_run no_port) demo_tables_fs demo_lsmt = {demo_version 3 [7], demo_version 5 [9]}"
  "compaction_due demo_lsmt"
proof -
  have r: "run_ok [demo_version 3 [7]]" "fits (set [demo_version 3 [7]])" "run_ok [demo_version 5 [9]]" "fits (set [demo_version 5 [9]])"
    using demo_version_ok [of 3 "[7]"] demo_version_ok [of 5 "[9]"] by simp_all
  have two: "table_run no_port demo_tables_fs 2 = [demo_version 5 [9]]" unfolding demo_tables_fs_def using level_store.written [OF r(3,4)] by blast
  have one: "table_run no_port demo_tables_fs 1 = [demo_version 3 [7]]"
    unfolding demo_tables_fs_def using level_store.others [of 1 2] level_store.written [OF r(1,2)] by simp
  have F: "files demo_lsmt l = (if l = 0 then [demo_meta 1 (demo_version 3 [7]), demo_meta 2 (demo_version 5 [9])] else [])" for l
    by (simp add: demo_lsmt_def)
  have lw: "level_writes (table_run no_port) demo_tables_fs (files demo_lsmt l) = (if l = 0 then {demo_version 3 [7], demo_version 5 [9]} else {})" for l
    by (cases "l = 0") (auto simp: F level_writes_def one two)
  show aw: "all_writes (table_run no_port) demo_tables_fs demo_lsmt = {demo_version 3 [7], demo_version 5 [9]}"
    unfolding all_writes_def lw by (auto split: if_splits)
  have fid: "file_id demo_lsmt = 2" "level_limit demo_lsmt = -1" by (simp_all add: demo_lsmt_def new_LevelDBLSMT_def)
  have rep: "file_rep table_size (table_run no_port) demo_tables_fs f \<and> fnumber f \<le> 2" if "f \<in> set (files demo_lsmt l)" for f l
    using that one two r(1,3) unfolding F by (auto simp: file_rep_def spans_def split: if_splits)
  have uv: "unique_versions {demo_version 3 [7], demo_version 5 [9]}" by (simp add: demo_version_def)
  have ne: "demo_version 3 [7] \<noteq> demo_version 5 [9]" by (simp add: demo_version_def)
  have sep: "fnumber f \<noteq> fnumber g \<and> set (table_run no_port demo_tables_fs (fnumber f)) \<inter> set (table_run no_port demo_tables_fs (fnumber g)) = {}"
    if "f \<in> set (files demo_lsmt l)" "g \<in> set (files demo_lsmt l')" "(l, f) \<noteq> (l', g)" for f g l l'
    using that one two ne unfolding F by (auto split: if_splits)
  have "files demo_lsmt l = []" if "l \<noteq> 0" for l using that F by simp
  moreover have "distinct (files demo_lsmt l)" for l unfolding F by simp
  ultimately show "lsm_inv table_size (table_run no_port) demo_tables_fs demo_lsmt"
    unfolding lsm_inv_def aw lw fid using rep sep uv by (auto simp: kNumLevels_def)
  show "compaction_due demo_lsmt" by (simp add: compaction_due_def demo_lsmt_def new_LevelDBLSMT_def kNumLevels_def)
qed

theorem lsm_compaction_keeps_reads_witness:
  "\<exists>st fs' s'. DoCompact (level_tables no_port False icmp_options icmp_options) zero_page (demo_tables_fs, demo_lsmt) = Some (st, fs', s') \<and>
    lsm_inv table_size (table_run no_port) fs' s' \<and> newest (all_writes (table_run no_port) fs' s') [107] 5 (get_result.Found [9])"
proof -
  let ?W = "{demo_version 3 [7], demo_version 5 [9]}"
  have W: "fits ?W" "\<forall>w \<in> ?W. seq w \<le> 5" by (simp_all add: fits_def demo_version_def)
  have c: "card ?W \<le> 2" by (rule card_insert_le_m1) simp_all
  have g: "sorted (page_guards (Some zero_page))" by (simp add: page_guards_def zero_page_def)
  have f: "unat (file_id demo_lsmt) + 2 * card ?W < 2 ^ 64" using c by (simp add: demo_lsmt_def new_LevelDBLSMT_def)
  have n: "newest ?W [107] 5 (get_result.Found [9])"
    unfolding newest_def by (intro disjI2 bexI [of _ "demo_version 5 [9]"]) (auto simp: visible_def write_result_def demo_version_def)
  from lsm_compaction_keeps_reads [OF no_port_ok icmp_options_ok demo_lsmt_ok(1) _ demo_lsmt_ok(3) g, of False] W f n
  show ?thesis unfolding demo_lsmt_ok(2) by blast
qed

end
