(* ===== verification/AhaTree.thy ===== *)
theory AhaTree
  imports TableStore WriteBatch
begin

text \<open>
  The top of the index, \<^verbatim>\<open>AhaTree\<close> (\<^verbatim>\<open>aha_tree/aha_tree.cc\<close>) on top of \<^verbatim>\<open>BplusTree\<close> (\<^verbatim>\<open>wot_index.cc\<close>): writers queue up, the one at the
  front writes a group of batches into the memtable, a full memtable becomes the immutable one and a new one takes its
  place, the background thread writes the immutable memtable to a table of the LSM tree and runs the compactions of the LSM
  tree, and scans merge the memtables and the LSM tree (the sources \<^verbatim>\<open>BplusTreeState::NewIterator\<close> of \<^verbatim>\<open>wot_adapt_strategy/wot_state.cc\<close>
  collects while the root page is an empty leaf, that is before the LSM tree was flushed into the B+-tree).

  Every operation is one step. The code holds the mutex of the index throughout, except that it releases it while it inserts a group into the
  memtable, builds a table from the immutable memtable and runs a compaction; what other threads do in these sections is not interleaved here.
  Waiting for another thread is a round of \<open>make_room\<close> that does not switch. The read locks of a scan, the reference counts its
  iterators hold and the adaptation work that \<^verbatim>\<open>BplusTreeReadOptState\<close> schedules are left out. \<open>flush_id_\<close> and the \<open>file_id_\<close> of the LSM tree
  are one shared counter, the field \<^const>\<open>file_id\<close> of the tree. The table cache is left out of the state: a table number is
  written once, so opening the file again gives what the cache holds.
\<close>

section \<open>State\<close>

record Writer =
  writer_id :: nat
  writer_batch :: "write_batch option"
  writer_sync :: bool

record AhaTree =
  tree_mem :: memtable
  tree_imm :: "memtable option"
  has_imm :: bool
  mem_empty :: bool
  mem_cold_only :: bool
  imm_cold_only :: bool
  seq_no :: "64 word"
  leveldb_lsmt :: lsmt
  tree_fs :: table_fs
  pending_outputs :: "64 word set"
  shutting_down :: bool
  compaction_scheduled :: bool
  scheduled_compaction_num :: int
  flush_scheduled :: bool
  pushdown_mem :: bool
  pushdown_imm :: bool
  scheduled_flush_num :: int
  memtable_size :: nat
  writers :: "Writer list"
  tmp_batch :: write_batch
  low_hot_key :: slice
  up_hot_key :: slice

definition new_AhaTree :: "64 word \<Rightarrow> nat \<Rightarrow> 64 word \<Rightarrow> int \<Rightarrow> nat \<Rightarrow> AhaTree" where
  "new_AhaTree flush_id mem_size file_max limit leaf =
     \<lparr>tree_mem = MemTable_Ref new_MemTable, tree_imm = None, has_imm = False, mem_empty = True, mem_cold_only = True, imm_cold_only = True, seq_no = 1,
      leveldb_lsmt = new_LevelDBLSMT flush_id file_max limit kStandalone leaf, tree_fs = Map.empty, pending_outputs = {},
      shutting_down = False, compaction_scheduled = False, scheduled_compaction_num = 0, flush_scheduled = False,
      pushdown_mem = False, pushdown_imm = False, scheduled_flush_num = 0, memtable_size = mem_size, writers = [],
      tmp_batch = Clear \<lparr>wb_rep = [], has_hot = True\<rparr>, low_hot_key = [], up_hot_key = []\<rparr>"

section \<open>Writing\<close>

text \<open>
  \<^verbatim>\<open>BuildBatchGroup\<close>: the batches of the writers that follow the first are appended to a temporary batch as long as the group is
  not too big. The result is the temporary batch, if it is used, and how many writers after the first belong to the group.
\<close>

definition ByteSize :: "write_batch \<Rightarrow> nat" where
  "ByteSize b = length (wb_rep b)"

fun group_rest ::
  "nat \<Rightarrow> bool \<Rightarrow> write_batch \<Rightarrow> write_batch \<Rightarrow> Writer list \<Rightarrow> nat \<Rightarrow> write_batch option \<Rightarrow> nat \<Rightarrow> (write_batch option \<times> nat) result" where
  "group_rest max_size first_sync first tmp [] sz res n = Inr (res, n)"
| "group_rest max_size first_sync first tmp (w # ws) sz res n =
     (if writer_sync w \<and> \<not> first_sync then Inr (res, n)
      else case writer_batch w of
        None \<Rightarrow> group_rest max_size first_sync first tmp ws sz res (Suc n)
      | Some b \<Rightarrow>
          if sz + ByteSize b > max_size then Inr (res, n)
          else case (case res of Some r \<Rightarrow> Inr r | None \<Rightarrow> if Count tmp \<noteq> 0 then Inl AssertFailed else Batch_Append tmp first) of
            Inl e \<Rightarrow> Inl e
          | Inr r \<Rightarrow>
             (case Batch_Append r b of
                Inl e \<Rightarrow> Inl e
              | Inr r' \<Rightarrow> group_rest max_size first_sync first tmp ws (sz + ByteSize b) (Some r') (Suc n)))"

definition BuildBatchGroup :: "Writer list \<Rightarrow> write_batch \<Rightarrow> (write_batch option \<times> nat) result" where
  "BuildBatchGroup ws tmp =
     (case ws of [] \<Rightarrow> Inl AssertFailed
      | first # rest \<Rightarrow>
         (case writer_batch first of None \<Rightarrow> Inl AssertFailed
          | Some b \<Rightarrow>
              let sz = ByteSize b; max_size = (if sz \<le> 128 * 1024 then sz + 128 * 1024 else 1024 * 1024)
              in group_rest max_size (writer_sync first) b tmp rest sz None 0))"

text \<open>
  \<^verbatim>\<open>Insert\<close> by the writer at the front of the queue once there is room: the writers whose batches were written with their
  status, and the state. \<^const>\<open>None\<close> is a failed assertion.
\<close>

definition Insert_group :: "AhaTree \<Rightarrow> ((nat \<times> Status) list \<times> AhaTree) option" where
  "Insert_group t =
     (case writers t of [] \<Rightarrow> None
      | w # rest \<Rightarrow>
         (case writer_batch w of
            None \<Rightarrow> Some ([(writer_id w, StatusOK)], t\<lparr>writers := rest\<rparr>)
          | Some updates \<Rightarrow>
             (case BuildBatchGroup (writers t) (tmp_batch t) of
                Inl _ \<Rightarrow> None
              | Inr (res, n) \<Rightarrow>
                  let batch = SetSequence (case res of None \<Rightarrow> updates | Some r \<Rightarrow> r) (seq_no t + 1);
                      t1 = t\<lparr>seq_no := seq_no t + ucast (Count batch), mem_empty := False,
                             mem_cold_only := (if mem_cold_only t \<and> has_hot updates then False else mem_cold_only t)\<rparr> in
                  map_option (\<lambda>(st, m).
                      (map (\<lambda>w. (writer_id w, st)) (take (Suc n) (writers t)),
                       t1\<lparr>tree_mem := m, tmp_batch := (case res of None \<Rightarrow> tmp_batch t | Some r \<Rightarrow> Clear r), writers := drop (Suc n) (writers t)\<rparr>))
                    (InsertInto Bytewise_Compare batch (tree_mem t1)))))"

section \<open>Making room\<close>

definition MaybeScheduleCompaction :: "AhaTree \<Rightarrow> AhaTree" where
  "MaybeScheduleCompaction t =
     (if compaction_scheduled t then t
      else if shutting_down t then t
      else if tree_imm t = None \<and> \<not> NeedsCompaction (leveldb_lsmt t) then t
      else t\<lparr>compaction_scheduled := True, scheduled_compaction_num := scheduled_compaction_num t + 1\<rparr>)"

definition switch_memtable :: "AhaTree \<Rightarrow> AhaTree" where
  "switch_memtable t = t\<lparr>tree_imm := Some (tree_mem t), has_imm := True, tree_mem := MemTable_Ref new_MemTable, mem_empty := True,
     imm_cold_only := mem_cold_only t, mem_cold_only := True\<rparr>"

text \<open>
  One round of \<^verbatim>\<open>MakeRoomForWrite\<close>. The memory a memtable takes is that of its arena, the argument \<open>usage\<close>.
\<close>

datatype room = RoomDelay | RoomReady | RoomWait | RoomSwitch

definition kL0_SlowdownWritesTrigger :: nat where "kL0_SlowdownWritesTrigger = 8"

definition kL0_StopWritesTrigger :: nat where "kL0_StopWritesTrigger = 12"

definition make_room :: "(memtable \<Rightarrow> nat) \<Rightarrow> bool \<Rightarrow> bool \<Rightarrow> AhaTree \<Rightarrow> room" where
  "make_room usage force allow_delay t =
     (if allow_delay \<and> length (files (leveldb_lsmt t) 0) \<ge> kL0_SlowdownWritesTrigger then RoomDelay
      else if \<not> force \<and> usage (tree_mem t) \<le> memtable_size t then RoomReady
      else if tree_imm t \<noteq> None then RoomWait
      else if compaction_scheduled t \<and> length (files (leveldb_lsmt t) 0) \<ge> kL0_StopWritesTrigger then RoomWait
      else RoomSwitch)"

definition MakeRoom_switch :: "AhaTree \<Rightarrow> AhaTree" where
  "MakeRoom_switch t = MaybeScheduleCompaction (switch_memtable t)"

section \<open>Writing the immutable memtable\<close>

definition flush_meta :: "64 word \<Rightarrow> 64 word \<Rightarrow> FileMetaData" where
  "flush_meta number entries = \<lparr>allowed_seeks = 2 ^ 30, fnumber = number, file_entry = entries, file_size = 0, smallest = [], largest = []\<rparr>"

definition CompactMemTable :: "Port \<Rightarrow> Options \<Rightarrow> AhaTree \<Rightarrow> AhaTree option" where
  "CompactMemTable P ropt t =
     (case tree_imm t of None \<Rightarrow> None
      | Some imm \<Rightarrow>
          let number = file_id (leveldb_lsmt t) + 1;
              s0 = (leveldb_lsmt t)\<lparr>file_id := number\<rparr> in
          Option.bind (BuildTable mem_env P icmp_options 0 (memtable_iterator Bytewise_Compare) (MemTable_NewIterator imm) StatusOK
              Map.empty (flush_meta number (entry_num imm)) (tree_fs t)) (\<lambda>(st, meta, _, fs).
            let st' = (if st = StatusOK \<and> shutting_down t then IOError ''Deleting DB during memtable compaction'' else st);
                has_hotspot' = (\<not> imm_cold_only t);
                t1 = t\<lparr>leveldb_lsmt := s0, tree_fs := fs, pending_outputs := pending_outputs t - {number}\<rparr>;
                t2 = (if st' = StatusOK then t1\<lparr>tree_imm := None, has_imm := False, imm_cold_only := True\<rparr> else t1) in
            if st' = StatusOK \<and> file_size meta > 0 then
              Option.bind (PickLevelForMemTableOutput s0 (smallest_user meta) (largest_user meta)) (\<lambda>level.
              map_option (\<lambda>(_, fs', s1).
                  t2\<lparr>leveldb_lsmt := (if has_hotspot' \<and> \<not> has_hotspot s1 then SetHotspot True s1 else s1), tree_fs := fs'\<rparr>)
                (AddFile (level_tables P False icmp_options ropt) level meta None (fs, s0)))
            else Some t2))"

section \<open>Background work\<close>

text \<open>
  Compacting the LSM tree, on the page of the root. The program aborts when all files are at level 0 afterwards. The tree is
  flushed to the nodes of the B+-tree by another thread when it overflows; here that work is only scheduled.
\<close>

definition BackgroundCompaction :: "Port \<Rightarrow> Options \<Rightarrow> page \<Rightarrow> AhaTree \<Rightarrow> AhaTree option" where
  "BackgroundCompaction P ropt rt t =
     (if tree_imm t \<noteq> None then CompactMemTable P ropt t
      else if \<not> NeedsCompaction (leveldb_lsmt t) then None
      else Option.bind (DoCompact (level_tables P False icmp_options ropt) rt (tree_fs t, leveldb_lsmt t)) (\<lambda>(st, fs, s).
        let dead = obsolete_files s; s1 = s\<lparr>obsolete_files := {}\<rparr> in
        if GetBottomLevel s1 = 0 then None
        else Some (t\<lparr>leveldb_lsmt := s1, tree_fs := (\<lambda>n. if n \<in> dead then None else fs n),
                     flush_scheduled := (flush_scheduled t \<or> st = kOverflow)\<rparr>)))"

definition BackgroundCall :: "Port \<Rightarrow> Options \<Rightarrow> page \<Rightarrow> AhaTree \<Rightarrow> AhaTree option" where
  "BackgroundCall P ropt rt t =
     (if \<not> compaction_scheduled t then None
      else map_option (\<lambda>t1. let t2 = MaybeScheduleCompaction (t1\<lparr>compaction_scheduled := False\<rparr>) in
             t2\<lparr>scheduled_compaction_num := scheduled_compaction_num t2 - 1\<rparr>)
        (if shutting_down t then Some t else BackgroundCompaction P ropt rt t))"

text \<open>The work a scan in the hot range schedules: flushing the memtable, flushing the immutable memtable.\<close>

definition AdaptMem :: "Port \<Rightarrow> Options \<Rightarrow> AhaTree \<Rightarrow> AhaTree option" where
  "AdaptMem P ropt t =
     (if shutting_down t then Some (t\<lparr>scheduled_flush_num := scheduled_flush_num t - 1\<rparr>)
      else if has_imm t then Some (t\<lparr>pushdown_mem := False, scheduled_flush_num := scheduled_flush_num t - 1\<rparr>)
      else map_option (\<lambda>t1. t1\<lparr>pushdown_mem := False, scheduled_flush_num := scheduled_flush_num t1 - 1\<rparr>)
        (let t0 = switch_memtable t in if \<not> compaction_scheduled t then CompactMemTable P ropt t0 else Some t0))"

definition AdaptImm :: "Port \<Rightarrow> Options \<Rightarrow> AhaTree \<Rightarrow> AhaTree option" where
  "AdaptImm P ropt t =
     (if shutting_down t then Some (t\<lparr>scheduled_flush_num := scheduled_flush_num t - 1\<rparr>)
      else if tree_imm t = None then Some (t\<lparr>pushdown_imm := False, scheduled_flush_num := scheduled_flush_num t - 1\<rparr>)
      else map_option (\<lambda>t1. t1\<lparr>pushdown_imm := False, scheduled_flush_num := scheduled_flush_num t1 - 1\<rparr>)
        (if \<not> compaction_scheduled t then CompactMemTable P ropt t else Some t))"

section \<open>Reading\<close>

definition RangeWithinHotspot :: "AhaTree \<Rightarrow> slice \<Rightarrow> slice \<Rightarrow> bool" where
  "RangeWithinHotspot t low up =
     (if low_hot_key t = [] \<and> up_hot_key t = [] then True
      else if up = [] then low \<ge> low_hot_key t \<and> low \<le> up_hot_key t
      else low \<ge> low_hot_key t \<and> up \<le> up_hot_key t)"

type_synonym tree_child = "(memtable \<times> nat option) + tab_iter lsm_child AnyIterator"

definition tree_child_iterator :: "Port \<Rightarrow> Options \<Rightarrow> table_fs \<Rightarrow> tree_child Iterator" where
  "tree_child_iterator P ropt fs =
     (let T = level_tables P False icmp_options ropt
      in either_iterator (memtable_iterator Bytewise_Compare) (any_iterator icmp (lsm_child_iterator (tab_ops T) (open_table T fs))))"

definition DoAddMemToIter :: "AhaTree \<Rightarrow> bool \<Rightarrow> tree_child list" where
  "DoAddMemToIter t in_hotspot =
     (if mem_empty t then [] else if in_hotspot \<and> mem_cold_only t then [] else [Inl (MemTable_NewIterator (tree_mem t))])"

definition DoAddImmToIter :: "AhaTree \<Rightarrow> bool \<Rightarrow> tree_child list option" where
  "DoAddImmToIter t in_hotspot =
     (if \<not> has_imm t then Some [] else if in_hotspot \<and> imm_cold_only t then Some []
      else map_option (\<lambda>m. [Inl (MemTable_NewIterator m)]) (tree_imm t))"

definition DoAddLSMTtoIter :: "Port \<Rightarrow> Options \<Rightarrow> AhaTree \<Rightarrow> bool \<Rightarrow> tree_child list option" where
  "DoAddLSMTtoIter P ropt t is_hot =
     (if is_hot \<and> \<not> has_hotspot (leveldb_lsmt t) \<or> GetBottomLevel (leveldb_lsmt t) < 0 then Some []
      else let T = level_tables P False icmp_options ropt
           in map_option (\<lambda>a. [Inr a]) (NewMergedIterator (tab_ops T) (open_table T (tree_fs t)) (leveldb_lsmt t)))"

definition State_NewIterator :: "Port \<Rightarrow> Options \<Rightarrow> AhaTree \<Rightarrow> slice \<Rightarrow> slice \<Rightarrow> tree_child list option" where
  "State_NewIterator P ropt t low up =
     (let hot = RangeWithinHotspot t low up in
      Option.bind (DoAddImmToIter t hot) (\<lambda>imm. map_option (\<lambda>l. DoAddMemToIter t hot @ imm @ l) (DoAddLSMTtoIter P ropt t hot)))"

definition Tree_Scan :: "Port \<Rightarrow> Options \<Rightarrow> AhaTree \<Rightarrow> slice \<Rightarrow> slice \<Rightarrow> int \<Rightarrow> (slice \<times> slice) list option" where
  "Tree_Scan P ropt t key key2 select =
     Option.bind (State_NewIterator P ropt t key key2) (\<lambda>iters.
       WotDB_Scan Bytewise_Compare (tree_child_iterator P ropt (tree_fs t)) iters (length iters) (seq_no t) key key2 select)"

end
