(* ===== verification/BuildTableCorrect.thy ===== *)
theory BuildTableCorrect
  imports TableStore
begin

text \<open>
  Writing a table from an iterator (\<^verbatim>\<open>BuildTable\<close>): the file holds the entries the iterator shows, the metadata describes it,
  and the check that the table can be opened succeeds.
\<close>

lemma build_loop_ok:
  assumes J: "sorted_iter valid cmp J ok items pos"
  shows "ok it \<Longrightarrow> pos it \<le> length (items it) \<Longrightarrow> add_entries W P (drop (pos it) (items it)) r = Some r' \<Longrightarrow>
    build_loop W P J it key r = Some (if pos it < length (items it) then fst (last (items it)) else key, r')"
proof (induction "length (items it) - pos it" arbitrary: it key r)
  case 0
  then have "\<not> it_Valid J it" using sorted_iter.valid_iff [OF J] by simp
  then show ?case using 0 by (subst build_loop.simps) simp
next
  case (Suc n)
  let ?es = "items it" and ?n = "pos it"
  have lt: "?n < length ?es" using Suc.hyps(2) by simp
  obtain k v where e: "?es ! ?n = (k, v)" by fastforce
  have rd: "it_key J it = Some k" "it_value J it = Some v" "it_Valid J it"
    using sorted_iter.reads [OF J Suc.prems(1) lt] sorted_iter.valid_iff [OF J Suc.prems(1)] lt e by simp_all
  obtain it' where it': "it_Next J it = Some it'" "ok it'" "items it' = ?es" "pos it' = Suc ?n"
    using sorted_iter.step [OF J Suc.prems(1) lt] by blast
  have "drop ?n ?es = (k, v) # drop (Suc ?n) ?es" using Cons_nth_drop_Suc [OF lt] e by simp
  then obtain r1 where r1: "TableBuilder_Add W P k v r = Some r1" "add_entries W P (drop (Suc ?n) ?es) r1 = Some r'"
    using Suc.prems(3) by (auto simp: bind_eq_Some_conv)
  have IH: "build_loop W P J it' k r1 = Some (if pos it' < length (items it') then fst (last (items it')) else k, r')"
    by (rule Suc.hyps(1)) (use Suc.hyps(2) it' lt r1(2) in simp_all)
  have "fst (last ?es) = k" if "\<not> Suc ?n < length ?es"
  proof -
    have "last ?es = ?es ! ?n" using that lt by (subst last_conv_nth) (auto intro: arg_cong [of _ _ "(!) ?es"])
    then show ?thesis using e by simp
  qed
  then show ?case using IH it'(1,3,4) lt rd r1(1) by (subst build_loop.simps) auto
qed

lemma Table_NewIterator_status:
  assumes it: "Table_NewIterator t = Some i" and ok: "tab_ok P v (Inr (t, i))"
  shows "tab_status (Inr (t, i)) = StatusOK"
proof -
  obtain ix w where ix: "Block_NewIterator (t_index_block t) = Some ix" "wr_iter (tl_index i) = ix"
    using it by (auto simp: Table_NewIterator_def NewTwoLevelIterator_def wr_Set_def wr_Update_def bind_eq_Some_conv Let_def split: if_splits option.splits)
  have "blk_ok ikey_ok icmp (wr_iter (tl_index i))" using ok by (auto simp: tab_ok_def tables.tok_def tables.aligned_def tables.loaded_def block_iters.wok_def)
  then obtain b where "ix = BlockIter b" using ix(2) blk_ok_iter by metis
  then show ?thesis using ix by (auto simp: tab_status_def BlockIterator_status_def Block_NewIterator_def Let_def new_Block_Iter_def split: if_splits)
qed

text \<open>An iterator without entries: no file.\<close>

lemma BuildTable_empty:
  assumes J: "sorted_iter valid cmp J ok items pos" "ok it0" "items it0 = []"
  shows "BuildTable mem_env P opt cid J it0 StatusOK cache meta fs = Some (StatusOK, meta\<lparr>file_size := 0\<rparr>, cache, fs(fnumber meta := None))"
proof -
  obtain it where "it_SeekToFirst J it0 = Some it" "ok it" "items it = []" using sorted_iter.seek_first [OF J(1,2)] J(3) by auto
  then show ?thesis using sorted_iter.valid_iff [OF J(1)] by (simp add: BuildTable_def Let_def mem_env_def)
qed

lemma BuildTable_ok:
  assumes J: "sorted_iter ikey_ok icmp J ok items pos" "ok it0" "items it0 \<noteq> []" "weight (items it0) < 2 ^ 30"
    and P: "port_ok P" and opt: "table_options opt"
  shows "\<exists>F cache'. BuildTable mem_env P opt cid J it0 StatusOK Map.empty meta fs =
      Some (StatusOK, meta\<lparr>file_size := of_nat (length F), smallest := fst (hd (items it0)), largest := fst (last (items it0))\<rparr>, cache', fs(fnumber meta \<mapsto> F)) \<and>
    (of_nat (length F) :: 64 word) > 0 \<and> table_file P F (items it0)"
proof -
  let ?es = "items it0"
  have K: "1 \<le> block_restart_interval opt" and cmp: "icmp_comparator (comparator opt)" and nf: "filter_policy opt = None"
    using opt by (simp_all add: table_options_def)
  have asc: "ikeys.ascending ?es" by (rule sorted_iter.ascends [OF J(1,2)])
  obtain it where it: "it_SeekToFirst J it0 = Some it" "ok it" "items it = ?es" "pos it = 0" using sorted_iter.seek_first [OF J(1,2)] by blast
  have val: "it_Valid J it" "it_key J it = Some (fst (hd ?es))"
    using sorted_iter.valid_iff [OF J(1) it(2)] sorted_iter.reads [OF J(1) it(2)] it(3,4) J(3) by (simp_all add: hd_conv_nth)
  obtain r0 where r0: "new_TableBuilder opt ([] :: slice) = Some r0" "tb_inv P id opt r0 [] [] []" "\<not> tb_closed r0"
    using new_TableBuilder_ok [OF K, of id "[]" P] by auto
  obtain r1 bs pend cur where r1: "add_entries mem_file P ?es r0 = Some r1" "tb_inv P id opt r1 bs pend cur" "\<not> tb_closed r1"
    "all_entries bs @ pend @ cur = ?es"
    using add_entries_ok [OF mem_file_appends K cmp r0(2,3), of ?es] asc J(4) by auto
  obtain r2 where r2: "TableBuilder_Finish mem_file P r1 = Some (StatusOK, r2)" "tb_offset r2 = of_nat (length (tb_file r2))" "table_file P (tb_file r2) ?es"
    using TableBuilder_Finish_ok [OF mem_file_appends r1(2,3) K cmp] r1(4) asc J(4) nf by auto
  have loop: "build_loop mem_file P J it [] r0 = Some (fst (last ?es), r1)"
    using build_loop_ok [OF J(1) it(2), of mem_file P r0 r1 "[]"] it(3,4) r1(1) J(3) by simp
  have last: "fst (last ?es) \<noteq> []"
  proof -
    have "ikey_ok (fst (last ?es))" using asc J(3) by simp
    then show ?thesis by (auto simp: ikey_ok_def)
  qed
  let ?F = "tb_file r2"
  have len: "kEncodedLength \<le> length ?F" "length ?F < 2 ^ 63" using r2(3) by (auto simp: table_file_def)
  then have "unat (of_nat (length ?F) :: 64 word) = length ?F" by (intro unat_of_nat_64) simp
  then have pos: "(of_nat (length ?F) :: 64 word) > 0" unfolding word_less_nat_alt using len(1) by auto
  let ?n = "fnumber meta"
  obtain tb i where t: "TableCache_NewIterator mem_env P opt cid (fs(?n \<mapsto> ?F)) ?n (of_nat (length ?F)) Map.empty = Some (Inr (tb, i), [?n \<mapsto> tb])"
    "Table_NewIterator tb = Some i" "tab_ok P False (Inr (tb, i))"
  proof -
    obtain tb where tb: "Table_Open P opt cid (mem_reader ?F) (of_nat (length ?F)) = Some (Inr tb)" "t_options tb = opt" "table_opened P tb ?es"
      using Table_Open_ok [OF P mem_reader_reads r2(3)] by blast
    have ic: "icmp_table tb" using cmp tb(2) by (simp add: icmp_comparator_def)
    obtain i where i: "Table_NewIterator tb = Some i" "tables.tok P False tb i" using Table_NewIterator_ok [OF P tb(3) ic asc, of False] by blast
    show thesis by (rule that [of tb i]) (use tb(1) i ic in \<open>simp_all add: TableCache_NewIterator_def FindTable_def mem_env_def tab_ok_def\<close>)
  qed
  have st: "tab_status (Inr (tb, i)) = StatusOK" by (rule Table_NewIterator_status [OF t(2,3)])
  have "BuildTable mem_env P opt cid J it0 StatusOK Map.empty meta fs =
      Some (StatusOK, meta\<lparr>file_size := of_nat (length ?F), smallest := fst (hd ?es), largest := fst (last ?es)\<rparr>, [?n \<mapsto> tb], fs(?n \<mapsto> ?F))"
    using it(1) val r0(1) loop last r2(1,2) pos t(1) st
    by (simp add: BuildTable_def Let_def mem_env_def FileSize_def)
  then show ?thesis using pos r2(3) by blast
qed

end
