(* ===== verification/AhaTreeCorrect.thy ===== *)
theory AhaTreeCorrect
  imports AhaTree BuildTableCorrect
begin

text \<open>
  The top of the index refines a log: the specification keeps the operations of all batches that were written, in order,
  and a scan shows, of every key, the last operation of the log if it is a put. Writing groups of batches, switching
  memtables, writing memtables to tables and compacting the LSM tree all keep that relation.
\<close>

section \<open>What readers see\<close>

lemma newest_newer:
  assumes "\<forall>v \<in> N. \<forall>w \<in> A. seq w < seq v"
  shows "newest (N \<union> A) k s r \<longleftrightarrow> (if visible N k s = {} then newest A k s r else newest N k s r)"
proof -
  have U: "visible (N \<union> A) k s = visible N k s \<union> visible A k s" by (auto simp: visible_def)
  show ?thesis
  proof (cases "visible N k s = {}")
    case True
    then show ?thesis using U by (simp add: newest_def)
  next
    case False
    then obtain x where x: "x \<in> visible N k s" by blast
    have lt: "seq w < seq v" if "v \<in> visible N k s" "w \<in> visible A k s" for v w using assms that by (auto simp: visible_def)
    have "(\<exists>w \<in> visible N k s \<union> visible A k s. (\<forall>v \<in> visible N k s \<union> visible A k s. seq v \<le> seq w) \<and> r = write_result w) \<longleftrightarrow>
        (\<exists>w \<in> visible N k s. (\<forall>v \<in> visible N k s. seq v \<le> seq w) \<and> r = write_result w)"
      (is "?L \<longleftrightarrow> ?R")
    proof
      assume ?L
      then obtain w where w: "w \<in> visible N k s \<union> visible A k s" "\<forall>v \<in> visible N k s \<union> visible A k s. seq v \<le> seq w" "r = write_result w" by blast
      then have "w \<in> visible N k s" using lt [OF x, of w] x by (auto simp: not_le [symmetric])
      then show ?R using w by blast
    next
      assume ?R
      then show ?L using lt less_imp_le by blast
    qed
    then show ?thesis using False U by (simp add: newest_def)
  qed
qed

lemma same_reads_newer:
  assumes "same_reads A B" "\<forall>v \<in> N. \<forall>w \<in> A \<union> B. seq w < seq v"
  shows "same_reads (N \<union> A) (N \<union> B)"
  unfolding same_reads_def
proof (intro allI impI)
  fix k x sq assume "\<forall>w \<in> (N \<union> A) \<union> (N \<union> B). seq w \<le> sq"
  then have "newest A k sq (get_result.Found x) = newest B k sq (get_result.Found x)" using assms(1) unfolding same_reads_def by blast
  then show "newest (N \<union> A) k sq (get_result.Found x) = newest (N \<union> B) k sq (get_result.Found x)"
    using newest_newer [of N A] newest_newer [of N B] assms(2) by simp
qed

section \<open>The writes of a log\<close>

lemma batch_writes_append: "batch_writes s (xs @ ys) = batch_writes s xs \<union> batch_writes (s + of_nat (length xs)) ys"
  by (induction xs arbitrary: s) (simp_all add: ac_simps)

lemma batch_writes_seq:
  assumes "ops_fit s ops" "w \<in> batch_writes s ops"
  shows "unat s \<le> unat (seq w) \<and> unat (seq w) < unat s + length ops \<and> write_ok w"
  using assms
proof (induction ops arbitrary: s)
  case (Cons x xs)
  note F = ops_fit_Cons [OF Cons.prems(1)]
  show ?case using Cons.prems(2) Cons.IH [OF F(2)] F(1,3) by auto
qed simp

lemma batch_writes_unique: "ops_fit s ops \<Longrightarrow> inj_on seq (batch_writes s ops)"
proof (induction ops arbitrary: s)
  case (Cons x xs)
  note F = ops_fit_Cons [OF Cons.prems]
  have "seq w \<noteq> s" if "w \<in> batch_writes (s + 1) xs" for w
  proof
    assume "seq w = s"
    then show False using batch_writes_seq [OF F(2) that] F(3) by simp
  qed
  then show ?case using Cons.IH [OF F(2)] by (auto simp: inj_on_insert)
qed simp

text \<open>A log whose operations take less than a gigabyte in tables.\<close>

fun op_weight :: "batch_op \<Rightarrow> nat" where
  "op_weight (OpPut k v) = length k + length v + 108"
| "op_weight (OpDelete k) = length k + 108"

definition log_fits :: "batch_op list \<Rightarrow> bool" where
  "log_fits ops \<longleftrightarrow> sum_list (map op_weight ops) < 2 ^ 30"

lemma op_weight_write: "length (write_ikey (op_write s x)) + length (snd (op_write s x)) + 100 = op_weight x"
  by (cases x) simp_all

lemma finite_batch_writes: "finite (batch_writes s ops)"
  by (induction ops arbitrary: s) auto

lemma fits_log: "log_fits ops \<Longrightarrow> fits (batch_writes s ops)"
proof -
  have "(\<Sum>w \<in> batch_writes s ops. length (write_ikey w) + length (snd w) + 100) \<le> sum_list (map op_weight ops)"
  proof (induction ops arbitrary: s)
    case (Cons x xs)
    let ?f = "\<lambda>w. length (write_ikey w) + length (snd w) + 100"
    have "sum ?f (insert (op_write s x) (batch_writes (s + 1) xs)) \<le> ?f (op_write s x) + sum ?f (batch_writes (s + 1) xs)"
      using finite_batch_writes [of "s + 1" xs] by (cases "op_write s x \<in> batch_writes (s + 1) xs") (simp_all add: insert_absorb)
    then show ?case using Cons.IH [of "s + 1"] op_weight_write [of s x] by simp
  qed simp
  then show "log_fits ops \<Longrightarrow> fits (batch_writes s ops)" using finite_batch_writes by (simp add: fits_def log_fits_def)
qed

lemma log_fits_length: "log_fits ops \<Longrightarrow> length ops < 2 ^ 24"
proof -
  have "108 * length ops \<le> sum_list (map op_weight ops)"
  proof (induction ops)
    case (Cons x xs)
    then show ?case by (cases x) simp_all
  qed simp
  then show "log_fits ops \<Longrightarrow> length ops < 2 ^ 24" by (simp add: log_fits_def)
qed

lemma log_fits_op: "log_fits ops \<Longrightarrow> x \<in> set ops \<Longrightarrow> op_ok x \<and> length (op_key x) + 8 < 2 ^ 32"
proof -
  assume "log_fits ops" "x \<in> set ops"
  then have "op_weight x < 2 ^ 30" using member_le_sum_list [of "op_weight x" "map op_weight ops"] by (simp add: log_fits_def)
  then show ?thesis by (cases x) simp_all
qed

lemma log_fits_ops: "log_fits ops \<Longrightarrow> unat s \<le> 2 ^ 24 + 2 \<Longrightarrow> ops_fit s ops"
  using log_fits_length [of ops] log_fits_op [of ops] by (auto simp: ops_fit_def)

lemma log_fits_append: "log_fits (xs @ ys) \<Longrightarrow> log_fits xs \<and> log_fits ys"
  by (simp add: log_fits_def)

lemma fits_card: "fits W \<Longrightarrow> card W < 2 ^ 24"
proof -
  assume "fits W"
  moreover have "(\<Sum>w \<in> W. 100) \<le> (\<Sum>w \<in> W. length (write_ikey w) + length (snd w) + 100)" by (rule sum_mono) simp
  ultimately show ?thesis by (simp add: fits_def)
qed

text \<open>The newest write of a key is the last operation of the log on it.\<close>

lemma newest_log:
  assumes "ops_fit s ops" "unat s + length ops \<le> unat S + 1"
  shows "newest (batch_writes s ops) k S (get_result.Found x) \<longleftrightarrow> last_op k ops = Some (get_result.Found x)"
proof (cases "last_op k ops")
  case None
  then have "visible (batch_writes s ops) k S = {}" using visible_untouched [of k ops "{}" s S] by (simp add: visible_def)
  then show ?thesis using None by (simp add: newest_def)
next
  case (Some r)
  have n: "newest (batch_writes s ops) k S r" using newest_batch [OF Some, of "{}" s S] assms by simp
  have "r' = r" if n': "newest (batch_writes s ops) k S r'" for r'
  proof (cases "visible (batch_writes s ops) k S = {}")
    case True
    then show ?thesis using n n' by (simp add: newest_def)
  next
    case False
    obtain v w where v: "v \<in> visible (batch_writes s ops) k S" "\<forall>u \<in> visible (batch_writes s ops) k S. seq u \<le> seq v" "r = write_result v"
      and w: "w \<in> visible (batch_writes s ops) k S" "\<forall>u \<in> visible (batch_writes s ops) k S. seq u \<le> seq w" "r' = write_result w"
      using n n' False unfolding newest_def by blast
    have "seq v = seq w" using v(1,2) w(1,2) by (intro order_antisym) blast+
    then have "v = w" using inj_onD [OF batch_writes_unique [OF assms(1)], of v w] v(1) w(1) by (simp add: visible_def)
    then show ?thesis using v(3) w(3) by simp
  qed
  from this [of "get_result.Found x"] show ?thesis using Some n by auto
qed

section \<open>Groups of batches\<close>

text \<open>A queued writer with the operations of its batch; a batch is marked hot unless its caller says otherwise.\<close>

definition writer_rep :: "Writer \<Rightarrow> batch_op list \<Rightarrow> bool" where
  "writer_rep w ops \<longleftrightarrow> (case writer_batch w of None \<Rightarrow> ops = [] | Some b \<Rightarrow> has_hot b \<and> (\<exists>s. batch_rep b s ops))"

text \<open>The batch of the group so far.\<close>

definition group_batch :: "batch_op list \<Rightarrow> write_batch option \<Rightarrow> batch_op list \<Rightarrow> bool" where
  "group_batch ops0 res ops \<longleftrightarrow> (case res of None \<Rightarrow> ops = ops0 | Some r \<Rightarrow> batch_rep r 0 ops)"

lemma group_rest_ok:
  assumes b: "batch_rep b s0 ops0" and tmp: "batch_rep tmp 0 []"
  shows "list_all2 writer_rep ws opss \<Longrightarrow> group_batch ops0 res ops \<Longrightarrow>
    \<exists>res' m. group_rest mx fsync b tmp ws sz res n = Inr (res', n + m) \<and> m \<le> length ws \<and> group_batch ops0 res' (ops @ concat (take m opss))"
proof (induction ws arbitrary: opss sz res n ops)
  case Nil
  then show ?case by simp
next
  case (Cons w ws)
  obtain xs rest where o: "opss = xs # rest" "writer_rep w xs" "list_all2 writer_rep ws rest" using Cons.prems(1) by (cases opss) auto
  have stop: ?case if "group_rest mx fsync b tmp (w # ws) sz res n = Inr (res, n)"
    using that Cons.prems(2) by (intro exI [of _ res] exI [of _ 0]) simp
  have go: ?case if g: "group_rest mx fsync b tmp (w # ws) sz res n = group_rest mx fsync b tmp ws sz' res1 (Suc n)"
    and r: "group_batch ops0 res1 (ops @ xs)" for sz' res1
  proof -
    obtain res' m where "group_rest mx fsync b tmp ws sz' res1 (Suc n) = Inr (res', Suc n + m)" "m \<le> length ws"
      "group_batch ops0 res' ((ops @ xs) @ concat (take m rest))" using Cons.IH [OF o(3) r] by blast
    then show ?thesis using g o(1) by (intro exI [of _ res'] exI [of _ "Suc m"]) simp
  qed
  show ?case
  proof (cases "writer_sync w \<and> \<not> fsync")
    case True
    then show ?thesis by (intro stop) simp
  next
    case sync: False
    show ?thesis
    proof (cases "writer_batch w")
      case None
      then have "xs = []" using o(2) by (simp add: writer_rep_def)
      then show ?thesis using None sync Cons.prems(2) by (intro go [of sz res]) auto
    next
      case (Some c)
      then obtain s where c: "batch_rep c s xs" using o(2) by (auto simp: writer_rep_def)
      show ?thesis
      proof (cases "sz + ByteSize c > mx")
        case True
        then show ?thesis using Some sync by (intro stop) auto
      next
        case False
        obtain r where r: "(case res of Some r \<Rightarrow> Inr r | None \<Rightarrow> if Count tmp \<noteq> 0 then Inl AssertFailed else Batch_Append tmp b) = Inr r"
          "batch_rep r 0 ops"
        proof (cases res)
          case None
          then have "ops = ops0" using Cons.prems(2) by (simp add: group_batch_def)
          then show ?thesis using that batch_rep_Append [OF tmp b] batch_rep_fields(1) [OF tmp] None by auto
        qed (use that Cons.prems(2) in \<open>auto simp: group_batch_def\<close>)
        obtain r' where r': "Batch_Append r c = Inr r'" "batch_rep r' 0 (ops @ xs)" using batch_rep_Append [OF r(2) c] by blast
        have "group_rest mx fsync b tmp (w # ws) sz res n = group_rest mx fsync b tmp ws (sz + ByteSize c) (Some r') (Suc n)"
          using sync Some False r(1) r'(1) by auto
        then show ?thesis by (rule go) (simp add: group_batch_def r'(2))
      qed
    qed
  qed
qed

section \<open>The state and the log\<close>

abbreviation lsm_writes :: "Port \<Rightarrow> AhaTree \<Rightarrow> mem_write set" where
  "lsm_writes P t \<equiv> all_writes (table_run P) (tree_fs t) (leveldb_lsmt t)"

text \<open>The LSM tree of the state and its files.\<close>

definition lsm_part :: "Port \<Rightarrow> AhaTree \<Rightarrow> bool" where
  "lsm_part P t \<longleftrightarrow> lsm_inv table_size (table_run P) (tree_fs t) (leveldb_lsmt t) \<and> no_dead (leveldb_lsmt t) \<and>
     lsmt_status (leveldb_lsmt t) = kStandalone \<and> has_hotspot (leveldb_lsmt t)"

definition imm_rep :: "AhaTree \<Rightarrow> mem_write set \<Rightarrow> bool" where
  "imm_rep t W \<longleftrightarrow> (case tree_imm t of None \<Rightarrow> W = {} \<and> \<not> has_imm t | Some m \<Rightarrow> mem_rep m W \<and> has_imm t) \<and> (W \<noteq> {} \<longrightarrow> \<not> imm_cold_only t)"

lemma part_cong:
  "tree_imm t' = tree_imm t \<Longrightarrow> has_imm t' = has_imm t \<Longrightarrow> imm_cold_only t' = imm_cold_only t \<Longrightarrow> imm_rep t' W = imm_rep t W"
  "leveldb_lsmt t' = leveldb_lsmt t \<Longrightarrow> tree_fs t' = tree_fs t \<Longrightarrow> lsm_part P t' = lsm_part P t"
  by (simp_all add: imm_rep_def lsm_part_def split: option.splits)

text \<open>The memtable holds \<open>Wm\<close>, the immutable one \<open>Wi\<close>: newer than the LSM tree, and together with it they read like the log.\<close>

definition tree_holds :: "Port \<Rightarrow> AhaTree \<Rightarrow> mem_write set \<Rightarrow> mem_write set \<Rightarrow> batch_op list \<Rightarrow> bool" where
  "tree_holds P t Wm Wi lg \<longleftrightarrow>
     mem_rep (tree_mem t) Wm \<and> (Wm \<noteq> {} \<longrightarrow> \<not> mem_empty t \<and> \<not> mem_cold_only t) \<and> imm_rep t Wi \<and> lsm_part P t \<and>
     (\<forall>v \<in> Wm. \<forall>w \<in> Wi \<union> lsm_writes P t. seq w < seq v) \<and> (\<forall>v \<in> Wi. \<forall>w \<in> lsm_writes P t. seq w < seq v) \<and>
     Wm \<union> Wi \<union> lsm_writes P t \<subseteq> batch_writes 2 lg \<and> same_reads (Wm \<union> Wi \<union> lsm_writes P t) (batch_writes 2 lg) \<and>
     unat (seq_no t) = Suc (length lg) \<and> batch_rep (tmp_batch t) 0 []"

definition tree_rep :: "Port \<Rightarrow> AhaTree \<Rightarrow> batch_op list \<Rightarrow> bool" where
  "tree_rep P t lg \<longleftrightarrow> (\<exists>Wm Wi. tree_holds P t Wm Wi lg)"

lemma tree_holdsD:
  assumes "tree_holds P t Wm Wi lg"
  shows "mem_rep (tree_mem t) Wm" "Wm \<noteq> {} \<Longrightarrow> \<not> mem_empty t \<and> \<not> mem_cold_only t" "imm_rep t Wi" "lsm_part P t"
    "\<And>v w. v \<in> Wm \<Longrightarrow> w \<in> Wi \<union> lsm_writes P t \<Longrightarrow> seq w < seq v" "\<And>v w. v \<in> Wi \<Longrightarrow> w \<in> lsm_writes P t \<Longrightarrow> seq w < seq v"
    "Wm \<union> Wi \<union> lsm_writes P t \<subseteq> batch_writes 2 lg" "same_reads (Wm \<union> Wi \<union> lsm_writes P t) (batch_writes 2 lg)"
    "unat (seq_no t) = Suc (length lg)" "batch_rep (tmp_batch t) 0 []"
  using assms unfolding tree_holds_def by blast+

lemma log_ops_fit: "log_fits lg \<Longrightarrow> ops_fit 2 lg"
  by (rule log_fits_ops) simp_all

lemma log_seq:
  assumes "log_fits lg" "w \<in> batch_writes 2 lg"
  shows "unat (seq w) \<le> Suc (length lg)" "write_ok w" "seq w < kMaxSequenceNumber"
proof -
  note B = batch_writes_seq [OF log_ops_fit [OF assms(1)] assms(2)]
  then show le: "unat (seq w) \<le> Suc (length lg)" and "write_ok w" by simp_all
  show "seq w < kMaxSequenceNumber" using le log_fits_length [OF assms(1)] by (simp add: word_less_nat_alt kMaxSequenceNumber_def)
qed

lemma new_AhaTree_rep:
  assumes "limit \<le> int kNumLevels"
  shows "tree_rep P (new_AhaTree flush_id mem_size file_max limit leaf) []"
proof -
  let ?t = "new_AhaTree flush_id mem_size file_max limit leaf"
  have e: "lsm_writes P ?t = {}" by (simp add: new_AhaTree_def new_LevelDBLSMT_def all_writes_def level_writes_def)
  have "lsm_part P ?t" using assms unfolding lsm_part_def lsm_inv_def e
    by (simp add: new_AhaTree_def new_LevelDBLSMT_def no_dead_def level_writes_def)
  moreover have "mem_rep (tree_mem ?t) {}" using mem_rep_new by (simp add: new_AhaTree_def MemTable_Ref_def mem_rep_def)
  ultimately have "tree_holds P ?t {} {} []" unfolding tree_holds_def e
    by (simp add: imm_rep_def new_AhaTree_def same_reads_def batch_rep_Clear)
  then show ?thesis unfolding tree_rep_def by blast
qed

section \<open>Steps\<close>

lemma unat_seq_add:
  assumes "unat (s :: 64 word) + n < 2 ^ 64"
  shows "unat (s + of_nat n) = unat s + n"
proof -
  have "unat (of_nat n :: 64 word) = n" using assms by (intro unat_of_nat_64) simp
  then show ?thesis using assms by (subst unat_add_lem [THEN iffD1]) simp_all
qed

lemma ucast_count: "n < 2 ^ 32 \<Longrightarrow> (ucast (of_nat n :: 32 word) :: 64 word) = of_nat n"
  by (rule word_unat_eq_iff [THEN iffD2]) (simp add: unsigned_ucast_eq unat_of_nat take_bit_nat_eq_self)

lemma Insert_group_ok:
  assumes t: "tree_holds P t Wm Wi lg" and q: "list_all2 writer_rep (writers t) pend" "pend \<noteq> []" and fit: "log_fits (lg @ concat pend)"
  shows "\<exists>done t' m Wm'. Insert_group t = Some (done, t') \<and> 0 < m \<and> m \<le> length pend \<and> tree_holds P t' Wm' Wi (lg @ concat (take m pend)) \<and>
    writers t' = drop m (writers t) \<and> done = map (\<lambda>w. (writer_id w, StatusOK)) (take m (writers t)) \<and> leveldb_lsmt t' = leveldb_lsmt t"
proof -
  note D = tree_holdsD [OF t]
  obtain w rest ops0 pr where w: "writers t = w # rest" "pend = ops0 # pr" "writer_rep w ops0" "list_all2 writer_rep rest pr"
    using q by (cases pend) (auto simp: list_all2_Cons2)
  show ?thesis
  proof (cases "writer_batch w")
    case None
    then have "ops0 = []" using w(3) by (simp add: writer_rep_def)
    moreover have "tree_holds P (t\<lparr>writers := rest\<rparr>) Wm Wi lg" using t by (simp add: tree_holds_def imm_rep_def lsm_part_def split: option.splits)
    ultimately show ?thesis using None w(1,2)
      by (intro exI [of _ "[(writer_id w, StatusOK)]"] exI [of _ "t\<lparr>writers := rest\<rparr>"] exI [of _ 1] exI [of _ Wm]) (simp add: Insert_group_def)
  next
    case (Some b)
    obtain s0 where b: "has_hot b" "batch_rep b s0 ops0" using w(3) Some by (auto simp: writer_rep_def)
    let ?sz = "ByteSize b"
    let ?mx = "if ?sz \<le> 128 * 1024 then ?sz + 128 * 1024 else 1024 * 1024"
    have g0: "group_batch ops0 None ops0" by (simp add: group_batch_def)
    obtain res m where g: "group_rest ?mx (writer_sync w) b (tmp_batch t) rest ?sz None 0 = Inr (res, m)"
      "m \<le> length rest" "group_batch ops0 res (ops0 @ concat (take m pr))"
      using group_rest_ok [OF b(2) D(10) w(4) g0, of ?mx "writer_sync w" ?sz 0] by auto
    have G: "BuildBatchGroup (writers t) (tmp_batch t) = Inr (res, m)" unfolding BuildBatchGroup_def Let_def using g(1) Some w(1) by simp
    let ?ops = "ops0 @ concat (take m pr)" and ?c = "case res of None \<Rightarrow> b | Some r \<Rightarrow> r" and ?s = "seq_no t + 1"
    have "\<exists>s1. batch_rep ?c s1 ?ops"
    proof (cases res)
      case None
      then have "?ops = ops0" using g(3) by (simp only: group_batch_def option.case)
      then show ?thesis using None b(2) by (simp only: option.case) blast
    qed (use g(3) in \<open>auto simp: group_batch_def\<close>)
    then obtain s1 where "batch_rep ?c s1 ?ops" by blast
    then have rep: "batch_rep (SetSequence ?c ?s) ?s ?ops" by (rule batch_rep_SetSequence)
    have lg': "lg @ concat (take (Suc m) pend) = lg @ ?ops" using w(2) by simp
    have "concat pend = ?ops @ concat (drop m pr)" using w(2) by (simp flip: concat_append)
    then have fit': "log_fits (lg @ ?ops)" using fit log_fits_append [of "lg @ ?ops" "concat (drop m pr)"] by simp
    note L = log_fits_length [OF fit']
    have us: "unat ?s = Suc (Suc (length lg))" using D(9) L by (subst unat_Suc_seq) simp_all
    have sq: "?s = 2 + of_nat (length lg)"
    proof (rule word_unat_eq_iff [THEN iffD2])
      show "unat ?s = unat (2 + of_nat (length lg) :: 64 word)" using us L by (subst unat_seq_add) simp_all
    qed
    have of: "ops_fit ?s ?ops" using log_fits_append [OF fit'] us L by (intro log_fits_ops) simp_all
    have B: "batch_writes 2 (lg @ ?ops) = batch_writes 2 lg \<union> batch_writes ?s ?ops" unfolding batch_writes_append [of 2 lg ?ops] sq ..
    have fl: "log_fits lg" using log_fits_append [OF fit'] by blast
    have old: "seq w < ?s" if "w \<in> batch_writes 2 lg" for w using log_seq(1) [OF fl that] us by (simp add: word_less_nat_alt)
    have new: "?s \<le> seq v" if "v \<in> batch_writes ?s ?ops" for v using batch_writes_seq [OF of that] by (simp add: word_le_nat_alt)
    have lt: "seq w < seq v" if "w \<in> batch_writes 2 lg" "v \<in> batch_writes ?s ?ops" for v w using old [OF that(1)] new [OF that(2)] by order
    have Wm: "Wm \<subseteq> batch_writes 2 lg" "Wi \<union> lsm_writes P t \<subseteq> batch_writes 2 lg" using D(7) by blast+
    obtain m' where m': "InsertInto Bytewise_Compare (SetSequence ?c ?s) (tree_mem t) = Some (StatusOK, m')" "mem_rep m' (Wm \<union> batch_writes ?s ?ops)"
      using insert_batch [OF D(1) _ of rep] old Wm(1) by blast
    have n: "length ?ops < 2 ^ 24" using L by simp
    have cnt: "ucast (Count (SetSequence ?c ?s)) = (of_nat (length ?ops) :: 64 word)"
      unfolding batch_rep_fields(1) [OF rep] by (rule ucast_count) (use n in simp)
    let ?t = "t\<lparr>seq_no := seq_no t + of_nat (length ?ops), mem_empty := False, mem_cold_only := False, tree_mem := m',
        tmp_batch := (case res of None \<Rightarrow> tmp_batch t | Some r \<Rightarrow> Clear r), writers := drop (Suc m) (writers t)\<rparr>"
    have I: "Insert_group t = Some (map (\<lambda>w. (writer_id w, StatusOK)) (take (Suc m) (writers t)), ?t)"
      unfolding Insert_group_def using w(1) Some G b(1) m'(1) by (simp add: Let_def cnt)
    have sn: "unat (seq_no ?t) = Suc (length (lg @ ?ops))" using unat_seq_add [of "seq_no t" "length ?ops"] D(9) L by simp
    have "same_reads (batch_writes ?s ?ops \<union> (Wm \<union> Wi \<union> lsm_writes P t)) (batch_writes ?s ?ops \<union> batch_writes 2 lg)"
      by (rule same_reads_newer [OF D(8)]) (use D(7) lt in blast)
    moreover have "batch_writes ?s ?ops \<union> (Wm \<union> Wi \<union> lsm_writes P t) = (Wm \<union> batch_writes ?s ?ops) \<union> Wi \<union> lsm_writes P t" by blast
    ultimately have sr: "same_reads ((Wm \<union> batch_writes ?s ?ops) \<union> Wi \<union> lsm_writes P t) (batch_writes 2 (lg @ ?ops))"
      unfolding B by (simp add: Un_commute)
    have tb: "batch_rep (tmp_batch ?t) 0 []" using D(10) batch_rep_Clear by (simp split: option.splits)
    have ip: "imm_rep ?t Wi" "lsm_part P ?t" using D(3,4) part_cong(1) [of ?t t] part_cong(2) [of ?t t] by simp_all
    have lw: "lsm_writes P ?t = lsm_writes P t" by simp
    have ord: "\<forall>v \<in> Wm \<union> batch_writes ?s ?ops. \<forall>x \<in> Wi \<union> lsm_writes P t. seq x < seq v" using D(5) lt Wm(2) by blast
    have "tree_holds P ?t (Wm \<union> batch_writes ?s ?ops) Wi (lg @ ?ops)"
      unfolding tree_holds_def lw using m'(2) ip ord D(6) Wm sr sn tb B by auto
    then show ?thesis using I w(1,2) g(2) list_all2_lengthD [OF q(1)] lg'
      by (intro exI [of _ "map (\<lambda>w. (writer_id w, StatusOK)) (take (Suc m) (writers t))"] exI [of _ ?t] exI [of _ "Suc m"] exI [of _ "Wm \<union> batch_writes ?s ?ops"]) simp
  qed
qed

lemma switch_ok:
  assumes "tree_holds P t Wm {} lg" "tree_imm t = None"
  shows "tree_holds P (switch_memtable t) {} Wm lg"
proof -
  note D = tree_holdsD [OF assms(1)]
  have "mem_rep (MemTable_Ref new_MemTable) {}" using mem_rep_new by (simp add: MemTable_Ref_def mem_rep_def)
  then show ?thesis using D unfolding tree_holds_def by (auto simp: switch_memtable_def imm_rep_def lsm_part_def)
qed

section \<open>Flushing a memtable\<close>

lemma run_same: "fs' n = fs n \<Longrightarrow> table_run P fs' n = table_run P fs n" "fs' n = fs n \<Longrightarrow> table_size fs' n = table_size fs n"
  by (simp_all add: table_run_def table_size_def)

text \<open>Only the files of the tree matter.\<close>

lemma lsm_files_kept:
  assumes inv: "lsm_inv table_size (table_run P) fs s" and fs: "\<And>l f. f \<in> set (files s l) \<Longrightarrow> fs' (fnumber f) = fs (fnumber f)"
    and s: "files s' = files s" "level_limit s' = level_limit s" "file_id s \<le> file_id s'"
  shows "lsm_inv table_size (table_run P) fs' s'" "all_writes (table_run P) fs' s' = all_writes (table_run P) fs s"
proof -
  have lw: "level_writes (table_run P) fs' (files s' l) = level_writes (table_run P) fs (files s l)" for l
    unfolding level_writes_def s(1) using fs run_same(1) by (intro SUP_cong refl arg_cong [where f = set]) blast
  show aw: "all_writes (table_run P) fs' s' = all_writes (table_run P) fs s" unfolding all_writes_def lw ..
  have rep: "file_rep table_size (table_run P) fs' f \<and> fnumber f \<le> file_id s'" if "f \<in> set (files s l)" for f l
    using lsm_invD(1,2) [OF inv that] run_same [where fs' = fs' and fs = fs and n = "fnumber f"] fs [OF that] s(3) by (auto simp: file_rep_def)
  have disj: "fnumber f \<noteq> fnumber g \<and> set (table_run P fs' (fnumber f)) \<inter> set (table_run P fs' (fnumber g)) = {}"
    if "f \<in> set (files s l)" "g \<in> set (files s l')" "(l, f) \<noteq> (l', g)" for f g l l'
    using lsm_invD(6,7) [OF inv that] run_same(1) [where fs' = fs' and fs = fs and P = P] fs [OF that(1)] fs [OF that(2)] by metis
  show "lsm_inv table_size (table_run P) fs' s'"
    unfolding lsm_inv_def aw lw unfolding s(1,2)
  proof (intro conjI allI impI)
    show "level_limit s \<le> int kNumLevels" using inv by (simp add: lsm_inv_def)
    show "sorted_wrt precedes (files s l)" if "l > 0" for l using lsm_invD(4) [OF inv that] by (simp add: level_sorted_def)
    show "\<forall>v \<in> level_writes (table_run P) fs (files s l). \<forall>w \<in> level_writes (table_run P) fs (files s l'). ukey v = ukey w \<longrightarrow> seq w < seq v"
      if "l < l'" for l l' using lsm_invD(9) [OF inv that] by blast
    show "unique_versions (all_writes (table_run P) fs s)" by (rule lsm_invD(8) [OF inv])
  qed (use rep lsm_invD(3,5) [OF inv] disj in blast)+
qed

lemma imm_run:
  assumes m: "mem_rep m W" "W \<noteq> {}" "\<And>w. w \<in> W \<Longrightarrow> write_ok w \<and> seq w < kMaxSequenceNumber"
  shows "\<exists>ws. mem_items (MemTable_NewIterator m) = map item_of ws \<and> set ws = W \<and> run_ok ws \<and> unique_versions (set ws)"
proof -
  have ok: "mem_iter_ok (MemTable_NewIterator m)" using m(1) by (auto simp: mem_iter_ok_def MemTable_NewIterator_def)
  have "set (mem_items (MemTable_NewIterator m)) = item_of ` W" using mem_rep_items(2) [OF m(1)] by (simp add: MemTable_NewIterator_def item_of_def)
  moreover have "\<forall>w \<in> W. write_ok w" using m(3) by blast
  ultimately obtain ws where ws: "map item_of ws = mem_items (MemTable_NewIterator m)" "set ws = W"
    using preimage_list [of _ item_of W] item_of_inj [of W] by metis
  have "sorted_wrt (\<lambda>v w. icmp (fst (item_of v)) (fst (item_of w)) < 0) ws"
    using mem_ascending [OF ok] unfolding ws(1) [symmetric] by (simp add: sorted_wrt_map)
  then have "sorted_wrt version_less ws" by (simp add: item_of_def icmp_writes)
  then have "run_ok ws" using ws(2) m(2,3) by (auto simp: run_ok_def)
  moreover have "unique_versions (set ws)" using m(1) ws(2) by (simp add: mem_rep_def)
  ultimately show ?thesis using ws by metis
qed

lemma fits_subset: "fits W \<Longrightarrow> V \<subseteq> W \<Longrightarrow> fits V"
proof -
  assume W: "fits W" "V \<subseteq> W"
  then have "(\<Sum>w \<in> V. length (write_ikey w) + length (snd w) + 100) \<le> (\<Sum>w \<in> W. length (write_ikey w) + length (snd w) + 100)"
    by (intro sum_mono2) (auto simp: fits_def)
  then show ?thesis using W finite_subset by (auto simp: fits_def)
qed

text \<open>The table of the immutable memtable, added to the tree.\<close>

lemma add_flushed:
  assumes P: "port_ok P" and ropt: "icmp_comparator (comparator ropt)"
    and inv: "lsm_inv table_size (table_run P) fs s" "no_dead s" "lsmt_status s = kStandalone"
    and ws: "run_ok ws" "unique_versions (set ws)" "\<And>v w. v \<in> set ws \<Longrightarrow> w \<in> all_writes (table_run P) fs s \<Longrightarrow> seq w < seq v"
    and W: "fits (all_writes (table_run P) fs s \<union> set ws)" and fid: "unat (file_id s) + 2 ^ 32 < 2 ^ 64"
    and F: "table_file P F (map item_of ws)" and n: "n = file_id s + 1" and s0: "s0 = s\<lparr>file_id := n\<rparr>"
    and meta: "fnumber meta = n" "file_size meta = of_nat (length F)" "smallest meta = write_ikey (hd ws)" "largest meta = write_ikey (last ws)"
  shows "\<exists>level st fs' s'. PickLevelForMemTableOutput s0 (smallest_user meta) (largest_user meta) = Some level \<and>
    AddFile (level_tables P False icmp_options ropt) level meta None (fs(n \<mapsto> F), s0) = Some (st, fs', s') \<and>
    lsm_inv table_size (table_run P) fs' s' \<and> no_dead s' \<and> lsmt_status s' = kStandalone \<and>
    all_writes (table_run P) fs' s' \<subseteq> all_writes (table_run P) fs s \<union> set ws \<and>
    same_reads (all_writes (table_run P) fs' s') (all_writes (table_run P) fs s \<union> set ws)"
proof -
  let ?fs = "fs(n \<mapsto> F)" and ?C = "table_run P"
  have un: "unat n = unat (file_id s) + 1" unfolding n using fid by (subst unat_add_lem [THEN iffD1]) simp_all
  have lt: "file_id s < n" using un by (simp add: word_less_nat_alt)
  have num: "fnumber f \<noteq> n" if "f \<in> set (files s l)" for f l using lsm_invD(2) [OF inv(1) that] lt by auto
  have K: "lsm_inv table_size ?C ?fs s0" "all_writes ?C ?fs s0 = all_writes ?C fs s"
    using lsm_files_kept [OF inv(1), of ?fs s0] num lt by (simp_all add: s0)
  have run: "?C ?fs n = ws" by (rule table_run_eq [OF P _ ws(1) F]) simp
  have rep: "file_rep table_size ?C ?fs meta" unfolding file_rep_def spans_def meta(1) run using ws(1) meta by (simp add: table_size_def)
  have hd: "hd ws \<in> set ws" "last ws \<in> set ws" using ws(1) by (simp_all add: run_ok_def)
  have su: "smallest_user meta = ukey (hd ws)" "length (smallest_user meta) + 8 < 2 ^ 32"
    using meta(3) hd ws(1) by (auto simp: run_ok_def write_ok_def)
  obtain level where lv: "PickLevelForMemTableOutput s0 (smallest_user meta) (largest_user meta) = Some level" "level < kNumLevels"
    "level > 0 \<Longrightarrow> \<forall>l' \<le> level. \<forall>g \<in> set (files s0 l'). \<not> touches (smallest_user meta) (largest_user meta) g"
    using PickLevelForMemTableOutput_ok [OF lsm_invD(10) [OF K(1)] su(2)] by blast
  have new: "newcomer table_size ?C ?fs s0 level meta"
    unfolding newcomer_def meta(1) run K(2) using rep ws(2,3) lv(2,3) num by (simp add: s0)
  have card: "kNumLevels * (2 * card (all_writes ?C fs s \<union> set ws)) < 2 ^ 31" using fits_card [OF W] by (simp add: kNumLevels_def)
  have dead: "no_dead s0" "n \<notin> obsolete_files s0" using inv(2) lt by (auto simp: no_dead_def s0)
  note T = level_tables_store [OF P icmp_options_ok(1) ropt, of False]
  have "\<exists>st fs' s'. AddFile (level_tables P False icmp_options ropt) level meta None (?fs, s0) = Some (st, fs', s') \<and> lsm_inv table_size ?C fs' s' \<and>
      all_writes ?C fs' s' \<subseteq> all_writes ?C fs s \<union> set ws \<and> same_reads (all_writes ?C fs' s') (all_writes ?C fs s \<union> set ws) \<and>
      lsmt_status s' = lsmt_status s0 \<and> (no_dead s0 \<longrightarrow> fnumber meta \<notin> obsolete_files s0 \<longrightarrow> no_dead s')"
  proof (rule table_store.AddFile_ok [OF T K(1) new])
    show "lsmt_status s0 = kStandalone \<or> 0 < level_limit s0" using inv(3) by (simp add: s0)
    show "all_writes ?C fs s \<union> set ws = all_writes ?C ?fs s0 \<union> set (?C ?fs (fnumber meta))" unfolding K(2) meta(1) run ..
    show "unat (file_id s0) + kNumLevels * (2 * card (all_writes ?C fs s \<union> set ws)) < 2 ^ 64" using card un fid by (simp add: s0)
    show "sorted (page_guards None)" by (simp add: page_guards_def)
  qed (rule W)
  then show ?thesis using lv(1) dead inv(3) meta(1) by (auto simp: s0)
qed

lemma same_reads_middle:
  assumes r: "same_reads L' (L \<union> I)" "L' \<subseteq> L \<union> I" and m: "\<And>v w. v \<in> M \<Longrightarrow> w \<in> I \<union> L \<Longrightarrow> seq w < seq v"
    and B: "same_reads (M \<union> I \<union> L) B" "M \<union> I \<union> L \<subseteq> B"
  shows "same_reads (M \<union> L') B" "M \<union> L' \<subseteq> B"
proof -
  have "same_reads (M \<union> L') (M \<union> (L \<union> I))" by (rule same_reads_newer [OF r(1)]) (use r(2) m in blast)
  moreover have "M \<union> (L \<union> I) = M \<union> I \<union> L" by blast
  ultimately show "same_reads (M \<union> L') B" using same_reads_trans [of "M \<union> L'" "M \<union> I \<union> L" B] B r(2) by auto
  show "M \<union> L' \<subseteq> B" using r(2) B(2) by blast
qed

lemma CompactMemTable_ok:
  assumes P: "port_ok P" and ropt: "icmp_comparator (comparator ropt)" and t: "tree_holds P t Wm Wi lg" and imm: "tree_imm t = Some m"
    and fit: "log_fits lg" and fid: "unat (file_id (leveldb_lsmt t)) + 2 ^ 32 < 2 ^ 64"
  shows "\<exists>t' Wi'. CompactMemTable P ropt t = Some t' \<and> tree_holds P t' Wm Wi' lg \<and> writers t' = writers t \<and> (tree_imm t' = None \<or> shutting_down t)"
proof -
  note D = tree_holdsD [OF t]
  let ?s = "leveldb_lsmt t" and ?fs = "tree_fs t" and ?C = "table_run P" and ?it = "MemTable_NewIterator m"
  let ?n = "file_id ?s + 1" and ?Wl = "lsm_writes P t"
  let ?sn = "?s\<lparr>file_id := ?n\<rparr>" and ?mt = "flush_meta ?n (entry_num m)"
  have L: "lsm_inv table_size ?C ?fs ?s" "no_dead ?s" "lsmt_status ?s = kStandalone" "has_hotspot ?s" using D(4) by (simp_all add: lsm_part_def)
  have I: "mem_rep m Wi" "has_imm t" "Wi \<noteq> {} \<Longrightarrow> \<not> imm_cold_only t" using D(3) imm by (simp_all add: imm_rep_def)
  have ok: "mem_iter_ok ?it" using I(1) by (auto simp: mem_iter_ok_def MemTable_NewIterator_def)
  have un: "unat ?n = unat (file_id ?s) + 1" using fid by (subst unat_add_lem [THEN iffD1]) simp_all
  have lt: "file_id ?s < ?n" using un by (simp add: word_less_nat_alt)
  have num: "fnumber f \<noteq> ?n" if "f \<in> set (files ?s l)" for f l using lsm_invD(2) [OF L(1) that] lt by auto
  have dead0: "no_dead ?sn" using L(2) lt by (auto simp: no_dead_def)
  have kept: "lsm_inv table_size ?C fs' ?sn" "all_writes ?C fs' ?sn = ?Wl" if "\<And>k. k \<noteq> ?n \<Longrightarrow> fs' k = ?fs k" for fs'
    using lsm_files_kept [OF L(1), of fs' ?sn] that num lt by simp_all
  have note_t: "Wm \<subseteq> batch_writes 2 lg" "Wi \<subseteq> batch_writes 2 lg" using D(7) by blast+
  note S0 = same_reads_middle [OF _ _ D(5) D(8,7)]
  show ?thesis
  proof (cases "Wi = {}")
    case True
    have e: "mem_items ?it = []" using mem_rep_items(2) [OF I(1)] True by (simp add: MemTable_NewIterator_def)
    have B: "BuildTable mem_env P icmp_options 0 (memtable_iterator Bytewise_Compare) ?it StatusOK Map.empty ?mt ?fs =
        Some (StatusOK, ?mt\<lparr>file_size := 0\<rparr>, Map.empty, ?fs(?n := None))"
      using BuildTable_empty [OF mem_sorted ok e, of P icmp_options 0 Map.empty ?mt ?fs] by (simp add: flush_meta_def)
    note K = kept [of "?fs(?n := None)"]
    let ?t1 = "t\<lparr>leveldb_lsmt := ?sn, tree_fs := ?fs(?n := None), pending_outputs := pending_outputs t - {?n}\<rparr>"
    let ?t' = "if shutting_down t then ?t1 else ?t1\<lparr>tree_imm := None, has_imm := False, imm_cold_only := True\<rparr>"
    have lp: "lsm_part P ?t'" using K dead0 L(3,4) by (simp add: lsm_part_def)
    have ip: "imm_rep ?t' {}" using I(1,2) imm True by (simp add: imm_rep_def)
    have lw: "lsm_writes P ?t' = ?Wl" using K(2) by simp
    have "tree_holds P ?t' Wm {} lg" unfolding tree_holds_def lw using D lp ip True by auto
    moreover have "CompactMemTable P ropt t = Some ?t'" using imm B by (simp add: CompactMemTable_def Let_def)
    ultimately show ?thesis by (intro exI [of _ ?t'] exI [of _ "{}"]) simp
  next
    case False
    have wok: "write_ok w \<and> seq w < kMaxSequenceNumber" if "w \<in> Wi" for w using log_seq(2,3) [OF fit] note_t(2) that by blast
    obtain ws where ws: "mem_items ?it = map item_of ws" "set ws = Wi" "run_ok ws" "unique_versions (set ws)" using imm_run [OF I(1) False wok] by blast
    have fits: "fits (?Wl \<union> set ws)" using D(7) ws(2) by (intro fits_subset [OF fits_log [OF fit, of 2]]) blast
    have wt: "weight (mem_items ?it) < 2 ^ 30" unfolding ws(1) using fits_weight [OF ws(3)] fits_subset [OF fits] by blast
    have ne: "mem_items ?it \<noteq> []" "ws \<noteq> []" using ws(1,3) by (simp_all add: run_ok_def)
    obtain F c where F: "BuildTable mem_env P icmp_options 0 (memtable_iterator Bytewise_Compare) ?it StatusOK Map.empty ?mt ?fs =
        Some (StatusOK, ?mt\<lparr>file_size := of_nat (length F), smallest := fst (hd (mem_items ?it)), largest := fst (last (mem_items ?it))\<rparr>, c, ?fs(?n \<mapsto> F))"
      "(of_nat (length F) :: 64 word) > 0" "table_file P F (map item_of ws)"
      using BuildTable_ok [OF mem_sorted ok ne(1) wt P icmp_options_ok(1), of 0 ?mt ?fs] ws(1) by (auto simp: flush_meta_def)
    let ?meta = "?mt\<lparr>file_size := of_nat (length F), smallest := write_ikey (hd ws), largest := write_ikey (last ws)\<rparr>"
    have B: "BuildTable mem_env P icmp_options 0 (memtable_iterator Bytewise_Compare) ?it StatusOK Map.empty ?mt ?fs = Some (StatusOK, ?meta, c, ?fs(?n \<mapsto> F))"
      using F(1) ws(1) ne(2) by (simp add: hd_map last_map item_of_def)
    show ?thesis
    proof (cases "shutting_down t")
      case True
      note K = kept [of "?fs(?n \<mapsto> F)"]
      let ?t1 = "t\<lparr>leveldb_lsmt := ?sn, tree_fs := ?fs(?n \<mapsto> F), pending_outputs := pending_outputs t - {?n}\<rparr>"
      have lp: "lsm_part P ?t1" using K dead0 L(3,4) by (simp add: lsm_part_def)
      have ip: "imm_rep ?t1 Wi" using D(3) part_cong(1) [of ?t1 t] by simp
      have lw: "lsm_writes P ?t1 = ?Wl" using K(2) by simp
      have "tree_holds P ?t1 Wm Wi lg" unfolding tree_holds_def lw using D lp ip by auto
      moreover have "CompactMemTable P ropt t = Some ?t1" using imm B True by (simp add: CompactMemTable_def Let_def)
      ultimately show ?thesis using True by (intro exI [of _ ?t1] exI [of _ Wi]) simp
    next
      case up: False
      have nw: "seq w < seq v" if "v \<in> set ws" "w \<in> ?Wl" for v w using D(6) ws(2) that by blast
      obtain level st fs' s' where A: "PickLevelForMemTableOutput ?sn (smallest_user ?meta) (largest_user ?meta) = Some level"
        "AddFile (level_tables P False icmp_options ropt) level ?meta None (?fs(?n \<mapsto> F), ?sn) = Some (st, fs', s')"
        "lsm_inv table_size ?C fs' s'" "no_dead s'" "lsmt_status s' = kStandalone" "all_writes ?C fs' s' \<subseteq> ?Wl \<union> Wi"
        "same_reads (all_writes ?C fs' s') (?Wl \<union> Wi)"
        using add_flushed [OF P ropt L(1-3) ws(3,4) nw fits fid F(3) refl refl, of ?meta] ws(2) by (auto simp: flush_meta_def)
      let ?s1 = "if \<not> has_hotspot s' then SetHotspot True s' else s'"
      let ?t' = "t\<lparr>leveldb_lsmt := ?s1, tree_fs := fs', pending_outputs := pending_outputs t - {?n}, tree_imm := None, has_imm := False, imm_cold_only := True\<rparr>"
      have s1: "files ?s1 = files s'" "file_id ?s1 = file_id s'" "level_limit ?s1 = level_limit s'" "obsolete_files ?s1 = obsolete_files s'"
        "lsmt_status ?s1 = lsmt_status s'" "has_hotspot ?s1" by (simp_all add: SetHotspot_def)
      have lw: "lsm_writes P ?t' = all_writes ?C fs' s'" using same_tree [of ?s1 s' table_size ?C fs'] s1 by simp
      have lp: "lsm_part P ?t'" using A(3-5) same_tree [of ?s1 s' table_size ?C fs'] s1 by (simp add: lsm_part_def no_dead_def)
      have ip: "imm_rep ?t' {}" by (simp add: imm_rep_def)
      have sr: "same_reads (Wm \<union> all_writes ?C fs' s') (batch_writes 2 lg)" "Wm \<union> all_writes ?C fs' s' \<subseteq> batch_writes 2 lg"
        using S0 [OF A(7,6)] by blast+
      have ord: "\<forall>v \<in> Wm. \<forall>w \<in> {} \<union> all_writes ?C fs' s'. seq w < seq v" using D(5) A(6) by blast
      have "tree_holds P ?t' Wm {} lg" unfolding tree_holds_def lw using D(1,2,9,10) lp ip ord sr by simp
      moreover have "CompactMemTable P ropt t = Some ?t'"
        using imm B up A(1,2) F(2) I(3) [OF False] by (simp add: CompactMemTable_def Let_def)
      ultimately show ?thesis by (intro exI [of _ ?t'] exI [of _ "{}"]) simp
    qed
  qed
qed

end
