(* ===== verification/AhaTreeScan.thy ===== *)
theory AhaTreeScan
  imports AhaTreeCorrect
begin

text \<open>
  Runs of the whole index: writers, memtable switches, flushes and compactions in any order keep the relation to the log, and a
  scan in any state of a run shows the last operations of the log.
\<close>

section \<open>Background work\<close>

lemma schedule_holds: "tree_holds P (MaybeScheduleCompaction t) Wm Wi lg = tree_holds P t Wm Wi lg"
  "writers (MaybeScheduleCompaction t) = writers t"
proof -
  let ?u = "t\<lparr>compaction_scheduled := True, scheduled_compaction_num := scheduled_compaction_num t + 1\<rparr>"
  have "tree_holds P ?u Wm Wi lg = tree_holds P t Wm Wi lg"
    using part_cong(1) [of ?u t Wi] part_cong(2) [of ?u t P] by (simp add: tree_holds_def)
  then show "tree_holds P (MaybeScheduleCompaction t) Wm Wi lg = tree_holds P t Wm Wi lg" "writers (MaybeScheduleCompaction t) = writers t"
    by (simp_all add: MaybeScheduleCompaction_def)
qed

lemma imm_none: "imm_rep t W \<Longrightarrow> tree_imm t = None \<longleftrightarrow> \<not> has_imm t" "imm_rep t W \<Longrightarrow> tree_imm t = None \<Longrightarrow> W = {}"
  by (auto simp: imm_rep_def split: option.splits)

lemma compact_lsm_ok:
  assumes P: "port_ok P" and ropt: "icmp_comparator (comparator ropt)" and t: "tree_holds P t Wm Wi lg" "tree_imm t = None"
    and d: "compaction_due (leveldb_lsmt t)" and gs: "sorted (page_guards (Some rt))"
    and fit: "log_fits lg" and fid: "unat (file_id (leveldb_lsmt t)) + 2 ^ 32 < 2 ^ 64" and b: "BackgroundCompaction P ropt rt t = Some t'"
  shows "tree_holds P t' Wm Wi lg \<and> writers t' = writers t"
proof -
  note D = tree_holdsD [OF t(1)]
  let ?s = "leveldb_lsmt t" and ?fs = "tree_fs t" and ?C = "table_run P" and ?Wl = "lsm_writes P t"
  have L: "lsm_inv table_size ?C ?fs ?s" "no_dead ?s" "lsmt_status ?s = kStandalone" "has_hotspot ?s" using D(4) by (simp_all add: lsm_part_def)
  have fits: "fits ?Wl" using D(7) by (intro fits_subset [OF fits_log [OF fit, of 2]]) blast
  then have card: "unat (file_id ?s) + 2 * card ?Wl < 2 ^ 64" using fits_card fid by fastforce
  note T = level_tables_store [OF P icmp_options_ok(1) ropt, of False]
  obtain st fs1 s1 where C: "DoCompact (level_tables P False icmp_options ropt) rt (?fs, ?s) = Some (st, fs1, s1)"
    "compacted table_size ?C (2 * card ?Wl) (?fs, ?s) (fs1, s1)"
    using table_store.DoCompact_ok [OF T L(1) fits d gs card] by auto
  have E: "lsm_inv table_size ?C fs1 s1" "all_writes ?C fs1 s1 \<subseteq> ?Wl" "same_reads (all_writes ?C fs1 s1) ?Wl" "lsmt_status s1 = kStandalone"
    "has_hotspot s1" "no_dead s1" using C(2) L(2-4) by (simp_all add: compacted_def)
  let ?s' = "s1\<lparr>obsolete_files := {}\<rparr>" and ?fs' = "\<lambda>n. if n \<in> obsolete_files s1 then None else fs1 n"
  have t': "t' = t\<lparr>leveldb_lsmt := ?s', tree_fs := ?fs', flush_scheduled := (flush_scheduled t \<or> st = kOverflow)\<rparr>"
    using b t(2) C(1) by (auto simp: BackgroundCompaction_def Let_def split: if_splits)
  have live: "?fs' (fnumber f) = fs1 (fnumber f)" if "f \<in> set (files s1 l)" for f l using E(6) that by (auto simp: no_dead_def)
  have K: "lsm_inv table_size ?C ?fs' ?s'" "all_writes ?C ?fs' ?s' = all_writes ?C fs1 s1" using lsm_files_kept [OF E(1), of ?fs' ?s'] live by simp_all
  have Wi: "Wi = {}" by (rule imm_none(2) [OF D(3) t(2)])
  have lp: "lsm_part P t'" using K(1) E(4,5) by (simp add: t' lsm_part_def no_dead_def)
  have ip: "imm_rep t' Wi" using D(3) part_cong(1) [of t' t Wi] by (simp add: t')
  have lw: "lsm_writes P t' = all_writes ?C fs1 s1" using K(2) by (simp add: t')
  have "same_reads (Wm \<union> all_writes ?C fs1 s1) (batch_writes 2 lg)" "Wm \<union> all_writes ?C fs1 s1 \<subseteq> batch_writes 2 lg"
    using same_reads_middle [of "all_writes ?C fs1 s1" ?Wl "{}" Wm "batch_writes 2 lg"] E(2,3) D(5,7,8) Wi by simp_all
  moreover have "\<forall>v \<in> Wm. \<forall>w \<in> all_writes ?C fs1 s1. seq w < seq v" using D(5) E(2) by blast
  ultimately show ?thesis unfolding tree_holds_def lw using D(1,2,9,10) lp ip Wi by (simp add: t')
qed

section \<open>Runs\<close>

text \<open>
  The steps of the index with the specification beside it: the operations of the queued writers and the log. The
  specification learns of a step only how many writers were served.
\<close>

type_synonym run_state = "AhaTree \<times> batch_op list list \<times> batch_op list"

inductive tree_step :: "Port \<Rightarrow> Options \<Rightarrow> run_state \<Rightarrow> run_state \<Rightarrow> bool" for P ropt where
  enqueue: "writer_rep w ops \<Longrightarrow> tree_step P ropt (t, pend, lg) (t\<lparr>writers := writers t @ [w]\<rparr>, pend @ [ops], lg)"
| write_group: "Insert_group t = Some (served, t') \<Longrightarrow>
    tree_step P ropt (t, pend, lg) (t', drop (length served) pend, lg @ concat (take (length served) pend))"
| switch: "make_room usage force delay t = RoomSwitch \<Longrightarrow> tree_step P ropt (t, pend, lg) (MakeRoom_switch t, pend, lg)"
| flush_or_compact: "sorted (page_guards (Some rt)) \<Longrightarrow> tree_imm t \<noteq> None \<or> compaction_due (leveldb_lsmt t) \<Longrightarrow>
    BackgroundCall P ropt rt t = Some t' \<Longrightarrow> tree_step P ropt (t, pend, lg) (t', pend, lg)"
| adapt_mem: "AdaptMem P ropt t = Some t' \<Longrightarrow> tree_step P ropt (t, pend, lg) (t', pend, lg)"
| adapt_imm: "AdaptImm P ropt t = Some t' \<Longrightarrow> tree_step P ropt (t, pend, lg) (t', pend, lg)"
| shut_down: "tree_step P ropt (t, pend, lg) (t\<lparr>shutting_down := True\<rparr>, pend, lg)"

text \<open>The sizes for which tables and file numbers do not overflow: less than a gigabyte of operations.\<close>

definition within_limits :: "run_state \<Rightarrow> bool" where
  "within_limits = (\<lambda>(t, pend, lg). log_fits (lg @ concat pend) \<and> unat (file_id (leveldb_lsmt t)) + 2 ^ 32 < 2 ^ 64)"

inductive tree_reach :: "Port \<Rightarrow> Options \<Rightarrow> run_state \<Rightarrow> bool" for P ropt where
  tree_start: "limit \<le> int kNumLevels \<Longrightarrow> tree_reach P ropt (new_AhaTree flush_id mem_size file_max limit leaf, [], [])"
| tree_next: "tree_reach P ropt x \<Longrightarrow> within_limits x \<Longrightarrow> tree_step P ropt x y \<Longrightarrow> tree_reach P ropt y"

definition run_inv :: "Port \<Rightarrow> run_state \<Rightarrow> bool" where
  "run_inv P = (\<lambda>(t, pend, lg). tree_rep P t lg \<and> list_all2 writer_rep (writers t) pend)"

lemma background_ok:
  assumes P: "port_ok P" and ropt: "icmp_comparator (comparator ropt)" and t: "tree_rep P t lg"
    and d: "tree_imm t \<noteq> None \<or> compaction_due (leveldb_lsmt t)" and gs: "sorted (page_guards (Some rt))"
    and fit: "log_fits lg" and fid: "unat (file_id (leveldb_lsmt t)) + 2 ^ 32 < 2 ^ 64" and b: "BackgroundCall P ropt rt t = Some t'"
  shows "tree_rep P t' lg \<and> writers t' = writers t"
proof -
  obtain Wm Wi where h: "tree_holds P t Wm Wi lg" using t by (auto simp: tree_rep_def)
  obtain u where u: "(if shutting_down t then Some t else BackgroundCompaction P ropt rt t) = Some u"
    "t' = (let v = MaybeScheduleCompaction (u\<lparr>compaction_scheduled := False\<rparr>) in v\<lparr>scheduled_compaction_num := scheduled_compaction_num v - 1\<rparr>)"
    using b by (auto simp: BackgroundCall_def split: if_splits)
  have "\<exists>Wm Wi. tree_holds P u Wm Wi lg \<and> writers u = writers t"
  proof (cases "shutting_down t")
    case True
    then show ?thesis using u(1) h by auto
  next
    case False
    then have c: "BackgroundCompaction P ropt rt t = Some u" using u(1) by simp
    show ?thesis
    proof (cases "tree_imm t")
      case None
      then show ?thesis using compact_lsm_ok [OF P ropt h None _ gs fit fid c] d by blast
    next
      case (Some m)
      then have "CompactMemTable P ropt t = Some u" using c by (simp add: BackgroundCompaction_def)
      then show ?thesis using CompactMemTable_ok [OF P ropt h Some fit fid] by auto
    qed
  qed
  then obtain Vm Vi where v: "tree_holds P u Vm Vi lg" "writers u = writers t" by blast
  let ?u = "u\<lparr>compaction_scheduled := False\<rparr>"
  let ?v = "MaybeScheduleCompaction ?u"
  have "tree_holds P ?u Vm Vi lg" using v(1) part_cong(1) [of ?u u Vi] part_cong(2) [of ?u u P] by (simp add: tree_holds_def)
  then have "tree_holds P ?v Vm Vi lg" by (simp add: schedule_holds)
  moreover have "t' = ?v\<lparr>scheduled_compaction_num := scheduled_compaction_num ?v - 1\<rparr>" using u(2) by (simp add: Let_def)
  ultimately have "tree_holds P t' Vm Vi lg" using part_cong(1) [of t' ?v Vi] part_cong(2) [of t' ?v P] by (simp add: tree_holds_def)
  then show ?thesis using u(2) v(2) schedule_holds(2) [of ?u] by (auto simp: tree_rep_def Let_def)
qed

text \<open>The flags of the adaptation do not matter.\<close>

lemma adapt_flags:
  "tree_rep P (t\<lparr>scheduled_flush_num := n\<rparr>) lg = tree_rep P t lg" "tree_rep P (t\<lparr>pushdown_mem := c\<rparr>) lg = tree_rep P t lg"
  "tree_rep P (t\<lparr>pushdown_imm := c\<rparr>) lg = tree_rep P t lg" "tree_rep P (t\<lparr>shutting_down := c\<rparr>) lg = tree_rep P t lg"
  "tree_rep P (t\<lparr>writers := ws\<rparr>) lg = tree_rep P t lg"
  by (simp_all add: tree_rep_def tree_holds_def imm_rep_def lsm_part_def cong: option.case_cong)

lemma adapt_ok:
  assumes P: "port_ok P" and ropt: "icmp_comparator (comparator ropt)" and t: "tree_rep P t lg"
    and fit: "log_fits lg" and fid: "unat (file_id (leveldb_lsmt t)) + 2 ^ 32 < 2 ^ 64"
  shows "AdaptMem P ropt t = Some t' \<Longrightarrow> tree_rep P t' lg \<and> writers t' = writers t"
    "AdaptImm P ropt t = Some t' \<Longrightarrow> tree_rep P t' lg \<and> writers t' = writers t"
proof -
  obtain Wm Wi where h: "tree_holds P t Wm Wi lg" using t by (auto simp: tree_rep_def)
  have imm: "tree_rep P u lg \<and> writers u = writers t" if "CompactMemTable P ropt t = Some u" for u
  proof -
    obtain m where "tree_imm t = Some m" using \<open>CompactMemTable P ropt t = Some u\<close> by (auto simp: CompactMemTable_def split: option.splits)
    then show ?thesis using CompactMemTable_ok [OF P ropt h _ fit fid] that by (auto simp: tree_rep_def)
  qed
  show "tree_rep P t' lg \<and> writers t' = writers t" if "AdaptImm P ropt t = Some t'"
    using that t imm by (auto simp: AdaptImm_def adapt_flags split: if_splits)
  show "tree_rep P t' lg \<and> writers t' = writers t" if a: "AdaptMem P ropt t = Some t'"
  proof (cases "shutting_down t \<or> has_imm t")
    case True
    then show ?thesis using a t by (auto simp: AdaptMem_def adapt_flags split: if_splits)
  next
    case False
    have n: "tree_imm t = None" "Wi = {}" using imm_none [OF tree_holdsD(3) [OF h]] False by blast+
    let ?u = "switch_memtable t"
    have s: "tree_holds P ?u {} Wm lg" using switch_ok [of P t Wm lg] h n by simp
    have f: "tree_imm ?u = Some (tree_mem t)" "leveldb_lsmt ?u = leveldb_lsmt t" "writers ?u = writers t" by (simp_all add: switch_memtable_def)
    have "tree_rep P v lg \<and> writers v = writers t" if "CompactMemTable P ropt ?u = Some v" for v
      using CompactMemTable_ok [OF P ropt s f(1) fit] fid f that by (auto simp: tree_rep_def)
    moreover have "tree_rep P ?u lg" using s by (auto simp: tree_rep_def)
    ultimately show ?thesis using a False f(3) by (auto simp: AdaptMem_def adapt_flags Let_def split: if_splits)
  qed
qed

lemma run_inv_step:
  assumes P: "port_ok P" and ropt: "icmp_comparator (comparator ropt)" and inv: "run_inv P x" "within_limits x" and st: "tree_step P ropt x y"
  shows "run_inv P y"
  using st inv
proof cases
  case (enqueue w ops t pend lg)
  then show ?thesis using inv by (simp add: run_inv_def adapt_flags list_all2_appendI)
next
  case (write_group t served t' pend lg)
  have t: "tree_rep P t lg" "list_all2 writer_rep (writers t) pend" "log_fits (lg @ concat pend)" using inv write_group by (simp_all add: run_inv_def within_limits_def)
  obtain Wm Wi where h: "tree_holds P t Wm Wi lg" using t(1) by (auto simp: tree_rep_def)
  have "writers t \<noteq> []" using write_group(3) by (auto simp: Insert_group_def)
  then have ne: "pend \<noteq> []" using t(2) by auto
  obtain m Wm' where m: "m \<le> length pend" "tree_holds P t' Wm' Wi (lg @ concat (take m pend))" "writers t' = drop m (writers t)"
    "served = map (\<lambda>w. (writer_id w, StatusOK)) (take m (writers t))"
    using Insert_group_ok [OF h t(2) ne t(3)] write_group(3) by auto
  have "length served = m" using m(1,4) list_all2_lengthD [OF t(2)] by simp
  then show ?thesis using m(2,3) t(2) write_group(2) by (auto simp: run_inv_def tree_rep_def list_all2_dropI)
next
  case (switch usage force delay t pend lg)
  have t: "tree_rep P t lg" "list_all2 writer_rep (writers t) pend" using inv switch by (simp_all add: run_inv_def)
  have n: "tree_imm t = None" using switch(3) by (auto simp: make_room_def split: if_splits)
  obtain Wm Wi where h: "tree_holds P t Wm Wi lg" using t(1) by (auto simp: tree_rep_def)
  have "tree_holds P t Wm {} lg" using h imm_none(2) [OF tree_holdsD(3) [OF h] n] by simp
  from switch_ok [OF this n] have "tree_rep P (MakeRoom_switch t) lg" by (auto simp: MakeRoom_switch_def schedule_holds tree_rep_def)
  then show ?thesis using t(2) switch(2) by (simp add: run_inv_def MakeRoom_switch_def schedule_holds switch_memtable_def)
next
  case (flush_or_compact rt t t' pend lg)
  then have t: "tree_rep P t lg" "list_all2 writer_rep (writers t) pend" "log_fits lg" "unat (file_id (leveldb_lsmt t)) + 2 ^ 32 < 2 ^ 64"
    using inv log_fits_append [of lg "concat pend"] by (simp_all add: run_inv_def within_limits_def)
  then show ?thesis using background_ok [OF P ropt t(1) flush_or_compact(4,3) t(3,4) flush_or_compact(5)] flush_or_compact(2) by (simp add: run_inv_def)
next
  case (adapt_mem t t' pend lg)
  then have t: "tree_rep P t lg" "list_all2 writer_rep (writers t) pend" "log_fits lg" "unat (file_id (leveldb_lsmt t)) + 2 ^ 32 < 2 ^ 64"
    using inv log_fits_append [of lg "concat pend"] by (simp_all add: run_inv_def within_limits_def)
  then show ?thesis using adapt_ok(1) [OF P ropt t(1,3,4) adapt_mem(3)] adapt_mem(2) by (simp add: run_inv_def)
next
  case (adapt_imm t t' pend lg)
  then have t: "tree_rep P t lg" "list_all2 writer_rep (writers t) pend" "log_fits lg" "unat (file_id (leveldb_lsmt t)) + 2 ^ 32 < 2 ^ 64"
    using inv log_fits_append [of lg "concat pend"] by (simp_all add: run_inv_def within_limits_def)
  then show ?thesis using adapt_ok(2) [OF P ropt t(1,3,4) adapt_imm(3)] adapt_imm(2) by (simp add: run_inv_def)
next
  case (shut_down t pend lg)
  then show ?thesis using inv by (simp add: run_inv_def adapt_flags)
qed

lemma tree_reach_inv:
  assumes P: "port_ok P" and ropt: "icmp_comparator (comparator ropt)" and r: "tree_reach P ropt x"
  shows "run_inv P x"
  using r
proof induction
  case (tree_start limit flush_id mem_size file_max leaf)
  then show ?case using new_AhaTree_rep [of limit P flush_id mem_size file_max leaf] by (simp add: run_inv_def new_AhaTree_def)
next
  case (tree_next x y)
  then show ?case using run_inv_step [OF P ropt] by blast
qed

section \<open>Scans\<close>

lemma apart_sets:
  assumes "set xs = item_of ` U" "set ys = item_of ` V" "U \<inter> V = {}" "\<forall>w \<in> U \<union> V. write_ok w" "unique_versions (U \<union> V)"
  shows "ikeys.apart xs ys"
  unfolding ikeys.apart_def
proof (intro ballI notI)
  fix x y assume "x \<in> set xs" "y \<in> set ys" and e: "icmp (fst x) (fst y) = 0"
  then obtain v w where vw: "v \<in> U" "w \<in> V" "icmp (write_ikey v) (write_ikey w) = 0" using assms(1,2) by (auto simp: item_of_def)
  then have "(ukey v, seq v) = (ukey w, seq w)" using icmp_same_version [of v w] assms(4) by auto
  then have "v = w" using inj_onD [OF assms(5)] vw(1,2) by blast
  then show False using vw assms(3) by blast
qed

text \<open>Sources that hold disjoint sets of versions: a scan over them shows the newest versions of their union.\<close>

lemma scan_sources:
  assumes J: "sorted_iter ikey_ok icmp J ok items pos"
    and src: "list_all2 (\<lambda>it U. ok it \<and> set (items it) = item_of ` U) its Us" "sorted_wrt (\<lambda>U V. U \<inter> V = {}) Us"
    and W: "\<forall>w \<in> \<Union> (set Us). write_ok w" "unique_versions (\<Union> (set Us))" and low: "s \<le> kMaxSequenceNumber" "length low + 8 < 2 ^ 32"
  shows "\<exists>ys. WotDB_Scan Bytewise_Compare J its (length its) s low key2 select = Some (if 0 < select then take (nat select) ys else ys) \<and>
    sorted_wrt (<) (map fst ys) \<and> set ys = {(k, x). low \<le> k \<and> (key2 = [] \<or> k \<le> key2) \<and> newest (\<Union> (set Us)) k s (get_result.Found x)}"
proof (rule write_iter.scan_ok [OF write_iter.intro [OF J]])
  have L: "length its = length Us" "\<And>i. i < length Us \<Longrightarrow> ok (its ! i) \<and> set (items (its ! i)) = item_of ` (Us ! i)"
    using src(1) by (auto simp: list_all2_conv_all_nth)
  show "\<forall>it \<in> set its. ok it" using L by (auto simp: in_set_conv_nth)
  show "sorted_wrt ikeys.apart (map items its)"
    unfolding sorted_wrt_iff_nth_less
  proof (intro allI impI)
    fix i j assume ij: "i < j" "j < length (map items its)"
    then have d: "i < length Us" "j < length Us" "Us ! i \<inter> Us ! j = {}" using src(2) L(1) by (auto simp: sorted_wrt_iff_nth_less)
    have sub: "Us ! i \<union> Us ! j \<subseteq> \<Union> (set Us)" using nth_mem [OF d(1)] nth_mem [OF d(2)] by blast
    have "ikeys.apart (items (its ! i)) (items (its ! j))"
      by (rule apart_sets [OF _ _ d(3)]) (use L(2) [OF d(1)] L(2) [OF d(2)] W(1) sub inj_on_subset [OF W(2) sub] in auto)
    then show "ikeys.apart (map items its ! i) (map items its ! j)" using ij L(1) by simp
  qed
  have "(\<Union>it \<in> set its. set (items it)) = (\<Union>i < length Us. set (items (its ! i)))" unfolding UN_nth L(1) ..
  also have "\<dots> = (\<Union>i < length Us. item_of ` (Us ! i))" using L(2) by (intro SUP_cong) simp_all
  also have "\<dots> = item_of ` \<Union> (set Us)" unfolding image_Union UN_nth ..
  finally show "(\<Union>it \<in> set its. set (items it)) = item_of ` \<Union> (set Us)" .
  show "length its = 0 \<longrightarrow> plain s (\<Union> (set Us))" using L(1) by (simp add: plain_def)
qed (rule W low)+

lemma bottom_none: "bottom_from F n < 0 \<Longrightarrow> l < n \<Longrightarrow> F l = []"
  by (induction n) (auto simp: less_Suc_eq split: if_splits)

lemma tree_scan:
  assumes P: "port_ok P" and ropt: "icmp_comparator (comparator ropt)" and t: "tree_holds P t Wm Wi lg" and fit: "log_fits lg" and low: "length low + 8 < 2 ^ 32"
  shows "\<exists>ys. Tree_Scan P ropt t low key2 select = Some (if 0 < select then take (nat select) ys else ys) \<and> sorted_wrt (<) (map fst ys) \<and>
    set ys = {(k, x). low \<le> k \<and> (key2 = [] \<or> k \<le> key2) \<and> last_op k lg = Some (get_result.Found x)}"
proof -
  note D = tree_holdsD [OF t]
  let ?T = "level_tables P False icmp_options ropt" and ?Wl = "lsm_writes P t" and ?hot = "RangeWithinHotspot t low key2"
  let ?L = "any_iterator icmp (lsm_child_iterator (tab_ops ?T) (open_table ?T (tree_fs t)))" and ?s = "leveldb_lsmt t"
  have L: "lsm_inv table_size (table_run P) (tree_fs t) ?s" "has_hotspot ?s" using D(4) by (simp_all add: lsm_part_def)
  have fits: "fits ?Wl" using D(7) by (intro fits_subset [OF fits_log [OF fit, of 2]]) blast
  note T = level_tables_store [OF P icmp_options_ok(1) ropt, of False]
  obtain a ws okJ itemsJ posJ where a: "NewMergedIterator (tab_ops ?T) (open_table ?T (tree_fs t)) ?s = Some a" "sorted_iter ikey_ok icmp ?L okJ itemsJ posJ"
    "okJ a" "itemsJ a = map item_of ws" "set ws = ?Wl" using table_store.NewMergedIterator_ok [OF T L(1) fits] by blast
  let ?ok = "case_sum mem_iter_ok okJ" and ?items = "case_sum mem_items itemsJ"
  note J = either_sorted [OF mem_sorted a(2)]
  have mem: "mem_iter_ok (MemTable_NewIterator m) \<and> set (mem_items (MemTable_NewIterator m)) = item_of ` W" if "mem_rep m W" for m W
    using that mem_rep_items(2) [OF that] by (auto simp: mem_iter_ok_def MemTable_NewIterator_def item_of_def)
  let ?src = "\<lambda>it U. ?ok it \<and> set (?items it) = item_of ` U"
  obtain U1 where U1: "list_all2 ?src (DoAddMemToIter t ?hot) U1" "U1 = [] \<and> Wm = {} \<or> U1 = [Wm]"
  proof (cases "mem_empty t \<or> ?hot \<and> mem_cold_only t")
    case True
    then have "DoAddMemToIter t ?hot = []" "Wm = {}" using D(2) by (auto simp: DoAddMemToIter_def)
    then show ?thesis using that [of "[]"] by simp
  next
    case False
    then have "DoAddMemToIter t ?hot = [Inl (MemTable_NewIterator (tree_mem t))]" by (auto simp: DoAddMemToIter_def)
    then show ?thesis using that [of "[Wm]"] mem [OF D(1)] by simp
  qed
  obtain im U2 where U2: "DoAddImmToIter t ?hot = Some im" "list_all2 ?src im U2" "U2 = [] \<and> Wi = {} \<or> U2 = [Wi]"
  proof (cases "\<not> has_imm t \<or> ?hot \<and> imm_cold_only t")
    case True
    then have "Wi = {}" using D(3) by (auto simp: imm_rep_def split: option.splits)
    moreover have "DoAddImmToIter t ?hot = Some []" using True by (auto simp: DoAddImmToIter_def)
    ultimately show ?thesis using that [of "[]" "[]"] by simp
  next
    case False
    then obtain m where m: "tree_imm t = Some m" "mem_rep m Wi" using D(3) by (auto simp: imm_rep_def split: option.splits)
    moreover from this have "DoAddImmToIter t ?hot = Some [Inl (MemTable_NewIterator m)]" using False by (auto simp: DoAddImmToIter_def)
    ultimately show ?thesis using that [of "[Inl (MemTable_NewIterator m)]" "[Wi]"] mem [OF m(2)] by simp
  qed
  obtain ls U3 where U3: "DoAddLSMTtoIter P ropt t ?hot = Some ls" "list_all2 ?src ls U3" "U3 = [] \<and> ?Wl = {} \<or> U3 = [?Wl]"
  proof (cases "GetBottomLevel ?s < 0")
    case True
    have "files ?s l = []" for l
      using bottom_none [of "files ?s" kNumLevels l] lsm_invD(5) [OF L(1), of l] True by (cases "l < kNumLevels") (auto simp: GetBottomLevel_def)
    then have "?Wl = {}" by (simp add: all_writes_def level_writes_def)
    then show ?thesis using that [of "[]" "[]"] True by (simp add: DoAddLSMTtoIter_def)
  next
    case False
    then show ?thesis using that [of "[Inr a]" "[?Wl]"] L(2) a(1,3-5) by (simp add: DoAddLSMTtoIter_def)
  qed
  let ?its = "DoAddMemToIter t ?hot @ im @ ls" and ?Us = "U1 @ U2 @ U3"
  have all: "list_all2 ?src ?its ?Us" by (intro list_all2_appendI U1(1) U2(2) U3(2))
  have U: "\<Union> (set ?Us) = Wm \<union> Wi \<union> ?Wl" using U1(2) U2(3) U3(3) by auto
  have dj: "Wm \<inter> Wi = {}" "Wm \<inter> ?Wl = {}" "Wi \<inter> ?Wl = {}" using D(5,6) by blast+
  then have sw: "sorted_wrt (\<lambda>U V. U \<inter> V = {}) ?Us" using U1(2) U2(3) U3(3) by auto
  have wok: "\<forall>w \<in> \<Union> (set ?Us). write_ok w" unfolding U using D(7) log_seq(2) [OF fit] by blast
  have uv: "unique_versions (\<Union> (set ?Us))" unfolding U
    by (rule inj_on_subset [OF _ D(7)]) (use batch_writes_unique [OF log_ops_fit [OF fit]] in \<open>auto simp: inj_on_def\<close>)
  have sn: "seq_no t \<le> kMaxSequenceNumber" using D(9) log_fits_length [OF fit] by (simp add: kMax_unat)
  have top: "\<forall>w \<in> (Wm \<union> Wi \<union> ?Wl) \<union> batch_writes 2 lg. seq w \<le> seq_no t"
    using D(7,9) log_seq(1) [OF fit] by (auto simp: word_le_nat_alt)
  have N: "newest (\<Union> (set ?Us)) k (seq_no t) (get_result.Found x) \<longleftrightarrow> last_op k lg = Some (get_result.Found x)" for k x
    unfolding U using D(8) top newest_log [OF log_ops_fit [OF fit], of "seq_no t" k x] D(9) unfolding same_reads_def by simp
  have S: "Tree_Scan P ropt t low key2 select =
      WotDB_Scan Bytewise_Compare (tree_child_iterator P ropt (tree_fs t)) ?its (length ?its) (seq_no t) low key2 select"
    using U2(1) U3(1) by (simp add: Tree_Scan_def State_NewIterator_def Let_def)
  from scan_sources [OF J all sw wok uv sn low, of key2 select] show ?thesis
    unfolding S N tree_child_iterator_def Let_def .
qed

section \<open>Properties\<close>

text \<open>C1. The index refines a log. In every run of queued writers, group writes, memtable switches, flushes of memtables to tables and
  compactions of the LSM tree, from an empty index on and in any order, a scan returns, in key order, exactly the keys of its range whose
  last operation in the batches written so far is a put, each with the value of that put; with a positive limit the first that many.
  The run stays below a gigabyte of operations and uses batches marked hot, as the driver makes them by default (with cold batches the
  statement fails: \<open>mixed_group_lost\<close>); a compaction is run at a level above the deepest one, and for its size only where there are files
  (\<^const>\<open>compaction_due\<close>); the LSM tree has not been flushed into the nodes of the B+-tree. A step that fails an assertion or aborts ends the run.\<close>

theorem tree_scan_reads_log:
  assumes "port_ok P" "icmp_comparator (comparator ropt)" "tree_reach P ropt (t, pend, lg)" "within_limits (t, pend, lg)" "length low + 8 < 2 ^ 32"
  shows "\<exists>ys. Tree_Scan P ropt t low key2 select = Some (if 0 < select then take (nat select) ys else ys) \<and> sorted_wrt (<) (map fst ys) \<and>
    set ys = {(k, x). low \<le> k \<and> (key2 = [] \<or> k \<le> key2) \<and> last_op k lg = Some (get_result.Found x)}"
proof -
  obtain Wm Wi where held: "tree_holds P t Wm Wi lg" using tree_reach_inv [OF assms(1-3)] by (auto simp: run_inv_def tree_rep_def)
  have fit: "log_fits lg" using assms(4) log_fits_append [of lg "concat pend"] by (simp add: within_limits_def)
  show ?thesis by (rule tree_scan) (fact assms held fit)+
qed

lemma Insert_group_frame:
  "Insert_group t = Some (served, t') \<Longrightarrow> shutting_down t' = shutting_down t \<and> has_imm t' = has_imm t \<and> compaction_scheduled t' = compaction_scheduled t \<and>
    tree_imm t' = tree_imm t \<and> leveldb_lsmt t' = leveldb_lsmt t \<and> tree_fs t' = tree_fs t"
proof -
  assume a: "Insert_group t = Some (served, t')"
  obtain w rest where w: "writers t = w # rest" using a by (cases "writers t") (simp_all add: Insert_group_def)
  show ?thesis
  proof (cases "writer_batch w")
    case None
    then show ?thesis using a w by (auto simp: Insert_group_def)
  next
    case (Some b)
    obtain res n where "BuildBatchGroup (writers t) (tmp_batch t) = Inr (res, n)"
      using a w Some by (cases "BuildBatchGroup (writers t) (tmp_batch t)") (auto simp: Insert_group_def)
    then show ?thesis using a w Some by (auto simp: Insert_group_def Let_def)
  qed
qed

lemma ApplyFileChanges_file_id: "ApplyFileChanges level added del s = Some s' \<Longrightarrow> file_id s' = file_id s"
  by (auto simp: ApplyFileChanges_def Let_def split: if_splits)

lemma AddFile_standalone:
  assumes "lsmt_status s = kStandalone" "AddFile T level f page (fs, s) = Some (st, fs', s')"
  shows "file_id s' = file_id s"
proof -
  obtain s1 where s1: "(if level > 0 then ApplyFileChanges level [add_meta f] {} s else Some (append_level level [add_meta f] s)) = Some s1" "s' = Finalize s1"
    using assms unfolding AddFile_def prod.case bind_eq_Some_conv by (elim exE conjE) auto
  have "file_id s1 = file_id s" using s1(1) ApplyFileChanges_file_id by (auto simp: append_level_def split: if_splits)
  then show ?thesis using s1(2) Finalize_content [of s1] by (simp add: same_content_def)
qed

lemma CompactMemTable_frame:
  assumes c: "CompactMemTable P ropt t = Some t'" and s: "lsmt_status (leveldb_lsmt t) = kStandalone"
  shows "tree_mem t' = tree_mem t \<and> file_id (leveldb_lsmt t') = file_id (leveldb_lsmt t) + 1"
proof -
  obtain m where m: "tree_imm t = Some m" using c by (cases "tree_imm t") (simp_all add: CompactMemTable_def)
  let ?n = "file_id (leveldb_lsmt t) + 1"
  let ?sn = "(leveldb_lsmt t)\<lparr>file_id := ?n\<rparr>"
  obtain st meta cache fs where B: "BuildTable mem_env P icmp_options 0 (memtable_iterator Bytewise_Compare) (MemTable_NewIterator m) StatusOK
      Map.empty (flush_meta ?n (entry_num m)) (tree_fs t) = Some (st, meta, cache, fs)"
    using c m by (auto simp: CompactMemTable_def Let_def bind_eq_Some_conv)
  show ?thesis
  proof (cases "st = StatusOK \<and> \<not> shutting_down t \<and> file_size meta > 0")
    case True
    then obtain level fs' s' st' where "AddFile (level_tables P False icmp_options ropt) level meta None (fs, ?sn) = Some (st', fs', s')"
      "tree_mem t' = tree_mem t" "file_id (leveldb_lsmt t') = file_id s'"
      using c m B by (auto simp: CompactMemTable_def Let_def bind_eq_Some_conv SetHotspot_def)
    then show ?thesis using AddFile_standalone [of ?sn] s by simp
  next
    case False
    then show ?thesis using c m B by (auto simp: CompactMemTable_def Let_def split: if_splits)
  qed
qed

definition demo_batch :: "batch_op list \<Rightarrow> bool \<Rightarrow> write_batch" where
  "demo_batch ops hot = (fold apply_op ops (Clear \<lparr>wb_rep = [], has_hot = True\<rparr>))\<lparr>has_hot := hot\<rparr>"

lemma demo_batch_rep: "\<forall>x \<in> set ops. op_ok x \<Longrightarrow> batch_rep (demo_batch ops hot) 0 ops"
  using batch_rep_fold [OF batch_rep_Clear, of ops] by (simp add: demo_batch_def batch_rep_def)

text \<open>A put is written, and the memtable is flushed to a table: the scan finds the put in the LSM tree.\<close>

theorem tree_scan_reads_log_witness:
  "\<exists>t. tree_reach no_port icmp_options (t, [], [OpPut [1] [2]]) \<and> tree_imm t = None \<and> tree_mem t = MemTable_Ref new_MemTable \<and>
    Tree_Scan no_port icmp_options t [] [] 0 = Some [([1], [2])]"
proof -
  let ?P = no_port and ?o = icmp_options and ?ops = "[OpPut [1] [2]]"
  let ?t = "new_AhaTree 1 4096 2097152 (-1) 4"
  let ?w = "\<lparr>writer_id = 0, writer_batch = Some (demo_batch ?ops True), writer_sync = False\<rparr>"
  note ok = no_port_ok icmp_options_ok(2)
  have w: "writer_rep ?w ?ops" using demo_batch_rep [of ?ops True] by (auto simp: writer_rep_def demo_batch_def)
  have fits: "log_fits []" "log_fits ?ops" by (simp_all add: log_fits_def)
  have lim: "within_limits (u, pend, l)" if "file_id (leveldb_lsmt u) \<in> {1, 2}" "l @ concat pend \<in> {[], ?ops}" for u pend l
  proof -
    have "l @ concat pend = [] \<or> l @ concat pend = ?ops" using that(2) by blast
    then have "log_fits (l @ concat pend)" using fits by (elim disjE) (simp_all only:)
    moreover have "unat (file_id (leveldb_lsmt u)) \<le> 2" using that(1) by auto
    ultimately show ?thesis by (simp add: within_limits_def)
  qed
  have f0: "leveldb_lsmt ?t = new_LevelDBLSMT 1 2097152 (-1) kStandalone 4" "writers ?t = []" "file_id (leveldb_lsmt ?t) = 1"
    by (simp_all add: new_AhaTree_def new_LevelDBLSMT_def)
  let ?u = "?t\<lparr>writers := [?w]\<rparr>"
  have r0: "tree_reach ?P ?o (?t, [], [])" by (rule tree_start) simp
  have r1: "tree_reach ?P ?o (?u, [?ops], [])"
    by (rule tree_next [OF r0]) (use lim [of ?t] f0 enqueue [OF w, of ?P ?o ?t "[]" "[]"] in simp_all)
  have i1: "tree_rep ?P ?u []" "list_all2 writer_rep (writers ?u) [?ops]" using tree_reach_inv [OF ok r1] by (simp_all add: run_inv_def)
  obtain Wm Wi where h1: "tree_holds ?P ?u Wm Wi []" using i1(1) by (auto simp: tree_rep_def)
  note fit = fits(2)
  obtain served v where v: "Insert_group ?u = Some (served, v)" "length served = 1"
    using Insert_group_ok [OF h1 i1(2)] fit by (auto simp: le_Suc_eq)
  have r2: "tree_reach ?P ?o (v, [], ?ops)"
    by (rule tree_next [OF r1]) (use lim [of ?u] f0 write_group [OF v(1), of ?P ?o "[?ops]" "[]"] v(2) in simp_all)
  note F = Insert_group_frame [OF v(1)]
  have n: "\<not> shutting_down v" "\<not> has_imm v" "\<not> compaction_scheduled v" "tree_imm v = None" "file_id (leveldb_lsmt v) = 1" "lsmt_status (leveldb_lsmt v) = kStandalone"
    using F f0 by (simp_all add: new_AhaTree_def new_LevelDBLSMT_def)
  obtain Vm Vi where h2: "tree_holds ?P v Vm Vi ?ops" using tree_reach_inv [OF ok r2] by (auto simp: run_inv_def tree_rep_def)
  let ?s = "switch_memtable v"
  have h3: "tree_holds ?P ?s {} Vm ?ops" using switch_ok [OF _ n(4), of ?P Vm ?ops] h2 imm_none(2) [OF tree_holdsD(3) [OF h2] n(4)] by simp
  have s: "tree_imm ?s = Some (tree_mem v)" "leveldb_lsmt ?s = leveldb_lsmt v" "tree_mem ?s = MemTable_Ref new_MemTable" "\<not> shutting_down ?s"
    using n(1) by (simp_all add: switch_memtable_def)
  obtain x where x: "CompactMemTable ?P ?o ?s = Some x" "tree_imm x = None"
    using CompactMemTable_ok [OF ok h3 s(1) fit] s(2,4) n(5) by auto
  let ?x = "x\<lparr>pushdown_mem := False, scheduled_flush_num := scheduled_flush_num x - 1\<rparr>"
  have a: "AdaptMem ?P ?o v = Some ?x" using n(1-3) x(1) by (simp add: AdaptMem_def Let_def)
  have r3: "tree_reach ?P ?o (?x, [], ?ops)"
    by (rule tree_next [OF r2 _ adapt_mem [OF a]]) (use lim [of v] n(5) in simp)
  note G = CompactMemTable_frame [OF x(1)]
  have l3: "within_limits (?x, [], ?ops)" using G s(2) n(5,6) by (intro lim) simp_all
  obtain ys where ys: "Tree_Scan ?P ?o ?x [] [] 0 = Some ys" "sorted_wrt (<) (map fst ys)"
    "set ys = {(k, z). [] \<le> k \<and> last_op k ?ops = Some (get_result.Found z)}"
    using tree_scan_reads_log [OF ok r3 l3, of "[]" "[]" 0] by auto
  have "set ys = {([1], [2])}" using ys(3) by (auto simp: write_result_def split: if_splits)
  then have "ys = [([1], [2])]" using ys(2) by (cases ys; cases "tl ys") auto
  then show ?thesis using r3 x(2) ys(1) G s n(6) by (intro exI [of _ ?x]) simp
qed

text \<open>
  The flag of the first writer decides for the whole group: a hot batch that is appended to the group of a cold one leaves the
  memtable marked cold, and scans of the hot range leave the memtable out.
\<close>

definition mixed_group :: AhaTree where
  "mixed_group = (new_AhaTree 1 4096 2097152 (-1) 4)\<lparr>low_hot_key := [5], up_hot_key := [9],
     writers := [\<lparr>writer_id = 0, writer_batch = Some (demo_batch [OpPut [1] [0]] False), writer_sync = False\<rparr>,
                 \<lparr>writer_id = 1, writer_batch = Some (demo_batch [OpPut [7] [1]] True), writer_sync = False\<rparr>]\<rparr>"

lemma mixed_group_lost:
  "\<exists>t. Insert_group mixed_group = Some ([(0, StatusOK), (1, StatusOK)], t) \<and> seq_no t = 3 \<and> Tree_Scan P ropt t [7] [7] 0 = Some [] \<and>
    last_op [7] [OpPut [1] [0], OpPut [7] [1]] = Some (get_result.Found [1])"
proof -
  let ?a = "demo_batch [OpPut [1] [0]] False" and ?b = "demo_batch [OpPut [7] [1]] True" and ?tmp = "Clear \<lparr>wb_rep = [], has_hot = True\<rparr>"
  let ?ops = "[OpPut [1] [0], OpPut [7] [1]]"
  have a: "batch_rep ?a 0 [OpPut [1] [0]]" and b: "batch_rep ?b 0 [OpPut [7] [1]]" by (rule demo_batch_rep, simp)+
  have tmp: "batch_rep ?tmp 0 []" by (rule batch_rep_Clear)
  obtain r where r: "Batch_Append ?tmp ?a = Inr r" "batch_rep r 0 [OpPut [1] [0]]" using batch_rep_Append [OF tmp a] by auto
  obtain c where c: "Batch_Append r ?b = Inr c" "batch_rep c 0 ?ops" using batch_rep_Append [OF r(2) b] by auto
  have sz: "ByteSize ?a \<le> 100" "ByteSize ?b \<le> 100" using a b by (simp_all add: ByteSize_def batch_rep_def put_slice_defs EncodeVarint32_def)
  have G: "BuildBatchGroup (writers mixed_group) ?tmp = Inr (Some c, 1)"
    using sz r(1) c(1) batch_rep_fields(1) [OF tmp] by (simp add: BuildBatchGroup_def mixed_group_def Let_def)
  have rep: "batch_rep (SetSequence c 2) 2 ?ops" by (rule batch_rep_SetSequence [OF c(2)])
  have new: "mem_rep (MemTable_Ref new_MemTable) {}" using mem_rep_new by (simp add: MemTable_Ref_def mem_rep_def)
  obtain m where m: "InsertInto Bytewise_Compare (SetSequence c 2) (MemTable_Ref new_MemTable) = Some (StatusOK, m)"
    using insert_batch [OF new _ _ rep] by (auto simp: ops_fit_def)
  have st: "tmp_batch mixed_group = ?tmp" "seq_no mixed_group = 1" "tree_mem mixed_group = MemTable_Ref new_MemTable" "mem_cold_only mixed_group"
    by (simp_all add: mixed_group_def new_AhaTree_def)
  let ?t = "mixed_group\<lparr>seq_no := 3, mem_empty := False, mem_cold_only := True, tree_mem := m, tmp_batch := Clear c, writers := []\<rparr>"
  have hot: "has_hot ?a = False" by (simp add: demo_batch_def)
  have I: "Insert_group mixed_group = Some ([(0, StatusOK), (1, StatusOK)], ?t)"
  proof -
    have w: "writers mixed_group = [\<lparr>writer_id = 0, writer_batch = Some ?a, writer_sync = False\<rparr>, \<lparr>writer_id = 1, writer_batch = Some ?b, writer_sync = False\<rparr>]"
      by (simp add: mixed_group_def)
    show ?thesis unfolding Insert_group_def st(1) G using m st hot batch_rep_fields(1) [OF rep] w by (simp add: Let_def)
  qed
  have "RangeWithinHotspot ?t [7] [7]" by (simp add: RangeWithinHotspot_def mixed_group_def)
  moreover have "\<not> has_imm ?t" "GetBottomLevel (leveldb_lsmt ?t) < 0"
    by (simp_all add: mixed_group_def new_AhaTree_def new_LevelDBLSMT_def GetBottomLevel_def kNumLevels_def numeral_eq_Suc)
  ultimately have "State_NewIterator P ropt ?t [7] [7] = Some []"
    by (simp add: State_NewIterator_def DoAddMemToIter_def DoAddImmToIter_def DoAddLSMTtoIter_def)
  moreover have "WotDB_Scan Bytewise_Compare (tree_child_iterator P ropt (tree_fs ?t)) [] 0 3 [7] [7] 0 = Some []"
  proof -
    obtain saved where "AppendInternalKey [] \<lparr>user_key = [7], sequence_no = 3, val_type = kValueTypeForSeek\<rparr> = Inr saved"
      using seek_key [of 3 "[7]"] by (auto simp: kMaxSequenceNumber_def)
    then show ?thesis
      by (simp add: WotDB_Scan_def SeekBothEnds_def InitInnerIter_def NewMergingIterator_def any_iterator_def any_move_def Let_def
        new_SortedTreeIterator_def) (subst db_scan_loop.simps, simp add: SortedTree_Valid_def)
  qed
  ultimately show ?thesis using I by (intro exI [of _ ?t]) (simp add: Tree_Scan_def write_result_def)
qed

end
