(* ===== verification/Spec2Isabelle.thy ===== *)
theory Spec2Isabelle
  imports Coding SliceCmp DbFormat TreePageOps NodePageCorrect OptLock BufferPoolCorrect
    LockWait Bloom WriteBatch BtreeOlcInsert TreeIter BlockCorrect Crc32c AhaTreeScan
begin

text \<open>
  A verification library for the adaptive hotspot-aware index (\<^verbatim>\<open>src/src\<close>): an index that takes writes into a memtable, keeps them in an
  LSM tree of sorted tables, and moves the parts that are scanned often into the nodes and pages of a B+-tree; next to it a
  B-tree with optimistic lock coupling, which the program offers as a baseline and which shares the pages and the buffer pool.

  \<^bold>\<open>The parts and how they work together.\<close>
  A write is a \<^emph>\<open>write batch\<close>, a byte string of operations. Writers queue up in \<^emph>\<open>the top of the index\<close> (\<^verbatim>\<open>wot_index.cc\<close>,
  \<^verbatim>\<open>aha_tree/aha_tree.cc\<close>); the first writes a group of batches with consecutive sequence numbers into the \<^emph>\<open>memtable\<close>, a
  \<^emph>\<open>skip list\<close> of encoded entries ordered by the \<^emph>\<open>internal key format\<close>. A full memtable becomes immutable and the background thread
  writes it with \<^emph>\<open>BuildTable\<close> to a \<^emph>\<open>table\<close>: data blocks with shared prefixes, an index block of separators, a \<^emph>\<open>Bloom filter\<close>
  block, a footer, each block with a CRC-32C. The table is added to the \<^emph>\<open>LSM tree\<close> (\<^verbatim>\<open>lsmt/lsmt_leveldb.cc\<close>), whose compactions merge
  tables of neighbouring levels and drop versions that are hidden. A \<^emph>\<open>scan\<close> merges the iterators of the memtables and of the LSM tree
  and shows the newest visible version of every key. The B+-tree keeps its nodes on \<^emph>\<open>slotted pages\<close> in the \<^emph>\<open>buffer pool\<close> over a page file,
  under the \<^emph>\<open>lock manager\<close> of reader/writer locks per page; the optimistic B-tree keeps a version lock in the header of each page.

  \<^bold>\<open>Theories and sources.\<close> Operations keep the names of the code; a record stands for a class, \<open>result\<close> or \<open>option\<close> for code that
  can fail (a failed assertion, an abort, a null pointer that is followed), words for the integers whose wrap-around matters.
  \<^item> \<open>Prelude\<close>: types of bytes and slices, results, generic lemmas. \<open>Status\<close>: \<^verbatim>\<open>util/status.cc\<close>. \<open>Coding\<close>: \<^verbatim>\<open>util/coding.cc\<close>;
    fixed and variable length integers, decoding undoes encoding.
  \<^item> \<open>SliceCmp\<close>, \<open>DbFormat\<close>: comparators (locales \<open>key_order\<close> and \<open>key_comparator\<close>), internal keys, separators.
  \<^item> \<open>Crc32c\<close>: \<^verbatim>\<open>util/crc32c.cc\<close>; the table-driven routine with four interleaved strides equals the bitwise definition.
  \<^item> \<open>SkipList\<close>, \<open>SkipListCorrect\<close>, \<open>MemTable\<close>, \<open>WriteBatch\<close>: \<^verbatim>\<open>leveldb/skiplist.h\<close>, \<^verbatim>\<open>memtable.cc\<close>, \<^verbatim>\<open>write_batch.cc\<close>; links and order of all
    levels, termination of the searches, lookup of the newest visible version, replay of a batch.
  \<^item> \<open>MergeIter\<close>, \<open>MemIter\<close>, \<open>TwoLevel\<close>: the iterator interface as a record and its contract as the locale \<open>sorted_iter\<close> (an iterator is a
    cursor on a sorted list); the merging and the two-level iterator satisfy the contract when their parts do. The memtable, block, table,
    file and level iterators are its interpretations.
  \<^item> \<open>TreeIter\<close>: \<open>SortedTreeIterator\<close> and the driver's scan; what a scan shows of a set of versions.
  \<^item> \<open>Block\<close>, \<open>BlockCorrect\<close>, \<open>Bloom\<close>: \<^verbatim>\<open>table/block_builder.cc\<close>, \<^verbatim>\<open>block.cc\<close>, \<^verbatim>\<open>filter_block.cc\<close>, \<^verbatim>\<open>util/bloom.cc\<close>; blocks are read back exactly, filters
    have no false negatives (locale \<open>filter_policy\<close>).
  \<^item> \<open>TableFormat\<close>, \<open>TableBuild\<close>, \<open>TableRead\<close>, \<open>TableCache\<close> (\<^verbatim>\<open>table/format.cc\<close>, \<^verbatim>\<open>table_builder.cc\<close>, \<^verbatim>\<open>table.cc\<close>, \<^verbatim>\<open>table_cache.cc\<close>, \<^verbatim>\<open>builder.cc\<close>) with
    \<open>TableCorrect\<close>, \<open>TableReadCorrect\<close>, \<open>BuildTableCorrect\<close>: what the builder writes, the reader reads.
  \<^item> \<open>Lsmt\<close>, \<open>Compaction\<close> (\<^verbatim>\<open>lsmt/lsmt.h\<close>, \<^verbatim>\<open>lsmt_leveldb.cc\<close>): files, levels, choice of inputs, the compaction loop, installing results, adding files.
    \<open>LsmtCorrect\<close>: searches and selections. \<open>CompactionCorrect\<close>: what the loop writes. \<open>LsmTree\<close>, \<open>LsmInstall\<close>, \<open>LsmStore\<close>,
    \<open>LsmCompact\<close>, \<open>LsmCompactOps\<close>, \<open>LsmOps\<close>: the invariant of the tree over any store of tables (locale \<open>table_store\<close>), and that compactions and
    additions keep it and what readers see. \<open>TableStore\<close> interprets the locale on the tables of the code.
  \<^item> \<open>AhaTree\<close>, \<open>AhaTreeCorrect\<close>, \<open>AhaTreeScan\<close>: the top of the index; it refines a log of operations, and a scan reads the log.
  \<^item> \<open>TreePage\<close>, \<open>SlottedPage\<close>, \<open>NodeSearch\<close>, \<open>TreePageCorrect\<close>, \<open>TreePageOps\<close>: \<^verbatim>\<open>wot_buf_mgr/tree_page.cc\<close> on page bytes, against entry lists
    (locales \<open>node_probe\<close>, \<open>entry_page\<close>). \<open>NodePage\<close>, \<open>NodePageCorrect\<close>: \<^verbatim>\<open>node_page.h\<close>, upserts, splits and routing.
  \<^item> \<open>BufferPool\<close>, \<open>BufferPoolCorrect\<close>, \<open>PageStore\<close>: \<^verbatim>\<open>tree_buffer.cc\<close>, \<^verbatim>\<open>free_space.cc\<close>, and the contract clients rely on (locale \<open>page_store\<close>, interpreted
    on the sharded pool).
  \<^item> \<open>OptLock\<close>: the version lock of \<^verbatim>\<open>tree_page.h\<close> over all interleavings. \<open>BtreeOlc\<close>, \<open>BtreeOlcCorrect\<close>, \<open>BtreeOlcOps\<close>, \<open>BtreeOlcScan\<close>, \<open>BtreeOlcInsert\<close>:
    \<^verbatim>\<open>btree/btree_olc.h\<close>, one call at a time over a buffer manager, against the map the tree represents.
  \<^item> \<open>LockManager\<close>, \<open>LockWait\<close>: \<^verbatim>\<open>wot_lock_mgr\<close>; interleavings of the mutex sections of all threads, locks that are deleted and their
    addresses reused, threads asleep on the condition variable; exclusion, no fault, no lost wake-up, and the deadlock of two escalations.

  \<^bold>\<open>Bounds and loops.\<close> Loops whose end is not structural are functions with a termination measure; loops that end only
  under an invariant (searches in a skip list, scans, compactions, building a table) are partial functions in \<open>option\<close>, and the properties
  state that they return. The restart loops of the optimistic B-tree take fuel; a call that runs alone needs one round. Table properties
  hold for data below a gigabyte, counting 100 bytes more for each entry (\<open>weight\<close>, \<open>fits\<close>, \<open>log_fits\<close>), which keeps the 32-bit offsets of blocks
  from wrapping; a run of the index keeps \<open>2 ^ 32\<close> file numbers in reserve, more than one compaction of such data can use. The lock
  properties are for fewer than \<open>2 ^ 32\<close> threads, since the counters are 32-bit words.

  \<^bold>\<open>Parameters.\<close> The compression libraries (\<open>Port\<close>) with the assumption that decompressing undoes compressing (\<open>port_ok\<close>, satisfied by
  \<open>no_port\<close>, the build without libraries); the operations of the file system, with an instance on files in memory; the memory an arena takes.

  \<^bold>\<open>What is not modelled.\<close> Flushing the LSM tree into the nodes of the B+-tree, the nodes themselves and the iterators over their pages
  (\<open>AhaTree\<close> covers the index while the B+-tree is one empty leaf); the adaptation strategies, which decide when that happens; the
  buffer tree and the latched B-tree, two baselines; splits of the optimistic B-tree are modelled but its insertion theorem is for paths
  without a full page; threads interleaved within the sections in which the top of the index releases its mutex; errors of the file
  system in compactions (they are modelled for tables); weak memory ordering; caches (a map from which entries may disappear), the
  arena, the environment, logging, statistics, and the benchmark driver apart from its scan.
\<close>

end
